(* ===== verification/Prelude.thy ===== *)
theory Prelude
  imports Main "HOL-Library.Word" "HOL-Library.Product_Lexorder" "HOL-Library.List_Lexorder"
begin

text \<open>
  The vocabulary shared by every component of the development: Rust's machine integers as
  words, byte strings, \<open>Result\<close> as a sum, \<open>BTreeMap\<close> and \<open>BTreeSet\<close> as strictly sorted
  lists, and the generic lemmas that carry the component proofs.

  Rust's \<open>u64 + 1\<close> wraps in the release profile of the workspace (\<open>Cargo.toml\<close> turns no
  overflow check on), so counters are words and \<open>+\<close> is the wrapping addition. \<open>Vec<u8>\<close>,
  \<open>Bytes\<close> and \<open>&[u8]\<close> are lists of bytes; their \<open>Ord\<close> is the lexicographic order of
  \<open>List_Lexorder\<close>, in which a proper prefix is smaller. A \<open>String\<close> is the list of its UTF-8
  bytes.
\<close>

section \<open>Machine integers, bytes and results\<close>

type_synonym u8 = "8 word"
type_synonym u32 = "32 word"
type_synonym u64 = "64 word"
type_synonym bytes = "u8 list"

named_theorems btree_simps \<open>rewriting of the BTreeMap operations on well-formed maps\<close>
named_theorems keeps_ok \<open>operations keep the BTreeMap invariant\<close>

lemma unat_succ: "x \<noteq> -1 \<Longrightarrow> unat ((x::'a::len word) + 1) = Suc (unat x)"
  using unatSuc[of x] by (simp add: add.commute add_eq_0_iff)

lemma word_less_succ: "x \<noteq> -1 \<Longrightarrow> (x::'a::len word) < x + 1"
  by (simp add: word_less_nat_alt unat_succ)

lemma word_le_succ: "x \<noteq> -1 \<Longrightarrow> (x::'a::len word) \<le> x + 1"
  by (simp add: word_le_nat_alt unat_succ)

lemma word_less_succ_iff: "x \<noteq> -1 \<Longrightarrow> ((y::'a::len word) < x + 1) = (y \<le> x)"
  by (simp add: word_less_nat_alt word_le_nat_alt unat_succ less_Suc_eq_le)

lemma word_succ_neq_self [simp]: "(x::'a::len word) + 1 \<noteq> x"
  by simp

definition saturating_add :: "u64 \<Rightarrow> u64 \<Rightarrow> u64" where
  "saturating_add a b = (if a + b < a then -1 else a + b)"

definition saturating_sub :: "u64 \<Rightarrow> u64 \<Rightarrow> u64" where
  "saturating_sub a b = (if a < b then 0 else a - b)"

lemma unat_add_wraps: "(a::'a::len word) + b < a \<longleftrightarrow> 2 ^ LENGTH('a) \<le> unat a + unat b"
  using no_olen_add_nat[of a b] by (simp add: not_le[symmetric])

lemma unat_max_u64 [simp]: "unat (- 1 :: u64) = 18446744073709551615"
  by (simp add: unsigned_minus_1_eq_mask mask_eq_exp_minus_1)

lemma unat_saturating_add: "unat (saturating_add a b) = min (unat a + unat b) (2 ^ 64 - 1)"
proof (cases "a + b < a")
  case True
  then show ?thesis using unat_add_wraps[of a b] by (simp add: saturating_add_def)
next
  case False
  then have "unat a + unat b < 2 ^ 64" using unat_add_wraps[of a b] by simp
  then show ?thesis using False by (simp add: saturating_add_def unat_word_ariths)
qed

lemma unat_saturating_sub: "unat (saturating_sub a b) = unat a - unat b"
  by (auto simp: saturating_sub_def word_less_nat_alt unat_sub word_le_nat_alt)

lemma Nil_le_bytes [simp]: "[] \<le> (xs::'a::order list)"
  by (cases xs) (auto simp: list_le_def)

lemma not_bytes_less_Nil [simp]: "\<not> (xs::'a::order list) < []"
  by (cases xs) auto

definition is_ok :: "'e + 'a \<Rightarrow> bool" where
  "is_ok r = (case r of Inl _ \<Rightarrow> False | Inr _ \<Rightarrow> True)"

lemma is_ok_simps [simp]: "is_ok (Inr x)" "\<not> is_ok (Inl e)"
  by (simp_all add: is_ok_def)

lemma is_ok_unit: "is_ok r \<longleftrightarrow> r = Inr ()"
  by (cases r) auto

text \<open>A fallible computation followed by another: Rust's \<open>?\<close>.\<close>

definition bind_res :: "'e + 'a \<Rightarrow> ('a \<Rightarrow> 'e + 'b) \<Rightarrow> 'e + 'b" where
  "bind_res r f = (case r of Inl e \<Rightarrow> Inl e | Inr x \<Rightarrow> f x)"

lemma bind_res_simps [simp]:
  "bind_res (Inl e) f = Inl e"
  "bind_res (Inr x) f = f x"
  by (simp_all add: bind_res_def)

lemma bind_res_eq_Inr: "bind_res r f = Inr y \<longleftrightarrow> (\<exists>x. r = Inr x \<and> f x = Inr y)"
  by (cases r) auto

lemma bind_res_eq_Inl: "bind_res r f = Inl e \<longleftrightarrow> r = Inl e \<or> (\<exists>x. r = Inr x \<and> f x = Inl e)"
  by (cases r) auto

text \<open>\<open>for x in xs { check(x)?; }\<close>: the first failing check ends the loop.\<close>

fun check_each :: "('a \<Rightarrow> 'e + unit) \<Rightarrow> 'a list \<Rightarrow> 'e + unit" where
  "check_each f [] = Inr ()"
| "check_each f (x # xs) = bind_res (f x) (\<lambda>_. check_each f xs)"

lemma check_each_ok: "check_each f xs = Inr u \<longleftrightarrow> (\<forall>x\<in>set xs. f x = Inr ())"
  by (induction xs) (auto simp: bind_res_eq_Inr)

definition last_opt :: "'a list \<Rightarrow> 'a option" where
  "last_opt xs = (if xs = [] then None else Some (last xs))"

section \<open>Ordered maps\<close>

text \<open>
  \<open>BTreeMap<K, V>\<close> is the list of its entries in iteration order, which is strictly
  increasing in the keys.
\<close>

type_synonym ('k, 'v) btree = "('k \<times> 'v) list"

definition bt_ok :: "('k::linorder, 'v) btree \<Rightarrow> bool" where
  "bt_ok m \<longleftrightarrow> sorted_wrt (<) (map fst m)"

abbreviation bt_get :: "('k, 'v) btree \<Rightarrow> 'k \<Rightarrow> 'v option" where
  "bt_get m k \<equiv> map_of m k"

fun bt_insert :: "'k::linorder \<Rightarrow> 'v \<Rightarrow> ('k, 'v) btree \<Rightarrow> ('k, 'v) btree" where
  "bt_insert k v [] = [(k, v)]"
| "bt_insert k v (e # m) =
     (if k < fst e then (k, v) # e # m
      else if k = fst e then (k, v) # m
      else e # bt_insert k v m)"

definition bt_remove :: "'k \<Rightarrow> ('k, 'v) btree \<Rightarrow> ('k, 'v) btree" where
  "bt_remove k m = filter (\<lambda>e. fst e \<noteq> k) m"

definition bt_contains :: "('k, 'v) btree \<Rightarrow> 'k \<Rightarrow> bool" where
  "bt_contains m k = (bt_get m k \<noteq> None)"

definition bt_values :: "('k, 'v) btree \<Rightarrow> 'v list" where
  "bt_values m = map snd m"

text \<open>\<open>m.range(..=k).next_back()\<close>: the greatest entry at or below a key.\<close>

definition bt_last_le :: "('k::linorder, 'v) btree \<Rightarrow> 'k \<Rightarrow> ('k \<times> 'v) option" where
  "bt_last_le m k = last_opt (filter (\<lambda>e. fst e \<le> k) m)"

lemma bt_ok_Nil [simp]: "bt_ok []"
  by (simp add: bt_ok_def)

lemma bt_ok_Cons [simp]:
  "bt_ok (e # m) \<longleftrightarrow> (\<forall>e'\<in>set m. fst e < fst e') \<and> bt_ok m"
  by (auto simp: bt_ok_def)

lemma bt_ok_distinct: "bt_ok m \<Longrightarrow> distinct (map fst m)"
  by (induction m) auto

lemma bt_ok_filter [keeps_ok]: "bt_ok m \<Longrightarrow> bt_ok (filter P m)"
  by (induction m) auto

lemma length_bt_insert: "length (bt_insert k v m) \<le> Suc (length m)"
  by (induction m) auto

lemma bt_insert_new_last:
  assumes "bt_ok m" and "\<forall>k\<in>set (map fst m). k < q"
  shows "bt_insert q v m = m @ [(q, v)]"
  using assms by (induction m) auto

lemma bt_remove_ok [keeps_ok]: "bt_ok m \<Longrightarrow> bt_ok (bt_remove k m)"
  by (simp add: bt_remove_def bt_ok_filter)

lemma set_bt_insert_subset: "set (bt_insert k v m) \<subseteq> insert (k, v) (set m)"
  by (induction m) auto

lemma bt_insert_ok [keeps_ok]: "bt_ok m \<Longrightarrow> bt_ok (bt_insert k v m)"
  by (induction m) (use set_bt_insert_subset in fastforce)+

lemma set_bt_insert [btree_simps]:
  "bt_ok m \<Longrightarrow> set (bt_insert k v m) = insert (k, v) {e \<in> set m. fst e \<noteq> k}"
  by (induction m) auto

lemma set_bt_remove [btree_simps]: "set (bt_remove k m) = {e \<in> set m. fst e \<noteq> k}"
  by (auto simp: bt_remove_def)

lemma bt_get_insert [simp]: "bt_get (bt_insert k v m) k' = (if k' = k then Some v else bt_get m k')"
  by (induction m) auto

lemma bt_get_filter_key: "bt_get (filter (\<lambda>e. P (fst e)) m) k = (if P k then bt_get m k else None)"
  by (induction m) auto

lemma bt_get_remove [simp]: "bt_get (bt_remove k m) k' = (if k' = k then None else bt_get m k')"
  by (simp add: bt_remove_def bt_get_filter_key[of "\<lambda>x. x \<noteq> k"])

lemma bt_get_iff: "bt_ok m \<Longrightarrow> bt_get m k = Some v \<longleftrightarrow> (k, v) \<in> set m"
  by (simp add: bt_ok_distinct)

lemma bt_ok_unique: "bt_ok m \<Longrightarrow> (k, v) \<in> set m \<Longrightarrow> (k, v') \<in> set m \<Longrightarrow> v = v'"
  by (metis bt_get_iff option.inject)

lemma bt_get_None_iff: "bt_get m k = None \<longleftrightarrow> k \<notin> fst ` set m"
  by (simp add: map_of_eq_None_iff)

lemma bt_contains_iff: "bt_contains m k \<longleftrightarrow> k \<in> fst ` set m"
  by (auto simp: bt_contains_def map_of_eq_None_iff)

lemma bt_contains_insert [simp]: "bt_contains (bt_insert k v m) k' = (k' = k \<or> bt_contains m k')"
  by (simp add: bt_contains_def)

lemma bt_contains_remove [simp]: "bt_contains (bt_remove k m) k' = (k' \<noteq> k \<and> bt_contains m k')"
  by (simp add: bt_contains_def)

lemma set_bt_values: "set (bt_values m) = snd ` set m"
  by (simp add: bt_values_def)

lemma sorted_wrt_last_le:
  "sorted_wrt (<) (map fst xs) \<Longrightarrow> \<forall>e\<in>set xs. fst e \<le> (fst (last xs) :: 'k::linorder)"
  by (induction xs rule: rev_induct) (auto simp: sorted_wrt_append less_imp_le)

lemma bt_last_le_Some:
  assumes "bt_ok m" and "bt_last_le m k = Some e"
  shows "e \<in> set m" "fst e \<le> k" "\<forall>e'\<in>set m. fst e' \<le> k \<longrightarrow> fst e' \<le> fst e"
proof -
  let ?f = "filter (\<lambda>e. fst e \<le> k) m"
  have ne: "?f \<noteq> []" and e: "e = last ?f"
    using assms(2) by (auto simp: bt_last_le_def last_opt_def split: if_splits)
  have "last ?f \<in> set ?f" using ne by (rule last_in_set)
  then have "e \<in> set ?f" using e by simp
  then show "e \<in> set m" "fst e \<le> k" by auto
  have "sorted_wrt (<) (map fst ?f)"
    using bt_ok_filter[OF assms(1)] by (simp add: bt_ok_def)
  then have "\<forall>e'\<in>set ?f. fst e' \<le> fst (last ?f)"
    by (rule sorted_wrt_last_le)
  then show "\<forall>e'\<in>set m. fst e' \<le> k \<longrightarrow> fst e' \<le> fst e" using e by auto
qed

lemma bt_last_le_None: "bt_last_le m k = None \<longleftrightarrow> (\<forall>e\<in>set m. \<not> fst e \<le> k)"
  by (auto simp: bt_last_le_def last_opt_def filter_empty_conv)

section \<open>Actions\<close>

text \<open>
  A method that changes its receiver and may return early with \<open>?\<close>: the state at the point of
  the error is the state that remains.
\<close>

type_synonym ('s, 'e, 'a) action = "'s \<Rightarrow> 's \<times> ('e + 'a)"

definition act_ret :: "'a \<Rightarrow> ('s, 'e, 'a) action" where
  "act_ret x s = (s, Inr x)"

definition act_fail :: "'e \<Rightarrow> ('s, 'e, 'a) action" where
  "act_fail e s = (s, Inl e)"

definition act_bind :: "('s, 'e, 'a) action \<Rightarrow> ('a \<Rightarrow> ('s, 'e, 'b) action) \<Rightarrow> ('s, 'e, 'b) action" where
  "act_bind m f s = (case m s of (s', Inl e) \<Rightarrow> (s', Inl e) | (s', Inr x) \<Rightarrow> f x s')"

definition act_then :: "('s, 'e, unit) action \<Rightarrow> ('s, 'e, 'b) action \<Rightarrow> ('s, 'e, 'b) action" where
  "act_then m n = act_bind m (\<lambda>_. n)"

definition act_modify :: "('s \<Rightarrow> 's) \<Rightarrow> ('s, 'e, unit) action" where
  "act_modify f s = (f s, Inr ())"

definition act_get :: "('s \<Rightarrow> 'a) \<Rightarrow> ('s, 'e, 'a) action" where
  "act_get f s = (s, Inr (f s))"

fun act_each :: "('x \<Rightarrow> ('s, 'e, unit) action) \<Rightarrow> 'x list \<Rightarrow> ('s, 'e, unit) action" where
  "act_each f [] = act_ret ()"
| "act_each f (x # xs) = act_then (f x) (act_each f xs)"

lemmas act_defs = act_ret_def act_fail_def act_bind_def act_then_def act_modify_def act_get_def


end
