(* ===== verification/Core.thy ===== *)
theory Core
  imports Prelude
begin

text \<open>
  \<open>orbita-core\<close> without its ranges and its map: the counters of \<open>ids.rs\<close>, keyspace names,
  the stored record with its expiry, the write conditions, the limits and the error type that
  crosses crate boundaries.
\<close>

section \<open>Identifiers and counters\<close>

type_synonym node_id = u64
type_synonym partition_id = u64
type_synonym keyspace_id = u64
type_synonym version = u64
type_synonym lamport = u64
type_synonym epoch = u64
type_synonym map_version = u64

text \<open>\<open>counter_newtype!\<close>'s \<open>next\<close>, wrapping at the width of \<open>u64\<close>.\<close>

definition next_counter :: "u64 \<Rightarrow> u64" where
  "next_counter c = c + 1"

lemma next_counter_greater: "c \<noteq> -1 \<Longrightarrow> c < next_counter c"
  by (simp add: next_counter_def word_less_succ)

lemma next_counter_neq [simp]: "next_counter c \<noteq> c" "c \<noteq> next_counter c"
  by (simp_all add: next_counter_def)

lemma less_next_counter: "c \<noteq> -1 \<Longrightarrow> x < next_counter c \<longleftrightarrow> x \<le> c"
  by (simp add: next_counter_def word_less_succ_iff)

section \<open>Keyspace names\<close>

definition keyspace_name_max_len :: nat where
  "keyspace_name_max_len = 64"

definition is_ascii_lowercase :: "u8 \<Rightarrow> bool" where
  "is_ascii_lowercase c = (97 \<le> c \<and> c \<le> 122)"

definition is_ascii_digit :: "u8 \<Rightarrow> bool" where
  "is_ascii_digit c = (48 \<le> c \<and> c \<le> 57)"

text \<open>
  \<open>KeyspaceName::new\<close>. The tests on characters are tests on bytes: a character of a UTF-8
  string that is not one ASCII byte has only bytes above 127, which no test accepts. The error
  carries the rejected name.
\<close>

definition keyspace_name_new :: "bytes \<Rightarrow> bytes + bytes" where
  "keyspace_name_new name =
     (if name = [] \<or> length name > keyspace_name_max_len then Inl name
      else
        let starts_ok = is_ascii_lowercase (hd name);
            body_ok = list_all (\<lambda>c. is_ascii_lowercase c \<or> is_ascii_digit c \<or> c = 45 \<or> c = 95) name
        in if starts_ok \<and> body_ok then Inr name else Inl name)"

lemma keyspace_name_new_same: "keyspace_name_new n = Inr n' \<Longrightarrow> n' = n"
  by (auto simp: keyspace_name_new_def Let_def split: if_splits)

section \<open>Records and write conditions\<close>

record stored_record =
  rec_value :: bytes
  rec_version :: version
  rec_expires_at_millis :: "u64 option"

definition is_expired_at :: "stored_record \<Rightarrow> u64 \<Rightarrow> bool" where
  "is_expired_at r now_millis =
     (case rec_expires_at_millis r of None \<Rightarrow> False | Some e \<Rightarrow> e \<le> now_millis)"

datatype write_condition = Unconditional | IfNotPresent | IfVersion version

lemma is_expired_at_mono:
  "is_expired_at r t \<Longrightarrow> t \<le> t' \<Longrightarrow> is_expired_at r t'"
  by (auto simp: is_expired_at_def split: option.splits)

section \<open>Limits\<close>

definition max_key_bytes :: nat where "max_key_bytes = 10 * 1024"
definition max_value_bytes :: nat where "max_value_bytes = 256 * 1024"
definition max_list_limit :: u32 where "max_list_limit = 1000"
definition max_list_bytes :: u64 where "max_list_bytes = 4 * 1024 * 1024"
definition message_overhead_bytes :: u64 where "message_overhead_bytes = 64 * 1024"

section \<open>Errors\<close>

text \<open>
  \<open>orbita_core::Error\<close>. The text a variant carries is the type parameter: a component
  instantiates it with a datatype that has one constructor for each of its \<open>format!\<close> strings,
  with the values interpolated there as arguments.
\<close>

datatype 'm error =
    NotFound
  | AlreadyExists
  | VersionMismatch version "version option"
  | KeyspaceNotFound
  | KeyspaceAlreadyExists
  | NotOwner partition_id "node_id option"
  | StaleEpoch partition_id epoch epoch
  | TooLarge string nat nat
  | QuotaExceeded 'm
  | Unauthenticated
  | PermissionDenied
  | Unavailable 'm
  | Indeterminate 'm
  | NotLeader "node_id option"
  | InvalidArgument 'm
  | Internal 'm

fun is_retryable :: "'m error \<Rightarrow> bool" where
  "is_retryable (Unavailable _) = True"
| "is_retryable (NotOwner _ _) = True"
| "is_retryable (StaleEpoch _ _ _) = True"
| "is_retryable (NotLeader _) = True"
| "is_retryable _ = False"

lemma name_byte_ascii:
  "is_ascii_lowercase c \<or> is_ascii_digit c \<or> c = 45 \<or> c = 95 \<Longrightarrow> c < 0x80"
  by (auto simp: is_ascii_lowercase_def is_ascii_digit_def intro: order_le_less_trans)

end
