(* ===== verification/Codec.thy ===== *)
theory Codec
  imports Core
begin

text \<open>
  \<open>orbita-control/src/codec.rs\<close>: the fixed-width little-endian encoding of everything the
  control plane persists or sends. A \<open>Writer\<close> only ever appends, so a writer method is the
  list of bytes it appends and a chain of calls is their concatenation. A \<open>Reader\<close> is its
  buffer and its position, and a reader method is a function from a reader to an error or a
  value and the advanced reader.

  The locale \<open>codec\<close> is the contract between an encoder and its decoder; every message type
  of the control plane interprets it.
\<close>

datatype codec_error =
    Truncated nat nat
  | UnknownTag string u64
  | NotUtf8
  | Trailing
  | OutOfRange string

section \<open>Writing\<close>

fun le_bytes :: "nat \<Rightarrow> nat \<Rightarrow> bytes" where
  "le_bytes 0 n = []"
| "le_bytes (Suc k) n = word_of_nat (n mod 256) # le_bytes k (n div 256)"

definition put_u8 :: "u8 \<Rightarrow> bytes" where
  "put_u8 v = [v]"

definition put_u32 :: "u32 \<Rightarrow> bytes" where
  "put_u32 v = le_bytes 4 (unat v)"

definition put_u64 :: "u64 \<Rightarrow> bytes" where
  "put_u64 v = le_bytes 8 (unat v)"

text \<open>\<open>v.len() as u32\<close> keeps the low 32 bits of the length.\<close>

definition put_bytes :: "bytes \<Rightarrow> bytes" where
  "put_bytes v = put_u32 (word_of_nat (length v)) @ v"

definition put_str :: "bytes \<Rightarrow> bytes" where
  "put_str v = put_bytes v"

definition put_opt :: "('a \<Rightarrow> bytes) \<Rightarrow> 'a option \<Rightarrow> bytes" where
  "put_opt put v = (case v of Some x \<Rightarrow> put_u8 1 @ put x | None \<Rightarrow> put_u8 0)"

definition put_opt_u64 :: "u64 option \<Rightarrow> bytes" where
  "put_opt_u64 = put_opt put_u64"

definition put_opt_u32 :: "u32 option \<Rightarrow> bytes" where
  "put_opt_u32 = put_opt put_u32"

definition put_opt_bytes :: "bytes option \<Rightarrow> bytes" where
  "put_opt_bytes = put_opt put_bytes"

definition put_seq :: "('a \<Rightarrow> bytes) \<Rightarrow> 'a list \<Rightarrow> bytes" where
  "put_seq each items = put_u32 (word_of_nat (length items)) @ concat (map each items)"

definition put_bool :: "bool \<Rightarrow> bytes" where
  "put_bool b = put_u8 (if b then 1 else 0)"

section \<open>Reading\<close>

record reader =
  rd_buf :: bytes
  rd_pos :: nat

type_synonym 'a decoder = "reader \<Rightarrow> codec_error + ('a \<times> reader)"

definition reader_new :: "bytes \<Rightarrow> reader" where
  "reader_new buf = \<lparr>rd_buf = buf, rd_pos = 0\<rparr>"

definition dret :: "'a \<Rightarrow> 'a decoder" where
  "dret x r = Inr (x, r)"

definition dfail :: "codec_error \<Rightarrow> 'a decoder" where
  "dfail e r = Inl e"

definition dbind :: "'a decoder \<Rightarrow> ('a \<Rightarrow> 'b decoder) \<Rightarrow> 'b decoder" where
  "dbind d f r = (case d r of Inl e \<Rightarrow> Inl e | Inr (x, r') \<Rightarrow> f x r')"

text \<open>
  \<open>Reader::take\<close>. The source's \<open>checked_add\<close> fails only when the sum passes \<open>usize::MAX\<close>,
  which is past the end of every buffer, and reports the same error.
\<close>

definition rd_take :: "nat \<Rightarrow> bytes decoder" where
  "rd_take n r =
     (if rd_pos r + n > length (rd_buf r) then Inl (Truncated (rd_pos r) n)
      else Inr (take n (drop (rd_pos r) (rd_buf r)), r\<lparr>rd_pos := rd_pos r + n\<rparr>))"

fun le_value :: "bytes \<Rightarrow> nat" where
  "le_value [] = 0"
| "le_value (b # bs) = unat b + 256 * le_value bs"

definition get_u8 :: "u8 decoder" where
  "get_u8 = dbind (rd_take 1) (\<lambda>b. dret (hd b))"

definition get_u32 :: "u32 decoder" where
  "get_u32 = dbind (rd_take 4) (\<lambda>b. dret (word_of_nat (le_value b)))"

definition get_u64 :: "u64 decoder" where
  "get_u64 = dbind (rd_take 8) (\<lambda>b. dret (word_of_nat (le_value b)))"

definition get_bytes :: "bytes decoder" where
  "get_bytes = dbind get_u32 (\<lambda>len. rd_take (unat len))"

text \<open>
  \<open>String::from_utf8\<close> accepts exactly the well-formed UTF-8 byte sequences: no overlong form,
  no surrogate, nothing above \<open>U+10FFFF\<close>.
\<close>

definition utf8_cont :: "u8 \<Rightarrow> bool" where
  "utf8_cont c = (0x80 \<le> c \<and> c \<le> 0xBF)"

definition utf8_second :: "u8 \<Rightarrow> u8 \<Rightarrow> bool" where
  "utf8_second b c =
     (if b = 0xE0 then 0xA0 \<le> c \<and> c \<le> 0xBF
      else if b = 0xED then 0x80 \<le> c \<and> c \<le> 0x9F
      else if b = 0xF0 then 0x90 \<le> c \<and> c \<le> 0xBF
      else if b = 0xF4 then 0x80 \<le> c \<and> c \<le> 0x8F
      else utf8_cont c)"

fun utf8_valid :: "bytes \<Rightarrow> bool" where
  "utf8_valid [] = True"
| "utf8_valid (b # bs) =
     (if b < 0x80 then utf8_valid bs
      else if 0xC2 \<le> b \<and> b \<le> 0xDF then
        (case bs of c # cs \<Rightarrow> utf8_cont c \<and> utf8_valid cs | _ \<Rightarrow> False)
      else if 0xE0 \<le> b \<and> b \<le> 0xEF then
        (case bs of c # d # ds \<Rightarrow> utf8_second b c \<and> utf8_cont d \<and> utf8_valid ds | _ \<Rightarrow> False)
      else if 0xF0 \<le> b \<and> b \<le> 0xF4 then
        (case bs of c # d # e # es \<Rightarrow>
           utf8_second b c \<and> utf8_cont d \<and> utf8_cont e \<and> utf8_valid es | _ \<Rightarrow> False)
      else False)"

definition get_string :: "bytes decoder" where
  "get_string =
     dbind get_u32 (\<lambda>len. dbind (rd_take (unat len))
       (\<lambda>raw. if utf8_valid raw then dret raw else dfail NotUtf8))"

definition get_opt :: "'a decoder \<Rightarrow> 'a option decoder" where
  "get_opt get = dbind get_u8 (\<lambda>t. if t = 0 then dret None else dbind get (\<lambda>x. dret (Some x)))"

definition get_opt_u64 :: "u64 option decoder" where
  "get_opt_u64 = get_opt get_u64"

definition get_opt_u32 :: "u32 option decoder" where
  "get_opt_u32 = get_opt get_u32"

definition get_opt_bytes :: "bytes option decoder" where
  "get_opt_bytes = get_opt get_bytes"

fun get_n :: "nat \<Rightarrow> 'a decoder \<Rightarrow> 'a list decoder" where
  "get_n 0 each = dret []"
| "get_n (Suc n) each = dbind each (\<lambda>x. dbind (get_n n each) (\<lambda>xs. dret (x # xs)))"

definition get_seq :: "'a decoder \<Rightarrow> 'a list decoder" where
  "get_seq each = dbind get_u32 (\<lambda>count. get_n (unat count) each)"

definition get_bool :: "bool decoder" where
  "get_bool = dbind get_u8 (\<lambda>t. dret (t \<noteq> 0))"

definition has_more :: "reader \<Rightarrow> bool" where
  "has_more r = (rd_pos r < length (rd_buf r))"

definition rd_done :: "unit decoder" where
  "rd_done r = (if rd_pos r = length (rd_buf r) then Inr ((), r) else Inl Trailing)"

section \<open>Rewriting\<close>

text \<open>A reader that has consumed \<open>pre\<close> and has \<open>rest\<close> in front of it.\<close>

definition rd :: "bytes \<Rightarrow> bytes \<Rightarrow> reader" where
  "rd pre rest = \<lparr>rd_buf = pre @ rest, rd_pos = length pre\<rparr>"

named_theorems decode_simps \<open>rewriting of decoders on readers of the form rd\<close>

lemma reader_new_rd [decode_simps]: "reader_new buf = rd [] buf"
  by (simp add: reader_new_def rd_def)

lemma dret_simp [decode_simps]: "dret x r = Inr (x, r)"
  by (simp add: dret_def)

lemma dfail_simp [decode_simps]: "dfail e r = Inl e"
  by (simp add: dfail_def)

lemma dbind_Inr: "d r = Inr (x, r') \<Longrightarrow> dbind d f r = f x r'"
  by (simp add: dbind_def)

lemma dbind_Inl: "d r = Inl e \<Longrightarrow> dbind d f r = Inl e"
  by (simp add: dbind_def)

lemma rd_take_rd [decode_simps]:
  "length bs = n \<Longrightarrow> rd_take n (rd pre (bs @ rest)) = Inr (bs, rd (pre @ bs) rest)"
  by (simp add: rd_take_def rd_def)

lemma rd_take_short [decode_simps]:
  "length bs < n \<Longrightarrow> rd_take n (rd pre bs) = Inl (Truncated (length pre) n)"
  by (simp add: rd_take_def rd_def)

lemma rd_done_rd [decode_simps]: "rd_done (rd pre rest) = (if rest = [] then Inr ((), rd pre []) else Inl Trailing)"
  by (simp add: rd_done_def rd_def)

lemma length_le_bytes [simp]: "length (le_bytes k n) = k"
  by (induction k arbitrary: n) auto

lemma le_value_le_bytes: "n < 256 ^ k \<Longrightarrow> le_value (le_bytes k n) = n"
proof (induction k arbitrary: n)
  case 0
  then show ?case by simp
next
  case (Suc k)
  then have "n div 256 < 256 ^ k" by (simp add: less_mult_imp_div_less mult.commute)
  then have "le_value (le_bytes k (n div 256)) = n div 256" by (rule Suc.IH)
  moreover have "unat (word_of_nat (n mod 256) :: u8) = n mod 256" by (simp add: unat_of_nat)
  ultimately show ?case by simp
qed

lemma length_put_u32 [simp]: "length (put_u32 v) = 4"
  by (simp add: put_u32_def)

lemma length_put_u64 [simp]: "length (put_u64 v) = 8"
  by (simp add: put_u64_def)

lemma u32_of_le: "word_of_nat (le_value (put_u32 v)) = v"
  using unsigned_less[of v, where 'a = nat] by (simp add: put_u32_def le_value_le_bytes)

lemma u64_of_le: "word_of_nat (le_value (put_u64 v)) = v"
  using unsigned_less[of v, where 'a = nat] by (simp add: put_u64_def le_value_le_bytes)

lemma unat_len32: "n < 2 ^ 32 \<Longrightarrow> unat (word_of_nat n :: u32) = n"
  by (simp add: unat_of_nat)

section \<open>The contract of a codec\<close>

locale codec =
  fixes enc :: "'a \<Rightarrow> bytes" and dec :: "'a decoder" and good :: "'a \<Rightarrow> bool"
  assumes roundtrip: "good x \<Longrightarrow> dec (rd pre (enc x @ rest)) = Inr (x, rd (pre @ enc x) rest)"
begin

lemma step: "good x \<Longrightarrow> dbind dec f (rd pre (enc x @ rest)) = f x (rd (pre @ enc x) rest)"
  by (rule dbind_Inr) (rule roundtrip)

lemma roundtrip_end: "good x \<Longrightarrow> dec (rd pre (enc x)) = Inr (x, rd (pre @ enc x) [])"
  using roundtrip[of x pre "[]"] by simp

lemma step_end: "good x \<Longrightarrow> dbind dec f (rd pre (enc x)) = f x (rd (pre @ enc x) [])"
  by (rule dbind_Inr) (rule roundtrip_end)

text \<open>No encoding is a prefix of another: messages can be written one after the other.\<close>

lemma prefix_free: "good x \<Longrightarrow> good y \<Longrightarrow> enc x @ rest = enc y @ rest' \<Longrightarrow> x = y"
  using roundtrip[of x "[]" rest] roundtrip[of y "[]" rest'] by simp

lemma get_n_roundtrip:
  "list_all good xs \<Longrightarrow>
   get_n (length xs) dec (rd pre (concat (map enc xs) @ rest)) = Inr (xs, rd (pre @ concat (map enc xs)) rest)"
  by (induction xs arbitrary: pre) (simp_all add: decode_simps step dbind_Inr)

end

interpretation u8: codec put_u8 get_u8 "\<lambda>_. True"
proof
  fix x :: u8 and pre rest
  show "get_u8 (rd pre (put_u8 x @ rest)) = Inr (x, rd (pre @ put_u8 x) rest)"
    using rd_take_rd[of "[x]" 1 pre rest]
    by (simp add: get_u8_def put_u8_def dbind_Inr dret_simp)
qed

interpretation u32: codec put_u32 get_u32 "\<lambda>_. True"
  by unfold_locales (simp add: get_u32_def dbind_Inr decode_simps u32_of_le)

interpretation u64: codec put_u64 get_u64 "\<lambda>_. True"
  by unfold_locales (simp add: get_u64_def dbind_Inr decode_simps u64_of_le)

abbreviation len32 :: "'a list \<Rightarrow> bool" where
  "len32 xs \<equiv> length xs < 2 ^ 32"

text \<open>A string the program can hold: valid UTF-8, shorter than four gigabytes.\<close>

definition str_ok :: "bytes \<Rightarrow> bool" where
  "str_ok s \<longleftrightarrow> utf8_valid s \<and> len32 s"

interpretation bytes: codec put_bytes get_bytes len32
  by unfold_locales (simp add: get_bytes_def put_bytes_def u32.step decode_simps unat_len32)

interpretation str: codec put_str get_string str_ok
  by unfold_locales
    (simp add: get_string_def put_str_def put_bytes_def u32.step decode_simps unat_len32 dbind_Inr str_ok_def)

interpretation bool: codec put_bool get_bool "\<lambda>_. True"
  by unfold_locales (simp add: get_bool_def put_bool_def u8.step dret_simp)

definition opt_wf :: "('a \<Rightarrow> bool) \<Rightarrow> 'a option \<Rightarrow> bool" where
  "opt_wf good v = (case v of None \<Rightarrow> True | Some x \<Rightarrow> good x)"

lemma opt_wf_simps [simp]: "opt_wf good None" "opt_wf good (Some x) = good x"
  by (simp_all add: opt_wf_def)

lemma opt_wf_True [simp]: "opt_wf (\<lambda>_. True) = (\<lambda>_. True)"
  by (simp add: opt_wf_def fun_eq_iff split: option.splits)

definition seq_wf :: "('a \<Rightarrow> bool) \<Rightarrow> 'a list \<Rightarrow> bool" where
  "seq_wf good xs \<longleftrightarrow> list_all good xs \<and> len32 xs"

lemma seq_wf_True [simp]: "seq_wf (\<lambda>_. True) = len32"
  by (simp add: seq_wf_def fun_eq_iff list_all_iff)

context codec begin

lemma opt_codec: "codec (put_opt enc) (get_opt dec) (opt_wf good)"
proof
  fix v :: "'a option" and pre rest
  assume "opt_wf good v"
  then show "get_opt dec (rd pre (put_opt enc v @ rest)) = Inr (v, rd (pre @ put_opt enc v) rest)"
    by (cases v) (simp_all add: get_opt_def put_opt_def u8.step step decode_simps)
qed

lemma seq_codec: "codec (put_seq enc) (get_seq dec) (seq_wf good)"
proof
  fix xs :: "'a list" and pre rest
  assume "seq_wf good xs"
  then show "get_seq dec (rd pre (put_seq enc xs @ rest)) = Inr (xs, rd (pre @ put_seq enc xs) rest)"
    by (simp add: get_seq_def put_seq_def seq_wf_def u32.step unat_len32 get_n_roundtrip)
qed

end

interpretation opt_u64: codec put_opt_u64 get_opt_u64 "\<lambda>_. True"
  using u64.opt_codec by (simp add: put_opt_u64_def get_opt_u64_def)

interpretation opt_u32: codec put_opt_u32 get_opt_u32 "\<lambda>_. True"
  using u32.opt_codec by (simp add: put_opt_u32_def get_opt_u32_def)

interpretation opt_bytes: codec put_opt_bytes get_opt_bytes "opt_wf len32"
  using bytes.opt_codec by (simp add: put_opt_bytes_def get_opt_bytes_def)

interpretation seq_u64: codec "put_seq put_u64" "get_seq get_u64" len32
  using u64.seq_codec by simp

interpretation seq_str: codec "put_seq put_str" "get_seq get_string" "seq_wf str_ok"
  by (rule str.seq_codec)

lemmas codec_steps =
  u8.step u32.step u64.step bytes.step str.step bool.step opt_u64.step opt_u32.step opt_bytes.step
  seq_u64.step seq_str.step
  u8.step_end u32.step_end u64.step_end bytes.step_end str.step_end bool.step_end opt_u64.step_end
  opt_u32.step_end opt_bytes.step_end seq_u64.step_end seq_str.step_end

declare codec_steps [decode_simps]

section \<open>Reading back a number\<close>

lemma le_value_bound: "le_value bs < 256 ^ length bs"
proof (induction bs)
  case (Cons b bs)
  have "unat b < 256" using unsigned_less[of b, where 'a = nat] by simp
  then have "unat b + 256 * le_value bs < 256 * Suc (le_value bs)" by simp
  also have "\<dots> \<le> 256 * 256 ^ length bs" using Cons.IH by (intro mult_le_mono2) simp
  finally show ?case by simp
qed simp

lemma le_bytes_le_value: "length bs = k \<Longrightarrow> le_bytes k (le_value bs) = bs"
proof (induction bs arbitrary: k)
  case (Cons b bs)
  have "unat b < 256" using unsigned_less[of b, where 'a = nat] by simp
  then have "(unat b + 256 * le_value bs) mod 256 = unat b" "(unat b + 256 * le_value bs) div 256 = le_value bs"
    by simp_all
  then show ?case using Cons by auto
qed simp

lemma put_u64_le_value: "length bs = 8 \<Longrightarrow> put_u64 (word_of_nat (le_value bs)) = bs"
  using le_value_bound[of bs] by (simp add: put_u64_def unat_of_nat le_bytes_le_value)

lemma put_u32_le_value: "length bs = 4 \<Longrightarrow> put_u32 (word_of_nat (le_value bs)) = bs"
  using le_value_bound[of bs] by (simp add: put_u32_def unat_of_nat le_bytes_le_value)

end
