(* ===== verification/Version.thy ===== *)
theory Version
  imports Codec
begin

text \<open>
  \<open>orbita-control/src/version.rs\<close>: the cluster version with its derived lexicographic order,
  the window of versions a binary speaks, and the protocol gates.
\<close>

datatype cluster_version = ClusterVersion (cv_major: u32) (cv_minor: u32)

instantiation cluster_version :: linorder
begin

definition less_eq_cluster_version :: "cluster_version \<Rightarrow> cluster_version \<Rightarrow> bool" where
  "less_eq_cluster_version a b \<longleftrightarrow>
     cv_major a < cv_major b \<or> cv_major a = cv_major b \<and> cv_minor a \<le> cv_minor b"

definition less_cluster_version :: "cluster_version \<Rightarrow> cluster_version \<Rightarrow> bool" where
  "less_cluster_version a b \<longleftrightarrow>
     cv_major a < cv_major b \<or> cv_major a = cv_major b \<and> cv_minor a < cv_minor b"

instance
  by standard
    (auto simp: less_eq_cluster_version_def less_cluster_version_def intro: cluster_version.expand)

end

lemma cluster_version_le [simp]:
  "ClusterVersion a b \<le> ClusterVersion c d \<longleftrightarrow> a < c \<or> a = c \<and> b \<le> d"
  by (simp add: less_eq_cluster_version_def)

lemma cluster_version_less [simp]:
  "ClusterVersion a b < ClusterVersion c d \<longleftrightarrow> a < c \<or> a = c \<and> b < d"
  by (simp add: less_cluster_version_def)

definition version_zero :: cluster_version where
  "version_zero = ClusterVersion 0 0"

lemma version_zero_le [simp]: "version_zero \<le> v"
  by (cases v) (auto simp: version_zero_def word_neq_0_conv)

definition put_cluster_version :: "cluster_version \<Rightarrow> bytes" where
  "put_cluster_version v = put_u32 (cv_major v) @ put_u32 (cv_minor v)"

definition get_cluster_version :: "cluster_version decoder" where
  "get_cluster_version = dbind get_u32 (\<lambda>major. dbind get_u32 (\<lambda>minor. dret (ClusterVersion major minor)))"

record version_range =
  vr_min :: cluster_version
  vr_max :: cluster_version

definition version_range_exactly :: "cluster_version \<Rightarrow> version_range" where
  "version_range_exactly v = \<lparr>vr_min = v, vr_max = v\<rparr>"

definition version_range_contains :: "version_range \<Rightarrow> cluster_version \<Rightarrow> bool" where
  "version_range_contains r v = (vr_min r \<le> v \<and> v \<le> vr_max r)"

definition put_version_range :: "version_range \<Rightarrow> bytes" where
  "put_version_range r = put_cluster_version (vr_min r) @ put_cluster_version (vr_max r)"

definition get_version_range :: "version_range decoder" where
  "get_version_range =
     dbind get_cluster_version (\<lambda>lo. dbind get_cluster_version (\<lambda>hi. dret \<lparr>vr_min = lo, vr_max = hi\<rparr>))"

record compatibility_refusal =
  cr_speaks :: version_range
  cr_active :: cluster_version

definition protocol_0_1 :: cluster_version where
  "protocol_0_1 = ClusterVersion 0 1"

definition protocol_0_2 :: cluster_version where
  "protocol_0_2 = ClusterVersion 0 2"

definition lifecycle_protocol_active :: "cluster_version \<Rightarrow> bool" where
  "lifecycle_protocol_active active = (protocol_0_1 \<le> active)"

definition speaks_for :: "cluster_version \<Rightarrow> version_range" where
  "speaks_for own =
     (if cv_minor own = 0 then version_range_exactly own
      else \<lparr>vr_min = ClusterVersion (cv_major own) (cv_minor own - 1), vr_max = own\<rparr>)"

interpretation cluster_version: codec put_cluster_version get_cluster_version "\<lambda>_. True"
  by unfold_locales (simp add: put_cluster_version_def get_cluster_version_def decode_simps)

interpretation version_range: codec put_version_range get_version_range "\<lambda>_. True"
  by unfold_locales
    (simp add: put_version_range_def get_version_range_def decode_simps cluster_version.step)

declare cluster_version.step [decode_simps] cluster_version.step_end [decode_simps]
  version_range.step [decode_simps] version_range.step_end [decode_simps]

lemma protocol_0_1_le_0_2: "protocol_0_2 \<le> v \<Longrightarrow> protocol_0_1 \<le> v"
  by (rule order_trans[of _ protocol_0_2]) (simp add: protocol_0_1_def protocol_0_2_def)

text \<open>
  The window of a binary is one version wide: it speaks its own version and at most the minor
  just before it, and nothing else of its major.
\<close>

lemma speaks_for_contains:
  "version_range_contains (speaks_for own) v \<longleftrightarrow>
     v = own \<or> cv_major v = cv_major own \<and> cv_minor own \<noteq> 0 \<and> cv_minor v = cv_minor own - 1"
proof -
  have "m - 1 \<le> k \<and> k \<le> m \<longleftrightarrow> k = m \<or> k = m - 1" if "m \<noteq> 0" for k m :: u32
  proof -
    have "m - 1 \<noteq> -1" using that by simp
    then show ?thesis
      using word_less_succ_iff[of "m - 1" k] word_less_succ[of "m - 1"] by auto
  qed
  then show ?thesis
    by (cases own; cases v)
      (auto simp: speaks_for_def version_range_contains_def version_range_exactly_def)
qed

text \<open>
  The rolling upgrade window: a binary accepts its own version and the minor version just
  before it, in the same major version, and no other; so during an upgrade the old and the new
  binary both accept the old version, and after it the old binary no longer fits.
\<close>

theorem upgrade_window:
  assumes "cv_minor own \<noteq> 0" and "previous = ClusterVersion (cv_major own) (cv_minor own - 1)"
  shows "(\<forall>v. version_range_contains (speaks_for own) v \<longleftrightarrow> v = own \<or> v = previous)
     \<and> version_range_contains (speaks_for previous) previous \<and> \<not> version_range_contains (speaks_for previous) own"
proof -
  obtain major minor where own: "own = ClusterVersion major minor" by (cases own)
  have "minor \<noteq> minor - 1 - 1"
  proof
    assume "minor = minor - 1 - 1"
    moreover have "minor - (minor - 1 - 1) = 2" by simp
    ultimately show False by simp
  qed
  moreover have "minor - 1 \<noteq> minor" by simp
  moreover have "version_range_contains (speaks_for own) v \<longleftrightarrow> v = own \<or> v = previous" for v
    using assms by (cases v) (auto simp: own speaks_for_contains)
  moreover have "version_range_contains (speaks_for previous) previous" by (simp add: speaks_for_contains)
  moreover have "\<not> version_range_contains (speaks_for previous) own"
    using assms calculation by (simp add: own speaks_for_contains)
  ultimately show ?thesis by blast
qed

theorem upgrade_window_witness:
  "version_range_contains (speaks_for protocol_0_2) protocol_0_1 \<and> \<not> version_range_contains (speaks_for protocol_0_1) protocol_0_2"
proof -
  have "cv_minor protocol_0_2 \<noteq> 0" "protocol_0_1 = ClusterVersion (cv_major protocol_0_2) (cv_minor protocol_0_2 - 1)"
    by code_simp+
  from upgrade_window[OF this] show ?thesis by blast
qed

end
