(* ===== verification/Key_Range.thy ===== *)
theory Key_Range
  imports Core
begin

text \<open>
  \<open>orbita-core/src/range.rs\<close>: half-open key ranges. The contract a partition map needs from
  them is the locale \<open>range_algebra\<close>: a split or a merge never changes how often a key is hit.
\<close>

record key_range =
  kr_start :: bytes
  kr_end :: "bytes option"

definition unbounded :: key_range where
  "unbounded = \<lparr>kr_start = [], kr_end = None\<rparr>"

definition key_range_new :: "bytes \<Rightarrow> bytes option \<Rightarrow> key_range option" where
  "key_range_new start end' =
     (case end' of
        Some e \<Rightarrow> if e \<le> start then None else Some \<lparr>kr_start = start, kr_end = end'\<rparr>
      | None \<Rightarrow> Some \<lparr>kr_start = start, kr_end = end'\<rparr>)"

definition contains :: "key_range \<Rightarrow> bytes \<Rightarrow> bool" where
  "contains r key =
     (kr_start r \<le> key \<and> (case kr_end r of None \<Rightarrow> True | Some e \<Rightarrow> key < e))"

definition is_adjacent_to :: "key_range \<Rightarrow> key_range \<Rightarrow> bool" where
  "is_adjacent_to r other = (case kr_end r of None \<Rightarrow> False | Some e \<Rightarrow> e = kr_start other)"

definition split_at :: "key_range \<Rightarrow> bytes \<Rightarrow> (key_range \<times> key_range) option" where
  "split_at r at =
     (if \<not> contains r at \<or> at = kr_start r then None
      else case key_range_new (kr_start r) (Some at) of
        None \<Rightarrow> None
      | Some lower \<Rightarrow>
          (case key_range_new at (kr_end r) of
             None \<Rightarrow> None
           | Some upper \<Rightarrow> Some (lower, upper)))"

definition merge_ranges :: "key_range \<Rightarrow> key_range \<Rightarrow> key_range option" where
  "merge_ranges lower upper =
     (if \<not> is_adjacent_to lower upper then None
      else key_range_new (kr_start lower) (kr_end upper))"

section \<open>Well-formed ranges\<close>

text \<open>The fields are private and every constructor goes through \<open>new\<close> or \<open>unbounded\<close>.\<close>

definition kr_ok :: "key_range \<Rightarrow> bool" where
  "kr_ok r = (case kr_end r of None \<Rightarrow> True | Some e \<Rightarrow> kr_start r < e)"

lemma kr_ok_unbounded [simp]: "kr_ok unbounded"
  by (simp add: kr_ok_def unbounded_def)

lemma contains_unbounded [simp]: "contains unbounded k"
  by (simp add: contains_def unbounded_def)

lemma key_range_new_Some:
  "key_range_new s e = Some r \<longleftrightarrow> r = \<lparr>kr_start = s, kr_end = e\<rparr> \<and> kr_ok r"
  by (auto simp: key_range_new_def kr_ok_def not_le split: option.splits if_splits)

lemma key_range_new_rebuild: "kr_ok r \<Longrightarrow> key_range_new (kr_start r) (kr_end r) = Some r"
  by (simp add: key_range_new_Some)

lemma contains_start: "kr_ok r \<Longrightarrow> contains r (kr_start r)"
  by (auto simp: contains_def kr_ok_def split: option.splits)

lemma split_at_Some:
  "split_at r at = Some (lo, hi) \<longleftrightarrow>
     contains r at \<and> at \<noteq> kr_start r
     \<and> lo = \<lparr>kr_start = kr_start r, kr_end = Some at\<rparr>
     \<and> hi = \<lparr>kr_start = at, kr_end = kr_end r\<rparr>"
  by (auto simp: split_at_def key_range_new_def contains_def split: option.splits)

lemma split_at_ok: "split_at r at = Some (lo, hi) \<Longrightarrow> kr_ok lo \<and> kr_ok hi"
  by (auto simp: split_at_Some kr_ok_def contains_def split: option.splits)

lemma split_at_defined: "split_at r at \<noteq> None \<longleftrightarrow> contains r at \<and> at \<noteq> kr_start r"
proof -
  have "split_at r at \<noteq> None \<longleftrightarrow> (\<exists>lo hi. split_at r at = Some (lo, hi))"
    by (cases "split_at r at") auto
  then show ?thesis by (auto simp: split_at_Some)
qed

lemma merge_ranges_Some:
  "merge_ranges lo hi = Some r \<longleftrightarrow>
     kr_end lo = Some (kr_start hi) \<and> r = \<lparr>kr_start = kr_start lo, kr_end = kr_end hi\<rparr> \<and> kr_ok r"
  by (auto simp: merge_ranges_def is_adjacent_to_def key_range_new_Some split: option.splits)

lemma merge_ranges_of_adjacent:
  assumes "kr_ok lo" "kr_ok hi" "kr_end lo = Some (kr_start hi)"
  shows "merge_ranges lo hi = Some \<lparr>kr_start = kr_start lo, kr_end = kr_end hi\<rparr>"
  using assms by (auto simp: merge_ranges_Some kr_ok_def split: option.splits)

section \<open>The contract\<close>

definition hits :: "('r \<Rightarrow> 'k \<Rightarrow> bool) \<Rightarrow> 'r list \<Rightarrow> 'k \<Rightarrow> nat" where
  "hits has rs k = length (filter (\<lambda>r. has r k) rs)"

locale range_algebra =
  fixes has :: "'r \<Rightarrow> 'k \<Rightarrow> bool"
    and split :: "'r \<Rightarrow> 'k \<Rightarrow> ('r \<times> 'r) option"
    and join :: "'r \<Rightarrow> 'r \<Rightarrow> 'r option"
    and ok :: "'r \<Rightarrow> bool"
  assumes split_has: "split r at = Some (lo, hi) \<Longrightarrow> has r k \<longleftrightarrow> has lo k \<or> has hi k"
    and split_disjoint: "split r at = Some (lo, hi) \<Longrightarrow> \<not> (has lo k \<and> has hi k)"
    and split_join: "ok r \<Longrightarrow> split r at = Some (lo, hi) \<Longrightarrow> join lo hi = Some r"
    and join_split: "ok lo \<Longrightarrow> ok hi \<Longrightarrow> join lo hi = Some r \<Longrightarrow> \<exists>at. split r at = Some (lo, hi)"
begin

lemma count_split:
  assumes "split r at = Some (lo, hi)"
  shows "(if has lo k then 1 else 0) + (if has hi k then 1 else 0) = (if has r k then 1 else (0::nat))"
  using split_has[OF assms, of k] split_disjoint[OF assms, of k] by auto

lemma hits_split:
  assumes "split r at = Some (lo, hi)"
  shows "hits has (lo # hi # rs) k = hits has (r # rs) k"
  using count_split[OF assms, of k] by (auto simp: hits_def split: if_splits)

lemma count_join:
  assumes "ok lo" "ok hi" "join lo hi = Some r"
  shows "(if has lo k then 1 else 0) + (if has hi k then 1 else 0) = (if has r k then 1 else (0::nat))"
proof -
  obtain at where "split r at = Some (lo, hi)"
    using join_split[OF assms] by blast
  then show ?thesis by (rule count_split)
qed

lemma hits_join:
  assumes "ok lo" "ok hi" "join lo hi = Some r"
  shows "hits has (r # rs) k = hits has (lo # hi # rs) k"
  using count_join[OF assms, of k] by (auto simp: hits_def split: if_splits)

end

lemma split_at_has:
  assumes "split_at r at = Some (lo, hi)"
  shows "contains r k \<longleftrightarrow> contains lo k \<or> contains hi k"
proof -
  have "kr_start r < at" and "\<And>e. kr_end r = Some e \<Longrightarrow> at < e"
    using assms by (auto simp: split_at_Some contains_def)
  then show ?thesis
    using assms by (cases "k < at") (auto simp: split_at_Some contains_def split: option.splits)
qed

lemma split_at_disjoint:
  "split_at r at = Some (lo, hi) \<Longrightarrow> \<not> (contains lo k \<and> contains hi k)"
  by (auto simp: split_at_Some contains_def)

lemma merge_of_split: "kr_ok r \<Longrightarrow> split_at r at = Some (lo, hi) \<Longrightarrow> merge_ranges lo hi = Some r"
  by (auto simp: split_at_Some merge_ranges_Some)

lemma split_of_merge:
  assumes "kr_ok lo" "kr_ok hi" "merge_ranges lo hi = Some r"
  shows "split_at r (kr_start hi) = Some (lo, hi)"
proof -
  have lo: "kr_end lo = Some (kr_start hi)" and r: "kr_start r = kr_start lo" "kr_end r = kr_end hi"
    using assms(3) by (auto simp: merge_ranges_Some)
  have "contains r (kr_start hi)"
    using assms(1,2) lo r by (auto simp: contains_def kr_ok_def split: option.splits)
  moreover have "kr_start hi \<noteq> kr_start r"
    using assms(1) lo r by (simp add: kr_ok_def)
  ultimately show ?thesis using lo r by (simp add: split_at_Some)
qed

interpretation kr: range_algebra contains split_at merge_ranges kr_ok
proof unfold_locales
  fix r :: key_range and at lo hi k
  assume "split_at r at = Some (lo, hi)"
  then show "contains r k \<longleftrightarrow> contains lo k \<or> contains hi k"
    and "\<not> (contains lo k \<and> contains hi k)"
    by (rule split_at_has, rule split_at_disjoint)
next
  fix r at lo hi
  assume "kr_ok r" "split_at r at = Some (lo, hi)"
  then show "merge_ranges lo hi = Some r" by (rule merge_of_split)
next
  fix lo hi r
  assume "kr_ok lo" "kr_ok hi" "merge_ranges lo hi = Some r"
  then show "\<exists>at. split_at r at = Some (lo, hi)" by (blast intro: split_of_merge)
qed

section \<open>Splitting and merging are exact\<close>

text \<open>
  C30. A range splits at a key exactly when the key lies strictly inside it; the two halves are
  well formed, disjoint, cover the range and nothing else, meet at the key, and merging them
  gives the range back.
\<close>

theorem split_is_exact:
  assumes "kr_ok r"
  shows "if contains r at \<and> at \<noteq> kr_start r
     then \<exists>lo hi. split_at r at = Some (lo, hi) \<and> kr_ok lo \<and> kr_ok hi \<and> kr_start hi = at \<and> kr_end lo = Some at
        \<and> (\<forall>k. contains r k = (contains lo k \<or> contains hi k)) \<and> (\<forall>k. \<not> (contains lo k \<and> contains hi k))
        \<and> merge_ranges lo hi = Some r
     else split_at r at = None"
proof (cases "split_at r at")
  case None
  then show ?thesis using split_at_defined[of r at] by simp
next
  case (Some p)
  then obtain lo hi where s: "split_at r at = Some (lo, hi)" by (cases p) auto
  then have "contains r at \<and> at \<noteq> kr_start r" "kr_start hi = at" "kr_end lo = Some at"
    by (auto simp: split_at_Some)
  then show ?thesis
    using s split_at_ok[OF s] split_at_has[OF s] split_at_disjoint[OF s] merge_of_split[OF assms s] by auto
qed

theorem split_is_exact_witness:
  "\<exists>lo hi. split_at unbounded [7] = Some (lo, hi) \<and> kr_ok lo \<and> kr_ok hi \<and> merge_ranges lo hi = Some unbounded"
proof -
  have "contains unbounded [7] \<and> [7] \<noteq> kr_start unbounded" by (simp add: unbounded_def contains_def)
  then show ?thesis using split_is_exact[of unbounded "[7]"] by auto
qed

text \<open>
  Two ranges merge exactly when the first ends where the second starts; the result covers
  the keys of the two and no other, and splitting it at the old boundary gives the two back.
\<close>

theorem merge_is_exact:
  assumes "kr_ok lo" and "kr_ok hi"
  shows "if is_adjacent_to lo hi
     then \<exists>r. merge_ranges lo hi = Some r \<and> kr_ok r \<and> (\<forall>k. contains r k = (contains lo k \<or> contains hi k))
        \<and> split_at r (kr_start hi) = Some (lo, hi)
     else merge_ranges lo hi = None"
proof (cases "merge_ranges lo hi")
  case None
  then have "kr_end lo \<noteq> Some (kr_start hi)" using merge_ranges_of_adjacent[OF assms] by auto
  then show ?thesis using None by (auto simp: is_adjacent_to_def split: option.splits)
next
  case (Some r)
  have "is_adjacent_to lo hi" using Some by (auto simp: merge_ranges_def split: if_splits)
  moreover have "split_at r (kr_start hi) = Some (lo, hi)" by (rule split_of_merge[OF assms Some])
  moreover have "kr_ok r" using Some unfolding merge_ranges_Some by blast
  ultimately show ?thesis using Some split_at_has by auto
qed

theorem merge_is_exact_witness:
  "\<exists>r. merge_ranges \<lparr>kr_start = [], kr_end = Some [4]\<rparr> \<lparr>kr_start = [4], kr_end = None\<rparr> = Some r \<and> kr_ok r"
proof -
  have "kr_ok \<lparr>kr_start = [], kr_end = Some [4]\<rparr>" "kr_ok \<lparr>kr_start = [4], kr_end = None\<rparr>"
    "is_adjacent_to \<lparr>kr_start = [], kr_end = Some [4]\<rparr> \<lparr>kr_start = [4], kr_end = None\<rparr>"
    by code_simp+
  then show ?thesis using merge_is_exact by fastforce
qed

end
