(* ===== verification/Partition_Map.thy ===== *)
theory Partition_Map
  imports Key_Range
begin

text \<open>
  \<open>orbita-core/src/map.rs\<close>: the partition map, its lookup and its coverage check. The
  partitions are a \<open>BTreeMap\<close> keyed by keyspace and range start; the two \<open>HashMap\<close>s, which are
  only read by key, are partial functions.
\<close>

record partition_info =
  pi_id :: partition_id
  pi_keyspace :: keyspace_id
  pi_range :: key_range
  pi_owner :: "node_id option"
  pi_epoch :: epoch
  pi_replicas :: "node_id list"

definition holds :: "partition_info \<Rightarrow> node_id \<Rightarrow> bool" where
  "holds p node = (pi_owner p = Some node \<or> node \<in> set (pi_replicas p))"

record keyspace_info =
  ki_id :: keyspace_id
  ki_name :: bytes
  ki_default_ttl_millis :: "u64 option"
  ki_max_value_bytes :: "u64 option"
  ki_max_storage_bytes :: "u64 option"
  ki_max_reads_per_second :: "u32 option"
  ki_max_writes_per_second :: "u32 option"

type_synonym map_key = "keyspace_id \<times> bytes"
type_synonym partitions = "(map_key, partition_info) btree"

record partition_map =
  pm_version :: map_version
  pm_partitions :: partitions
  pm_keyspaces :: "keyspace_id \<rightharpoonup> keyspace_info"
  pm_by_name :: "bytes \<rightharpoonup> keyspace_id"

definition partition_map_new :: "map_version \<Rightarrow> partition_map" where
  "partition_map_new v =
     \<lparr>pm_version = v, pm_partitions = [], pm_keyspaces = Map.empty, pm_by_name = Map.empty\<rparr>"

definition set_version :: "map_version \<Rightarrow> partition_map \<Rightarrow> partition_map" where
  "set_version v m = m\<lparr>pm_version := v\<rparr>"

definition insert_keyspace :: "keyspace_info \<Rightarrow> partition_map \<Rightarrow> partition_map" where
  "insert_keyspace info m =
     m\<lparr>pm_by_name := (pm_by_name m)(ki_name info \<mapsto> ki_id info),
       pm_keyspaces := (pm_keyspaces m)(ki_id info \<mapsto> info)\<rparr>"

definition remove_keyspace :: "keyspace_id \<Rightarrow> partition_map \<Rightarrow> partition_map" where
  "remove_keyspace i m =
     (let m' = (case pm_keyspaces m i of
                  None \<Rightarrow> m
                | Some info \<Rightarrow>
                    m\<lparr>pm_keyspaces := (pm_keyspaces m)(i := None),
                      pm_by_name := (pm_by_name m)(ki_name info := None)\<rparr>)
      in m'\<lparr>pm_partitions := filter (\<lambda>e. fst (fst e) \<noteq> i) (pm_partitions m')\<rparr>)"

definition insert_partition :: "partition_info \<Rightarrow> partition_map \<Rightarrow> partition_map" where
  "insert_partition info m =
     m\<lparr>pm_partitions :=
         bt_insert (pi_keyspace info, kr_start (pi_range info)) info (pm_partitions m)\<rparr>"

definition remove_partition :: "keyspace_id \<Rightarrow> bytes \<Rightarrow> partition_map \<Rightarrow> partition_map" where
  "remove_partition ks range_start m =
     m\<lparr>pm_partitions := bt_remove (ks, range_start) (pm_partitions m)\<rparr>"

definition keyspace_by_name :: "partition_map \<Rightarrow> bytes \<Rightarrow> keyspace_info option" where
  "keyspace_by_name m name =
     (case pm_by_name m name of None \<Rightarrow> None | Some i \<Rightarrow> pm_keyspaces m i)"

definition lookup :: "partition_map \<Rightarrow> keyspace_id \<Rightarrow> bytes \<Rightarrow> partition_info option" where
  "lookup m ks key =
     (case bt_last_le (pm_partitions m) (ks, key) of
        None \<Rightarrow> None
      | Some (_, candidate) \<Rightarrow>
          if pi_keyspace candidate = ks \<and> contains (pi_range candidate) key
          then Some candidate else None)"

definition find_partition :: "partition_map \<Rightarrow> partition_id \<Rightarrow> partition_info option" where
  "find_partition m i = List.find (\<lambda>p. pi_id p = i) (bt_values (pm_partitions m))"

definition held_by :: "partition_map \<Rightarrow> node_id \<Rightarrow> partition_info list" where
  "held_by m node = filter (\<lambda>p. holds p node) (bt_values (pm_partitions m))"

definition map_is_empty :: "partition_map \<Rightarrow> bool" where
  "map_is_empty m = (pm_partitions m = [])"

section \<open>The coverage check\<close>

datatype coverage_error =
    GapAtStart keyspace_id
  | GapAtEnd keyspace_id
  | Gap keyspace_id bytes bytes
  | Overlap keyspace_id bytes

text \<open>The loop of \<open>check_coverage\<close>; its first argument is the variable \<open>current\<close>.\<close>

fun check_coverage_from ::
  "(keyspace_id \<times> bytes option) option \<Rightarrow> partitions \<Rightarrow> coverage_error + unit" where
  "check_coverage_from current [] =
     (case current of Some (ks, Some _) \<Rightarrow> Inl (GapAtEnd ks) | _ \<Rightarrow> Inr ())"
| "check_coverage_from current (((ks, start), info) # rest) =
     (let continue = check_coverage_from (Some (ks, kr_end (pi_range info))) rest
      in case current of
           None \<Rightarrow> if start \<noteq> [] then Inl (GapAtStart ks) else continue
         | Some (prev_ks, prev_end) \<Rightarrow>
             if prev_ks = ks
             then (case prev_end of
                     None \<Rightarrow> Inl (Overlap ks start)
                   | Some e \<Rightarrow>
                       if e \<noteq> start
                       then Inl (if e < start then Gap ks e start else Overlap ks start)
                       else continue)
             else if prev_end \<noteq> None then Inl (GapAtEnd prev_ks)
             else if start \<noteq> [] then Inl (GapAtStart ks)
             else continue)"

definition check_coverage :: "partition_map \<Rightarrow> coverage_error + unit" where
  "check_coverage m = check_coverage_from None (pm_partitions m)"

section \<open>Well-formed partition tables\<close>

text \<open>
  Every entry is filed under its own keyspace and range start, and no range is empty:
  \<open>insert_partition\<close> is the only way in.
\<close>

definition entry_ok :: "map_key \<times> partition_info \<Rightarrow> bool" where
  "entry_ok e \<longleftrightarrow> fst e = (pi_keyspace (snd e), kr_start (pi_range (snd e))) \<and> kr_ok (pi_range (snd e))"

definition table_ok :: "partitions \<Rightarrow> bool" where
  "table_ok ps \<longleftrightarrow> bt_ok ps \<and> (\<forall>e\<in>set ps. entry_ok e)"

lemma table_okD: "table_ok ps \<Longrightarrow> bt_ok ps"
  by (simp add: table_ok_def)

lemma table_ok_Nil [simp]: "table_ok []"
  by (simp add: table_ok_def)

lemma table_ok_Cons [simp]:
  "table_ok (e # ps) \<longleftrightarrow> entry_ok e \<and> (\<forall>e'\<in>set ps. fst e < fst e') \<and> table_ok ps"
  by (auto simp: table_ok_def)

lemma table_ok_insert [keeps_ok]:
  "table_ok ps \<Longrightarrow> kr_ok (pi_range info) \<Longrightarrow>
   table_ok (bt_insert (pi_keyspace info, kr_start (pi_range info)) info ps)"
  by (auto simp: table_ok_def keeps_ok btree_simps entry_ok_def)

lemma table_ok_filter [keeps_ok]: "table_ok ps \<Longrightarrow> table_ok (filter P ps)"
  by (auto simp: table_ok_def keeps_ok)

lemma table_ok_remove [keeps_ok]: "table_ok ps \<Longrightarrow> table_ok (bt_remove k ps)"
  by (auto simp: table_ok_def keeps_ok btree_simps)

section \<open>How often a key is covered\<close>

text \<open>The number of partitions of a keyspace whose range contains a key.\<close>

definition key_hits :: "partitions \<Rightarrow> keyspace_id \<Rightarrow> bytes \<Rightarrow> nat" where
  "key_hits ps ks key = length (filter (\<lambda>e. fst (fst e) = ks \<and> contains (pi_range (snd e)) key) ps)"

definition table_keyspaces :: "partitions \<Rightarrow> keyspace_id set" where
  "table_keyspaces ps = (fst \<circ> fst) ` set ps"

text \<open>The specification of coverage: in every keyspace of the table every key has one partition.\<close>

definition exactly_covered :: "partitions \<Rightarrow> bool" where
  "exactly_covered ps \<longleftrightarrow> (\<forall>ks\<in>table_keyspaces ps. \<forall>key. key_hits ps ks key = 1)"

lemma key_hits_Nil [simp]: "key_hits [] ks key = 0"
  by (simp add: key_hits_def)

lemma key_hits_Cons:
  "key_hits (e # ps) ks key =
     (if fst (fst e) = ks \<and> contains (pi_range (snd e)) key then 1 else 0) + key_hits ps ks key"
  by (simp add: key_hits_def)

lemma key_hits_0: "key_hits ps ks key = 0 \<longleftrightarrow> (\<forall>e\<in>set ps. fst (fst e) = ks \<longrightarrow> \<not> contains (pi_range (snd e)) key)"
  by (auto simp: key_hits_def filter_empty_conv)

lemma key_hits_pos: "e \<in> set ps \<Longrightarrow> fst (fst e) = ks \<Longrightarrow> contains (pi_range (snd e)) key \<Longrightarrow> 0 < key_hits ps ks key"
  using key_hits_0[of ps ks key] by auto

lemma count_bt_remove:
  assumes "bt_ok ps" "(k, v) \<in> set ps"
  shows "length (filter P ps) = (if P (k, v) then 1 else 0) + length (filter P (bt_remove k ps))"
  using assms
proof (induction ps)
  case Nil
  then show ?case by simp
next
  case (Cons e ps)
  show ?case
  proof (cases "fst e = k")
    case True
    then have "e = (k, v)" and "bt_remove k (e # ps) = ps"
      using Cons.prems by (force simp: bt_remove_def filter_id_conv)+
    then show ?thesis by simp
  next
    case False
    then show ?thesis using Cons by (auto simp: bt_remove_def)
  qed
qed

lemma count_bt_insert:
  assumes "bt_ok ps"
  shows "length (filter P (bt_insert k v ps)) = (if P (k, v) then 1 else 0) + length (filter P (bt_remove k ps))"
  using assms
proof (induction ps)
  case Nil
  then show ?case by (simp add: bt_remove_def)
next
  case (Cons e ps)
  show ?case
  proof (cases "k < fst e \<or> k = fst e")
    case True
    then have "bt_remove k (e # ps) = (if k = fst e then ps else e # ps)"
      using Cons.prems by (auto simp: bt_remove_def filter_id_conv)
    then show ?thesis using True by auto
  next
    case False
    then show ?thesis using Cons by (auto simp: bt_remove_def)
  qed
qed

lemma key_hits_remove:
  assumes "bt_ok ps" "(k, v) \<in> set ps"
  shows "key_hits ps ks key =
    (if fst k = ks \<and> contains (pi_range v) key then 1 else 0) + key_hits (bt_remove k ps) ks key"
  using count_bt_remove[OF assms] by (simp add: key_hits_def)

lemma key_hits_insert:
  assumes "bt_ok ps"
  shows "key_hits (bt_insert k v ps) ks key =
    (if fst k = ks \<and> contains (pi_range v) key then 1 else 0) + key_hits (bt_remove k ps) ks key"
  using count_bt_insert[OF assms] by (simp add: key_hits_def)

lemma key_hits_one_entry:
  assumes "bt_ok ps" "key_hits ps ks key \<le> 1"
    and "e \<in> set ps" "fst (fst e) = ks" "contains (pi_range (snd e)) key"
    and "e' \<in> set ps" "fst (fst e') = ks" "contains (pi_range (snd e')) key"
  shows "e = e'"
proof (rule ccontr)
  assume "e \<noteq> e'"
  obtain k v where e: "e = (k, v)" by (cases e)
  have ne: "fst e' \<noteq> k" using \<open>e \<noteq> e'\<close> assms(1,3,6) e bt_ok_unique by (cases e') fastforce
  have "key_hits ps ks key = 1 + key_hits (bt_remove k ps) ks key"
    using key_hits_remove[of ps k v ks key] assms e by auto
  moreover have "0 < key_hits (bt_remove k ps) ks key"
    using key_hits_pos[of e' "bt_remove k ps"] assms ne by (simp add: set_bt_remove)
  ultimately show False using assms(2) by simp
qed

section \<open>The check decides the specification\<close>

text \<open>What the entries still to come must cover, given the end of the previous partition.\<close>

definition owed :: "bytes option \<Rightarrow> bytes \<Rightarrow> nat" where
  "owed prev_end key = (case prev_end of None \<Rightarrow> 0 | Some e \<Rightarrow> if e \<le> key then 1 else 0)"

lemma owed_step:
  assumes "kr_ok r"
  shows "(if contains r key then 1 else 0) + h = owed (Some (kr_start r)) key \<longleftrightarrow> h = owed (kr_end r) key"
  using assms by (auto simp: owed_def contains_def kr_ok_def split: option.splits)

lemma later_keyspace_hits_0:
  "\<forall>e\<in>set ps. ks < fst (fst e) \<Longrightarrow> key_hits ps ks key = 0"
  by (auto simp: key_hits_0)

lemma below_start_hits_0:
  assumes "\<forall>e\<in>set ps. entry_ok e \<and> (ks, start) < fst e" and "key \<le> start"
  shows "key_hits ps ks key = 0"
  unfolding key_hits_0
proof (intro ballI impI)
  fix e assume "e \<in> set ps" "fst (fst e) = ks"
  then have "start < kr_start (pi_range (snd e))"
    using assms(1) by (fastforce simp: entry_ok_def less_prod_def)
  then show "\<not> contains (pi_range (snd e)) key"
    using assms(2) by (auto simp: contains_def)
qed

lemma owed_None_iff: "(\<forall>key. owed pe key = 0) \<longleftrightarrow> pe = None"
  by (cases pe) (auto simp: owed_def)

lemma owed_head:
  assumes "table_ok (((ks, start), info) # rest)"
  shows "(\<forall>key. key_hits (((ks, start), info) # rest) ks key = owed pe key) \<longleftrightarrow>
         pe = Some start \<and> (\<forall>key. key_hits rest ks key = owed (kr_end (pi_range info)) key)"
    (is "?L \<longleftrightarrow> ?R")
proof -
  have st: "kr_start (pi_range info) = start" and ok: "kr_ok (pi_range info)"
    using assms by (auto simp: entry_ok_def)
  have later: "\<forall>e\<in>set rest. entry_ok e \<and> (ks, start) < fst e"
    using assms by (auto simp: table_ok_def)
  have hit: "key_hits (((ks, start), info) # rest) ks key =
      (if contains (pi_range info) key then 1 else 0) + key_hits rest ks key" for key
    by (simp add: key_hits_Cons)
  show ?thesis
  proof (cases "pe = Some start")
    case True
    then show ?thesis using owed_step[OF ok] by (simp add: hit st)
  next
    case False
    have "\<not> ?L"
    proof (cases pe)
      case None
      then have "owed pe start = 0" by (simp add: owed_def)
      moreover have "0 < key_hits (((ks, start), info) # rest) ks start"
        using contains_start[OF ok] st by (simp add: hit)
      ultimately show ?thesis by (metis less_not_refl)
    next
      case (Some e)
      with False consider "e < start" | "start < e" by fastforce
      then show ?thesis
      proof cases
        case 1
        have "\<not> contains (pi_range info) e" using 1 st by (auto simp: contains_def)
        then have "key_hits (((ks, start), info) # rest) ks e = 0"
          using below_start_hits_0[OF later, of e] 1 by (simp add: hit)
        moreover have "owed pe e = 1" using Some by (simp add: owed_def)
        ultimately show ?thesis by (metis zero_neq_one)
      next
        case 2
        have "0 < key_hits (((ks, start), info) # rest) ks start"
          using contains_start[OF ok] st by (simp add: hit)
        moreover have "owed pe start = 0" using Some 2 by (simp add: owed_def)
        ultimately show ?thesis by (metis less_not_refl)
      qed
    qed
    with False show ?thesis by simp
  qed
qed

lemma owed_whole: "owed (Some []) key = 1"
  by (simp add: owed_def)

lemma table_keyspaces_Cons: "table_keyspaces (e # ps) = insert (fst (fst e)) (table_keyspaces ps)"
  by (simp add: table_keyspaces_def)

lemma table_ok_keyspace_le:
  "table_ok (((ks, start), info) # rest) \<Longrightarrow> e \<in> set rest \<Longrightarrow> ks \<le> fst (fst e)"
  by (cases e; cases "fst e") (auto simp: less_prod_def)

lemma check_coverage_from_Some:
  assumes "table_ok ps" and "\<forall>e\<in>set ps. pk \<le> fst (fst e)"
  shows "check_coverage_from (Some (pk, pe)) ps = Inr () \<longleftrightarrow>
         (\<forall>key. key_hits ps pk key = owed pe key)
         \<and> (\<forall>ks\<in>table_keyspaces ps - {pk}. \<forall>key. key_hits ps ks key = 1)"
  using assms
proof (induction ps arbitrary: pk pe)
  case Nil
  have "(\<forall>key. 0 = owed pe key) \<longleftrightarrow> pe = None" using owed_None_iff[of pe] by metis
  then show ?case by (cases pe) (simp_all add: table_keyspaces_def)
next
  case (Cons e rest)
  obtain ks start info where e: "e = ((ks, start), info)" by (metis prod.exhaust)
  let ?ps = "((ks, start), info) # rest"
  have ok: "table_ok ?ps" and okr: "table_ok rest" using Cons.prems(1) e by auto
  have le: "\<forall>e\<in>set rest. ks \<le> fst (fst e)"
    using table_ok_keyspace_le[OF ok] by blast
  have IH: "check_coverage_from (Some (ks, pe')) rest = Inr () \<longleftrightarrow>
         (\<forall>key. key_hits rest ks key = owed pe' key)
         \<and> (\<forall>ks'\<in>table_keyspaces rest - {ks}. \<forall>key. key_hits rest ks' key = 1)" for pe'
    by (rule Cons.IH[OF okr le])
  have others: "(\<forall>ks'\<in>table_keyspaces ?ps - {ks}. \<forall>key. key_hits ?ps ks' key = 1) \<longleftrightarrow>
      (\<forall>ks'\<in>table_keyspaces rest - {ks}. \<forall>key. key_hits rest ks' key = 1)"
    by (auto simp: table_keyspaces_Cons key_hits_Cons)
  show ?case
  proof (cases "pk = ks")
    case True
    then show ?thesis
      unfolding e True others owed_head[OF ok]
      by (auto simp: IH Let_def split: option.splits)
  next
    case False
    then have "pk < ks" using Cons.prems(2) e by auto
    then have zero: "key_hits ?ps pk key = 0" for key
      using le later_keyspace_hits_0[of ?ps pk key] by fastforce
    have mem: "table_keyspaces ?ps - {pk} = insert ks (table_keyspaces ?ps - {ks})"
    proof -
      have "pk \<notin> table_keyspaces ?ps"
        using \<open>pk < ks\<close> le by (fastforce simp: table_keyspaces_def)
      then show ?thesis by (auto simp: table_keyspaces_Cons)
    qed
    have whole: "(\<forall>key. key_hits ?ps ks key = 1) \<longleftrightarrow>
        start = [] \<and> (\<forall>key. key_hits rest ks key = owed (kr_end (pi_range info)) key)"
      using owed_head[OF ok, of "Some []"] by (auto simp: owed_whole)
    have "(\<forall>key. key_hits ?ps pk key = owed pe key) \<longleftrightarrow> pe = None"
      unfolding zero using owed_None_iff[of pe] by metis
    moreover have "(\<forall>ks'\<in>table_keyspaces ?ps - {pk}. \<forall>key. key_hits ?ps ks' key = 1) \<longleftrightarrow>
        (start = [] \<and> (\<forall>key. key_hits rest ks key = owed (kr_end (pi_range info)) key))
        \<and> (\<forall>ks'\<in>table_keyspaces rest - {ks}. \<forall>key. key_hits rest ks' key = 1)"
      unfolding mem ball_simps whole others ..
    ultimately show ?thesis
      using False unfolding e by (auto simp: IH Let_def)
  qed
qed

lemma check_coverage_from_None:
  assumes "table_ok ps"
  shows "check_coverage_from None ps = Inr () \<longleftrightarrow> exactly_covered ps"
proof (cases ps)
  case Nil
  then show ?thesis by (simp add: exactly_covered_def table_keyspaces_def)
next
  case (Cons e rest)
  obtain ks start info where e: "e = ((ks, start), info)" by (metis prod.exhaust)
  let ?ps = "((ks, start), info) # rest"
  have ok: "table_ok ?ps" and okr: "table_ok rest" using assms Cons e by auto
  have le: "\<forall>e\<in>set rest. ks \<le> fst (fst e)"
    using table_ok_keyspace_le[OF ok] by blast
  have whole: "(\<forall>key. key_hits ?ps ks key = 1) \<longleftrightarrow>
      start = [] \<and> (\<forall>key. key_hits rest ks key = owed (kr_end (pi_range info)) key)"
    using owed_head[OF ok, of "Some []"] by (auto simp: owed_whole)
  have "exactly_covered ?ps \<longleftrightarrow> (\<forall>key. key_hits ?ps ks key = 1)
      \<and> (\<forall>ks'\<in>table_keyspaces rest - {ks}. \<forall>key. key_hits rest ks' key = 1)"
    by (auto simp: exactly_covered_def table_keyspaces_Cons key_hits_Cons)
  then show ?thesis
    unfolding Cons e
    using whole check_coverage_from_Some[OF okr le, of "kr_end (pi_range info)"] by auto
qed

section \<open>Lookup finds the one partition of a key\<close>

lemma bt_last_le_candidate:
  assumes ok: "table_ok ps" and one: "\<forall>k. key_hits ps ks k \<le> 1"
    and e: "e \<in> set ps" "fst (fst e) = ks" "contains (pi_range (snd e)) key"
  shows "bt_last_le ps (ks, key) = Some e"
proof -
  let ?start = "kr_start (pi_range (snd e))"
  have bt: "bt_ok ps" and fe: "fst e = (ks, ?start)"
    using ok e(1,2) by (auto simp: table_ok_def entry_ok_def)
  have le: "fst e \<le> (ks, key)" using e(3) by (auto simp: fe contains_def)
  then obtain c where c: "bt_last_le ps (ks, key) = Some c"
    using bt_last_le_None[of ps "(ks, key)"] e(1) by fastforce
  note cand = bt_last_le_Some[OF bt c]
  have oc: "entry_ok c" using ok cand(1) by (simp add: table_ok_def)
  have "fst e \<le> fst c" using cand(3) e(1) le by blast
  with cand(2) have ks: "fst (fst c) = ks" and lo: "?start \<le> snd (fst c)" and hi: "snd (fst c) \<le> key"
    unfolding fe by (cases "fst c", auto)+
  have "contains (pi_range (snd e)) (snd (fst c))"
    using e(3) lo hi by (auto simp: contains_def split: option.splits)
  moreover have "contains (pi_range (snd c)) (snd (fst c))"
    using oc contains_start[of "pi_range (snd c)"] by (auto simp: entry_ok_def)
  ultimately have "e = c"
    using key_hits_one_entry[OF bt one[rule_format]] e(1,2) cand(1) ks by blast
  then show ?thesis using c by simp
qed

lemma lookup_iff:
  assumes "table_ok (pm_partitions m)" and "\<forall>k. key_hits (pm_partitions m) ks k \<le> 1"
  shows "lookup m ks key = Some p \<longleftrightarrow>
    p \<in> set (bt_values (pm_partitions m)) \<and> pi_keyspace p = ks \<and> contains (pi_range p) key"
proof
  assume l: "lookup m ks key = Some p"
  then obtain k where c: "bt_last_le (pm_partitions m) (ks, key) = Some (k, p)"
      and "pi_keyspace p = ks" "contains (pi_range p) key"
    by (auto simp: lookup_def split: option.splits if_splits)
  moreover have "(k, p) \<in> set (pm_partitions m)"
    using bt_last_le_Some(1)[OF _ c] assms(1) by (simp add: table_ok_def)
  ultimately show "p \<in> set (bt_values (pm_partitions m)) \<and> pi_keyspace p = ks \<and> contains (pi_range p) key"
    by (force simp: set_bt_values)
next
  assume r: "p \<in> set (bt_values (pm_partitions m)) \<and> pi_keyspace p = ks \<and> contains (pi_range p) key"
  then obtain k where k: "(k, p) \<in> set (pm_partitions m)" by (auto simp: set_bt_values)
  then have "fst k = ks" using assms(1) r by (force simp: table_ok_def entry_ok_def)
  then have "bt_last_le (pm_partitions m) (ks, key) = Some (k, p)"
    using bt_last_le_candidate[OF assms k] r by simp
  then show "lookup m ks key = Some p" using r by (simp add: lookup_def)
qed

lemma exactly_covered_le1:
  assumes "exactly_covered ps"
  shows "key_hits ps ks key \<le> 1"
proof (cases "ks \<in> table_keyspaces ps")
  case True
  then show ?thesis using assms by (simp add: exactly_covered_def)
next
  case False
  then have "key_hits ps ks key = 0" unfolding key_hits_0 by (force simp: table_keyspaces_def)
  then show ?thesis by simp
qed

section \<open>Edits of a table\<close>

text \<open>The four ways the control plane edits a table, and that none changes how keys are covered.\<close>

abbreviation key_of :: "partition_info \<Rightarrow> map_key" where
  "key_of p \<equiv> (pi_keyspace p, kr_start (pi_range p))"

lemma table_entry: "table_ok ps \<Longrightarrow> (k, p) \<in> set ps \<Longrightarrow> k = key_of p \<and> kr_ok (pi_range p)"
  by (auto simp: table_ok_def entry_ok_def)

lemma values_entry: "table_ok ps \<Longrightarrow> p \<in> set (bt_values ps) \<longleftrightarrow> (key_of p, p) \<in> set ps"
  using table_entry[of ps _ p] by (force simp: set_bt_values)

lemma bt_remove_absent: "k \<notin> fst ` set ps \<Longrightarrow> bt_remove k ps = ps"
  by (force simp: bt_remove_def filter_id_conv)

lemma bt_remove_twice [simp]: "bt_remove k (bt_remove k ps) = bt_remove k ps"
  by (simp add: bt_remove_def)

lemma key_hits_update:
  assumes "table_ok ps" "(key_of p, p) \<in> set ps" "pi_keyspace p' = pi_keyspace p" "pi_range p' = pi_range p"
  shows "key_hits (bt_insert (key_of p') p' (bt_remove (key_of p') ps)) ks key = key_hits ps ks key"
  using assms key_hits_remove[of ps "key_of p" p ks key] table_ok_remove[of ps "key_of p"]
  by (simp add: key_hits_insert table_okD)

lemma split_key_absent:
  assumes "table_ok ps" "exactly_covered ps" "(key_of p, p) \<in> set ps"
    and "split_at (pi_range p) at = Some (lo, hi)"
  shows "(pi_keyspace p, at) \<notin> fst ` set ps"
proof
  assume "(pi_keyspace p, at) \<in> fst ` set ps"
  then obtain q where q: "((pi_keyspace p, at), q) \<in> set ps" by force
  then have "(pi_keyspace p, at) = key_of q" and "kr_ok (pi_range q)"
    using table_entry[OF assms(1)] by blast+
  then have "contains (pi_range q) at" using contains_start[of "pi_range q"] by simp
  moreover have "contains (pi_range p) at" "at \<noteq> kr_start (pi_range p)"
    using assms(4) by (auto simp: split_at_Some)
  ultimately show False
    using key_hits_one_entry[OF table_okD[OF assms(1)] exactly_covered_le1[OF assms(2)],
        of "(key_of p, p)" "pi_keyspace p" at "((pi_keyspace p, at), q)"] assms(3) q by simp
qed

lemma key_hits_split:
  assumes ok: "table_ok ps" and cov: "exactly_covered ps" and p: "(key_of p, p) \<in> set ps"
    and sp: "split_at (pi_range p) at = Some (pi_range a, pi_range b)"
    and ks: "pi_keyspace a = pi_keyspace p" "pi_keyspace b = pi_keyspace p"
  shows "key_hits (bt_insert (key_of b) b (bt_insert (key_of a) a (bt_remove (key_of p) ps))) ks key
       = key_hits ps ks key"
proof -
  let ?r = "bt_remove (key_of p) ps"
  have bt: "bt_ok ps" "bt_ok ?r" "bt_ok (bt_insert (key_of a) a ?r)"
    using ok by (auto simp: table_ok_def keeps_ok)
  have ka: "key_of a = key_of p" and kb: "key_of b = (pi_keyspace p, at)" and ne: "at \<noteq> kr_start (pi_range p)"
    using sp ks by (auto simp: split_at_Some)
  have "key_of b \<notin> fst ` set ps" using split_key_absent[OF ok cov p sp] kb by simp
  then have "key_of b \<notin> fst ` set (bt_insert (key_of a) a ?r)"
    using ne by (auto simp: set_bt_insert[OF bt(2)] ka kb set_bt_remove)
  then have abs: "bt_remove (key_of b) (bt_insert (key_of a) a ?r) = bt_insert (key_of a) a ?r"
    by (rule bt_remove_absent)
  have "key_hits (bt_insert (key_of b) b (bt_insert (key_of a) a ?r)) ks key =
      (if pi_keyspace p = ks \<and> contains (pi_range b) key then 1 else 0)
      + ((if pi_keyspace p = ks \<and> contains (pi_range a) key then 1 else 0) + key_hits ?r ks key)"
    using key_hits_insert[OF bt(3), of "key_of b" b ks key, unfolded abs]
      key_hits_insert[OF bt(2), of "key_of a" a ks key, unfolded ka bt_remove_twice] ks ka
    by simp
  also have "\<dots> = (if pi_keyspace p = ks \<and> contains (pi_range p) key then 1 else 0) + key_hits ?r ks key"
    using kr.count_split[OF sp, of key] by (auto split: if_splits)
  also have "\<dots> = key_hits ps ks key"
    using key_hits_remove[OF bt(1) p, of ks key] by simp
  finally show ?thesis .
qed

lemma key_hits_merge:
  assumes ok: "table_ok ps" and l: "(key_of l, l) \<in> set ps" and u: "(key_of u, u) \<in> set ps"
    and mg: "merge_ranges (pi_range l) (pi_range u) = Some (pi_range m)"
    and ks: "pi_keyspace u = pi_keyspace l" "pi_keyspace m = pi_keyspace l"
  shows "key_hits (bt_insert (key_of m) m (bt_remove (key_of u) (bt_remove (key_of l) ps))) ks key
       = key_hits ps ks key"
proof -
  let ?r = "bt_remove (key_of u) (bt_remove (key_of l) ps)"
  have okl: "kr_ok (pi_range l)" and oku: "kr_ok (pi_range u)"
    using table_entry[OF ok] l u by blast+
  have bt: "bt_ok ps" "bt_ok (bt_remove (key_of l) ps)" "bt_ok ?r"
    using ok by (auto simp: table_ok_def keeps_ok)
  have km: "key_of m = key_of l" using mg ks by (auto simp: merge_ranges_Some)
  have ne: "key_of u \<noteq> key_of l" using mg okl by (auto simp: merge_ranges_Some kr_ok_def)
  then have u': "(key_of u, u) \<in> set (bt_remove (key_of l) ps)" using u by (simp add: set_bt_remove)
  have abs: "bt_remove (key_of l) ?r = ?r" by (simp add: bt_remove_def conj_commute conj_left_commute)
  have "key_hits (bt_insert (key_of m) m ?r) ks key =
      (if pi_keyspace l = ks \<and> contains (pi_range m) key then 1 else 0) + key_hits ?r ks key"
    unfolding key_hits_insert[OF bt(3)] km abs by simp
  also have "\<dots> = (if pi_keyspace l = ks \<and> contains (pi_range l) key then 1 else 0)
      + ((if pi_keyspace l = ks \<and> contains (pi_range u) key then 1 else 0) + key_hits ?r ks key)"
    using kr.count_join[OF okl oku mg, of key] by (auto split: if_splits)
  also have "\<dots> = key_hits ps ks key"
    using key_hits_remove[OF bt(1) l, of ks key] key_hits_remove[OF bt(2) u', of ks key] ks by simp
  finally show ?thesis .
qed

lemma key_hits_new_keyspace:
  assumes ok: "table_ok ps" and "pi_keyspace p \<notin> table_keyspaces ps" and "pi_range p = unbounded"
  shows "key_hits (bt_insert (key_of p) p ps) ks key = (if ks = pi_keyspace p then 1 else key_hits ps ks key)"
proof -
  have "bt_remove (key_of p) ps = ps"
    using assms(2) by (intro bt_remove_absent) (force simp: table_keyspaces_def)
  moreover have "key_hits ps (pi_keyspace p) key = 0"
    using assms(2) unfolding key_hits_0 by (force simp: table_keyspaces_def)
  ultimately show ?thesis
    using assms(3) by (auto simp: key_hits_insert[OF table_okD[OF ok]])
qed

lemma key_hits_drop_keyspace:
  "key_hits (filter (\<lambda>e. fst (fst e) \<noteq> i) ps) ks key = (if ks = i then 0 else key_hits ps ks key)"
  by (induction ps) (auto simp: key_hits_Cons)

lemma table_keyspaces_insert:
  "bt_ok ps \<Longrightarrow> table_keyspaces (bt_insert k p ps) = insert (fst k) (table_keyspaces (bt_remove k ps))"
  by (force simp: table_keyspaces_def set_bt_insert set_bt_remove)

lemma table_keyspaces_remove_insert:
  assumes "bt_ok ps" "k \<in> fst ` set ps" "fst k' = fst k"
  shows "table_keyspaces (bt_insert k' p (bt_remove k ps)) = table_keyspaces ps"
proof -
  have "table_keyspaces (bt_insert k' p (bt_remove k ps)) =
      insert (fst k') ((fst \<circ> fst) ` {e \<in> set ps. fst e \<noteq> k \<and> fst e \<noteq> k'})"
    using assms(1) by (simp add: table_keyspaces_def set_bt_insert bt_remove_ok set_bt_remove)
  also have "\<dots> = (fst \<circ> fst) ` set ps"
    using assms(2,3) by (auto simp: image_iff)
  finally show ?thesis by (simp add: table_keyspaces_def)
qed

text \<open>Re-inserting the entries of a table into an empty one gives the table back.\<close>

lemma bt_insert_last: "\<forall>e\<in>set m. fst e < k \<Longrightarrow> bt_insert k v m = m @ [(k, v)]"
  by (induction m) auto

lemma table_rebuild:
  assumes "table_ok ps"
  shows "fold (\<lambda>p acc. bt_insert (key_of p) p acc) (bt_values ps) [] = ps"
  using assms
proof (induction ps rule: rev_induct)
  case Nil
  then show ?case by (simp add: bt_values_def)
next
  case (snoc e ps)
  have ok: "table_ok ps" and e: "entry_ok e" and lt: "\<forall>e'\<in>set ps. fst e' < fst e"
    using snoc.prems by (auto simp: table_ok_def bt_ok_def sorted_wrt_append)
  have "fold (\<lambda>p acc. bt_insert (key_of p) p acc) (bt_values (ps @ [e])) [] =
      bt_insert (key_of (snd e)) (snd e) ps"
    using snoc.IH[OF ok] by (simp add: bt_values_def)
  also have "\<dots> = ps @ [e]"
    using bt_insert_last[of ps "fst e" "snd e"] lt e by (simp add: entry_ok_def)
  finally show ?case .
qed

section \<open>The check decides coverage\<close>

text \<open>
  C31. The one-pass coverage check accepts a map exactly when every key of every keyspace in it
  has one partition: it misses no gap and no overlap, and reports none that is not there.
\<close>

theorem check_decides_coverage:
  assumes "table_ok (pm_partitions m)"
  shows "check_coverage m = Inr () \<longleftrightarrow>
    (\<forall>ks\<in>table_keyspaces (pm_partitions m). \<forall>key.
       length (filter (\<lambda>p. pi_keyspace p = ks \<and> contains (pi_range p) key) (bt_values (pm_partitions m))) = 1)"
proof -
  have "length (filter (\<lambda>p. pi_keyspace p = ks \<and> contains (pi_range p) key) (bt_values (pm_partitions m)))
      = key_hits (pm_partitions m) ks key" for ks key
  proof -
    have "fst (fst e) = pi_keyspace (snd e)" if "e \<in> set (pm_partitions m)" for e
      using table_entry[OF assms, of "fst e" "snd e"] that by simp
    then show ?thesis by (auto simp: key_hits_def bt_values_def filter_map intro!: arg_cong[where f = length] filter_cong)
  qed
  then show ?thesis
    using check_coverage_from_None[OF assms] by (simp add: check_coverage_def exactly_covered_def)
qed

definition example_table :: partitions where
  "example_table = [((1, []), \<lparr>pi_id = 1, pi_keyspace = 1, pi_range = unbounded, pi_owner = None, pi_epoch = 1, pi_replicas = []\<rparr>)]"

theorem check_decides_coverage_witness:
  "\<forall>key. length (filter (\<lambda>p. pi_keyspace p = 1 \<and> contains (pi_range p) key) (bt_values example_table)) = 1"
proof -
  let ?m = "(partition_map_new 1)\<lparr>pm_partitions := example_table\<rparr>"
  have p: "pm_partitions ?m = example_table" by simp
  have t: "table_ok (pm_partitions ?m)" unfolding p by (simp add: example_table_def entry_ok_def unbounded_def kr_ok_def)
  have "check_coverage ?m = Inr ()" by (simp add: check_coverage_def example_table_def unbounded_def)
  moreover have "1 \<in> table_keyspaces example_table" by (simp add: table_keyspaces_def example_table_def)
  ultimately show ?thesis unfolding check_decides_coverage[OF t] unfolding p by blast
qed

end
