(* ===== verification/Model.thy ===== *)
theory Model
  imports Version Partition_Map
begin

text \<open>
  \<open>orbita-control/src/model.rs\<close>: keyspace configuration, keyspaces and credentials as the
  leader group stores them, with their encodings. \<open>hash_secret\<close> is SHA-256 of a third-party
  crate and has no definition here; a credential carries the digest it was given.
\<close>

record keyspace_config =
  kc_default_ttl_millis :: "u64 option"
  kc_max_value_bytes :: "u64 option"
  kc_max_storage_bytes :: "u64 option"
  kc_max_reads_per_second :: "u32 option"
  kc_max_writes_per_second :: "u32 option"

definition put_config :: "keyspace_config \<Rightarrow> bytes" where
  "put_config c =
     put_opt_u64 (kc_default_ttl_millis c) @ put_opt_u64 (kc_max_value_bytes c)
     @ put_opt_u64 (kc_max_storage_bytes c) @ put_opt_u32 (kc_max_reads_per_second c)
     @ put_opt_u32 (kc_max_writes_per_second c)"

definition get_config :: "keyspace_config decoder" where
  "get_config =
     dbind get_opt_u64 (\<lambda>ttl. dbind get_opt_u64 (\<lambda>value. dbind get_opt_u64 (\<lambda>storage.
     dbind get_opt_u32 (\<lambda>reads. dbind get_opt_u32 (\<lambda>writes.
       dret \<lparr>kc_default_ttl_millis = ttl, kc_max_value_bytes = value, kc_max_storage_bytes = storage,
             kc_max_reads_per_second = reads, kc_max_writes_per_second = writes\<rparr>)))))"

record keyspace =
  ks_id :: keyspace_id
  ks_name :: bytes
  ks_config :: keyspace_config
  ks_created_at_millis :: u64

text \<open>\<open>Keyspace::info\<close>: the routing view of a keyspace.\<close>

definition info_of :: "keyspace \<Rightarrow> keyspace_info" where
  "info_of k =
     \<lparr>ki_id = ks_id k, ki_name = ks_name k,
      ki_default_ttl_millis = kc_default_ttl_millis (ks_config k),
      ki_max_value_bytes = kc_max_value_bytes (ks_config k),
      ki_max_storage_bytes = kc_max_storage_bytes (ks_config k),
      ki_max_reads_per_second = kc_max_reads_per_second (ks_config k),
      ki_max_writes_per_second = kc_max_writes_per_second (ks_config k)\<rparr>"

datatype permission = Read | Write

fun permission_tag :: "permission \<Rightarrow> u8" where
  "permission_tag Read = 1"
| "permission_tag Write = 2"

definition permission_from_tag :: "u8 \<Rightarrow> codec_error + permission" where
  "permission_from_tag tag =
     (if tag = 1 then Inr Read
      else if tag = 2 then Inr Write
      else Inl (UnknownTag ''permission'' (ucast tag)))"

text \<open>A value the decoder checks after reading it: \<open>f(r.u8()?)?\<close>.\<close>

definition get_checked :: "'a decoder \<Rightarrow> ('a \<Rightarrow> codec_error + 'b) \<Rightarrow> 'b decoder" where
  "get_checked get f = dbind get (\<lambda>x. case f x of Inl e \<Rightarrow> dfail e | Inr y \<Rightarrow> dret y)"

definition put_permission :: "permission \<Rightarrow> bytes" where
  "put_permission p = put_u8 (permission_tag p)"

definition get_permission :: "permission decoder" where
  "get_permission = get_checked get_u8 permission_from_tag"

record credential =
  cred_id :: bytes
  cred_secret_hash :: bytes
  cred_keyspaces :: "bytes list"
  cred_permissions :: "permission list"
  cred_description :: bytes
  cred_created_at_millis :: u64
  cred_expires_at_millis :: "u64 option"

definition credential_is_expired :: "credential \<Rightarrow> u64 \<Rightarrow> bool" where
  "credential_is_expired c now_millis =
     (case cred_expires_at_millis c of None \<Rightarrow> False | Some at \<Rightarrow> at \<le> now_millis)"

definition credential_allows :: "credential \<Rightarrow> bytes \<Rightarrow> permission \<Rightarrow> u64 \<Rightarrow> bool" where
  "credential_allows c ks p now_millis =
     (if credential_is_expired c now_millis then False
      else list_ex (\<lambda>k. k = ks) (cred_keyspaces c) \<and> p \<in> set (cred_permissions c))"

definition put_credential :: "credential \<Rightarrow> bytes" where
  "put_credential c =
     put_str (cred_id c) @ put_bytes (cred_secret_hash c) @ put_seq put_str (cred_keyspaces c)
     @ put_seq put_permission (cred_permissions c) @ put_str (cred_description c)
     @ put_u64 (cred_created_at_millis c) @ put_opt_u64 (cred_expires_at_millis c)"

definition secret_hash_of :: "bytes \<Rightarrow> codec_error + bytes" where
  "secret_hash_of h = (if length h = 32 then Inr h else Inl (OutOfRange ''credential secret hash''))"

definition get_credential :: "credential decoder" where
  "get_credential =
     dbind get_string (\<lambda>i. dbind (get_checked get_bytes secret_hash_of) (\<lambda>hash.
     dbind (get_seq get_string) (\<lambda>kss. dbind (get_seq get_permission) (\<lambda>perms.
     dbind get_string (\<lambda>descr. dbind get_u64 (\<lambda>created. dbind get_opt_u64 (\<lambda>expires.
       dret \<lparr>cred_id = i, cred_secret_hash = hash, cred_keyspaces = kss, cred_permissions = perms,
             cred_description = descr, cred_created_at_millis = created,
             cred_expires_at_millis = expires\<rparr>)))))))"

section \<open>Round trips\<close>

lemma get_checked_step:
  "get (rd pre bs) = Inr (x, r) \<Longrightarrow> f x = Inr y \<Longrightarrow> get_checked get f (rd pre bs) = Inr (y, r)"
  by (simp add: get_checked_def dbind_Inr dret_simp)

interpretation config: codec put_config get_config "\<lambda>_. True"
  by unfold_locales (simp add: put_config_def get_config_def decode_simps)

interpretation permission: codec put_permission get_permission "\<lambda>_. True"
proof
  fix p pre rest
  have "permission_from_tag (permission_tag p) = Inr p"
    by (cases p) (simp_all add: permission_from_tag_def)
  then show "get_permission (rd pre (put_permission p @ rest)) = Inr (p, rd (pre @ put_permission p) rest)"
    by (simp add: get_permission_def put_permission_def get_checked_step u8.roundtrip)
qed

interpretation seq_permission: codec "put_seq put_permission" "get_seq get_permission" len32
  using permission.seq_codec by simp

text \<open>What the Rust types already guarantee of a credential: UTF-8 strings, a 32-byte digest.\<close>

definition credential_ok :: "credential \<Rightarrow> bool" where
  "credential_ok c \<longleftrightarrow>
     str_ok (cred_id c) \<and> length (cred_secret_hash c) = 32 \<and> seq_wf str_ok (cred_keyspaces c)
     \<and> len32 (cred_permissions c) \<and> str_ok (cred_description c)"

interpretation secret_hash: codec put_bytes "get_checked get_bytes secret_hash_of" "\<lambda>h. length h = 32"
  by unfold_locales (simp add: get_checked_step bytes.roundtrip secret_hash_of_def)

interpretation credential: codec put_credential get_credential credential_ok
  by unfold_locales
    (simp add: put_credential_def get_credential_def credential_ok_def decode_simps
      secret_hash.step seq_permission.step)

declare config.step [decode_simps] config.step_end [decode_simps]
  credential.step [decode_simps] credential.step_end [decode_simps]

section \<open>What a credential grants\<close>

text \<open>
  A credential survives the log and the wire whole, and the one that is read back grants
  exactly what the original did: a permission it names, in a keyspace it names, until the
  millisecond it expires and never after.
\<close>

theorem credential_survives_the_log:
  assumes "credential_ok c"
  shows "\<exists>d. get_credential (reader_new (put_credential c)) = Inr (d, rd (put_credential c) [])
     \<and> (\<forall>ks p now. credential_allows d ks p now \<longleftrightarrow>
          ks \<in> set (cred_keyspaces c) \<and> p \<in> set (cred_permissions c)
          \<and> (\<forall>at. cred_expires_at_millis c = Some at \<longrightarrow> now < at))"
  using credential.roundtrip_end[OF assms, of "[]"]
  by (auto simp: reader_new_def rd_def credential_allows_def credential_is_expired_def list_ex_iff not_le
      split: option.split)

theorem credential_survives_the_log_witness:
  "\<exists>d. get_credential (reader_new (put_credential
       \<lparr>cred_id = [97], cred_secret_hash = replicate 32 0, cred_keyspaces = [[117]], cred_permissions = [Read],
        cred_description = [], cred_created_at_millis = 0, cred_expires_at_millis = Some 9\<rparr>)) = Inr (d, rd (put_credential
       \<lparr>cred_id = [97], cred_secret_hash = replicate 32 0, cred_keyspaces = [[117]], cred_permissions = [Read],
        cred_description = [], cred_created_at_millis = 0, cred_expires_at_millis = Some 9\<rparr>) [])
     \<and> credential_allows d [117] Read 8 \<and> \<not> credential_allows d [117] Read 9 \<and> \<not> credential_allows d [117] Write 8"
proof -
  let ?c = "\<lparr>cred_id = [97], cred_secret_hash = replicate 32 0, cred_keyspaces = [[117]], cred_permissions = [Read],
        cred_description = [], cred_created_at_millis = 0, cred_expires_at_millis = Some 9\<rparr>"
  have "credential_ok ?c" by (simp add: credential_ok_def str_ok_def seq_wf_def)
  from credential_survives_the_log[OF this] show ?thesis by auto
qed

end
