(* ===== verification/Membership.thy ===== *)
theory Membership
  imports Model
begin

text \<open>
  \<open>orbita-control/src/membership.rs\<close>: roles, health, and the status a node reports, in the
  five wire shapes the rolling-upgrade window keeps readable.
\<close>

datatype node_role = LeaderRole | WorkerRole

datatype node_health = Healthy | Suspect | Dead

record partition_progress =
  pp_partition :: partition_id
  pp_durable_lamport :: lamport
  pp_applied_lamport :: lamport
  pp_size_bytes :: u64
  pp_index_bytes :: "u64 option"
  pp_committed_lamport :: "lamport option"

definition put_progress_v3 :: "partition_progress \<Rightarrow> bytes" where
  "put_progress_v3 p =
     put_u64 (pp_partition p) @ put_u64 (pp_durable_lamport p) @ put_u64 (pp_applied_lamport p)
     @ put_u64 (pp_size_bytes p)"

definition put_progress_v4 :: "partition_progress \<Rightarrow> bytes" where
  "put_progress_v4 p = put_progress_v3 p @ put_opt_u64 (pp_index_bytes p)"

definition put_progress :: "partition_progress \<Rightarrow> bytes" where
  "put_progress p = put_progress_v4 p @ put_opt_u64 (pp_committed_lamport p)"

definition get_progress_v3 :: "partition_progress decoder" where
  "get_progress_v3 =
     dbind get_u64 (\<lambda>partition. dbind get_u64 (\<lambda>durable. dbind get_u64 (\<lambda>applied. dbind get_u64 (\<lambda>sz.
       dret \<lparr>pp_partition = partition, pp_durable_lamport = durable, pp_applied_lamport = applied,
             pp_size_bytes = sz, pp_index_bytes = None, pp_committed_lamport = None\<rparr>))))"

definition get_progress_v4 :: "partition_progress decoder" where
  "get_progress_v4 =
     dbind get_progress_v3 (\<lambda>p. dbind get_opt_u64 (\<lambda>i.
       dret (p\<lparr>pp_index_bytes := i, pp_committed_lamport := None\<rparr>)))"

definition get_progress :: "partition_progress decoder" where
  "get_progress =
     dbind get_progress_v4 (\<lambda>p. dbind get_opt_u64 (\<lambda>c. dret (p\<lparr>pp_committed_lamport := c\<rparr>)))"

record node_status =
  ns_role :: node_role
  ns_address :: bytes
  ns_map_version :: map_version
  ns_speaks :: version_range
  ns_ready :: bool
  ns_draining :: bool
  ns_voter_eligible :: bool
  ns_failure_domain :: bytes
  ns_node_identity :: bytes
  ns_partitions :: "partition_progress list"

text \<open>\<open>NodeStatus::joining\<close>; the window of the running binary is an argument.\<close>

definition status_joining :: "version_range \<Rightarrow> node_role \<Rightarrow> bytes \<Rightarrow> node_status" where
  "status_joining binary_speaks role address =
     \<lparr>ns_role = role, ns_address = address, ns_map_version = 0, ns_speaks = binary_speaks,
      ns_ready = False, ns_draining = False, ns_voter_eligible = False, ns_failure_domain = [],
      ns_node_identity = [], ns_partitions = []\<rparr>"

definition status_progress :: "node_status \<Rightarrow> partition_id \<Rightarrow> partition_progress option" where
  "status_progress s pid = List.find (\<lambda>p. pp_partition p = pid) (ns_partitions s)"

definition status_role_tag :: "node_role \<Rightarrow> u8" where
  "status_role_tag role = (case role of LeaderRole \<Rightarrow> 0 | WorkerRole \<Rightarrow> 1)"

definition status_role_from_tag :: "u8 \<Rightarrow> codec_error + node_role" where
  "status_role_from_tag tag =
     (if tag = 0 then Inr LeaderRole
      else if tag = 1 then Inr WorkerRole
      else Inl (UnknownTag ''node role'' (ucast tag)))"

definition put_status_head :: "node_status \<Rightarrow> bytes" where
  "put_status_head s =
     put_u8 (status_role_tag (ns_role s)) @ put_str (ns_address s) @ put_u64 (ns_map_version s)"

definition get_status_head :: "(node_role \<times> bytes \<times> map_version) decoder" where
  "get_status_head =
     dbind (get_checked get_u8 status_role_from_tag) (\<lambda>role.
     dbind get_string (\<lambda>address. dbind get_u64 (\<lambda>version. dret (role, address, version))))"

definition put_status_v5 :: "node_status \<Rightarrow> bytes" where
  "put_status_v5 s =
     put_status_head s @ put_version_range (ns_speaks s) @ put_bool (ns_ready s)
     @ put_bool (ns_draining s) @ put_seq put_progress (ns_partitions s)"

definition put_status :: "node_status \<Rightarrow> bytes" where
  "put_status s =
     put_status_v5 s @ put_bool (ns_voter_eligible s) @ put_str (ns_failure_domain s)
     @ put_str (ns_node_identity s)"

definition put_status_v4 :: "node_status \<Rightarrow> bytes" where
  "put_status_v4 s =
     put_status_head s @ put_version_range (ns_speaks s) @ put_bool (ns_ready s)
     @ put_bool (ns_draining s) @ put_seq put_progress_v4 (ns_partitions s)"

definition put_status_v3 :: "node_status \<Rightarrow> bytes" where
  "put_status_v3 s =
     put_status_head s @ put_version_range (ns_speaks s) @ put_bool (ns_ready s)
     @ put_bool (ns_draining s) @ put_seq put_progress_v3 (ns_partitions s)"

definition put_status_v2 :: "node_status \<Rightarrow> bytes" where
  "put_status_v2 s =
     put_status_head s @ put_version_range (ns_speaks s) @ put_seq put_progress_v3 (ns_partitions s)"

definition put_status_legacy :: "node_status \<Rightarrow> bytes" where
  "put_status_legacy s = put_status_head s @ put_seq put_progress_v3 (ns_partitions s)"

text \<open>The fields every decoder below fills in when the wire shape does not carry them.\<close>

definition status_of ::
  "node_role \<times> bytes \<times> map_version \<Rightarrow> version_range \<Rightarrow> bool \<Rightarrow> bool \<Rightarrow> partition_progress list \<Rightarrow> node_status" where
  "status_of head speaks ready draining ps =
     \<lparr>ns_role = fst head, ns_address = fst (snd head), ns_map_version = snd (snd head), ns_speaks = speaks,
      ns_ready = ready, ns_draining = draining, ns_voter_eligible = False, ns_failure_domain = [],
      ns_node_identity = [], ns_partitions = ps\<rparr>"

text \<open>\<open>decode_v5\<close>, \<open>decode_v4\<close> and \<open>decode_v3\<close> differ in the decoder of a progress entry.\<close>

definition get_status_ready :: "partition_progress decoder \<Rightarrow> node_status decoder" where
  "get_status_ready each =
     dbind get_status_head (\<lambda>head. dbind get_version_range (\<lambda>speaks. dbind get_bool (\<lambda>ready.
     dbind get_bool (\<lambda>draining. dbind (get_seq each) (\<lambda>ps. dret (status_of head speaks ready draining ps))))))"

definition get_status_v5 :: "node_status decoder" where
  "get_status_v5 = get_status_ready get_progress"

definition get_status_v4 :: "node_status decoder" where
  "get_status_v4 = get_status_ready get_progress_v4"

definition get_status_v3 :: "node_status decoder" where
  "get_status_v3 = get_status_ready get_progress_v3"

definition get_status_v2 :: "node_status decoder" where
  "get_status_v2 =
     dbind get_status_head (\<lambda>head. dbind get_version_range (\<lambda>speaks.
     dbind (get_seq get_progress_v3) (\<lambda>ps. dret (status_of head speaks False False ps))))"

definition get_status_legacy :: "node_status decoder" where
  "get_status_legacy =
     dbind get_status_head (\<lambda>head. dbind (get_seq get_progress_v3) (\<lambda>ps.
       dret (status_of head (version_range_exactly version_zero) False False ps)))"

definition get_status :: "node_status decoder" where
  "get_status =
     dbind get_status_v5 (\<lambda>s. dbind get_bool (\<lambda>voter. dbind get_string (\<lambda>domain. dbind get_string (\<lambda>ident.
       dret (s\<lparr>ns_voter_eligible := voter, ns_failure_domain := domain, ns_node_identity := ident\<rparr>)))))"

section \<open>What each wire shape carries\<close>

text \<open>The progress and the status as an older shape can tell them.\<close>

definition progress_as_v4 :: "partition_progress \<Rightarrow> partition_progress" where
  "progress_as_v4 p = p\<lparr>pp_committed_lamport := None\<rparr>"

definition progress_as_v3 :: "partition_progress \<Rightarrow> partition_progress" where
  "progress_as_v3 p = p\<lparr>pp_index_bytes := None, pp_committed_lamport := None\<rparr>"

definition status_as :: "(partition_progress \<Rightarrow> partition_progress) \<Rightarrow> node_status \<Rightarrow> node_status" where
  "status_as f s =
     s\<lparr>ns_voter_eligible := False, ns_failure_domain := [], ns_node_identity := [],
       ns_partitions := map f (ns_partitions s)\<rparr>"

definition status_ok :: "node_status \<Rightarrow> bool" where
  "status_ok s \<longleftrightarrow>
     str_ok (ns_address s) \<and> str_ok (ns_failure_domain s) \<and> str_ok (ns_node_identity s)
     \<and> len32 (ns_partitions s)"

interpretation progress: codec put_progress get_progress "\<lambda>_. True"
  by unfold_locales
    (simp add: put_progress_def put_progress_v4_def put_progress_v3_def get_progress_def
      get_progress_v4_def get_progress_v3_def dbind_def decode_simps u64.roundtrip opt_u64.roundtrip)

text \<open>
  A decoder that reads back a weaker value than was written, as the older shapes do: the
  contract of a codec up to a projection.
\<close>

locale lossy_codec =
  fixes enc :: "'a \<Rightarrow> bytes" and dec :: "'a decoder" and view :: "'a \<Rightarrow> 'a"
  assumes lossy: "dec (rd pre (enc x @ rest)) = Inr (view x, rd (pre @ enc x) rest)"
begin

lemma lossy_step: "dbind dec f (rd pre (enc x @ rest)) = f (view x) (rd (pre @ enc x) rest)"
  by (rule dbind_Inr) (rule lossy)

lemma lossy_n:
  "get_n (length xs) dec (rd pre (concat (map enc xs) @ rest)) =
     Inr (map view xs, rd (pre @ concat (map enc xs)) rest)"
  by (induction xs arbitrary: pre) (simp_all add: decode_simps lossy_step dbind_Inr)

lemma lossy_seq:
  "len32 xs \<Longrightarrow> get_seq dec (rd pre (put_seq enc xs @ rest)) = Inr (map view xs, rd (pre @ put_seq enc xs) rest)"
  by (simp add: get_seq_def put_seq_def u32.step unat_len32 lossy_n)

lemma lossy_seq_step:
  "len32 xs \<Longrightarrow> dbind (get_seq dec) f (rd pre (put_seq enc xs @ rest)) = f (map view xs) (rd (pre @ put_seq enc xs) rest)"
  by (rule dbind_Inr) (rule lossy_seq)

end

interpretation progress_v3: lossy_codec put_progress_v3 get_progress_v3 progress_as_v3
  by unfold_locales
    (simp add: put_progress_v3_def get_progress_v3_def progress_as_v3_def decode_simps)

interpretation progress_v4: lossy_codec put_progress_v4 get_progress_v4 progress_as_v4
  by unfold_locales
    (simp add: put_progress_v4_def get_progress_v4_def progress_v3.lossy_step
      progress_as_v3_def progress_as_v4_def decode_simps)

interpretation progress_v5: lossy_codec put_progress get_progress "\<lambda>p. p"
  by unfold_locales (simp add: progress.roundtrip)

lemma status_head_step:
  assumes "str_ok (ns_address s)"
  shows "dbind get_status_head f (rd pre (put_status_head s @ rest)) =
    f (ns_role s, ns_address s, ns_map_version s) (rd (pre @ put_status_head s) rest)"
proof (rule dbind_Inr)
  have "status_role_from_tag (status_role_tag (ns_role s)) = Inr (ns_role s)"
    by (cases "ns_role s") (simp_all add: status_role_from_tag_def status_role_tag_def)
  then have "get_checked get_u8 status_role_from_tag (rd p (put_u8 (status_role_tag (ns_role s)) @ q)) =
      Inr (ns_role s, rd (p @ put_u8 (status_role_tag (ns_role s))) q)" for p q
    by (simp add: get_checked_step u8.roundtrip)
  then show "get_status_head (rd pre (put_status_head s @ rest)) =
      Inr ((ns_role s, ns_address s, ns_map_version s), rd (pre @ put_status_head s) rest)"
    using assms by (simp add: get_status_head_def put_status_head_def dbind_Inr decode_simps)
qed

lemma lossy_status:
  assumes "lossy_codec enc each view" "status_ok s"
  shows "get_status_ready each (rd pre ((put_status_head s @ put_version_range (ns_speaks s)
      @ put_bool (ns_ready s) @ put_bool (ns_draining s) @ put_seq enc (ns_partitions s)) @ rest)) =
    Inr (status_as view s, rd (pre @ put_status_head s @ put_version_range (ns_speaks s)
      @ put_bool (ns_ready s) @ put_bool (ns_draining s) @ put_seq enc (ns_partitions s)) rest)"
  using assms(2)
  by (simp add: get_status_ready_def status_head_step status_ok_def decode_simps status_as_def status_of_def
      lossy_codec.lossy_seq_step[OF assms(1)])

lemma status_v5_roundtrip:
  "status_ok s \<Longrightarrow> get_status_v5 (rd pre (put_status_v5 s @ rest)) =
     Inr (status_as (\<lambda>p. p) s, rd (pre @ put_status_v5 s) rest)"
  using lossy_status[OF progress_v5.lossy_codec_axioms] by (simp add: get_status_v5_def put_status_v5_def)

interpretation status: codec put_status get_status status_ok
proof
  fix s pre rest
  assume ok: "status_ok s"
  then show "get_status (rd pre (put_status s @ rest)) = Inr (s, rd (pre @ put_status s) rest)"
    by (simp add: get_status_def put_status_def dbind_Inr status_v5_roundtrip status_ok_def
        decode_simps status_as_def)
qed

lemma status_v2_roundtrip:
  assumes "status_ok s"
  shows "get_status_v2 (rd pre (put_status_v2 s @ rest)) =
    Inr ((status_as progress_as_v3 s)\<lparr>ns_ready := False, ns_draining := False\<rparr>, rd (pre @ put_status_v2 s) rest)"
  using assms
  by (simp add: get_status_v2_def put_status_v2_def status_head_step status_ok_def decode_simps status_as_def
      status_of_def progress_v3.lossy_seq_step)

lemma status_legacy_roundtrip:
  assumes "status_ok s"
  shows "get_status_legacy (rd pre (put_status_legacy s @ rest)) =
    Inr ((status_as progress_as_v3 s)\<lparr>ns_ready := False, ns_draining := False,
        ns_speaks := version_range_exactly version_zero\<rparr>, rd (pre @ put_status_legacy s) rest)"
  using assms
  by (simp add: get_status_legacy_def put_status_legacy_def status_head_step status_ok_def decode_simps
      status_as_def status_of_def progress_v3.lossy_seq_step)

section \<open>Reading the status of another release\<close>

text \<open>
  C32. A status in any wire shape that was ever written is read back as exactly what that shape
  carries: the current shape loses nothing, and each older one loses only the fields it does not
  have, which take their documented defaults (not ready, not draining, not a voter, no index
  size, no committed position, the lowest version).
\<close>

theorem statuses_of_every_release_are_read:
  assumes "status_ok s"
  shows "get_status (reader_new (put_status s)) = Inr (s, rd (put_status s) [])
     \<and> get_status_v5 (reader_new (put_status_v5 s)) = Inr (status_as (\<lambda>p. p) s, rd (put_status_v5 s) [])
     \<and> get_status_v4 (reader_new (put_status_v4 s)) = Inr (status_as progress_as_v4 s, rd (put_status_v4 s) [])
     \<and> get_status_v3 (reader_new (put_status_v3 s)) = Inr (status_as progress_as_v3 s, rd (put_status_v3 s) [])
     \<and> get_status_v2 (reader_new (put_status_v2 s)) =
         Inr ((status_as progress_as_v3 s)\<lparr>ns_ready := False, ns_draining := False\<rparr>, rd (put_status_v2 s) [])
     \<and> get_status_legacy (reader_new (put_status_legacy s)) =
         Inr ((status_as progress_as_v3 s)\<lparr>ns_ready := False, ns_draining := False,
           ns_speaks := version_range_exactly version_zero\<rparr>, rd (put_status_legacy s) [])"
proof -
  have r: "reader_new bs = rd [] (bs @ [])" for bs by (simp add: reader_new_def rd_def)
  show ?thesis
    unfolding r
    using status.roundtrip[OF assms, of "[]" "[]"] status_v5_roundtrip[OF assms, of "[]" "[]"]
      status_v2_roundtrip[OF assms, of "[]" "[]"] status_legacy_roundtrip[OF assms, of "[]" "[]"]
      lossy_status[OF progress_v4.lossy_codec_axioms assms, of "[]" "[]"]
      lossy_status[OF progress_v3.lossy_codec_axioms assms, of "[]" "[]"]
    by (simp add: get_status_v4_def get_status_v3_def put_status_v4_def put_status_v3_def)
qed

theorem statuses_of_every_release_are_read_witness:
  "get_status (reader_new (put_status (status_joining (version_range_exactly protocol_0_1) WorkerRole [104])))
     = Inr (status_joining (version_range_exactly protocol_0_1) WorkerRole [104],
         rd (put_status (status_joining (version_range_exactly protocol_0_1) WorkerRole [104])) [])"
proof -
  have "status_ok (status_joining (version_range_exactly protocol_0_1) WorkerRole [104])"
    by (simp add: status_ok_def status_joining_def str_ok_def)
  from statuses_of_every_release_are_read[OF this] show ?thesis by blast
qed

end
