(* ===== verification/Command.thy ===== *)
theory Command
  imports Membership
begin

text \<open>
  \<open>orbita-control/src/command.rs\<close>: the alphabet of the replicated log and its encoding. The
  constructors' arguments are the fields of the source's variants, in their order.
\<close>

record merge_generation =
  mg_lower :: partition_id
  mg_upper :: partition_id
  mg_lower_epoch :: epoch
  mg_upper_epoch :: epoch
  mg_merged :: partition_id
  mg_boundary :: bytes
  mg_range :: key_range

definition put_generation :: "merge_generation \<Rightarrow> bytes" where
  "put_generation g =
     put_u64 (mg_lower g) @ put_u64 (mg_upper g) @ put_u64 (mg_lower_epoch g)
     @ put_u64 (mg_upper_epoch g) @ put_u64 (mg_merged g) @ put_bytes (mg_boundary g)
     @ put_bytes (kr_start (mg_range g)) @ put_opt_bytes (kr_end (mg_range g))"

definition get_generation :: "merge_generation decoder" where
  "get_generation =
     dbind get_u64 (\<lambda>lower. dbind get_u64 (\<lambda>upper. dbind get_u64 (\<lambda>lower_epoch.
     dbind get_u64 (\<lambda>upper_epoch. dbind get_u64 (\<lambda>merged. dbind get_bytes (\<lambda>boundary.
     dbind get_bytes (\<lambda>start. dbind get_opt_bytes (\<lambda>end'.
       case key_range_new start end' of
         None \<Rightarrow> dfail (OutOfRange ''merge range'')
       | Some rng \<Rightarrow>
           dret \<lparr>mg_lower = lower, mg_upper = upper, mg_lower_epoch = lower_epoch,
                 mg_upper_epoch = upper_epoch, mg_merged = merged, mg_boundary = boundary,
                 mg_range = rng\<rparr>))))))))"

datatype control_command =
    RegisterNode node_id node_role bytes version_range bool bool
  | SetHealth node_id node_health
  | ForgetNode node_id
  | CreateKeyspace keyspace_id bytes keyspace_config u64 partition_id "node_id option" "node_id list"
  | UpdateKeyspace keyspace_id keyspace_config
  | DeleteKeyspace keyspace_id
  | CreateCredential credential
  | RevokeCredential bytes
  | FencePartition partition_id epoch
  | CompleteFenceDrain partition_id epoch
  | AssignOwner partition_id node_id "node_id list" epoch
  | TransferOwnership partition_id node_id node_id "node_id list" epoch
  | SetReplicas partition_id "node_id list" epoch
  | SplitPartition partition_id bytes partition_id partition_id epoch
  | BeginSplit partition_id bytes partition_id partition_id epoch
  | MarkSplitPrepared partition_id node_id epoch
  | CompleteSplit partition_id epoch
  | AbortSplit partition_id epoch
  | BeginMerge merge_generation
  | MarkMergePrepared merge_generation node_id
  | CompleteMerge merge_generation
  | AbortMerge merge_generation
  | SetClusterVersion cluster_version cluster_version

fun role_tag :: "node_role \<Rightarrow> u8" where
  "role_tag LeaderRole = 1"
| "role_tag WorkerRole = 2"

definition role_from_tag :: "u8 \<Rightarrow> codec_error + node_role" where
  "role_from_tag tag =
     (if tag = 1 then Inr LeaderRole
      else if tag = 2 then Inr WorkerRole
      else Inl (UnknownTag ''node role'' (ucast tag)))"

fun health_tag :: "node_health \<Rightarrow> u8" where
  "health_tag Healthy = 1"
| "health_tag Suspect = 2"
| "health_tag Dead = 3"

definition health_from_tag :: "u8 \<Rightarrow> codec_error + node_health" where
  "health_from_tag tag =
     (if tag = 1 then Inr Healthy
      else if tag = 2 then Inr Suspect
      else if tag = 3 then Inr Dead
      else Inl (UnknownTag ''node health'' (ucast tag)))"

section \<open>Encoding\<close>

fun encode :: "control_command \<Rightarrow> bytes" where
  "encode (RegisterNode node role address speaks ready draining) =
     (let tag = (if ready \<or> draining then 15 else 14)
      in put_u8 tag @ put_u64 node @ put_u8 (role_tag role) @ put_str address
         @ put_version_range speaks
         @ (if tag = 15 then put_bool ready @ put_bool draining else []))"
| "encode (SetHealth node health) = put_u8 2 @ put_u64 node @ put_u8 (health_tag health)"
| "encode (ForgetNode node) = put_u8 3 @ put_u64 node"
| "encode (CreateKeyspace i name config created first_partition owner replicas) =
     put_u8 4 @ put_u64 i @ put_str name @ put_config config @ put_u64 created
     @ put_u64 first_partition @ put_opt_u64 owner @ put_seq put_u64 replicas"
| "encode (UpdateKeyspace i config) = put_u8 5 @ put_u64 i @ put_config config"
| "encode (DeleteKeyspace i) = put_u8 6 @ put_u64 i"
| "encode (CreateCredential c) = put_u8 7 @ put_credential c"
| "encode (RevokeCredential i) = put_u8 8 @ put_str i"
| "encode (FencePartition p e) = put_u8 9 @ put_u64 p @ put_u64 e"
| "encode (CompleteFenceDrain p e) = put_u8 17 @ put_u64 p @ put_u64 e"
| "encode (AssignOwner p owner replicas e) =
     put_u8 10 @ put_u64 p @ put_u64 owner @ put_seq put_u64 replicas @ put_u64 e"
| "encode (TransferOwnership p from to replicas e) =
     put_u8 16 @ put_u64 p @ put_u64 from @ put_u64 to @ put_seq put_u64 replicas @ put_u64 e"
| "encode (SetReplicas p replicas e) = put_u8 11 @ put_u64 p @ put_seq put_u64 replicas @ put_u64 e"
| "encode (SplitPartition p at lower upper e) =
     put_u8 12 @ put_u64 p @ put_bytes at @ put_u64 lower @ put_u64 upper @ put_u64 e"
| "encode (BeginSplit p at lower upper e) =
     put_u8 18 @ put_u64 p @ put_bytes at @ put_u64 lower @ put_u64 upper @ put_u64 e"
| "encode (MarkSplitPrepared p node e) = put_u8 19 @ put_u64 p @ put_u64 node @ put_u64 e"
| "encode (CompleteSplit p e) = put_u8 20 @ put_u64 p @ put_u64 e"
| "encode (AbortSplit p e) = put_u8 21 @ put_u64 p @ put_u64 e"
| "encode (BeginMerge g) = put_u8 22 @ put_generation g"
| "encode (MarkMergePrepared g node) = put_u8 23 @ put_generation g @ put_u64 node"
| "encode (CompleteMerge g) = put_u8 24 @ put_generation g"
| "encode (AbortMerge g) = put_u8 25 @ put_generation g"
| "encode (SetClusterVersion version expect) =
     put_u8 13 @ put_cluster_version version @ put_cluster_version expect"

section \<open>Decoding\<close>

definition get_role :: "node_role decoder" where
  "get_role = get_checked get_u8 role_from_tag"

definition get_health :: "node_health decoder" where
  "get_health = get_checked get_u8 health_from_tag"

definition get_two :: "(u64 \<Rightarrow> u64 \<Rightarrow> 'a) \<Rightarrow> 'a decoder" where
  "get_two f = dbind get_u64 (\<lambda>a. dbind get_u64 (\<lambda>b. dret (f a b)))"

definition get_split :: "(u64 \<Rightarrow> bytes \<Rightarrow> u64 \<Rightarrow> u64 \<Rightarrow> u64 \<Rightarrow> 'a) \<Rightarrow> 'a decoder" where
  "get_split f =
     dbind get_u64 (\<lambda>p. dbind get_bytes (\<lambda>at. dbind get_u64 (\<lambda>lower. dbind get_u64 (\<lambda>upper.
     dbind get_u64 (\<lambda>e. dret (f p at lower upper e))))))"

definition get_registration ::
  "version_range decoder \<Rightarrow> (bool \<times> bool) decoder \<Rightarrow> control_command decoder" where
  "get_registration get_speaks get_flags =
     dbind get_u64 (\<lambda>node. dbind get_role (\<lambda>role. dbind get_string (\<lambda>address.
     dbind get_speaks (\<lambda>speaks. dbind get_flags (\<lambda>(ready, draining).
       dret (RegisterNode node role address speaks ready draining))))))"

definition get_flags :: "(bool \<times> bool) decoder" where
  "get_flags = dbind get_bool (\<lambda>ready. dbind get_bool (\<lambda>draining. dret (ready, draining)))"

definition get_payload :: "u8 \<Rightarrow> control_command decoder" where
  "get_payload tag =
     (if tag = 1 then
        get_registration (dret (version_range_exactly version_zero)) (dret (False, False))
      else if tag = 2 then dbind get_u64 (\<lambda>node. dbind get_health (\<lambda>h. dret (SetHealth node h)))
      else if tag = 3 then dbind get_u64 (\<lambda>node. dret (ForgetNode node))
      else if tag = 4 then
        dbind get_u64 (\<lambda>i. dbind get_string (\<lambda>name. dbind get_config (\<lambda>config.
        dbind get_u64 (\<lambda>created. dbind get_u64 (\<lambda>first_partition. dbind get_opt_u64 (\<lambda>owner.
        dbind (get_seq get_u64) (\<lambda>replicas.
          dret (CreateKeyspace i name config created first_partition owner replicas))))))))
      else if tag = 5 then dbind get_u64 (\<lambda>i. dbind get_config (\<lambda>config. dret (UpdateKeyspace i config)))
      else if tag = 6 then dbind get_u64 (\<lambda>i. dret (DeleteKeyspace i))
      else if tag = 7 then dbind get_credential (\<lambda>c. dret (CreateCredential c))
      else if tag = 8 then dbind get_string (\<lambda>i. dret (RevokeCredential i))
      else if tag = 9 then get_two FencePartition
      else if tag = 17 then get_two CompleteFenceDrain
      else if tag = 10 then
        dbind get_u64 (\<lambda>p. dbind get_u64 (\<lambda>owner. dbind (get_seq get_u64) (\<lambda>replicas.
        dbind get_u64 (\<lambda>e. dret (AssignOwner p owner replicas e)))))
      else if tag = 11 then
        dbind get_u64 (\<lambda>p. dbind (get_seq get_u64) (\<lambda>replicas. dbind get_u64 (\<lambda>e.
          dret (SetReplicas p replicas e))))
      else if tag = 12 then get_split SplitPartition
      else if tag = 18 then get_split BeginSplit
      else if tag = 19 then
        dbind get_u64 (\<lambda>p. dbind get_u64 (\<lambda>node. dbind get_u64 (\<lambda>e. dret (MarkSplitPrepared p node e))))
      else if tag = 20 then get_two CompleteSplit
      else if tag = 21 then get_two AbortSplit
      else if tag = 22 then dbind get_generation (\<lambda>g. dret (BeginMerge g))
      else if tag = 23 then
        dbind get_generation (\<lambda>g. dbind get_u64 (\<lambda>node. dret (MarkMergePrepared g node)))
      else if tag = 24 then dbind get_generation (\<lambda>g. dret (CompleteMerge g))
      else if tag = 25 then dbind get_generation (\<lambda>g. dret (AbortMerge g))
      else if tag = 13 then
        dbind get_cluster_version (\<lambda>version. dbind get_cluster_version (\<lambda>expect.
          dret (SetClusterVersion version expect)))
      else if tag = 14 then get_registration get_version_range (dret (False, False))
      else if tag = 15 then get_registration get_version_range get_flags
      else if tag = 16 then
        dbind get_u64 (\<lambda>p. dbind get_u64 (\<lambda>from. dbind get_u64 (\<lambda>to.
        dbind (get_seq get_u64) (\<lambda>replicas. dbind get_u64 (\<lambda>e.
          dret (TransferOwnership p from to replicas e))))))
      else dfail (UnknownTag ''control command'' (ucast tag)))"

definition decode :: "bytes \<Rightarrow> codec_error + control_command" where
  "decode buf =
     (case dbind get_u8 get_payload (reader_new buf) of
        Inl e \<Rightarrow> Inl e
      | Inr (command, r) \<Rightarrow> (case rd_done r of Inl e \<Rightarrow> Inl e | Inr _ \<Rightarrow> Inr command))"

section \<open>Round trip\<close>

text \<open>
  What the Rust types guarantee of a command: strings are UTF-8, a range is not empty, a digest
  has 32 bytes; and no field is longer than its \<open>u32\<close> length prefix can say.
\<close>

definition generation_ok :: "merge_generation \<Rightarrow> bool" where
  "generation_ok g \<longleftrightarrow>
     kr_ok (mg_range g) \<and> len32 (mg_boundary g) \<and> len32 (kr_start (mg_range g))
     \<and> opt_wf len32 (kr_end (mg_range g))"

fun command_ok :: "control_command \<Rightarrow> bool" where
  "command_ok (RegisterNode _ _ address _ _ _) = str_ok address"
| "command_ok (CreateKeyspace _ name _ _ _ _ replicas) = (str_ok name \<and> len32 replicas)"
| "command_ok (CreateCredential c) = credential_ok c"
| "command_ok (RevokeCredential i) = str_ok i"
| "command_ok (AssignOwner _ _ replicas _) = len32 replicas"
| "command_ok (TransferOwnership _ _ _ replicas _) = len32 replicas"
| "command_ok (SetReplicas _ replicas _) = len32 replicas"
| "command_ok (SplitPartition _ at _ _ _) = len32 at"
| "command_ok (BeginSplit _ at _ _ _) = len32 at"
| "command_ok (BeginMerge g) = generation_ok g"
| "command_ok (MarkMergePrepared g _) = generation_ok g"
| "command_ok (CompleteMerge g) = generation_ok g"
| "command_ok (AbortMerge g) = generation_ok g"
| "command_ok _ = True"

interpretation generation: codec put_generation get_generation generation_ok
proof
  fix g pre rest
  assume "generation_ok g"
  then show "get_generation (rd pre (put_generation g @ rest)) = Inr (g, rd (pre @ put_generation g) rest)"
    by (simp add: put_generation_def get_generation_def generation_ok_def decode_simps key_range_new_rebuild)
qed

interpretation role: codec "\<lambda>r. put_u8 (role_tag r)" get_role "\<lambda>_. True"
proof
  fix r pre rest
  have "role_from_tag (role_tag r) = Inr r" by (cases r) (simp_all add: role_from_tag_def)
  then show "get_role (rd pre (put_u8 (role_tag r) @ rest)) = Inr (r, rd (pre @ put_u8 (role_tag r)) rest)"
    by (simp add: get_role_def get_checked_step u8.roundtrip)
qed

interpretation health: codec "\<lambda>h. put_u8 (health_tag h)" get_health "\<lambda>_. True"
proof
  fix h pre rest
  have "health_from_tag (health_tag h) = Inr h" by (cases h) (simp_all add: health_from_tag_def)
  then show "get_health (rd pre (put_u8 (health_tag h) @ rest)) = Inr (h, rd (pre @ put_u8 (health_tag h)) rest)"
    by (simp add: get_health_def get_checked_step u8.roundtrip)
qed

interpretation flags: codec "\<lambda>(a, b). put_bool a @ put_bool b" get_flags "\<lambda>_. True"
  by unfold_locales (auto simp: get_flags_def decode_simps)

lemmas command_steps = generation.step generation.step_end role.step role.step_end health.step
  health.step_end get_two_def get_split_def get_registration_def get_payload_def

lemma flags_step:
  "dbind get_flags f (rd pre (put_bool a @ put_bool b @ rest)) = f (a, b) (rd (pre @ put_bool a @ put_bool b) rest)"
  by (rule dbind_Inr) (simp add: get_flags_def decode_simps)

lemma dret_step: "dbind (dret x) f r = f x r"
  by (simp add: dbind_Inr dret_simp)

lemma payload_roundtrip:
  assumes "command_ok c"
  shows "dbind get_u8 get_payload (rd pre (encode c @ rest)) = Inr (c, rd (pre @ encode c) rest)"
  using assms
  by (cases c) (auto simp: command_steps decode_simps flags_step dret_step Let_def)

interpretation command: codec encode "dbind get_u8 get_payload" command_ok
  by unfold_locales (rule payload_roundtrip)

section \<open>Commands in the log\<close>

text \<open>
  C33. Every command survives the log: the bytes written for it decode to the same command, and
  the same bytes followed by anything at all are refused as trailing garbage.
\<close>

theorem command_survives_the_log:
  assumes "command_ok c"
  shows "decode (encode c) = Inr c \<and> (rest \<noteq> [] \<longrightarrow> decode (encode c @ rest) = Inl Trailing)"
proof -
  have "reader_new bs = rd [] bs" for bs by (simp add: reader_new_def rd_def)
  then show ?thesis
    using command.roundtrip[OF assms, of "[]" rest] command.roundtrip_end[OF assms, of "[]"]
    by (simp add: decode_def rd_done_def rd_def)
qed

theorem command_survives_the_log_witness:
  "decode (encode (BeginSplit 1 [9] 2 3 1)) = Inr (BeginSplit 1 [9] 2 3 1)
   \<and> decode (encode (BeginSplit 1 [9] 2 3 1) @ [0]) = Inl Trailing"
  using command_survives_the_log[of "BeginSplit 1 [9] 2 3 1" "[0]"] by simp

text \<open>
  A stream of commands has one reading: no command's bytes begin those of another, so
  commands written one after the other are told apart without any framing, and two logs with
  the same bytes are the same log.
\<close>

theorem command_streams_are_unambiguous:
  assumes "list_all command_ok cs" and "list_all command_ok ds" and "length cs = length ds"
    and "concat (map encode cs) @ rest = concat (map encode ds) @ rest'"
  shows "cs = ds \<and> rest = rest'"
  using assms(3,1,2,4)
proof (induction cs ds rule: list_induct2)
  case (Cons c cs d ds)
  then have "encode c @ (concat (map encode cs) @ rest) = encode d @ (concat (map encode ds) @ rest')" by simp
  moreover then have "c = d" using command.prefix_free[of c d] Cons.prems(1,2) by simp
  ultimately show ?case using Cons by simp
qed simp

theorem command_streams_are_unambiguous_witness:
  "concat (map encode [ForgetNode 1, DeleteKeyspace 2]) @ [5] \<noteq> concat (map encode [ForgetNode 1, DeleteKeyspace 3]) @ [5]"
  using command_streams_are_unambiguous[of "[ForgetNode 1, DeleteKeyspace 2]" "[ForgetNode 1, DeleteKeyspace 3]" "[5]" "[5]"]
  by auto

lemma ascii_utf8: "list_all (\<lambda>c. c < 0x80) s \<Longrightarrow> utf8_valid s"
  by (induction s rule: utf8_valid.induct) auto

text \<open>
  A keyspace name that passes validation is kept as it was given, has between 1 and 64 bytes
  and is plain ASCII, so that a command that carries it can always be written to the log and
  read back.
\<close>

theorem accepted_names_can_be_logged:
  assumes "keyspace_name_new name = Inr n"
  shows "n = name \<and> 1 \<le> length name \<and> length name \<le> 64 \<and> list_all (\<lambda>c. c < 0x80) name
     \<and> (len32 replicas \<longrightarrow>
        decode (encode (CreateKeyspace i n config created fp owner replicas)) = Inr (CreateKeyspace i name config created fp owner replicas))"
proof -
  have n: "n = name" "name \<noteq> []" "length name \<le> 64"
    "list_all (\<lambda>c. is_ascii_lowercase c \<or> is_ascii_digit c \<or> c = 45 \<or> c = 95) name"
    using assms by (auto simp: keyspace_name_new_def keyspace_name_max_len_def Let_def split: if_splits)
  have ascii: "list_all (\<lambda>c. c < 0x80) name"
    using n(4) name_byte_ascii by (simp only: list_all_iff) blast
  then have "str_ok n" using ascii_utf8[of name] n(1,3) by (simp add: str_ok_def)
  then have "command_ok (CreateKeyspace i n config created fp owner replicas)" if "len32 replicas"
    using that by simp
  then show ?thesis
    using n ascii payload_roundtrip[of "CreateKeyspace i n config created fp owner replicas" "[]" "[]"]
    by (cases name) (auto simp: decode_def reader_new_def rd_def rd_done_def)
qed

theorem accepted_names_can_be_logged_witness:
  "decode (encode (CreateKeyspace 1 [117, 115] \<lparr>kc_default_ttl_millis = None, kc_max_value_bytes = None,
       kc_max_storage_bytes = None, kc_max_reads_per_second = None, kc_max_writes_per_second = None\<rparr> 0 1 None [2])) =
     Inr (CreateKeyspace 1 [117, 115] \<lparr>kc_default_ttl_millis = None, kc_max_value_bytes = None,
       kc_max_storage_bytes = None, kc_max_reads_per_second = None, kc_max_writes_per_second = None\<rparr> 0 1 None [2])"
proof -
  have "keyspace_name_new [117, 115] = Inr [117, 115]" by code_simp
  from accepted_names_can_be_logged[OF this, of "[2]"] show ?thesis by simp
qed

end
