(* ===== verification/Cluster_State.thy ===== *)
theory Cluster_State
  imports Command
begin

text \<open>
  \<open>orbita-control/src/state.rs\<close>: the replicated state machine of the control plane. A method on
  \<open>&mut self\<close> is a function from the state to the new state and a result; the state is returned
  with an error too, because what a method changed before it failed stays changed.

  Every message of \<open>format!\<close> is a constructor of \<open>msg\<close> with the values it interpolates.
\<close>

datatype msg =
    AlreadyIssued partition_id u64
  | SplitSuperseded
  | NeedsProtocol01
  | MergeNeedsProtocol01
  | Incompatible compatibility_refusal
  | UnknownNode node_id
  | NotAWorker node_id
  | NotHealthy node_id node_health
  | OwnershipIncompatible node_id compatibility_refusal
  | NotReady node_id
  | VersionNotExpected cluster_version cluster_version
  | VersionNotNewer cluster_version cluster_version
  | StillHoldsPartitions node_id
  | NotACreateKeyspace
  | InvalidKeyspaceName bytes
  | IdAlreadyInUse
  | CredentialWithoutKeyspace
  | NoPartition partition_id
  | NoOwnerToFence partition_id
  | NotWaitingOnLeases partition_id
  | AlreadyHasOwner partition_id
  | OwnerListedAsReplica
  | IsNotOwner node_id partition_id
  | IsNotReplica node_id partition_id
  | ChildIdInUse
  | SplitKeyOutside partition_id
  | AlreadySplitting partition_id
  | AlreadyMerging partition_id
  | NoOwnerToPrepare partition_id
  | NotSplitting partition_id
  | NotASplitHolder node_id partition_id
  | SplitUnprepared partition_id "node_id list"
  | SplitBoundaryLeft partition_id
  | MergeIdsNotDistinct
  | MergeAcrossKeyspaces
  | MergeNotAdjacent
  | MergeGenerationMismatch
  | MergeNotServing
  | MergeParentBusy
  | MergedIdInUse
  | MergeNotActive
  | NotAMergeHolder node_id
  | MergeUnprepared "node_id list"
  | MergeParentsMoved
  | MergeParentsChanged

type_synonym cerror = "msg error"

section \<open>State\<close>

record pending_split =
  sp_at :: bytes
  sp_lower :: partition_id
  sp_upper :: partition_id
  sp_epoch :: epoch
  sp_required :: "node_id list"
  sp_prepared :: "node_id list"

record split_intent =
  si_parent :: partition_id
  si_keyspace :: keyspace_id
  si_at :: bytes
  si_lower :: partition_id
  si_upper :: partition_id
  si_epoch :: epoch
  si_child_epoch :: epoch
  si_required :: "node_id list"
  si_prepared :: "node_id list"
  si_parent_range :: key_range

record pending_merge =
  me_generation :: merge_generation
  me_required :: "node_id list"
  me_prepared :: "node_id list"

record merge_intent =
  mi_generation :: merge_generation
  mi_keyspace :: keyspace_id
  mi_required :: "node_id list"
  mi_prepared :: "node_id list"

datatype partition_phase = Unowned | Serving | Fenced node_id map_version bool

record node_record =
  nr_id :: node_id
  nr_role :: node_role
  nr_address :: bytes
  nr_health :: node_health
  nr_speaks :: version_range
  nr_ready :: bool
  nr_draining :: bool

record handoff_checkpoint =
  hc_receiver :: node_id
  hc_map_version :: map_version

record cluster_state =
  cs_map :: partition_map
  cs_keyspaces :: "(keyspace_id, keyspace) btree"
  cs_phases :: "(partition_id, partition_phase) btree"
  cs_nodes :: "(node_id, node_record) btree"
  cs_pending_splits :: "(partition_id, pending_split) btree"
  cs_pending_merges :: "(partition_id, pending_merge) btree"
  cs_handoffs :: "(node_id, (partition_id, handoff_checkpoint) btree) btree"
  cs_credentials :: "(bytes, credential) btree"
  cs_next_keyspace_id :: u64
  cs_next_partition_id :: u64
  cs_version :: cluster_version
  cs_version_initialized :: bool

definition cluster_state_new :: cluster_state where
  "cluster_state_new =
     \<lparr>cs_map = partition_map_new 0, cs_keyspaces = [], cs_phases = [], cs_nodes = [],
      cs_pending_splits = [], cs_pending_merges = [], cs_handoffs = [], cs_credentials = [],
      cs_next_keyspace_id = 1, cs_next_partition_id = 1, cs_version = version_zero,
      cs_version_initialized = False\<rparr>"

type_synonym outcome = "cluster_state \<times> (cerror + unit)"

definition accept :: "cluster_state \<Rightarrow> outcome" where
  "accept s = (s, Inr ())"

definition refuse :: "cluster_state \<Rightarrow> cerror \<Rightarrow> outcome" where
  "refuse s e = (s, Inl e)"

text \<open>\<open>let x = r?;\<close> inside a method: an error returns with the state as it is.\<close>

definition attempt :: "cluster_state \<Rightarrow> cerror + 'a \<Rightarrow> ('a \<Rightarrow> outcome) \<Rightarrow> outcome" where
  "attempt s r k = (case r of Inl e \<Rightarrow> refuse s e | Inr x \<Rightarrow> k x)"

section \<open>Reading the state\<close>

definition state_keyspace_by_name :: "cluster_state \<Rightarrow> bytes \<Rightarrow> keyspace option" where
  "state_keyspace_by_name s name = List.find (\<lambda>k. ks_name k = name) (bt_values (cs_keyspaces s))"

definition phase :: "cluster_state \<Rightarrow> partition_id \<Rightarrow> partition_phase option" where
  "phase s p = bt_get (cs_phases s) p"

definition is_splitting :: "cluster_state \<Rightarrow> partition_id \<Rightarrow> bool" where
  "is_splitting s p = bt_contains (cs_pending_splits s) p"

definition merge_touches :: "partition_id \<Rightarrow> pending_merge \<Rightarrow> bool" where
  "merge_touches p m = (mg_lower (me_generation m) = p \<or> mg_upper (me_generation m) = p)"

definition is_merging :: "cluster_state \<Rightarrow> partition_id \<Rightarrow> bool" where
  "is_merging s p = list_ex (merge_touches p) (bt_values (cs_pending_merges s))"

definition merge_intents :: "cluster_state \<Rightarrow> merge_intent list" where
  "merge_intents s =
     List.map_filter (\<lambda>m.
       case find_partition (cs_map s) (mg_lower (me_generation m)) of
         None \<Rightarrow> None
       | Some lower \<Rightarrow>
           Some \<lparr>mi_generation = me_generation m, mi_keyspace = pi_keyspace lower,
                 mi_required = me_required m, mi_prepared = me_prepared m\<rparr>)
     (bt_values (cs_pending_merges s))"

definition split_intents :: "cluster_state \<Rightarrow> split_intent list" where
  "split_intents s =
     List.map_filter (\<lambda>(parent, sp).
       case find_partition (cs_map s) parent of
         None \<Rightarrow> None
       | Some info \<Rightarrow>
           Some \<lparr>si_parent = parent, si_keyspace = pi_keyspace info, si_at = sp_at sp,
                 si_lower = sp_lower sp, si_upper = sp_upper sp, si_epoch = sp_epoch sp,
                 si_child_epoch = next_counter (sp_epoch sp), si_required = sp_required sp,
                 si_prepared = sp_prepared sp, si_parent_range = pi_range info\<rparr>)
     (cs_pending_splits s)"

definition is_fresh :: "cluster_state \<Rightarrow> bool" where
  "is_fresh s = (cs_keyspaces s = [] \<and> map_is_empty (cs_map s))"

definition ensure_unissued :: "cluster_state \<Rightarrow> partition_id \<Rightarrow> cerror + unit" where
  "ensure_unissued s i =
     (if cs_version_initialized s \<and> protocol_0_2 \<le> cs_version s \<and> i < cs_next_partition_id s
      then Inl (InvalidArgument (AlreadyIssued i (cs_next_partition_id s)))
      else Inr ())"

definition lifecycle_enabled :: "cluster_state \<Rightarrow> bool" where
  "lifecycle_enabled s = (cs_version_initialized s \<and> lifecycle_protocol_active (cs_version s))"

definition fenced_owner_stays_a_replica :: "cluster_state \<Rightarrow> bool" where
  "fenced_owner_stays_a_replica s = (cs_version_initialized s \<and> protocol_0_1 \<le> cs_version s)"

definition state_compatibility_refusal ::
  "cluster_state \<Rightarrow> version_range \<Rightarrow> compatibility_refusal option" where
  "state_compatibility_refusal s speaks =
     (let uninitialized = is_fresh s \<and> \<not> cs_version_initialized s
      in if \<not> uninitialized \<and> \<not> version_range_contains speaks (cs_version s)
         then Some \<lparr>cr_speaks = speaks, cr_active = cs_version s\<rparr>
         else None)"

definition new_ownership_eligibility :: "cluster_state \<Rightarrow> node_id \<Rightarrow> cerror + unit" where
  "new_ownership_eligibility s node =
     (case bt_get (cs_nodes s) node of
        None \<Rightarrow> Inl (InvalidArgument (UnknownNode node))
      | Some record \<Rightarrow>
          if nr_role record \<noteq> WorkerRole then Inl (InvalidArgument (NotAWorker node))
          else if nr_health record \<noteq> Healthy
          then Inl (InvalidArgument (NotHealthy node (nr_health record)))
          else
            case state_compatibility_refusal s (nr_speaks record) of
              Some refusal \<Rightarrow> Inl (InvalidArgument (OwnershipIncompatible node refusal))
            | None \<Rightarrow>
                if lifecycle_enabled s \<and> (\<not> nr_ready record \<or> nr_draining record)
                then Inl (InvalidArgument (NotReady node))
                else Inr ())"

definition is_eligible_owner :: "cluster_state \<Rightarrow> node_id \<Rightarrow> bool" where
  "is_eligible_owner s node = is_ok (new_ownership_eligibility s node)"

definition placement_candidates :: "cluster_state \<Rightarrow> node_id list" where
  "placement_candidates s =
     map snd (sort
       (map (\<lambda>n. (length (held_by (cs_map s) (nr_id n)), nr_id n))
         (filter (\<lambda>n. is_eligible_owner s (nr_id n)) (bt_values (cs_nodes s)))))"

definition ensure_merge_permitted :: "cluster_state \<Rightarrow> cerror + unit" where
  "ensure_merge_permitted s =
     (if \<not> cs_version_initialized s \<or> cs_version s < protocol_0_1
      then Inl (Unavailable MergeNeedsProtocol01) else Inr ())"

fun is_protocol_0_1 :: "control_command \<Rightarrow> bool" where
  "is_protocol_0_1 (CompleteFenceDrain _ _) = True"
| "is_protocol_0_1 (BeginSplit _ _ _ _ _) = True"
| "is_protocol_0_1 (MarkSplitPrepared _ _ _) = True"
| "is_protocol_0_1 (CompleteSplit _ _) = True"
| "is_protocol_0_1 (AbortSplit _ _) = True"
| "is_protocol_0_1 _ = False"

fun is_protocol_0_2 :: "control_command \<Rightarrow> bool" where
  "is_protocol_0_2 (BeginMerge _) = True"
| "is_protocol_0_2 (MarkMergePrepared _ _) = True"
| "is_protocol_0_2 (CompleteMerge _) = True"
| "is_protocol_0_2 (AbortMerge _) = True"
| "is_protocol_0_2 _ = False"

fun is_split_partition :: "control_command \<Rightarrow> bool" where
  "is_split_partition (SplitPartition _ _ _ _ _) = True"
| "is_split_partition _ = False"

definition ensure_command_permitted :: "cluster_state \<Rightarrow> control_command \<Rightarrow> cerror + unit" where
  "ensure_command_permitted s command =
     (if is_split_partition command \<and> cs_version_initialized s \<and> protocol_0_1 \<le> cs_version s
      then Inl (Unavailable SplitSuperseded)
      else if is_protocol_0_1 command \<and> (\<not> cs_version_initialized s \<or> cs_version s < protocol_0_1)
      then Inl (Unavailable NeedsProtocol01)
      else if is_protocol_0_2 command then ensure_merge_permitted s
      else Inr ())"

definition partition_or_err :: "cluster_state \<Rightarrow> partition_id \<Rightarrow> cerror + partition_info" where
  "partition_or_err s p =
     (case find_partition (cs_map s) p of
        None \<Rightarrow> Inl (InvalidArgument (NoPartition p))
      | Some info \<Rightarrow> Inr info)"

definition check_epoch :: "cluster_state \<Rightarrow> partition_id \<Rightarrow> epoch \<Rightarrow> cerror + partition_info" where
  "check_epoch s p expect =
     bind_res (partition_or_err s p) (\<lambda>info.
       if pi_epoch info \<noteq> expect then Inl (StaleEpoch p expect (pi_epoch info)) else Inr info)"

section \<open>Nodes, versions and credentials\<close>

definition bump_map_version :: "cluster_state \<Rightarrow> cluster_state" where
  "bump_map_version s = s\<lparr>cs_map := set_version (next_counter (pm_version (cs_map s))) (cs_map s)\<rparr>"

definition register_node ::
  "cluster_state \<Rightarrow> node_id \<Rightarrow> node_role \<Rightarrow> bytes \<Rightarrow> version_range \<Rightarrow> bool \<Rightarrow> bool \<Rightarrow> outcome" where
  "register_node s node role address speaks ready draining =
     (case state_compatibility_refusal s speaks of
        Some refusal \<Rightarrow> refuse s (InvalidArgument (Incompatible refusal))
      | None \<Rightarrow>
          let entry = (case bt_get (cs_nodes s) node of
                         Some r \<Rightarrow> r
                       | None \<Rightarrow> \<lparr>nr_id = node, nr_role = role, nr_address = address, nr_health = Healthy,
                                  nr_speaks = speaks, nr_ready = ready, nr_draining = draining\<rparr>);
              entry' = entry\<lparr>nr_role := role, nr_address := address, nr_speaks := speaks,
                             nr_ready := ready, nr_draining := draining\<rparr>;
              s' = s\<lparr>cs_nodes := bt_insert node entry' (cs_nodes s)\<rparr>
          in accept (if \<not> draining then s'\<lparr>cs_handoffs := bt_remove node (cs_handoffs s')\<rparr> else s'))"

definition set_cluster_version :: "cluster_state \<Rightarrow> cluster_version \<Rightarrow> cluster_version \<Rightarrow> outcome" where
  "set_cluster_version s version expect =
     (if cs_version s \<noteq> expect
      then refuse s (InvalidArgument (VersionNotExpected (cs_version s) expect))
      else if version \<le> cs_version s \<and> cs_version s \<noteq> version_zero
      then refuse s (InvalidArgument (VersionNotNewer (cs_version s) version))
      else accept (s\<lparr>cs_version := version, cs_version_initialized := True\<rparr>))"

definition set_health :: "cluster_state \<Rightarrow> node_id \<Rightarrow> node_health \<Rightarrow> outcome" where
  "set_health s node health =
     (case bt_get (cs_nodes s) node of
        None \<Rightarrow> refuse s (InvalidArgument (UnknownNode node))
      | Some record \<Rightarrow>
          accept (s\<lparr>cs_nodes := bt_insert node (record\<lparr>nr_health := health\<rparr>) (cs_nodes s)\<rparr>))"

definition forget_node :: "cluster_state \<Rightarrow> node_id \<Rightarrow> outcome" where
  "forget_node s node =
     (if held_by (cs_map s) node \<noteq> []
      then refuse s (InvalidArgument (StillHoldsPartitions node))
      else accept (s\<lparr>cs_nodes := bt_remove node (cs_nodes s)\<rparr>))"

definition create_credential :: "cluster_state \<Rightarrow> credential \<Rightarrow> outcome" where
  "create_credential s c =
     (if bt_contains (cs_credentials s) (cred_id c) then refuse s AlreadyExists
      else if cred_keyspaces c = [] then refuse s (InvalidArgument CredentialWithoutKeyspace)
      else accept (s\<lparr>cs_credentials := bt_insert (cred_id c) c (cs_credentials s)\<rparr>))"

definition revoke_credential :: "cluster_state \<Rightarrow> bytes \<Rightarrow> outcome" where
  "revoke_credential s i =
     (if \<not> bt_contains (cs_credentials s) i then refuse s NotFound
      else accept (s\<lparr>cs_credentials := bt_remove i (cs_credentials s)\<rparr>))"

section \<open>Keyspaces\<close>

definition phase_for :: "node_id option \<Rightarrow> partition_phase" where
  "phase_for owner = (if owner \<noteq> None then Serving else Unowned)"

fun create_keyspace :: "cluster_state \<Rightarrow> control_command \<Rightarrow> outcome" where
  "create_keyspace s (CreateKeyspace i name config created first_partition owner replicas) =
     (case keyspace_name_new name of
        Inl bad \<Rightarrow> refuse s (InvalidArgument (InvalidKeyspaceName bad))
      | Inr name \<Rightarrow>
          attempt s (case owner of None \<Rightarrow> Inr () | Some n \<Rightarrow> new_ownership_eligibility s n) (\<lambda>_.
          attempt s (check_each (new_ownership_eligibility s) replicas) (\<lambda>_.
          if list_ex (\<lambda>k. ks_name k = name) (bt_values (cs_keyspaces s))
          then refuse s KeyspaceAlreadyExists
          else if bt_contains (cs_keyspaces s) i \<or> bt_contains (cs_phases s) first_partition
          then refuse s (InvalidArgument IdAlreadyInUse)
          else
            attempt s (ensure_unissued s first_partition) (\<lambda>_.
            let k = \<lparr>ks_id = i, ks_name = name, ks_config = config, ks_created_at_millis = created\<rparr>;
                info = \<lparr>pi_id = first_partition, pi_keyspace = i, pi_range = unbounded, pi_owner = owner,
                        pi_epoch = 1, pi_replicas = replicas\<rparr>
            in accept (bump_map_version
                 (s\<lparr>cs_keyspaces := bt_insert i k (cs_keyspaces s),
                    cs_next_keyspace_id := max (cs_next_keyspace_id s) (i + 1),
                    cs_map := insert_partition info (insert_keyspace (info_of k) (cs_map s)),
                    cs_phases := bt_insert first_partition (phase_for owner) (cs_phases s),
                    cs_next_partition_id := max (cs_next_partition_id s) (first_partition + 1)\<rparr>))))))"
| "create_keyspace s _ = refuse s (Internal NotACreateKeyspace)"

definition update_keyspace :: "cluster_state \<Rightarrow> keyspace_id \<Rightarrow> keyspace_config \<Rightarrow> outcome" where
  "update_keyspace s i config =
     (case bt_get (cs_keyspaces s) i of
        None \<Rightarrow> refuse s KeyspaceNotFound
      | Some k \<Rightarrow>
          let k' = k\<lparr>ks_config := config\<rparr>
          in accept (bump_map_version
               (s\<lparr>cs_keyspaces := bt_insert i k' (cs_keyspaces s),
                  cs_map := insert_keyspace (info_of k') (cs_map s)\<rparr>)))"

definition rebuild_map_without :: "cluster_state \<Rightarrow> keyspace_id \<Rightarrow> cluster_state" where
  "rebuild_map_without s dropped =
     (let kept = filter (\<lambda>p. pi_keyspace p \<noteq> dropped) (bt_values (pm_partitions (cs_map s)));
          rebuilt = partition_map_new (pm_version (cs_map s));
          rebuilt = fold (\<lambda>k m. insert_keyspace (info_of k) m) (bt_values (cs_keyspaces s)) rebuilt;
          rebuilt = fold insert_partition kept rebuilt
      in s\<lparr>cs_map := rebuilt\<rparr>)"

definition delete_keyspace :: "cluster_state \<Rightarrow> keyspace_id \<Rightarrow> outcome" where
  "delete_keyspace s i =
     (if \<not> bt_contains (cs_keyspaces s) i then refuse s KeyspaceNotFound
      else
        let doomed = map pi_id (filter (\<lambda>p. pi_keyspace p = i) (bt_values (pm_partitions (cs_map s))));
            s1 = s\<lparr>cs_keyspaces := bt_remove i (cs_keyspaces s),
                   cs_phases := fold bt_remove doomed (cs_phases s),
                   cs_pending_splits := fold bt_remove doomed (cs_pending_splits s),
                   cs_pending_merges :=
                     filter (\<lambda>(_, m). mg_lower (me_generation m) \<notin> set doomed
                                      \<and> mg_upper (me_generation m) \<notin> set doomed)
                       (cs_pending_merges s)\<rparr>
        in accept (bump_map_version (rebuild_map_without s1 i)))"

section \<open>Ownership\<close>

definition replace_partition :: "cluster_state \<Rightarrow> partition_info \<Rightarrow> cluster_state" where
  "replace_partition s info =
     s\<lparr>cs_map := insert_partition info
                   (remove_partition (pi_keyspace info) (kr_start (pi_range info)) (cs_map s))\<rparr>"

definition set_phase :: "partition_id \<Rightarrow> partition_phase \<Rightarrow> cluster_state \<Rightarrow> cluster_state" where
  "set_phase p ph s = s\<lparr>cs_phases := bt_insert p ph (cs_phases s)\<rparr>"

definition bump_epoch :: "partition_info \<Rightarrow> partition_info" where
  "bump_epoch info = info\<lparr>pi_epoch := next_counter (pi_epoch info)\<rparr>"

text \<open>Returns the state and whether a merge was abandoned.\<close>

definition abort_merge_for_parent_change :: "cluster_state \<Rightarrow> partition_id \<Rightarrow> cluster_state \<times> bool" where
  "abort_merge_for_parent_change s p =
     (case List.find (\<lambda>(_, m). merge_touches p m) (cs_pending_merges s) of
        None \<Rightarrow> (s, False)
      | Some (key, m) \<Rightarrow>
          let g = me_generation m;
              s' = s\<lparr>cs_pending_merges := bt_remove key (cs_pending_merges s)\<rparr>;
              other = (if mg_lower g = p then mg_upper g else mg_lower g)
          in (case find_partition (cs_map s') other of
                None \<Rightarrow> s'
              | Some info \<Rightarrow> replace_partition s' (bump_epoch info),
              True))"

definition fence_partition :: "cluster_state \<Rightarrow> partition_id \<Rightarrow> epoch \<Rightarrow> outcome" where
  "fence_partition s p expect =
     attempt s (check_epoch s p expect) (\<lambda>info.
     case pi_owner info of
       None \<Rightarrow> refuse s (InvalidArgument (NoOwnerToFence p))
     | Some deposed \<Rightarrow>
         let s1 = fst (abort_merge_for_parent_change s p);
             info1 = (bump_epoch info)\<lparr>pi_owner := None\<rparr>;
             info2 = (if fenced_owner_stays_a_replica s1 \<and> deposed \<notin> set (pi_replicas info1)
                      then info1\<lparr>pi_replicas := pi_replicas info1 @ [deposed]\<rparr> else info1);
             s2 = s1\<lparr>cs_pending_splits := bt_remove p (cs_pending_splits s1)\<rparr>;
             s3 = bump_map_version (replace_partition s2 info2)
         in accept (set_phase p (Fenced deposed (pm_version (cs_map s3)) False) s3))"

definition complete_fence_drain :: "cluster_state \<Rightarrow> partition_id \<Rightarrow> epoch \<Rightarrow> outcome" where
  "complete_fence_drain s p expect =
     attempt s (check_epoch s p expect) (\<lambda>_.
     case bt_get (cs_phases s) p of
       Some (Fenced deposed v _) \<Rightarrow> accept (set_phase p (Fenced deposed v True) s)
     | _ \<Rightarrow> refuse s (InvalidArgument (NotWaitingOnLeases p)))"

text \<open>\<open>for replica in replicas { if !held.contains(replica) { eligibility(replica)?; } }\<close>\<close>

definition check_new_replicas :: "cluster_state \<Rightarrow> node_id list \<Rightarrow> node_id list \<Rightarrow> cerror + unit" where
  "check_new_replicas s held replicas =
     check_each (\<lambda>r. if r \<notin> set held then new_ownership_eligibility s r else Inr ()) replicas"

definition assign_owner ::
  "cluster_state \<Rightarrow> partition_id \<Rightarrow> node_id \<Rightarrow> node_id list \<Rightarrow> epoch \<Rightarrow> outcome" where
  "assign_owner s p owner replicas expect =
     attempt s (check_epoch s p expect) (\<lambda>info.
     if pi_owner info \<noteq> None then refuse s (InvalidArgument (AlreadyHasOwner p))
     else if owner \<in> set replicas then refuse s (InvalidArgument OwnerListedAsReplica)
     else
       attempt s (new_ownership_eligibility s owner) (\<lambda>_.
       attempt s (check_new_replicas s (pi_replicas info) replicas) (\<lambda>_.
       accept (bump_map_version (set_phase p Serving
         (replace_partition s (info\<lparr>pi_owner := Some owner, pi_replicas := replicas\<rparr>)))))))"

definition transfer_ownership ::
  "cluster_state \<Rightarrow> partition_id \<Rightarrow> node_id \<Rightarrow> node_id \<Rightarrow> node_id list \<Rightarrow> epoch \<Rightarrow> outcome" where
  "transfer_ownership s p from to replicas expect =
     attempt s (check_epoch s p expect) (\<lambda>info.
     if pi_owner info \<noteq> Some from then refuse s (InvalidArgument (IsNotOwner from p))
     else if to \<notin> set (pi_replicas info) then refuse s (InvalidArgument (IsNotReplica to p))
     else
       attempt s (new_ownership_eligibility s to) (\<lambda>_.
       if to \<in> set replicas then refuse s (InvalidArgument OwnerListedAsReplica)
       else
         let s1 = fst (abort_merge_for_parent_change s p);
             s2 = bump_map_version (set_phase p Serving (replace_partition s1
                    ((bump_epoch info)\<lparr>pi_owner := Some to, pi_replicas := replicas\<rparr>)));
             mine = (case bt_get (cs_handoffs s2) from of None \<Rightarrow> [] | Some hs \<Rightarrow> hs);
             mine' = bt_insert p \<lparr>hc_receiver = to, hc_map_version = pm_version (cs_map s2)\<rparr> mine
         in accept (s2\<lparr>cs_handoffs := bt_insert from mine' (cs_handoffs s2)\<rparr>)))"

text \<open>
  The pending split and the pending merge are dropped before the replica list is checked, so the
  two refusals below return a state that has already changed.
\<close>

definition set_replicas :: "cluster_state \<Rightarrow> partition_id \<Rightarrow> node_id list \<Rightarrow> epoch \<Rightarrow> outcome" where
  "set_replicas s p replicas expect =
     attempt s (check_epoch s p expect) (\<lambda>info.
     let abandoned_split = bt_contains (cs_pending_splits s) p;
         s1 = s\<lparr>cs_pending_splits := bt_remove p (cs_pending_splits s)\<rparr>;
         (s2, abandoned_merge) = abort_merge_for_parent_change s1 p;
         info1 = (if abandoned_split \<or> abandoned_merge then bump_epoch info else info)
     in if (case pi_owner info1 of None \<Rightarrow> False | Some o' \<Rightarrow> o' \<in> set replicas)
        then refuse s2 (InvalidArgument OwnerListedAsReplica)
        else
          attempt s2 (check_new_replicas s2 (pi_replicas info1) replicas) (\<lambda>_.
          accept (bump_map_version (replace_partition s2 (info1\<lparr>pi_replicas := replicas\<rparr>)))))"

section \<open>Splits\<close>

text \<open>One turn of the loop that installs the children of a split, with the owner it was given.\<close>

definition install_child ::
  "partition_info \<Rightarrow> epoch \<Rightarrow> node_id option \<Rightarrow> node_id list \<Rightarrow> partition_id \<Rightarrow> key_range \<Rightarrow> cluster_state \<Rightarrow> cluster_state" where
  "install_child info epoch owner replicas i rng s =
     set_phase i (phase_for owner)
       (s\<lparr>cs_map := insert_partition
            \<lparr>pi_id = i, pi_keyspace = pi_keyspace info, pi_range = rng, pi_owner = owner,
             pi_epoch = epoch, pi_replicas = replicas\<rparr> (cs_map s)\<rparr>)"

definition reserve_ids :: "partition_id \<Rightarrow> partition_id \<Rightarrow> cluster_state \<Rightarrow> cluster_state" where
  "reserve_ids lower upper s =
     s\<lparr>cs_next_partition_id := max (max (cs_next_partition_id s) (lower + 1)) (upper + 1)\<rparr>"

definition split_partition ::
  "cluster_state \<Rightarrow> partition_id \<Rightarrow> bytes \<Rightarrow> partition_id \<Rightarrow> partition_id \<Rightarrow> epoch \<Rightarrow> outcome" where
  "split_partition s parent at lower upper expect =
     attempt s (check_epoch s parent expect) (\<lambda>info.
     if bt_contains (cs_phases s) lower \<or> bt_contains (cs_phases s) upper
     then refuse s (InvalidArgument ChildIdInUse)
     else
       attempt s (ensure_unissued s lower) (\<lambda>_.
       attempt s (ensure_unissued s upper) (\<lambda>_.
       case split_at (pi_range info) at of
         None \<Rightarrow> refuse s (InvalidArgument (SplitKeyOutside parent))
       | Some (low_range, high_range) \<Rightarrow>
           let epoch = next_counter (pi_epoch info);
               s1 = s\<lparr>cs_map := remove_partition (pi_keyspace info) (kr_start (pi_range info)) (cs_map s)\<rparr>;
               s2 = install_child info epoch (pi_owner info) (pi_replicas info) lower low_range s1;
               s3 = install_child info epoch (pi_owner info) (pi_replicas info) upper high_range s2
           in accept (bump_map_version (reserve_ids lower upper
                (s3\<lparr>cs_phases := bt_remove parent (cs_phases s3)\<rparr>))))))"

definition child_id_in_use :: "cluster_state \<Rightarrow> partition_id \<Rightarrow> bool" where
  "child_id_in_use s i =
     (bt_contains (cs_phases s) i
      \<or> list_ex (\<lambda>sp. sp_lower sp = i \<or> sp_upper sp = i) (bt_values (cs_pending_splits s))
      \<or> list_ex (\<lambda>m. mg_merged (me_generation m) = i) (bt_values (cs_pending_merges s)))"

definition begin_split ::
  "cluster_state \<Rightarrow> partition_id \<Rightarrow> bytes \<Rightarrow> partition_id \<Rightarrow> partition_id \<Rightarrow> epoch \<Rightarrow> outcome" where
  "begin_split s parent at lower upper expect =
     attempt s (check_epoch s parent expect) (\<lambda>info.
     if bt_contains (cs_pending_splits s) parent then refuse s (InvalidArgument (AlreadySplitting parent))
     else if is_merging s parent then refuse s (InvalidArgument (AlreadyMerging parent))
     else
       case pi_owner info of
         None \<Rightarrow> refuse s (InvalidArgument (NoOwnerToPrepare parent))
       | Some owner \<Rightarrow>
           if lower = upper \<or> child_id_in_use s lower \<or> child_id_in_use s upper
           then refuse s (InvalidArgument ChildIdInUse)
           else
             attempt s (ensure_unissued s lower) (\<lambda>_.
             attempt s (ensure_unissued s upper) (\<lambda>_.
             case split_at (pi_range info) at of
               None \<Rightarrow> refuse s (InvalidArgument (SplitKeyOutside parent))
             | Some _ \<Rightarrow>
                 let s1 = bump_map_version (reserve_ids lower upper s)
                 in accept (s1\<lparr>cs_pending_splits := bt_insert parent
                      \<lparr>sp_at = at, sp_lower = lower, sp_upper = upper, sp_epoch = pi_epoch info,
                       sp_required = owner # pi_replicas info, sp_prepared = []\<rparr>
                      (cs_pending_splits s1)\<rparr>))))"

definition mark_split_prepared :: "cluster_state \<Rightarrow> partition_id \<Rightarrow> node_id \<Rightarrow> epoch \<Rightarrow> outcome" where
  "mark_split_prepared s parent node expect =
     attempt s (check_epoch s parent expect) (\<lambda>_.
     case bt_get (cs_pending_splits s) parent of
       None \<Rightarrow> refuse s (InvalidArgument (NotSplitting parent))
     | Some sp \<Rightarrow>
         if node \<notin> set (sp_required sp) then refuse s (InvalidArgument (NotASplitHolder node parent))
         else accept (s\<lparr>cs_pending_splits :=
                bt_insert parent (sp\<lparr>sp_prepared := insort_insert node (sp_prepared sp)\<rparr>) (cs_pending_splits s)\<rparr>))"

definition child_owner :: "cluster_state \<Rightarrow> node_id list \<Rightarrow> node_id option \<Rightarrow> node_id option" where
  "child_owner s prepared parent_owner =
     (let eligible = placement_candidates s;
          owned = (\<lambda>node. length (filter (\<lambda>p. pi_owner p = Some node) (bt_values (pm_partitions (cs_map s)))));
          ranked = sort (map (\<lambda>node. (owned node, node)) (filter (\<lambda>node. node \<in> set prepared) eligible))
      in case ranked of [] \<Rightarrow> parent_owner | (_, node) # _ \<Rightarrow> Some node)"

definition split_holders :: "partition_info \<Rightarrow> node_id list" where
  "split_holders info =
     remdups_adj (sort (pi_replicas info @ (case pi_owner info of None \<Rightarrow> [] | Some o' \<Rightarrow> [o'])))"

text \<open>One turn of the loop of \<open>complete_split\<close>: the owner is chosen anew for each child.\<close>

definition place_child ::
  "partition_info \<Rightarrow> epoch \<Rightarrow> node_id list \<Rightarrow> partition_id \<Rightarrow> key_range \<Rightarrow> cluster_state \<Rightarrow> cluster_state" where
  "place_child info epoch prepared i rng s =
     (let owner = child_owner s prepared (pi_owner info);
          replicas = filter (\<lambda>node. Some node \<noteq> owner) (split_holders info)
      in install_child info epoch owner replicas i rng s)"

definition complete_split :: "cluster_state \<Rightarrow> partition_id \<Rightarrow> epoch \<Rightarrow> outcome" where
  "complete_split s parent expect =
     attempt s (check_epoch s parent expect) (\<lambda>info.
     case bt_get (cs_pending_splits s) parent of
       None \<Rightarrow> refuse s (InvalidArgument (NotSplitting parent))
     | Some sp \<Rightarrow>
         let unprepared = filter (\<lambda>node. node \<notin> set (sp_prepared sp)) (sp_required sp)
         in if unprepared \<noteq> [] then refuse s (Unavailable (SplitUnprepared parent unprepared))
            else
              case split_at (pi_range info) (sp_at sp) of
                None \<Rightarrow> refuse s (Internal (SplitBoundaryLeft parent))
              | Some (low_range, high_range) \<Rightarrow>
                  let epoch = next_counter (pi_epoch info);
                      s1 = s\<lparr>cs_pending_splits := bt_remove parent (cs_pending_splits s),
                             cs_map := remove_partition (pi_keyspace info) (kr_start (pi_range info)) (cs_map s)\<rparr>;
                      s2 = place_child info epoch (sp_prepared sp) (sp_lower sp) low_range s1;
                      s3 = place_child info epoch (sp_prepared sp) (sp_upper sp) high_range s2
                  in accept (bump_map_version (reserve_ids (sp_lower sp) (sp_upper sp)
                       (s3\<lparr>cs_phases := bt_remove parent (cs_phases s3)\<rparr>))))"

definition abort_split :: "cluster_state \<Rightarrow> partition_id \<Rightarrow> epoch \<Rightarrow> outcome" where
  "abort_split s parent expect =
     attempt s (check_epoch s parent expect) (\<lambda>info.
     if \<not> bt_contains (cs_pending_splits s) parent then refuse s (InvalidArgument (NotSplitting parent))
     else accept (bump_map_version (replace_partition
            (s\<lparr>cs_pending_splits := bt_remove parent (cs_pending_splits s)\<rparr>) (bump_epoch info))))"

section \<open>Merges\<close>

definition begin_merge :: "cluster_state \<Rightarrow> merge_generation \<Rightarrow> outcome" where
  "begin_merge s g =
     (if mg_lower g = mg_upper g \<or> mg_lower g = mg_merged g \<or> mg_upper g = mg_merged g
      then refuse s (InvalidArgument MergeIdsNotDistinct)
      else
        attempt s (check_epoch s (mg_lower g) (mg_lower_epoch g)) (\<lambda>lower.
        attempt s (check_epoch s (mg_upper g) (mg_upper_epoch g)) (\<lambda>upper.
        if pi_keyspace lower \<noteq> pi_keyspace upper then refuse s (InvalidArgument MergeAcrossKeyspaces)
        else
          case merge_ranges (pi_range lower) (pi_range upper) of
            None \<Rightarrow> refuse s (InvalidArgument MergeNotAdjacent)
          | Some rng \<Rightarrow>
              if rng \<noteq> mg_range g \<or> kr_end (pi_range lower) \<noteq> Some (mg_boundary g)
                 \<or> kr_start (pi_range upper) \<noteq> mg_boundary g
              then refuse s (InvalidArgument MergeGenerationMismatch)
              else
                case pi_owner lower of
                  None \<Rightarrow> refuse s (InvalidArgument MergeNotServing)
                | Some owner \<Rightarrow>
                    if pi_owner lower \<noteq> pi_owner upper \<or> pi_replicas lower \<noteq> pi_replicas upper
                       \<or> phase s (pi_id lower) \<noteq> Some Serving \<or> phase s (pi_id upper) \<noteq> Some Serving
                    then refuse s (InvalidArgument MergeNotServing)
                    else if is_splitting s (pi_id lower) \<or> is_splitting s (pi_id upper)
                            \<or> is_merging s (pi_id lower) \<or> is_merging s (pi_id upper)
                    then refuse s (InvalidArgument MergeParentBusy)
                    else if child_id_in_use s (mg_merged g)
                    then refuse s (InvalidArgument MergedIdInUse)
                    else
                      attempt s (ensure_unissued s (mg_merged g)) (\<lambda>_.
                      accept (bump_map_version
                        (s\<lparr>cs_next_partition_id := max (cs_next_partition_id s) (mg_merged g + 1),
                           cs_pending_merges := bt_insert (mg_lower g)
                             \<lparr>me_generation = g, me_required = owner # pi_replicas lower, me_prepared = []\<rparr>
                             (cs_pending_merges s)\<rparr>))))))"

definition find_pending_merge :: "cluster_state \<Rightarrow> merge_generation \<Rightarrow> cerror + pending_merge" where
  "find_pending_merge s g =
     (case bt_get (cs_pending_merges s) (mg_lower g) of
        Some m \<Rightarrow> if me_generation m = g then Inr m else Inl (InvalidArgument MergeNotActive)
      | None \<Rightarrow> Inl (InvalidArgument MergeNotActive))"

definition mark_merge_prepared :: "cluster_state \<Rightarrow> merge_generation \<Rightarrow> node_id \<Rightarrow> outcome" where
  "mark_merge_prepared s g node =
     attempt s (check_epoch s (mg_lower g) (mg_lower_epoch g)) (\<lambda>_.
     attempt s (check_epoch s (mg_upper g) (mg_upper_epoch g)) (\<lambda>_.
     attempt s (find_pending_merge s g) (\<lambda>m.
     if node \<notin> set (me_required m) then refuse s (InvalidArgument (NotAMergeHolder node))
     else accept (s\<lparr>cs_pending_merges :=
            bt_insert (mg_lower g) (m\<lparr>me_prepared := insort_insert node (me_prepared m)\<rparr>) (cs_pending_merges s)\<rparr>))))"

definition complete_merge :: "cluster_state \<Rightarrow> merge_generation \<Rightarrow> outcome" where
  "complete_merge s g =
     attempt s (check_epoch s (mg_lower g) (mg_lower_epoch g)) (\<lambda>lower.
     attempt s (check_epoch s (mg_upper g) (mg_upper_epoch g)) (\<lambda>upper.
     attempt s (find_pending_merge s g) (\<lambda>m.
     let unprepared = filter (\<lambda>node. node \<notin> set (me_prepared m)) (me_required m)
     in if unprepared \<noteq> [] then refuse s (Unavailable (MergeUnprepared unprepared))
        else
          case merge_ranges (pi_range lower) (pi_range upper) of
            None \<Rightarrow> refuse s (Internal MergeParentsMoved)
          | Some rng \<Rightarrow>
              if rng \<noteq> mg_range g \<or> pi_owner lower \<noteq> pi_owner upper \<or> pi_replicas lower \<noteq> pi_replicas upper
              then refuse s (Unavailable MergeParentsChanged)
              else
                let info = \<lparr>pi_id = mg_merged g, pi_keyspace = pi_keyspace lower, pi_range = rng,
                            pi_owner = pi_owner lower,
                            pi_epoch = next_counter (max (pi_epoch lower) (pi_epoch upper)),
                            pi_replicas = pi_replicas lower\<rparr>;
                    pm1 = remove_partition (pi_keyspace lower) (kr_start (pi_range lower)) (cs_map s);
                    pm2 = remove_partition (pi_keyspace upper) (kr_start (pi_range upper)) pm1
                in accept (bump_map_version
                     (s\<lparr>cs_pending_merges := bt_remove (mg_lower g) (cs_pending_merges s),
                        cs_map := insert_partition info pm2,
                        cs_phases := bt_insert (mg_merged g) Serving
                          (bt_remove (pi_id upper) (bt_remove (pi_id lower) (cs_phases s)))\<rparr>)))))"

definition abort_merge :: "cluster_state \<Rightarrow> merge_generation \<Rightarrow> outcome" where
  "abort_merge s g =
     attempt s (find_pending_merge s g) (\<lambda>_.
     attempt s (check_epoch s (mg_lower g) (mg_lower_epoch g)) (\<lambda>lower.
     attempt s (check_epoch s (mg_upper g) (mg_upper_epoch g)) (\<lambda>upper.
     let s1 = s\<lparr>cs_pending_merges := bt_remove (mg_lower g) (cs_pending_merges s)\<rparr>
     in accept (bump_map_version
          (replace_partition (replace_partition s1 (bump_epoch lower)) (bump_epoch upper))))))"

section \<open>Applying a command\<close>

fun dispatch :: "cluster_state \<Rightarrow> control_command \<Rightarrow> outcome" where
  "dispatch s (RegisterNode node role address speaks ready draining) =
     register_node s node role address speaks ready draining"
| "dispatch s (SetHealth node health) = set_health s node health"
| "dispatch s (ForgetNode node) = forget_node s node"
| "dispatch s (CreateKeyspace i name config created fp owner replicas) =
     create_keyspace s (CreateKeyspace i name config created fp owner replicas)"
| "dispatch s (UpdateKeyspace i config) = update_keyspace s i config"
| "dispatch s (DeleteKeyspace i) = delete_keyspace s i"
| "dispatch s (CreateCredential c) = create_credential s c"
| "dispatch s (RevokeCredential i) = revoke_credential s i"
| "dispatch s (FencePartition p e) = fence_partition s p e"
| "dispatch s (CompleteFenceDrain p e) = complete_fence_drain s p e"
| "dispatch s (AssignOwner p owner replicas e) = assign_owner s p owner replicas e"
| "dispatch s (TransferOwnership p from to replicas e) = transfer_ownership s p from to replicas e"
| "dispatch s (SetReplicas p replicas e) = set_replicas s p replicas e"
| "dispatch s (SplitPartition p at lower upper e) = split_partition s p at lower upper e"
| "dispatch s (BeginSplit p at lower upper e) = begin_split s p at lower upper e"
| "dispatch s (MarkSplitPrepared p node e) = mark_split_prepared s p node e"
| "dispatch s (CompleteSplit p e) = complete_split s p e"
| "dispatch s (AbortSplit p e) = abort_split s p e"
| "dispatch s (BeginMerge g) = begin_merge s g"
| "dispatch s (MarkMergePrepared g node) = mark_merge_prepared s g node"
| "dispatch s (CompleteMerge g) = complete_merge s g"
| "dispatch s (AbortMerge g) = abort_merge s g"
| "dispatch s (SetClusterVersion version expect) = set_cluster_version s version expect"

definition apply_command :: "cluster_state \<Rightarrow> control_command \<Rightarrow> outcome" where
  "apply_command s command = attempt s (ensure_command_permitted s command) (\<lambda>_. dispatch s command)"

text \<open>A member of the leader group replays a log: an entry that is refused is skipped.\<close>

fun replay :: "cluster_state \<Rightarrow> control_command list \<Rightarrow> cluster_state" where
  "replay s [] = s"
| "replay s (c # cs) = replay (fst (apply_command s c)) cs"

end
