(* ===== verification/Cluster_Inv.thy ===== *)
theory Cluster_Inv
  imports Cluster_State "HOL-Library.Multiset"
begin

text \<open>
  The invariant of the control plane's state machine and that every command keeps it. The
  commands are compositions of a few edits of the state (drop a pending split, replace a map
  entry, swap a parent for its children, ...); each edit has one lemma.
\<close>

section \<open>Outcomes\<close>

lemma attempt_simps [simp]:
  "attempt s (Inl e) k = refuse s e"
  "attempt s (Inr x) k = k x"
  by (simp_all add: attempt_def)

lemma attempt_ok: "attempt s r k = (s', Inr u) \<longleftrightarrow> (\<exists>x. r = Inr x \<and> k x = (s', Inr u))"
  by (cases r) (auto simp: refuse_def)

lemma refuse_ok [simp]: "refuse s e \<noteq> (s', Inr u)"
  by (simp add: refuse_def)

lemma accept_ok [simp]: "accept t = (s', r) \<longleftrightarrow> s' = t \<and> r = Inr ()"
  by (auto simp: accept_def)

lemma outcome_fst [simp]: "fst (accept s) = s" "fst (refuse s e) = s"
  by (simp_all add: accept_def refuse_def)

lemma outcome_snd [simp]: "snd (accept s) = Inr ()" "snd (refuse s e) = Inl e"
  by (simp_all add: accept_def refuse_def)

section \<open>Live partitions and the edits of the map\<close>

abbreviation parts :: "cluster_state \<Rightarrow> partitions" where
  "parts s \<equiv> pm_partitions (cs_map s)"

definition live :: "cluster_state \<Rightarrow> partition_info set" where
  "live s = set (bt_values (parts s))"

named_theorems edit_simps \<open>the fields each edit of the state leaves alone\<close>

lemma pm_insert_partition [edit_simps]:
  "pm_partitions (insert_partition p m) = bt_insert (key_of p) p (pm_partitions m)"
  "pm_keyspaces (insert_partition p m) = pm_keyspaces m"
  "pm_by_name (insert_partition p m) = pm_by_name m"
  "pm_version (insert_partition p m) = pm_version m"
  by (simp_all add: insert_partition_def)

lemma pm_remove_partition [edit_simps]:
  "pm_partitions (remove_partition ks st m) = bt_remove (ks, st) (pm_partitions m)"
  "pm_keyspaces (remove_partition ks st m) = pm_keyspaces m"
  "pm_by_name (remove_partition ks st m) = pm_by_name m"
  "pm_version (remove_partition ks st m) = pm_version m"
  by (simp_all add: remove_partition_def)

lemma pm_set_version [edit_simps]:
  "pm_partitions (set_version v m) = pm_partitions m"
  "pm_keyspaces (set_version v m) = pm_keyspaces m"
  "pm_by_name (set_version v m) = pm_by_name m"
  "pm_version (set_version v m) = v"
  by (simp_all add: set_version_def)

lemma pm_insert_keyspace [edit_simps]:
  "pm_partitions (insert_keyspace k m) = pm_partitions m"
  "pm_keyspaces (insert_keyspace k m) = (pm_keyspaces m)(ki_id k \<mapsto> k)"
  "pm_by_name (insert_keyspace k m) = (pm_by_name m)(ki_name k \<mapsto> ki_id k)"
  "pm_version (insert_keyspace k m) = pm_version m"
  by (simp_all add: insert_keyspace_def)

lemma edit_bump_map_version [edit_simps]:
  "pm_partitions (cs_map (bump_map_version s)) = parts s"
  "pm_keyspaces (cs_map (bump_map_version s)) = pm_keyspaces (cs_map s)"
  "pm_by_name (cs_map (bump_map_version s)) = pm_by_name (cs_map s)"
  "pm_version (cs_map (bump_map_version s)) = next_counter (pm_version (cs_map s))"
  "cs_keyspaces (bump_map_version s) = cs_keyspaces s"
  "cs_phases (bump_map_version s) = cs_phases s"
  "cs_nodes (bump_map_version s) = cs_nodes s"
  "cs_pending_splits (bump_map_version s) = cs_pending_splits s"
  "cs_pending_merges (bump_map_version s) = cs_pending_merges s"
  "cs_handoffs (bump_map_version s) = cs_handoffs s"
  "cs_credentials (bump_map_version s) = cs_credentials s"
  "cs_next_keyspace_id (bump_map_version s) = cs_next_keyspace_id s"
  "cs_next_partition_id (bump_map_version s) = cs_next_partition_id s"
  "cs_version (bump_map_version s) = cs_version s"
  "cs_version_initialized (bump_map_version s) = cs_version_initialized s"
  by (simp_all add: bump_map_version_def edit_simps)

lemma edit_replace_partition [edit_simps]:
  "pm_partitions (cs_map (replace_partition s p)) = bt_insert (key_of p) p (bt_remove (key_of p) (parts s))"
  "pm_keyspaces (cs_map (replace_partition s p)) = pm_keyspaces (cs_map s)"
  "pm_by_name (cs_map (replace_partition s p)) = pm_by_name (cs_map s)"
  "pm_version (cs_map (replace_partition s p)) = pm_version (cs_map s)"
  "cs_keyspaces (replace_partition s p) = cs_keyspaces s"
  "cs_phases (replace_partition s p) = cs_phases s"
  "cs_nodes (replace_partition s p) = cs_nodes s"
  "cs_pending_splits (replace_partition s p) = cs_pending_splits s"
  "cs_pending_merges (replace_partition s p) = cs_pending_merges s"
  "cs_handoffs (replace_partition s p) = cs_handoffs s"
  "cs_credentials (replace_partition s p) = cs_credentials s"
  "cs_next_keyspace_id (replace_partition s p) = cs_next_keyspace_id s"
  "cs_next_partition_id (replace_partition s p) = cs_next_partition_id s"
  "cs_version (replace_partition s p) = cs_version s"
  "cs_version_initialized (replace_partition s p) = cs_version_initialized s"
  by (simp_all add: replace_partition_def edit_simps)

lemma edit_set_phase [edit_simps]:
  "cs_map (set_phase i ph s) = cs_map s"
  "cs_keyspaces (set_phase i ph s) = cs_keyspaces s"
  "cs_phases (set_phase i ph s) = bt_insert i ph (cs_phases s)"
  "cs_nodes (set_phase i ph s) = cs_nodes s"
  "cs_pending_splits (set_phase i ph s) = cs_pending_splits s"
  "cs_pending_merges (set_phase i ph s) = cs_pending_merges s"
  "cs_handoffs (set_phase i ph s) = cs_handoffs s"
  "cs_credentials (set_phase i ph s) = cs_credentials s"
  "cs_next_keyspace_id (set_phase i ph s) = cs_next_keyspace_id s"
  "cs_next_partition_id (set_phase i ph s) = cs_next_partition_id s"
  "cs_version (set_phase i ph s) = cs_version s"
  "cs_version_initialized (set_phase i ph s) = cs_version_initialized s"
  by (simp_all add: set_phase_def)

lemma edit_reserve_ids [edit_simps]:
  "cs_map (reserve_ids a b s) = cs_map s"
  "cs_keyspaces (reserve_ids a b s) = cs_keyspaces s"
  "cs_phases (reserve_ids a b s) = cs_phases s"
  "cs_nodes (reserve_ids a b s) = cs_nodes s"
  "cs_pending_splits (reserve_ids a b s) = cs_pending_splits s"
  "cs_pending_merges (reserve_ids a b s) = cs_pending_merges s"
  "cs_next_partition_id (reserve_ids a b s) = max (max (cs_next_partition_id s) (a + 1)) (b + 1)"
  "cs_version (reserve_ids a b s) = cs_version s"
  "cs_version_initialized (reserve_ids a b s) = cs_version_initialized s"
  by (simp_all add: reserve_ids_def)

lemma bump_epoch_simps [simp]:
  "pi_id (bump_epoch p) = pi_id p"
  "pi_keyspace (bump_epoch p) = pi_keyspace p"
  "pi_range (bump_epoch p) = pi_range p"
  "pi_owner (bump_epoch p) = pi_owner p"
  "pi_replicas (bump_epoch p) = pi_replicas p"
  "pi_epoch (bump_epoch p) = next_counter (pi_epoch p)"
  by (simp_all add: bump_epoch_def)

section \<open>The invariant\<close>

text \<open>Multisets of ids: those of live partitions and those reserved for children under way.\<close>

definition live_bag :: "cluster_state \<Rightarrow> partition_id multiset" where
  "live_bag s = image_mset (pi_id \<circ> snd) (mset (parts s))"

definition reserved_bag :: "cluster_state \<Rightarrow> partition_id multiset" where
  "reserved_bag s =
     image_mset (sp_lower \<circ> snd) (mset (cs_pending_splits s))
     + image_mset (sp_upper \<circ> snd) (mset (cs_pending_splits s))
     + image_mset (mg_merged \<circ> me_generation \<circ> snd) (mset (cs_pending_merges s))"

definition id_bag :: "cluster_state \<Rightarrow> partition_id multiset" where
  "id_bag s = live_bag s + reserved_bag s"

text \<open>The parents of the splits and merges under way.\<close>

definition busy_bag :: "cluster_state \<Rightarrow> partition_id multiset" where
  "busy_bag s =
     image_mset fst (mset (cs_pending_splits s))
     + image_mset (mg_lower \<circ> me_generation \<circ> snd) (mset (cs_pending_merges s))
     + image_mset (mg_upper \<circ> me_generation \<circ> snd) (mset (cs_pending_merges s))"

definition single :: "'a multiset \<Rightarrow> bool" where
  "single M \<longleftrightarrow> (\<forall>x. count M x \<le> 1)"

definition inv_tables :: "cluster_state \<Rightarrow> bool" where
  "inv_tables s \<longleftrightarrow>
     table_ok (parts s) \<and> bt_ok (cs_keyspaces s) \<and> bt_ok (cs_phases s)
     \<and> bt_ok (cs_pending_splits s) \<and> bt_ok (cs_pending_merges s)"

definition inv_keyspaces :: "cluster_state \<Rightarrow> bool" where
  "inv_keyspaces s \<longleftrightarrow>
     (\<forall>(i, k)\<in>set (cs_keyspaces s). ks_id k = i)
     \<and> (\<forall>(i, k)\<in>set (cs_keyspaces s). \<forall>(j, l)\<in>set (cs_keyspaces s). ks_name k = ks_name l \<longrightarrow> i = j)
     \<and> (\<forall>i. pm_keyspaces (cs_map s) i = map_option info_of (bt_get (cs_keyspaces s) i))
     \<and> (\<forall>n i. pm_by_name (cs_map s) n = Some i \<longleftrightarrow> (\<exists>k. (i, k) \<in> set (cs_keyspaces s) \<and> ks_name k = n))"

definition inv_coverage :: "cluster_state \<Rightarrow> bool" where
  "inv_coverage s \<longleftrightarrow>
     table_keyspaces (parts s) = fst ` set (cs_keyspaces s) \<and> exactly_covered (parts s)"

definition inv_ids :: "cluster_state \<Rightarrow> bool" where
  "inv_ids s \<longleftrightarrow> single (id_bag s) \<and> (\<forall>i\<in>#id_bag s. i < cs_next_partition_id s)"

definition inv_phases :: "cluster_state \<Rightarrow> bool" where
  "inv_phases s \<longleftrightarrow>
     (\<forall>i. bt_get (cs_phases s) i = None \<longleftrightarrow> i \<notin> pi_id ` live s)
     \<and> (\<forall>p\<in>live s. bt_get (cs_phases s) (pi_id p) = Some Serving \<longleftrightarrow> pi_owner p \<noteq> None)"

definition split_ok :: "cluster_state \<Rightarrow> partition_id \<Rightarrow> pending_split \<Rightarrow> bool" where
  "split_ok s q sp \<longleftrightarrow>
     (\<exists>p\<in>live s. pi_id p = q \<and> pi_owner p \<noteq> None \<and> split_at (pi_range p) (sp_at sp) \<noteq> None)"

definition merge_ok :: "cluster_state \<Rightarrow> merge_generation \<Rightarrow> bool" where
  "merge_ok s g \<longleftrightarrow>
     (\<exists>l\<in>live s. \<exists>u\<in>live s. pi_id l = mg_lower g \<and> pi_id u = mg_upper g
        \<and> pi_keyspace l = pi_keyspace u
        \<and> merge_ranges (pi_range l) (pi_range u) = Some (mg_range g)
        \<and> pi_epoch l = mg_lower_epoch g \<and> pi_epoch u = mg_upper_epoch g
        \<and> pi_owner l \<noteq> None \<and> pi_owner l = pi_owner u \<and> pi_replicas l = pi_replicas u)"

definition inv_pending :: "cluster_state \<Rightarrow> bool" where
  "inv_pending s \<longleftrightarrow>
     single (busy_bag s)
     \<and> (\<forall>(q, sp)\<in>set (cs_pending_splits s). split_ok s q sp)
     \<and> (\<forall>(q, m)\<in>set (cs_pending_merges s). q = mg_lower (me_generation m) \<and> merge_ok s (me_generation m))
     \<and> (cs_pending_splits s \<noteq> [] \<or> cs_pending_merges s \<noteq> [] \<longrightarrow>
          cs_version_initialized s \<and> protocol_0_1 \<le> cs_version s)"

definition cluster_ok :: "cluster_state \<Rightarrow> bool" where
  "cluster_ok s \<longleftrightarrow>
     inv_tables s \<and> inv_keyspaces s \<and> inv_coverage s \<and> inv_ids s \<and> inv_phases s \<and> inv_pending s"

lemmas inv_defs = inv_tables_def inv_keyspaces_def inv_coverage_def inv_ids_def inv_phases_def inv_pending_def

lemma cluster_okD:
  assumes "cluster_ok s"
  shows "table_ok (parts s)" "bt_ok (cs_keyspaces s)" "bt_ok (cs_phases s)" "bt_ok (cs_pending_splits s)"
    "bt_ok (cs_pending_merges s)" "single (id_bag s)" "single (busy_bag s)" "exactly_covered (parts s)"
    "table_keyspaces (parts s) = fst ` set (cs_keyspaces s)"
  using assms by (auto simp: cluster_ok_def inv_defs)

lemma single_empty [simp]: "single {#}"
  by (simp add: single_def)

lemma single_mono: "M \<subseteq># N \<Longrightarrow> single N \<Longrightarrow> single M"
  by (meson mset_subset_eq_count order_trans single_def)

lemma single_add: "single (add_mset x M) \<longleftrightarrow> x \<notin># M \<and> single M"
proof -
  have "count M x = 0 \<longleftrightarrow> x \<notin># M" by (simp add: not_in_iff)
  then show ?thesis by (auto simp: single_def le_Suc_eq)
qed

lemma cluster_ok_new: "cluster_ok cluster_state_new"
  by (simp add: cluster_ok_def inv_defs cluster_state_new_def partition_map_new_def live_def id_bag_def
      live_bag_def reserved_bag_def busy_bag_def exactly_covered_def table_keyspaces_def bt_values_def)

section \<open>Live partitions by id\<close>

lemma mset_bt_remove:
  assumes "bt_ok m" "(k, v) \<in> set m"
  shows "mset m = add_mset (k, v) (mset (bt_remove k m))"
  using assms
proof (induction m)
  case Nil
  then show ?case by simp
next
  case (Cons e m)
  show ?case
  proof (cases "fst e = k")
    case True
    then have "e = (k, v)" "bt_remove k (e # m) = m"
      using Cons.prems by (force simp: bt_remove_def filter_id_conv)+
    then show ?thesis by simp
  next
    case False
    then show ?thesis using Cons by (auto simp: bt_remove_def)
  qed
qed

lemma bt_remove_Nil [simp]: "bt_remove k [] = []"
  by (simp add: bt_remove_def)

lemma mset_bt_remove_le: "mset (bt_remove k m) \<subseteq># mset m"
  by (simp add: bt_remove_def mset_filter)

lemma mset_bt_insert:
  assumes "bt_ok m"
  shows "mset (bt_insert k v m) = add_mset (k, v) (mset (bt_remove k m))"
  using assms
proof (induction m)
  case Nil
  then show ?case by (simp add: bt_remove_def)
next
  case (Cons e m)
  show ?case
  proof (cases "k < fst e \<or> k = fst e")
    case True
    then have "bt_remove k (e # m) = (if k = fst e then m else e # m)"
      using Cons.prems by (auto simp: bt_remove_def filter_id_conv)
    then show ?thesis using True by auto
  next
    case False
    then show ?thesis using Cons by (auto simp: bt_remove_def)
  qed
qed

lemma single_image_inj:
  assumes "single (image_mset f (mset xs))" "x \<in> set xs" "y \<in> set xs" "f x = f y"
  shows "x = y"
proof (rule ccontr)
  assume ne: "x \<noteq> y"
  have "x \<in># mset xs" using assms(2) by simp
  then obtain M where M: "mset xs = add_mset x M" by (blast dest: multi_member_split)
  have "y \<in># add_mset x M" using assms(3) M[symmetric] by simp
  then have "y \<in># M" using ne by simp
  then obtain N where "M = add_mset y N" by (blast dest: multi_member_split)
  then show False using assms(1,4) M by (simp add: single_add)
qed

lemma find_mem: "List.find P xs = Some x \<Longrightarrow> x \<in> set xs \<and> P x"
  by (induction xs) (auto split: if_splits)

lemma live_entry: "table_ok (parts s) \<Longrightarrow> p \<in> live s \<longleftrightarrow> (key_of p, p) \<in> set (parts s)"
  by (simp add: live_def values_entry)

lemma live_bag_set: "set_mset (live_bag s) = pi_id ` live s"
  by (simp add: live_bag_def live_def set_bt_values image_image)

lemma live_unique:
  assumes "cluster_ok s" "p \<in> live s" "q \<in> live s" "pi_id p = pi_id q"
  shows "p = q"
proof -
  have "single (live_bag s)"
    using cluster_okD(6)[OF assms(1)] by (rule single_mono[rotated]) (simp add: id_bag_def)
  then have "(key_of p, p) = (key_of q, q)"
    using assms(2-4) live_entry[OF cluster_okD(1)[OF assms(1)]]
    by (intro single_image_inj[of "pi_id \<circ> snd" "parts s"]) (auto simp: live_bag_def)
  then show ?thesis by simp
qed

lemma find_live: "find_partition (cs_map s) i = Some p \<Longrightarrow> p \<in> live s \<and> pi_id p = i"
  by (auto simp: find_partition_def live_def find_Some_iff)

lemma find_iff:
  assumes "cluster_ok s"
  shows "find_partition (cs_map s) i = Some p \<longleftrightarrow> p \<in> live s \<and> pi_id p = i"
proof
  assume "p \<in> live s \<and> pi_id p = i"
  moreover then obtain q where "find_partition (cs_map s) i = Some q"
    by (cases "find_partition (cs_map s) i") (auto simp: find_partition_def live_def find_None_iff)
  ultimately show "find_partition (cs_map s) i = Some p"
    using find_live[of s i q] live_unique[OF assms] by auto
qed (rule find_live)

lemma check_epoch_ok: "check_epoch s i e = Inr p \<longleftrightarrow> find_partition (cs_map s) i = Some p \<and> pi_epoch p = e"
  by (auto simp: check_epoch_def partition_or_err_def bind_res_eq_Inr split: option.splits)

lemma check_epoch_live: "check_epoch s i e = Inr p \<Longrightarrow> p \<in> live s \<and> pi_id p = i \<and> pi_epoch p = e"
  using find_live[of s i p] by (auto simp: check_epoch_ok)

section \<open>Edits that change no partition\<close>

lemma cluster_ok_bump [simp]: "cluster_ok (bump_map_version s) = cluster_ok s"
  by (simp add: cluster_ok_def inv_defs edit_simps live_def id_bag_def live_bag_def reserved_bag_def
      busy_bag_def split_ok_def merge_ok_def)

lemma cluster_ok_irrelevant [simp]:
  "cluster_ok (s\<lparr>cs_nodes := ns\<rparr>) = cluster_ok s"
  "cluster_ok (s\<lparr>cs_handoffs := hs\<rparr>) = cluster_ok s"
  "cluster_ok (s\<lparr>cs_credentials := cs\<rparr>) = cluster_ok s"
  "cluster_ok (s\<lparr>cs_next_keyspace_id := n\<rparr>) = cluster_ok s"
  by (simp_all add: cluster_ok_def inv_defs live_def id_bag_def live_bag_def reserved_bag_def
      busy_bag_def split_ok_def merge_ok_def)

lemma cluster_ok_raise_next:
  assumes "cluster_ok s" "cs_next_partition_id s \<le> n"
  shows "cluster_ok (s\<lparr>cs_next_partition_id := n\<rparr>)"
  using assms by (auto simp: cluster_ok_def inv_defs live_def id_bag_def live_bag_def reserved_bag_def
      busy_bag_def split_ok_def merge_ok_def dest: order_less_le_trans)

lemma cluster_ok_reserve: "cluster_ok s \<Longrightarrow> cluster_ok (reserve_ids a b s)"
  by (simp add: reserve_ids_def cluster_ok_raise_next le_max_iff_disj)

lemma cluster_ok_drop_split:
  assumes "cluster_ok s"
  shows "cluster_ok (s\<lparr>cs_pending_splits := bt_remove q (cs_pending_splits s)\<rparr>)" (is "cluster_ok ?t")
proof -
  have "reserved_bag ?t \<subseteq># reserved_bag s" and busy: "busy_bag ?t \<subseteq># busy_bag s"
    by (simp_all add: reserved_bag_def busy_bag_def mset_bt_remove_le image_mset_subseteq_mono
        subset_mset.add_mono)
  then have "id_bag ?t \<subseteq># id_bag s" by (simp add: id_bag_def live_bag_def)
  then have "inv_ids ?t"
    using assms by (auto simp: cluster_ok_def inv_ids_def dest: single_mono mset_subset_eqD)
  moreover have "single (busy_bag ?t)" using busy cluster_okD(7)[OF assms] by (rule single_mono)
  ultimately show ?thesis
    using assms by (auto simp: cluster_ok_def inv_defs live_def keeps_ok set_bt_remove split_ok_def merge_ok_def)
qed

lemma cluster_ok_filter_merges:
  assumes "cluster_ok s"
  shows "cluster_ok (s\<lparr>cs_pending_merges := filter P (cs_pending_merges s)\<rparr>)" (is "cluster_ok ?t")
proof -
  have "reserved_bag ?t \<subseteq># reserved_bag s" and busy: "busy_bag ?t \<subseteq># busy_bag s"
    by (simp_all add: reserved_bag_def busy_bag_def mset_filter image_mset_subseteq_mono
        subset_mset.add_mono)
  then have "id_bag ?t \<subseteq># id_bag s" by (simp add: id_bag_def live_bag_def)
  then have "inv_ids ?t"
    using assms by (auto simp: cluster_ok_def inv_ids_def dest: single_mono mset_subset_eqD)
  moreover have "single (busy_bag ?t)" using busy cluster_okD(7)[OF assms] by (rule single_mono)
  ultimately show ?thesis
    using assms by (auto simp: cluster_ok_def inv_defs live_def keeps_ok split_ok_def merge_ok_def)
qed

lemma cluster_ok_drop_merge:
  "cluster_ok s \<Longrightarrow> cluster_ok (s\<lparr>cs_pending_merges := bt_remove q (cs_pending_merges s)\<rparr>)"
  unfolding bt_remove_def by (rule cluster_ok_filter_merges)

section \<open>Replacing an entry\<close>

lemma live_replace:
  assumes "table_ok (parts s)" "p \<in> live s" "key_of p' = key_of p"
  shows "live (replace_partition s p') = insert p' (live s - {p})"
proof -
  have ok: "bt_ok (bt_remove (key_of p) (parts s))" and bt: "bt_ok (parts s)"
    using assms(1) by (auto simp: table_ok_def keeps_ok)
  have p: "(key_of p, p) \<in> set (parts s)" using assms(1,2) live_entry by blast
  have "{e \<in> set (parts s). fst e \<noteq> key_of p} = set (parts s) - {(key_of p, p)}"
    using bt_ok_unique[OF bt p] by force
  then have "set (parts (replace_partition s p')) = insert (key_of p, p') (set (parts s) - {(key_of p, p)})"
    unfolding edit_simps assms(3) set_bt_insert[OF ok] set_bt_remove by auto
  moreover have "snd ` (set (parts s) - {(key_of p, p)}) = snd ` set (parts s) - {p}"
    using table_entry[OF assms(1)] by (force simp: image_iff)
  ultimately show ?thesis by (simp add: live_def set_bt_values)
qed

lemma live_bag_replace:
  assumes "table_ok (parts s)" "p \<in> live s" "key_of p' = key_of p" "pi_id p' = pi_id p"
  shows "live_bag (replace_partition s p') = live_bag s"
proof -
  have bt: "bt_ok (parts s)" using assms(1) by (simp add: table_ok_def)
  have p: "(key_of p, p) \<in> set (parts s)" using assms(1,2) live_entry by blast
  show ?thesis
    unfolding live_bag_def edit_simps assms(3) mset_bt_insert[OF bt_remove_ok[OF bt]] bt_remove_twice
      mset_bt_remove[OF bt p]
    by (simp add: assms(4))
qed

lemma bt_insert_same: "bt_ok m \<Longrightarrow> bt_get m k = Some v \<Longrightarrow> bt_insert k v m = m"
proof (induction m)
  case Nil
  then show ?case by simp
next
  case (Cons e m)
  then have "k = fst e \<or> fst e < k" by (auto simp: bt_ok_distinct split: if_splits dest: map_of_SomeD)
  then show ?case using Cons by (cases e) auto
qed

lemma not_merging: "\<not> is_merging s i \<longleftrightarrow> (\<forall>(q, m)\<in>set (cs_pending_merges s). \<not> merge_touches i m)"
  by (force simp: is_merging_def list_ex_iff set_bt_values)

lemma not_splitting: "\<not> is_splitting s i \<longleftrightarrow> (\<forall>(q, sp)\<in>set (cs_pending_splits s). q \<noteq> i)"
  by (force simp: is_splitting_def bt_contains_iff)

lemmas bag_defs = id_bag_def live_bag_def reserved_bag_def busy_bag_def

lemma pending_split_ok: "cluster_ok s \<Longrightarrow> (q, sp) \<in> set (cs_pending_splits s) \<Longrightarrow> split_ok s q sp"
  by (auto simp: cluster_ok_def inv_pending_def)

lemma pending_merge_ok:
  "cluster_ok s \<Longrightarrow> (q, m) \<in> set (cs_pending_merges s) \<Longrightarrow>
   q = mg_lower (me_generation m) \<and> merge_ok s (me_generation m)"
  by (auto simp: cluster_ok_def inv_pending_def)

lemma splitting_owned:
  assumes "cluster_ok s" "p \<in> live s" "is_splitting s (pi_id p)"
  shows "pi_owner p \<noteq> None"
proof -
  obtain sp where "(pi_id p, sp) \<in> set (cs_pending_splits s)"
    using assms(3) by (auto simp: is_splitting_def bt_contains_iff)
  then obtain q where "q \<in> live s" "pi_id q = pi_id p" "pi_owner q \<noteq> None"
    using pending_split_ok[OF assms(1)] unfolding split_ok_def by blast
  then show ?thesis using live_unique[OF assms(1) _ assms(2)] by blast
qed

lemma merge_ok_replace:
  assumes "live t = insert p' (live s - {p})" "mg_lower g \<noteq> pi_id p" "mg_upper g \<noteq> pi_id p" "merge_ok s g"
  shows "merge_ok t g"
  using assms unfolding merge_ok_def by (metis Diff_iff insert_iff singletonD)

lemma split_ok_replace:
  assumes "cluster_ok s" "p \<in> live s" "live t = insert p' (live s - {p})"
    and "pi_id p' = pi_id p" "pi_range p' = pi_range p"
    and "q = pi_id p \<Longrightarrow> pi_owner p' \<noteq> None" "split_ok s q sp"
  shows "split_ok t q sp"
proof (cases "q = pi_id p")
  case True
  obtain p0 where "p0 \<in> live s" "pi_id p0 = q" "split_at (pi_range p0) (sp_at sp) \<noteq> None"
    using assms(7) by (auto simp: split_ok_def)
  moreover then have "p0 = p" using live_unique[OF assms(1) _ assms(2)] True by blast
  ultimately show ?thesis using assms(3-6) True by (auto simp: split_ok_def)
next
  case False
  then show ?thesis using assms(3,7) unfolding split_ok_def by (metis Diff_iff insert_iff singletonD)
qed

lemma cluster_ok_replace_phase:
  assumes ok: "cluster_ok s" and p: "p \<in> live s"
    and same: "pi_id p' = pi_id p" "pi_keyspace p' = pi_keyspace p" "pi_range p' = pi_range p"
    and free: "\<not> is_merging s (pi_id p)"
    and ph: "ph = Serving \<longleftrightarrow> pi_owner p' \<noteq> None"
    and owned: "is_splitting s (pi_id p) \<Longrightarrow> pi_owner p' \<noteq> None"
  shows "cluster_ok (set_phase (pi_id p) ph (replace_partition s p'))" (is "cluster_ok ?t")
proof -
  note tab = cluster_okD(1)[OF ok]
  have e: "(key_of p, p) \<in> set (parts s)" using live_entry[OF tab] p by blast
  have key: "key_of p' = key_of p" using same by simp
  have live: "live ?t = insert p' (live s - {p})"
    using live_replace[OF tab p key] by (simp add: live_def edit_simps)
  have ids: "pi_id ` live ?t = pi_id ` live s" unfolding live using p same by force
  have "kr_ok (pi_range p')" using table_entry[OF tab e] same by simp
  then have "table_ok (parts ?t)" using tab by (simp add: edit_simps keeps_ok)
  then have "inv_tables ?t" using ok by (simp add: cluster_ok_def inv_tables_def edit_simps keeps_ok)
  moreover have "inv_keyspaces ?t" using ok by (simp add: cluster_ok_def inv_keyspaces_def edit_simps)
  moreover have "inv_coverage ?t"
  proof -
    have "table_keyspaces (parts ?t) = table_keyspaces (parts s)"
      unfolding edit_simps key using e
      by (intro table_keyspaces_remove_insert[OF table_okD[OF tab]]) (force simp: image_iff)+
    moreover have "key_hits (parts ?t) ks key = key_hits (parts s) ks key" for ks key
      unfolding edit_simps by (rule key_hits_update[OF tab e same(2,3)])
    ultimately show ?thesis using ok by (simp add: cluster_ok_def inv_coverage_def exactly_covered_def edit_simps)
  qed
  moreover have "inv_ids ?t"
  proof -
    have "live_bag ?t = live_bag s"
      using live_bag_replace[OF tab p key same(1)] by (simp add: live_bag_def edit_simps)
    then have "id_bag ?t = id_bag s" by (simp add: id_bag_def reserved_bag_def edit_simps)
    then show ?thesis using ok by (simp add: cluster_ok_def inv_ids_def edit_simps)
  qed
  moreover have "inv_phases ?t"
  proof -
    have "pi_id q \<noteq> pi_id p" if "q \<in> live s - {p}" for q using live_unique[OF ok _ p] that by blast
    moreover have "pi_id p \<in> pi_id ` live s" using p by blast
    ultimately show ?thesis
      using ok ph same(1) unfolding cluster_ok_def inv_phases_def ids
      by (auto simp: live edit_simps)
  qed
  moreover have "inv_pending ?t"
  proof -
    have "split_ok ?t q sp" if "(q, sp) \<in> set (cs_pending_splits s)" for q sp
      using ok that owned by (intro split_ok_replace[OF ok p live same(1,3)])
        (force simp: cluster_ok_def inv_pending_def not_splitting)+
    moreover have "merge_ok ?t (me_generation m)" if "(q, m) \<in> set (cs_pending_merges s)" for q m
      using ok free that by (intro merge_ok_replace[OF live])
        (force simp: cluster_ok_def inv_pending_def not_merging merge_touches_def)+
    ultimately show ?thesis
      using ok by (auto simp: cluster_ok_def inv_pending_def busy_bag_def edit_simps)
  qed
  ultimately show ?thesis by (simp add: cluster_ok_def)
qed

lemma cluster_ok_replace:
  assumes ok: "cluster_ok s" and p: "p \<in> live s"
    and same: "pi_id p' = pi_id p" "pi_keyspace p' = pi_keyspace p" "pi_range p' = pi_range p"
    and free: "\<not> is_merging s (pi_id p)" and owner: "pi_owner p' = None \<longleftrightarrow> pi_owner p = None"
  shows "cluster_ok (replace_partition s p')"
proof -
  obtain ph where ph: "bt_get (cs_phases s) (pi_id p) = Some ph"
    using ok p by (cases "bt_get (cs_phases s) (pi_id p)") (auto simp: cluster_ok_def inv_phases_def)
  have "ph = Serving \<longleftrightarrow> pi_owner p' \<noteq> None"
    using ok p ph owner by (force simp: cluster_ok_def inv_phases_def)
  moreover have "is_splitting s (pi_id p) \<Longrightarrow> pi_owner p' \<noteq> None"
    using splitting_owned[OF ok p] owner by simp
  ultimately have "cluster_ok (set_phase (pi_id p) ph (replace_partition s p'))"
    by (intro cluster_ok_replace_phase[OF ok p same free])
  moreover have "set_phase (pi_id p) ph (replace_partition s p') = replace_partition s p'"
    using bt_insert_same[OF cluster_okD(3)[OF ok] ph]
    by (simp add: set_phase_def replace_partition_def)
  ultimately show ?thesis by simp
qed

lemma cluster_ok_set_phase:
  assumes ok: "cluster_ok s" and p: "p \<in> live s" "pi_owner p = None" and ph: "ph \<noteq> Serving"
  shows "cluster_ok (set_phase (pi_id p) ph s)"
proof -
  have "pi_id p \<in> pi_id ` live s" using p by blast
  moreover have "pi_id q \<noteq> pi_id p" if "q \<in> live s" "pi_owner q \<noteq> None" for q
    using live_unique[OF ok _ p(1)] that p(2) by metis
  ultimately have "inv_phases (set_phase (pi_id p) ph s)"
    using ok ph p unfolding cluster_ok_def inv_phases_def live_def edit_simps by auto
  then show ?thesis
    using ok by (simp add: cluster_ok_def inv_defs edit_simps live_def bag_defs keeps_ok split_ok_def merge_ok_def)
qed

section \<open>Commands that move ownership\<close>

lemma busy_touch:
  "merge_touches i m \<longleftrightarrow> i \<in> {mg_lower (me_generation m), mg_upper (me_generation m)}"
  by (auto simp: merge_touches_def)

text \<open>The two parents of a merge under way are touched by no other merge and by no split.\<close>

lemma busy_bag_merge:
  assumes "bt_ok (cs_pending_merges s)" "(q, m) \<in> set (cs_pending_merges s)"
  shows "busy_bag s = add_mset (mg_lower (me_generation m)) (add_mset (mg_upper (me_generation m))
     (busy_bag (s\<lparr>cs_pending_merges := bt_remove q (cs_pending_merges s)\<rparr>)))"
  using mset_bt_remove[OF assms] by (simp add: busy_bag_def)

lemma busy_bag_set:
  "i \<in># busy_bag s \<longleftrightarrow> is_splitting s i \<or> is_merging s i"
  by (force simp: busy_bag_def is_splitting_def bt_contains_iff is_merging_def list_ex_iff set_bt_values merge_touches_def)

lemma merge_alone:
  assumes ok: "cluster_ok s" and m: "(q, m) \<in> set (cs_pending_merges s)" and t: "merge_touches i m"
  shows "\<not> is_merging (s\<lparr>cs_pending_merges := bt_remove q (cs_pending_merges s)\<rparr>) i" "\<not> is_splitting s i"
proof -
  let ?t = "s\<lparr>cs_pending_merges := bt_remove q (cs_pending_merges s)\<rparr>"
  have "single (busy_bag s)" using cluster_okD(7)[OF ok] .
  then have "i \<notin># busy_bag ?t"
    using t unfolding busy_bag_merge[OF cluster_okD(5)[OF ok] m] by (auto simp: single_add merge_touches_def)
  then show "\<not> is_merging ?t i" "\<not> is_splitting s i"
    by (auto simp: busy_bag_set is_splitting_def)
qed

lemma is_merging_replace [simp]: "is_merging (replace_partition s p) i = is_merging s i"
  by (simp add: is_merging_def edit_simps)

lemma is_splitting_replace [simp]: "is_splitting (replace_partition s p) i = is_splitting s i"
  by (simp add: is_splitting_def edit_simps)

lemma abort_for_change_cases:
  assumes ok: "cluster_ok s"
  obtains (none) "\<not> is_merging s i" "abort_merge_for_parent_change s i = (s, False)"
  | (some) q m other where "(q, m) \<in> set (cs_pending_merges s)" "merge_touches i m" "other \<in> live s"
      "pi_id other \<noteq> i" "pi_id other = (if mg_lower (me_generation m) = i then mg_upper (me_generation m) else mg_lower (me_generation m))"
      "pi_owner other \<noteq> None" "merge_touches (pi_id other) m"
      "abort_merge_for_parent_change s i =
        (replace_partition (s\<lparr>cs_pending_merges := bt_remove q (cs_pending_merges s)\<rparr>) (bump_epoch other), True)"
proof (cases "List.find (\<lambda>(_, m). merge_touches i m) (cs_pending_merges s)")
  case None
  then have "abort_merge_for_parent_change s i = (s, False)" by (simp add: abort_merge_for_parent_change_def)
  moreover have "\<not> is_merging s i" using None by (auto simp: not_merging find_None_iff)
  ultimately show ?thesis by (rule none[rotated])
next
  case (Some e)
  obtain q m where e: "e = (q, m)" by (cases e)
  have m: "(q, m) \<in> set (cs_pending_merges s)" and t: "merge_touches i m"
    using find_mem[OF Some] e by auto
  let ?g = "me_generation m" and ?t = "s\<lparr>cs_pending_merges := bt_remove q (cs_pending_merges s)\<rparr>"
  obtain l u where lu: "l \<in> live s" "u \<in> live s" "pi_id l = mg_lower ?g" "pi_id u = mg_upper ?g"
      "pi_owner l \<noteq> None" "pi_owner u \<noteq> None"
    using pending_merge_ok[OF ok m] unfolding merge_ok_def by metis
  have "mg_lower ?g \<noteq> mg_upper ?g"
    using cluster_okD(7)[OF ok] unfolding busy_bag_merge[OF cluster_okD(5)[OF ok] m] by (simp add: single_add)
  moreover define other where other: "other = (if mg_lower ?g = i then u else l)"
  moreover have "find_partition (cs_map ?t) (pi_id other) = Some other"
    using find_iff[OF ok, of "pi_id other" other] lu by (auto simp: other)
  moreover then have "abort_merge_for_parent_change s i = (replace_partition ?t (bump_epoch other), True)"
    using lu(3,4) Some e by (auto simp: abort_merge_for_parent_change_def Let_def other split: if_splits)
  ultimately show ?thesis
    using lu t by (intro some[OF m t, of other]) (auto simp: merge_touches_def)
qed

lemma abort_for_change_fields:
  fixes i :: partition_id
  assumes ok: "cluster_ok s"
  defines "t \<equiv> fst (abort_merge_for_parent_change s i)"
  shows "cs_pending_splits t = cs_pending_splits s" "pm_version (cs_map t) = pm_version (cs_map s)"
    "cs_version t = cs_version s" "cs_version_initialized t = cs_version_initialized s"
    "cs_next_partition_id t = cs_next_partition_id s" "cs_phases t = cs_phases s"
    "cs_keyspaces t = cs_keyspaces s" "cs_nodes t = cs_nodes s"
  unfolding t_def by (rule abort_for_change_cases[OF ok, of i]; simp add: edit_simps)+

lemma abort_for_change_ok:
  assumes ok: "cluster_ok s" and p: "p \<in> live s"
  defines "t \<equiv> fst (abort_merge_for_parent_change s (pi_id p))"
  shows "cluster_ok t \<and> p \<in> live t \<and> \<not> is_merging t (pi_id p)"
proof (rule abort_for_change_cases[OF ok, of "pi_id p"])
  assume "\<not> is_merging s (pi_id p)" "abort_merge_for_parent_change s (pi_id p) = (s, False)"
  then show ?thesis using ok p by (simp add: t_def)
next
  fix q m other
  let ?u = "s\<lparr>cs_pending_merges := bt_remove q (cs_pending_merges s)\<rparr>"
  assume m: "(q, m) \<in> set (cs_pending_merges s)" and tp: "merge_touches (pi_id p) m"
    and o: "other \<in> live s" "pi_id other \<noteq> pi_id p" "merge_touches (pi_id other) m"
    and "abort_merge_for_parent_change s (pi_id p) = (replace_partition ?u (bump_epoch other), True)"
  then have t: "t = replace_partition ?u (bump_epoch other)" by (simp add: t_def)
  have u: "cluster_ok ?u" by (rule cluster_ok_drop_merge[OF ok])
  have o': "other \<in> live ?u" and p': "p \<in> live ?u" using o p by (simp_all add: live_def)
  have "cluster_ok t"
    unfolding t using merge_alone(1)[OF ok m o(3)] by (intro cluster_ok_replace[OF u o']) auto
  moreover have "p \<in> live t"
    unfolding t using live_replace[OF cluster_okD(1)[OF u] o', of "bump_epoch other"] p' o(2) by auto
  moreover have "\<not> is_merging t (pi_id p)"
    unfolding t using merge_alone(1)[OF ok m tp] by simp
  ultimately show ?thesis by blast
qed

lemma set_phase_bump: "set_phase i ph (bump_map_version s) = bump_map_version (set_phase i ph s)"
  by (cases s) (simp add: bump_map_version_def set_phase_def)

lemma keep_attempt:
  "cluster_ok s \<Longrightarrow> (\<And>x. r = Inr x \<Longrightarrow> cluster_ok (fst (k x))) \<Longrightarrow> cluster_ok (fst (attempt s r k))"
  by (cases r) auto

lemma live_drop_split [simp]: "live (s\<lparr>cs_pending_splits := x\<rparr>) = live s"
  by (simp add: live_def)

lemma fence_ok:
  assumes ok: "cluster_ok s"
  shows "cluster_ok (fst (fence_partition s i e))"
proof -
  have "cluster_ok (set_phase i ph (bump_map_version (replace_partition
      (s1\<lparr>cs_pending_splits := bt_remove i (cs_pending_splits s1)\<rparr>) p')))"
    if "check_epoch s i e = Inr p" "s1 = fst (abort_merge_for_parent_change s i)" "ph \<noteq> Serving"
      "pi_id p' = pi_id p" "pi_keyspace p' = pi_keyspace p" "pi_range p' = pi_range p" "pi_owner p' = None"
    for p p' ph s1
  proof -
    have p: "p \<in> live s" and i: "i = pi_id p" using that by (auto dest: check_epoch_live)
    have ab: "cluster_ok s1" "p \<in> live s1" "\<not> is_merging s1 i"
      using abort_for_change_ok[OF ok p] i that(2) by simp_all
    show ?thesis
      unfolding set_phase_bump cluster_ok_bump i
      by (rule cluster_ok_replace_phase[OF cluster_ok_drop_split[OF ab(1)]])
        (use ab that i in \<open>simp_all add: is_merging_def is_splitting_def\<close>)
  qed
  then show ?thesis
    unfolding fence_partition_def Let_def using ok by (auto intro!: keep_attempt split: option.split)
qed

lemma complete_fence_drain_ok:
  assumes ok: "cluster_ok s"
  shows "cluster_ok (fst (complete_fence_drain s i e))"
proof -
  have "cluster_ok (set_phase i (Fenced n v True) s)"
    if "check_epoch s i e = Inr p" and ph: "bt_get (cs_phases s) i = Some (Fenced n v b)" for p n v b
  proof -
    have p: "p \<in> live s" and i: "i = pi_id p" using that by (auto dest: check_epoch_live)
    have "pi_owner p = None" using ok p ph i by (force simp: cluster_ok_def inv_phases_def)
    then show ?thesis unfolding i by (intro cluster_ok_set_phase[OF ok p]) auto
  qed
  then show ?thesis
    unfolding complete_fence_drain_def using ok
    by (auto intro!: keep_attempt split: option.split partition_phase.split)
qed

lemma merging_owned:
  assumes "cluster_ok s" "p \<in> live s" "is_merging s (pi_id p)"
  shows "pi_owner p \<noteq> None"
proof -
  obtain q m where m: "(q, m) \<in> set (cs_pending_merges s)" "merge_touches (pi_id p) m"
    using assms(3) not_merging[of s "pi_id p"] by blast
  then obtain l u where lu: "l \<in> live s" "u \<in> live s" "pi_id l = mg_lower (me_generation m)"
      "pi_id u = mg_upper (me_generation m)" "pi_owner l \<noteq> None" "pi_owner u \<noteq> None"
    using pending_merge_ok[OF assms(1)] unfolding merge_ok_def by metis
  then have "l = p \<or> u = p" using live_unique[OF assms(1) _ assms(2)] m(2) by (auto simp: merge_touches_def)
  then show ?thesis using lu by blast
qed

lemma assign_owner_ok:
  assumes ok: "cluster_ok s"
  shows "cluster_ok (fst (assign_owner s i owner replicas e))"
proof -
  have "cluster_ok (set_phase i Serving (replace_partition s (p\<lparr>pi_owner := Some owner, pi_replicas := replicas\<rparr>)))"
    if "check_epoch s i e = Inr p" "pi_owner p = None" for p
  proof -
    have p: "p \<in> live s" and i: "i = pi_id p" using that by (auto dest: check_epoch_live)
    show ?thesis
      unfolding i using merging_owned[OF ok p] that by (intro cluster_ok_replace_phase[OF ok p]) auto
  qed
  then show ?thesis unfolding assign_owner_def using ok by (auto intro!: keep_attempt)
qed

lemma transfer_ownership_ok:
  assumes ok: "cluster_ok s"
  shows "cluster_ok (fst (transfer_ownership s i from to replicas e))"
proof -
  have "cluster_ok (set_phase i Serving (replace_partition (fst (abort_merge_for_parent_change s i))
      ((bump_epoch p)\<lparr>pi_owner := Some to, pi_replicas := replicas\<rparr>)))"
    if "check_epoch s i e = Inr p" for p
  proof -
    have p: "p \<in> live s" and i: "i = pi_id p" using that by (auto dest: check_epoch_live)
    show ?thesis
      unfolding i using abort_for_change_ok[OF ok p] by (intro cluster_ok_replace_phase) auto
  qed
  then show ?thesis unfolding transfer_ownership_def Let_def using ok by (auto intro!: keep_attempt)
qed

lemma set_replicas_ok:
  assumes ok: "cluster_ok s"
  shows "cluster_ok (fst (set_replicas s i replicas e))"
proof -
  define s1 where "s1 = s\<lparr>cs_pending_splits := bt_remove i (cs_pending_splits s)\<rparr>"
  obtain s2 ab where s2: "abort_merge_for_parent_change s1 i = (s2, ab)" by (cases "abort_merge_for_parent_change s1 i")
  have s1: "cluster_ok s1" unfolding s1_def by (rule cluster_ok_drop_split[OF ok])
  have "cluster_ok s2 \<and> (pi_id p' = pi_id p \<longrightarrow> pi_keyspace p' = pi_keyspace p \<longrightarrow> pi_range p' = pi_range p
      \<longrightarrow> pi_owner p' = pi_owner p \<longrightarrow> cluster_ok (replace_partition s2 p'))"
    if "check_epoch s i e = Inr p" for p p'
  proof -
    have p: "p \<in> live s1" and i: "i = pi_id p" using that by (auto dest: check_epoch_live simp: s1_def)
    have "cluster_ok s2" "p \<in> live s2" "\<not> is_merging s2 (pi_id p)"
      using abort_for_change_ok[OF s1 p] s2 i by simp_all
    then show ?thesis using cluster_ok_replace[of s2 p p'] by simp
  qed
  then show ?thesis
    unfolding set_replicas_def Let_def s1_def[symmetric] s2
    using ok by (auto intro!: keep_attempt split: option.split)
qed

end
