(* ===== verification/Cluster_Reshape.thy ===== *)
theory Cluster_Reshape
  imports Cluster_Inv
begin

text \<open>
  The commands of \<open>state.rs\<close> that change which partitions exist: splits, merges, and the
  creation and deletion of keyspaces. Each keeps the invariant of \<open>Cluster_Inv\<close>, given that
  the ids a proposal allocates are not the last id of the type and, below protocol 0.2, come
  from the counter.
\<close>

section \<open>Ids in use\<close>

lemma child_id_in_use_iff:
  assumes "cluster_ok s"
  shows "child_id_in_use s i \<longleftrightarrow> i \<in># id_bag s"
proof -
  have "bt_contains (cs_phases s) i \<longleftrightarrow> i \<in># live_bag s"
    using assms by (simp add: bt_contains_def cluster_ok_def inv_phases_def live_bag_set)
  moreover have "list_ex (\<lambda>sp. sp_lower sp = i \<or> sp_upper sp = i) (bt_values (cs_pending_splits s))
      \<or> list_ex (\<lambda>m. mg_merged (me_generation m) = i) (bt_values (cs_pending_merges s))
      \<longleftrightarrow> i \<in># reserved_bag s"
    by (force simp: reserved_bag_def list_ex_iff set_bt_values)
  ultimately show ?thesis by (auto simp: child_id_in_use_def id_bag_def)
qed

lemma phase_id_iff: "cluster_ok s \<Longrightarrow> bt_contains (cs_phases s) i \<longleftrightarrow> i \<in> pi_id ` live s"
  by (simp add: bt_contains_def cluster_ok_def inv_phases_def)

lemma id_below_next: "cluster_ok s \<Longrightarrow> i \<in># id_bag s \<Longrightarrow> i < cs_next_partition_id s"
  by (simp add: cluster_ok_def inv_ids_def)

lemma live_id: "p \<in> live s \<Longrightarrow> pi_id p \<in># id_bag s"
  by (simp add: id_bag_def live_bag_set)

section \<open>Pending work outlives an edit that leaves its parents alone\<close>

lemma inv_pending_shrink:
  assumes ok: "cluster_ok s"
    and busy: "busy_bag t \<subseteq># busy_bag s"
    and pend: "set (cs_pending_splits t) \<subseteq> set (cs_pending_splits s)"
      "set (cs_pending_merges t) \<subseteq> set (cs_pending_merges s)"
    and ver: "cs_version t = cs_version s" "cs_version_initialized t = cs_version_initialized s"
    and kept: "\<And>p. p \<in> live s \<Longrightarrow> pi_id p \<in># busy_bag t \<Longrightarrow> p \<in> live t"
  shows "inv_pending t"
proof -
  have "single (busy_bag t)" using busy cluster_okD(7)[OF ok] by (rule single_mono)
  moreover have "split_ok t q sp" if m: "(q, sp) \<in> set (cs_pending_splits t)" for q sp
  proof -
    have "q \<in># busy_bag t" using m by (force simp: busy_bag_def)
    moreover have "split_ok s q sp" using pending_split_ok[OF ok] m pend(1) by blast
    ultimately show ?thesis unfolding split_ok_def using kept by blast
  qed
  moreover have "q = mg_lower (me_generation m) \<and> merge_ok t (me_generation m)"
    if m: "(q, m) \<in> set (cs_pending_merges t)" for q m
  proof -
    have "mg_lower (me_generation m) \<in># busy_bag t" "mg_upper (me_generation m) \<in># busy_bag t"
      using m by (force simp: busy_bag_def)+
    moreover have "q = mg_lower (me_generation m) \<and> merge_ok s (me_generation m)"
      using pending_merge_ok[OF ok] m pend(2) by blast
    ultimately show ?thesis unfolding merge_ok_def using kept by metis
  qed
  moreover have "cs_pending_splits t \<noteq> [] \<or> cs_pending_merges t \<noteq> [] \<longrightarrow>
      cs_version_initialized t \<and> protocol_0_1 \<le> cs_version t"
    using ok pend ver unfolding cluster_ok_def inv_pending_def by (metis set_empty subset_empty)
  ultimately show ?thesis unfolding inv_pending_def by blast
qed

section \<open>Exchanging entries\<close>

abbreviation entry_ids :: "(map_key \<times> partition_info) multiset \<Rightarrow> partition_id multiset" where
  "entry_ids E \<equiv> image_mset (pi_id \<circ> snd) E"

lemma single_disjoint: "single (A + B) \<Longrightarrow> x \<in># A \<Longrightarrow> x \<notin># B"
  by (force dest: multi_member_split simp: single_add)

lemma single_union:
  assumes "single A" "single B" "\<And>x. x \<in># A \<Longrightarrow> x \<notin># B"
  shows "single (A + B)"
  unfolding single_def
proof
  fix x
  have "count A x = 0 \<or> count B x = 0" using assms(3)[of x] by (auto simp flip: not_in_iff)
  then show "count (A + B) x \<le> 1" using assms(1,2) by (auto simp: single_def)
qed

lemma cluster_ok_swap:
  assumes ok: "cluster_ok s" and t: "inv_tables t" "inv_keyspaces t" "inv_coverage t"
    and ps: "mset (parts s) = Out + R" "mset (parts t) = In + R"
    and fresh: "single (entry_ids In)"
      "\<And>e. e \<in># In \<Longrightarrow> pi_id (snd e) \<notin># id_bag s \<and> pi_id (snd e) < cs_next_partition_id t"
    and phases: "\<And>e. e \<in># In \<Longrightarrow> bt_get (cs_phases t) (pi_id (snd e)) = Some (phase_for (pi_owner (snd e)))"
      "\<And>e. e \<in># Out \<Longrightarrow> bt_get (cs_phases t) (pi_id (snd e)) = None"
      "\<And>i. i \<notin># entry_ids In \<Longrightarrow> i \<notin># entry_ids Out \<Longrightarrow> bt_get (cs_phases t) i = bt_get (cs_phases s) i"
    and pend: "reserved_bag t \<subseteq># reserved_bag s" "busy_bag t \<subseteq># busy_bag s"
      "set (cs_pending_splits t) \<subseteq> set (cs_pending_splits s)"
      "set (cs_pending_merges t) \<subseteq> set (cs_pending_merges s)"
    and ver: "cs_version t = cs_version s" "cs_version_initialized t = cs_version_initialized s"
    and idle: "\<And>e. e \<in># Out \<Longrightarrow> pi_id (snd e) \<notin># busy_bag t"
    and grows: "cs_next_partition_id s \<le> cs_next_partition_id t"
  shows "cluster_ok t"
proof -
  have bag_s: "live_bag s = entry_ids Out + entry_ids R" and bag_t: "live_bag t = entry_ids In + entry_ids R"
    by (simp_all add: live_bag_def ps)
  have "live x = snd ` set_mset (mset (parts x))" for x by (simp add: live_def set_bt_values)
  from this[of s] this[of t] have live_s: "live s = snd ` set_mset Out \<union> snd ` set_mset R"
    and live_t: "live t = snd ` set_mset In \<union> snd ` set_mset R"
    unfolding ps by (auto simp: image_Un)
  have once: "single (entry_ids Out + entry_ids R)"
    using cluster_okD(6)[OF ok] by (rule single_mono[rotated]) (simp add: id_bag_def bag_s)
  have new: "x \<notin># id_bag s" if "x \<in># entry_ids In" for x using fresh(2) that by auto
  have rest: "i \<notin># entry_ids In \<and> i \<notin># entry_ids Out" if "i \<in># entry_ids R" for i
  proof -
    have "i \<in># id_bag s" using that by (simp add: id_bag_def bag_s)
    then have "i \<notin># entry_ids In" using new by blast
    then show ?thesis using single_disjoint[OF once, of i] that by blast
  qed
  have "inv_ids t"
  proof -
    have "id_bag t = entry_ids In + (entry_ids R + reserved_bag t)" by (simp add: id_bag_def bag_t)
    moreover have sub: "entry_ids R + reserved_bag t \<subseteq># id_bag s"
      using pend(1) by (simp add: id_bag_def bag_s add.assoc subset_mset.add_increasing subset_mset.add_mono)
    moreover have "single (entry_ids R + reserved_bag t)" using sub cluster_okD(6)[OF ok] by (rule single_mono)
    moreover have "x \<notin># entry_ids R + reserved_bag t" if "x \<in># entry_ids In" for x
      using new[OF that] mset_subset_eqD[OF sub] by blast
    ultimately have "single (id_bag t)" using single_union[OF fresh(1)] by metis
    moreover have "i < cs_next_partition_id t" if "i \<in># id_bag t" for i
    proof (cases "i \<in># entry_ids In")
      case True
      then show ?thesis using fresh(2) by auto
    next
      case False
      then have "i \<in># id_bag s" using that sub mset_subset_eqD[OF sub] by (auto simp: id_bag_def bag_t)
      then show ?thesis using id_below_next[OF ok] grows by (metis order_less_le_trans)
    qed
    ultimately show ?thesis by (simp add: inv_ids_def)
  qed
  moreover have "inv_phases t"
    unfolding inv_phases_def
  proof (intro conjI allI ballI)
    fix i
    have in_t: "i \<in> pi_id ` live t \<longleftrightarrow> i \<in># entry_ids In \<or> i \<in># entry_ids R"
      and in_s: "i \<in> pi_id ` live s \<longleftrightarrow> i \<in># entry_ids Out \<or> i \<in># entry_ids R"
      by (auto simp: live_s live_t)
    consider (new) "i \<in># entry_ids In" | (gone) "i \<in># entry_ids Out" "i \<notin># entry_ids In"
      | (kept) "i \<notin># entry_ids In" "i \<notin># entry_ids Out" by blast
    then show "bt_get (cs_phases t) i = None \<longleftrightarrow> i \<notin> pi_id ` live t"
    proof cases
      case new
      then have "bt_get (cs_phases t) i \<noteq> None" using phases(1) by auto
      then show ?thesis using new in_t by blast
    next
      case gone
      then have "bt_get (cs_phases t) i = None" using phases(2) by auto
      then show ?thesis using gone in_t rest by blast
    next
      case kept
      then show ?thesis
        using phases(3) in_t in_s ok by (simp add: cluster_ok_def inv_phases_def)
    qed
  next
    fix q assume "q \<in> live t"
    then consider (new) "q \<in> snd ` set_mset In" | (old) "q \<in> snd ` set_mset R" by (auto simp: live_t)
    then show "bt_get (cs_phases t) (pi_id q) = Some Serving \<longleftrightarrow> pi_owner q \<noteq> None"
    proof cases
      case new
      then show ?thesis using phases(1) by (force simp: phase_for_def split: if_splits)
    next
      case old
      then have "pi_id q \<in># entry_ids R" "q \<in> live s" by (auto simp: live_s)
      then show ?thesis
        using phases(3) rest ok by (simp add: cluster_ok_def inv_phases_def)
    qed
  qed
  moreover have "inv_pending t"
    using idle by (intro inv_pending_shrink[OF ok pend(2-4) ver]) (auto simp: live_s live_t)
  ultimately show ?thesis using t by (simp add: cluster_ok_def)
qed

section \<open>A parent gives way to its children\<close>

lemma split_swap_mset:
  assumes ok: "cluster_ok s" and p: "p \<in> live s"
    and sp: "split_at (pi_range p) at = Some (pi_range a, pi_range b)"
    and ks: "pi_keyspace a = pi_keyspace p" "pi_keyspace b = pi_keyspace p"
  defines "r \<equiv> bt_remove (key_of p) (parts s)"
  shows "mset (parts s) = {#(key_of p, p)#} + mset r"
    "mset (bt_insert (key_of b) b (bt_insert (key_of a) a r)) = {#(key_of b, b), (key_of p, a)#} + mset r"
proof -
  note tab = cluster_okD(1)[OF ok]
  note bt = table_okD[OF tab]
  have e: "(key_of p, p) \<in> set (parts s)" using live_entry[OF tab] p by blast
  have ka: "key_of a = key_of p" and kb: "key_of b = (pi_keyspace p, at)" and ne: "at \<noteq> kr_start (pi_range p)"
    using sp ks by (auto simp: split_at_Some)
  let ?m = "bt_insert (key_of a) a r"
  have absent: "key_of b \<notin> fst ` set (parts s)"
    using split_key_absent[OF tab cluster_okD(8)[OF ok] e sp] kb by simp
  have bts: "bt_ok r" "bt_ok ?m" using bt by (simp_all add: keeps_ok r_def)
  show "mset (parts s) = {#(key_of p, p)#} + mset r" using mset_bt_remove[OF bt e] by (simp add: r_def)
  have m: "mset ?m = add_mset (key_of p, a) (mset r)" unfolding ka mset_bt_insert[OF bts(1)] by (simp add: r_def)
  have "key_of b \<notin> fst ` set ?m"
    unfolding ka set_bt_insert[OF bts(1)] using absent ne kb by (auto simp: r_def set_bt_remove)
  then show "mset (bt_insert (key_of b) b ?m) = {#(key_of b, b), (key_of p, a)#} + mset r"
    unfolding mset_bt_insert[OF bts(2)] by (simp add: bt_remove_absent m)
qed

lemma cluster_ok_split_swap:
  assumes ok: "cluster_ok s" and p: "p \<in> live s"
    and sp: "split_at (pi_range p) at = Some (pi_range a, pi_range b)"
    and ks: "pi_keyspace a = pi_keyspace p" "pi_keyspace b = pi_keyspace p"
    and new: "pi_id a \<notin># id_bag s" "pi_id b \<notin># id_bag s" "pi_id a \<noteq> pi_id b"
    and idle: "pi_id p \<notin># busy_bag s"
    and t: "parts t = bt_insert (key_of b) b (bt_insert (key_of a) a (bt_remove (key_of p) (parts s)))"
      "pm_keyspaces (cs_map t) = pm_keyspaces (cs_map s)" "pm_by_name (cs_map t) = pm_by_name (cs_map s)"
      "cs_keyspaces t = cs_keyspaces s"
      "cs_phases t = bt_remove (pi_id p) (bt_insert (pi_id b) (phase_for (pi_owner b))
         (bt_insert (pi_id a) (phase_for (pi_owner a)) (cs_phases s)))"
      "cs_pending_splits t = cs_pending_splits s" "cs_pending_merges t = cs_pending_merges s"
      "cs_version t = cs_version s" "cs_version_initialized t = cs_version_initialized s"
    and ids: "cs_next_partition_id s \<le> cs_next_partition_id t"
      "pi_id a < cs_next_partition_id t" "pi_id b < cs_next_partition_id t"
  shows "cluster_ok t"
proof -
  note tab = cluster_okD(1)[OF ok]
  have e: "(key_of p, p) \<in> set (parts s)" using live_entry[OF tab] p by blast
  have kab: "kr_ok (pi_range a)" "kr_ok (pi_range b)" using split_at_ok[OF sp] by simp_all
  note r = split_swap_mset(1)[OF ok p sp ks] and pt = split_swap_mset(2)[OF ok p sp ks, folded t(1)]
  have pid: "pi_id p \<noteq> pi_id a" "pi_id p \<noteq> pi_id b" using live_id[OF p] new by auto
  have "table_keyspaces (parts t) = table_keyspaces (parts s)"
  proof -
    have "table_keyspaces (parts x) = (fst \<circ> fst) ` set_mset (mset (parts x))" for x
      by (simp add: table_keyspaces_def)
    from this[of s] this[of t] ks show ?thesis unfolding r pt by auto
  qed
  then have cov: "inv_coverage t"
    using ok key_hits_split[OF tab cluster_okD(8)[OF ok] e sp ks]
    by (simp add: cluster_ok_def inv_coverage_def exactly_covered_def t)
  show ?thesis
  proof (rule cluster_ok_swap[OF ok _ _ cov r pt])
    show "inv_tables t" "inv_keyspaces t"
      using ok kab tab by (auto simp: cluster_ok_def inv_tables_def inv_keyspaces_def t keeps_ok)
  qed (use new pid ids idle in \<open>auto simp: t single_add reserved_bag_def busy_bag_def\<close>)
qed

lemma edit_install_child [edit_simps]:
  "pm_keyspaces (cs_map (install_child p e ow rs i r s)) = pm_keyspaces (cs_map s)"
  "pm_by_name (cs_map (install_child p e ow rs i r s)) = pm_by_name (cs_map s)"
  "pm_version (cs_map (install_child p e ow rs i r s)) = pm_version (cs_map s)"
  "parts (install_child p e ow rs i r s) =
     bt_insert (pi_keyspace p, kr_start r)
       \<lparr>pi_id = i, pi_keyspace = pi_keyspace p, pi_range = r, pi_owner = ow, pi_epoch = e, pi_replicas = rs\<rparr>
       (parts s)"
  "cs_keyspaces (install_child p e ow rs i r s) = cs_keyspaces s"
  "cs_phases (install_child p e ow rs i r s) = bt_insert i (phase_for ow) (cs_phases s)"
  "cs_nodes (install_child p e ow rs i r s) = cs_nodes s"
  "cs_pending_splits (install_child p e ow rs i r s) = cs_pending_splits s"
  "cs_pending_merges (install_child p e ow rs i r s) = cs_pending_merges s"
  "cs_next_partition_id (install_child p e ow rs i r s) = cs_next_partition_id s"
  "cs_version (install_child p e ow rs i r s) = cs_version s"
  "cs_version_initialized (install_child p e ow rs i r s) = cs_version_initialized s"
  by (simp_all add: install_child_def edit_simps)

lemma max_succ_greater:
  fixes n :: u64
  assumes "a \<noteq> -1" "b \<noteq> -1"
  shows "n \<le> max (max n (a + 1)) (b + 1)" "a < max (max n (a + 1)) (b + 1)" "b < max (max n (a + 1)) (b + 1)"
  using word_less_succ[OF assms(1)] word_less_succ[OF assms(2)] by (auto simp: less_max_iff_disj le_max_iff_disj)

text \<open>Both forms of a split install two children with owners and replicas of their choice.\<close>

lemma install_children_ok:
  assumes ok: "cluster_ok s" and p: "p \<in> live s"
    and sp: "split_at (pi_range p) at = Some (lo, hi)"
    and new: "a \<notin># id_bag s" "b \<notin># id_bag s" "a \<noteq> b" "a \<noteq> -1" "b \<noteq> -1"
    and idle: "pi_id p \<notin># busy_bag s"
    and s1: "s1 = s\<lparr>cs_map := remove_partition (pi_keyspace p) (kr_start (pi_range p)) (cs_map s)\<rparr>"
    and s3: "s3 = install_child p e ob rb b hi (install_child p e oa ra a lo s1)"
  shows "cluster_ok (reserve_ids a b (s3\<lparr>cs_phases := bt_remove (pi_id p) (cs_phases s3)\<rparr>))"
    (is "cluster_ok ?t")
proof -
  let ?a = "\<lparr>pi_id = a, pi_keyspace = pi_keyspace p, pi_range = lo, pi_owner = oa, pi_epoch = e, pi_replicas = ra\<rparr>"
  let ?b = "\<lparr>pi_id = b, pi_keyspace = pi_keyspace p, pi_range = hi, pi_owner = ob, pi_epoch = e, pi_replicas = rb\<rparr>"
  show ?thesis
    by (rule cluster_ok_split_swap[OF ok p, of at ?a ?b])
      (use sp new idle in \<open>simp_all add: s3 s1 edit_simps max_succ_greater\<close>)
qed

lemma begin_state_busy:
  assumes "cluster_ok s" "\<not> is_splitting s i" "\<not> is_merging s i"
  shows "i \<notin># busy_bag s"
  using assms by (simp add: busy_bag_set)

lemma no_pending_below_0_1:
  assumes "cluster_ok s" "\<not> (cs_version_initialized s \<and> protocol_0_1 \<le> cs_version s)"
  shows "cs_pending_splits s = []" "cs_pending_merges s = []"
  using assms by (auto simp: cluster_ok_def inv_pending_def)

lemma split_partition_ok:
  assumes ok: "cluster_ok s" and old: "\<not> (cs_version_initialized s \<and> protocol_0_1 \<le> cs_version s)"
    and ids: "lower \<noteq> upper" "lower \<noteq> -1" "upper \<noteq> -1"
  shows "cluster_ok (fst (split_partition s i at lower upper e))"
proof -
  note none = no_pending_below_0_1[OF ok old]
  have bags: "busy_bag s = {#}" "set_mset (id_bag s) = pi_id ` live s"
    by (simp_all add: busy_bag_def none id_bag_def reserved_bag_def live_bag_set)
  have "cluster_ok (reserve_ids lower upper (s3\<lparr>cs_phases := bt_remove i (cs_phases s3)\<rparr>))"
    if "check_epoch s i e = Inr p" "\<not> bt_contains (cs_phases s) lower" "\<not> bt_contains (cs_phases s) upper"
      "split_at (pi_range p) at = Some (lo, hi)"
      "s1 = s\<lparr>cs_map := remove_partition (pi_keyspace p) (kr_start (pi_range p)) (cs_map s)\<rparr>"
      "s3 = install_child p ep ob rb upper hi (install_child p ep oa ra lower lo s1)"
    for p lo hi s1 s3 ep oa ra ob rb
  proof -
    have p: "p \<in> live s" and i: "i = pi_id p" using that by (auto dest: check_epoch_live)
    show ?thesis
      unfolding i by (rule install_children_ok[OF ok p that(4) _ _ ids _ that(5,6)])
        (use that(2,3) bags phase_id_iff[OF ok] in simp_all)
  qed
  then show ?thesis
    unfolding split_partition_def Let_def using ok by (auto intro!: keep_attempt split: option.split)
qed

lemma pending_split_bags:
  assumes ok: "cluster_ok s" and sp: "(i, sp) \<in> set (cs_pending_splits s)"
  defines "t \<equiv> s\<lparr>cs_pending_splits := bt_remove i (cs_pending_splits s)\<rparr>"
  shows "id_bag s = add_mset (sp_lower sp) (add_mset (sp_upper sp) (id_bag t))"
    "busy_bag s = add_mset i (busy_bag t)"
  using mset_bt_remove[OF cluster_okD(4)[OF ok] sp]
  by (simp_all add: t_def id_bag_def reserved_bag_def live_bag_def busy_bag_def)

lemma below_next_neq: "(i::u64) < n \<Longrightarrow> i \<noteq> -1"
  by (metis word_not_simps(3))

lemma complete_split_ok:
  assumes ok: "cluster_ok s"
  shows "cluster_ok (fst (complete_split s i e))"
proof -
  have "cluster_ok (reserve_ids (sp_lower sp) (sp_upper sp) (s3\<lparr>cs_phases := bt_remove i (cs_phases s3)\<rparr>))"
    if c: "check_epoch s i e = Inr p" and get: "bt_get (cs_pending_splits s) i = Some sp"
      and at: "split_at (pi_range p) (sp_at sp) = Some (lo, hi)"
      and s1: "s1 = s\<lparr>cs_pending_splits := bt_remove i (cs_pending_splits s),
         cs_map := remove_partition (pi_keyspace p) (kr_start (pi_range p)) (cs_map s)\<rparr>"
      and s3: "s3 = place_child p ep pr (sp_upper sp) hi (place_child p ep pr (sp_lower sp) lo s1)"
    for p sp lo hi s1 s3 ep pr
  proof -
    let ?t = "s\<lparr>cs_pending_splits := bt_remove i (cs_pending_splits s)\<rparr>"
    have p: "p \<in> live ?t" and i: "i = pi_id p" using c by (auto dest: check_epoch_live)
    have sp: "(i, sp) \<in> set (cs_pending_splits s)" using get by (rule map_of_SomeD)
    note bags = pending_split_bags[OF ok sp]
    have "sp_lower sp \<noteq> -1" "sp_upper sp \<noteq> -1"
      using id_below_next[OF ok, of "sp_lower sp"] id_below_next[OF ok, of "sp_upper sp"] bags(1)
      by (auto dest: below_next_neq)
    moreover have "sp_lower sp \<notin># id_bag ?t" "sp_upper sp \<notin># id_bag ?t" "sp_lower sp \<noteq> sp_upper sp"
      using cluster_okD(6)[OF ok] unfolding bags by (auto simp: single_add)
    moreover have "i \<notin># busy_bag ?t" using cluster_okD(7)[OF ok] unfolding bags by (simp add: single_add)
    ultimately show ?thesis
      unfolding i s3 place_child_def Let_def
      by (intro install_children_ok[OF cluster_ok_drop_split[OF ok] _ at _ _ _ _ _ _ _ refl])
        (use p i in \<open>simp_all add: s1\<close>)
  qed
  then show ?thesis
    unfolding complete_split_def Let_def using ok by (auto intro!: keep_attempt split: option.split)
qed

lemma begin_split_ok:
  assumes ok: "cluster_ok s" and ver: "cs_version_initialized s" "protocol_0_1 \<le> cs_version s"
    and ids: "lower \<noteq> -1" "upper \<noteq> -1"
  shows "cluster_ok (fst (begin_split s i at lower upper e))"
proof -
  have "cluster_ok (u\<lparr>cs_pending_splits := bt_insert i sp (cs_pending_splits u)\<rparr>)" (is "cluster_ok ?t")
    if c: "check_epoch s i e = Inr p" and idle: "\<not> bt_contains (cs_pending_splits s) i" "\<not> is_merging s i"
      and owner: "pi_owner p = Some ow" and lu: "lower \<noteq> upper" "\<not> child_id_in_use s lower" "\<not> child_id_in_use s upper"
      and at: "split_at (pi_range p) at = Some r"
      and u: "u = bump_map_version (reserve_ids lower upper s)"
      and sp: "sp_at sp = at" "sp_lower sp = lower" "sp_upper sp = upper"
    for p ow r u sp
  proof -
    have p: "p \<in> live s" and i: "i = pi_id p" using c by (auto dest: check_epoch_live)
    have get: "cs_pending_splits u = cs_pending_splits s" by (simp add: u edit_simps)
    have "mset (bt_insert i sp (cs_pending_splits s)) = add_mset (i, sp) (mset (cs_pending_splits s))"
      using idle(1) mset_bt_insert[OF cluster_okD(4)[OF ok], of i sp] bt_remove_absent[of i "cs_pending_splits s"]
      by (simp add: bt_contains_iff)
    then have bags: "id_bag ?t = add_mset lower (add_mset upper (id_bag s))" "busy_bag ?t = add_mset i (busy_bag s)"
      by (simp_all add: id_bag_def reserved_bag_def live_bag_def busy_bag_def get sp u edit_simps)
    have live: "live ?t = live s" by (simp add: live_def u edit_simps)
    have set: "set (cs_pending_splits ?t) = insert (i, sp) (set (cs_pending_splits s))"
      using idle(1) by (auto simp: set_bt_insert[OF cluster_okD(4)[OF ok]] get bt_contains_iff)
    have "inv_ids ?t"
      using ok lu child_id_in_use_iff[OF ok] max_succ_greater[OF ids, of "cs_next_partition_id s"]
      unfolding inv_ids_def bags by (auto simp: cluster_ok_def inv_ids_def single_add u edit_simps intro: order_less_le_trans)
    moreover have "inv_pending ?t"
    proof -
      have "i \<notin># busy_bag s" using idle by (simp add: busy_bag_set is_splitting_def)
      moreover have "split_ok ?t i sp"
        unfolding split_ok_def live using p i owner at sp by (intro bexI[of _ p]) simp_all
      ultimately show ?thesis
        using ok ver unfolding inv_pending_def bags set
        by (auto simp: cluster_ok_def inv_pending_def single_add u edit_simps split_ok_def merge_ok_def live_def)
    qed
    ultimately show ?thesis
      using ok by (auto simp: cluster_ok_def inv_tables_def inv_keyspaces_def inv_coverage_def inv_phases_def live_def
          u edit_simps keeps_ok)
  qed
  then show ?thesis
    unfolding begin_split_def Let_def using ok by (auto intro!: keep_attempt split: option.split)
qed

text \<open>Rewriting a value under a key that is present keeps everything that depends on ids alone.\<close>

lemma mset_bt_update:
  assumes "bt_ok m" "bt_get m k = Some v"
  shows "mset (bt_insert k w m) = add_mset (k, w) (mset (bt_remove k m))"
    "mset m = add_mset (k, v) (mset (bt_remove k m))"
  using mset_bt_insert[OF assms(1)] mset_bt_remove[OF assms(1) map_of_SomeD[OF assms(2)]] by simp_all

lemma mark_split_prepared_ok:
  assumes ok: "cluster_ok s"
  shows "cluster_ok (fst (mark_split_prepared s i node e))"
proof -
  have "cluster_ok (s\<lparr>cs_pending_splits := bt_insert i (sp\<lparr>sp_prepared := x\<rparr>) (cs_pending_splits s)\<rparr>)" (is "cluster_ok ?t")
    if get: "bt_get (cs_pending_splits s) i = Some sp" for sp x
  proof -
    note up = mset_bt_update[OF cluster_okD(4)[OF ok] get]
    have bags: "id_bag ?t = id_bag s" "busy_bag ?t = busy_bag s"
      using up(1)[of "sp\<lparr>sp_prepared := x\<rparr>"] up(2)
      by (simp_all add: id_bag_def reserved_bag_def live_bag_def busy_bag_def)
    have "split_ok s i sp" using pending_split_ok[OF ok map_of_SomeD[OF get]] .
    then have "\<forall>(q, y)\<in>set (cs_pending_splits ?t). split_ok ?t q y"
      using ok by (auto simp: set_bt_insert[OF cluster_okD(4)[OF ok]] cluster_ok_def inv_pending_def split_ok_def)
    then have "inv_pending ?t"
      using ok get unfolding inv_pending_def bags
      by (auto simp: cluster_ok_def inv_pending_def merge_ok_def)
    then show ?thesis
      using ok by (auto simp: cluster_ok_def inv_tables_def inv_keyspaces_def inv_coverage_def inv_phases_def
          inv_ids_def bags keeps_ok)
  qed
  then show ?thesis
    unfolding mark_split_prepared_def using ok by (auto intro!: keep_attempt split: option.split)
qed

lemma abort_split_ok:
  assumes ok: "cluster_ok s"
  shows "cluster_ok (fst (abort_split s i e))"
proof -
  have "cluster_ok (replace_partition (s\<lparr>cs_pending_splits := bt_remove i (cs_pending_splits s)\<rparr>) (bump_epoch p))"
    if c: "check_epoch s i e = Inr p" and sp: "bt_contains (cs_pending_splits s) i" for p
  proof -
    have p: "p \<in> live s" and i: "i = pi_id p" using c by (auto dest: check_epoch_live)
    have "\<not> is_merging s i"
    proof
      assume "is_merging s i"
      then obtain q m where "(q, m) \<in> set (cs_pending_merges s)" "merge_touches i m"
        using not_merging[of s i] by blast
      then show False using merge_alone(2)[OF ok] sp by (auto simp: is_splitting_def)
    qed
    then show ?thesis
      using i by (intro cluster_ok_replace[OF cluster_ok_drop_split[OF ok], of p]) (simp_all add: p is_merging_def)
  qed
  then show ?thesis unfolding abort_split_def using ok by (auto intro!: keep_attempt)
qed

section \<open>Merges\<close>

lemma begin_merge_ok:
  assumes ok: "cluster_ok s" and ver: "cs_version_initialized s" "protocol_0_1 \<le> cs_version s"
    and id: "mg_merged g \<noteq> -1"
  shows "cluster_ok (fst (begin_merge s g))"
proof -
  have "cluster_ok (s\<lparr>cs_next_partition_id := max (cs_next_partition_id s) (mg_merged g + 1),
      cs_pending_merges := bt_insert (mg_lower g) m (cs_pending_merges s)\<rparr>)" (is "cluster_ok ?t")
    if ids: "mg_lower g \<noteq> mg_upper g"
      and c: "check_epoch s (mg_lower g) (mg_lower_epoch g) = Inr l" "check_epoch s (mg_upper g) (mg_upper_epoch g) = Inr u"
      and ks: "pi_keyspace l = pi_keyspace u" and rng: "merge_ranges (pi_range l) (pi_range u) = Some (mg_range g)"
      and ow: "Some ow = pi_owner u" "pi_owner l = pi_owner u" "pi_replicas l = pi_replicas u"
      and idle: "\<not> is_splitting s (pi_id l)" "\<not> is_splitting s (pi_id u)" "\<not> is_merging s (pi_id l)" "\<not> is_merging s (pi_id u)"
      and new: "\<not> child_id_in_use s (mg_merged g)" and m: "me_generation m = g"
    for l u ow m
  proof -
    have lu: "l \<in> live s" "u \<in> live s" "pi_id l = mg_lower g" "pi_id u = mg_upper g"
      "pi_epoch l = mg_lower_epoch g" "pi_epoch u = mg_upper_epoch g"
      using c by (auto dest: check_epoch_live)
    have "mg_lower g \<notin> fst ` set (cs_pending_merges s)"
      using idle(3) pending_merge_ok[OF ok] lu(3) by (force simp: not_merging merge_touches_def)
    then have ins: "mset (bt_insert (mg_lower g) m (cs_pending_merges s)) = add_mset (mg_lower g, m) (mset (cs_pending_merges s))"
      and set: "set (cs_pending_merges ?t) = insert (mg_lower g, m) (set (cs_pending_merges s))"
      by (auto simp: mset_bt_insert cluster_okD(5)[OF ok] bt_remove_absent set_bt_insert image_iff)
    have bags: "id_bag ?t = add_mset (mg_merged g) (id_bag s)"
      "busy_bag ?t = add_mset (mg_lower g) (add_mset (mg_upper g) (busy_bag s))"
      using ins by (simp_all add: id_bag_def reserved_bag_def live_bag_def busy_bag_def m)
    have live: "live ?t = live s" by (simp add: live_def)
    have "inv_ids ?t"
      using ok new child_id_in_use_iff[OF ok] word_less_succ[OF id]
      unfolding inv_ids_def bags by (auto simp: cluster_ok_def inv_ids_def single_add less_max_iff_disj)
    moreover have "inv_pending ?t"
    proof -
      have "merge_ok ?t g" unfolding merge_ok_def live using lu ks rng ow(2,3) ow(1)[symmetric] by (intro bexI[of _ l] bexI[of _ u]) simp_all
      moreover have "single (busy_bag ?t)"
        using cluster_okD(7)[OF ok] idle ids lu unfolding bags by (auto simp: single_add busy_bag_set)
      ultimately show ?thesis
        using ok ver m unfolding inv_pending_def set
        by (auto simp: cluster_ok_def inv_pending_def split_ok_def merge_ok_def live_def)
    qed
    ultimately show ?thesis
      using ok by (auto simp: cluster_ok_def inv_tables_def inv_keyspaces_def inv_coverage_def inv_phases_def live_def keeps_ok)
  qed
  then show ?thesis
    unfolding begin_merge_def Let_def using ok by (auto intro!: keep_attempt split: option.split)
qed

lemma find_pending_merge_ok:
  "find_pending_merge s g = Inr m \<longleftrightarrow> bt_get (cs_pending_merges s) (mg_lower g) = Some m \<and> me_generation m = g"
  by (auto simp: find_pending_merge_def split: option.splits if_splits)

lemma mark_merge_prepared_ok:
  assumes ok: "cluster_ok s"
  shows "cluster_ok (fst (mark_merge_prepared s g node))"
proof -
  have "cluster_ok (s\<lparr>cs_pending_merges := bt_insert (mg_lower g) (m\<lparr>me_prepared := x\<rparr>) (cs_pending_merges s)\<rparr>)" (is "cluster_ok ?t")
    if "find_pending_merge s g = Inr m" for m x
  proof -
    have get: "bt_get (cs_pending_merges s) (mg_lower g) = Some m" and g: "me_generation m = g"
      using that by (simp_all add: find_pending_merge_ok)
    note up = mset_bt_update[OF cluster_okD(5)[OF ok] get]
    have bags: "id_bag ?t = id_bag s" "busy_bag ?t = busy_bag s"
      using up(1)[of "m\<lparr>me_prepared := x\<rparr>"] up(2)
      by (simp_all add: id_bag_def reserved_bag_def live_bag_def busy_bag_def)
    have live: "live ?t = live s" by (simp add: live_def)
    have "merge_ok s g" using pending_merge_ok[OF ok map_of_SomeD[OF get]] g by simp
    then have "\<forall>(q, y)\<in>set (cs_pending_merges ?t). q = mg_lower (me_generation y) \<and> merge_ok ?t (me_generation y)"
      using ok g by (auto simp: set_bt_insert[OF cluster_okD(5)[OF ok]] cluster_ok_def inv_pending_def merge_ok_def live)
    then have "inv_pending ?t"
      using ok get unfolding inv_pending_def bags
      by (auto simp: cluster_ok_def inv_pending_def split_ok_def live)
    then show ?thesis
      using ok by (auto simp: cluster_ok_def inv_tables_def inv_keyspaces_def inv_coverage_def inv_phases_def live
          inv_ids_def bags keeps_ok)
  qed
  then show ?thesis
    unfolding mark_merge_prepared_def using ok by (auto intro!: keep_attempt)
qed

lemma abort_merge_ok:
  assumes ok: "cluster_ok s"
  shows "cluster_ok (fst (abort_merge s g))"
proof -
  have "cluster_ok (replace_partition (replace_partition t (bump_epoch l)) (bump_epoch u))"
    if "find_pending_merge s g = Inr m" and c: "check_epoch s (mg_lower g) (mg_lower_epoch g) = Inr l"
      "check_epoch s (mg_upper g) (mg_upper_epoch g) = Inr u"
      and t: "t = s\<lparr>cs_pending_merges := bt_remove (mg_lower g) (cs_pending_merges s)\<rparr>" for m l u t
  proof -
    have m: "(mg_lower g, m) \<in> set (cs_pending_merges s)" and g: "me_generation m = g"
      using that by (auto simp: find_pending_merge_ok dest: map_of_SomeD)
    have lu: "l \<in> live s" "u \<in> live s" "pi_id l = mg_lower g" "pi_id u = mg_upper g"
      using c by (auto dest: check_epoch_live)
    have "mg_lower g \<noteq> mg_upper g"
      using cluster_okD(7)[OF ok] unfolding busy_bag_merge[OF cluster_okD(5)[OF ok] m] g by (simp add: single_add)
    then have ne: "u \<noteq> l" using lu by auto
    have tok: "cluster_ok t" "l \<in> live t" "u \<in> live t"
      using cluster_ok_drop_merge[OF ok] lu by (simp_all add: t live_def)
    have idle: "\<not> is_merging t (pi_id l)" "\<not> is_merging t (pi_id u)"
      using merge_alone(1)[OF ok m] lu g by (simp_all add: t merge_touches_def)
    have 1: "cluster_ok (replace_partition t (bump_epoch l))"
      by (rule cluster_ok_replace[OF tok(1,2)]) (use idle in simp_all)
    have "u \<in> live (replace_partition t (bump_epoch l))"
      using live_replace[OF cluster_okD(1)[OF tok(1)] tok(2), of "bump_epoch l"] tok(3) ne by simp
    then show ?thesis using idle by (intro cluster_ok_replace[OF 1, of u]) simp_all
  qed
  then show ?thesis unfolding abort_merge_def Let_def using ok by (auto intro!: keep_attempt)
qed

lemma merge_swap_mset:
  assumes ok: "cluster_ok s" and lu: "l \<in> live s" "u \<in> live s"
    and ks: "pi_keyspace u = pi_keyspace l" "pi_keyspace x = pi_keyspace l"
    and rng: "merge_ranges (pi_range l) (pi_range u) = Some (pi_range x)"
  defines "r \<equiv> bt_remove (key_of u) (bt_remove (key_of l) (parts s))"
  shows "mset (parts s) = {#(key_of l, l), (key_of u, u)#} + mset r"
    "mset (bt_insert (key_of x) x r) = {#(key_of l, x)#} + mset r"
proof -
  note tab = cluster_okD(1)[OF ok]
  note bt = table_okD[OF tab]
  have e: "(key_of l, l) \<in> set (parts s)" "(key_of u, u) \<in> set (parts s)" using live_entry[OF tab] lu by blast+
  have okl: "kr_ok (pi_range l)" using table_entry[OF tab] e by blast
  have kx: "key_of x = key_of l" and ne: "key_of u \<noteq> key_of l"
    using rng ks okl by (auto simp: merge_ranges_Some kr_ok_def)
  have bts: "bt_ok (bt_remove (key_of l) (parts s))" "bt_ok r" using bt by (simp_all add: keeps_ok r_def)
  have "(key_of u, u) \<in> set (bt_remove (key_of l) (parts s))" using e ne by (simp add: set_bt_remove)
  then show "mset (parts s) = {#(key_of l, l), (key_of u, u)#} + mset r"
    using mset_bt_remove[OF bt e(1)] mset_bt_remove[OF bts(1)] by (simp add: r_def)
  have "bt_remove (key_of l) r = r" by (simp add: r_def bt_remove_def conj_commute conj_left_commute)
  then show "mset (bt_insert (key_of x) x r) = {#(key_of l, x)#} + mset r"
    unfolding kx mset_bt_insert[OF bts(2)] by simp
qed

lemma cluster_ok_merge_swap:
  assumes ok: "cluster_ok s" and lu: "l \<in> live s" "u \<in> live s"
    and ks: "pi_keyspace u = pi_keyspace l" "pi_keyspace x = pi_keyspace l"
    and rng: "merge_ranges (pi_range l) (pi_range u) = Some (pi_range x)"
    and new: "pi_id x \<notin># id_bag s" "pi_id x < cs_next_partition_id s"
    and idle: "pi_id l \<notin># busy_bag s" "pi_id u \<notin># busy_bag s" and ow: "pi_owner x \<noteq> None"
  defines "t \<equiv> s\<lparr>cs_map := insert_partition x (remove_partition (pi_keyspace u) (kr_start (pi_range u))
      (remove_partition (pi_keyspace l) (kr_start (pi_range l)) (cs_map s))),
    cs_phases := bt_insert (pi_id x) Serving (bt_remove (pi_id u) (bt_remove (pi_id l) (cs_phases s)))\<rparr>"
  shows "cluster_ok t"
proof -
  note tab = cluster_okD(1)[OF ok]
  note bt = table_okD[OF tab]
  have e: "(key_of l, l) \<in> set (parts s)" "(key_of u, u) \<in> set (parts s)" using live_entry[OF tab] lu by blast+
  have okl: "kr_ok (pi_range l)" and oku: "kr_ok (pi_range u)" using table_entry[OF tab] e by blast+
  have okx: "kr_ok (pi_range x)" using rng unfolding merge_ranges_Some by blast
  have parts_t: "parts t = bt_insert (key_of x) x (bt_remove (key_of u) (bt_remove (key_of l) (parts s)))"
    by (simp add: t_def edit_simps)
  note ps = merge_swap_mset(1)[OF ok lu ks rng] and pt = merge_swap_mset(2)[OF ok lu ks rng, folded parts_t]
  have "table_keyspaces (parts t) = table_keyspaces (parts s)"
  proof -
    have "table_keyspaces (parts y) = (fst \<circ> fst) ` set_mset (mset (parts y))" for y
      by (simp add: table_keyspaces_def)
    from this[of s] this[of t] ks show ?thesis unfolding ps pt by auto
  qed
  then have cov: "inv_coverage t"
    using ok key_hits_merge[OF tab e rng ks]
    by (simp add: cluster_ok_def inv_coverage_def exactly_covered_def t_def edit_simps)
  have pid: "pi_id x \<noteq> pi_id l" "pi_id x \<noteq> pi_id u" using live_id[of _ s] lu new by auto
  show ?thesis
  proof (rule cluster_ok_swap[OF ok _ _ cov ps pt])
    show "inv_tables t" "inv_keyspaces t"
      using ok okx tab by (auto simp: cluster_ok_def inv_tables_def inv_keyspaces_def t_def edit_simps keeps_ok)
    show "reserved_bag t \<subseteq># reserved_bag s" "busy_bag t \<subseteq># busy_bag s"
      by (simp_all add: reserved_bag_def busy_bag_def t_def)
    have busy: "busy_bag t = busy_bag s" by (simp add: t_def busy_bag_def)
    show "pi_id (snd e) \<notin># busy_bag t" if "e \<in># {#(key_of l, l), (key_of u, u)#}" for e
      unfolding busy using that idle by auto
    show "bt_get (cs_phases t) (pi_id (snd e)) = Some (phase_for (pi_owner (snd e)))" if "e \<in># {#(key_of l, x)#}" for e
      using that ow by (simp add: t_def phase_for_def)
    show "pi_id (snd e) \<notin># id_bag s \<and> pi_id (snd e) < cs_next_partition_id t" if "e \<in># {#(key_of l, x)#}" for e
      using that new by (simp add: t_def)
  qed (use pid in \<open>auto simp: t_def single_add\<close>)
qed

lemma pending_merge_bags:
  assumes ok: "cluster_ok s" and m: "(q, m) \<in> set (cs_pending_merges s)"
  defines "t \<equiv> s\<lparr>cs_pending_merges := bt_remove q (cs_pending_merges s)\<rparr>"
  shows "id_bag s = add_mset (mg_merged (me_generation m)) (id_bag t)"
    "busy_bag s = add_mset (mg_lower (me_generation m)) (add_mset (mg_upper (me_generation m)) (busy_bag t))"
  using mset_bt_remove[OF cluster_okD(5)[OF ok] m]
  by (simp_all add: t_def id_bag_def reserved_bag_def live_bag_def busy_bag_def)

lemma complete_merge_ok:
  assumes ok: "cluster_ok s"
  shows "cluster_ok (fst (complete_merge s g))"
proof -
  have "cluster_ok (s\<lparr>cs_pending_merges := bt_remove (mg_lower g) (cs_pending_merges s),
      cs_map := insert_partition x (remove_partition (pi_keyspace u) (kr_start (pi_range u))
        (remove_partition (pi_keyspace l) (kr_start (pi_range l)) (cs_map s))),
      cs_phases := bt_insert (mg_merged g) Serving (bt_remove (pi_id u) (bt_remove (pi_id l) (cs_phases s)))\<rparr>)"
    if "find_pending_merge s g = Inr m" and c: "check_epoch s (mg_lower g) (mg_lower_epoch g) = Inr l"
      "check_epoch s (mg_upper g) (mg_upper_epoch g) = Inr u"
      and rng: "merge_ranges (pi_range l) (pi_range u) = Some (mg_range g)"
      and x: "pi_id x = mg_merged g" "pi_keyspace x = pi_keyspace l" "pi_range x = mg_range g" "pi_owner x = pi_owner u"
    for m l u x
  proof -
    have m: "(mg_lower g, m) \<in> set (cs_pending_merges s)" and g: "me_generation m = g"
      using that by (auto simp: find_pending_merge_ok dest: map_of_SomeD)
    let ?t = "s\<lparr>cs_pending_merges := bt_remove (mg_lower g) (cs_pending_merges s)\<rparr>"
    have lu: "l \<in> live s" "u \<in> live s" "pi_id l = mg_lower g" "pi_id u = mg_upper g"
      using c by (auto dest: check_epoch_live)
    note bags = pending_merge_bags[OF ok m, unfolded g]
    obtain l' u' where lu': "l' \<in> live s" "u' \<in> live s" "pi_id l' = mg_lower g" "pi_id u' = mg_upper g"
        "pi_keyspace l' = pi_keyspace u'" "pi_owner u' \<noteq> None"
      using pending_merge_ok[OF ok m] unfolding g merge_ok_def by metis
    then have "l' = l" "u' = u" using live_unique[OF ok] lu by metis+
    then have "pi_keyspace u = pi_keyspace l" "pi_owner x \<noteq> None" using lu' x by simp_all
    moreover have "mg_merged g \<notin># id_bag ?t" "mg_merged g < cs_next_partition_id s"
      using cluster_okD(6)[OF ok] id_below_next[OF ok, of "mg_merged g"] unfolding bags by (auto simp: single_add)
    moreover have "pi_id l \<notin># busy_bag ?t" "pi_id u \<notin># busy_bag ?t"
      using cluster_okD(7)[OF ok] lu unfolding bags by (auto simp: single_add)
    moreover have "l \<in> live ?t" "u \<in> live ?t" using lu by (simp_all add: live_def)
    ultimately show ?thesis
      using cluster_ok_merge_swap[OF cluster_ok_drop_merge[OF ok], of l "mg_lower g" u x] x rng by simp
  qed
  then show ?thesis
    unfolding complete_merge_def Let_def using ok by (auto intro!: keep_attempt split: option.split)
qed

section \<open>Keyspaces\<close>

lemma info_of_simps [simp]: "ki_id (info_of k) = ks_id k" "ki_name (info_of k) = ks_name k"
  by (simp_all add: info_of_def)

lemma inv_keyspacesD:
  assumes "inv_keyspaces s"
  shows "(i, k) \<in> set (cs_keyspaces s) \<Longrightarrow> ks_id k = i"
    "(i, k) \<in> set (cs_keyspaces s) \<Longrightarrow> (j, l) \<in> set (cs_keyspaces s) \<Longrightarrow> ks_name k = ks_name l \<Longrightarrow> i = j"
    "pm_keyspaces (cs_map s) i = map_option info_of (bt_get (cs_keyspaces s) i)"
    "pm_by_name (cs_map s) n = Some i \<longleftrightarrow> (\<exists>k. (i, k) \<in> set (cs_keyspaces s) \<and> ks_name k = n)"
  using assms unfolding inv_keyspaces_def by fast+

text \<open>Filing a keyspace under its id, with a name that only its own id has.\<close>

lemma inv_keyspaces_insert:
  assumes inv: "inv_keyspaces s" and bt: "bt_ok (cs_keyspaces s)"
    and name: "\<And>j l. (j, l) \<in> set (cs_keyspaces s) \<Longrightarrow> ks_name l = ks_name k \<longleftrightarrow> j = ks_id k"
    and t: "cs_keyspaces t = bt_insert (ks_id k) k (cs_keyspaces s)"
      "pm_keyspaces (cs_map t) = (pm_keyspaces (cs_map s))(ks_id k \<mapsto> info_of k)"
      "pm_by_name (cs_map t) = (pm_by_name (cs_map s))(ks_name k \<mapsto> ks_id k)"
  shows "inv_keyspaces t"
proof -
  note old = inv_keyspacesD[OF inv]
  have set: "set (cs_keyspaces t) = insert (ks_id k, k) {e \<in> set (cs_keyspaces s). fst e \<noteq> ks_id k}"
    unfolding t by (rule set_bt_insert[OF bt])
  have "\<forall>(i, l)\<in>set (cs_keyspaces t). ks_id l = i" using old(1) by (auto simp: set)
  moreover have "\<forall>(i, l)\<in>set (cs_keyspaces t). \<forall>(j, l')\<in>set (cs_keyspaces t). ks_name l = ks_name l' \<longrightarrow> i = j"
  proof clarify
    fix i l j l'
    assume "(i, l) \<in> set (cs_keyspaces t)" "(j, l') \<in> set (cs_keyspaces t)" "ks_name l = ks_name l'"
    then show "i = j" using old(2)[of i l j l'] name[of i l] name[of j l'] by (auto simp: set)
  qed
  moreover have "\<forall>i. pm_keyspaces (cs_map t) i = map_option info_of (bt_get (cs_keyspaces t) i)"
    using old(3) by (simp add: t)
  moreover have "\<forall>n i. pm_by_name (cs_map t) n = Some i \<longleftrightarrow> (\<exists>l. (i, l) \<in> set (cs_keyspaces t) \<and> ks_name l = n)"
    using old(4) name unfolding set t(3) by auto
  ultimately show ?thesis unfolding inv_keyspaces_def by blast
qed

lemma create_keyspace_ok:
  assumes ok: "cluster_ok s" and id: "fp \<noteq> -1" "is_ok (ensure_unissued s fp) \<Longrightarrow> fp \<notin># id_bag s"
  shows "cluster_ok (fst (create_keyspace s (CreateKeyspace i name config created fp owner replicas)))"
proof -
  have "cluster_ok (s\<lparr>cs_keyspaces := bt_insert i k (cs_keyspaces s),
                    cs_next_keyspace_id := nk,
                    cs_map := insert_partition p (insert_keyspace (info_of k) (cs_map s)),
                    cs_phases := bt_insert fp (phase_for owner) (cs_phases s),
                    cs_next_partition_id := max (cs_next_partition_id s) (fp + 1)\<rparr>)" (is "cluster_ok ?t")
    if names: "\<not> list_ex (\<lambda>l. ks_name l = ks_name k) (bt_values (cs_keyspaces s))" and k: "ks_id k = i"
      and absent: "\<not> bt_contains (cs_keyspaces s) i" and un: "ensure_unissued s fp = Inr ()"
      and p: "pi_id p = fp" "pi_keyspace p = i" "pi_range p = unbounded" "pi_owner p = owner"
    for k nk p
  proof -
    note tab = cluster_okD(1)[OF ok]
    have noks: "i \<notin> table_keyspaces (parts s)"
      using absent cluster_okD(9)[OF ok] by (simp add: bt_contains_iff)
    have "key_of p \<notin> fst ` set (parts s)" using noks p(2) by (force simp: table_keyspaces_def)
    then have gone: "bt_remove (key_of p) (parts s) = parts s" by (rule bt_remove_absent)
    have pt: "parts ?t = bt_insert (key_of p) p (parts s)" by (simp add: edit_simps)
    have ps: "mset (parts ?t) = {#(key_of p, p)#} + mset (parts s)"
      unfolding pt mset_bt_insert[OF table_okD[OF tab]] gone by simp
    have new: "fp \<notin># id_bag s" using id(2) un by simp
    have ksp: "inv_keyspaces ?t"
    proof (rule inv_keyspaces_insert[of s k])
      fix j l assume "(j, l) \<in> set (cs_keyspaces s)"
      then show "ks_name l = ks_name k \<longleftrightarrow> j = ks_id k"
        using names absent k by (force simp: list_ex_iff set_bt_values bt_contains_iff)
    qed (use ok k in \<open>simp_all add: cluster_ok_def inv_tables_def edit_simps\<close>)
    have "table_keyspaces (parts ?t) = insert i (table_keyspaces (parts s))"
      unfolding pt table_keyspaces_insert[OF table_okD[OF tab]] gone using p(2) by simp
    moreover have "fst ` set (bt_insert i k (cs_keyspaces s)) = insert i (fst ` set (cs_keyspaces s))"
      by (auto simp: set_bt_insert[OF cluster_okD(2)[OF ok]])
    moreover have "key_hits (parts ?t) ks key = (if ks = i then 1 else key_hits (parts s) ks key)" for ks key
      unfolding pt using key_hits_new_keyspace[OF tab _ p(3)] noks p(2) by simp
    ultimately have cov: "inv_coverage ?t"
      using cluster_okD(8,9)[OF ok] unfolding inv_coverage_def exactly_covered_def by auto
    have "table_ok (parts ?t)" unfolding pt using tab p(3) by (intro table_ok_insert) simp_all
    then have tabs: "inv_tables ?t" using ok by (simp add: cluster_ok_def inv_tables_def edit_simps keeps_ok)
    show ?thesis
      by (rule cluster_ok_swap[OF ok tabs ksp cov, of "{#}" "mset (parts s)" "{#(key_of p, p)#}"])
        (use new p word_less_succ[OF id(1)] ps
          in \<open>simp_all add: single_add reserved_bag_def busy_bag_def less_max_iff_disj\<close>)
  qed
  then show ?thesis
    unfolding create_keyspace.simps Let_def using ok by (auto intro!: keep_attempt split: sum.split)
qed

lemma update_keyspace_ok:
  assumes ok: "cluster_ok s"
  shows "cluster_ok (fst (update_keyspace s i config))"
proof -
  have "cluster_ok (s\<lparr>cs_keyspaces := bt_insert i l (cs_keyspaces s), cs_map := insert_keyspace (info_of l) (cs_map s)\<rparr>)"
    (is "cluster_ok ?t")
    if get: "bt_get (cs_keyspaces s) i = Some k" and l: "ks_name l = ks_name k" "ks_id l = ks_id k" for k l
  proof -
    have inv: "inv_keyspaces s" using ok by (simp add: cluster_ok_def)
    have k: "(i, k) \<in> set (cs_keyspaces s)" using get by (rule map_of_SomeD)
    then have id: "ks_id k = i" using inv_keyspacesD(1)[OF inv] by blast
    have "inv_keyspaces ?t"
    proof (rule inv_keyspaces_insert[OF inv cluster_okD(2)[OF ok], of l])
      fix j m assume m: "(j, m) \<in> set (cs_keyspaces s)"
      have "j = i \<Longrightarrow> m = k" using bt_ok_unique[OF cluster_okD(2)[OF ok] k] m by blast
      then show "ks_name m = ks_name l \<longleftrightarrow> j = ks_id l"
        using inv_keyspacesD(2)[OF inv m k] l id by metis
    qed (use l id in \<open>simp_all add: edit_simps\<close>)
    moreover have "fst ` set (bt_insert i l (cs_keyspaces s)) = fst ` set (cs_keyspaces s)"
      using k by (force simp: set_bt_insert[OF cluster_okD(2)[OF ok]] image_iff)
    ultimately show ?thesis
      using ok by (simp add: cluster_ok_def inv_defs edit_simps live_def id_bag_def live_bag_def reserved_bag_def
          busy_bag_def split_ok_def merge_ok_def keeps_ok)
  qed
  then show ?thesis
    unfolding update_keyspace_def Let_def using ok by (auto split: option.split)
qed

lemma fold_bt_remove: "fold bt_remove ks m = filter (\<lambda>e. fst e \<notin> set ks) m"
  by (induction ks arbitrary: m) (auto simp: bt_remove_def conj_commute intro!: filter_cong)

lemma fold_insert_partition:
  "pm_partitions (fold insert_partition qs m) = fold (\<lambda>p acc. bt_insert (key_of p) p acc) qs (pm_partitions m)"
  "pm_keyspaces (fold insert_partition qs m) = pm_keyspaces m"
  "pm_by_name (fold insert_partition qs m) = pm_by_name m"
  "pm_version (fold insert_partition qs m) = pm_version m"
  by (induction qs arbitrary: m) (simp_all add: edit_simps)

lemma fold_insert_keyspace_other:
  "pm_partitions (fold (\<lambda>k m. insert_keyspace (info_of k) m) ks m) = pm_partitions m"
  "pm_version (fold (\<lambda>k m. insert_keyspace (info_of k) m) ks m) = pm_version m"
  by (induction ks arbitrary: m) (simp_all add: edit_simps)

lemma fold_insert_keyspace:
  "pm_keyspaces (fold (\<lambda>k m. insert_keyspace (info_of k) m) ks m) i =
     (case List.find (\<lambda>k. ks_id k = i) (rev ks) of Some k \<Rightarrow> Some (info_of k) | None \<Rightarrow> pm_keyspaces m i)"
  "pm_by_name (fold (\<lambda>k m. insert_keyspace (info_of k) m) ks m) n =
     (case List.find (\<lambda>k. ks_name k = n) (rev ks) of Some k \<Rightarrow> Some (ks_id k) | None \<Rightarrow> pm_by_name m n)"
  by (induction ks rule: rev_induct) (auto simp: edit_simps)

lemma find_unique:
  assumes "x \<in> set xs" "P x" "\<And>y. y \<in> set xs \<Longrightarrow> P y \<Longrightarrow> y = x"
  shows "List.find P xs = Some x"
proof (cases "List.find P xs")
  case None
  then show ?thesis using assms(1,2) by (auto simp: find_None_iff)
next
  case (Some y)
  then show ?thesis using find_mem[OF Some] assms(3) by blast
qed

text \<open>Filing every keyspace of a table into an empty map gives the two indices of the table.\<close>

lemma rebuilt_keyspaces:
  fixes v :: map_version
  assumes bt: "bt_ok ks" and ids: "\<And>i k. (i, k) \<in> set ks \<Longrightarrow> ks_id k = i"
    and names: "\<And>i k j l. (i, k) \<in> set ks \<Longrightarrow> (j, l) \<in> set ks \<Longrightarrow> ks_name k = ks_name l \<Longrightarrow> i = j"
  defines "m \<equiv> fold (\<lambda>k m. insert_keyspace (info_of k) m) (bt_values ks) (partition_map_new v)"
  shows "pm_keyspaces m i = map_option info_of (bt_get ks i)"
    "pm_by_name m n = Some i \<longleftrightarrow> (\<exists>k. (i, k) \<in> set ks \<and> ks_name k = n)"
proof -
  let ?vs = "rev (bt_values ks)"
  have vs: "k \<in> set ?vs \<longleftrightarrow> (ks_id k, k) \<in> set ks" for k
  proof
    assume "k \<in> set ?vs"
    then obtain j where "(j, k) \<in> set ks" by (auto simp: set_bt_values)
    then show "(ks_id k, k) \<in> set ks" using ids by metis
  qed (force simp: set_bt_values)
  have "List.find (\<lambda>k. ks_id k = i) ?vs = bt_get ks i"
  proof (cases "bt_get ks i")
    case None
    then have "List.find (\<lambda>k. ks_id k = i) ?vs = None"
      unfolding find_None_iff bt_get_None_iff using vs by (metis fst_conv image_eqI)
    then show ?thesis using None by simp
  next
    case (Some k)
    then have k: "(i, k) \<in> set ks" by (rule map_of_SomeD)
    show ?thesis
      unfolding Some
    proof (rule find_unique)
      show "k \<in> set ?vs" "ks_id k = i" using k ids[OF k] vs by metis+
      show "y = k" if "y \<in> set ?vs" "ks_id y = i" for y using that vs bt_ok_unique[OF bt k] by metis
    qed
  qed
  then show "pm_keyspaces m i = map_option info_of (bt_get ks i)"
    by (simp add: m_def fold_insert_keyspace partition_map_new_def split: option.split)
  show "pm_by_name m n = Some i \<longleftrightarrow> (\<exists>k. (i, k) \<in> set ks \<and> ks_name k = n)"
  proof (cases "List.find (\<lambda>k. ks_name k = n) ?vs")
    case None
    then have "pm_by_name m n = None" by (simp add: m_def fold_insert_keyspace partition_map_new_def)
    then show ?thesis using None vs ids by (force simp: find_None_iff)
  next
    case (Some k)
    then have k: "(ks_id k, k) \<in> set ks" "ks_name k = n" using find_mem[OF Some] vs by auto
    have "pm_by_name m n = Some (ks_id k)" using Some by (simp add: m_def fold_insert_keyspace)
    then show ?thesis using k names by auto
  qed
qed

lemma table_values_filter:
  assumes "table_ok ps"
  shows "filter (\<lambda>p. P (pi_keyspace p)) (bt_values ps) = bt_values (filter (\<lambda>e. P (fst (fst e))) ps)"
proof -
  have "fst (fst e) = pi_keyspace (snd e)" if "e \<in> set ps" for e
    using table_entry[OF assms, of "fst e" "snd e"] that by simp
  then show ?thesis by (auto simp: bt_values_def filter_map cong: filter_cong)
qed

lemma parts_rebuild_map_without:
  assumes "table_ok (parts s)"
  shows "parts (rebuild_map_without s i) = filter (\<lambda>e. fst (fst e) \<noteq> i) (parts s)"
  using table_rebuild[OF table_ok_filter[OF assms]] table_values_filter[OF assms, of "\<lambda>k. k \<noteq> i"]
  by (simp add: rebuild_map_without_def Let_def fold_insert_partition fold_insert_keyspace_other partition_map_new_def)

lemma delete_keyspace_ok:
  assumes ok: "cluster_ok s"
  shows "cluster_ok (fst (delete_keyspace s i))"
proof (cases "bt_contains (cs_keyspaces s) i")
  case False
  then show ?thesis using ok by (simp add: delete_keyspace_def)
next
  case True
  note tab = cluster_okD(1)[OF ok]
  have inv: "inv_keyspaces s" using ok by (simp add: cluster_ok_def)
  define doomed where "doomed = map pi_id (filter (\<lambda>p. pi_keyspace p = i) (bt_values (parts s)))"
  define s1 where "s1 = s\<lparr>cs_keyspaces := bt_remove i (cs_keyspaces s), cs_phases := fold bt_remove doomed (cs_phases s),
      cs_pending_splits := fold bt_remove doomed (cs_pending_splits s),
      cs_pending_merges := filter (\<lambda>(_, m). mg_lower (me_generation m) \<notin> set doomed
                                      \<and> mg_upper (me_generation m) \<notin> set doomed) (cs_pending_merges s)\<rparr>"
  define t where "t = rebuild_map_without s1 i"
  let ?In = "filter (\<lambda>e. fst (fst e) \<noteq> i) (parts s)" and ?Out = "filter (\<lambda>e. \<not> fst (fst e) \<noteq> i) (parts s)"
  have parts_t: "parts t = ?In"
    using parts_rebuild_map_without[of s1 i] tab by (simp add: t_def s1_def)
  have doomed: "set doomed = pi_id ` snd ` set ?Out"
    using table_values_filter[OF tab, of "\<lambda>k. \<not> k \<noteq> i"] by (simp add: doomed_def set_bt_values)
  have fields: "cs_keyspaces t = bt_remove i (cs_keyspaces s)" "cs_phases t = fold bt_remove doomed (cs_phases s)"
    "cs_pending_splits t = fold bt_remove doomed (cs_pending_splits s)"
    "cs_pending_merges t = cs_pending_merges s1" "cs_version t = cs_version s"
    "cs_version_initialized t = cs_version_initialized s" "cs_next_partition_id t = cs_next_partition_id s"
    by (simp_all add: t_def s1_def rebuild_map_without_def Let_def)
  have ksp: "inv_keyspaces t"
  proof -
    let ?ks = "bt_remove i (cs_keyspaces s)"
    have old: "ks_id k = j" "(j', k') \<in> set ?ks \<Longrightarrow> ks_name k = ks_name k' \<Longrightarrow> j = j'"
      if "(j, k) \<in> set ?ks" for j k j' k'
      using inv_keyspacesD(1,2)[OF inv] that by (auto simp: set_bt_remove)
    have "pm_keyspaces (cs_map t) = pm_keyspaces (fold (\<lambda>k m. insert_keyspace (info_of k) m) (bt_values ?ks) (partition_map_new (pm_version (cs_map s))))"
      "pm_by_name (cs_map t) = pm_by_name (fold (\<lambda>k m. insert_keyspace (info_of k) m) (bt_values ?ks) (partition_map_new (pm_version (cs_map s))))"
      by (simp_all add: t_def s1_def rebuild_map_without_def Let_def fold_insert_partition)
    moreover note rebuilt_keyspaces[OF bt_remove_ok[OF cluster_okD(2)[OF ok]] old]
    ultimately show ?thesis
      unfolding inv_keyspaces_def fields using old by (auto split: prod.split)
  qed
  have tabs: "inv_tables t"
    using ok by (auto simp: cluster_ok_def inv_tables_def parts_t fields fold_bt_remove s1_def keeps_ok)
  have cov: "inv_coverage t"
  proof -
    have "table_keyspaces (parts t) = table_keyspaces (parts s) - {i}"
      unfolding parts_t by (auto simp: table_keyspaces_def)
    moreover have "fst ` set (cs_keyspaces t) = fst ` set (cs_keyspaces s) - {i}"
      unfolding fields by (auto simp: set_bt_remove)
    ultimately show ?thesis
      using cluster_okD(8,9)[OF ok] by (simp add: inv_coverage_def exactly_covered_def parts_t key_hits_drop_keyspace Ball_def)
  qed
  have "mset (parts s) = mset ?Out + mset ?In" "mset (parts t) = {#} + mset ?In"
    by (simp_all add: parts_t add.commute flip: multiset_partition)
  then have "cluster_ok t"
  proof (rule cluster_ok_swap[OF ok tabs ksp cov])
    show "reserved_bag t \<subseteq># reserved_bag s" "busy_bag t \<subseteq># busy_bag s"
      by (simp_all add: reserved_bag_def busy_bag_def fields fold_bt_remove s1_def mset_filter
          image_mset_subseteq_mono subset_mset.add_mono)
    show "pi_id (snd e) \<notin># busy_bag t" if "e \<in># mset ?Out" for e
    proof -
      have "pi_id (snd e) \<in> set doomed" using that by (auto simp: doomed)
      then show ?thesis by (auto simp: busy_bag_def fields fold_bt_remove s1_def)
    qed
    show "bt_get (cs_phases t) (pi_id (snd e)) = None" if "e \<in># mset ?Out" for e
    proof -
      have "pi_id (snd e) \<in> set doomed" using that by (auto simp: doomed)
      then show ?thesis by (simp add: fields fold_bt_remove bt_get_filter_key[of "\<lambda>x. x \<notin> set doomed"])
    qed
    show "bt_get (cs_phases t) j = bt_get (cs_phases s) j" if "j \<notin># entry_ids (mset ?Out)" for j
    proof -
      have "j \<notin> set doomed" using that unfolding doomed by (simp add: image_image)
      then show ?thesis by (simp add: fields fold_bt_remove bt_get_filter_key[of "\<lambda>x. x \<notin> set doomed"])
    qed
  qed (auto simp: fields fold_bt_remove s1_def)
  then show ?thesis
    using True by (simp add: delete_keyspace_def Let_def t_def s1_def doomed_def)
qed

end
