(* ===== verification/Cluster_Run.thy ===== *)
theory Cluster_Run
  imports Cluster_Reshape
begin

text \<open>
  Runs of the control plane's state machine. \<open>well_proposed\<close> is what the invariant asks of the
  ids a proposal allocates, until protocol 0.2 a convention of the proposers; every other command
  may carry any argument whatever. \<open>evolves\<close> is
  what one command, and then any number of them, does to a partition: its keyspace and range
  stay, its epoch only grows, and within an epoch it never passes from one owner to another.
\<close>

section \<open>Proposals\<close>

fun allocates :: "control_command \<Rightarrow> partition_id list" where
  "allocates (CreateKeyspace _ _ _ _ fp _ _) = [fp]"
| "allocates (SplitPartition _ _ lower upper _) = [lower, upper]"
| "allocates (BeginSplit _ _ lower upper _) = [lower, upper]"
| "allocates (BeginMerge g) = [mg_merged g]"
| "allocates _ = []"

definition enforces_ids :: "cluster_state \<Rightarrow> bool" where
  "enforces_ids s \<longleftrightarrow> cs_version_initialized s \<and> protocol_0_2 \<le> cs_version s"

text \<open>
  From protocol 0.2 the state machine refuses an id below its counter by itself. Before that
  nothing but a convention of the proposers, who read \<open>next_partition_id\<close> first, keeps an id from
  being used twice: \<open>well_proposed\<close> states that convention, and the state machine does not
  guarantee it. The last id of the type is never proposed: the counter would wrap behind it.
\<close>

definition well_proposed :: "cluster_state \<Rightarrow> control_command \<Rightarrow> bool" where
  "well_proposed s c \<longleftrightarrow>
     (\<forall>i\<in>set (allocates c). i \<noteq> -1 \<and> (enforces_ids s \<or> cs_next_partition_id s \<le> i))
     \<and> (enforces_ids s \<or> distinct (allocates c))"

lemma ensure_unissued_ok:
  "ensure_unissued s i = Inr u \<longleftrightarrow> \<not> enforces_ids s \<or> cs_next_partition_id s \<le> i"
  by (auto simp: ensure_unissued_def enforces_ids_def)

lemma enforces_ids_0_1: "enforces_ids s \<Longrightarrow> cs_version_initialized s \<and> protocol_0_1 \<le> cs_version s"
  using protocol_0_1_le_0_2 by (auto simp: enforces_ids_def)

lemma issued_ids:
  assumes "cluster_ok s" "cs_next_partition_id s \<le> i"
  shows "i \<notin># id_bag s"
  using id_below_next[OF assms(1)] assms(2) by (meson leD)

lemma permitted:
  "ensure_command_permitted s c = Inr u \<longleftrightarrow>
     (is_split_partition c \<longrightarrow> \<not> (cs_version_initialized s \<and> protocol_0_1 \<le> cs_version s))
     \<and> (is_protocol_0_1 c \<or> is_protocol_0_2 c \<longrightarrow> cs_version_initialized s \<and> protocol_0_1 \<le> cs_version s)"
  by (cases c) (auto simp: ensure_command_permitted_def ensure_merge_permitted_def not_less)

section \<open>Every command keeps the invariant\<close>

lemma set_cluster_version_ok:
  assumes ok: "cluster_ok s"
  shows "cluster_ok (fst (set_cluster_version s v e))"
proof -
  have "cluster_ok (s\<lparr>cs_version := v, cs_version_initialized := True\<rparr>)" (is "cluster_ok ?t")
    if "v \<le> cs_version s \<longrightarrow> cs_version s = version_zero"
  proof -
    have "protocol_0_1 \<le> v" if "cs_pending_splits s \<noteq> [] \<or> cs_pending_merges s \<noteq> []"
    proof -
      have "protocol_0_1 \<le> cs_version s" using ok that by (auto simp: cluster_ok_def inv_pending_def)
      moreover then have "cs_version s \<noteq> version_zero" by (auto simp: protocol_0_1_def version_zero_def less_eq_cluster_version_def less_cluster_version_def)
      ultimately show ?thesis using \<open>v \<le> cs_version s \<longrightarrow> _\<close> by auto
    qed
    then show ?thesis
      using ok by (simp add: cluster_ok_def inv_defs live_def id_bag_def live_bag_def reserved_bag_def
          busy_bag_def split_ok_def merge_ok_def)
  qed
  then show ?thesis using ok by (auto simp: set_cluster_version_def)
qed

lemma dispatch_ok:
  assumes ok: "cluster_ok s" and wp: "well_proposed s c" and perm: "ensure_command_permitted s c = Inr ()"
  shows "cluster_ok (fst (dispatch s c))"
proof (cases c)
  case (CreateKeyspace i name config created fp owner replicas)
  have "fp \<notin># id_bag s" if "is_ok (ensure_unissued s fp)"
    using that wp issued_ids[OF ok] CreateKeyspace
    by (auto simp: is_ok_unit ensure_unissued_ok well_proposed_def)
  then show ?thesis using create_keyspace_ok[OF ok] wp CreateKeyspace by (simp add: well_proposed_def)
next
  case (SplitPartition p at lower upper e)
  have "\<not> (cs_version_initialized s \<and> protocol_0_1 \<le> cs_version s)"
    using perm SplitPartition by (simp add: permitted)
  then show ?thesis
    using split_partition_ok[OF ok] wp SplitPartition enforces_ids_0_1[of s] by (auto simp: well_proposed_def)
next
  case (BeginSplit p at lower upper e)
  then show ?thesis using begin_split_ok[OF ok] wp perm by (simp add: permitted well_proposed_def)
next
  case (BeginMerge g)
  then show ?thesis using begin_merge_ok[OF ok] wp perm by (simp add: permitted well_proposed_def)
qed (use ok in \<open>simp_all add: fence_ok complete_fence_drain_ok assign_owner_ok transfer_ownership_ok
    set_replicas_ok mark_split_prepared_ok complete_split_ok abort_split_ok mark_merge_prepared_ok
    complete_merge_ok abort_merge_ok update_keyspace_ok delete_keyspace_ok set_cluster_version_ok
    register_node_def set_health_def forget_node_def create_credential_def revoke_credential_def Let_def
    split: option.split\<close>)

lemma apply_keeps_ok: "cluster_ok s \<Longrightarrow> well_proposed s c \<Longrightarrow> cluster_ok (fst (apply_command s c))"
  unfolding apply_command_def by (rule keep_attempt) (auto intro: dispatch_ok)

section \<open>How a partition evolves\<close>

definition later :: "partition_info \<Rightarrow> partition_info \<Rightarrow> bool" where
  "later p q \<longleftrightarrow>
     pi_id q = pi_id p \<and> pi_keyspace q = pi_keyspace p \<and> pi_range q = pi_range p \<and> pi_epoch p \<le> pi_epoch q
     \<and> (pi_epoch q = pi_epoch p \<longrightarrow> pi_owner p = None \<or> pi_owner q = pi_owner p)"

text \<open>An id that no partition has had yet: reserved for a child under way, or not issued.\<close>

definition fresh_id :: "cluster_state \<Rightarrow> partition_id \<Rightarrow> bool" where
  "fresh_id s i \<longleftrightarrow> i \<in># reserved_bag s \<or> cs_next_partition_id s \<le> i"

definition evolves :: "cluster_state \<Rightarrow> cluster_state \<Rightarrow> bool" where
  "evolves s t \<longleftrightarrow>
     (\<forall>i. fresh_id t i \<longrightarrow> fresh_id s i)
     \<and> (\<forall>q\<in>live t. (\<exists>p\<in>live s. later p q) \<or> fresh_id s (pi_id q))"

definition no_wrap :: "cluster_state \<Rightarrow> bool" where
  "no_wrap s \<longleftrightarrow> (\<forall>p\<in>live s. pi_epoch p \<noteq> -1)"

lemma later_refl [simp]: "later p p"
  by (simp add: later_def)

lemma later_trans: "later p q \<Longrightarrow> later q r \<Longrightarrow> later p r"
  unfolding later_def by (metis order_antisym order_trans)

lemma evolves_refl [simp]: "evolves s s"
  unfolding evolves_def using later_refl by blast

lemma evolves_trans:
  assumes "evolves s t" "evolves t u"
  shows "evolves s u"
  unfolding evolves_def
proof (intro conjI allI impI ballI)
  show "fresh_id s i" if "fresh_id u i" for i using assms that by (simp add: evolves_def)
  fix r assume "r \<in> live u"
  then consider (old) q where "q \<in> live t" "later q r" | (new) "fresh_id t (pi_id r)"
    using assms(2) unfolding evolves_def by blast
  then show "(\<exists>p\<in>live s. later p r) \<or> fresh_id s (pi_id r)"
  proof cases
    case old
    moreover then have "pi_id r = pi_id q" by (simp add: later_def)
    moreover have "(\<exists>p\<in>live s. later p q) \<or> fresh_id s (pi_id q)" using assms(1) old unfolding evolves_def by blast
    ultimately show ?thesis using later_trans by metis
  next
    case new
    then show ?thesis using assms(1) by (simp add: evolves_def)
  qed
qed

lemma live_not_fresh:
  assumes "cluster_ok s" "p \<in> live s"
  shows "\<not> fresh_id s (pi_id p)"
proof -
  have "pi_id p \<in># live_bag s" using assms(2) by (simp add: live_bag_set)
  moreover have "single (live_bag s + reserved_bag s)" using cluster_okD(6)[OF assms(1)] by (simp add: id_bag_def)
  ultimately have "pi_id p \<notin># reserved_bag s" by (metis single_disjoint)
  then show ?thesis
    using id_below_next[OF assms(1) live_id[OF assms(2)]] by (auto simp: fresh_id_def)
qed

lemma evolves_same_id:
  assumes "cluster_ok s" "evolves s t" "p \<in> live s" "q \<in> live t" "pi_id q = pi_id p"
  shows "later p q"
proof -
  have "\<not> fresh_id s (pi_id q)" using live_not_fresh[OF assms(1,3)] assms(5) by simp
  then obtain p0 where "p0 \<in> live s" "later p0 q" using assms(2,4) by (auto simp: evolves_def)
  moreover then have "p0 = p" using live_unique[OF assms(1) _ assms(3)] assms(5) by (simp add: later_def)
  ultimately show ?thesis by simp
qed

lemma evolves_attempt:
  "evolves s u \<Longrightarrow> (\<And>x. r = Inr x \<Longrightarrow> evolves s (fst (k x))) \<Longrightarrow> evolves s (fst (attempt u r k))"
  by (cases r) auto

text \<open>The edits of the state, as steps of \<open>evolves\<close>.\<close>

lemma evolves_still:
  assumes "parts t = parts s" "reserved_bag t \<subseteq># reserved_bag s" "cs_next_partition_id s \<le> cs_next_partition_id t"
  shows "evolves s t"
proof -
  have "live t = live s" using assms(1) by (simp add: live_def)
  moreover have "fresh_id s i" if "fresh_id t i" for i
    using that mset_subset_eqD[OF assms(2)] assms(3) by (auto simp: fresh_id_def)
  ultimately show ?thesis using later_refl unfolding evolves_def by blast
qed

lemma evolves_replace:
  assumes "table_ok (parts s)" "p \<in> live s" "later p p'"
  shows "evolves s (replace_partition s p')"
proof -
  have "live (replace_partition s p') = insert p' (live s - {p})"
    using assms(3) by (intro live_replace[OF assms(1,2)]) (simp add: later_def)
  moreover have "fresh_id (replace_partition s p') = fresh_id s"
    by (simp add: fun_eq_iff fresh_id_def reserved_bag_def edit_simps)
  ultimately show ?thesis using assms(2,3) later_refl unfolding evolves_def by (metis Diff_iff insert_iff)
qed

lemma evolves_fresh:
  assumes "live t \<subseteq> live s \<union> N" "\<forall>p\<in>N. fresh_id s (pi_id p)" "reserved_bag t \<subseteq># reserved_bag s"
    "cs_next_partition_id s \<le> cs_next_partition_id t"
  shows "evolves s t"
proof -
  have "fresh_id s i" if "fresh_id t i" for i
    using that mset_subset_eqD[OF assms(3)] assms(4) by (auto simp: fresh_id_def)
  then show ?thesis using assms(1,2) later_refl unfolding evolves_def by blast
qed

lemma evolves_reserve:
  assumes "parts t = parts s" "reserved_bag t = reserved_bag s + N"
    "\<forall>i\<in>#N. cs_next_partition_id s \<le> i" "cs_next_partition_id s \<le> cs_next_partition_id t"
  shows "evolves s t"
proof -
  have "live t = live s" using assms(1) by (simp add: live_def)
  moreover have "fresh_id s i" if "fresh_id t i" for i
    using that assms(2-4) by (auto simp: fresh_id_def)
  ultimately show ?thesis using later_refl unfolding evolves_def by blast
qed

lemma later_bump: "pi_epoch p \<noteq> -1 \<Longrightarrow> later p (bump_epoch p)"
  by (simp add: later_def next_counter_def word_le_succ)

lemma later_bump_owner:
  "pi_epoch p \<noteq> -1 \<Longrightarrow> later p ((bump_epoch p)\<lparr>pi_owner := ow\<rparr>)"
  "pi_epoch p \<noteq> -1 \<Longrightarrow> later p ((bump_epoch p)\<lparr>pi_owner := ow, pi_replicas := rs\<rparr>)"
  "pi_epoch p \<noteq> -1 \<Longrightarrow> later p ((bump_epoch p)\<lparr>pi_replicas := rs\<rparr>)"
  by (simp_all add: later_def next_counter_def word_le_succ)

lemma evolves_irrelevant [simp]:
  "evolves s (bump_map_version t) = evolves s t"
  "evolves s (set_phase i ph t) = evolves s t"
  "evolves s (t\<lparr>cs_handoffs := hs\<rparr>) = evolves s t"
  "evolves s (t\<lparr>cs_phases := phs\<rparr>) = evolves s t"
  by (simp_all add: evolves_def live_def fresh_id_def reserved_bag_def edit_simps)

lemma evolves_drop_split: "evolves s (s\<lparr>cs_pending_splits := bt_remove q (cs_pending_splits s)\<rparr>)"
  by (rule evolves_still) (simp_all add: reserved_bag_def mset_bt_remove_le image_mset_subseteq_mono subset_mset.add_mono)

lemma evolves_drop_merge: "evolves s (s\<lparr>cs_pending_merges := bt_remove q (cs_pending_merges s)\<rparr>)"
  by (rule evolves_still) (simp_all add: reserved_bag_def mset_bt_remove_le image_mset_subseteq_mono subset_mset.add_mono)

lemma evolves_abort_for_change:
  assumes ok: "cluster_ok s" and nw: "no_wrap s"
  shows "evolves s (fst (abort_merge_for_parent_change s i))"
  using ok
proof (rule abort_for_change_cases[of s i])
  fix q m other
  let ?u = "s\<lparr>cs_pending_merges := bt_remove q (cs_pending_merges s)\<rparr>"
  assume o: "other \<in> live s"
    and eq: "abort_merge_for_parent_change s i = (replace_partition ?u (bump_epoch other), True)"
  have "evolves ?u (replace_partition ?u (bump_epoch other))"
    using o nw cluster_okD(1)[OF ok]
    by (intro evolves_replace[of _ other] later_bump) (simp_all add: live_def no_wrap_def)
  then show ?thesis using evolves_trans[OF evolves_drop_merge] eq by simp
qed simp

lemma evolves_replace_after:
  assumes "evolves s t" "cluster_ok t" "p \<in> live t" "later p p'"
  shows "evolves s (replace_partition t p')"
  using evolves_trans[OF assms(1)] evolves_replace[OF cluster_okD(1)[OF assms(2)] assms(3,4)] by blast

lemma fence_evolves:
  assumes ok: "cluster_ok s" and nw: "no_wrap s"
  shows "evolves s (fst (fence_partition s i e))"
proof -
  have "evolves s (replace_partition (s1\<lparr>cs_pending_splits := bt_remove i (cs_pending_splits s1)\<rparr>) p')"
    if "check_epoch s i e = Inr p" "s1 = fst (abort_merge_for_parent_change s i)" "later p p'" for p p' s1
  proof -
    have p: "p \<in> live s" and i: "i = pi_id p" using that by (auto dest: check_epoch_live)
    have s1: "cluster_ok s1" "p \<in> live s1" using abort_for_change_ok[OF ok p] that(2) i by simp_all
    have "evolves s s1" using evolves_abort_for_change[OF ok nw] that(2) by simp
    then show ?thesis
      using evolves_trans[OF _ evolves_drop_split] that(3) s1
      by (intro evolves_replace_after[OF _ cluster_ok_drop_split[OF s1(1)]]) simp_all
  qed
  moreover have "later p (q\<lparr>pi_replicas := rs\<rparr>)" "later p q"
    if "check_epoch s i e = Inr p" "q = (bump_epoch p)\<lparr>pi_owner := None\<rparr>" for p q rs
    using that nw check_epoch_live[of s i e p] by (auto simp: no_wrap_def later_bump_owner later_bump)
  ultimately show ?thesis
    unfolding fence_partition_def Let_def by (auto intro!: evolves_attempt split: option.split)
qed

lemma drain_evolves: "evolves s (fst (complete_fence_drain s i e))"
  unfolding complete_fence_drain_def
  by (auto intro!: evolves_attempt split: option.split partition_phase.split)

lemma assign_evolves:
  assumes ok: "cluster_ok s"
  shows "evolves s (fst (assign_owner s i owner replicas e))"
proof -
  have "evolves s (replace_partition s (p\<lparr>pi_owner := Some owner, pi_replicas := replicas\<rparr>))"
    if "check_epoch s i e = Inr p" "pi_owner p = None" for p
    using that check_epoch_live[of s i e p]
    by (intro evolves_replace[OF cluster_okD(1)[OF ok], of p]) (simp_all add: later_def)
  then show ?thesis unfolding assign_owner_def by (auto intro!: evolves_attempt)
qed

lemma transfer_evolves:
  assumes ok: "cluster_ok s" and nw: "no_wrap s"
  shows "evolves s (fst (transfer_ownership s i from to replicas e))"
proof -
  have "evolves s (replace_partition (fst (abort_merge_for_parent_change s i))
      ((bump_epoch p)\<lparr>pi_owner := Some to, pi_replicas := replicas\<rparr>))"
    if "check_epoch s i e = Inr p" for p
  proof -
    have p: "p \<in> live s" "i = pi_id p" using that by (auto dest: check_epoch_live)
    then show ?thesis
      using abort_for_change_ok[OF ok p(1)] evolves_abort_for_change[OF ok nw] nw
      by (intro evolves_replace_after[of _ _ p] later_bump_owner) (simp_all add: no_wrap_def)
  qed
  then show ?thesis unfolding transfer_ownership_def Let_def by (auto intro!: evolves_attempt)
qed

lemma set_replicas_evolves:
  assumes ok: "cluster_ok s" and nw: "no_wrap s"
  shows "evolves s (fst (set_replicas s i replicas e))"
proof -
  define s1 where "s1 = s\<lparr>cs_pending_splits := bt_remove i (cs_pending_splits s)\<rparr>"
  obtain s2 ab where s2: "abort_merge_for_parent_change s1 i = (s2, ab)" by (cases "abort_merge_for_parent_change s1 i")
  have s1: "cluster_ok s1" "no_wrap s1" "evolves s s1"
    using cluster_ok_drop_split[OF ok] nw evolves_drop_split by (simp_all add: s1_def no_wrap_def)
  then have e2: "evolves s s2" using evolves_trans evolves_abort_for_change[OF s1(1,2), of i] s2 by fastforce
  have "evolves s (replace_partition s2 p')" if "check_epoch s i e = Inr p" "later p p'" for p p'
  proof -
    have p: "p \<in> live s1" "i = pi_id p" using that by (auto dest: check_epoch_live simp: s1_def)
    then show ?thesis using abort_for_change_ok[OF s1(1) p(1)] s2 e2 that(2)
      by (intro evolves_replace_after[of _ _ p]) simp_all
  qed
  moreover have "later p ((bump_epoch p)\<lparr>pi_replicas := replicas\<rparr>)" "later p (p\<lparr>pi_replicas := replicas\<rparr>)"
    if "check_epoch s i e = Inr p" for p
    using that nw check_epoch_live[of s i e p] by (auto simp: no_wrap_def later_bump_owner) (simp add: later_def)
  ultimately show ?thesis
    unfolding set_replicas_def Let_def s1_def[symmetric] s2
    using e2 by (auto intro!: evolves_attempt split: option.split)
qed

lemma live_install_child:
  "live (install_child p e ow rs i r s) \<subseteq> live s \<union> {q. pi_id q = i}"
proof -
  let ?c = "\<lparr>pi_id = i, pi_keyspace = pi_keyspace p, pi_range = r, pi_owner = ow, pi_epoch = e, pi_replicas = rs\<rparr>"
  have "set (parts (install_child p e ow rs i r s)) \<subseteq> insert (key_of ?c, ?c) (set (parts s))"
    unfolding edit_simps using set_bt_insert_subset[of "key_of ?c" ?c "parts s"] by simp
  then show ?thesis by (fastforce simp: live_def set_bt_values)
qed

lemma install_children_evolves:
  assumes s1: "live s1 \<subseteq> live s" "reserved_bag s1 \<subseteq># reserved_bag s" "cs_next_partition_id s1 = cs_next_partition_id s"
    and new: "fresh_id s a" "fresh_id s b"
  shows "evolves s (reserve_ids a b ((install_child p e ob rb b hi (install_child p e oa ra a lo s1))\<lparr>cs_phases := phs\<rparr>))"
    (is "evolves s ?t")
proof (rule evolves_fresh[of _ _ "{q. pi_id q = a \<or> pi_id q = b}"])
  have "live ?t \<subseteq> live (install_child p e ob rb b hi (install_child p e oa ra a lo s1))"
    by (simp add: live_def reserve_ids_def)
  then show "live ?t \<subseteq> live s \<union> {q. pi_id q = a \<or> pi_id q = b}"
    using live_install_child[of p e ob rb b hi "install_child p e oa ra a lo s1"]
      live_install_child[of p e oa ra a lo s1] s1(1) by blast
  show "reserved_bag ?t \<subseteq># reserved_bag s"
    using s1(2) by (simp add: reserved_bag_def edit_simps)
  show "cs_next_partition_id s \<le> cs_next_partition_id ?t"
    by (simp add: edit_simps s1(3) le_max_iff_disj)
qed (use new in auto)

lemma live_remove_partition:
  "live (s\<lparr>cs_map := remove_partition k st (cs_map s)\<rparr>) \<subseteq> live s"
  by (auto simp: live_def set_bt_values edit_simps set_bt_remove)

lemma split_partition_evolves:
  assumes "cs_next_partition_id s \<le> lower" "cs_next_partition_id s \<le> upper"
  shows "evolves s (fst (split_partition s i at lower upper e))"
proof -
  have "evolves s (reserve_ids lower upper ((install_child p ep ob rb upper hi (install_child p ep oa ra lower lo
      (s\<lparr>cs_map := remove_partition k st (cs_map s)\<rparr>)))\<lparr>cs_phases := phs\<rparr>))"
    for p ep ob rb hi oa ra lo k st phs
    using live_remove_partition assms
    by (intro install_children_evolves) (simp_all add: fresh_id_def reserved_bag_def)
  then show ?thesis
    unfolding split_partition_def Let_def by (auto intro!: evolves_attempt split: option.split)
qed

lemma complete_split_evolves:
  assumes ok: "cluster_ok s"
  shows "evolves s (fst (complete_split s i e))"
proof -
  have "evolves s (reserve_ids (sp_lower sp) (sp_upper sp) ((place_child p ep pr (sp_upper sp) hi (place_child p ep pr (sp_lower sp) lo
      (s\<lparr>cs_pending_splits := bt_remove i (cs_pending_splits s), cs_map := remove_partition k st (cs_map s)\<rparr>)))\<lparr>cs_phases := phs\<rparr>))"
    if get: "bt_get (cs_pending_splits s) i = Some sp" for p ep pr hi lo k st phs sp
  proof -
    have "(i, sp) \<in> set (cs_pending_splits s)" using get by (rule map_of_SomeD)
    then have "sp_lower sp \<in># reserved_bag s" "sp_upper sp \<in># reserved_bag s" by (force simp: reserved_bag_def)+
    moreover have "live (s\<lparr>cs_pending_splits := bt_remove i (cs_pending_splits s), cs_map := remove_partition k st (cs_map s)\<rparr>) \<subseteq> live s"
      using live_remove_partition[of k st "s\<lparr>cs_pending_splits := bt_remove i (cs_pending_splits s)\<rparr>"] by simp
    moreover have "reserved_bag (s\<lparr>cs_pending_splits := bt_remove i (cs_pending_splits s), cs_map := remove_partition k st (cs_map s)\<rparr>)
        \<subseteq># reserved_bag s"
      by (simp add: reserved_bag_def mset_bt_remove_le image_mset_subseteq_mono subset_mset.add_mono)
    ultimately show ?thesis
      unfolding place_child_def Let_def by (intro install_children_evolves) (simp_all add: fresh_id_def)
  qed
  then show ?thesis
    unfolding complete_split_def Let_def by (auto intro!: evolves_attempt split: option.split)
qed

lemma begin_split_evolves:
  assumes ok: "cluster_ok s"
    and ids: "\<And>i. i \<in> {lower, upper} \<Longrightarrow> ensure_unissued s i = Inr () \<Longrightarrow> cs_next_partition_id s \<le> i"
  shows "evolves s (fst (begin_split s i at lower upper e))"
proof -
  have "evolves s (u\<lparr>cs_pending_splits := bt_insert i sp (cs_pending_splits u)\<rparr>)"
    if idle: "\<not> bt_contains (cs_pending_splits s) i" and u: "u = bump_map_version (reserve_ids lower upper s)"
      and sp: "sp_lower sp = lower" "sp_upper sp = upper"
      and un: "ensure_unissued s lower = Inr ()" "ensure_unissued s upper = Inr ()" for u sp
  proof (rule evolves_reserve[of _ _ "{#lower, upper#}"])
    have "mset (bt_insert i sp (cs_pending_splits s)) = add_mset (i, sp) (mset (cs_pending_splits s))"
      using idle mset_bt_insert[OF cluster_okD(4)[OF ok], of i sp] bt_remove_absent[of i "cs_pending_splits s"]
      by (simp add: bt_contains_iff)
    then show "reserved_bag (u\<lparr>cs_pending_splits := bt_insert i sp (cs_pending_splits u)\<rparr>) = reserved_bag s + {#lower, upper#}"
      by (simp add: reserved_bag_def u edit_simps sp)
  qed (use ids un in \<open>simp_all add: u edit_simps le_max_iff_disj\<close>)
  then show ?thesis
    unfolding begin_split_def Let_def by (auto intro!: evolves_attempt split: option.split)
qed

lemma mark_split_evolves:
  assumes ok: "cluster_ok s"
  shows "evolves s (fst (mark_split_prepared s i node e))"
proof -
  have "evolves s (s\<lparr>cs_pending_splits := bt_insert i (sp\<lparr>sp_prepared := x\<rparr>) (cs_pending_splits s)\<rparr>)"
    if get: "bt_get (cs_pending_splits s) i = Some sp" for sp x
    using mset_bt_update[OF cluster_okD(4)[OF ok] get]
    by (intro evolves_still) (simp_all add: reserved_bag_def)
  then show ?thesis
    unfolding mark_split_prepared_def by (auto intro!: evolves_attempt split: option.split)
qed

lemma abort_split_evolves:
  assumes ok: "cluster_ok s" and nw: "no_wrap s"
  shows "evolves s (fst (abort_split s i e))"
proof -
  have "evolves s (replace_partition (s\<lparr>cs_pending_splits := bt_remove i (cs_pending_splits s)\<rparr>) (bump_epoch p))"
    if "check_epoch s i e = Inr p" for p
    using that check_epoch_live[of s i e p] nw
    by (intro evolves_replace_after[OF evolves_drop_split cluster_ok_drop_split[OF ok], of p] later_bump)
      (auto simp: no_wrap_def)
  then show ?thesis unfolding abort_split_def by (auto intro!: evolves_attempt)
qed

lemma begin_merge_evolves:
  assumes ok: "cluster_ok s" and id: "ensure_unissued s (mg_merged g) = Inr () \<Longrightarrow> cs_next_partition_id s \<le> mg_merged g"
  shows "evolves s (fst (begin_merge s g))"
proof -
  have "evolves s (s\<lparr>cs_next_partition_id := max (cs_next_partition_id s) (mg_merged g + 1),
      cs_pending_merges := bt_insert (mg_lower g) m (cs_pending_merges s)\<rparr>)" (is "evolves s ?t")
    if idle: "\<not> is_merging s (pi_id l)" and c: "check_epoch s (mg_lower g) (mg_lower_epoch g) = Inr l"
      and m: "me_generation m = g" and un: "ensure_unissued s (mg_merged g) = Inr ()" for l m
  proof (rule evolves_reserve[of _ _ "{#mg_merged g#}"])
    have "mg_lower g \<notin> fst ` set (cs_pending_merges s)"
      using idle pending_merge_ok[OF ok] check_epoch_live[OF c] by (force simp: not_merging merge_touches_def)
    then have "mset (bt_insert (mg_lower g) m (cs_pending_merges s)) = add_mset (mg_lower g, m) (mset (cs_pending_merges s))"
      by (simp add: mset_bt_insert cluster_okD(5)[OF ok] bt_remove_absent)
    then show "reserved_bag ?t = reserved_bag s + {#mg_merged g#}" by (simp add: reserved_bag_def m)
  qed (use id un in \<open>simp_all add: le_max_iff_disj\<close>)
  then show ?thesis
    unfolding begin_merge_def Let_def by (auto intro!: evolves_attempt split: option.split)
qed

lemma mark_merge_evolves:
  assumes ok: "cluster_ok s"
  shows "evolves s (fst (mark_merge_prepared s g node))"
proof -
  have "evolves s (s\<lparr>cs_pending_merges := bt_insert (mg_lower g) (m\<lparr>me_prepared := x\<rparr>) (cs_pending_merges s)\<rparr>)"
    if "find_pending_merge s g = Inr m" for m x
  proof -
    have "bt_get (cs_pending_merges s) (mg_lower g) = Some m" using that by (simp add: find_pending_merge_ok)
    from mset_bt_update[OF cluster_okD(5)[OF ok] this] show ?thesis
      by (intro evolves_still) (simp_all add: reserved_bag_def)
  qed
  then show ?thesis
    unfolding mark_merge_prepared_def by (auto intro!: evolves_attempt)
qed

lemma complete_merge_evolves:
  assumes ok: "cluster_ok s"
  shows "evolves s (fst (complete_merge s g))"
proof -
  have "evolves s (s\<lparr>cs_pending_merges := bt_remove (mg_lower g) (cs_pending_merges s),
      cs_map := insert_partition x (remove_partition k2 st2 (remove_partition k1 st1 (cs_map s))), cs_phases := phs\<rparr>)"
      (is "evolves s ?t")
    if "find_pending_merge s g = Inr m" and x: "pi_id x = mg_merged g" for m k1 k2 st1 st2 phs x
  proof (rule evolves_fresh[of _ _ "{x}"])
    have "set (parts ?t) \<subseteq> insert (key_of x, x) (set (parts s))"
      unfolding edit_simps cluster_state.simps
      using set_bt_insert_subset[of "key_of x" x] by (fastforce simp: edit_simps set_bt_remove)
    then show "live ?t \<subseteq> live s \<union> {x}" by (fastforce simp: live_def set_bt_values)
    have "(mg_lower g, m) \<in> set (cs_pending_merges s)" "me_generation m = g"
      using that(1) by (auto simp: find_pending_merge_ok dest: map_of_SomeD)
    then have "mg_merged g \<in># reserved_bag s" by (force simp: reserved_bag_def)
    then show "\<forall>p\<in>{x}. fresh_id s (pi_id p)" using x by (simp add: fresh_id_def)
  qed (simp_all add: reserved_bag_def mset_bt_remove_le image_mset_subseteq_mono subset_mset.add_mono)
  then show ?thesis
    unfolding complete_merge_def Let_def by (auto intro!: evolves_attempt split: option.split)
qed

lemma abort_merge_evolves:
  assumes ok: "cluster_ok s" and nw: "no_wrap s"
  shows "evolves s (fst (abort_merge s g))"
proof -
  have "evolves s (replace_partition (replace_partition t (bump_epoch l)) (bump_epoch u))"
    if "find_pending_merge s g = Inr m" and c: "check_epoch s (mg_lower g) (mg_lower_epoch g) = Inr l"
      "check_epoch s (mg_upper g) (mg_upper_epoch g) = Inr u"
      and t: "t = s\<lparr>cs_pending_merges := bt_remove (mg_lower g) (cs_pending_merges s)\<rparr>" for m l u t
  proof -
    have m: "(mg_lower g, m) \<in> set (cs_pending_merges s)" and g: "me_generation m = g"
      using that by (auto simp: find_pending_merge_ok dest: map_of_SomeD)
    have lu: "l \<in> live s" "u \<in> live s" "pi_id l = mg_lower g" "pi_id u = mg_upper g"
      using c by (auto dest: check_epoch_live)
    have "mg_lower g \<noteq> mg_upper g"
      using cluster_okD(7)[OF ok] unfolding busy_bag_merge[OF cluster_okD(5)[OF ok] m] g by (simp add: single_add)
    then have ne: "u \<noteq> l" using lu by auto
    have tok: "cluster_ok t" "l \<in> live t" "u \<in> live t" "evolves s t"
      using cluster_ok_drop_merge[OF ok] lu evolves_drop_merge by (simp_all add: t live_def)
    have idle: "\<not> is_merging t (pi_id l)"
      using merge_alone(1)[OF ok m] lu g by (simp add: t merge_touches_def)
    have 1: "cluster_ok (replace_partition t (bump_epoch l))"
      by (rule cluster_ok_replace[OF tok(1,2)]) (use idle in simp_all)
    have 2: "evolves s (replace_partition t (bump_epoch l))"
      using lu nw by (intro evolves_replace_after[OF tok(4,1,2)] later_bump) (simp add: no_wrap_def)
    have "u \<in> live (replace_partition t (bump_epoch l))"
      using live_replace[OF cluster_okD(1)[OF tok(1)] tok(2), of "bump_epoch l"] tok(3) ne by simp
    then show ?thesis using lu nw by (intro evolves_replace_after[OF 2 1, of u] later_bump) (simp_all add: no_wrap_def)
  qed
  then show ?thesis unfolding abort_merge_def Let_def by (auto intro!: evolves_attempt)
qed

lemma create_keyspace_evolves:
  assumes id: "ensure_unissued s fp = Inr () \<Longrightarrow> cs_next_partition_id s \<le> fp"
  shows "evolves s (fst (create_keyspace s (CreateKeyspace i name config created fp owner replicas)))"
proof -
  have "evolves s (s\<lparr>cs_keyspaces := ks, cs_next_keyspace_id := nk,
                    cs_map := insert_partition p (insert_keyspace k (cs_map s)), cs_phases := phs,
                    cs_next_partition_id := max (cs_next_partition_id s) (fp + 1)\<rparr>)" (is "evolves s ?t")
    if "ensure_unissued s fp = Inr ()" "pi_id p = fp" for ks nk p k phs
  proof (rule evolves_fresh[of _ _ "{p}"])
    have "set (parts ?t) \<subseteq> insert (key_of p, p) (set (parts s))"
      using set_bt_insert_subset[of "key_of p" p "parts s"] by (simp add: edit_simps)
    then show "live ?t \<subseteq> live s \<union> {p}" by (fastforce simp: live_def set_bt_values)
  qed (use id that in \<open>simp_all add: fresh_id_def reserved_bag_def le_max_iff_disj\<close>)
  then show ?thesis
    unfolding create_keyspace.simps Let_def by (auto intro!: evolves_attempt split: sum.split)
qed

lemma update_keyspace_evolves: "evolves s (fst (update_keyspace s i config))"
  by (auto simp: update_keyspace_def Let_def edit_simps reserved_bag_def intro!: evolves_still split: option.split)

lemma delete_keyspace_evolves:
  assumes ok: "cluster_ok s"
  shows "evolves s (fst (delete_keyspace s i))"
proof -
  have "evolves s (rebuild_map_without (s\<lparr>cs_keyspaces := ks, cs_phases := phs,
      cs_pending_splits := fold bt_remove doomed (cs_pending_splits s),
      cs_pending_merges := filter P (cs_pending_merges s)\<rparr>) i)" (is "evolves s (rebuild_map_without ?u i)")
    for ks phs doomed P
  proof (rule evolves_fresh[of _ _ "{}"])
    have "parts (rebuild_map_without ?u i) = filter (\<lambda>e. fst (fst e) \<noteq> i) (parts s)"
      using parts_rebuild_map_without[of ?u i] cluster_okD(1)[OF ok] by simp
    then show "live (rebuild_map_without ?u i) \<subseteq> live s \<union> {}" by (auto simp: live_def set_bt_values)
  qed (simp_all add: rebuild_map_without_def Let_def reserved_bag_def fold_bt_remove mset_filter
      image_mset_subseteq_mono subset_mset.add_mono)
  then show ?thesis by (auto simp: delete_keyspace_def Let_def)
qed

lemma dispatch_evolves:
  assumes ok: "cluster_ok s" and wp: "well_proposed s c" and nw: "no_wrap s"
    and perm: "ensure_command_permitted s c = Inr ()"
  shows "evolves s (fst (dispatch s c))"
proof -
  have unissued: "cs_next_partition_id s \<le> i" if "i \<in> set (allocates c)" "ensure_unissued s i = Inr ()" for i
    using that wp by (auto simp: ensure_unissued_ok well_proposed_def)
  show ?thesis
  proof (cases c)
    case (SplitPartition p at lower upper e)
    have "\<not> enforces_ids s" using perm SplitPartition enforces_ids_0_1 by (auto simp: permitted)
    then show ?thesis using split_partition_evolves wp SplitPartition by (simp add: well_proposed_def)
  next
    case (CreateKeyspace i name config created fp owner replicas)
    then show ?thesis using create_keyspace_evolves[of s fp] unissued by simp
  next
    case (BeginSplit p at lower upper e)
    then show ?thesis using begin_split_evolves[OF ok, of lower upper] unissued by simp
  qed (use ok nw unissued in \<open>simp_all add: fence_evolves drain_evolves assign_evolves transfer_evolves
    set_replicas_evolves mark_split_evolves complete_split_evolves abort_split_evolves mark_merge_evolves
    complete_merge_evolves abort_merge_evolves update_keyspace_evolves delete_keyspace_evolves
    begin_merge_evolves
    register_node_def set_health_def forget_node_def create_credential_def revoke_credential_def
    set_cluster_version_def evolves_still reserved_bag_def Let_def split: option.split\<close>)
qed

lemma apply_evolves:
  "cluster_ok s \<Longrightarrow> well_proposed s c \<Longrightarrow> no_wrap s \<Longrightarrow> evolves s (fst (apply_command s c))"
  unfolding apply_command_def by (rule evolves_attempt) (auto intro: dispatch_evolves)

section \<open>Counters\<close>

definition counters_grow :: "cluster_state \<Rightarrow> cluster_state \<Rightarrow> bool" where
  "counters_grow s t \<longleftrightarrow>
     cs_next_partition_id s \<le> cs_next_partition_id t \<and> cs_next_keyspace_id s \<le> cs_next_keyspace_id t
     \<and> cs_version s \<le> cs_version t \<and> (cs_version_initialized s \<longrightarrow> cs_version_initialized t)"

lemma counters_refl [simp]: "counters_grow s s"
  by (simp add: counters_grow_def)

lemma counters_attempt:
  "counters_grow s u \<Longrightarrow> (\<And>x. r = Inr x \<Longrightarrow> counters_grow s (fst (k x))) \<Longrightarrow> counters_grow s (fst (attempt u r k))"
  by (cases r) auto

lemma counters_still:
  assumes "cs_next_partition_id s \<le> cs_next_partition_id t" "cs_next_keyspace_id s \<le> cs_next_keyspace_id t"
    "cs_version t = cs_version s" "cs_version_initialized t = cs_version_initialized s"
  shows "counters_grow s t"
  using assms by (simp add: counters_grow_def)

lemma edit_keyspace_counter [edit_simps]:
  "cs_next_keyspace_id (reserve_ids a b s) = cs_next_keyspace_id s"
  "cs_next_keyspace_id (install_child p e ow rs i r s) = cs_next_keyspace_id s"
  by (simp_all add: reserve_ids_def install_child_def edit_simps)

lemma edit_abort_for_change [edit_simps]:
  "cs_next_partition_id (fst (abort_merge_for_parent_change s i)) = cs_next_partition_id s"
  "cs_next_keyspace_id (fst (abort_merge_for_parent_change s i)) = cs_next_keyspace_id s"
  "cs_version (fst (abort_merge_for_parent_change s i)) = cs_version s"
  "cs_version_initialized (fst (abort_merge_for_parent_change s i)) = cs_version_initialized s"
  by (auto simp: abort_merge_for_parent_change_def Let_def edit_simps split: option.split)

lemma edit_rebuild [edit_simps]:
  "cs_next_partition_id (rebuild_map_without s i) = cs_next_partition_id s"
  "cs_next_keyspace_id (rebuild_map_without s i) = cs_next_keyspace_id s"
  "cs_version (rebuild_map_without s i) = cs_version s"
  "cs_version_initialized (rebuild_map_without s i) = cs_version_initialized s"
  by (simp_all add: rebuild_map_without_def Let_def)

lemma version_zero_least: "version_zero \<le> v"
  by (cases v) (auto simp: version_zero_def less_eq_cluster_version_def word_gt_0)

lemmas operation_defs =
  register_node_def set_health_def forget_node_def create_credential_def revoke_credential_def
  set_cluster_version_def update_keyspace_def delete_keyspace_def fence_partition_def
  complete_fence_drain_def assign_owner_def transfer_ownership_def set_replicas_def split_partition_def
  begin_split_def mark_split_prepared_def complete_split_def abort_split_def begin_merge_def
  mark_merge_prepared_def complete_merge_def abort_merge_def

lemma counters_irrelevant [simp]:
  "counters_grow s (bump_map_version t) = counters_grow s t"
  "counters_grow s (replace_partition t p) = counters_grow s t"
  "counters_grow s (set_phase i ph t) = counters_grow s t"
  "counters_grow s (t\<lparr>cs_handoffs := hs\<rparr>) = counters_grow s t"
  "counters_grow s (t\<lparr>cs_pending_splits := sps\<rparr>) = counters_grow s t"
  "counters_grow s (t\<lparr>cs_pending_merges := mgs\<rparr>) = counters_grow s t"
  "counters_grow s (t\<lparr>cs_nodes := ns\<rparr>) = counters_grow s t"
  "counters_grow s (t\<lparr>cs_credentials := creds\<rparr>) = counters_grow s t"
  "counters_grow s (t\<lparr>cs_map := m\<rparr>) = counters_grow s t"
  "counters_grow s (t\<lparr>cs_keyspaces := ks\<rparr>) = counters_grow s t"
  "counters_grow s (t\<lparr>cs_phases := phs\<rparr>) = counters_grow s t"
  "counters_grow s (rebuild_map_without t i) = counters_grow s t"
  "counters_grow s (install_child p e ow rs i r t) = counters_grow s t"
  "counters_grow s (fst (abort_merge_for_parent_change t i)) = counters_grow s t"
  by (simp_all add: counters_grow_def edit_simps)

lemma counters_reserve [simp]: "counters_grow s t \<Longrightarrow> counters_grow s (reserve_ids a b t)"
  by (auto simp: counters_grow_def edit_simps le_max_iff_disj)

lemma counters_raise [simp]:
  "counters_grow s t \<Longrightarrow> counters_grow s (t\<lparr>cs_next_partition_id := max (cs_next_partition_id t) n\<rparr>)"
  "counters_grow s t \<Longrightarrow> counters_grow s (t\<lparr>cs_next_keyspace_id := max (cs_next_keyspace_id t) n\<rparr>)"
  by (auto simp: counters_grow_def le_max_iff_disj)

lemma set_replicas_counters: "counters_grow s (fst (set_replicas s p replicas e))"
  unfolding set_replicas_def Let_def case_prod_unfold
  by (auto split: option.split intro!: counters_attempt)

lemma create_keyspace_counters: "counters_grow s (fst (create_keyspace s c))"
proof (cases c)
  case (CreateKeyspace i name config created fp owner replicas)
  have "counters_grow s (s\<lparr>cs_keyspaces := ks, cs_next_keyspace_id := max (cs_next_keyspace_id s) a,
      cs_map := m, cs_phases := phs, cs_next_partition_id := max (cs_next_partition_id s) b\<rparr>)" for ks a m phs b
    by (simp add: counters_grow_def le_max_iff_disj)
  then show ?thesis
    unfolding CreateKeyspace create_keyspace.simps Let_def by (auto split: sum.split intro!: counters_attempt)
qed simp_all

lemma dispatch_counters: "counters_grow s (fst (dispatch s c))"
proof (cases c)
  case (SetClusterVersion v e)
  then show ?thesis
    using version_zero_least[of v] by (auto simp: set_cluster_version_def counters_grow_def)
next
  case (CreateKeyspace i name config created fp owner replicas)
  show ?thesis unfolding CreateKeyspace dispatch.simps by (rule create_keyspace_counters)
next
  case (SetReplicas p replicas e)
  show ?thesis unfolding SetReplicas dispatch.simps by (rule set_replicas_counters)
qed ((auto simp: operation_defs Let_def place_child_def split: option.split partition_phase.split
      intro!: counters_attempt)+)

section \<open>Refusals and map versions\<close>

text \<open>An outcome that is an error with the state untouched, or a success.\<close>

definition clean :: "cluster_state \<Rightarrow> outcome \<Rightarrow> bool" where
  "clean s r \<longleftrightarrow> (is_ok (snd r) \<or> fst r = s)"

lemma clean_simps [simp]: "clean s (accept t)" "clean s (refuse s e)"
  by (simp_all add: clean_def)

lemma clean_attempt: "(\<And>x. r = Inr x \<Longrightarrow> clean s (k x)) \<Longrightarrow> clean s (attempt s r k)"
  by (cases r) auto

fun is_set_replicas :: "control_command \<Rightarrow> bool" where
  "is_set_replicas (SetReplicas _ _ _) = True"
| "is_set_replicas _ = False"

lemma dispatch_clean: "\<not> is_set_replicas c \<Longrightarrow> clean s (dispatch s c)"
proof (cases c)
  case (CreateKeyspace i name config created fp owner replicas)
  show ?thesis
    unfolding CreateKeyspace dispatch.simps create_keyspace.simps Let_def
    by (auto intro!: clean_attempt split: sum.split)
qed (auto simp: operation_defs Let_def split: option.split partition_phase.split intro!: clean_attempt)

definition versioned :: "cluster_state \<Rightarrow> cluster_state \<Rightarrow> bool" where
  "versioned s t \<longleftrightarrow> cs_map t = cs_map s \<or> pm_version (cs_map t) = next_counter (pm_version (cs_map s))"

lemma versioned_refl [simp]: "versioned s s"
  by (simp add: versioned_def)

lemma versioned_attempt:
  "(\<And>x. r = Inr x \<Longrightarrow> versioned s (fst (k x))) \<Longrightarrow> versioned s (fst (attempt s r k))"
  by (cases r) auto

lemma versioned_bump [simp]: "pm_version (cs_map t) = pm_version (cs_map s) \<Longrightarrow> versioned s (bump_map_version t)"
  by (simp add: versioned_def edit_simps)

lemma versioned_irrelevant [simp]:
  "versioned s (set_phase i ph t) = versioned s t"
  "versioned s (t\<lparr>cs_handoffs := hs\<rparr>) = versioned s t"
  "versioned s (t\<lparr>cs_pending_splits := sps\<rparr>) = versioned s t"
  "versioned s (t\<lparr>cs_pending_merges := mgs\<rparr>) = versioned s t"
  "versioned s (t\<lparr>cs_nodes := ns\<rparr>) = versioned s t"
  "versioned s (t\<lparr>cs_credentials := creds\<rparr>) = versioned s t"
  "versioned s (t\<lparr>cs_version := v, cs_version_initialized := b\<rparr>) = versioned s t"
  by (simp_all add: versioned_def edit_simps)

lemma edit_version_abort_for_change [edit_simps]:
  "pm_version (cs_map (fst (abort_merge_for_parent_change s i))) = pm_version (cs_map s)"
  by (auto simp: abort_merge_for_parent_change_def Let_def edit_simps split: option.split)

lemma edit_version_rebuild [edit_simps]:
  "pm_version (cs_map (rebuild_map_without s i)) = pm_version (cs_map s)"
  by (simp add: rebuild_map_without_def Let_def fold_insert_partition fold_insert_keyspace_other partition_map_new_def)

lemma set_replicas_versioned:
  "is_ok (snd (set_replicas s p replicas e)) \<Longrightarrow> versioned s (fst (set_replicas s p replicas e))"
proof -
  let ?s2 = "fst (abort_merge_for_parent_change (s\<lparr>cs_pending_splits := bt_remove p (cs_pending_splits s)\<rparr>) p)"
  have v: "versioned s (bump_map_version (replace_partition ?s2 q))" for q by (simp add: edit_simps)
  have "is_ok (snd (attempt ?s2 r (\<lambda>_. accept (bump_map_version (replace_partition ?s2 q))))) \<Longrightarrow>
      versioned s (fst (attempt ?s2 r (\<lambda>_. accept (bump_map_version (replace_partition ?s2 q)))))" for r :: "cerror + unit" and q
    using v by (cases r) simp_all
  then show "is_ok (snd (set_replicas s p replicas e)) \<Longrightarrow> ?thesis"
    unfolding set_replicas_def Let_def case_prod_unfold
    by (cases "check_epoch s p e") (auto split: option.splits if_splits)
qed

lemma dispatch_versioned:
  assumes "\<not> is_set_replicas c \<or> is_ok (snd (dispatch s c))"
  shows "versioned s (fst (dispatch s c))"
proof (cases c)
  case (CreateKeyspace i name config created fp owner replicas)
  show ?thesis
    unfolding CreateKeyspace dispatch.simps create_keyspace.simps Let_def
    by (auto simp: edit_simps intro!: versioned_attempt split: sum.split)
next
  case (SetReplicas p replicas e)
  then show ?thesis using assms set_replicas_versioned by simp
qed (auto simp: operation_defs Let_def edit_simps place_child_def split: option.split partition_phase.split
    intro!: versioned_attempt)

section \<open>Logs\<close>

text \<open>
  A log applied entry by entry: what holds of one step under a condition on the entry holds of
  the whole log. The laws are those of a state machine with an invariant and of a relation that
  its steps respect.
\<close>

fun allowed_log :: "('s \<Rightarrow> 'c \<Rightarrow> 's) \<Rightarrow> ('s \<Rightarrow> 'c \<Rightarrow> bool) \<Rightarrow> 's \<Rightarrow> 'c list \<Rightarrow> bool" where
  "allowed_log step allowed s [] = True"
| "allowed_log step allowed s (c # cs) = (allowed s c \<and> allowed_log step allowed (step s c) cs)"

lemma allowed_log_append:
  "allowed_log step allowed s (xs @ ys) \<longleftrightarrow>
     allowed_log step allowed s xs \<and> allowed_log step allowed (foldl step s xs) ys"
  by (induction xs arbitrary: s) auto

lemma allowed_log_weaken:
  assumes "allowed_log step A s cs" "\<And>s c. A s c \<Longrightarrow> B s c"
  shows "allowed_log step B s cs"
  using assms by (induction cs arbitrary: s) auto

locale log_machine =
  fixes step :: "'s \<Rightarrow> 'c \<Rightarrow> 's"
    and allowed :: "'s \<Rightarrow> 'c \<Rightarrow> bool"
    and ok :: "'s \<Rightarrow> bool"
    and rel :: "'s \<Rightarrow> 's \<Rightarrow> bool"
  assumes step_ok: "ok s \<Longrightarrow> allowed s c \<Longrightarrow> ok (step s c)"
    and step_rel: "ok s \<Longrightarrow> allowed s c \<Longrightarrow> rel s (step s c)"
    and rel_refl: "rel s s"
    and rel_trans: "rel s t \<Longrightarrow> rel t u \<Longrightarrow> rel s u"
begin

lemma log_ok: "ok s \<Longrightarrow> allowed_log step allowed s cs \<Longrightarrow> ok (foldl step s cs)"
  by (induction cs arbitrary: s) (auto intro: step_ok)

lemma log_rel: "ok s \<Longrightarrow> allowed_log step allowed s cs \<Longrightarrow> rel s (foldl step s cs)"
proof (induction cs arbitrary: s)
  case Nil
  then show ?case by (simp add: rel_refl)
next
  case (Cons c cs)
  then have "rel (step s c) (foldl step (step s c) cs)" using step_ok by simp
  moreover have "rel s (step s c)" using Cons.prems step_rel by simp
  ultimately show ?case using rel_trans by (metis foldl_Cons)
qed

lemma log_between:
  assumes "ok s" "allowed_log step allowed s (xs @ ys)"
  shows "ok (foldl step s xs)" "rel (foldl step s xs) (foldl step s (xs @ ys))"
  using assms log_ok[of s xs] log_rel[of "foldl step s xs" ys] by (auto simp: allowed_log_append)

end

abbreviation apply_step :: "cluster_state \<Rightarrow> control_command \<Rightarrow> cluster_state" where
  "apply_step s c \<equiv> fst (apply_command s c)"

lemma replay_foldl: "replay s cs = foldl apply_step s cs"
  by (induction cs arbitrary: s) auto

definition lawful :: "cluster_state \<Rightarrow> control_command list \<Rightarrow> bool" where
  "lawful s cs \<longleftrightarrow> allowed_log apply_step well_proposed s cs"

definition unwrapped :: "cluster_state \<Rightarrow> control_command list \<Rightarrow> bool" where
  "unwrapped s cs \<longleftrightarrow> allowed_log apply_step (\<lambda>s c. well_proposed s c \<and> no_wrap s) s cs"

lemma apply_counters: "counters_grow s (apply_step s c)"
  unfolding apply_command_def by (rule counters_attempt) (simp_all add: dispatch_counters)

text \<open>
  Once protocol 0.2 is active it stays so, and a proposal is then well formed whatever ids it
  names, the last one apart.
\<close>

lemma enforces_ids_apply: "enforces_ids s \<Longrightarrow> enforces_ids (apply_step s c)"
  using apply_counters[of s c] by (auto simp: enforces_ids_def counters_grow_def)

lemma enforced_log_unwrapped:
  assumes "enforces_ids s" "allowed_log apply_step (\<lambda>s c. -1 \<notin> set (allocates c) \<and> no_wrap s) s cs"
  shows "unwrapped s cs"
  using assms
proof (induction cs arbitrary: s)
  case (Cons c cs)
  then have "well_proposed s c" by (auto simp: well_proposed_def)
  moreover have "unwrapped (apply_step s c) cs" using Cons enforces_ids_apply by simp
  ultimately show ?case using Cons.prems(2) by (simp add: unwrapped_def)
qed (simp add: unwrapped_def)

interpretation plain: log_machine apply_step well_proposed cluster_ok counters_grow
  by unfold_locales (auto simp: apply_keeps_ok apply_counters, auto simp: counters_grow_def)

interpretation bounded: log_machine apply_step "\<lambda>s c. well_proposed s c \<and> no_wrap s" cluster_ok evolves
  by unfold_locales (auto simp: apply_keeps_ok apply_evolves intro: evolves_trans)

text \<open>The states a leader group can be in, and what holds in each.\<close>

lemma reachable_ok: "lawful cluster_state_new cs \<Longrightarrow> cluster_ok (replay cluster_state_new cs)"
  unfolding lawful_def replay_foldl by (rule plain.log_ok[OF cluster_ok_new])

lemma unwrapped_lawful: "unwrapped s cs \<Longrightarrow> lawful s cs"
  unfolding unwrapped_def lawful_def by (erule allowed_log_weaken) simp

lemma reachable_evolves:
  assumes "unwrapped cluster_state_new (xs @ ys)"
  shows "cluster_ok (replay cluster_state_new xs)"
    "evolves (replay cluster_state_new xs) (replay cluster_state_new (xs @ ys))"
  using bounded.log_between[OF cluster_ok_new] assms unfolding unwrapped_def replay_foldl by blast+

end
