(* ===== verification/Cluster_Safety.thy ===== *)
theory Cluster_Safety
  imports Cluster_Run
begin

text \<open>
  What the control plane guarantees, as theorems about runs of \<open>apply_command\<close> from
  \<open>cluster_state_new\<close>: coverage of the key space, ownership by epoch, identity of partitions,
  atomicity of refusals, versions of the map, and the completion of splits and merges. A run is
  \<open>lawful\<close> when each of its commands is \<open>well_proposed\<close>: until protocol 0.2 is active the ids it
  allocates are distinct and at or above \<open>next_partition_id\<close>, a convention of the proposers; from
  0.2 on the state machine checks that itself. \<open>unwrapped\<close> asks besides that no partition has
  the last epoch when a command is applied. What happens when the convention is broken below 0.2
  is shown at the end of the section on errors.
\<close>

section \<open>An example log\<close>

text \<open>Two workers, one keyspace, and a split that both workers prepared.\<close>

definition example_config :: keyspace_config where
  "example_config = \<lparr>kc_default_ttl_millis = None, kc_max_value_bytes = None, kc_max_storage_bytes = None,
     kc_max_reads_per_second = None, kc_max_writes_per_second = None\<rparr>"

definition example_setup :: "control_command list" where
  "example_setup =
     [RegisterNode 1 WorkerRole [] (version_range_exactly protocol_0_1) True False,
      RegisterNode 2 WorkerRole [] (version_range_exactly protocol_0_1) True False,
      SetClusterVersion protocol_0_1 version_zero,
      CreateKeyspace 1 [117] example_config 0 1 (Some 1) [2]]"

definition example_split :: "control_command list" where
  "example_split = [BeginSplit 1 [9] 2 3 1, MarkSplitPrepared 1 1 1, MarkSplitPrepared 1 2 1]"

definition example_generation :: merge_generation where
  "example_generation = \<lparr>mg_lower = 2, mg_upper = 3, mg_lower_epoch = 2, mg_upper_epoch = 3, mg_merged = 4,
     mg_boundary = [9], mg_range = unbounded\<rparr>"

text \<open>The same two children put under one owner again, and a merge that both workers prepared.\<close>

definition example_merge :: "control_command list" where
  "example_merge = example_split @
     [CompleteSplit 1 1, TransferOwnership 3 2 1 [2] 2, BeginMerge example_generation,
      MarkMergePrepared example_generation 1, MarkMergePrepared example_generation 2]"

definition example_partition :: "control_command list \<Rightarrow> partition_id \<Rightarrow> partition_info" where
  "example_partition cs i = the (find_partition (cs_map (replay cluster_state_new (example_setup @ cs))) i)"

definition example_state :: "control_command list \<Rightarrow> cluster_state" where
  "example_state cs = replay cluster_state_new (example_setup @ cs)"

section \<open>Coverage\<close>

lemma ok_covers:
  assumes ok: "cluster_ok s"
  shows "check_coverage (cs_map s) = Inr ()"
    and "bt_contains (cs_keyspaces s) ks \<Longrightarrow> \<exists>p. lookup (cs_map s) ks key = Some p
         \<and> {q \<in> live s. pi_keyspace q = ks \<and> contains (pi_range q) key} = {p}"
    and "\<not> bt_contains (cs_keyspaces s) ks \<Longrightarrow> lookup (cs_map s) ks key = None"
proof -
  note tab = cluster_okD(1)[OF ok] and cov = cluster_okD(8)[OF ok] and kss = cluster_okD(9)[OF ok]
  note look = lookup_iff[OF tab, of ks key, folded live_def]
  have le1: "\<forall>k. key_hits (parts s) ks k \<le> 1" using exactly_covered_le1[OF cov] by blast
  show "check_coverage (cs_map s) = Inr ()"
    using check_coverage_from_None[OF tab] cov by (simp add: check_coverage_def)
  show "\<exists>p. lookup (cs_map s) ks key = Some p \<and> {q \<in> live s. pi_keyspace q = ks \<and> contains (pi_range q) key} = {p}"
    if "bt_contains (cs_keyspaces s) ks"
  proof -
    have "key_hits (parts s) ks key = 1"
      using that cov kss by (auto simp: exactly_covered_def bt_contains_iff)
    then obtain e where "e \<in> set (parts s)" "fst (fst e) = ks" "contains (pi_range (snd e)) key"
      using key_hits_0[of "parts s" ks key] by auto
    then have "snd e \<in> live s" "pi_keyspace (snd e) = ks" "contains (pi_range (snd e)) key"
      using table_entry[OF tab, of "fst e" "snd e"] by (auto simp: live_def set_bt_values)
    then have l: "lookup (cs_map s) ks key = Some (snd e)" using look[OF le1] by blast
    then have "{q \<in> live s. pi_keyspace q = ks \<and> contains (pi_range q) key} = {snd e}"
      unfolding look[OF le1, symmetric] by auto
    then show ?thesis using l by blast
  qed
  show "lookup (cs_map s) ks key = None" if "\<not> bt_contains (cs_keyspaces s) ks"
  proof (rule ccontr)
    assume "lookup (cs_map s) ks key \<noteq> None"
    then obtain p where "p \<in> live s" "pi_keyspace p = ks" using look[OF le1] by auto
    then have "ks \<in> table_keyspaces (parts s)" using live_entry[OF tab] by (force simp: table_keyspaces_def)
    then show False using that kss by (simp add: bt_contains_iff)
  qed
qed

text \<open>
  C1. In every state a leader group reaches by a lawful run (until protocol 0.2 proposers take the
  ids they allocate from the counter), the partition map passes its own coverage check, and
  every key of every keyspace is found by \<open>lookup\<close> in the one partition of the keyspace whose
  range contains it; in a keyspace that does not exist nothing is found.
\<close>

theorem reachable_map_covers:
  assumes "lawful cluster_state_new cs" and "s = replay cluster_state_new cs"
  shows "check_coverage (cs_map s) = Inr () \<and>
    (\<forall>ks key. if bt_contains (cs_keyspaces s) ks
      then \<exists>p. lookup (cs_map s) ks key = Some p \<and> {q \<in> live s. pi_keyspace q = ks \<and> contains (pi_range q) key} = {p}
      else lookup (cs_map s) ks key = None)"
  using ok_covers[OF reachable_ok[OF assms(1)]] assms(2) by auto

theorem reachable_map_covers_witness:
  "check_coverage (cs_map (example_state (example_split @ [CompleteSplit 1 1]))) = Inr ()
   \<and> length (parts (example_state (example_split @ [CompleteSplit 1 1]))) = 2"
proof -
  have "lawful cluster_state_new (example_setup @ example_split @ [CompleteSplit 1 1])" by code_simp
  from conjunct1[OF reachable_map_covers[OF this refl]]
  have "check_coverage (cs_map (example_state (example_split @ [CompleteSplit 1 1]))) = Inr ()"
    unfolding example_state_def .
  moreover have "length (parts (example_state (example_split @ [CompleteSplit 1 1]))) = 2" by code_simp
  ultimately show ?thesis ..
qed

section \<open>Ownership, epochs and identity\<close>

text \<open>
  C2. Fencing. Take a run in which no epoch counter wraps and which keeps the proposers' convention
  on ids: until protocol 0.2 is active every proposal takes distinct ids at or above
  \<open>next_partition_id\<close> (from 0.2 on the state machine enforces it), and the last id is never
  proposed. Between any two points of it, a partition that has an owner at the first point and the
  same epoch at the second has the same owner there: an epoch never has two owners, and an owner
  is removed only by moving the epoch. Without the convention a 0.1 cluster that deletes a keyspace
  and gives its partition id out again breaks this (\<open>reissued_id_has_two_owners\<close>).
\<close>

theorem one_owner_per_epoch:
  assumes "unwrapped cluster_state_new (xs @ ys)"
    and "p \<in> live (replay cluster_state_new xs)" and "q \<in> live (replay cluster_state_new (xs @ ys))"
    and "pi_id q = pi_id p" and "pi_epoch q = pi_epoch p" and "pi_owner p = Some node"
  shows "pi_owner q = Some node"
  using evolves_same_id[OF reachable_evolves[OF assms(1)] assms(2-4)] assms(5,6) by (simp add: later_def)

theorem one_owner_per_epoch_witness:
  "pi_owner (example_partition [] 1) = Some 1 \<and> pi_owner (example_partition example_split 1) = Some 1"
proof -
  have "unwrapped cluster_state_new (example_setup @ example_split)"
    "example_partition [] 1 \<in> live (replay cluster_state_new example_setup)"
    "example_partition example_split 1 \<in> live (replay cluster_state_new (example_setup @ example_split))"
    "pi_id (example_partition example_split 1) = pi_id (example_partition [] 1)"
    "pi_epoch (example_partition example_split 1) = pi_epoch (example_partition [] 1)"
    "pi_owner (example_partition [] 1) = Some 1"
    by code_simp+
  then show ?thesis using one_owner_per_epoch by blast
qed

text \<open>
  C10. In a run in which no epoch counter wraps and whose proposals keep the convention on ids
  (until protocol 0.2 is active they take distinct ids at or above \<open>next_partition_id\<close>; from 0.2 on
  the state machine enforces it; the last id is never proposed), a partition id always names the
  same keys: at any two points where it is live its keyspace and its range are the same, and its
  epoch has not gone back.
\<close>

theorem partition_identity:
  assumes "unwrapped cluster_state_new (xs @ ys)"
    and "p \<in> live (replay cluster_state_new xs)" and "q \<in> live (replay cluster_state_new (xs @ ys))"
    and "pi_id q = pi_id p"
  shows "pi_keyspace q = pi_keyspace p \<and> pi_range q = pi_range p \<and> pi_epoch p \<le> pi_epoch q"
  using evolves_same_id[OF reachable_evolves[OF assms(1)] assms(2-4)] by (simp add: later_def)

theorem partition_identity_witness:
  "pi_range (example_partition [FencePartition 1 1] 1) = unbounded \<and> 1 \<le> pi_epoch (example_partition [FencePartition 1 1] 1)"
proof -
  have "unwrapped cluster_state_new (example_setup @ [FencePartition 1 1])"
    "example_partition [] 1 \<in> live (replay cluster_state_new example_setup)"
    "example_partition [FencePartition 1 1] 1 \<in> live (replay cluster_state_new (example_setup @ [FencePartition 1 1]))"
    "pi_id (example_partition [FencePartition 1 1] 1) = pi_id (example_partition [] 1)"
    by code_simp+
  note partition_identity[OF this]
  moreover have "pi_range (example_partition [] 1) = unbounded" "pi_epoch (example_partition [] 1) = 1"
    by code_simp+
  ultimately show ?thesis by simp
qed

text \<open>
  C11. Once protocol 0.2 is active the state machine itself keeps ids from being reused, whatever
  ids are proposed: a partition that is gone from the map by then (split, merged or deleted with
  its keyspace) never comes back, nor does any other partition with its id. Nothing is asked of the
  commands that follow but that they never name the last id of the type, behind which the counter
  would wrap, and that no epoch counter wraps; up to the point where 0.2 is active the run keeps
  the proposers' convention on ids (\<open>well_proposed\<close>), which 0.1 does not check.
\<close>

theorem ids_never_reused:
  assumes "unwrapped cluster_state_new (xs @ ys)" and "enforces_ids (replay cluster_state_new (xs @ ys))"
    and "allowed_log apply_step (\<lambda>s c. -1 \<notin> set (allocates c) \<and> no_wrap s) (replay cluster_state_new (xs @ ys)) zs"
    and "p \<in> live (replay cluster_state_new xs)"
    and "pi_id p \<notin> pi_id ` live (replay cluster_state_new (xs @ ys))"
  shows "pi_id p \<notin> pi_id ` live (replay cluster_state_new (xs @ ys @ zs))"
proof
  let ?s = "replay cluster_state_new xs" and ?t = "replay cluster_state_new (xs @ ys)"
    and ?u = "replay cluster_state_new (xs @ ys @ zs)"
  assume "pi_id p \<in> pi_id ` live ?u"
  then obtain r where r: "r \<in> live ?u" "pi_id r = pi_id p" by auto
  have "unwrapped cluster_state_new ((xs @ ys) @ zs)"
    using assms(1) enforced_log_unwrapped[OF assms(2,3)]
    unfolding unwrapped_def allowed_log_append[of _ _ _ "xs @ ys" zs] by (simp add: replay_foldl)
  then have st: "cluster_ok ?s" "evolves ?s ?t" and tu: "evolves ?t ?u"
    using reachable_evolves[OF assms(1)] reachable_evolves[of "xs @ ys" zs] by simp_all
  have "\<not> fresh_id ?t (pi_id p)"
    using live_not_fresh[OF st(1) assms(4)] st(2) by (auto simp: evolves_def)
  then obtain q where "q \<in> live ?t" "later q r" using tu r by (auto simp: evolves_def)
  then have "pi_id p \<in> pi_id ` live ?t" using r by (auto simp: later_def)
  then show False using assms(5) by simp
qed

text \<open>Below, partition 1 is split at 0.1, protocol 0.2 is activated, and a keyspace asks for id 1 again.\<close>

theorem ids_never_reused_witness:
  "pi_id (example_partition [] 1) \<notin> pi_id ` live (replay cluster_state_new
     (example_setup @ (example_split @ [CompleteSplit 1 1, SetClusterVersion protocol_0_2 protocol_0_1])
      @ [CreateKeyspace 2 [118] example_config 0 1 (Some 1) [2]]))"
proof -
  let ?ys = "example_split @ [CompleteSplit 1 1, SetClusterVersion protocol_0_2 protocol_0_1]"
  have "unwrapped cluster_state_new (example_setup @ ?ys)"
    "enforces_ids (replay cluster_state_new (example_setup @ ?ys))"
    "allowed_log apply_step (\<lambda>s c. -1 \<notin> set (allocates c) \<and> no_wrap s) (replay cluster_state_new (example_setup @ ?ys))
       [CreateKeyspace 2 [118] example_config 0 1 (Some 1) [2]]"
    "example_partition [] 1 \<in> live (replay cluster_state_new example_setup)"
    "pi_id (example_partition [] 1) \<notin> pi_id ` live (replay cluster_state_new (example_setup @ ?ys))"
    by code_simp+
  then show ?thesis by (rule ids_never_reused)
qed

section \<open>Refusals\<close>

text \<open>
  C12. A command that is refused leaves the state as it was, in any state and with any error: only
  \<open>SetReplicas\<close> is excepted.
\<close>

theorem refused_command_changes_nothing:
  assumes "\<not> is_set_replicas c" and "snd (apply_command s c) = Inl e"
  shows "fst (apply_command s c) = s"
proof -
  have "clean s (apply_command s c)"
    unfolding apply_command_def using dispatch_clean[OF assms(1)] by (intro clean_attempt)
  then show ?thesis using assms(2) by (simp add: clean_def)
qed

theorem refused_command_changes_nothing_witness:
  "\<not> is_set_replicas (FencePartition 1 7)
   \<and> snd (apply_command (example_state []) (FencePartition 1 7)) = Inl (StaleEpoch 1 7 1)
   \<and> fst (apply_command (example_state []) (FencePartition 1 7)) = example_state []"
proof -
  have 1: "\<not> is_set_replicas (FencePartition 1 7)" by simp
  have 2: "snd (apply_command (example_state []) (FencePartition 1 7)) = Inl (StaleEpoch 1 7 1)" by code_simp
  show ?thesis using refused_command_changes_nothing[OF 1 2] 1 2 by blast
qed

text \<open>
  C13. A map version names one map: an accepted command either leaves the whole map alone or
  raises its version by one. For every command but \<open>SetReplicas\<close> this holds of refusals too.
\<close>

theorem map_version_names_the_map:
  assumes "is_ok (snd (apply_command s c)) \<or> \<not> is_set_replicas c"
    and "cs_map (fst (apply_command s c)) \<noteq> cs_map s"
  shows "pm_version (cs_map (fst (apply_command s c))) = next_counter (pm_version (cs_map s))"
proof -
  have "versioned s (fst (apply_command s c))"
    using assms(1) dispatch_versioned[of c s]
    by (cases "ensure_command_permitted s c") (auto simp: apply_command_def)
  then show ?thesis using assms(2) by (simp add: versioned_def)
qed

theorem map_version_names_the_map_witness:
  "pm_version (cs_map (fst (apply_command (example_state []) (FencePartition 1 1)))) = 2
   \<and> pm_version (cs_map (example_state [])) = 1"
proof -
  have "is_ok (snd (apply_command (example_state []) (FencePartition 1 1)))
    \<or> \<not> is_set_replicas (FencePartition 1 1)" by simp
  moreover have "pi_owner (the (find_partition (cs_map (fst (apply_command (example_state []) (FencePartition 1 1)))) 1))
    \<noteq> pi_owner (the (find_partition (cs_map (example_state [])) 1))" by code_simp
  then have "cs_map (fst (apply_command (example_state []) (FencePartition 1 1))) \<noteq> cs_map (example_state [])"
    by metis
  ultimately have "pm_version (cs_map (fst (apply_command (example_state []) (FencePartition 1 1))))
      = next_counter (pm_version (cs_map (example_state [])))"
    by (rule map_version_names_the_map)
  moreover have "pm_version (cs_map (example_state [])) = 1" by code_simp
  ultimately show ?thesis by (simp add: next_counter_def)
qed

text \<open>
  The epochs a command expects, in the order it checks them: one for most commands, two for those
  of a merge.
\<close>

fun expected_epochs :: "control_command \<Rightarrow> (partition_id \<times> epoch) list" where
  "expected_epochs (FencePartition p e) = [(p, e)]"
| "expected_epochs (CompleteFenceDrain p e) = [(p, e)]"
| "expected_epochs (AssignOwner p _ _ e) = [(p, e)]"
| "expected_epochs (TransferOwnership p _ _ _ e) = [(p, e)]"
| "expected_epochs (SetReplicas p _ e) = [(p, e)]"
| "expected_epochs (SplitPartition p _ _ _ e) = [(p, e)]"
| "expected_epochs (BeginSplit p _ _ _ e) = [(p, e)]"
| "expected_epochs (MarkSplitPrepared p _ e) = [(p, e)]"
| "expected_epochs (CompleteSplit p e) = [(p, e)]"
| "expected_epochs (AbortSplit p e) = [(p, e)]"
| "expected_epochs (BeginMerge g) = [(mg_lower g, mg_lower_epoch g), (mg_upper g, mg_upper_epoch g)]"
| "expected_epochs (MarkMergePrepared g _) = [(mg_lower g, mg_lower_epoch g), (mg_upper g, mg_upper_epoch g)]"
| "expected_epochs (CompleteMerge g) = [(mg_lower g, mg_lower_epoch g), (mg_upper g, mg_upper_epoch g)]"
| "expected_epochs (AbortMerge g) = [(mg_lower g, mg_lower_epoch g), (mg_upper g, mg_upper_epoch g)]"
| "expected_epochs _ = []"

text \<open>What two of the merge commands check before any epoch.\<close>

fun epochs_checked_first :: "cluster_state \<Rightarrow> control_command \<Rightarrow> bool" where
  "epochs_checked_first s (BeginMerge g) = distinct [mg_lower g, mg_upper g, mg_merged g]"
| "epochs_checked_first s (AbortMerge g) = is_ok (find_pending_merge s g)"
| "epochs_checked_first s _ = True"

lemma check_epoch_stale:
  "find_partition (cs_map s) i = Some p \<Longrightarrow> pi_epoch p \<noteq> e \<Longrightarrow> check_epoch s i e = Inl (StaleEpoch i e (pi_epoch p))"
  by (simp add: check_epoch_def partition_or_err_def)

lemma stale_dispatch:
  assumes "(i, e) \<in> set (expected_epochs c)" and "check_epoch s i e = Inl err"
  shows "\<exists>x. dispatch s c = (s, Inl x)"
  using assms by (cases c) (auto simp: operation_defs refuse_def attempt_def split: sum.split)

lemma stale_dispatch_first:
  assumes "(i, e) \<in> set (expected_epochs c)" and "check_epoch s i e = Inl err" and "epochs_checked_first s c"
    and "\<forall>(j, f)\<in>set (takeWhile (\<lambda>x. x \<noteq> (i, e)) (expected_epochs c)). is_ok (check_epoch s j f)"
  shows "dispatch s c = (s, Inl err)"
  using assms
  by (cases c; cases "check_epoch s (fst (hd (expected_epochs c))) (snd (hd (expected_epochs c)))")
    (auto simp: operation_defs refuse_def attempt_def split: sum.splits if_splits)

text \<open>
  C14. A command that expects a partition at an epoch is a compare-and-set: when the map holds the
  partition at any other epoch the command is refused and nothing changes, in any state and for
  every command that carries an epoch, those of a merge with either of their two included. The
  error is \<open>StaleEpoch\<close> with the epoch the map holds, for the first epoch that does not match,
  when the active protocol permits the command at all and the command got as far as its epochs:
  \<open>BeginMerge\<close> first asks for three distinct ids, \<open>AbortMerge\<close> for the merge to be pending.
\<close>

theorem stale_epoch_refused:
  assumes "(i, e) \<in> set (expected_epochs c)" and "find_partition (cs_map s) i = Some p" and "pi_epoch p \<noteq> e"
  shows "(\<exists>err. apply_command s c = (s, Inl err))
     \<and> (ensure_command_permitted s c = Inr () \<and> epochs_checked_first s c
        \<and> (\<forall>(j, f)\<in>set (takeWhile (\<lambda>x. x \<noteq> (i, e)) (expected_epochs c)). is_ok (check_epoch s j f))
        \<longrightarrow> apply_command s c = (s, Inl (StaleEpoch i e (pi_epoch p))))"
  using stale_dispatch[OF assms(1) check_epoch_stale[OF assms(2,3)]]
    stale_dispatch_first[OF assms(1) check_epoch_stale[OF assms(2,3)]]
  by (cases "ensure_command_permitted s c") (auto simp: apply_command_def refuse_def)

theorem stale_epoch_refused_witness:
  "apply_command (example_state example_merge) (CompleteMerge (example_generation\<lparr>mg_upper_epoch := 7\<rparr>))
     = (example_state example_merge, Inl (StaleEpoch 3 7 3))"
proof -
  let ?s = "example_state example_merge" and ?c = "CompleteMerge (example_generation\<lparr>mg_upper_epoch := 7\<rparr>)"
  have 1: "(3, 7) \<in> set (expected_epochs ?c)"
    "find_partition (cs_map ?s) 3 = Some (example_partition example_merge 3)"
    "pi_epoch (example_partition example_merge 3) \<noteq> 7" and 2: "pi_epoch (example_partition example_merge 3) = 3"
    by code_simp+
  have 3: "ensure_command_permitted ?s ?c = Inr ()" "epochs_checked_first ?s ?c"
    "\<forall>(j, f)\<in>set (takeWhile (\<lambda>x. x \<noteq> (3, 7)) (expected_epochs ?c)). is_ok (check_epoch ?s j f)"
    by code_simp+
  show ?thesis using stale_epoch_refused[OF 1] 2 3 by metis
qed

text \<open>
  From protocol 0.2 the state machine itself refuses to create a partition, or to reserve an
  id for one, below its counter, whichever command proposes it.
\<close>

theorem issued_ids_refused:
  assumes "enforces_ids s" and "i \<in> set (allocates c)" and "i < cs_next_partition_id s"
  shows "\<exists>e. apply_command s c = (s, Inl e)"
proof -
  have bad: "ensure_unissued s i = Inl (InvalidArgument (AlreadyIssued i (cs_next_partition_id s)))"
    using assms(1,3) by (simp add: ensure_unissued_def enforces_ids_def)
  have "\<not> is_ok (snd (dispatch s c))"
  proof (cases c)
    case (CreateKeyspace j name config created fp owner replicas)
    then have "i = fp" using assms(2) by simp
    then show ?thesis
      using bad unfolding CreateKeyspace dispatch.simps create_keyspace.simps attempt_def Let_def
      by (auto split: sum.split)
  next
    case (SplitPartition p at lower upper e)
    then show ?thesis
      using bad assms(2) unfolding SplitPartition dispatch.simps split_partition_def attempt_def Let_def
      by (auto split: sum.split option.split)
  next
    case (BeginSplit p at lower upper e)
    then show ?thesis
      using bad assms(2) unfolding BeginSplit dispatch.simps begin_split_def attempt_def Let_def
      by (auto split: sum.split option.split)
  next
    case (BeginMerge g)
    then show ?thesis
      using bad assms(2) unfolding BeginMerge dispatch.simps begin_merge_def attempt_def Let_def
      by (auto split: sum.split option.split)
  qed (use assms(2) in simp_all)
  moreover have "\<not> is_set_replicas c" using assms(2) by (cases c) auto
  ultimately show ?thesis
    using dispatch_clean[of c s] by (cases "ensure_command_permitted s c"; cases "dispatch s c"; cases "snd (dispatch s c)")
      (auto simp: apply_command_def clean_def refuse_def)
qed

theorem issued_ids_refused_witness:
  "\<exists>e. apply_command (example_state [SetClusterVersion protocol_0_2 protocol_0_1]) (BeginSplit 1 [9] 1 7 1)
     = (example_state [SetClusterVersion protocol_0_2 protocol_0_1], Inl e)"
proof (rule issued_ids_refused[of _ 1])
  show "enforces_ids (example_state [SetClusterVersion protocol_0_2 protocol_0_1])"
    "1 \<in> set (allocates (BeginSplit 1 [9] 1 7 1))"
    "1 < cs_next_partition_id (example_state [SetClusterVersion protocol_0_2 protocol_0_1])"
    by code_simp+
qed

section \<open>Splits\<close>

lemma apply_permitted: "ensure_command_permitted s c = Inr () \<Longrightarrow> apply_command s c = dispatch s c"
  by (simp add: apply_command_def)

lemma pending_split_parent:
  assumes ok: "cluster_ok s" and sp: "bt_get (cs_pending_splits s) i = Some sp"
  obtains p lo hi where "p \<in> live s" "pi_id p = i" "check_epoch s i (pi_epoch p) = Inr p"
    "split_at (pi_range p) (sp_at sp) = Some (lo, hi)" "pi_owner p \<noteq> None"
proof -
  obtain p where p: "p \<in> live s" "pi_id p = i" "pi_owner p \<noteq> None" "split_at (pi_range p) (sp_at sp) \<noteq> None"
    using pending_split_ok[OF ok map_of_SomeD[OF sp]] unfolding split_ok_def by blast
  moreover have "check_epoch s i (pi_epoch p) = Inr p" using find_iff[OF ok] p by (simp add: check_epoch_ok)
  ultimately show ?thesis using that by fast
qed

lemma pending_split_version:
  assumes "cluster_ok s" "bt_get (cs_pending_splits s) i = Some sp"
  shows "cs_version_initialized s \<and> protocol_0_1 \<le> cs_version s"
  using assms map_of_SomeD[OF assms(2)] by (auto simp: cluster_ok_def inv_pending_def)

text \<open>The live partitions after two children have taken the place of their parent.\<close>

lemma live_split_swap:
  assumes ok: "cluster_ok s" and p: "p \<in> live s"
    and sp: "split_at (pi_range p) at = Some (pi_range a, pi_range b)"
    and ks: "pi_keyspace a = pi_keyspace p" "pi_keyspace b = pi_keyspace p"
    and t: "parts t = bt_insert (key_of b) b (bt_insert (key_of a) a (bt_remove (key_of p) (parts s)))"
  shows "live t = live s - {p} \<union> {a, b}"
proof -
  let ?r = "bt_remove (key_of p) (parts s)"
  have "live x = snd ` set_mset (mset (parts x))" for x by (simp add: live_def set_bt_values)
  from this[of s] this[of t] have "live s = insert p (snd ` set ?r)" "live t = insert b (insert a (snd ` set ?r))"
    unfolding t split_swap_mset[OF ok p sp ks] by simp_all
  moreover have "p \<notin> snd ` set ?r"
    using table_entry[OF cluster_okD(1)[OF ok], of _ p] by (auto simp: set_bt_remove)
  ultimately show ?thesis by auto
qed

lemma complete_split_effect:
  assumes ok: "cluster_ok s" and sp: "bt_get (cs_pending_splits s) i = Some sp"
    and ready: "set (sp_required sp) \<subseteq> set (sp_prepared sp)"
  shows "\<exists>p t a b. p \<in> live s \<and> pi_id p = i \<and> complete_split s i (pi_epoch p) = (t, Inr ())
     \<and> live t = live s - {p} \<union> {a, b} \<and> cs_pending_splits t = bt_remove i (cs_pending_splits s)
     \<and> pi_id a = sp_lower sp \<and> pi_id b = sp_upper sp
     \<and> split_at (pi_range p) (sp_at sp) = Some (pi_range a, pi_range b)
     \<and> pi_keyspace a = pi_keyspace p \<and> pi_keyspace b = pi_keyspace p
     \<and> pi_epoch a = next_counter (pi_epoch p) \<and> pi_epoch b = next_counter (pi_epoch p)
     \<and> set (split_holders p) \<subseteq> {n. holds a n} \<and> set (split_holders p) \<subseteq> {n. holds b n}
     \<and> pi_owner a \<noteq> None \<and> pi_owner b \<noteq> None"
proof -
  obtain p lo hi where p: "p \<in> live s" "pi_id p = i" and c: "check_epoch s i (pi_epoch p) = Inr p"
    and at: "split_at (pi_range p) (sp_at sp) = Some (lo, hi)" and owned: "pi_owner p \<noteq> None"
    using pending_split_parent[OF ok sp] .
  define s1 where "s1 = s\<lparr>cs_pending_splits := bt_remove i (cs_pending_splits s),
    cs_map := remove_partition (pi_keyspace p) (kr_start (pi_range p)) (cs_map s)\<rparr>"
  define child where "child = (\<lambda>u j r. \<lparr>pi_id = j, pi_keyspace = pi_keyspace p, pi_range = r,
    pi_owner = child_owner u (sp_prepared sp) (pi_owner p), pi_epoch = next_counter (pi_epoch p),
    pi_replicas = filter (\<lambda>n. Some n \<noteq> child_owner u (sp_prepared sp) (pi_owner p)) (split_holders p)\<rparr>)"
  define s2 where "s2 = place_child p (next_counter (pi_epoch p)) (sp_prepared sp) (sp_lower sp) lo s1"
  define s3 where "s3 = place_child p (next_counter (pi_epoch p)) (sp_prepared sp) (sp_upper sp) hi s2"
  define t where "t = bump_map_version (reserve_ids (sp_lower sp) (sp_upper sp) (s3\<lparr>cs_phases := bt_remove i (cs_phases s3)\<rparr>))"
  let ?a = "child s1 (sp_lower sp) lo" and ?b = "child s2 (sp_upper sp) hi"
  have "filter (\<lambda>node. node \<notin> set (sp_prepared sp)) (sp_required sp) = []"
    using ready by (auto simp: filter_empty_conv)
  then have "complete_split s i (pi_epoch p) = (t, Inr ())"
    using c sp at by (simp add: complete_split_def Let_def accept_def t_def s3_def s2_def s1_def)
  moreover have "live t = live s - {p} \<union> {?a, ?b}"
    by (rule live_split_swap[OF ok p(1), of "sp_at sp"])
      (use at in \<open>simp_all add: child_def t_def s3_def s2_def s1_def place_child_def Let_def edit_simps\<close>)
  moreover have "cs_pending_splits t = bt_remove i (cs_pending_splits s)"
    by (simp add: t_def s3_def s2_def s1_def place_child_def Let_def edit_simps)
  moreover have "child_owner u pr (pi_owner p) \<noteq> None" for u pr
    using owned by (auto simp: child_owner_def Let_def split: list.split)
  then have "set (split_holders p) \<subseteq> {n. holds (child u j r) n}" "pi_owner (child u j r) \<noteq> None" for u j r
    by (auto simp: child_def holds_def)
  ultimately show ?thesis using p at by (intro exI[of _ p] exI[of _ t] exI[of _ ?a] exI[of _ ?b]) (simp add: child_def)
qed

text \<open>
  C15. In a lawful run (until protocol 0.2 is active every proposal takes distinct ids at or above
  \<open>next_partition_id\<close>, a convention that only 0.2 enforces) a split that every required node has
  prepared always completes: the parent leaves the map and its two children take exactly its range, one epoch further on, under the reserved ids,
  served by an owner each; every holder of the parent holds both children.
\<close>

theorem prepared_split_completes:
  assumes "lawful cluster_state_new cs" and "s = replay cluster_state_new cs"
    and "bt_get (cs_pending_splits s) i = Some sp" and "set (sp_required sp) \<subseteq> set (sp_prepared sp)"
  shows "\<exists>p t a b. p \<in> live s \<and> pi_id p = i \<and> apply_command s (CompleteSplit i (pi_epoch p)) = (t, Inr ())
     \<and> live t = live s - {p} \<union> {a, b} \<and> \<not> is_splitting t i
     \<and> pi_id a = sp_lower sp \<and> pi_id b = sp_upper sp
     \<and> split_at (pi_range p) (sp_at sp) = Some (pi_range a, pi_range b)
     \<and> pi_keyspace a = pi_keyspace p \<and> pi_keyspace b = pi_keyspace p
     \<and> pi_epoch a = next_counter (pi_epoch p) \<and> pi_epoch b = next_counter (pi_epoch p)
     \<and> set (split_holders p) \<subseteq> {n. holds a n} \<and> set (split_holders p) \<subseteq> {n. holds b n}
     \<and> pi_owner a \<noteq> None \<and> pi_owner b \<noteq> None"
proof -
  have ok: "cluster_ok s" using reachable_ok[OF assms(1)] assms(2) by simp
  have "apply_command s (CompleteSplit i e) = complete_split s i e" for e
    using pending_split_version[OF ok assms(3)] permitted[of s "CompleteSplit i e" "()"] by (simp add: apply_permitted)
  moreover have "cs_pending_splits t = bt_remove i (cs_pending_splits s) \<Longrightarrow> \<not> is_splitting t i" for t
    by (simp add: is_splitting_def)
  ultimately show ?thesis
    using complete_split_effect[OF ok assms(3,4)] by (elim exE conjE) (intro exI conjI; simp)
qed

theorem prepared_split_completes_witness:
  "\<exists>p t a b. p \<in> live (example_state example_split) \<and> pi_id p = 1
     \<and> apply_command (example_state example_split) (CompleteSplit 1 (pi_epoch p)) = (t, Inr ())
     \<and> live t = live (example_state example_split) - {p} \<union> {a, b} \<and> pi_id a = 2 \<and> pi_id b = 3
     \<and> split_at (pi_range p) [9] = Some (pi_range a, pi_range b)"
proof -
  define sp where "sp = the (bt_get (cs_pending_splits (example_state example_split)) 1)"
  have 1: "lawful cluster_state_new (example_setup @ example_split)" by code_simp
  have 2: "bt_get (cs_pending_splits (example_state example_split)) 1 = Some sp"
    and 3: "set (sp_required sp) \<subseteq> set (sp_prepared sp)" and 4: "sp_lower sp = 2" "sp_upper sp = 3" "sp_at sp = [9]"
    unfolding sp_def by code_simp+
  show ?thesis
    using prepared_split_completes[OF 1 example_state_def 2 3] 4 by metis
qed

lemma complete_split_inv:
  assumes "complete_split s i e = (t, Inr ())"
  obtains p sp where "check_epoch s i e = Inr p" "bt_get (cs_pending_splits s) i = Some sp"
    "set (sp_required sp) \<subseteq> set (sp_prepared sp)"
proof -
  obtain p where p: "check_epoch s i e = Inr p" using assms by (auto simp: complete_split_def attempt_ok)
  obtain sp where sp: "bt_get (cs_pending_splits s) i = Some sp"
    using assms p by (cases "bt_get (cs_pending_splits s) i") (simp_all add: complete_split_def)
  have "set (sp_required sp) \<subseteq> set (sp_prepared sp)"
    using assms p sp by (auto simp: complete_split_def Let_def filter_empty_conv split: if_splits)
  then show ?thesis using that p sp by blast
qed

lemma reserved_not_live:
  assumes "cluster_ok s" "i \<in># reserved_bag s"
  shows "i \<notin> pi_id ` live s"
  using single_disjoint[of "live_bag s" "reserved_bag s" i] cluster_okD(6)[OF assms(1)] assms(2)
  by (auto simp: id_bag_def live_bag_set)



section \<open>Merges\<close>

lemma live_merge_swap:
  assumes ok: "cluster_ok s" and lu: "l \<in> live s" "u \<in> live s"
    and ks: "pi_keyspace u = pi_keyspace l" "pi_keyspace x = pi_keyspace l"
    and rng: "merge_ranges (pi_range l) (pi_range u) = Some (pi_range x)"
    and t: "parts t = bt_insert (key_of x) x (bt_remove (key_of u) (bt_remove (key_of l) (parts s)))"
  shows "live t = live s - {l, u} \<union> {x}"
proof -
  let ?r = "bt_remove (key_of u) (bt_remove (key_of l) (parts s))"
  have "live y = snd ` set_mset (mset (parts y))" for y by (simp add: live_def set_bt_values)
  from this[of s] this[of t] have "live s = insert l (insert u (snd ` set ?r))" "live t = insert x (snd ` set ?r)"
    unfolding t merge_swap_mset[OF ok lu ks rng] by simp_all
  moreover have "l \<notin> snd ` set ?r" "u \<notin> snd ` set ?r"
    using table_entry[OF cluster_okD(1)[OF ok]] by (auto simp: set_bt_remove)
  ultimately show ?thesis by auto
qed

lemma complete_merge_effect:
  assumes ok: "cluster_ok s" and m: "bt_get (cs_pending_merges s) i = Some m" and g: "g = me_generation m"
    and ready: "set (me_required m) \<subseteq> set (me_prepared m)"
  shows "\<exists>l u t x. l \<in> live s \<and> u \<in> live s \<and> pi_id l = mg_lower g \<and> pi_id u = mg_upper g
     \<and> complete_merge s g = (t, Inr ()) \<and> live t = live s - {l, u} \<union> {x}
     \<and> cs_pending_merges t = bt_remove i (cs_pending_merges s)
     \<and> pi_id x = mg_merged g \<and> pi_keyspace x = pi_keyspace l
     \<and> merge_ranges (pi_range l) (pi_range u) = Some (pi_range x)
     \<and> pi_epoch x = next_counter (max (pi_epoch l) (pi_epoch u))
     \<and> pi_owner x = pi_owner l \<and> pi_owner x = pi_owner u \<and> pi_replicas x = pi_replicas l \<and> pi_replicas x = pi_replicas u
     \<and> pi_owner x \<noteq> None"
proof -
  have i: "i = mg_lower g" using pending_merge_ok[OF ok map_of_SomeD[OF m]] g by simp
  obtain l u where lu: "l \<in> live s" "u \<in> live s" "pi_id l = mg_lower g" "pi_id u = mg_upper g"
      "pi_keyspace l = pi_keyspace u" "merge_ranges (pi_range l) (pi_range u) = Some (mg_range g)"
      "pi_epoch l = mg_lower_epoch g" "pi_epoch u = mg_upper_epoch g"
      "pi_owner l \<noteq> None" "pi_owner l = pi_owner u" "pi_replicas l = pi_replicas u"
    using pending_merge_ok[OF ok map_of_SomeD[OF m]] unfolding g merge_ok_def by metis
  have c: "check_epoch s (mg_lower g) (mg_lower_epoch g) = Inr l" "check_epoch s (mg_upper g) (mg_upper_epoch g) = Inr u"
    using find_iff[OF ok] lu by (simp_all add: check_epoch_ok)
  have f: "find_pending_merge s g = Inr m" using m g i by (simp add: find_pending_merge_ok)
  define x where "x = \<lparr>pi_id = mg_merged g, pi_keyspace = pi_keyspace l, pi_range = mg_range g, pi_owner = pi_owner l,
    pi_epoch = next_counter (max (pi_epoch l) (pi_epoch u)), pi_replicas = pi_replicas l\<rparr>"
  define t where "t = bump_map_version (s\<lparr>cs_pending_merges := bt_remove (mg_lower g) (cs_pending_merges s),
    cs_map := insert_partition x (remove_partition (pi_keyspace u) (kr_start (pi_range u))
      (remove_partition (pi_keyspace l) (kr_start (pi_range l)) (cs_map s))),
    cs_phases := bt_insert (mg_merged g) Serving (bt_remove (pi_id u) (bt_remove (pi_id l) (cs_phases s)))\<rparr>)"
  have "filter (\<lambda>node. node \<notin> set (me_prepared m)) (me_required m) = []"
    using ready by (auto simp: filter_empty_conv)
  then have "complete_merge s g = (t, Inr ())"
    using c f lu by (simp add: complete_merge_def Let_def accept_def t_def x_def)
  moreover have "live t = live s - {l, u} \<union> {x}"
    by (rule live_merge_swap[OF ok lu(1,2)]) (use lu in \<open>simp_all add: t_def x_def edit_simps\<close>)
  moreover have "cs_pending_merges t = bt_remove i (cs_pending_merges s)" by (simp add: t_def i edit_simps)
  ultimately show ?thesis
    using lu by (intro exI[of _ l] exI[of _ u] exI[of _ t] exI[of _ x]) (simp add: x_def)
qed

text \<open>
  C17. In a lawful run (until protocol 0.2 proposers take the ids they allocate from the counter) a
  merge that every required node has prepared always completes: two adjacent partitions
  with the same owner and replicas become one, which covers both ranges at an epoch above both
  and is held by the same nodes.
\<close>

theorem prepared_merge_completes:
  assumes "lawful cluster_state_new cs" and "s = replay cluster_state_new cs"
    and "bt_get (cs_pending_merges s) i = Some m" and "g = me_generation m"
    and "set (me_required m) \<subseteq> set (me_prepared m)"
  shows "\<exists>l u t x. l \<in> live s \<and> u \<in> live s \<and> pi_id l = mg_lower g \<and> pi_id u = mg_upper g
     \<and> apply_command s (CompleteMerge g) = (t, Inr ()) \<and> live t = live s - {l, u} \<union> {x}
     \<and> cs_pending_merges t = bt_remove i (cs_pending_merges s)
     \<and> pi_id x = mg_merged g \<and> pi_keyspace x = pi_keyspace l
     \<and> merge_ranges (pi_range l) (pi_range u) = Some (pi_range x)
     \<and> pi_epoch x = next_counter (max (pi_epoch l) (pi_epoch u))
     \<and> pi_owner x = pi_owner l \<and> pi_owner x = pi_owner u \<and> pi_replicas x = pi_replicas l \<and> pi_replicas x = pi_replicas u
     \<and> pi_owner x \<noteq> None"
proof -
  have ok: "cluster_ok s" using reachable_ok[OF assms(1)] assms(2) by simp
  have "cs_version_initialized s \<and> protocol_0_1 \<le> cs_version s"
    using ok map_of_SomeD[OF assms(3)] by (auto simp: cluster_ok_def inv_pending_def)
  then have "apply_command s (CompleteMerge g) = complete_merge s g"
    using permitted[of s "CompleteMerge g" "()"] by (simp add: apply_permitted)
  then show ?thesis using complete_merge_effect[OF ok assms(3-5)] by simp
qed

theorem prepared_merge_completes_witness:
  "\<exists>l u t x. l \<in> live (example_state example_merge) \<and> u \<in> live (example_state example_merge)
     \<and> apply_command (example_state example_merge) (CompleteMerge example_generation) = (t, Inr ())
     \<and> live t = live (example_state example_merge) - {l, u} \<union> {x} \<and> pi_id x = 4"
proof -
  define m where "m = the (bt_get (cs_pending_merges (example_state example_merge)) 2)"
  have 1: "lawful cluster_state_new (example_setup @ example_merge)" by code_simp
  have 2: "bt_get (cs_pending_merges (example_state example_merge)) 2 = Some m"
    and 3: "example_generation = me_generation m" and 4: "set (me_required m) \<subseteq> set (me_prepared m)"
    and 5: "mg_merged example_generation = 4"
    unfolding m_def by code_simp+
  show ?thesis using prepared_merge_completes[OF 1 example_state_def 2 3 4] 5 by metis
qed

section \<open>Errors that cannot happen\<close>

definition sound :: "cerror + 'a \<Rightarrow> bool" where
  "sound r \<longleftrightarrow> (\<forall>m. r \<noteq> Inl (Internal m)) \<and> r \<noteq> Inl (Unavailable MergeParentsChanged)"

lemma sound_simps [simp]:
  "sound (Inr x)" "sound (Inl (InvalidArgument m))"
  "sound (Inl (Unavailable m)) \<longleftrightarrow> m \<noteq> MergeParentsChanged"
  "sound (Inl (StaleEpoch i e f))" "sound (Inl NotFound)" "sound (Inl AlreadyExists)"
  "sound (Inl KeyspaceNotFound)" "sound (Inl KeyspaceAlreadyExists)"
  by (simp_all add: sound_def)

lemma sound_attempt:
  assumes "sound r" "\<And>x. r = Inr x \<Longrightarrow> sound (snd (k x))"
  shows "sound (snd (attempt s r k))"
  using assms by (cases r) (auto simp: sound_def)

lemma checks_sound [simp]:
  "sound (check_epoch s i e)" "sound (ensure_unissued s i)"
  "sound (new_ownership_eligibility s n)" "sound (find_pending_merge s g)"
  "sound (ensure_command_permitted s c)"
  by (auto simp: check_epoch_def partition_or_err_def ensure_unissued_def new_ownership_eligibility_def
      find_pending_merge_def ensure_command_permitted_def ensure_merge_permitted_def split: option.split)

lemma check_each_sound: "(\<And>x. sound (f x)) \<Longrightarrow> sound (check_each f xs)"
proof (induction xs)
  case (Cons x xs)
  then show ?case using Cons.prems[of x] by (cases "f x") (simp_all add: sound_def)
qed simp

lemma replica_checks_sound [simp]:
  "sound (check_new_replicas s held rs)" "sound (check_each (new_ownership_eligibility s) rs)"
  by (simp_all add: check_new_replicas_def check_each_sound)

lemma complete_split_sound:
  assumes ok: "cluster_ok s"
  shows "sound (snd (complete_split s i e))"
proof (cases "check_epoch s i e")
  case (Inl err)
  then show ?thesis using checks_sound(1)[of s i e] by (simp add: complete_split_def sound_def)
next
  case p: (Inr p)
  show ?thesis
  proof (cases "bt_get (cs_pending_splits s) i")
    case (Some sp)
    then have "split_at (pi_range p) (sp_at sp) \<noteq> None"
      using pending_split_ok[OF ok map_of_SomeD[OF Some]] live_unique[OF ok] check_epoch_live[OF p]
      unfolding split_ok_def by metis
    then show ?thesis using p Some by (auto simp: complete_split_def Let_def)
  qed (simp add: complete_split_def p)
qed

lemma complete_merge_parents:
  assumes ok: "cluster_ok s" and "check_epoch s (mg_lower g) (mg_lower_epoch g) = Inr l"
    "check_epoch s (mg_upper g) (mg_upper_epoch g) = Inr u" "find_pending_merge s g = Inr m"
  shows "merge_ranges (pi_range l) (pi_range u) = Some (mg_range g) \<and> pi_owner l = pi_owner u \<and> pi_replicas l = pi_replicas u"
proof -
  have "(mg_lower g, m) \<in> set (cs_pending_merges s)" "me_generation m = g"
    using assms(4) by (auto simp: find_pending_merge_ok dest: map_of_SomeD)
  then have "merge_ok s g" using pending_merge_ok[OF ok] by blast
  then show ?thesis
    unfolding merge_ok_def using live_unique[OF ok] check_epoch_live[OF assms(2)] check_epoch_live[OF assms(3)] by metis
qed

lemma complete_merge_sound:
  assumes ok: "cluster_ok s"
  shows "sound (snd (complete_merge s g))"
  unfolding complete_merge_def Let_def
  by (intro sound_attempt checks_sound) (auto dest: complete_merge_parents[OF ok])

text \<open>
  C18. While the proposers keep the convention on ids, the errors that would mean a broken invariant
  do not happen: in no state that a lawful run reaches does any command end in \<open>Internal\<close> (a split
  boundary outside its range, merge parents that are no longer adjacent), and a merge never finds
  that its parents changed while it was under way. Lawful: until protocol 0.2 is active every
  proposal takes distinct ids at or above \<open>next_partition_id\<close>, from 0.2 on the state machine
  enforces that, and the last id is never proposed. The convention is needed: 0.1 accepts a run
  that breaks it and ends in \<open>Internal\<close> (\<open>reserved_id_taken_ends_in_internal\<close>).
\<close>

theorem no_internal_error:
  assumes "lawful cluster_state_new cs" and "s = replay cluster_state_new cs"
  shows "snd (apply_command s c) \<noteq> Inl (Internal m) \<and> snd (apply_command s c) \<noteq> Inl (Unavailable MergeParentsChanged)"
proof -
  have ok: "cluster_ok s" using reachable_ok[OF assms(1)] assms(2) by simp
  have "sound (snd (dispatch s c))"
  proof (cases c)
    case (CreateKeyspace i name config created fp owner replicas)
    show ?thesis
      unfolding CreateKeyspace dispatch.simps create_keyspace.simps Let_def
      by (auto intro!: sound_attempt split: sum.split option.split)
  next
    case (CompleteSplit p e)
    then show ?thesis using complete_split_sound[OF ok] by simp
  next
    case (CompleteMerge g)
    then show ?thesis using complete_merge_sound[OF ok] by simp
  next
    case (SetReplicas p replicas e)
    then show ?thesis
      by (auto simp: set_replicas_def Let_def case_prod_unfold intro!: sound_attempt split: option.split)
  qed (auto simp: operation_defs Let_def intro!: sound_attempt split: option.split partition_phase.split)
  then have "sound (snd (apply_command s c))"
    unfolding apply_command_def by (intro sound_attempt) simp_all
  then show ?thesis by (auto simp: sound_def)
qed

theorem no_internal_error_witness:
  "snd (apply_command (example_state example_split) (CompleteSplit 1 1)) \<noteq> Inl (Internal (SplitBoundaryLeft 1))"
proof -
  have "lawful cluster_state_new (example_setup @ example_split)" by code_simp
  from no_internal_error[OF this example_state_def] show ?thesis by blast
qed

text \<open>
  What a 0.1 cluster accepts when the convention on ids is broken. A keyspace takes the id 2 that
  a pending split has reserved for its lower child, and begins a split of its own; when the first
  split completes, two partitions have the id 2, the second split is checked against the wrong one
  of them, and its completion, prepared by every node, fails with the error that no reachable state
  should give.
\<close>

definition reserved_id_taken :: "control_command list" where
  "reserved_id_taken =
     [BeginSplit 1 [9] 2 3 1, CreateKeyspace 2 [118] example_config 0 2 (Some 1) [2], BeginSplit 2 [20] 4 5 1,
      MarkSplitPrepared 2 1 1, MarkSplitPrepared 2 2 1, MarkSplitPrepared 1 1 1, MarkSplitPrepared 1 2 1,
      CompleteSplit 1 1]"

fun accepts_all :: "cluster_state \<Rightarrow> control_command list \<Rightarrow> bool" where
  "accepts_all s [] = True"
| "accepts_all s (c # cs) = (is_ok (snd (apply_command s c)) \<and> accepts_all (apply_step s c) cs)"

lemma reserved_id_taken_ends_in_internal:
  "accepts_all cluster_state_new (example_setup @ reserved_id_taken)
   \<and> length (filter (\<lambda>p. pi_id p = 2) (bt_values (parts (example_state reserved_id_taken)))) = 2
   \<and> snd (apply_command (example_state reserved_id_taken) (CompleteSplit 2 2)) = Inl (Internal (SplitBoundaryLeft 2))"
  by code_simp

text \<open>A keyspace deleted and created again under its ids gives one id and one epoch two owners.\<close>

lemma reissued_id_has_two_owners:
  "accepts_all cluster_state_new (example_setup @
     [DeleteKeyspace 1, CreateKeyspace 1 [117] example_config 0 1 (Some 2) [1]])
   \<and> pi_owner (example_partition [] 1) = Some 1 \<and> pi_epoch (example_partition [] 1) = 1
   \<and> pi_owner (example_partition [DeleteKeyspace 1, CreateKeyspace 1 [117] example_config 0 1 (Some 2) [1]] 1) = Some 2
   \<and> pi_epoch (example_partition [DeleteKeyspace 1, CreateKeyspace 1 [117] example_config 0 1 (Some 2) [1]] 1) = 1"
  by code_simp

section \<open>Moving ownership\<close>

lemma find_replace:
  assumes ok: "cluster_ok s" and p: "p \<in> live s"
    and same: "pi_id q = pi_id p" "pi_keyspace q = pi_keyspace p" "pi_range q = pi_range p"
    and t: "cluster_ok t" "parts t = parts (replace_partition s q)"
  shows "find_partition (cs_map t) (pi_id p) = Some q"
proof -
  have "live t = live (replace_partition s q)" using t(2) by (simp add: live_def)
  moreover have "q \<in> live (replace_partition s q)"
    using live_replace[OF cluster_okD(1)[OF ok] p] same by simp
  ultimately show ?thesis using find_iff[OF t(1)] same by simp
qed

text \<open>
  Fencing a partition always succeeds against its current epoch. Afterwards it has no owner
  and the next epoch; nothing is being split or merged on it; its phase names the deposed owner
  and the version of the map that removed it, with its leases not yet drained; and from protocol
  0.1 on the deposed owner is kept among the replicas.
\<close>

theorem fence_removes_the_owner:
  assumes "lawful cluster_state_new cs" and "s = replay cluster_state_new cs"
    and "find_partition (cs_map s) i = Some p" and "pi_owner p = Some deposed"
  shows "\<exists>t q. apply_command s (FencePartition i (pi_epoch p)) = (t, Inr ())
     \<and> find_partition (cs_map t) i = Some q \<and> pi_owner q = None \<and> pi_epoch q = next_counter (pi_epoch p)
     \<and> phase t i = Some (Fenced deposed (pm_version (cs_map t)) False)
     \<and> \<not> is_splitting t i \<and> \<not> is_merging t i
     \<and> (fenced_owner_stays_a_replica s \<longrightarrow> set (pi_replicas q) = insert deposed (set (pi_replicas p)))"
proof -
  have ok: "cluster_ok s" using reachable_ok[OF assms(1)] assms(2) by simp
  have p: "p \<in> live s" and i: "i = pi_id p" using find_live[OF assms(3)] by simp_all
  have c: "check_epoch s i (pi_epoch p) = Inr p" using assms(3) by (simp add: check_epoch_ok)
  define s1 where "s1 = fst (abort_merge_for_parent_change s i)"
  have s1: "cluster_ok s1" "p \<in> live s1" "\<not> is_merging s1 i"
    using abort_for_change_ok[OF ok p] i by (simp_all add: s1_def)
  have stays: "fenced_owner_stays_a_replica s1 = fenced_owner_stays_a_replica s"
    using abort_for_change_fields[OF ok, of i] by (simp add: fenced_owner_stays_a_replica_def s1_def)
  define s2 where "s2 = s1\<lparr>cs_pending_splits := bt_remove i (cs_pending_splits s1)\<rparr>"
  define q0 where "q0 = (bump_epoch p)\<lparr>pi_owner := None\<rparr>"
  define q where "q = (if fenced_owner_stays_a_replica s \<and> deposed \<notin> set (pi_replicas q0)
    then q0\<lparr>pi_replicas := pi_replicas q0 @ [deposed]\<rparr> else q0)"
  define t where "t = set_phase i (Fenced deposed (pm_version (cs_map (bump_map_version (replace_partition s2 q)))) False)
    (bump_map_version (replace_partition s2 q))"
  have a: "fence_partition s i (pi_epoch p) = (t, Inr ())"
    using c assms(4) stays
    by (simp add: fence_partition_def Let_def accept_def t_def q_def q0_def s2_def s1_def)
  then have tok: "cluster_ok t" using fence_ok[OF ok, of i "pi_epoch p"] by simp
  have q: "pi_id q = pi_id p" "pi_keyspace q = pi_keyspace p" "pi_range q = pi_range p" "pi_owner q = None"
    "pi_epoch q = next_counter (pi_epoch p)"
    "fenced_owner_stays_a_replica s \<longrightarrow> set (pi_replicas q) = insert deposed (set (pi_replicas p))"
    by (auto simp: q_def q0_def)
  have "find_partition (cs_map t) i = Some q"
    unfolding i by (rule find_replace[OF cluster_ok_drop_split[OF s1(1), of i] _ q(1-3) tok])
      (use s1(2) in \<open>simp_all add: t_def s2_def edit_simps\<close>)
  moreover have "\<not> is_splitting t i" "\<not> is_merging t i"
    using s1(3) by (simp_all add: t_def s2_def is_splitting_def is_merging_def edit_simps)
  moreover have "phase t i = Some (Fenced deposed (pm_version (cs_map t)) False)"
    by (simp add: t_def phase_def edit_simps)
  ultimately show ?thesis using a q by (auto simp: apply_permitted permitted)
qed

theorem fence_removes_the_owner_witness:
  "\<exists>t q. apply_command (example_state example_split) (FencePartition 1 1) = (t, Inr ())
     \<and> find_partition (cs_map t) 1 = Some q \<and> pi_owner q = None \<and> pi_epoch q = 2
     \<and> phase t 1 = Some (Fenced 1 (pm_version (cs_map t)) False) \<and> \<not> is_splitting t 1 \<and> \<not> is_merging t 1
     \<and> set (pi_replicas q) = {1, 2}"
proof -
  let ?s = "example_state example_split" and ?p = "example_partition example_split 1"
  have 1: "lawful cluster_state_new (example_setup @ example_split)" by code_simp
  have 2: "find_partition (cs_map ?s) 1 = Some ?p" "pi_owner ?p = Some 1" by code_simp+
  have 3: "fenced_owner_stays_a_replica ?s" "pi_epoch ?p = 1" "pi_replicas ?p = [2]" "next_counter 1 = 2" by code_simp+
  show ?thesis using fence_removes_the_owner[OF 1 example_state_def 2] 3 by simp
qed

text \<open>
  An owner is assigned only to a partition that has none, and only to a worker that is
  healthy, speaks the active protocol, and is ready and not draining once the lifecycle protocol
  is on; the partition then serves at the epoch the fence gave it.
\<close>

theorem assign_needs_an_eligible_worker:
  assumes "lawful cluster_state_new cs" and "s = replay cluster_state_new cs"
    and "apply_command s (AssignOwner i owner replicas e) = (t, Inr ())"
  shows "\<exists>p worker. find_partition (cs_map s) i = Some p \<and> pi_owner p = None \<and> pi_epoch p = e
     \<and> find_partition (cs_map t) i = Some (p\<lparr>pi_owner := Some owner, pi_replicas := replicas\<rparr>)
     \<and> phase t i = Some Serving \<and> owner \<notin> set replicas
     \<and> bt_get (cs_nodes s) owner = Some worker \<and> nr_role worker = WorkerRole \<and> nr_health worker = Healthy
     \<and> state_compatibility_refusal s (nr_speaks worker) = None
     \<and> (lifecycle_enabled s \<longrightarrow> nr_ready worker \<and> \<not> nr_draining worker)"
proof -
  have ok: "cluster_ok s" using reachable_ok[OF assms(1)] assms(2) by simp
  have a: "assign_owner s i owner replicas e = (t, Inr ())" using assms(3) by (simp add: apply_command_def attempt_ok)
  then obtain p where c: "check_epoch s i e = Inr p" by (auto simp: assign_owner_def attempt_ok)
  let ?q = "p\<lparr>pi_owner := Some owner, pi_replicas := replicas\<rparr>"
  have p: "p \<in> live s" "pi_id p = i" "pi_epoch p = e" "find_partition (cs_map s) i = Some p"
    using check_epoch_live[OF c] c by (simp_all add: check_epoch_ok)
  have r: "pi_owner p = None" "owner \<notin> set replicas" "new_ownership_eligibility s owner = Inr ()"
    and t: "t = bump_map_version (set_phase i Serving (replace_partition s ?q))"
    using a c by (auto simp: assign_owner_def attempt_ok split: if_splits)
  have tok: "cluster_ok t" using assign_owner_ok[OF ok, of i owner replicas e] a by simp
  have "find_partition (cs_map t) i = Some ?q"
    unfolding p(2)[symmetric] by (rule find_replace[OF ok p(1) _ _ _ tok]) (simp_all add: t edit_simps)
  moreover have "phase t i = Some Serving" by (simp add: t phase_def edit_simps)
  moreover obtain worker where "bt_get (cs_nodes s) owner = Some worker" "nr_role worker = WorkerRole"
      "nr_health worker = Healthy" "state_compatibility_refusal s (nr_speaks worker) = None"
      "lifecycle_enabled s \<longrightarrow> nr_ready worker \<and> \<not> nr_draining worker"
    using r(3) by (auto simp: new_ownership_eligibility_def split: option.splits if_splits)
  ultimately show ?thesis using p r by blast
qed

theorem assign_needs_an_eligible_worker_witness:
  "\<exists>p worker. find_partition (cs_map (example_state [FencePartition 1 1])) 1 = Some p \<and> pi_owner p = None
     \<and> bt_get (cs_nodes (example_state [FencePartition 1 1])) 2 = Some worker \<and> nr_health worker = Healthy"
proof -
  have 1: "lawful cluster_state_new (example_setup @ [FencePartition 1 1])" by code_simp
  have "snd (apply_command (example_state [FencePartition 1 1]) (AssignOwner 1 2 [1] 2)) = Inr ()" by code_simp
  then have "apply_command (example_state [FencePartition 1 1]) (AssignOwner 1 2 [1] 2) =
      (fst (apply_command (example_state [FencePartition 1 1]) (AssignOwner 1 2 [1] 2)), Inr ())"
    by (metis prod.collapse)
  from assign_needs_an_eligible_worker[OF 1 example_state_def this] show ?thesis by blast
qed

text \<open>
  C25. In a state that a lawful run reaches, a transfer moves ownership only from the node it names as owner to one of the partition's
  replicas, eligible to own; it takes the next epoch, keeps no merge under way on the partition,
  and leaves a handoff checkpoint that tells the old owner the receiver and the version of the
  map that has it.
\<close>

theorem transfer_hands_off_to_a_replica:
  assumes "lawful cluster_state_new cs" and "s = replay cluster_state_new cs"
    and "apply_command s (TransferOwnership i from to replicas e) = (t, Inr ())"
  shows "\<exists>p hs. find_partition (cs_map s) i = Some p \<and> pi_owner p = Some from \<and> pi_epoch p = e
     \<and> to \<in> set (pi_replicas p) \<and> is_eligible_owner s to
     \<and> find_partition (cs_map t) i = Some ((bump_epoch p)\<lparr>pi_owner := Some to, pi_replicas := replicas\<rparr>)
     \<and> phase t i = Some Serving \<and> \<not> is_merging t i
     \<and> bt_get (cs_handoffs t) from = Some hs
     \<and> bt_get hs i = Some \<lparr>hc_receiver = to, hc_map_version = pm_version (cs_map t)\<rparr>"
proof -
  have ok: "cluster_ok s" using reachable_ok[OF assms(1)] assms(2) by simp
  have a: "transfer_ownership s i from to replicas e = (t, Inr ())"
    using assms(3) by (simp add: apply_command_def attempt_ok)
  then obtain p where c: "check_epoch s i e = Inr p" by (auto simp: transfer_ownership_def attempt_ok)
  let ?q = "(bump_epoch p)\<lparr>pi_owner := Some to, pi_replicas := replicas\<rparr>"
  have p: "p \<in> live s" "pi_id p = i" "pi_epoch p = e" "find_partition (cs_map s) i = Some p"
    using check_epoch_live[OF c] c by (simp_all add: check_epoch_ok)
  define s1 where "s1 = fst (abort_merge_for_parent_change s i)"
  have s1: "cluster_ok s1" "p \<in> live s1" "\<not> is_merging s1 i"
    using abort_for_change_ok[OF ok p(1)] p(2) by (simp_all add: s1_def)
  define s2 where "s2 = bump_map_version (set_phase i Serving (replace_partition s1 ?q))"
  have r: "pi_owner p = Some from" "to \<in> set (pi_replicas p)" "new_ownership_eligibility s to = Inr ()"
    and t: "t = s2\<lparr>cs_handoffs := bt_insert from (bt_insert i \<lparr>hc_receiver = to, hc_map_version = pm_version (cs_map s2)\<rparr>
       (case bt_get (cs_handoffs s2) from of None \<Rightarrow> [] | Some hs \<Rightarrow> hs)) (cs_handoffs s2)\<rparr>"
    using a c by (auto simp: transfer_ownership_def Let_def attempt_ok s2_def s1_def split: if_splits)
  have tok: "cluster_ok t" using transfer_ownership_ok[OF ok, of i "from" to replicas e] a by simp
  have "find_partition (cs_map t) i = Some ?q"
    unfolding p(2)[symmetric] by (rule find_replace[OF s1(1,2) _ _ _ tok]) (simp_all add: t s2_def edit_simps)
  moreover have "phase t i = Some Serving" by (simp add: t s2_def phase_def edit_simps)
  moreover have "\<not> is_merging t i" using s1(3) by (simp add: t s2_def is_merging_def edit_simps)
  moreover have "is_eligible_owner s to" using r(3) by (simp add: is_eligible_owner_def)
  ultimately show ?thesis using p r by (auto simp: t s2_def)
qed

theorem transfer_hands_off_to_a_replica_witness:
  "\<exists>p hs. find_partition (cs_map (example_state [])) 1 = Some p \<and> pi_owner p = Some 1 \<and> 2 \<in> set (pi_replicas p)
     \<and> bt_get (cs_handoffs (fst (apply_command (example_state []) (TransferOwnership 1 1 2 [1] 1)))) 1 = Some hs"
proof -
  have 1: "lawful cluster_state_new (example_setup @ [])" by code_simp
  have "snd (apply_command (example_state []) (TransferOwnership 1 1 2 [1] 1)) = Inr ()" by code_simp
  then have "apply_command (example_state []) (TransferOwnership 1 1 2 [1] 1) =
      (fst (apply_command (example_state []) (TransferOwnership 1 1 2 [1] 1)), Inr ())"
    by (metis prod.collapse)
  from transfer_hands_off_to_a_replica[OF 1 example_state_def this] show ?thesis by blast
qed

end
