(* ===== verification/Cluster_Views.thy ===== *)
theory Cluster_Views
  imports Cluster_Safety
begin

text \<open>
  The rest of what the control plane promises: keyspaces by name and their deletion, the counters
  and the active version, the protocol gates, the views other components read (placement
  candidates, split and merge intents), and two places where the code departs from its comments.
\<close>

section \<open>Keyspaces\<close>

text \<open>
  The map's index of keyspaces by name agrees with the state's own table in every reachable
  state: a name finds the same keyspace, with the same limits, on both sides.
\<close>

theorem keyspace_names_agree:
  assumes "lawful cluster_state_new cs" and "s = replay cluster_state_new cs"
  shows "keyspace_by_name (cs_map s) name = map_option info_of (state_keyspace_by_name s name)"
proof -
  have ok: "cluster_ok s" using reachable_ok[OF assms(1)] assms(2) by simp
  have inv: "inv_keyspaces s" using ok by (simp add: cluster_ok_def)
  show ?thesis
  proof (cases "state_keyspace_by_name s name")
    case None
    then have "pm_by_name (cs_map s) name = None"
      using inv_keyspacesD(4)[OF inv, of name]
      by (cases "pm_by_name (cs_map s) name") (force simp: state_keyspace_by_name_def find_None_iff set_bt_values)+
    then show ?thesis using None by (simp add: keyspace_by_name_def)
  next
    case (Some k)
    then have "k \<in> set (bt_values (cs_keyspaces s))" "ks_name k = name"
      using find_mem[of _ "bt_values (cs_keyspaces s)" k] by (auto simp: state_keyspace_by_name_def)
    then obtain i where i: "(i, k) \<in> set (cs_keyspaces s)" by (auto simp: set_bt_values)
    then have "pm_by_name (cs_map s) name = Some i" using inv_keyspacesD(4)[OF inv] \<open>ks_name k = name\<close> by blast
    moreover have "pm_keyspaces (cs_map s) i = Some (info_of k)"
      using inv_keyspacesD(3)[OF inv, of i] bt_get_iff[OF cluster_okD(2)[OF ok], of i k] i by (auto simp del: map_of_eq_Some_iff)
    ultimately show ?thesis using Some by (simp add: keyspace_by_name_def)
  qed
qed

theorem keyspace_names_agree_witness:
  "keyspace_by_name (cs_map (example_state [])) [117] = map_option info_of (state_keyspace_by_name (example_state []) [117])
   \<and> state_keyspace_by_name (example_state []) [117] \<noteq> None"
proof -
  have "lawful cluster_state_new (example_setup @ [])" by code_simp
  from keyspace_names_agree[OF this example_state_def, of "[117]"] show ?thesis by (rule conjI) code_simp
qed

lemma busy_live:
  assumes ok: "cluster_ok s" and "i \<in># busy_bag s"
  shows "i \<in> pi_id ` live s"
proof -
  consider sp where "(i, sp) \<in> set (cs_pending_splits s)"
    | q m where "(q, m) \<in> set (cs_pending_merges s)" "merge_touches i m"
    using assms(2) not_merging[of s i] not_splitting[of s i] unfolding busy_bag_set by fast
  then show ?thesis
  proof cases
    case 1
    from pending_split_ok[OF ok this] show ?thesis unfolding split_ok_def by blast
  next
    case 2
    from pending_merge_ok[OF ok 2(1)] 2(2) show ?thesis unfolding merge_ok_def merge_touches_def by (metis image_eqI)
  qed
qed

lemma live_delete_keyspace:
  assumes ok: "cluster_ok s" and "bt_contains (cs_keyspaces s) i"
  shows "live (fst (delete_keyspace s i)) = {p \<in> live s. pi_keyspace p \<noteq> i}"
proof -
  note tab = cluster_okD(1)[OF ok]
  have "parts (fst (delete_keyspace s i)) = filter (\<lambda>e. fst (fst e) \<noteq> i) (parts s)"
    using assms(2) tab by (simp add: delete_keyspace_def Let_def edit_simps parts_rebuild_map_without)
  then have "live (fst (delete_keyspace s i)) = set (filter (\<lambda>p. pi_keyspace p \<noteq> i) (bt_values (parts s)))"
    unfolding live_def table_values_filter[OF tab, of "\<lambda>k. k \<noteq> i"] by simp
  then show ?thesis by (auto simp: live_def)
qed

text \<open>
  C26. In a state that a lawful run reaches, deleting a keyspace removes its partitions, its name and every split and merge under way
  on them, and leaves the partitions of the other keyspaces exactly as they were.
\<close>

theorem delete_keyspace_removes_only_its_own:
  assumes "lawful cluster_state_new cs" and "s = replay cluster_state_new cs"
    and "bt_contains (cs_keyspaces s) i"
  shows "\<exists>t. apply_command s (DeleteKeyspace i) = (t, Inr ())
     \<and> live t = {p \<in> live s. pi_keyspace p \<noteq> i}
     \<and> cs_keyspaces t = bt_remove i (cs_keyspaces s)
     \<and> (\<forall>ks key. lookup (cs_map t) ks key = (if ks = i then None else lookup (cs_map s) ks key))
     \<and> (\<forall>p\<in>live s. pi_keyspace p = i \<longrightarrow> \<not> is_splitting t (pi_id p) \<and> \<not> is_merging t (pi_id p) \<and> phase t (pi_id p) = None)"
proof -
  have ok: "cluster_ok s" using reachable_ok[OF assms(1)] assms(2) by simp
  define t where "t = fst (delete_keyspace s i)"
  have a: "apply_command s (DeleteKeyspace i) = (t, Inr ())"
    using assms(3) by (simp add: apply_permitted permitted t_def delete_keyspace_def Let_def)
  have tok: "cluster_ok t" unfolding t_def by (rule delete_keyspace_ok[OF ok])
  have live: "live t = {p \<in> live s. pi_keyspace p \<noteq> i}" unfolding t_def by (rule live_delete_keyspace[OF ok assms(3)])
  have ks: "cs_keyspaces t = bt_remove i (cs_keyspaces s)"
    using assms(3) by (simp add: t_def delete_keyspace_def Let_def edit_simps rebuild_map_without_def)
  have look: "lookup (cs_map u) k key = Some p \<longleftrightarrow> p \<in> live u \<and> pi_keyspace p = k \<and> contains (pi_range p) key"
    if "cluster_ok u" for u k key p
    unfolding live_def by (rule lookup_iff[OF cluster_okD(1)[OF that]])
      (use exactly_covered_le1[OF cluster_okD(8)[OF that]] in blast)
  have "lookup (cs_map t) k key = (if k = i then None else lookup (cs_map s) k key)" for k key
  proof (cases "lookup (cs_map t) k key")
    case None
    have "k = i" if l: "lookup (cs_map s) k key = Some p" for p
    proof (rule ccontr)
      assume "k \<noteq> i"
      then have "p \<in> live t \<and> pi_keyspace p = k \<and> contains (pi_range p) key" using l look[OF ok, of k key p] live by simp
      then show False using look[OF tok, of k key p] None by simp
    qed
    then show ?thesis using None by (cases "lookup (cs_map s) k key") auto
  next
    case (Some p)
    then have "p \<in> live t \<and> pi_keyspace p = k \<and> contains (pi_range p) key" using look[OF tok, of k key p] by blast
    then have "k \<noteq> i" "lookup (cs_map s) k key = Some p" using look[OF ok, of k key p] live by auto
    then show ?thesis using Some by simp
  qed
  moreover have "\<not> is_splitting t (pi_id p) \<and> \<not> is_merging t (pi_id p) \<and> phase t (pi_id p) = None"
    if "p \<in> live s" "pi_keyspace p = i" for p
  proof -
    have gone: "pi_id p \<notin> pi_id ` live t" using live live_unique[OF ok _ that(1)] that(2) by force
    then have "pi_id p \<notin># busy_bag t" using busy_live[OF tok] by blast
    then show ?thesis using gone tok by (simp add: busy_bag_set phase_def cluster_ok_def inv_phases_def)
  qed
  ultimately show ?thesis using a live ks by blast
qed

theorem delete_keyspace_removes_only_its_own_witness:
  "\<exists>t. apply_command (example_state example_split) (DeleteKeyspace 1) = (t, Inr ())
     \<and> live t = {p \<in> live (example_state example_split). pi_keyspace p \<noteq> 1}"
proof -
  have 1: "lawful cluster_state_new (example_setup @ example_split)" by code_simp
  have 2: "bt_contains (cs_keyspaces (example_state example_split)) 1" by code_simp
  show ?thesis using delete_keyspace_removes_only_its_own[OF 1 example_state_def 2] by blast
qed

section \<open>Counters, versions and protocol gates\<close>

text \<open>
  Nothing that is counted goes back: along any log, whatever it holds, the active version,
  the next partition id and the next keyspace id only grow, and an initialized version stays
  initialized.
\<close>

theorem counters_never_go_back:
  "cs_version (replay s xs) \<le> cs_version (replay s (xs @ ys))
   \<and> cs_next_partition_id (replay s xs) \<le> cs_next_partition_id (replay s (xs @ ys))
   \<and> cs_next_keyspace_id (replay s xs) \<le> cs_next_keyspace_id (replay s (xs @ ys))
   \<and> cs_version_initialized (replay s xs) \<le> cs_version_initialized (replay s (xs @ ys))"
proof -
  have "counters_grow t (foldl apply_step t ys)" for t
  proof (induction ys arbitrary: t)
    case (Cons c ys)
    have "counters_grow t (apply_step t c)" by (rule apply_counters)
    moreover have "counters_grow (apply_step t c) (foldl apply_step (apply_step t c) ys)" by (rule Cons.IH)
    ultimately show ?case by (auto simp: counters_grow_def)
  qed simp
  from this[of "foldl apply_step s xs"] show ?thesis by (auto simp: counters_grow_def replay_foldl)
qed

text \<open>
  The active version moves only by compare-and-set and only forwards: a proposal succeeds
  exactly when it names the version that is active and a later one (or the cluster never had a
  version), and a restart cannot take back a protocol the cluster has finalized.
\<close>

theorem version_moves_forwards_by_compare_and_set:
  "snd (apply_command s (SetClusterVersion version expect)) = Inr () \<longleftrightarrow>
     expect = cs_version s \<and> (cs_version s < version \<or> cs_version s = version_zero)"
  by (auto simp: apply_permitted permitted set_cluster_version_def)

text \<open>
  A node whose range of versions does not hold the active version cannot join or stay
  eligible: registration is refused once the cluster is initialized or holds data, and the node
  is not an eligible owner.
\<close>

theorem incompatible_node_refused:
  assumes "cs_version_initialized s \<or> \<not> is_fresh s" and "\<not> version_range_contains speaks (cs_version s)"
  shows "(\<exists>m. apply_command s (RegisterNode node role address speaks ready draining) = (s, Inl (InvalidArgument m)))
     \<and> (\<forall>n r. bt_get (cs_nodes s) n = Some r \<longrightarrow> nr_speaks r = speaks \<longrightarrow> \<not> is_eligible_owner s n)"
  using assms
  by (auto simp: apply_permitted permitted register_node_def state_compatibility_refusal_def refuse_def
      is_eligible_owner_def new_ownership_eligibility_def)

theorem incompatible_node_refused_witness:
  "\<exists>m. apply_command (example_state []) (RegisterNode 3 WorkerRole [] (version_range_exactly protocol_0_2) True False)
     = (example_state [], Inl (InvalidArgument m))"
proof -
  have "cs_version_initialized (example_state []) \<or> \<not> is_fresh (example_state [])"
    "\<not> version_range_contains (version_range_exactly protocol_0_2) (cs_version (example_state []))"
    by code_simp+
  from incompatible_node_refused[OF this] show ?thesis by blast
qed

text \<open>
  C27. The protocol gates, in a state that a lawful run reaches. Before protocol 0.1 is active the commands of the two-phase split, of
  the merge and of fence draining are refused; from then on the one-step split is refused
  instead. So a cluster never runs both kinds of split at once, and no split or merge is pending
  when the one-step split is allowed.
\<close>

theorem protocol_gates:
  assumes "lawful cluster_state_new cs" and "s = replay cluster_state_new cs"
  shows "if cs_version_initialized s \<and> protocol_0_1 \<le> cs_version s
     then apply_command s (SplitPartition p at lower upper e) = (s, Inl (Unavailable SplitSuperseded))
     else (is_protocol_0_1 c \<longrightarrow> apply_command s c = (s, Inl (Unavailable NeedsProtocol01)))
        \<and> (is_protocol_0_2 c \<longrightarrow> apply_command s c = (s, Inl (Unavailable MergeNeedsProtocol01)))
        \<and> split_intents s = [] \<and> merge_intents s = []"
proof (cases "cs_version_initialized s \<and> protocol_0_1 \<le> cs_version s")
  case True
  then show ?thesis by (simp add: apply_command_def ensure_command_permitted_def refuse_def)
next
  case False
  have ok: "cluster_ok s" using reachable_ok[OF assms(1)] assms(2) by simp
  have "is_protocol_0_1 c \<Longrightarrow> \<not> is_split_partition c" "is_protocol_0_2 c \<Longrightarrow> \<not> is_split_partition c \<and> \<not> is_protocol_0_1 c"
    by (cases c; simp)+
  then show ?thesis
    using False no_pending_below_0_1[OF ok False]
    by (auto simp: apply_command_def ensure_command_permitted_def ensure_merge_permitted_def refuse_def not_le
        split_intents_def merge_intents_def map_filter_def bt_values_def)
qed

theorem protocol_gates_witness:
  "apply_command (example_state []) (SplitPartition 1 [9] 2 3 1) = (example_state [], Inl (Unavailable SplitSuperseded))"
proof -
  have 1: "lawful cluster_state_new (example_setup @ [])" by code_simp
  have "cs_version_initialized (example_state []) \<and> protocol_0_1 \<le> cs_version (example_state [])" by code_simp
  then show ?thesis using protocol_gates[OF 1 example_state_def, of 1 "[9]" 2 3 1] by simp
qed

section \<open>What other components read\<close>

text \<open>
  Placement offers exactly the eligible workers, the ones that hold fewest partitions first,
  and the order is the same on every member: it depends on the state alone.
\<close>

theorem placement_offers_eligible_least_loaded:
  "set (placement_candidates s) = {nr_id n | n. n \<in> set (bt_values (cs_nodes s)) \<and> is_eligible_owner s (nr_id n)}
   \<and> sorted (map (\<lambda>n. (length (held_by (cs_map s) n), n)) (placement_candidates s))"
proof -
  let ?load = "\<lambda>n. (length (held_by (cs_map s) n), n)"
  let ?xs = "sort (map (\<lambda>n. ?load (nr_id n)) (filter (\<lambda>n. is_eligible_owner s (nr_id n)) (bt_values (cs_nodes s))))"
  have "map ?load (map snd ?xs) = ?xs" unfolding map_map by (rule map_idI) auto
  then show ?thesis by (auto simp: placement_candidates_def image_iff)
qed

lemma map_filter_total: "(\<And>x. x \<in> set xs \<Longrightarrow> f x \<noteq> None) \<Longrightarrow> List.map_filter f xs = map (\<lambda>x. the (f x)) xs"
proof (induction xs)
  case (Cons x xs)
  then obtain y where "f x = Some y" by fastforce
  then show ?case using Cons by (simp add: map_filter_simps)
qed (simp add: map_filter_simps)

text \<open>
  Workers see every split and every merge that is under way, and nothing else: the intents
  list each pending split under its parent with the parent's keyspace and range, and each pending
  merge with its generation.
\<close>

theorem intents_show_all_pending_work:
  assumes "lawful cluster_state_new cs" and "s = replay cluster_state_new cs"
  shows "map si_parent (split_intents s) = map fst (cs_pending_splits s)
     \<and> (\<forall>i\<in>set (split_intents s). \<exists>p\<in>live s. pi_id p = si_parent i \<and> pi_keyspace p = si_keyspace i
           \<and> pi_range p = si_parent_range i \<and> split_at (pi_range p) (si_at i) \<noteq> None)
     \<and> map mi_generation (merge_intents s) = map (me_generation \<circ> snd) (cs_pending_merges s)"
proof -
  have ok: "cluster_ok s" using reachable_ok[OF assms(1)] assms(2) by simp
  have split: "\<exists>p\<in>live s. pi_id p = fst x \<and> find_partition (cs_map s) (fst x) = Some p \<and> split_at (pi_range p) (sp_at (snd x)) \<noteq> None"
    if x: "x \<in> set (cs_pending_splits s)" for x
  proof -
    obtain p where "p \<in> live s" "pi_id p = fst x" "split_at (pi_range p) (sp_at (snd x)) \<noteq> None"
      using pending_split_ok[OF ok, of "fst x" "snd x"] x unfolding split_ok_def prod.collapse by blast
    then show ?thesis using find_iff[OF ok, of "fst x" p] by blast
  qed
  have merge: "\<exists>p. find_partition (cs_map s) (mg_lower (me_generation m)) = Some p"
    if m: "m \<in> set (bt_values (cs_pending_merges s))" for m
  proof -
    obtain q where "(q, m) \<in> set (cs_pending_merges s)" using m by (auto simp: set_bt_values)
    then obtain p where "p \<in> live s" "pi_id p = mg_lower (me_generation m)"
      using pending_merge_ok[OF ok] unfolding merge_ok_def by blast
    then show ?thesis using find_iff[OF ok] by blast
  qed
  define f where "f = (\<lambda>(parent, sp :: pending_split). case find_partition (cs_map s) parent of None \<Rightarrow> None
    | Some info \<Rightarrow> Some \<lparr>si_parent = parent, si_keyspace = pi_keyspace info, si_at = sp_at sp,
        si_lower = sp_lower sp, si_upper = sp_upper sp, si_epoch = sp_epoch sp,
        si_child_epoch = next_counter (sp_epoch sp), si_required = sp_required sp,
        si_prepared = sp_prepared sp, si_parent_range = pi_range info\<rparr>)"
  have f: "split_intents s = map (\<lambda>x. the (f x)) (cs_pending_splits s)"
    unfolding split_intents_def f_def[symmetric] using split
    by (intro map_filter_total) (fastforce simp: f_def)
  have one: "si_parent (the (f x)) = fst x \<and> (\<exists>p\<in>live s. pi_id p = fst x \<and> pi_keyspace p = si_keyspace (the (f x))
      \<and> pi_range p = si_parent_range (the (f x)) \<and> split_at (pi_range p) (si_at (the (f x))) \<noteq> None)"
    if "x \<in> set (cs_pending_splits s)" for x
    using split[OF that] by (cases x) (auto simp: f_def)
  have "map mi_generation (merge_intents s) = map me_generation (bt_values (cs_pending_merges s))"
    unfolding merge_intents_def using merge by (subst map_filter_total) (fastforce split: option.split)+
  then show ?thesis using one by (auto simp: f bt_values_def)
qed

theorem intents_show_all_pending_work_witness:
  "map si_parent (split_intents (example_state example_split)) = [1]
   \<and> map mi_generation (merge_intents (example_state example_merge)) = [example_generation]"
proof -
  have 1: "lawful cluster_state_new (example_setup @ example_split)" "lawful cluster_state_new (example_setup @ example_merge)"
    by code_simp+
  have 2: "map fst (cs_pending_splits (example_state example_split)) = [1]"
    "map (me_generation \<circ> snd) (cs_pending_merges (example_state example_merge)) = [example_generation]"
    by code_simp+
  show ?thesis
    using intents_show_all_pending_work[OF 1(1) example_state_def] intents_show_all_pending_work[OF 1(2) example_state_def] 2
    by simp
qed

section \<open>Where the code departs from its comments\<close>

text \<open>
  C28. A refused \<open>SetReplicas\<close> is not without effect: when it lists the owner among the replicas
  of a partition that is being split, the split is dropped and the epoch of the parent and the
  version of the map stay as they are. The comment above the code says that every path that
  drops a pending split bumps the parent's epoch.
\<close>

theorem refused_set_replicas_drops_the_split:
  assumes "check_epoch s i e = Inr p" and "pi_owner p = Some owner" and "owner \<in> set replicas"
    and "is_splitting s i" and "\<not> is_merging s i"
  shows "\<exists>t. apply_command s (SetReplicas i replicas e) = (t, Inl (InvalidArgument OwnerListedAsReplica))
     \<and> \<not> is_splitting t i \<and> cs_map t = cs_map s"
proof -
  let ?t = "s\<lparr>cs_pending_splits := bt_remove i (cs_pending_splits s)\<rparr>"
  have "List.find (\<lambda>(_, m). merge_touches i m) (cs_pending_merges s) = None"
    using assms(5) by (auto simp: find_None_iff not_merging)
  then have "abort_merge_for_parent_change ?t i = (?t, False)" by (simp add: abort_merge_for_parent_change_def)
  then have "set_replicas s i replicas e = (?t, Inl (InvalidArgument OwnerListedAsReplica))"
    using assms(1-3) by (simp add: set_replicas_def refuse_def)
  then show ?thesis by (auto simp: apply_permitted permitted is_splitting_def)
qed

theorem refused_set_replicas_drops_the_split_witness:
  "\<exists>t. apply_command (example_state example_split) (SetReplicas 1 [1] 1) = (t, Inl (InvalidArgument OwnerListedAsReplica))
     \<and> is_splitting (example_state example_split) 1 \<and> \<not> is_splitting t 1 \<and> cs_map t = cs_map (example_state example_split)"
proof -
  have 1: "check_epoch (example_state example_split) 1 1 = Inr (example_partition example_split 1)"
    "pi_owner (example_partition example_split 1) = Some 1" "1 \<in> set [1::node_id]"
    "is_splitting (example_state example_split) 1" "\<not> is_merging (example_state example_split) 1"
    by code_simp+
  show ?thesis using refused_set_replicas_drops_the_split[OF 1] 1(4) by blast
qed

text \<open>
  A transfer of ownership leaves a pending split in place, so a split can complete against
  holders that have changed since it was begun: below, node 1 prepared the split, the partition
  moved to node 2 alone, and the completed split makes node 1, which no longer holds the
  parent, the owner of the lower child. The comment in the code says that a pending split keeps
  the replica set from moving.
\<close>

theorem split_completes_on_a_former_holder:
  "lawful cluster_state_new (example_setup @ example_split @ [TransferOwnership 1 1 2 [] 1])
   \<and> is_splitting (example_state (example_split @ [TransferOwnership 1 1 2 [] 1])) 1
   \<and> \<not> holds (example_partition (example_split @ [TransferOwnership 1 1 2 [] 1]) 1) 1
   \<and> snd (apply_command (example_state (example_split @ [TransferOwnership 1 1 2 [] 1])) (CompleteSplit 1 2)) = Inr ()
   \<and> pi_owner (example_partition (example_split @ [TransferOwnership 1 1 2 [] 1, CompleteSplit 1 2]) 2) = Some 1"
  by (intro conjI) code_simp+

end
