(* ===== verification/Lease.thy ===== *)
theory Lease
  imports Core
begin

text \<open>
  \<open>orbita-server/src/lease.rs\<close>: read leases and per-key invalidation. A replica answers a read
  from its own storage only while it holds a lease, has missed no invalidation and has not been
  told that the key is changing; the owner keeps a table of the leases it has given out.

  A \<open>Duration\<close> is its number of nanoseconds; \<open>as_nanos() as u64\<close> keeps the low 64 bits. The
  hash maps are ordered maps here: their order is not observed by the code.
\<close>

section \<open>The replica's read state\<close>

type_synonym duration = nat

definition nanos :: "duration \<Rightarrow> u64" where
  "nanos d = of_nat d"

definition default_lease_margin :: duration where
  "default_lease_margin = 50 * 1000000"

definition default_lease_duration :: duration where
  "default_lease_duration = 500 * 1000000"

record read_state =
  rs_lease_until :: u64
  rs_next_expected :: lamport
  rs_gap :: bool
  rs_invalid :: "(bytes, lamport) btree"
  rs_generation :: u64

definition read_state_new :: "lamport \<Rightarrow> read_state" where
  "read_state_new applied_through =
     \<lparr>rs_lease_until = 0, rs_next_expected = next_counter applied_through, rs_gap = False,
      rs_invalid = [], rs_generation = 0\<rparr>"

definition lease_take :: "u64 \<Rightarrow> duration \<Rightarrow> duration \<Rightarrow> read_state \<Rightarrow> read_state" where
  "lease_take now duration margin s =
     s\<lparr>rs_lease_until := saturating_add now (nanos (duration - margin))\<rparr>"

definition drop_lease :: "read_state \<Rightarrow> read_state" where
  "drop_lease s = s\<lparr>rs_lease_until := 0\<rparr>"

definition holds_lease :: "read_state \<Rightarrow> u64 \<Rightarrow> bool" where
  "holds_lease s now = (now < rs_lease_until s)"

definition invalidate :: "bytes \<Rightarrow> lamport \<Rightarrow> read_state \<Rightarrow> read_state" where
  "invalidate key l s =
     (if l < rs_next_expected s then s
      else
        let s1 = s\<lparr>rs_generation := rs_generation s + 1\<rparr>;
            s2 = (if rs_next_expected s < l then drop_lease (s1\<lparr>rs_gap := True\<rparr>) else s1);
            held = (case bt_get (rs_invalid s) key of None \<Rightarrow> l | Some h \<Rightarrow> h)
        in s2\<lparr>rs_next_expected := next_counter l,
              rs_invalid := bt_insert key (if held < l then l else held) (rs_invalid s)\<rparr>)"

definition key_applied :: "bytes \<Rightarrow> lamport \<Rightarrow> read_state \<Rightarrow> read_state" where
  "key_applied key l s =
     (case bt_get (rs_invalid s) key of
        Some held \<Rightarrow>
          if held \<le> l
          then s\<lparr>rs_invalid := bt_remove key (rs_invalid s), rs_generation := rs_generation s + 1\<rparr>
          else s
      | None \<Rightarrow> s)"

definition accept_grant ::
  "u64 \<Rightarrow> lamport \<Rightarrow> duration \<Rightarrow> duration \<Rightarrow> read_state \<Rightarrow> read_state \<times> bool" where
  "accept_grant now through duration margin s =
     (if duration = 0 then (drop_lease s, True)
      else if rs_next_expected s \<le> through then (drop_lease s, False)
      else (lease_take now duration margin (s\<lparr>rs_gap := False\<rparr>), True))"

definition history_cut :: "lamport \<Rightarrow> read_state \<Rightarrow> read_state" where
  "history_cut horizon s =
     (drop_lease (s\<lparr>rs_generation := rs_generation s + 1\<rparr>))
       \<lparr>rs_invalid := filter (\<lambda>(_, l). l \<le> horizon) (rs_invalid s),
        rs_next_expected := next_counter horizon, rs_gap := False\<rparr>"

definition may_serve :: "read_state \<Rightarrow> u64 \<Rightarrow> bytes \<Rightarrow> u64 option" where
  "may_serve s now key =
     (if holds_lease s now \<and> \<not> rs_gap s \<and> \<not> bt_contains (rs_invalid s) key
      then Some (rs_generation s) else None)"

definition still_serving :: "read_state \<Rightarrow> u64 \<Rightarrow> bytes \<Rightarrow> u64 \<Rightarrow> bool" where
  "still_serving s now key generation =
     (rs_generation s = generation \<and> may_serve s now key \<noteq> None)"

definition invalid_len :: "read_state \<Rightarrow> nat" where
  "invalid_len s = length (rs_invalid s)"

section \<open>The owner's table\<close>

type_synonym lease_table = "(node_id, u64) btree"

definition table_grant :: "node_id \<Rightarrow> u64 \<Rightarrow> duration \<Rightarrow> lease_table \<Rightarrow> lease_table" where
  "table_grant node now duration t = bt_insert node (saturating_add now (nanos duration)) t"

definition table_revoke :: "node_id \<Rightarrow> lease_table \<Rightarrow> lease_table" where
  "table_revoke node t = bt_remove node t"

definition holders_with_expiry :: "lease_table \<Rightarrow> u64 \<Rightarrow> (node_id \<times> u64) list" where
  "holders_with_expiry t now = sort (filter (\<lambda>(_, until). now < until) t)"

section \<open>What the operations do to a read\<close>

definition read_state_ok :: "read_state \<Rightarrow> bool" where
  "read_state_ok s \<longleftrightarrow> bt_ok (rs_invalid s)"

lemma read_state_ok_new [simp]: "read_state_ok (read_state_new l)"
  by (simp add: read_state_ok_def read_state_new_def)

lemma read_state_ok_invalidate [simp]: "read_state_ok s \<Longrightarrow> read_state_ok (invalidate k l s)"
  by (simp add: read_state_ok_def invalidate_def drop_lease_def Let_def bt_insert_ok)

lemma read_state_ok_applied [simp]: "read_state_ok s \<Longrightarrow> read_state_ok (key_applied k l s)"
  by (auto simp: read_state_ok_def key_applied_def bt_remove_ok split: option.split)

lemma read_state_ok_accept [simp]:
  "read_state_ok s \<Longrightarrow> read_state_ok (fst (accept_grant now through d m s))"
  by (simp add: read_state_ok_def accept_grant_def drop_lease_def lease_take_def)

lemma read_state_ok_cut [simp]: "read_state_ok s \<Longrightarrow> read_state_ok (history_cut horizon s)"
  by (simp add: read_state_ok_def history_cut_def drop_lease_def bt_ok_filter)

lemma may_serve_iff:
  "may_serve s now key = Some g \<longleftrightarrow>
     holds_lease s now \<and> \<not> rs_gap s \<and> bt_get (rs_invalid s) key = None \<and> g = rs_generation s"
  by (auto simp: may_serve_def bt_contains_def)

lemma holders_iff: "(n, u) \<in> set (holders_with_expiry t now) \<longleftrightarrow> (n, u) \<in> set t \<and> now < u"
  by (auto simp: holders_with_expiry_def)

lemma unat_nanos: "d < 2 ^ 64 \<Longrightarrow> unat (nanos d) = d"
  by (simp add: nanos_def unat_of_nat)

text \<open>The replica's copy of a lease against the owner's, both in nanoseconds of one clock.\<close>

lemma lease_ends:
  assumes "d < 2 ^ 64"
  shows "unat (rs_lease_until (lease_take received d m s)) = min (unat received + (d - m)) (2 ^ 64 - 1)"
    and "bt_get (table_grant n sent d t) n = Some u \<Longrightarrow> unat u = min (unat sent + d) (2 ^ 64 - 1)"
  using assms by (auto simp: lease_take_def table_grant_def unat_saturating_add unat_nanos)

end
