(* ===== verification/Wal_Format.thy ===== *)
theory Wal_Format
  imports Codec
begin

text \<open>
  \<open>orbita-wal/src/format.rs\<close>: the bytes a log record becomes, on disk and on the wire. A frame
  is the length of the body, a checksum of the length and the body, and the body.

  The checksum function is the \<open>crc32fast\<close> crate's and is a parameter \<open>crc\<close> of every definition
  that uses it; feeding a \<open>Hasher\<close> piece by piece hashes the concatenation. A \<open>Reader\<close> is the
  bytes it has not consumed.

  The locale \<open>exact_codec\<close> is the contract of the readers of this crate: what was written is
  read back, and whatever is read successfully is the encoding of the value read, so that a
  value has one encoding.
\<close>

section \<open>Records\<close>

datatype wal_op =
    PutOp bytes bytes "u64 option"
  | DeleteOp bytes "u64 option"

record wal_entry =
  we_lamport :: lamport
  we_epoch :: epoch
  we_partition :: partition_id
  we_op :: wal_op

datatype log_record =
    EntryRecord wal_entry
  | CheckpointRecord lamport
  | FenceRecord epoch

fun record_lamport :: "log_record \<Rightarrow> lamport option" where
  "record_lamport (EntryRecord e) = Some (we_lamport e)"
| "record_lamport _ = None"

datatype frame_error = Incomplete | Checksum | Malformed

definition max_frame_body_bytes :: nat where
  "max_frame_body_bytes = max_key_bytes + max_value_bytes + 128"

section \<open>The reader\<close>

type_synonym 'a parser = "bytes \<Rightarrow> frame_error + ('a \<times> bytes)"

definition pbind :: "'a parser \<Rightarrow> ('a \<Rightarrow> 'b parser) \<Rightarrow> 'b parser" where
  "pbind p f bs = (case p bs of Inl e \<Rightarrow> Inl e | Inr (x, bs') \<Rightarrow> f x bs')"

definition pret :: "'a \<Rightarrow> 'a parser" where
  "pret x bs = Inr (x, bs)"

definition pfail :: "'a parser" where
  "pfail bs = Inl Malformed"

definition wr_take :: "nat \<Rightarrow> bytes parser" where
  "wr_take n bs = (if length bs < n then Inl Malformed else Inr (take n bs, drop n bs))"

definition wr_u8 :: "u8 parser" where
  "wr_u8 = pbind (wr_take 1) (\<lambda>b. pret (hd b))"

definition wr_u32 :: "u32 parser" where
  "wr_u32 = pbind (wr_take 4) (\<lambda>b. pret (word_of_nat (le_value b)))"

definition wr_u64 :: "u64 parser" where
  "wr_u64 = pbind (wr_take 8) (\<lambda>b. pret (word_of_nat (le_value b)))"

definition wr_blob :: "bytes parser" where
  "wr_blob = pbind wr_u32 (\<lambda>len. wr_take (unat len))"

definition wr_string :: "bytes parser" where
  "wr_string = pbind wr_u32 (\<lambda>len. pbind (wr_take (unat len))
     (\<lambda>raw. if utf8_valid raw then pret raw else pfail))"

text \<open>\<open>match r.u8()? { 0 => None, 1 => Some(r.u64()?), _ => Malformed }\<close>\<close>

definition wr_deadline :: "u64 option parser" where
  "wr_deadline = pbind wr_u8 (\<lambda>t.
     if t = 0 then pret None
     else if t = 1 then pbind wr_u64 (\<lambda>at. pret (Some at))
     else pfail)"

section \<open>Segment headers\<close>

definition segment_magic :: bytes where
  "segment_magic = [79, 87, 65, 76]"

definition segment_header_bytes :: nat where
  "segment_header_bytes = 16"

definition segment_header :: "partition_id \<Rightarrow> bytes" where
  "segment_header p = segment_magic @ le_bytes 2 1 @ le_bytes 2 0 @ put_u64 p"

definition parse_segment_header :: "bytes \<Rightarrow> frame_error + partition_id" where
  "parse_segment_header buf =
     (if length buf < segment_header_bytes then Inl Incomplete
      else if take 4 buf \<noteq> segment_magic then Inl Malformed
      else if le_value (take 2 (drop 4 buf)) \<noteq> 1 then Inl Malformed
      else if le_value (take 2 (drop 6 buf)) \<noteq> 0 then Inl Malformed
      else Inr (word_of_nat (le_value (take 8 (drop 8 buf)))))"

section \<open>Frames\<close>

definition put_blob :: "bytes \<Rightarrow> bytes" where
  "put_blob blob = put_u32 (word_of_nat (length blob)) @ blob"

definition put_deadline :: "u64 option \<Rightarrow> bytes" where
  "put_deadline d = (case d of Some at \<Rightarrow> put_u8 1 @ put_u64 at | None \<Rightarrow> put_u8 0)"

fun put_op :: "wal_op \<Rightarrow> bytes" where
  "put_op (PutOp key value expires) = put_u8 1 @ put_blob key @ put_blob value @ put_deadline expires"
| "put_op (DeleteOp key expires) = put_u8 2 @ put_blob key @ put_deadline expires"

fun record_body :: "log_record \<Rightarrow> bytes" where
  "record_body (EntryRecord e) =
     put_u8 1 @ put_u64 (we_lamport e) @ put_u64 (we_epoch e) @ put_u64 (we_partition e) @ put_op (we_op e)"
| "record_body (CheckpointRecord applied_through) = put_u8 2 @ put_u64 applied_through"
| "record_body (FenceRecord e) = put_u8 3 @ put_u64 e"

text \<open>
  \<open>u32::try_from(body.len())\<close> succeeds for every body within the limits; a longer body would end
  the process, and no statement below speaks of one.
\<close>

definition frame_encode :: "(bytes \<Rightarrow> u32) \<Rightarrow> log_record \<Rightarrow> bytes" where
  "frame_encode crc r =
     (let body = record_body r; len = put_u32 (word_of_nat (length body))
      in len @ put_u32 (crc (len @ body)) @ body)"

definition wr_op :: "wal_op parser" where
  "wr_op = pbind wr_u8 (\<lambda>tag.
     if tag = 1 then pbind wr_blob (\<lambda>key. pbind wr_blob (\<lambda>v. pbind wr_deadline (\<lambda>d. pret (PutOp key v d))))
     else if tag = 2 then pbind wr_blob (\<lambda>key. pbind wr_deadline (\<lambda>d. pret (DeleteOp key d)))
     else pfail)"

definition wr_record :: "log_record parser" where
  "wr_record = pbind wr_u8 (\<lambda>kind.
     if kind = 1 then
       pbind wr_u64 (\<lambda>l. pbind wr_u64 (\<lambda>e. pbind wr_u64 (\<lambda>p. pbind wr_op (\<lambda>op'.
         pret (EntryRecord \<lparr>we_lamport = l, we_epoch = e, we_partition = p, we_op = op'\<rparr>)))))
     else if kind = 2 then pbind wr_u64 (\<lambda>l. pret (CheckpointRecord l))
     else if kind = 3 then pbind wr_u64 (\<lambda>e. pret (FenceRecord e))
     else pfail)"

definition decode_body :: "bytes \<Rightarrow> frame_error + log_record" where
  "decode_body body = bind_res (wr_record body) (\<lambda>(r, rest). if rest \<noteq> [] then Inl Malformed else Inr r)"

definition frame_decode :: "(bytes \<Rightarrow> u32) \<Rightarrow> bytes \<Rightarrow> frame_error + (log_record \<times> nat)" where
  "frame_decode crc buf =
     (if length buf < 8 then Inl Incomplete
      else
        let len = le_value (take 4 buf);
            sum = word_of_nat (le_value (take 4 (drop 4 buf)))
        in if len = 0 \<or> max_frame_body_bytes < len then Inl Checksum
           else if length buf < 8 + len then Inl Incomplete
           else
             let body = take len (drop 8 buf)
             in if crc (put_u32 (word_of_nat len) @ body) \<noteq> sum then Inl Checksum
                else bind_res (decode_body body) (\<lambda>r. Inr (r, 8 + len)))"

section \<open>Exact codecs\<close>

named_theorems exact_steps \<open>rewriting of parsers on the encoding they read\<close>

lemma pret_simp [exact_steps]: "pret x bs = Inr (x, bs)"
  by (simp add: pret_def)

lemma pbind_Inr: "p bs = Inr (x, bs') \<Longrightarrow> pbind p f bs = f x bs'"
  by (simp add: pbind_def)

lemma pbind_okE:
  assumes "pbind p f bs = Inr y"
  obtains x bs' where "p bs = Inr (x, bs')" "f x bs' = Inr y"
  using assms by (auto simp: pbind_def split: sum.splits)

lemma wr_take_ok: "wr_take n bs = Inr (x, rest) \<longleftrightarrow> bs = x @ rest \<and> length x = n"
  by (auto simp: wr_take_def)

locale exact_codec =
  fixes enc :: "'a \<Rightarrow> bytes" and dec :: "'a parser" and good :: "'a \<Rightarrow> bool"
  assumes decoded_iff: "dec bs = Inr (x, rest) \<longleftrightarrow> bs = enc x @ rest \<and> good x"
begin

lemma step: "good x \<Longrightarrow> pbind dec f (enc x @ rest) = f x rest"
  by (rule pbind_Inr) (simp add: decoded_iff)

lemma roundtrip: "good x \<Longrightarrow> dec (enc x @ rest) = Inr (x, rest)"
  by (simp add: decoded_iff)

lemma exact: "dec bs = Inr (x, rest) \<Longrightarrow> bs = enc x @ rest \<and> good x"
  by (simp add: decoded_iff)

lemma inverse: "pbind dec f bs = Inr y \<longleftrightarrow> (\<exists>x rest. bs = enc x @ rest \<and> good x \<and> f x rest = Inr y)"
proof
  assume "pbind dec f bs = Inr y"
  then obtain x rest where "dec bs = Inr (x, rest)" "f x rest = Inr y" by (rule pbind_okE)
  then show "\<exists>x rest. bs = enc x @ rest \<and> good x \<and> f x rest = Inr y" using exact by blast
next
  assume "\<exists>x rest. bs = enc x @ rest \<and> good x \<and> f x rest = Inr y"
  then obtain x rest where x: "bs = enc x @ rest" "good x" "f x rest = Inr y" by blast
  show "pbind dec f bs = Inr y" by (rule trans[OF _ x(3)]) (unfold x(1), rule step[OF x(2)])
qed

end

interpretation x8: exact_codec put_u8 wr_u8 "\<lambda>_. True"
proof
  fix bs rest :: bytes and x :: u8
  show "(wr_u8 bs = Inr (x, rest)) = (bs = put_u8 x @ rest \<and> True)"
    by (cases bs) (auto simp: wr_u8_def pbind_def pret_def wr_take_def put_u8_def)
qed

interpretation x32: exact_codec put_u32 wr_u32 "\<lambda>_. True"
proof
  fix bs rest :: bytes and x :: u32
  show "(wr_u32 bs = Inr (x, rest)) = (bs = put_u32 x @ rest \<and> True)"
    by (auto simp: wr_u32_def pbind_def pret_def wr_take_def u32_of_le put_u32_le_value split: if_splits)
qed

interpretation x64: exact_codec put_u64 wr_u64 "\<lambda>_. True"
proof
  fix bs rest :: bytes and x :: u64
  show "(wr_u64 bs = Inr (x, rest)) = (bs = put_u64 x @ rest \<and> True)"
    by (auto simp: wr_u64_def pbind_def pret_def wr_take_def u64_of_le put_u64_le_value split: if_splits)
qed

lemmas exact_basic_inverse = x8.inverse x32.inverse x64.inverse

lemma tag_read [simp]:
  "pbind wr_u8 f [] = Inl Malformed"
  "pbind wr_u8 f (t # bs) = f t bs"
  by (simp_all add: pbind_def wr_u8_def wr_take_def pret_def)

interpretation xblob: exact_codec put_blob wr_blob len32
proof
  fix bs x rest :: bytes
  have "unat len < 2 ^ 32" for len :: u32 using unsigned_less[of len, where 'a = nat] by simp
  moreover have "word_of_nat (unat len) = len" for len :: u32 by simp
  ultimately show "(wr_blob bs = Inr (x, rest)) = (bs = put_blob x @ rest \<and> len32 x)"
    by (force simp: wr_blob_def x32.inverse wr_take_ok put_blob_def unat_len32)
qed

interpretation xstring: exact_codec put_blob wr_string str_ok
proof
  fix bs x rest :: bytes
  have "wr_string bs = Inr (x, rest) \<longleftrightarrow> wr_blob bs = Inr (x, rest) \<and> utf8_valid x"
    by (auto simp: wr_string_def wr_blob_def pbind_def pret_def pfail_def split: sum.splits if_splits)
  then show "(wr_string bs = Inr (x, rest)) = (bs = put_blob x @ rest \<and> str_ok x)"
    by (auto simp: xblob.decoded_iff str_ok_def)
qed

interpretation xdeadline: exact_codec put_deadline wr_deadline "\<lambda>_. True"
proof
  fix bs rest :: bytes and x :: "u64 option"
  show "(wr_deadline bs = Inr (x, rest)) = (bs = put_deadline x @ rest \<and> True)"
    by (cases bs; cases x)
      (auto simp: wr_deadline_def x64.inverse pret_def pfail_def put_deadline_def put_u8_def)
qed

fun op_ok :: "wal_op \<Rightarrow> bool" where
  "op_ok (PutOp key value _) = (len32 key \<and> len32 value)"
| "op_ok (DeleteOp key _) = len32 key"

interpretation xop: exact_codec put_op wr_op op_ok
proof
  fix bs rest :: bytes and x :: wal_op
  show "(wr_op bs = Inr (x, rest)) = (bs = put_op x @ rest \<and> op_ok x)"
    by (cases bs; cases x)
      (auto simp: wr_op_def xblob.inverse xdeadline.inverse pret_def pfail_def put_u8_def)
qed

fun rec_ok :: "log_record \<Rightarrow> bool" where
  "rec_ok (EntryRecord e) = op_ok (we_op e)"
| "rec_ok _ = True"

interpretation xrecord: exact_codec record_body wr_record rec_ok
proof
  fix bs rest :: bytes and x :: log_record
  show "(wr_record bs = Inr (x, rest)) = (bs = record_body x @ rest \<and> rec_ok x)"
  proof (cases x rule: rec_ok.cases)
    case (1 e)
    then show ?thesis
      by (cases bs; cases e) (auto simp: wr_record_def x64.inverse xop.inverse pret_def pfail_def put_u8_def)
  qed (cases bs; auto simp: wr_record_def x64.inverse xop.inverse pret_def pfail_def put_u8_def)+
qed


section \<open>Frames are exact\<close>

definition record_fits :: "log_record \<Rightarrow> bool" where
  "record_fits r \<longleftrightarrow> length (record_body r) \<le> max_frame_body_bytes"

lemma max_frame_body_small: "max_frame_body_bytes < 2 ^ 32"
  by (simp add: max_frame_body_bytes_def max_key_bytes_def max_value_bytes_def)

lemma length_put_blob [simp]: "length (put_blob b) = 4 + length b"
  by (simp add: put_blob_def)

lemma short_op_ok: "length (put_op x) < 2 ^ 32 \<Longrightarrow> op_ok x"
  by (cases x) auto

lemma record_fits_ok: "record_fits r \<Longrightarrow> rec_ok r"
  using max_frame_body_small
  by (cases r rule: rec_ok.cases) (auto simp: record_fits_def put_u8_def intro!: short_op_ok)

lemma record_body_nonempty: "record_body r \<noteq> []"
  by (cases r) (auto simp: put_u8_def)

lemma decode_body_iff: "decode_body body = Inr r \<longleftrightarrow> body = record_body r \<and> rec_ok r"
  by (auto simp: decode_body_def bind_res_eq_Inr xrecord.decoded_iff)

lemma length_frame_encode: "length (frame_encode crc r) = 8 + length (record_body r)"
  by (simp add: frame_encode_def Let_def)

lemma frame_prefix:
  assumes "record_fits r"
  shows "le_value (take 4 (frame_encode crc r @ rest)) = length (record_body r)"
    and "take 4 (drop 4 (frame_encode crc r @ rest)) =
      put_u32 (crc (put_u32 (word_of_nat (length (record_body r))) @ record_body r))"
    and "drop 8 (frame_encode crc r @ rest) = record_body r @ rest"
proof -
  have "unat (word_of_nat (length (record_body r)) :: u32) = length (record_body r)"
    using assms max_frame_body_small by (simp add: record_fits_def unat_len32)
  moreover have "length (record_body r) < 256 ^ 4" using assms max_frame_body_small by (simp add: record_fits_def)
  ultimately show "le_value (take 4 (frame_encode crc r @ rest)) = length (record_body r)"
    by (simp add: frame_encode_def Let_def put_u32_def le_value_le_bytes)
qed (simp_all add: frame_encode_def Let_def)

lemma frame_roundtrip:
  assumes "record_fits r"
  shows "frame_decode crc (frame_encode crc r @ rest) = Inr (r, length (frame_encode crc r))"
proof -
  have "length (record_body r) \<noteq> 0" "\<not> max_frame_body_bytes < length (record_body r)"
    using assms record_body_nonempty by (auto simp: record_fits_def)
  moreover have "decode_body (record_body r) = Inr r" using assms record_fits_ok by (simp add: decode_body_iff)
  ultimately show ?thesis
    using frame_prefix[OF assms, of crc rest]
    by (simp add: frame_decode_def Let_def length_frame_encode u32_of_le)
qed

lemma frame_exact:
  assumes "frame_decode crc buf = Inr (r, n)"
  shows "record_fits r \<and> take n buf = frame_encode crc r \<and> n = length (frame_encode crc r) \<and> n \<le> length buf"
proof -
  let ?len = "le_value (take 4 buf)"
  let ?body = "take ?len (drop 8 buf)"
  have g: "\<not> length buf < 8" "?len \<noteq> 0" "?len \<le> max_frame_body_bytes" "\<not> length buf < 8 + ?len"
    "crc (put_u32 (word_of_nat ?len) @ ?body) = word_of_nat (le_value (take 4 (drop 4 buf)))"
    "decode_body ?body = Inr r" "n = 8 + ?len"
    using assms by (auto simp: frame_decode_def Let_def bind_res_eq_Inr split: if_splits)
  have b: "?body = record_body r" using g(6) by (simp add: decode_body_iff)
  have l: "length (record_body r) = ?len" using g(4) unfolding b[symmetric] by simp
  have "put_u32 (word_of_nat ?len) = take 4 buf" using g(1) by (intro put_u32_le_value) simp
  moreover have "put_u32 (crc (put_u32 (word_of_nat ?len) @ ?body)) = take 4 (drop 4 buf)"
    unfolding g(5) using g(1) by (intro put_u32_le_value) simp
  moreover have "take (8 + ?len) buf = take 4 buf @ take 4 (drop 4 buf) @ ?body"
  proof -
    have "take (8 + ?len) buf = take (4 + (4 + ?len)) buf" by simp
    also have "\<dots> = take 4 buf @ take (4 + ?len) (drop 4 buf)" by (rule take_add)
    also have "take (4 + ?len) (drop 4 buf) = take 4 (drop 4 buf) @ take ?len (drop 4 (drop 4 buf))" by (rule take_add)
    finally show ?thesis by simp
  qed
  ultimately have "take n buf = frame_encode crc r"
    unfolding g(7) by (simp add: frame_encode_def Let_def b l)
  then show ?thesis using g l by (auto simp: record_fits_def length_frame_encode)
qed

lemma frame_torn:
  assumes "record_fits r" and "frame_encode crc r = p @ q" and "q \<noteq> []"
  shows "frame_decode crc p = Inl Incomplete"
proof (cases "length p < 8")
  case False
  have "take 4 p = take 4 (frame_encode crc r)" using False assms(2) by simp
  then have "le_value (take 4 p) = length (record_body r)" using frame_prefix(1)[OF assms(1), of crc "[]"] by simp
  moreover have "length p < 8 + length (record_body r)"
    using arg_cong[OF assms(2), of length] assms(3) by (simp add: length_frame_encode)
  ultimately show ?thesis using False assms(1) record_body_nonempty[of r]
    by (auto simp: frame_decode_def Let_def record_fits_def)
qed (simp add: frame_decode_def)

lemma segment_header_list: "segment_header p = [79, 87, 65, 76, 1, 0, 0, 0] @ put_u64 p"
  by (simp add: segment_header_def segment_magic_def numeral_2_eq_2)

lemma header_roundtrip: "parse_segment_header (segment_header p @ rest) = Inr p"
  by (simp add: parse_segment_header_def segment_header_list segment_magic_def segment_header_bytes_def u64_of_le)

lemma length_segment_header: "length (segment_header p) = segment_header_bytes"
  by (simp add: segment_header_def segment_magic_def segment_header_bytes_def)

section \<open>One encoding for each record\<close>

text \<open>
  C19. Frames are exact: reading a buffer gives a record and a length precisely when the buffer
  starts with the frame of that record, the record is within the limits and the length is the
  frame's. So what was written is read back, no other bytes are taken for it, and a replica that
  stores the bytes it was sent stores what it would have written itself.
\<close>

theorem frames_are_exact:
  "frame_decode crc buf = Inr (r, n) \<longleftrightarrow>
     record_fits r \<and> n = length (frame_encode crc r) \<and> (\<exists>rest. buf = frame_encode crc r @ rest)"
proof
  assume "frame_decode crc buf = Inr (r, n)"
  then have "record_fits r" "take n buf = frame_encode crc r" "n = length (frame_encode crc r)" using frame_exact by blast+
  then show "record_fits r \<and> n = length (frame_encode crc r) \<and> (\<exists>rest. buf = frame_encode crc r @ rest)"
    by (metis append_take_drop_id)
qed (auto simp: frame_roundtrip)

end
