(* ===== verification/Wal_Log.thy ===== *)
theory Wal_Log
  imports Wal_Format
begin

text \<open>
  \<open>orbita-wal/src/log.rs\<close>: one partition's log on one node's disk. The log is a directory of
  segment files; an owner and a replica append frames to the last one, record fences and
  checkpoints in it, drop whole segments, cut a divergent tail, and read everything back after a
  crash.

  The disk is the node's \<open>Disk\<close>: the files by segment number, each with the length that has been
  synced, and a script of the outcomes of the calls to come, so that every call can fail the way
  \<open>orbita-runtime/src/disk.rs\<close> says it can: with nothing written, or with part or all of the bytes
  written. \<open>open\<close>, \<open>size\<close> and \<open>read_at\<close> of a whole file are one call here; they change nothing.
\<close>

section \<open>The disk\<close>

datatype fault = Works | Fails | Tears nat

record log_file =
  fl_content :: bytes
  fl_synced :: nat

record disk =
  dk_files :: "(u64, log_file) btree"
  dk_faults :: "fault list"

datatype wal_msg = WalDisk | CheckpointBeyondDurable lamport lamport

type_synonym wal_error = "wal_msg error"

definition next_fault :: "disk \<Rightarrow> fault" where
  "next_fault d = (case dk_faults d of [] \<Rightarrow> Works | f # _ \<Rightarrow> f)"

definition called :: "disk \<Rightarrow> disk" where
  "called d = d\<lparr>dk_faults := tl (dk_faults d)\<rparr>"

definition edit_file :: "u64 \<Rightarrow> (log_file \<Rightarrow> log_file) \<Rightarrow> disk \<Rightarrow> disk" where
  "edit_file seq f d =
     (case bt_get (dk_files d) seq of
        None \<Rightarrow> d
      | Some fl \<Rightarrow> d\<lparr>dk_files := bt_insert seq (f fl) (dk_files d)\<rparr>)"

definition disk_create :: "u64 \<Rightarrow> (disk, wal_error, unit) action" where
  "disk_create seq d =
     (if next_fault d = Works
      then (if bt_contains (dk_files d) seq then called d
            else (called d)\<lparr>dk_files := bt_insert seq \<lparr>fl_content = [], fl_synced = 0\<rparr> (dk_files d)\<rparr>, Inr ())
      else (called d, Inl (Internal WalDisk)))"

definition disk_append :: "u64 \<Rightarrow> bytes \<Rightarrow> (disk, wal_error, unit) action" where
  "disk_append seq data d =
     (case next_fault d of
        Works \<Rightarrow> (edit_file seq (\<lambda>f. f\<lparr>fl_content := fl_content f @ data\<rparr>) (called d), Inr ())
      | Fails \<Rightarrow> (called d, Inl (Internal WalDisk))
      | Tears n \<Rightarrow> (edit_file seq (\<lambda>f. f\<lparr>fl_content := fl_content f @ take n data\<rparr>) (called d), Inl (Internal WalDisk)))"

definition disk_sync :: "u64 \<Rightarrow> (disk, wal_error, unit) action" where
  "disk_sync seq d =
     (if next_fault d = Works
      then (edit_file seq (\<lambda>f. f\<lparr>fl_synced := length (fl_content f)\<rparr>) (called d), Inr ())
      else (called d, Inl (Internal WalDisk)))"

definition disk_truncate :: "u64 \<Rightarrow> nat \<Rightarrow> (disk, wal_error, unit) action" where
  "disk_truncate seq offset d =
     (if next_fault d = Works
      then (edit_file seq (\<lambda>f. f\<lparr>fl_content := take offset (fl_content f), fl_synced := min (fl_synced f) offset\<rparr>) (called d), Inr ())
      else (called d, Inl (Internal WalDisk)))"

definition disk_remove :: "u64 \<Rightarrow> (disk, wal_error, unit) action" where
  "disk_remove seq d =
     (if next_fault d = Works \<and> bt_contains (dk_files d) seq
      then ((called d)\<lparr>dk_files := bt_remove seq (dk_files d)\<rparr>, Inr ())
      else (called d, Inl (Internal WalDisk)))"

definition disk_read :: "u64 \<Rightarrow> (disk, wal_error, bytes) action" where
  "disk_read seq d =
     (case bt_get (dk_files d) seq of
        Some f \<Rightarrow> if next_fault d = Works then (called d, Inr (fl_content f)) else (called d, Inl (Internal WalDisk))
      | None \<Rightarrow> (called d, Inl (Internal WalDisk)))"

definition disk_list :: "(disk, wal_error, u64 list) action" where
  "disk_list d =
     (if next_fault d = Works then (called d, Inr (map fst (dk_files d))) else (called d, Inl (Internal WalDisk)))"

text \<open>A crash keeps of every file what was synced and an arbitrary part of what was not.\<close>

definition crashes_to :: "disk \<Rightarrow> disk \<Rightarrow> bool" where
  "crashes_to d d' \<longleftrightarrow> dk_faults d' = [] \<and>
     list_all2 (\<lambda>(s, f) (s', f'). s' = s \<and> (\<exists>k \<ge> fl_synced f. fl_content f' = take k (fl_content f)
       \<and> fl_synced f' = length (fl_content f'))) (dk_files d) (dk_files d')"

section \<open>Scanning\<close>

datatype truncation_reason = TornTail | ChecksumMismatch | MalformedRecord | LamportOutOfOrder

record truncation =
  tr_segment :: u64
  tr_offset :: nat
  tr_reason :: truncation_reason

record segment_scan =
  ss_records :: "log_record list"
  ss_valid_end :: nat
  ss_stopped :: "truncation_reason option"

lemma frame_progress: "frame_decode crc bs = Inr (r, n) \<Longrightarrow> 0 < n"
  using frame_exact[of crc bs r n] by (simp add: length_frame_encode)

text \<open>The loop over the frames after the header; \<open>pos\<close> is where \<open>bs\<close> starts in the file.\<close>

function scan_frames :: "(bytes \<Rightarrow> u32) \<Rightarrow> bytes \<Rightarrow> nat \<Rightarrow> lamport \<Rightarrow> segment_scan" where
  "scan_frames crc bs pos prev =
     (if bs = [] then \<lparr>ss_records = [], ss_valid_end = pos, ss_stopped = None\<rparr>
      else
        case frame_decode crc bs of
          Inr (r, used) \<Rightarrow>
            if (case record_lamport r of Some l \<Rightarrow> l \<le> prev | None \<Rightarrow> False)
            then \<lparr>ss_records = [], ss_valid_end = pos, ss_stopped = Some LamportOutOfOrder\<rparr>
            else
              let rest = scan_frames crc (drop used bs) (pos + used)
                    (case record_lamport r of Some l \<Rightarrow> l | None \<Rightarrow> prev)
              in rest\<lparr>ss_records := r # ss_records rest\<rparr>
        | Inl Incomplete \<Rightarrow> \<lparr>ss_records = [], ss_valid_end = pos, ss_stopped = Some TornTail\<rparr>
        | Inl Checksum \<Rightarrow> \<lparr>ss_records = [], ss_valid_end = pos, ss_stopped = Some ChecksumMismatch\<rparr>
        | Inl Malformed \<Rightarrow> \<lparr>ss_records = [], ss_valid_end = pos, ss_stopped = Some MalformedRecord\<rparr>)"
  by pat_completeness auto
termination
  by (relation "measure (\<lambda>(_, bs, _, _). length bs)") (auto dest: frame_progress)

definition scan_segment :: "(bytes \<Rightarrow> u32) \<Rightarrow> bytes \<Rightarrow> partition_id \<Rightarrow> lamport \<Rightarrow> segment_scan" where
  "scan_segment crc bs p prev =
     (case parse_segment_header bs of
        Inr found \<Rightarrow>
          if found = p then scan_frames crc (drop segment_header_bytes bs) segment_header_bytes prev
          else \<lparr>ss_records = [], ss_valid_end = 0, ss_stopped = Some MalformedRecord\<rparr>
      | Inl Incomplete \<Rightarrow> \<lparr>ss_records = [], ss_valid_end = 0, ss_stopped = Some TornTail\<rparr>
      | Inl _ \<Rightarrow> \<lparr>ss_records = [], ss_valid_end = 0, ss_stopped = Some MalformedRecord\<rparr>)"

function offset_above :: "(bytes \<Rightarrow> u32) \<Rightarrow> bytes \<Rightarrow> nat \<Rightarrow> lamport \<Rightarrow> nat option" where
  "offset_above crc bs pos l =
     (if bs = [] then None
      else
        case frame_decode crc bs of
          Inr (r, used) \<Rightarrow>
            if (case record_lamport r of Some x \<Rightarrow> l < x | None \<Rightarrow> False) then Some pos
            else offset_above crc (drop used bs) (pos + used) l
        | Inl _ \<Rightarrow> Some pos)"
  by pat_completeness auto
termination
  by (relation "measure (\<lambda>(_, bs, _, _). length bs)") (auto dest: frame_progress)

definition first_offset_above :: "(bytes \<Rightarrow> u32) \<Rightarrow> bytes \<Rightarrow> lamport \<Rightarrow> nat option" where
  "first_offset_above crc bs l =
     (case parse_segment_header bs of
        Inl _ \<Rightarrow> None
      | Inr _ \<Rightarrow> offset_above crc (drop segment_header_bytes bs) segment_header_bytes l)"

declare scan_frames.simps [simp del] offset_above.simps [simp del]


record dir_scan =
  ds_segments :: "(u64 \<times> lamport) list"
  ds_next_seq :: u64
  ds_all_entries :: "wal_entry list"
  ds_durable :: lamport
  ds_applied_through :: lamport
  ds_epoch :: epoch
  ds_truncated :: "truncation option"

fun absorb :: "log_record \<Rightarrow> dir_scan \<Rightarrow> dir_scan" where
  "absorb (EntryRecord e) sc =
     sc\<lparr>ds_all_entries := ds_all_entries sc @ [e], ds_durable := we_lamport e,
        ds_epoch := max (ds_epoch sc) (we_epoch e)\<rparr>"
| "absorb (CheckpointRecord l) sc = sc\<lparr>ds_applied_through := l\<rparr>"
| "absorb (FenceRecord e) sc = sc\<lparr>ds_epoch := max (ds_epoch sc) e\<rparr>"

text \<open>The loop over the segments; the result has the segments behind the damage, if there is any.\<close>

fun scan_segments ::
  "(bytes \<Rightarrow> u32) \<Rightarrow> partition_id \<Rightarrow> u64 list \<Rightarrow> dir_scan \<Rightarrow> (disk, wal_error, dir_scan \<times> u64 list) action" where
  "scan_segments crc p [] sc = act_ret (sc, [])"
| "scan_segments crc p (seq # seqs) sc =
     act_bind (disk_read seq) (\<lambda>bs.
       let out = scan_segment crc bs p (ds_durable sc);
           sc1 = fold absorb (ss_records out) sc;
           sc2 = sc1\<lparr>ds_segments := ds_segments sc1 @ [(seq, ds_durable sc1)]\<rparr>
       in case ss_stopped out of
            None \<Rightarrow> scan_segments crc p seqs sc2
          | Some reason \<Rightarrow>
              act_then
                (if ss_valid_end out < length bs
                 then act_then (disk_truncate seq (ss_valid_end out)) (disk_sync seq) else act_ret ())
                (act_ret (sc2\<lparr>ds_truncated := Some \<lparr>tr_segment = seq, tr_offset = ss_valid_end out, tr_reason = reason\<rparr>\<rparr>, seqs)))"

definition scan_start :: "u64 list \<Rightarrow> dir_scan" where
  "scan_start seqs =
     \<lparr>ds_segments = [], ds_next_seq = (if seqs = [] then 1 else last seqs + 1), ds_all_entries = [],
      ds_durable = 0, ds_applied_through = 0, ds_epoch = 0, ds_truncated = None\<rparr>"

definition scan_directory :: "(bytes \<Rightarrow> u32) \<Rightarrow> partition_id \<Rightarrow> (disk, wal_error, dir_scan) action" where
  "scan_directory crc p =
     act_bind disk_list (\<lambda>seqs.
     act_bind (scan_segments crc p seqs (scan_start seqs)) (\<lambda>(sc, behind).
     act_then (act_each disk_remove behind)
       (case ds_truncated sc of
          Some t \<Rightarrow>
            if tr_offset t = 0
            then act_then (disk_remove (tr_segment t))
                   (act_ret (sc\<lparr>ds_segments := filter (\<lambda>s. fst s \<noteq> tr_segment t) (ds_segments sc)\<rparr>))
            else act_ret sc
        | None \<Rightarrow> act_ret sc)))"

definition ds_retained_from :: "dir_scan \<Rightarrow> lamport" where
  "ds_retained_from sc =
     (case ds_all_entries sc of [] \<Rightarrow> next_counter (ds_durable sc) | e # _ \<Rightarrow> we_lamport e)"

definition ds_entries :: "dir_scan \<Rightarrow> wal_entry list" where
  "ds_entries sc = filter (\<lambda>e. ds_applied_through sc < we_lamport e) (ds_all_entries sc)"

section \<open>The open log\<close>

record partition_log =
  pl_disk :: disk
  pl_partition :: partition_id
  pl_target :: nat
  pl_segments :: "(u64 \<times> lamport) list"
  pl_current :: u64
  pl_current_size :: nat
  pl_next_seq :: u64
  pl_durable :: lamport
  pl_applied_through :: lamport
  pl_epoch :: epoch
  pl_hydrated_through :: lamport
  pl_retained_from :: lamport

type_synonym 'a log_action = "(partition_log, wal_error, 'a) action"

record recovery_state =
  rv_entries :: "wal_entry list"
  rv_durable_lamport :: lamport
  rv_applied_through :: lamport
  rv_epoch :: epoch
  rv_truncated :: "truncation option"

definition on_disk :: "(disk, wal_error, 'a) action \<Rightarrow> 'a log_action" where
  "on_disk m s = (case m (pl_disk s) of (d, r) \<Rightarrow> (s\<lparr>pl_disk := d\<rparr>, r))"

definition create_segment :: "partition_id \<Rightarrow> u64 \<Rightarrow> (disk, wal_error, nat) action" where
  "create_segment p seq =
     act_then (disk_create seq)
       (act_then (disk_append seq (segment_header p))
         (act_then (disk_sync seq) (act_ret (length (segment_header p)))))"

definition recovery_of :: "dir_scan \<Rightarrow> recovery_state" where
  "recovery_of sc =
     \<lparr>rv_entries = ds_entries sc, rv_durable_lamport = ds_durable sc,
      rv_applied_through = ds_applied_through sc, rv_epoch = ds_epoch sc, rv_truncated = ds_truncated sc\<rparr>"

definition log_open ::
  "(bytes \<Rightarrow> u32) \<Rightarrow> partition_id \<Rightarrow> nat \<Rightarrow> disk \<Rightarrow> disk \<times> (wal_error + (partition_log \<times> recovery_state))" where
  "log_open crc p target =
     act_bind (scan_directory crc p) (\<lambda>sc.
     act_bind
       (case ds_segments sc of
          [] \<Rightarrow> act_bind (create_segment p (ds_next_seq sc)) (\<lambda>size.
                 act_ret (ds_next_seq sc, size, ds_next_seq sc + 1, [(ds_next_seq sc, 0)]))
        | _ \<Rightarrow> act_bind (disk_read (fst (last (ds_segments sc)))) (\<lambda>bs.
                 act_ret (fst (last (ds_segments sc)), length bs, fst (last (ds_segments sc)) + 1, ds_segments sc)))
     (\<lambda>(current, size, next_seq, segments).
     act_bind (act_get id) (\<lambda>d.
     act_ret
       (\<lparr>pl_disk = d, pl_partition = p, pl_target = target, pl_segments = segments, pl_current = current,
         pl_current_size = size, pl_next_seq = next_seq, pl_durable = ds_durable sc,
         pl_applied_through = ds_applied_through sc, pl_epoch = ds_epoch sc, pl_hydrated_through = 0,
         pl_retained_from = ds_retained_from sc\<rparr>,
        recovery_of sc))))"

definition update_last :: "('a \<Rightarrow> 'a) \<Rightarrow> 'a list \<Rightarrow> 'a list" where
  "update_last f xs = (if xs = [] then [] else butlast xs @ [f (last xs)])"

definition roll :: "unit log_action" where
  "roll =
     act_bind (act_get (\<lambda>s. (pl_partition s, pl_next_seq s))) (\<lambda>(p, seq).
     act_bind (on_disk (create_segment p seq)) (\<lambda>size.
     act_modify (\<lambda>s. s\<lparr>pl_next_seq := seq + 1, pl_current := seq, pl_current_size := size,
       pl_segments := pl_segments s @ [(seq, pl_durable s)]\<rparr>)))"

definition append_frames :: "bytes list \<Rightarrow> lamport \<Rightarrow> unit log_action" where
  "append_frames frames max_lamport =
     (if frames = [] then act_ret ()
      else
        act_then (act_bind (act_get (\<lambda>s. pl_target s \<le> pl_current_size s)) (\<lambda>full. if full then roll else act_ret ()))
        (act_bind (act_get pl_current) (\<lambda>current.
        act_then (on_disk (disk_append current (concat frames)))
        (act_then (on_disk (disk_sync current))
        (act_modify (\<lambda>s. s\<lparr>pl_current_size := pl_current_size s + length (concat frames),
           pl_durable := max (pl_durable s) max_lamport,
           pl_segments := update_last (\<lambda>(q, m). (q, max m max_lamport)) (pl_segments s)\<rparr>))))))"

definition write_record :: "(bytes \<Rightarrow> u32) \<Rightarrow> log_record \<Rightarrow> unit log_action" where
  "write_record crc r =
     act_bind (act_get pl_current) (\<lambda>current.
     act_then (on_disk (disk_append current (frame_encode crc r)))
     (act_then (on_disk (disk_sync current))
     (act_modify (\<lambda>s. s\<lparr>pl_current_size := pl_current_size s + length (frame_encode crc r)\<rparr>))))"

definition record_fence :: "(bytes \<Rightarrow> u32) \<Rightarrow> epoch \<Rightarrow> unit log_action" where
  "record_fence crc e =
     act_bind (act_get pl_epoch) (\<lambda>held.
     if e \<le> held then act_ret ()
     else act_then (write_record crc (FenceRecord e)) (act_modify (\<lambda>s. s\<lparr>pl_epoch := e\<rparr>)))"

definition drop_applied_segments :: "lamport \<Rightarrow> unit log_action" where
  "drop_applied_segments applied_through =
     act_bind (act_get pl_segments) (\<lambda>segments.
     let current_seq = (if segments = [] then 0 else fst (last segments));
         gone = takeWhile (\<lambda>(q, m). q \<noteq> current_seq \<and> m \<le> applied_through) segments;
         removable = map fst gone;
         dropped = map snd (filter (\<lambda>s. fst s \<in> set removable) segments)
     in act_then (act_each (\<lambda>q. on_disk (disk_remove q)) removable)
        (act_modify (\<lambda>s. s\<lparr>pl_segments := filter (\<lambda>s. fst s \<notin> set removable) (pl_segments s),
           pl_retained_from := (if dropped = [] then pl_retained_from s
             else max (pl_retained_from s) (next_counter (Max (set dropped))))\<rparr>)))"

definition checkpoint :: "(bytes \<Rightarrow> u32) \<Rightarrow> lamport \<Rightarrow> unit log_action" where
  "checkpoint crc applied_through =
     act_bind (act_get pl_durable) (\<lambda>durable.
     if durable < applied_through then act_fail (InvalidArgument (CheckpointBeyondDurable applied_through durable))
     else
       act_then (write_record crc (CheckpointRecord applied_through))
       (act_then (act_modify (\<lambda>s. s\<lparr>pl_applied_through := applied_through\<rparr>))
         (drop_applied_segments applied_through)))"

definition hydrate :: "lamport \<Rightarrow> partition_log \<Rightarrow> partition_log \<times> bool" where
  "hydrate through s =
     (if through \<le> pl_durable s then (s, False)
      else
        (s\<lparr>pl_hydrated_through := max (pl_hydrated_through s) through,
           pl_durable := through,
           pl_applied_through := max (pl_applied_through s) through,
           pl_segments := update_last (\<lambda>(q, m). (q, max m through)) (pl_segments s),
           pl_retained_from := max (pl_retained_from s) (next_counter through)\<rparr>, True))"

datatype catch_up = CaughtUpBy "wal_entry list" | UpToDate | BeyondRetention "lamport option"

definition entries_after :: "(bytes \<Rightarrow> u32) \<Rightarrow> lamport \<Rightarrow> catch_up log_action" where
  "entries_after crc after =
     act_bind (act_get pl_partition) (\<lambda>p.
     act_bind (on_disk (scan_directory crc p)) (\<lambda>sc.
     act_ret
       (case filter (\<lambda>e. after < we_lamport e) (ds_all_entries sc) of
          e # es \<Rightarrow>
            if we_lamport e = next_counter after then CaughtUpBy (e # es) else BeyondRetention (Some (we_lamport e))
        | [] \<Rightarrow> if after < ds_durable sc then BeyondRetention None else UpToDate)))"

text \<open>The search for the cut: the first segment that holds something above the Lamport.\<close>

fun find_cut :: "(bytes \<Rightarrow> u32) \<Rightarrow> lamport \<Rightarrow> nat \<Rightarrow> u64 list \<Rightarrow> (disk, wal_error, (nat \<times> nat) option) action" where
  "find_cut crc l i [] = act_ret None"
| "find_cut crc l i (q # qs) =
     act_bind (disk_read q) (\<lambda>bs.
       case first_offset_above crc bs l of
         Some offset \<Rightarrow> act_ret (Some (i, offset))
       | None \<Rightarrow> find_cut crc l (Suc i) qs)"

definition truncate_above :: "(bytes \<Rightarrow> u32) \<Rightarrow> lamport \<Rightarrow> unit log_action" where
  "truncate_above crc l =
     act_bind (act_get id) (\<lambda>s.
     if pl_durable s \<le> l then act_ret ()
     else
       act_bind (on_disk (find_cut crc l 0 (map fst (pl_segments s)))) (\<lambda>cut.
       case cut of
         None \<Rightarrow> act_ret ()
       | Some (index, offset) \<Rightarrow>
           let seq = fst (pl_segments s ! index);
               durable = max l (pl_hydrated_through s)
           in act_then (act_each (\<lambda>q. on_disk (disk_remove q)) (map fst (drop (Suc index) (pl_segments s))))
              (act_then (act_modify (\<lambda>s. s\<lparr>pl_segments := take (Suc index) (pl_segments s)\<rparr>))
              (act_then (on_disk (disk_truncate seq offset))
              (act_then (on_disk (disk_sync seq))
              (act_then (act_modify (\<lambda>s. s\<lparr>pl_current := seq, pl_current_size := offset, pl_durable := durable,
                  pl_retained_from := min (pl_retained_from s) (next_counter durable),
                  pl_segments := update_last (\<lambda>(q, _). (q, durable)) (pl_segments s)\<rparr>))
              (act_then (if 0 < pl_epoch s then write_record crc (FenceRecord (pl_epoch s)) else act_ret ())
                (if 0 < pl_applied_through s then write_record crc (CheckpointRecord (pl_applied_through s))
                 else act_ret ()))))))))"

end
