(* ===== verification/Wal_Recovery.thy ===== *)
theory Wal_Recovery
  imports Wal_Log
begin

text \<open>
  What a node reads back from its log. \<open>log_rep\<close> relates an open log to the records its files
  hold; every operation of \<open>Wal_Log\<close> on a disk that does its work keeps the relation and has a
  plain effect on the records. Scanning the files after a crash gives those records back.
\<close>

section \<open>Reading frames back\<close>

definition frames_of :: "(bytes \<Rightarrow> u32) \<Rightarrow> log_record list \<Rightarrow> bytes" where
  "frames_of crc rs = concat (map (frame_encode crc) rs)"

definition last_lamport :: "log_record list \<Rightarrow> lamport \<Rightarrow> lamport" where
  "last_lamport rs prev = fold (\<lambda>r l. case record_lamport r of Some x \<Rightarrow> x | None \<Rightarrow> l) rs prev"

fun rises :: "lamport \<Rightarrow> log_record list \<Rightarrow> bool" where
  "rises prev [] = True"
| "rises prev (r # rs) =
     (case record_lamport r of Some l \<Rightarrow> prev < l \<and> rises l rs | None \<Rightarrow> rises prev rs)"

lemma frames_of_simps [simp]:
  "frames_of crc [] = []"
  "frames_of crc (r # rs) = frame_encode crc r @ frames_of crc rs"
  "frames_of crc (rs @ rs') = frames_of crc rs @ frames_of crc rs'"
  by (simp_all add: frames_of_def)

lemma last_lamport_simps [simp]:
  "last_lamport [] prev = prev"
  "last_lamport (r # rs) prev = last_lamport rs (case record_lamport r of Some x \<Rightarrow> x | None \<Rightarrow> prev)"
  "last_lamport (rs @ rs') prev = last_lamport rs' (last_lamport rs prev)"
  by (simp_all add: last_lamport_def)

lemma rises_append: "rises prev (rs @ rs') \<longleftrightarrow> rises prev rs \<and> rises (last_lamport rs prev) rs'"
  by (induction rs arbitrary: prev) (auto split: option.splits)

lemma frame_encode_nonempty [simp]: "frame_encode crc r \<noteq> []"
  using length_frame_encode[of crc r] by auto

lemma scan_frames_step:
  assumes "record_fits r" and "rises prev (r # rs)"
  shows "scan_frames crc (frame_encode crc r @ tail) pos prev =
    (let rest = scan_frames crc tail (pos + length (frame_encode crc r)) (last_lamport [r] prev)
     in rest\<lparr>ss_records := r # ss_records rest\<rparr>)"
  using assms
  by (subst scan_frames.simps) (auto simp: frame_roundtrip Let_def split: option.splits)

lemma scan_frames_run:
  assumes "list_all record_fits rs" and "rises prev rs"
  shows "scan_frames crc (frames_of crc rs @ tail) pos prev =
    (let rest = scan_frames crc tail (pos + length (frames_of crc rs)) (last_lamport rs prev)
     in rest\<lparr>ss_records := rs @ ss_records rest\<rparr>)"
  using assms
proof (induction rs arbitrary: pos prev)
  case (Cons r rs)
  have "rises (last_lamport [r] prev) rs" using Cons.prems(2) by (auto split: option.splits)
  moreover have "record_fits r" "list_all record_fits rs" using Cons.prems(1) by simp_all
  ultimately show ?case
    using Cons.IH[of "last_lamport [r] prev" "pos + length (frame_encode crc r)"]
      scan_frames_step[of r prev rs crc "frames_of crc rs @ tail" pos] Cons.prems(2)
    by (simp add: Let_def add.assoc)
qed (simp add: Let_def)

lemma scan_frames_Nil [simp]:
  "scan_frames crc [] pos prev = \<lparr>ss_records = [], ss_valid_end = pos, ss_stopped = None\<rparr>"
  by (simp add: scan_frames.simps)

lemma scan_frames_torn:
  assumes "record_fits r" and "frame_encode crc r = p @ q" and "q \<noteq> []" and "p \<noteq> []"
  shows "scan_frames crc p pos prev = \<lparr>ss_records = [], ss_valid_end = pos, ss_stopped = Some TornTail\<rparr>"
  using frame_torn[OF assms(1-3)] assms(4) by (simp add: scan_frames.simps)

text \<open>A prefix of a run of frames is some of the frames and perhaps the beginning of the next.\<close>

lemma frames_prefix:
  assumes "frames_of crc rs = p @ q"
  shows "\<exists>xs ys torn. rs = xs @ ys \<and> p = frames_of crc xs @ torn \<and>
    (torn = [] \<or> (\<exists>r ys' rest. ys = r # ys' \<and> frame_encode crc r = torn @ rest \<and> rest \<noteq> []))"
  using assms
proof (induction rs arbitrary: p)
  case (Cons r rs)
  from Cons.prems have "frame_encode crc r @ frames_of crc rs = p @ q" by simp
  then consider rest where "frame_encode crc r = p @ rest" "rest \<noteq> []"
    | p' where "p = frame_encode crc r @ p'" "frames_of crc rs = p' @ q"
    by (auto simp: append_eq_append_conv2) blast
  then show ?case
  proof cases
    case 1
    then show ?thesis by (intro exI[of _ "[]"] exI[of _ "r # rs"] exI[of _ p]) auto
  next
    case (2 p')
    from Cons.IH[OF 2(2)] obtain xs ys torn where "rs = xs @ ys" "p' = frames_of crc xs @ torn"
      "torn = [] \<or> (\<exists>r ys' rest. ys = r # ys' \<and> frame_encode crc r = torn @ rest \<and> rest \<noteq> [])" by blast
    then show ?thesis using 2(1) by (intro exI[of _ "r # xs"] exI[of _ ys] exI[of _ torn]) auto
  qed
qed simp

section \<open>Segments\<close>

definition segment_bytes :: "(bytes \<Rightarrow> u32) \<Rightarrow> partition_id \<Rightarrow> log_record list \<Rightarrow> bytes" where
  "segment_bytes crc p rs = segment_header p @ frames_of crc rs"

lemma scan_segment_frames:
  "scan_segment crc (segment_header p @ bs) p prev = scan_frames crc bs segment_header_bytes prev"
  by (simp add: scan_segment_def header_roundtrip length_segment_header)

lemma scan_segment_whole:
  assumes "list_all record_fits rs" and "rises prev rs"
  shows "scan_segment crc (segment_bytes crc p rs) p prev =
    \<lparr>ss_records = rs, ss_valid_end = length (segment_bytes crc p rs), ss_stopped = None\<rparr>"
  using scan_frames_run[OF assms, of crc "[]"]
  by (simp add: segment_bytes_def scan_segment_frames length_segment_header Let_def)

lemma scan_segment_crashed:
  assumes "list_all record_fits (rs @ extra)" and "rises prev (rs @ extra)"
    and "frames_of crc extra = p' @ q"
  shows "\<exists>xs ys stop. extra = xs @ ys
    \<and> scan_segment crc (segment_bytes crc p rs @ p') p prev =
       \<lparr>ss_records = rs @ xs, ss_valid_end = length (segment_bytes crc p (rs @ xs)), ss_stopped = stop\<rparr>
    \<and> (stop = None \<and> p' = frames_of crc xs \<or> stop = Some TornTail
       \<and> length (segment_bytes crc p (rs @ xs)) < length (segment_bytes crc p rs @ p')
       \<and> take (length (segment_bytes crc p (rs @ xs))) (segment_bytes crc p rs @ p') = segment_bytes crc p (rs @ xs))"
proof -
  obtain xs ys torn where x: "extra = xs @ ys" "p' = frames_of crc xs @ torn"
    and torn: "torn = [] \<or> (\<exists>r ys' rest. ys = r # ys' \<and> frame_encode crc r = torn @ rest \<and> rest \<noteq> [])"
    using frames_prefix[OF assms(3)] by blast
  have fits: "list_all record_fits (rs @ xs)" and up: "rises prev (rs @ xs)"
    using assms(1,2) x(1) by (simp_all add: rises_append)
  have run: "scan_segment crc (segment_bytes crc p rs @ p') p prev =
    (let rest = scan_frames crc torn (length (segment_bytes crc p (rs @ xs))) (last_lamport (rs @ xs) prev)
     in rest\<lparr>ss_records := (rs @ xs) @ ss_records rest\<rparr>)"
    using scan_frames_run[OF fits up, of crc torn] x(2)
    by (simp add: segment_bytes_def scan_segment_frames length_segment_header add.assoc)
  show ?thesis
  proof (cases "torn = []")
    case True
    then show ?thesis using run x by (intro exI[of _ xs] exI[of _ ys]) (auto simp: Let_def)
  next
    case False
    then obtain r ys' rest where r: "ys = r # ys'" "frame_encode crc r = torn @ rest" "rest \<noteq> []" using torn by blast
    have "record_fits r" using assms(1) x(1) r(1) by simp
    then have "scan_frames crc torn pos l = \<lparr>ss_records = [], ss_valid_end = pos, ss_stopped = Some TornTail\<rparr>" for pos l
      using scan_frames_torn[OF _ r(2,3) False] by simp
    then show ?thesis using run x False
      by (intro exI[of _ xs] exI[of _ ys]) (auto simp: Let_def segment_bytes_def)
  qed
qed


section \<open>Directories\<close>

definition entries_of :: "log_record list \<Rightarrow> wal_entry list" where
  "entries_of rs = concat (map (\<lambda>r. case r of EntryRecord e \<Rightarrow> [e] | _ \<Rightarrow> []) rs)"

fun record_epoch :: "log_record \<Rightarrow> epoch" where
  "record_epoch (EntryRecord e) = we_epoch e"
| "record_epoch (CheckpointRecord _) = 0"
| "record_epoch (FenceRecord e) = e"

definition epoch_in :: "log_record list \<Rightarrow> epoch \<Rightarrow> epoch" where
  "epoch_in rs e = fold (\<lambda>r e. max e (record_epoch r)) rs e"

definition applied_in :: "log_record list \<Rightarrow> lamport \<Rightarrow> lamport" where
  "applied_in rs a = fold (\<lambda>r a. case r of CheckpointRecord l \<Rightarrow> l | _ \<Rightarrow> a) rs a"

lemma entries_of_simps [simp]:
  "entries_of [] = []"
  "entries_of (EntryRecord e # rs) = e # entries_of rs"
  "entries_of (CheckpointRecord l # rs) = entries_of rs"
  "entries_of (FenceRecord x # rs) = entries_of rs"
  "entries_of (rs @ rs') = entries_of rs @ entries_of rs'"
  by (simp_all add: entries_of_def)

lemma epoch_in_simps [simp]:
  "epoch_in [] e = e"
  "epoch_in (r # rs) e = epoch_in rs (max e (record_epoch r))"
  "epoch_in (rs @ rs') e = epoch_in rs' (epoch_in rs e)"
  by (simp_all add: epoch_in_def)

lemma applied_in_simps [simp]:
  "applied_in [] a = a"
  "applied_in (CheckpointRecord l # rs) a = applied_in rs l"
  "applied_in (EntryRecord e # rs) a = applied_in rs a"
  "applied_in (FenceRecord x # rs) a = applied_in rs a"
  "applied_in (rs @ rs') a = applied_in rs' (applied_in rs a)"
  by (simp_all add: applied_in_def)

lemma fold_absorb:
  "fold absorb rs sc =
     sc\<lparr>ds_all_entries := ds_all_entries sc @ entries_of rs, ds_durable := last_lamport rs (ds_durable sc),
        ds_epoch := epoch_in rs (ds_epoch sc), ds_applied_through := applied_in rs (ds_applied_through sc)\<rparr>"
proof (induction rs arbitrary: sc)
  case (Cons r rs)
  then show ?case by (cases r) simp_all
qed simp

text \<open>The files of a directory hold these records, segment by segment, all of it synced.\<close>

definition holds_records ::
  "(bytes \<Rightarrow> u32) \<Rightarrow> partition_id \<Rightarrow> (u64, log_file) btree \<Rightarrow> log_record list list \<Rightarrow> bool" where
  "holds_records crc p files rss \<longleftrightarrow>
     list_all2 (\<lambda>(q, f) rs. fl_content f = segment_bytes crc p rs \<and> fl_synced f = length (fl_content f)) files rss"

definition segment_ends :: "u64 list \<Rightarrow> log_record list list \<Rightarrow> dir_scan \<Rightarrow> dir_scan" where
  "segment_ends seqs rss sc =
     fold (\<lambda>(q, rs) sc. let sc1 = fold absorb rs sc in sc1\<lparr>ds_segments := ds_segments sc1 @ [(q, ds_durable sc1)]\<rparr>)
       (zip seqs rss) sc"

lemma quiet_disk: "dk_faults d = [] \<Longrightarrow> next_fault d = Works" "dk_faults d = [] \<Longrightarrow> called d = d"
  by (simp_all add: next_fault_def called_def)

lemma disk_read_quiet:
  "dk_faults d = [] \<Longrightarrow> bt_get (dk_files d) q = Some f \<Longrightarrow> disk_read q d = (d, Inr (fl_content f))"
  by (simp add: disk_read_def quiet_disk)

lemma segment_ends_Cons:
  "segment_ends (q # qs) (rs # rss) sc =
     segment_ends qs rss (let sc1 = fold absorb rs sc in sc1\<lparr>ds_segments := ds_segments sc1 @ [(q, ds_durable sc1)]\<rparr>)"
  by (simp add: segment_ends_def)

lemma segment_ends_Nil [simp]: "segment_ends [] rss sc = sc" "segment_ends qs [] sc = sc"
  by (simp_all add: segment_ends_def)

lemma scan_segments_run:
  assumes "dk_faults d = []" and "bt_ok (dk_files d)" and "holds_records crc p files rss" and "set files \<subseteq> set (dk_files d)"
    and "list_all record_fits (concat rss)" and "rises (ds_durable sc) (concat rss)"
  shows "scan_segments crc p (map fst files @ tail) sc d = scan_segments crc p tail (segment_ends (map fst files) rss sc) d"
  using assms(3-6)
proof (induction files arbitrary: rss sc)
  case (Cons x files)
  obtain q f where x: "x = (q, f)" by (cases x)
  from Cons.prems(1) obtain rs rss' where rss: "rss = rs # rss'" "fl_content f = segment_bytes crc p rs"
    "holds_records crc p files rss'"
    by (auto simp: holds_records_def x list_all2_Cons1)
  have get: "bt_get (dk_files d) q = Some f" using Cons.prems(2) assms(2) by (simp add: bt_get_iff x)
  have fits: "list_all record_fits rs" "list_all record_fits (concat rss')"
    and up: "rises (ds_durable sc) rs" "rises (last_lamport rs (ds_durable sc)) (concat rss')"
    using Cons.prems(3,4) rss(1) by (simp_all add: rises_append)
  show ?case
    using scan_segment_whole[OF fits(1) up(1), of crc p] Cons.IH[OF rss(3) _ fits(2)] Cons.prems(2) up(2)
    by (simp add: x rss(1,2) segment_ends_Cons act_bind_def disk_read_quiet[OF assms(1) get] Let_def fold_absorb)
qed (simp add: holds_records_def)

lemma segment_ends_fields:
  assumes "length qs = length rss"
  shows "ds_all_entries (segment_ends qs rss sc) = ds_all_entries sc @ entries_of (concat rss)
    \<and> ds_durable (segment_ends qs rss sc) = last_lamport (concat rss) (ds_durable sc)
    \<and> ds_epoch (segment_ends qs rss sc) = epoch_in (concat rss) (ds_epoch sc)
    \<and> ds_applied_through (segment_ends qs rss sc) = applied_in (concat rss) (ds_applied_through sc)
    \<and> ds_truncated (segment_ends qs rss sc) = ds_truncated sc
    \<and> map fst (ds_segments (segment_ends qs rss sc)) = map fst (ds_segments sc) @ qs"
  using assms
proof (induction qs rss arbitrary: sc rule: list_induct2)
  case (Cons q qs rs rss)
  show ?case
    using Cons.IH[of "let sc1 = fold absorb rs sc in sc1\<lparr>ds_segments := ds_segments sc1 @ [(q, ds_durable sc1)]\<rparr>"]
    by (simp add: segment_ends_Cons Let_def fold_absorb)
qed simp


section \<open>Crashes\<close>

lemma length_segment_bytes: "length (segment_bytes crc p rs) = 16 + length (frames_of crc rs)"
  by (simp add: segment_bytes_def length_segment_header segment_header_bytes_def)

lemma list_all2_snoc: "list_all2 P (xs @ [x]) (ys @ [y]) \<longleftrightarrow> list_all2 P xs ys \<and> P x y"
  using list_all2_rev[of P "xs @ [x]" "ys @ [y]"] by auto

lemma holds_records_append:
  "holds_records crc p (fs @ [(q, f)]) (rss @ [rs]) \<longleftrightarrow> holds_records crc p fs rss
     \<and> fl_content f = segment_bytes crc p rs \<and> fl_synced f = length (fl_content f)"
  by (simp add: holds_records_def list_all2_snoc)

lemma holds_records_length: "holds_records crc p files rss \<Longrightarrow> length files = length rss"
  by (auto simp: holds_records_def dest: list_all2_lengthD)

lemma bt_insert_last_same: "bt_ok (fs @ [(q, f)]) \<Longrightarrow> bt_insert q g (fs @ [(q, f)]) = fs @ [(q, g)]"
proof (induction fs)
  case (Cons e fs)
  then have "fst e < q" by auto
  then show ?case using Cons by auto
qed simp

lemma bt_get_last: "bt_ok (fs @ [(q, f)]) \<Longrightarrow> bt_get (fs @ [(q, f)]) q = Some f"
  by (simp add: bt_get_iff del: map_of_append)

lemma edit_last:
  assumes "dk_files d = fs @ [(q, f)]" and "bt_ok (dk_files d)"
  shows "edit_file q g d = d\<lparr>dk_files := fs @ [(q, g f)]\<rparr>"
  using assms bt_get_last[of fs q f] bt_insert_last_same[of fs q f "g f"]
  by (simp add: edit_file_def del: map_of_append)

lemma truncate_last:
  assumes "dk_faults d = []" and "dk_files d = fs @ [(q, f)]" and "bt_ok (dk_files d)"
    and "take n (fl_content f) = bs" and "n \<le> length (fl_content f)"
  shows "act_then (disk_truncate q n) (disk_sync q) d =
    (d\<lparr>dk_files := fs @ [(q, \<lparr>fl_content = bs, fl_synced = length bs\<rparr>)]\<rparr>, Inr ())"
proof -
  let ?d = "d\<lparr>dk_files := fs @ [(q, f\<lparr>fl_content := bs, fl_synced := min (fl_synced f) n\<rparr>)]\<rparr>"
  have "bt_ok (dk_files ?d)" using assms(2,3) by (simp add: bt_ok_def)
  moreover have "disk_truncate q n d = (?d, Inr ())"
    using assms edit_last[OF assms(2,3), of "\<lambda>f. f\<lparr>fl_content := take n (fl_content f), fl_synced := min (fl_synced f) n\<rparr>"]
    by (simp add: disk_truncate_def quiet_disk)
  ultimately show ?thesis
    using edit_last[of ?d fs q "f\<lparr>fl_content := bs, fl_synced := min (fl_synced f) n\<rparr>"
        "\<lambda>f. f\<lparr>fl_synced := length (fl_content f)\<rparr>"] assms(1)
    by (simp add: act_then_def act_bind_def disk_sync_def quiet_disk)
qed

text \<open>What is left after a crash in the middle of a write to the last segment.\<close>

lemma crash_files:
  assumes "crashes_to d d'" and "dk_files d = fs @ [(q, f)]" and "holds_records crc p fs rss"
    and "fl_content f = segment_bytes crc p rs @ w" and "length (segment_bytes crc p rs) \<le> fl_synced f"
  obtains fs' f' p' w' where "dk_files d' = fs' @ [(q, f')]" "map fst fs' = map fst fs" "holds_records crc p fs' rss"
    "fl_content f' = segment_bytes crc p rs @ p'" "fl_synced f' = length (fl_content f')" "w = p' @ w'"
proof -
  let ?R = "\<lambda>(s, f) (s', f'). s' = s \<and> (\<exists>k \<ge> fl_synced f. fl_content f' = take k (fl_content f)
       \<and> fl_synced f' = length (fl_content f'))"
  from assms(1,2) obtain fs' y where fs': "dk_files d' = fs' @ [y]" "list_all2 ?R fs fs'" "?R (q, f) y"
    by (auto simp: crashes_to_def list_all2_append1 list_all2_Cons1)
  obtain f' where y: "y = (q, f')" using fs'(3) by auto
  obtain k where k: "fl_synced f \<le> k" "fl_content f' = take k (fl_content f)" "fl_synced f' = length (fl_content f')"
    using fs'(3) y by auto
  have "map fst fs' = map fst fs" using fs'(2) by (induction rule: list_all2_induct) auto
  moreover have "holds_records crc p fs' rss"
    using fs'(2) assms(3) unfolding holds_records_def
  proof (induction arbitrary: rss rule: list_all2_induct)
    case (Cons x xs z zs)
    then show ?case by (cases rss; cases x; cases z) auto
  qed simp
  moreover have "fl_content f' = segment_bytes crc p rs @ take (k - length (segment_bytes crc p rs)) w"
    using k(1,2) assms(4,5) by simp
  ultimately show thesis
    using that[of fs' f' "take (k - length (segment_bytes crc p rs)) w" "drop (k - length (segment_bytes crc p rs)) w"]
      fs'(1) y k(3) by simp
qed

lemma scan_after_crash:
  assumes crash: "crashes_to d d'" and files: "dk_files d = fs @ [(q, f)]" and "bt_ok (dk_files d)"
    and "holds_records crc p fs rss" and content: "fl_content f = segment_bytes crc p rs @ w"
    and "length (segment_bytes crc p rs) \<le> fl_synced f" and w: "frames_of crc extra = w @ v"
    and fits: "list_all record_fits (concat rss @ rs @ extra)" and up: "rises 0 (concat rss @ rs @ extra)"
  shows "\<exists>xs ys sc d''. extra = xs @ ys \<and> scan_directory crc p d' = (d'', Inr sc)
    \<and> ds_all_entries sc = entries_of (concat rss @ rs @ xs) \<and> ds_durable sc = last_lamport (concat rss @ rs @ xs) 0
    \<and> ds_epoch sc = epoch_in (concat rss @ rs @ xs) 0 \<and> ds_applied_through sc = applied_in (concat rss @ rs @ xs) 0
    \<and> map fst (ds_segments sc) = map fst (dk_files d) \<and> map fst (dk_files d'') = map fst (dk_files d)
    \<and> dk_faults d'' = [] \<and> holds_records crc p (dk_files d'') (rss @ [rs @ xs])"
proof -
  obtain fs' f' p' w' where f': "dk_files d' = fs' @ [(q, f')]" "map fst fs' = map fst fs" "holds_records crc p fs' rss"
    "fl_content f' = segment_bytes crc p rs @ p'" "fl_synced f' = length (fl_content f')" and w': "w = p' @ w'"
    using crash_files[OF crash files assms(4) content assms(6)] by metis
  have pre: "frames_of crc extra = p' @ (w' @ v)" using w w' by simp
  have quiet: "dk_faults d' = []" using crash by (simp add: crashes_to_def)
  have seqs: "map fst (dk_files d') = map fst (dk_files d)" using f'(1,2) files by simp
  then have ok: "bt_ok (dk_files d')" using assms(3) by (simp add: bt_ok_def)
  let ?sc0 = "scan_start (map fst (dk_files d'))"
  let ?sc1 = "segment_ends (map fst fs') rss ?sc0"
  have len: "length (map fst fs') = length rss" using holds_records_length[OF f'(3)] by simp
  have d0: "ds_durable ?sc0 = 0" "ds_all_entries ?sc0 = []" "ds_epoch ?sc0 = 0" "ds_applied_through ?sc0 = 0"
    "ds_segments ?sc0 = []" "ds_truncated ?sc0 = None" by (simp_all add: scan_start_def)
  have sc1: "ds_durable ?sc1 = last_lamport (concat rss) 0" "ds_all_entries ?sc1 = entries_of (concat rss)"
    "ds_epoch ?sc1 = epoch_in (concat rss) 0" "ds_applied_through ?sc1 = applied_in (concat rss) 0"
    "map fst (ds_segments ?sc1) = map fst fs'" "ds_truncated ?sc1 = None"
    using segment_ends_fields[OF len, of ?sc0] d0 by simp_all
  have fits': "list_all record_fits (rs @ extra)" and up': "rises (last_lamport (concat rss) 0) (rs @ extra)"
    "list_all record_fits (concat rss)" "rises (ds_durable ?sc0) (concat rss)"
    using fits up d0 by (simp_all add: rises_append)
  obtain xs ys stop where x: "extra = xs @ ys" and scan: "scan_segment crc (fl_content f') p (ds_durable ?sc1) =
       \<lparr>ss_records = rs @ xs, ss_valid_end = length (segment_bytes crc p (rs @ xs)), ss_stopped = stop\<rparr>"
    and stop: "stop = None \<and> p' = frames_of crc xs \<or> stop = Some TornTail
       \<and> length (segment_bytes crc p (rs @ xs)) < length (fl_content f')
       \<and> take (length (segment_bytes crc p (rs @ xs))) (fl_content f') = segment_bytes crc p (rs @ xs)"
    using scan_segment_crashed[OF fits' up'(1) pre, of p] unfolding f'(4) sc1(1) by blast
  have run: "scan_segments crc p (map fst (dk_files d')) ?sc0 d' = scan_segments crc p [q] ?sc1 d'"
  proof -
    have "map fst (dk_files d') = map fst fs' @ [q]" "set fs' \<subseteq> set (dk_files d')" using f'(1) by auto
    then show ?thesis using scan_segments_run[OF quiet ok f'(3) _ up'(2,3), of "[q]"] by metis
  qed
  have read: "disk_read q d' = (d', Inr (fl_content f'))"
    using disk_read_quiet[OF quiet] f'(1) ok bt_get_last[of fs' q f'] by (simp del: map_of_append)
  have list: "disk_list d' = (d', Inr (map fst (dk_files d')))" by (simp add: disk_list_def quiet_disk quiet)
  let ?sc2 = "let sc = fold absorb (rs @ xs) ?sc1 in sc\<lparr>ds_segments := ds_segments sc @ [(q, ds_durable sc)]\<rparr>"
  have fields: "ds_all_entries ?sc2 = entries_of (concat rss @ rs @ xs)" "ds_durable ?sc2 = last_lamport (concat rss @ rs @ xs) 0"
    "ds_epoch ?sc2 = epoch_in (concat rss @ rs @ xs) 0" "ds_applied_through ?sc2 = applied_in (concat rss @ rs @ xs) 0"
    "map fst (ds_segments ?sc2) = map fst (dk_files d)" "ds_truncated ?sc2 = None"
    using sc1 f'(1,2) files by (simp_all add: fold_absorb Let_def)
  from stop show ?thesis
  proof (elim disjE conjE)
    assume s: "stop = None" "p' = frames_of crc xs"
    have "scan_directory crc p d' = (d', Inr ?sc2)"
      using s(1) fields(6) by (simp add: scan_directory_def act_bind_def list run read scan act_ret_def act_then_def Let_def fold_absorb)
    moreover have "holds_records crc p (dk_files d') (rss @ [rs @ xs])"
      using f' s(2) by (simp add: holds_records_append segment_bytes_def)
    ultimately show ?thesis using x fields seqs quiet by blast
  next
    assume s: "stop = Some TornTail" "length (segment_bytes crc p (rs @ xs)) < length (fl_content f')"
      "take (length (segment_bytes crc p (rs @ xs))) (fl_content f') = segment_bytes crc p (rs @ xs)"
    let ?bs = "segment_bytes crc p (rs @ xs)"
    let ?d = "d'\<lparr>dk_files := fs' @ [(q, \<lparr>fl_content = ?bs, fl_synced = length ?bs\<rparr>)]\<rparr>"
    let ?sc3 = "?sc2\<lparr>ds_truncated := Some \<lparr>tr_segment = q, tr_offset = length ?bs, tr_reason = TornTail\<rparr>\<rparr>"
    have cut: "act_then (disk_truncate q (length ?bs)) (disk_sync q) d' = (?d, Inr ())"
      using truncate_last[OF quiet f'(1) ok s(3)] s(2) by simp
    have "length ?bs \<noteq> 0" by (simp add: length_segment_bytes)
    then have "scan_directory crc p d' = (?d, Inr ?sc3)"
      using s(1,2) cut
      by (simp add: scan_directory_def act_bind_def list run read scan act_ret_def Let_def fold_absorb act_then_def)
    moreover have "holds_records crc p (dk_files ?d) (rss @ [rs @ xs])" using f'(3) by (simp add: holds_records_append)
    moreover have "map fst (dk_files ?d) = map fst (dk_files d)" using f'(1) seqs by simp
    ultimately show ?thesis using x fields quiet
      by (intro exI[of _ xs] exI[of _ ys] exI[of _ ?sc3] exI[of _ ?d]) (simp add: Let_def fold_absorb)
  qed
qed

end
