(* ===== verification/Wal_Refine.thy ===== *)
theory Wal_Refine
  imports Wal_Recovery
begin

text \<open>
  The log as an abstract data type. \<open>log_rep\<close> says which records the files of an open log hold;
  each operation is shown to keep it and to act on the records as its specification says:
  appending at the end, forgetting a checkpointed prefix, cutting what is above a Lamport.
\<close>

section \<open>Directories of whole segments\<close>

definition dir_ok ::
  "(bytes \<Rightarrow> u32) \<Rightarrow> partition_id \<Rightarrow> disk \<Rightarrow> u64 list \<Rightarrow> log_record list list \<Rightarrow> bool" where
  "dir_ok crc p d seqs rss \<longleftrightarrow> dk_faults d = [] \<and> bt_ok (dk_files d) \<and> holds_records crc p (dk_files d) rss
     \<and> map fst (dk_files d) = seqs"

lemma dir_ok_length: "dir_ok crc p d seqs rss \<Longrightarrow> length seqs = length rss"
  unfolding dir_ok_def using holds_records_length length_map by metis

lemma dir_ok_snoc:
  assumes "dir_ok crc p d seqs rss" and "rss \<noteq> []"
  obtains fs q f rss' rs where "dk_files d = fs @ [(q, f)]" "seqs = map fst fs @ [q]" "rss = rss' @ [rs]"
    "holds_records crc p fs rss'" "fl_content f = segment_bytes crc p rs" "fl_synced f = length (fl_content f)"
proof -
  obtain rss' rs where rss: "rss = rss' @ [rs]" using assms(2) by (meson rev_exhaust)
  have "dk_files d \<noteq> []"
    using assms holds_records_length[of crc p "dk_files d" rss] by (auto simp: dir_ok_def)
  then obtain fs x where "dk_files d = fs @ [x]" by (meson rev_exhaust)
  then obtain q f where "dk_files d = fs @ [(q, f)]" by (cases x) auto
  then show thesis using that rss assms(1) by (auto simp: dir_ok_def holds_records_append)
qed

lemma dir_append:
  assumes ok: "dir_ok crc p d seqs rss" and ne: "rss \<noteq> []"
  shows "\<exists>d'. act_then (disk_append (last seqs) (frames_of crc new)) (disk_sync (last seqs)) d = (d', Inr ())
    \<and> dir_ok crc p d' seqs (butlast rss @ [last rss @ new])"
proof -
  obtain fs q f rss' rs where d: "dk_files d = fs @ [(q, f)]" "seqs = map fst fs @ [q]" "rss = rss' @ [rs]"
    "holds_records crc p fs rss'" "fl_content f = segment_bytes crc p rs"
    using dir_ok_snoc[OF ok ne] by metis
  have quiet: "dk_faults d = []" and bt: "bt_ok (dk_files d)" using ok by (simp_all add: dir_ok_def)
  let ?bs = "segment_bytes crc p (rs @ new)"
  let ?d1 = "d\<lparr>dk_files := fs @ [(q, f\<lparr>fl_content := ?bs\<rparr>)]\<rparr>"
  let ?d2 = "d\<lparr>dk_files := fs @ [(q, f\<lparr>fl_content := ?bs, fl_synced := length ?bs\<rparr>)]\<rparr>"
  have bt1: "bt_ok (dk_files ?d1)" "bt_ok (dk_files ?d2)" using bt d(1) by (simp_all add: bt_ok_def)
  have "disk_append q (frames_of crc new) d = (?d1, Inr ())"
    using edit_last[OF d(1) bt, of "\<lambda>f. f\<lparr>fl_content := fl_content f @ frames_of crc new\<rparr>"] d(5)
    by (simp add: disk_append_def quiet_disk quiet segment_bytes_def)
  moreover have "disk_sync q ?d1 = (?d2, Inr ())"
    using edit_last[of ?d1 fs q _ "\<lambda>f. f\<lparr>fl_synced := length (fl_content f)\<rparr>"] bt1
    by (simp add: disk_sync_def quiet_disk quiet)
  moreover have "dir_ok crc p ?d2 seqs (butlast rss @ [last rss @ new])"
    using bt1 d quiet by (simp add: dir_ok_def holds_records_append)
  ultimately show ?thesis using d(2) by (simp add: act_then_def act_bind_def)
qed

lemma dir_create:
  assumes ok: "dir_ok crc p d seqs rss" and new: "\<forall>k\<in>set seqs. k < q"
  shows "\<exists>d'. create_segment p q d = (d', Inr 16) \<and> dir_ok crc p d' (seqs @ [q]) (rss @ [[]])"
proof -
  have quiet: "dk_faults d = []" and bt: "bt_ok (dk_files d)" and seqs: "map fst (dk_files d) = seqs"
    and holds: "holds_records crc p (dk_files d) rss" using ok by (simp_all add: dir_ok_def)
  let ?h = "segment_header p"
  let ?f = "\<lambda>c n. d\<lparr>dk_files := dk_files d @ [(q, \<lparr>fl_content = c, fl_synced = n\<rparr>)]\<rparr>"
  have new': "\<forall>k\<in>set (map fst (dk_files d)). k < q" using new seqs by simp
  then have bt1: "bt_ok (dk_files (?f c n))" for c n using bt by (auto simp: bt_ok_def sorted_wrt_append)
  have "\<not> bt_contains (dk_files d) q" using new' by (auto simp: bt_contains_iff)
  then have "disk_create q d = (?f [] 0, Inr ())"
    by (simp add: disk_create_def quiet_disk quiet bt_insert_new_last[OF bt new'])
  moreover have "disk_append q ?h (?f [] 0) = (?f ?h 0, Inr ())"
    using edit_last[of "?f [] 0" "dk_files d" q _ "\<lambda>f. f\<lparr>fl_content := fl_content f @ ?h\<rparr>"] bt1
    by (simp add: disk_append_def quiet_disk quiet)
  moreover have "disk_sync q (?f ?h 0) = (?f ?h 16, Inr ())"
    using edit_last[of "?f ?h 0" "dk_files d" q _ "\<lambda>f. f\<lparr>fl_synced := length (fl_content f)\<rparr>"] bt1
    by (simp add: disk_sync_def quiet_disk quiet length_segment_header segment_header_bytes_def)
  moreover have "dir_ok crc p (?f ?h 16) (seqs @ [q]) (rss @ [[]])"
    using bt1 holds quiet seqs
    by (simp add: dir_ok_def holds_records_append segment_bytes_def length_segment_header segment_header_bytes_def)
  ultimately show ?thesis
    by (simp add: create_segment_def act_then_def act_bind_def act_ret_def length_segment_header segment_header_bytes_def)
qed

lemma remove_each:
  assumes "dk_faults d = []" and "distinct qs" and "set qs \<subseteq> fst ` set (dk_files d)"
  shows "act_each disk_remove qs d = (d\<lparr>dk_files := filter (\<lambda>e. fst e \<notin> set qs) (dk_files d)\<rparr>, Inr ())"
  using assms
proof (induction qs arbitrary: d)
  case (Cons q qs)
  let ?d = "d\<lparr>dk_files := bt_remove q (dk_files d)\<rparr>"
  have "disk_remove q d = (?d, Inr ())"
    using Cons.prems by (simp add: disk_remove_def quiet_disk bt_contains_iff)
  moreover have "act_each disk_remove qs ?d = (?d\<lparr>dk_files := filter (\<lambda>e. fst e \<notin> set qs) (dk_files ?d)\<rparr>, Inr ())"
    using Cons.prems by (intro Cons.IH) (force simp: set_bt_remove subset_iff image_iff)+
  moreover have "filter (\<lambda>e. fst e \<notin> set qs) (bt_remove q (dk_files d)) = filter (\<lambda>e. fst e \<notin> set (q # qs)) (dk_files d)"
    by (auto simp: bt_remove_def intro!: filter_cong)
  ultimately show ?case by (simp add: act_then_def act_bind_def)
qed (simp add: act_ret_def)

lemma filter_keys_take:
  assumes "distinct (map fst m)"
  shows "filter (\<lambda>e. fst e \<notin> set (take n (map fst m))) m = drop n m"
    and "filter (\<lambda>e. fst e \<notin> set (drop n (map fst m))) m = take n m"
proof -
  have "m = take n m @ drop n m" by simp
  moreover have "\<forall>e\<in>set (drop n m). fst e \<notin> set (take n (map fst m))"
    "\<forall>e\<in>set (take n m). fst e \<notin> set (drop n (map fst m))"
    using set_take_disj_set_drop_if_distinct[OF assms, of n n] by (auto simp: take_map drop_map)
  moreover have "\<forall>e\<in>set (take n m). fst e \<in> set (take n (map fst m))"
    "\<forall>e\<in>set (drop n m). fst e \<in> set (drop n (map fst m))"
    by (auto simp: take_map drop_map)
  ultimately show "filter (\<lambda>e. fst e \<notin> set (take n (map fst m))) m = drop n m"
    "filter (\<lambda>e. fst e \<notin> set (drop n (map fst m))) m = take n m"
    by (metis (mono_tags, lifting) append_Nil append_Nil2 filter_True filter_False filter_append)+
qed

lemma dir_remove:
  assumes ok: "dir_ok crc p d seqs rss"
  shows "\<exists>d'. act_each disk_remove (take n seqs) d = (d', Inr ()) \<and> dir_ok crc p d' (drop n seqs) (drop n rss)"
    and "\<exists>d'. act_each disk_remove (drop n seqs) d = (d', Inr ()) \<and> dir_ok crc p d' (take n seqs) (take n rss)"
proof -
  have quiet: "dk_faults d = []" and bt: "bt_ok (dk_files d)" and seqs: "map fst (dk_files d) = seqs"
    and holds: "holds_records crc p (dk_files d) rss" using ok by (simp_all add: dir_ok_def)
  have dist: "distinct (map fst (dk_files d))" using bt by (rule bt_ok_distinct)
  have sub: "set (take n seqs) \<subseteq> fst ` set (dk_files d)" "set (drop n seqs) \<subseteq> fst ` set (dk_files d)"
    using set_take_subset[of n seqs] set_drop_subset[of n seqs] arg_cong[OF seqs, of set] by (auto simp: )
  have "dir_ok crc p (d\<lparr>dk_files := drop n (dk_files d)\<rparr>) (drop n seqs) (drop n rss)"
    "dir_ok crc p (d\<lparr>dk_files := take n (dk_files d)\<rparr>) (take n seqs) (take n rss)"
    using quiet bt seqs holds
    by (auto simp: dir_ok_def bt_ok_def holds_records_def drop_map[symmetric] take_map[symmetric]
        sorted_wrt_drop sorted_wrt_take intro: list_all2_dropI list_all2_takeI)
  moreover have "filter (\<lambda>e. fst e \<notin> set (take n seqs)) (dk_files d) = drop n (dk_files d)"
    "filter (\<lambda>e. fst e \<notin> set (drop n seqs)) (dk_files d) = take n (dk_files d)"
    using filter_keys_take[OF dist, of n] seqs by simp_all
  ultimately show "\<exists>d'. act_each disk_remove (take n seqs) d = (d', Inr ()) \<and> dir_ok crc p d' (drop n seqs) (drop n rss)"
    "\<exists>d'. act_each disk_remove (drop n seqs) d = (d', Inr ()) \<and> dir_ok crc p d' (take n seqs) (take n rss)"
    using remove_each[OF quiet _ sub(1)] remove_each[OF quiet _ sub(2)] dist seqs by auto
qed


section \<open>The open log\<close>

definition covers_entries :: "u64 \<times> lamport \<Rightarrow> log_record list \<Rightarrow> bool" where
  "covers_entries seg rs \<longleftrightarrow> (\<forall>e\<in>set (entries_of rs). we_lamport e \<le> snd seg)"

definition log_rep :: "(bytes \<Rightarrow> u32) \<Rightarrow> partition_log \<Rightarrow> log_record list list \<Rightarrow> bool" where
  "log_rep crc s rss \<longleftrightarrow>
     dir_ok crc (pl_partition s) (pl_disk s) (map fst (pl_segments s)) rss \<and> rss \<noteq> []
     \<and> pl_current s = fst (last (pl_segments s)) \<and> (\<forall>q\<in>set (map fst (pl_segments s)). q < pl_next_seq s)
     \<and> list_all2 covers_entries (pl_segments s) rss
     \<and> list_all record_fits (concat rss) \<and> rises 0 (concat rss)
     \<and> last_lamport (concat rss) 0 \<le> pl_durable s \<and> epoch_in (concat rss) 0 \<le> pl_epoch s
     \<and> (\<forall>l. CheckpointRecord l \<in> set (concat rss) \<longrightarrow> l \<le> pl_applied_through s)
     \<and> pl_hydrated_through s \<le> pl_durable s"

lemma log_repD:
  assumes "log_rep crc s rss"
  shows "dir_ok crc (pl_partition s) (pl_disk s) (map fst (pl_segments s)) rss" "rss \<noteq> []"
    "pl_current s = fst (last (pl_segments s))" "\<forall>q\<in>set (map fst (pl_segments s)). q < pl_next_seq s"
    "list_all2 covers_entries (pl_segments s) rss" "list_all record_fits (concat rss)" "rises 0 (concat rss)"
    "last_lamport (concat rss) 0 \<le> pl_durable s" "epoch_in (concat rss) 0 \<le> pl_epoch s"
    "\<forall>l. CheckpointRecord l \<in> set (concat rss) \<longrightarrow> l \<le> pl_applied_through s" "pl_segments s \<noteq> []"
    "pl_hydrated_through s \<le> pl_durable s"
  using assms dir_ok_length[of crc "pl_partition s" "pl_disk s" "map fst (pl_segments s)" rss]
  by (auto simp: log_rep_def)

lemma concat_snoc_last: "rss \<noteq> [] \<Longrightarrow> concat (butlast rss @ [last rss @ new]) = concat rss @ new"
  by (cases rss rule: rev_cases) simp_all

lemma covers_entries_append:
  "covers_entries seg (rs @ rs') \<longleftrightarrow> covers_entries seg rs \<and> covers_entries seg rs'"
  by (auto simp: covers_entries_def)

lemma covers_last:
  assumes "list_all2 covers_entries segs rss" and "rss \<noteq> []" and "snd (last segs) \<le> snd seg" and "covers_entries seg new"
  shows "list_all2 covers_entries (butlast segs @ [seg]) (butlast rss @ [last rss @ new])"
proof -
  obtain segs' sg rss' rs where x: "segs = segs' @ [sg]" "rss = rss' @ [rs]"
    using assms(1,2) by (cases segs rule: rev_cases; cases rss rule: rev_cases) auto
  then have "list_all2 covers_entries segs' rss'" "covers_entries sg rs" using assms(1) by (simp_all add: list_all2_snoc)
  moreover have "covers_entries seg rs" using \<open>covers_entries sg rs\<close> assms(3) x by (auto simp: covers_entries_def)
  ultimately show ?thesis using assms(4) x by (simp add: list_all2_snoc covers_entries_append)
qed

text \<open>The two disk calls every write ends in, on the files of an open log.\<close>

lemma log_write:
  assumes rep: "log_rep crc s rss"
  shows "\<exists>d'. act_then (on_disk (disk_append (pl_current s) (frames_of crc new))) (on_disk (disk_sync (pl_current s))) s
      = (s\<lparr>pl_disk := d'\<rparr>, Inr ())
    \<and> dir_ok crc (pl_partition s) d' (map fst (pl_segments s)) (butlast rss @ [last rss @ new])"
proof -
  note r = log_repD[OF rep]
  have cur: "pl_current s = last (map fst (pl_segments s))" using r(3,11) by (simp add: last_map)
  from dir_append[OF r(1,2), of new] obtain d' where d':
    "act_then (disk_append (pl_current s) (frames_of crc new)) (disk_sync (pl_current s)) (pl_disk s) = (d', Inr ())"
    "dir_ok crc (pl_partition s) d' (map fst (pl_segments s)) (butlast rss @ [last rss @ new])"
    unfolding cur by blast
  then obtain d1 where "disk_append (pl_current s) (frames_of crc new) (pl_disk s) = (d1, Inr ())"
    "disk_sync (pl_current s) d1 = (d', Inr ())"
    by (auto simp: act_then_def act_bind_def split: prod.splits sum.splits)
  then have "act_then (on_disk (disk_append (pl_current s) (frames_of crc new))) (on_disk (disk_sync (pl_current s))) s
      = (s\<lparr>pl_disk := d'\<rparr>, Inr ())"
    by (simp add: on_disk_def act_then_def act_bind_def)
  then show ?thesis using d'(2) by blast
qed

lemma log_rep_extend:
  assumes rep: "log_rep crc s rss"
    and dir: "dir_ok crc (pl_partition s) d (map fst (pl_segments s)) (butlast rss @ [last rss @ new])"
    and new: "list_all record_fits new" "rises (last_lamport (concat rss) 0) new"
    and t: "pl_disk t = d" "pl_partition t = pl_partition s" "pl_current t = pl_current s" "pl_next_seq t = pl_next_seq s"
      "pl_segments t = butlast (pl_segments s) @ [(fst (last (pl_segments s)), m)]"
    and m: "snd (last (pl_segments s)) \<le> m" "covers_entries (q, m) new"
    and bounds: "last_lamport new (last_lamport (concat rss) 0) \<le> pl_durable t"
      "epoch_in new (epoch_in (concat rss) 0) \<le> pl_epoch t"
      "\<forall>l. CheckpointRecord l \<in> set (concat rss @ new) \<longrightarrow> l \<le> pl_applied_through t"
      "pl_hydrated_through t \<le> pl_durable t"
  shows "log_rep crc t (butlast rss @ [last rss @ new])"
proof -
  note r = log_repD[OF rep]
  have fst: "map fst (pl_segments t) = map fst (pl_segments s)"
    unfolding t(5) using r(11) by (cases "pl_segments s" rule: rev_cases) simp_all
  have "list_all2 covers_entries (pl_segments t) (butlast rss @ [last rss @ new])"
    unfolding t(5) using m(1,2) by (intro covers_last[OF r(5,2)]) (auto simp: covers_entries_def)
  then show ?thesis
    unfolding log_rep_def concat_snoc_last[OF r(2)] fst t(1-4)
    using r dir new bounds by (simp add: rises_append t(5))
qed

lemma write_record_ok:
  assumes rep: "log_rep crc s rss"
  obtains d n where "write_record crc r s = (s\<lparr>pl_disk := d, pl_current_size := n\<rparr>, Inr ())"
    "dir_ok crc (pl_partition s) d (map fst (pl_segments s)) (butlast rss @ [last rss @ [r]])"
proof -
  obtain d where d: "act_then (on_disk (disk_append (pl_current s) (frame_encode crc r))) (on_disk (disk_sync (pl_current s))) s
      = (s\<lparr>pl_disk := d\<rparr>, Inr ())"
    "dir_ok crc (pl_partition s) d (map fst (pl_segments s)) (butlast rss @ [last rss @ [r]])"
    using log_write[OF rep, of "[r]"] by auto
  have "write_record crc r s =
      (s\<lparr>pl_disk := d, pl_current_size := pl_current_size s + length (frame_encode crc r)\<rparr>, Inr ())"
    using d(1) by (auto simp: write_record_def act_then_def act_bind_def act_get_def act_modify_def split: prod.splits sum.splits)
  then show thesis using that d(2) by blast
qed

text \<open>Writing a fence or a checkpoint and noting it in memory.\<close>

lemma small_record_fits: "record_lamport r = None \<Longrightarrow> record_fits r"
  by (cases r) (auto simp: record_fits_def put_u8_def max_frame_body_bytes_def)

lemma segments_same_last: "xs \<noteq> [] \<Longrightarrow> butlast xs @ [(fst (last xs), snd (last xs))] = xs"
  by simp

lemma log_note:
  assumes rep: "log_rep crc s rss" and none: "record_lamport r = None"
    and f: "\<And>d n. f (s\<lparr>pl_disk := d, pl_current_size := n\<rparr>) =
        s\<lparr>pl_disk := d, pl_current_size := n, pl_epoch := e, pl_applied_through := a\<rparr>"
    and e: "pl_epoch s \<le> e" "record_epoch r \<le> e" and a: "pl_applied_through s \<le> a" "\<forall>l. r = CheckpointRecord l \<longrightarrow> l \<le> a"
  shows "\<exists>d n. act_then (write_record crc r) (act_modify f) s
      = (s\<lparr>pl_disk := d, pl_current_size := n, pl_epoch := e, pl_applied_through := a\<rparr>, Inr ())
    \<and> log_rep crc (s\<lparr>pl_disk := d, pl_current_size := n, pl_epoch := e, pl_applied_through := a\<rparr>) (butlast rss @ [last rss @ [r]])"
proof -
  note r = log_repD[OF rep]
  obtain d n where w: "write_record crc r s = (s\<lparr>pl_disk := d, pl_current_size := n\<rparr>, Inr ())"
    "dir_ok crc (pl_partition s) d (map fst (pl_segments s)) (butlast rss @ [last rss @ [r]])"
    using write_record_ok[OF rep] by blast
  have "act_then (write_record crc r) (act_modify f) s
      = (s\<lparr>pl_disk := d, pl_current_size := n, pl_epoch := e, pl_applied_through := a\<rparr>, Inr ())"
    using w(1) f by (simp add: act_then_def act_bind_def act_modify_def)
  moreover have "log_rep crc (s\<lparr>pl_disk := d, pl_current_size := n, pl_epoch := e, pl_applied_through := a\<rparr>)
      (butlast rss @ [last rss @ [r]])"
  proof (rule log_rep_extend[OF rep w(2), where m = "snd (last (pl_segments s))" and q = 0])
    show "covers_entries (0, snd (last (pl_segments s))) [r]" using none by (cases r) (auto simp: covers_entries_def)
    show "\<forall>l. CheckpointRecord l \<in> set (concat rss @ [r]) \<longrightarrow> l \<le>
        pl_applied_through (s\<lparr>pl_disk := d, pl_current_size := n, pl_epoch := e, pl_applied_through := a\<rparr>)"
      using r(10) a by (auto intro: order_trans)
  qed (use none r(8,9,11,12) e segments_same_last in \<open>auto simp: small_record_fits intro: order_trans\<close>)
  ultimately show ?thesis by blast
qed

lemma record_fence_ok:
  assumes rep: "log_rep crc s rss"
  shows "\<exists>s' rss'. record_fence crc e s = (s', Inr ()) \<and> log_rep crc s' rss'
    \<and> concat rss' = concat rss @ (if e \<le> pl_epoch s then [] else [FenceRecord e])
    \<and> pl_epoch s' = max (pl_epoch s) e \<and> pl_durable s' = pl_durable s \<and> pl_applied_through s' = pl_applied_through s
    \<and> pl_hydrated_through s' = pl_hydrated_through s \<and> pl_partition s' = pl_partition s \<and> pl_next_seq s' = pl_next_seq s"
proof (cases "e \<le> pl_epoch s")
  case True
  then show ?thesis using rep by (intro exI[of _ s] exI[of _ rss]) (auto simp: record_fence_def act_bind_def act_get_def act_ret_def max_def)
next
  case False
  have f: "s\<lparr>pl_disk := d, pl_current_size := n, pl_epoch := e\<rparr> =
      s\<lparr>pl_disk := d, pl_current_size := n, pl_epoch := e, pl_applied_through := pl_applied_through s\<rparr>" for d n
    by (cases s) simp
  obtain d n where w: "act_then (write_record crc (FenceRecord e)) (act_modify (\<lambda>s. s\<lparr>pl_epoch := e\<rparr>)) s
      = (s\<lparr>pl_disk := d, pl_current_size := n, pl_epoch := e, pl_applied_through := pl_applied_through s\<rparr>, Inr ())"
    "log_rep crc (s\<lparr>pl_disk := d, pl_current_size := n, pl_epoch := e, pl_applied_through := pl_applied_through s\<rparr>)
      (butlast rss @ [last rss @ [FenceRecord e]])"
    using log_note[OF rep, of "FenceRecord e" "\<lambda>s. s\<lparr>pl_epoch := e\<rparr>", OF _ f] linear[of e "pl_epoch s"] False by auto
  show ?thesis
    using w False concat_snoc_last[OF log_repD(2)[OF rep], of "[FenceRecord e]"]
    by (intro exI[of _ "s\<lparr>pl_disk := d, pl_current_size := n, pl_epoch := e, pl_applied_through := pl_applied_through s\<rparr>"]
        exI[of _ "butlast rss @ [last rss @ [FenceRecord e]]"]) (auto simp: record_fence_def act_bind_def act_get_def max_def)
qed


section \<open>Appending\<close>

definition log_frame :: "partition_log \<Rightarrow> partition_log \<Rightarrow> bool" where
  "log_frame s t \<longleftrightarrow> pl_partition t = pl_partition s \<and> pl_epoch t = pl_epoch s
     \<and> pl_applied_through t = pl_applied_through s \<and> pl_hydrated_through t = pl_hydrated_through s"

lemma roll_ok:
  assumes rep: "log_rep crc s rss" and room: "pl_next_seq s \<noteq> -1"
  shows "\<exists>t. roll s = (t, Inr ()) \<and> log_rep crc t (rss @ [[]]) \<and> log_frame s t \<and> pl_durable t = pl_durable s"
proof -
  note r = log_repD[OF rep]
  obtain d where d: "create_segment (pl_partition s) (pl_next_seq s) (pl_disk s) = (d, Inr 16)"
    "dir_ok crc (pl_partition s) d (map fst (pl_segments s) @ [pl_next_seq s]) (rss @ [[]])"
    using dir_create[OF r(1,4)] by blast
  let ?t = "s\<lparr>pl_disk := d, pl_next_seq := pl_next_seq s + 1, pl_current := pl_next_seq s, pl_current_size := 16,
      pl_segments := pl_segments s @ [(pl_next_seq s, pl_durable s)]\<rparr>"
  have "roll s = (?t, Inr ())"
    using d(1) by (simp add: roll_def act_bind_def act_get_def act_modify_def on_disk_def)
  moreover have "log_rep crc ?t (rss @ [[]])"
    using r d(2) word_less_succ[OF room]
    by (auto simp: log_rep_def list_all2_snoc covers_entries_def intro: less_trans)
  ultimately show ?thesis by (simp add: log_frame_def)
qed

lemma last_lamport_entries: "es \<noteq> [] \<Longrightarrow> last_lamport (map EntryRecord es) prev = we_lamport (last es)"
  by (induction es rule: rev_induct) auto

lemma entries_of_map [simp]: "entries_of (map EntryRecord es) = es"
  by (induction es) auto

lemma rises_entries_le:
  assumes "rises prev rs" and "e \<in> set (entries_of rs)"
  shows "prev < we_lamport e \<and> we_lamport e \<le> last_lamport rs prev"
  using assms
proof (induction rs arbitrary: prev)
  case (Cons r rs)
  have mono: "prev \<le> last_lamport rs prev" if "rises prev rs" for prev rs
    using that
  proof (induction rs arbitrary: prev)
    case (Cons r rs)
    then show ?case by (cases r) (auto intro: order_trans less_imp_le)
  qed simp
  show ?case
  proof (cases r)
    case (EntryRecord x)
    then have "prev < we_lamport x" "rises (we_lamport x) rs" using Cons.prems(1) by simp_all
    then show ?thesis
      using Cons.IH[of "we_lamport x"] Cons.prems(2) mono[of "we_lamport x" rs] EntryRecord
      by (auto intro: less_trans)
  qed (use Cons in auto)
qed simp

lemma epoch_in_entries: "epoch_in (map EntryRecord es) e0 \<le> e \<longleftrightarrow> e0 \<le> e \<and> (\<forall>x\<in>set es. we_epoch x \<le> e)"
  by (induction es arbitrary: e0) auto

lemma append_here:
  assumes rep: "log_rep crc s rss" and ne: "es \<noteq> []"
    and fits: "list_all record_fits (map EntryRecord es)" and up: "rises (pl_durable s) (map EntryRecord es)"
    and epochs: "\<forall>x\<in>set es. we_epoch x \<le> pl_epoch s"
  obtains t where
    "act_bind (act_get pl_current) (\<lambda>current.
        act_then (on_disk (disk_append current (frames_of crc (map EntryRecord es))))
        (act_then (on_disk (disk_sync current))
        (act_modify (\<lambda>s. s\<lparr>pl_current_size := pl_current_size s + n,
           pl_durable := max (pl_durable s) (we_lamport (last es)),
           pl_segments := update_last (\<lambda>(q, m). (q, max m (we_lamport (last es)))) (pl_segments s)\<rparr>)))) s = (t, Inr ())"
    "log_rep crc t (butlast rss @ [last rss @ map EntryRecord es])" "log_frame s t" "pl_durable t = we_lamport (last es)"
    "pl_next_seq t = pl_next_seq s"
proof -
  note r = log_repD[OF rep]
  let ?l = "we_lamport (last es)"
  obtain d where d: "act_then (on_disk (disk_append (pl_current s) (frames_of crc (map EntryRecord es)))) (on_disk (disk_sync (pl_current s))) s
      = (s\<lparr>pl_disk := d\<rparr>, Inr ())"
    "dir_ok crc (pl_partition s) d (map fst (pl_segments s)) (butlast rss @ [last rss @ map EntryRecord es])"
    using log_write[OF rep] by blast
  let ?t = "s\<lparr>pl_disk := d, pl_current_size := pl_current_size s + n, pl_durable := max (pl_durable s) ?l,
      pl_segments := update_last (\<lambda>(q, m). (q, max m ?l)) (pl_segments s)\<rparr>"
  have "last es \<in> set (entries_of (map EntryRecord es))" using ne by simp
  then have "pl_durable s < ?l" using rises_entries_le[OF up] by blast
  then have l: "max (pl_durable s) ?l = ?l" by simp
  have lls: "last_lamport (map EntryRecord es) 0 = ?l" "\<And>prev. last_lamport (map EntryRecord es) prev = ?l"
    using last_lamport_entries[OF ne] by simp_all
  have up': "rises (last_lamport (concat rss) 0) (map EntryRecord es)"
    using up r(8) by (cases es) auto
  have "act_bind (act_get pl_current) (\<lambda>current.
        act_then (on_disk (disk_append current (frames_of crc (map EntryRecord es))))
        (act_then (on_disk (disk_sync current))
        (act_modify (\<lambda>s. s\<lparr>pl_current_size := pl_current_size s + n,
           pl_durable := max (pl_durable s) ?l,
           pl_segments := update_last (\<lambda>(q, m). (q, max m ?l)) (pl_segments s)\<rparr>)))) s = (?t, Inr ())"
    using d(1) by (auto simp: act_then_def act_bind_def act_get_def act_modify_def split: prod.splits sum.splits)
  moreover have "log_rep crc ?t (butlast rss @ [last rss @ map EntryRecord es])"
  proof (rule log_rep_extend[OF rep d(2) fits up', where m = "max (snd (last (pl_segments s))) ?l" and q = 0])
    show "pl_segments ?t = butlast (pl_segments s) @ [(fst (last (pl_segments s)), max (snd (last (pl_segments s))) ?l)]"
      using r(11) by (simp add: update_last_def split: prod.split)
    show "covers_entries (0, max (snd (last (pl_segments s))) ?l) (map EntryRecord es)"
      using rises_entries_le[OF up'] lls by (auto simp: covers_entries_def le_max_iff_disj)
    show "epoch_in (map EntryRecord es) (epoch_in (concat rss) 0) \<le> pl_epoch ?t"
      using r(9) epochs by (simp add: epoch_in_entries)
    show "\<forall>l. CheckpointRecord l \<in> set (concat rss @ map EntryRecord es) \<longrightarrow> l \<le> pl_applied_through ?t"
      using r(10) by auto
    show "last_lamport (map EntryRecord es) (last_lamport (concat rss) 0) \<le> pl_durable ?t" by (simp add: lls l)
  qed (use r(12) in \<open>simp_all add: le_max_iff_disj\<close>)
  ultimately show thesis using that l by (simp add: log_frame_def)
qed

lemma append_frames_ok:
  assumes rep: "log_rep crc s rss" and room: "pl_next_seq s \<noteq> -1"
    and fits: "list_all record_fits (map EntryRecord es)" and up: "rises (pl_durable s) (map EntryRecord es)"
    and epochs: "\<forall>x\<in>set es. we_epoch x \<le> pl_epoch s"
  shows "\<exists>t rss'. append_frames (map (frame_encode crc \<circ> EntryRecord) es) (last_lamport (map EntryRecord es) (pl_durable s)) s = (t, Inr ())
    \<and> log_rep crc t rss' \<and> concat rss' = concat rss @ map EntryRecord es \<and> log_frame s t
    \<and> pl_durable t = last_lamport (map EntryRecord es) (pl_durable s)"
proof (cases "es = []")
  case True
  then show ?thesis using rep by (intro exI[of _ s] exI[of _ rss]) (simp add: append_frames_def act_ret_def log_frame_def)
next
  case ne: False
  define s1 rss1 where "s1 = (if pl_target s \<le> pl_current_size s then fst (roll s) else s)"
    and "rss1 = (if pl_target s \<le> pl_current_size s then rss @ [[]] else rss)"
  have first: "act_bind (act_get (\<lambda>s. pl_target s \<le> pl_current_size s)) (\<lambda>full. if full then roll else act_ret ()) s = (s1, Inr ())"
    "log_rep crc s1 rss1" "log_frame s s1" "pl_durable s1 = pl_durable s"
    using roll_ok[OF rep room] rep
    by (auto simp: s1_def rss1_def act_bind_def act_get_def act_ret_def log_frame_def)
  have c: "concat rss1 = concat rss" by (simp add: rss1_def)
  have up1: "rises (pl_durable s1) (map EntryRecord es)" and ep1: "\<forall>x\<in>set es. we_epoch x \<le> pl_epoch s1"
    using up epochs first(3,4) by (simp_all add: log_frame_def)
  obtain t where t: "act_bind (act_get pl_current) (\<lambda>current.
        act_then (on_disk (disk_append current (frames_of crc (map EntryRecord es))))
        (act_then (on_disk (disk_sync current))
        (act_modify (\<lambda>s. s\<lparr>pl_current_size := pl_current_size s + length (frames_of crc (map EntryRecord es)),
           pl_durable := max (pl_durable s) (we_lamport (last es)),
           pl_segments := update_last (\<lambda>(q, m). (q, max m (we_lamport (last es)))) (pl_segments s)\<rparr>)))) s1 = (t, Inr ())"
    "log_rep crc t (butlast rss1 @ [last rss1 @ map EntryRecord es])" "log_frame s1 t" "pl_durable t = we_lamport (last es)"
    using append_here[OF first(2) ne fits up1 ep1] by blast
  have "frames_of crc (map EntryRecord es) = concat (map (frame_encode crc \<circ> EntryRecord) es)"
    by (simp add: frames_of_def)
  then have "append_frames (map (frame_encode crc \<circ> EntryRecord) es) (we_lamport (last es)) s = (t, Inr ())"
    using ne first(1) t(1) by (simp add: append_frames_def act_then_def act_bind_def[of "act_bind _ _"])
  then show ?thesis
    using t(2-4) first(3) concat_snoc_last[OF log_repD(2)[OF first(2)], of "map EntryRecord es"] c last_lamport_entries[OF ne]
    by (intro exI[of _ t] exI[of _ "butlast rss1 @ [last rss1 @ map EntryRecord es]"]) (simp add: log_frame_def)
qed


section \<open>Checkpoints\<close>

lemma rises_weaken: "rises prev rs \<Longrightarrow> prev' \<le> prev \<Longrightarrow> rises prev' rs"
  by (induction rs arbitrary: prev prev') (auto split: option.splits)

lemma last_lamport_mono: "prev' \<le> prev \<Longrightarrow> last_lamport rs prev' \<le> last_lamport rs prev"
  by (induction rs arbitrary: prev prev') (auto split: option.splits)

lemma epoch_in_mono: "e' \<le> e \<Longrightarrow> epoch_in rs e' \<le> epoch_in rs e"
proof (induction rs arbitrary: e e')
  case (Cons r rs)
  have "max e' (record_epoch r) \<le> max e (record_epoch r)" using Cons.prems by (rule max.mono) simp
  then show ?case using Cons.IH by simp
qed simp

lemma takeWhile_short: "xs \<noteq> [] \<Longrightarrow> \<not> P (last xs) \<Longrightarrow> length (takeWhile P xs) < length xs"
  by (induction xs) (auto split: if_splits)

lemma filter_fst_take:
  assumes "distinct (map fst m)"
  shows "filter (\<lambda>e. fst e \<in> set (take n (map fst m))) m = take n m"
proof -
  have "filter (\<lambda>e. fst e \<in> set (take n (map fst m))) (take n m @ drop n m) = take n m"
    using set_take_disj_set_drop_if_distinct[OF assms, of n n]
    by (subst filter_append) (auto simp: take_map drop_map filter_id_conv filter_empty_conv)
  then show ?thesis by simp
qed

lemma log_rep_distinct: "log_rep crc s rss \<Longrightarrow> distinct (map fst (pl_segments s))"
  using log_repD(1)[of crc s rss] bt_ok_distinct[of "dk_files (pl_disk s)"] by (simp add: dir_ok_def)

lemma each_on_disk:
  "act_each (\<lambda>q. on_disk (f q)) qs s = (case act_each f qs (pl_disk s) of (d, r) \<Rightarrow> (s\<lparr>pl_disk := d\<rparr>, r))"
proof (induction qs arbitrary: s)
  case (Cons q qs)
  then show ?case by (auto simp: act_then_def act_bind_def on_disk_def split: prod.splits sum.splits)
qed (simp add: act_ret_def)

lemma drop_applied_ok:
  assumes rep: "log_rep crc s rss"
  shows "\<exists>t n. drop_applied_segments l s = (t, Inr ()) \<and> log_rep crc t (drop n rss) \<and> n < length rss
    \<and> (\<forall>e\<in>set (entries_of (concat (take n rss))). we_lamport e \<le> l) \<and> log_frame s t \<and> pl_durable t = pl_durable s
    \<and> n = length (takeWhile (\<lambda>(q, m). q \<noteq> fst (last (pl_segments s)) \<and> m \<le> l) (pl_segments s))"
proof -
  note r = log_repD[OF rep]
  let ?segs = "pl_segments s"
  define gone where "gone = takeWhile (\<lambda>(q, m). q \<noteq> fst (last ?segs) \<and> m \<le> l) ?segs"
  define n where "n = length gone"
  have n: "n < length ?segs" unfolding n_def gone_def using r(11) by (intro takeWhile_short) auto
  have len: "length ?segs = length rss" using r(5) by (rule list_all2_lengthD)
  have gone: "gone = take n ?segs" unfolding n_def gone_def by (rule takeWhile_eq_take)
  have removable: "map fst gone = take n (map fst ?segs)" by (simp add: gone take_map)
  obtain d where d: "act_each disk_remove (take n (map fst ?segs)) (pl_disk s) = (d, Inr ())"
    "dir_ok crc (pl_partition s) d (drop n (map fst ?segs)) (drop n rss)"
    using dir_remove(1)[OF r(1), of n] by blast
  have keep: "filter (\<lambda>s. fst s \<notin> set (take n (map fst ?segs))) ?segs = drop n ?segs"
    by (rule filter_keys_take(1)[OF log_rep_distinct[OF rep]])
  obtain rf where t: "drop_applied_segments l s = (s\<lparr>pl_disk := d, pl_segments := drop n ?segs, pl_retained_from := rf\<rparr>, Inr ())"
  proof -
    have cur: "(if ?segs = [] then 0 else fst (last ?segs)) = fst (last ?segs)" using r(11) by simp
    have keep': "filter (\<lambda>s. fst s \<notin> fst ` set gone) ?segs = drop n ?segs"
      using keep by (simp add: removable[symmetric])
    show thesis
      using that d(1) keep'
      by (simp add: drop_applied_segments_def act_bind_def act_get_def act_then_def act_modify_def Let_def each_on_disk
          cur gone_def[symmetric] removable)
  qed
  have split: "concat rss = concat (take n rss) @ concat (drop n rss)" by (metis append_take_drop_id concat_append)
  have bounds: "last_lamport (concat (drop n rss)) 0 \<le> pl_durable s" "epoch_in (concat (drop n rss)) 0 \<le> pl_epoch s"
    "rises 0 (concat (drop n rss))" "list_all record_fits (concat (drop n rss))"
    "\<forall>l. CheckpointRecord l \<in> set (concat (drop n rss)) \<longrightarrow> l \<le> pl_applied_through s"
    using r(6-10) unfolding split
    by (auto simp: rises_append intro: order_trans[OF last_lamport_mono] order_trans[OF epoch_in_mono] rises_weaken)
  have "list_all2 covers_entries (take n ?segs) (take n rss)" "list_all2 covers_entries (drop n ?segs) (drop n rss)"
    using r(5) by (auto intro: list_all2_takeI list_all2_dropI)
  moreover have "\<forall>sg\<in>set (take n ?segs). snd sg \<le> l"
    unfolding gone[symmetric] gone_def by (auto dest: set_takeWhileD)
  moreover have "\<forall>e\<in>set (entries_of (concat rs)). we_lamport e \<le> l"
    if "list_all2 covers_entries sgs rs" "\<forall>sg\<in>set sgs. snd sg \<le> l" for sgs rs
    using that by (induction rule: list_all2_induct) (auto simp: covers_entries_def intro: order_trans)
  moreover have "log_rep crc (s\<lparr>pl_disk := d, pl_segments := drop n ?segs, pl_retained_from := rf\<rparr>) (drop n rss)"
    unfolding log_rep_def
    using r(3,4,12) d(2) n len bounds list_all2_dropI[OF r(5), of n] set_drop_subset[of n ?segs]
    by (auto simp: drop_map)
  ultimately show ?thesis using t n len
    by (intro exI[of _ "s\<lparr>pl_disk := d, pl_segments := drop n ?segs, pl_retained_from := rf\<rparr>"] exI[of _ n])
      (auto simp: log_frame_def n_def gone_def)
qed

text \<open>A checkpoint adds its record and drops the leading segments whose entries it covers.\<close>

lemma checkpoint_segments:
  assumes rep: "log_rep crc s rss" and l: "l \<le> pl_durable s" "pl_applied_through s \<le> l"
    and rss': "rss' = butlast rss @ [last rss @ [CheckpointRecord l]]"
  shows "\<exists>t k. checkpoint crc l s = (t, Inr ()) \<and> log_rep crc t (drop k rss') \<and> k < length rss'
    \<and> (\<forall>e\<in>set (entries_of (concat (take k rss'))). we_lamport e \<le> l) \<and> pl_applied_through t = l
    \<and> pl_durable t = pl_durable s \<and> pl_epoch t = pl_epoch s \<and> pl_hydrated_through t = pl_hydrated_through s
    \<and> pl_partition t = pl_partition s
    \<and> k = length (takeWhile (\<lambda>(q, m). q \<noteq> fst (last (pl_segments s)) \<and> m \<le> l) (pl_segments s))"
proof -
  let ?rss = "butlast rss @ [last rss @ [CheckpointRecord l]]"
  have f: "s\<lparr>pl_disk := d, pl_current_size := n, pl_applied_through := l\<rparr> =
      s\<lparr>pl_disk := d, pl_current_size := n, pl_epoch := pl_epoch s, pl_applied_through := l\<rparr>" for d n
    by (cases s) simp
  obtain d n where w: "act_then (write_record crc (CheckpointRecord l)) (act_modify (\<lambda>s. s\<lparr>pl_applied_through := l\<rparr>)) s
      = (s\<lparr>pl_disk := d, pl_current_size := n, pl_epoch := pl_epoch s, pl_applied_through := l\<rparr>, Inr ())"
    "log_rep crc (s\<lparr>pl_disk := d, pl_current_size := n, pl_epoch := pl_epoch s, pl_applied_through := l\<rparr>) ?rss"
    using log_note[OF rep, of "CheckpointRecord l" "\<lambda>s. s\<lparr>pl_applied_through := l\<rparr>", OF _ f] l(2) by auto
  let ?s = "s\<lparr>pl_disk := d, pl_current_size := n, pl_epoch := pl_epoch s, pl_applied_through := l\<rparr>"
  obtain t k where t: "drop_applied_segments l ?s = (t, Inr ())" "log_rep crc t (drop k ?rss)" "k < length ?rss"
    "\<forall>e\<in>set (entries_of (concat (take k ?rss))). we_lamport e \<le> l" "log_frame ?s t" "pl_durable t = pl_durable s"
    "k = length (takeWhile (\<lambda>(q, m). q \<noteq> fst (last (pl_segments s)) \<and> m \<le> l) (pl_segments s))"
    using drop_applied_ok[OF w(2), of l] by auto
  have "checkpoint crc l s = drop_applied_segments l ?s"
    using l(1) w(1) by (auto simp: checkpoint_def act_bind_def act_get_def act_then_def split: prod.splits sum.splits)
  then show ?thesis unfolding rss' using t by (intro exI[of _ t] exI[of _ k]) (simp add: log_frame_def)
qed

lemma checkpoint_ok:
  assumes rep: "log_rep crc s rss" and l: "l \<le> pl_durable s" "pl_applied_through s \<le> l"
  shows "\<exists>t rss' gone. checkpoint crc l s = (t, Inr ()) \<and> log_rep crc t rss' \<and> concat rss @ [CheckpointRecord l] = gone @ concat rss'
    \<and> (\<forall>e\<in>set (entries_of gone). we_lamport e \<le> l) \<and> applied_in (concat rss') 0 = l \<and> pl_applied_through t = l
    \<and> pl_durable t = pl_durable s \<and> pl_epoch t = pl_epoch s \<and> pl_hydrated_through t = pl_hydrated_through s
    \<and> pl_partition t = pl_partition s"
proof -
  let ?rss = "butlast rss @ [last rss @ [CheckpointRecord l]]"
  obtain t k where t: "checkpoint crc l s = (t, Inr ())" "log_rep crc t (drop k ?rss)" "k < length ?rss"
    "\<forall>e\<in>set (entries_of (concat (take k ?rss))). we_lamport e \<le> l" "pl_applied_through t = l" "pl_durable t = pl_durable s"
    "pl_epoch t = pl_epoch s" "pl_hydrated_through t = pl_hydrated_through s" "pl_partition t = pl_partition s"
    using checkpoint_segments[OF rep l refl] by blast
  moreover have "concat rss @ [CheckpointRecord l] = concat (take k ?rss) @ concat (drop k ?rss)"
    using concat_snoc_last[OF log_repD(2)[OF rep], of "[CheckpointRecord l]"] by (metis append_take_drop_id concat_append)
  moreover have "applied_in (concat (drop k ?rss)) 0 = l"
    using t(3) by (simp add: drop_append)
  ultimately show ?thesis
    by (intro exI[of _ t] exI[of _ "drop k ?rss"] exI[of _ "concat (take k ?rss)"]) simp
qed


section \<open>Cutting a tail\<close>

definition is_above :: "lamport \<Rightarrow> log_record \<Rightarrow> bool" where
  "is_above l r \<longleftrightarrow> (case record_lamport r of Some x \<Rightarrow> l < x | None \<Rightarrow> False)"

definition keep_below :: "lamport \<Rightarrow> log_record list \<Rightarrow> log_record list" where
  "keep_below l rs = takeWhile (\<lambda>r. \<not> is_above l r) rs"

lemma offset_above_run:
  assumes "list_all record_fits rs"
  shows "offset_above crc (frames_of crc rs) pos l =
    (if list_ex (is_above l) rs then Some (pos + length (frames_of crc (keep_below l rs))) else None)"
  using assms
proof (induction rs arbitrary: pos)
  case (Cons r rs)
  then show ?case
    by (subst offset_above.simps)
      (simp add: frame_roundtrip keep_below_def is_above_def[symmetric])
qed (simp add: offset_above.simps)

lemma first_offset_run:
  assumes "list_all record_fits rs"
  shows "first_offset_above crc (segment_bytes crc p rs) l =
    (if list_ex (is_above l) rs then Some (length (segment_bytes crc p (keep_below l rs))) else None)"
  using offset_above_run[OF assms]
  by (simp add: first_offset_above_def segment_bytes_def header_roundtrip length_segment_header)

lemma find_cut_run:
  assumes "dk_faults d = []" and "bt_ok (dk_files d)" and "holds_records crc p files rss" and "set files \<subseteq> set (dk_files d)"
    and "list_all record_fits (concat rss)"
  shows "(\<exists>i. i < length rss \<and> find_cut crc l k (map fst files) d =
        (d, Inr (Some (k + i, length (segment_bytes crc p (keep_below l (rss ! i))))))
      \<and> list_ex (is_above l) (rss ! i) \<and> \<not> list_ex (is_above l) (concat (take i rss)))
    \<or> find_cut crc l k (map fst files) d = (d, Inr None) \<and> \<not> list_ex (is_above l) (concat rss)"
  using assms(3-5)
proof (induction files arbitrary: rss k)
  case (Cons x files)
  obtain q f where x: "x = (q, f)" by (cases x)
  from Cons.prems(1) obtain rs rss' where rss: "rss = rs # rss'" "fl_content f = segment_bytes crc p rs"
    "holds_records crc p files rss'"
    by (auto simp: holds_records_def x list_all2_Cons1)
  have get: "bt_get (dk_files d) q = Some f" using Cons.prems(2) assms(2) by (simp add: bt_get_iff x)
  have fits: "list_all record_fits rs" "list_all record_fits (concat rss')" using Cons.prems(3) rss(1) by simp_all
  show ?case
  proof (cases "list_ex (is_above l) rs")
    case True
    then show ?thesis using first_offset_run[OF fits(1), of crc p l]
      by (intro disjI1 exI[of _ 0])
        (simp add: x rss(1,2) act_bind_def disk_read_quiet[OF assms(1) get] act_ret_def)
  next
    case False
    have step: "find_cut crc l k (map fst (x # files)) d = find_cut crc l (Suc k) (map fst files) d"
      using False first_offset_run[OF fits(1), of crc p l]
      by (simp add: x rss(2) act_bind_def disk_read_quiet[OF assms(1) get])
    have sub: "set files \<subseteq> set (dk_files d)" using Cons.prems(2) by simp
    from Cons.IH[OF rss(3) sub fits(2), of "Suc k"] show ?thesis
    proof (elim disjE exE conjE)
      fix i
      assume "i < length rss'" "find_cut crc l (Suc k) (map fst files) d =
          (d, Inr (Some (Suc k + i, length (segment_bytes crc p (keep_below l (rss' ! i))))))"
        "list_ex (is_above l) (rss' ! i)" "\<not> list_ex (is_above l) (concat (take i rss'))"
      then show ?thesis using False unfolding step by (intro disjI1 exI[of _ "Suc i"]) (simp add: rss(1))
    qed (use False step in \<open>simp_all add: rss(1)\<close>)
  qed
qed (auto simp: holds_records_def act_ret_def)

lemma dir_truncate:
  assumes ok: "dir_ok crc p d seqs (rss @ [a @ b])"
  shows "\<exists>d'. act_then (disk_truncate (last seqs) (length (segment_bytes crc p a))) (disk_sync (last seqs)) d = (d', Inr ())
    \<and> dir_ok crc p d' seqs (rss @ [a])"
proof -
  obtain fs q f rss' rs where d: "dk_files d = fs @ [(q, f)]" "seqs = map fst fs @ [q]" "rss @ [a @ b] = rss' @ [rs]"
    "holds_records crc p fs rss'" "fl_content f = segment_bytes crc p rs"
    using dir_ok_snoc[OF ok] by (metis snoc_eq_iff_butlast)
  have quiet: "dk_faults d = []" and bt: "bt_ok (dk_files d)" using ok by (simp_all add: dir_ok_def)
  let ?bs = "segment_bytes crc p a"
  have c: "fl_content f = ?bs @ frames_of crc b" using d(3,5) by (auto simp: segment_bytes_def)
  have "act_then (disk_truncate q (length ?bs)) (disk_sync q) d =
      (d\<lparr>dk_files := fs @ [(q, \<lparr>fl_content = ?bs, fl_synced = length ?bs\<rparr>)]\<rparr>, Inr ())"
    using c by (intro truncate_last[OF quiet d(1) bt]) simp_all
  moreover have "dir_ok crc p (d\<lparr>dk_files := fs @ [(q, \<lparr>fl_content = ?bs, fl_synced = length ?bs\<rparr>)]\<rparr>) seqs (rss @ [a])"
    using d quiet bt by (simp add: dir_ok_def holds_records_append bt_ok_def)
  ultimately show ?thesis using d(2) by auto
qed

lemma write_small:
  assumes rep: "log_rep crc s rss" and none: "record_lamport r = None" and "record_epoch r \<le> pl_epoch s"
    and "\<forall>l. r = CheckpointRecord l \<longrightarrow> l \<le> pl_applied_through s"
  shows "\<exists>d n. write_record crc r s = (s\<lparr>pl_disk := d, pl_current_size := n\<rparr>, Inr ())
    \<and> log_rep crc (s\<lparr>pl_disk := d, pl_current_size := n\<rparr>) (butlast rss @ [last rss @ [r]])"
proof -
  note r = log_repD[OF rep]
  obtain d n where w: "write_record crc r s = (s\<lparr>pl_disk := d, pl_current_size := n\<rparr>, Inr ())"
    "dir_ok crc (pl_partition s) d (map fst (pl_segments s)) (butlast rss @ [last rss @ [r]])"
    using write_record_ok[OF rep] by blast
  have "log_rep crc (s\<lparr>pl_disk := d, pl_current_size := n\<rparr>) (butlast rss @ [last rss @ [r]])"
  proof (rule log_rep_extend[OF rep w(2), where m = "snd (last (pl_segments s))" and q = 0])
    show "covers_entries (0, snd (last (pl_segments s))) [r]" using none by (cases r) (auto simp: covers_entries_def)
  qed (use none r(8-12) assms(3,4) segments_same_last in \<open>auto simp: small_record_fits\<close>)
  then show ?thesis using w(1) by blast
qed

lemma rises_above_rest:
  assumes "rises prev (a @ b)" and "list_ex (is_above l) a"
  shows "\<forall>e\<in>set (entries_of b). l < we_lamport e"
proof
  fix e assume "e \<in> set (entries_of b)"
  then have "last_lamport a prev < we_lamport e" using assms(1) rises_entries_le by (auto simp: rises_append)
  moreover obtain r where "r \<in> set a" "is_above l r" using assms(2) by (auto simp: list_ex_iff)
  then obtain x where x: "r = EntryRecord x" "l < we_lamport x" by (cases r rule: log_record.exhaust) (simp_all add: is_above_def)
  then have "x \<in> set (entries_of a)" using \<open>r \<in> set a\<close> by (force simp: entries_of_def)
  then have "we_lamport x \<le> last_lamport a prev" using assms(1) rises_entries_le by (auto simp: rises_append)
  ultimately show "l < we_lamport e" using x(2) by (meson le_less_trans less_le_trans less_trans)
qed

lemma not_above_entries: "\<not> list_ex (is_above l) rs \<longleftrightarrow> (\<forall>e\<in>set (entries_of rs). we_lamport e \<le> l)"
proof (induction rs)
  case (Cons r rs)
  then show ?case by (cases r) (auto simp: is_above_def not_less)
qed simp

lemma keep_below_entries:
  assumes "rises prev rs"
  shows "entries_of (keep_below l rs) = filter (\<lambda>e. we_lamport e \<le> l) (entries_of rs)"
  using assms
proof (induction rs arbitrary: prev)
  case (Cons r rs)
  show ?case
  proof (cases r)
    case (EntryRecord e)
    then have up: "rises (we_lamport e) rs" using Cons.prems by simp
    have "filter (\<lambda>e. we_lamport e \<le> l) (entries_of rs) = []" if "l < we_lamport e"
      using rises_entries_le[OF up] that by (fastforce simp: filter_empty_conv)
    then show ?thesis using Cons.IH[OF up] EntryRecord by (auto simp: keep_below_def is_above_def not_less not_le)
  qed (use Cons in \<open>auto simp: keep_below_def is_above_def\<close>)
qed (simp add: keep_below_def)

lemma cut_entries:
  assumes up: "rises 0 (concat rss)" and i: "i < length rss" and above: "list_ex (is_above l) (rss ! i)"
    and below: "\<not> list_ex (is_above l) (concat (take i rss))"
  shows "entries_of (concat (take i rss) @ keep_below l (rss ! i)) = filter (\<lambda>e. we_lamport e \<le> l) (entries_of (concat rss))"
proof -
  have "take i rss @ rss ! i # drop (Suc i) rss = rss" using i by (rule id_take_nth_drop[symmetric])
  then have split: "concat rss = (concat (take i rss) @ rss ! i) @ concat (drop (Suc i) rss)"
    by (metis append_assoc concat.simps(2) concat_append)
  have up': "rises (last_lamport (concat (take i rss)) 0) (rss ! i)" using up unfolding split by (simp add: rises_append)
  have "filter (\<lambda>e. we_lamport e \<le> l) (entries_of (concat (drop (Suc i) rss))) = []"
    using rises_above_rest[OF up[unfolded split]] above by (fastforce simp: filter_empty_conv)
  moreover have "filter (\<lambda>e. we_lamport e \<le> l) (entries_of (concat (take i rss))) = entries_of (concat (take i rss))"
    using below by (simp add: not_above_entries filter_id_conv)
  ultimately show ?thesis unfolding split by (simp add: keep_below_entries[OF up'])
qed


lemma epoch_in_ge: "e \<le> epoch_in rs e"
proof (induction rs arbitrary: e)
  case (Cons r rs)
  have "max e (record_epoch r) \<le> epoch_in rs (max e (record_epoch r))" by (rule Cons.IH)
  then show ?case by simp
qed simp

lemma applied_in_bound: "applied_in rs a = a \<or> CheckpointRecord (applied_in rs a) \<in> set rs"
proof (induction rs arbitrary: a)
  case (Cons r rs)
  then show ?case by (cases r) auto
qed simp

text \<open>Rewriting the fence and the checkpoint that the cut may have taken away.\<close>

lemma rewrite_marks:
  assumes rep: "log_rep crc s rss"
  shows "\<exists>t rss'. act_then (if 0 < pl_epoch s then write_record crc (FenceRecord (pl_epoch s)) else act_ret ())
        (if 0 < pl_applied_through s then write_record crc (CheckpointRecord (pl_applied_through s)) else act_ret ()) s = (t, Inr ())
    \<and> log_rep crc t rss' \<and> entries_of (concat rss') = entries_of (concat rss) \<and> epoch_in (concat rss') 0 = pl_epoch s
    \<and> applied_in (concat rss') 0 = pl_applied_through s \<and> log_frame s t \<and> pl_durable t = pl_durable s"
proof -
  note r = log_repD[OF rep]
  obtain s1 rss1 where 1: "(if 0 < pl_epoch s then write_record crc (FenceRecord (pl_epoch s)) else act_ret ()) s = (s1, Inr ())"
    "log_rep crc s1 rss1" "entries_of (concat rss1) = entries_of (concat rss)" "epoch_in (concat rss1) 0 = pl_epoch s"
    "log_frame s s1" "pl_durable s1 = pl_durable s"
  proof (cases "0 < pl_epoch s")
    case True
    from write_small[OF rep, of "FenceRecord (pl_epoch s)"] obtain d n where
      "write_record crc (FenceRecord (pl_epoch s)) s = (s\<lparr>pl_disk := d, pl_current_size := n\<rparr>, Inr ())"
      "log_rep crc (s\<lparr>pl_disk := d, pl_current_size := n\<rparr>) (butlast rss @ [last rss @ [FenceRecord (pl_epoch s)]])" by auto
    then show thesis
      using that[of "s\<lparr>pl_disk := d, pl_current_size := n\<rparr>" "butlast rss @ [last rss @ [FenceRecord (pl_epoch s)]]",
          unfolded concat_snoc_last[OF r(2)]] True r(9) by (simp add: log_frame_def max_absorb2)
  next
    case False
    then have "pl_epoch s = 0" by (simp add: word_gt_0)
    then show thesis using that[of s rss] rep r(9) by (simp add: act_ret_def log_frame_def)
  qed
  note r1 = log_repD[OF 1(2)]
  have same: "pl_applied_through s1 = pl_applied_through s" "pl_epoch s1 = pl_epoch s" using 1(5) by (simp_all add: log_frame_def)
  obtain t rss' where 2: "(if 0 < pl_applied_through s then write_record crc (CheckpointRecord (pl_applied_through s)) else act_ret ()) s1 = (t, Inr ())"
    "log_rep crc t rss'" "entries_of (concat rss') = entries_of (concat rss1)" "epoch_in (concat rss') 0 = epoch_in (concat rss1) 0"
    "applied_in (concat rss') 0 = pl_applied_through s" "log_frame s1 t" "pl_durable t = pl_durable s1"
  proof (cases "0 < pl_applied_through s")
    case True
    from write_small[OF 1(2), of "CheckpointRecord (pl_applied_through s)"] same obtain d n where
      "write_record crc (CheckpointRecord (pl_applied_through s)) s1 = (s1\<lparr>pl_disk := d, pl_current_size := n\<rparr>, Inr ())"
      "log_rep crc (s1\<lparr>pl_disk := d, pl_current_size := n\<rparr>) (butlast rss1 @ [last rss1 @ [CheckpointRecord (pl_applied_through s)]])"
      by auto
    then show thesis
      using that[of "s1\<lparr>pl_disk := d, pl_current_size := n\<rparr>" "butlast rss1 @ [last rss1 @ [CheckpointRecord (pl_applied_through s)]]",
          unfolded concat_snoc_last[OF r1(2)]] True by (simp add: log_frame_def)
  next
    case False
    have "applied_in (concat rss1) 0 \<le> pl_applied_through s1"
      using applied_in_bound[of "concat rss1" 0] r1(10) by auto
    then have "applied_in (concat rss1) 0 = pl_applied_through s" using False same by (simp add: word_gt_0)
    then show thesis using that 1(2) False by (simp add: act_ret_def log_frame_def)
  qed
  show ?thesis using 1 2 by (intro exI[of _ t] exI[of _ rss']) (auto simp: act_then_def act_bind_def log_frame_def)
qed

lemma keep_below_prefix: "\<exists>ys. rs = keep_below l rs @ ys"
  unfolding keep_below_def by (metis takeWhile_dropWhile_id)

lemma last_lamport_cases: "last_lamport rs prev = prev \<or> (\<exists>e\<in>set (entries_of rs). last_lamport rs prev = we_lamport e)"
proof (induction rs arbitrary: prev)
  case (Cons r rs)
  then show ?case by (cases r) auto
qed simp

lemma log_rep_cut:
  assumes rep: "log_rep crc s rss" and i: "i < length rss" and u: "l \<le> u" "pl_hydrated_through s \<le> u"
    and above: "list_ex (is_above l) (rss ! i)" "\<not> list_ex (is_above l) (concat (take i rss))"
    and dir: "dir_ok crc (pl_partition s) d (take (Suc i) (map fst (pl_segments s))) (take i rss @ [keep_below l (rss ! i)])"
  shows "log_rep crc (s\<lparr>pl_disk := d, pl_current := fst (pl_segments s ! i), pl_current_size := n, pl_durable := u,
      pl_retained_from := rf, pl_segments := update_last (\<lambda>(q, _). (q, u)) (take (Suc i) (pl_segments s))\<rparr>)
    (take i rss @ [keep_below l (rss ! i)])"
proof -
  note r = log_repD[OF rep]
  let ?segs = "pl_segments s"
  let ?rs = "concat (take i rss) @ keep_below l (rss ! i)"
  have len: "length ?segs = length rss" using r(5) by (rule list_all2_lengthD)
  then have segs: "take (Suc i) ?segs = take i ?segs @ [?segs ! i]" using i by (simp add: take_Suc_conv_app_nth)
  have upd: "update_last (\<lambda>(q, _). (q, u)) (take (Suc i) ?segs) = take i ?segs @ [(fst (?segs ! i), u)]"
    by (simp add: segs update_last_def split: prod.split)
  have fst: "map fst (take i ?segs @ [(fst (?segs ! i), u)]) = take (Suc i) (map fst ?segs)"
    using i len by (simp add: take_map take_Suc_conv_app_nth)
  obtain b where b: "rss ! i = keep_below l (rss ! i) @ b" using keep_below_prefix by metis
  have "take i rss @ rss ! i # drop (Suc i) rss = rss" using i by (rule id_take_nth_drop[symmetric])
  then have split: "concat rss = ?rs @ b @ concat (drop (Suc i) rss)"
    using b by (metis append_assoc concat.simps(2) concat_append)
  have ent: "entries_of ?rs = filter (\<lambda>e. we_lamport e \<le> l) (entries_of (concat rss))"
    by (rule cut_entries[OF r(7) i above])
  have low: "\<forall>e\<in>set (entries_of ?rs). we_lamport e \<le> u" unfolding ent using u(1) by (auto intro: order_trans)
  have "last_lamport ?rs 0 \<le> u" using last_lamport_cases[of ?rs 0] low by auto
  moreover have "epoch_in ?rs 0 \<le> pl_epoch s"
    using r(9) epoch_in_ge[of "epoch_in ?rs 0" "b @ concat (drop (Suc i) rss)"] unfolding split by (simp add: order_trans)
  moreover have "list_all2 covers_entries (take i ?segs @ [(fst (?segs ! i), u)]) (take i rss @ [keep_below l (rss ! i)])"
    using list_all2_takeI[OF r(5), of i] low by (auto simp: list_all2_snoc covers_entries_def)
  moreover have "list_all record_fits ?rs" "rises 0 ?rs"
    "\<forall>l. CheckpointRecord l \<in> set ?rs \<longrightarrow> l \<le> pl_applied_through s"
    using r(6,7,10) unfolding split by (auto simp: rises_append)
  moreover have "\<forall>q\<in>set (take (Suc i) (map fst ?segs)). q < pl_next_seq s" using r(4) by (meson in_set_takeD)
  ultimately show ?thesis using dir u(2) unfolding log_rep_def upd by (simp add: fst del: map_append)
qed

lemma truncate_above_ok:
  assumes rep: "log_rep crc s rss"
  shows "\<exists>t rss'. truncate_above crc l s = (t, Inr ()) \<and> log_rep crc t rss'
    \<and> entries_of (concat rss') = filter (\<lambda>e. we_lamport e \<le> l) (entries_of (concat rss))
    \<and> (epoch_in (concat rss) 0 = pl_epoch s \<longrightarrow> epoch_in (concat rss') 0 = pl_epoch s)
    \<and> (applied_in (concat rss) 0 = pl_applied_through s \<longrightarrow> applied_in (concat rss') 0 = pl_applied_through s)
    \<and> log_frame s t \<and> pl_durable t \<le> pl_durable s
    \<and> min l (pl_durable s) \<le> pl_durable t
    \<and> ((\<exists>e\<in>set (entries_of (concat rss)). l < we_lamport e) \<longrightarrow> pl_durable t = max l (pl_hydrated_through s))"
proof -
  note r = log_repD[OF rep]
  let ?segs = "pl_segments s"
  have quiet: "dk_faults (pl_disk s) = []" and bt: "bt_ok (dk_files (pl_disk s))"
    and files: "map fst (dk_files (pl_disk s)) = map fst ?segs" and holds: "holds_records crc (pl_partition s) (dk_files (pl_disk s)) rss"
    using r(1) by (simp_all add: dir_ok_def)
  have len: "length ?segs = length rss" using r(5) by (rule list_all2_lengthD)
  consider (small) "pl_durable s \<le> l"
    | (none) "\<not> pl_durable s \<le> l" "find_cut crc l 0 (map fst ?segs) (pl_disk s) = (pl_disk s, Inr None)"
        "\<not> list_ex (is_above l) (concat rss)"
    | (cut) i where "\<not> pl_durable s \<le> l" "i < length rss" "find_cut crc l 0 (map fst ?segs) (pl_disk s) =
          (pl_disk s, Inr (Some (i, length (segment_bytes crc (pl_partition s) (keep_below l (rss ! i))))))"
        "list_ex (is_above l) (rss ! i)" "\<not> list_ex (is_above l) (concat (take i rss))"
    using find_cut_run[OF quiet bt holds _ r(6), of l 0] unfolding files by auto
  then show ?thesis
  proof cases
    case small
    then have "\<forall>e\<in>set (entries_of (concat rss)). we_lamport e \<le> l"
      using rises_entries_le[OF r(7)] r(8) by (fastforce intro: order_trans)
    then show ?thesis using small rep
      by (intro exI[of _ s] exI[of _ rss])
        (auto simp: truncate_above_def act_bind_def act_get_def act_ret_def log_frame_def min_absorb2 not_le[symmetric])
  next
    case none
    then have le: "\<forall>e\<in>set (entries_of (concat rss)). we_lamport e \<le> l" by (simp add: not_above_entries)
    then have "last_lamport (concat rss) 0 \<le> l" using last_lamport_cases[of "concat rss" 0] by auto
    then show ?thesis using rep none le
      by (intro exI[of _ s] exI[of _ rss])
        (auto simp: truncate_above_def act_bind_def act_get_def act_ret_def log_frame_def on_disk_def not_le[symmetric])
  next
    case (cut i)
    obtain b where b: "rss ! i = keep_below l (rss ! i) @ b" using keep_below_prefix by metis
    have take: "take (Suc i) rss = take i rss @ [keep_below l (rss ! i) @ b]" using cut(2) b by (simp add: take_Suc_conv_app_nth)
    obtain d1 where d1: "act_each disk_remove (drop (Suc i) (map fst ?segs)) (pl_disk s) = (d1, Inr ())"
      "dir_ok crc (pl_partition s) d1 (take (Suc i) (map fst ?segs)) (take i rss @ [keep_below l (rss ! i) @ b])"
      using dir_remove(2)[OF r(1), of "Suc i"] unfolding take by blast
    have seq: "last (take (Suc i) (map fst ?segs)) = fst (?segs ! i)" using cut(2) len by (simp add: take_Suc_conv_app_nth)
    define n u where "n = length (segment_bytes crc (pl_partition s) (keep_below l (rss ! i)))" and "u = max l (pl_hydrated_through s)"
    obtain d2 where d2: "act_then (disk_truncate (fst (?segs ! i)) n) (disk_sync (fst (?segs ! i))) d1 = (d2, Inr ())"
      "dir_ok crc (pl_partition s) d2 (take (Suc i) (map fst ?segs)) (take i rss @ [keep_below l (rss ! i)])"
      using dir_truncate[OF d1(2)] unfolding seq n_def by blast
    then obtain d where d: "disk_truncate (fst (?segs ! i)) n d1 = (d, Inr ())" "disk_sync (fst (?segs ! i)) d = (d2, Inr ())"
      by (auto simp: act_then_def act_bind_def split: prod.splits sum.splits)
    define t1 where "t1 = s\<lparr>pl_disk := d2, pl_current := fst (?segs ! i), pl_current_size := n, pl_durable := u,
        pl_retained_from := min (pl_retained_from s) (next_counter u),
        pl_segments := update_last (\<lambda>(q, _). (q, u)) (take (Suc i) ?segs)\<rparr>"
    have rep1: "log_rep crc t1 (take i rss @ [keep_below l (rss ! i)])"
      unfolding t1_def u_def by (rule log_rep_cut[OF rep cut(2) _ _ cut(4,5) d2(2)]) simp_all
    have t1: "pl_epoch t1 = pl_epoch s" "pl_applied_through t1 = pl_applied_through s" "log_frame s t1" "pl_durable t1 = u"
      by (simp_all add: t1_def log_frame_def)
    obtain t rss' where t: "act_then (if 0 < pl_epoch s then write_record crc (FenceRecord (pl_epoch s)) else act_ret ())
        (if 0 < pl_applied_through s then write_record crc (CheckpointRecord (pl_applied_through s)) else act_ret ()) t1 = (t, Inr ())"
      "log_rep crc t rss'" "entries_of (concat rss') = entries_of (concat (take i rss @ [keep_below l (rss ! i)]))"
      "epoch_in (concat rss') 0 = pl_epoch s" "applied_in (concat rss') 0 = pl_applied_through s" "log_frame t1 t" "pl_durable t = u"
      using rewrite_marks[OF rep1, unfolded t1(1,2,4)] by blast
    have "truncate_above crc l s = (t, Inr ())"
      using cut(1,3) d1(1) d t(1)
      by (simp add: truncate_above_def act_bind_def act_get_def on_disk_def act_then_def act_modify_def Let_def
          each_on_disk drop_map n_def[symmetric] u_def[symmetric] t1_def)
    moreover have "u \<le> pl_durable s" using cut(1) r(12) by (simp add: u_def)
    ultimately show ?thesis
      using t t1 cut_entries[OF r(7) cut(2,4,5)] cut(1)
      by (intro exI[of _ t] exI[of _ rss']) (auto simp: log_frame_def u_def max_def min_def)
  qed
qed

lemma hydrate_ok:
  assumes rep: "log_rep crc s rss"
  shows "log_rep crc (fst (hydrate l s)) rss \<and> pl_durable (fst (hydrate l s)) = max (pl_durable s) l"
proof -
  note r = log_repD[OF rep]
  obtain segs sg where sg: "pl_segments s = segs @ [sg]" using r(11) by (meson rev_exhaust)
  obtain rss' rs where rss: "rss = rss' @ [rs]" using r(2) by (meson rev_exhaust)
  have "list_all2 covers_entries (segs @ [(fst sg, max (snd sg) l)]) rss"
    using r(5) by (auto simp: sg rss list_all2_snoc covers_entries_def le_max_iff_disj)
  then show ?thesis
    using r by (auto simp: hydrate_def log_rep_def sg update_last_def max_def not_le split: prod.splits)
qed

end
