(* ===== verification/Wal_Durability.thy ===== *)
theory Wal_Durability
  imports Wal_Refine
begin

text \<open>
  What the log promises across crashes. An abstract log is the entries since the beginning, how
  far they have been applied elsewhere, and the highest epoch that was accepted; the operations
  of \<open>Wal_Log\<close> refine its operations, and whatever fails in an append and whenever the node stops,
  opening the log again gives the abstract log back. Two losses remain, shown at the end: the fences of
  segments that a checkpoint drops, and what follows a batch that was appended again after its sync failed.
\<close>

section \<open>The abstract log\<close>

datatype log_op = AppendEntries "wal_entry list" | AcceptEpoch epoch | Checkpoint lamport | CutAbove lamport

record abstract_log =
  al_entries :: "wal_entry list"
  al_applied :: lamport
  al_epoch :: epoch

definition abstract_new :: abstract_log where
  "abstract_new = \<lparr>al_entries = [], al_applied = 0, al_epoch = 0\<rparr>"

fun spec_op :: "log_op \<Rightarrow> abstract_log \<Rightarrow> abstract_log" where
  "spec_op (AppendEntries es) a = a\<lparr>al_entries := al_entries a @ es\<rparr>"
| "spec_op (AcceptEpoch e) a = a\<lparr>al_epoch := max (al_epoch a) e\<rparr>"
| "spec_op (Checkpoint l) a = a\<lparr>al_applied := l\<rparr>"
| "spec_op (CutAbove l) a = a\<lparr>al_entries := filter (\<lambda>e. we_lamport e \<le> l) (al_entries a)\<rparr>"

definition append_entries :: "(bytes \<Rightarrow> u32) \<Rightarrow> wal_entry list \<Rightarrow> unit log_action" where
  "append_entries crc es s =
     append_frames (map (frame_encode crc \<circ> EntryRecord) es) (last_lamport (map EntryRecord es) (pl_durable s)) s"

fun run_op :: "(bytes \<Rightarrow> u32) \<Rightarrow> log_op \<Rightarrow> unit log_action" where
  "run_op crc (AppendEntries es) = append_entries crc es"
| "run_op crc (AcceptEpoch e) = record_fence crc e"
| "run_op crc (Checkpoint l) = checkpoint crc l"
| "run_op crc (CutAbove l) = truncate_above crc l"

text \<open>
  What the callers see to: entries within the limits, in rising order behind what is durable and
  under an accepted epoch; checkpoints that do not go back; no cut below a checkpoint.
\<close>

definition batch_allowed :: "partition_log \<Rightarrow> wal_entry list \<Rightarrow> bool" where
  "batch_allowed s es \<longleftrightarrow> list_all record_fits (map EntryRecord es) \<and> rises (pl_durable s) (map EntryRecord es)
     \<and> list_all (\<lambda>e. we_epoch e \<le> pl_epoch s) es \<and> pl_next_seq s \<noteq> -1"

fun op_allowed :: "partition_log \<Rightarrow> log_op \<Rightarrow> bool" where
  "op_allowed s (AppendEntries es) = batch_allowed s es"
| "op_allowed s (AcceptEpoch e) = True"
| "op_allowed s (Checkpoint l) = (l \<le> pl_durable s \<and> pl_applied_through s \<le> l)"
| "op_allowed s (CutAbove l) = (pl_applied_through s \<le> l)"

fun runs_to :: "(bytes \<Rightarrow> u32) \<Rightarrow> partition_log \<Rightarrow> log_op list \<Rightarrow> partition_log \<Rightarrow> bool" where
  "runs_to crc s [] t \<longleftrightarrow> t = s"
| "runs_to crc s (x # xs) t \<longleftrightarrow> op_allowed s x \<and> runs_to crc (fst (run_op crc x s)) xs t"

definition unapplied :: "lamport \<Rightarrow> wal_entry list \<Rightarrow> wal_entry list" where
  "unapplied l es = filter (\<lambda>e. l < we_lamport e) es"

fun is_checkpoint :: "log_op \<Rightarrow> bool" where
  "is_checkpoint (Checkpoint _) = True"
| "is_checkpoint _ = False"

section \<open>Refinement\<close>

definition refines :: "(bytes \<Rightarrow> u32) \<Rightarrow> bool \<Rightarrow> partition_log \<Rightarrow> abstract_log \<Rightarrow> log_record list list \<Rightarrow> bool" where
  "refines crc fenced s a rss \<longleftrightarrow> log_rep crc s rss
     \<and> unapplied (al_applied a) (entries_of (concat rss)) = unapplied (al_applied a) (al_entries a)
     \<and> al_applied a = pl_applied_through s \<and> al_epoch a = pl_epoch s \<and> applied_in (concat rss) 0 = pl_applied_through s
     \<and> pl_applied_through s \<le> pl_durable s \<and> pl_hydrated_through s = 0
     \<and> (fenced \<longrightarrow> epoch_in (concat rss) 0 = pl_epoch s)"

lemma epoch_in_absorb: "\<forall>x\<in>set es. we_epoch x \<le> e \<Longrightarrow> epoch_in (map EntryRecord es) e = e"
  by (induction es) (auto simp: max_absorb1)

lemma applied_in_entries [simp]: "applied_in (map EntryRecord es) a = a"
  by (induction es) auto

lemma append_refines:
  assumes ref: "refines crc fenced s a rss" and ok: "batch_allowed s es"
  shows "\<exists>t rss'. append_entries crc es s = (t, Inr ()) \<and> refines crc fenced t (spec_op (AppendEntries es) a) rss'
    \<and> pl_partition t = pl_partition s"
proof -
  have rep: "log_rep crc s rss" using ref by (simp add: refines_def)
  have ok': "list_all record_fits (map EntryRecord es)" "rises (pl_durable s) (map EntryRecord es)"
    "\<forall>x\<in>set es. we_epoch x \<le> pl_epoch s" "pl_next_seq s \<noteq> -1"
    using ok by (simp_all add: batch_allowed_def list_all_iff)
  obtain t rss' where t: "append_entries crc es s = (t, Inr ())" "log_rep crc t rss'" "concat rss' = concat rss @ map EntryRecord es"
    "log_frame s t" "pl_durable t = last_lamport (map EntryRecord es) (pl_durable s)"
    using append_frames_ok[OF rep ok'(4,1-3)] by (auto simp: append_entries_def)
  have "pl_durable s \<le> last_lamport (map EntryRecord es) (pl_durable s)"
    using last_lamport_cases[of "map EntryRecord es" "pl_durable s"] rises_entries_le[OF ok'(2)] by (force intro: less_imp_le)
  then show ?thesis using t ref ok'(3)
    by (intro exI[of _ t] exI[of _ rss']) (auto simp: refines_def log_frame_def unapplied_def epoch_in_absorb)
qed

lemma op_refines:
  assumes ref: "refines crc fenced s a rss" and ok: "op_allowed s x"
  shows "\<exists>t rss'. run_op crc x s = (t, Inr ()) \<and> refines crc (fenced \<and> \<not> is_checkpoint x) t (spec_op x a) rss'
    \<and> pl_partition t = pl_partition s"
proof (cases x)
  case (AppendEntries es)
  then show ?thesis using append_refines[OF ref] ok by simp
next
  case (AcceptEpoch e)
  have rep: "log_rep crc s rss" using ref by (simp add: refines_def)
  obtain t rss' where t: "record_fence crc e s = (t, Inr ())" "log_rep crc t rss'"
    "concat rss' = concat rss @ (if e \<le> pl_epoch s then [] else [FenceRecord e])"
    "pl_epoch t = max (pl_epoch s) e" "pl_durable t = pl_durable s" "pl_applied_through t = pl_applied_through s"
    "pl_hydrated_through t = pl_hydrated_through s" "pl_partition t = pl_partition s"
    using record_fence_ok[OF rep, of e] by blast
  have "e \<le> pl_epoch s \<Longrightarrow> max (pl_epoch s) e = pl_epoch s" by (simp add: max_absorb1)
  moreover have "applied_in (concat rss @ [FenceRecord e]) 0 = applied_in (concat rss) 0" by simp
  ultimately show ?thesis using t ref AcceptEpoch
    by (intro exI[of _ t] exI[of _ rss']) (auto simp: refines_def)
next
  case (Checkpoint l)
  have rep: "log_rep crc s rss" using ref by (simp add: refines_def)
  have l: "l \<le> pl_durable s" "pl_applied_through s \<le> l" using ok Checkpoint by simp_all
  obtain t rss' gone where t: "checkpoint crc l s = (t, Inr ())" "log_rep crc t rss'" "concat rss @ [CheckpointRecord l] = gone @ concat rss'"
    "\<forall>e\<in>set (entries_of gone). we_lamport e \<le> l" "applied_in (concat rss') 0 = l" "pl_applied_through t = l"
    "pl_durable t = pl_durable s" "pl_epoch t = pl_epoch s" "pl_hydrated_through t = pl_hydrated_through s" "pl_partition t = pl_partition s"
    using checkpoint_ok[OF rep l] by blast
  have more: "unapplied l es = unapplied l (unapplied (al_applied a) es)" for es
    using l(2) ref by (auto simp: unapplied_def refines_def intro!: filter_cong)
  have same: "unapplied (al_applied a) (entries_of (concat rss)) = unapplied (al_applied a) (al_entries a)"
    using ref unfolding refines_def by blast
  have "unapplied l (entries_of (concat rss)) = unapplied l (entries_of (concat rss'))"
    using arg_cong[OF t(3), of entries_of] t(4) by (auto simp: unapplied_def filter_empty_conv not_less)
  then have "unapplied l (entries_of (concat rss')) = unapplied l (al_entries a)"
    using more[of "entries_of (concat rss)"] more[of "al_entries a"] same by simp
  then show ?thesis using t ref Checkpoint l(1) by (intro exI[of _ t] exI[of _ rss']) (auto simp: refines_def)
next
  case (CutAbove l)
  have rep: "log_rep crc s rss" using ref by (simp add: refines_def)
  have l: "pl_applied_through s \<le> l" using ok CutAbove by simp
  obtain t rss' where t: "truncate_above crc l s = (t, Inr ())" "log_rep crc t rss'"
    "entries_of (concat rss') = filter (\<lambda>e. we_lamport e \<le> l) (entries_of (concat rss))"
    "epoch_in (concat rss) 0 = pl_epoch s \<longrightarrow> epoch_in (concat rss') 0 = pl_epoch s"
    "applied_in (concat rss) 0 = pl_applied_through s \<longrightarrow> applied_in (concat rss') 0 = pl_applied_through s"
    "log_frame s t" "min l (pl_durable s) \<le> pl_durable t"
    using truncate_above_ok[OF rep, of l] by blast
  have swap: "unapplied k (filter P es) = filter P (unapplied k es)" for k P es by (auto simp: unapplied_def intro: filter_cong)
  have "pl_applied_through s \<le> min l (pl_durable s)" using l ref by (simp add: refines_def)
  then have "pl_applied_through s \<le> pl_durable t" using t(7) by (rule order_trans)
  then show ?thesis using t ref CutAbove
    by (intro exI[of _ t] exI[of _ rss']) (auto simp: refines_def log_frame_def swap)
qed

lemma run_refines:
  assumes "refines crc fenced s a rss" and "runs_to crc s xs t"
  shows "\<exists>rss'. refines crc (fenced \<and> \<not> list_ex is_checkpoint xs) t (fold spec_op xs a) rss' \<and> pl_partition t = pl_partition s"
  using assms
proof (induction xs arbitrary: s a rss fenced)
  case (Cons x xs)
  have ok: "op_allowed s x" and go: "runs_to crc (fst (run_op crc x s)) xs t" using Cons.prems(2) by simp_all
  obtain u rss1 where "run_op crc x s = (u, Inr ())" "refines crc (fenced \<and> \<not> is_checkpoint x) u (spec_op x a) rss1"
    "pl_partition u = pl_partition s"
    using op_refines[OF Cons.prems(1) ok] by blast
  then show ?case using Cons.IH[of "fenced \<and> \<not> is_checkpoint x" u "spec_op x a" rss1] go by simp
qed (auto)


section \<open>Failures and crashes\<close>

text \<open>A write to the last file, whatever fails in it.\<close>

lemma write_faulty:
  assumes files: "dk_files d = fs @ [(q, f)]" and bt: "bt_ok (dk_files d)" and synced: "fl_synced f = length (fl_content f)"
    and w: "act_then (disk_append q bs) (disk_sync q) d = (d', r)"
  obtains k f' where "dk_files d' = fs @ [(q, f')]" "fl_content f' = fl_content f @ take k bs"
    "fl_synced f \<le> fl_synced f'" "r = Inr () \<Longrightarrow> take k bs = bs \<and> fl_synced f' = length (fl_content f')"
proof -
  have get: "bt_get (dk_files d) q = Some f" using bt_get_last bt files by metis
  have edit: "edit_file q g (called d) = (called d)\<lparr>dk_files := fs @ [(q, g f)]\<rparr>" for g
    using edit_last[of "called d" fs q f g] files bt by (simp add: called_def)
  have bt': "bt_ok (fs @ [(q, f')])" for f' :: log_file using bt files by (simp add: bt_ok_def)
  show thesis
  proof (cases "next_fault d")
    case Works
    let ?f = "f\<lparr>fl_content := fl_content f @ bs\<rparr>"
    let ?d = "(called d)\<lparr>dk_files := fs @ [(q, ?f)]\<rparr>"
    have a: "disk_append q bs d = (?d, Inr ())" using Works edit by (simp add: disk_append_def)
    have e: "edit_file q g (called ?d) = (called ?d)\<lparr>dk_files := fs @ [(q, g ?f)]\<rparr>" for g
      using edit_last[of "called ?d" fs q ?f g] bt' by (simp add: called_def)
    show thesis
    proof (cases "next_fault ?d = Works")
      case True
      then have "d' = (called ?d)\<lparr>dk_files := fs @ [(q, ?f\<lparr>fl_synced := length (fl_content ?f)\<rparr>)]\<rparr>"
        using w a e by (simp add: act_then_def act_bind_def disk_sync_def)
      then show thesis using that[of "?f\<lparr>fl_synced := length (fl_content ?f)\<rparr>" "length bs"] synced by simp
    next
      case False
      then have "d' = called ?d" "r \<noteq> Inr ()" using w a by (auto simp: act_then_def act_bind_def disk_sync_def)
      then show thesis using that[of ?f "length bs"] by (simp add: called_def)
    qed
  next
    case Fails
    then have "d' = called d" "r \<noteq> Inr ()" using w by (auto simp: act_then_def act_bind_def disk_append_def)
    then show thesis using that[of f 0] files by (simp add: called_def)
  next
    case (Tears n)
    then have "d' = (called d)\<lparr>dk_files := fs @ [(q, f\<lparr>fl_content := fl_content f @ take n bs\<rparr>)]\<rparr>" "r \<noteq> Inr ()"
      using w edit by (auto simp: act_then_def act_bind_def disk_append_def)
    then show thesis using that[of "f\<lparr>fl_content := fl_content f @ take n bs\<rparr>" n] by simp
  qed
qed

lemma create_faulty:
  assumes bt: "bt_ok (dk_files d)" and new: "\<forall>k\<in>set (map fst (dk_files d)). k < q"
    and c: "create_segment p q d = (d', r)"
  shows "dk_files d' = dk_files d \<and> (\<exists>e. r = Inl e)
    \<or> (\<exists>k f. dk_files d' = dk_files d @ [(q, f)] \<and> fl_content f = take k (segment_header p)
        \<and> ((\<exists>e. r = Inl e) \<or> r = Inr 16 \<and> fl_content f = segment_header p \<and> fl_synced f = 16))"
proof -
  have fresh: "\<not> bt_contains (dk_files d) q" using new by (auto simp: bt_contains_iff)
  let ?f = "\<lparr>fl_content = [], fl_synced = 0\<rparr>"
  let ?d = "(called d)\<lparr>dk_files := dk_files d @ [(q, ?f)]\<rparr>"
  show ?thesis
  proof (cases "next_fault d = Works")
    case False
    then show ?thesis using c by (auto simp: create_segment_def act_then_def act_bind_def disk_create_def called_def)
  next
    case True
    have "disk_create q d = (?d, Inr ())"
      using True fresh bt_insert_new_last[OF bt new] by (simp add: disk_create_def)
    moreover obtain d1 r1 where w: "act_then (disk_append q (segment_header p)) (disk_sync q) ?d = (d1, r1)" by fastforce
    ultimately have d': "d' = d1" "r = (case r1 of Inl e \<Rightarrow> Inl e | Inr _ \<Rightarrow> Inr 16)"
      using c by (auto simp: create_segment_def act_then_def act_bind_def act_ret_def length_segment_header segment_header_bytes_def
          split: prod.splits sum.splits)
    have "bt_ok (dk_files ?d)" using bt new by (auto simp: bt_ok_def sorted_wrt_append)
    moreover have "dk_files ?d = dk_files d @ [(q, ?f)]" "fl_synced ?f = length (fl_content ?f)" by simp_all
    ultimately obtain k f where "dk_files d1 = dk_files d @ [(q, f)]" "fl_content f = fl_content ?f @ take k (segment_header p)"
      "r1 = Inr () \<Longrightarrow> take k (segment_header p) = segment_header p \<and> fl_synced f = length (fl_content f)"
      using write_faulty[OF _ _ _ w] by blast
    then show ?thesis using d'
      by (intro disjI2 exI[of _ k] exI[of _ f]) (cases r1; auto simp: length_segment_header segment_header_bytes_def)
  qed
qed

text \<open>The files after an append that may have failed anywhere.\<close>

definition half_written :: "(bytes \<Rightarrow> u32) \<Rightarrow> partition_id \<Rightarrow> disk \<Rightarrow> log_record list \<Rightarrow> log_record list \<Rightarrow> bool" where
  "half_written crc p d old new \<longleftrightarrow> bt_ok (dk_files d) \<and>
     (\<exists>fs q f rss. dk_files d = fs @ [(q, f)] \<and> holds_records crc p fs rss \<and>
       ((\<exists>rs extra w v. fl_content f = segment_bytes crc p rs @ w \<and> frames_of crc extra = w @ v
           \<and> length (segment_bytes crc p rs) \<le> fl_synced f \<and> concat rss @ rs = old \<and> extra = new)
        \<or> (\<exists>k. fl_content f = take k (segment_header p) \<and> concat rss = old \<and> rss \<noteq> [])))"

lemma write_half:
  assumes ok: "bt_ok (dk_files d)" "holds_records crc p (dk_files d) (rss @ [rs])" and q: "q = fst (last (dk_files d))"
    and w: "act_then (disk_append q (frames_of crc new)) (disk_sync q) d = (d', r)"
  shows "half_written crc p d' (concat rss @ rs) new \<and> map fst (dk_files d') = map fst (dk_files d)
    \<and> (r = Inr () \<longrightarrow> half_written crc p d' (concat rss @ rs @ new) [])"
proof -
  obtain fs x where fs: "dk_files d = fs @ [x]" using holds_records_length[OF ok(2)] by (cases "dk_files d" rule: rev_cases) auto
  obtain f where x: "x = (q, f)" using q fs by (cases x) auto
  have h: "holds_records crc p fs rss" "fl_content f = segment_bytes crc p rs" "fl_synced f = length (fl_content f)"
    using ok(2) fs x by (auto simp: holds_records_append)
  obtain k f' where f': "dk_files d' = fs @ [(q, f')]" "fl_content f' = fl_content f @ take k (frames_of crc new)"
    "fl_synced f \<le> fl_synced f'" "r = Inr () \<Longrightarrow> take k (frames_of crc new) = frames_of crc new \<and> fl_synced f' = length (fl_content f')"
    using write_faulty[OF fs[unfolded x] ok(1) h(3) w] by blast
  have bt: "bt_ok (dk_files d')" using ok(1) f'(1) fs x by (simp add: bt_ok_def)
  have "half_written crc p d' (concat rss @ rs) new"
    unfolding half_written_def
    using bt f' h
    by (intro conjI exI[of _ fs] exI[of _ q] exI[of _ f'] exI[of _ rss] disjI1 exI[of _ rs] exI[of _ new]
        exI[of _ "take k (frames_of crc new)"] exI[of _ "drop k (frames_of crc new)"]) auto
  moreover have "half_written crc p d' (concat rss @ rs @ new) []" if "r = Inr ()"
    unfolding half_written_def
    using bt f' h f'(4)[OF that]
    by (intro conjI exI[of _ fs] exI[of _ q] exI[of _ f'] exI[of _ rss] disjI1 exI[of _ "rs @ new"] exI[of _ "[]"])
      (auto simp: segment_bytes_def)
  ultimately show ?thesis using f'(1) fs x by simp
qed


definition with_faults :: "fault list \<Rightarrow> partition_log \<Rightarrow> partition_log" where
  "with_faults fs s = s\<lparr>pl_disk := (pl_disk s)\<lparr>dk_faults := fs\<rparr>\<rparr>"

lemma append_half:
  assumes rep: "log_rep crc s rss" and p: "p = pl_partition s" and a: "append_entries crc es (with_faults fs s) = (t, r)"
  shows "half_written crc p (pl_disk t) (concat rss) (map EntryRecord es)
    \<and> (r = Inr () \<longrightarrow> half_written crc p (pl_disk t) (concat rss @ map EntryRecord es) [])"
proof -
  note rp = log_repD[OF rep]
  let ?s = "with_faults fs s"
  have s: "pl_current ?s = pl_current s" "pl_partition ?s = p" "pl_next_seq ?s = pl_next_seq s" "dk_files (pl_disk ?s) = dk_files (pl_disk s)"
    by (simp_all add: with_faults_def p)
  have bt: "bt_ok (dk_files (pl_disk ?s))" and holds: "holds_records crc p (dk_files (pl_disk ?s)) rss"
    and seqs: "map fst (dk_files (pl_disk ?s)) = map fst (pl_segments s)"
    using rp(1) by (simp_all add: dir_ok_def s p)
  obtain rss' rs where rss: "rss = rss' @ [rs]" using rp(2) by (meson rev_exhaust)
  have ne: "dk_files (pl_disk ?s) \<noteq> []" using seqs rp(11) by auto
  have cur: "pl_current ?s = fst (last (dk_files (pl_disk ?s)))"
    using s(1) rp(3,11) seqs ne last_map[of "pl_segments s" fst] last_map[of "dk_files (pl_disk ?s)" fst] by metis
  let ?new = "map EntryRecord es"
  have frames: "concat (map (frame_encode crc \<circ> EntryRecord) es) = frames_of crc ?new" by (simp add: frames_of_def)
  show ?thesis
  proof (cases "es = []")
    case True
    obtain fl x where x: "dk_files (pl_disk ?s) = fl @ [x]" using ne by (meson rev_exhaust)
    obtain q f where q: "x = (q, f)" by (cases x)
    have "holds_records crc p fl rss'" "fl_content f = segment_bytes crc p rs" "fl_synced f = length (fl_content f)"
      using holds x q rss by (auto simp: holds_records_append)
    then have "half_written crc p (pl_disk ?s) (concat rss) []"
      unfolding half_written_def using bt x q rss
      by (intro conjI exI[of _ fl] exI[of _ q] exI[of _ f] exI[of _ rss'] disjI1 exI[of _ rs] exI[of _ "[]"]) auto
    moreover have "t = ?s" using a True by (simp add: append_entries_def append_frames_def act_ret_def)
    ultimately show ?thesis using True by simp
  next
    case False
    have tail: "half_written crc p (pl_disk t) (concat rss1 @ rs1) ?new
        \<and> (r = Inr () \<longrightarrow> half_written crc p (pl_disk t) (concat rss1 @ rs1 @ ?new) [])"
      if u: "bt_ok (dk_files (pl_disk u))" "holds_records crc p (dk_files (pl_disk u)) (rss1 @ [rs1])"
        "pl_current u = fst (last (dk_files (pl_disk u)))"
        "act_bind (act_get pl_current) (\<lambda>current.
           act_then (on_disk (disk_append current (frames_of crc ?new)))
           (act_then (on_disk (disk_sync current)) (act_modify g))) u = (t, r)" "\<And>z. pl_disk (g z) = pl_disk z"
      for u g rss1 rs1
    proof -
      obtain d' r' where w: "act_then (disk_append (pl_current u) (frames_of crc ?new)) (disk_sync (pl_current u)) (pl_disk u) = (d', r')"
        by fastforce
      then have "pl_disk t = d'" "r' = r"
        using u(4,5) by (auto simp: act_bind_def act_get_def act_then_def on_disk_def act_modify_def split: prod.splits sum.splits)
      then show ?thesis using write_half[OF u(1,2) u(3) w] by simp
    qed
    define g where "g = (\<lambda>s::partition_log. s\<lparr>pl_current_size := pl_current_size s + length (frames_of crc ?new),
           pl_durable := max (pl_durable s) (last_lamport ?new (pl_durable ?s)),
           pl_segments := update_last (\<lambda>(q, m). (q, max m (last_lamport ?new (pl_durable ?s)))) (pl_segments s)\<rparr>)"
    have g: "pl_disk (g z) = pl_disk z" for z by (simp add: g_def)
    let ?put = "act_bind (act_get pl_current) (\<lambda>current. act_then (on_disk (disk_append current (frames_of crc ?new)))
        (act_then (on_disk (disk_sync current)) (act_modify g)))"
    have run: "act_then (act_bind (act_get (\<lambda>s. pl_target s \<le> pl_current_size s)) (\<lambda>full. if full then roll else act_ret ())) ?put ?s = (t, r)"
      using a False by (simp add: append_entries_def append_frames_def frames g_def)
    show ?thesis
    proof (cases "pl_target ?s \<le> pl_current_size ?s")
      case full: False
      then have "?put ?s = (t, r)" using run by (simp add: act_then_def act_bind_def[of "act_bind _ _"] act_bind_def[of "act_get _"] act_get_def act_ret_def)
      from tail[OF bt _ cur this g, of rss' rs] show ?thesis using holds rss by simp
    next
      case full: True
      obtain d1 r1 where c: "create_segment p (pl_next_seq s) (pl_disk ?s) = (d1, r1)" by fastforce
      have new: "\<forall>k\<in>set (map fst (dk_files (pl_disk ?s))). k < pl_next_seq s" using rp(4) seqs by simp
      from create_faulty[OF bt new c]
      show ?thesis
      proof (elim disjE conjE exE)
        fix e assume "dk_files d1 = dk_files (pl_disk ?s)" "r1 = Inl e"
        moreover from this c run full have "t = ?s\<lparr>pl_disk := d1\<rparr>" "r = Inl e"
          by (auto simp: act_then_def act_bind_def act_get_def roll_def on_disk_def s)
        moreover obtain fl x where x: "dk_files (pl_disk ?s) = fl @ [x]" using ne by (meson rev_exhaust)
        moreover obtain q f where q: "x = (q, f)" by (cases x)
        moreover have "holds_records crc p fl rss'" "fl_content f = segment_bytes crc p rs" "fl_synced f = length (fl_content f)"
          using holds x q rss by (auto simp: holds_records_append)
        ultimately show ?thesis
          unfolding half_written_def using bt rss
          by (intro conjI impI exI[of _ fl] exI[of _ q] exI[of _ f] exI[of _ rss'] disjI1 exI[of _ rs] exI[of _ ?new] exI[of _ "[]"]
              exI[of _ "frames_of crc ?new"]) auto
      next
        fix k f e assume d1: "dk_files d1 = dk_files (pl_disk ?s) @ [(pl_next_seq s, f)]" "fl_content f = take k (segment_header p)" "r1 = Inl e"
        moreover from this c run full have "t = ?s\<lparr>pl_disk := d1\<rparr>" "r = Inl e"
          by (auto simp: act_then_def act_bind_def act_get_def roll_def on_disk_def s)
        moreover have "bt_ok (dk_files d1)" using bt new d1(1) by (auto simp: bt_ok_def sorted_wrt_append)
        ultimately show ?thesis unfolding half_written_def using holds rp(2) by auto
      next
        fix k f assume d1: "dk_files d1 = dk_files (pl_disk ?s) @ [(pl_next_seq s, f)]" "r1 = Inr 16"
          "fl_content f = segment_header p" "fl_synced f = 16"
        let ?u = "?s\<lparr>pl_disk := d1, pl_next_seq := pl_next_seq s + 1, pl_current := pl_next_seq s, pl_current_size := 16,
            pl_segments := pl_segments ?s @ [(pl_next_seq s, pl_durable ?s)]\<rparr>"
        have "roll ?s = (?u, Inr ())"
          by (simp add: roll_def act_bind_def act_get_def on_disk_def act_modify_def s c d1(2))
        then have "act_bind (act_get (\<lambda>s. pl_target s \<le> pl_current_size s)) (\<lambda>full. if full then roll else act_ret ()) ?s = (?u, Inr ())"
          using full by (simp add: act_bind_def act_get_def)
        then have "?put ?u = (t, r)" using run by (simp add: act_then_def act_bind_def[of "act_bind _ _"])
        moreover have "bt_ok (dk_files (pl_disk ?u))" using bt new d1(1) by (auto simp: bt_ok_def sorted_wrt_append)
        moreover have "holds_records crc p (dk_files (pl_disk ?u)) (rss @ [[]])"
          using holds d1 by (simp add: holds_records_append segment_bytes_def length_segment_header segment_header_bytes_def)
        moreover have "pl_current ?u = fst (last (dk_files (pl_disk ?u)))" using d1(1) by simp
        ultimately show ?thesis using tail[of ?u rss "[]" g] g by simp
      qed
    qed
  qed
qed


section \<open>Recovery\<close>

definition recovers :: "(bytes \<Rightarrow> u32) \<Rightarrow> partition_id \<Rightarrow> disk \<Rightarrow> log_record list \<Rightarrow> bool" where
  "recovers crc p d rs \<longleftrightarrow> (\<exists>sc d'. scan_directory crc p d = (d', Inr sc)
     \<and> ds_all_entries sc = entries_of rs \<and> ds_durable sc = last_lamport rs 0 \<and> ds_epoch sc = epoch_in rs 0
     \<and> ds_applied_through sc = applied_in rs 0 \<and> ds_segments sc \<noteq> []
     \<and> map fst (ds_segments sc) = map fst (dk_files d') \<and> dk_faults d' = [])"

lemma scan_torn_header:
  assumes quiet: "dk_faults d = []" and ok: "bt_ok (dk_files d)" and files: "dk_files d = fs @ [(q, f)]"
    and holds: "holds_records crc p fs rss" and ne: "rss \<noteq> []"
    and content: "fl_content f = take k (segment_header p)" and k: "k < 16"
    and fits: "list_all record_fits (concat rss)" and up: "rises 0 (concat rss)"
  shows "recovers crc p d (concat rss)"
proof -
  let ?seqs = "map fst (dk_files d)"
  let ?sc0 = "scan_start ?seqs"
  let ?sc1 = "segment_ends (map fst fs) rss ?sc0"
  have len: "length (map fst fs) = length rss" using holds_records_length[OF holds] by simp
  have d0: "ds_durable ?sc0 = 0" "ds_all_entries ?sc0 = []" "ds_epoch ?sc0 = 0" "ds_applied_through ?sc0 = 0"
    "ds_segments ?sc0 = []" "ds_truncated ?sc0 = None" by (simp_all add: scan_start_def)
  note sc1 = segment_ends_fields[OF len, of ?sc0, unfolded d0]
  have q: "q \<notin> set (map fst fs)" using bt_ok_distinct[OF ok] files by simp
  have seqs: "?seqs = map fst fs @ [q]" using files by simp
  have run: "scan_segments crc p ?seqs ?sc0 d = scan_segments crc p [q] ?sc1 d"
    using scan_segments_run[OF quiet ok holds _ fits, of ?sc0 "[q]"] files up d0(1) seqs by auto
  have short: "length (fl_content f) < 16" using content k by simp
  then have "parse_segment_header (fl_content f) = Inl Incomplete"
    by (simp add: parse_segment_header_def segment_header_bytes_def)
  then have scan: "scan_segment crc (fl_content f) p l = \<lparr>ss_records = [], ss_valid_end = 0, ss_stopped = Some TornTail\<rparr>" for l
    by (simp add: scan_segment_def)
  have read: "disk_read q d = (d, Inr (fl_content f))"
    using disk_read_quiet[OF quiet] files ok bt_get_last[of fs q f] by (simp del: map_of_append)
  have list: "disk_list d = (d, Inr ?seqs)" by (simp add: disk_list_def quiet_disk quiet)
  let ?cut = "if 0 < length (fl_content f) then act_then (disk_truncate q 0) (disk_sync q) else act_ret ()"
  obtain f1 where cut: "?cut d = (d\<lparr>dk_files := fs @ [(q, f1)]\<rparr>, Inr ())"
  proof (cases "0 < length (fl_content f)")
    case True
    then show thesis using that[of "\<lparr>fl_content = [], fl_synced = 0\<rparr>"] truncate_last[OF quiet files ok, of 0 "[]"] by simp
  next
    case False
    have "d = d\<lparr>dk_files := fs @ [(q, f)]\<rparr>" using files by (cases d) simp
    then show thesis using that[of f] False by (simp add: act_ret_def)
  qed
  let ?d = "d\<lparr>dk_files := fs\<rparr>"
  have rest: "bt_remove q (fs @ [(q, f1)]) = fs" using q by (auto simp: bt_remove_def filter_id_conv)
  have remove: "disk_remove q (d\<lparr>dk_files := fs @ [(q, f1)]\<rparr>) = (?d, Inr ())"
    using quiet rest by (simp add: disk_remove_def quiet_disk called_def next_fault_def bt_contains_iff)
  let ?t = "\<lparr>tr_segment = q, tr_offset = 0, tr_reason = TornTail\<rparr>"
  let ?sc2 = "?sc1\<lparr>ds_segments := ds_segments ?sc1 @ [(q, ds_durable ?sc1)], ds_truncated := Some ?t\<rparr>"
  let ?sc3 = "?sc2\<lparr>ds_segments := filter (\<lambda>s. fst s \<noteq> q) (ds_segments ?sc2)\<rparr>"
  have "scan_directory crc p d = (?d, Inr ?sc3)"
    using cut remove
    by (simp add: scan_directory_def act_bind_def list run read scan act_ret_def Let_def act_then_def split: if_splits)
  moreover have "\<forall>x\<in>set (ds_segments ?sc1). fst x \<noteq> q"
    using arg_cong[of _ _ set, OF conjunct2[OF conjunct2[OF conjunct2[OF conjunct2[OF conjunct2[OF sc1]]]]]] q by auto
  then have segs: "ds_segments ?sc3 = ds_segments ?sc1" by (simp add: filter_id_conv)
  moreover have "ds_segments ?sc1 \<noteq> []" using sc1 len ne by auto
  ultimately show ?thesis unfolding recovers_def using sc1 quiet
    by (intro exI[of _ ?sc3] exI[of _ ?d]) simp
qed

lemma crash_of_synced:
  assumes "holds_records crc p (dk_files d) rss" and "dk_faults d = []"
  shows "crashes_to d d"
proof -
  have "fl_synced f = length (fl_content f)" if "(q, f) \<in> set (dk_files d)" for q f
    using assms(1) that by (fastforce simp: holds_records_def list_all2_conv_all_nth in_set_conv_nth)
  moreover have "\<exists>k\<ge>length (fl_content f). fl_content f = take k (fl_content f)" for f
    by (rule exI[of _ "length (fl_content f)"]) simp
  ultimately show ?thesis using assms(2) by (auto simp: crashes_to_def list_all2_same)
qed

lemma recovers_after_crash:
  assumes half: "half_written crc p d old new" and crash: "crashes_to d d'"
    and fits: "list_all record_fits (old @ new)" and up: "rises 0 (old @ new)"
  shows "\<exists>xs ys. new = xs @ ys \<and> recovers crc p d' (old @ xs)"
proof -
  have quiet: "dk_faults d' = []" using crash by (simp add: crashes_to_def)
  obtain fs q f rss where d: "bt_ok (dk_files d)" "dk_files d = fs @ [(q, f)]" "holds_records crc p fs rss"
    and or: "(\<exists>rs extra w v. fl_content f = segment_bytes crc p rs @ w \<and> frames_of crc extra = w @ v
           \<and> length (segment_bytes crc p rs) \<le> fl_synced f \<and> concat rss @ rs = old \<and> extra = new)
        \<or> (\<exists>k. fl_content f = take k (segment_header p) \<and> concat rss = old \<and> rss \<noteq> [])"
    using half unfolding half_written_def by blast
  from or show ?thesis
  proof (elim disjE exE conjE)
    fix rs extra w v
    assume a: "fl_content f = segment_bytes crc p rs @ w" "frames_of crc extra = w @ v"
      "length (segment_bytes crc p rs) \<le> fl_synced f" "concat rss @ rs = old" "extra = new"
    have "list_all record_fits (concat rss @ rs @ extra)" "rises 0 (concat rss @ rs @ extra)"
      using fits up a(4,5) by (metis append_assoc)+
    then obtain xs ys sc d'' where "new = xs @ ys" "scan_directory crc p d' = (d'', Inr sc)"
      "ds_all_entries sc = entries_of (concat rss @ rs @ xs)" "ds_durable sc = last_lamport (concat rss @ rs @ xs) 0"
      "ds_epoch sc = epoch_in (concat rss @ rs @ xs) 0" "ds_applied_through sc = applied_in (concat rss @ rs @ xs) 0"
      "map fst (ds_segments sc) = map fst (dk_files d)" "map fst (dk_files d'') = map fst (dk_files d)" "dk_faults d'' = []"
      using scan_after_crash[OF crash d(2,1,3) a(1,3,2)] a(5) by blast
    moreover have "concat rss @ rs @ xs = old @ xs" using a(4) by simp
    ultimately show ?thesis using d(2) unfolding recovers_def by (intro exI[of _ xs] exI[of _ ys]) auto
  next
    fix k assume a: "fl_content f = take k (segment_header p)" "concat rss = old" "rss \<noteq> []"
    let ?R = "\<lambda>(s, f) (s', f'). s' = s \<and> (\<exists>k \<ge> fl_synced f. fl_content f' = take k (fl_content f)
       \<and> fl_synced f' = length (fl_content f'))"
    from crash d(2) obtain fs' y where fs': "dk_files d' = fs' @ [y]" "list_all2 ?R fs fs'" "?R (q, f) y"
      by (auto simp: crashes_to_def list_all2_append1 list_all2_Cons1)
    obtain f' j where y: "y = (q, f')" "fl_content f' = take j (segment_header p)" "fl_synced f' = length (fl_content f')"
      using fs'(3) a(1) by (auto simp: min_def)
    have keys: "map fst fs' = map fst fs" using fs'(2) by (induction rule: list_all2_induct) auto
    have holds: "holds_records crc p fs' rss"
      using fs'(2) d(3) unfolding holds_records_def
    proof (induction arbitrary: rss rule: list_all2_induct)
      case (Cons x xs z zs)
      then show ?case by (cases rss; cases x; cases z) auto
    qed simp
    have ok: "bt_ok (dk_files d')" using d(1,2) fs'(1) keys y(1) by (simp add: bt_ok_def)
    have old: "list_all record_fits (concat rss)" "rises 0 (concat rss)" using fits up a(2) by (simp_all add: rises_append)
    show ?thesis
    proof (cases "j < 16")
      case True
      then show ?thesis
        using scan_torn_header[OF quiet ok _ holds a(3) y(2) True old] fs'(1) y(1) a(2) by (intro exI[of _ "[]"] exI[of _ new]) simp
    next
      case False
      then have c: "fl_content f' = segment_bytes crc p [] @ []"
        using y(2) by (simp add: segment_bytes_def length_segment_header segment_header_bytes_def)
      have "holds_records crc p (dk_files d') (rss @ [[]])"
        using holds fs'(1) y c by (simp add: holds_records_append)
      then have self: "crashes_to d' d'" using crash_of_synced quiet by blast
      obtain sc d'' where "scan_directory crc p d' = (d'', Inr sc)"
        "ds_all_entries sc = entries_of (concat rss)" "ds_durable sc = last_lamport (concat rss) 0"
        "ds_epoch sc = epoch_in (concat rss) 0" "ds_applied_through sc = applied_in (concat rss) 0"
        "map fst (ds_segments sc) = map fst (dk_files d')" "map fst (dk_files d'') = map fst (dk_files d')" "dk_faults d'' = []"
        using scan_after_crash[OF self fs'(1)[unfolded y(1)] ok holds c, of "[]" "[]"] old y(3) c by auto
      then show ?thesis using a(2) fs'(1) unfolding recovers_def by (intro exI[of _ "[]"] exI[of _ new]) auto
    qed
  qed
qed

lemma recovered_open:
  assumes "recovers crc p d rs"
  shows "\<exists>d' t rv. log_open crc p target d = (d', Inr (t, rv)) \<and> rv_entries rv = unapplied (applied_in rs 0) (entries_of rs)
    \<and> rv_durable_lamport rv = last_lamport rs 0 \<and> rv_applied_through rv = applied_in rs 0 \<and> rv_epoch rv = epoch_in rs 0
    \<and> pl_durable t = last_lamport rs 0 \<and> pl_epoch t = epoch_in rs 0 \<and> pl_applied_through t = applied_in rs 0"
proof -
  obtain sc d' where sc: "scan_directory crc p d = (d', Inr sc)"
     "ds_all_entries sc = entries_of rs" "ds_durable sc = last_lamport rs 0" "ds_epoch sc = epoch_in rs 0"
     "ds_applied_through sc = applied_in rs 0" "ds_segments sc \<noteq> []"
     "map fst (ds_segments sc) = map fst (dk_files d')" "dk_faults d' = []"
    using assms by (auto simp: recovers_def)
  have "fst (last (ds_segments sc)) \<in> set (map fst (dk_files d'))"
    using sc(6) unfolding sc(7)[symmetric] by simp
  then obtain f where f: "bt_get (dk_files d') (fst (last (ds_segments sc))) = Some f"
    by (metis bt_get_None_iff not_None_eq list.set_map)
  obtain x xs where x: "ds_segments sc = x # xs" using sc(6) by (cases "ds_segments sc") auto
  show ?thesis
    using sc(1-5,8) f x
    by (simp add: log_open_def act_bind_def disk_read_quiet act_ret_def act_get_def recovery_of_def ds_entries_def unapplied_def)
qed

lemma open_fresh:
  "\<exists>d s rv. log_open crc p target \<lparr>dk_files = [], dk_faults = []\<rparr> = (d, Inr (s, rv))
     \<and> refines crc True s abstract_new [[]] \<and> pl_partition s = p \<and> pl_durable s = 0 \<and> pl_next_seq s = 2"
proof -
  let ?d = "\<lparr>dk_files = [], dk_faults = []\<rparr>"
  have "dir_ok crc p ?d [] []" by (simp add: dir_ok_def holds_records_def)
  then obtain d where d: "create_segment p 1 ?d = (d, Inr 16)" "dir_ok crc p d [1] [[]]"
    using dir_create[of crc p ?d "[]" "[]" 1] by auto
  have scan: "scan_directory crc p ?d = (?d, Inr (scan_start []))"
    by (simp add: scan_directory_def act_bind_def disk_list_def quiet_disk act_ret_def act_then_def scan_start_def)
  show ?thesis
    using d
    by (simp add: log_open_def act_bind_def scan scan_start_def act_ret_def act_get_def refines_def log_rep_def
        covers_entries_def unapplied_def abstract_new_def)
qed


section \<open>What survives\<close>

lemma unapplied_append [simp]: "unapplied l (xs @ ys) = unapplied l xs @ unapplied l ys"
  by (simp add: unapplied_def)

lemma run_recovers:
  assumes "snd (log_open crc p target \<lparr>dk_files = [], dk_faults = []\<rparr>) = Inr (s0, rv0)"
    and "runs_to crc s0 ops s" and batch: "batch_allowed s es"
    and app: "append_entries crc es (with_faults fs s) = (t, r)" and crash: "crashes_to (pl_disk t) d"
  shows "\<exists>xs ys rs. es = xs @ ys \<and> (r = Inr () \<longrightarrow> ys = []) \<and> recovers crc p d (rs @ map EntryRecord xs)
    \<and> (\<exists>rss. rs = concat rss \<and> refines crc (\<not> list_ex is_checkpoint ops) s (fold spec_op ops abstract_new) rss)"
proof -
  have "refines crc True s0 abstract_new [[]]" "pl_partition s0 = p"
    using open_fresh[of crc p target] assms(1) by auto
  then obtain rss where ref: "refines crc (\<not> list_ex is_checkpoint ops) s (fold spec_op ops abstract_new) rss"
    and p: "p = pl_partition s"
    using run_refines[OF _ assms(2), of True abstract_new "[[]]"] by auto
  have rep: "log_rep crc s rss" using ref by (simp add: refines_def)
  note r' = log_repD[OF rep]
  let ?new = "map EntryRecord es"
  have fits: "list_all record_fits (concat rss @ ?new)" and up: "rises 0 (concat rss @ ?new)"
    using r'(6,7,8) batch by (auto simp: batch_allowed_def rises_append intro: rises_weaken)
  show ?thesis
  proof (cases "r = Inr ()")
    case True
    then have "half_written crc p (pl_disk t) (concat rss @ ?new) []" using append_half[OF rep p app] by blast
    from recovers_after_crash[OF this crash] fits up have "recovers crc p d (concat rss @ ?new)" by simp
    then show ?thesis using ref by (intro exI[of _ es] exI[of _ "[]"] exI[of _ "concat rss"]) auto
  next
    case False
    have "half_written crc p (pl_disk t) (concat rss) ?new" using append_half[OF rep p app] by blast
    from recovers_after_crash[OF this crash fits up] obtain xs ys where
      "?new = xs @ ys" "recovers crc p d (concat rss @ xs)" by blast
    then obtain es1 es2 where "es = es1 @ es2" "recovers crc p d (concat rss @ map EntryRecord es1)"
      by (auto simp: map_eq_append_conv)
    then show ?thesis using ref False by (intro exI[of _ es1] exI[of _ es2] exI[of _ "concat rss"]) auto
  qed
qed

section \<open>Small logs\<close>

text \<open>A log of two-byte deletes with a constant checksum, to try the operations on.\<close>

definition no_crc :: "bytes \<Rightarrow> u32" where "no_crc _ = 0"
definition example_entry :: "lamport \<Rightarrow> epoch \<Rightarrow> wal_entry" where
  "example_entry l e = \<lparr>we_lamport = l, we_epoch = e, we_partition = 7, we_op = DeleteOp [1] None\<rparr>"
definition example_log :: "nat \<Rightarrow> partition_log" where
  "example_log target = fst (projr (snd (log_open no_crc 7 target \<lparr>dk_files = [], dk_faults = []\<rparr>)))"

lemmas disk_eval = disk_list_def disk_read_def disk_append_def disk_sync_def disk_create_def disk_remove_def disk_truncate_def
  edit_file_def called_def next_fault_def bt_contains_def bt_remove_def on_disk_def act_defs
lemmas log_eval = log_open_def scan_directory_def scan_start_def create_segment_def append_entries_def append_frames_def roll_def
  record_fence_def write_record_def checkpoint_def drop_applied_segments_def update_last_def recovery_of_def ds_retained_from_def ds_entries_def
  length_segment_header segment_header_bytes_def

lemma example_fits [simp]: "record_fits (EntryRecord (example_entry l e))" "record_fits (FenceRecord e)" "record_fits (CheckpointRecord l)"
  by (simp_all add: record_fits_def example_entry_def put_u8_def put_deadline_def max_frame_body_bytes_def max_key_bytes_def max_value_bytes_def)

lemma example_entry_fields [simp]: "we_lamport (example_entry l e) = l" "we_epoch (example_entry l e) = e"
  by (simp_all add: example_entry_def)

lemma scan_one:
  assumes "record_fits r"
  shows "scan_frames crc (frame_encode crc r @ tail) pos prev =
    (if (case record_lamport r of Some l \<Rightarrow> l \<le> prev | None \<Rightarrow> False)
     then \<lparr>ss_records = [], ss_valid_end = pos, ss_stopped = Some LamportOutOfOrder\<rparr>
     else let rest = scan_frames crc tail (pos + length (frame_encode crc r)) (case record_lamport r of Some l \<Rightarrow> l | None \<Rightarrow> prev)
          in rest\<lparr>ss_records := r # ss_records rest\<rparr>)"
  using assms by (subst scan_frames.simps) (simp add: frame_roundtrip)

lemmas scan_eval = scan_segment_frames[unfolded segment_header_bytes_def] scan_one scan_one[where tail = "[]", simplified]

definition log_holding :: "(u64 \<times> log_record list \<times> lamport) list \<Rightarrow> lamport \<Rightarrow> epoch \<Rightarrow> partition_log" where
  "log_holding segs durable e =
     \<lparr>pl_disk = \<lparr>dk_files = map (\<lambda>(q, rs, _). (q, \<lparr>fl_content = segment_bytes no_crc 7 rs, fl_synced = length (segment_bytes no_crc 7 rs)\<rparr>)) segs,
                dk_faults = []\<rparr>,
      pl_partition = 7, pl_target = 1, pl_segments = map (\<lambda>(q, _, m). (q, m)) segs, pl_current = fst (last segs),
      pl_current_size = length (segment_bytes no_crc 7 (fst (snd (last segs)))), pl_next_seq = fst (last segs) + 1,
      pl_durable = durable, pl_applied_through = 0, pl_epoch = e, pl_hydrated_through = 0, pl_retained_from = 1\<rparr>"

lemmas holding_eval = log_holding_def segment_bytes_def frames_of_def disk_eval log_eval next_counter_def

lemma fence_steps:
  "example_log 1 = log_holding [(1, [], 0)] 0 0"
  "record_fence no_crc 1 (log_holding [(1, [], 0)] 0 0) = (log_holding [(1, [FenceRecord 1], 0)] 0 1, Inr ())"
  "append_entries no_crc [example_entry 1 1] (log_holding [(1, [FenceRecord 1], 0)] 0 1)
     = (log_holding [(1, [FenceRecord 1], 0), (2, [EntryRecord (example_entry 1 1)], 1)] 1 1, Inr ())"
  "record_fence no_crc 2 (log_holding [(1, [FenceRecord 1], 0), (2, [EntryRecord (example_entry 1 1)], 1)] 1 1)
     = (log_holding [(1, [FenceRecord 1], 0), (2, [EntryRecord (example_entry 1 1), FenceRecord 2], 1)] 1 2, Inr ())"
  "append_entries no_crc [example_entry 2 1] (log_holding [(1, [FenceRecord 1], 0), (2, [EntryRecord (example_entry 1 1), FenceRecord 2], 1)] 1 2)
     = (log_holding [(1, [FenceRecord 1], 0), (2, [EntryRecord (example_entry 1 1), FenceRecord 2], 1), (3, [EntryRecord (example_entry 2 1)], 2)] 2 2, Inr ())"
  by (simp_all add: example_log_def holding_eval word_le_nat_alt)

section \<open>What a crash leaves\<close>

text \<open>
  C3. The log survives crashes. Run any operations the callers may ask for on a new log, then
  append a batch on a disk of which any call may fail, and stop the node at any moment: opening
  the log again succeeds and gives back every entry that is not covered by a checkpoint, in
  order, followed by a prefix of the batch, and the whole of it if the append had returned
  success. The checkpoint is the last one, and the epoch never exceeds the accepted one; it is
  the accepted one when no checkpoint was taken.
\<close>

theorem log_survives_crashes:
  assumes "snd (log_open crc p target \<lparr>dk_files = [], dk_faults = []\<rparr>) = Inr (s0, rv0)"
    and "runs_to crc s0 ops s" and "batch_allowed s es"
    and "append_entries crc es (with_faults fs s) = (t, r)" and "crashes_to (pl_disk t) d"
    and "a = fold spec_op ops abstract_new"
  shows "\<exists>xs ys d' u rv. es = xs @ ys \<and> (r = Inr () \<longrightarrow> ys = [])
    \<and> log_open crc p target d = (d', Inr (u, rv))
    \<and> rv_entries rv = unapplied (al_applied a) (al_entries a @ xs) \<and> rv_applied_through rv = al_applied a
    \<and> pl_epoch u = rv_epoch rv \<and> rv_epoch rv \<le> al_epoch a
    \<and> (\<not> list_ex is_checkpoint ops \<longrightarrow> rv_epoch rv = al_epoch a)"
proof -
  obtain xs ys rss where x: "es = xs @ ys" "r = Inr () \<longrightarrow> ys = []" "recovers crc p d (concat rss @ map EntryRecord xs)"
    and ref: "refines crc (\<not> list_ex is_checkpoint ops) s a rss"
    using run_recovers[OF assms(1-5)] assms(6) by blast
  have ep: "\<forall>e\<in>set xs. we_epoch e \<le> pl_epoch s" using assms(3) x(1) by (auto simp: batch_allowed_def list_all_iff)
  have rep: "log_rep crc s rss" using ref by (simp add: refines_def)
  obtain d' u rv where o: "log_open crc p target d = (d', Inr (u, rv))"
    "rv_entries rv = unapplied (applied_in (concat rss) 0) (entries_of (concat rss @ map EntryRecord xs))"
    "rv_applied_through rv = applied_in (concat rss) 0" "rv_epoch rv = epoch_in (map EntryRecord xs) (epoch_in (concat rss) 0)"
    "pl_epoch u = rv_epoch rv"
    using recovered_open[OF x(3), of target] by auto
  have "rv_epoch rv \<le> al_epoch a" using log_repD(9)[OF rep] ep ref by (simp add: o(4) epoch_in_entries refines_def)
  moreover have "\<not> list_ex is_checkpoint ops \<longrightarrow> rv_epoch rv = al_epoch a"
    using ref ep by (auto simp: o(4) refines_def epoch_in_absorb)
  ultimately show ?thesis using x(1,2) o ref
    by (intro exI[of _ xs] exI[of _ ys] exI[of _ d'] exI[of _ u] exI[of _ rv]) (auto simp: refines_def)
qed

theorem log_survives_crashes_witness:
  "\<exists>t d' u rv. append_entries no_crc [example_entry 1 0] (with_faults [] (example_log 1)) = (t, Inr ())
    \<and> log_open no_crc 7 1 (pl_disk t) = (d', Inr (u, rv)) \<and> rv_entries rv = [example_entry 1 0]"
proof -
  let ?t = "log_holding [(1, [], 0), (2, [EntryRecord (example_entry 1 0)], 1)] 1 0"
  have o: "\<exists>rv. snd (log_open no_crc 7 1 \<lparr>dk_files = [], dk_faults = []\<rparr>) = Inr (log_holding [(1, [], 0)] 0 0, rv)"
    by (simp add: holding_eval)
  have a: "append_entries no_crc [example_entry 1 0] (with_faults [] (log_holding [(1, [], 0)] 0 0)) = (?t, Inr ())"
    by (simp add: with_faults_def holding_eval)
  have c: "crashes_to (pl_disk ?t) (pl_disk ?t)"
    by (rule crash_of_synced[of no_crc 7 _ "[[], [EntryRecord (example_entry 1 0)]]"]) (simp_all add: log_holding_def holds_records_def)
  have b: "batch_allowed (log_holding [(1, [], 0)] 0 0) [example_entry 1 0]" by (simp add: batch_allowed_def log_holding_def)
  have r: "runs_to no_crc (log_holding [(1, [], 0)] 0 0) [] (log_holding [(1, [], 0)] 0 0)" by simp
  obtain rv0 where "snd (log_open no_crc 7 1 \<lparr>dk_files = [], dk_faults = []\<rparr>) = Inr (log_holding [(1, [], 0)] 0 0, rv0)" using o by blast
  from log_survives_crashes[OF this r b a c refl] obtain d' u rv where
    "log_open no_crc 7 1 (pl_disk ?t) = (d', Inr (u, rv))" "rv_entries rv = [example_entry 1 0]"
    by (auto simp: abstract_new_def unapplied_def)
  then show ?thesis using a fence_steps(1) by metis
qed

section \<open>Two ways to lose what was accepted\<close>

text \<open>What a log holds is what opening it again gives back.\<close>

lemma rep_recovers:
  assumes rep: "log_rep crc s rss"
  shows "recovers crc (pl_partition s) (pl_disk s) (concat rss)"
proof -
  note r = log_repD[OF rep]
  have quiet: "dk_faults (pl_disk s) = []" and holds: "holds_records crc (pl_partition s) (dk_files (pl_disk s)) rss"
    using r(1) by (simp_all add: dir_ok_def)
  have "append_entries crc [] (with_faults [] s) = (s, Inr ())"
    using quiet by (simp add: append_entries_def append_frames_def act_ret_def with_faults_def)
  then have half: "half_written crc (pl_partition s) (pl_disk s) (concat rss) []"
    using append_half[OF rep refl, of "[]" "[]" s "Inr ()"] by simp
  show ?thesis using recovers_after_crash[OF half crash_of_synced[OF holds quiet]] r(6,7) by simp
qed

text \<open>
  C23. A restart can forget a fence. A checkpoint that covers every segment but the newest drops them
  with their fence records, and no fence is written again: the node answers at the epoch it accepted until
  it restarts, and the log then opens at the highest epoch that the newest segment records. When that is an older one, as
  after a fence followed by entries of the earlier epoch sent to catch up, the epoch has gone back and the
  owner the fence had deposed is no longer refused.
\<close>

theorem checkpoint_forgets_a_fence:
  assumes "log_rep crc s rss" and "pl_applied_through s \<le> l" and "l \<le> pl_durable s"
    and "\<forall>sg\<in>set (butlast (pl_segments s)). snd sg \<le> l" and "epoch_in (last rss) 0 < pl_epoch s"
  shows "\<exists>t d u rv. checkpoint crc l s = (t, Inr ()) \<and> pl_epoch t = pl_epoch s
    \<and> log_open crc (pl_partition s) target (pl_disk t) = (d, Inr (u, rv))
    \<and> pl_epoch u = epoch_in (last rss) 0 \<and> pl_epoch u < pl_epoch t"
proof -
  note r = log_repD[OF assms(1)]
  let ?segs = "pl_segments s" and ?rss = "butlast rss @ [last rss @ [CheckpointRecord l]]"
  obtain t k where t: "checkpoint crc l s = (t, Inr ())" "log_rep crc t (drop k ?rss)" "pl_epoch t = pl_epoch s"
    "pl_partition t = pl_partition s"
    and k: "k = length (takeWhile (\<lambda>(q, m). q \<noteq> fst (last ?segs) \<and> m \<le> l) ?segs)"
    using checkpoint_segments[OF assms(1,3,2) refl] by blast
  have split: "?segs = butlast ?segs @ [last ?segs]" using r(11) by simp
  have "fst sg \<noteq> fst (last ?segs)" if "sg \<in> set (butlast ?segs)" for sg
    using that log_rep_distinct[OF assms(1)] split by (metis (no_types, lifting) distinct_append image_eqI list.set_map map_append
        disjoint_iff list.set_intros(1) list.simps(9))
  then have "takeWhile (\<lambda>(q, m). q \<noteq> fst (last ?segs) \<and> m \<le> l) ?segs = butlast ?segs"
    using assms(4) by (subst split, subst takeWhile_append2) (auto simp: case_prod_unfold)
  then have "k = length (butlast rss)" using k list_all2_lengthD[OF r(5)] by simp
  then have "log_rep crc t [last rss @ [CheckpointRecord l]]" using t(2) by simp
  from recovered_open[OF rep_recovers[OF this], of target]
  show ?thesis using t assms(5) by auto
qed

theorem checkpoint_forgets_a_fence_witness:
  "\<exists>s t d u rv. runs_to no_crc (example_log 1)
      [AcceptEpoch 1, AppendEntries [example_entry 1 1], AcceptEpoch 2, AppendEntries [example_entry 2 1]] s
    \<and> checkpoint no_crc 1 s = (t, Inr ()) \<and> pl_epoch t = 2
    \<and> log_open no_crc 7 1 (pl_disk t) = (d, Inr (u, rv)) \<and> pl_epoch u = 1"
proof -
  let ?rss = "[[FenceRecord 1], [EntryRecord (example_entry 1 1), FenceRecord 2], [EntryRecord (example_entry 2 1)]]"
  let ?s = "log_holding [(1, [FenceRecord 1], 0), (2, [EntryRecord (example_entry 1 1), FenceRecord 2], 1), (3, [EntryRecord (example_entry 2 1)], 2)] 2 2"
  have run: "runs_to no_crc (example_log 1)
      [AcceptEpoch 1, AppendEntries [example_entry 1 1], AcceptEpoch 2, AppendEntries [example_entry 2 1]] ?s"
    unfolding runs_to.simps run_op.simps op_allowed.simps fence_steps fst_conv
    by (simp add: batch_allowed_def log_holding_def)
  have rep: "log_rep no_crc ?s ?rss"
    by (simp add: log_rep_def log_holding_def dir_ok_def holds_records_def covers_entries_def)
  have hyps: "pl_applied_through ?s \<le> 1" "1 \<le> pl_durable ?s" "\<forall>sg\<in>set (butlast (pl_segments ?s)). snd sg \<le> 1"
    "epoch_in (last ?rss) 0 < pl_epoch ?s" "pl_partition ?s = 7" "pl_epoch ?s = 2" "epoch_in (last ?rss) 0 = 1"
    by (simp_all add: log_holding_def)
  show ?thesis using checkpoint_forgets_a_fence[OF rep hyps(1-4), of 1] run hyps(5-7) by metis
qed

text \<open>A last segment that is whole up to a frame the scan refuses recovers up to that frame.\<close>

lemma scan_refused_tail:
  assumes quiet: "dk_faults d = []" and ok: "bt_ok (dk_files d)" and files: "dk_files d = fs @ [(q, f)]"
    and holds: "holds_records crc p fs rss" and content: "fl_content f = segment_bytes crc p rs @ w" and w: "w \<noteq> []"
    and stop: "\<And>pos. scan_frames crc w pos (last_lamport (concat rss @ rs) 0) = \<lparr>ss_records = [], ss_valid_end = pos, ss_stopped = Some reason\<rparr>"
    and fits: "list_all record_fits (concat rss @ rs)" and up: "rises 0 (concat rss @ rs)"
  shows "recovers crc p d (concat rss @ rs)"
proof -
  let ?seqs = "map fst (dk_files d)" and ?bs = "segment_bytes crc p rs"
  let ?sc0 = "scan_start ?seqs"
  let ?sc1 = "segment_ends (map fst fs) rss ?sc0"
  have len: "length (map fst fs) = length rss" using holds_records_length[OF holds] by simp
  have d0: "ds_durable ?sc0 = 0" "ds_all_entries ?sc0 = []" "ds_epoch ?sc0 = 0" "ds_applied_through ?sc0 = 0"
    "ds_segments ?sc0 = []" "ds_truncated ?sc0 = None" by (simp_all add: scan_start_def)
  have sc1: "ds_durable ?sc1 = last_lamport (concat rss) 0" "ds_all_entries ?sc1 = entries_of (concat rss)"
    "ds_epoch ?sc1 = epoch_in (concat rss) 0" "ds_applied_through ?sc1 = applied_in (concat rss) 0"
    "map fst (ds_segments ?sc1) = map fst fs"
    using segment_ends_fields[OF len, of ?sc0] d0 by simp_all
  have up': "list_all record_fits rs" "rises (last_lamport (concat rss) 0) rs" "list_all record_fits (concat rss)" "rises (ds_durable ?sc0) (concat rss)"
    using fits up d0 by (simp_all add: rises_append)
  have run: "scan_segments crc p ?seqs ?sc0 d = scan_segments crc p [q] ?sc1 d"
    using scan_segments_run[OF quiet ok holds _ up'(3,4), of "[q]"] files by auto
  have scan: "scan_segment crc (fl_content f) p (ds_durable ?sc1) = \<lparr>ss_records = rs, ss_valid_end = length ?bs, ss_stopped = Some reason\<rparr>"
    using scan_frames_run[OF up'(1,2), of crc w] stop
    by (simp add: content sc1(1) segment_bytes_def scan_segment_frames length_segment_header Let_def)
  have read: "disk_read q d = (d, Inr (fl_content f))"
    using disk_read_quiet[OF quiet] files ok bt_get_last[of fs q f] by (simp del: map_of_append)
  have list: "disk_list d = (d, Inr ?seqs)" by (simp add: disk_list_def quiet_disk quiet)
  let ?d = "d\<lparr>dk_files := fs @ [(q, \<lparr>fl_content = ?bs, fl_synced = length ?bs\<rparr>)]\<rparr>"
  let ?sc2 = "let sc = fold absorb rs ?sc1 in sc\<lparr>ds_segments := ds_segments sc @ [(q, ds_durable sc)]\<rparr>"
  let ?sc3 = "?sc2\<lparr>ds_truncated := Some \<lparr>tr_segment = q, tr_offset = length ?bs, tr_reason = reason\<rparr>\<rparr>"
  have "act_then (disk_truncate q (length ?bs)) (disk_sync q) d = (?d, Inr ())"
    using truncate_last[OF quiet files ok, of "length ?bs" ?bs] content by simp
  moreover have "length ?bs \<noteq> 0" by (simp add: length_segment_bytes)
  moreover have "length ?bs < length (fl_content f)" using content w by simp
  ultimately have "scan_directory crc p d = (?d, Inr ?sc3)"
    by (simp add: scan_directory_def act_bind_def list run read scan act_ret_def Let_def fold_absorb act_then_def)
  then show ?thesis unfolding recovers_def using sc1 quiet
    by (intro exI[of _ ?sc3] exI[of _ ?d]) (simp add: Let_def fold_absorb)
qed

text \<open>An append that starts no segment is a write and a sync of the newest one.\<close>

lemma append_here_steps:
  assumes "es \<noteq> []" and "pl_current_size s < pl_target s"
  shows "append_entries crc es s =
    (case act_then (disk_append (pl_current s) (frames_of crc (map EntryRecord es))) (disk_sync (pl_current s)) (pl_disk s) of
       (d, Inl e) \<Rightarrow> (s\<lparr>pl_disk := d\<rparr>, Inl e)
     | (d, Inr _) \<Rightarrow> (s\<lparr>pl_disk := d, pl_current_size := pl_current_size s + length (frames_of crc (map EntryRecord es)),
         pl_durable := max (pl_durable s) (last_lamport (map EntryRecord es) (pl_durable s)),
         pl_segments := update_last (\<lambda>(q, m). (q, max m (last_lamport (map EntryRecord es) (pl_durable s)))) (pl_segments s)\<rparr>, Inr ()))"
proof -
  have "concat (map (frame_encode crc \<circ> EntryRecord) es) = frames_of crc (map EntryRecord es)" by (simp add: frames_of_def)
  then show ?thesis using assms
    by (simp add: append_entries_def append_frames_def act_defs on_disk_def split: prod.split sum.split)
qed

lemma write_last:
  assumes "dk_files d = fs @ [(q, f)]" and "bt_ok (dk_files d)"
  shows "dk_faults d = [] \<Longrightarrow> act_then (disk_append q w) (disk_sync q) d
      = (d\<lparr>dk_files := fs @ [(q, \<lparr>fl_content = fl_content f @ w, fl_synced = length (fl_content f @ w)\<rparr>)]\<rparr>, Inr ())"
    and "dk_faults d = [Works, Fails] \<Longrightarrow> act_then (disk_append q w) (disk_sync q) d
      = (d\<lparr>dk_files := fs @ [(q, f\<lparr>fl_content := fl_content f @ w\<rparr>)], dk_faults := []\<rparr>, Inl (Internal WalDisk))"
proof -
  let ?d = "\<lambda>fl. d\<lparr>dk_files := fs @ [(q, f\<lparr>fl_content := fl_content f @ w\<rparr>)], dk_faults := fl\<rparr>"
  have ed: "edit_file q g (d\<lparr>dk_faults := fl\<rparr>) = d\<lparr>dk_faults := fl, dk_files := fs @ [(q, g f)]\<rparr>" for g fl
    using edit_last[of "d\<lparr>dk_faults := fl\<rparr>" fs q f g] assms by simp
  have "bt_ok (dk_files (?d fl))" for fl using assms by (simp add: bt_ok_def)
  then have ed2: "edit_file q g (?d fl) = (?d fl)\<lparr>dk_files := fs @ [(q, g (f\<lparr>fl_content := fl_content f @ w\<rparr>))]\<rparr>" for g fl
    using edit_last[of "?d fl" fs q _ g] by simp
  show "act_then (disk_append q w) (disk_sync q) d
      = (d\<lparr>dk_files := fs @ [(q, \<lparr>fl_content = fl_content f @ w, fl_synced = length (fl_content f @ w)\<rparr>)]\<rparr>, Inr ())"
    if "dk_faults d = []"
    using that ed[of _ "[]"] ed2[of _ "[]"]
    by (simp add: act_defs disk_append_def disk_sync_def called_def next_fault_def)
  show "act_then (disk_append q w) (disk_sync q) d
      = (d\<lparr>dk_files := fs @ [(q, f\<lparr>fl_content := fl_content f @ w\<rparr>)], dk_faults := []\<rparr>, Inl (Internal WalDisk))"
    if "dk_faults d = [Works, Fails]"
    using that ed[of _ "[Fails]"] by (simp add: act_defs disk_append_def disk_sync_def called_def next_fault_def)
qed

lemma scan_stale_frame:
  assumes "record_fits (EntryRecord x)" and "we_lamport x \<le> prev"
  shows "scan_frames crc (frames_of crc (EntryRecord x # rs) @ tail) pos prev
    = \<lparr>ss_records = [], ss_valid_end = pos, ss_stopped = Some LamportOutOfOrder\<rparr>"
  using scan_one[OF assms(1), of crc "frames_of crc rs @ tail" pos prev] assms(2) by (simp add: frames_of_def)

lemma batch_ends:
  assumes "batch_allowed s (es @ es')" and "es \<noteq> []" and "es' \<noteq> []"
  shows "pl_durable s < we_lamport (last es)" "we_lamport (last es) < we_lamport (last es')" "x \<in> set es \<Longrightarrow> we_lamport x \<le> we_lamport (last es)"
proof -
  have up: "rises (pl_durable s) (map EntryRecord es)" "rises (we_lamport (last es)) (map EntryRecord es')"
    using assms(1,2) last_lamport_entries[of es] by (simp_all add: batch_allowed_def rises_append)
  show "pl_durable s < we_lamport (last es)" "we_lamport (last es) < we_lamport (last es')" "x \<in> set es \<Longrightarrow> we_lamport x \<le> we_lamport (last es)"
    using rises_entries_le[OF up(1)] rises_entries_le[OF up(2), of "last es'"] assms(2,3) last_lamport_entries[of es] by auto
qed

text \<open>The disk after the failed append, its retry and a later append: the newest segment holds the batch twice.\<close>

lemma append_twice:
  assumes files: "dk_files (pl_disk s) = fs @ [(q, f)]" "bt_ok (dk_files (pl_disk s))" "dk_faults (pl_disk s) = []" and cur: "pl_current s = q"
    and ne: "es \<noteq> []" "es' \<noteq> []" and room: "pl_current_size s + length (frames_of crc (map EntryRecord es)) < pl_target s"
    and less: "pl_durable s < we_lamport (last es)" "we_lamport (last es) < we_lamport (last es')"
    and c: "c = fl_content f @ frames_of crc (map EntryRecord es)"
  shows "\<exists>t u v n. append_entries crc es (with_faults [Works, Fails] s) = (t, Inl (Internal WalDisk))
    \<and> append_entries crc es t = (u, Inr ()) \<and> append_entries crc es' u = (v, Inr ()) \<and> pl_durable v = we_lamport (last es')
    \<and> pl_disk v = (pl_disk s)\<lparr>dk_files := fs @ [(q, \<lparr>fl_content = c @ frames_of crc (map EntryRecord es) @ frames_of crc (map EntryRecord es'), fl_synced = n\<rparr>)]\<rparr>"
proof -
  let ?F = "\<lambda>es. frames_of crc (map EntryRecord es)"
  define holding where "holding = (\<lambda>c n. fs @ [(q, \<lparr>fl_content = c, fl_synced = n\<rparr>)])"
  have ends: "last_lamport (map EntryRecord es) x = we_lamport (last es)" "last_lamport (map EntryRecord es') x = we_lamport (last es')" for x
    using last_lamport_entries ne by blast+
  have btf: "bt_ok (holding b n)" for b n using files by (simp add: holding_def bt_ok_def)
  define t where "t = s\<lparr>pl_disk := (pl_disk s)\<lparr>dk_files := holding c (fl_synced f)\<rparr>\<rparr>"
  have t: "append_entries crc es (with_faults [Works, Fails] s) = (t, Inl (Internal WalDisk))"
    using append_here_steps[OF ne(1), of "with_faults [Works, Fails] s" crc] room
      write_last(2)[of "(pl_disk s)\<lparr>dk_faults := [Works, Fails]\<rparr>" fs q f "?F es"] files
    by (simp add: with_faults_def cur t_def holding_def c)
  define u where "u = s\<lparr>pl_disk := (pl_disk s)\<lparr>dk_files := holding (c @ ?F es) (length (c @ ?F es))\<rparr>,
    pl_current_size := pl_current_size s + length (?F es), pl_durable := we_lamport (last es),
    pl_segments := update_last (\<lambda>(q, m). (q, max m (we_lamport (last es)))) (pl_segments s)\<rparr>"
  have u: "append_entries crc es t = (u, Inr ())"
    using append_here_steps[OF ne(1), of t crc] room less(1) ends(1) files(3)
      write_last(1)[of "pl_disk t" fs q "\<lparr>fl_content = c, fl_synced = fl_synced f\<rparr>" "?F es"] btf[of c "fl_synced f"]
    by (simp add: t_def u_def cur holding_def max_absorb2 less_imp_le)
  define v where "v = u\<lparr>pl_disk := (pl_disk s)\<lparr>dk_files := holding (c @ ?F es @ ?F es') (length (c @ ?F es @ ?F es'))\<rparr>,
    pl_current_size := pl_current_size u + length (?F es'), pl_durable := we_lamport (last es'),
    pl_segments := update_last (\<lambda>(q, m). (q, max m (we_lamport (last es')))) (pl_segments u)\<rparr>"
  have "append_entries crc es' u = (v, Inr ())"
    using append_here_steps[OF ne(2), of u crc] room less(2) ends(2) files(3)
      write_last(1)[of "pl_disk u" fs q "\<lparr>fl_content = c @ ?F es, fl_synced = length (c @ ?F es)\<rparr>" "?F es'"] btf[of "c @ ?F es"]
    by (simp add: u_def v_def cur holding_def max_absorb2 less_imp_le)
  moreover have "pl_durable v = we_lamport (last es')"
    "pl_disk v = (pl_disk s)\<lparr>dk_files := fs @ [(q, \<lparr>fl_content = c @ ?F es @ ?F es', fl_synced = length (c @ ?F es @ ?F es')\<rparr>)]\<rparr>"
    by (simp_all add: v_def holding_def)
  ultimately show ?thesis using t u by blast
qed

text \<open>
  C24. A failed append is not cleaned up. On a log in any state, let the sync of an append fail after its
  frames were written, and let the batch be sent again; no segment is started meanwhile. The retry succeeds, and so does any later append: both are acknowledged and durable. But the segment now
  holds the batch twice, and when the node restarts recovery stops at the second copy: it returns the entries up
  to the batch and drops every entry that was acknowledged after it.
\<close>

theorem retried_append_loses_acknowledged_entries:
  assumes "log_rep crc s rss" and "batch_allowed s (es @ es')" and "es \<noteq> []" and "es' \<noteq> []"
    and "pl_current_size s + length (frames_of crc (map EntryRecord es)) < pl_target s"
  shows "\<exists>t u v d w rv. append_entries crc es (with_faults [Works, Fails] s) = (t, Inl (Internal WalDisk))
    \<and> append_entries crc es t = (u, Inr ()) \<and> append_entries crc es' u = (v, Inr ())
    \<and> pl_durable v = we_lamport (last es')
    \<and> log_open crc (pl_partition s) target (pl_disk v) = (d, Inr (w, rv))
    \<and> rv_entries rv = unapplied (applied_in (concat rss) 0) (entries_of (concat rss) @ es)
    \<and> pl_durable w = we_lamport (last es) \<and> pl_durable w < pl_durable v"
proof -
  note r = log_repD[OF assms(1)] and ends = batch_ends[OF assms(2-4)]
  let ?p = "pl_partition s" and ?F = "\<lambda>es. frames_of crc (map EntryRecord es)"
  obtain fs q f rss' rs where d: "dk_files (pl_disk s) = fs @ [(q, f)]" "map fst (pl_segments s) = map fst fs @ [q]" "rss = rss' @ [rs]"
    "holds_records crc ?p fs rss'" "fl_content f = segment_bytes crc ?p rs"
    using dir_ok_snoc[OF r(1,2)] by metis
  have quiet: "dk_faults (pl_disk s) = []" and bt: "bt_ok (dk_files (pl_disk s))" using r(1) by (simp_all add: dir_ok_def)
  have cur: "pl_current s = q" using r(3,11) d(2) last_map[of "pl_segments s" fst] by simp
  have up: "rises (pl_durable s) (map EntryRecord es)" "list_all record_fits (map EntryRecord es)"
    using assms(2) by (simp_all add: batch_allowed_def rises_append)
  obtain t u v n where t: "append_entries crc es (with_faults [Works, Fails] s) = (t, Inl (Internal WalDisk))"
    "append_entries crc es t = (u, Inr ())" "append_entries crc es' u = (v, Inr ())" "pl_durable v = we_lamport (last es')"
    and v: "pl_disk v = (pl_disk s)\<lparr>dk_files := fs @ [(q, \<lparr>fl_content = segment_bytes crc ?p (rs @ map EntryRecord es) @ ?F es @ ?F es', fl_synced = n\<rparr>)]\<rparr>"
    using append_twice[OF d(1) bt quiet cur assms(3,4,5) ends(1,2) refl] d(5) by (auto simp: segment_bytes_def frames_of_def)
  obtain x xs where x: "es = x # xs" using assms(3) by (cases es) auto
  have all: "rises 0 (concat rss @ map EntryRecord es)" "list_all record_fits (concat rss @ map EntryRecord es)"
    using r(6,7) up rises_weaken[OF up(1) r(8)] by (simp_all add: rises_append)
  have "last_lamport (concat rss' @ rs @ map EntryRecord es) 0 = we_lamport (last es)"
    using last_lamport_entries[OF assms(3)] by simp
  then have stop: "scan_frames crc (?F es @ ?F es') pos (last_lamport (concat rss' @ rs @ map EntryRecord es) 0)
      = \<lparr>ss_records = [], ss_valid_end = pos, ss_stopped = Some LamportOutOfOrder\<rparr>" for pos
    using scan_stale_frame[of x "we_lamport (last es)" crc "map EntryRecord xs" "?F es'" pos] up(2) ends(3)[of x] x by simp
  have "recovers crc ?p (pl_disk v) (concat rss' @ rs @ map EntryRecord es)"
    by (rule scan_refused_tail[OF _ _ _ d(4) _ _ stop, where q = q and f = "\<lparr>fl_content = segment_bytes crc ?p (rs @ map EntryRecord es) @ ?F es @ ?F es', fl_synced = n\<rparr>"])
      (use quiet bt d(1,3) all x in \<open>simp_all add: v bt_ok_def frames_of_def\<close>)
  then have "recovers crc ?p (pl_disk v) (concat rss @ map EntryRecord es)" using d(3) by simp
  from recovered_open[OF this, of target] show ?thesis using t ends(2) last_lamport_entries[OF assms(3)] by auto
qed

theorem retried_append_loses_acknowledged_entries_witness:
  "\<exists>t u v d w rv. append_entries no_crc [example_entry 1 0] (with_faults [Works, Fails] (example_log 100)) = (t, Inl (Internal WalDisk))
    \<and> append_entries no_crc [example_entry 1 0] t = (u, Inr ())
    \<and> append_entries no_crc [example_entry 2 0] u = (v, Inr ()) \<and> pl_durable v = 2
    \<and> log_open no_crc 7 100 (pl_disk v) = (d, Inr (w, rv))
    \<and> rv_entries rv = [example_entry 1 0] \<and> pl_durable w = 1"
proof -
  let ?s = "(log_holding [(1, [], 0)] 0 0)\<lparr>pl_target := 100\<rparr>"
  have start: "example_log 100 = ?s" by (simp add: example_log_def holding_eval)
  have rep: "log_rep no_crc ?s [[]]" by (simp add: log_rep_def log_holding_def dir_ok_def holds_records_def covers_entries_def)
  have ok: "batch_allowed ?s ([example_entry 1 0] @ [example_entry 2 0])" by (simp add: batch_allowed_def log_holding_def)
  have "length (frames_of no_crc (map EntryRecord [example_entry 1 0])) < 84"
    by (simp add: frames_of_def length_frame_encode example_entry_def put_deadline_def put_u8_def)
  then have size: "pl_current_size ?s + length (frames_of no_crc (map EntryRecord [example_entry 1 0])) < pl_target ?s"
    by (simp add: log_holding_def segment_bytes_def frames_of_def length_segment_header segment_header_bytes_def)
  from retried_append_loses_acknowledged_entries[OF rep ok _ _ size, of 100]
  show ?thesis unfolding start by (simp add: unapplied_def log_holding_def) blast
qed

end
