(* ===== verification/Wal_Wire.thy ===== *)
theory Wal_Wire
  imports Wal_Format
begin

text \<open>
  \<open>orbita-wal/src/wire.rs\<close>: the messages between an owner and its replicas. Entries travel in the
  frames they have on disk.
\<close>

record append_request =
  ar_partition :: partition_id
  ar_epoch :: epoch
  ar_prev_lamport :: lamport
  ar_committed :: lamport
  ar_entries :: "(wal_entry \<times> bytes) list"

definition encode_append :: "append_request \<Rightarrow> bytes" where
  "encode_append r =
     put_u64 (ar_partition r) @ put_u64 (ar_epoch r) @ put_u64 (ar_prev_lamport r) @ put_u64 (ar_committed r)
     @ put_u32 (word_of_nat (length (ar_entries r))) @ concat (map snd (ar_entries r))"

text \<open>One turn of the loop of \<open>AppendRequest::decode\<close>: an entry and the bytes it was read from.\<close>

definition wr_entry_frame :: "(bytes \<Rightarrow> u32) \<Rightarrow> (wal_entry \<times> bytes) parser" where
  "wr_entry_frame crc bs =
     (case frame_decode crc bs of
        Inl e \<Rightarrow> Inl e
      | Inr (EntryRecord e, used) \<Rightarrow> pbind (wr_take used) (\<lambda>frame. pret (e, frame)) bs
      | Inr _ \<Rightarrow> Inl Malformed)"

fun wr_many :: "nat \<Rightarrow> 'a parser \<Rightarrow> 'a list parser" where
  "wr_many 0 p = pret []"
| "wr_many (Suc n) p = pbind p (\<lambda>x. pbind (wr_many n p) (\<lambda>xs. pret (x # xs)))"

definition decode_append :: "(bytes \<Rightarrow> u32) \<Rightarrow> bytes \<Rightarrow> frame_error + append_request" where
  "decode_append crc buf =
     bind_res
       (pbind wr_u64 (\<lambda>p. pbind wr_u64 (\<lambda>e. pbind wr_u64 (\<lambda>prev. pbind wr_u64 (\<lambda>committed.
        pbind wr_u32 (\<lambda>count. pbind (wr_many (unat count) (wr_entry_frame crc)) (\<lambda>entries.
          pret \<lparr>ar_partition = p, ar_epoch = e, ar_prev_lamport = prev, ar_committed = committed, ar_entries = entries\<rparr>))))))
        buf)
       (\<lambda>(r, rest). if rest \<noteq> [] then Inl Malformed else Inr r)"

definition ar_last_lamport :: "append_request \<Rightarrow> lamport" where
  "ar_last_lamport r = (if ar_entries r = [] then ar_prev_lamport r else we_lamport (fst (last (ar_entries r))))"

record fence_request =
  fr_partition :: partition_id
  fr_epoch :: epoch
  fr_truncate_above :: lamport

definition encode_fence :: "fence_request \<Rightarrow> bytes" where
  "encode_fence r = put_u64 (fr_partition r) @ put_u64 (fr_epoch r) @ put_u64 (fr_truncate_above r)"

definition decode_fence :: "bytes \<Rightarrow> frame_error + fence_request" where
  "decode_fence buf =
     bind_res (pbind wr_u64 (\<lambda>p. pbind wr_u64 (\<lambda>e. pbind wr_u64 (\<lambda>l.
        pret \<lparr>fr_partition = p, fr_epoch = e, fr_truncate_above = l\<rparr>))) buf) (\<lambda>(r, _). Inr r)"

definition encode_status :: "partition_id \<Rightarrow> bytes" where
  "encode_status p = put_u64 p"

definition decode_status :: "bytes \<Rightarrow> frame_error + partition_id" where
  "decode_status buf = bind_res (wr_u64 buf) (\<lambda>(p, _). Inr p)"

datatype 'm wal_response =
    OkResponse lamport epoch
  | StaleEpochResponse epoch
  | GapResponse lamport epoch
  | ErrorResponse 'm

fun encode_response :: "bytes wal_response \<Rightarrow> bytes" where
  "encode_response (OkResponse l e) = put_u8 0 @ put_u64 l @ put_u64 e"
| "encode_response (StaleEpochResponse e) = put_u8 1 @ put_u64 e"
| "encode_response (GapResponse l e) = put_u8 2 @ put_u64 l @ put_u64 e"
| "encode_response (ErrorResponse m) = put_u8 3 @ put_u32 (word_of_nat (length m)) @ m"

definition decode_response :: "bytes \<Rightarrow> frame_error + bytes wal_response" where
  "decode_response buf =
     bind_res
       (pbind wr_u8 (\<lambda>t.
          if t = 0 then pbind wr_u64 (\<lambda>l. pbind wr_u64 (\<lambda>e. pret (OkResponse l e)))
          else if t = 1 then pbind wr_u64 (\<lambda>e. pret (StaleEpochResponse e))
          else if t = 2 then pbind wr_u64 (\<lambda>l. pbind wr_u64 (\<lambda>e. pret (GapResponse l e)))
          else if t = 3 then pbind wr_string (\<lambda>m. pret (ErrorResponse m))
          else pfail) buf)
       (\<lambda>(r, _). Inr r)"

section \<open>Exactness\<close>

definition frame_of_entry :: "(bytes \<Rightarrow> u32) \<Rightarrow> wal_entry \<times> bytes \<Rightarrow> bool" where
  "frame_of_entry crc x \<longleftrightarrow> record_fits (EntryRecord (fst x)) \<and> snd x = frame_encode crc (EntryRecord (fst x))"

interpretation xframe: exact_codec snd "wr_entry_frame crc" "frame_of_entry crc" for crc
proof
  fix bs rest :: bytes and x :: "wal_entry \<times> bytes"
  obtain e f where x: "x = (e, f)" by (cases x)
  have "wr_entry_frame crc bs = Inr ((e, f), rest) \<longleftrightarrow>
      (\<exists>n. frame_decode crc bs = Inr (EntryRecord e, n) \<and> f = take n bs \<and> rest = drop n bs)"
    using frame_exact[of crc bs]
    by (auto simp: wr_entry_frame_def pbind_def pret_def wr_take_def split: sum.splits log_record.splits if_splits)
  also have "\<dots> \<longleftrightarrow> bs = f @ rest \<and> record_fits (EntryRecord e) \<and> f = frame_encode crc (EntryRecord e)"
    using frame_exact[of crc bs "EntryRecord e"] frame_roundtrip[of "EntryRecord e" crc]
    by (metis append_eq_conv_conj append_take_drop_id)
  finally show "(wr_entry_frame crc bs = Inr (x, rest)) = (bs = snd x @ rest \<and> frame_of_entry crc x)"
    by (simp add: x frame_of_entry_def)
qed

context exact_codec begin

lemma many_codec: "exact_codec (\<lambda>xs. concat (map enc xs)) (wr_many n dec) (\<lambda>xs. list_all good xs \<and> length xs = n)"
proof (induction n)
  case 0
  show ?case by unfold_locales (auto simp: pret_def)
next
  case (Suc n)
  show ?case
  proof
    fix bs rest :: bytes and xs :: "'a list"
    show "(wr_many (Suc n) dec bs = Inr (xs, rest)) = (bs = concat (map enc xs) @ rest \<and> list_all good xs \<and> length xs = Suc n)"
      by (cases xs) (auto simp: inverse exact_codec.inverse[OF Suc] pret_def)
  qed
qed

end

interpretation xframes: exact_codec "\<lambda>xs. concat (map snd xs)" "wr_many n (wr_entry_frame crc)"
  "\<lambda>xs. list_all (frame_of_entry crc) xs \<and> length xs = n" for n crc
  by (rule xframe.many_codec)

definition request_ok :: "(bytes \<Rightarrow> u32) \<Rightarrow> append_request \<Rightarrow> bool" where
  "request_ok crc r \<longleftrightarrow> list_all (frame_of_entry crc) (ar_entries r) \<and> len32 (ar_entries r)"

lemma count_exact: "length xs = unat c \<longleftrightarrow> len32 xs \<and> c = word_of_nat (length xs)" for c :: u32
proof
  assume "length xs = unat c"
  then show "len32 xs \<and> c = word_of_nat (length xs)" using unsigned_less[of c, where 'a = nat] by simp
qed (simp add: unat_len32)

lemma decode_append_exact: "decode_append crc buf = Inr r \<longleftrightarrow> buf = encode_append r \<and> request_ok crc r"
  by (cases r)
    (auto simp: decode_append_def bind_res_eq_Inr x64.inverse x32.inverse xframes.inverse pret_def encode_append_def
      request_ok_def count_exact split: if_splits)

lemma decode_fence_exact: "decode_fence (encode_fence r @ rest) = Inr r"
  by (cases r) (simp add: decode_fence_def encode_fence_def x64.step pret_def)

lemma decode_status_exact: "decode_status (encode_status p @ rest) = Inr p"
  by (simp add: decode_status_def encode_status_def x64.roundtrip)

fun response_ok :: "bytes wal_response \<Rightarrow> bool" where
  "response_ok (ErrorResponse m) = str_ok m"
| "response_ok _ = True"

lemma decode_response_exact:
  assumes "response_ok r"
  shows "decode_response (encode_response r @ rest) = Inr r"
proof (cases r)
  case (ErrorResponse m)
  have "decode_response (encode_response r @ rest)
      = bind_res (pbind wr_string (\<lambda>m. pret (ErrorResponse m)) (put_blob m @ rest)) (\<lambda>(r, _). Inr r)"
    by (simp add: ErrorResponse decode_response_def put_blob_def x8.step)
  then show ?thesis using assms by (simp add: ErrorResponse xstring.step pret_def)
qed (simp_all add: decode_response_def x8.step x64.step pret_def)

text \<open>
  C20. Every message of the replication protocol decodes to what was encoded, and an append request decodes
  only from the bytes of its own encoding: \<open>AppendRequest::decode\<close> accepts a buffer exactly when it is the
  encoding of a request whose frames are the checksummed encodings of the entries they are paired with, so
  the bytes a replica writes through to its log are the frames of the entries it reports.
\<close>

theorem wal_messages_roundtrip:
  "(decode_append crc buf = Inr r \<longleftrightarrow> buf = encode_append r \<and> request_ok crc r)
   \<and> decode_fence (encode_fence f) = Inr f
   \<and> decode_status (encode_status p) = Inr p
   \<and> (response_ok resp \<longrightarrow> decode_response (encode_response resp) = Inr resp)"
  using decode_append_exact decode_fence_exact[of _ "[]"] decode_status_exact[of _ "[]"]
    decode_response_exact[of _ "[]"] by simp

lemma wal_messages_roundtrip_witness:
  "decode_response (encode_response (ErrorResponse [103, 97, 112])) = Inr (ErrorResponse [103, 97, 112])"
proof -
  have "response_ok (ErrorResponse [103, 97, 112])" by (simp add: str_ok_def)
  then show ?thesis using wal_messages_roundtrip[where resp = "ErrorResponse [103, 97, 112]"] by blast
qed

end
