(* ===== verification/Wal_Replica.thy ===== *)
theory Wal_Replica
  imports Wal_Durability Wal_Wire
begin

text \<open>
  \<open>orbita-wal/src/replica.rs\<close>: the service that answers an owner's messages. A handler holds the
  partition's gate from its first look at the log to its answer, so one handler runs at a time on a
  log; the state it works on is the log and the calls made to the observer so far.
\<close>

section \<open>The service\<close>

type_synonym u16 = "16 word"

datatype observer_event =
    Invalidating "wal_entry list"
  | Durable "wal_entry list"
  | Committed partition_id lamport
  | Truncated partition_id lamport

record hydration =
  hy_epoch :: epoch
  hy_through :: lamport

datatype closed = ClosedTo lamport | SenderIsDeposed epoch

datatype replica_msg =
    NotHeldHere partition_id
  | LogFailed wal_error
  | OtherPartition
  | NonContiguous lamport lamport
  | Undecodable u16 frame_error
  | UnknownMethod u16

type_synonym response = "replica_msg wal_response"

record replica =
  rp_log :: partition_log
  rp_events :: "observer_event list"

text \<open>
  A handler is an action whose early \<open>return\<close>s are the failures. Where the service asks its
  hydrator, what the bucket holds is an argument: \<open>None\<close> without a hydrator.
\<close>

type_synonym 'a handler = "(replica, response, 'a) action"

definition on_log :: "'a log_action \<Rightarrow> 'a handler" where
  "on_log m s =
     (case m (rp_log s) of
        (l, Inl e) \<Rightarrow> (s\<lparr>rp_log := l\<rparr>, Inl (ErrorResponse (LogFailed e)))
      | (l, Inr x) \<Rightarrow> (s\<lparr>rp_log := l\<rparr>, Inr x))"

definition log_get :: "(partition_log \<Rightarrow> 'a) \<Rightarrow> 'a handler" where
  "log_get f = act_get (\<lambda>s. f (rp_log s))"

definition tell :: "bool \<Rightarrow> observer_event \<Rightarrow> unit handler" where
  "tell observed ev = (if observed then act_modify (\<lambda>s. s\<lparr>rp_events := rp_events s @ [ev]\<rparr>) else act_ret ())"

text \<open>What \<open>append\<close> and \<open>fence\<close> begin with: the caller's epoch against the log's.\<close>

definition meet_epoch :: "(bytes \<Rightarrow> u32) \<Rightarrow> bool \<Rightarrow> partition_id \<Rightarrow> epoch \<Rightarrow> lamport \<Rightarrow> unit handler" where
  "meet_epoch crc observed p e l =
     act_bind (log_get pl_epoch) (\<lambda>current.
     if e < current then act_fail (StaleEpochResponse current)
     else if current < e then
       act_then (on_log (record_fence crc e))
       (act_bind (log_get pl_durable) (\<lambda>held.
        act_then (on_log (truncate_above crc l))
        (if l < held then tell observed (Truncated p l) else act_ret ())))
     else act_ret ())"

definition close_gap :: "(bytes \<Rightarrow> u32) \<Rightarrow> hydration option \<Rightarrow> epoch \<Rightarrow> lamport \<Rightarrow> closed handler" where
  "close_gap crc hydrator sender durable =
     (case hydrator of
        None \<Rightarrow> act_ret (ClosedTo durable)
      | Some found \<Rightarrow>
          act_then
            (if durable < hy_through found then
               act_then (act_modify (\<lambda>s. s\<lparr>rp_log := fst (hydrate (hy_through found) (rp_log s))\<rparr>))
                 (on_log (record_fence crc (hy_epoch found)))
             else act_ret ())
          (if sender < hy_epoch found then act_ret (SenderIsDeposed (hy_epoch found))
           else act_bind (log_get pl_durable) (\<lambda>d. act_ret (ClosedTo d))))"

text \<open>The loop over the batch: what follows the log, the next Lamport expected, or the refusal.\<close>

fun place ::
  "partition_id \<Rightarrow> lamport \<Rightarrow> lamport \<Rightarrow> (wal_entry \<times> bytes) list \<Rightarrow> replica_msg + (lamport \<times> (wal_entry \<times> bytes) list)" where
  "place p durable expected [] = Inr (expected, [])"
| "place p durable expected ((e, frame) # rest) =
     (if we_partition e \<noteq> p then Inl OtherPartition
      else if we_lamport e \<le> durable then place p durable expected rest
      else if we_lamport e \<noteq> expected then Inl (NonContiguous expected (we_lamport e))
      else (case place p durable (next_counter expected) rest of
              Inl m \<Rightarrow> Inl m
            | Inr (x, acc) \<Rightarrow> Inr (x, (e, frame) # acc)))"

text \<open>The second half of \<open>append\<close>: the batch against a log that stands at \<open>durable\<close>.\<close>

definition append_batch :: "bool \<Rightarrow> append_request \<Rightarrow> lamport \<Rightarrow> response handler" where
  "append_batch observed r durable =
     act_bind (log_get pl_epoch) (\<lambda>epoch.
     if durable < ar_prev_lamport r then act_ret (GapResponse durable epoch)
     else
       (case place (ar_partition r) durable (next_counter durable) (ar_entries r) of
          Inl m \<Rightarrow> act_ret (ErrorResponse m)
        | Inr (expected, acc) \<Rightarrow>
            let accepted = map fst acc; frames = map snd acc;
                last = (if frames = [] then durable else expected - 1)
            in act_then (if accepted \<noteq> [] then tell observed (Invalidating accepted) else act_ret ())
              (act_then (on_log (append_frames frames last))
              (act_then (if accepted \<noteq> [] then tell observed (Durable accepted) else act_ret ())
              (act_then (tell observed (Committed (ar_partition r) (ar_committed r)))
              (act_bind (log_get pl_durable) (\<lambda>d. act_ret (OkResponse d epoch))))))))"

definition reach :: "(bytes \<Rightarrow> u32) \<Rightarrow> hydration option \<Rightarrow> append_request \<Rightarrow> lamport handler" where
  "reach crc hydrator r =
     act_bind (log_get pl_durable) (\<lambda>durable.
     if durable < ar_prev_lamport r then
       act_bind (close_gap crc hydrator (ar_epoch r) durable) (\<lambda>c.
         case c of ClosedTo reached \<Rightarrow> act_ret reached | SenderIsDeposed by \<Rightarrow> act_fail (StaleEpochResponse by))
     else act_ret durable)"

definition replica_append ::
  "(bytes \<Rightarrow> u32) \<Rightarrow> bool \<Rightarrow> hydration option \<Rightarrow> append_request \<Rightarrow> response handler" where
  "replica_append crc observed hydrator r =
     act_then (meet_epoch crc observed (ar_partition r) (ar_epoch r) (ar_prev_lamport r))
       (act_bind (reach crc hydrator r) (append_batch observed r))"

definition replica_fence :: "(bytes \<Rightarrow> u32) \<Rightarrow> bool \<Rightarrow> fence_request \<Rightarrow> response handler" where
  "replica_fence crc observed r =
     act_then (meet_epoch crc observed (fr_partition r) (fr_epoch r) (fr_truncate_above r))
       (act_bind (log_get (\<lambda>l. (pl_durable l, pl_epoch l))) (\<lambda>(d, e). act_ret (OkResponse d e)))"

definition replica_status :: "response handler" where
  "replica_status = act_bind (log_get (\<lambda>l. (pl_durable l, pl_epoch l))) (\<lambda>(d, e). act_ret (OkResponse d e))"

text \<open>The answer is the value of the handler or of its early return.\<close>

definition answered :: "response handler \<Rightarrow> replica \<Rightarrow> replica \<times> response" where
  "answered h s = (case h s of (t, Inl r) \<Rightarrow> (t, r) | (t, Inr r) \<Rightarrow> (t, r))"

record wal_service =
  ws_logs :: "partition_id \<rightharpoonup> partition_log"
  ws_observed :: bool
  ws_events :: "observer_event list"

definition service_new :: wal_service where
  "service_new = \<lparr>ws_logs = Map.empty, ws_observed = False, ws_events = []\<rparr>"

definition service_observe :: "wal_service \<Rightarrow> wal_service" where
  "service_observe s = s\<lparr>ws_observed := True\<rparr>"

definition service_register :: "partition_log \<Rightarrow> wal_service \<Rightarrow> wal_service" where
  "service_register l s = s\<lparr>ws_logs := (ws_logs s)(pl_partition l \<mapsto> l)\<rparr>"

definition service_unregister :: "partition_id \<Rightarrow> wal_service \<Rightarrow> wal_service" where
  "service_unregister p s = s\<lparr>ws_logs := (ws_logs s)(p := None)\<rparr>"

definition at_partition :: "partition_id \<Rightarrow> (bool \<Rightarrow> response handler) \<Rightarrow> wal_service \<Rightarrow> wal_service \<times> response" where
  "at_partition p h s =
     (case ws_logs s p of
        None \<Rightarrow> (s, ErrorResponse (NotHeldHere p))
      | Some l \<Rightarrow>
          (case answered (h (ws_observed s)) \<lparr>rp_log = l, rp_events = ws_events s\<rparr> of
             (t, r) \<Rightarrow> (s\<lparr>ws_logs := (ws_logs s)(p \<mapsto> rp_log t), ws_events := rp_events t\<rparr>, r)))"

datatype peer_request = AppendCall append_request | FenceCall fence_request | StatusCall partition_id

fun serve :: "(bytes \<Rightarrow> u32) \<Rightarrow> hydration option \<Rightarrow> peer_request \<Rightarrow> wal_service \<Rightarrow> wal_service \<times> response" where
  "serve crc hydrator (AppendCall r) = at_partition (ar_partition r) (\<lambda>obs. replica_append crc obs hydrator r)"
| "serve crc hydrator (FenceCall r) = at_partition (fr_partition r) (\<lambda>obs. replica_fence crc obs r)"
| "serve crc hydrator (StatusCall p) = at_partition p (\<lambda>_. replica_status)"

definition method_append :: u16 where "method_append = 1"
definition method_fence :: u16 where "method_fence = 2"
definition method_status :: u16 where "method_status = 3"

definition wal_dispatch ::
  "(bytes \<Rightarrow> u32) \<Rightarrow> hydration option \<Rightarrow> u16 \<Rightarrow> bytes \<Rightarrow> wal_service \<Rightarrow> wal_service \<times> response" where
  "wal_dispatch crc hydrator method payload s =
     (if method = method_append then
        (case decode_append crc payload of
           Inr r \<Rightarrow> serve crc hydrator (AppendCall r) s | Inl e \<Rightarrow> (s, ErrorResponse (Undecodable method e)))
      else if method = method_fence then
        (case decode_fence payload of
           Inr r \<Rightarrow> serve crc hydrator (FenceCall r) s | Inl e \<Rightarrow> (s, ErrorResponse (Undecodable method e)))
      else if method = method_status then
        (case decode_status payload of
           Inr p \<Rightarrow> serve crc hydrator (StatusCall p) s | Inl e \<Rightarrow> (s, ErrorResponse (Undecodable method e)))
      else (s, ErrorResponse (UnknownMethod method)))"

text \<open>\<open>PeerHandler::handle\<close>: the answer as it travels, with the rendering of a message as a parameter.\<close>

definition handle ::
  "(replica_msg \<Rightarrow> bytes) \<Rightarrow> (bytes \<Rightarrow> u32) \<Rightarrow> hydration option \<Rightarrow> u16 \<Rightarrow> bytes \<Rightarrow> wal_service \<Rightarrow> wal_service \<times> bytes" where
  "handle render crc hydrator method payload s =
     (case wal_dispatch crc hydrator method payload s of (t, r) \<Rightarrow> (t, encode_response (map_wal_response render r)))"

section \<open>What no step undoes\<close>

text \<open>An action that moves the state only along a preorder, whatever it returns.\<close>

definition within :: "('s \<Rightarrow> 's \<Rightarrow> bool) \<Rightarrow> ('s, 'e, 'a) action \<Rightarrow> bool" where
  "within R m \<longleftrightarrow> (\<forall>s. R s (fst (m s)))"

locale step_order =
  fixes R :: "'s \<Rightarrow> 's \<Rightarrow> bool"
  assumes refl: "R s s" and trans: "R s t \<Longrightarrow> R t u \<Longrightarrow> R s u"
begin

lemma within_bind:
  assumes "within R m" and "\<And>x. within R (f x)"
  shows "within R (act_bind m f)"
proof -
  have "R s (fst (act_bind m f s))" for s
  proof (cases "m s")
    case (Pair t r)
    have "R s t" using assms(1) by (metis Pair fst_conv within_def)
    then show ?thesis using assms(2) trans by (cases r) (auto simp: act_bind_def Pair within_def)
  qed
  then show ?thesis by (simp add: within_def)
qed

lemma within_pure: "within R (act_ret x)" "within R (act_fail e)" "within R (act_get f)"
  by (simp_all add: within_def act_ret_def act_fail_def act_get_def refl)

lemma within_modify: "(\<And>s. R s (f s)) \<Longrightarrow> within R (act_modify f)"
  by (simp add: within_def act_modify_def)

lemma within_then: "within R m \<Longrightarrow> within R n \<Longrightarrow> within R (act_then m n)"
  by (simp add: act_then_def within_bind)

lemma within_each: "(\<And>x. within R (f x)) \<Longrightarrow> within R (act_each f xs)"
  by (induction xs) (simp_all add: within_pure within_then)

lemmas within_rules = within_bind within_then within_pure within_modify within_each

end

text \<open>The operations on the log other than \<open>record_fence\<close> leave its epoch alone, and fail or not.\<close>

definition same_fence :: "partition_log \<Rightarrow> partition_log \<Rightarrow> bool" where
  "same_fence s t \<longleftrightarrow> pl_epoch t = pl_epoch s \<and> pl_partition t = pl_partition s"

definition fence_rises :: "partition_log \<Rightarrow> partition_log \<Rightarrow> bool" where
  "fence_rises s t \<longleftrightarrow> pl_epoch s \<le> pl_epoch t \<and> pl_partition t = pl_partition s"

interpretation sf: step_order same_fence
  by unfold_locales (simp_all add: same_fence_def)

interpretation fr: step_order fence_rises
  by unfold_locales (auto simp: fence_rises_def)

definition replica_rises :: "replica \<Rightarrow> replica \<Rightarrow> bool" where
  "replica_rises s t \<longleftrightarrow> fence_rises (rp_log s) (rp_log t) \<and> (\<exists>evs. rp_events t = rp_events s @ evs)"

interpretation rp: step_order replica_rises
  by unfold_locales (auto simp: replica_rises_def intro: fr.refl fr.trans)

lemma within_on_disk: "within same_fence (on_disk m)"
  by (auto simp: within_def on_disk_def same_fence_def split: prod.split)

lemma within_write: "within same_fence (write_record crc r)" "within same_fence roll"
    "within same_fence (append_frames frames l)"
  unfolding write_record_def roll_def append_frames_def
  by (auto simp: same_fence_def split: prod.split intro!: sf.within_rules within_on_disk)

lemma within_truncate: "within same_fence (truncate_above crc l)"
  unfolding truncate_above_def Let_def
  by (auto simp: same_fence_def split: prod.split option.split
      intro!: sf.within_rules within_on_disk within_write)

lemma same_fence_rises: "within same_fence m \<Longrightarrow> within fence_rises m"
  by (simp add: within_def same_fence_def fence_rises_def)

lemma record_fence_cases:
  assumes "record_fence crc e s = (t, r)"
  shows "pl_partition t = pl_partition s \<and> (pl_epoch t = pl_epoch s \<or> pl_epoch s < e \<and> pl_epoch t = e)
    \<and> (r = Inr () \<longrightarrow> pl_epoch t = max (pl_epoch s) e)"
proof (cases "e \<le> pl_epoch s")
  case False
  obtain u q where u: "write_record crc (FenceRecord e) s = (u, q)" by (cases "write_record crc (FenceRecord e) s")
  then have "same_fence s u" using within_write(1) by (metis fst_conv within_def)
  then show ?thesis using assms u False
    by (cases q) (auto simp: record_fence_def act_defs same_fence_def max_def)
qed (use assms in \<open>auto simp: record_fence_def act_defs max_def\<close>)

lemma within_record_fence: "within fence_rises (record_fence crc e)"
  unfolding within_def fence_rises_def using record_fence_cases[of crc e] by (metis less_imp_le order_refl surjective_pairing)

lemma within_on_log: "within fence_rises m \<Longrightarrow> within replica_rises (on_log m)"
  by (auto simp: within_def on_log_def replica_rises_def split: prod.split sum.split) (metis fst_conv)+

lemma within_tell: "within replica_rises (tell observed ev)"
  unfolding tell_def by (auto simp: replica_rises_def intro!: rp.within_rules fr.refl)

lemma rises_hydrate: "replica_rises s (s\<lparr>rp_log := fst (hydrate l (rp_log s))\<rparr>)"
  by (simp add: replica_rises_def fence_rises_def hydrate_def)

lemma within_meet: "within replica_rises (meet_epoch crc observed p e l)"
  unfolding meet_epoch_def log_get_def
  by (auto intro!: rp.within_rules within_on_log within_tell within_record_fence same_fence_rises within_truncate)

lemma within_close_gap: "within replica_rises (close_gap crc h sender d)"
  unfolding close_gap_def log_get_def
  by (auto split: option.split intro!: rp.within_rules within_on_log within_record_fence rises_hydrate)

lemma within_append: "within replica_rises (replica_append crc observed h r)"
  unfolding replica_append_def append_batch_def reach_def log_get_def Let_def
  by (auto split: sum.split prod.split closed.split
      intro!: rp.within_rules within_meet within_close_gap within_on_log within_tell same_fence_rises within_write)

lemma within_fence: "within replica_rises (replica_fence crc observed r)"
  unfolding replica_fence_def log_get_def by (auto split: prod.split intro!: rp.within_rules within_meet)

lemma within_status: "within replica_rises replica_status"
  unfolding replica_status_def log_get_def by (auto split: prod.split intro!: rp.within_rules)

section \<open>Who is answered\<close>

lemma act_bind_okE:
  assumes "act_bind m f s = (t, Inr y)"
  obtains u x where "m s = (u, Inr x)" "f x u = (t, Inr y)"
  using assms by (auto simp: act_bind_def split: prod.splits sum.splits)

lemma bind_log_get: "act_bind (log_get f) g s = g (f (rp_log s)) s"
  by (simp add: log_get_def act_get_def act_bind_def)

lemma act_then_okE:
  assumes "act_then m n s = (t, Inr y)"
  obtains u where "m s = (u, Inr ())" "n u = (t, Inr y)"
  using assms by (auto simp: act_then_def elim: act_bind_okE)

lemma on_log_okE:
  assumes "on_log m s = (t, Inr x)"
  obtains l where "m (rp_log s) = (l, Inr x)" "t = s\<lparr>rp_log := l\<rparr>"
  using assms by (auto simp: on_log_def split: prod.splits sum.splits)

text \<open>No early return is a success.\<close>

fun is_refusal :: "response \<Rightarrow> bool" where
  "is_refusal (OkResponse _ _) = False"
| "is_refusal _ = True"

definition refuses_only :: "'a handler \<Rightarrow> bool" where
  "refuses_only m \<longleftrightarrow> (\<forall>s t r. m s = (t, Inl r) \<longrightarrow> is_refusal r)"

lemma refuses_pure:
  "refuses_only (act_ret x)" "refuses_only (log_get f)" "refuses_only (act_modify g)"
  "refuses_only (act_fail r) \<longleftrightarrow> is_refusal r" "refuses_only (tell observed ev)" "refuses_only (on_log l)"
  by (auto simp: refuses_only_def act_defs log_get_def tell_def on_log_def split: prod.splits sum.splits)

lemma refuses_bind: "refuses_only m \<Longrightarrow> (\<And>x. refuses_only (f x)) \<Longrightarrow> refuses_only (act_bind m f)"
  unfolding refuses_only_def by (fastforce simp: act_bind_def split: prod.splits sum.splits)

lemma refuses_then: "refuses_only m \<Longrightarrow> refuses_only n \<Longrightarrow> refuses_only (act_then m n)"
  by (simp add: act_then_def refuses_bind)

lemmas refuses_rules = refuses_pure(1-3,5,6) refuses_pure(4)[THEN iffD2] refuses_bind refuses_then

lemma append_refuses: "refuses_only (replica_append crc observed h r)"
  unfolding replica_append_def append_batch_def reach_def meet_epoch_def close_gap_def Let_def
  by (auto split: option.split sum.split prod.split closed.split intro!: refuses_rules)

lemma meet_epoch_stale:
  "e < pl_epoch (rp_log s) \<Longrightarrow>
    meet_epoch crc observed p e l s = (s, Inl (StaleEpochResponse (pl_epoch (rp_log s))))"
  by (simp add: meet_epoch_def log_get_def act_defs)

lemma within_epoch: "within same_fence m \<Longrightarrow> m s = (t, r) \<Longrightarrow> pl_epoch t = pl_epoch s"
  by (metis fst_conv same_fence_def within_def)

lemma tell_log [simp]: "rp_log (fst (tell observed ev s)) = rp_log s"
  by (simp add: tell_def act_defs)

lemma tell_ok: "tell observed ev s = (t, r) \<Longrightarrow> rp_log t = rp_log s"
  by (metis fst_conv tell_log)

lemma meet_epoch_new:
  assumes "pl_epoch (rp_log s) < e" and "meet_epoch crc observed p e l s = (t, Inr ())"
  obtains u where "record_fence crc e (rp_log s) = (u, Inr ())" "truncate_above crc l u = (rp_log t, Inr ())"
proof -
  have "act_then (on_log (record_fence crc e))
       (act_bind (log_get pl_durable) (\<lambda>held.
        act_then (on_log (truncate_above crc l))
        (if l < held then tell observed (Truncated p l) else act_ret ()))) s = (t, Inr ())"
    using assms not_less_iff_gr_or_eq[of e "pl_epoch (rp_log s)"]
    by (simp add: meet_epoch_def bind_log_get)
  then obtain u v where u: "on_log (record_fence crc e) s = (u, Inr ())" "on_log (truncate_above crc l) u = (v, Inr ())"
      "(if l < pl_durable (rp_log u) then tell observed (Truncated p l) else act_ret ()) v = (t, Inr ())"
    by (auto simp: log_get_def act_get_def elim!: act_then_okE act_bind_okE)
  then have "rp_log t = rp_log v" by (auto simp: act_ret_def dest: tell_ok split: if_splits)
  then show thesis using that u by (auto elim!: on_log_okE)
qed

lemma meet_epoch_ok:
  assumes "meet_epoch crc observed p e l s = (t, Inr ())"
  shows "pl_epoch (rp_log t) = e \<and> pl_epoch (rp_log s) \<le> e"
proof (cases "pl_epoch (rp_log s) < e")
  case True
  then show ?thesis
    using meet_epoch_new[OF True assms] record_fence_cases[of crc e "rp_log s"] within_epoch[OF within_truncate]
    by (metis less_imp_le max_absorb2)
next
  case False
  then show ?thesis using assms
    by (auto simp: meet_epoch_def log_get_def act_defs split: if_splits)
qed

lemma close_gap_ok:
  assumes "close_gap crc h sender d s = (t, Inr (ClosedTo x))" and "sender \<le> pl_epoch (rp_log s)"
  shows "pl_epoch (rp_log t) = pl_epoch (rp_log s)"
proof (cases h)
  case (Some found)
  then have "hy_epoch found \<le> pl_epoch (rp_log s)"
    using assms by (auto simp: close_gap_def act_ret_def elim!: act_then_okE split: if_splits)
  then show ?thesis using assms(1) Some
    by (auto simp: close_gap_def act_ret_def log_get_def act_get_def act_modify_def record_fence_def act_defs on_log_def
        hydrate_def split: if_splits prod.splits)
qed (use assms in \<open>auto simp: close_gap_def act_ret_def\<close>)

lemma reach_ok:
  assumes "reach crc h r s = (t, Inr d)" and "ar_epoch r \<le> pl_epoch (rp_log s)"
  shows "pl_epoch (rp_log t) = pl_epoch (rp_log s)"
  using assms close_gap_ok
  by (auto simp: reach_def log_get_def act_get_def act_ret_def act_fail_def elim!: act_bind_okE
      split: if_splits closed.splits)

lemma batch_ok:
  assumes "append_batch observed r durable s = (t, Inr (OkResponse d e))"
  shows "pl_epoch (rp_log t) = pl_epoch (rp_log s) \<and> e = pl_epoch (rp_log s) \<and> d = pl_durable (rp_log t)"
proof -
  have quiet: "rp_log u = rp_log w" if "(if P then tell observed ev else act_ret ()) w = (u, Inr ())" for u w P ev
    using that by (auto simp: act_ret_def dest: tell_ok split: if_splits)
  have app: "pl_epoch (rp_log u) = pl_epoch (rp_log w)" if "on_log (append_frames fs l) w = (u, Inr ())" for u w fs l
    using that within_epoch[OF within_write(3)] by (auto elim!: on_log_okE)
  show ?thesis using assms
    by (auto simp: append_batch_def log_get_def act_get_def Let_def elim!: act_bind_okE act_then_okE
        dest!: quiet app tell_ok split: if_splits sum.splits prod.splits)
       (simp_all add: act_ret_def)
qed

lemma append_ok_epoch:
  assumes "replica_append crc observed h r s = (t, Inr (OkResponse d e))"
  shows "pl_epoch (rp_log t) = ar_epoch r \<and> e = ar_epoch r \<and> d = pl_durable (rp_log t) \<and> pl_epoch (rp_log s) \<le> ar_epoch r"
proof -
  obtain u where u: "meet_epoch crc observed (ar_partition r) (ar_epoch r) (ar_prev_lamport r) s = (u, Inr ())"
    "act_bind (reach crc h r) (append_batch observed r) u = (t, Inr (OkResponse d e))"
    using assms unfolding replica_append_def by (rule act_then_okE)
  obtain v x where v: "reach crc h r u = (v, Inr x)" "append_batch observed r x v = (t, Inr (OkResponse d e))"
    using u(2) by (rule act_bind_okE)
  show ?thesis using meet_epoch_ok[OF u(1)] reach_ok[OF v(1)] batch_ok[OF v(2)] by simp
qed

section \<open>Fencing\<close>

definition serve_all :: "(bytes \<Rightarrow> u32) \<Rightarrow> (hydration option \<times> peer_request) list \<Rightarrow> wal_service \<Rightarrow> wal_service" where
  "serve_all crc calls s = fold (\<lambda>(h, c) s. fst (serve crc h c s)) calls s"

lemma answered_fst: "fst (answered h s) = fst (h s)"
  by (auto simp: answered_def split: prod.splits sum.splits)

lemma answered_rises: "within replica_rises h \<Longrightarrow> replica_rises s (fst (answered h s))"
  by (simp add: answered_fst within_def)

lemma at_partition_rises:
  assumes "ws_logs s p = Some l" and "\<And>obs. within replica_rises (h obs)"
  shows "\<exists>l'. ws_logs (fst (at_partition q h s)) p = Some l' \<and> pl_epoch l \<le> pl_epoch l'"
proof (cases "ws_logs s q")
  case (Some k)
  obtain t r where t: "answered (h (ws_observed s)) \<lparr>rp_log = k, rp_events = ws_events s\<rparr> = (t, r)" by fastforce
  then have "pl_epoch k \<le> pl_epoch (rp_log t)"
    using answered_rises[OF assms(2)[of "ws_observed s"], of "\<lparr>rp_log = k, rp_events = ws_events s\<rparr>"]
    by (simp add: replica_rises_def fence_rises_def)
  then show ?thesis using assms(1) Some t by (auto simp: at_partition_def)
qed (use assms in \<open>auto simp: at_partition_def\<close>)

lemma serve_rises:
  "ws_logs s p = Some l \<Longrightarrow> \<exists>l'. ws_logs (fst (serve crc h c s)) p = Some l' \<and> pl_epoch l \<le> pl_epoch l'"
  by (cases c) (simp_all add: at_partition_rises within_append within_fence within_status)

lemma serve_all_rises:
  "ws_logs s p = Some l \<Longrightarrow> \<exists>l'. ws_logs (serve_all crc calls s) p = Some l' \<and> pl_epoch l \<le> pl_epoch l'"
proof (induction calls arbitrary: s l)
  case (Cons x calls)
  obtain h c where x: "x = (h, c)" by (cases x)
  obtain l1 where l1: "ws_logs (fst (serve crc h c s)) p = Some l1" "pl_epoch l \<le> pl_epoch l1"
    using serve_rises[OF Cons.prems] by blast
  show ?case using Cons.IH[OF l1(1)] l1(2) by (auto simp: serve_all_def x)
qed (simp add: serve_all_def)

lemma answered_stale:
  "e < pl_epoch (rp_log s) \<Longrightarrow>
    answered (act_then (meet_epoch crc observed p e l) k) s = (s, StaleEpochResponse (pl_epoch (rp_log s)))"
  by (simp add: answered_def act_then_def act_bind_def meet_epoch_stale)

lemma stale_append:
  assumes "ws_logs s (ar_partition r) = Some l" and "ar_epoch r < pl_epoch l"
  shows "serve crc h (AppendCall r) s = (s, StaleEpochResponse (pl_epoch l))"
  using assms by (simp add: at_partition_def replica_append_def answered_stale fun_upd_idem)

lemma stale_fence:
  assumes "ws_logs s (fr_partition r) = Some l" and "fr_epoch r < pl_epoch l"
  shows "serve crc h (FenceCall r) s = (s, StaleEpochResponse (pl_epoch l))"
  using assms by (simp add: at_partition_def replica_fence_def answered_stale fun_upd_idem)

lemma fence_ok_epoch:
  assumes "serve crc h (FenceCall r) s = (t, OkResponse d e)"
  shows "\<exists>l. ws_logs t (fr_partition r) = Some l \<and> pl_epoch l = e \<and> e = fr_epoch r"
proof -
  obtain l where l: "ws_logs s (fr_partition r) = Some l" using assms by (auto simp: at_partition_def split: option.splits)
  define s0 where "s0 = \<lparr>rp_log = l, rp_events = ws_events s\<rparr>"
  have refuses: "refuses_only (replica_fence crc (ws_observed s) r)"
    unfolding replica_fence_def meet_epoch_def by (auto split: prod.split intro!: refuses_rules)
  obtain u where u: "replica_fence crc (ws_observed s) r s0 = (u, Inr (OkResponse d e))"
    "t = s\<lparr>ws_logs := (ws_logs s)(fr_partition r \<mapsto> rp_log u), ws_events := rp_events u\<rparr>"
    using assms l refuses by (auto simp: at_partition_def answered_def s0_def refuses_only_def split: prod.splits sum.splits) force
  obtain v where "meet_epoch crc (ws_observed s) (fr_partition r) (fr_epoch r) (fr_truncate_above r) s0 = (v, Inr ())"
    "(v, Inr (OkResponse (pl_durable (rp_log v)) (pl_epoch (rp_log v)))) = (u, Inr (OkResponse d e) :: response + response)"
    using u(1) by (auto simp: replica_fence_def bind_log_get act_ret_def elim!: act_then_okE)
  then show ?thesis using u(2) meet_epoch_ok by auto
qed

lemma append_ok_service:
  assumes "serve crc h (AppendCall r) s = (t, OkResponse d e)"
  shows "\<exists>l l'. ws_logs s (ar_partition r) = Some l \<and> ws_logs t (ar_partition r) = Some l'
    \<and> pl_epoch l \<le> ar_epoch r \<and> pl_epoch l' = ar_epoch r \<and> e = ar_epoch r \<and> d = pl_durable l'"
proof -
  obtain l where l: "ws_logs s (ar_partition r) = Some l" using assms by (auto simp: at_partition_def split: option.splits)
  define s0 where "s0 = \<lparr>rp_log = l, rp_events = ws_events s\<rparr>"
  obtain u where u: "replica_append crc (ws_observed s) h r s0 = (u, Inr (OkResponse d e))"
    "t = s\<lparr>ws_logs := (ws_logs s)(ar_partition r \<mapsto> rp_log u), ws_events := rp_events u\<rparr>"
    using assms l append_refuses[of crc "ws_observed s" h r]
    by (auto simp: at_partition_def answered_def s0_def refuses_only_def split: prod.splits sum.splits) force
  then show ?thesis using append_ok_epoch[OF u(1)] l by (auto simp: s0_def)
qed

end
