(* ===== verification/Wal_Follow.thy ===== *)
theory Wal_Follow
  imports Wal_Replica
begin

text \<open>
  What the replica service promises an owner and what it denies a former one: a log that meets its owner
  stays a prefix of the owner's history, whether it caught up from messages or from the bucket, and a fence is
  not undone by any later message.
\<close>

section \<open>Following the owner\<close>

text \<open>The owner's history: entries numbered from 1 without a hole, each within the limits of a frame.\<close>

definition contiguous :: "wal_entry list \<Rightarrow> bool" where
  "contiguous H \<longleftrightarrow> length H < 2 ^ 64 - 1 \<and> (\<forall>i<length H. we_lamport (H ! i) = word_of_nat (Suc i))"

definition owner_history :: "partition_id \<Rightarrow> epoch \<Rightarrow> wal_entry list \<Rightarrow> bool" where
  "owner_history p e H \<longleftrightarrow> contiguous H
     \<and> list_all (\<lambda>x. record_fits (EntryRecord x) \<and> we_partition x = p \<and> we_epoch x \<le> e) H"

definition framed :: "(bytes \<Rightarrow> u32) \<Rightarrow> wal_entry \<Rightarrow> wal_entry \<times> bytes" where
  "framed crc e = (e, frame_encode crc (EntryRecord e))"

lemma word_of_nat_le64: "a < 2 ^ 64 \<Longrightarrow> b < 2 ^ 64 \<Longrightarrow> (word_of_nat a :: u64) \<le> word_of_nat b \<longleftrightarrow> a \<le> b"
  by (simp add: word_le_nat_alt unat_of_nat)

lemma word_of_nat_less64: "a < 2 ^ 64 \<Longrightarrow> b < 2 ^ 64 \<Longrightarrow> (word_of_nat a :: u64) < word_of_nat b \<longleftrightarrow> a < b"
  by (simp add: word_less_nat_alt unat_of_nat)

lemma contiguous_lamport: "contiguous H \<Longrightarrow> i < length H \<Longrightarrow> we_lamport (H ! i) = word_of_nat (Suc i)"
  by (simp add: contiguous_def)

lemma filter_history:
  assumes "contiguous H" and "k < 2 ^ 64"
  shows "filter (\<lambda>x. we_lamport x \<le> word_of_nat k) (take n H) = take (min n k) H"
proof (induction n)
  case (Suc n)
  show ?case
  proof (cases "n < length H")
    case True
    then have "we_lamport (H ! n) \<le> word_of_nat k \<longleftrightarrow> Suc n \<le> k"
      using assms word_of_nat_le64[of "Suc n" k] by (simp add: contiguous_def)
    then show ?thesis using Suc True by (cases "k = n") (auto simp: take_Suc_conv_app_nth min_def)
  next
    case False
    then show ?thesis using Suc by (simp add: min_def)
  qed
qed simp

lemma last_lamport_history:
  "contiguous H \<Longrightarrow> n \<le> length H \<Longrightarrow> last_lamport (map EntryRecord (take n H)) 0 = word_of_nat n"
  by (cases n) (simp_all add: take_Suc_conv_app_nth contiguous_lamport)

lemma rises_history:
  assumes "contiguous H"
  shows "k + m \<le> length H \<Longrightarrow> rises (word_of_nat k) (map EntryRecord (take m (drop k H)))
    \<and> last_lamport (map EntryRecord (take m (drop k H))) (word_of_nat k) = word_of_nat (k + m)"
proof (induction m arbitrary: k)
  case (Suc m)
  then have h: "drop k H = H ! k # drop (Suc k) H" by (simp add: Cons_nth_drop_Suc)
  have "(word_of_nat k :: u64) < word_of_nat (Suc k)"
    using Suc.prems assms by (subst word_of_nat_less64) (auto simp: contiguous_def)
  then show ?case using Suc.IH[of "Suc k"] Suc.prems assms by (simp add: h contiguous_lamport del: of_nat_Suc)
qed simp

lemma place_skips:
  assumes "owner_history p e H" and "n \<le> length H"
  shows "k + m \<le> length H \<Longrightarrow> k \<le> n \<Longrightarrow>
    place p (word_of_nat n) (word_of_nat (Suc n)) (map (framed crc) (take m (drop k H))) =
      place p (word_of_nat n) (word_of_nat (Suc n)) (map (framed crc) (take (k + m - n) (drop n H)))"
proof (induction m arbitrary: k)
  case (Suc m)
  show ?case
  proof (cases "k = n")
    case False
    then have k: "k < n" "k < length H" using Suc.prems by auto
    then have h: "drop k H = H ! k # drop (Suc k) H" by (simp add: Cons_nth_drop_Suc)
    have "(word_of_nat (Suc k) :: u64) \<le> word_of_nat n"
      using k assms by (subst word_of_nat_le64) (auto simp: contiguous_def owner_history_def)
    then show ?thesis using Suc.IH[of "Suc k"] Suc.prems k assms
      by (simp add: h framed_def owner_history_def contiguous_lamport list_all_length del: of_nat_Suc)
  qed simp
qed simp

lemma place_takes:
  assumes "owner_history p e H"
  shows "j + m \<le> length H \<Longrightarrow> d \<le> j \<Longrightarrow>
    place p (word_of_nat d) (word_of_nat (Suc j)) (map (framed crc) (take m (drop j H))) =
      Inr (word_of_nat (Suc (j + m)), map (framed crc) (take m (drop j H)))"
proof (induction m arbitrary: j)
  case (Suc m)
  then have h: "drop j H = H ! j # drop (Suc j) H" by (simp add: Cons_nth_drop_Suc)
  have "\<not> (word_of_nat (Suc j) :: u64) \<le> word_of_nat d"
    using Suc.prems assms by (subst word_of_nat_le64) (auto simp: contiguous_def owner_history_def)
  moreover have "next_counter (word_of_nat (Suc j)) = word_of_nat (Suc (Suc j))" by (simp add: next_counter_def)
  ultimately show ?case using Suc.IH[of "Suc j"] Suc.prems assms
    by (simp add: h framed_def owner_history_def contiguous_lamport list_all_length del: of_nat_Suc)
qed simp

lemma place_history:
  assumes "owner_history p e H" and "k + m \<le> length H" and "k \<le> n" and "n \<le> length H"
  shows "place p (word_of_nat n) (next_counter (word_of_nat n)) (map (framed crc) (take m (drop k H))) =
    Inr (word_of_nat (Suc (max n (k + m))), map (framed crc) (take (k + m - n) (drop n H)))"
proof -
  have "next_counter (word_of_nat n) = word_of_nat (Suc n)" by (simp add: next_counter_def)
  then show ?thesis
    using place_skips[OF assms(1,4,2,3)] place_takes[OF assms(1), of n "k + m - n" n crc] assms by (simp add: max_def)
qed

text \<open>Fences and cuts start no segment.\<close>

definition same_seq :: "partition_log \<Rightarrow> partition_log \<Rightarrow> bool" where
  "same_seq s t \<longleftrightarrow> pl_next_seq t = pl_next_seq s"

interpretation sq: step_order same_seq
  by unfold_locales (simp_all add: same_seq_def)

lemma seq_on_disk: "within same_seq (on_disk m)"
  by (auto simp: within_def on_disk_def same_seq_def split: prod.split)

lemma seq_write: "within same_seq (write_record crc r)"
  unfolding write_record_def by (auto simp: same_seq_def intro!: sq.within_rules seq_on_disk)

lemma seq_fence: "within same_seq (record_fence crc e)"
  unfolding record_fence_def by (auto simp: same_seq_def intro!: sq.within_rules seq_write)

lemma seq_truncate: "within same_seq (truncate_above crc l)"
  unfolding truncate_above_def Let_def
  by (auto simp: same_seq_def split: prod.split option.split intro!: sq.within_rules seq_on_disk seq_write)

lemma within_seq: "within same_seq m \<Longrightarrow> m s = (t, r) \<Longrightarrow> pl_next_seq t = pl_next_seq s"
  by (metis fst_conv same_seq_def within_def)

definition last_of :: "abstract_log \<Rightarrow> lamport" where
  "last_of a = last_lamport (map EntryRecord (al_entries a)) 0"

lemma cut_refines:
  assumes ref: "refines crc fenced s a rss" and low: "pl_applied_through s \<le> l" and pos: "pl_durable s = last_of a"
  shows "\<exists>t rss'. truncate_above crc l s = (t, Inr ()) \<and> refines crc fenced t (spec_op (CutAbove l) a) rss'
    \<and> pl_partition t = pl_partition s \<and> pl_next_seq t = pl_next_seq s \<and> pl_durable t = min l (pl_durable s)"
proof -
  obtain t rss' where t: "truncate_above crc l s = (t, Inr ())" "refines crc fenced t (spec_op (CutAbove l) a) rss'"
    "pl_partition t = pl_partition s"
    using op_refines[OF ref, of "CutAbove l"] low by auto
  have rep: "log_rep crc s rss" and hyd: "pl_hydrated_through s = 0" and app: "al_applied a = pl_applied_through s"
    and same: "unapplied (al_applied a) (entries_of (concat rss)) = unapplied (al_applied a) (al_entries a)"
    using ref by (auto simp: refines_def)
  have d: "pl_durable t \<le> pl_durable s" "min l (pl_durable s) \<le> pl_durable t"
    "(\<exists>e\<in>set (entries_of (concat rss)). l < we_lamport e) \<longrightarrow> pl_durable t = max l (pl_hydrated_through s)"
    using truncate_above_ok[OF rep, of l] t(1) by auto
  have "pl_durable t = l" if "l < pl_durable s"
  proof -
    have "l < last_of a" using that pos by simp
    then obtain x where x: "x \<in> set (al_entries a)" "l < we_lamport x"
      using last_lamport_cases[of "map EntryRecord (al_entries a)" 0] unfolding last_of_def by auto
    then have "x \<in> set (unapplied (al_applied a) (al_entries a))"
      using low app by (auto simp: unapplied_def)
    then have "x \<in> set (entries_of (concat rss))" unfolding same[symmetric] by (simp add: unapplied_def)
    then show ?thesis using d(3) x(2) hyd by auto
  qed
  then have "pl_durable t = min l (pl_durable s)" using d(1,2)
    by (cases "l < pl_durable s") (simp_all add: min_absorb1 min_absorb2 not_less)
  then show ?thesis using t within_seq[OF seq_truncate t(1)] by blast
qed

definition met :: "epoch \<Rightarrow> lamport \<Rightarrow> partition_log \<Rightarrow> abstract_log \<Rightarrow> abstract_log" where
  "met e l s a = (if pl_epoch s < e then spec_op (CutAbove l) (spec_op (AcceptEpoch e) a) else a)"

lemma meet_refines:
  assumes ref: "refines crc fenced (rp_log s) a rss" and le: "pl_epoch (rp_log s) \<le> e"
    and low: "pl_epoch (rp_log s) < e \<Longrightarrow> pl_applied_through (rp_log s) \<le> l" and pos: "pl_durable (rp_log s) = last_of a"
  shows "\<exists>t rss'. meet_epoch crc observed p e l s = (t, Inr ()) \<and> refines crc fenced (rp_log t) (met e l (rp_log s) a) rss'
    \<and> pl_partition (rp_log t) = pl_partition (rp_log s) \<and> pl_next_seq (rp_log t) = pl_next_seq (rp_log s)
    \<and> pl_epoch (rp_log t) = e
    \<and> pl_durable (rp_log t) = (if pl_epoch (rp_log s) < e then min l (pl_durable (rp_log s)) else pl_durable (rp_log s))"
proof (cases "pl_epoch (rp_log s) < e")
  case True
  obtain u rss1 where u: "record_fence crc e (rp_log s) = (u, Inr ())" "refines crc fenced u (spec_op (AcceptEpoch e) a) rss1"
    "pl_partition u = pl_partition (rp_log s)"
    using op_refines[OF ref, of "AcceptEpoch e"] by auto
  have keep: "pl_durable u = pl_durable (rp_log s)" "pl_applied_through u = pl_applied_through (rp_log s)"
    "pl_epoch u = max (pl_epoch (rp_log s)) e"
    using record_fence_ok[of crc "rp_log s" rss e] ref u(1) by (auto simp: refines_def)
  obtain v rss2 where v: "truncate_above crc l u = (v, Inr ())"
    "refines crc fenced v (spec_op (CutAbove l) (spec_op (AcceptEpoch e) a)) rss2" "pl_partition v = pl_partition u"
    "pl_next_seq v = pl_next_seq u" "pl_durable v = min l (pl_durable u)"
    using cut_refines[OF u(2), of l] low[OF True] keep pos by (auto simp: last_of_def)
  have "\<exists>t. meet_epoch crc observed p e l s = (t, Inr ()) \<and> rp_log t = v"
    using True u(1) v(1) not_less_iff_gr_or_eq[of e "pl_epoch (rp_log s)"]
    by (auto simp: meet_epoch_def bind_log_get)
       (simp_all add: act_then_def act_bind_def log_get_def on_log_def tell_def act_get_def act_ret_def act_modify_def)
  then show ?thesis
    using v u(3) keep within_seq[OF seq_fence u(1)] within_epoch[OF within_truncate v(1)] True
    by (auto simp: met_def max_def)
next
  case False
  then show ?thesis using ref le
    by (intro exI[of _ s] exI[of _ rss]) (auto simp: meet_epoch_def bind_log_get act_ret_def met_def)
qed

lemma take_extend: "take n H @ take (k + m - n) (drop n H) = take (max n (k + m)) H"
  by (cases "n \<le> k + m") (simp_all add: max_def take_add[symmetric])

lemma batch_refines:
  assumes ref: "refines crc fenced (rp_log s) a rss" and H: "owner_history p e H" and room: "pl_next_seq (rp_log s) \<noteq> -1"
    and a: "al_entries a = take n H" "pl_durable (rp_log s) = word_of_nat n" "pl_epoch (rp_log s) = e" "n \<le> length H"
    and r: "ar_partition r = p" "ar_prev_lamport r = word_of_nat k" "ar_entries r = map (framed crc) (take m (drop k H))"
    and k: "k \<le> n" "k + m \<le> length H"
  shows "\<exists>t a' rss'. append_batch observed r (word_of_nat n) s = (t, Inr (OkResponse (word_of_nat (max n (k + m))) e))
    \<and> refines crc fenced (rp_log t) a' rss' \<and> al_entries a' = take (max n (k + m)) H
    \<and> pl_durable (rp_log t) = word_of_nat (max n (k + m)) \<and> pl_epoch (rp_log t) = e"
proof -
  let ?es = "take (k + m - n) (drop n H)" and ?M = "max n (k + m)"
  have H': "contiguous H" using H by (simp add: owner_history_def)
  have small: "k < 2 ^ 64" "n < 2 ^ 64" using k a(4) H' by (auto simp: contiguous_def)
  have up: "rises (word_of_nat n) (map EntryRecord ?es)" "last_lamport (map EntryRecord ?es) (word_of_nat n) = word_of_nat ?M"
    using rises_history[OF H', of n "k + m - n"] k a(4) by (auto simp: max_def)
  have in_H: "x \<in> set ?es \<Longrightarrow> x \<in> set H" for x by (meson in_set_dropD in_set_takeD)
  have ok: "batch_allowed (rp_log s) ?es"
    using H up(1) room a in_H by (auto simp: batch_allowed_def owner_history_def list_all_iff)
  obtain t rss' where t: "append_entries crc ?es (rp_log s) = (t, Inr ())" "refines crc fenced t (spec_op (AppendEntries ?es) a) rss'"
    using append_refines[OF ref ok] by blast
  have t': "append_frames (map (frame_encode crc \<circ> EntryRecord) ?es) (word_of_nat ?M) (rp_log s) = (t, Inr ())"
    using t(1) by (simp add: append_entries_def a(2) up(2))
  have durable: "pl_durable t = word_of_nat ?M"
    using append_frames_ok[of crc "rp_log s" rss ?es] ok ref t' up(2) a(2)
    by (auto simp: batch_allowed_def refines_def list_all_iff)
  have "(if ?es = [] then word_of_nat n else word_of_nat (Suc ?M) - 1) = (word_of_nat ?M :: u64)"
  proof (cases "?es = []")
    case True
    then have "?M = n" using k a(4) by (auto simp: max_def)
    then show ?thesis using True by simp
  qed simp
  moreover have "\<not> (word_of_nat n :: u64) < word_of_nat k" using k(1) small by (simp add: word_of_nat_less64)
  ultimately have "\<exists>u. append_batch observed r (word_of_nat n) s = (u, Inr (OkResponse (word_of_nat ?M) e)) \<and> rp_log u = t"
    using t' durable a(3) place_history[OF H k(2,1) a(4), of crc]
    by (simp add: append_batch_def bind_log_get r Let_def framed_def comp_def)
       (auto simp: act_then_def act_bind_def on_log_def tell_def act_ret_def act_modify_def log_get_def act_get_def)
  then obtain u where "append_batch observed r (word_of_nat n) s = (u, Inr (OkResponse (word_of_nat ?M) e))" "rp_log u = t" by blast
  then show ?thesis
    using t(2) durable within_epoch[OF within_write(3) t'] a(1,3) take_extend[of n H k m]
    by (intro exI[of _ u] exI[of _ "spec_op (AppendEntries ?es) a"] exI[of _ rss']) simp
qed

text \<open>
  What an append of epoch \<open>e\<close> meets: a log that holds a prefix of the history under its own epoch, or
  one left by an earlier owner that agrees with the history up to where the batch starts.
\<close>

definition agrees :: "epoch \<Rightarrow> nat \<Rightarrow> wal_entry list \<Rightarrow> partition_log \<Rightarrow> abstract_log \<Rightarrow> bool" where
  "agrees e k H s a \<longleftrightarrow> pl_durable s = last_of a \<and>
     (if pl_epoch s = e then \<exists>n\<le>length H. al_entries a = take n H
      else pl_epoch s < e \<and> pl_applied_through s \<le> word_of_nat k
        \<and> (\<exists>n. n \<le> length H \<and> n = min k (unat (pl_durable s)) \<and> filter (\<lambda>x. we_lamport x \<le> word_of_nat k) (al_entries a) = take n H))"

lemma met_entries:
  assumes H: "contiguous H" and ag: "agrees e k H s a" and k: "k \<le> length H"
  shows "\<exists>n\<le>length H. al_entries (met e (word_of_nat k) s a) = take n H
    \<and> (if pl_epoch s < e then min (word_of_nat k) (pl_durable s) else pl_durable s) = word_of_nat n"
proof (cases "pl_epoch s = e")
  case True
  then show ?thesis using ag last_lamport_history[OF H] by (auto simp: agrees_def met_def last_of_def)
next
  case False
  have k64: "k < 2 ^ 64" using H k by (auto simp: contiguous_def)
  have "min (word_of_nat k) (pl_durable s) = word_of_nat (min k (unat (pl_durable s)))"
    using k64 by (auto simp: min_def word_le_nat_alt unat_of_nat)
  then show ?thesis using False ag by (auto simp: agrees_def met_def)
qed

lemma append_follows:
  assumes "refines crc fenced (rp_log s) a rss" and "owner_history p e H" and "agrees e k H (rp_log s) a"
    and "pl_next_seq (rp_log s) \<noteq> -1" and "ar_partition r = p" and "ar_epoch r = e" and "ar_prev_lamport r = word_of_nat k"
    and "ar_entries r = map (framed crc) (take m (drop k H))" and "k + m \<le> length H"
  shows "\<exists>n\<le>length H. \<exists>t a' rss'.
      word_of_nat n = (if pl_epoch (rp_log s) = e then pl_durable (rp_log s) else min (word_of_nat k) (pl_durable (rp_log s)))
    \<and> refines crc fenced (rp_log t) a' rss' \<and> agrees e k' H (rp_log t) a' \<and> pl_epoch (rp_log t) = e
    \<and> (if k \<le> n
       then replica_append crc observed None r s = (t, Inr (OkResponse (word_of_nat (max n (k + m))) e))
         \<and> al_entries a' = take (max n (k + m)) H
       else replica_append crc observed None r s = (t, Inr (GapResponse (word_of_nat n) e)) \<and> al_entries a' = take n H)"
proof -
  note H = assms(2) and ag = assms(3)
  have H': "contiguous H" using H by (simp add: owner_history_def)
  have le: "pl_epoch (rp_log s) \<le> e" using ag by (auto simp: agrees_def split: if_splits)
  obtain n where n: "n \<le> length H" "al_entries (met e (word_of_nat k) (rp_log s) a) = take n H"
    "(if pl_epoch (rp_log s) < e then min (word_of_nat k) (pl_durable (rp_log s)) else pl_durable (rp_log s)) = word_of_nat n"
    using met_entries[OF H' ag] assms(9) by auto
  obtain u rss1 where u: "meet_epoch crc observed p e (word_of_nat k) s = (u, Inr ())"
    "refines crc fenced (rp_log u) (met e (word_of_nat k) (rp_log s) a) rss1"
    "pl_next_seq (rp_log u) = pl_next_seq (rp_log s)" "pl_epoch (rp_log u) = e" "pl_durable (rp_log u) = word_of_nat n"
    using meet_refines[OF assms(1) le, of "word_of_nat k" observed p] ag n(3) by (auto simp: agrees_def split: if_splits)
  have room: "pl_next_seq (rp_log u) \<noteq> -1" using u(3) assms(4) by simp
  have small: "k < 2 ^ 64" "n < 2 ^ 64" using assms(9) n(1) H' by (auto simp: contiguous_def)
  have at: "word_of_nat n = (if pl_epoch (rp_log s) = e then pl_durable (rp_log s) else min (word_of_nat k) (pl_durable (rp_log s)))"
    using n(3) le by (auto split: if_splits)
  have reach: "reach crc None r u = (u, Inr (word_of_nat n))"
    by (simp add: reach_def bind_log_get u(5) close_gap_def) (simp add: act_bind_def act_ret_def)
  have app: "replica_append crc observed None r s = append_batch observed r (word_of_nat n) u"
    using u(1) reach assms(5-7) by (simp add: replica_append_def act_then_def act_bind_def)
  have again: "agrees e k' H l b" if "al_entries b = take j H" "j \<le> length H" "pl_durable l = word_of_nat j" "pl_epoch l = e" for l b j
    using that last_lamport_history[OF H'] by (auto simp: agrees_def last_of_def)
  show ?thesis
  proof (cases "k \<le> n")
    case True
    obtain t a' rss' where "append_batch observed r (word_of_nat n) u = (t, Inr (OkResponse (word_of_nat (max n (k + m))) e))"
      "refines crc fenced (rp_log t) a' rss'" "al_entries a' = take (max n (k + m)) H"
      "pl_durable (rp_log t) = word_of_nat (max n (k + m))" "pl_epoch (rp_log t) = e"
      using batch_refines[OF u(2) H room n(2) u(5,4) n(1) assms(5,7,8) True assms(9), of observed] by blast
    then show ?thesis using True app again[of a' "max n (k + m)"] n(1) assms(9) at
      by (intro exI[of _ n] exI[of _ t] exI[of _ a'] exI[of _ rss'] conjI) auto
  next
    case False
    then have "(word_of_nat n :: u64) < word_of_nat k" using small by (simp add: word_of_nat_less64)
    then have "append_batch observed r (word_of_nat n) u = (u, Inr (GapResponse (word_of_nat n) e))"
      by (simp add: append_batch_def bind_log_get assms(7) u(4) act_ret_def)
    then show ?thesis using False app u n again[OF n(2,1) u(5,4)] at
      by (intro exI[of _ n] exI[of _ u] exI[of _ "met e (word_of_nat k) (rp_log s) a"] exI[of _ rss1] conjI) auto
  qed
qed

section \<open>Following, with a hydrator\<close>

text \<open>
  A log that stands at entry \<open>j\<close> of a history: what it keeps above its checkpoint or its last hydration is
  what the history has there, and it reaches to \<open>j\<close>.
\<close>

definition follows :: "(bytes \<Rightarrow> u32) \<Rightarrow> wal_entry list \<Rightarrow> nat \<Rightarrow> partition_log \<Rightarrow> bool" where
  "follows crc H j l \<longleftrightarrow> j \<le> length H \<and> pl_durable l = word_of_nat j
     \<and> pl_hydrated_through l \<le> pl_applied_through l \<and> pl_applied_through l \<le> pl_durable l
     \<and> (\<exists>rss. log_rep crc l rss
        \<and> unapplied (pl_applied_through l) (entries_of (concat rss)) = unapplied (pl_applied_through l) (take j H))"

lemma unapplied_simps: "unapplied a (xs @ ys) = unapplied a xs @ unapplied a ys" "unapplied a [] = []"
  by (simp_all add: unapplied_def)

lemma unapplied_filter: "unapplied a (filter P xs) = filter P (unapplied a xs)"
  by (simp add: unapplied_def conj_commute)

text \<open>What an append of epoch \<open>e\<close> that starts after \<open>k\<close> may find: a log of its own history, or one of an earlier owner's.\<close>

definition may_follow :: "(bytes \<Rightarrow> u32) \<Rightarrow> epoch \<Rightarrow> nat \<Rightarrow> wal_entry list \<Rightarrow> wal_entry list \<Rightarrow> nat \<Rightarrow> partition_log \<Rightarrow> bool" where
  "may_follow crc e k H D j l \<longleftrightarrow>
     (if pl_epoch l = e then follows crc H j l
      else pl_epoch l < e \<and> contiguous D \<and> follows crc D j l \<and> pl_applied_through l \<le> word_of_nat k
        \<and> unapplied (pl_applied_through l) (take (min j k) D) = unapplied (pl_applied_through l) (take (min j k) H))"

lemma cut_follows:
  assumes D: "contiguous D" and l: "follows crc D j l" and low: "pl_applied_through l \<le> word_of_nat k"
    and k: "k \<le> length H" "k < 2 ^ 64"
    and same: "unapplied (pl_applied_through l) (take (min j k) D) = unapplied (pl_applied_through l) (take (min j k) H)"
  shows "\<exists>t. truncate_above crc (word_of_nat k) l = (t, Inr ()) \<and> follows crc H (min j k) t
    \<and> pl_epoch t = pl_epoch l \<and> pl_next_seq t = pl_next_seq l"
proof -
  obtain rss where rep: "log_rep crc l rss"
    and un: "unapplied (pl_applied_through l) (entries_of (concat rss)) = unapplied (pl_applied_through l) (take j D)"
    using l by (auto simp: follows_def)
  have j: "j \<le> length D" "pl_durable l = word_of_nat j" "j < 2 ^ 64" using l D by (auto simp: follows_def contiguous_def)
  obtain t rss' where t: "truncate_above crc (word_of_nat k) l = (t, Inr ())" "log_rep crc t rss'"
      "entries_of (concat rss') = filter (\<lambda>e. we_lamport e \<le> word_of_nat k) (entries_of (concat rss))"
      "log_frame l t" "pl_durable t \<le> pl_durable l" "min (word_of_nat k) (pl_durable l) \<le> pl_durable t"
      "(\<exists>e\<in>set (entries_of (concat rss)). word_of_nat k < we_lamport e) \<longrightarrow> pl_durable t = max (word_of_nat k) (pl_hydrated_through l)"
    using truncate_above_ok[OF rep, of "word_of_nat k"] by blast
  have "pl_durable t = word_of_nat (min j k)"
  proof (cases "j \<le> k")
    case True
    then have "pl_durable l \<le> word_of_nat k" using j k by (simp add: word_of_nat_le64)
    then have "pl_durable t = pl_durable l" using t(5,6) by (simp add: min_absorb2)
    then show ?thesis using True j by (simp add: min_def)
  next
    case False
    then obtain i where i: "j = Suc i" by (cases j) auto
    have "D ! i \<in> set (take j D)" using j(1) i by (auto simp: in_set_conv_nth intro: exI[of _ i])
    moreover have above: "word_of_nat k < we_lamport (D ! i)"
      using False i j k by (simp add: contiguous_lamport[OF D] word_of_nat_less64 del: of_nat_Suc)
    ultimately have "D ! i \<in> set (unapplied (pl_applied_through l) (take j D))"
      using low by (auto simp: unapplied_def)
    then have "D ! i \<in> set (entries_of (concat rss))" unfolding un[symmetric] by (simp add: unapplied_def)
    moreover have "pl_hydrated_through l \<le> word_of_nat k" using l low by (auto simp: follows_def)
    ultimately show ?thesis using t(7) above False by (auto simp: max_def min_def)
  qed
  moreover have "unapplied (pl_applied_through l) (entries_of (concat rss')) = unapplied (pl_applied_through l) (take (min j k) H)"
    unfolding t(3) unapplied_filter un same[symmetric] by (simp add: filter_history[OF D k(2), symmetric] unapplied_filter)
  moreover have "pl_applied_through l \<le> word_of_nat (min j k)" using l low j by (auto simp: min_def follows_def)
  ultimately show ?thesis
    using t(1,2,4) l k within_seq[OF seq_truncate t(1)] by (auto simp: follows_def log_frame_def)
qed

lemma meet_follows:
  assumes ok: "may_follow crc e k H D j (rp_log s)" and k: "k \<le> length H" "k < 2 ^ 64"
  shows "\<exists>t. meet_epoch crc observed p e (word_of_nat k) s = (t, Inr ())
    \<and> follows crc H (if pl_epoch (rp_log s) = e then j else min j k) (rp_log t)
    \<and> pl_epoch (rp_log t) = e \<and> pl_next_seq (rp_log t) = pl_next_seq (rp_log s)"
proof (cases "pl_epoch (rp_log s) = e")
  case True
  then show ?thesis using ok by (intro exI[of _ s]) (auto simp: may_follow_def meet_epoch_def bind_log_get act_ret_def)
next
  case False
  then have old: "pl_epoch (rp_log s) < e" "contiguous D" "follows crc D j (rp_log s)" "pl_applied_through (rp_log s) \<le> word_of_nat k"
    "unapplied (pl_applied_through (rp_log s)) (take (min j k) D) = unapplied (pl_applied_through (rp_log s)) (take (min j k) H)"
    using ok by (auto simp: may_follow_def)
  obtain rss where rep: "log_rep crc (rp_log s) rss"
    "unapplied (pl_applied_through (rp_log s)) (entries_of (concat rss)) = unapplied (pl_applied_through (rp_log s)) (take j D)"
    using old(3) by (auto simp: follows_def)
  obtain u rss' where u: "record_fence crc e (rp_log s) = (u, Inr ())" "log_rep crc u rss'"
    "concat rss' = concat rss @ (if e \<le> pl_epoch (rp_log s) then [] else [FenceRecord e])" "pl_epoch u = max (pl_epoch (rp_log s)) e"
    "pl_durable u = pl_durable (rp_log s)" "pl_applied_through u = pl_applied_through (rp_log s)"
    "pl_hydrated_through u = pl_hydrated_through (rp_log s)" "pl_next_seq u = pl_next_seq (rp_log s)"
    using record_fence_ok[OF rep(1), of e] by blast
  have "entries_of (concat rss') = entries_of (concat rss)" using u(3) by simp
  then have "follows crc D j u" using u rep(2) old(3) by (auto simp: follows_def)
  then obtain v where v: "truncate_above crc (word_of_nat k) u = (v, Inr ())" "follows crc H (min j k) v"
    "pl_epoch v = pl_epoch u" "pl_next_seq v = pl_next_seq u"
    using cut_follows[OF old(2) _ _ k] old(4,5) u(6) by metis
  have "\<exists>t. meet_epoch crc observed p e (word_of_nat k) s = (t, Inr ()) \<and> rp_log t = v"
    using old(1) u(1) v(1) not_less_iff_gr_or_eq[of e "pl_epoch (rp_log s)"]
    by (auto simp: meet_epoch_def bind_log_get)
       (simp_all add: act_then_def act_bind_def log_get_def on_log_def tell_def act_get_def act_ret_def act_modify_def)
  then show ?thesis using v u(4,8) False old(1) by (auto simp: max_def)
qed

text \<open>Adopting a manifest that reaches further into the history than the log does.\<close>

lemma hydrate_follows:
  assumes H: "contiguous H" and l: "follows crc H n l" and further: "pl_durable l < through" "through \<le> word_of_nat (length H)"
  shows "follows crc H (unat through) (fst (hydrate through l))"
proof -
  obtain rss where rep: "log_rep crc l rss" using l by (auto simp: follows_def)
  have "we_lamport x \<le> through" if "x \<in> set (entries_of (concat rss))" for x
    using rises_entries_le[OF log_repD(7)[OF rep] that] log_repD(8)[OF rep] further(1) by (meson le_less_trans less_imp_le order_trans)
  then have "unapplied through (entries_of (concat rss)) = []" by (auto simp: unapplied_def filter_empty_conv not_less)
  moreover have len: "unat through \<le> length H"
    using further(2) H by (simp add: word_le_nat_alt unat_of_nat contiguous_def)
  moreover have "unapplied through (take (unat through) H) = []"
  proof -
    have small: "unat through < 2 ^ 64" using unsigned_less[of through] by simp
    have "we_lamport x \<le> through" if x: "x \<in> set (take (unat through) H)" for x
    proof -
      have "x \<in> set (filter (\<lambda>x. we_lamport x \<le> word_of_nat (unat through)) (take (unat through) H))"
        using x by (simp only: filter_history[OF H small]) simp
      then show ?thesis by simp
    qed
    then show ?thesis by (auto simp: unapplied_def filter_empty_conv not_less)
  qed
  moreover have ge: "\<not> through \<le> pl_durable l" "pl_applied_through l \<le> through" "pl_hydrated_through l \<le> through"
    using further(1) l by (auto simp: follows_def)
  moreover have "log_rep crc (fst (hydrate through l)) rss" "pl_durable (fst (hydrate through l)) = through"
    using hydrate_ok[OF rep, of through] further(1) by (simp_all add: max_absorb2 less_imp_le)
  moreover have "pl_applied_through (fst (hydrate through l)) = through" "pl_hydrated_through (fst (hydrate through l)) = through"
    using ge by (simp_all add: hydrate_def max_def)
  ultimately show ?thesis by (auto simp: follows_def)
qed

definition hydrated_to :: "hydration option \<Rightarrow> nat \<Rightarrow> nat" where
  "hydrated_to h n = (case h of None \<Rightarrow> n | Some found \<Rightarrow> max n (unat (hy_through found)))"

definition deposed_by :: "hydration option \<Rightarrow> epoch \<Rightarrow> epoch option" where
  "deposed_by h e = (case h of None \<Rightarrow> None | Some found \<Rightarrow> if e < hy_epoch found then Some (hy_epoch found) else None)"

text \<open>A manifest published at an epoch up to the owner's covers only entries of the owner's history.\<close>

definition publishes_history :: "hydration option \<Rightarrow> epoch \<Rightarrow> wal_entry list \<Rightarrow> bool" where
  "publishes_history h e H \<longleftrightarrow>
     (case h of None \<Rightarrow> True | Some found \<Rightarrow> hy_epoch found \<le> e \<longrightarrow> hy_through found \<le> word_of_nat (length H))"

lemma close_gap_follows:
  assumes H: "contiguous H" and l: "follows crc H n (rp_log s)" and e: "pl_epoch (rp_log s) = e"
    and h: "publishes_history h e H" and not: "deposed_by h e = None"
  shows "\<exists>t. close_gap crc h e (word_of_nat n) s = (t, Inr (ClosedTo (word_of_nat (hydrated_to h n))))
    \<and> follows crc H (hydrated_to h n) (rp_log t) \<and> pl_epoch (rp_log t) = e \<and> pl_next_seq (rp_log t) = pl_next_seq (rp_log s)"
proof (cases h)
  case None
  then show ?thesis using l e by (intro exI[of _ s]) (simp add: close_gap_def hydrated_to_def act_ret_def)
next
  case (Some found)
  have d: "pl_durable (rp_log s) = word_of_nat n" "n < 2 ^ 64" using l H by (auto simp: follows_def contiguous_def)
  have fe: "hy_epoch found \<le> e" "\<not> e < hy_epoch found" using not Some by (auto simp: deposed_by_def not_less split: if_splits)
  show ?thesis
  proof (cases "word_of_nat n < hy_through found")
    case False
    then have "unat (hy_through found) \<le> n" using d(2) by (simp add: not_less word_le_nat_alt unat_of_nat)
    then have "hydrated_to h n = n" by (simp add: hydrated_to_def Some max_def)
    then show ?thesis using False l e fe d
      by (intro exI[of _ s]) (simp add: close_gap_def Some act_then_def act_bind_def act_ret_def log_get_def act_get_def)
  next
    case True
    let ?l = "fst (hydrate (hy_through found) (rp_log s))"
    have to: "hydrated_to h n = unat (hy_through found)"
      using True d(2) by (simp add: hydrated_to_def Some max_def word_less_nat_alt unat_of_nat)
    have "follows crc H (unat (hy_through found)) ?l"
      using hydrate_follows[OF H l] True d h fe by (simp add: publishes_history_def Some)
    moreover have "record_fence crc (hy_epoch found) ?l = (?l, Inr ())"
      using e fe(1) by (simp add: record_fence_def hydrate_def act_bind_def act_get_def act_ret_def)
    moreover have "pl_epoch ?l = e" "pl_next_seq ?l = pl_next_seq (rp_log s)" using e by (simp_all add: hydrate_def)
    moreover have "pl_durable ?l = hy_through found" using True d by (auto simp: hydrate_def)
    ultimately show ?thesis using True fe to
      by (intro exI[of _ "s\<lparr>rp_log := ?l\<rparr>"])
        (simp add: close_gap_def Some act_then_def act_bind_def act_ret_def log_get_def act_get_def act_modify_def on_log_def)
  qed
qed

text \<open>A manifest of a later epoch: the sender is told so, and what the manifest covers is adopted with its fence.\<close>

lemma close_gap_deposed:
  assumes H: "contiguous H" and l: "follows crc H n (rp_log s)" and e: "pl_epoch (rp_log s) = e" and dep: "deposed_by h e = Some x"
  shows "\<exists>t. close_gap crc h e (word_of_nat n) s = (t, Inr (SenderIsDeposed x))
    \<and> (if hydrated_to h n = n then rp_log t = rp_log s
       else pl_epoch (rp_log t) = x \<and> pl_durable (rp_log t) = word_of_nat (hydrated_to h n))"
proof -
  obtain found where found: "h = Some found" "e < hy_epoch found" "x = hy_epoch found"
    using dep by (auto simp: deposed_by_def split: option.splits if_splits)
  have d: "pl_durable (rp_log s) = word_of_nat n" "n < 2 ^ 64" using l H by (auto simp: follows_def contiguous_def)
  show ?thesis
  proof (cases "word_of_nat n < hy_through found")
    case False
    then have "unat (hy_through found) \<le> n" using d(2) by (simp add: not_less word_le_nat_alt unat_of_nat)
    then have "hydrated_to h n = n" by (simp add: hydrated_to_def found max_def)
    then show ?thesis using False found
      by (intro exI[of _ s]) (simp add: close_gap_def act_then_def act_bind_def act_ret_def)
  next
    case True
    let ?l = "fst (hydrate (hy_through found) (rp_log s))"
    have to: "hydrated_to h n = unat (hy_through found)" "n < unat (hy_through found)"
      using True d(2) by (simp_all add: hydrated_to_def found max_def word_less_nat_alt unat_of_nat)
    obtain rss where "log_rep crc (rp_log s) rss" using l by (auto simp: follows_def)
    then have "log_rep crc ?l rss" using hydrate_ok by blast
    from record_fence_ok[OF this, of "hy_epoch found"] obtain u where
      "record_fence crc (hy_epoch found) ?l = (u, Inr ())" "pl_epoch u = max (pl_epoch ?l) (hy_epoch found)" "pl_durable u = pl_durable ?l"
      by blast
    moreover have "pl_epoch ?l = e" "pl_durable ?l = hy_through found" using e True d by (auto simp: hydrate_def)
    ultimately show ?thesis using True found to
      by (intro exI[of _ "s\<lparr>rp_log := u\<rparr>"])
        (simp add: close_gap_def act_then_def act_bind_def act_ret_def act_modify_def on_log_def max_absorb2 less_imp_le)
  qed
qed

lemma batch_follows:
  assumes l: "follows crc H n (rp_log s)" and H: "owner_history p e H" and room: "pl_next_seq (rp_log s) \<noteq> -1"
    and e: "pl_epoch (rp_log s) = e"
    and r: "ar_partition r = p" "ar_prev_lamport r = word_of_nat k" "ar_entries r = map (framed crc) (take m (drop k H))"
    and k: "k \<le> n" "k + m \<le> length H"
  shows "\<exists>t. append_batch observed r (word_of_nat n) s = (t, Inr (OkResponse (word_of_nat (max n (k + m))) e))
    \<and> follows crc H (max n (k + m)) (rp_log t) \<and> pl_epoch (rp_log t) = e"
proof -
  let ?es = "take (k + m - n) (drop n H)" and ?M = "max n (k + m)"
  have H': "contiguous H" using H by (simp add: owner_history_def)
  have n: "n \<le> length H" "pl_durable (rp_log s) = word_of_nat n" using l by (simp_all add: follows_def)
  obtain rss where rss: "log_rep crc (rp_log s) rss"
    "unapplied (pl_applied_through (rp_log s)) (entries_of (concat rss)) = unapplied (pl_applied_through (rp_log s)) (take n H)"
    using l by (auto simp: follows_def)
  have small: "k < 2 ^ 64" "n < 2 ^ 64" "?M < 2 ^ 64" using k n H' by (auto simp: contiguous_def)
  have up: "rises (word_of_nat n) (map EntryRecord ?es)" "last_lamport (map EntryRecord ?es) (word_of_nat n) = word_of_nat ?M"
    using rises_history[OF H', of n "k + m - n"] k n by (auto simp: max_def)
  have in_H: "x \<in> set ?es \<Longrightarrow> x \<in> set H" for x by (meson in_set_dropD in_set_takeD)
  obtain t rss' where t: "append_frames (map (frame_encode crc \<circ> EntryRecord) ?es) (word_of_nat ?M) (rp_log s) = (t, Inr ())"
    "log_rep crc t rss'" "concat rss' = concat rss @ map EntryRecord ?es" "log_frame (rp_log s) t" "pl_durable t = word_of_nat ?M"
    using append_frames_ok[OF rss(1) room, of ?es] H up e n in_H by (auto simp: owner_history_def list_all_iff)
  have "unapplied (pl_applied_through t) (entries_of (concat rss')) = unapplied (pl_applied_through t) (take ?M H)"
    using t(3,4) rss(2) take_extend[of n H k m, symmetric] by (simp add: log_frame_def unapplied_simps)
  moreover have "(word_of_nat n :: u64) \<le> word_of_nat ?M" using small by (subst word_of_nat_le64) auto
  ultimately have ft: "follows crc H ?M t" using t l n k by (auto simp: follows_def log_frame_def)
  have "(if ?es = [] then word_of_nat n else word_of_nat (Suc ?M) - 1) = (word_of_nat ?M :: u64)"
  proof (cases "?es = []")
    case True
    then have "?M = n" using k n by (auto simp: max_def)
    then show ?thesis using True by simp
  qed simp
  moreover have "\<not> (word_of_nat n :: u64) < word_of_nat k" using k(1) small by (simp add: word_of_nat_less64)
  ultimately have "\<exists>u. append_batch observed r (word_of_nat n) s = (u, Inr (OkResponse (word_of_nat ?M) e)) \<and> rp_log u = t"
    using t(1,5) e place_history[OF H k(2,1) n(1), of crc]
    by (simp add: append_batch_def bind_log_get r Let_def framed_def comp_def)
       (auto simp: act_then_def act_bind_def on_log_def tell_def act_ret_def act_modify_def log_get_def act_get_def)
  then show ?thesis using ft t(4) e by (auto simp: log_frame_def)
qed

text \<open>Where the log stands when the batch is looked at, and the answer it then gets.\<close>

lemma reach_follows:
  assumes H: "contiguous H" and u: "follows crc H n (rp_log u)" "pl_epoch (rp_log u) = e" and h: "publishes_history h e H"
    and r: "ar_epoch r = e" "ar_prev_lamport r = word_of_nat k" and k: "k < 2 ^ 64"
    and heard: "k \<le> n \<or> deposed_by h e = None" and N: "N = (if k \<le> n then n else hydrated_to h n)"
  shows "\<exists>t. reach crc h r u = (t, Inr (word_of_nat N)) \<and> follows crc H N (rp_log t) \<and> pl_epoch (rp_log t) = e
    \<and> pl_next_seq (rp_log t) = pl_next_seq (rp_log u)"
proof -
  have n: "pl_durable (rp_log u) = word_of_nat n" "n < 2 ^ 64" using u(1) H by (auto simp: follows_def contiguous_def)
  have less: "(word_of_nat n :: u64) < word_of_nat k \<longleftrightarrow> n < k" using n k by (simp add: word_of_nat_less64)
  show ?thesis
  proof (cases "k \<le> n")
    case True
    then show ?thesis using u N less n by (intro exI[of _ u]) (simp add: reach_def bind_log_get r act_ret_def)
  next
    case False
    then have dep: "deposed_by h e = None" using heard by simp
    obtain t where "close_gap crc h e (word_of_nat n) u = (t, Inr (ClosedTo (word_of_nat (hydrated_to h n))))"
      "follows crc H (hydrated_to h n) (rp_log t)" "pl_epoch (rp_log t) = e" "pl_next_seq (rp_log t) = pl_next_seq (rp_log u)"
      using close_gap_follows[OF H u h dep] by blast
    then show ?thesis using False N less n
      by (intro exI[of _ t]) (simp add: reach_def bind_log_get r, simp add: act_bind_def act_ret_def)
  qed
qed

lemma reach_deposed:
  assumes H: "contiguous H" and u: "follows crc H n (rp_log u)" "pl_epoch (rp_log u) = e"
    and r: "ar_epoch r = e" "ar_prev_lamport r = word_of_nat k" and k: "k < 2 ^ 64" "n < k" and dep: "deposed_by h e = Some x"
  shows "\<exists>t. reach crc h r u = (t, Inl (StaleEpochResponse x))
    \<and> (if hydrated_to h n = n then follows crc H n (rp_log t)
       else pl_epoch (rp_log t) = x \<and> pl_durable (rp_log t) = word_of_nat (hydrated_to h n))"
proof -
  have n: "pl_durable (rp_log u) = word_of_nat n" "n < 2 ^ 64" using u(1) H by (auto simp: follows_def contiguous_def)
  have less: "(word_of_nat n :: u64) < word_of_nat k" using n k by (simp add: word_of_nat_less64)
  obtain t where t: "close_gap crc h e (word_of_nat n) u = (t, Inr (SenderIsDeposed x))"
    "if hydrated_to h n = n then rp_log t = rp_log u else pl_epoch (rp_log t) = x \<and> pl_durable (rp_log t) = word_of_nat (hydrated_to h n)"
    using close_gap_deposed[OF H u dep] by blast
  have "reach crc h r u = (t, Inl (StaleEpochResponse x))"
    using t(1) less n by (simp add: reach_def bind_log_get r) (simp add: act_bind_def act_fail_def)
  moreover have "if hydrated_to h n = n then follows crc H n (rp_log t)
      else pl_epoch (rp_log t) = x \<and> pl_durable (rp_log t) = word_of_nat (hydrated_to h n)"
    using t(2) u(1) by presburger
  ultimately show ?thesis by blast
qed

lemma batch_answers:
  assumes l: "follows crc H N (rp_log s)" and H: "owner_history p e H" and room: "pl_next_seq (rp_log s) \<noteq> -1"
    and e: "pl_epoch (rp_log s) = e"
    and r: "ar_partition r = p" "ar_prev_lamport r = word_of_nat k" "ar_entries r = map (framed crc) (take m (drop k H))"
    and k: "k + m \<le> length H"
  shows "\<exists>t answer. append_batch observed r (word_of_nat N) s = (t, Inr answer) \<and> pl_epoch (rp_log t) = e
    \<and> (if k \<le> N then answer = OkResponse (word_of_nat (max N (k + m))) e \<and> follows crc H (max N (k + m)) (rp_log t)
       else answer = GapResponse (word_of_nat N) e \<and> follows crc H N (rp_log t))"
proof (cases "k \<le> N")
  case True
  then show ?thesis using batch_follows[OF l H room e r True k, of observed] by auto
next
  case False
  have "N < 2 ^ 64" "k < 2 ^ 64" using l H k by (auto simp: follows_def owner_history_def contiguous_def)
  then have "(word_of_nat N :: u64) < word_of_nat k" using False by (simp add: word_of_nat_less64)
  then have "append_batch observed r (word_of_nat N) s = (s, Inr (GapResponse (word_of_nat N) e))"
    by (simp add: append_batch_def bind_log_get r(2) e act_ret_def)
  then show ?thesis using False l e by (intro exI[of _ s] exI[of _ "GapResponse (word_of_nat N) e"]) simp
qed


definition example_replica :: replica where
  "example_replica = \<lparr>rp_log = example_log 1, rp_events = []\<rparr>"

definition example_append :: "epoch \<Rightarrow> lamport \<Rightarrow> wal_entry list \<Rightarrow> append_request" where
  "example_append e prev es =
     \<lparr>ar_partition = 7, ar_epoch = e, ar_prev_lamport = prev, ar_committed = 0, ar_entries = map (framed no_crc) es\<rparr>"

lemma example_replica_refines:
  "refines no_crc True (rp_log example_replica) abstract_new [[]]" "pl_next_seq (rp_log example_replica) = 2"
  "pl_durable (rp_log example_replica) = 0" "pl_epoch (rp_log example_replica) = 0" "pl_applied_through (rp_log example_replica) = 0"
  using open_fresh[of no_crc 7 1] by (auto simp: example_replica_def example_log_def refines_def abstract_new_def)


section \<open>Refusing a former owner\<close>

text \<open>
  C8. A deposed owner gets no further writes. Once a replica has answered a fence of epoch \<open>e\<close>, then
  after any sequence of messages, whatever the disk and the bucket do, an append or a fence of a lower
  epoch is answered \<open>StaleEpoch\<close> and changes nothing on the replica; and an append that is answered \<open>Ok\<close>
  carries an epoch of at least \<open>e\<close>, which is then the epoch of the replica's log.
\<close>

theorem deposed_owner_is_refused:
  assumes "serve crc h0 (FenceCall f) s0 = (s, OkResponse d e)"
    and "s' = serve_all crc calls s" and "ar_partition r = fr_partition f" and "fr_partition f' = fr_partition f"
  shows "(ar_epoch r < e \<longrightarrow> (\<exists>c. serve crc h (AppendCall r) s' = (s', StaleEpochResponse c) \<and> ar_epoch r < c))
    \<and> (fr_epoch f' < e \<longrightarrow> (\<exists>c. serve crc h (FenceCall f') s' = (s', StaleEpochResponse c) \<and> fr_epoch f' < c))
    \<and> (serve crc h (AppendCall r) s' = (t, OkResponse d' e') \<longrightarrow>
        e \<le> ar_epoch r \<and> e' = ar_epoch r \<and> (\<exists>l. ws_logs t (ar_partition r) = Some l \<and> pl_epoch l = ar_epoch r))"
proof -
  obtain l where l: "ws_logs s' (fr_partition f) = Some l" "e \<le> pl_epoch l"
    using fence_ok_epoch[OF assms(1)] serve_all_rises[of s "fr_partition f"] assms(2) by blast
  show ?thesis
    using stale_append[of s' r l crc h] stale_fence[of s' f' l crc h] append_ok_service[of crc h r s' t d' e'] l assms(3,4)
    by (auto intro: order_less_le_trans)
qed

definition example_service :: wal_service where
  "example_service = service_observe (service_register (example_log 1) service_new)"

lemma deposed_owner_is_refused_witness:
  "\<exists>s c. serve no_crc None (FenceCall \<lparr>fr_partition = 7, fr_epoch = 2, fr_truncate_above = 0\<rparr>) example_service = (s, OkResponse 0 2)
    \<and> serve no_crc None (AppendCall (example_append 1 0 [example_entry 1 1])) s = (s, StaleEpochResponse c)"
proof -
  let ?f = "\<lparr>fr_partition = 7, fr_epoch = 2, fr_truncate_above = 0\<rparr>"
  have "\<exists>s. serve no_crc None (FenceCall ?f) example_service = (s, OkResponse 0 2)"
    unfolding example_service_def fence_steps(1)
    by (simp add: holding_eval service_observe_def service_register_def service_new_def at_partition_def answered_def
        replica_fence_def meet_epoch_def log_get_def on_log_def truncate_above_def)
  then obtain s where s: "serve no_crc None (FenceCall ?f) example_service = (s, OkResponse 0 2)" by blast
  from deposed_owner_is_refused[OF s, where calls = "[]" and r = "example_append 1 0 [example_entry 1 1]" and h = None
      and f' = ?f and s' = s and t = s and d' = 0 and e' = 0]
  show ?thesis using s by (auto simp: serve_all_def example_append_def simp del: serve.simps)
qed

end
