(* ===== verification/Wal_Owner.thy ===== *)
theory Wal_Owner
  imports Wal_Follow
begin

text \<open>
  \<open>orbita-wal/src/owner.rs\<close>: the owner's side of a partition's log. The owner assigns Lamports, writes and syncs
  batches to its own log, sends them to its replicas and moves its committed prefix when enough of them have
  confirmed. Its state is under one mutex that no handler holds across an await, so each definition below is the
  code between two awaits: what a task does with the state it finds. \<open>Wal_Quorum\<close> runs them concurrently.

  A peer call is one request and one answer, \<open>None\<close> where the transport failed or the answer did not decode. Durations
  are natural numbers of nanoseconds. The counters of flushes and the log lines are left out.
\<close>

section \<open>State\<close>

datatype owner_msg =
    LogSays wal_msg
  | QuiescedForHandoff partition_id
  | StillUnflushed partition_id nat
  | EpochNotAbove epoch epoch
  | ReplicasShort partition_id nat nat
  | NoSecondCopy partition_id lamport
  | StatusLeftGap
  | PeerSays replica_msg
  | PeerUnreachable

type_synonym owner_error = "owner_msg error"

definition default_replication_retry_budget :: nat where "default_replication_retry_budget = 2 * 10 ^ 9"
definition replication_retry_initial :: nat where "replication_retry_initial = 25 * 10 ^ 6"
definition replication_retry_max_backoff :: nat where "replication_retry_max_backoff = 250 * 10 ^ 6"

record wal_config =
  wc_partition :: partition_id
  wc_epoch :: epoch
  wc_replicas :: "node_id list"
  wc_durability_acks :: nat
  wc_retry_budget :: nat
  wc_segment_target_bytes :: nat
  wc_hydrated :: hydration

definition wal_config_new :: "partition_id \<Rightarrow> epoch \<Rightarrow> nat \<Rightarrow> wal_config" where
  "wal_config_new p e target =
     \<lparr>wc_partition = p, wc_epoch = e, wc_replicas = [], wc_durability_acks = 1, wc_retry_budget = default_replication_retry_budget,
      wc_segment_target_bytes = target, wc_hydrated = \<lparr>hy_epoch = 0, hy_through = 0\<rparr>\<rparr>"

record beyond_retention =
  br_node :: node_id
  br_replica_durable :: lamport
  br_retained_from :: "lamport option"

datatype replica_catch_up = Unestablished | Following lamport | Stranded beyond_retention

record pending =
  pn_entry :: wal_entry
  pn_frame :: bytes

record batch =
  ba_last :: lamport
  ba_acked :: bool

record owner_state =
  ow_epoch :: epoch
  ow_next_lamport :: lamport
  ow_durable_local :: lamport
  ow_pending :: "pending list"
  ow_inflight :: "batch list"
  ow_replicated :: lamport
  ow_failed_through :: lamport
  ow_acked :: "node_id \<rightharpoonup> lamport"
  ow_quiesced :: bool
  ow_flushing :: bool
  ow_surrendered :: lamport
  ow_catch_up :: "node_id \<rightharpoonup> replica_catch_up"
  ow_fatal :: "owner_error option"

record wal =
  wl_log :: partition_log
  wl_partition :: partition_id
  wl_replicas :: "node_id list"
  wl_durability_acks :: nat
  wl_retry_budget :: nat
  wl_state :: owner_state

type_synonym 'a wal_action = "(wal, owner_error, 'a) action"

definition on_state :: "(owner_state \<Rightarrow> owner_state) \<Rightarrow> wal \<Rightarrow> wal" where
  "on_state f w = w\<lparr>wl_state := f (wl_state w)\<rparr>"

definition log_action :: "'a log_action \<Rightarrow> 'a wal_action" where
  "log_action m w =
     (case m (wl_log w) of
        (l, Inl e) \<Rightarrow> (w\<lparr>wl_log := l\<rparr>, Inl (map_error LogSays e))
      | (l, Inr x) \<Rightarrow> (w\<lparr>wl_log := l\<rparr>, Inr x))"

definition set_fatal :: "owner_error \<Rightarrow> wal \<Rightarrow> wal" where
  "set_fatal e = on_state (\<lambda>st. if ow_fatal st = None then st\<lparr>ow_fatal := Some e\<rparr> else st)"

section \<open>What is known of the replicas\<close>

definition catch_up_status :: "wal \<Rightarrow> (node_id \<times> replica_catch_up) list" where
  "catch_up_status w =
     sort_key fst (map (\<lambda>n. (n, case ow_catch_up (wl_state w) n of None \<Rightarrow> Unestablished | Some s \<Rightarrow> s)) (wl_replicas w))"

definition committed_lamport :: "wal \<Rightarrow> lamport" where
  "committed_lamport w = ow_replicated (wl_state w)"

definition is_behind :: "lamport \<Rightarrow> replica_catch_up \<Rightarrow> bool" where
  "is_behind committed s = (case s of Unestablished \<Rightarrow> 0 < committed | Following through \<Rightarrow> through < committed | Stranded _ \<Rightarrow> False)"

definition replicas_behind :: "wal \<Rightarrow> node_id list" where
  "replicas_behind w = map fst (filter (\<lambda>(_, s). is_behind (committed_lamport w) s) (catch_up_status w))"

definition beyond_retention_of :: "wal \<Rightarrow> beyond_retention list" where
  "beyond_retention_of w = List.map_filter (\<lambda>(_, s). case s of Stranded fallen \<Rightarrow> Some fallen | _ \<Rightarrow> None) (catch_up_status w)"

record replication_lag =
  rl_replicas_behind :: u64
  rl_max_lamports :: u64

definition lag_of :: "lamport \<Rightarrow> replica_catch_up \<Rightarrow> replication_lag \<Rightarrow> replication_lag" where
  "lag_of committed s lag =
     (case (case s of Following through \<Rightarrow> if through < committed then Some through else None | Unestablished \<Rightarrow> Some 0 | Stranded _ \<Rightarrow> None) of
        None \<Rightarrow> lag
      | Some through \<Rightarrow> \<lparr>rl_replicas_behind = rl_replicas_behind lag + 1, rl_max_lamports = max (rl_max_lamports lag) (committed - through)\<rparr>)"

definition replication_lag_of :: "wal \<Rightarrow> replication_lag" where
  "replication_lag_of w =
     (if committed_lamport w = 0 then \<lparr>rl_replicas_behind = 0, rl_max_lamports = 0\<rparr>
      else fold (\<lambda>(_, s). lag_of (committed_lamport w) s) (catch_up_status w) \<lparr>rl_replicas_behind = 0, rl_max_lamports = 0\<rparr>)"

definition acked_through :: "wal \<Rightarrow> node_id \<Rightarrow> lamport" where
  "acked_through w n = (case ow_acked (wl_state w) n of None \<Rightarrow> 0 | Some l \<Rightarrow> l)"

text \<open>One look of \<open>wait_until_acked\<close>: \<open>None\<close> is another wait.\<close>

definition wait_until_acked :: "node_id list \<Rightarrow> lamport \<Rightarrow> wal \<Rightarrow> (owner_error + unit) option" where
  "wait_until_acked nodes l w =
     (case ow_fatal (wl_state w) of
        Some e \<Rightarrow> Some (Inl e)
      | None \<Rightarrow> if \<exists>n\<in>set nodes. acked_through w n < l then None else Some (Inr ()))"

definition record_catch_up :: "node_id \<Rightarrow> replica_catch_up \<Rightarrow> wal \<Rightarrow> wal" where
  "record_catch_up n s =
     on_state (\<lambda>st. st\<lparr>ow_catch_up := (ow_catch_up st)(n \<mapsto>
       (case (ow_catch_up st n, s) of (Some (Following before), Following through) \<Rightarrow> Following (max through before) | (_, s) \<Rightarrow> s))\<rparr>)"

definition record_ack :: "node_id \<Rightarrow> lamport \<Rightarrow> wal \<Rightarrow> wal" where
  "record_ack n through w =
     record_catch_up n (Following through)
       (on_state (\<lambda>st. st\<lparr>ow_acked := (ow_acked st)(n \<mapsto>
          (let slot = (case ow_acked st n of None \<Rightarrow> 0 | Some l \<Rightarrow> l) in if slot < through then through else slot))\<rparr>) w)"

definition note_replica_position :: "node_id \<Rightarrow> lamport \<Rightarrow> wal \<Rightarrow> wal" where
  "note_replica_position n replica_durable w =
     (let retained = pl_retained_from (wl_log w)
      in record_catch_up n
           (if retained \<le> next_counter replica_durable then Following replica_durable
            else Stranded \<lparr>br_node = n, br_replica_durable = replica_durable,
                   br_retained_from = (if retained \<le> pl_durable (wl_log w) then Some retained else None)\<rparr>) w)"

definition owner_set_replicas :: "node_id list \<Rightarrow> wal \<Rightarrow> wal" where
  "owner_set_replicas rs w = w\<lparr>wl_replicas := rs\<rparr>"

section \<open>Opening\<close>

text \<open>
  A transport carries a call to a peer and brings its answer, or loses one of them; it is a parameter, with
  the state of the peers and of the network.
\<close>

type_synonym 'n transport = "node_id \<Rightarrow> peer_request \<Rightarrow> 'n \<Rightarrow> 'n \<times> response option"

fun send_each :: "'n transport \<Rightarrow> peer_request \<Rightarrow> node_id list \<Rightarrow> 'n \<Rightarrow> 'n \<times> response option list" where
  "send_each net c [] s = (s, [])"
| "send_each net c (n # ns) s = (let (s1, r) = net n c s; (s2, rs) = send_each net c ns s1 in (s2, r # rs))"

definition first_stale :: "response option list \<Rightarrow> epoch option" where
  "first_stale rs = (case List.map_filter (\<lambda>r. case r of Some (StaleEpochResponse c) \<Rightarrow> Some c | _ \<Rightarrow> None) rs of [] \<Rightarrow> None | c # _ \<Rightarrow> Some c)"

definition fence_peers :: "'n transport \<Rightarrow> epoch \<Rightarrow> lamport \<Rightarrow> wal \<times> 'n \<Rightarrow> (wal \<times> 'n) \<times> (owner_error + unit)" where
  "fence_peers net e ends_at ws =
     (let (w, s) = ws
      in if wl_replicas w = [] then (ws, Inr ())
         else let (s1, rs) = send_each net (FenceCall \<lparr>fr_partition = wl_partition w, fr_epoch = e, fr_truncate_above = ends_at\<rparr>) (wl_replicas w) s
              in case first_stale rs of
                   Some c \<Rightarrow> let error = StaleEpoch (wl_partition w) e c in ((set_fatal error w, s1), Inl error)
                 | None \<Rightarrow> ((w, s1), Inr ()))"

definition owner_new :: "wal_config \<Rightarrow> partition_log \<Rightarrow> wal" where
  "owner_new cfg l =
     \<lparr>wl_log = l, wl_partition = wc_partition cfg, wl_replicas = wc_replicas cfg, wl_durability_acks = wc_durability_acks cfg,
      wl_retry_budget = wc_retry_budget cfg,
      wl_state = \<lparr>ow_epoch = wc_epoch cfg, ow_next_lamport = pl_durable l, ow_durable_local = pl_durable l, ow_pending = [], ow_inflight = [],
        ow_replicated = pl_durable l, ow_failed_through = 0, ow_acked = Map.empty, ow_quiesced = False, ow_flushing = False, ow_surrendered = 0,
        ow_catch_up = (\<lambda>n. if n \<in> set (wc_replicas cfg) then Some Unestablished else None), ow_fatal = None\<rparr>\<rparr>"

definition wal_open ::
  "(bytes \<Rightarrow> u32) \<Rightarrow> 'n transport \<Rightarrow> wal_config \<Rightarrow> disk \<times> 'n \<Rightarrow> (disk \<times> 'n) \<times> (owner_error + wal)" where
  "wal_open crc net cfg ds =
     (let (d, s) = ds
      in case log_open crc (wc_partition cfg) (wc_segment_target_bytes cfg) d of
           (d1, Inl e) \<Rightarrow> ((d1, s), Inl (map_error LogSays e))
         | (_, Inr (l, _)) \<Rightarrow>
             let seen = max (pl_epoch l) (hy_epoch (wc_hydrated cfg))
             in if wc_epoch cfg < seen then ((pl_disk l, s), Inl (StaleEpoch (wc_partition cfg) (wc_epoch cfg) seen))
                else case record_fence crc (wc_epoch cfg) l of
                       (l1, Inl e) \<Rightarrow> ((pl_disk l1, s), Inl (map_error LogSays e))
                     | (l1, Inr _) \<Rightarrow>
                         let w = owner_new cfg (fst (hydrate (hy_through (wc_hydrated cfg)) l1))
                         in if seen < wc_epoch cfg
                            then (case fence_peers net (wc_epoch cfg) (pl_durable (wl_log w)) (w, s) of
                                    ((w1, s1), Inl e) \<Rightarrow> ((pl_disk (wl_log w1), s1), Inl e)
                                  | ((w1, s1), Inr _) \<Rightarrow> ((pl_disk (wl_log w1), s1), Inr w1))
                            else ((pl_disk (wl_log w), s), Inr w))"

definition promote :: "(bytes \<Rightarrow> u32) \<Rightarrow> 'n transport \<Rightarrow> epoch \<Rightarrow> wal \<times> 'n \<Rightarrow> (wal \<times> 'n) \<times> (owner_error + unit)" where
  "promote crc net e ws =
     (let (w, s) = ws
      in if e \<le> ow_epoch (wl_state w) then (ws, Inl (InvalidArgument (EpochNotAbove e (ow_epoch (wl_state w)))))
         else case log_action (record_fence crc e) w of
                (w1, Inl x) \<Rightarrow> ((w1, s), Inl x)
              | (w1, Inr _) \<Rightarrow>
                  let durable = pl_durable (wl_log w1);
                      w2 = on_state (\<lambda>st. st\<lparr>ow_epoch := e, ow_next_lamport := durable, ow_durable_local := durable, ow_replicated := durable,
                             ow_pending := [], ow_inflight := [], ow_failed_through := 0, ow_acked := Map.empty,
                             ow_catch_up := (\<lambda>n. map_option (\<lambda>_. Unestablished) (ow_catch_up st n)), ow_fatal := None\<rparr>) w1
                  in fence_peers net e durable (w2, s))"

section \<open>Submitting and flushing\<close>

text \<open>\<open>submit\<close> with the \<open>ensure_flusher\<close> that follows it.\<close>

definition ensure_flusher :: "wal \<Rightarrow> wal" where
  "ensure_flusher = on_state (\<lambda>st. if ow_flushing st \<or> ow_fatal st \<noteq> None then st else st\<lparr>ow_flushing := True\<rparr>)"

definition submit :: "(bytes \<Rightarrow> u32) \<Rightarrow> wal_op \<Rightarrow> lamport wal_action" where
  "submit crc op w =
     (let st = wl_state w
      in case ow_fatal st of
           Some e \<Rightarrow> (w, Inl e)
         | None \<Rightarrow>
             if ow_quiesced st then (w, Inl (Unavailable (QuiescedForHandoff (wl_partition w))))
             else
               let l = next_counter (ow_next_lamport st);
                   entry = \<lparr>we_lamport = l, we_epoch = ow_epoch st, we_partition = wl_partition w, we_op = op\<rparr>
               in (ensure_flusher (w\<lparr>wl_state := st\<lparr>ow_next_lamport := l,
                     ow_pending := ow_pending st @ [\<lparr>pn_entry = entry, pn_frame = frame_encode crc (EntryRecord entry)\<rparr>]\<rparr>\<rparr>), Inr l))"

text \<open>
  The flusher task: it takes the queue, writes and syncs what it took, and gives the turn back when nothing has
  arrived meanwhile. When it ends any other way its guard gives the turn back.
\<close>

definition release_turn :: "wal \<Rightarrow> wal" where
  "release_turn = on_state (\<lambda>st. st\<lparr>ow_flushing := False\<rparr>)"

definition flush_take :: "wal \<Rightarrow> wal \<times> pending list" where
  "flush_take w =
     (let st = wl_state w
      in if ow_fatal st \<noteq> None then (release_turn w, [])
         else if ow_pending st = [] then (release_turn w, [])
         else (w\<lparr>wl_state := st\<lparr>ow_pending := []\<rparr>\<rparr>, ow_pending st))"

definition flush_batch :: "pending list \<Rightarrow> wal \<Rightarrow> wal \<times> bool" where
  "flush_batch taken w =
     (let l = we_lamport (pn_entry (last taken))
      in case log_action (append_frames (map pn_frame taken) l) w of
           (w1, Inl e) \<Rightarrow> (set_fatal e w1, False)
         | (w1, Inr _) \<Rightarrow>
             (on_state (\<lambda>st. st\<lparr>ow_durable_local := l, ow_inflight := ow_inflight st @ [\<lparr>ba_last = l, ba_acked = False\<rparr>]\<rparr>) w1, True))"

definition flush_idle :: "wal \<Rightarrow> wal" where
  "flush_idle w = (if ow_pending (wl_state w) = [] then release_turn w else w)"

section \<open>Replicating\<close>

definition batch_request :: "pending list \<Rightarrow> wal \<Rightarrow> append_request" where
  "batch_request taken w =
     \<lparr>ar_partition = wl_partition w, ar_epoch = ow_epoch (wl_state w), ar_prev_lamport = we_lamport (pn_entry (hd taken)) - 1,
      ar_committed = ow_replicated (wl_state w), ar_entries = map (\<lambda>p. (pn_entry p, pn_frame p)) taken\<rparr>"

datatype outcome = Acked | StaleAt epoch | NotAcked

text \<open>What a call makes of the answer to its append; a gap starts a catch-up from where the replica stands.\<close>

definition on_reply :: "node_id \<Rightarrow> append_request \<Rightarrow> response option \<Rightarrow> wal \<Rightarrow> wal \<times> (outcome + lamport)" where
  "on_reply n request reply w =
     (case reply of
        Some (OkResponse durable _) \<Rightarrow> (record_ack n durable w, Inl (if ar_last_lamport request \<le> durable then Acked else NotAcked))
      | Some (StaleEpochResponse c) \<Rightarrow> (w, Inl (StaleAt c))
      | Some (GapResponse durable _) \<Rightarrow> (w, Inr durable)
      | Some (ErrorResponse _) \<Rightarrow> (w, Inl NotAcked)
      | None \<Rightarrow> (w, Inl NotAcked))"

text \<open>The first half of \<open>catch_up\<close>: the entries the replica misses, from this node's own log.\<close>

definition catch_up_request ::
  "(bytes \<Rightarrow> u32) \<Rightarrow> node_id \<Rightarrow> lamport \<Rightarrow> append_request \<Rightarrow> wal \<Rightarrow> wal \<times> append_request option" where
  "catch_up_request crc n from request w =
     (case log_action (entries_after crc from) w of
        (w1, Inl _) \<Rightarrow> (w1, None)
      | (w1, Inr UpToDate) \<Rightarrow> (w1, None)
      | (w1, Inr (BeyondRetention retained)) \<Rightarrow>
          (record_catch_up n (Stranded \<lparr>br_node = n, br_replica_durable = from, br_retained_from = retained\<rparr>) w1, None)
      | (w1, Inr (CaughtUpBy entries)) \<Rightarrow>
          (w1, Some \<lparr>ar_partition = ar_partition request, ar_epoch = ar_epoch request, ar_prev_lamport = from,
             ar_committed = committed_lamport w1,
             ar_entries = map (\<lambda>e. (e, frame_encode crc (EntryRecord e))) (filter (\<lambda>e. we_lamport e \<le> ar_last_lamport request) entries)\<rparr>))"

definition on_catch_up_reply :: "node_id \<Rightarrow> append_request \<Rightarrow> response option \<Rightarrow> wal \<Rightarrow> wal \<times> outcome" where
  "on_catch_up_reply n request reply w =
     (case reply of
        Some (OkResponse durable _) \<Rightarrow> (record_ack n durable w, if ar_last_lamport request \<le> durable then Acked else NotAcked)
      | Some (StaleEpochResponse c) \<Rightarrow> (w, StaleAt c)
      | _ \<Rightarrow> (w, NotAcked))"

definition advance :: "owner_state \<Rightarrow> owner_state" where
  "advance st =
     (if ow_quiesced st then st
      else
        let best = fold (\<lambda>b best. if ba_acked b \<and> best < ba_last b then ba_last b else best) (ow_inflight st) (ow_replicated st);
            replicated = min best (ow_durable_local st)
        in st\<lparr>ow_replicated := replicated, ow_inflight := filter (\<lambda>b. replicated < ba_last b) (ow_inflight st)\<rparr>)"

definition mark_acked :: "lamport \<Rightarrow> owner_state \<Rightarrow> owner_state" where
  "mark_acked l st = st\<lparr>ow_inflight := map (\<lambda>b. if ba_last b = l then b\<lparr>ba_acked := True\<rparr> else b) (ow_inflight st)\<rparr>"

text \<open>The end of \<open>replicate_batch\<close>, and what a straggler's outcome does afterwards.\<close>

definition batch_replicated :: "lamport \<Rightarrow> owner_error + unit \<Rightarrow> wal \<Rightarrow> wal" where
  "batch_replicated l r w =
     (case r of
        Inr _ \<Rightarrow> on_state (\<lambda>st. advance (mark_acked l st)) w
      | Inl (StaleEpoch p got current) \<Rightarrow> set_fatal (StaleEpoch p got current) w
      | Inl _ \<Rightarrow> on_state (\<lambda>st. if ow_failed_through st < l then st\<lparr>ow_failed_through := l\<rparr> else st) w)"

definition record_late_outcome :: "lamport \<Rightarrow> outcome \<Rightarrow> wal \<Rightarrow> wal" where
  "record_late_outcome l out w =
     (case out of
        StaleAt c \<Rightarrow> set_fatal (StaleEpoch (wl_partition w) (ow_epoch (wl_state w)) c) w
      | Acked \<Rightarrow> on_state (\<lambda>st. advance (mark_acked l st)) w
      | NotAcked \<Rightarrow> w)"

text \<open>
  One poll of \<open>replicate_once\<close>: the outcomes that are ready are counted, then the poll decides; \<open>None\<close> is
  another poll. \<open>left\<close> is the number of calls still out.
\<close>

definition count_outcome :: "outcome \<Rightarrow> nat \<times> epoch option \<Rightarrow> nat \<times> epoch option" where
  "count_outcome out t = (case out of Acked \<Rightarrow> (fst t + 1, snd t) | StaleAt c \<Rightarrow> (fst t, Some c) | NotAcked \<Rightarrow> t)"

definition poll_decides :: "append_request \<Rightarrow> nat \<Rightarrow> nat \<times> epoch option \<Rightarrow> nat \<Rightarrow> (owner_error + unit) option" where
  "poll_decides request required t left =
     (case snd t of
        Some c \<Rightarrow> Some (Inl (StaleEpoch (ar_partition request) (ar_epoch request) c))
      | None \<Rightarrow>
          if required \<le> fst t then Some (Inr ())
          else if left = 0 then Some (Inl (Unavailable (ReplicasShort (ar_partition request) (fst t) required)))
          else None)"

definition required_acks :: "wal \<Rightarrow> nat" where
  "required_acks w = min (wl_durability_acks w) (length (wl_replicas w))"

definition any_replica_unestablished :: "wal \<Rightarrow> bool" where
  "any_replica_unestablished w =
     (\<exists>n\<in>set (wl_replicas w). case ow_catch_up (wl_state w) n of Some (Following _) \<Rightarrow> False | Some (Stranded _) \<Rightarrow> False | _ \<Rightarrow> True)"

text \<open>
  The retry loop of \<open>replicate\<close>. The attempts and what the owner knows of its replicas after each are arguments; the result
  is that of the last attempt, with the number of attempts and the time slept between them. The pause
  after attempt \<open>i\<close> is \<open>backoff i\<close>, cut to what is left of the budget.
\<close>

primrec backoff :: "nat \<Rightarrow> nat" where
  "backoff 0 = replication_retry_initial"
| "backoff (Suc i) = min (backoff i * 2) replication_retry_max_backoff"

lemma backoff_bounds: "replication_retry_initial \<le> backoff i \<and> backoff i \<le> replication_retry_max_backoff"
  by (induction i) (auto simp: replication_retry_initial_def replication_retry_max_backoff_def)

lemma backoff_pos [simp]: "0 < backoff i"
  using backoff_bounds[of i] by (auto simp: replication_retry_initial_def)

lemma pause_spends: "spent < budget \<Longrightarrow> budget - (spent + min (backoff i) (budget - spent)) < budget - spent"
  using backoff_pos[of i] by linarith

fun is_stale :: "owner_error \<Rightarrow> bool" where
  "is_stale (StaleEpoch _ _ _) = True"
| "is_stale _ = False"

function replicate_loop ::
  "nat \<Rightarrow> (nat \<Rightarrow> owner_error + unit) \<Rightarrow> (nat \<Rightarrow> bool) \<Rightarrow> nat \<Rightarrow> nat \<Rightarrow> (owner_error + unit) \<times> nat \<times> nat" where
  "replicate_loop budget attempt unestablished i spent =
     (case attempt i of
        Inr _ \<Rightarrow> (Inr (), Suc i, spent)
      | Inl e \<Rightarrow>
          if is_stale e then (Inl e, Suc i, spent)
          else if budget \<le> spent \<or> \<not> unestablished i then (Inl e, Suc i, spent)
          else replicate_loop budget attempt unestablished (Suc i) (spent + min (backoff i) (budget - spent)))"
  by pat_completeness auto

termination by (relation "measure (\<lambda>(budget, _, _, _, spent). budget - spent)") (simp_all add: pause_spends)

declare replicate_loop.simps [simp del]

definition replicate :: "nat \<Rightarrow> (nat \<Rightarrow> owner_error + unit) \<Rightarrow> (nat \<Rightarrow> bool) \<Rightarrow> (owner_error + unit) \<times> nat \<times> nat" where
  "replicate budget attempt unestablished = replicate_loop budget attempt unestablished 0 0"

text \<open>One look of \<open>wait_for\<close>: \<open>None\<close> is another wait.\<close>

definition wait_for :: "lamport \<Rightarrow> wal \<Rightarrow> (owner_error + lamport) option" where
  "wait_for l w =
     (let st = wl_state w
      in if l \<le> ow_replicated st then Some (Inr l)
         else case ow_fatal st of
                Some e \<Rightarrow> Some (Inl e)
              | None \<Rightarrow>
                  if l \<le> ow_failed_through st \<and> (l \<le> ow_durable_local st \<or> ow_quiesced st)
                  then Some (Inl (Indeterminate (NoSecondCopy (wl_partition w) l))) else None)"

section \<open>Catching up, quiescing, asking\<close>

definition call_replica ::
  "(bytes \<Rightarrow> u32) \<Rightarrow> 'n transport \<Rightarrow> node_id \<Rightarrow> append_request \<Rightarrow> wal \<times> 'n \<Rightarrow> (wal \<times> 'n) \<times> outcome" where
  "call_replica crc net n request ws =
     (let (w, s) = ws; (s1, reply) = net n (AppendCall request) s
      in case on_reply n request reply w of
           (w1, Inl out) \<Rightarrow> ((w1, s1), out)
         | (w1, Inr from) \<Rightarrow>
             (case catch_up_request crc n from request w1 of
                (w2, None) \<Rightarrow> ((w2, s1), NotAcked)
              | (w2, Some again) \<Rightarrow>
                  let (s2, reply2) = net n (AppendCall again) s1; (w3, out) = on_catch_up_reply n request reply2 w2
                  in ((w3, s2), out)))"

record catch_up_pass =
  cu_horizon :: lamport
  cu_caught_up :: "node_id list"
  cu_behind :: "node_id list"
  cu_stranded :: "node_id list"

definition push_request :: "wal \<Rightarrow> append_request" where
  "push_request w =
     \<lparr>ar_partition = wl_partition w, ar_epoch = ow_epoch (wl_state w), ar_prev_lamport = committed_lamport w,
      ar_committed = committed_lamport w, ar_entries = []\<rparr>"

fun push_each ::
  "(bytes \<Rightarrow> u32) \<Rightarrow> 'n transport \<Rightarrow> append_request \<Rightarrow> node_id list \<Rightarrow> wal \<times> 'n \<Rightarrow> (wal \<times> 'n) \<times> (owner_error + unit)" where
  "push_each crc net request [] ws = (ws, Inr ())"
| "push_each crc net request (n # ns) ws =
     (case call_replica crc net n request ws of
        ((w, s), StaleAt c) \<Rightarrow>
          let error = StaleEpoch (wl_partition w) (ar_epoch request) c in ((set_fatal error w, s), Inl error)
      | (ws1, _) \<Rightarrow> push_each crc net request ns ws1)"

definition pass_of :: "lamport \<Rightarrow> wal \<Rightarrow> catch_up_pass" where
  "pass_of horizon w =
     (let reached = (\<lambda>s. case s of Following through \<Rightarrow> horizon \<le> through | _ \<Rightarrow> False);
          stranded = (\<lambda>s. case s of Stranded _ \<Rightarrow> True | _ \<Rightarrow> False)
      in \<lparr>cu_horizon = horizon, cu_caught_up = map fst (filter (\<lambda>(_, s). reached s) (catch_up_status w)),
          cu_behind = map fst (filter (\<lambda>(_, s). \<not> reached s \<and> \<not> stranded s) (catch_up_status w)),
          cu_stranded = map fst (filter (\<lambda>(_, s). stranded s) (catch_up_status w))\<rparr>)"

definition catch_up_replicas ::
  "(bytes \<Rightarrow> u32) \<Rightarrow> 'n transport \<Rightarrow> wal \<times> 'n \<Rightarrow> (wal \<times> 'n) \<times> (owner_error + catch_up_pass)" where
  "catch_up_replicas crc net ws =
     (let w = fst ws; horizon = committed_lamport w
      in case ow_fatal (wl_state w) of
           Some e \<Rightarrow> (ws, Inl e)
         | None \<Rightarrow>
             if wl_replicas w = [] then (ws, Inr \<lparr>cu_horizon = horizon, cu_caught_up = [], cu_behind = [], cu_stranded = []\<rparr>)
             else case push_each crc net (push_request w) (wl_replicas w) ws of
                    (ws1, Inl e) \<Rightarrow> (ws1, Inl e)
                  | (ws1, Inr _) \<Rightarrow> (ws1, Inr (pass_of horizon (fst ws1))))"

definition is_complete :: "catch_up_pass \<Rightarrow> bool" where
  "is_complete pass = (cu_behind pass = [])"

text \<open>\<open>quiesce\<close>, one turn of its loop: \<open>None\<close> while a flush is running.\<close>

definition quiesce :: "(bytes \<Rightarrow> u32) \<Rightarrow> wal \<Rightarrow> wal \<times> (owner_error + lamport) option" where
  "quiesce crc w0 =
     (let w = on_state (\<lambda>st. st\<lparr>ow_quiesced := True\<rparr>) w0; st = wl_state w; committed = ow_replicated st; dropped_from = ow_durable_local st
      in if ow_flushing st then (w, None)
         else case ow_fatal st of
                Some e \<Rightarrow> (w, Some (Inl e))
              | None \<Rightarrow>
                  if ow_pending st \<noteq> [] then (w, Some (Inl (Internal (StillUnflushed (wl_partition w) (length (ow_pending st))))))
                  else if dropped_from \<le> committed then (w, Some (Inr dropped_from))
                  else case log_action (truncate_above crc committed) w of
                         (w1, Inl e) \<Rightarrow> (w1, Some (Inl e))
                       | (w1, Inr _) \<Rightarrow>
                           let durable = pl_durable (wl_log w1)
                           in (on_state (\<lambda>st. st\<lparr>ow_durable_local := durable, ow_next_lamport := durable,
                                 ow_failed_through := max (ow_failed_through st) dropped_from, ow_surrendered := max (ow_surrendered st) dropped_from,
                                 ow_inflight := filter (\<lambda>b. ba_last b \<le> durable) (ow_inflight st)\<rparr>) w1, Some (Inr durable)))"

definition status_answer :: "wal \<Rightarrow> response option \<Rightarrow> owner_error + (lamport \<times> epoch)" where
  "status_answer w reply =
     (case reply of
        None \<Rightarrow> Inl (Unavailable PeerUnreachable)
      | Some (OkResponse durable e) \<Rightarrow> Inr (durable, e)
      | Some (StaleEpochResponse c) \<Rightarrow> Inl (StaleEpoch (wl_partition w) (ow_epoch (wl_state w)) c)
      | Some (GapResponse _ _) \<Rightarrow> Inl (Internal StatusLeftGap)
      | Some (ErrorResponse m) \<Rightarrow> Inl (Unavailable (PeerSays m)))"

definition owner_checkpoint :: "(bytes \<Rightarrow> u32) \<Rightarrow> lamport \<Rightarrow> unit wal_action" where
  "owner_checkpoint crc applied_through = log_action (checkpoint crc applied_through)"

section \<open>The retry loop ends\<close>

definition gives_up :: "owner_error + unit \<Rightarrow> bool" where
  "gives_up r \<longleftrightarrow> (case r of Inr _ \<Rightarrow> True | Inl e \<Rightarrow> is_stale e)"

lemma replicate_loop_step:
  "replicate_loop budget attempt unestablished i spent =
     (if gives_up (attempt i) \<or> budget \<le> spent \<or> \<not> unestablished i then (attempt i, Suc i, spent)
      else replicate_loop budget attempt unestablished (Suc i) (spent + min (backoff i) (budget - spent)))"
  by (subst replicate_loop.simps) (auto simp: gives_up_def split: sum.split unit.split)

lemma replicate_loop_ends:
  assumes "replicate_loop budget attempt unestablished i spent = (r, n, slept)" and "spent \<le> budget"
  shows "i < n \<and> r = attempt (n - 1) \<and> spent \<le> slept \<and> slept \<le> budget
    \<and> (\<forall>k. i \<le> k \<longrightarrow> Suc k < n \<longrightarrow> \<not> gives_up (attempt k) \<and> unestablished k)
    \<and> (gives_up r \<or> slept = budget \<or> \<not> unestablished (n - 1))
    \<and> (n - Suc i) * replication_retry_initial < budget - spent + replication_retry_initial"
  using assms
proof (induction "budget - spent" arbitrary: i spent rule: less_induct)
  case less
  show ?case
  proof (cases "gives_up (attempt i) \<or> budget \<le> spent \<or> \<not> unestablished i")
    case True
    then have "r = attempt i" "n = Suc i" "slept = spent" using less.prems replicate_loop_step[of budget attempt unestablished i spent] by auto
    then show ?thesis using True less.prems(2) by (auto simp: replication_retry_initial_def)
  next
    case False
    let ?pause = "min (backoff i) (budget - spent)"
    have pause: "0 < ?pause" "replication_retry_initial \<le> backoff i" using False backoff_bounds[of i] by simp_all
    have run: "replicate_loop budget attempt unestablished (Suc i) (spent + ?pause) = (r, n, slept)"
      using False less.prems(1) replicate_loop_step[of budget attempt unestablished i spent] by simp
    have sub: "budget - (spent + ?pause) < budget - spent" "spent + ?pause \<le> budget" using pause(1) less.prems(2) by linarith+
    note IH = less.hyps[OF sub(1) run sub(2)]
    have "n - Suc i = Suc (n - Suc (Suc i))" using IH by linarith
    then have "(n - Suc i) * replication_retry_initial = replication_retry_initial + (n - Suc (Suc i)) * replication_retry_initial" by simp
    moreover have "(n - Suc (Suc i)) * replication_retry_initial < budget - (spent + ?pause) + replication_retry_initial" using IH by blast
    ultimately have "(n - Suc i) * replication_retry_initial < budget - spent + replication_retry_initial"
    proof (cases "backoff i \<le> budget - spent")
      case False
      then have p: "?pause = budget - spent" by simp
      then have "(n - Suc (Suc i)) * replication_retry_initial < replication_retry_initial" using IH less.prems(2) by simp
      then have "n - Suc (Suc i) = 0" by simp
      then have "(n - Suc i) * replication_retry_initial = replication_retry_initial" using \<open>n - Suc i = Suc (n - Suc (Suc i))\<close> by simp
      then show ?thesis using pause(1) p by linarith
    qed (use pause in linarith)
    moreover have "\<not> gives_up (attempt k) \<and> unestablished k" if "i \<le> k" "Suc k < n" for k
      using IH False that by (cases "k = i") auto
    ultimately show ?thesis using IH by auto
  qed
qed

text \<open>
  C21. The owner's retry loop ends. Whatever the attempts answer and whatever is heard from the replicas meanwhile, the loop
  returns the outcome of its last attempt, after at most one attempt more than the budget has room for pauses of the
  first length; it never sleeps longer than its budget, it retries only attempts that failed for want of
  replicas while some replica had not answered yet, and it gives up before the budget is spent only when every
  replica has answered.
\<close>

theorem replication_retries_end:
  assumes "replicate budget attempt unestablished = (r, n, slept)"
  shows "0 < n \<and> r = attempt (n - 1) \<and> slept \<le> budget \<and> (n - 1) * replication_retry_initial < budget + replication_retry_initial
    \<and> (\<forall>k. Suc k < n \<longrightarrow> \<not> gives_up (attempt k) \<and> unestablished k)
    \<and> (gives_up r \<or> slept = budget \<or> \<not> unestablished (n - 1))"
  using replicate_loop_ends[OF assms[unfolded replicate_def]] by auto

theorem replication_retries_end_witness:
  "replicate (10 ^ 8) (\<lambda>_. Inl (Unavailable PeerUnreachable)) (\<lambda>_. True) = (Inl (Unavailable PeerUnreachable), 4, 10 ^ 8)
    \<and> (4 - 1) * replication_retry_initial < 10 ^ 8 + replication_retry_initial"
proof -
  have run: "replicate (10 ^ 8) (\<lambda>_. Inl (Unavailable PeerUnreachable)) (\<lambda>_. True) = (Inl (Unavailable PeerUnreachable), 4, 10 ^ 8)"
    by (simp add: replicate_def replicate_loop.simps replication_retry_initial_def replication_retry_max_backoff_def)
  show ?thesis using run replication_retries_end[OF run] by simp
qed

end
