(* ===== verification/Wal_Quorum.thy ===== *)
theory Wal_Quorum
  imports Wal_Owner
begin

text \<open>
  The owner and its replicas together: every task of the owner interleaved with the others, a network that delays, repeats
  and loses messages, and other owners with other epochs. What the owner reports as committed is in its own log and
  in the logs of the replicas that make the quorum.
\<close>

section \<open>The owner's log\<close>

text \<open>The log holds entries \<open>i + 1 \<dots> j\<close> of the history.\<close>

definition owner_log :: "(bytes \<Rightarrow> u32) \<Rightarrow> partition_log \<Rightarrow> wal_entry list \<Rightarrow> nat \<Rightarrow> nat \<Rightarrow> bool" where
  "owner_log crc l H i j \<longleftrightarrow> i \<le> j \<and> j \<le> length H \<and> pl_durable l = word_of_nat j
     \<and> (\<exists>rss. log_rep crc l rss \<and> entries_of (concat rss) = drop i (take j H))"

definition seq_room :: "nat \<Rightarrow> partition_log \<Rightarrow> bool" where
  "seq_room n l \<longleftrightarrow> unat (pl_next_seq l) + n + 1 < 2 ^ 64"

lemma seq_room_less: "seq_room n l \<Longrightarrow> m \<le> n \<Longrightarrow> seq_room m l"
  by (simp add: seq_room_def)

lemma seq_room_next: "seq_room n l \<Longrightarrow> pl_next_seq l \<noteq> -1"
  by (auto simp: seq_room_def)

lemma same_seq_room: "within same_seq m \<Longrightarrow> m s = (t, r) \<Longrightarrow> seq_room n t = seq_room n s"
  using within_seq[of m s t r] by (simp add: seq_room_def)

lemma append_seq:
  assumes "append_frames frames l s = (t, r)" and "seq_room (Suc n) s"
  shows "seq_room n t"
proof -
  have roll: "roll u = (v, x) \<Longrightarrow> pl_next_seq v = pl_next_seq u \<or> pl_next_seq v = pl_next_seq u + 1" for u v x
    by (auto simp: roll_def act_defs on_disk_def split: prod.splits sum.splits)
  have "pl_next_seq t = pl_next_seq s \<or> pl_next_seq t = pl_next_seq s + 1"
    using assms(1) roll[of s]
    by (fastforce simp: append_frames_def act_defs on_disk_def split: if_splits prod.splits sum.splits)
  moreover have "unat (pl_next_seq s + 1) \<le> unat (pl_next_seq s) + 1"
    using assms(2) by (simp add: seq_room_def unat_word_ariths)
  ultimately show ?thesis using assms(2) by (auto simp: seq_room_def)
qed

lemma unat_lamport: "contiguous H \<Longrightarrow> n \<le> length H \<Longrightarrow> unat (word_of_nat n :: u64) = n"
  by (simp add: contiguous_def unat_of_nat)

lemma lamport_less: "contiguous H \<Longrightarrow> m \<le> length H \<Longrightarrow> n \<le> length H \<Longrightarrow> (word_of_nat m :: u64) < word_of_nat n \<longleftrightarrow> m < n"
  by (subst word_of_nat_less64) (auto simp: contiguous_def)

lemma lamport_le: "contiguous H \<Longrightarrow> m \<le> length H \<Longrightarrow> n \<le> length H \<Longrightarrow> (word_of_nat m :: u64) \<le> word_of_nat n \<longleftrightarrow> m \<le> n"
  by (subst word_of_nat_le64) (auto simp: contiguous_def)

lemma part_lamport:
  "contiguous H \<Longrightarrow> j \<le> length H \<Longrightarrow> n < j - i \<Longrightarrow> we_lamport (drop i (take j H) ! n) = word_of_nat (Suc (i + n))"
  by (simp add: contiguous_lamport)

lemma filter_above:
  assumes "contiguous H" and "j \<le> length H" and "i \<le> j"
  shows "filter (\<lambda>x. (word_of_nat m :: u64) < we_lamport x) (drop i (take j H)) = drop (max i m) (take j H) \<or> length H < m"
proof (cases "length H < m")
  case False
  have "filter (\<lambda>x. (word_of_nat m :: u64) < we_lamport x) (drop i (take j H)) = drop (max i m) (take j H)"
    using assms(3)
  proof (induction "j - i" arbitrary: i)
    case (Suc d)
    then have i: "i < j" by simp
    then have h: "drop i (take j H) = H ! i # drop (Suc i) (take j H)" using assms(2) by (simp add: Cons_nth_drop_Suc[symmetric])
    have "(word_of_nat m :: u64) < we_lamport (H ! i) \<longleftrightarrow> m < Suc i"
      using lamport_less[OF assms(1), of m "Suc i"] contiguous_lamport[OF assms(1), of i] i assms(2) False by simp
    then show ?case using Suc.hyps(1)[of "Suc i"] Suc.hyps(2) i h
      by (cases "m \<le> i") (auto simp: max_def le_Suc_eq)
  qed simp
  then show ?thesis ..
qed simp

lemma owner_append:
  assumes log: "owner_log crc l H i j" and H: "owner_history p e H" and ep: "pl_epoch l = e" and room: "seq_room (Suc n) l"
    and m: "j + m \<le> length H"
  obtains t where "append_frames (map (frame_encode crc \<circ> EntryRecord) (take m (drop j H))) (word_of_nat (j + m)) l = (t, Inr ())"
    "owner_log crc t H i (j + m)" "log_frame l t" "seq_room n t"
proof -
  let ?es = "take m (drop j H)"
  have H': "contiguous H" using H by (simp add: owner_history_def)
  obtain rss where rss: "log_rep crc l rss" "entries_of (concat rss) = drop i (take j H)" and ij: "i \<le> j" "pl_durable l = word_of_nat j"
    using log by (auto simp: owner_log_def)
  have up: "rises (pl_durable l) (map EntryRecord ?es)" "last_lamport (map EntryRecord ?es) (pl_durable l) = word_of_nat (j + m)"
    using rises_history[OF H' m] ij by simp_all
  have in_H: "x \<in> set ?es \<Longrightarrow> x \<in> set H" for x by (meson in_set_dropD in_set_takeD)
  have fits: "list_all record_fits (map EntryRecord ?es)" "\<forall>x\<in>set ?es. we_epoch x \<le> pl_epoch l"
    using H in_H ep by (auto simp: owner_history_def list_all_iff)
  obtain t rss' where t: "append_frames (map (frame_encode crc \<circ> EntryRecord) ?es) (last_lamport (map EntryRecord ?es) (pl_durable l)) l = (t, Inr ())"
    "log_rep crc t rss'" "concat rss' = concat rss @ map EntryRecord ?es" "log_frame l t" "pl_durable t = last_lamport (map EntryRecord ?es) (pl_durable l)"
    using append_frames_ok[OF rss(1) seq_room_next[OF room] fits(1) up(1) fits(2)] by blast
  have "take (j + m) H = take j H @ ?es" by (simp add: take_add)
  then have "drop i (take j H) @ ?es = drop i (take (j + m) H)" using ij m by simp
  then have "owner_log crc t H i (j + m)" using t(2,3,5) up(2) ij m rss(2) by (auto simp: owner_log_def)
  then show thesis using that[of t] t(1,4) append_seq[OF t(1) room] up(2) by simp
qed

lemma owner_cut:
  assumes log: "owner_log crc l H i j" and H: "contiguous H" and r: "i \<le> r" "r < j" and hyd: "pl_hydrated_through l \<le> word_of_nat r"
  obtains t where "truncate_above crc (word_of_nat r) l = (t, Inr ())" "owner_log crc t H i r" "log_frame l t" "seq_room n t = seq_room n l"
proof -
  obtain rss where rss: "log_rep crc l rss" "entries_of (concat rss) = drop i (take j H)" and ij: "i \<le> j" "j \<le> length H" "pl_durable l = word_of_nat j"
    using log by (auto simp: owner_log_def)
  obtain t rss' where t: "truncate_above crc (word_of_nat r) l = (t, Inr ())" "log_rep crc t rss'"
    "entries_of (concat rss') = filter (\<lambda>e. we_lamport e \<le> word_of_nat r) (entries_of (concat rss))" "log_frame l t"
    "(\<exists>e\<in>set (entries_of (concat rss)). word_of_nat r < we_lamport e) \<longrightarrow> pl_durable t = max (word_of_nat r) (pl_hydrated_through l)"
    using truncate_above_ok[OF rss(1), of "word_of_nat r"] by blast
  have r64: "r < 2 ^ 64" using r ij H by (simp add: contiguous_def)
  have "filter (\<lambda>e. we_lamport e \<le> word_of_nat r) (drop i (take j H)) = drop i (take r H)"
  proof -
    have "take j H = take i H @ drop i (take j H)" using ij append_take_drop_id[of i "take j H"] by (simp add: min_absorb1)
    then have "filter (\<lambda>e. we_lamport e \<le> word_of_nat r) (take j H)
        = filter (\<lambda>e. we_lamport e \<le> word_of_nat r) (take i H) @ filter (\<lambda>e. we_lamport e \<le> word_of_nat r) (drop i (take j H))"
      by (metis filter_append)
    then have "take r H = take i H @ filter (\<lambda>e. we_lamport e \<le> word_of_nat r) (drop i (take j H))"
      using filter_history[OF H r64, of j] filter_history[OF H r64, of i] r ij by (simp add: min_def)
    then have "drop i (take r H) = drop i (take i H @ filter (\<lambda>e. we_lamport e \<le> word_of_nat r) (drop i (take j H)))" by metis
    then show ?thesis using r ij by simp
  qed
  then have es: "entries_of (concat rss') = drop i (take r H)" using t(3) rss(2) by simp
  have "H ! r \<in> set (drop i (take j H))" using r ij by (auto simp: set_conv_nth intro!: exI[of _ "r - i"])
  moreover have "(word_of_nat r :: u64) < we_lamport (H ! r)"
    using contiguous_lamport[OF H, of r] lamport_less[OF H, of r "Suc r"] r ij by simp
  ultimately have "pl_durable t = word_of_nat r" using t(5) rss(2) hyd by (auto simp: max_def)
  then have "owner_log crc t H i r" using t(2) es r ij by (auto simp: owner_log_def)
  then show thesis using that[of t] t(1,4) same_seq_room[OF seq_truncate t(1)] by simp
qed

lemma word_nat_id: "word_of_nat (unat x) = (x :: u64)"
  by simp

lemma owner_drop:
  assumes log: "owner_log crc l H i j" and H: "contiguous H" and k: "k \<le> j" "pl_applied_through l \<le> word_of_nat k"
  obtains t i' where "checkpoint crc (word_of_nat k) l = (t, Inr ())" "owner_log crc t H i' j" "i' \<le> max i k" "i \<le> i'"
    "pl_epoch t = pl_epoch l" "pl_hydrated_through t = pl_hydrated_through l" "pl_partition t = pl_partition l"
    "pl_applied_through t = word_of_nat k"
proof -
  obtain rss where rss: "log_rep crc l rss" "entries_of (concat rss) = drop i (take j H)" and ij: "i \<le> j" "j \<le> length H" "pl_durable l = word_of_nat j"
    using log by (auto simp: owner_log_def)
  have "(word_of_nat k :: u64) \<le> pl_durable l" using lamport_le[OF H, of k j] k ij by simp
  then obtain t rss' gone where t: "checkpoint crc (word_of_nat k) l = (t, Inr ())" "log_rep crc t rss'"
    "concat rss @ [CheckpointRecord (word_of_nat k)] = gone @ concat rss'" "\<forall>e\<in>set (entries_of gone). we_lamport e \<le> word_of_nat k"
    "pl_durable t = pl_durable l" "pl_epoch t = pl_epoch l" "pl_hydrated_through t = pl_hydrated_through l" "pl_partition t = pl_partition l"
    "pl_applied_through t = word_of_nat k"
    using checkpoint_ok[OF rss(1) _ k(2)] by blast
  let ?n = "length (entries_of gone)"
  have es: "drop i (take j H) = entries_of gone @ entries_of (concat rss')" using arg_cong[OF t(3), of entries_of] rss(2) by simp
  have "length (drop i (take j H)) = ?n + length (entries_of (concat rss'))" by (simp only: es length_append)
  then have len: "?n \<le> j - i" using ij by simp
  have "entries_of (concat rss') = drop ?n (drop i (take j H))" by (simp add: es)
  then have "owner_log crc t H (i + ?n) j" using t(2,5) ij len by (auto simp: owner_log_def add.commute)
  moreover have "i + ?n \<le> max i k"
  proof (cases "?n = 0")
    case False
    then have "entries_of gone ! (?n - 1) = drop i (take j H) ! (?n - 1)" by (simp add: es nth_append)
    moreover have "?n - 1 < j - i" using False len by linarith
    ultimately have "we_lamport (entries_of gone ! (?n - 1)) = word_of_nat (i + ?n)" using part_lamport[OF H ij(2), of "?n - 1" i] False by simp
    moreover have "entries_of gone ! (?n - 1) \<in> set (entries_of gone)" using False by simp
    ultimately have "(word_of_nat (i + ?n) :: u64) \<le> word_of_nat k" using t(4) by metis
    moreover have "i + ?n \<le> length H" "k \<le> length H" using k ij len by linarith+
    ultimately show ?thesis using lamport_le[OF H, of "i + ?n" k] by simp
  qed simp
  ultimately show thesis using that[of t "i + ?n"] t by simp
qed

lemma scan_whole:
  assumes rep: "log_rep crc l rss"
  obtains sc where "scan_directory crc (pl_partition l) (pl_disk l) = (pl_disk l, Inr sc)" "ds_all_entries sc = entries_of (concat rss)"
    "ds_durable sc = last_lamport (concat rss) 0"
proof -
  note r = log_repD[OF rep]
  have quiet: "dk_faults (pl_disk l) = []" and bt: "bt_ok (dk_files (pl_disk l))"
    and holds: "holds_records crc (pl_partition l) (dk_files (pl_disk l)) rss"
    using r(1) by (simp_all add: dir_ok_def)
  let ?qs = "map fst (dk_files (pl_disk l))"
  let ?sc = "segment_ends ?qs rss (scan_start ?qs)"
  have "scan_segments crc (pl_partition l) (?qs @ []) (scan_start ?qs) (pl_disk l) = scan_segments crc (pl_partition l) [] ?sc (pl_disk l)"
    by (rule scan_segments_run[OF quiet bt holds _ r(6)]) (use r(7) in \<open>simp_all add: scan_start_def\<close>)
  moreover have f: "ds_all_entries ?sc = entries_of (concat rss)" "ds_durable ?sc = last_lamport (concat rss) 0" "ds_truncated ?sc = None"
    using segment_ends_fields[of ?qs rss "scan_start ?qs"] holds_records_length[OF holds] by (simp_all add: scan_start_def)
  ultimately have "scan_directory crc (pl_partition l) (pl_disk l) = (pl_disk l, Inr ?sc)"
    using quiet by (simp add: scan_directory_def act_bind_def disk_list_def quiet_disk act_ret_def act_then_def)
  then show thesis using that f by blast
qed

text \<open>What is read back for a replica is the rest of the history after where the replica stands.\<close>

lemma owner_entries_after:
  assumes log: "owner_log crc l H i j" and H: "contiguous H"
  shows "\<exists>res. entries_after crc from l = (l, Inr res)
    \<and> (\<forall>es. res = CaughtUpBy es \<longrightarrow> unat from \<le> j \<and> es = drop (unat from) (take j H))"
proof -
  obtain rss where rss: "log_rep crc l rss" "entries_of (concat rss) = drop i (take j H)" and ij: "i \<le> j" "j \<le> length H"
    using log by (auto simp: owner_log_def)
  obtain sc where sc: "scan_directory crc (pl_partition l) (pl_disk l) = (pl_disk l, Inr sc)" "ds_all_entries sc = drop i (take j H)"
    by (rule scan_whole[OF rss(1)]) (use rss(2) in simp)
  have same: "l\<lparr>pl_disk := pl_disk l\<rparr> = l" by simp
  have "unat from \<le> j \<and> e # es = drop (unat from) (take j H)"
    if "filter (\<lambda>e. from < we_lamport e) (drop i (take j H)) = e # es" "we_lamport e = next_counter from" for e es
  proof -
    have "e \<in> set (drop i (take j H))" "from < we_lamport e" using arg_cong[OF that(1), of set] by auto
    then obtain n where n: "n < j - i" "e = drop i (take j H) ! n" using ij by (auto simp: in_set_conv_nth)
    then have "from < word_of_nat (Suc (i + n))" using \<open>from < we_lamport e\<close> part_lamport[OF H ij(2) n(1)] by simp
    then have le: "unat from < Suc (i + n)" using n ij unat_lamport[OF H, of "Suc (i + n)"] by (simp add: word_less_nat_alt)
    have "word_of_nat (Suc (unat from)) = (word_of_nat (Suc (i + n)) :: u64)"
      using that(2) n part_lamport[OF H ij(2) n(1)] by (simp add: next_counter_def add.commute)
    then have "unat from = i + n"
      using unat_lamport[OF H, of "Suc (unat from)"] unat_lamport[OF H, of "Suc (i + n)"] le n ij by simp
    moreover have "filter (\<lambda>x. from < we_lamport x) (drop i (take j H)) = drop (max i (unat from)) (take j H)"
      using filter_above[OF H ij(2,1), of "unat from"] le n(1) ij unfolding word_nat_id by linarith
    ultimately show ?thesis using that(1) n(1) by (simp add: max_def)
  qed
  then show ?thesis
    by (simp add: entries_after_def act_bind_def act_get_def on_disk_def sc same act_ret_def split: list.splits)
qed

section \<open>The cluster\<close>

text \<open>A call to a replica: the request it is about, the one that was sent, and the answer on its way back.\<close>

record call =
  ca_node :: node_id
  ca_request :: append_request
  ca_sent :: append_request
  ca_again :: bool
  ca_reply :: "response option"
  ca_task :: "nat option"

text \<open>
  One run of \<open>replicate_once\<close>. The code counts acknowledgements; the nodes that gave them are kept here, so that the
  count is the length.
\<close>

record task =
  ta_request :: append_request
  ta_required :: nat
  ta_by :: "node_id list"
  ta_stale :: "epoch option"
  ta_result :: "(owner_error + unit) option"

text \<open>
  The owner, the batch its flusher has in hand, the batches whose tasks have not started, the runs of \<open>replicate_once\<close>,
  the calls they wait for, the peers, every request that was ever sent, and the history: the
  entries of all Lamports that were assigned.
\<close>

record quorum_world =
  qw_wal :: wal
  qw_taken :: "pending list"
  qw_spawned :: "pending list list"
  qw_tasks :: "task list"
  qw_calls :: "call list"
  qw_nodes :: "node_id \<rightharpoonup> wal_service"
  qw_sent :: "(node_id \<times> append_request) list"
  qw_history :: "wal_entry list"

datatype quorum_event =
    SubmitOp wal_op
  | TakeQueue
  | WriteBatch
  | SendBatch nat
  | DeliverCall nat
  | Redeliver nat
  | AnswerCall nat
  | DropCall nat
  | DecideTask nat bool
  | PushTo node_id
  | HeardFrom node_id lamport
  | QuiesceOwner
  | DropApplied lamport
  | ReplicaDropApplied node_id lamport
  | OtherOwner node_id "hydration option" peer_request

definition remove_at :: "nat \<Rightarrow> 'a list \<Rightarrow> 'a list" where
  "remove_at i xs = take i xs @ drop (Suc i) xs"

definition calls_of :: "nat \<Rightarrow> quorum_world \<Rightarrow> call list" where
  "calls_of i W = filter (\<lambda>c. ca_task c = Some i) (qw_calls W)"

definition new_call :: "nat option \<Rightarrow> append_request \<Rightarrow> node_id \<Rightarrow> call" where
  "new_call t r n = \<lparr>ca_node = n, ca_request = r, ca_sent = r, ca_again = False, ca_reply = None, ca_task = t\<rparr>"

definition start_task :: "append_request \<Rightarrow> quorum_world \<Rightarrow> quorum_world" where
  "start_task r W =
     (let w = qw_wal W; ns = (if required_acks w = 0 then [] else wl_replicas w)
      in W\<lparr>qw_tasks := qw_tasks W @ [\<lparr>ta_request = r, ta_required = required_acks w, ta_by = [], ta_stale = None, ta_result = None\<rparr>],
           qw_calls := qw_calls W @ map (new_call (Some (length (qw_tasks W))) r) ns, qw_sent := qw_sent W @ map (\<lambda>n. (n, r)) ns\<rparr>)"

definition deliver :: "(bytes \<Rightarrow> u32) \<Rightarrow> node_id \<Rightarrow> append_request \<Rightarrow> quorum_world \<Rightarrow> quorum_world \<times> response option" where
  "deliver crc n r W =
     (case qw_nodes W n of
        None \<Rightarrow> (W, None)
      | Some s \<Rightarrow> (case serve crc None (AppendCall r) s of (s1, reply) \<Rightarrow> (W\<lparr>qw_nodes := (qw_nodes W)(n \<mapsto> s1)\<rparr>, Some reply)))"

definition count_for :: "node_id \<Rightarrow> outcome \<Rightarrow> task \<Rightarrow> task" where
  "count_for n out t = (case out of Acked \<Rightarrow> t\<lparr>ta_by := ta_by t @ [n]\<rparr> | StaleAt c \<Rightarrow> t\<lparr>ta_stale := Some c\<rparr> | NotAcked \<Rightarrow> t)"

definition end_call :: "nat \<Rightarrow> outcome \<Rightarrow> quorum_world \<Rightarrow> quorum_world" where
  "end_call i out W =
     (let c = qw_calls W ! i; w = qw_wal W; W1 = W\<lparr>qw_calls := remove_at i (qw_calls W)\<rparr>
      in case ca_task c of
           None \<Rightarrow>
             (case out of StaleAt e \<Rightarrow> W1\<lparr>qw_wal := set_fatal (StaleEpoch (wl_partition w) (ar_epoch (ca_request c)) e) w\<rparr> | _ \<Rightarrow> W1)
         | Some k \<Rightarrow>
             if ta_result (qw_tasks W ! k) = None then W1\<lparr>qw_tasks := (qw_tasks W)[k := count_for (ca_node c) out (qw_tasks W ! k)]\<rparr>
             else W1\<lparr>qw_wal := record_late_outcome (ar_last_lamport (ta_request (qw_tasks W ! k))) out w\<rparr>)"

definition answer_call :: "(bytes \<Rightarrow> u32) \<Rightarrow> nat \<Rightarrow> response option \<Rightarrow> quorum_world \<Rightarrow> quorum_world" where
  "answer_call crc i reply W =
     (let c = qw_calls W ! i; w = qw_wal W
      in if ca_again c then (case on_catch_up_reply (ca_node c) (ca_request c) reply w of (w1, out) \<Rightarrow> end_call i out (W\<lparr>qw_wal := w1\<rparr>))
         else case on_reply (ca_node c) (ca_request c) reply w of
                (w1, Inl out) \<Rightarrow> end_call i out (W\<lparr>qw_wal := w1\<rparr>)
              | (w1, Inr from) \<Rightarrow>
                  (case catch_up_request crc (ca_node c) from (ca_request c) w1 of
                     (w2, None) \<Rightarrow> end_call i NotAcked (W\<lparr>qw_wal := w2\<rparr>)
                   | (w2, Some r) \<Rightarrow> W\<lparr>qw_wal := w2, qw_calls := (qw_calls W)[i := c\<lparr>ca_sent := r, ca_again := True, ca_reply := None\<rparr>],
                       qw_sent := qw_sent W @ [(ca_node c, r)]\<rparr>))"

text \<open>The end of a poll; a run that failed for want of replicas is either repeated or given up.\<close>

definition decide_task :: "nat \<Rightarrow> bool \<Rightarrow> quorum_world \<Rightarrow> quorum_world" where
  "decide_task k again W =
     (let t = qw_tasks W ! k
      in case poll_decides (ta_request t) (ta_required t) (length (ta_by t), ta_stale t) (length (calls_of k W)) of
           None \<Rightarrow> W
         | Some r \<Rightarrow>
             let W1 = W\<lparr>qw_tasks := (qw_tasks W)[k := t\<lparr>ta_result := Some r\<rparr>]\<rparr>
             in if again \<and> (case r of Inl e \<Rightarrow> \<not> is_stale e | Inr _ \<Rightarrow> False) then start_task (ta_request t) W1
                else W1\<lparr>qw_wal := batch_replicated (ar_last_lamport (ta_request t)) r (qw_wal W)\<rparr>)"

definition replica_drop :: "(bytes \<Rightarrow> u32) \<Rightarrow> partition_id \<Rightarrow> lamport \<Rightarrow> wal_service \<Rightarrow> wal_service" where
  "replica_drop crc p l s =
     (case ws_logs s p of
        None \<Rightarrow> s
      | Some lg \<Rightarrow> if pl_applied_through lg \<le> l \<and> l \<le> pl_durable lg then s\<lparr>ws_logs := (ws_logs s)(p \<mapsto> fst (checkpoint crc l lg))\<rparr> else s)"

fun call_epoch :: "peer_request \<Rightarrow> partition_id \<Rightarrow> epoch option" where
  "call_epoch (AppendCall r) p = (if ar_partition r = p then Some (ar_epoch r) else None)"
| "call_epoch (FenceCall r) p = (if fr_partition r = p then Some (fr_epoch r) else None)"
| "call_epoch (StatusCall _) p = None"

fun quorum_step :: "(bytes \<Rightarrow> u32) \<Rightarrow> quorum_event \<Rightarrow> quorum_world \<Rightarrow> quorum_world" where
  "quorum_step crc (SubmitOp op) W =
     (case submit crc op (qw_wal W) of
        (w, Inl _) \<Rightarrow> W\<lparr>qw_wal := w\<rparr>
      | (w, Inr l) \<Rightarrow> W\<lparr>qw_wal := w, qw_history := qw_history W @
          [\<lparr>we_lamport = l, we_epoch = ow_epoch (wl_state w), we_partition = wl_partition w, we_op = op\<rparr>]\<rparr>)"
| "quorum_step crc TakeQueue W =
     (if ow_flushing (wl_state (qw_wal W)) \<and> qw_taken W = []
      then (case flush_take (qw_wal W) of (w, taken) \<Rightarrow> W\<lparr>qw_wal := w, qw_taken := taken\<rparr>) else W)"
| "quorum_step crc WriteBatch W =
     (if qw_taken W = [] then W
      else case flush_batch (qw_taken W) (qw_wal W) of
             (w, written) \<Rightarrow> W\<lparr>qw_wal := flush_idle w, qw_taken := [],
               qw_spawned := (if written then qw_spawned W @ [qw_taken W] else qw_spawned W)\<rparr>)"
| "quorum_step crc (SendBatch i) W =
     (if i < length (qw_spawned W)
      then start_task (batch_request (qw_spawned W ! i) (qw_wal W)) (W\<lparr>qw_spawned := remove_at i (qw_spawned W)\<rparr>) else W)"
| "quorum_step crc (DeliverCall i) W =
     (if i < length (qw_calls W) \<and> ca_reply (qw_calls W ! i) = None
      then (case deliver crc (ca_node (qw_calls W ! i)) (ca_sent (qw_calls W ! i)) W of
              (W1, reply) \<Rightarrow> W1\<lparr>qw_calls := (qw_calls W)[i := (qw_calls W ! i)\<lparr>ca_reply := reply\<rparr>]\<rparr>) else W)"
| "quorum_step crc (Redeliver i) W =
     (if i < length (qw_sent W) then fst (deliver crc (fst (qw_sent W ! i)) (snd (qw_sent W ! i)) W) else W)"
| "quorum_step crc (AnswerCall i) W =
     (if i < length (qw_calls W) \<and> ca_reply (qw_calls W ! i) \<noteq> None then answer_call crc i (ca_reply (qw_calls W ! i)) W else W)"
| "quorum_step crc (DropCall i) W = (if i < length (qw_calls W) then answer_call crc i None W else W)"
| "quorum_step crc (DecideTask k again) W =
     (if k < length (qw_tasks W) \<and> ta_result (qw_tasks W ! k) = None then decide_task k again W else W)"
| "quorum_step crc (PushTo n) W =
     (if n \<in> set (wl_replicas (qw_wal W)) \<and> ow_fatal (wl_state (qw_wal W)) = None
      then W\<lparr>qw_calls := qw_calls W @ [new_call None (push_request (qw_wal W)) n], qw_sent := qw_sent W @ [(n, push_request (qw_wal W))]\<rparr> else W)"
| "quorum_step crc (HeardFrom n l) W = W\<lparr>qw_wal := note_replica_position n l (qw_wal W)\<rparr>"
| "quorum_step crc QuiesceOwner W = W\<lparr>qw_wal := fst (quiesce crc (qw_wal W))\<rparr>"
| "quorum_step crc (DropApplied l) W =
     (if pl_applied_through (wl_log (qw_wal W)) \<le> l \<and> l \<le> committed_lamport (qw_wal W)
      then W\<lparr>qw_wal := fst (owner_checkpoint crc l (qw_wal W))\<rparr> else W)"
| "quorum_step crc (ReplicaDropApplied n l) W =
     W\<lparr>qw_nodes := (qw_nodes W)(n := map_option (replica_drop crc (wl_partition (qw_wal W)) l) (qw_nodes W n))\<rparr>"
| "quorum_step crc (OtherOwner n h c) W =
     (if call_epoch c (wl_partition (qw_wal W)) = Some (ow_epoch (wl_state (qw_wal W))) then W
      else W\<lparr>qw_nodes := (qw_nodes W)(n := map_option (\<lambda>s. fst (serve crc h c s)) (qw_nodes W n))\<rparr>)"

definition quorum_run :: "(bytes \<Rightarrow> u32) \<Rightarrow> quorum_event list \<Rightarrow> quorum_world \<Rightarrow> quorum_world" where
  "quorum_run crc evs W = fold (quorum_step crc) evs W"

end
