(* ===== verification/Wal_Commit.thy ===== *)
theory Wal_Commit
  imports Wal_Quorum
begin

text \<open>
  The invariant of the owner and its replicas, and what a committed write rests on.
\<close>

section \<open>One replica\<close>

definition node_at :: "(bytes \<Rightarrow> u32) \<Rightarrow> partition_id \<Rightarrow> epoch \<Rightarrow> wal_entry list \<Rightarrow> nat \<Rightarrow> wal_service \<Rightarrow> bool" where
  "node_at crc p e H m s \<longleftrightarrow> m \<le> length H \<and> (\<exists>l fenced a rss. ws_logs s p = Some l \<and> pl_epoch l = e \<and> refines crc fenced l a rss
     \<and> al_entries a = take m H \<and> pl_durable l = word_of_nat m)"

lemma node_atI:
  "refines crc fenced l a rss \<Longrightarrow> ws_logs s p = Some l \<Longrightarrow> pl_epoch l = e \<Longrightarrow> al_entries a = take m H \<Longrightarrow> pl_durable l = word_of_nat m \<Longrightarrow>
     m \<le> length H \<Longrightarrow> node_at crc p e H m s"
  unfolding node_at_def by blast

lemma node_at_log: "ws_logs s' p = ws_logs s p \<Longrightarrow> node_at crc p e H m s' = node_at crc p e H m s"
  by (simp add: node_at_def)

definition deposed_at :: "partition_id \<Rightarrow> epoch \<Rightarrow> wal_service \<Rightarrow> bool" where
  "deposed_at p e s \<longleftrightarrow> (\<exists>l. ws_logs s p = Some l \<and> e < pl_epoch l)"

definition room_at :: "nat \<Rightarrow> partition_id \<Rightarrow> epoch \<Rightarrow> wal_service \<Rightarrow> bool" where
  "room_at b p e s \<longleftrightarrow> (\<forall>l. ws_logs s p = Some l \<longrightarrow> pl_epoch l = e \<longrightarrow> seq_room b l)"

definition sent_ok :: "(bytes \<Rightarrow> u32) \<Rightarrow> partition_id \<Rightarrow> epoch \<Rightarrow> wal_entry list \<Rightarrow> append_request \<Rightarrow> bool" where
  "sent_ok crc p e H r \<longleftrightarrow> ar_partition r = p \<and> ar_epoch r = e
     \<and> (\<exists>k m. k + m \<le> length H \<and> ar_prev_lamport r = word_of_nat k \<and> ar_entries r = map (framed crc) (take m (drop k H)))"

lemma sent_okI:
  "ar_partition r = p \<Longrightarrow> ar_epoch r = e \<Longrightarrow> k + m \<le> length H \<Longrightarrow> ar_prev_lamport r = word_of_nat k \<Longrightarrow>
     ar_entries r = map (framed crc) (take m (drop k H)) \<Longrightarrow> sent_ok crc p e H r"
  by (auto simp: sent_ok_def)

lemma batch_log:
  assumes "append_batch observed r d s = (t, x)"
  shows "rp_log t = rp_log s \<or> (\<exists>fs l y. append_frames fs l (rp_log s) = (rp_log t, y))"
proof -
  have quiet: "(if P then tell observed ev else act_ret ()) w = (rp, y) \<Longrightarrow> rp_log rp = rp_log w \<and> y = Inr ()" for P ev w rp and y :: "response + unit"
    by (auto simp: tell_def act_ret_def act_modify_def split: if_splits)
  show ?thesis
  proof (cases "d < ar_prev_lamport r")
    case False
    show ?thesis
    proof (cases "place (ar_partition r) d (next_counter d) (ar_entries r)")
      case (Inr xa)
      obtain expected acc where xa: "xa = (expected, acc)" by (cases xa)
      define s1 where "s1 = fst ((if map fst acc \<noteq> [] then tell observed (Invalidating (map fst acc)) else act_ret ()) s :: replica \<times> (response + unit))"
      have s1: "(if map fst acc \<noteq> [] then tell observed (Invalidating (map fst acc)) else act_ret ()) s = (s1, Inr () :: response + unit)" "rp_log s1 = rp_log s"
        using quiet[of "map fst acc \<noteq> []" "Invalidating (map fst acc)" s s1] unfolding s1_def by (metis prod.collapse)+
      let ?l = "if map snd acc = [] then d else expected - 1"
      obtain l y where y: "append_frames (map snd acc) ?l (rp_log s) = (l, y)" by fastforce
      have "rp_log t = l"
        using assms False Inr xa s1 y
        by (cases y) (auto simp: append_batch_def bind_log_get Let_def act_then_def act_bind_def on_log_def act_ret_def tell_def act_modify_def
            log_get_def act_get_def split: if_splits)
      then show ?thesis using y by blast
    qed (use assms False in \<open>simp add: append_batch_def bind_log_get act_ret_def\<close>)
  qed (use assms in \<open>simp add: append_batch_def bind_log_get act_ret_def\<close>)
qed

lemma append_same_epoch:
  assumes "pl_epoch (rp_log s) = ar_epoch r"
  shows "replica_append crc observed None r s = append_batch observed r (pl_durable (rp_log s)) s"
proof -
  have "meet_epoch crc observed (ar_partition r) (ar_epoch r) (ar_prev_lamport r) s = (s, Inr ())"
    using assms by (simp add: meet_epoch_def bind_log_get act_ret_def)
  moreover have "reach crc None r s = (s, Inr (pl_durable (rp_log s)))"
    by (simp add: reach_def bind_log_get close_gap_def) (simp add: act_bind_def act_ret_def)
  ultimately show ?thesis by (simp add: replica_append_def act_then_def act_bind_def)
qed

lemma answered_Inr: "h s = (t, Inr r) \<Longrightarrow> answered h s = (t, r)"
  by (simp add: answered_def)

lemma node_append:
  assumes at: "node_at crc p e H m s" and room: "room_at (Suc b) p e s" and H: "owner_history p e H" and r: "sent_ok crc p e H r"
    and run: "serve crc None (AppendCall r) s = (s', reply)"
  shows "\<exists>m'\<ge>m. node_at crc p e H m' s' \<and> room_at b p e s' \<and> (\<forall>d x. reply = OkResponse d x \<longrightarrow> unat d = m')"
proof -
  obtain l fenced a rss where l: "ws_logs s p = Some l" "pl_epoch l = e" "refines crc fenced l a rss" "al_entries a = take m H"
    "pl_durable l = word_of_nat m" "m \<le> length H"
    using at by (auto simp: node_at_def)
  obtain k mm where k: "k + mm \<le> length H" "ar_prev_lamport r = word_of_nat k" "ar_entries r = map (framed crc) (take mm (drop k H))"
    "ar_partition r = p" "ar_epoch r = e"
    using r by (auto simp: sent_ok_def)
  let ?s = "\<lparr>rp_log = l, rp_events = ws_events s\<rparr>"
  have H': "contiguous H" using H by (simp add: owner_history_def)
  have roomy: "seq_room (Suc b) l" using room l by (simp add: room_at_def)
  have ag: "agrees e k H l a" using l last_lamport_history[OF H', of m] by (auto simp: agrees_def last_of_def)
  obtain n t a' rss' where t: "n \<le> length H" "word_of_nat n = pl_durable l" "refines crc fenced (rp_log t) a' rss'" "pl_epoch (rp_log t) = e"
    "agrees e k H (rp_log t) a'"
    "if k \<le> n then replica_append crc (ws_observed s) None r ?s = (t, Inr (OkResponse (word_of_nat (max n (k + mm))) e)) \<and> al_entries a' = take (max n (k + mm)) H
     else replica_append crc (ws_observed s) None r ?s = (t, Inr (GapResponse (word_of_nat n) e)) \<and> al_entries a' = take n H"
    using append_follows[where s = ?s and crc = crc and fenced = fenced and a = a and rss = rss and p = p and e = e and H = H and k = k and k' = k
        and m = mm and r = r and observed = "ws_observed s"] l H ag seq_room_next[OF roomy] k by auto
  have "n = m" using t(1,2) l(5,6) unat_lamport[OF H'] by metis
  define m' where "m' = (if k \<le> n then max n (k + mm) else n)"
  have m': "m \<le> m'" "m' \<le> length H" "al_entries a' = take m' H" using t(1,6) k(1) \<open>n = m\<close> by (auto simp: m'_def)
  have "pl_durable (rp_log t) = last_of a'" using t(5) by (simp add: agrees_def)
  then have durable: "pl_durable (rp_log t) = word_of_nat m'" using last_lamport_history[OF H' m'(2)] m'(3) by (simp add: last_of_def)
  obtain resp where resp: "replica_append crc (ws_observed s) None r ?s = (t, Inr resp)" "\<forall>d x. resp = OkResponse d x \<longrightarrow> d = word_of_nat m'"
    using t(6) by (cases "k \<le> n") (auto simp: m'_def)
  have s': "s' = s\<lparr>ws_logs := (ws_logs s)(p \<mapsto> rp_log t), ws_events := rp_events t\<rparr>" "reply = resp"
    using run l(1) k(4) answered_Inr[where h = "replica_append crc (ws_observed s) None r", OF resp(1)] by (auto simp: at_partition_def)
  have "append_batch (ws_observed s) r (pl_durable l) ?s = (t, Inr resp)" using append_same_epoch[of ?s r crc "ws_observed s"] resp(1) l(2) k(5) by simp
  from batch_log[OF this] have "seq_room b (rp_log t)" using append_seq[OF _ roomy] roomy seq_room_less[of "Suc b" l b] by auto
  then have "room_at b p e s'" by (simp add: room_at_def s')
  moreover have "node_at crc p e H m' s'" using m' t(3,4) durable unfolding node_at_def s' by auto
  ultimately show ?thesis using m'(1) resp(2) s'(2) unat_lamport[OF H' m'(2)] by auto
qed

lemma deposed_stays: "deposed_at p e s \<Longrightarrow> deposed_at p e (fst (serve crc h c s))"
  using serve_rises[of s p] by (fastforce simp: deposed_at_def intro: order_less_le_trans)

lemma deposed_append:
  assumes "deposed_at (ar_partition r) (ar_epoch r) s"
  shows "\<exists>c. serve crc h (AppendCall r) s = (s, StaleEpochResponse c)"
  using assms stale_append[of s r] by (auto simp: deposed_at_def)

text \<open>A message of a newer epoch moves the log's epoch first, whatever it does then.\<close>

lemma meets_higher:
  assumes ref: "refines crc fenced (rp_log s) a rss" and up: "pl_epoch (rp_log s) < e'" and rest: "within replica_rises k"
  shows "e' \<le> pl_epoch (rp_log (fst (act_then (meet_epoch crc observed p e' l) k s)))"
proof -
  have rep: "log_rep crc (rp_log s) rss" using ref by (simp add: refines_def)
  obtain u rss' where u: "record_fence crc e' (rp_log s) = (u, Inr ())" "pl_epoch u = max (pl_epoch (rp_log s)) e'"
    using record_fence_ok[OF rep, of e'] by blast
  let ?s = "s\<lparr>rp_log := u\<rparr>"
  define tail where "tail = act_then (act_bind (log_get pl_durable) (\<lambda>held. act_then (on_log (truncate_above crc l))
        (if l < held then tell observed (Truncated p l) else act_ret ()))) k"
  have "within replica_rises tail" unfolding tail_def log_get_def
    by (auto intro!: rp.within_rules rest within_on_log within_tell same_fence_rises within_truncate)
  moreover have "act_then (meet_epoch crc observed p e' l) k s = tail ?s"
    using u(1) up not_less_iff_gr_or_eq[of e' "pl_epoch (rp_log s)"]
    by (simp add: meet_epoch_def tail_def act_then_def act_bind_def on_log_def log_get_def act_get_def)
  ultimately have "replica_rises ?s (fst (act_then (meet_epoch crc observed p e' l) k s))" by (simp add: within_def)
  moreover have "pl_epoch u = e'" using u(2) up by (simp add: max_absorb2 less_imp_le)
  ultimately show ?thesis by (simp add: replica_rises_def fence_rises_def)
qed

lemma other_owner_deposes:
  assumes at: "node_at crc p e H m s" and up: "call_epoch c p = Some e'" "e < e'"
  shows "deposed_at p e (fst (serve crc h c s))"
proof -
  obtain l fenced a rss where l: "ws_logs s p = Some l" "pl_epoch l = e" "refines crc fenced l a rss" using at by (auto simp: node_at_def)
  let ?s = "\<lparr>rp_log = l, rp_events = ws_events s\<rparr>"
  have "\<exists>(k :: response handler) obs q lam. within replica_rises k \<and> ws_logs (fst (serve crc h c s)) p
      = Some (rp_log (fst (act_then (meet_epoch crc obs q e' lam) k ?s)))"
  proof (cases c)
    case (AppendCall r)
    then have r: "ar_partition r = p" "ar_epoch r = e'" using up(1) by (auto split: if_splits)
    have "within replica_rises (act_bind (reach crc h r) (append_batch (ws_observed s) r))"
      unfolding append_batch_def reach_def log_get_def Let_def
      by (auto split: sum.split prod.split closed.split
          intro!: rp.within_rules within_close_gap within_on_log within_tell same_fence_rises within_write)
    then show ?thesis using l(1) r
      by (intro exI[of _ "act_bind (reach crc h r) (append_batch (ws_observed s) r)"] exI[of _ "ws_observed s"] exI[of _ p] exI[of _ "ar_prev_lamport r"])
         (simp add: AppendCall at_partition_def replica_append_def case_prod_unfold answered_fst)
  next
    case (FenceCall r)
    then have r: "fr_partition r = p" "fr_epoch r = e'" using up(1) by (auto split: if_splits)
    let ?k = "act_bind (log_get (\<lambda>l. (pl_durable l, pl_epoch l))) (\<lambda>(d, e). act_ret (OkResponse d e))"
    have "within replica_rises ?k" unfolding log_get_def by (auto split: prod.split intro!: rp.within_rules)
    then show ?thesis using l(1) r
      by (intro exI[of _ ?k] exI[of _ "ws_observed s"] exI[of _ p] exI[of _ "fr_truncate_above r"])
         (simp add: FenceCall at_partition_def replica_fence_def case_prod_unfold answered_fst)
  qed (use up in simp)
  then obtain k :: "response handler" and obs q lam where k: "within replica_rises k"
    "ws_logs (fst (serve crc h c s)) p = Some (rp_log (fst (act_then (meet_epoch crc obs q e' lam) k ?s)))" by blast
  have "e' \<le> pl_epoch (rp_log (fst (act_then (meet_epoch crc obs q e' lam) k ?s)))" by (rule meets_higher[OF _ _ k(1)]) (use l up in simp_all)
  then show ?thesis using k(2) up(2) by (auto simp: deposed_at_def)
qed

lemma node_at_grows: "node_at crc p e H m s \<Longrightarrow> node_at crc p e (H @ xs) m s"
  by (auto simp: node_at_def)

lemma sent_ok_grows:
  assumes "sent_ok crc p e H r"
  shows "sent_ok crc p e (H @ xs) r"
proof -
  obtain k m where k: "k + m \<le> length H" "ar_prev_lamport r = word_of_nat k" "ar_entries r = map (framed crc) (take m (drop k H))"
    using assms by (auto simp: sent_ok_def)
  then have "take m (drop k (H @ xs)) = take m (drop k H)" by simp
  then show ?thesis using assms k unfolding sent_ok_def by (metis (no_types, lifting) le_add1 le_trans length_append)
qed

section \<open>The invariant\<close>

definition has :: "(bytes \<Rightarrow> u32) \<Rightarrow> quorum_world \<Rightarrow> node_id \<Rightarrow> nat \<Rightarrow> bool" where
  "has crc W n q \<longleftrightarrow> (\<exists>s. qw_nodes W n = Some s \<and> (let p = wl_partition (qw_wal W); e = ow_epoch (wl_state (qw_wal W)) in
     deposed_at p e s \<or> (\<exists>m\<ge>q. node_at crc p e (qw_history W) m s)))"

text \<open>
  Enough replicas hold the history up to \<open>q\<close>, or moved on to a newer owner. An owner that was told it is deposed may have
  counted one answer too early.
\<close>

definition quorum_has :: "(bytes \<Rightarrow> u32) \<Rightarrow> quorum_world \<Rightarrow> nat \<Rightarrow> bool" where
  "quorum_has crc W q \<longleftrightarrow> (\<exists>Q. Q \<subseteq> set (wl_replicas (qw_wal W))
     \<and> (required_acks (qw_wal W) \<le> card Q \<or> ow_fatal (wl_state (qw_wal W)) \<noteq> None \<and> 1 \<le> card Q) \<and> (\<forall>n\<in>Q. has crc W n q))"

definition grows :: "(bytes \<Rightarrow> u32) \<Rightarrow> quorum_world \<Rightarrow> quorum_world \<Rightarrow> bool" where
  "grows crc W W' \<longleftrightarrow> wl_partition (qw_wal W') = wl_partition (qw_wal W) \<and> ow_epoch (wl_state (qw_wal W')) = ow_epoch (wl_state (qw_wal W))
     \<and> wl_replicas (qw_wal W') = wl_replicas (qw_wal W) \<and> wl_durability_acks (qw_wal W') = wl_durability_acks (qw_wal W)
     \<and> (\<exists>xs. qw_history W' = qw_history W @ xs) \<and> (ow_fatal (wl_state (qw_wal W)) \<noteq> None \<longrightarrow> ow_fatal (wl_state (qw_wal W')) \<noteq> None)
     \<and> (\<forall>n q. has crc W n q \<longrightarrow> has crc W' n q)"

definition call_ok :: "(bytes \<Rightarrow> u32) \<Rightarrow> quorum_world \<Rightarrow> call \<Rightarrow> bool" where
  "call_ok crc W c \<longleftrightarrow>
     (let p = wl_partition (qw_wal W); e = ow_epoch (wl_state (qw_wal W)); H = qw_history W in
        sent_ok crc p e H (ca_request c) \<and> sent_ok crc p e H (ca_sent c) \<and> ca_node c \<in> set (wl_replicas (qw_wal W))
        \<and> (\<forall>d x. ca_reply c = Some (OkResponse d x) \<longrightarrow> has crc W (ca_node c) (unat d))
        \<and> (\<forall>k. ca_task c = Some k \<longrightarrow> k < length (qw_tasks W)))"

definition task_last :: "task \<Rightarrow> nat" where
  "task_last t = unat (ar_last_lamport (ta_request t))"

definition settled_ok :: "(bytes \<Rightarrow> u32) \<Rightarrow> quorum_world \<Rightarrow> nat \<Rightarrow> nat \<Rightarrow> (owner_error + unit) option \<Rightarrow> bool" where
  "settled_ok crc W k q r \<longleftrightarrow>
     (case r of
        None \<Rightarrow> True
      | Some (Inr _) \<Rightarrow> quorum_has crc W q
      | Some (Inl x) \<Rightarrow> if is_stale x then ow_fatal (wl_state (qw_wal W)) \<noteq> None else calls_of k W = [])"

definition task_ok :: "(bytes \<Rightarrow> u32) \<Rightarrow> quorum_world \<Rightarrow> nat \<Rightarrow> bool" where
  "task_ok crc W k \<longleftrightarrow>
     (let t = qw_tasks W ! k; w = qw_wal W in
        sent_ok crc (wl_partition w) (ow_epoch (wl_state w)) (qw_history W) (ta_request t) \<and> ta_required t = required_acks w
        \<and> set (ta_by t) \<subseteq> set (wl_replicas w) \<and> (\<forall>n\<in>set (ta_by t). has crc W n (task_last t))
        \<and> distinct (ta_by t @ map ca_node (calls_of k W)) \<and> (\<forall>c\<in>set (calls_of k W). ca_request c = ta_request t)
        \<and> settled_ok crc W k (task_last t) (ta_result t))"

definition batch_ok :: "(bytes \<Rightarrow> u32) \<Rightarrow> quorum_world \<Rightarrow> batch \<Rightarrow> bool" where
  "batch_ok crc W x \<longleftrightarrow> (ba_acked x \<longrightarrow> quorum_has crc W (unat (ba_last x)))"

definition peers_ok :: "(bytes \<Rightarrow> u32) \<Rightarrow> nat \<Rightarrow> nat \<Rightarrow> quorum_world \<Rightarrow> bool" where
  "peers_ok crc b r0 W \<longleftrightarrow>
     (let w = qw_wal W; st = wl_state w; p = wl_partition w; e = ow_epoch st in
        (\<forall>x\<in>set (ow_inflight st). batch_ok crc W x) \<and> (\<forall>n d. ow_acked st n = Some d \<longrightarrow> has crc W n (unat d))
        \<and> (\<forall>c\<in>set (qw_calls W). call_ok crc W c) \<and> (\<forall>k<length (qw_tasks W). task_ok crc W k)
        \<and> (\<forall>x\<in>set (qw_sent W). sent_ok crc p e (qw_history W) (snd x))
        \<and> (\<forall>n s. qw_nodes W n = Some s \<longrightarrow> has crc W n 0 \<and> room_at b p e s)
        \<and> set (wl_replicas w) \<subseteq> dom (qw_nodes W) \<and> distinct (wl_replicas w)
        \<and> (unat (ow_replicated st) = r0 \<or> quorum_has crc W (unat (ow_replicated st))))"

definition frames_ok :: "(bytes \<Rightarrow> u32) \<Rightarrow> pending list \<Rightarrow> bool" where
  "frames_ok crc B \<longleftrightarrow> (\<forall>x\<in>set B. pn_frame x = frame_encode crc (EntryRecord (pn_entry x)))"

definition batch_in :: "(bytes \<Rightarrow> u32) \<Rightarrow> wal_entry list \<Rightarrow> pending list \<Rightarrow> bool" where
  "batch_in crc H B \<longleftrightarrow> B \<noteq> [] \<and> frames_ok crc B \<and> (\<exists>k m. k + m \<le> length H \<and> map pn_entry B = take m (drop k H))"

definition owner_side :: "(bytes \<Rightarrow> u32) \<Rightarrow> nat \<Rightarrow> nat \<Rightarrow> quorum_world \<Rightarrow> nat \<Rightarrow> nat \<Rightarrow> nat \<Rightarrow> bool" where
  "owner_side crc b r0 W i j r \<longleftrightarrow>
     (let w = qw_wal W; st = wl_state w; l = wl_log w; H = qw_history W; P = qw_taken W @ ow_pending st in
        owner_log crc l H i j \<and> pl_epoch l = ow_epoch st \<and> seq_room b l \<and> ow_durable_local st = word_of_nat j \<and> ow_replicated st = word_of_nat r
        \<and> i \<le> r \<and> r0 \<le> r \<and> r \<le> j \<and> pl_hydrated_through l \<le> word_of_nat r \<and> pl_applied_through l \<le> word_of_nat r
        \<and> frames_ok crc P \<and> (\<not> ow_quiesced st \<longrightarrow> map pn_entry P = drop j H \<and> ow_next_lamport st = word_of_nat (length H))
        \<and> (P = [] \<or> map pn_entry P = drop j H) \<and> (qw_taken W \<noteq> [] \<longrightarrow> ow_flushing st))"

definition quorum_ok :: "(bytes \<Rightarrow> u32) \<Rightarrow> nat \<Rightarrow> nat \<Rightarrow> quorum_world \<Rightarrow> bool" where
  "quorum_ok crc b r0 W \<longleftrightarrow> owner_history (wl_partition (qw_wal W)) (ow_epoch (wl_state (qw_wal W))) (qw_history W)
     \<and> length (qw_history W) + b < 2 ^ 64 - 1 \<and> (\<exists>i j r. owner_side crc b r0 W i j r)
     \<and> (\<forall>B\<in>set (qw_spawned W). batch_in crc (qw_history W) B) \<and> peers_ok crc b r0 W"

lemma has_less: "has crc W n q \<Longrightarrow> q' \<le> q \<Longrightarrow> has crc W n q'"
  by (auto simp: has_def Let_def intro: order_trans)

lemma quorum_less: "quorum_has crc W q \<Longrightarrow> q' \<le> q \<Longrightarrow> quorum_has crc W q'"
  unfolding quorum_has_def by (meson has_less)

lemma grows_refl: "grows crc W W"
  by (simp add: grows_def)

lemma grows_required: "grows crc W W' \<Longrightarrow> required_acks (qw_wal W') = required_acks (qw_wal W)"
  by (simp add: grows_def required_acks_def)

lemma grows_quorum:
  assumes g: "grows crc W W'" and q: "quorum_has crc W q"
  shows "quorum_has crc W' q"
proof -
  obtain Q where Q: "Q \<subseteq> set (wl_replicas (qw_wal W))" "\<forall>n\<in>Q. has crc W n q"
    "required_acks (qw_wal W) \<le> card Q \<or> ow_fatal (wl_state (qw_wal W)) \<noteq> None \<and> 1 \<le> card Q"
    using q unfolding quorum_has_def by blast
  have "\<forall>n\<in>Q. has crc W' n q" using g Q(2) by (simp add: grows_def)
  moreover have "Q \<subseteq> set (wl_replicas (qw_wal W'))" using g Q(1) by (simp add: grows_def)
  moreover have "required_acks (qw_wal W') \<le> card Q \<or> ow_fatal (wl_state (qw_wal W')) \<noteq> None \<and> 1 \<le> card Q"
    using g Q(3) grows_required[OF g] unfolding grows_def by argo
  ultimately show ?thesis unfolding quorum_has_def by blast
qed

lemma grows_sent:
  "grows crc W W' \<Longrightarrow> sent_ok crc (wl_partition (qw_wal W)) (ow_epoch (wl_state (qw_wal W))) (qw_history W) r \<Longrightarrow>
     sent_ok crc (wl_partition (qw_wal W')) (ow_epoch (wl_state (qw_wal W'))) (qw_history W') r"
  by (auto simp: grows_def intro: sent_ok_grows)

lemma grows_call: "grows crc W W' \<Longrightarrow> length (qw_tasks W) \<le> length (qw_tasks W') \<Longrightarrow> call_ok crc W c \<Longrightarrow> call_ok crc W' c"
  unfolding call_ok_def Let_def using grows_sent[of crc W W'] by (auto simp: grows_def)

definition open_calls :: "nat \<Rightarrow> quorum_world \<Rightarrow> (node_id \<times> append_request) set" where
  "open_calls k W = (\<lambda>c. (ca_node c, ca_request c)) ` set (calls_of k W)"

lemma open_calls_empty [simp]: "open_calls k W = {} \<longleftrightarrow> calls_of k W = []"
  by (simp add: open_calls_def)

lemma grows_settled:
  assumes g: "grows crc W W'" and ok: "settled_ok crc W k q r" and fewer: "open_calls k W' \<subseteq> open_calls k W"
  shows "settled_ok crc W' k q r"
proof (cases r)
  case (Some x)
  have "ow_fatal (wl_state (qw_wal W)) \<noteq> None \<Longrightarrow> ow_fatal (wl_state (qw_wal W')) \<noteq> None" using g by (simp add: grows_def)
  moreover have "calls_of k W = [] \<Longrightarrow> calls_of k W' = []" using fewer by (metis open_calls_empty subset_empty)
  ultimately show ?thesis using Some ok grows_quorum[OF g] by (cases x) (auto simp: settled_ok_def split: if_splits)
qed (simp add: settled_ok_def)

lemma grows_task:
  assumes g: "grows crc W W'" and ok: "task_ok crc W k" and same: "qw_tasks W' ! k = qw_tasks W ! k"
    and fewer: "open_calls k W' \<subseteq> open_calls k W" "distinct (map ca_node (calls_of k W'))"
  shows "task_ok crc W' k"
proof -
  have "set (ta_by (qw_tasks W ! k)) \<inter> ca_node ` set (calls_of k W) = {}" "distinct (ta_by (qw_tasks W ! k))"
    using ok unfolding task_ok_def Let_def by auto
  moreover have "ca_node ` set (calls_of k W') \<subseteq> ca_node ` set (calls_of k W)"
    using image_mono[OF fewer(1), of fst] by (simp add: open_calls_def image_image)
  ultimately have "distinct (ta_by (qw_tasks W ! k) @ map ca_node (calls_of k W'))" using fewer(2) by fastforce
  moreover have "required_acks (qw_wal W') = required_acks (qw_wal W)" by (rule grows_required[OF g])
  moreover have "settled_ok crc W' k (task_last (qw_tasks W ! k)) (ta_result (qw_tasks W ! k))"
    by (rule grows_settled[OF g _ fewer(1)]) (use ok in \<open>simp add: task_ok_def Let_def\<close>)
  moreover have "\<forall>n\<in>set (ta_by (qw_tasks W ! k)). has crc W' n (task_last (qw_tasks W ! k))" "set (ta_by (qw_tasks W ! k)) \<subseteq> set (wl_replicas (qw_wal W'))"
    using ok g unfolding task_ok_def Let_def grows_def by simp_all
  moreover have "\<forall>c\<in>set (calls_of k W'). ca_request c = ta_request (qw_tasks W ! k)" "ta_required (qw_tasks W ! k) = required_acks (qw_wal W)"
    using ok fewer(1) unfolding task_ok_def Let_def open_calls_def by fastforce+
  moreover have "sent_ok crc (wl_partition (qw_wal W')) (ow_epoch (wl_state (qw_wal W'))) (qw_history W') (ta_request (qw_tasks W ! k))"
    by (rule grows_sent[OF g]) (use ok in \<open>simp add: task_ok_def Let_def\<close>)
  ultimately show ?thesis unfolding task_ok_def Let_def same by (intro conjI) simp_all
qed

lemma peers_okD:
  assumes "peers_ok crc b r0 W"
  shows "\<forall>x\<in>set (ow_inflight (wl_state (qw_wal W))). batch_ok crc W x"
    "\<forall>n d. ow_acked (wl_state (qw_wal W)) n = Some d \<longrightarrow> has crc W n (unat d)"
    "\<forall>c\<in>set (qw_calls W). call_ok crc W c" "\<forall>k<length (qw_tasks W). task_ok crc W k"
    "\<forall>x\<in>set (qw_sent W). sent_ok crc (wl_partition (qw_wal W)) (ow_epoch (wl_state (qw_wal W))) (qw_history W) (snd x)"
    "\<forall>n s. qw_nodes W n = Some s \<longrightarrow> has crc W n 0 \<and> room_at b (wl_partition (qw_wal W)) (ow_epoch (wl_state (qw_wal W))) s"
    "set (wl_replicas (qw_wal W)) \<subseteq> dom (qw_nodes W)" "distinct (wl_replicas (qw_wal W))"
    "unat (ow_replicated (wl_state (qw_wal W))) = r0 \<or> quorum_has crc W (unat (ow_replicated (wl_state (qw_wal W))))"
  using assms unfolding peers_ok_def Let_def by - (elim conjE, assumption)+

lemma peers_frame:
  assumes ok: "peers_ok crc b r0 W" and g: "grows crc W W'"
    and same: "qw_tasks W' = qw_tasks W" "qw_calls W' = qw_calls W" "qw_sent W' = qw_sent W"
      "ow_acked (wl_state (qw_wal W')) = ow_acked (wl_state (qw_wal W))" "ow_replicated (wl_state (qw_wal W')) = ow_replicated (wl_state (qw_wal W))"
    and inflight: "\<forall>x\<in>set (ow_inflight (wl_state (qw_wal W'))). x \<in> set (ow_inflight (wl_state (qw_wal W))) \<or> \<not> ba_acked x"
    and nodes: "dom (qw_nodes W) \<subseteq> dom (qw_nodes W')"
      "\<And>n s. qw_nodes W' n = Some s \<Longrightarrow> has crc W' n 0 \<and> room_at b' (wl_partition (qw_wal W)) (ow_epoch (wl_state (qw_wal W))) s"
  shows "peers_ok crc b' r0 W'"
proof -
  have ids: "wl_partition (qw_wal W') = wl_partition (qw_wal W)" "ow_epoch (wl_state (qw_wal W')) = ow_epoch (wl_state (qw_wal W))"
    "wl_replicas (qw_wal W') = wl_replicas (qw_wal W)" "\<And>n q. has crc W n q \<Longrightarrow> has crc W' n q" using g by (simp_all add: grows_def)
  have calls: "calls_of k W' = calls_of k W" for k by (simp add: calls_of_def same)
  note d = peers_okD[OF ok]
  have tasks: "task_ok crc W' k" if "k < length (qw_tasks W)" for k
  proof (rule grows_task[OF g])
    show "task_ok crc W k" using d(4) that by blast
    then show "distinct (map ca_node (calls_of k W'))" by (simp add: calls task_ok_def Let_def)
  qed (simp_all add: same calls open_calls_def)
  have calls': "call_ok crc W' c" if "c \<in> set (qw_calls W)" for c by (rule grows_call[OF g]) (use d(3) that same in simp_all)
  have batches: "batch_ok crc W' x" if "x \<in> set (ow_inflight (wl_state (qw_wal W')))" for x
    using d(1) inflight that grows_quorum[OF g] unfolding batch_ok_def by blast
  have sent: "sent_ok crc (wl_partition (qw_wal W')) (ow_epoch (wl_state (qw_wal W'))) (qw_history W') (snd x)" if "x \<in> set (qw_sent W)" for x
    by (rule grows_sent[OF g]) (use d(5) that in blast)
  have dom: "set (wl_replicas (qw_wal W)) \<subseteq> dom (qw_nodes W')" using d(7) nodes(1) by (rule order_trans)
  have acked: "has crc W' n (unat x)" if "ow_acked (wl_state (qw_wal W)) n = Some x" for n x using d(2) that ids(4) by blast
  have rep: "unat (ow_replicated (wl_state (qw_wal W))) = r0 \<or> quorum_has crc W' (unat (ow_replicated (wl_state (qw_wal W))))"
    using d(9) grows_quorum[OF g] by blast
  show ?thesis unfolding peers_ok_def Let_def same ids(1-3)
    by (intro conjI ballI allI impI) (use tasks calls' batches sent dom acked rep nodes(2) d(8) ids(1,2) in \<open>simp_all\<close>)
qed

section \<open>Messages\<close>

lemma owner_side_less: "owner_side crc (Suc b) r0 W i j r \<Longrightarrow> owner_side crc b r0 W i j r"
  using seq_room_less[of "Suc b" "wl_log (qw_wal W)" b] by (auto simp: owner_side_def Let_def)

lemma room_at_less: "room_at (Suc b) p e s \<Longrightarrow> room_at b p e s"
  by (auto simp: room_at_def intro: seq_room_less)

lemma quorum_okD:
  assumes "quorum_ok crc b r0 W"
  shows "owner_history (wl_partition (qw_wal W)) (ow_epoch (wl_state (qw_wal W))) (qw_history W)" "length (qw_history W) + b < 2 ^ 64 - 1"
    "\<exists>i j r. owner_side crc b r0 W i j r" "\<forall>B\<in>set (qw_spawned W). batch_in crc (qw_history W) B" "peers_ok crc b r0 W"
  using assms unfolding quorum_ok_def by - (elim conjE, assumption)+

text \<open>A step that leaves the owner alone.\<close>

lemma owner_frame:
  assumes ok: "quorum_ok crc (Suc b) r0 W" and peers: "peers_ok crc b r0 W'"
    and same: "qw_wal W' = qw_wal W" "qw_taken W' = qw_taken W" "qw_history W' = qw_history W" "set (qw_spawned W') \<subseteq> set (qw_spawned W)"
  shows "quorum_ok crc b r0 W'"
proof -
  note d = quorum_okD[OF ok]
  obtain i j r where "owner_side crc b r0 W i j r" using d(3) owner_side_less by blast
  then have "owner_side crc b r0 W' i j r" by (simp add: owner_side_def same)
  moreover have "\<forall>B\<in>set (qw_spawned W'). batch_in crc (qw_history W') B" using d(4) same(4) by (auto simp: same(3))
  ultimately show ?thesis using d(1,2) peers unfolding quorum_ok_def same by auto
qed

lemma peers_ok_less: "peers_ok crc (Suc b) r0 W \<Longrightarrow> peers_ok crc b r0 W"
  using peers_frame[OF _ grows_refl, of crc "Suc b" r0 W b] peers_okD(6)[of crc "Suc b" r0 W] room_at_less by simp

lemma quorum_ok_less: "quorum_ok crc (Suc b) r0 W \<Longrightarrow> quorum_ok crc b r0 W"
  using owner_frame[of crc b r0 W W] peers_ok_less quorum_okD(5) by simp

lemma change_node:
  assumes ok: "quorum_ok crc (Suc b) r0 W" and s: "qw_nodes W n = Some s"
    and dep: "deposed_at (wl_partition (qw_wal W)) (ow_epoch (wl_state (qw_wal W))) s \<Longrightarrow> deposed_at (wl_partition (qw_wal W)) (ow_epoch (wl_state (qw_wal W))) s'"
    and at: "\<And>m. node_at crc (wl_partition (qw_wal W)) (ow_epoch (wl_state (qw_wal W))) (qw_history W) m s \<Longrightarrow>
      deposed_at (wl_partition (qw_wal W)) (ow_epoch (wl_state (qw_wal W))) s'
      \<or> (\<exists>m'\<ge>m. node_at crc (wl_partition (qw_wal W)) (ow_epoch (wl_state (qw_wal W))) (qw_history W) m' s')"
    and room: "room_at b (wl_partition (qw_wal W)) (ow_epoch (wl_state (qw_wal W))) s'"
  shows "grows crc W (W\<lparr>qw_nodes := (qw_nodes W)(n \<mapsto> s')\<rparr>) \<and> quorum_ok crc b r0 (W\<lparr>qw_nodes := (qw_nodes W)(n \<mapsto> s')\<rparr>)"
proof -
  let ?W = "W\<lparr>qw_nodes := (qw_nodes W)(n \<mapsto> s')\<rparr>"
  have has: "has crc ?W k q" if "has crc W k q" for k q
  proof (cases "k = n")
    case True
    have "deposed_at (wl_partition (qw_wal W)) (ow_epoch (wl_state (qw_wal W))) s'
      \<or> (\<exists>m'\<ge>q. node_at crc (wl_partition (qw_wal W)) (ow_epoch (wl_state (qw_wal W))) (qw_history W) m' s')"
      using that s True dep at unfolding has_def Let_def by (metis (no_types, lifting) option.inject order_trans)
    then show ?thesis by (simp add: True has_def Let_def)
  next
    case False
    then show ?thesis using that by (simp add: has_def Let_def)
  qed
  then have g: "grows crc W ?W" by (simp add: grows_def)
  note d = peers_okD[OF quorum_okD(5)[OF ok]]
  have "peers_ok crc b r0 ?W"
  proof (rule peers_frame[OF quorum_okD(5)[OF ok] g])
    fix k x
    assume k: "qw_nodes ?W k = Some x"
    show "has crc ?W k 0 \<and> room_at b (wl_partition (qw_wal W)) (ow_epoch (wl_state (qw_wal W))) x"
    proof (cases "k = n")
      case True
      then show ?thesis using k room has d(6) s by auto
    next
      case False
      then have "has crc W k 0" "room_at (Suc b) (wl_partition (qw_wal W)) (ow_epoch (wl_state (qw_wal W))) x" using k d(6) by auto
      then show ?thesis using has room_at_less by blast
    qed
  qed auto
  from owner_frame[OF ok this] have "quorum_ok crc b r0 ?W" by simp
  then show ?thesis using g by blast
qed

lemma deliver_ok:
  assumes ok: "quorum_ok crc (Suc b) r0 W" and r: "sent_ok crc (wl_partition (qw_wal W)) (ow_epoch (wl_state (qw_wal W))) (qw_history W) r"
    and run: "deliver crc n r W = (W', reply)"
  shows "grows crc W W' \<and> quorum_ok crc b r0 W' \<and> (\<forall>d x. reply = Some (OkResponse d x) \<longrightarrow> has crc W' n (unat d))
    \<and> (\<exists>f. W' = W\<lparr>qw_nodes := f\<rparr>)"
proof (cases "qw_nodes W n")
  case None
  have "quorum_ok crc b r0 W" by (rule quorum_ok_less[OF ok])
  moreover have "W' = W\<lparr>qw_nodes := qw_nodes W\<rparr>" "reply = None" using run None by (simp_all add: deliver_def)
  ultimately show ?thesis by (auto simp: grows_refl intro: exI[of _ "qw_nodes W"])
next
  case (Some s)
  let ?p = "wl_partition (qw_wal W)" and ?e = "ow_epoch (wl_state (qw_wal W))" and ?H = "qw_history W"
  obtain s' resp where s': "serve crc None (AppendCall r) s = (s', resp)" by fastforce
  have W': "W' = W\<lparr>qw_nodes := (qw_nodes W)(n \<mapsto> s')\<rparr>" "reply = Some resp" using run Some s' by (auto simp: deliver_def)
  have H: "owner_history ?p ?e ?H" by (rule quorum_okD(1)[OF ok])
  have room: "room_at (Suc b) ?p ?e s" using peers_okD(6)[OF quorum_okD(5)[OF ok]] Some by blast
  have re: "ar_partition r = ?p" "ar_epoch r = ?e" using r by (simp_all add: sent_ok_def)
  have has0: "deposed_at ?p ?e s \<or> (\<exists>m. node_at crc ?p ?e ?H m s)"
    using peers_okD(6)[OF quorum_okD(5)[OF ok]] Some by (auto simp: has_def Let_def)
  have room': "room_at b ?p ?e s'"
    using has0
  proof (elim disjE exE)
    assume "deposed_at ?p ?e s"
    then have "s' = s" using deposed_append[of r s crc None] re s' by auto
    then show ?thesis using room room_at_less by blast
  next
    fix m assume "node_at crc ?p ?e ?H m s"
    then show ?thesis using node_append[OF _ room H r s'] by blast
  qed
  have gq: "grows crc W W' \<and> quorum_ok crc b r0 W'"
    unfolding W'(1)
  proof (rule change_node[OF ok Some _ _ room'])
    assume "deposed_at ?p ?e s"
    then show "deposed_at ?p ?e s'" using deposed_stays[of ?p ?e s crc None "AppendCall r"] s' by simp
  next
    fix m assume "node_at crc ?p ?e ?H m s"
    then show "deposed_at ?p ?e s' \<or> (\<exists>m'\<ge>m. node_at crc ?p ?e ?H m' s')" using node_append[OF _ room H r s'] by blast
  qed
  have "has crc W' n (unat d)" if ans: "reply = Some (OkResponse d x)" for d x
  proof -
    have "\<not> deposed_at ?p ?e s" using deposed_append[of r s crc None] re s' ans W'(2) by auto
    then obtain m where m: "node_at crc ?p ?e ?H m s" using has0 by blast
    obtain m' where "node_at crc ?p ?e ?H m' s'" "unat d = m'" using node_append[OF m room H r s'] ans W'(2) by auto
    then show ?thesis by (auto simp: has_def Let_def W'(1))
  qed
  then show ?thesis using gq W'(1) by blast
qed

section \<open>Calls\<close>

text \<open>The calls may change as long as no run waits for more than before.\<close>

lemma calls_frame:
  assumes ok: "peers_ok crc b r0 W" and cs: "\<And>c. c \<in> set cs \<Longrightarrow> call_ok crc W c"
    and fewer: "\<And>k. k < length (qw_tasks W) \<Longrightarrow> open_calls k (W\<lparr>qw_calls := cs\<rparr>) \<subseteq> open_calls k W \<and> distinct (map ca_node (calls_of k (W\<lparr>qw_calls := cs\<rparr>)))"
  shows "peers_ok crc b r0 (W\<lparr>qw_calls := cs\<rparr>)"
proof -
  let ?W = "W\<lparr>qw_calls := cs\<rparr>"
  note d = peers_okD[OF ok]
  have same: "has crc ?W = has crc W" "quorum_has crc ?W = quorum_has crc W" "batch_ok crc ?W = batch_ok crc W" "call_ok crc ?W = call_ok crc W"
    by (simp_all add: fun_eq_iff has_def quorum_has_def batch_ok_def call_ok_def Let_def)
  have g: "grows crc W ?W" by (simp add: grows_def same)
  have "task_ok crc ?W k" if "k < length (qw_tasks W)" for k by (rule grows_task[OF g]) (use d(4) fewer that in auto)
  then show ?thesis using d cs unfolding peers_ok_def Let_def by (simp add: same)
qed

lemma calls_of_remove: "calls_of k (W\<lparr>qw_calls := remove_at i (qw_calls W)\<rparr>) = filter (\<lambda>c. ca_task c = Some k) (take i (qw_calls W)) @ filter (\<lambda>c. ca_task c = Some k) (drop (Suc i) (qw_calls W))"
  by (simp add: calls_of_def remove_at_def)

lemma split_calls: "i < length (qw_calls W) \<Longrightarrow> calls_of k W = filter (\<lambda>c. ca_task c = Some k) (take i (qw_calls W))
    @ (if ca_task (qw_calls W ! i) = Some k then [qw_calls W ! i] else []) @ filter (\<lambda>c. ca_task c = Some k) (drop (Suc i) (qw_calls W))"
  using arg_cong[OF id_take_nth_drop[of i "qw_calls W"], of "filter (\<lambda>c. ca_task c = Some k)"] by (simp add: calls_of_def)

lemma calls_of_update:
  assumes i: "i < length (qw_calls W)" and c: "ca_task c = ca_task (qw_calls W ! i)"
  shows "calls_of k (W\<lparr>qw_calls := (qw_calls W)[i := c]\<rparr>) = filter (\<lambda>c. ca_task c = Some k) (take i (qw_calls W))
    @ (if ca_task (qw_calls W ! i) = Some k then [c] else []) @ filter (\<lambda>c. ca_task c = Some k) (drop (Suc i) (qw_calls W))"
  using i c by (simp add: calls_of_def upd_conv_take_nth_drop)

lemma task_distinct: "task_ok crc W k \<Longrightarrow> distinct (map ca_node (calls_of k W))"
  by (simp add: task_ok_def Let_def)

lemma update_call:
  assumes ok: "peers_ok crc b r0 W" and i: "i < length (qw_calls W)" and c: "call_ok crc W c"
    and same: "ca_task c = ca_task (qw_calls W ! i)" "ca_node c = ca_node (qw_calls W ! i)" "ca_request c = ca_request (qw_calls W ! i)"
  shows "peers_ok crc b r0 (W\<lparr>qw_calls := (qw_calls W)[i := c]\<rparr>)"
proof (rule calls_frame[OF ok])
  fix x assume "x \<in> set ((qw_calls W)[i := c])"
  then show "call_ok crc W x" using peers_okD(3)[OF ok] c set_update_subset_insert[of "qw_calls W" i c] by blast
next
  fix k assume k: "k < length (qw_tasks W)"
  have "distinct (map ca_node (calls_of k W))" using peers_okD(4)[OF ok] k task_distinct by blast
  then show "open_calls k (W\<lparr>qw_calls := (qw_calls W)[i := c]\<rparr>) \<subseteq> open_calls k W \<and> distinct (map ca_node (calls_of k (W\<lparr>qw_calls := (qw_calls W)[i := c]\<rparr>)))"
    unfolding open_calls_def calls_of_update[OF i same(1)] using split_calls[OF i, of k] same by auto
qed

lemma remove_call:
  assumes ok: "peers_ok crc b r0 W" and i: "i < length (qw_calls W)"
  shows "peers_ok crc b r0 (W\<lparr>qw_calls := remove_at i (qw_calls W)\<rparr>)"
proof (rule calls_frame[OF ok])
  fix x assume "x \<in> set (remove_at i (qw_calls W))"
  then have "x \<in> set (qw_calls W)" by (auto simp: remove_at_def dest: in_set_takeD in_set_dropD)
  then show "call_ok crc W x" using peers_okD(3)[OF ok] by blast
next
  fix k assume k: "k < length (qw_tasks W)"
  have "distinct (map ca_node (calls_of k W))" using peers_okD(4)[OF ok] k task_distinct by blast
  then show "open_calls k (W\<lparr>qw_calls := remove_at i (qw_calls W)\<rparr>) \<subseteq> open_calls k W \<and> distinct (map ca_node (calls_of k (W\<lparr>qw_calls := remove_at i (qw_calls W)\<rparr>)))"
    unfolding open_calls_def calls_of_remove using split_calls[OF i, of k] by auto
qed

section \<open>The owner's bookkeeping\<close>

lemma wal_frame:
  assumes ok: "peers_ok crc b r0 W"
    and ids: "wl_partition w = wl_partition (qw_wal W)" "ow_epoch (wl_state w) = ow_epoch (wl_state (qw_wal W))"
      "wl_replicas w = wl_replicas (qw_wal W)" "wl_durability_acks w = wl_durability_acks (qw_wal W)"
      "ow_fatal (wl_state (qw_wal W)) \<noteq> None \<Longrightarrow> ow_fatal (wl_state w) \<noteq> None"
    and acked: "\<And>n d. ow_acked (wl_state w) n = Some d \<Longrightarrow> has crc W n (unat d)"
    and inflight: "\<And>x. x \<in> set (ow_inflight (wl_state w)) \<Longrightarrow> ba_acked x \<Longrightarrow> quorum_has crc W (unat (ba_last x))"
    and rep: "unat (ow_replicated (wl_state w)) = r0 \<or> quorum_has crc W (unat (ow_replicated (wl_state w)))"
  shows "grows crc W (W\<lparr>qw_wal := w\<rparr>) \<and> peers_ok crc b r0 (W\<lparr>qw_wal := w\<rparr>)"
proof -
  let ?W = "W\<lparr>qw_wal := w\<rparr>"
  have same: "has crc ?W = has crc W" by (simp add: fun_eq_iff has_def ids)
  have g: "grows crc W ?W" using ids(5) by (simp add: grows_def same ids(1-4))
  have calls: "calls_of k ?W = calls_of k W" for k by (simp add: calls_of_def)
  note d = peers_okD[OF ok]
  have tasks: "task_ok crc ?W k" if "k < length (qw_tasks W)" for k
    by (rule grows_task[OF g]) (use d(4) that task_distinct in \<open>auto simp: calls open_calls_def\<close>)
  have call: "call_ok crc ?W c" if "c \<in> set (qw_calls W)" for c by (rule grows_call[OF g]) (use d(3) that in simp_all)
  have batches: "batch_ok crc ?W x" if "x \<in> set (ow_inflight (wl_state w))" for x
    unfolding batch_ok_def using inflight[OF that] grows_quorum[OF g] by blast
  have rep': "unat (ow_replicated (wl_state w)) = r0 \<or> quorum_has crc ?W (unat (ow_replicated (wl_state w)))" using rep grows_quorum[OF g] by blast
  have "peers_ok crc b r0 ?W" unfolding peers_ok_def Let_def
    by (intro conjI ballI allI impI) (use tasks call batches acked rep' d in \<open>simp_all add: ids same\<close>)
  then show ?thesis using g by blast
qed

definition same_owner :: "wal \<Rightarrow> wal \<Rightarrow> bool" where
  "same_owner w w' \<longleftrightarrow> wl_log w' = wl_log w \<and> wl_partition w' = wl_partition w \<and> wl_replicas w' = wl_replicas w \<and> wl_durability_acks w' = wl_durability_acks w
     \<and> ow_epoch (wl_state w') = ow_epoch (wl_state w) \<and> ow_durable_local (wl_state w') = ow_durable_local (wl_state w)
     \<and> ow_quiesced (wl_state w') = ow_quiesced (wl_state w) \<and> ow_next_lamport (wl_state w') = ow_next_lamport (wl_state w)
     \<and> ow_pending (wl_state w') = ow_pending (wl_state w) \<and> ow_flushing (wl_state w') = ow_flushing (wl_state w)
     \<and> (ow_fatal (wl_state w) \<noteq> None \<longrightarrow> ow_fatal (wl_state w') \<noteq> None)"

lemma book_frame:
  assumes ok: "quorum_ok crc b r0 W" and same: "same_owner (qw_wal W) w"
    and acked: "\<And>n d. ow_acked (wl_state w) n = Some d \<Longrightarrow> has crc W n (unat d)"
    and inflight: "\<And>x. x \<in> set (ow_inflight (wl_state w)) \<Longrightarrow> ba_acked x \<Longrightarrow> quorum_has crc W (unat (ba_last x))"
    and rep: "ow_replicated (wl_state (qw_wal W)) \<le> ow_replicated (wl_state w)"
      "ow_replicated (wl_state w) = ow_replicated (wl_state (qw_wal W)) \<or> ow_replicated (wl_state w) \<le> ow_durable_local (wl_state w) \<and> quorum_has crc W (unat (ow_replicated (wl_state w)))"
  shows "grows crc W (W\<lparr>qw_wal := w\<rparr>) \<and> quorum_ok crc b r0 (W\<lparr>qw_wal := w\<rparr>)"
proof -
  let ?W = "W\<lparr>qw_wal := w\<rparr>"
  note d = quorum_okD[OF ok]
  have s: "wl_log w = wl_log (qw_wal W)" "wl_partition w = wl_partition (qw_wal W)" "wl_replicas w = wl_replicas (qw_wal W)"
    "wl_durability_acks w = wl_durability_acks (qw_wal W)" "ow_epoch (wl_state w) = ow_epoch (wl_state (qw_wal W))"
    "ow_durable_local (wl_state w) = ow_durable_local (wl_state (qw_wal W))" "ow_quiesced (wl_state w) = ow_quiesced (wl_state (qw_wal W))"
    "ow_next_lamport (wl_state w) = ow_next_lamport (wl_state (qw_wal W))" "ow_pending (wl_state w) = ow_pending (wl_state (qw_wal W))"
    "ow_flushing (wl_state w) = ow_flushing (wl_state (qw_wal W))" "ow_fatal (wl_state (qw_wal W)) \<noteq> None \<Longrightarrow> ow_fatal (wl_state w) \<noteq> None"
    using same by (simp_all add: same_owner_def)
  have gp: "grows crc W ?W \<and> peers_ok crc b r0 ?W"
    by (rule wal_frame[OF d(5) s(2,5,3,4,11) acked inflight]) (use rep peers_okD(9)[OF d(5)] in auto)
  obtain i j r where o: "owner_side crc b r0 W i j r" using d(3) by blast
  let ?r = "unat (ow_replicated (wl_state w))"
  have j: "ow_durable_local (wl_state (qw_wal W)) = word_of_nat j" "r \<le> j" "j \<le> length (qw_history W)" "ow_replicated (wl_state (qw_wal W)) = word_of_nat r"
    using o by (simp_all add: owner_side_def Let_def owner_log_def)
  have H: "contiguous (qw_history W)" using d(1) by (simp add: owner_history_def)
  have r': "r \<le> ?r" using rep(1) j unat_lamport[OF H, of r] by (simp add: word_le_nat_alt)
  have "?r \<le> j" using rep(2) j s(6) unat_lamport[OF H, of r] unat_lamport[OF H, of j] by (auto simp: word_le_nat_alt)
  moreover have "(word_of_nat r :: u64) \<le> word_of_nat ?r" using rep(1) j(4) by simp
  ultimately have "owner_side crc b r0 ?W i j ?r"
    using o r' unfolding owner_side_def Let_def by (auto simp: s intro: order_trans)
  then show ?thesis using d gp unfolding quorum_ok_def by (auto simp: s)
qed

text \<open>Bookkeeping that moves neither the committed prefix nor the batches.\<close>

lemma book_same:
  assumes ok: "quorum_ok crc b r0 W" and same: "same_owner (qw_wal W) w"
    and acked: "\<And>n d. ow_acked (wl_state w) n = Some d \<Longrightarrow> has crc W n (unat d)"
    and st: "ow_inflight (wl_state w) = ow_inflight (wl_state (qw_wal W))" "ow_replicated (wl_state w) = ow_replicated (wl_state (qw_wal W))"
  shows "grows crc W (W\<lparr>qw_wal := w\<rparr>) \<and> quorum_ok crc b r0 (W\<lparr>qw_wal := w\<rparr>)"
  by (rule book_frame[OF ok same acked]) (use st peers_okD(1)[OF quorum_okD(5)[OF ok]] in \<open>auto simp: batch_ok_def\<close>)

lemma fatal_ok: "quorum_ok crc b r0 W \<Longrightarrow> grows crc W (W\<lparr>qw_wal := set_fatal x (qw_wal W)\<rparr>) \<and> quorum_ok crc b r0 (W\<lparr>qw_wal := set_fatal x (qw_wal W)\<rparr>)"
  by (rule book_same)
     (use peers_okD(2)[OF quorum_okD(5)[of crc b r0 W]] in \<open>auto simp: same_owner_def set_fatal_def on_state_def split: if_splits\<close>)

lemma catch_up_ok:
  "quorum_ok crc b r0 W \<Longrightarrow> grows crc W (W\<lparr>qw_wal := record_catch_up n x (qw_wal W)\<rparr>) \<and> quorum_ok crc b r0 (W\<lparr>qw_wal := record_catch_up n x (qw_wal W)\<rparr>)"
  by (rule book_same)
     (use peers_okD(2)[OF quorum_okD(5)[of crc b r0 W]] in \<open>auto simp: same_owner_def record_catch_up_def on_state_def\<close>)

lemma ack_ok:
  assumes ok: "quorum_ok crc b r0 W" and n: "has crc W n (unat through)"
  shows "grows crc W (W\<lparr>qw_wal := record_ack n through (qw_wal W)\<rparr>) \<and> quorum_ok crc b r0 (W\<lparr>qw_wal := record_ack n through (qw_wal W)\<rparr>)"
proof (rule book_same[OF ok])
  fix k d assume k: "ow_acked (wl_state (record_ack n through (qw_wal W))) k = Some d"
  note old = peers_okD(2)[OF quorum_okD(5)[OF ok]]
  show "has crc W k (unat d)"
  proof (cases "k = n")
    case True
    then have "d = through \<or> ow_acked (wl_state (qw_wal W)) n = Some d \<or> d = 0"
      using k by (auto simp: record_ack_def record_catch_up_def on_state_def Let_def split: option.splits if_splits)
    then show ?thesis using n old True has_less[OF n, of 0] by auto
  next
    case False
    then show ?thesis using k old by (simp add: record_ack_def record_catch_up_def on_state_def)
  qed
qed (simp_all add: same_owner_def record_ack_def record_catch_up_def on_state_def)

lemma best_acked:
  fixes bs :: "batch list" and r :: lamport
  defines "best \<equiv> fold (\<lambda>b best. if ba_acked b \<and> best < ba_last b then ba_last b else best) bs r"
  shows "r \<le> best \<and> (best = r \<or> (\<exists>x\<in>set bs. ba_acked x \<and> ba_last x = best))"
  unfolding best_def
proof (induction bs arbitrary: r)
  case (Cons x bs)
  let ?r = "if ba_acked x \<and> r < ba_last x then ba_last x else r"
  have "r \<le> ?r" by (simp add: less_imp_le)
  then show ?case using Cons[of ?r] by (auto split: if_splits)
qed simp

text \<open>A batch that enough replicas have moves the committed prefix to an entry that enough replicas have.\<close>

lemma advance_ok:
  assumes ok: "quorum_ok crc b r0 W" and q: "quorum_has crc W (unat l)"
  shows "grows crc W (W\<lparr>qw_wal := on_state (\<lambda>st. advance (mark_acked l st)) (qw_wal W)\<rparr>)
    \<and> quorum_ok crc b r0 (W\<lparr>qw_wal := on_state (\<lambda>st. advance (mark_acked l st)) (qw_wal W)\<rparr>)"
proof -
  let ?st = "wl_state (qw_wal W)" and ?w = "on_state (\<lambda>st. advance (mark_acked l st)) (qw_wal W)"
  note old = peers_okD[OF quorum_okD(5)[OF ok]]
  have marked: "quorum_has crc W (unat (ba_last x))" if x: "x \<in> set (ow_inflight (mark_acked l ?st))" "ba_acked x" for x
  proof -
    obtain y where y: "y \<in> set (ow_inflight ?st)" "x = (if ba_last y = l then y\<lparr>ba_acked := True\<rparr> else y)"
      using x(1) by (auto simp: mark_acked_def)
    then show ?thesis using x(2) old(1) q by (cases "ba_last y = l") (auto simp: batch_ok_def)
  qed
  obtain i j r where o: "owner_side crc b r0 W i j r" using quorum_okD(3)[OF ok] by blast
  have H: "contiguous (qw_history W)" using quorum_okD(1)[OF ok] by (simp add: owner_history_def)
  have "r \<le> j" "j \<le> length (qw_history W)" "ow_replicated ?st = word_of_nat r" "ow_durable_local ?st = word_of_nat j"
    using o by (simp_all add: owner_side_def Let_def owner_log_def)
  then have le: "ow_replicated ?st \<le> ow_durable_local ?st" using lamport_le[OF H, of r j] by simp
  show ?thesis
  proof (cases "ow_quiesced ?st")
    case True
    show ?thesis
      by (rule book_frame[OF ok]) (use True marked old(2) in \<open>auto simp: same_owner_def on_state_def advance_def mark_acked_def\<close>)
  next
    case False
    let ?best = "fold (\<lambda>b best. if ba_acked b \<and> best < ba_last b then ba_last b else best) (ow_inflight (mark_acked l ?st)) (ow_replicated ?st)"
    have b: "ow_replicated ?st \<le> ?best" "?best = ow_replicated ?st \<or> (\<exists>x\<in>set (ow_inflight (mark_acked l ?st)). ba_acked x \<and> ba_last x = ?best)"
      using best_acked[where bs = "ow_inflight (mark_acked l ?st)" and r = "ow_replicated ?st"] by blast+
    have st: "wl_state ?w = (mark_acked l ?st)\<lparr>ow_replicated := min ?best (ow_durable_local ?st),
        ow_inflight := filter (\<lambda>b. min ?best (ow_durable_local ?st) < ba_last b) (ow_inflight (mark_acked l ?st))\<rparr>"
      using False by (simp add: on_state_def advance_def Let_def) (simp add: mark_acked_def)
    have small: "unat (min ?best (ow_durable_local ?st)) \<le> unat ?best" by (simp add: word_le_nat_alt[symmetric])
    have rep: "min ?best (ow_durable_local ?st) = ow_replicated ?st \<or> quorum_has crc W (unat (min ?best (ow_durable_local ?st)))"
      using b(2)
    proof (elim disjE bexE conjE)
      fix x assume "x \<in> set (ow_inflight (mark_acked l ?st))" "ba_acked x" "ba_last x = ?best"
      then show ?thesis using marked[of x] quorum_less[OF _ small, of crc W] by metis
    qed (use le in \<open>simp add: min_absorb1\<close>)
    show ?thesis
    proof (rule book_frame[OF ok])
      show "same_owner (qw_wal W) ?w" unfolding same_owner_def st by (simp add: on_state_def mark_acked_def)
      show "ow_replicated ?st \<le> ow_replicated (wl_state ?w)" using b(1) le by (simp add: st)
      show "ow_replicated (wl_state ?w) = ow_replicated ?st \<or> ow_replicated (wl_state ?w) \<le> ow_durable_local (wl_state ?w) \<and> quorum_has crc W (unat (ow_replicated (wl_state ?w)))"
        using rep by (simp add: st) (simp add: mark_acked_def)
    next
      fix n d assume "ow_acked (wl_state ?w) n = Some d"
      then show "has crc W n (unat d)" using old(2) unfolding st by (simp add: mark_acked_def)
    next
      fix x assume "x \<in> set (ow_inflight (wl_state ?w))" "ba_acked x"
      then show "quorum_has crc W (unat (ba_last x))" using marked by (simp add: st)
    qed
  qed
qed

section \<open>Runs of replicate\<close>

lemma peers_tasks:
  assumes ok: "peers_ok crc b r0 W" and len: "length (qw_tasks W) \<le> length ts"
    and tasks: "\<And>k. k < length ts \<Longrightarrow> task_ok crc (W\<lparr>qw_tasks := ts\<rparr>) k"
  shows "peers_ok crc b r0 (W\<lparr>qw_tasks := ts\<rparr>)"
proof -
  let ?W = "W\<lparr>qw_tasks := ts\<rparr>"
  note d = peers_okD[OF ok]
  have same: "has crc ?W = has crc W" "quorum_has crc ?W = quorum_has crc W" "batch_ok crc ?W = batch_ok crc W"
    by (simp_all add: fun_eq_iff has_def quorum_has_def batch_ok_def Let_def)
  have "grows crc W ?W" by (simp add: grows_def same)
  then have "call_ok crc ?W c" if "c \<in> set (qw_calls W)" for c by (rule grows_call) (use d(3) that len in simp_all)
  then show ?thesis using d tasks unfolding peers_ok_def Let_def by (simp add: same)
qed

lemma sent_more:
  assumes ok: "peers_ok crc b r0 W"
    and new: "\<And>x. x \<in> set xs \<Longrightarrow> x \<in> set (qw_sent W) \<or> sent_ok crc (wl_partition (qw_wal W)) (ow_epoch (wl_state (qw_wal W))) (qw_history W) (snd x)"
  shows "peers_ok crc b r0 (W\<lparr>qw_sent := xs\<rparr>)"
proof -
  let ?W = "W\<lparr>qw_sent := xs\<rparr>"
  note d = peers_okD[OF ok]
  have same: "has crc ?W = has crc W" "quorum_has crc ?W = quorum_has crc W" "batch_ok crc ?W = batch_ok crc W" "call_ok crc ?W = call_ok crc W"
    by (simp_all add: fun_eq_iff has_def quorum_has_def batch_ok_def call_ok_def Let_def)
  have calls: "calls_of k ?W = calls_of k W" for k by (simp add: calls_of_def)
  have "settled_ok crc ?W k q x = settled_ok crc W k q x" for k q x
    unfolding settled_ok_def same(2) calls by (auto split: option.split sum.split)
  then have "task_ok crc ?W k = task_ok crc W k" for k by (simp add: task_ok_def Let_def same calls)
  moreover have "\<forall>x\<in>set xs. sent_ok crc (wl_partition (qw_wal W)) (ow_epoch (wl_state (qw_wal W))) (qw_history W) (snd x)" using new d(5) by blast
  ultimately show ?thesis using d unfolding peers_ok_def Let_def by (simp add: same)
qed

lemma owner_same:
  assumes ok: "quorum_ok crc b r0 W" and peers: "peers_ok crc b r0 W'"
    and same: "qw_wal W' = qw_wal W" "qw_taken W' = qw_taken W" "qw_history W' = qw_history W" "set (qw_spawned W') \<subseteq> set (qw_spawned W)"
  shows "quorum_ok crc b r0 W'"
proof -
  note d = quorum_okD[OF ok]
  obtain i j r where "owner_side crc b r0 W i j r" using d(3) by blast
  then have "owner_side crc b r0 W' i j r" by (simp add: owner_side_def same)
  moreover have "\<forall>B\<in>set (qw_spawned W'). batch_in crc (qw_history W') B" using d(4) same(4) by (auto simp: same(3))
  ultimately show ?thesis using d(1,2) peers unfolding quorum_ok_def same by auto
qed

lemma task_okD:
  assumes "task_ok crc W k"
  shows "sent_ok crc (wl_partition (qw_wal W)) (ow_epoch (wl_state (qw_wal W))) (qw_history W) (ta_request (qw_tasks W ! k))"
    "ta_required (qw_tasks W ! k) = required_acks (qw_wal W)" "set (ta_by (qw_tasks W ! k)) \<subseteq> set (wl_replicas (qw_wal W))"
    "\<forall>n\<in>set (ta_by (qw_tasks W ! k)). has crc W n (task_last (qw_tasks W ! k))" "distinct (ta_by (qw_tasks W ! k) @ map ca_node (calls_of k W))"
    "\<forall>c\<in>set (calls_of k W). ca_request c = ta_request (qw_tasks W ! k)" "settled_ok crc W k (task_last (qw_tasks W ! k)) (ta_result (qw_tasks W ! k))"
  using assms unfolding task_ok_def Let_def by - (elim conjE, assumption)+

lemma one_is_enough:
  assumes "has crc W n q" and "n \<in> set (wl_replicas (qw_wal W))" and "ow_fatal (wl_state (qw_wal W)) \<noteq> None"
  shows "quorum_has crc W q"
  unfolding quorum_has_def by (rule exI[of _ "{n}"]) (use assms in simp)

lemma end_call_ok:
  assumes ok: "quorum_ok crc b r0 W" and i: "i < length (qw_calls W)"
    and out: "out = Acked \<Longrightarrow> has crc W (ca_node (qw_calls W ! i)) (unat (ar_last_lamport (ca_request (qw_calls W ! i))))"
  shows "quorum_ok crc b r0 (end_call i out W)"
proof -
  let ?c = "qw_calls W ! i" and ?W1 = "W\<lparr>qw_calls := remove_at i (qw_calls W)\<rparr>"
  have ok1: "quorum_ok crc b r0 ?W1" by (rule owner_same[OF ok remove_call[OF quorum_okD(5)[OF ok] i]]) simp_all
  have same: "has crc ?W1 = has crc W" "quorum_has crc ?W1 = quorum_has crc W" by (simp_all add: fun_eq_iff has_def quorum_has_def Let_def)
  have c: "call_ok crc W ?c" using peers_okD(3)[OF quorum_okD(5)[OF ok]] i by simp
  show ?thesis
  proof (cases "ca_task ?c")
    case None
    then show ?thesis using ok1 fatal_ok[OF ok1] by (auto simp: end_call_def Let_def split: outcome.split)
  next
    case (Some k)
    have k: "k < length (qw_tasks W)" using c Some by (simp add: call_ok_def Let_def)
    have t: "task_ok crc W k" using peers_okD(4)[OF quorum_okD(5)[OF ok]] k by blast
    have mem: "?c \<in> set (calls_of k W)" using i Some by (simp add: calls_of_def)
    have req: "ca_request ?c = ta_request (qw_tasks W ! k)" using task_okD(6)[OF t] mem by blast
    have node: "ca_node ?c \<in> set (wl_replicas (qw_wal W))" using c by (simp add: call_ok_def Let_def)
    have acked: "has crc W (ca_node ?c) (task_last (qw_tasks W ! k))" if "out = Acked" using out[OF that] req by (simp add: task_last_def)
    show ?thesis
    proof (cases "ta_result (qw_tasks W ! k)")
      case None
      let ?t = "count_for (ca_node ?c) out (qw_tasks W ! k)" and ?ts = "(qw_tasks W)[k := count_for (ca_node ?c) out (qw_tasks W ! k)]"
      have t1: "task_ok crc ?W1 m" if "m < length (qw_tasks W)" for m using peers_okD(4)[OF quorum_okD(5)[OF ok1]] that by simp
      have fresh: "ca_node ?c \<notin> set (ta_by (qw_tasks W ! k))" "ca_node ?c \<notin> ca_node ` set (calls_of k ?W1)"
        using task_okD(5)[OF t] mem split_calls[OF i, of k] Some by (auto simp: calls_of_remove)
      have calls: "calls_of m (?W1\<lparr>qw_tasks := ?ts\<rparr>) = calls_of m ?W1" for m by (simp add: calls_of_def)
      have same2: "has crc (?W1\<lparr>qw_tasks := ?ts\<rparr>) = has crc W" "quorum_has crc (?W1\<lparr>qw_tasks := ?ts\<rparr>) = quorum_has crc W"
        by (simp_all add: fun_eq_iff has_def quorum_has_def Let_def)
      have g: "grows crc ?W1 (?W1\<lparr>qw_tasks := ?ts\<rparr>)" by (simp add: grows_def same same2)
      have "task_ok crc (?W1\<lparr>qw_tasks := ?ts\<rparr>) m" if m: "m < length (qw_tasks W)" for m
      proof (cases "m = k")
        case False
        show ?thesis by (rule grows_task[OF g t1[OF m]]) (use False task_distinct[OF t1[OF m]] in \<open>simp_all add: calls open_calls_def\<close>)
      next
        case True
        note d = task_okD[OF t1[OF k]]
        have fields: "ta_request ?t = ta_request (qw_tasks W ! k)" "ta_required ?t = ta_required (qw_tasks W ! k)" "ta_result ?t = None"
          "set (ta_by ?t) = set (ta_by (qw_tasks W ! k)) \<union> (if out = Acked then {ca_node ?c} else {})" "distinct (ta_by ?t) = distinct (ta_by (qw_tasks W ! k))"
          using None fresh(1) by (auto simp: count_for_def split: outcome.split)
        have last: "task_last ?t = task_last (qw_tasks W ! k)" by (simp add: task_last_def fields)
        have "distinct (ta_by ?t @ map ca_node (calls_of k ?W1))" using d(5) fields(4,5) fresh(2) by (auto simp: fields(5))
        then show ?thesis unfolding task_ok_def Let_def True
          using d(1-4,6) node acked fields k by (auto simp: same same2 calls last settled_ok_def)
      qed
      then have "peers_ok crc b r0 (?W1\<lparr>qw_tasks := ?ts\<rparr>)" by (intro peers_tasks[OF quorum_okD(5)[OF ok1]]) simp_all
      then have "quorum_ok crc b r0 (?W1\<lparr>qw_tasks := ?ts\<rparr>)" by (rule owner_same[OF ok1]) simp_all
      then show ?thesis using Some None by (simp add: end_call_def Let_def)
    next
      case settled: (Some res)
      have "quorum_has crc W (task_last (qw_tasks W ! k))" if "out = Acked"
        using task_okD(7)[OF t] settled mem one_is_enough[OF acked[OF that] node] by (auto simp: settled_ok_def split: sum.splits if_splits)
      then have "quorum_ok crc b r0 (?W1\<lparr>qw_wal := on_state (\<lambda>st. advance (mark_acked (ar_last_lamport (ta_request (qw_tasks W ! k))) st)) (qw_wal W)\<rparr>)" if "out = Acked"
        using advance_ok[OF ok1, of "ar_last_lamport (ta_request (qw_tasks W ! k))"] that by (simp add: same task_last_def)
      then show ?thesis using Some settled ok1 fatal_ok[OF ok1]
        by (cases out) (simp_all add: end_call_def Let_def record_late_outcome_def)
    qed
  qed
qed

lemma filter_below:
  assumes H: "contiguous H" and q: "q \<le> length H" and f: "f \<le> j" "j \<le> length H"
  shows "filter (\<lambda>x. we_lamport x \<le> word_of_nat q) (drop f (take j H)) = take (min j q - f) (drop f H)"
proof -
  let ?P = "\<lambda>x. we_lamport x \<le> (word_of_nat q :: u64)"
  have q64: "q < 2 ^ 64" using q H by (simp add: contiguous_def)
  have "take j H = take f H @ drop f (take j H)" using append_take_drop_id[of f "take j H"] f by (simp add: min_absorb1)
  then have "take (min j q) H = take (min f q) H @ filter ?P (drop f (take j H))"
    using filter_history[OF H q64, of j] filter_history[OF H q64, of f] by (metis filter_append)
  then have "filter ?P (drop f (take j H)) = drop (length (take (min f q) H)) (take (min j q) H)" by simp
  also have "\<dots> = take (min j q - f) (drop f H)" using f q by (cases "f \<le> q") (simp_all add: drop_take min_def)
  finally show ?thesis .
qed

lemma last_part: "0 < m \<Longrightarrow> k + m \<le> length H \<Longrightarrow> last (take m (drop k H)) = H ! (k + m - 1)"
proof -
  assume m: "0 < m" "k + m \<le> length H"
  then have "length (take m (drop k H)) = m" by simp
  then show ?thesis using m by (subst last_conv_nth) auto
qed

lemma sent_last:
  assumes "sent_ok crc p e H r" and H: "contiguous H"
  obtains q where "q \<le> length H" "ar_last_lamport r = word_of_nat q"
proof -
  obtain k m where k: "k + m \<le> length H" "ar_prev_lamport r = word_of_nat k" "ar_entries r = map (framed crc) (take m (drop k H))"
    using assms by (auto simp: sent_ok_def)
  show thesis
  proof (cases "m = 0")
    case True
    then show thesis using that[of k] k by (simp add: ar_last_lamport_def)
  next
    case False
    then have "last (take m (drop k H)) = H ! (k + m - 1)" using k(1) by (simp add: last_part)
    then have "ar_last_lamport r = word_of_nat (k + m)"
      using k False contiguous_lamport[OF H, of "k + m - 1"] by (simp add: ar_last_lamport_def last_map framed_def min_def)
    then show thesis using that[of "k + m"] k(1) by simp
  qed
qed

lemma catch_up_request_ok:
  assumes ok: "quorum_ok crc b r0 W" and r: "sent_ok crc (wl_partition (qw_wal W)) (ow_epoch (wl_state (qw_wal W))) (qw_history W) r"
    and run: "catch_up_request crc n from r (qw_wal W) = (w, again)"
  shows "quorum_ok crc b r0 (W\<lparr>qw_wal := w\<rparr>)
    \<and> (\<forall>r'. again = Some r' \<longrightarrow> w = qw_wal W \<and> sent_ok crc (wl_partition (qw_wal W)) (ow_epoch (wl_state (qw_wal W))) (qw_history W) r')"
proof -
  let ?H = "qw_history W"
  obtain i j k where o: "owner_side crc b r0 W i j k" using quorum_okD(3)[OF ok] by blast
  have H: "contiguous ?H" using quorum_okD(1)[OF ok] by (simp add: owner_history_def)
  have log: "owner_log crc (wl_log (qw_wal W)) ?H i j" and j: "j \<le> length ?H" using o by (simp_all add: owner_side_def Let_def owner_log_def)
  obtain res where res: "entries_after crc from (wl_log (qw_wal W)) = (wl_log (qw_wal W), Inr res)"
    "\<And>es. res = CaughtUpBy es \<Longrightarrow> unat from \<le> j \<and> es = drop (unat from) (take j ?H)"
    using owner_entries_after[OF log H, of "from"] by blast
  have act: "log_action (entries_after crc from) (qw_wal W) = (qw_wal W, Inr res)" by (simp add: log_action_def res(1))
  show ?thesis
  proof (cases res)
    case (CaughtUpBy es)
    have es: "unat from \<le> j" "es = drop (unat from) (take j ?H)" using res(2)[OF CaughtUpBy] by simp_all
    obtain q where q: "q \<le> length ?H" "ar_last_lamport r = word_of_nat q" by (rule sent_last[OF r H])
    have "filter (\<lambda>e. we_lamport e \<le> ar_last_lamport r) es = take (min j q - unat from) (drop (unat from) ?H)"
      using filter_below[OF H q(1) es(1) j] es(2) q(2) by simp
    moreover have "unat from + (min j q - unat from) \<le> length ?H" using es(1) j by linarith
    ultimately have "sent_ok crc (wl_partition (qw_wal W)) (ow_epoch (wl_state (qw_wal W))) ?H r'" if "again = Some r'" for r'
      using run act CaughtUpBy that r
      by (intro sent_okI[where k = "unat from" and m = "min j q - unat from"]) (auto simp: catch_up_request_def framed_def[abs_def] sent_ok_def)
    moreover have "w = qw_wal W" using run act CaughtUpBy by (simp add: catch_up_request_def)
    ultimately show ?thesis using ok by simp
  next
    case UpToDate
    then have "w = qw_wal W" "again = None" using run act by (simp_all add: catch_up_request_def)
    then show ?thesis using ok by simp
  next
    case (BeyondRetention x)
    then show ?thesis using run act catch_up_ok[OF ok, of n] by (auto simp: catch_up_request_def)
  qed
qed

lemma answer_call_ok:
  assumes ok: "quorum_ok crc b r0 W" and i: "i < length (qw_calls W)"
    and reply: "\<And>d x. reply = Some (OkResponse d x) \<Longrightarrow> has crc W (ca_node (qw_calls W ! i)) (unat d)"
  shows "quorum_ok crc b r0 (answer_call crc i reply W)"
proof -
  let ?c = "qw_calls W ! i"
  have c: "call_ok crc W ?c" using peers_okD(3)[OF quorum_okD(5)[OF ok]] i by simp
  have acked: "quorum_ok crc b r0 (end_call i (if ar_last_lamport (ca_request ?c) \<le> d then Acked else NotAcked) (W\<lparr>qw_wal := record_ack (ca_node ?c) d (qw_wal W)\<rparr>))"
    if "reply = Some (OkResponse d x)" for d x
  proof -
    let ?W = "W\<lparr>qw_wal := record_ack (ca_node ?c) d (qw_wal W)\<rparr>"
    have a: "grows crc W ?W" "quorum_ok crc b r0 ?W" using ack_ok[OF ok reply[OF that]] by auto
    have "has crc ?W (ca_node ?c) (unat d)" using a(1) reply[OF that] by (simp add: grows_def)
    then show ?thesis using has_less by (intro end_call_ok[OF a(2)]) (auto simp: i word_le_nat_alt split: if_splits)
  qed
  have plain: "quorum_ok crc b r0 (end_call i out (W\<lparr>qw_wal := qw_wal W\<rparr>))" if "out \<noteq> Acked" for out
    using end_call_ok[OF ok i, of out] that by simp
  show ?thesis
  proof (cases "ca_again ?c")
    case True
    then show ?thesis using acked plain
      by (auto simp: answer_call_def Let_def on_catch_up_reply_def split: option.splits wal_response.splits)
  next
    case False
    have gap: "quorum_ok crc b r0 (answer_call crc i reply W)" if "reply = Some (GapResponse d x)" for d x
    proof -
      obtain w again where run: "catch_up_request crc (ca_node ?c) d (ca_request ?c) (qw_wal W) = (w, again)" by fastforce
      have sent: "sent_ok crc (wl_partition (qw_wal W)) (ow_epoch (wl_state (qw_wal W))) (qw_history W) (ca_request ?c)"
        using c by (simp add: call_ok_def Let_def)
      note cu = catch_up_request_ok[OF ok sent run]
      show ?thesis
      proof (cases again)
        case None
        then have "answer_call crc i reply W = end_call i NotAcked (W\<lparr>qw_wal := w\<rparr>)"
          using that False run by (simp add: answer_call_def Let_def on_reply_def)
        moreover have "quorum_ok crc b r0 (end_call i NotAcked (W\<lparr>qw_wal := w\<rparr>))" by (rule end_call_ok) (use cu i in simp_all)
        ultimately show ?thesis by simp
      next
        case (Some r)
        have r: "w = qw_wal W" "sent_ok crc (wl_partition (qw_wal W)) (ow_epoch (wl_state (qw_wal W))) (qw_history W) r" using cu Some by auto
        let ?c' = "?c\<lparr>ca_sent := r, ca_again := True, ca_reply := None\<rparr>"
        have "call_ok crc W ?c'" using c r by (simp add: call_ok_def Let_def)
        then have p: "peers_ok crc b r0 (W\<lparr>qw_calls := (qw_calls W)[i := ?c']\<rparr>)" (is "peers_ok _ _ _ ?W")
          by (intro update_call[OF quorum_okD(5)[OF ok] i]) simp_all
        have "peers_ok crc b r0 (?W\<lparr>qw_sent := qw_sent W @ [(ca_node ?c, r)]\<rparr>)" by (rule sent_more[OF p]) (use r in auto)
        then have "quorum_ok crc b r0 (?W\<lparr>qw_sent := qw_sent W @ [(ca_node ?c, r)]\<rparr>)" by (rule owner_same[OF ok]) simp_all
        then show ?thesis using that False run Some r(1) by (simp add: answer_call_def Let_def on_reply_def)
      qed
    qed
    show ?thesis
    proof (cases reply)
      case (Some x)
      then show ?thesis using False acked plain gap by (cases x) (auto simp: answer_call_def Let_def on_reply_def)
    qed (use False plain in \<open>simp add: answer_call_def Let_def on_reply_def\<close>)
  qed
qed

lemma start_task_ok:
  assumes ok: "quorum_ok crc b r0 W" and r: "sent_ok crc (wl_partition (qw_wal W)) (ow_epoch (wl_state (qw_wal W))) (qw_history W) r"
  shows "quorum_ok crc b r0 (start_task r W)"
proof -
  define ns where "ns = (if required_acks (qw_wal W) = 0 then [] else wl_replicas (qw_wal W))"
  define t where "t = \<lparr>ta_request = r, ta_required = required_acks (qw_wal W), ta_by = [], ta_stale = None, ta_result = None\<rparr>"
  let ?k = "length (qw_tasks W)"
  let ?W = "W\<lparr>qw_tasks := qw_tasks W @ [t], qw_calls := qw_calls W @ map (new_call (Some ?k) r) ns, qw_sent := qw_sent W @ map (\<lambda>n. (n, r)) ns\<rparr>"
  have W': "start_task r W = ?W" by (simp add: start_task_def Let_def ns_def t_def)
  note d = peers_okD[OF quorum_okD(5)[OF ok]]
  have same: "has crc ?W = has crc W" "quorum_has crc ?W = quorum_has crc W" "batch_ok crc ?W = batch_ok crc W"
    by (simp_all add: fun_eq_iff has_def quorum_has_def batch_ok_def Let_def)
  have g: "grows crc W ?W" by (simp add: grows_def same)
  have known: "ca_task c \<noteq> Some ?k" if "c \<in> set (qw_calls W)" for c using d(3) that by (auto simp: call_ok_def Let_def)
  have old: "calls_of m ?W = calls_of m W" if "m < ?k" for m using that by (simp add: calls_of_def new_call_def)
  have new: "calls_of ?k ?W = map (new_call (Some ?k) r) ns" using known by (simp add: calls_of_def new_call_def filter_empty_conv)
  have ns: "distinct ns" "set ns \<subseteq> set (wl_replicas (qw_wal W))" using d(8) by (simp_all add: ns_def)
  have "call_ok crc ?W c" if "c \<in> set (qw_calls W)" for c by (rule grows_call[OF g]) (use d(3) that in simp_all)
  moreover have "call_ok crc ?W (new_call (Some ?k) r n)" if "n \<in> set ns" for n
    using that r ns(2) by (auto simp: call_ok_def Let_def new_call_def)
  moreover have "task_ok crc ?W m" if "m < ?k" for m
    by (rule grows_task[OF g]) (use d(4) that old[OF that] task_distinct in \<open>auto simp: open_calls_def nth_append\<close>)
  moreover have "task_ok crc ?W ?k"
    using r ns(1) unfolding task_ok_def Let_def new by (auto simp: t_def settled_ok_def new_call_def comp_def required_acks_def)
  ultimately have "peers_ok crc b r0 ?W" using d(1,2,5-9) r unfolding peers_ok_def Let_def by (auto simp: same less_Suc_eq)
  then show ?thesis unfolding W' by (rule owner_same[OF ok]) simp_all
qed

lemma set_result_ok:
  assumes ok: "quorum_ok crc b r0 W" and k: "k < length (qw_tasks W)" and res: "settled_ok crc W k (task_last (qw_tasks W ! k)) x"
  shows "quorum_ok crc b r0 (W\<lparr>qw_tasks := (qw_tasks W)[k := (qw_tasks W ! k)\<lparr>ta_result := x\<rparr>]\<rparr>)"
proof -
  let ?t = "(qw_tasks W ! k)\<lparr>ta_result := x\<rparr>"
  let ?W = "W\<lparr>qw_tasks := (qw_tasks W)[k := ?t]\<rparr>"
  have same: "has crc ?W = has crc W" "quorum_has crc ?W = quorum_has crc W" by (simp_all add: fun_eq_iff has_def quorum_has_def Let_def)
  have calls: "calls_of m ?W = calls_of m W" for m by (simp add: calls_of_def)
  have g: "grows crc W ?W" by (simp add: grows_def same)
  have t: "task_ok crc W m" if "m < length (qw_tasks W)" for m using peers_okD(4)[OF quorum_okD(5)[OF ok]] that by blast
  have settled: "settled_ok crc ?W k (task_last (qw_tasks W ! k)) x" by (rule grows_settled[OF g res]) (simp add: open_calls_def calls)
  have "task_ok crc ?W m" if m: "m < length (qw_tasks W)" for m
  proof (cases "m = k")
    case True
    have "task_last ?t = task_last (qw_tasks W ! k)" by (simp add: task_last_def)
    then show ?thesis unfolding task_ok_def Let_def True using task_okD(1-6)[OF t[OF k]] k settled
      by (auto simp: same calls)
  next
    case False
    show ?thesis by (rule grows_task[OF g t[OF m]]) (use False task_distinct[OF t[OF m]] in \<open>simp_all add: calls open_calls_def\<close>)
  qed
  then have "peers_ok crc b r0 ?W" by (intro peers_tasks[OF quorum_okD(5)[OF ok]]) simp_all
  then show ?thesis by (rule owner_same[OF ok]) simp_all
qed

lemma tasks_then_wal: "W\<lparr>qw_tasks := ts, qw_wal := w\<rparr> = W\<lparr>qw_wal := w, qw_tasks := ts\<rparr>"
  by (cases W) simp

lemma decide_task_ok:
  assumes ok: "quorum_ok crc b r0 W" and k: "k < length (qw_tasks W)"
  shows "quorum_ok crc b r0 (decide_task k again W)"
proof -
  let ?t = "qw_tasks W ! k"
  have t: "task_ok crc W k" using peers_okD(4)[OF quorum_okD(5)[OF ok]] k by blast
  have result: "quorum_ok crc b r0 (W\<lparr>qw_tasks := (qw_tasks W)[k := ?t\<lparr>ta_result := x\<rparr>], qw_wal := w\<rparr>)"
    if "grows crc W (W\<lparr>qw_wal := w\<rparr>) \<and> quorum_ok crc b r0 (W\<lparr>qw_wal := w\<rparr>)" "settled_ok crc (W\<lparr>qw_wal := w\<rparr>) k (task_last ?t) x" for w x
    unfolding tasks_then_wal using set_result_ok[of crc b r0 "W\<lparr>qw_wal := w\<rparr>" k x] that k by simp
  have calls: "calls_of k (W\<lparr>qw_wal := w\<rparr>) = calls_of k W" for w by (simp add: calls_of_def)
  show ?thesis
  proof (cases "poll_decides (ta_request ?t) (ta_required ?t) (length (ta_by ?t), ta_stale ?t) (length (calls_of k W))")
    case None
    then show ?thesis using ok by (simp add: decide_task_def Let_def)
  next
    case (Some x)
    from Some consider (stale) c where "x = Inl (StaleEpoch (ar_partition (ta_request ?t)) (ar_epoch (ta_request ?t)) c)"
      | (enough) "x = Inr ()" "ta_required ?t \<le> length (ta_by ?t)"
      | (short) m where "x = Inl (Unavailable m)" "calls_of k W = []"
      by (auto simp: poll_decides_def split: option.splits if_splits)
    then show ?thesis
    proof cases
      case stale
      let ?w = "set_fatal (StaleEpoch (ar_partition (ta_request ?t)) (ar_epoch (ta_request ?t)) c) (qw_wal W)"
      have "settled_ok crc (W\<lparr>qw_wal := ?w\<rparr>) k (task_last ?t) (Some x)" by (simp add: settled_ok_def stale set_fatal_def on_state_def)
      from result[OF fatal_ok[OF ok] this] show ?thesis using Some stale by (simp add: decide_task_def Let_def batch_replicated_def)
    next
      case enough
      have "quorum_has crc W (task_last ?t)" unfolding quorum_has_def
        by (rule exI[of _ "set (ta_by ?t)"]) (use task_okD(2-5)[OF t] enough(2) in \<open>auto simp: distinct_card\<close>)
      note a = advance_ok[OF ok, of "ar_last_lamport (ta_request ?t)", OF this[unfolded task_last_def]]
      have "settled_ok crc (W\<lparr>qw_wal := on_state (\<lambda>st. advance (mark_acked (ar_last_lamport (ta_request ?t)) st)) (qw_wal W)\<rparr>) k (task_last ?t) (Some x)"
        using grows_quorum[of crc W] a \<open>quorum_has crc W (task_last ?t)\<close> by (simp add: settled_ok_def enough)
      from result[OF a this] show ?thesis using Some enough by (simp add: decide_task_def Let_def batch_replicated_def)
    next
      case short
      have s: "settled_ok crc W k (task_last ?t) (Some x)" by (simp add: settled_ok_def short)
      let ?W = "W\<lparr>qw_tasks := (qw_tasks W)[k := ?t\<lparr>ta_result := Some x\<rparr>]\<rparr>"
      have W1: "quorum_ok crc b r0 ?W" by (rule set_result_ok[OF ok k s])
      have "quorum_ok crc b r0 (start_task (ta_request ?t) ?W)" by (rule start_task_ok[OF W1]) (use task_okD(1)[OF t] in simp)
      moreover have "quorum_ok crc b r0 (?W\<lparr>qw_wal := batch_replicated (ar_last_lamport (ta_request ?t)) x (qw_wal ?W)\<rparr>)"
        by (rule conjunct2[OF book_same[OF W1]])
           (use peers_okD(2)[OF quorum_okD(5)[OF W1]] short in \<open>auto simp: same_owner_def batch_replicated_def on_state_def split: if_splits\<close>)
      ultimately show ?thesis using Some short by (simp add: decide_task_def Let_def)
    qed
  qed
qed

section \<open>The owner's tasks\<close>

lemma history_grows:
  assumes H: "owner_history p e H" and x: "record_fits (EntryRecord x)" "we_partition x = p" "we_epoch x \<le> e" "we_lamport x = word_of_nat (Suc (length H))"
    and room: "length H + 1 < 2 ^ 64 - 1"
  shows "owner_history p e (H @ [x])"
  using assms by (auto simp: owner_history_def contiguous_def nth_append less_Suc_eq)

lemma grows_history:
  assumes "wl_partition (qw_wal W') = wl_partition (qw_wal W)" "ow_epoch (wl_state (qw_wal W')) = ow_epoch (wl_state (qw_wal W))"
    "wl_replicas (qw_wal W') = wl_replicas (qw_wal W)" "wl_durability_acks (qw_wal W') = wl_durability_acks (qw_wal W)"
    "qw_history W' = qw_history W @ xs" "ow_fatal (wl_state (qw_wal W)) \<noteq> None \<longrightarrow> ow_fatal (wl_state (qw_wal W')) \<noteq> None" "qw_nodes W' = qw_nodes W"
  shows "grows crc W W'"
proof -
  have "has crc W' n q" if "has crc W n q" for n q
    using that unfolding has_def Let_def assms(1,2,5,7) by (metis node_at_grows)
  then show ?thesis using assms by (simp add: grows_def)
qed

text \<open>A step of the owner that leaves what it knows of the others alone.\<close>

lemma owner_step:
  assumes ok: "quorum_ok crc (Suc b) r0 W"
    and ids: "wl_partition (qw_wal W') = wl_partition (qw_wal W)" "ow_epoch (wl_state (qw_wal W')) = ow_epoch (wl_state (qw_wal W))"
      "wl_replicas (qw_wal W') = wl_replicas (qw_wal W)" "wl_durability_acks (qw_wal W') = wl_durability_acks (qw_wal W)"
      "qw_history W' = qw_history W @ xs" "ow_fatal (wl_state (qw_wal W)) \<noteq> None \<longrightarrow> ow_fatal (wl_state (qw_wal W')) \<noteq> None" "qw_nodes W' = qw_nodes W"
    and same: "qw_tasks W' = qw_tasks W" "qw_calls W' = qw_calls W" "qw_sent W' = qw_sent W"
      "ow_acked (wl_state (qw_wal W')) = ow_acked (wl_state (qw_wal W))" "ow_replicated (wl_state (qw_wal W')) = ow_replicated (wl_state (qw_wal W))"
    and inflight: "\<forall>x\<in>set (ow_inflight (wl_state (qw_wal W'))). x \<in> set (ow_inflight (wl_state (qw_wal W))) \<or> \<not> ba_acked x"
    and hist: "owner_history (wl_partition (qw_wal W)) (ow_epoch (wl_state (qw_wal W))) (qw_history W')" "length xs \<le> 1"
    and owner: "owner_side crc b r0 W' i j r"
    and spawned: "\<forall>B\<in>set (qw_spawned W'). B \<in> set (qw_spawned W) \<or> batch_in crc (qw_history W') B"
  shows "quorum_ok crc b r0 W'"
proof -
  note d = quorum_okD[OF ok]
  have g: "grows crc W W'" by (rule grows_history[OF ids])
  have "peers_ok crc b r0 W'"
  proof (rule peers_frame[OF d(5) g same inflight])
    fix n s assume "qw_nodes W' n = Some s"
    then show "has crc W' n 0 \<and> room_at b (wl_partition (qw_wal W)) (ow_epoch (wl_state (qw_wal W))) s"
      using peers_okD(6)[OF d(5)] g room_at_less ids(7) by (simp add: grows_def)
  qed (simp add: ids(7))
  moreover have "batch_in crc (qw_history W') B" if "batch_in crc (qw_history W) B" for B
  proof -
    obtain k m where k: "k + m \<le> length (qw_history W)" "map pn_entry B = take m (drop k (qw_history W))" "B \<noteq> []" "frames_ok crc B"
      using \<open>batch_in crc (qw_history W) B\<close> by (auto simp: batch_in_def)
    then have "k + m \<le> length (qw_history W')" "map pn_entry B = take m (drop k (qw_history W'))" by (simp_all add: ids(5))
    then show ?thesis using k(3,4) unfolding batch_in_def by blast
  qed
  moreover have "length (qw_history W') + b < 2 ^ 64 - 1" using d(2) hist(2) by (simp add: ids(5))
  ultimately show ?thesis using hist(1) owner spawned d(4) unfolding quorum_ok_def ids(1,2) by blast
qed

lemma submit_ok:
  assumes ok: "quorum_ok crc (Suc b) r0 W"
    and fits: "\<And>l e p. record_fits (EntryRecord \<lparr>we_lamport = l, we_epoch = e, we_partition = p, we_op = op\<rparr>)"
  shows "quorum_ok crc b r0 (quorum_step crc (SubmitOp op) W)"
proof (cases "submit crc op (qw_wal W)")
  case (Pair w x)
  let ?st = "wl_state (qw_wal W)" and ?H = "qw_history W"
  show ?thesis
  proof (cases x)
    case (Inl e)
    then have "w = qw_wal W" using Pair by (auto simp: submit_def Let_def split: option.splits if_splits)
    then show ?thesis using quorum_ok_less[OF ok] Pair Inl by simp
  next
    case (Inr l)
    have st: "ow_fatal ?st = None" "\<not> ow_quiesced ?st" "l = next_counter (ow_next_lamport ?st)"
      using Pair Inr by (auto simp: submit_def Let_def split: option.splits if_splits)
    define entry where "entry = \<lparr>we_lamport = l, we_epoch = ow_epoch ?st, we_partition = wl_partition (qw_wal W), we_op = op\<rparr>"
    let ?new = "\<lparr>pn_entry = entry, pn_frame = frame_encode crc (EntryRecord entry)\<rparr>"
    have w: "w = (qw_wal W)\<lparr>wl_state := ?st\<lparr>ow_next_lamport := l, ow_pending := ow_pending ?st @ [?new], ow_flushing := True\<rparr>\<rparr>"
      using Pair Inr st by (cases "ow_flushing ?st") (auto simp: submit_def Let_def ensure_flusher_def on_state_def entry_def)
    obtain i j r where o: "owner_side crc b r0 W i j r" using quorum_okD(3)[OF ok] owner_side_less by blast
    have at: "ow_next_lamport ?st = word_of_nat (length ?H)" using o st(2) by (simp add: owner_side_def Let_def)
    then have l: "l = word_of_nat (Suc (length ?H))" using st(3) by (simp add: next_counter_def)
    let ?W = "W\<lparr>qw_wal := w, qw_history := ?H @ [entry]\<rparr>"
    have "owner_side crc b r0 ?W i j r"
      using o st(2) l unfolding owner_side_def Let_def
      by (auto simp: w owner_log_def frames_ok_def)
    moreover have "owner_history (wl_partition (qw_wal W)) (ow_epoch ?st) (?H @ [entry])"
      by (rule history_grows[OF quorum_okD(1)[OF ok]]) (use fits l quorum_okD(2)[OF ok] in \<open>simp_all add: entry_def\<close>)
    ultimately have "quorum_ok crc b r0 ?W"
      using quorum_okD(4)[OF ok] by (intro owner_step[OF ok, where xs = "[entry]"]) (auto simp: w)
    moreover have "quorum_step crc (SubmitOp op) W = ?W" using Pair Inr by (simp add: entry_def w)
    ultimately show ?thesis by simp
  qed
qed

lemma take_ok:
  assumes ok: "quorum_ok crc (Suc b) r0 W"
  shows "quorum_ok crc b r0 (quorum_step crc TakeQueue W)"
proof (cases "ow_flushing (wl_state (qw_wal W)) \<and> qw_taken W = []")
  case True
  obtain i j r where o: "owner_side crc b r0 W i j r" using quorum_okD(3)[OF ok] owner_side_less by blast
  let ?W = "quorum_step crc TakeQueue W"
  have "owner_side crc b r0 ?W i j r"
    using o True unfolding owner_side_def Let_def by (auto simp: flush_take_def release_turn_def on_state_def Let_def)
  then show ?thesis using True quorum_okD(1,4)[OF ok]
    by (intro owner_step[OF ok, where xs = "[]"]) (auto simp: flush_take_def release_turn_def on_state_def Let_def)
qed (use quorum_ok_less[OF ok] in auto)

lemma write_ok:
  assumes ok: "quorum_ok crc (Suc b) r0 W"
  shows "quorum_ok crc b r0 (quorum_step crc WriteBatch W)"
proof (cases "qw_taken W = []")
  case False
  let ?w = "qw_wal W" and ?H = "qw_history W" and ?B = "qw_taken W"
  let ?st = "wl_state ?w"
  obtain i j r where o: "owner_side crc (Suc b) r0 W i j r" using quorum_okD(3)[OF ok] by blast
  have f: "owner_log crc (wl_log ?w) ?H i j" "pl_epoch (wl_log ?w) = ow_epoch ?st" "seq_room (Suc b) (wl_log ?w)"
    "map pn_entry (?B @ ow_pending ?st) = drop j ?H" "frames_ok crc (?B @ ow_pending ?st)"
    using o False by (auto simp: owner_side_def Let_def)
  define m where "m = length ?B"
  have split: "map pn_entry ?B = take m (drop j ?H)" "map pn_entry (ow_pending ?st) = drop (j + m) ?H"
  proof -
    have "map pn_entry ?B = take m (map pn_entry (?B @ ow_pending ?st))" by (simp add: m_def)
    then show "map pn_entry ?B = take m (drop j ?H)" using f(4) by metis
    have "map pn_entry (ow_pending ?st) = drop m (map pn_entry (?B @ ow_pending ?st))" by (simp add: m_def)
    then show "map pn_entry (ow_pending ?st) = drop (j + m) ?H" using f(4) by (metis drop_drop add.commute)
  qed
  have m: "0 < m" "j + m \<le> length ?H"
    using False arg_cong[OF split(1), of length] f(1) by (auto simp: m_def owner_log_def)
  have H: "contiguous ?H" using quorum_okD(1)[OF ok] by (simp add: owner_history_def)
  have "pn_entry (last ?B) = last (take m (drop j ?H))" using False split(1) by (metis last_map)
  also have "\<dots> = ?H ! (j + m - 1)" using m by (rule last_part)
  finally have last: "we_lamport (pn_entry (last ?B)) = word_of_nat (j + m)" using contiguous_lamport[OF H, of "j + m - 1"] m by simp
  have frames: "map pn_frame ?B = map (frame_encode crc \<circ> EntryRecord) (take m (drop j ?H))"
    unfolding split(1)[symmetric] using f(5) by (simp add: frames_ok_def)
  obtain t where t: "append_frames (map pn_frame ?B) (word_of_nat (j + m)) (wl_log ?w) = (t, Inr ())"
    "owner_log crc t ?H i (j + m)" "log_frame (wl_log ?w) t" "seq_room b t"
    using owner_append[OF f(1) quorum_okD(1)[OF ok] f(2,3) m(2)] unfolding frames by blast
  let ?st' = "?st\<lparr>ow_durable_local := word_of_nat (j + m), ow_inflight := ow_inflight ?st @ [\<lparr>ba_last = word_of_nat (j + m), ba_acked = False\<rparr>],
      ow_flushing := (ow_pending ?st \<noteq> [] \<and> ow_flushing ?st)\<rparr>"
  have W': "quorum_step crc WriteBatch W = W\<lparr>qw_wal := ?w\<lparr>wl_log := t, wl_state := ?st'\<rparr>, qw_taken := [], qw_spawned := qw_spawned W @ [?B]\<rparr>"
    using False t(1) last by (simp add: flush_batch_def Let_def log_action_def on_state_def flush_idle_def release_turn_def)
  have "owner_side crc b r0 (quorum_step crc WriteBatch W) i (j + m) r"
    using o t(2-4) split(2) unfolding W' owner_side_def Let_def by (auto simp: log_frame_def frames_ok_def)
  moreover have "batch_in crc ?H ?B" using False f(5) m(2) split(1) unfolding batch_in_def by (auto simp: frames_ok_def)
  ultimately show ?thesis using quorum_okD(1)[OF ok] by (intro owner_step[OF ok, where xs = "[]"]) (auto simp: W' simp del: quorum_step.simps)
qed (use quorum_ok_less[OF ok] in auto)

lemma batch_request_ok:
  assumes ok: "quorum_ok crc b r0 W" and B: "batch_in crc (qw_history W) B"
  shows "sent_ok crc (wl_partition (qw_wal W)) (ow_epoch (wl_state (qw_wal W))) (qw_history W) (batch_request B (qw_wal W))"
proof -
  obtain k m where k: "k + m \<le> length (qw_history W)" "map pn_entry B = take m (drop k (qw_history W))" "B \<noteq> []" "frames_ok crc B"
    using B by (auto simp: batch_in_def)
  have H: "contiguous (qw_history W)" using quorum_okD(1)[OF ok] by (simp add: owner_history_def)
  have "take m (drop k (qw_history W)) \<noteq> []" using k(2,3) by (metis map_is_Nil_conv)
  then have "k < length (qw_history W)" "0 < m" by (auto simp: not_less[symmetric])
  moreover have "pn_entry (hd B) = hd (take m (drop k (qw_history W)))" using k(2,3) by (metis hd_map)
  ultimately have "we_lamport (pn_entry (hd B)) = word_of_nat (Suc k)"
    using contiguous_lamport[OF H, of k] by (simp add: hd_drop_conv_nth)
  moreover have "map (\<lambda>p. (pn_entry p, pn_frame p)) B = map (framed crc) (map pn_entry B)" using k(4) by (simp add: framed_def frames_ok_def)
  ultimately show ?thesis using k by (intro sent_okI[where k = k and m = m]) (simp_all add: batch_request_def)
qed

lemma send_ok:
  assumes ok: "quorum_ok crc (Suc b) r0 W"
  shows "quorum_ok crc b r0 (quorum_step crc (SendBatch i) W)"
proof (cases "i < length (qw_spawned W)")
  case True
  let ?W = "W\<lparr>qw_spawned := remove_at i (qw_spawned W)\<rparr>"
  have same: "has crc ?W = has crc W" "quorum_has crc ?W = quorum_has crc W" by (simp_all add: fun_eq_iff has_def quorum_has_def Let_def)
  have "peers_ok crc b r0 ?W"
    by (rule peers_frame[OF quorum_okD(5)[OF quorum_ok_less[OF ok]]])
       (use peers_okD(6)[OF quorum_okD(5)[OF quorum_ok_less[OF ok]]] in \<open>simp_all add: grows_def same\<close>)
  moreover have "set (remove_at i (qw_spawned W)) \<subseteq> set (qw_spawned W)" by (auto simp: remove_at_def dest: in_set_takeD in_set_dropD)
  ultimately have ok1: "quorum_ok crc b r0 ?W" by (intro owner_same[OF quorum_ok_less[OF ok]]) simp_all
  have "batch_in crc (qw_history W) (qw_spawned W ! i)" using quorum_okD(4)[OF ok] True by simp
  from start_task_ok[OF ok1] batch_request_ok[OF ok this] show ?thesis using True by simp
qed (use quorum_ok_less[OF ok] in auto)

lemma push_ok:
  assumes ok: "quorum_ok crc (Suc b) r0 W"
  shows "quorum_ok crc b r0 (quorum_step crc (PushTo n) W)"
proof (cases "n \<in> set (wl_replicas (qw_wal W)) \<and> ow_fatal (wl_state (qw_wal W)) = None")
  case True
  let ?r = "push_request (qw_wal W)"
  have ok': "quorum_ok crc b r0 W" by (rule quorum_ok_less[OF ok])
  obtain i j r where o: "owner_side crc (Suc b) r0 W i j r" using quorum_okD(3)[OF ok] by blast
  have sent: "sent_ok crc (wl_partition (qw_wal W)) (ow_epoch (wl_state (qw_wal W))) (qw_history W) ?r"
    by (rule sent_okI[where k = r and m = 0]) (use o in \<open>simp_all add: push_request_def committed_lamport_def owner_side_def Let_def owner_log_def\<close>)
  let ?W = "W\<lparr>qw_calls := qw_calls W @ [new_call None ?r n]\<rparr>"
  have calls: "calls_of k ?W = calls_of k W" for k by (simp add: calls_of_def new_call_def)
  have "call_ok crc W (new_call None ?r n)" using sent True by (simp add: call_ok_def Let_def new_call_def)
  then have p: "peers_ok crc b r0 ?W"
    using peers_okD(3,4)[OF quorum_okD(5)[OF ok']] task_distinct
    by (intro calls_frame[OF quorum_okD(5)[OF ok']]) (auto simp: open_calls_def calls)
  have "peers_ok crc b r0 (?W\<lparr>qw_sent := qw_sent W @ [(n, ?r)]\<rparr>)" by (rule sent_more[OF p]) (use sent in auto)
  from owner_same[OF ok' this] show ?thesis using True by simp
qed (use quorum_ok_less[OF ok] in auto)

lemma quiesce_ok:
  assumes ok: "quorum_ok crc (Suc b) r0 W"
  shows "quorum_ok crc b r0 (quorum_step crc QuiesceOwner W)"
proof -
  let ?w = "qw_wal W" and ?st = "wl_state (qw_wal W)" and ?H = "qw_history W"
  obtain i j r where o: "owner_side crc b r0 W i j r" using quorum_okD(3)[OF ok] owner_side_less by blast
  have H: "contiguous ?H" using quorum_okD(1)[OF ok] by (simp add: owner_history_def)
  let ?q = "?w\<lparr>wl_state := ?st\<lparr>ow_quiesced := True\<rparr>\<rparr>"
  have frozen: "quorum_ok crc b r0 (W\<lparr>qw_wal := ?q\<rparr>)"
    by (rule owner_step[OF ok, where xs = "[]" and i = i and j = j and r = r])
       (use o quorum_okD(1,4)[OF ok] in \<open>auto simp: owner_side_def Let_def\<close>)
  show ?thesis
  proof (cases "ow_flushing ?st \<or> ow_fatal ?st \<noteq> None \<or> ow_pending ?st \<noteq> [] \<or> ow_durable_local ?st \<le> ow_replicated ?st")
    case True
    then have "fst (quiesce crc ?w) = ?q" by (auto simp: quiesce_def Let_def on_state_def split: option.split)
    then show ?thesis using frozen by simp
  next
    case False
    have f: "owner_log crc (wl_log ?w) ?H i j" "i \<le> r" "r \<le> j" "pl_hydrated_through (wl_log ?w) \<le> word_of_nat r" "ow_replicated ?st = word_of_nat r"
      "ow_durable_local ?st = word_of_nat j" "seq_room b (wl_log ?w)" "qw_taken W = []"
      using o False by (auto simp: owner_side_def Let_def)
    have rj: "r < j" using False f(3,5,6) by (cases "r = j") auto
    obtain t where t: "truncate_above crc (word_of_nat r) (wl_log ?w) = (t, Inr ())" "owner_log crc t ?H i r" "log_frame (wl_log ?w) t"
      "seq_room b t = seq_room b (wl_log ?w)"
      by (rule owner_cut[OF f(1) H f(2) rj f(4), where n = b])
    have durable: "pl_durable t = word_of_nat r" using t(2) by (simp add: owner_log_def)
    let ?st' = "?st\<lparr>ow_quiesced := True, ow_durable_local := word_of_nat r, ow_next_lamport := word_of_nat r,
        ow_failed_through := max (ow_failed_through ?st) (ow_durable_local ?st), ow_surrendered := max (ow_surrendered ?st) (ow_durable_local ?st),
        ow_inflight := filter (\<lambda>b. ba_last b \<le> word_of_nat r) (ow_inflight ?st)\<rparr>"
    have w': "fst (quiesce crc ?w) = ?w\<lparr>wl_log := t, wl_state := ?st'\<rparr>"
      using False t(1) f(5) durable by (simp add: quiesce_def Let_def on_state_def log_action_def)
    have "owner_side crc b r0 (W\<lparr>qw_wal := ?w\<lparr>wl_log := t, wl_state := ?st'\<rparr>\<rparr>) i r r"
      using o t(2-4) f False unfolding owner_side_def Let_def by (auto simp: log_frame_def frames_ok_def)
    then have "quorum_ok crc b r0 (W\<lparr>qw_wal := ?w\<lparr>wl_log := t, wl_state := ?st'\<rparr>\<rparr>)"
      using quorum_okD(1,4)[OF ok] by (intro owner_step[OF ok, where xs = "[]" and i = i and j = r and r = r]) auto
    then show ?thesis by (simp add: w')
  qed
qed

lemma seq_checkpoint: "within same_seq (checkpoint crc l)"
  unfolding checkpoint_def drop_applied_segments_def Let_def
  by (auto simp: same_seq_def intro!: sq.within_rules seq_on_disk seq_write)

lemma drop_ok:
  assumes ok: "quorum_ok crc (Suc b) r0 W"
  shows "quorum_ok crc b r0 (quorum_step crc (DropApplied l) W)"
proof (cases "pl_applied_through (wl_log (qw_wal W)) \<le> l \<and> l \<le> committed_lamport (qw_wal W)")
  case True
  let ?w = "qw_wal W" and ?H = "qw_history W"
  obtain i j r where o: "owner_side crc b r0 W i j r" using quorum_okD(3)[OF ok] owner_side_less by blast
  have H: "contiguous ?H" using quorum_okD(1)[OF ok] by (simp add: owner_history_def)
  have f: "owner_log crc (wl_log ?w) ?H i j" "i \<le> r" "r \<le> j" "ow_replicated (wl_state ?w) = word_of_nat r" "j \<le> length ?H" "seq_room b (wl_log ?w)"
    using o by (auto simp: owner_side_def Let_def owner_log_def)
  have l: "unat l \<le> r" using True f unat_lamport[OF H, of r] by (simp add: committed_lamport_def word_le_nat_alt)
  have lj: "unat l \<le> j" "pl_applied_through (wl_log ?w) \<le> word_of_nat (unat l)" using l f(3) True by simp_all
  obtain t i' where t: "checkpoint crc (word_of_nat (unat l)) (wl_log ?w) = (t, Inr ())" "owner_log crc t ?H i' j" "i' \<le> max i (unat l)"
    "pl_epoch t = pl_epoch (wl_log ?w)" "pl_hydrated_through t = pl_hydrated_through (wl_log ?w)" "pl_applied_through t = word_of_nat (unat l)"
    by (rule owner_drop[OF f(1) H lj]) auto
  have room: "seq_room b t" using same_seq_room[OF seq_checkpoint t(1)] f(6) by simp
  have W': "quorum_step crc (DropApplied l) W = W\<lparr>qw_wal := ?w\<lparr>wl_log := t\<rparr>\<rparr>"
    using True t(1) by (simp add: owner_checkpoint_def log_action_def)
  have "l \<le> word_of_nat r" using True f(4) by (simp add: committed_lamport_def)
  then have "owner_side crc b r0 (W\<lparr>qw_wal := ?w\<lparr>wl_log := t\<rparr>\<rparr>) i' j r"
    using o t(2-6) l f(2) room unfolding owner_side_def Let_def by (auto simp: max_def split: if_splits)
  then show ?thesis unfolding W' using quorum_okD(1,4)[OF ok] by (intro owner_step[OF ok, where xs = "[]"]) auto
qed (use quorum_ok_less[OF ok] in auto)

lemma replica_drop_node:
  assumes at: "node_at crc p e H m s"
  shows "node_at crc p e H m (replica_drop crc p l s)"
proof -
  obtain lg fenced a rss where l: "ws_logs s p = Some lg" "pl_epoch lg = e" "refines crc fenced lg a rss" "al_entries a = take m H"
    "pl_durable lg = word_of_nat m" "m \<le> length H"
    using at by (auto simp: node_at_def)
  show ?thesis
  proof (cases "pl_applied_through lg \<le> l \<and> l \<le> pl_durable lg")
    case True
    obtain t rss' where t: "checkpoint crc l lg = (t, Inr ())" "refines crc (fenced \<and> \<not> is_checkpoint (Checkpoint l)) t (spec_op (Checkpoint l) a) rss'"
      using op_refines[OF l(3), of "Checkpoint l"] True by auto
    have "log_rep crc lg rss" using l(3) by (simp add: refines_def)
    then have keep: "pl_durable t = pl_durable lg" "pl_epoch t = pl_epoch lg" using checkpoint_ok[of crc lg rss l] True t(1) by auto
    have s': "replica_drop crc p l s = s\<lparr>ws_logs := (ws_logs s)(p \<mapsto> t)\<rparr>" using l(1) True t(1) by (simp add: replica_drop_def)
    have "al_entries (spec_op (Checkpoint l) a) = take m H" using l(4) by simp
    then show ?thesis using keep l(2,5,6) by (intro node_atI[OF t(2)]) (simp_all add: s')
  next
    case False
    then have "replica_drop crc p l s = s" using l(1) by (auto simp: replica_drop_def)
    then show ?thesis using at by simp
  qed
qed

lemma replica_drop_log:
  assumes "ws_logs (replica_drop crc p l s) p = Some lg"
  shows "\<exists>lg0. ws_logs s p = Some lg0 \<and> (lg = lg0 \<or> lg = fst (checkpoint crc l lg0))"
  using assms by (auto simp: replica_drop_def split: option.splits if_splits)

lemma fence_checkpoint_same: "within same_fence (checkpoint crc l)"
  unfolding checkpoint_def drop_applied_segments_def Let_def
  by (auto simp: same_fence_def intro!: sf.within_rules within_on_disk within_write)

lemma replica_drop_ok:
  assumes ok: "quorum_ok crc (Suc b) r0 W"
  shows "quorum_ok crc b r0 (quorum_step crc (ReplicaDropApplied n l) W)"
proof (cases "qw_nodes W n")
  case None
  then have "(qw_nodes W)(n := None) = qw_nodes W" by (metis fun_upd_triv)
  then show ?thesis using quorum_ok_less[OF ok] None by simp
next
  case (Some s)
  let ?p = "wl_partition (qw_wal W)" and ?e = "ow_epoch (wl_state (qw_wal W))"
  let ?s = "replica_drop crc ?p l s"
  have fence: "pl_epoch (fst (checkpoint crc l lg)) = pl_epoch lg" "pl_next_seq (fst (checkpoint crc l lg)) = pl_next_seq lg" for lg
    using fence_checkpoint_same[of crc l] seq_checkpoint[of crc l] by (simp_all add: within_def same_fence_def same_seq_def)
  have room: "room_at b ?p ?e s" using peers_okD(6)[OF quorum_okD(5)[OF ok]] Some room_at_less by blast
  have "room_at b ?p ?e ?s" using room replica_drop_log[of crc ?p l s] fence by (fastforce simp: room_at_def seq_room_def)
  moreover have "deposed_at ?p ?e ?s" if "deposed_at ?p ?e s"
    using that fence by (auto simp: deposed_at_def replica_drop_def)
  ultimately have "quorum_ok crc b r0 (W\<lparr>qw_nodes := (qw_nodes W)(n \<mapsto> ?s)\<rparr>)"
    using change_node[OF ok Some, of ?s] replica_drop_node by blast
  then show ?thesis using Some by simp
qed

lemma other_logs: "call_epoch c p = None \<Longrightarrow> ws_logs (fst (serve crc h c s)) p = ws_logs s p"
proof (cases c)
  case (StatusCall q)
  have "rp_log (fst (answered replica_status x)) = rp_log x" for x
    by (simp add: answered_fst replica_status_def log_get_def act_bind_def act_get_def act_ret_def)
  then show ?thesis by (auto simp: StatusCall at_partition_def case_prod_unfold split: option.split)
qed (auto simp: at_partition_def case_prod_unfold split: option.split if_splits)

lemma older_owner: "ws_logs s p = Some l \<Longrightarrow> call_epoch c p = Some e' \<Longrightarrow> e' < pl_epoch l \<Longrightarrow> fst (serve crc h c s) = s"
  by (cases c) (auto simp: stale_append stale_fence simp del: serve.simps split: if_splits)

lemma other_owner_ok:
  assumes ok: "quorum_ok crc (Suc b) r0 W"
  shows "quorum_ok crc b r0 (quorum_step crc (OtherOwner n h c) W)"
proof (cases "call_epoch c (wl_partition (qw_wal W)) = Some (ow_epoch (wl_state (qw_wal W)))")
  case True
  then show ?thesis using quorum_ok_less[OF ok] by simp
next
  case other: False
  let ?p = "wl_partition (qw_wal W)" and ?e = "ow_epoch (wl_state (qw_wal W))" and ?H = "qw_history W"
  show ?thesis
  proof (cases "qw_nodes W n")
    case None
    then have "(qw_nodes W)(n := None) = qw_nodes W" by (metis fun_upd_triv)
    then show ?thesis using quorum_ok_less[OF ok] None other by simp
  next
    case (Some s)
    let ?s = "fst (serve crc h c s)"
    have room: "room_at b ?p ?e s" using peers_okD(6)[OF quorum_okD(5)[OF ok]] Some room_at_less by blast
    have cases: "ws_logs ?s ?p = ws_logs s ?p \<or> deposed_at ?p ?e ?s" if at: "node_at crc ?p ?e ?H m s" for m
    proof (cases "call_epoch c ?p")
      case None
      then show ?thesis using other_logs[of c ?p] by blast
    next
      case (Some e')
      show ?thesis
      proof (cases "e' < ?e")
        case True
        obtain l where "ws_logs s ?p = Some l" "pl_epoch l = ?e" using at by (auto simp: node_at_def)
        then show ?thesis using older_owner[of s ?p l c e' crc h] Some True by simp
      next
        case False
        then have "?e < e'" using Some other by auto
        then show ?thesis using other_owner_deposes[OF at Some] by blast
      qed
    qed
    have "deposed_at ?p ?e s \<or> (\<exists>m. node_at crc ?p ?e ?H m s)"
      using peers_okD(6)[OF quorum_okD(5)[OF ok]] Some by (auto simp: has_def Let_def)
    then have "ws_logs ?s ?p = ws_logs s ?p \<or> deposed_at ?p ?e ?s" using cases deposed_stays by blast
    then have "room_at b ?p ?e ?s" using room by (auto simp: room_at_def deposed_at_def)
    moreover have "deposed_at ?p ?e ?s \<or> (\<exists>m'\<ge>m. node_at crc ?p ?e ?H m' ?s)" if "node_at crc ?p ?e ?H m s" for m
      using cases[OF that] that node_at_log[of ?s ?p s crc ?e ?H m] by blast
    ultimately have "quorum_ok crc b r0 (W\<lparr>qw_nodes := (qw_nodes W)(n \<mapsto> ?s)\<rparr>)"
      using change_node[OF ok Some, of ?s] deposed_stays by blast
    then show ?thesis using Some other by simp
  qed
qed

section \<open>Every run\<close>

definition op_fits :: "quorum_event \<Rightarrow> bool" where
  "op_fits ev \<longleftrightarrow> (case ev of SubmitOp op \<Rightarrow> \<forall>l e p. record_fits (EntryRecord \<lparr>we_lamport = l, we_epoch = e, we_partition = p, we_op = op\<rparr>) | _ \<Rightarrow> True)"

lemma quorum_step_ok:
  assumes ok: "quorum_ok crc (Suc b) r0 W" and fits: "op_fits ev"
  shows "quorum_ok crc b r0 (quorum_step crc ev W)"
proof (cases ev)
  case (SubmitOp op)
  then show ?thesis using submit_ok[OF ok] fits by (simp add: op_fits_def)
next
  case (DeliverCall i)
  show ?thesis
  proof (cases "i < length (qw_calls W) \<and> ca_reply (qw_calls W ! i) = None")
    case True
    let ?c = "qw_calls W ! i"
    have c: "call_ok crc W ?c" using peers_okD(3)[OF quorum_okD(5)[OF ok]] True by simp
    obtain W1 reply where run: "deliver crc (ca_node ?c) (ca_sent ?c) W = (W1, reply)" by fastforce
    have sent: "sent_ok crc (wl_partition (qw_wal W)) (ow_epoch (wl_state (qw_wal W))) (qw_history W) (ca_sent ?c)" using c by (simp add: call_ok_def Let_def)
    obtain f where d: "grows crc W W1" "quorum_ok crc b r0 W1" "\<forall>d x. reply = Some (OkResponse d x) \<longrightarrow> has crc W1 (ca_node ?c) (unat d)" "W1 = W\<lparr>qw_nodes := f\<rparr>"
      using deliver_ok[OF ok sent run] by blast
    have "call_ok crc W1 ?c" by (rule grows_call[OF d(1) _ c]) (simp add: d(4))
    then have "call_ok crc W1 (?c\<lparr>ca_reply := reply\<rparr>)" using d(3) by (simp add: call_ok_def Let_def)
    then have "peers_ok crc b r0 (W1\<lparr>qw_calls := (qw_calls W1)[i := ?c\<lparr>ca_reply := reply\<rparr>]\<rparr>)"
      using True by (intro update_call[OF quorum_okD(5)[OF d(2)]]) (simp_all add: d(4))
    then have "quorum_ok crc b r0 (W1\<lparr>qw_calls := (qw_calls W1)[i := ?c\<lparr>ca_reply := reply\<rparr>]\<rparr>)" by (rule owner_same[OF d(2)]) simp_all
    then show ?thesis using True run d(4) DeliverCall by simp
  qed (use quorum_ok_less[OF ok] DeliverCall in auto)
next
  case (Redeliver i)
  show ?thesis
  proof (cases "i < length (qw_sent W)")
    case True
    then have "sent_ok crc (wl_partition (qw_wal W)) (ow_epoch (wl_state (qw_wal W))) (qw_history W) (snd (qw_sent W ! i))"
      using peers_okD(5)[OF quorum_okD(5)[OF ok]] by simp
    from deliver_ok[OF ok this, of "fst (qw_sent W ! i)"] show ?thesis using True Redeliver by (metis (no_types, lifting) prod.collapse quorum_step.simps(6))
  qed (use quorum_ok_less[OF ok] Redeliver in auto)
next
  case (AnswerCall i)
  show ?thesis
  proof (cases "i < length (qw_calls W) \<and> ca_reply (qw_calls W ! i) \<noteq> None")
    case True
    then have "call_ok crc W (qw_calls W ! i)" using peers_okD(3)[OF quorum_okD(5)[OF ok]] by simp
    then have "quorum_ok crc b r0 (answer_call crc i (ca_reply (qw_calls W ! i)) W)"
      using True by (intro answer_call_ok[OF quorum_ok_less[OF ok]]) (simp_all add: call_ok_def Let_def)
    then show ?thesis using True AnswerCall by simp
  qed (use quorum_ok_less[OF ok] AnswerCall in auto)
next
  case (DropCall i)
  then show ?thesis using answer_call_ok[OF quorum_ok_less[OF ok], of i None] quorum_ok_less[OF ok] by simp
next
  case (DecideTask k again)
  then show ?thesis using decide_task_ok[OF quorum_ok_less[OF ok], of k again] quorum_ok_less[OF ok] by simp
next
  case (HeardFrom n l)
  then show ?thesis using catch_up_ok[OF quorum_ok_less[OF ok]] by (simp add: note_replica_position_def Let_def)
qed (simp_all add: take_ok[OF ok, simplified] write_ok[OF ok, simplified] send_ok[OF ok, simplified] push_ok[OF ok, simplified] quiesce_ok[OF ok, simplified]
    drop_ok[OF ok, simplified] replica_drop_ok[OF ok, simplified] other_owner_ok[OF ok, simplified])

lemma quorum_run_ok:
  "quorum_ok crc (length evs + b) r0 W \<Longrightarrow> list_all op_fits evs \<Longrightarrow> quorum_ok crc b r0 (quorum_run crc evs W)"
proof (induction evs arbitrary: W)
  case (Cons ev evs)
  then show ?case using quorum_step_ok[of crc "length evs + b" r0 W ev] by (simp add: quorum_run_def)
qed (simp add: quorum_run_def)

text \<open>An owner that has just opened its log, and the peers that have answered its fence.\<close>

definition cluster_new :: "wal_config \<Rightarrow> partition_log \<Rightarrow> wal_entry list \<Rightarrow> (node_id \<rightharpoonup> wal_service) \<Rightarrow> quorum_world" where
  "cluster_new cfg l H nodes =
     \<lparr>qw_wal = owner_new cfg l, qw_taken = [], qw_spawned = [], qw_tasks = [], qw_calls = [], qw_nodes = nodes, qw_sent = [], qw_history = H\<rparr>"

definition opened_at :: "(bytes \<Rightarrow> u32) \<Rightarrow> nat \<Rightarrow> wal_config \<Rightarrow> partition_log \<Rightarrow> wal_entry list \<Rightarrow> bool" where
  "opened_at crc b cfg l H \<longleftrightarrow> owner_history (wc_partition cfg) (wc_epoch cfg) H \<and> length H + b < 2 ^ 64 - 1
     \<and> (\<exists>i. owner_log crc l H i (length H)) \<and> pl_epoch l = wc_epoch cfg \<and> seq_room b l
     \<and> pl_hydrated_through l \<le> pl_durable l \<and> pl_applied_through l \<le> pl_durable l"

definition followed_by :: "(bytes \<Rightarrow> u32) \<Rightarrow> nat \<Rightarrow> wal_config \<Rightarrow> wal_entry list \<Rightarrow> (node_id \<rightharpoonup> wal_service) \<Rightarrow> bool" where
  "followed_by crc b cfg H nodes \<longleftrightarrow> distinct (wc_replicas cfg) \<and> dom nodes = set (wc_replicas cfg)
     \<and> (\<forall>n s. nodes n = Some s \<longrightarrow> (\<exists>m. node_at crc (wc_partition cfg) (wc_epoch cfg) H m s) \<and> room_at b (wc_partition cfg) (wc_epoch cfg) s)"

lemma cluster_new_ok:
  assumes o: "opened_at crc b cfg l H" and f: "followed_by crc b cfg H nodes"
  shows "quorum_ok crc b (length H) (cluster_new cfg l H nodes)"
proof -
  let ?W = "cluster_new cfg l H nodes"
  obtain i where i: "owner_log crc l H i (length H)" using o by (auto simp: opened_at_def)
  have d: "pl_durable l = word_of_nat (length H)" "i \<le> length H" using i by (simp_all add: owner_log_def)
  have "owner_side crc b (length H) ?W i (length H) (length H)"
    using o i d unfolding owner_side_def Let_def by (simp add: cluster_new_def owner_new_def opened_at_def frames_ok_def)
  moreover have "has crc ?W n 0" if "nodes n = Some s" for n s
    using f that by (auto simp: followed_by_def has_def Let_def cluster_new_def owner_new_def)
  moreover have "unat (word_of_nat (length H) :: u64) = length H" using o unat_lamport[of H "length H"] by (simp add: opened_at_def owner_history_def)
  ultimately have "(\<exists>i j r. owner_side crc b (length H) ?W i j r) \<and> peers_ok crc b (length H) ?W"
    using f d unfolding peers_ok_def Let_def by (auto simp: cluster_new_def owner_new_def followed_by_def)
  then show ?thesis using o unfolding quorum_ok_def by (simp add: cluster_new_def owner_new_def opened_at_def)
qed

text \<open>
  C4. What a client was told is written is on a quorum. An owner opens its log and its replicas hold prefixes of its history under
  its epoch. Then clients submit, batches are written and sent in any interleaving, the network delays, repeats and loses requests and
  answers, replicas fall behind and are caught up from the owner's log, logs are checkpointed, the owner quiesces, and other
  owners with older or newer epochs send whatever they like. Whenever \<open>wait_for\<close> reports a Lamport as committed, the
  owner's log holds the history up to it, and, unless the Lamport was already in the log the owner opened, the required number of distinct
  replicas hold the history up to it as well, or have since accepted a newer epoch. An owner that has been told it is deposed may have
  counted one replica where its configuration asks for more.
\<close>

theorem committed_writes_are_on_a_quorum:
  assumes "opened_at crc (length evs) cfg l H" and "followed_by crc (length evs) cfg H nodes" and "list_all op_fits evs"
    and "W = quorum_run crc evs (cluster_new cfg l H nodes)" and "wait_for lam (qw_wal W) = Some (Inr lam')"
  shows "\<exists>i j. owner_log crc (wl_log (qw_wal W)) (qw_history W) i j \<and> unat lam \<le> j
    \<and> (unat lam \<le> length H
       \<or> (\<exists>Q \<subseteq> set (wl_replicas (qw_wal W)).
            (required_acks (qw_wal W) \<le> card Q \<or> ow_fatal (wl_state (qw_wal W)) \<noteq> None \<and> 1 \<le> card Q)
            \<and> (\<forall>n\<in>Q. \<exists>s. qw_nodes W n = Some s
                  \<and> (deposed_at (wl_partition (qw_wal W)) (ow_epoch (wl_state (qw_wal W))) s
                     \<or> (\<exists>m\<ge>unat lam. node_at crc (wl_partition (qw_wal W)) (ow_epoch (wl_state (qw_wal W))) (qw_history W) m s)))))"
proof -
  have "quorum_ok crc (length evs + 0) (length H) (cluster_new cfg l H nodes)" using cluster_new_ok[OF assms(1,2)] by simp
  from quorum_run_ok[OF this assms(3)] have ok: "quorum_ok crc 0 (length H) W" by (simp add: assms(4))
  obtain i j r where o: "owner_side crc 0 (length H) W i j r" using quorum_okD(3)[OF ok] by blast
  have lam: "lam \<le> ow_replicated (wl_state (qw_wal W))" using assms(5) by (auto simp: wait_for_def Let_def split: if_splits option.splits)
  have f: "owner_log crc (wl_log (qw_wal W)) (qw_history W) i j" "r \<le> j" "ow_replicated (wl_state (qw_wal W)) = word_of_nat r" "j \<le> length (qw_history W)"
    using o by (auto simp: owner_side_def Let_def owner_log_def)
  have "contiguous (qw_history W)" using quorum_okD(1)[OF ok] by (simp add: owner_history_def)
  then have r: "unat (ow_replicated (wl_state (qw_wal W))) = r" using f unat_lamport[of "qw_history W" r] by simp
  then have le: "unat lam \<le> r" using lam by (simp add: word_le_nat_alt)
  from peers_okD(9)[OF quorum_okD(5)[OF ok]] have "unat lam \<le> length H \<or> quorum_has crc W (unat lam)"
    using r le quorum_less[of crc W r "unat lam"] by auto
  then have "unat lam \<le> length H \<or> (\<exists>Q. Q \<subseteq> set (wl_replicas (qw_wal W))
      \<and> (required_acks (qw_wal W) \<le> card Q \<or> ow_fatal (wl_state (qw_wal W)) \<noteq> None \<and> 1 \<le> card Q) \<and> (\<forall>n\<in>Q. has crc W n (unat lam)))"
    unfolding quorum_has_def .
  moreover have "unat lam \<le> j" using le f(2) by simp
  ultimately show ?thesis using f(1) unfolding has_def Let_def by blast
qed

section \<open>One write\<close>

text \<open>A write that commits: one replica, one delete, and every step between its submission and its acknowledgement.\<close>

definition sample_config :: wal_config where "sample_config = (wal_config_new 7 0 1)\<lparr>wc_replicas := [1]\<rparr>"
definition sample_request :: append_request where "sample_request = example_append 0 0 [example_entry 1 0]"
definition sample_events :: "quorum_event list" where
  "sample_events = [SubmitOp (DeleteOp [1] None), TakeQueue, WriteBatch, SendBatch 0, DeliverCall 0, AnswerCall 0, DecideTask 0 False]"
definition sample_pending :: pending where
  "sample_pending = \<lparr>pn_entry = example_entry 1 0, pn_frame = frame_encode no_crc (EntryRecord (example_entry 1 0))\<rparr>"
definition log_before :: partition_log where "log_before = log_holding [(1, [], 0)] 0 0"
definition log_after :: partition_log where "log_after = log_holding [(1, [], 0), (2, [EntryRecord (example_entry 1 0)], 1)] 1 0"
definition sample_world :: "partition_log \<Rightarrow> quorum_world" where
  "sample_world l = cluster_new sample_config l [] [1 \<mapsto> service_register l service_new]"

lemma sample_fields:
  "pl_durable log_before = 0" "pl_epoch log_before = 0" "pl_partition log_before = 7" "pl_durable log_after = 1" "pl_epoch log_after = 0"
  "pl_partition log_after = 7" "pl_next_seq log_before = 2" "pl_hydrated_through log_before = 0" "pl_applied_through log_before = 0"
  by (simp_all add: log_holding_def log_before_def log_after_def)

lemma sample_append: "append_frames [frame_encode no_crc (EntryRecord (example_entry 1 0))] 1 log_before = (log_after, Inr ())"
  unfolding log_before_def log_after_def by (simp add: holding_eval word_le_nat_alt)

lemma sample_serve:
  "serve no_crc None (AppendCall sample_request) (service_register log_before service_new) = (service_register log_after service_new, OkResponse 1 0)"
proof -
  have a: "replica_append no_crc False None sample_request \<lparr>rp_log = log_before, rp_events = []\<rparr> = (\<lparr>rp_log = log_after, rp_events = []\<rparr>, Inr (OkResponse 1 0))"
    by (subst append_same_epoch)
       (simp_all add: sample_request_def example_append_def sample_fields append_batch_def bind_log_get framed_def next_counter_def Let_def
          example_entry_def[of 1 0, THEN arg_cong[of _ _ we_partition]] act_then_def act_bind_def tell_def on_log_def sample_append log_get_def act_get_def act_ret_def)
  show ?thesis
    by (simp add: at_partition_def service_register_def service_new_def sample_fields sample_request_def[THEN arg_cong[of _ _ ar_partition]] example_append_def
        answered_Inr[where h = "replica_append no_crc False None sample_request", OF a])
qed

definition sample_wal :: wal where
  "sample_wal = (owner_new sample_config log_after)\<lparr>wl_state := (wl_state (owner_new sample_config log_before))
     \<lparr>ow_next_lamport := 1, ow_durable_local := 1, ow_inflight := [\<lparr>ba_last = 1, ba_acked = False\<rparr>]\<rparr>\<rparr>"

lemmas sample_eval = sample_world_def cluster_new_def owner_new_def sample_config_def wal_config_new_def sample_fields on_state_def sample_wal_def

lemma sample_written:
  "quorum_run no_crc [SubmitOp (DeleteOp [1] None), TakeQueue, WriteBatch] (sample_world log_before)
    = (sample_world log_before)\<lparr>qw_wal := sample_wal, qw_history := [example_entry 1 0], qw_spawned := [[sample_pending]]\<rparr>"
proof -
  have submitted: "quorum_step no_crc (SubmitOp (DeleteOp [1] None)) (sample_world log_before)
    = (sample_world log_before)\<lparr>qw_wal := on_state (\<lambda>st. st\<lparr>ow_next_lamport := 1, ow_pending := [sample_pending], ow_flushing := True\<rparr>) (owner_new sample_config log_before),
        qw_history := [example_entry 1 0]\<rparr>" (is "_ = ?W1")
    by (simp add: sample_eval submit_def Let_def next_counter_def ensure_flusher_def sample_pending_def example_entry_def)
  have taken: "quorum_step no_crc TakeQueue ?W1
    = ?W1\<lparr>qw_wal := on_state (\<lambda>st. st\<lparr>ow_next_lamport := 1, ow_flushing := True\<rparr>) (owner_new sample_config log_before), qw_taken := [sample_pending]\<rparr>" (is "_ = ?W2")
    by (simp add: sample_eval flush_take_def Let_def)
  have "quorum_step no_crc WriteBatch ?W2 = (sample_world log_before)\<lparr>qw_wal := sample_wal, qw_history := [example_entry 1 0], qw_spawned := [[sample_pending]]\<rparr>"
    by (simp add: sample_eval flush_batch_def flush_idle_def release_turn_def log_action_def sample_append sample_pending_def)
  then show ?thesis by (simp add: quorum_run_def submitted taken del: quorum_step.simps)
qed

definition sample_task :: task where
  "sample_task = \<lparr>ta_request = sample_request, ta_required = 1, ta_by = [], ta_stale = None, ta_result = None\<rparr>"

definition world_of :: "wal \<Rightarrow> task list \<Rightarrow> call list \<Rightarrow> partition_log \<Rightarrow> quorum_world" where
  "world_of w tasks calls l = \<lparr>qw_wal = w, qw_taken = [], qw_spawned = [], qw_tasks = tasks, qw_calls = calls,
     qw_nodes = [1 \<mapsto> service_register l service_new], qw_sent = [(1, sample_request)], qw_history = [example_entry 1 0]\<rparr>"

lemma sample_sent:
  "quorum_step no_crc (SendBatch 0) ((sample_world log_before)\<lparr>qw_wal := sample_wal, qw_history := [example_entry 1 0], qw_spawned := [[sample_pending]]\<rparr>)
    = world_of sample_wal [sample_task] [new_call (Some 0) sample_request 1] log_before"
  by (simp add: sample_eval start_task_def Let_def remove_at_def required_acks_def batch_request_def sample_pending_def sample_request_def example_append_def
      framed_def world_of_def sample_task_def)

lemma sample_delivered:
  "quorum_step no_crc (DeliverCall 0) (world_of w ts [new_call (Some 0) sample_request 1] log_before)
    = world_of w ts [(new_call (Some 0) sample_request 1)\<lparr>ca_reply := Some (OkResponse 1 0)\<rparr>] log_after"
  by (simp add: world_of_def new_call_def deliver_def sample_serve[simplified])

lemma sample_last: "ar_last_lamport sample_request = 1"
  by (simp add: sample_request_def example_append_def ar_last_lamport_def framed_def)

lemma sample_answered:
  "quorum_step no_crc (AnswerCall 0) (world_of w [sample_task] [(new_call (Some 0) sample_request 1)\<lparr>ca_reply := Some (OkResponse 1 0)\<rparr>] l)
    = world_of (record_ack 1 1 w) [sample_task\<lparr>ta_by := [1]\<rparr>] [] l"
  by (simp add: world_of_def new_call_def answer_call_def Let_def on_reply_def sample_last end_call_def remove_at_def count_for_def sample_task_def)

lemma sample_decided:
  "quorum_step no_crc (DecideTask 0 False) (world_of w [sample_task\<lparr>ta_by := [1]\<rparr>] [] l)
    = world_of (batch_replicated 1 (Inr ()) w) [sample_task\<lparr>ta_by := [1], ta_result := Some (Inr ())\<rparr>] [] l"
  by (simp add: world_of_def decide_task_def Let_def sample_last calls_of_def poll_decides_def sample_task_def)

lemma sample_run:
  "quorum_run no_crc sample_events (sample_world log_before)
    = world_of (batch_replicated 1 (Inr ()) (record_ack 1 1 sample_wal)) [sample_task\<lparr>ta_by := [1], ta_result := Some (Inr ())\<rparr>] [] log_after"
proof -
  have "quorum_run no_crc sample_events (sample_world log_before)
      = quorum_run no_crc [SendBatch 0, DeliverCall 0, AnswerCall 0, DecideTask 0 False]
          (quorum_run no_crc [SubmitOp (DeleteOp [1] None), TakeQueue, WriteBatch] (sample_world log_before))"
    by (simp add: quorum_run_def sample_events_def del: quorum_step.simps)
  also have "\<dots> = world_of (batch_replicated 1 (Inr ()) (record_ack 1 1 sample_wal)) [sample_task\<lparr>ta_by := [1], ta_result := Some (Inr ())\<rparr>] [] log_after"
    unfolding sample_written by (simp add: quorum_run_def sample_sent sample_delivered sample_answered sample_decided del: quorum_step.simps)
  finally show ?thesis .
qed

lemma sample_committed: "wait_for 1 (batch_replicated 1 (Inr ()) (record_ack 1 1 sample_wal)) = Some (Inr 1)"
  by (simp add: wait_for_def batch_replicated_def record_ack_def record_catch_up_def mark_acked_def advance_def Let_def sample_eval)

lemma sample_opened: "opened_at no_crc 7 sample_config log_before []" "followed_by no_crc 7 sample_config [] [1 \<mapsto> service_register log_before service_new]"
proof -
  have l: "log_before = rp_log example_replica" by (simp add: log_before_def example_replica_def fence_steps(1)[simplified])
  have ref: "refines no_crc True log_before abstract_new [[]]" using example_replica_refines(1) l by simp
  then have rep: "log_rep no_crc log_before [[]]" by (simp add: refines_def)
  have "owner_log no_crc log_before [] 0 0" using rep by (auto simp: owner_log_def sample_fields intro!: exI[of _ "[[]]"])
  moreover have room: "seq_room 7 log_before" by (simp add: seq_room_def sample_fields)
  moreover have H: "owner_history 7 0 []" by (simp add: owner_history_def contiguous_def)
  ultimately show "opened_at no_crc 7 sample_config log_before []"
    by (auto simp: opened_at_def sample_config_def wal_config_new_def sample_fields)
  have "node_at no_crc 7 0 [] 0 (service_register log_before service_new)"
    by (rule node_atI[OF ref]) (simp_all add: service_register_def service_new_def sample_fields abstract_new_def)
  then show "followed_by no_crc 7 sample_config [] [1 \<mapsto> service_register log_before service_new]"
    using room by (auto simp: followed_by_def sample_config_def wal_config_new_def room_at_def service_register_def service_new_def sample_fields)
qed

theorem committed_writes_are_on_a_quorum_witness:
  "\<exists>W. W = quorum_run no_crc sample_events (cluster_new sample_config log_before [] [1 \<mapsto> service_register log_before service_new])
     \<and> wait_for 1 (qw_wal W) = Some (Inr 1)
     \<and> (\<exists>i j. owner_log no_crc (wl_log (qw_wal W)) (qw_history W) i j \<and> 1 \<le> j)
     \<and> (\<exists>s. qw_nodes W 1 = Some s \<and> (deposed_at 7 0 s \<or> (\<exists>m\<ge>1. node_at no_crc 7 0 [example_entry 1 0] m s)))"
proof -
  let ?W = "quorum_run no_crc sample_events (cluster_new sample_config log_before [] [1 \<mapsto> service_register log_before service_new])"
  have W: "?W = world_of (batch_replicated 1 (Inr ()) (record_ack 1 1 sample_wal)) [sample_task\<lparr>ta_by := [1], ta_result := Some (Inr ())\<rparr>] [] log_after"
    using sample_run by (simp only: sample_world_def)
  have waited: "wait_for 1 (qw_wal ?W) = Some (Inr 1)" unfolding W using sample_committed by (simp add: world_of_def)
  have fits: "list_all op_fits sample_events"
    by (simp add: sample_events_def op_fits_def record_fits_def put_u8_def put_deadline_def max_frame_body_bytes_def max_key_bytes_def max_value_bytes_def)
  have n: "length sample_events = 7" by (simp add: sample_events_def)
  have fields: "wl_replicas (qw_wal ?W) = [1]" "wl_partition (qw_wal ?W) = 7" "ow_epoch (wl_state (qw_wal ?W)) = 0" "ow_fatal (wl_state (qw_wal ?W)) = None"
    "wl_durability_acks (qw_wal ?W) = 1" "qw_history ?W = [example_entry 1 0]"
    unfolding W
    by (simp_all add: world_of_def batch_replicated_def record_ack_def record_catch_up_def mark_acked_def advance_def Let_def sample_eval)
  have u: "unat (1 :: lamport) = 1" by simp
  from committed_writes_are_on_a_quorum[OF sample_opened[folded n] fits refl waited]
  obtain i j Q where Q: "owner_log no_crc (wl_log (qw_wal ?W)) (qw_history ?W) i j" "1 \<le> j" "Q \<subseteq> {1}" "1 \<le> card Q"
    "\<forall>q\<in>Q. \<exists>s. qw_nodes ?W q = Some s \<and> (deposed_at 7 0 s \<or> (\<exists>m\<ge>1. node_at no_crc 7 0 [example_entry 1 0] m s))"
    unfolding fields u required_acks_def by auto
  then have "Q = {1}" by (metis card.empty not_one_le_zero subset_singletonD)
  then show ?thesis using Q waited by blast
qed

section \<open>A peer the fence did not reach\<close>

text \<open>
  C22. The first append a replica gets under a new epoch cuts its log where that append starts, not where the new owner's history
  starts. A replica that an earlier owner left with entries \<open>D\<close>, that missed the new owner's fence and its first appends and then gets
  an append that starts behind entry \<open>k\<close> of the owner's history \<open>H\<close>, keeps the first \<open>k\<close> entries of \<open>D\<close>, stores the append behind
  them and answers \<open>Ok\<close> up to the append's end; where \<open>D\<close> and \<open>H\<close> differ before \<open>k\<close>, the log that was
  acknowledged is not a prefix of the owner's history.
\<close>

theorem late_first_append_keeps_a_divergent_log:
  assumes "refines crc fenced (rp_log s) a rss" and "owner_history p e (take k D @ drop k H)" and "al_entries a = D" and "k \<le> length D"
    and "pl_durable (rp_log s) = word_of_nat (length D)" and "length D < 2 ^ 64 - 1" and "contiguous D"
    and "pl_epoch (rp_log s) < e" and "pl_applied_through (rp_log s) \<le> word_of_nat k" and "pl_next_seq (rp_log s) \<noteq> -1"
    and "ar_partition r = p" and "ar_epoch r = e" and "ar_prev_lamport r = word_of_nat k"
    and "ar_entries r = map (framed crc) (take m (drop k H))" and "k + m \<le> length H"
  shows "\<exists>t a' rss'. replica_append crc observed None r s = (t, Inr (OkResponse (word_of_nat (k + m)) e))
    \<and> refines crc fenced (rp_log t) a' rss' \<and> al_entries a' = take k D @ take m (drop k H)
    \<and> (take k D \<noteq> take k H \<longrightarrow> al_entries a' \<noteq> take (k + m) H)"
proof -
  let ?H = "take k D @ drop k H"
  have len: "length ?H = length H" "take k ?H = take k D" "drop k ?H = drop k H" "k \<le> length ?H" using assms(4,15) by simp_all
  have H: "contiguous ?H" using assms(2) by (simp add: owner_history_def)
  have k64: "k < 2 ^ 64" using H len by (simp add: contiguous_def)
  have "filter (\<lambda>x. we_lamport x \<le> word_of_nat k) (take (length D) D) = take k D"
    using filter_history[OF assms(7) k64, of "length D"] assms(4) by (simp add: min_def)
  moreover have "last_of a = word_of_nat (length D)" using last_lamport_history[OF assms(7), of "length D"] assms(3) by (simp add: last_of_def)
  moreover have "min k (unat (pl_durable (rp_log s))) = k" using assms(4-6) by (simp add: unat_of_nat)
  ultimately have ag: "agrees e k ?H (rp_log s) a"
    using assms(3,5,8,9) len by (auto simp: agrees_def min_def)
  have sent: "ar_entries r = map (framed crc) (take m (drop k ?H))" "k + m \<le> length ?H" using assms(14,15) len by simp_all
  have ne: "pl_epoch (rp_log s) \<noteq> e" using assms(8) by simp
  obtain n t a' rss' where n: "n \<le> length ?H" "word_of_nat n = min (word_of_nat k) (pl_durable (rp_log s))"
    and t: "refines crc fenced (rp_log t) a' rss'" "agrees e k ?H (rp_log t) a'" "pl_epoch (rp_log t) = e"
    "if k \<le> n then replica_append crc observed None r s = (t, Inr (OkResponse (word_of_nat (max n (k + m))) e)) \<and> al_entries a' = take (max n (k + m)) ?H
     else replica_append crc observed None r s = (t, Inr (GapResponse (word_of_nat n) e)) \<and> al_entries a' = take n ?H"
  proof -
    note af = append_follows[OF assms(1,2) ag assms(10-13) sent, where observed = observed and k' = k, unfolded if_not_P[OF ne]]
    from af show thesis by (elim exE conjE) (rule that)
  qed
  have "min (word_of_nat k) (pl_durable (rp_log s)) = word_of_nat k"
    using assms(4-6) k64 by (simp add: min_def word_le_nat_alt unat_of_nat)
  then have "word_of_nat n = (word_of_nat k :: u64)" using n(2) by metis
  then have "n = k" using unat_lamport[OF H n(1)] unat_lamport[OF H len(4)] by metis
  moreover have "take (k + m) ?H = take k D @ take m (drop k H)" using assms(4) by simp
  moreover have "take k D @ take m (drop k H) \<noteq> take (k + m) H" if "take k D \<noteq> take k H"
    using that assms(4,15) by (simp add: take_add)
  ultimately show ?thesis using t(1,4) by (intro exI[of _ t] exI[of _ a'] exI[of _ rss']) simp
qed

text \<open>Entry 2 of an earlier owner stays in the place of entry 2 of the new one.\<close>

lemma divergent_log:
  "refines no_crc True (log_holding [(1, [FenceRecord 1, EntryRecord (example_entry 1 1), EntryRecord (example_entry 2 1)], 2)] 2 1)
     \<lparr>al_entries = [example_entry 1 1, example_entry 2 1], al_applied = 0, al_epoch = 1\<rparr> [[FenceRecord 1, EntryRecord (example_entry 1 1), EntryRecord (example_entry 2 1)]]"
  by (simp add: refines_def log_rep_def dir_ok_def log_holding_def holds_records_def covers_entries_def unapplied_def)

theorem late_first_append_keeps_a_divergent_log_witness:
  "\<exists>t a' rss'. replica_append no_crc True None (example_append 2 2 [example_entry 3 2])
      \<lparr>rp_log = log_holding [(1, [FenceRecord 1, EntryRecord (example_entry 1 1), EntryRecord (example_entry 2 1)], 2)] 2 1, rp_events = []\<rparr>
      = (t, Inr (OkResponse 3 2))
    \<and> refines no_crc True (rp_log t) a' rss' \<and> al_entries a' = [example_entry 1 1, example_entry 2 1, example_entry 3 2]
    \<and> al_entries a' \<noteq> [example_entry 1 1, example_entry 2 2, example_entry 3 2]"
proof -
  let ?s = "\<lparr>rp_log = log_holding [(1, [FenceRecord 1, EntryRecord (example_entry 1 1), EntryRecord (example_entry 2 1)], 2)] 2 1, rp_events = []\<rparr>"
  have ref: "refines no_crc True (rp_log ?s) \<lparr>al_entries = [example_entry 1 1, example_entry 2 1], al_applied = 0, al_epoch = 1\<rparr>
      [[FenceRecord 1, EntryRecord (example_entry 1 1), EntryRecord (example_entry 2 1)]]" using divergent_log by simp
  have part: "we_partition (example_entry l e) = 7" for l e by (simp add: example_entry_def)
  let ?D = "[example_entry 1 1, example_entry 2 1]" and ?H = "[example_entry 1 1, example_entry 2 2, example_entry 3 2]"
  have H: "owner_history 7 2 (take 2 ?D @ drop 2 ?H)" by (auto simp: owner_history_def contiguous_def part less_Suc_eq)
  have D: "contiguous ?D" by (auto simp: contiguous_def less_Suc_eq)
  have differ: "example_entry 2 1 \<noteq> example_entry 2 2" by (simp add: example_entry_def)
  have facts: "pl_durable (rp_log ?s) = word_of_nat (length ?D)" "pl_epoch (rp_log ?s) < 2" "pl_applied_through (rp_log ?s) \<le> word_of_nat 2" "pl_next_seq (rp_log ?s) \<noteq> -1"
    by (simp_all add: log_holding_def)
  have "\<exists>t a' rss'. replica_append no_crc True None (example_append 2 2 [example_entry 3 2]) ?s = (t, Inr (OkResponse (word_of_nat (2 + 1)) 2))
    \<and> refines no_crc True (rp_log t) a' rss' \<and> al_entries a' = take 2 ?D @ take 1 (drop 2 ?H) \<and> (take 2 ?D \<noteq> take 2 ?H \<longrightarrow> al_entries a' \<noteq> take (2 + 1) ?H)"
    by (rule late_first_append_keeps_a_divergent_log[OF ref H _ _ facts(1) _ D facts(2-4)]) (simp_all add: example_append_def)
  then show ?thesis using differ by simp
qed

end
