(* ===== verification/Seg_Record.thy ===== *)
theory Seg_Record
  imports Codec
begin

unbundle bit_operations_syntax

text \<open>
  \<open>orbita-format/src/record.rs\<close> and \<open>error.rs\<close>: one record of a segment's data section, its encoding
  and the reader of its body. The checksum is the parameter \<open>crc\<close>: the code calls the crate \<open>crc32c\<close>.
  Lengths above 32 bits end the process in \<open>u32_len\<close>; the statements below are about records without one.
\<close>

section \<open>Errors\<close>

datatype malformed_detail =
    ReservedFlags u8
  | TombstoneExternal
  | CommitTimestamp u64
  | ObjectNameNotUtf8
  | TrailingBytes nat
  | KeysNotAscending
  | KeyNotAfter bytes bytes
  | RecordTooLong
  | NoRecords
  | HeaderNotZero nat nat
  | ReservedWord u32
  | LamportsCrossed lamport lamport
  | IndexOverflow
  | IndexOutside u64 u64
  | EntryPastEnd
  | EntryCount nat u64
  | EntryLength u32 nat
  | MoreRecordsThanIndex
  | RecordCount nat nat
  | EntryElsewhere
  | ManifestInvalid string

datatype object_error =
    ObjectNotFound bytes
  | PreconditionFailed bytes
  | AccessDenied bytes
  | Transient
  | OtherStoreError

datatype corrupt_detail =
    WrongDirectory keyspace_id partition_id
  | ManifestRecordCount bytes u64 u64
  | TwoRecordsAt lamport
  | RecordLengthDiffers bytes
  | RecordKeyDiffers bytes
  | ValueLengthDiffers bytes

datatype format_error =
    UnsupportedVersion u64 u64
  | BadMagic string
  | ShortOf string nat nat
  | ChecksumMismatch string u32 u32
  | MalformedBytes string malformed_detail
  | Corrupt corrupt_detail
  | Deposed epoch epoch
  | Contended u32
  | StoreFailed object_error
  | FormatPanics

text \<open>\<open>FormatPanics\<close> stands for the end of the process at an \<open>expect\<close>; the code has no such error.\<close>

fun object_error_is_retryable :: "object_error \<Rightarrow> bool" where
  "object_error_is_retryable Transient = True"
| "object_error_is_retryable _ = False"

fun format_error_is_retryable :: "format_error \<Rightarrow> bool" where
  "format_error_is_retryable (StoreFailed e) = object_error_is_retryable e"
| "format_error_is_retryable _ = False"

section \<open>Records\<close>

record external_value =
  ev_name :: bytes
  ev_length :: u64
  ev_crc32c :: u32

datatype record_value = Tombstone | Inline bytes | External external_value

record segment_record =
  sr_key :: bytes
  sr_lamport :: lamport
  sr_expires_at_millis :: "u64 option"
  sr_value :: record_value

definition is_tombstone :: "segment_record \<Rightarrow> bool" where
  "is_tombstone r = (case sr_value r of Tombstone \<Rightarrow> True | _ \<Rightarrow> False)"

definition record_expired_at :: "segment_record \<Rightarrow> u64 \<Rightarrow> bool" where
  "record_expired_at r now_millis = (case sr_expires_at_millis r of None \<Rightarrow> False | Some e \<Rightarrow> e \<le> now_millis)"

definition is_visible_at :: "segment_record \<Rightarrow> u64 \<Rightarrow> bool" where
  "is_visible_at r now_millis = (\<not> is_tombstone r \<and> \<not> record_expired_at r now_millis)"

definition to_record :: "segment_record \<Rightarrow> bytes \<Rightarrow> stored_record" where
  "to_record r v = \<lparr>rec_value = v, rec_version = sr_lamport r, rec_expires_at_millis = sr_expires_at_millis r\<rparr>"

section \<open>Writing\<close>

definition flag_tombstone :: u8 where "flag_tombstone = 1"
definition flag_expiry :: u8 where "flag_expiry = 2"
definition flag_external :: u8 where "flag_external = 4"
definition flags_reserved :: u8 where "flags_reserved = NOT (flag_tombstone OR flag_expiry OR flag_external)"

definition record_flags :: "segment_record \<Rightarrow> u8" where
  "record_flags r =
     (if is_tombstone r then flag_tombstone else 0)
     OR (if sr_expires_at_millis r \<noteq> None then flag_expiry else 0)
     OR (case sr_value r of External _ \<Rightarrow> flag_external | _ \<Rightarrow> 0)"

fun put_value_part :: "record_value \<Rightarrow> bytes" where
  "put_value_part Tombstone = []"
| "put_value_part (Inline v) = put_bytes v"
| "put_value_part (External e) = put_bytes (ev_name e) @ put_u64 (ev_length e) @ put_u32 (ev_crc32c e)"

definition encode_body :: "segment_record \<Rightarrow> bytes" where
  "encode_body r =
     put_u8 (record_flags r) @ put_u64 (sr_lamport r) @ put_u64 0 @ put_bytes (sr_key r)
     @ (case sr_expires_at_millis r of Some e \<Rightarrow> put_u64 e | None \<Rightarrow> [])
     @ put_value_part (sr_value r)"

definition record_encode :: "(bytes \<Rightarrow> u32) \<Rightarrow> segment_record \<Rightarrow> bytes" where
  "record_encode crc r =
     (let body = encode_body r; framed = put_u32 (word_of_nat (length body)) @ body
      in put_u32 (crc framed) @ framed)"

section \<open>Reading\<close>

text \<open>
  The cursor: how far it has read and what is left. \<open>checked_add\<close> fails only past \<open>usize::MAX\<close>, beyond
  the end of every slice.
\<close>

type_synonym cursor = "nat \<times> bytes"
type_synonym 'a cursor_read = "cursor \<Rightarrow> format_error + ('a \<times> cursor)"

definition cur_ret :: "'a \<Rightarrow> 'a cursor_read" where
  "cur_ret x c = Inr (x, c)"

definition cur_fail :: "format_error \<Rightarrow> 'a cursor_read" where
  "cur_fail e c = Inl e"

definition cur_bind :: "'a cursor_read \<Rightarrow> ('a \<Rightarrow> 'b cursor_read) \<Rightarrow> 'b cursor_read" where
  "cur_bind p f c = (case p c of Inl e \<Rightarrow> Inl e | Inr (x, c') \<Rightarrow> f x c')"

definition cur_take :: "nat \<Rightarrow> bytes cursor_read" where
  "cur_take n c =
     (case c of (at, rest) \<Rightarrow>
        if length rest < n then Inl (ShortOf ''record body'' (at + n) (at + length rest))
        else Inr (take n rest, (at + n, drop n rest)))"

definition cur_u8 :: "u8 cursor_read" where
  "cur_u8 = cur_bind (cur_take 1) (\<lambda>b. cur_ret (hd b))"

definition cur_u32 :: "u32 cursor_read" where
  "cur_u32 = cur_bind (cur_take 4) (\<lambda>b. cur_ret (word_of_nat (le_value b)))"

definition cur_u64 :: "u64 cursor_read" where
  "cur_u64 = cur_bind (cur_take 8) (\<lambda>b. cur_ret (word_of_nat (le_value b)))"

definition cur_bytes32 :: "bytes cursor_read" where
  "cur_bytes32 = cur_bind cur_u32 (\<lambda>len. cur_take (unat len))"

definition malformed_record :: "malformed_detail \<Rightarrow> 'a cursor_read" where
  "malformed_record d = cur_fail (MalformedBytes ''record'' d)"

definition cur_external :: "external_value cursor_read" where
  "cur_external =
     cur_bind cur_bytes32 (\<lambda>name.
     if \<not> utf8_valid name then malformed_record ObjectNameNotUtf8
     else cur_bind cur_u64 (\<lambda>len. cur_bind cur_u32 (\<lambda>sum.
       cur_ret \<lparr>ev_name = name, ev_length = len, ev_crc32c = sum\<rparr>)))"

definition cur_value :: "bool \<Rightarrow> bool \<Rightarrow> record_value cursor_read" where
  "cur_value tombstone external =
     (if tombstone then cur_ret Tombstone
      else if external then cur_bind cur_external (\<lambda>e. cur_ret (External e))
      else cur_bind cur_bytes32 (\<lambda>v. cur_ret (Inline v)))"

definition cur_record :: "segment_record cursor_read" where
  "cur_record =
     cur_bind cur_u8 (\<lambda>bits.
     if bits AND flags_reserved \<noteq> 0 then malformed_record (ReservedFlags bits)
     else if bits AND flag_tombstone \<noteq> 0 \<and> bits AND flag_external \<noteq> 0 then malformed_record TombstoneExternal
     else
       cur_bind cur_u64 (\<lambda>l.
       cur_bind cur_u64 (\<lambda>commit_timestamp.
       if commit_timestamp \<noteq> 0 then malformed_record (CommitTimestamp commit_timestamp)
       else
         cur_bind cur_bytes32 (\<lambda>key.
         cur_bind (if bits AND flag_expiry \<noteq> 0 then cur_bind cur_u64 (\<lambda>e. cur_ret (Some e)) else cur_ret None) (\<lambda>expires.
         cur_bind (cur_value (bits AND flag_tombstone \<noteq> 0) (bits AND flag_external \<noteq> 0)) (\<lambda>v.
         cur_ret \<lparr>sr_key = key, sr_lamport = l, sr_expires_at_millis = expires, sr_value = v\<rparr>))))))"

definition decode_record_body :: "bytes \<Rightarrow> format_error + segment_record" where
  "decode_record_body body =
     bind_res (cur_record (0, body)) (\<lambda>(r, _, rest).
       if rest \<noteq> [] then Inl (MalformedBytes ''record'' (TrailingBytes (length rest))) else Inr r)"

definition record_decode :: "(bytes \<Rightarrow> u32) \<Rightarrow> bytes \<Rightarrow> format_error + (segment_record \<times> nat)" where
  "record_decode crc bs =
     (if length bs < 8 then Inl (ShortOf ''record framing'' 8 (length bs))
      else
        let stored = word_of_nat (le_value (take 4 bs));
            total = 8 + le_value (take 4 (drop 4 bs))
        in if length bs < total then Inl (ShortOf ''record body'' total (length bs))
           else
             let computed = crc (drop 4 (take total bs))
             in if computed \<noteq> stored then Inl (ChecksumMismatch ''record'' stored computed)
                else bind_res (decode_record_body (drop 8 (take total bs))) (\<lambda>r. Inr (r, total)))"

definition lamport_offset :: nat where "lamport_offset = 9"

definition peek_lamport :: "bytes \<Rightarrow> format_error + lamport" where
  "peek_lamport head =
     (if length head < lamport_offset + 8 then Inl (ShortOf ''record head'' (lamport_offset + 8) (length head))
      else Inr (word_of_nat (le_value (take 8 (drop lamport_offset head)))))"

section \<open>The reader accepts exactly what the writer produces\<close>

lemma cur_bind_okE:
  assumes "cur_bind p f c = Inr y"
  obtains x c' where "p c = Inr (x, c')" "f x c' = Inr y"
  using assms by (auto simp: cur_bind_def split: sum.splits)

locale cursor_codec =
  fixes enc :: "'a \<Rightarrow> bytes" and dec :: "'a cursor_read" and good :: "'a \<Rightarrow> bool"
  assumes decoded_iff:
    "dec (at, bs) = Inr (x, at', rest) \<longleftrightarrow> bs = enc x @ rest \<and> at' = at + length (enc x) \<and> good x"
begin

lemma roundtrip: "good x \<Longrightarrow> dec (at, enc x @ rest) = Inr (x, at + length (enc x), rest)"
  by (simp add: decoded_iff)

lemma step: "good x \<Longrightarrow> cur_bind dec f (at, enc x @ rest) = f x (at + length (enc x), rest)"
  by (simp add: cur_bind_def roundtrip)

lemma inverse:
  "cur_bind dec f (at, bs) = Inr y \<longleftrightarrow>
    (\<exists>x rest. bs = enc x @ rest \<and> good x \<and> f x (at + length (enc x), rest) = Inr y)"
proof
  assume "cur_bind dec f (at, bs) = Inr y"
  then obtain x at' rest where "dec (at, bs) = Inr (x, at', rest)" "f x (at', rest) = Inr y" by (auto elim!: cur_bind_okE)
  then show "\<exists>x rest. bs = enc x @ rest \<and> good x \<and> f x (at + length (enc x), rest) = Inr y" by (auto simp: decoded_iff)
next
  assume "\<exists>x rest. bs = enc x @ rest \<and> good x \<and> f x (at + length (enc x), rest) = Inr y"
  then obtain x rest where x: "bs = enc x @ rest" "good x" "f x (at + length (enc x), rest) = Inr y" by blast
  show "cur_bind dec f (at, bs) = Inr y" unfolding x(1) step[OF x(2)] by (rule x(3))
qed

end

lemma cur_take_ok: "cur_take n (at, bs) = Inr (x, at', rest) \<longleftrightarrow> bs = x @ rest \<and> length x = n \<and> at' = at + n"
  by (auto simp: cur_take_def)

lemma cur_take_inverse:
  "cur_bind (cur_take n) f (at, bs) = Inr y \<longleftrightarrow> (\<exists>x rest. bs = x @ rest \<and> length x = n \<and> f x (at + n, rest) = Inr y)"
  by (auto simp: cur_bind_def cur_take_def) (metis append_take_drop_id length_take min_absorb2 not_less)

interpretation c8: cursor_codec put_u8 cur_u8 "\<lambda>_. True"
  by unfold_locales (auto simp: cur_u8_def cur_take_inverse cur_ret_def put_u8_def length_Suc_conv)

interpretation c32: cursor_codec put_u32 cur_u32 "\<lambda>_. True"
  by unfold_locales
    (auto simp: cur_u32_def cur_take_inverse cur_ret_def u32_of_le put_u32_le_value)

interpretation c64: cursor_codec put_u64 cur_u64 "\<lambda>_. True"
  by unfold_locales
    (auto simp: cur_u64_def cur_take_inverse cur_ret_def u64_of_le put_u64_le_value)

interpretation cbytes: cursor_codec put_bytes cur_bytes32 len32
proof
  fix at at' and bs x rest :: bytes
  have "length x = unat len \<longleftrightarrow> len32 x \<and> len = word_of_nat (length x)" for len :: u32
    using unsigned_less[of len, where 'a = nat] unat_len32[of "length x"] by auto
  then show "(cur_bytes32 (at, bs) = Inr (x, at', rest)) = (bs = put_bytes x @ rest \<and> at' = at + length (put_bytes x) \<and> len32 x)"
    by (auto simp: cur_bytes32_def c32.inverse cur_take_ok put_bytes_def unat_len32)
qed

text \<open>The flags byte says what it was computed from, and no other byte does.\<close>

lemma flag_bits: "b AND flags_reserved = 0 \<longleftrightarrow> b < 8" for b :: u8
proof -
  have "b AND flags_reserved = 0 \<longleftrightarrow> take_bit 3 b = b"
    by (simp add: flags_reserved_def flag_tombstone_def flag_expiry_def flag_external_def take_bit_eq_mask mask_eq_exp_minus_1
        bit_eq_iff bit_simps) blast
  also have "\<dots> \<longleftrightarrow> b < 8"
    by (simp add: word_unat_eq_iff unsigned_take_bit_eq take_bit_nat_eq_self_iff word_less_nat_alt)
  finally show ?thesis .
qed

lemma small_byte: "b < 8 \<longleftrightarrow> b \<in> {0, 1, 2, 3, 4, 5, 6, 7}" for b :: u8
  by (auto simp: word_less_nat_alt word_unat_eq_iff)

lemmas flag_defs = flag_tombstone_def flag_expiry_def flag_external_def

lemma record_flags_cases:
  "record_flags r = (if is_tombstone r then 1 else case sr_value r of External _ \<Rightarrow> 4 | _ \<Rightarrow> 0)
     + (if sr_expires_at_millis r \<noteq> None then 2 else 0)"
  by (auto simp: record_flags_def flag_defs is_tombstone_def split: record_value.splits)

definition cur_expiry :: "bool \<Rightarrow> u64 option cursor_read" where
  "cur_expiry present = (if present then cur_bind cur_u64 (\<lambda>e. cur_ret (Some e)) else cur_ret None)"

definition put_expiry :: "u64 option \<Rightarrow> bytes" where
  "put_expiry e = (case e of Some e \<Rightarrow> put_u64 e | None \<Rightarrow> [])"

interpretation cexpiry: cursor_codec put_expiry "cur_expiry present" "\<lambda>e. (e \<noteq> None) = present" for present
  by unfold_locales (auto simp: cur_expiry_def put_expiry_def c64.inverse cur_ret_def split: option.splits)

fun value_ok :: "record_value \<Rightarrow> bool" where
  "value_ok Tombstone = True"
| "value_ok (Inline v) = len32 v"
| "value_ok (External e) = str_ok (ev_name e)"

definition value_flags :: "bool \<Rightarrow> bool \<Rightarrow> record_value \<Rightarrow> bool" where
  "value_flags t x v = (case v of Tombstone \<Rightarrow> t | Inline _ \<Rightarrow> \<not> t \<and> \<not> x | External _ \<Rightarrow> \<not> t \<and> x)"

definition put_external :: "external_value \<Rightarrow> bytes" where
  "put_external e = put_bytes (ev_name e) @ put_u64 (ev_length e) @ put_u32 (ev_crc32c e)"

interpretation cexternal: cursor_codec put_external cur_external "\<lambda>e. str_ok (ev_name e)"
proof
  fix at at' and bs rest :: bytes and e :: external_value
  show "(cur_external (at, bs) = Inr (e, at', rest)) =
      (bs = put_external e @ rest \<and> at' = at + length (put_external e) \<and> str_ok (ev_name e))"
  proof
    assume "cur_external (at, bs) = Inr (e, at', rest)"
    then show "bs = put_external e @ rest \<and> at' = at + length (put_external e) \<and> str_ok (ev_name e)"
      by (auto simp: cur_external_def put_external_def cbytes.inverse c64.inverse c32.inverse cur_ret_def cur_fail_def
          malformed_record_def str_ok_def split: if_splits)
  qed (simp add: cur_external_def put_external_def cbytes.step c64.step c32.step cur_ret_def str_ok_def)
qed

interpretation cvalue: cursor_codec put_value_part "cur_value t x" "\<lambda>v. value_ok v \<and> value_flags t x v" for t x
proof
  fix at at' and bs rest :: bytes and v :: record_value
  show "(cur_value t x (at, bs) = Inr (v, at', rest)) =
      (bs = put_value_part v @ rest \<and> at' = at + length (put_value_part v) \<and> value_ok v \<and> value_flags t x v)"
    by (cases t; cases x; cases v)
      (auto simp: cur_value_def value_flags_def cbytes.inverse cexternal.inverse cur_ret_def put_external_def)
qed

definition record_ok :: "segment_record \<Rightarrow> bool" where
  "record_ok r \<longleftrightarrow> len32 (sr_key r) \<and> value_ok (sr_value r)"

lemma flags_of_record:
  "record_flags r AND flags_reserved = 0"
  "(record_flags r AND flag_tombstone \<noteq> 0) = is_tombstone r"
  "(record_flags r AND flag_external \<noteq> 0) = (\<exists>e. sr_value r = External e)"
  "(record_flags r AND flag_expiry \<noteq> 0) = (sr_expires_at_millis r \<noteq> None)"
  by (auto simp: flag_bits record_flags_cases flag_defs is_tombstone_def split: record_value.splits)

lemma flags_determined:
  assumes "b AND flags_reserved = 0" and "value_flags (b AND flag_tombstone \<noteq> 0) (b AND flag_external \<noteq> 0) (sr_value r)"
    and "\<not> (b AND flag_tombstone \<noteq> 0 \<and> b AND flag_external \<noteq> 0)" and "(sr_expires_at_millis r \<noteq> None) = (b AND flag_expiry \<noteq> 0)"
  shows "b = record_flags r"
proof -
  have "b \<in> {0, 1, 2, 3, 4, 5, 6, 7}" using assms(1) by (simp add: flag_bits small_byte)
  then show ?thesis using assms(2-4)
    by (auto simp: record_flags_cases flag_defs is_tombstone_def value_flags_def split: record_value.splits)
qed

lemma value_flags_record: "value_flags (is_tombstone r) (\<exists>e. sr_value r = External e) (sr_value r)"
  by (auto simp: value_flags_def is_tombstone_def split: record_value.splits)

lemma encode_body_put: "encode_body r = put_u8 (record_flags r) @ put_u64 (sr_lamport r) @ put_u64 0 @ put_bytes (sr_key r)
    @ put_expiry (sr_expires_at_millis r) @ put_value_part (sr_value r)"
  by (simp add: encode_body_def put_expiry_def)

lemma cur_record_steps:
  "cur_record =
     cur_bind cur_u8 (\<lambda>bits.
     if bits AND flags_reserved \<noteq> 0 then malformed_record (ReservedFlags bits)
     else if bits AND flag_tombstone \<noteq> 0 \<and> bits AND flag_external \<noteq> 0 then malformed_record TombstoneExternal
     else
       cur_bind cur_u64 (\<lambda>l.
       cur_bind cur_u64 (\<lambda>ts.
       if ts \<noteq> 0 then malformed_record (CommitTimestamp ts)
       else
         cur_bind cur_bytes32 (\<lambda>key.
         cur_bind (cur_expiry (bits AND flag_expiry \<noteq> 0)) (\<lambda>expires.
         cur_bind (cur_value (bits AND flag_tombstone \<noteq> 0) (bits AND flag_external \<noteq> 0)) (\<lambda>v.
         cur_ret \<lparr>sr_key = key, sr_lamport = l, sr_expires_at_millis = expires, sr_value = v\<rparr>))))))"
  unfolding cur_record_def cur_expiry_def ..

interpretation crec: cursor_codec encode_body cur_record record_ok
proof
  fix at at' and bs rest :: bytes and r :: segment_record
  show "(cur_record (at, bs) = Inr (r, at', rest)) = (bs = encode_body r @ rest \<and> at' = at + length (encode_body r) \<and> record_ok r)"
  proof
    assume "cur_record (at, bs) = Inr (r, at', rest)"
    note read = this
    obtain b bs1 where bs: "bs = put_u8 b @ bs1" using read by (cases bs) (auto simp: cur_record_def c8.inverse put_u8_def)
    have "b AND flags_reserved = 0 \<and> \<not> (b AND flag_tombstone \<noteq> 0 \<and> b AND flag_external \<noteq> 0) \<and> record_ok r
      \<and> (sr_expires_at_millis r \<noteq> None) = (b AND flag_expiry \<noteq> 0)
      \<and> value_flags (b AND flag_tombstone \<noteq> 0) (b AND flag_external \<noteq> 0) (sr_value r)
      \<and> bs1 = put_u64 (sr_lamport r) @ put_u64 0 @ put_bytes (sr_key r) @ put_expiry (sr_expires_at_millis r) @ put_value_part (sr_value r) @ rest
      \<and> at' = at + length (put_u8 b @ put_u64 (sr_lamport r) @ put_u64 0 @ put_bytes (sr_key r)
          @ put_expiry (sr_expires_at_millis r) @ put_value_part (sr_value r))"
      using read unfolding cur_record_steps bs c8.step[OF TrueI]
      by (auto simp: c64.inverse cbytes.inverse cexpiry.inverse cvalue.inverse malformed_record_def cur_fail_def
          cur_ret_def record_ok_def split: if_splits)
    then show "bs = encode_body r @ rest \<and> at' = at + length (encode_body r) \<and> record_ok r"
      using flags_determined[of b r] by (simp add: encode_body_put bs)
  next
    assume a: "bs = encode_body r @ rest \<and> at' = at + length (encode_body r) \<and> record_ok r"
    have no: "\<not> (is_tombstone r \<and> (\<exists>e. sr_value r = External e))" by (auto simp: is_tombstone_def)
    show "cur_record (at, bs) = Inr (r, at', rest)"
      using a no value_flags_record[of r] unfolding cur_record_steps
      by (simp add: encode_body_put c8.step c64.step cbytes.step cexpiry.step cvalue.step flags_of_record record_ok_def cur_ret_def) blast
  qed
qed

definition record_framed :: "segment_record \<Rightarrow> bool" where
  "record_framed r \<longleftrightarrow> record_ok r \<and> len32 (encode_body r)"

lemma decode_record_body_iff: "decode_record_body body = Inr r \<longleftrightarrow> body = encode_body r \<and> record_ok r"
proof
  assume "decode_record_body body = Inr r"
  then have "\<exists>at'. cur_record (0, body) = Inr (r, at', [])"
    by (auto simp: decode_record_body_def bind_res_eq_Inr split: if_splits)
  then show "body = encode_body r \<and> record_ok r" by (auto simp: crec.decoded_iff)
next
  assume a: "body = encode_body r \<and> record_ok r"
  then show "decode_record_body body = Inr r"
    using crec.roundtrip[of r 0 "[]"] by (simp add: decode_record_body_def)
qed

lemma length_record_encode: "length (record_encode crc r) = 8 + length (encode_body r)"
  by (simp add: record_encode_def Let_def)

lemma record_roundtrip:
  assumes "record_framed r"
  shows "record_decode crc (record_encode crc r @ rest) = Inr (r, length (record_encode crc r))"
proof -
  let ?body = "encode_body r" and ?len = "put_u32 (word_of_nat (length (encode_body r)))"
  have len: "le_value ?len = length ?body" using assms by (simp add: record_framed_def put_u32_def unat_len32 le_value_le_bytes)
  have "record_encode crc r @ rest = put_u32 (crc (?len @ ?body)) @ ?len @ ?body @ rest" by (simp add: record_encode_def Let_def)
  then show ?thesis
    using assms len decode_record_body_iff[of ?body r]
    by (simp add: record_decode_def Let_def record_framed_def u32_of_le length_record_encode)
qed

lemma record_exact:
  assumes "record_decode crc bs = Inr (r, n)"
  shows "record_framed r \<and> n = length (record_encode crc r) \<and> (\<exists>rest. bs = record_encode crc r @ rest)"
proof -
  define m where "m = le_value (take 4 (drop 4 bs))"
  define body where "body = drop 8 (take (8 + m) bs)"
  have n: "8 \<le> length bs" "8 + m \<le> length bs" "n = 8 + m" "crc (drop 4 (take (8 + m) bs)) = word_of_nat (le_value (take 4 bs))"
    and body: "decode_record_body body = Inr r"
    using assms by (auto simp: record_decode_def Let_def m_def body_def bind_res_eq_Inr split: if_splits)
  have r: "body = encode_body r" "record_ok r" using body by (simp_all add: decode_record_body_iff)
  have "length body = m" using n(2) by (simp add: body_def)
  then have m: "m = length (encode_body r)" using r(1) by simp
  have "m < 2 ^ 32" using le_value_bound[of "take 4 (drop 4 bs)"] n(1) by (simp add: m_def)
  then have len: "put_u32 (word_of_nat m) = take 4 (drop 4 bs)"
    using put_u32_le_value[of "take 4 (drop 4 bs)"] n(1) by (simp add: m_def)
  have mid: "drop 4 (take (8 + m) bs) = take 4 (drop 4 bs) @ body"
    using take_add[of 4 m "drop 4 bs"] by (simp add: body_def drop_take)
  have "put_u32 (crc (put_u32 (word_of_nat m) @ body)) = take 4 bs"
    using n(4) put_u32_le_value[of "take 4 bs"] n(1) by (simp add: len mid)
  then have "record_encode crc r = take 4 bs @ drop 4 (take (8 + m) bs)"
    using r(1) m len mid by (simp add: record_encode_def Let_def)
  also have "\<dots> = take (8 + m) bs" using append_take_drop_id[of 4 "take (8 + m) bs"] by simp
  finally have whole: "record_encode crc r = take (8 + m) bs" .
  have "bs = record_encode crc r @ drop (8 + m) bs" unfolding whole by simp
  then show ?thesis using r m \<open>m < 2 ^ 32\<close> n(3) by (auto simp: length_record_encode record_framed_def)
qed

lemma record_decode_iff:
  "record_decode crc bs = Inr (r, n) \<longleftrightarrow> record_framed r \<and> n = length (record_encode crc r) \<and> (\<exists>rest. bs = record_encode crc r @ rest)"
  using record_roundtrip record_exact by blast

lemma peek_lamport_encoded:
  "peek_lamport (take (lamport_offset + 8) (record_encode crc r @ rest)) = Inr (sr_lamport r)"
  by (simp add: peek_lamport_def lamport_offset_def record_encode_def encode_body_def Let_def put_u8_def u64_of_le)

end
