(* ===== verification/Obj_Store.thy ===== *)
theory Obj_Store
  imports Seg_Record
begin

text \<open>
  The object store: the contract of the trait \<open>ObjectStore\<close> (\<open>orbita-objectstore/src/lib.rs\<close>) as a locale, and
  \<open>MemoryStore\<close> (\<open>orbita-format/src/testing.rs\<close>), the store the repository itself implements in memory, as the
  instance that satisfies it. A tag \<open>etag-n\<close> is its number \<open>n\<close>; the log of served ranges, which only tests read, is
  left out.
\<close>

section \<open>The vocabulary of the trait\<close>

datatype 'tag precondition = NotExists | Match 'tag

record 'tag object_meta =
  om_key :: bytes
  om_size :: u64
  om_etag :: 'tag
  om_last_modified :: "u64 option"

definition is_safely_older_than :: "'tag object_meta \<Rightarrow> u64 \<Rightarrow> u64 \<Rightarrow> u64 \<Rightarrow> bool" where
  "is_safely_older_than m reference_now min_age_millis max_skew_millis =
     (case om_last_modified m of
        None \<Rightarrow> False
      | Some written \<Rightarrow> saturating_add min_age_millis max_skew_millis \<le> saturating_sub reference_now written)"

lemma safely_older_iff:
  "is_safely_older_than m now age skew \<longleftrightarrow>
     (\<exists>t. om_last_modified m = Some t \<and> min (unat age + unat skew) (2 ^ 64 - 1) + unat t \<le> max (unat now) (unat t))"
  by (auto simp: is_safely_older_than_def word_le_nat_alt unat_saturating_sub unat_saturating_add max_def
      split: option.splits)

definition precondition_holds :: "'tag precondition \<Rightarrow> 'tag option \<Rightarrow> bool" where
  "precondition_holds p current =
     (case (p, current) of
        (NotExists, None) \<Rightarrow> True
      | (Match expected, Some actual) \<Rightarrow> expected = actual
      | _ \<Rightarrow> False)"

lemma precondition_holds_simps [simp]:
  "precondition_holds NotExists c \<longleftrightarrow> c = None"
  "precondition_holds (Match t) c \<longleftrightarrow> c = Some t"
  by (auto simp: precondition_holds_def split: option.splits)

section \<open>The store in memory\<close>

record memory_store =
  ms_objects :: "(bytes, bytes \<times> u64 \<times> u64 option) btree"
  ms_next_tag :: u64
  ms_clock :: "u64 option"

definition ms_new :: "u64 option \<Rightarrow> memory_store" where
  "ms_new clock = \<lparr>ms_objects = [], ms_next_tag = 0, ms_clock = clock\<rparr>"

definition ms_tag :: "memory_store \<Rightarrow> memory_store \<times> u64" where
  "ms_tag s = (let n = ms_next_tag s + 1 in (s\<lparr>ms_next_tag := n\<rparr>, n))"

definition ms_put :: "bytes \<Rightarrow> bytes \<Rightarrow> (memory_store, object_error, u64) action" where
  "ms_put key data s =
     (let (s', tag) = ms_tag s
      in (s'\<lparr>ms_objects := bt_insert key (data, tag, ms_clock s) (ms_objects s')\<rparr>, Inr tag))"

definition ms_put_if :: "bytes \<Rightarrow> bytes \<Rightarrow> u64 precondition \<Rightarrow> (memory_store, object_error, u64) action" where
  "ms_put_if key data p s =
     (if \<not> precondition_holds p (map_option (\<lambda>(_, tag, _). tag) (bt_get (ms_objects s) key))
      then (s, Inl (PreconditionFailed key))
      else
        let (s', tag) = ms_tag s
        in (s'\<lparr>ms_objects := bt_insert key (data, tag, ms_clock s) (ms_objects s')\<rparr>, Inr tag))"

definition ms_get :: "memory_store \<Rightarrow> bytes \<Rightarrow> object_error + (bytes \<times> u64)" where
  "ms_get s key =
     (case bt_get (ms_objects s) key of None \<Rightarrow> Inl (ObjectNotFound key) | Some (data, tag, _) \<Rightarrow> Inr (data, tag))"

definition ms_get_range :: "memory_store \<Rightarrow> bytes \<Rightarrow> nat \<times> nat \<Rightarrow> object_error + bytes" where
  "ms_get_range s key r =
     (case bt_get (ms_objects s) key of
        None \<Rightarrow> Inl (ObjectNotFound key)
      | Some (data, _, _) \<Rightarrow>
          if length data \<le> fst r \<or> length data < snd r \<or> snd r < fst r then Inl OtherStoreError
          else Inr (take (snd r - fst r) (drop (fst r) data)))"

definition ms_meta :: "bytes \<Rightarrow> bytes \<times> u64 \<times> u64 option \<Rightarrow> u64 object_meta" where
  "ms_meta key obj =
     (case obj of (data, tag, t) \<Rightarrow>
        \<lparr>om_key = key, om_size = word_of_nat (length data), om_etag = tag, om_last_modified = t\<rparr>)"

definition ms_head :: "memory_store \<Rightarrow> bytes \<Rightarrow> object_error + u64 object_meta" where
  "ms_head s key =
     (case bt_get (ms_objects s) key of None \<Rightarrow> Inl (ObjectNotFound key) | Some obj \<Rightarrow> Inr (ms_meta key obj))"

definition starts_with :: "bytes \<Rightarrow> bytes \<Rightarrow> bool" where
  "starts_with prefix key = (take (length prefix) key = prefix)"

text \<open>\<open>objects.range(prefix..).take_while(|(key, _)| key.starts_with(prefix))\<close>.\<close>

definition ms_list :: "memory_store \<Rightarrow> bytes \<Rightarrow> u64 object_meta list" where
  "ms_list s prefix =
     map (\<lambda>(key, obj). ms_meta key obj)
       (takeWhile (\<lambda>e. starts_with prefix (fst e)) (dropWhile (\<lambda>e. fst e < prefix) (ms_objects s)))"

definition ms_delete :: "bytes \<Rightarrow> memory_store \<Rightarrow> memory_store" where
  "ms_delete key s = s\<lparr>ms_objects := bt_remove key (ms_objects s)\<rparr>"

section \<open>The listing\<close>

lemma less_prefix_not_starting: "key < prefix \<Longrightarrow> \<not> starts_with prefix (key :: bytes)"
proof
  assume a: "key < prefix" and "starts_with prefix key"
  then obtain rest where "key = prefix @ rest" by (metis append_take_drop_id starts_with_def)
  moreover have "p \<le> p @ rest" for p :: bytes by (induction p) simp_all
  ultimately show False using a not_le by blast
qed

lemma starting_below:
  assumes "prefix \<le> a" "a < b" "starts_with prefix b"
  shows "starts_with prefix (a :: bytes)"
  using assms
proof (induction prefix arbitrary: a b)
  case (Cons p ps)
  then obtain y ys where b: "b = p # ys" "starts_with ps ys" by (cases b) (auto simp: starts_with_def)
  from Cons.prems obtain x xs where a: "a = x # xs" by (cases a) auto
  have "p \<le> x" "x \<le> p" using Cons.prems a b by (auto simp: list_le_def)
  then have "x = p" by simp
  then show ?case using Cons.IH[of xs ys] Cons.prems a b by (auto simp: starts_with_def list_le_def)
qed (simp add: starts_with_def)

lemma listing_is_filter:
  "bt_ok m \<Longrightarrow> takeWhile (\<lambda>e. starts_with prefix (fst e)) (dropWhile (\<lambda>e. fst e < prefix) m)
     = filter (\<lambda>e. starts_with prefix (fst e)) (m :: (bytes, 'v) btree)"
proof (induction m)
  case (Cons e m)
  show ?case
  proof (cases "fst e < prefix")
    case True
    then show ?thesis using Cons less_prefix_not_starting by auto
  next
    case ge: False
    have "dropWhile (\<lambda>e. fst e < prefix) m = m"
      using Cons.prems ge by (cases m) (auto dest: less_trans)
    moreover have "\<not> starts_with prefix (fst e) \<Longrightarrow> filter (\<lambda>e. starts_with prefix (fst e)) m = []"
      using Cons.prems ge starting_below[of prefix "fst e"] by (auto simp: filter_empty_conv not_less)
    ultimately show ?thesis using Cons ge by auto
  qed
qed simp

lemma ms_list_set:
  "bt_ok (ms_objects s) \<Longrightarrow>
     set (ms_list s prefix) = {ms_meta key obj | key obj. bt_get (ms_objects s) key = Some obj \<and> starts_with prefix key}"
  by (fastforce simp: ms_list_def listing_is_filter bt_get_iff)


lemma ms_list_keys:
  "bt_ok (ms_objects s) \<Longrightarrow> om_key ` set (ms_list s prefix) = {key. starts_with prefix key \<and> (\<exists>obj. bt_get (ms_objects s) key = Some obj)}"
proof -
  assume ok: "bt_ok (ms_objects s)"
  have "om_key ` set (ms_list s prefix) = fst ` set (filter (\<lambda>e. starts_with prefix (fst e)) (ms_objects s))"
    by (simp add: ms_list_def listing_is_filter[OF ok] image_image ms_meta_def case_prod_unfold)
  also have "\<dots> = {key. starts_with prefix key \<and> (\<exists>obj. bt_get (ms_objects s) key = Some obj)}"
    by (force simp: bt_get_iff[OF ok])
  finally show ?thesis .
qed

section \<open>The contract\<close>

text \<open>The operations of the trait that the format calls; a listing carries keys, sizes, tags and times.\<close>

record ('s, 'tag) store_ops =
  so_put :: "bytes \<Rightarrow> bytes \<Rightarrow> ('s, object_error, 'tag) action"
  so_put_if :: "bytes \<Rightarrow> bytes \<Rightarrow> 'tag precondition \<Rightarrow> ('s, object_error, 'tag) action"
  so_get :: "'s \<Rightarrow> bytes \<Rightarrow> object_error + (bytes \<times> 'tag)"
  so_get_range :: "'s \<Rightarrow> bytes \<Rightarrow> nat \<times> nat \<Rightarrow> object_error + bytes"
  so_head :: "'s \<Rightarrow> bytes \<Rightarrow> object_error + 'tag object_meta"
  so_list :: "'s \<Rightarrow> bytes \<Rightarrow> object_error + 'tag object_meta list"
  so_delete :: "bytes \<Rightarrow> ('s, object_error, unit) action"

definition memory_ops :: "(memory_store, u64) store_ops" where
  "memory_ops =
     \<lparr>so_put = ms_put, so_put_if = ms_put_if, so_get = ms_get, so_get_range = ms_get_range, so_head = ms_head,
      so_list = (\<lambda>s prefix. Inr (ms_list s prefix)), so_delete = (\<lambda>key s. (ms_delete key s, Inr ()))\<rparr>"

lemma memory_ops_simps [simp]:
  "so_put memory_ops = ms_put" "so_put_if memory_ops = ms_put_if" "so_get memory_ops = ms_get"
  "so_get_range memory_ops = ms_get_range" "so_head memory_ops = ms_head"
  "so_list memory_ops s prefix = Inr (ms_list s prefix)" "so_delete memory_ops key s = (ms_delete key s, Inr ())"
  by (simp_all add: memory_ops_def)

text \<open>What a read finds at a key: the object, or nothing.\<close>

definition object_at :: "('s, 'tag) store_ops \<Rightarrow> 's \<Rightarrow> bytes \<Rightarrow> (bytes \<times> 'tag) option" where
  "object_at ops s key = (case so_get ops s key of Inl _ \<Rightarrow> None | Inr o' \<Rightarrow> Some o')"

text \<open>
  What a client of the trait relies on. \<open>used s t\<close> says that the store has handed out tag \<open>t\<close>; \<open>room s n\<close> that it
  is a store of this kind and can write \<open>n\<close> more objects before its tags run out.
\<close>

locale object_store =
  fixes ops :: "('s, 'tag) store_ops"
    and used :: "'s \<Rightarrow> 'tag \<Rightarrow> bool"
    and room :: "'s \<Rightarrow> nat \<Rightarrow> bool"
  assumes get_used: "room s 0 \<Longrightarrow> object_at ops s key = Some (data, t) \<Longrightarrow> used s t"
    and get_missing: "so_get ops s key = Inl e \<Longrightarrow> e = ObjectNotFound key"
    and get_range_law: "object_at ops s key = Some (data, t) \<Longrightarrow> fst r < length data \<Longrightarrow> snd r \<le> length data \<Longrightarrow> fst r \<le> snd r
      \<Longrightarrow> so_get_range ops s key r = Inr (take (snd r - fst r) (drop (fst r) data))"
    and put_law: "room s (Suc n) \<Longrightarrow> \<exists>s' t. so_put ops key data s = (s', Inr t)
      \<and> object_at ops s' = (object_at ops s)(key \<mapsto> (data, t)) \<and> \<not> used s t \<and> used s' = (\<lambda>u. used s u \<or> u = t) \<and> room s' n"
    and put_if_holds: "room s (Suc n) \<Longrightarrow> precondition_holds p (map_option snd (object_at ops s key))
      \<Longrightarrow> \<exists>s' t. so_put_if ops key data p s = (s', Inr t)
      \<and> object_at ops s' = (object_at ops s)(key \<mapsto> (data, t)) \<and> \<not> used s t \<and> used s' = (\<lambda>u. used s u \<or> u = t) \<and> room s' n"
    and put_if_fails: "\<not> precondition_holds p (map_option snd (object_at ops s key))
      \<Longrightarrow> so_put_if ops key data p s = (s, Inl (PreconditionFailed key))"
    and list_law: "room s 0 \<Longrightarrow> \<exists>ms. so_list ops s prefix = Inr ms
      \<and> om_key ` set ms = {key. starts_with prefix key \<and> object_at ops s key \<noteq> None}"
    and room_less: "room s n \<Longrightarrow> m \<le> n \<Longrightarrow> room s m"

section \<open>The store in memory meets it\<close>

definition ms_used :: "memory_store \<Rightarrow> u64 \<Rightarrow> bool" where
  "ms_used s t \<longleftrightarrow> 0 < t \<and> t \<le> ms_next_tag s"

definition ms_room :: "memory_store \<Rightarrow> nat \<Rightarrow> bool" where
  "ms_room s n \<longleftrightarrow> unat (ms_next_tag s) + n < 2 ^ 64 \<and> bt_ok (ms_objects s) \<and> (\<forall>(k, d, t, m)\<in>set (ms_objects s). ms_used s t)"

lemma ms_object_at: "object_at memory_ops s key = map_option (\<lambda>(data, tag, _). (data, tag)) (bt_get (ms_objects s) key)"
  by (auto simp: object_at_def ms_get_def split: option.splits)

lemma ms_used_tag:
  assumes "ms_room s (Suc n)"
  shows "\<not> ms_used s (ms_next_tag s + 1)"
    and "ms_used (s\<lparr>ms_next_tag := ms_next_tag s + 1, ms_objects := x\<rparr>) u \<longleftrightarrow> ms_used s u \<or> u = ms_next_tag s + 1"
proof -
  have "unat (ms_next_tag s) + 1 < 2 ^ 64" using assms by (simp add: ms_room_def)
  then have m: "ms_next_tag s \<noteq> -1" by auto
  show "\<not> ms_used s (ms_next_tag s + 1)" using word_less_succ[OF m] by (auto simp: ms_used_def not_le)
  show "ms_used (s\<lparr>ms_next_tag := ms_next_tag s + 1, ms_objects := x\<rparr>) u \<longleftrightarrow> ms_used s u \<or> u = ms_next_tag s + 1"
    using m by (auto simp: ms_used_def word_le_nat_alt word_less_nat_alt unat_succ le_Suc_eq word_unat_eq_iff)
qed

lemma ms_room_tag:
  assumes "ms_room s (Suc n)"
  shows "ms_room (s\<lparr>ms_next_tag := ms_next_tag s + 1, ms_objects := bt_insert key (d, ms_next_tag s + 1, m) (ms_objects s)\<rparr>) n"
proof -
  have "unat (ms_next_tag s) + 1 < 2 ^ 64" using assms by (simp add: ms_room_def)
  then have m: "ms_next_tag s \<noteq> -1" by auto
  show ?thesis
    using assms ms_used_tag(2)[OF assms] set_bt_insert_subset[of key "(d, ms_next_tag s + 1, m)" "ms_objects s"]
    by (fastforce simp: ms_room_def unat_succ[OF m] keeps_ok)
qed


definition ms_written :: "bytes \<Rightarrow> bytes \<Rightarrow> memory_store \<Rightarrow> memory_store" where
  "ms_written key data s =
     s\<lparr>ms_next_tag := ms_next_tag s + 1, ms_objects := bt_insert key (data, ms_next_tag s + 1, ms_clock s) (ms_objects s)\<rparr>"

lemma ms_written_law:
  assumes "ms_room s (Suc n)"
  shows "object_at memory_ops (ms_written key data s) = (object_at memory_ops s)(key \<mapsto> (data, ms_next_tag s + 1))
    \<and> \<not> ms_used s (ms_next_tag s + 1) \<and> ms_used (ms_written key data s) = (\<lambda>u. ms_used s u \<or> u = ms_next_tag s + 1)
    \<and> ms_room (ms_written key data s) n"
  using ms_used_tag[OF assms] ms_room_tag[OF assms] by (auto simp: ms_written_def ms_object_at fun_eq_iff)

lemma ms_put_written: "ms_put key data s = (ms_written key data s, Inr (ms_next_tag s + 1))"
  by (simp add: ms_put_def ms_tag_def Let_def ms_written_def)

lemma ms_put_if_written:
  "ms_put_if key data p s =
     (if precondition_holds p (map_option snd (object_at memory_ops s key))
      then (ms_written key data s, Inr (ms_next_tag s + 1)) else (s, Inl (PreconditionFailed key)))"
proof -
  have "map_option snd (object_at memory_ops s key) = map_option (\<lambda>(_, tag, _). tag) (bt_get (ms_objects s) key)"
    by (simp add: ms_object_at option.map_comp comp_def case_prod_unfold)
  then show ?thesis by (simp add: ms_put_if_def ms_tag_def Let_def ms_written_def)
qed

interpretation mem: object_store memory_ops ms_used ms_room
proof (unfold_locales, goal_cases)
  case (1 s key data t)
  then show ?case by (auto simp: ms_object_at ms_room_def dest!: map_of_SomeD)
next
  case (2 s key e)
  then show ?case by (auto simp: ms_get_def split: option.splits)
next
  case (3 s key data t r)
  then show ?case by (auto simp: ms_object_at ms_get_range_def)
next
  case (4 s n key data)
  then show ?case using ms_written_law[OF 4] by (simp add: ms_put_written)
next
  case (5 s n p key data)
  then show ?case using ms_written_law[OF 5(1)] by (simp add: ms_put_if_written)
next
  case (6 p s key data)
  then show ?case by (simp add: ms_put_if_written)
next
  case (7 s prefix)
  then show ?case by (simp add: ms_room_def ms_list_keys ms_object_at)
next
  case (8 s n m)
  then show ?case by (auto simp: ms_room_def)
qed

end
