(* ===== verification/Seg_Segment.thy ===== *)
theory Seg_Segment
  imports Seg_Record
begin

text \<open>
  \<open>orbita-format/src/segment.rs\<close>: an immutable segment object. A header, the data section with the
  records in key order, the key index and a footer that says where the index is.
\<close>

section \<open>Header and footer\<close>

definition format_version :: nat where "format_version = 1"
definition header_len :: nat where "header_len = 32"
definition footer_len :: nat where "footer_len = 64"
definition footer_checksummed :: nat where "footer_checksummed = 52"

definition header_magic :: bytes where "header_magic = [79, 82, 66, 83, 69, 71]"
definition footer_magic :: bytes where "footer_magic = [79, 82, 66, 69, 78, 68]"

definition check_version :: "nat \<Rightarrow> format_error + unit" where
  "check_version found =
     (if found = format_version then Inr ()
      else Inl (UnsupportedVersion (word_of_nat found) (word_of_nat format_version)))"

record segment_head =
  sh_keyspace_id :: keyspace_id
  sh_partition_id :: partition_id
  sh_epoch_low :: u32

definition header_encode :: "segment_head \<Rightarrow> bytes" where
  "header_encode h =
     header_magic @ le_bytes 2 format_version @ le_bytes 2 0 @ le_bytes 2 0
     @ put_u64 (sh_keyspace_id h) @ put_u64 (sh_partition_id h) @ put_u32 (sh_epoch_low h)"

definition header_decode :: "bytes \<Rightarrow> format_error + segment_head" where
  "header_decode bs =
     (if length bs < header_len then Inl (ShortOf ''segment header'' header_len (length bs))
      else if take 6 bs \<noteq> header_magic then Inl (BadMagic ''segment header'')
      else bind_res (check_version (le_value (take 2 (drop 6 bs)))) (\<lambda>_.
        let flags = le_value (take 2 (drop 8 bs)); reserved = le_value (take 2 (drop 10 bs))
        in if flags \<noteq> 0 \<or> reserved \<noteq> 0 then Inl (MalformedBytes ''segment header'' (HeaderNotZero flags reserved))
           else Inr \<lparr>sh_keyspace_id = word_of_nat (le_value (take 8 (drop 12 bs))),
                     sh_partition_id = word_of_nat (le_value (take 8 (drop 20 bs))),
                     sh_epoch_low = word_of_nat (le_value (take 4 (drop 28 bs)))\<rparr>))"

record segment_footer =
  sf_index_offset :: u64
  sf_index_length :: u64
  sf_record_count :: u64
  sf_min_lamport :: lamport
  sf_max_lamport :: lamport
  sf_data_crc32c :: u32
  sf_index_crc32c :: u32

definition footer_fields :: "segment_footer \<Rightarrow> bytes" where
  "footer_fields f =
     put_u64 (sf_index_offset f) @ put_u64 (sf_index_length f) @ put_u64 (sf_record_count f)
     @ put_u64 (sf_min_lamport f) @ put_u64 (sf_max_lamport f)
     @ put_u32 (sf_data_crc32c f) @ put_u32 (sf_index_crc32c f) @ put_u32 0"

definition footer_encode :: "(bytes \<Rightarrow> u32) \<Rightarrow> segment_footer \<Rightarrow> bytes" where
  "footer_encode crc f = footer_fields f @ put_u32 (crc (footer_fields f)) @ le_bytes 2 format_version @ footer_magic"

definition footer_decode :: "(bytes \<Rightarrow> u32) \<Rightarrow> bytes \<Rightarrow> format_error + segment_footer" where
  "footer_decode crc bs =
     (if length bs \<noteq> footer_len then Inl (ShortOf ''segment footer'' footer_len (length bs))
      else if drop 58 bs \<noteq> footer_magic then Inl (BadMagic ''segment footer'')
      else bind_res (check_version (le_value (take 2 (drop 56 bs)))) (\<lambda>_.
        let stored = word_of_nat (le_value (take 4 (drop 52 bs)));
            computed = crc (take footer_checksummed bs);
            reserved = word_of_nat (le_value (take 4 (drop 48 bs)));
            u64_at = (\<lambda>at. word_of_nat (le_value (take 8 (drop at bs))))
        in if stored \<noteq> computed then Inl (ChecksumMismatch ''segment footer'' stored computed)
           else if reserved \<noteq> 0 then Inl (MalformedBytes ''segment footer'' (ReservedWord reserved))
           else
             let f = \<lparr>sf_index_offset = u64_at 0, sf_index_length = u64_at 8, sf_record_count = u64_at 16,
                      sf_min_lamport = u64_at 24, sf_max_lamport = u64_at 32,
                      sf_data_crc32c = word_of_nat (le_value (take 4 (drop 40 bs))),
                      sf_index_crc32c = word_of_nat (le_value (take 4 (drop 44 bs)))\<rparr>
             in if sf_max_lamport f < sf_min_lamport f
                then Inl (MalformedBytes ''segment footer'' (LamportsCrossed (sf_min_lamport f) (sf_max_lamport f)))
                else Inr f))"

text \<open>The range of the index in an object of that many bytes; \<open>checked_add\<close> fails from \<open>2\<^sup>6\<^sup>4\<close>.\<close>

definition index_range :: "segment_footer \<Rightarrow> nat \<Rightarrow> format_error + (nat \<times> nat)" where
  "index_range f object_bytes =
     (let offset = unat (sf_index_offset f); end' = offset + unat (sf_index_length f); tail = end' + footer_len
      in if 2 ^ 64 \<le> tail then Inl (MalformedBytes ''segment footer'' IndexOverflow)
         else if offset < header_len \<or> object_bytes < tail
         then Inl (MalformedBytes ''segment footer'' (IndexOutside (sf_index_offset f) (word_of_nat object_bytes)))
         else Inr (offset, end'))"

section \<open>The key index\<close>

record index_entry =
  ie_key :: bytes
  ie_offset :: u64
  ie_record_length :: u32

definition index_entry_encode :: "index_entry \<Rightarrow> bytes" where
  "index_entry_encode e = put_bytes (ie_key e) @ put_u64 (ie_offset e) @ put_u32 (ie_record_length e)"

text \<open>The fields after the key: here a short read is reported as the cursor reports it.\<close>

definition cur_place :: "(u64 \<times> u32) cursor_read" where
  "cur_place = cur_bind cur_u64 (\<lambda>offset. cur_bind cur_u32 (\<lambda>len. cur_ret (offset, len)))"

definition put_place :: "u64 \<times> u32 \<Rightarrow> bytes" where
  "put_place p = put_u64 (fst p) @ put_u32 (snd p)"

interpretation cplace: cursor_codec put_place cur_place "\<lambda>_. True"
  by unfold_locales (auto simp: cur_place_def put_place_def c64.inverse c32.inverse cur_ret_def)

lemma cur_bytes32_shorter: "cur_bytes32 (at, bs) = Inr (x, at', bs') \<Longrightarrow> length bs' < length bs"
  by (auto simp: cbytes.decoded_iff put_bytes_def)

lemma cur_place_shorter: "cur_place (at, bs) = Inr (x, at', bs') \<Longrightarrow> length bs' < length bs"
  by (auto simp: cplace.decoded_iff put_place_def)

definition key_index_error :: "malformed_detail \<Rightarrow> format_error" where
  "key_index_error d = MalformedBytes ''segment key index'' d"

function index_loop :: "bytes option \<Rightarrow> nat \<Rightarrow> bytes \<Rightarrow> format_error + index_entry list" where
  "index_loop previous at bs =
     (if bs = [] then Inr []
      else
        (case cur_bytes32 (at, bs) of
           Inl _ \<Rightarrow> Inl (key_index_error EntryPastEnd)
         | Inr (key, at1, bs1) \<Rightarrow>
             (case cur_place (at1, bs1) of
                Inl e \<Rightarrow> Inl e
              | Inr (place, at2, bs2) \<Rightarrow>
                  if (case previous of None \<Rightarrow> False | Some p \<Rightarrow> key \<le> p) then Inl (key_index_error KeysNotAscending)
                  else bind_res (index_loop (Some key) at2 bs2) (\<lambda>es.
                         Inr (\<lparr>ie_key = key, ie_offset = fst place, ie_record_length = snd place\<rparr> # es)))))"
  by pat_completeness auto
termination
  by (relation "measure (\<lambda>(_, _, bs). length bs)")
    (auto dest!: cur_bytes32_shorter cur_place_shorter intro: less_trans)

declare index_loop.simps [simp del]

definition index_decode :: "(bytes \<Rightarrow> u32) \<Rightarrow> bytes \<Rightarrow> segment_footer \<Rightarrow> format_error + index_entry list" where
  "index_decode crc bs f =
     (let computed = crc bs
      in if computed \<noteq> sf_index_crc32c f then Inl (ChecksumMismatch ''segment key index'' (sf_index_crc32c f) computed)
         else bind_res (index_loop None 0 bs) (\<lambda>entries.
           if length entries \<noteq> unat (sf_record_count f)
           then Inl (key_index_error (EntryCount (length entries) (sf_record_count f)))
           else Inr entries))"

section \<open>Building\<close>

record segment_builder =
  sb_body :: bytes
  sb_index :: "index_entry list"
  sb_min_key :: "bytes option"
  sb_max_key :: bytes
  sb_min_lamport :: lamport
  sb_max_lamport :: lamport

record built_segment =
  bs_bytes :: bytes
  bs_index :: "index_entry list"
  bs_record_count :: u64
  bs_min_key :: bytes
  bs_max_key :: bytes
  bs_min_lamport :: lamport
  bs_max_lamport :: lamport

definition builder_new :: "keyspace_id \<Rightarrow> partition_id \<Rightarrow> epoch \<Rightarrow> segment_builder" where
  "builder_new ks p e =
     \<lparr>sb_body = header_encode \<lparr>sh_keyspace_id = ks, sh_partition_id = p, sh_epoch_low = ucast e\<rparr>,
      sb_index = [], sb_min_key = None, sb_max_key = [], sb_min_lamport = -1, sb_max_lamport = 0\<rparr>"

definition builder_push :: "(bytes \<Rightarrow> u32) \<Rightarrow> segment_record \<Rightarrow> segment_builder \<Rightarrow> format_error + segment_builder" where
  "builder_push crc r b =
     (if sb_index b \<noteq> [] \<and> sr_key r \<le> ie_key (last (sb_index b))
      then Inl (MalformedBytes ''segment'' (KeyNotAfter (sr_key r) (ie_key (last (sb_index b)))))
      else
        let encoded = record_encode crc r
        in if \<not> len32 encoded then Inl (MalformedBytes ''segment'' RecordTooLong)
           else Inr (b\<lparr>sb_body := sb_body b @ encoded,
             sb_index := sb_index b @ [\<lparr>ie_key = sr_key r, ie_offset = word_of_nat (length (sb_body b)),
               ie_record_length = word_of_nat (length encoded)\<rparr>],
             sb_min_key := (case sb_min_key b of None \<Rightarrow> Some (sr_key r) | Some k \<Rightarrow> Some k),
             sb_max_key := sr_key r,
             sb_min_lamport := min (sb_min_lamport b) (sr_lamport r),
             sb_max_lamport := max (sb_max_lamport b) (sr_lamport r)\<rparr>))"

definition builder_finish :: "(bytes \<Rightarrow> u32) \<Rightarrow> segment_builder \<Rightarrow> format_error + built_segment" where
  "builder_finish crc b =
     (case sb_min_key b of
        None \<Rightarrow> Inl (MalformedBytes ''segment'' NoRecords)
      | Some min_key \<Rightarrow>
          let index = concat (map index_entry_encode (sb_index b));
              footer = \<lparr>sf_index_offset = word_of_nat (length (sb_body b)), sf_index_length = word_of_nat (length index),
                sf_record_count = word_of_nat (length (sb_index b)), sf_min_lamport = sb_min_lamport b,
                sf_max_lamport = sb_max_lamport b, sf_data_crc32c = crc (drop header_len (sb_body b)),
                sf_index_crc32c = crc index\<rparr>
          in Inr \<lparr>bs_bytes = sb_body b @ index @ footer_encode crc footer, bs_index = sb_index b,
                 bs_record_count = sf_record_count footer, bs_min_key = min_key, bs_max_key = sb_max_key b,
                 bs_min_lamport = sb_min_lamport b, bs_max_lamport = sb_max_lamport b\<rparr>)"

fun push_all :: "(bytes \<Rightarrow> u32) \<Rightarrow> segment_record list \<Rightarrow> segment_builder \<Rightarrow> format_error + segment_builder" where
  "push_all crc [] b = Inr b"
| "push_all crc (r # rs) b = bind_res (builder_push crc r b) (push_all crc rs)"

section \<open>Reading a whole segment\<close>

record segment =
  sg_header :: segment_head
  sg_footer :: segment_footer
  sg_index :: "index_entry list"
  sg_records :: "segment_record list"

fun read_records :: "(bytes \<Rightarrow> u32) \<Rightarrow> bytes \<Rightarrow> index_entry list \<Rightarrow> format_error + segment_record list" where
  "read_records crc data es =
     (if data = [] then Inr []
      else bind_res (record_decode crc data) (\<lambda>(r, consumed).
        case es of
          [] \<Rightarrow> Inl (MalformedBytes ''segment'' MoreRecordsThanIndex)
        | e # es' \<Rightarrow>
            if unat (ie_record_length e) \<noteq> consumed then Inl (key_index_error (EntryLength (ie_record_length e) consumed))
            else bind_res (read_records crc (drop consumed data) es') (\<lambda>rs. Inr (r # rs))))"

declare read_records.simps [simp del]

fun entries_point :: "u64 \<Rightarrow> segment_record list \<Rightarrow> index_entry list \<Rightarrow> bool" where
  "entries_point offset (r # rs) (e # es) =
     (sr_key r = ie_key e \<and> ie_offset e = offset \<and> entries_point (offset + ucast (ie_record_length e)) rs es)"
| "entries_point offset _ _ = True"

definition segment_decode :: "(bytes \<Rightarrow> u32) \<Rightarrow> bytes \<Rightarrow> format_error + segment" where
  "segment_decode crc bs =
     (if length bs < header_len + footer_len then Inl (ShortOf ''segment'' (header_len + footer_len) (length bs))
      else bind_res (header_decode bs) (\<lambda>header.
        bind_res (footer_decode crc (drop (length bs - footer_len) bs)) (\<lambda>footer.
        bind_res (index_range footer (length bs)) (\<lambda>(start, end').
        let data = take (start - header_len) (drop header_len bs); computed = crc data
        in if computed \<noteq> sf_data_crc32c footer
           then Inl (ChecksumMismatch ''segment data section'' (sf_data_crc32c footer) computed)
           else
             bind_res (index_decode crc (take (end' - start) (drop start bs)) footer) (\<lambda>index.
             bind_res (read_records crc data index) (\<lambda>records.
             if length records \<noteq> length index
             then Inl (MalformedBytes ''segment'' (RecordCount (length records) (length index)))
             else if \<not> entries_point (word_of_nat header_len) records index then Inl (key_index_error EntryElsewhere)
             else Inr \<lparr>sg_header = header, sg_footer = footer, sg_index = index, sg_records = records\<rparr>))))))"

section \<open>A built segment reads back\<close>

lemma take_le_bytes [simp]: "take k (le_bytes k n @ bs) = le_bytes k n" "drop k (le_bytes k n @ bs) = bs"
  by simp_all

lemma segment_header_roundtrip: "header_decode (header_encode h @ rest) = Inr h"
  by (cases h)
    (simp add: header_decode_def header_encode_def header_magic_def header_len_def format_version_def check_version_def
      u32_of_le u64_of_le Let_def numeral_2_eq_2)

lemma length_header_encode [simp]: "length (header_encode h) = header_len"
  by (simp add: header_encode_def header_magic_def header_len_def)

lemma length_footer_fields [simp]: "length (footer_fields f) = footer_checksummed"
  by (simp add: footer_fields_def footer_checksummed_def)

lemma length_footer_encode [simp]: "length (footer_encode crc f) = footer_len"
  by (simp add: footer_encode_def footer_checksummed_def footer_magic_def footer_len_def)

lemma footer_slices:
  "take 8 (footer_fields f) = put_u64 (sf_index_offset f)"
  "take 8 (drop 8 (footer_fields f)) = put_u64 (sf_index_length f)"
  "take 8 (drop 16 (footer_fields f)) = put_u64 (sf_record_count f)"
  "take 8 (drop 24 (footer_fields f)) = put_u64 (sf_min_lamport f)"
  "take 8 (drop 32 (footer_fields f)) = put_u64 (sf_max_lamport f)"
  "take 4 (drop 40 (footer_fields f)) = put_u32 (sf_data_crc32c f)"
  "take 4 (drop 44 (footer_fields f)) = put_u32 (sf_index_crc32c f)"
  "take 4 (drop 48 (footer_fields f)) = put_u32 0"
  by (simp_all add: footer_fields_def)

lemma footer_roundtrip:
  assumes "sf_min_lamport f \<le> sf_max_lamport f"
  shows "footer_decode crc (footer_encode crc f) = Inr f"
proof -
  have len: "length (footer_fields f) = 52" by (simp add: footer_checksummed_def)
  show ?thesis using assms footer_slices[of f] len
    by (cases f)
      (simp add: footer_decode_def footer_encode_def footer_magic_def footer_len_def footer_checksummed_def check_version_def
        format_version_def u32_of_le u64_of_le Let_def numeral_2_eq_2)
qed

fun entries_at :: "(bytes \<Rightarrow> u32) \<Rightarrow> nat \<Rightarrow> segment_record list \<Rightarrow> index_entry list" where
  "entries_at crc off [] = []"
| "entries_at crc off (r # rs) =
     \<lparr>ie_key = sr_key r, ie_offset = word_of_nat off, ie_record_length = word_of_nat (length (record_encode crc r))\<rparr>
     # entries_at crc (off + length (record_encode crc r)) rs"

lemma keys_entries_at [simp]: "map ie_key (entries_at crc off rs) = map sr_key rs"
  by (induction rs arbitrary: off) simp_all

lemma entry_keys: "e \<in> set (entries_at crc off rs) \<Longrightarrow> \<exists>r\<in>set rs. ie_key e = sr_key r"
  by (induction rs arbitrary: off) auto

lemma length_entries_at [simp]: "length (entries_at crc off rs) = length rs"
  by (induction rs arbitrary: off) simp_all

lemma nth_entries_key: "i < length rs \<Longrightarrow> ie_key (entries_at crc off rs ! i) = sr_key (rs ! i)"
  by (metis keys_entries_at length_entries_at nth_map)

text \<open>What the builder is given: records within the limits, in strictly ascending key order.\<close>

definition records_ok :: "(bytes \<Rightarrow> u32) \<Rightarrow> segment_record list \<Rightarrow> bool" where
  "records_ok crc rs \<longleftrightarrow> list_all (\<lambda>r. record_framed r \<and> len32 (record_encode crc r)) rs \<and> sorted_wrt (<) (map sr_key rs)"

lemma records_ok_Cons:
  "records_ok crc (r # rs) \<longleftrightarrow> record_framed r \<and> len32 (record_encode crc r) \<and> (\<forall>x\<in>set rs. sr_key r < sr_key x) \<and> records_ok crc rs"
  by (auto simp: records_ok_def)

lemma push_all_ok:
  assumes "records_ok crc rs" and "sb_index b = [] \<or> list_all (\<lambda>r. ie_key (last (sb_index b)) < sr_key r) rs"
  shows "\<exists>b'. push_all crc rs b = Inr b' \<and> sb_body b' = sb_body b @ concat (map (record_encode crc) rs)
    \<and> sb_index b' = sb_index b @ entries_at crc (length (sb_body b)) rs
    \<and> sb_min_key b' = (case sb_min_key b of Some k \<Rightarrow> Some k | None \<Rightarrow> (if rs = [] then None else Some (sr_key (hd rs))))
    \<and> sb_max_key b' = (if rs = [] then sb_max_key b else sr_key (last rs))
    \<and> sb_min_lamport b' \<le> sb_min_lamport b \<and> sb_max_lamport b \<le> sb_max_lamport b'
    \<and> (\<forall>r\<in>set rs. sb_min_lamport b' \<le> sr_lamport r \<and> sr_lamport r \<le> sb_max_lamport b')"
  using assms
proof (induction rs arbitrary: b)
  case (Cons r rs)
  have r: "record_framed r" "len32 (record_encode crc r)" "\<forall>x\<in>set rs. sr_key r < sr_key x" "records_ok crc rs"
    using Cons.prems(1) by (simp_all add: records_ok_Cons)
  have push: "\<not> (sb_index b \<noteq> [] \<and> sr_key r \<le> ie_key (last (sb_index b)))" using Cons.prems(2) by auto
  obtain b1 where "builder_push crc r b = Inr b1"
    using push r(2) by (simp add: builder_push_def Let_def del: de_Morgan_conj)
  then have b1: "builder_push crc r b = Inr b1" "sb_body b1 = sb_body b @ record_encode crc r"
    "sb_index b1 = sb_index b @ [\<lparr>ie_key = sr_key r, ie_offset = word_of_nat (length (sb_body b)),
       ie_record_length = word_of_nat (length (record_encode crc r))\<rparr>]"
    "sb_min_key b1 = (case sb_min_key b of None \<Rightarrow> Some (sr_key r) | Some k \<Rightarrow> Some k)" "sb_max_key b1 = sr_key r"
    "sb_min_lamport b1 = min (sb_min_lamport b) (sr_lamport r)" "sb_max_lamport b1 = max (sb_max_lamport b) (sr_lamport r)"
    using push r(2) by (auto simp: builder_push_def Let_def split: if_splits)
  have "sb_index b1 = [] \<or> list_all (\<lambda>x. ie_key (last (sb_index b1)) < sr_key x) rs"
    using r(3) b1(3) by (simp add: list_all_iff)
  from Cons.IH[OF r(4) this] b1 show ?case
    by (auto simp: add.assoc split: option.splits)
qed (simp split: option.split)

lemma index_loop_ok:
  assumes "sorted_wrt (<) (map ie_key es)" and "list_all (\<lambda>e. len32 (ie_key e)) es"
    and "case previous of None \<Rightarrow> True | Some p \<Rightarrow> list_all (\<lambda>e. p < ie_key e) es"
  shows "index_loop previous at (concat (map index_entry_encode es)) = Inr es"
  using assms
proof (induction es arbitrary: previous at)
  case (Cons e es)
  let ?rest = "concat (map index_entry_encode es)"
  have bs: "concat (map index_entry_encode (e # es)) = put_bytes (ie_key e) @ put_place (ie_offset e, ie_record_length e) @ ?rest"
    by (simp add: index_entry_encode_def put_place_def)
  have ne: "put_bytes k \<noteq> []" for k
    using length_put_u32[of "word_of_nat (length k)"] by (auto simp: put_bytes_def simp del: length_put_u32)
  have up: "\<not> (case previous of None \<Rightarrow> False | Some p \<Rightarrow> ie_key e \<le> p)" using Cons.prems(3) by (auto split: option.splits)
  have "index_loop (Some (ie_key e)) at' ?rest = Inr es" for at'
    using Cons.prems by (intro Cons.IH) (auto simp: list_all_iff)
  then show ?case
    unfolding bs using Cons.prems(2) up ne
    by (subst index_loop.simps) (simp add: cbytes.roundtrip cplace.roundtrip)
qed (simp add: index_loop.simps)

lemma read_records_ok:
  assumes "list_all (\<lambda>r. record_framed r \<and> len32 (record_encode crc r)) rs"
  shows "read_records crc (concat (map (record_encode crc) rs)) (entries_at crc off rs) = Inr rs"
  using assms
proof (induction rs arbitrary: off)
  case (Cons r rs)
  have "record_encode crc r \<noteq> []" using length_record_encode[of crc r] by auto
  then show ?case using Cons
    by (subst read_records.simps) (simp add: record_roundtrip unat_len32)
qed (simp add: read_records.simps)

lemma entries_point_ok:
  assumes "list_all (\<lambda>r. len32 (record_encode crc r)) rs"
  shows "entries_point (word_of_nat off) rs (entries_at crc off rs)"
  using assms
proof (induction rs arbitrary: off)
  case (Cons r rs)
  have "word_of_nat off + ucast (word_of_nat (length (record_encode crc r)) :: u32) =
      (word_of_nat (off + length (record_encode crc r)) :: u64)"
    using Cons.prems by (simp add: unsigned_of_nat take_bit_nat_eq_self)
  then show ?case using Cons.IH[of "off + length (record_encode crc r)"] Cons.prems by simp
qed simp

definition data_of :: "(bytes \<Rightarrow> u32) \<Rightarrow> segment_record list \<Rightarrow> bytes" where
  "data_of crc rs = concat (map (record_encode crc) rs)"

text \<open>The object the builder makes of a run of records.\<close>

definition build_segment ::
  "(bytes \<Rightarrow> u32) \<Rightarrow> keyspace_id \<Rightarrow> partition_id \<Rightarrow> epoch \<Rightarrow> segment_record list \<Rightarrow> format_error + built_segment" where
  "build_segment crc ks p e rs = bind_res (push_all crc rs (builder_new ks p e)) (builder_finish crc)"

lemma build_segment_ok:
  assumes "records_ok crc rs" and "rs \<noteq> []"
  obtains b footer h where "build_segment crc ks p e rs = Inr b"
    "bs_bytes b = header_encode h @ data_of crc rs @ concat (map index_entry_encode (entries_at crc header_len rs)) @ footer_encode crc footer"
    "bs_index b = entries_at crc header_len rs" "bs_record_count b = word_of_nat (length rs)"
    "bs_min_key b = sr_key (hd rs)" "bs_max_key b = sr_key (last rs)"
    "\<forall>r\<in>set rs. bs_min_lamport b \<le> sr_lamport r \<and> sr_lamport r \<le> bs_max_lamport b"
    "footer = \<lparr>sf_index_offset = word_of_nat (header_len + length (data_of crc rs)),
       sf_index_length = word_of_nat (length (concat (map index_entry_encode (entries_at crc header_len rs)))),
       sf_record_count = word_of_nat (length rs), sf_min_lamport = bs_min_lamport b, sf_max_lamport = bs_max_lamport b,
       sf_data_crc32c = crc (data_of crc rs), sf_index_crc32c = crc (concat (map index_entry_encode (entries_at crc header_len rs)))\<rparr>"
    "h = \<lparr>sh_keyspace_id = ks, sh_partition_id = p, sh_epoch_low = ucast e\<rparr>" "bs_min_lamport b \<le> bs_max_lamport b"
proof -
  define b0 where "b0 = builder_new ks p e"
  define h :: segment_head where "h = \<lparr>sh_keyspace_id = ks, sh_partition_id = p, sh_epoch_low = ucast e\<rparr>"
  have b0: "sb_index b0 = []" "sb_body b0 = header_encode h" "sb_min_key b0 = None" by (simp_all add: b0_def builder_new_def h_def)
  obtain b' where b': "push_all crc rs b0 = Inr b'" "sb_body b' = header_encode h @ data_of crc rs"
    "sb_index b' = entries_at crc header_len rs" "sb_min_key b' = Some (sr_key (hd rs))" "sb_max_key b' = sr_key (last rs)"
    "\<forall>r\<in>set rs. sb_min_lamport b' \<le> sr_lamport r \<and> sr_lamport r \<le> sb_max_lamport b'"
    using push_all_ok[OF assms(1), of b0] assms(2) b0 by (auto simp: data_of_def)
  define index where "index = concat (map index_entry_encode (entries_at crc header_len rs))"
  define f where "f = \<lparr>sf_index_offset = word_of_nat (header_len + length (data_of crc rs)), sf_index_length = word_of_nat (length index),
    sf_record_count = word_of_nat (length rs), sf_min_lamport = sb_min_lamport b', sf_max_lamport = sb_max_lamport b',
    sf_data_crc32c = crc (data_of crc rs), sf_index_crc32c = crc index\<rparr>"
  define b where "b = \<lparr>bs_bytes = header_encode h @ data_of crc rs @ index @ footer_encode crc f, bs_index = entries_at crc header_len rs,
    bs_record_count = word_of_nat (length rs), bs_min_key = sr_key (hd rs), bs_max_key = sr_key (last rs),
    bs_min_lamport = sb_min_lamport b', bs_max_lamport = sb_max_lamport b'\<rparr>"
  have fin: "builder_finish crc b' = Inr b" using b' by (simp add: builder_finish_def Let_def b_def f_def index_def)
  have crossed: "sb_min_lamport b' \<le> sb_max_lamport b'" using b'(6) assms(2) by (cases rs) (auto intro: order_trans)
  have "build_segment crc ks p e rs = Inr b" using b'(1) fin by (simp add: build_segment_def b0_def)
  then show thesis
    by (rule that[where b = b and footer = f and h = h])
      (use b'(6) crossed in \<open>simp_all add: b_def f_def h_def index_def\<close>)
qed

lemma unat_of_nat64: "n < 2 ^ 64 \<Longrightarrow> unat (word_of_nat n :: u64) = n"
  by (simp add: unat_of_nat)

text \<open>The parts of a built object, and that its footer and index decode to what was written.\<close>

lemma built_parts:
  assumes "records_ok crc rs" and "build_segment crc ks p e rs = Inr b" and "length (bs_bytes b) < 2 ^ 64"
  obtains f h where
    "bs_bytes b = header_encode h @ data_of crc rs @ concat (map index_entry_encode (entries_at crc header_len rs)) @ footer_encode crc f"
    "bs_index b = entries_at crc header_len rs" "h = \<lparr>sh_keyspace_id = ks, sh_partition_id = p, sh_epoch_low = ucast e\<rparr>"
    "footer_decode crc (footer_encode crc f) = Inr f" "sf_record_count f = bs_record_count b" "sf_data_crc32c f = crc (data_of crc rs)"
    "index_range f (length (bs_bytes b)) = Inr (header_len + length (data_of crc rs),
       header_len + length (data_of crc rs) + length (concat (map index_entry_encode (entries_at crc header_len rs))))"
    "index_decode crc (concat (map index_entry_encode (entries_at crc header_len rs))) f = Inr (entries_at crc header_len rs)"
    "\<forall>r\<in>set rs. bs_min_lamport b \<le> sr_lamport r \<and> sr_lamport r \<le> bs_max_lamport b"
proof -
  have ne: "rs \<noteq> []" using assms(2) by (auto simp: build_segment_def builder_new_def builder_finish_def)
  let ?index = "concat (map index_entry_encode (entries_at crc header_len rs))"
  obtain b1 f h where b1: "build_segment crc ks p e rs = Inr b1"
    "bs_bytes b1 = header_encode h @ data_of crc rs @ ?index @ footer_encode crc f"
    "bs_index b1 = entries_at crc header_len rs" "bs_record_count b1 = word_of_nat (length rs)"
    "\<forall>r\<in>set rs. bs_min_lamport b1 \<le> sr_lamport r \<and> sr_lamport r \<le> bs_max_lamport b1"
    "f = \<lparr>sf_index_offset = word_of_nat (header_len + length (data_of crc rs)), sf_index_length = word_of_nat (length ?index),
       sf_record_count = word_of_nat (length rs), sf_min_lamport = bs_min_lamport b1, sf_max_lamport = bs_max_lamport b1,
       sf_data_crc32c = crc (data_of crc rs), sf_index_crc32c = crc ?index\<rparr>"
    "h = \<lparr>sh_keyspace_id = ks, sh_partition_id = p, sh_epoch_low = ucast e\<rparr>" "bs_min_lamport b1 \<le> bs_max_lamport b1"
    by (rule build_segment_ok[OF assms(1) ne])
  have b: "b1 = b" using b1(1) assms(2) by simp
  have small: "header_len + length (data_of crc rs) + length ?index + footer_len < 2 ^ 64"
    using assms(3) b1(2) b by simp
  have keys: "index_loop None 0 ?index = Inr (entries_at crc header_len rs)"
  proof (rule index_loop_ok)
    show "sorted_wrt (<) (map ie_key (entries_at crc header_len rs))" using assms(1) by (simp add: records_ok_def)
    show "list_all (\<lambda>e. len32 (ie_key e)) (entries_at crc header_len rs)"
      using assms(1) by (auto simp: records_ok_def list_all_iff record_framed_def record_ok_def dest!: entry_keys)
  qed simp
  have "length rs \<le> length (data_of crc rs)" unfolding data_of_def
    by (induction rs) (auto simp: length_record_encode)
  then have count: "length rs < 2 ^ 64" using small by simp
  have idx: "index_decode crc ?index f = Inr (entries_at crc header_len rs)"
    using keys count by (simp add: index_decode_def b1(6) unat_of_nat)
  have rng: "index_range f (length (bs_bytes b)) = Inr (header_len + length (data_of crc rs), header_len + length (data_of crc rs) + length ?index)"
    using small unat_of_nat64[of "header_len + length (data_of crc rs)"] unat_of_nat64[of "length ?index"]
    by (simp add: index_range_def b1(2,6) b[symmetric] Let_def del: of_nat_add)
  have foot: "footer_decode crc (footer_encode crc f) = Inr f" using b1(6,8) by (intro footer_roundtrip) simp
  have fields: "sf_record_count f = bs_record_count b" "sf_data_crc32c f = crc (data_of crc rs)" using b1(4,6) b by simp_all
  show thesis by (rule that[OF b1(2)[unfolded b] b1(3)[unfolded b] b1(7) foot fields rng idx b1(5)[unfolded b]])
qed

lemma segment_roundtrip:
  assumes "records_ok crc rs" and "build_segment crc ks p e rs = Inr b" and "length (bs_bytes b) < 2 ^ 64"
  shows "\<exists>f. segment_decode crc (bs_bytes b) =
    Inr \<lparr>sg_header = \<lparr>sh_keyspace_id = ks, sh_partition_id = p, sh_epoch_low = ucast e\<rparr>, sg_footer = f,
         sg_index = bs_index b, sg_records = rs\<rparr>"
proof -
  let ?index = "concat (map index_entry_encode (entries_at crc header_len rs))"
  obtain f h where parts: "bs_bytes b = header_encode h @ data_of crc rs @ ?index @ footer_encode crc f"
    "bs_index b = entries_at crc header_len rs" "h = \<lparr>sh_keyspace_id = ks, sh_partition_id = p, sh_epoch_low = ucast e\<rparr>"
    "footer_decode crc (footer_encode crc f) = Inr f" "sf_record_count f = bs_record_count b" "sf_data_crc32c f = crc (data_of crc rs)"
    "index_range f (length (bs_bytes b)) = Inr (header_len + length (data_of crc rs), header_len + length (data_of crc rs) + length ?index)"
    "index_decode crc ?index f = Inr (entries_at crc header_len rs)"
    by (rule built_parts[OF assms])
  have framed: "list_all (\<lambda>r. record_framed r \<and> len32 (record_encode crc r)) rs" using assms(1) by (simp add: records_ok_def)
  have recs: "read_records crc (data_of crc rs) (entries_at crc header_len rs) = Inr rs"
    unfolding data_of_def by (rule read_records_ok[OF framed])
  have point: "entries_point (word_of_nat header_len) rs (entries_at crc header_len rs)"
    using framed by (intro entries_point_ok) (auto simp: list_all_iff)
  show ?thesis
    using parts recs point by (simp add: segment_decode_def segment_header_roundtrip Let_def)
qed

lemma entries_locate:
  assumes "list_all (\<lambda>r. len32 (record_encode crc r)) rs" and "i < length rs" and "length pre + length (data_of crc rs) < 2 ^ 64"
  shows "take (unat (ie_record_length (entries_at crc (length pre) rs ! i))) (drop (unat (ie_offset (entries_at crc (length pre) rs ! i)))
     (pre @ data_of crc rs @ post)) = record_encode crc (rs ! i)"
  using assms
proof (induction rs arbitrary: i pre)
  case (Cons r rs)
  show ?case
  proof (cases i)
    case 0
    then show ?thesis using Cons.prems by (simp add: data_of_def unat_of_nat unat_len32)
  next
    case (Suc j)
    then show ?thesis using Cons.IH[of j "pre @ record_encode crc r"] Cons.prems by (simp add: data_of_def)
  qed
qed simp

lemma entries_locate_built:
  assumes "records_ok crc rs" and "rs \<noteq> []" and "build_segment crc ks p e rs = Inr b" and "length (bs_bytes b) < 2 ^ 64"
    and "i < length rs"
  shows "take (unat (ie_record_length (bs_index b ! i))) (drop (unat (ie_offset (bs_index b ! i))) (bs_bytes b))
      = record_encode crc (rs ! i) \<and> ie_key (bs_index b ! i) = sr_key (rs ! i)"
proof -
  obtain b1 f h where b1: "build_segment crc ks p e rs = Inr b1"
    "bs_bytes b1 = header_encode h @ data_of crc rs @ concat (map index_entry_encode (entries_at crc header_len rs)) @ footer_encode crc f"
    "bs_index b1 = entries_at crc header_len rs"
    by (rule build_segment_ok[OF assms(1,2)])
  have b: "b1 = b" using b1(1) assms(3) by simp
  have "list_all (\<lambda>r. len32 (record_encode crc r)) rs" using assms(1) by (auto simp: records_ok_def list_all_iff)
  moreover have "length (header_encode h) + length (data_of crc rs) < 2 ^ 64" using assms(4) b1(2) b by simp
  moreover have "ie_key (bs_index b ! i) = sr_key (rs ! i)"
    using nth_entries_key[OF assms(5)] b1(3) b by simp
  ultimately show ?thesis
    using entries_locate[of crc rs i "header_encode h", OF _ assms(5)] unfolding b[symmetric] b1(2,3) length_header_encode by blast
qed

text \<open>
  C38. A segment holds its records. Built from records in strictly ascending key order, the segment decodes
  to exactly these records, and the byte range the key index gives for a key decodes, on its own and with
  nothing left over, to the record of that key: reading one record by its index entry and reading the whole
  object agree.
\<close>

theorem segment_holds_its_records:
  assumes "records_ok crc rs" and "rs \<noteq> []"
  shows "\<exists>b. build_segment crc ks p e rs = Inr b \<and> (length (bs_bytes b) < 2 ^ 64 \<longrightarrow>
      (\<exists>s. segment_decode crc (bs_bytes b) = Inr s \<and> sg_records s = rs \<and> sg_index s = bs_index b
        \<and> sh_keyspace_id (sg_header s) = ks \<and> sh_partition_id (sg_header s) = p)
      \<and> (\<forall>i<length rs. ie_key (bs_index b ! i) = sr_key (rs ! i)
        \<and> record_decode crc (take (unat (ie_record_length (bs_index b ! i))) (drop (unat (ie_offset (bs_index b ! i))) (bs_bytes b)))
          = Inr (rs ! i, length (record_encode crc (rs ! i)))))"
proof -
  obtain b where b: "build_segment crc ks p e rs = Inr b" by (rule build_segment_ok[OF assms])
  have "record_framed (rs ! i)" if "i < length rs" for i
    using assms(1) that by (auto simp: records_ok_def list_all_length)
  then show ?thesis
    using b segment_roundtrip[OF assms(1) b] entries_locate_built[OF assms b] record_roundtrip[where rest = "[]"] by fastforce
qed

definition example_records :: "segment_record list" where
  "example_records = [\<lparr>sr_key = [1], sr_lamport = 5, sr_expires_at_millis = Some 9, sr_value = Inline [7, 8]\<rparr>,
     \<lparr>sr_key = [1, 2], sr_lamport = 6, sr_expires_at_millis = None, sr_value = Tombstone\<rparr>]"

lemma example_records_ok: "records_ok crc example_records"
  by (simp add: records_ok_def example_records_def record_framed_def record_ok_def length_record_encode encode_body_def
      put_bytes_def put_u8_def)

lemma segment_holds_its_records_witness:
  "\<exists>b s. build_segment (\<lambda>_. 0) 1 7 2 example_records = Inr b \<and> segment_decode (\<lambda>_. 0) (bs_bytes b) = Inr s
    \<and> sg_records s = example_records"
proof -
  have ne: "example_records \<noteq> []" by (simp add: example_records_def)
  obtain b h f where b: "build_segment (\<lambda>_. 0) 1 7 2 example_records = Inr b"
    "bs_bytes b = header_encode h @ data_of (\<lambda>_. 0) example_records
      @ concat (map index_entry_encode (entries_at (\<lambda>_. 0) header_len example_records)) @ footer_encode (\<lambda>_. 0) f"
    by (rule build_segment_ok[OF example_records_ok ne])
  have "length (bs_bytes b) < 2 ^ 64"
    by (simp add: b(2) data_of_def example_records_def length_record_encode encode_body_def put_bytes_def put_u8_def
        index_entry_encode_def header_len_def footer_len_def)
  then show ?thesis using segment_holds_its_records[OF example_records_ok ne, of "\<lambda>_. 0" 1 7 2] b(1) by auto
qed

end
