(* ===== verification/Seg_Paths.thy ===== *)
theory Seg_Paths
  imports Core
begin

text \<open>
  \<open>orbita-format/src/paths.rs\<close>: where a partition's objects live and how their names are built. Text is
  its UTF-8 bytes; every name the format makes is ASCII.
\<close>

section \<open>Names\<close>

definition segments_dir :: bytes where "segments_dir = [115, 101, 103, 109, 101, 110, 116, 115]"
definition values_dir :: bytes where "values_dir = [118, 97, 108, 117, 101, 115]"
definition segment_suffix :: bytes where "segment_suffix = [46, 111, 115, 101, 103]"
definition value_suffix :: bytes where "value_suffix = [46, 111, 118, 97, 108]"
definition manifest_name :: bytes where
  "manifest_name = [109, 97, 110, 105, 102, 101, 115, 116, 46, 106, 115, 111, 110]"

definition hex_digit :: "nat \<Rightarrow> u8" where
  "hex_digit n = (if n < 10 then word_of_nat (48 + n) else word_of_nat (87 + n))"

definition is_hex_digit :: "u8 \<Rightarrow> bool" where
  "is_hex_digit b = (is_ascii_digit b \<or> (97 \<le> b \<and> b \<le> 102))"

definition hex_value :: "u8 \<Rightarrow> nat" where
  "hex_value b = (if is_ascii_digit b then unat b - 48 else unat b - 87)"

text \<open>The digits of \<open>{value:0k x}\<close>, most significant first.\<close>

fun hex_digits :: "nat \<Rightarrow> nat \<Rightarrow> bytes" where
  "hex_digits 0 n = []"
| "hex_digits (Suc k) n = hex_digits k (n div 16) @ [hex_digit (n mod 16)]"

definition hex16 :: "u64 \<Rightarrow> bytes" where
  "hex16 v = hex_digits 16 (unat v)"

definition from_hex :: "bytes \<Rightarrow> nat" where
  "from_hex t = fold (\<lambda>b n. 16 * n + hex_value b) t 0"

definition parse_hex16 :: "bytes \<Rightarrow> u64 option" where
  "parse_hex16 t =
     (if length t \<noteq> 16 \<or> \<not> list_all is_hex_digit t then None else Some (word_of_nat (from_hex t)))"

definition segment_name :: "epoch \<Rightarrow> u64 \<Rightarrow> bytes" where
  "segment_name e seq = segments_dir @ [47] @ hex16 e @ [45] @ hex16 seq @ segment_suffix"

definition value_name :: "epoch \<Rightarrow> u64 \<Rightarrow> bytes" where
  "value_name e seq = values_dir @ [47] @ hex16 e @ [45] @ hex16 seq @ value_suffix"

definition strip_prefix :: "bytes \<Rightarrow> bytes \<Rightarrow> bytes option" where
  "strip_prefix p t = (if take (length p) t = p then Some (drop (length p) t) else None)"

definition strip_suffix :: "bytes \<Rightarrow> bytes \<Rightarrow> bytes option" where
  "strip_suffix p t =
     (if length p \<le> length t \<and> drop (length t - length p) t = p then Some (take (length t - length p) t) else None)"

definition split_once :: "u8 \<Rightarrow> bytes \<Rightarrow> (bytes \<times> bytes) option" where
  "split_once c t = (if c \<in> set t then Some (takeWhile (\<lambda>b. b \<noteq> c) t, tl (dropWhile (\<lambda>b. b \<noteq> c) t)) else None)"

definition name_stem :: "bytes \<Rightarrow> bytes \<Rightarrow> bytes \<Rightarrow> bytes option" where
  "name_stem dir suffix t =
     Option.bind (strip_prefix dir t) (\<lambda>r. Option.bind (strip_prefix [47] r) (strip_suffix suffix))"

definition parse_object_name :: "bytes \<Rightarrow> (epoch \<times> u64) option" where
  "parse_object_name relative =
     Option.bind
       (case name_stem segments_dir segment_suffix relative of
          Some stem \<Rightarrow> Some stem
        | None \<Rightarrow> name_stem values_dir value_suffix relative) (\<lambda>stem.
     Option.bind (split_once 45 stem) (\<lambda>(e, seq).
     Option.bind (parse_hex16 e) (\<lambda>e. Option.bind (parse_hex16 seq) (\<lambda>seq. Some (e, seq)))))"

section \<open>Directories\<close>

record partition_path =
  pp_prefix :: bytes
  pp_keyspace_id :: keyspace_id
  pp_partition_id :: partition_id

definition keyspaces_part :: bytes where "keyspaces_part = [107, 101, 121, 115, 112, 97, 99, 101, 115, 47]"
definition partitions_part :: bytes where
  "partitions_part = [112, 97, 114, 116, 105, 116, 105, 111, 110, 115, 47]"

definition trim_end_matches :: "u8 \<Rightarrow> bytes \<Rightarrow> bytes" where
  "trim_end_matches c t = rev (dropWhile (\<lambda>b. b = c) (rev t))"

definition path_new :: "bytes \<Rightarrow> keyspace_id \<Rightarrow> partition_id \<Rightarrow> partition_path" where
  "path_new root ks p =
     (let root = trim_end_matches 47 root; head = (if root = [] then [] else root @ [47])
      in \<lparr>pp_prefix = head @ keyspaces_part @ hex16 ks @ [47] @ partitions_part @ hex16 p @ [47],
          pp_keyspace_id = ks, pp_partition_id = p\<rparr>)"

text \<open>\<open>for_partition\<close>; \<open>None\<close> is the \<open>expect\<close> that ends the process.\<close>

definition for_partition :: "partition_id \<Rightarrow> partition_path \<Rightarrow> partition_path option" where
  "for_partition p path =
     Option.bind (strip_suffix (partitions_part @ hex16 (pp_partition_id path) @ [47]) (pp_prefix path)) (\<lambda>head.
       Some \<lparr>pp_prefix = head @ partitions_part @ hex16 p @ [47], pp_keyspace_id = pp_keyspace_id path, pp_partition_id = p\<rparr>)"

definition object_key :: "partition_path \<Rightarrow> bytes \<Rightarrow> bytes" where
  "object_key path relative = pp_prefix path @ relative"

definition manifest_key :: "partition_path \<Rightarrow> bytes" where
  "manifest_key path = object_key path manifest_name"

definition segments_prefix :: "partition_path \<Rightarrow> bytes" where
  "segments_prefix path = object_key path (segments_dir @ [47])"

definition values_prefix :: "partition_path \<Rightarrow> bytes" where
  "values_prefix path = object_key path (values_dir @ [47])"

definition relative_name :: "partition_path \<Rightarrow> bytes \<Rightarrow> bytes option" where
  "relative_name path key = strip_prefix (pp_prefix path) key"

section \<open>Reading names back\<close>

lemma unat_hex_digit: "n < 16 \<Longrightarrow> unat (hex_digit n) = (if n < 10 then 48 + n else 87 + n)"
  by (simp add: hex_digit_def unat_of_nat del: of_nat_add)

lemma hex_digit_ok: "n < 16 \<Longrightarrow> is_hex_digit (hex_digit n) \<and> hex_value (hex_digit n) = n \<and> hex_digit n \<noteq> 45"
  by (auto simp: is_hex_digit_def hex_value_def is_ascii_digit_def word_le_nat_alt word_unat_eq_iff unat_hex_digit)

lemma hex_digit_value: "is_hex_digit b \<Longrightarrow> hex_value b < 16 \<and> hex_digit (hex_value b) = b"
proof -
  assume "is_hex_digit b"
  then consider "48 \<le> unat b" "unat b \<le> 57" | "97 \<le> unat b" "unat b \<le> 102"
    by (auto simp: is_hex_digit_def is_ascii_digit_def word_le_nat_alt)
  then show ?thesis
    by cases (auto simp: hex_value_def hex_digit_def is_ascii_digit_def word_le_nat_alt)
qed

lemma from_hex_snoc: "from_hex (t @ [b]) = 16 * from_hex t + hex_value b"
  by (simp add: from_hex_def)

lemma length_hex_digits [simp]: "length (hex_digits k n) = k"
  by (induction k arbitrary: n) simp_all

lemma hex_digits_all: "list_all is_hex_digit (hex_digits k n) \<and> 45 \<notin> set (hex_digits k n)"
  by (induction k arbitrary: n) (auto simp: hex_digit_ok)

lemma from_hex_digits: "n < 16 ^ k \<Longrightarrow> from_hex (hex_digits k n) = n"
proof (induction k arbitrary: n)
  case 0
  then show ?case by (simp add: from_hex_def)
next
  case (Suc k)
  then have "n div 16 < 16 ^ k" by (simp add: less_mult_imp_div_less mult.commute)
  then show ?case using Suc.IH by (simp add: from_hex_snoc hex_digit_ok)
qed

lemma hex_digits_from_hex: "list_all is_hex_digit t \<Longrightarrow> hex_digits (length t) (from_hex t) = t \<and> from_hex t < 16 ^ length t"
proof (induction t rule: rev_induct)
  case (snoc b t)
  have b: "hex_value b < 16" "hex_digit (hex_value b) = b" using snoc.prems hex_digit_value by auto
  have t: "hex_digits (length t) (from_hex t) = t" "from_hex t < 16 ^ length t" using snoc by auto
  have "(16 * from_hex t + hex_value b) div 16 = from_hex t" "(16 * from_hex t + hex_value b) mod 16 = hex_value b"
    using b(1) by simp_all
  moreover have "16 * from_hex t + hex_value b < 16 * 16 ^ length t"
    using b(1) t(2) by (simp add: Suc_le_eq[symmetric])
  ultimately show ?case using b t by (simp add: from_hex_snoc)
qed (simp add: from_hex_def)

lemma length_hex16 [simp]: "length (hex16 v) = 16"
  by (simp add: hex16_def)

lemma parse_hex16_iff: "parse_hex16 t = Some v \<longleftrightarrow> t = hex16 v"
proof
  assume "parse_hex16 t = Some v"
  then have t: "length t = 16" "list_all is_hex_digit t" "v = word_of_nat (from_hex t)" by (auto simp: parse_hex16_def split: if_splits)
  have "from_hex t < 16 ^ 16" using hex_digits_from_hex[OF t(2)] t(1) by simp
  then show "t = hex16 v" using hex_digits_from_hex[OF t(2)] t by (simp add: hex16_def unat_of_nat)
next
  assume "t = hex16 v"
  moreover have "unat v < 16 ^ 16" using unsigned_less[of v, where 'a = nat] by simp
  ultimately show "parse_hex16 t = Some v"
    using from_hex_digits[of "unat v" 16] hex_digits_all[of 16 "unat v"] by (simp add: parse_hex16_def hex16_def)
qed

lemma hex16_inj: "hex16 v = hex16 w \<longleftrightarrow> v = w"
  by (metis option.inject parse_hex16_iff)

lemma no_dash_hex16: "45 \<notin> set (hex16 v)"
  using hex_digits_all by (simp add: hex16_def)

lemma cut_at: "c \<notin> set x \<Longrightarrow> takeWhile (\<lambda>b. b \<noteq> c) (x @ c # y) = x \<and> dropWhile (\<lambda>b. b \<noteq> c) (x @ c # y) = c # y"
  by (induction x) auto

lemma split_once_iff: "split_once c t = Some (a, b) \<longleftrightarrow> t = a @ c # b \<and> c \<notin> set a"
proof
  assume s: "split_once c t = Some (a, b)"
  then have "c \<in> set t" by (auto simp: split_once_def split: if_splits)
  then obtain x y where "t = x @ c # y" "c \<notin> set x" by (meson split_list_first)
  moreover from this have "takeWhile (\<lambda>b. b \<noteq> c) t = x" "dropWhile (\<lambda>b. b \<noteq> c) t = c # y"
    by (simp_all add: cut_at)
  ultimately show "t = a @ c # b \<and> c \<notin> set a" using s by (auto simp: split_once_def split: if_splits)
next
  assume "t = a @ c # b \<and> c \<notin> set a"
  moreover from this have "takeWhile (\<lambda>b. b \<noteq> c) t = a" "dropWhile (\<lambda>b. b \<noteq> c) t = c # b"
    by (simp_all add: cut_at)
  ultimately show "split_once c t = Some (a, b)" by (simp add: split_once_def)
qed

lemma strip_prefix_iff: "strip_prefix p t = Some r \<longleftrightarrow> t = p @ r"
  by (auto simp: strip_prefix_def) (metis append_take_drop_id)

lemma strip_suffix_iff: "strip_suffix p t = Some r \<longleftrightarrow> t = r @ p"
  by (auto simp: strip_suffix_def) (metis append_take_drop_id)

lemma name_stem_iff: "name_stem dir suffix t = Some stem \<longleftrightarrow> t = dir @ [47] @ stem @ suffix"
  by (auto simp: name_stem_def bind_eq_Some_conv strip_prefix_iff strip_suffix_iff)

lemma parse_object_name_iff:
  "parse_object_name t = Some (e, seq) \<longleftrightarrow> t = segment_name e seq \<or> t = value_name e seq"
proof -
  have differ: "segments_dir @ x \<noteq> values_dir @ y" for x y by (simp add: segments_dir_def values_dir_def)
  have stem: "Option.bind (split_once 45 s) (\<lambda>(e, seq). Option.bind (parse_hex16 e) (\<lambda>e. Option.bind (parse_hex16 seq) (\<lambda>seq. Some (e, seq))))
      = Some (e, seq) \<longleftrightarrow> s = hex16 e @ 45 # hex16 seq" for s
    by (auto simp: bind_eq_Some_conv split_once_iff parse_hex16_iff no_dash_hex16)
  show ?thesis
  proof (cases "name_stem segments_dir segment_suffix t")
    case None
    then have "t \<noteq> segment_name e seq" by (metis append.assoc append_Cons name_stem_iff option.distinct(1) segment_name_def append_Nil)
    then show ?thesis using None
      by (auto simp: parse_object_name_def bind_eq_Some_conv[of "name_stem _ _ _"] stem name_stem_iff value_name_def)
  next
    case (Some s)
    then have "t = segments_dir @ [47] @ s @ segment_suffix" by (simp add: name_stem_iff)
    then show ?thesis using Some differ by (auto simp: parse_object_name_def stem segment_name_def value_name_def)
  qed
qed

text \<open>
  C39. Object names are read back and never collide. A relative name parses to an epoch and a sequence exactly
  when it is the name the format gives a segment or a value object of that epoch and sequence; in
  particular two writers of different epochs, or one writer at different sequences, never write the same
  name, and no segment has the name of a value object.
\<close>

theorem object_names_never_collide:
  "(parse_object_name t = Some (e, seq) \<longleftrightarrow> t = segment_name e seq \<or> t = value_name e seq)
   \<and> (segment_name e seq = segment_name e' seq' \<longleftrightarrow> e = e' \<and> seq = seq')
   \<and> (value_name e seq = value_name e' seq' \<longleftrightarrow> e = e' \<and> seq = seq')
   \<and> segment_name e seq \<noteq> value_name e' seq'"
proof -
  have "segment_name e seq = segment_name e' seq' \<Longrightarrow> e = e' \<and> seq = seq'"
    "value_name e seq = value_name e' seq' \<Longrightarrow> e = e' \<and> seq = seq'"
    using parse_object_name_iff by (metis option.inject prod.inject)+
  moreover have "segment_name e seq \<noteq> value_name e' seq'"
    by (simp add: segment_name_def value_name_def segments_dir_def values_dir_def)
  ultimately show ?thesis using parse_object_name_iff by auto
qed

end
