(* ===== verification/Seg_Manifest.thy ===== *)
theory Seg_Manifest
  imports Seg_Segment Seg_Paths Key_Range
begin

text \<open>
  \<open>orbita-format/src/manifest.rs\<close>: the manifest, a partition's only mutable object, and its validation.
  The JSON text is made and read by \<open>serde_json\<close> and the bytes of a key by \<open>base64\<close>; both crates are
  parameters, the latter as the pair \<open>b64\<close> and \<open>unb64\<close>. The texts of the errors are kept without the
  segment name the code formats into them.
\<close>

section \<open>The manifest\<close>

record segment_entry =
  se_name :: bytes
  se_source :: "partition_id option"
  se_bytes :: u64
  se_record_count :: u64
  se_min_key :: bytes
  se_max_key :: bytes
  se_min_lamport :: lamport
  se_max_lamport :: lamport

definition entry_of :: "bytes \<Rightarrow> built_segment \<Rightarrow> segment_entry" where
  "entry_of name b =
     \<lparr>se_name = name, se_source = None, se_bytes = word_of_nat (length (bs_bytes b)), se_record_count = bs_record_count b,
      se_min_key = bs_min_key b, se_max_key = bs_max_key b, se_min_lamport = bs_min_lamport b, se_max_lamport = bs_max_lamport b\<rparr>"

definition may_hold :: "segment_entry \<Rightarrow> bytes \<Rightarrow> bool" where
  "may_hold e key = (se_min_key e \<le> key \<and> key \<le> se_max_key e)"

definition footer_range :: "segment_entry \<Rightarrow> nat \<times> nat" where
  "footer_range e = (unat (saturating_sub (se_bytes e) (word_of_nat footer_len)), unat (se_bytes e))"

definition resolve_segment :: "partition_path \<Rightarrow> segment_entry \<Rightarrow> bytes option" where
  "resolve_segment path e =
     (case se_source e of
        None \<Rightarrow> Some (object_key path (se_name e))
      | Some source \<Rightarrow> Option.bind (for_partition source path) (\<lambda>p. Some (object_key p (se_name e))))"

record manifest =
  mf_keyspace_id :: keyspace_id
  mf_partition_id :: partition_id
  mf_epoch :: epoch
  mf_committed_lamport :: lamport
  mf_range :: key_range
  mf_segments :: "segment_entry list"

definition manifest_empty :: "keyspace_id \<Rightarrow> partition_id \<Rightarrow> epoch \<Rightarrow> key_range \<Rightarrow> manifest" where
  "manifest_empty ks p e r =
     \<lparr>mf_keyspace_id = ks, mf_partition_id = p, mf_epoch = e, mf_committed_lamport = 0, mf_range = r, mf_segments = []\<rparr>"

text \<open>\<open>sort_by(|a, b| b.max_lamport.cmp(&a.max_lamport))\<close> is stable.\<close>

definition candidates :: "manifest \<Rightarrow> bytes \<Rightarrow> segment_entry list" where
  "candidates m key = sort_key (\<lambda>e. - int (unat (se_max_lamport e))) (filter (\<lambda>e. may_hold e key) (mf_segments m))"

definition manifest_total_bytes :: "manifest \<Rightarrow> u64" where
  "manifest_total_bytes m = sum_list (map se_bytes (mf_segments m))"

definition manifest_record_count :: "manifest \<Rightarrow> u64" where
  "manifest_record_count m = sum_list (map se_record_count (mf_segments m))"

section \<open>The wire shape\<close>

record wire_segment =
  ws_name :: bytes
  ws_source_partition_id :: "u64 option"
  ws_bytes :: u64
  ws_record_count :: u64
  ws_min_key :: bytes
  ws_max_key :: bytes
  ws_min_lamport :: u64
  ws_max_lamport :: u64

record wire =
  wi_format_version :: u64
  wi_keyspace_id :: u64
  wi_partition_id :: u64
  wi_epoch :: u64
  wi_committed_lamport :: u64
  wi_start :: bytes
  wi_end :: "bytes option"
  wi_segments :: "wire_segment list"

definition wire_segment_of :: "(bytes \<Rightarrow> bytes) \<Rightarrow> segment_entry \<Rightarrow> wire_segment" where
  "wire_segment_of b64 s =
     \<lparr>ws_name = se_name s, ws_source_partition_id = se_source s, ws_bytes = se_bytes s, ws_record_count = se_record_count s,
      ws_min_key = b64 (se_min_key s), ws_max_key = b64 (se_max_key s),
      ws_min_lamport = se_min_lamport s, ws_max_lamport = se_max_lamport s\<rparr>"

definition wire_of :: "(bytes \<Rightarrow> bytes) \<Rightarrow> manifest \<Rightarrow> wire" where
  "wire_of b64 m =
     \<lparr>wi_format_version = word_of_nat format_version, wi_keyspace_id = mf_keyspace_id m, wi_partition_id = mf_partition_id m,
      wi_epoch = mf_epoch m, wi_committed_lamport = mf_committed_lamport m,
      wi_start = b64 (kr_start (mf_range m)), wi_end = map_option b64 (kr_end (mf_range m)),
      wi_segments = map (wire_segment_of b64) (mf_segments m)\<rparr>"

definition manifest_malformed :: "string \<Rightarrow> format_error" where
  "manifest_malformed what = MalformedBytes ''manifest'' (ManifestInvalid what)"

definition decode_key :: "(bytes \<Rightarrow> bytes option) \<Rightarrow> string \<Rightarrow> bytes \<Rightarrow> format_error + bytes" where
  "decode_key unb64 field t =
     (case unb64 t of Some k \<Rightarrow> Inr k | None \<Rightarrow> Inl (manifest_malformed (field @ '' is not standard base64'')))"

definition guard :: "bool \<Rightarrow> string \<Rightarrow> format_error + unit" where
  "guard bad what = (if bad then Inl (manifest_malformed what) else Inr ())"

definition validate_segment ::
  "(bytes \<Rightarrow> bytes option) \<Rightarrow> key_range \<Rightarrow> u64 \<Rightarrow> u64 \<Rightarrow> wire_segment \<Rightarrow> format_error + segment_entry" where
  "validate_segment unb64 r p committed s =
     bind_res (guard (strip_prefix (segments_dir @ [47]) (ws_name s) = None \<or> parse_object_name (ws_name s) = None)
       ''segment name is not a name this format produces'') (\<lambda>_.
     bind_res (guard (ws_record_count s = 0) ''segment claims no records, which cannot be written'') (\<lambda>_.
     bind_res (guard (unat (ws_bytes s) < header_len + footer_len) ''segment is too small to hold a header and a footer'') (\<lambda>_.
     bind_res (decode_key unb64 ''min_key'' (ws_min_key s)) (\<lambda>min_key.
     bind_res (decode_key unb64 ''max_key'' (ws_max_key s)) (\<lambda>max_key.
     bind_res (guard (max_key < min_key) ''segment has min_key above max_key'') (\<lambda>_.
     bind_res (guard (\<not> contains r min_key \<or> \<not> contains r max_key) ''segment holds keys outside the partition's range'') (\<lambda>_.
     bind_res (guard (ws_max_lamport s < ws_min_lamport s) ''segment has min_lamport above max_lamport'') (\<lambda>_.
     bind_res (guard (committed < ws_max_lamport s) ''segment holds a lamport above committed_lamport'') (\<lambda>_.
     bind_res (guard (ws_source_partition_id s = Some p) ''segment names its own partition as its source'') (\<lambda>_.
     Inr \<lparr>se_name = ws_name s, se_source = ws_source_partition_id s, se_bytes = ws_bytes s, se_record_count = ws_record_count s,
          se_min_key = min_key, se_max_key = max_key, se_min_lamport = ws_min_lamport s, se_max_lamport = ws_max_lamport s\<rparr>))))))))))"

text \<open>The loop over the segments, with the identities seen so far.\<close>

fun validate_segments ::
  "(bytes \<Rightarrow> bytes option) \<Rightarrow> key_range \<Rightarrow> u64 \<Rightarrow> u64 \<Rightarrow> (u64 option \<times> bytes) list \<Rightarrow> wire_segment list
    \<Rightarrow> format_error + segment_entry list" where
  "validate_segments unb64 r p committed names [] = Inr []"
| "validate_segments unb64 r p committed names (s # ss) =
     bind_res (guard ((ws_source_partition_id s, ws_name s) \<in> set names) ''segment is listed twice'') (\<lambda>_.
     bind_res (validate_segment unb64 r p committed s) (\<lambda>e.
     bind_res (validate_segments unb64 r p committed ((ws_source_partition_id s, ws_name s) # names) ss) (\<lambda>es. Inr (e # es))))"

definition validate_range :: "(bytes \<Rightarrow> bytes option) \<Rightarrow> wire \<Rightarrow> format_error + key_range" where
  "validate_range unb64 w =
     bind_res (decode_key unb64 ''range.start'' (wi_start w)) (\<lambda>start.
     bind_res
       (case wi_end w of
          None \<Rightarrow> Inr None
        | Some t \<Rightarrow> bind_res (decode_key unb64 ''range.end'' t) (\<lambda>e.
            bind_res (guard (e = []) ''an empty range.end is invalid; unbounded above is written as null'') (\<lambda>_. Inr (Some e))))
       (\<lambda>end'. case key_range_new start end' of
          None \<Rightarrow> Inl (manifest_malformed ''range.end must be strictly above range.start'')
        | Some r \<Rightarrow> Inr r))"

definition validate :: "(bytes \<Rightarrow> bytes option) \<Rightarrow> wire \<Rightarrow> format_error + manifest" where
  "validate unb64 w =
     (if wi_format_version w \<noteq> word_of_nat format_version
      then Inl (UnsupportedVersion (wi_format_version w) (word_of_nat format_version))
      else
        bind_res (validate_range unb64 w) (\<lambda>r.
        bind_res (validate_segments unb64 r (wi_partition_id w) (wi_committed_lamport w) [] (wi_segments w)) (\<lambda>segments.
        Inr \<lparr>mf_keyspace_id = wi_keyspace_id w, mf_partition_id = wi_partition_id w, mf_epoch = wi_epoch w,
             mf_committed_lamport = wi_committed_lamport w, mf_range = r, mf_segments = segments\<rparr>)))"

text \<open>
  \<open>Manifest::encode\<close> and \<open>Manifest::decode\<close>; \<open>ser\<close> and \<open>de\<close> are \<open>serde_json::to_vec_pretty\<close> and \<open>from_slice\<close>.
\<close>

definition manifest_encode :: "(wire \<Rightarrow> bytes) \<Rightarrow> (bytes \<Rightarrow> bytes) \<Rightarrow> manifest \<Rightarrow> bytes" where
  "manifest_encode ser b64 m = ser (wire_of b64 m) @ [10]"

definition manifest_decode :: "(bytes \<Rightarrow> wire option) \<Rightarrow> (bytes \<Rightarrow> bytes option) \<Rightarrow> bytes \<Rightarrow> format_error + manifest" where
  "manifest_decode de unb64 b =
     (case de b of None \<Rightarrow> Inl (manifest_malformed ''not the JSON of a manifest'') | Some w \<Rightarrow> validate unb64 w)"

section \<open>What a validated manifest is\<close>

definition entry_ok :: "manifest \<Rightarrow> segment_entry \<Rightarrow> bool" where
  "entry_ok m s \<longleftrightarrow> (\<exists>e seq. se_name s = segment_name e seq) \<and> se_record_count s \<noteq> 0
     \<and> header_len + footer_len \<le> unat (se_bytes s) \<and> se_min_key s \<le> se_max_key s
     \<and> contains (mf_range m) (se_min_key s) \<and> contains (mf_range m) (se_max_key s)
     \<and> se_min_lamport s \<le> se_max_lamport s \<and> se_max_lamport s \<le> mf_committed_lamport m
     \<and> se_source s \<noteq> Some (mf_partition_id m)"

definition manifest_ok :: "manifest \<Rightarrow> bool" where
  "manifest_ok m \<longleftrightarrow> kr_ok (mf_range m) \<and> kr_end (mf_range m) \<noteq> Some []
     \<and> list_all (entry_ok m) (mf_segments m) \<and> distinct (map (\<lambda>s. (se_source s, se_name s)) (mf_segments m))"

text \<open>How a wire value spells a manifest, field by field, before anything is judged.\<close>

definition segment_spelled :: "(bytes \<Rightarrow> bytes option) \<Rightarrow> wire_segment \<Rightarrow> segment_entry \<Rightarrow> bool" where
  "segment_spelled unb64 w s \<longleftrightarrow> ws_name w = se_name s \<and> ws_source_partition_id w = se_source s \<and> ws_bytes w = se_bytes s
     \<and> ws_record_count w = se_record_count s \<and> unb64 (ws_min_key w) = Some (se_min_key s)
     \<and> unb64 (ws_max_key w) = Some (se_max_key s) \<and> ws_min_lamport w = se_min_lamport s \<and> ws_max_lamport w = se_max_lamport s"

definition manifest_spelled :: "(bytes \<Rightarrow> bytes option) \<Rightarrow> wire \<Rightarrow> manifest \<Rightarrow> bool" where
  "manifest_spelled unb64 w m \<longleftrightarrow> wi_format_version w = word_of_nat format_version \<and> wi_keyspace_id w = mf_keyspace_id m
     \<and> wi_partition_id w = mf_partition_id m \<and> wi_epoch w = mf_epoch m \<and> wi_committed_lamport w = mf_committed_lamport m
     \<and> unb64 (wi_start w) = Some (kr_start (mf_range m)) \<and> map_option unb64 (wi_end w) = map_option Some (kr_end (mf_range m))
     \<and> list_all2 (segment_spelled unb64) (wi_segments w) (mf_segments m)"

lemma guard_Inr [simp]: "guard bad what = Inr u \<longleftrightarrow> \<not> bad"
  by (simp add: guard_def)

lemma decode_key_Inr [simp]: "decode_key unb64 field t = Inr k \<longleftrightarrow> unb64 t = Some k"
  by (simp add: decode_key_def split: option.splits)

lemma segment_name_iff:
  "strip_prefix (segments_dir @ [47]) t \<noteq> None \<and> parse_object_name t \<noteq> None \<longleftrightarrow> (\<exists>e seq. t = segment_name e seq)"
proof
  assume a: "strip_prefix (segments_dir @ [47]) t \<noteq> None \<and> parse_object_name t \<noteq> None"
  then obtain e seq where "t = segment_name e seq \<or> t = value_name e seq" using parse_object_name_iff by auto
  moreover have "t \<noteq> value_name e seq" for e seq
    using a by (auto simp: strip_prefix_iff value_name_def segments_dir_def values_dir_def)
  ultimately show "\<exists>e seq. t = segment_name e seq" by blast
next
  assume "\<exists>e seq. t = segment_name e seq"
  then obtain e seq where t: "t = segment_name e seq" by blast
  then have "parse_object_name t = Some (e, seq)" by (simp add: parse_object_name_iff)
  moreover have "strip_prefix (segments_dir @ [47]) t = Some (hex16 e @ [45] @ hex16 seq @ segment_suffix)"
    using t by (simp add: strip_prefix_iff segment_name_def)
  ultimately show "strip_prefix (segments_dir @ [47]) t \<noteq> None \<and> parse_object_name t \<noteq> None" by simp
qed

lemma validate_segment_iff:
  "validate_segment unb64 (mf_range m) (mf_partition_id m) (mf_committed_lamport m) w = Inr s
   \<longleftrightarrow> segment_spelled unb64 w s \<and> entry_ok m s"
  using segment_name_iff[of "ws_name w"]
  by (cases s) (auto simp: validate_segment_def bind_res_eq_Inr segment_spelled_def entry_ok_def not_less)

lemma validate_segments_iff:
  "validate_segments unb64 (mf_range m) (mf_partition_id m) (mf_committed_lamport m) names ws = Inr ss
   \<longleftrightarrow> list_all2 (segment_spelled unb64) ws ss \<and> list_all (entry_ok m) ss
     \<and> distinct (map (\<lambda>s. (se_source s, se_name s)) ss) \<and> (\<forall>s\<in>set ss. (se_source s, se_name s) \<notin> set names)"
proof (induction ws arbitrary: names ss)
  case (Cons w ws)
  have same: "segment_spelled unb64 w s \<Longrightarrow> ws_source_partition_id w = se_source s \<and> ws_name w = se_name s" for s
    by (simp add: segment_spelled_def)
  show ?case
  proof (cases ss)
    case (Cons s rest)
    show ?thesis
    proof (cases "segment_spelled unb64 w s")
      case True
      then show ?thesis unfolding Cons using same[OF True]
        by (auto simp: bind_res_eq_Inr validate_segment_iff Cons.IH image_iff)
    next
      case False
      then show ?thesis unfolding Cons by (simp add: bind_res_eq_Inr validate_segment_iff)
    qed
  qed (simp add: bind_res_eq_Inr)
qed auto

lemma validate_range_iff:
  "validate_range unb64 w = Inr r
   \<longleftrightarrow> unb64 (wi_start w) = Some (kr_start r) \<and> map_option unb64 (wi_end w) = map_option Some (kr_end r)
     \<and> kr_ok r \<and> kr_end r \<noteq> Some []"
proof (cases "wi_end w")
  case None
  then show ?thesis
    by (cases r) (auto simp: validate_range_def bind_res_eq_Inr key_range_new_def kr_ok_def split: option.splits)
next
  case (Some t)
  then show ?thesis
  proof (cases "unb64 (wi_start w)"; cases "unb64 t")
    fix a b assume "unb64 (wi_start w) = Some a" "unb64 t = Some b"
    then show ?thesis using Some
      by (cases r; cases "kr_end r"; cases "b = []"; cases "a < b")
        (auto simp: validate_range_def decode_key_def guard_def key_range_new_def kr_ok_def not_less)
  qed (auto simp: validate_range_def decode_key_def map_option_case split: option.splits)
qed

lemma validate_iff: "validate unb64 w = Inr m \<longleftrightarrow> manifest_spelled unb64 w m \<and> manifest_ok m"
proof -
  have "validate unb64 w = Inr m \<longleftrightarrow> wi_format_version w = word_of_nat format_version \<and> wi_keyspace_id w = mf_keyspace_id m
     \<and> wi_partition_id w = mf_partition_id m \<and> wi_epoch w = mf_epoch m \<and> wi_committed_lamport w = mf_committed_lamport m
     \<and> validate_range unb64 w = Inr (mf_range m)
     \<and> validate_segments unb64 (mf_range m) (mf_partition_id m) (mf_committed_lamport m) [] (wi_segments w) = Inr (mf_segments m)"
    by (cases m) (auto simp: validate_def bind_res_eq_Inr)
  then show ?thesis
    by (auto simp: validate_segments_iff validate_range_iff manifest_spelled_def manifest_ok_def)
qed

lemma list_all2_functional:
  "(\<And>x y z. P x y \<Longrightarrow> P x z \<Longrightarrow> y = z) \<Longrightarrow> list_all2 P xs ys \<Longrightarrow> list_all2 P xs zs \<Longrightarrow> ys = zs"
proof (induction xs arbitrary: ys zs)
  case (Cons x xs)
  then show ?case by (cases ys; cases zs) auto
qed auto

lemma segment_spelled_unique: "segment_spelled unb64 w s \<Longrightarrow> segment_spelled unb64 w s' \<Longrightarrow> s = s'"
  by (cases s; cases s') (auto simp: segment_spelled_def)

lemma spelled_unique: "manifest_spelled unb64 w m \<Longrightarrow> manifest_spelled unb64 w m' \<Longrightarrow> m = m'"
proof -
  assume a: "manifest_spelled unb64 w m" "manifest_spelled unb64 w m'"
  then have "mf_segments m = mf_segments m'"
    using list_all2_functional[of "segment_spelled unb64"] segment_spelled_unique by (auto simp: manifest_spelled_def)
  moreover have "mf_range m = mf_range m'"
    using a by (cases "mf_range m"; cases "mf_range m'"; cases "kr_end (mf_range m)"; cases "kr_end (mf_range m')")
      (auto simp: manifest_spelled_def)
  ultimately show ?thesis using a by (cases m; cases m') (auto simp: manifest_spelled_def)
qed

lemma wire_spelled: "(\<And>x. unb64 (b64 x) = Some x) \<Longrightarrow> manifest_spelled unb64 (wire_of b64 m) m"
  by (cases "kr_end (mf_range m)")
    (auto simp: manifest_spelled_def wire_of_def list_all2_map1 list_all2_same segment_spelled_def wire_segment_of_def)

text \<open>
  What a client of the two relies on follows from the documented behaviour of \<open>serde_json\<close> and \<open>base64\<close>: a decoder
  reads what its encoder wrote.
\<close>

lemma manifest_reads_back:
  assumes "\<And>w. de (ser w @ [10]) = Some w" and "\<And>x. unb64 (b64 x) = Some x"
  shows "manifest_decode de unb64 (manifest_encode ser b64 m) = Inr m' \<longleftrightarrow> m' = m \<and> manifest_ok m"
proof -
  have "manifest_spelled unb64 (wire_of b64 m) m'' \<Longrightarrow> m'' = m" for m''
    using wire_spelled[of unb64 b64 m, OF assms(2)] spelled_unique by blast
  then show ?thesis
    using wire_spelled[of unb64 b64 m, OF assms(2)] by (auto simp: manifest_decode_def manifest_encode_def assms(1) validate_iff)
qed

text \<open>
  C37. A manifest is accepted exactly when it describes a partition that can exist. Validation returns a manifest
  just when the wire value spells it in the supported version and it is well formed: a non-empty
  key range, every segment named by the format, at least as long as a header and a footer, holding records, its keys ordered and
  inside the range, its Lamports
  ordered and at most the flush horizon, no segment borrowed from the partition itself and none listed
  twice. What the encoder writes for a well formed manifest is read back as that manifest, whatever the
  base64 codec, as long as it decodes what it encodes.
\<close>

theorem manifest_accepted_iff_well_formed:
  "(validate unb64 w = Inr m \<longleftrightarrow> manifest_spelled unb64 w m \<and> manifest_ok m)
   \<and> ((\<forall>x. unb64 (b64 x) = Some x) \<longrightarrow> (validate unb64 (wire_of b64 m) = Inr m \<longleftrightarrow> manifest_ok m))"
  using validate_iff wire_spelled by blast

theorem manifest_accepted_iff_well_formed_witness:
  "let s = \<lparr>se_name = segment_name 6 0, se_source = Some 3, se_bytes = 200, se_record_count = 2, se_min_key = [97], se_max_key = [98],
            se_min_lamport = 10, se_max_lamport = 12\<rparr>;
       m = \<lparr>mf_keyspace_id = 1, mf_partition_id = 7, mf_epoch = 6, mf_committed_lamport = 40,
            mf_range = \<lparr>kr_start = [], kr_end = Some [109]\<rparr>, mf_segments = [s]\<rparr>
   in validate Some (wire_of (\<lambda>x. x) m) = Inr m"
proof -
  define s where "s = \<lparr>se_name = segment_name 6 0, se_source = Some (3 :: u64), se_bytes = 200, se_record_count = 2,
    se_min_key = [97], se_max_key = [98], se_min_lamport = 10, se_max_lamport = 12\<rparr>"
  define m where "m = \<lparr>mf_keyspace_id = 1, mf_partition_id = 7, mf_epoch = 6, mf_committed_lamport = 40,
    mf_range = \<lparr>kr_start = [], kr_end = Some [109]\<rparr>, mf_segments = [s]\<rparr>"
  have "entry_ok m s"
    by (auto simp: entry_ok_def m_def s_def header_len_def footer_len_def contains_def)
  then have "manifest_ok m" by (simp add: manifest_ok_def m_def kr_ok_def)
  then have "validate Some (wire_of (\<lambda>x. x) m) = Inr m"
    using manifest_accepted_iff_well_formed[of Some _ m "\<lambda>x. x"] by simp
  then show ?thesis by (simp add: m_def s_def)
qed

end
