(* ===== verification/Seg_Commit.thy ===== *)
theory Seg_Commit
  imports Obj_Store Seg_Manifest
begin

text \<open>
  \<open>orbita-format/src/commit.rs\<close>: publishing objects and the manifest swap that makes them part of the partition.
  The functions are generic over the store, as the code is; the codec of the manifest is a pair of functions.
  The two awaits of a commit attempt, the read and the conditional write, are separate steps, so that other
  writers may act in between.
\<close>

section \<open>Operations\<close>

record manifest_codec =
  mc_encode :: "manifest \<Rightarrow> bytes"
  mc_decode :: "bytes \<Rightarrow> format_error + manifest"

definition max_commit_attempts :: nat where "max_commit_attempts = 32"

record commit_plan =
  cp_committed_lamport :: lamport
  cp_range :: key_range
  cp_segments :: "segment_entry list"

record partition_writer =
  pw_path :: partition_path
  pw_epoch :: epoch
  pw_next_sequence :: u64

definition load_manifest ::
  "('s, 'tag) store_ops \<Rightarrow> manifest_codec \<Rightarrow> 's \<Rightarrow> partition_path \<Rightarrow> format_error + (manifest \<times> 'tag) option" where
  "load_manifest ops c s path =
     (case so_get ops s (manifest_key path) of
        Inr (b, etag) \<Rightarrow> bind_res (mc_decode c b) (\<lambda>m. Inr (Some (m, etag)))
      | Inl (ObjectNotFound _) \<Rightarrow> Inr None
      | Inl e \<Rightarrow> Inl (StoreFailed e))"

text \<open>The loop of \<open>PartitionWriter::open\<close> over one listing.\<close>

definition highest_of :: "partition_path \<Rightarrow> epoch \<Rightarrow> 'tag object_meta list \<Rightarrow> u64 option \<Rightarrow> u64 option" where
  "highest_of path e listing highest =
     fold (\<lambda>object highest.
       case Option.bind (relative_name path (om_key object)) parse_object_name of
         None \<Rightarrow> highest
       | Some (found, sequence) \<Rightarrow>
           if found = e then Some (case highest of None \<Rightarrow> sequence | Some h \<Rightarrow> max h sequence) else highest) listing highest"

definition writer_open ::
  "('s, 'tag) store_ops \<Rightarrow> 's \<Rightarrow> partition_path \<Rightarrow> epoch \<Rightarrow> format_error + partition_writer" where
  "writer_open ops s path e =
     (case so_list ops s (segments_prefix path) of
        Inl err \<Rightarrow> Inl (StoreFailed err)
      | Inr segments \<Rightarrow>
     (case so_list ops s (values_prefix path) of
        Inl err \<Rightarrow> Inl (StoreFailed err)
      | Inr values \<Rightarrow>
          let highest = highest_of path e values (highest_of path e segments None)
          in Inr \<lparr>pw_path = path, pw_epoch = e, pw_next_sequence = (case highest of None \<Rightarrow> 0 | Some h \<Rightarrow> h + 1)\<rparr>))"

definition take_sequence :: "partition_writer \<Rightarrow> partition_writer \<times> u64" where
  "take_sequence w = (w\<lparr>pw_next_sequence := pw_next_sequence w + 1\<rparr>, pw_next_sequence w)"

definition put_object ::
  "('s, 'tag) store_ops \<Rightarrow> partition_writer \<Rightarrow> bytes \<Rightarrow> bytes \<Rightarrow> ('s, format_error, unit) action" where
  "put_object ops w name data s =
     (case so_put ops (object_key (pw_path w) name) data s of
        (s', Inr _) \<Rightarrow> (s', Inr ())
      | (s', Inl e) \<Rightarrow> (s', Inl (StoreFailed e)))"

definition put_value ::
  "('s, 'tag) store_ops \<Rightarrow> (bytes \<Rightarrow> u32) \<Rightarrow> bytes \<Rightarrow> (partition_writer \<times> 's, format_error, external_value) action" where
  "put_value ops crc v ws =
     (let (w, s) = ws;
          (w', sequence) = take_sequence w;
          external = \<lparr>ev_name = value_name (pw_epoch w) sequence, ev_length = word_of_nat (length v), ev_crc32c = crc v\<rparr>
      in case put_object ops w (ev_name external) v s of
           (s', Inl e) \<Rightarrow> ((w', s'), Inl e)
         | (s', Inr _) \<Rightarrow> ((w', s'), Inr external))"

definition put_segment ::
  "('s, 'tag) store_ops \<Rightarrow> built_segment \<Rightarrow> (partition_writer \<times> 's, format_error, segment_entry) action" where
  "put_segment ops built ws =
     (let (w, s) = ws;
          (w', sequence) = take_sequence w;
          name = segment_name (pw_epoch w) sequence
      in case put_object ops w name (bs_bytes built) s of
           (s', Inl e) \<Rightarrow> ((w', s'), Inl e)
         | (s', Inr _) \<Rightarrow> ((w', s'), Inr (entry_of name built)))"

text \<open>One attempt up to its conditional write: what it will publish and under which precondition.\<close>

definition commit_read ::
  "('s, 'tag) store_ops \<Rightarrow> manifest_codec \<Rightarrow> partition_writer \<Rightarrow> (manifest option \<Rightarrow> commit_plan) \<Rightarrow> 's
    \<Rightarrow> format_error + (manifest \<times> 'tag precondition)" where
  "commit_read ops c w plan s =
     bind_res (load_manifest ops c s (pw_path w)) (\<lambda>current.
     bind_res
       (case current of
          Some (m, _) \<Rightarrow> if pw_epoch w < mf_epoch m then Inl (Deposed (pw_epoch w) (mf_epoch m)) else Inr ()
        | None \<Rightarrow> Inr ()) (\<lambda>_.
     let p = plan (map_option fst current);
         m = \<lparr>mf_keyspace_id = pp_keyspace_id (pw_path w), mf_partition_id = pp_partition_id (pw_path w), mf_epoch = pw_epoch w,
              mf_committed_lamport = cp_committed_lamport p, mf_range = cp_range p, mf_segments = cp_segments p\<rparr>
     in bind_res (mc_decode c (mc_encode c m)) (\<lambda>_.
          Inr (m, case current of Some (_, etag) \<Rightarrow> Match etag | None \<Rightarrow> NotExists))))"

text \<open>The conditional write: \<open>True\<close> when it is done, \<open>False\<close> when the race was lost and the loop goes on.\<close>

definition commit_swap ::
  "('s, 'tag) store_ops \<Rightarrow> manifest_codec \<Rightarrow> partition_writer \<Rightarrow> manifest \<times> 'tag precondition \<Rightarrow> ('s, format_error, bool) action" where
  "commit_swap ops c w mp s =
     (case so_put_if ops (manifest_key (pw_path w)) (mc_encode c (fst mp)) (snd mp) s of
        (s', Inr _) \<Rightarrow> (s', Inr True)
      | (s', Inl (PreconditionFailed _)) \<Rightarrow> (s', Inr False)
      | (s', Inl e) \<Rightarrow> (s', Inl (StoreFailed e)))"

text \<open>
  The loop. \<open>env n\<close> is what everybody else does to the store between the read and the write of the attempt
  that leaves \<open>n\<close> more.
\<close>

fun commit_attempts ::
  "nat \<Rightarrow> ('s, 'tag) store_ops \<Rightarrow> manifest_codec \<Rightarrow> partition_writer \<Rightarrow> (manifest option \<Rightarrow> commit_plan)
    \<Rightarrow> (nat \<Rightarrow> 's \<Rightarrow> 's) \<Rightarrow> ('s, format_error, manifest) action" where
  "commit_attempts 0 ops c w plan env s = (s, Inl (Contended (word_of_nat max_commit_attempts)))"
| "commit_attempts (Suc n) ops c w plan env s =
     (case commit_read ops c w plan s of
        Inl e \<Rightarrow> (s, Inl e)
      | Inr mp \<Rightarrow>
          (case commit_swap ops c w mp (env n s) of
             (s', Inl e) \<Rightarrow> (s', Inl e)
           | (s', Inr True) \<Rightarrow> (s', Inr (fst mp))
           | (s', Inr False) \<Rightarrow> commit_attempts n ops c w plan env s'))"

definition commit ::
  "('s, 'tag) store_ops \<Rightarrow> manifest_codec \<Rightarrow> partition_writer \<Rightarrow> (manifest option \<Rightarrow> commit_plan)
    \<Rightarrow> (nat \<Rightarrow> 's \<Rightarrow> 's) \<Rightarrow> ('s, format_error, manifest) action" where
  "commit ops c w plan env s = commit_attempts max_commit_attempts ops c w plan env s"

section \<open>Many writers\<close>

text \<open>
  The writers of one partition, past and present, and what each has in flight: the manifest its attempt read,
  the one it will publish and its precondition. A restart is the process of a writer coming back at the same
  epoch with nothing but the bucket.
\<close>

record 'tag writer_slot =
  sl_writer :: partition_writer
  sl_attempt :: "(manifest option \<times> manifest \<times> 'tag precondition) option"

record ('s, 'tag) bucket_world =
  bw_store :: 's
  bw_slots :: "'tag writer_slot list"

datatype bucket_event =
    Open epoch
  | Restart nat
  | PutSegment nat built_segment
  | PutValue nat bytes
  | ReadManifest nat "manifest option \<Rightarrow> commit_plan"
  | SwapManifest nat

definition fresh_slot :: "partition_writer \<Rightarrow> 'tag writer_slot" where
  "fresh_slot w = \<lparr>sl_writer = w, sl_attempt = None\<rparr>"

definition slot_put ::
  "nat \<Rightarrow> (partition_writer \<times> 's) \<times> 'r \<Rightarrow> ('s, 'tag) bucket_world \<Rightarrow> ('s, 'tag) bucket_world" where
  "slot_put i r W =
     \<lparr>bw_store = snd (fst r), bw_slots = (bw_slots W)[i := (bw_slots W ! i)\<lparr>sl_writer := fst (fst r)\<rparr>]\<rparr>"

fun bucket_step ::
  "('s, 'tag) store_ops \<Rightarrow> manifest_codec \<Rightarrow> (bytes \<Rightarrow> u32) \<Rightarrow> partition_path \<Rightarrow> bucket_event
    \<Rightarrow> ('s, 'tag) bucket_world \<Rightarrow> ('s, 'tag) bucket_world" where
  "bucket_step ops c crc path (Open e) W =
     (case writer_open ops (bw_store W) path e of Inl _ \<Rightarrow> W | Inr w \<Rightarrow> W\<lparr>bw_slots := bw_slots W @ [fresh_slot w]\<rparr>)"
| "bucket_step ops c crc path (Restart i) W =
     (if i < length (bw_slots W)
      then case writer_open ops (bw_store W) path (pw_epoch (sl_writer (bw_slots W ! i))) of
             Inl _ \<Rightarrow> W | Inr w \<Rightarrow> W\<lparr>bw_slots := (bw_slots W)[i := fresh_slot w]\<rparr>
      else W)"
| "bucket_step ops c crc path (PutSegment i built) W =
     (if i < length (bw_slots W) then slot_put i (put_segment ops built (sl_writer (bw_slots W ! i), bw_store W)) W else W)"
| "bucket_step ops c crc path (PutValue i v) W =
     (if i < length (bw_slots W) then slot_put i (put_value ops crc v (sl_writer (bw_slots W ! i), bw_store W)) W else W)"
| "bucket_step ops c crc path (ReadManifest i plan) W =
     (if i < length (bw_slots W)
      then let w = sl_writer (bw_slots W ! i)
           in W\<lparr>bw_slots := (bw_slots W)[i := (bw_slots W ! i)\<lparr>sl_attempt :=
                (case (load_manifest ops c (bw_store W) (pw_path w), commit_read ops c w plan (bw_store W)) of
                   (Inr current, Inr mp) \<Rightarrow> Some (map_option fst current, mp)
                 | _ \<Rightarrow> None)\<rparr>]\<rparr>
      else W)"
| "bucket_step ops c crc path (SwapManifest i) W =
     (if i < length (bw_slots W)
      then case sl_attempt (bw_slots W ! i) of
             None \<Rightarrow> W
           | Some (_, mp) \<Rightarrow>
               \<lparr>bw_store = fst (commit_swap ops c (sl_writer (bw_slots W ! i)) mp (bw_store W)),
                bw_slots = (bw_slots W)[i := (bw_slots W ! i)\<lparr>sl_attempt := None\<rparr>]\<rparr>
      else W)"

definition bucket_run where
  "bucket_run ops c crc path evs W = fold (bucket_step ops c crc path) evs W"

definition opened :: "bucket_event list \<Rightarrow> epoch list" where
  "opened evs = concat (map (\<lambda>ev. case ev of Open e \<Rightarrow> [e] | _ \<Rightarrow> []) evs)"

section \<open>The invariant of the bucket\<close>

definition data_key :: "partition_path \<Rightarrow> epoch \<Rightarrow> u64 \<Rightarrow> bytes \<Rightarrow> bool" where
  "data_key path e seq key \<longleftrightarrow> key = object_key path (segment_name e seq) \<or> key = object_key path (value_name e seq)"

definition codec_reads_back :: "manifest_codec \<Rightarrow> bool" where
  "codec_reads_back c \<longleftrightarrow> (\<forall>m m'. mc_decode c (mc_encode c m) = Inr m' \<longrightarrow> m' = m)"

definition manifest_of :: "('s, 'tag) store_ops \<Rightarrow> manifest_codec \<Rightarrow> partition_path \<Rightarrow> 's \<Rightarrow> manifest option" where
  "manifest_of ops c path s =
     Option.bind (object_at ops s (manifest_key path)) (\<lambda>(b, _). case mc_decode c b of Inl _ \<Rightarrow> None | Inr m \<Rightarrow> Some m)"

lemma manifest_of_iff:
  "manifest_of ops c path s = Some m \<longleftrightarrow> (\<exists>b t. object_at ops s (manifest_key path) = Some (b, t) \<and> mc_decode c b = Inr m)"
proof (cases "object_at ops s (manifest_key path)")
  case (Some bt)
  then show ?thesis by (cases bt) (simp add: manifest_of_def split: sum.splits)
qed (simp add: manifest_of_def)

lemma relative_data_key: "relative_name path (object_key path n) = Some n"
  by (simp add: relative_name_def object_key_def strip_prefix_iff)

lemma data_key_parse:
  "Option.bind (relative_name path key) parse_object_name = Some (e, seq) \<longleftrightarrow> data_key path e seq key"
  by (auto simp: bind_eq_Some_conv relative_name_def strip_prefix_iff object_key_def parse_object_name_iff data_key_def)

lemma data_key_unique: "data_key path e seq key \<Longrightarrow> data_key path e' seq' key \<Longrightarrow> e = e' \<and> seq = seq'"
  using data_key_parse by (metis option.inject prod.inject)

lemma manifest_key_apart: "\<not> data_key path e seq (manifest_key path)"
  by (simp add: data_key_def manifest_key_def object_key_def manifest_name_def segment_name_def value_name_def
      segments_dir_def values_dir_def)

lemma data_key_listed: "data_key path e seq key \<Longrightarrow> starts_with (segments_prefix path) key \<or> starts_with (values_prefix path) key"
  by (auto simp: data_key_def starts_with_def segments_prefix_def values_prefix_def object_key_def segment_name_def value_name_def)

lemma data_keys: "data_key path e seq (object_key path (segment_name e seq))" "data_key path e seq (object_key path (value_name e seq))"
  by (simp_all add: data_key_def)

text \<open>The highest sequence of a listing is the maximum of the sequences its keys carry.\<close>

lemma highest_of_iff:
  "highest_of path e listing h0 = r \<Longrightarrow>
     (\<forall>key\<in>om_key ` set listing. \<forall>seq. data_key path e seq key \<longrightarrow> (\<exists>h. r = Some h \<and> seq \<le> h))
     \<and> (\<forall>h. h0 = Some h \<longrightarrow> (\<exists>h'. r = Some h' \<and> h \<le> h'))
     \<and> (\<forall>h. r = Some h \<longrightarrow> h0 = Some h \<or> (\<exists>key\<in>om_key ` set listing. data_key path e h key))"
proof (induction listing arbitrary: h0)
  case (Cons o' listing)
  define h1 where "h1 = highest_of path e [o'] h0"
  have r: "highest_of path e listing h1 = r" using Cons.prems by (simp add: highest_of_def h1_def)
  note IH = Cons.IH[OF r]
  have h1: "h1 = (case Option.bind (relative_name path (om_key o')) parse_object_name of
      None \<Rightarrow> h0
    | Some (found, sequence) \<Rightarrow>
        if found = e then Some (case h0 of None \<Rightarrow> sequence | Some h \<Rightarrow> max h sequence) else h0)"
    by (simp add: h1_def highest_of_def)
  show ?case
  proof (cases "\<exists>seq. data_key path e seq (om_key o')")
    case True
    then obtain seq where seq: "data_key path e seq (om_key o')" by blast
    then have "h1 = Some (case h0 of None \<Rightarrow> seq | Some h \<Rightarrow> max h seq)" using h1 seq[folded data_key_parse] by simp
    moreover have "data_key path e seq' (om_key o') \<longleftrightarrow> seq' = seq" for seq' using seq data_key_unique by blast
    ultimately show ?thesis using IH seq
      by (auto split: option.splits simp: max_def split: if_splits dest: order_trans)
  next
    case False
    then have "h1 = h0" using h1 data_key_parse by (auto split: option.splits)
    then show ?thesis using IH False by auto
  qed
qed (simp add: highest_of_def)

definition attempt_ok where
  "attempt_ok ops used c path s e a \<longleftrightarrow>
     (case a of (seen, m, p) \<Rightarrow>
        mf_epoch m = e \<and> mc_decode c (mc_encode c m) = Inr m
        \<and> (case p of
             NotExists \<Rightarrow> seen = None
           | Match t \<Rightarrow> used s t \<and> (\<exists>old. seen = Some old \<and> mf_epoch old \<le> e
               \<and> (\<forall>b. object_at ops s (manifest_key path) = Some (b, t) \<longrightarrow> mc_decode c b = Inr old))))"

definition slot_ok where
  "slot_ok ops used c path s sl \<longleftrightarrow>
     pw_path (sl_writer sl) = path
     \<and> (\<forall>seq key. data_key path (pw_epoch (sl_writer sl)) seq key \<longrightarrow> object_at ops s key \<noteq> None \<longrightarrow> seq < pw_next_sequence (sl_writer sl))
     \<and> (\<forall>a. sl_attempt sl = Some a \<longrightarrow> attempt_ok ops used c path s (pw_epoch (sl_writer sl)) a)"

abbreviation slot_epochs :: "('s, 'tag) bucket_world \<Rightarrow> epoch list" where
  "slot_epochs W \<equiv> map (\<lambda>sl. pw_epoch (sl_writer sl)) (bw_slots W)"

text \<open>\<open>n\<close> is the number of steps for which tags and sequences still last.\<close>

definition bucket_ok where
  "bucket_ok ops used room c path n W \<longleftrightarrow>
     n < 2 ^ 64 \<and> room (bw_store W) n \<and> distinct (slot_epochs W)
     \<and> (\<forall>sl\<in>set (bw_slots W). slot_ok ops used c path (bw_store W) sl \<and> unat (pw_next_sequence (sl_writer sl)) + n < 2 ^ 64)
     \<and> (\<forall>e seq key. data_key path e seq key \<longrightarrow> object_at ops (bw_store W) key \<noteq> None \<longrightarrow> unat seq + n + 1 < 2 ^ 64)"

text \<open>What a step may do to the bucket: data objects stay as they are, and the manifest's epoch does not fall.\<close>

definition bucket_grows where
  "bucket_grows ops c path s s' \<longleftrightarrow>
     (\<forall>e seq key. data_key path e seq key \<longrightarrow> object_at ops s key \<noteq> None \<longrightarrow> object_at ops s' key = object_at ops s key)
     \<and> (\<forall>m. manifest_of ops c path s = Some m \<longrightarrow> (\<exists>m'. manifest_of ops c path s' = Some m' \<and> mf_epoch m \<le> mf_epoch m'))"

lemma bucket_grows_refl [simp]: "bucket_grows ops c path s s"
  by (simp add: bucket_grows_def)

lemma bucket_grows_trans:
  "bucket_grows ops c path s1 s2 \<Longrightarrow> bucket_grows ops c path s2 s3 \<Longrightarrow> bucket_grows ops c path s1 s3"
  unfolding bucket_grows_def by (intro conjI allI impI) (simp, (drule conjunct2)+, blast intro: order_trans)

lemma slot_ok_mono:
  assumes "slot_ok ops used c path s sl"
    and "\<And>t. used s t \<Longrightarrow> used s' t"
    and "\<And>b t. object_at ops s' (manifest_key path) = Some (b, t) \<Longrightarrow> used s t \<Longrightarrow> object_at ops s (manifest_key path) = Some (b, t)"
    and "\<And>seq key. data_key path (pw_epoch (sl_writer sl)) seq key \<Longrightarrow> object_at ops s' key \<noteq> None \<Longrightarrow> object_at ops s key \<noteq> None"
  shows "slot_ok ops used c path s' sl"
proof -
  have "attempt_ok ops used c path s (pw_epoch (sl_writer sl)) a \<Longrightarrow> attempt_ok ops used c path s' (pw_epoch (sl_writer sl)) a" for a
    using assms(2,3) by (auto simp: attempt_ok_def split: prod.splits precondition.splits)
  then show ?thesis using assms(1,4) unfolding slot_ok_def by metis
qed

lemma in_updated:
  "distinct (map f xs) \<Longrightarrow> i < length xs \<Longrightarrow> y \<in> set (xs[i := x]) \<Longrightarrow> y = x \<or> y \<in> set xs \<and> f y \<noteq> f (xs ! i)"
  by (auto simp: in_set_conv_nth nth_list_update distinct_conv_nth split: if_splits)

lemma map_updated: "i < length xs \<Longrightarrow> f x = f (xs ! i) \<Longrightarrow> map f (xs[i := x]) = map f xs"
  by (metis list_update_id map_update)

lemma bucket_update:
  assumes "bucket_ok ops used room c path (Suc n) W" and "i < length (bw_slots W)"
    and "pw_epoch (sl_writer sl) = pw_epoch (sl_writer (bw_slots W ! i))" and "room s' n"
    and "\<And>sl. sl \<in> set (bw_slots W) \<Longrightarrow> pw_epoch (sl_writer sl) \<noteq> pw_epoch (sl_writer (bw_slots W ! i)) \<Longrightarrow> slot_ok ops used c path s' sl"
    and "slot_ok ops used c path s' sl" and "unat (pw_next_sequence (sl_writer sl)) + n < 2 ^ 64"
    and "\<And>e seq key. data_key path e seq key \<Longrightarrow> object_at ops s' key \<noteq> None \<Longrightarrow> unat seq + n + 1 < 2 ^ 64"
  shows "bucket_ok ops used room c path n \<lparr>bw_store = s', bw_slots = (bw_slots W)[i := sl]\<rparr>"
proof -
  have dist: "distinct (slot_epochs W)" using assms(1) by (simp add: bucket_ok_def)
  have "map (\<lambda>sl. pw_epoch (sl_writer sl)) ((bw_slots W)[i := sl]) = slot_epochs W"
    using assms(2,3) by (simp add: map_updated)
  moreover have "slot_ok ops used c path s' sl' \<and> unat (pw_next_sequence (sl_writer sl')) + n < 2 ^ 64"
    if "sl' \<in> set ((bw_slots W)[i := sl])" for sl'
    using in_updated[OF dist assms(2) that] assms(1,5-7) by (force simp: bucket_ok_def)
  moreover have "n < 2 ^ 64" using assms(7) by simp
  ultimately show ?thesis using dist assms(4,8) by (simp add: bucket_ok_def)
qed

context object_store
begin

lemma load_manifest_none: "load_manifest ops c s path = Inr None \<longleftrightarrow> object_at ops s (manifest_key path) = None"
  using get_missing by (auto simp: load_manifest_def object_at_def bind_res_eq_Inr split: sum.splits object_error.splits prod.splits)

lemma load_manifest_some:
  "load_manifest ops c s path = Inr (Some (m, t)) \<longleftrightarrow>
     (\<exists>b. object_at ops s (manifest_key path) = Some (b, t) \<and> mc_decode c b = Inr m)"
  by (auto simp: load_manifest_def object_at_def bind_res_eq_Inr split: sum.splits object_error.splits prod.splits)

lemma commit_read_iff:
  assumes "codec_reads_back c"
  shows "commit_read ops c w plan s = Inr (m, p) \<longleftrightarrow>
    (\<exists>current. load_manifest ops c s (pw_path w) = Inr current
      \<and> (\<forall>old t. current = Some (old, t) \<longrightarrow> mf_epoch old \<le> pw_epoch w)
      \<and> m = (let pl = plan (map_option fst current) in
          \<lparr>mf_keyspace_id = pp_keyspace_id (pw_path w), mf_partition_id = pp_partition_id (pw_path w), mf_epoch = pw_epoch w,
           mf_committed_lamport = cp_committed_lamport pl, mf_range = cp_range pl, mf_segments = cp_segments pl\<rparr>)
      \<and> mc_decode c (mc_encode c m) = Inr m
      \<and> p = (case current of Some (_, etag) \<Rightarrow> Match etag | None \<Rightarrow> NotExists))"
proof -
  have same: "(\<exists>x. mc_decode c (mc_encode c m) = Inr x) \<longleftrightarrow> mc_decode c (mc_encode c m) = Inr m" for m
    using assms by (auto simp: codec_reads_back_def)
  show ?thesis
    by (cases "load_manifest ops c s (pw_path w)")
      (auto simp: commit_read_def bind_res_eq_Inr Let_def not_less same split: option.splits if_splits)
qed

lemma bucket_ok_less:
  assumes "bucket_ok ops used room c path (Suc n) W"
  shows "bucket_ok ops used room c path n W"
  using assms room_less[of "bw_store W" "Suc n" n] by (force simp: bucket_ok_def)

lemma bucket_put:
  assumes ok: "bucket_ok ops used room c path (Suc n) W" and i: "i < length (bw_slots W)"
    and key: "data_key path (pw_epoch (sl_writer (bw_slots W ! i))) (pw_next_sequence (sl_writer (bw_slots W ! i))) key"
    and W': "W' = \<lparr>bw_store = fst (so_put ops key d (bw_store W)),
      bw_slots = (bw_slots W)[i := (bw_slots W ! i)\<lparr>sl_writer := fst (take_sequence (sl_writer (bw_slots W ! i)))\<rparr>]\<rparr>"
  shows "bucket_ok ops used room c path n W' \<and> bucket_grows ops c path (bw_store W) (bw_store W')"
proof -
  define s where "s = bw_store W"
  define w where "w = sl_writer (bw_slots W ! i)"
  have room: "room s (Suc n)" and slots: "\<And>sl. sl \<in> set (bw_slots W) \<Longrightarrow> slot_ok ops used c path s sl \<and> unat (pw_next_sequence (sl_writer sl)) + Suc n < 2 ^ 64"
    and bound: "\<And>e seq k. data_key path e seq k \<Longrightarrow> object_at ops s k \<noteq> None \<Longrightarrow> unat seq + Suc n + 1 < 2 ^ 64"
    using ok by (auto simp: bucket_ok_def s_def)
  obtain s' t where put: "so_put ops key d s = (s', Inr t)" and at: "object_at ops s' = (object_at ops s)(key \<mapsto> (d, t))"
    and new: "\<not> used s t" "used s' = (\<lambda>u. used s u \<or> u = t)" and room': "room s' n"
    using put_law[OF room] by blast
  have mine: "slot_ok ops used c path s (bw_slots W ! i)" "unat (pw_next_sequence w) + Suc n < 2 ^ 64"
    using slots i by (simp_all add: w_def)
  have free: "object_at ops s key = None"
    using mine(1) key[folded w_def] unfolding slot_ok_def w_def[symmetric] by (metis less_irrefl)
  have mk: "object_at ops s' (manifest_key path) = object_at ops s (manifest_key path)"
    using at manifest_key_apart key by (metis fun_upd_other)
  have unwrapped: "pw_next_sequence w \<noteq> -1" using mine(2) by auto
  have others: "slot_ok ops used c path s' sl" if sl: "sl \<in> set (bw_slots W)" and e: "pw_epoch (sl_writer sl) \<noteq> pw_epoch w" for sl
  proof (rule slot_ok_mono[OF conjunct1[OF slots[OF sl]]])
    show "object_at ops s k \<noteq> None" if "data_key path (pw_epoch (sl_writer sl)) seq k" "object_at ops s' k \<noteq> None" for seq k
      using that e at data_key_unique key[folded w_def] by (metis fun_upd_other)
  qed (use new mk in auto)
  have "slot_ok ops used c path s' ((bw_slots W ! i)\<lparr>sl_writer := fst (take_sequence w)\<rparr>)"
  proof -
    have "attempt_ok ops used c path s (pw_epoch w) a \<Longrightarrow> attempt_ok ops used c path s' (pw_epoch w) a" for a
      using new mk by (auto simp: attempt_ok_def split: prod.splits precondition.splits)
    moreover have "seq < pw_next_sequence w + 1" if "data_key path (pw_epoch w) seq k" "object_at ops s' k \<noteq> None" for seq k
    proof (cases "k = key")
      case True
      then show ?thesis using that(1) key[folded w_def] data_key_unique unwrapped word_less_succ by metis
    next
      case False
      then have "seq < pw_next_sequence w" using that at mine(1) by (auto simp: slot_ok_def w_def)
      then show ?thesis using word_less_succ[OF unwrapped] by (rule less_trans)
    qed
    ultimately show ?thesis using mine(1) by (auto simp: slot_ok_def take_sequence_def w_def)
  qed
  moreover have "unat seq + n + 1 < 2 ^ 64" if "data_key path e seq k" "object_at ops s' k \<noteq> None" for e seq k
  proof (cases "k = key")
    case True
    then have "seq = pw_next_sequence w" using that(1) key[folded w_def] data_key_unique by blast
    then show ?thesis using mine(2) by simp
  next
    case False
    then show ?thesis using bound[OF that(1)] that(2) at by auto
  qed
  ultimately have "bucket_ok ops used room c path n W'"
    using bucket_update[OF ok i, of "(bw_slots W ! i)\<lparr>sl_writer := fst (take_sequence w)\<rparr>" s'] others room' mine(2)
    by (simp add: W' s_def[symmetric] put w_def[symmetric] take_sequence_def unat_succ[OF unwrapped])
  moreover have "bucket_grows ops c path s s'"
    using at free mk by (auto simp: bucket_grows_def manifest_of_def)
  ultimately show ?thesis by (simp add: W' put flip: s_def)
qed

lemma writer_open_ok:
  assumes room: "room s 0" and n: "n < 2 ^ 64"
    and bound: "\<And>seq key. data_key path e seq key \<Longrightarrow> object_at ops s key \<noteq> None \<Longrightarrow> unat seq + n + 1 < 2 ^ 64"
  shows "\<exists>w. writer_open ops s path e = Inr w \<and> pw_path w = path \<and> pw_epoch w = e
    \<and> (\<forall>seq key. data_key path e seq key \<longrightarrow> object_at ops s key \<noteq> None \<longrightarrow> seq < pw_next_sequence w)
    \<and> unat (pw_next_sequence w) + n < 2 ^ 64"
proof -
  obtain a b where a: "so_list ops s (segments_prefix path) = Inr a"
      "om_key ` set a = {key. starts_with (segments_prefix path) key \<and> object_at ops s key \<noteq> None}"
    and b: "so_list ops s (values_prefix path) = Inr b"
      "om_key ` set b = {key. starts_with (values_prefix path) key \<and> object_at ops s key \<noteq> None}"
    using list_law[OF room] by meson
  define h where "h = highest_of path e b (highest_of path e a None)"
  define w where "w = \<lparr>pw_path = path, pw_epoch = e, pw_next_sequence = (case h of None \<Rightarrow> 0 | Some h \<Rightarrow> h + 1)\<rparr>"
  note ha = highest_of_iff[of path e a None, OF refl] and hb = highest_of_iff[of path e b, OF h_def[symmetric]]
  have seen: "\<exists>h'. h = Some h' \<and> seq \<le> h'" if k: "data_key path e seq key" "object_at ops s key \<noteq> None" for seq key
  proof (cases "key \<in> om_key ` set b")
    case True
    then show ?thesis using hb k(1) by blast
  next
    case False
    then have "key \<in> om_key ` set a" using data_key_listed[OF k(1)] k(2) a(2) b(2) by blast
    then obtain h1 where "highest_of path e a None = Some h1" "seq \<le> h1" using ha k(1) by blast
    then show ?thesis using hb order_trans by metis
  qed
  have from_key: "\<exists>key. data_key path e h' key \<and> object_at ops s key \<noteq> None" if "h = Some h'" for h'
  proof -
    have "highest_of path e a None = Some h' \<or> (\<exists>key\<in>om_key ` set b. data_key path e h' key)" using that hb by blast
    then have "(\<exists>key\<in>om_key ` set a. data_key path e h' key) \<or> (\<exists>key\<in>om_key ` set b. data_key path e h' key)"
      using ha by auto
    then show ?thesis unfolding a(2) b(2) by blast
  qed
  have some: "h' \<noteq> -1 \<and> unat (h' + 1) + n < 2 ^ 64" if "h = Some h'" for h'
  proof -
    have "unat h' + n + 1 < 2 ^ 64" using from_key[OF that] bound by blast
    moreover from this have "h' \<noteq> -1" by auto
    ultimately show ?thesis by (simp add: unat_succ)
  qed
  have "writer_open ops s path e = Inr w" by (simp add: writer_open_def a(1) b(1) w_def h_def)
  moreover have "seq < pw_next_sequence w" if "data_key path e seq key" "object_at ops s key \<noteq> None" for seq key
    using seen[OF that] some by (auto simp: w_def word_less_succ_iff)
  moreover have "unat (pw_next_sequence w) + n < 2 ^ 64" using some n by (auto simp: w_def split: option.splits)
  ultimately show ?thesis by (intro exI[of _ w]) (auto simp: w_def)
qed

lemma bucket_open:
  assumes ok: "bucket_ok ops used room c path (Suc n) W"
  obtains w where "writer_open ops (bw_store W) path e = Inr w" "pw_epoch w = e"
    and "slot_ok ops used c path (bw_store W) (fresh_slot w)" "unat (pw_next_sequence w) + n < 2 ^ 64"
proof -
  have "room (bw_store W) 0" "n < 2 ^ 64" using ok room_less[of "bw_store W" "Suc n" 0] by (auto simp: bucket_ok_def)
  moreover have "unat seq + n + 1 < 2 ^ 64" if "data_key path e seq key" "object_at ops (bw_store W) key \<noteq> None" for seq key
    using ok that by (fastforce simp: bucket_ok_def)
  ultimately have "\<exists>w. writer_open ops (bw_store W) path e = Inr w \<and> pw_path w = path \<and> pw_epoch w = e
    \<and> (\<forall>seq key. data_key path e seq key \<longrightarrow> object_at ops (bw_store W) key \<noteq> None \<longrightarrow> seq < pw_next_sequence w)
    \<and> unat (pw_next_sequence w) + n < 2 ^ 64"
    by (rule writer_open_ok)
  then show thesis using that by (auto simp: slot_ok_def fresh_slot_def)
qed

lemma bucket_step_open:
  assumes ok: "bucket_ok ops used room c path (Suc n) W" and e: "e \<notin> set (slot_epochs W)"
  shows "bucket_ok ops used room c path n (bucket_step ops c crc path (Open e) W)
    \<and> slot_epochs (bucket_step ops c crc path (Open e) W) = slot_epochs W @ [e] \<and> bw_store (bucket_step ops c crc path (Open e) W) = bw_store W"
proof -
  obtain w where w: "writer_open ops (bw_store W) path e = Inr w" "pw_epoch w = e"
    "slot_ok ops used c path (bw_store W) (fresh_slot w)" "unat (pw_next_sequence w) + n < 2 ^ 64"
    by (rule bucket_open[OF ok])
  then show ?thesis using bucket_ok_less[OF ok] e by (auto simp: bucket_ok_def fresh_slot_def)
qed

lemma bucket_step_restart:
  assumes ok: "bucket_ok ops used room c path (Suc n) W" and i: "i < length (bw_slots W)"
  shows "bucket_ok ops used room c path n (bucket_step ops c crc path (Restart i) W)
    \<and> bw_store (bucket_step ops c crc path (Restart i) W) = bw_store W"
proof -
  obtain w where w: "writer_open ops (bw_store W) path (pw_epoch (sl_writer (bw_slots W ! i))) = Inr w"
    "pw_epoch w = pw_epoch (sl_writer (bw_slots W ! i))"
    "slot_ok ops used c path (bw_store W) (fresh_slot w)" "unat (pw_next_sequence w) + n < 2 ^ 64"
    by (rule bucket_open[OF ok])
  have "bucket_ok ops used room c path n \<lparr>bw_store = bw_store W, bw_slots = (bw_slots W)[i := fresh_slot w]\<rparr>"
    using bucket_update[OF ok i, of "fresh_slot w" "bw_store W"] w bucket_ok_less[OF ok]
    by (auto simp: fresh_slot_def bucket_ok_def)
  then show ?thesis using w i by (cases W) simp
qed

lemma bucket_step_read:
  assumes ok: "bucket_ok ops used room c path (Suc n) W" and i: "i < length (bw_slots W)" and c: "codec_reads_back c"
  shows "bucket_ok ops used room c path n (bucket_step ops c crc path (ReadManifest i plan) W)
    \<and> bw_store (bucket_step ops c crc path (ReadManifest i plan) W) = bw_store W"
proof -
  define s where "s = bw_store W"
  define w where "w = sl_writer (bw_slots W ! i)"
  define a where "a = (case (load_manifest ops c s (pw_path w), commit_read ops c w plan s) of
    (Inr current, Inr mp) \<Rightarrow> Some (map_option fst current, mp) | _ \<Rightarrow> None)"
  have room: "room s 0" using ok room_less[of s "Suc n" 0] by (simp add: bucket_ok_def s_def)
  have mine: "slot_ok ops used c path s (bw_slots W ! i)" "unat (pw_next_sequence w) + Suc n < 2 ^ 64"
    using ok i by (simp_all add: bucket_ok_def s_def w_def)
  have path: "pw_path w = path" using mine(1) by (simp add: slot_ok_def w_def)
  have "attempt_ok ops used c path s (pw_epoch w) x" if x: "a = Some x" for x
  proof -
    obtain current m p where "load_manifest ops c s path = Inr current" and r: "commit_read ops c w plan s = Inr (m, p)"
      and x': "x = (map_option fst current, m, p)"
      using x path by (auto simp: a_def split: sum.splits)
    moreover from r this(1) path have "mf_epoch m = pw_epoch w" "mc_decode c (mc_encode c m) = Inr m"
      "p = (case current of Some (_, etag) \<Rightarrow> Match etag | None \<Rightarrow> NotExists)"
      "\<forall>old t. current = Some (old, t) \<longrightarrow> mf_epoch old \<le> pw_epoch w"
      using c by (auto simp: commit_read_iff Let_def)
    ultimately show ?thesis
      using get_used[OF room] by (cases current) (auto simp: attempt_ok_def load_manifest_some)
  qed
  then have "slot_ok ops used c path s ((bw_slots W ! i)\<lparr>sl_attempt := a\<rparr>)" using mine(1) by (auto simp: slot_ok_def w_def)
  then have "bucket_ok ops used room c path n \<lparr>bw_store = s, bw_slots = (bw_slots W)[i := (bw_slots W ! i)\<lparr>sl_attempt := a\<rparr>]\<rparr>"
    using mine(2) bucket_ok_less[OF ok] by (intro bucket_update[OF ok i]) (auto simp: bucket_ok_def s_def w_def)
  then show ?thesis using i by (cases W) (simp add: Let_def a_def s_def w_def)
qed

text \<open>The conditional write of an attempt replaces exactly the manifest the attempt read, or does nothing.\<close>

lemma swap_replaces:
  assumes room: "room s (Suc n)" and a: "attempt_ok ops used c path s (pw_epoch w) (seen, m, p)" and w: "pw_path w = path"
    and swap: "commit_swap ops c w (m, p) s = (s', r)"
  shows "r = Inr False \<and> s' = s \<or>
    r = Inr True \<and> manifest_of ops c path s = seen \<and> manifest_of ops c path s' = Some m
    \<and> (object_at ops s (manifest_key path) = None \<longleftrightarrow> seen = None)
    \<and> (\<exists>t. object_at ops s' = (object_at ops s)(manifest_key path \<mapsto> (mc_encode c m, t)) \<and> \<not> used s t
        \<and> used s' = (\<lambda>u. used s u \<or> u = t)) \<and> room s' n"
proof (cases "precondition_holds p (map_option snd (object_at ops s (manifest_key path)))")
  case False
  then show ?thesis using put_if_fails[OF False] swap w by (auto simp: commit_swap_def)
next
  case True
  obtain s1 t where put: "so_put_if ops (manifest_key path) (mc_encode c m) p s = (s1, Inr t)"
    and at1: "object_at ops s1 = (object_at ops s)(manifest_key path \<mapsto> (mc_encode c m, t))"
    and rest1: "\<not> used s t" "used s1 = (\<lambda>u. used s u \<or> u = t)" "room s1 n"
    using put_if_holds[OF room True] by blast
  have "s1 = s'" and r: "r = Inr True" using put swap w by (auto simp: commit_swap_def)
  note at = at1[unfolded this(1)] and rest = rest1[unfolded this(1)]
  have "manifest_of ops c path s = seen \<and> (object_at ops s (manifest_key path) = None \<longleftrightarrow> seen = None)"
    using True a by (cases p) (auto simp: manifest_of_def attempt_ok_def)
  moreover have "manifest_of ops c path s' = Some m" using a at by (simp add: manifest_of_def attempt_ok_def)
  ultimately show ?thesis using r at rest by blast
qed

lemma bucket_step_swap:
  assumes ok: "bucket_ok ops used room c path (Suc n) W" and i: "i < length (bw_slots W)"
    and a: "sl_attempt (bw_slots W ! i) = Some (seen, m, p)"
  shows "bucket_ok ops used room c path n (bucket_step ops c crc path (SwapManifest i) W)
    \<and> bucket_grows ops c path (bw_store W) (bw_store (bucket_step ops c crc path (SwapManifest i) W))"
proof -
  define s where "s = bw_store W"
  define w where "w = sl_writer (bw_slots W ! i)"
  obtain s' r where swap: "commit_swap ops c w (m, p) s = (s', r)" by fastforce
  have room: "room s (Suc n)" using ok by (simp add: bucket_ok_def s_def)
  have mine: "slot_ok ops used c path s (bw_slots W ! i)" "unat (pw_next_sequence w) + Suc n < 2 ^ 64"
    using ok i by (simp_all add: bucket_ok_def s_def w_def)
  then have at_ok: "attempt_ok ops used c path s (pw_epoch w) (seen, m, p)" and path: "pw_path w = path"
    using a by (auto simp: slot_ok_def w_def)
  have step: "bucket_step ops c crc path (SwapManifest i) W
    = \<lparr>bw_store = s', bw_slots = (bw_slots W)[i := (bw_slots W ! i)\<lparr>sl_attempt := None\<rparr>]\<rparr>"
    using i a swap by (simp add: s_def w_def)
  consider "s' = s" | t where "object_at ops s' = (object_at ops s)(manifest_key path \<mapsto> (mc_encode c m, t))"
      "\<not> used s t" "used s' = (\<lambda>u. used s u \<or> u = t)" "room s' n" "manifest_of ops c path s = seen" "manifest_of ops c path s' = Some m"
    using swap_replaces[OF room at_ok path swap] by blast
  then show ?thesis
  proof cases
    case 1
    have "slot_ok ops used c path s ((bw_slots W ! i)\<lparr>sl_attempt := None\<rparr>)" using mine(1) by (simp add: slot_ok_def)
    then have "bucket_ok ops used room c path n (bucket_step ops c crc path (SwapManifest i) W)"
      unfolding step 1 using mine(2) bucket_ok_less[OF ok] by (intro bucket_update[OF ok i]) (auto simp: bucket_ok_def s_def w_def)
    then show ?thesis using step 1 by (simp add: s_def)
  next
    case 2
    have "slot_ok ops used c path s' sl" if "slot_ok ops used c path s sl" for sl
      using that
    proof (rule slot_ok_mono)
      show "object_at ops s key \<noteq> None" if "data_key path (pw_epoch (sl_writer sl)) seq key" "object_at ops s' key \<noteq> None" for seq key
        using that 2(1) manifest_key_apart by (metis fun_upd_other)
    qed (use 2 in auto)
    moreover have "slot_ok ops used c path s ((bw_slots W ! i)\<lparr>sl_attempt := None\<rparr>)" using mine(1) by (simp add: slot_ok_def)
    moreover have data: "data_key path e seq key \<Longrightarrow> object_at ops s' key = object_at ops s key" for e seq key
      using 2(1) manifest_key_apart by (metis fun_upd_other)
    ultimately have "bucket_ok ops used room c path n (bucket_step ops c crc path (SwapManifest i) W)"
      unfolding step using mine(2) bucket_ok_less[OF ok] 2(4)
      by (intro bucket_update[OF ok i]) (auto simp: bucket_ok_def s_def w_def)
    moreover have "mf_epoch old \<le> mf_epoch m" if "seen = Some old" for old
      using at_ok that by (auto simp: attempt_ok_def split: precondition.splits)
    ultimately show ?thesis using data 2(5,6) step by (auto simp: bucket_grows_def s_def)
  qed
qed

lemma bucket_step_epochs:
  assumes ok: "bucket_ok ops used room c path (Suc n) W" and "\<And>e. ev = Open e \<Longrightarrow> e \<notin> set (slot_epochs W)"
  shows "slot_epochs (bucket_step ops c crc path ev W) = slot_epochs W @ opened [ev]"
proof (cases ev)
  case (Open e)
  then show ?thesis using bucket_step_open[OF ok, of e crc] assms(2) by (simp add: opened_def)
next
  case (Restart i)
  obtain w where "writer_open ops (bw_store W) path (pw_epoch (sl_writer (bw_slots W ! i))) = Inr w"
    "pw_epoch w = pw_epoch (sl_writer (bw_slots W ! i))"
    by (rule bucket_open[OF ok])
  then show ?thesis using Restart by (simp add: opened_def fresh_slot_def map_updated)
qed (auto simp: opened_def slot_put_def put_segment_def put_value_def take_sequence_def Let_def map_updated
      split: prod.splits sum.splits option.splits)

lemma bucket_step_ok:
  assumes c: "codec_reads_back c" and ok: "bucket_ok ops used room c path (Suc n) W"
    and fresh: "\<And>e. ev = Open e \<Longrightarrow> e \<notin> set (slot_epochs W)"
  shows "bucket_ok ops used room c path n (bucket_step ops c crc path ev W)
    \<and> bucket_grows ops c path (bw_store W) (bw_store (bucket_step ops c crc path ev W))"
proof -
  have same: "bucket_ok ops used room c path n W" by (rule bucket_ok_less[OF ok])
  show ?thesis
  proof (cases ev)
    case (Open e)
    then show ?thesis using bucket_step_open[OF ok, of e crc] fresh by simp
  next
    case (Restart i)
    then show ?thesis using bucket_step_restart[OF ok, of i crc] same by (cases "i < length (bw_slots W)") simp_all
  next
    case (PutSegment i b)
    show ?thesis
    proof (cases "i < length (bw_slots W)")
      case True
      let ?w = "sl_writer (bw_slots W ! i)"
      have "pw_path ?w = path" using ok True by (simp add: bucket_ok_def slot_ok_def)
      then have "bucket_step ops c crc path ev W =
        \<lparr>bw_store = fst (so_put ops (object_key path (segment_name (pw_epoch ?w) (pw_next_sequence ?w))) (bs_bytes b) (bw_store W)),
         bw_slots = (bw_slots W)[i := (bw_slots W ! i)\<lparr>sl_writer := fst (take_sequence ?w)\<rparr>]\<rparr>"
        using PutSegment True
        by (auto simp: slot_put_def put_segment_def put_object_def take_sequence_def Let_def split: prod.splits sum.splits)
      then show ?thesis by (rule bucket_put[OF ok True data_keys(1)])
    qed (use PutSegment same in simp)
  next
    case (PutValue i v)
    show ?thesis
    proof (cases "i < length (bw_slots W)")
      case True
      let ?w = "sl_writer (bw_slots W ! i)"
      have "pw_path ?w = path" using ok True by (simp add: bucket_ok_def slot_ok_def)
      then have "bucket_step ops c crc path ev W =
        \<lparr>bw_store = fst (so_put ops (object_key path (value_name (pw_epoch ?w) (pw_next_sequence ?w))) v (bw_store W)),
         bw_slots = (bw_slots W)[i := (bw_slots W ! i)\<lparr>sl_writer := fst (take_sequence ?w)\<rparr>]\<rparr>"
        using PutValue True
        by (auto simp: slot_put_def put_value_def put_object_def take_sequence_def Let_def split: prod.splits sum.splits)
      then show ?thesis by (rule bucket_put[OF ok True data_keys(2)])
    qed (use PutValue same in simp)
  next
    case (ReadManifest i plan)
    then show ?thesis using bucket_step_read[OF ok _ c, of i crc plan] same by (cases "i < length (bw_slots W)") simp_all
  next
    case (SwapManifest i)
    then show ?thesis using bucket_step_swap[OF ok, of i] same
      by (cases "i < length (bw_slots W)"; cases "sl_attempt (bw_slots W ! i)") auto
  qed
qed

lemma bucket_run_ok:
  "codec_reads_back c \<Longrightarrow> bucket_ok ops used room c path (length evs + n) W \<Longrightarrow> distinct (slot_epochs W @ opened evs) \<Longrightarrow>
   bucket_ok ops used room c path n (bucket_run ops c crc path evs W)
   \<and> slot_epochs (bucket_run ops c crc path evs W) = slot_epochs W @ opened evs
   \<and> bucket_grows ops c path (bw_store W) (bw_store (bucket_run ops c crc path evs W))"
proof (induction evs arbitrary: W)
  case (Cons ev evs)
  then have "bucket_ok ops used room c path (Suc (length evs + n)) W" by simp
  moreover have fresh: "e \<notin> set (slot_epochs W)" if "ev = Open e" for e
    using Cons.prems(3) that by (simp add: opened_def)
  ultimately have step: "bucket_ok ops used room c path (length evs + n) (bucket_step ops c crc path ev W)"
    "bucket_grows ops c path (bw_store W) (bw_store (bucket_step ops c crc path ev W))"
    "slot_epochs (bucket_step ops c crc path ev W) = slot_epochs W @ opened [ev]"
    using bucket_step_ok[OF Cons.prems(1)] bucket_step_epochs by blast+
  moreover have all: "opened (ev # evs) = opened [ev] @ opened evs" by (simp add: opened_def)
  ultimately have "distinct (slot_epochs (bucket_step ops c crc path ev W) @ opened evs)"
    using Cons.prems(3) by (simp del: map_eq_conv)
  from Cons.IH[OF Cons.prems(1) step(1) this] bucket_grows_trans[OF step(2)] step(3) all
  show ?case by (simp add: bucket_run_def)
qed (simp add: bucket_run_def opened_def)

lemma commit_read_deposed:
  assumes "manifest_of ops c (pw_path w) s = Some old" and "pw_epoch w < mf_epoch old"
  shows "commit_read ops c w plan s = Inl (Deposed (pw_epoch w) (mf_epoch old))"
proof -
  obtain t where "load_manifest ops c s (pw_path w) = Inr (Some (old, t))"
    using assms(1) by (auto simp: manifest_of_iff load_manifest_some)
  then show ?thesis using assms(2) by (simp add: commit_read_def)
qed

lemma commit_alone:
  assumes room: "room s (Suc n)" and c: "codec_reads_back c"
    and read: "commit_read ops c w plan s = Inr (m, p)"
  shows "\<exists>s'. commit ops c w plan (\<lambda>_ s. s) s = (s', Inr m) \<and> manifest_of ops c (pw_path w) s' = Some m
    \<and> (\<forall>key. key \<noteq> manifest_key (pw_path w) \<longrightarrow> object_at ops s' key = object_at ops s key) \<and> room s' n"
proof -
  obtain current where "load_manifest ops c s (pw_path w) = Inr current" and m: "mc_decode c (mc_encode c m) = Inr m"
    and p: "p = (case current of Some (_, etag) \<Rightarrow> Match etag | None \<Rightarrow> NotExists)"
    using read c by (auto simp: commit_read_iff)
  then have "precondition_holds p (map_option snd (object_at ops s (manifest_key (pw_path w))))"
    by (cases current) (auto simp: load_manifest_none load_manifest_some)
  then obtain s' t where "so_put_if ops (manifest_key (pw_path w)) (mc_encode c m) p s = (s', Inr t)"
    and at: "object_at ops s' = (object_at ops s)(manifest_key (pw_path w) \<mapsto> (mc_encode c m, t))" "room s' n"
    using put_if_holds[OF room] by blast
  then have "commit ops c w plan (\<lambda>_ s. s) s = (s', Inr m)"
    using read by (simp add: commit_def max_commit_attempts_def numeral_eq_Suc commit_swap_def)
  then show ?thesis using m at by (simp add: manifest_of_def)
qed

end

section \<open>What the bucket guarantees\<close>

definition bucket_new :: "'s \<Rightarrow> ('s, 'tag) bucket_world" where
  "bucket_new s = \<lparr>bw_store = s, bw_slots = []\<rparr>"

definition sequences_last where
  "sequences_last ops path n s \<longleftrightarrow> (\<forall>e seq key. data_key path e seq key \<and> object_at ops s key \<noteq> None \<longrightarrow> unat seq + n + 1 < 2 ^ 64)"

lemma bucket_new_ok:
  "room s n \<Longrightarrow> n < 2 ^ 64 \<Longrightarrow> sequences_last ops path n s \<Longrightarrow> bucket_ok ops used room c path n (bucket_new s)"
  by (simp add: bucket_ok_def bucket_new_def sequences_last_def) blast

lemma mem_run_ok:
  assumes "codec_reads_back c" and "ms_room s (length evs + n)" and "sequences_last memory_ops path (length evs + n) s"
    and "distinct (opened evs)"
  shows "bucket_ok memory_ops ms_used ms_room c path n (bucket_run memory_ops c crc path evs (bucket_new s))"
    and "bucket_grows memory_ops c path s (bw_store (bucket_run memory_ops c crc path evs (bucket_new s)))"
proof -
  have "length evs + n < 2 ^ 64" using assms(2) by (simp add: ms_room_def)
  then have "bucket_ok memory_ops ms_used ms_room c path (length evs + n) (bucket_new s)"
    by (intro bucket_new_ok assms)
  from mem.bucket_run_ok[OF assms(1) this] assms(4)
  show "bucket_ok memory_ops ms_used ms_room c path n (bucket_run memory_ops c crc path evs (bucket_new s))"
    and "bucket_grows memory_ops c path s (bw_store (bucket_run memory_ops c crc path evs (bucket_new s)))"
    by (auto simp: bucket_new_def)
qed

lemma opened_append: "opened (as @ bs) = opened as @ opened bs"
  by (simp add: opened_def)

lemma sequences_last_less: "sequences_last ops path n s \<Longrightarrow> m \<le> n \<Longrightarrow> sequences_last ops path m s"
  by (fastforce simp: sequences_last_def)

text \<open>
  C34. Whatever order writers of different epochs open, restart, write objects and race their commits in, between
  any two points of the history no segment or value object is ever overwritten, and the manifest, once
  published, is always readable with an epoch that never falls. The hypotheses ask that no two writers were
  granted the same epoch, that the codec reads back what it wrote, and that the 64-bit tags and sequences of the
  store last for the history.
\<close>

theorem bucket_history_is_safe:
  assumes "codec_reads_back c" and "ms_room s (length (evs @ later))" and "sequences_last memory_ops path (length (evs @ later)) s"
    and "distinct (opened (evs @ later))"
    and "W = bucket_run memory_ops c crc path evs (bucket_new s)" and "W' = bucket_run memory_ops c crc path later W"
  shows "(\<forall>e seq key. data_key path e seq key \<and> object_at memory_ops (bw_store W) key \<noteq> None
            \<longrightarrow> object_at memory_ops (bw_store W') key = object_at memory_ops (bw_store W) key)
       \<and> (\<forall>m. manifest_of memory_ops c path (bw_store W) = Some m
            \<longrightarrow> (\<exists>m'. manifest_of memory_ops c path (bw_store W') = Some m' \<and> mf_epoch m \<le> mf_epoch m'))"
proof -
  have "bucket_ok memory_ops ms_used ms_room c path (length (evs @ later)) (bucket_new s)"
    using assms(2) by (intro bucket_new_ok assms) (simp add: ms_room_def)
  then have "bucket_ok memory_ops ms_used ms_room c path (length later) W"
    and "slot_epochs W = opened evs"
    using mem.bucket_run_ok[OF assms(1), of path evs "length later" "bucket_new s" crc] assms(4,5)
    by (simp_all add: opened_append bucket_new_def)
  then have "bucket_grows memory_ops c path (bw_store W) (bw_store W')"
    using mem.bucket_run_ok[OF assms(1), of path later 0 W crc] assms(4,6) by (simp add: opened_append)
  then show ?thesis by (auto simp: bucket_grows_def)
qed

text \<open>A codec for manifests that hold no segment, enough to run small histories.\<close>

definition sample_encode :: "manifest \<Rightarrow> bytes" where
  "sample_encode m =
     (if mf_segments m = [] \<and> mf_range m = unbounded
      then put_u64 (mf_keyspace_id m) @ put_u64 (mf_partition_id m) @ put_u64 (mf_epoch m) @ put_u64 (mf_committed_lamport m)
      else [])"

definition sample_decode :: "bytes \<Rightarrow> format_error + manifest" where
  "sample_decode b =
     (if length b = 32
      then Inr \<lparr>mf_keyspace_id = word_of_nat (le_value (take 8 b)), mf_partition_id = word_of_nat (le_value (take 8 (drop 8 b))),
                mf_epoch = word_of_nat (le_value (take 8 (drop 16 b))), mf_committed_lamport = word_of_nat (le_value (take 8 (drop 24 b))),
                mf_range = unbounded, mf_segments = []\<rparr>
      else Inl (manifest_malformed ''length''))"

definition sample_codec :: manifest_codec where
  "sample_codec = \<lparr>mc_encode = sample_encode, mc_decode = sample_decode\<rparr>"

lemma sample_codec_reads_back: "codec_reads_back sample_codec"
  by (auto simp: codec_reads_back_def sample_codec_def sample_decode_def sample_encode_def u64_of_le split: if_splits)

definition sample_path :: partition_path where "sample_path = path_new [] 1 7"

definition sample_plan :: "manifest option \<Rightarrow> commit_plan" where
  "sample_plan current =
     \<lparr>cp_committed_lamport = (case current of None \<Rightarrow> 1 | Some m \<Rightarrow> mf_committed_lamport m + 1), cp_range = unbounded, cp_segments = []\<rparr>"

lemma sample_store_ok: "n < 2 ^ 64 \<Longrightarrow> ms_room (ms_new None) n \<and> sequences_last memory_ops path n (ms_new None)"
  by (simp add: ms_room_def ms_new_def sequences_last_def ms_object_at)

theorem bucket_history_is_safe_witness:
  "let W = bucket_run memory_ops sample_codec (\<lambda>_. 0) sample_path
         [Open 3, ReadManifest 0 sample_plan, PutValue 0 [1], Open 4, ReadManifest 1 sample_plan, SwapManifest 1] (bucket_new (ms_new None));
       W' = bucket_run memory_ops sample_codec (\<lambda>_. 0) sample_path [SwapManifest 0, PutValue 1 [2]] W
   in (\<forall>e seq key. data_key sample_path e seq key \<and> object_at memory_ops (bw_store W) key \<noteq> None
            \<longrightarrow> object_at memory_ops (bw_store W') key = object_at memory_ops (bw_store W) key)
       \<and> (\<forall>m. manifest_of memory_ops sample_codec sample_path (bw_store W) = Some m
            \<longrightarrow> (\<exists>m'. manifest_of memory_ops sample_codec sample_path (bw_store W') = Some m' \<and> mf_epoch m \<le> mf_epoch m'))"
  unfolding Let_def
  by (rule bucket_history_is_safe[where s = "ms_new None" and crc = "\<lambda>_. 0", OF sample_codec_reads_back _ _ _ refl refl])
    (simp_all add: sample_store_ok opened_def)

text \<open>
  C35. The conditional write of a commit is a compare-and-swap on manifests. At any point of such a history, a
  writer's pending attempt either changes nothing, or replaces exactly the manifest its plan was computed from
  by the manifest it planned, which carries the writer's own epoch, no lower than the replaced one's.
\<close>

theorem swap_replaces_what_was_read:
  assumes "codec_reads_back c" and "ms_room s (Suc (length evs))" and "sequences_last memory_ops path (Suc (length evs)) s"
    and "distinct (opened evs)"
    and "W = bucket_run memory_ops c crc path evs (bucket_new s)" and "i < length (bw_slots W)"
    and "sl_attempt (bw_slots W ! i) = Some (seen, m, p)"
    and "commit_swap memory_ops c (sl_writer (bw_slots W ! i)) (m, p) (bw_store W) = (s', r)"
  shows "r = Inr False \<and> s' = bw_store W \<or>
    r = Inr True \<and> manifest_of memory_ops c path (bw_store W) = seen \<and> manifest_of memory_ops c path s' = Some m
    \<and> mf_epoch m = pw_epoch (sl_writer (bw_slots W ! i)) \<and> (\<forall>old. seen = Some old \<longrightarrow> mf_epoch old \<le> mf_epoch m)
    \<and> (\<forall>key. key \<noteq> manifest_key path \<longrightarrow> object_at memory_ops s' key = object_at memory_ops (bw_store W) key)"
proof -
  have ok: "bucket_ok memory_ops ms_used ms_room c path (Suc 0) W"
    using mem_run_ok(1)[of c s evs "Suc 0" path crc] assms(1-5) by simp
  then have slot: "slot_ok memory_ops ms_used c path (bw_store W) (bw_slots W ! i)" and room: "ms_room (bw_store W) (Suc 0)"
    using assms(6) by (auto simp: bucket_ok_def)
  then have a: "attempt_ok memory_ops ms_used c path (bw_store W) (pw_epoch (sl_writer (bw_slots W ! i))) (seen, m, p)"
    and path: "pw_path (sl_writer (bw_slots W ! i)) = path"
    using assms(7) by (auto simp: slot_ok_def)
  have "mf_epoch m = pw_epoch (sl_writer (bw_slots W ! i)) \<and> (\<forall>old. seen = Some old \<longrightarrow> mf_epoch old \<le> mf_epoch m)"
    using a by (auto simp: attempt_ok_def split: precondition.splits)
  then show ?thesis using mem.swap_replaces[OF room a path assms(8)] by fastforce
qed

theorem swap_replaces_what_was_read_witness:
  "let w = \<lparr>pw_path = sample_path, pw_epoch = 3, pw_next_sequence = 0\<rparr>;
       W = bucket_run memory_ops sample_codec (\<lambda>_. 0) sample_path [Open 3, ReadManifest 0 sample_plan] (bucket_new (ms_new None));
       m = \<lparr>mf_keyspace_id = 1, mf_partition_id = 7, mf_epoch = 3, mf_committed_lamport = 1, mf_range = unbounded, mf_segments = []\<rparr>
   in sl_attempt (bw_slots W ! 0) = Some (None, m, NotExists)
      \<and> manifest_of memory_ops sample_codec sample_path
          (fst (commit_swap memory_ops sample_codec (sl_writer (bw_slots W ! 0)) (m, NotExists) (bw_store W))) = Some m"
proof -
  let ?w = "\<lparr>pw_path = sample_path, pw_epoch = 3, pw_next_sequence = 0\<rparr>"
  let ?m = "\<lparr>mf_keyspace_id = 1, mf_partition_id = 7, mf_epoch = 3, mf_committed_lamport = 1, mf_range = unbounded, mf_segments = []\<rparr>"
  define W where "W = bucket_run memory_ops sample_codec (\<lambda>_. 0) sample_path [Open 3, ReadManifest 0 sample_plan] (bucket_new (ms_new None))"
  have "writer_open memory_ops (ms_new None) sample_path 3 = Inr ?w"
    by (simp add: writer_open_def ms_list_def ms_new_def highest_of_def)
  moreover have load: "load_manifest memory_ops sample_codec (ms_new None) sample_path = Inr None"
    by (simp add: load_manifest_def ms_get_def ms_new_def)
  moreover have "commit_read memory_ops sample_codec ?w sample_plan (ms_new None) = Inr (?m, NotExists)"
    using load by (simp add: commit_read_def sample_plan_def sample_codec_def sample_encode_def sample_decode_def
        sample_path_def path_new_def Let_def)
  ultimately have W: "W = \<lparr>bw_store = ms_new None, bw_slots = [\<lparr>sl_writer = ?w, sl_attempt = Some (None, ?m, NotExists)\<rparr>]\<rparr>"
    by (simp add: W_def bucket_run_def bucket_new_def fresh_slot_def)
  obtain s' r where swap: "commit_swap memory_ops sample_codec (sl_writer (bw_slots W ! 0)) (?m, NotExists) (bw_store W) = (s', r)"
    by fastforce
  moreover have "r \<noteq> Inr False"
    using swap by (auto simp: W commit_swap_def ms_put_if_def ms_new_def ms_tag_def Let_def)
  ultimately have "manifest_of memory_ops sample_codec sample_path s' = Some ?m"
    using swap_replaces_what_was_read[OF sample_codec_reads_back _ _ _ W_def _ _ swap, where seen = None]
    by (simp add: W sample_store_ok opened_def)
  then show ?thesis using swap by (simp add: W_def[symmetric] Let_def) (simp add: W)
qed



end
