(* ===== verification/Seg_Compact.thy ===== *)
theory Seg_Compact
  imports Seg_Manifest "HOL-Library.Multiset"
begin

text \<open>
  \<open>orbita-format/src/compact.rs\<close>: merging segments and what a merge may throw away, measured against what a reader
  of all the segments of a partition sees.
\<close>

section \<open>Operations\<close>

text \<open>The grouping loop of \<open>winners\<close>: \<open>grouped.entry(key).or_default().push(record)\<close>.\<close>

definition group_record :: "segment_record \<Rightarrow> (bytes, segment_record list) btree \<Rightarrow> (bytes, segment_record list) btree" where
  "group_record r grouped =
     bt_insert (sr_key r) ((case bt_get grouped (sr_key r) of None \<Rightarrow> [] | Some rs \<Rightarrow> rs) @ [r]) grouped"

definition group_records :: "segment_record list list \<Rightarrow> (bytes, segment_record list) btree" where
  "group_records inputs = fold (fold group_record) inputs []"

text \<open>\<open>candidates.windows(2).find(|p| p[0].lamport == p[1].lamport)\<close>.\<close>

fun equal_neighbours :: "segment_record list \<Rightarrow> segment_record option" where
  "equal_neighbours (a # b # rs) = (if sr_lamport a = sr_lamport b then Some a else equal_neighbours (b # rs))"
| "equal_neighbours _ = None"

definition group_winner :: "segment_record list \<Rightarrow> format_error + segment_record" where
  "group_winner cands =
     (let ordered = sort_key sr_lamport cands
      in case equal_neighbours ordered of
           Some a \<Rightarrow> Inl (Corrupt (TwoRecordsAt (sr_lamport a)))
         | None \<Rightarrow> Inr (List.last ordered))"

fun group_winners :: "(bytes \<times> segment_record list) list \<Rightarrow> format_error + segment_record list" where
  "group_winners [] = Inr []"
| "group_winners ((key, cands) # groups) =
     bind_res (group_winner cands) (\<lambda>r. bind_res (group_winners groups) (\<lambda>rs. Inr (r # rs)))"

definition winners :: "segment_record list list \<Rightarrow> format_error + segment_record list" where
  "winners inputs = group_winners (group_records inputs)"

definition may_uncover :: "segment_entry list \<Rightarrow> segment_record \<Rightarrow> bool" where
  "may_uncover retained r = list_ex (\<lambda>entry. may_hold entry (sr_key r) \<and> se_min_lamport entry < sr_lamport r) retained"

definition merge :: "segment_record list list \<Rightarrow> u64 \<Rightarrow> segment_entry list \<Rightarrow> format_error + segment_record list" where
  "merge inputs now_millis retained =
     bind_res (winners inputs) (\<lambda>rs.
       Inr (filter (\<lambda>r. \<not> is_tombstone r \<or> may_uncover retained r) (filter (\<lambda>r. \<not> record_expired_at r now_millis) rs)))"

definition merge_bounded :: "segment_record list list \<Rightarrow> u64 \<Rightarrow> segment_entry list \<Rightarrow> format_error + segment_record list" where
  "merge_bounded inputs now_millis retained =
     bind_res (winners inputs) (\<lambda>rs. Inr (filter (\<lambda>r. \<not> record_expired_at r now_millis \<or> may_uncover retained r) rs))"

definition merge_all :: "segment_record list list \<Rightarrow> u64 \<Rightarrow> format_error + segment_record list" where
  "merge_all inputs now_millis = bind_res (winners inputs) (\<lambda>rs. Inr (filter (\<lambda>r. \<not> record_expired_at r now_millis) rs))"

section \<open>What a reader sees\<close>

text \<open>A read takes the record with the highest Lamport for its key, and sees it unless it is deleted or expired.\<close>

definition newest :: "segment_record list \<Rightarrow> bytes \<Rightarrow> segment_record option" where
  "newest rs key =
     fold (\<lambda>r best. if sr_key r = key \<and> (case best of None \<Rightarrow> True | Some b \<Rightarrow> sr_lamport b < sr_lamport r) then Some r else best) rs None"

definition reads :: "segment_record list \<Rightarrow> bytes \<Rightarrow> u64 \<Rightarrow> segment_record option" where
  "reads rs key now_millis =
     (case newest rs key of Some r \<Rightarrow> if is_visible_at r now_millis then Some r else None | None \<Rightarrow> None)"

definition one_per_lamport :: "segment_record list \<Rightarrow> bool" where
  "one_per_lamport rs \<longleftrightarrow> distinct (map (\<lambda>r. (sr_key r, sr_lamport r)) rs)"

definition describes :: "segment_entry \<Rightarrow> segment_record list \<Rightarrow> bool" where
  "describes e rs \<longleftrightarrow> list_all (\<lambda>r. may_hold e (sr_key r) \<and> se_min_lamport e \<le> sr_lamport r \<and> sr_lamport r \<le> se_max_lamport e) rs"

lemma newest_Nil [simp]: "newest [] key = None"
  by (simp add: newest_def)

lemma newest_snoc:
  "newest (rs @ [r]) key =
     (if sr_key r = key \<and> (case newest rs key of None \<Rightarrow> True | Some b \<Rightarrow> sr_lamport b < sr_lamport r) then Some r else newest rs key)"
  by (simp add: newest_def)

lemma newest_None: "newest rs key = None \<longleftrightarrow> (\<forall>r\<in>set rs. sr_key r \<noteq> key)"
  by (induction rs rule: rev_induct) (auto simp: newest_snoc split: option.splits)

lemma newest_Some: "newest rs key = Some r \<Longrightarrow> r \<in> set rs \<and> sr_key r = key \<and> (\<forall>r'\<in>set rs. sr_key r' = key \<longrightarrow> sr_lamport r' \<le> sr_lamport r)"
proof (induction rs arbitrary: r rule: rev_induct)
  case (snoc x rs)
  show ?case
  proof (cases "newest rs key")
    case None
    then show ?thesis using snoc.prems newest_None[of rs key] by (auto simp: newest_snoc split: if_splits)
  next
    case (Some b)
    then show ?thesis using snoc.prems snoc.IH[OF Some]
      by (auto simp: newest_snoc not_less split: if_splits dest: less_imp_le order_trans)
  qed
qed simp

lemma newest_iff:
  assumes "one_per_lamport rs"
  shows "newest rs key = Some r \<longleftrightarrow> r \<in> set rs \<and> sr_key r = key \<and> (\<forall>r'\<in>set rs. sr_key r' = key \<longrightarrow> sr_lamport r' \<le> sr_lamport r)"
    (is "_ \<longleftrightarrow> ?max r")
proof
  assume r: "?max r"
  then obtain b where b: "newest rs key = Some b" using newest_None by (metis option.exhaust)
  have "sr_lamport b = sr_lamport r \<and> sr_key b = sr_key r \<and> b \<in> set rs"
    using newest_Some[OF b] r by (auto intro: order_antisym)
  then show "newest rs key = Some r" using b r assms by (force simp: one_per_lamport_def distinct_map inj_on_def)
qed (rule newest_Some)

section \<open>The winners\<close>

lemma group_records_get:
  "bt_get (fold (fold group_record) inputs m) key =
     (let old = (case bt_get m key of None \<Rightarrow> [] | Some rs \<Rightarrow> rs); new = old @ filter (\<lambda>r. sr_key r = key) (concat inputs)
      in if new = [] then bt_get m key else Some new)"
proof -
  have "fold (fold group_record) inputs m = fold group_record (concat inputs) m" by (induction inputs arbitrary: m) simp_all
  moreover have "bt_get (fold group_record rs m) key =
     (let old = (case bt_get m key of None \<Rightarrow> [] | Some rs \<Rightarrow> rs); new = old @ filter (\<lambda>r. sr_key r = key) rs
      in if new = [] then bt_get m key else Some new)" for rs
    by (induction rs arbitrary: m) (auto simp: group_record_def Let_def split: option.splits)
  ultimately show ?thesis by simp
qed

lemma group_records_ok: "bt_ok (group_records inputs)"
proof -
  have "bt_ok m \<Longrightarrow> bt_ok (fold group_record rs m)" for rs m
    by (induction rs arbitrary: m) (auto simp: group_record_def keeps_ok)
  then have "bt_ok m \<Longrightarrow> bt_ok (fold (fold group_record) inputs m)" for m
    by (induction inputs arbitrary: m) auto
  then show ?thesis by (simp add: group_records_def)
qed

lemma group_records_iff:
  "(key, rs) \<in> set (group_records inputs) \<longleftrightarrow> rs = filter (\<lambda>r. sr_key r = key) (concat inputs) \<and> rs \<noteq> []"
  using group_records_get[of inputs "[]" key] bt_get_iff[OF group_records_ok, of inputs key rs]
  by (auto simp: group_records_def Let_def split: if_splits)

lemma group_records_keys: "fst ` set (group_records inputs) = sr_key ` set (concat inputs)"
proof -
  have "key \<in> fst ` set (group_records inputs) \<longleftrightarrow> (\<exists>rs. (key, rs) \<in> set (group_records inputs))" for key by force
  then have "key \<in> fst ` set (group_records inputs) \<longleftrightarrow> filter (\<lambda>r. sr_key r = key) (concat inputs) \<noteq> []" for key
    by (simp only: group_records_iff) blast
  then have "key \<in> fst ` set (group_records inputs) \<longleftrightarrow> key \<in> sr_key ` set (concat inputs)" for key
    by (simp only: filter_empty_conv) (auto simp: image_iff)
  then show ?thesis by blast
qed

lemma equal_neighbours_None: "sorted (map sr_lamport rs) \<Longrightarrow> equal_neighbours rs = None \<longleftrightarrow> distinct (map sr_lamport rs)"
proof (induction rs rule: equal_neighbours.induct)
  case (1 a b rs)
  then show ?case by (auto dest: order_antisym)
qed auto

lemma group_winner_iff:
  assumes "rs \<noteq> []" and key: "\<forall>r\<in>set rs. sr_key r = key"
  shows "group_winner rs = Inr r \<longleftrightarrow> distinct (map sr_lamport rs) \<and> newest rs key = Some r"
proof -
  let ?s = "sort_key sr_lamport rs"
  have "mset (map sr_lamport ?s) = mset (map sr_lamport rs)" by simp
  then have d: "distinct (map sr_lamport ?s) \<longleftrightarrow> distinct (map sr_lamport rs)" using mset_eq_imp_distinct_iff by blast
  have ne: "?s \<noteq> []" using assms(1) by (metis length_0_conv length_sort)
  have top: "sr_lamport r' \<le> sr_lamport (List.last ?s)" if "r' \<in> set rs" for r'
  proof -
    have "sorted (map sr_lamport (butlast ?s @ [List.last ?s]))" using ne by simp
    moreover have "r' \<in> set (butlast ?s @ [List.last ?s])" using that ne by simp
    ultimately show ?thesis by (auto simp: sorted_append)
  qed
  have "List.last ?s \<in> set rs" using ne last_in_set by fastforce
  then have last_max: "newest rs key = Some (List.last ?s)" if "distinct (map sr_lamport rs)"
    using that newest_iff[of rs key "List.last ?s"] top key by (auto simp: one_per_lamport_def distinct_map inj_on_def)
  moreover have "group_winner rs = Inr r \<longleftrightarrow> distinct (map sr_lamport rs) \<and> List.last ?s = r"
    using equal_neighbours_None[of ?s] d by (auto simp: group_winner_def Let_def split: option.splits)
  ultimately show ?thesis using last_max by auto
qed

lemma one_per_lamport_groups:
  "one_per_lamport rs \<longleftrightarrow> (\<forall>key. distinct (map sr_lamport (filter (\<lambda>r. sr_key r = key) rs)))"
proof (induction rs)
  case (Cons r rs)
  have "(sr_key r, sr_lamport r) \<in> (\<lambda>r. (sr_key r, sr_lamport r)) ` set rs \<longleftrightarrow>
      sr_lamport r \<in> sr_lamport ` {x \<in> set rs. sr_key x = sr_key r}" by (auto simp: image_iff) metis
  then show ?case using Cons.IH by (auto simp: one_per_lamport_def)
qed (simp add: one_per_lamport_def)

lemma newest_filter: "newest (filter (\<lambda>r. sr_key r = key) rs) key = newest rs key"
  by (induction rs rule: rev_induct) (auto simp: newest_snoc)

lemma group_winners_iff:
  "group_winners groups = Inr ws \<longleftrightarrow> list_all2 (\<lambda>g r. group_winner (snd g) = Inr r) groups ws"
proof (induction groups arbitrary: ws)
  case (Cons g groups)
  then show ?case by (cases g; cases ws) (auto simp: bind_res_eq_Inr)
qed (auto simp: list_all2_Nil)

lemma winner_of_group:
  assumes "(key, rs) \<in> set (group_records inputs)"
  shows "group_winner rs = Inr r \<longleftrightarrow>
    distinct (map sr_lamport (filter (\<lambda>r. sr_key r = key) (concat inputs))) \<and> newest (concat inputs) key = Some r"
proof -
  have rs: "rs = filter (\<lambda>r. sr_key r = key) (concat inputs)" "rs \<noteq> []" using assms unfolding group_records_iff by blast+
  show ?thesis using group_winner_iff[OF rs(2), of key r] newest_filter[of key "concat inputs"] unfolding rs(1) by simp
qed

lemma list_all2_function:
  "list_all2 (\<lambda>g r. P g \<and> f g = Some r) gs ws \<longleftrightarrow> (\<forall>g\<in>set gs. P g \<and> f g \<noteq> None) \<and> ws = map (\<lambda>g. the (f g)) gs"
proof (induction gs arbitrary: ws)
  case (Cons g gs)
  then show ?case by (cases ws) auto
qed (auto simp: list_all2_Nil)

text \<open>
  The winners: exactly one record for each key, the newest one, in the order of the keys; and none of it when two records
  for a key carry one Lamport, wherever the two are.
\<close>

lemma winners_iff:
  "winners inputs = Inr ws \<longleftrightarrow>
     one_per_lamport (concat inputs) \<and> ws = map (\<lambda>g. the (newest (concat inputs) (fst g))) (group_records inputs)"
proof -
  let ?P = "\<lambda>key. distinct (map sr_lamport (filter (\<lambda>r. sr_key r = key) (concat inputs)))"
  have some: "newest (concat inputs) (fst g) \<noteq> None" if "g \<in> set (group_records inputs)" for g
  proof -
    have "fst g \<in> sr_key ` set (concat inputs)" using that by (simp only: flip: group_records_keys) blast
    then obtain r where "r \<in> set (concat inputs)" "sr_key r = fst g" by (metis imageE)
    then show ?thesis unfolding newest_None by blast
  qed
  have "?P key" if "\<forall>g\<in>set (group_records inputs). ?P (fst g)" for key
  proof (cases "filter (\<lambda>r. sr_key r = key) (concat inputs) = []")
    case False
    then have "(key, filter (\<lambda>r. sr_key r = key) (concat inputs)) \<in> set (group_records inputs)" by (simp add: group_records_iff)
    then show ?thesis using that by (metis fst_conv)
  next
    case True
    then show ?thesis by (metis distinct.simps(1) list.simps(8))
  qed
  then have one: "one_per_lamport (concat inputs) \<longleftrightarrow> (\<forall>g\<in>set (group_records inputs). ?P (fst g))"
    using one_per_lamport_groups by blast
  have "winners inputs = Inr ws \<longleftrightarrow> list_all2 (\<lambda>g r. ?P (fst g) \<and> newest (concat inputs) (fst g) = Some r) (group_records inputs) ws"
    unfolding winners_def group_winners_iff by (rule list.rel_cong) (use winner_of_group in auto)
  then show ?thesis using one some by (simp add: list_all2_function)
qed

lemma winners_set:
  assumes "winners inputs = Inr ws"
  shows "r \<in> set ws \<longleftrightarrow> newest (concat inputs) (sr_key r) = Some r"
proof -
  have "set ws = (\<lambda>key. the (newest (concat inputs) key)) ` fst ` set (group_records inputs)"
    using assms by (auto simp: winners_iff image_image)
  then have ws: "r \<in> set ws \<longleftrightarrow> (\<exists>key\<in>sr_key ` set (concat inputs). r = the (newest (concat inputs) key))"
    unfolding group_records_keys by auto
  have "\<exists>b. newest (concat inputs) key = Some b \<and> sr_key b = key" if "key \<in> sr_key ` set (concat inputs)" for key
    using that newest_None[of "concat inputs" key] newest_Some[of "concat inputs" key] by (cases "newest (concat inputs) key") auto
  then show ?thesis unfolding ws using newest_Some[of "concat inputs" "sr_key r" r] by force
qed

section \<open>Merging and reading\<close>

text \<open>The newest record of two piles is the newer of their newest.\<close>

lemma newest_append:
  "newest (as @ bs) key =
     (case (newest as key, newest bs key) of
        (Some a, Some b) \<Rightarrow> if sr_lamport a < sr_lamport b then Some b else Some a
      | (None, x) \<Rightarrow> x | (x, None) \<Rightarrow> x)"
proof (induction bs rule: rev_induct)
  case (snoc b bs)
  then have "newest (as @ bs @ [b]) key = (if sr_key b = key \<and> (case newest (as @ bs) key of None \<Rightarrow> True | Some c \<Rightarrow> sr_lamport c < sr_lamport b)
      then Some b else newest (as @ bs) key)"
    using newest_snoc[of "as @ bs" b key] by simp
  then show ?case using snoc.IH by (auto simp: newest_snoc split: option.splits)
qed (auto split: option.splits)

lemma newest_winners: "winners inputs = Inr ws \<Longrightarrow> newest (filter P ws) key = (case newest (concat inputs) key of
    Some r \<Rightarrow> if P r then Some r else None | None \<Rightarrow> None)"
proof -
  assume w: "winners inputs = Inr ws"
  have one: "r \<in> set ws \<Longrightarrow> r' \<in> set ws \<Longrightarrow> sr_key r = sr_key r' \<Longrightarrow> r = r'" for r r'
    using winners_set[OF w] by (metis option.inject)
  have same: "newest (filter P ws) key = Some r \<longleftrightarrow> newest (concat inputs) key = Some r \<and> P r" for r
  proof
    assume a: "newest (filter P ws) key = Some r"
    then show "newest (concat inputs) key = Some r \<and> P r" using newest_Some[OF a] winners_set[OF w, of r] by auto
  next
    assume r: "newest (concat inputs) key = Some r \<and> P r"
    then have key: "sr_key r = key" using newest_Some[of "concat inputs" key r] by simp
    then have r_in: "r \<in> set (filter P ws)" using r winners_set[OF w, of r] by simp
    then obtain r' where r': "newest (filter P ws) key = Some r'" using key newest_None by (metis option.exhaust)
    then have "r' = r" using newest_Some[OF r'] r_in key one by auto
    then show "newest (filter P ws) key = Some r" using r' by simp
  qed
  show ?thesis
  proof (cases "newest (filter P ws) key")
    case None
    then show ?thesis using same by (auto split: option.splits)
  next
    case (Some r)
    then show ?thesis using same[of r] by simp
  qed
qed

lemma expired_not_visible: "record_expired_at r t \<Longrightarrow> t \<le> t' \<Longrightarrow> \<not> is_visible_at r t'"
  by (auto simp: record_expired_at_def is_visible_at_def split: option.splits)

text \<open>A dropped record hides nothing that is retained.\<close>

lemma nothing_uncovered:
  assumes "list_all2 describes entries kept" and "\<not> may_uncover entries r" and "b \<in> set (concat kept)" "sr_key b = sr_key r"
  shows "sr_lamport r \<le> sr_lamport b"
proof -
  obtain rs where "rs \<in> set kept" "b \<in> set rs" using assms(3) by auto
  then obtain e where "e \<in> set entries" "describes e rs" using assms(1) by (metis in_set_conv_nth list_all2_conv_all_nth)
  then have "may_hold e (sr_key r)" "se_min_lamport e \<le> sr_lamport b" using \<open>b \<in> set rs\<close> assms(4) by (auto simp: describes_def list_all_iff)
  then show ?thesis using assms(2) \<open>e \<in> set entries\<close> by (auto simp: may_uncover_def list_ex_iff)
qed

lemma reads_cong: "newest as key = newest bs key \<Longrightarrow> reads as key t = reads bs key t"
  by (simp add: reads_def)

lemma merge_bounded_reads:
  assumes one: "one_per_lamport (concat inputs @ concat kept)" and entries: "list_all2 describes entries kept"
    and merged: "merge_bounded inputs now entries = Inr out" and later: "now \<le> t"
  shows "reads (out @ concat kept) key t = reads (concat inputs @ concat kept) key t"
proof -
  obtain ws where w: "winners inputs = Inr ws" and out: "out = filter (\<lambda>r. \<not> record_expired_at r now \<or> may_uncover entries r) ws"
    using merged by (auto simp: merge_bounded_def bind_res_eq_Inr)
  show ?thesis
  proof (cases "newest (concat inputs) key")
    case None
    then show ?thesis using newest_winners[OF w] by (intro reads_cong) (simp add: newest_append out)
  next
    case (Some a)
    note a = newest_Some[OF Some]
    show ?thesis
    proof (cases "record_expired_at a now \<and> \<not> may_uncover entries a")
      case False
      then show ?thesis using newest_winners[OF w] Some by (intro reads_cong) (auto simp: newest_append out)
    next
      case True
      have "sr_lamport a < sr_lamport b" if "newest (concat kept) key = Some b" for b
      proof -
        note b = newest_Some[OF that]
        have "sr_lamport a \<le> sr_lamport b" using nothing_uncovered[OF entries] True a b by blast
        moreover have "(sr_key a, sr_lamport a) \<noteq> (sr_key b, sr_lamport b)"
          using one a b unfolding one_per_lamport_def by (auto simp: image_iff)
        ultimately show ?thesis using a b by (auto simp: le_less)
      qed
      then show ?thesis
        using newest_winners[OF w, of _ key] Some True expired_not_visible[of a now t] later
        by (auto simp: reads_def newest_append out split: option.splits)
    qed
  qed
qed

lemma merge_all_reads:
  assumes "merge_all inputs now = Inr out" and "now \<le> t"
  shows "reads out key t = reads (concat inputs) key t"
proof -
  obtain ws where w: "winners inputs = Inr ws" and out: "out = filter (\<lambda>r. \<not> record_expired_at r now) ws"
    using assms(1) by (auto simp: merge_all_def bind_res_eq_Inr)
  then show ?thesis using newest_winners[OF w, of _ key] expired_not_visible[OF _ assms(2)]
    by (auto simp: reads_def out split: option.splits)
qed

lemma winners_total: "one_per_lamport (concat inputs) \<longleftrightarrow> (\<exists>ws. winners inputs = Inr ws)"
  by (simp add: winners_iff)

text \<open>
  C36. Compaction does not change what a read returns. A bounded merge beside retained segments, each described
  by its manifest entry, and a merge of the whole partition succeed exactly when no two records for
  one key share a Lamport among what they merge. Every read at that time or later then sees the same record through
  the output of the whole merge as through its inputs; and through the output of a bounded merge together with the retained segments
  as through the inputs together with them, provided no two records for one key share a Lamport in the merged and the retained
  segments taken together, which the merge does not check. Every key's unexpired tombstone that decided the merged
  records is still in the output to answer a retried delete.
\<close>

theorem compaction_preserves_reads:
  assumes "list_all2 describes entries kept"
  shows "((\<exists>out. merge_bounded inputs now entries = Inr out) \<longleftrightarrow> one_per_lamport (concat inputs))
    \<and> ((\<exists>out. merge_all inputs now = Inr out) \<longleftrightarrow> one_per_lamport (concat inputs))
    \<and> (\<forall>out t key. merge_bounded inputs now entries = Inr out \<longrightarrow> one_per_lamport (concat inputs @ concat kept) \<longrightarrow> now \<le> t
        \<longrightarrow> reads (out @ concat kept) key t = reads (concat inputs @ concat kept) key t)
    \<and> (\<forall>out t key. merge_all inputs now = Inr out \<longrightarrow> now \<le> t \<longrightarrow> reads out key t = reads (concat inputs) key t)
    \<and> (\<forall>out r. merge_bounded inputs now entries = Inr out \<or> merge_all inputs now = Inr out \<longrightarrow>
        newest (concat inputs) (sr_key r) = Some r \<longrightarrow> is_tombstone r \<longrightarrow> \<not> record_expired_at r now \<longrightarrow> r \<in> set out)"
proof (intro conjI allI impI)
  show "(\<exists>out. merge_bounded inputs now entries = Inr out) \<longleftrightarrow> one_per_lamport (concat inputs)"
    "(\<exists>out. merge_all inputs now = Inr out) \<longleftrightarrow> one_per_lamport (concat inputs)"
    by (auto simp: winners_total merge_bounded_def merge_all_def bind_res_eq_Inr)
  show "reads (out @ concat kept) key t = reads (concat inputs @ concat kept) key t"
    if "merge_bounded inputs now entries = Inr out" "one_per_lamport (concat inputs @ concat kept)" "now \<le> t" for out t key
    using merge_bounded_reads that assms by blast
  show "reads out key t = reads (concat inputs) key t" if "merge_all inputs now = Inr out" "now \<le> t" for out t key
    using merge_all_reads that by blast
  show "r \<in> set out" if "merge_bounded inputs now entries = Inr out \<or> merge_all inputs now = Inr out"
    "newest (concat inputs) (sr_key r) = Some r" "\<not> record_expired_at r now" for out r
    using that winners_set by (auto simp: merge_bounded_def merge_all_def bind_res_eq_Inr)
qed

definition sample_record :: "u8 \<Rightarrow> lamport \<Rightarrow> u64 option \<Rightarrow> record_value \<Rightarrow> segment_record" where
  "sample_record k l e v = \<lparr>sr_key = [k], sr_lamport = l, sr_expires_at_millis = e, sr_value = v\<rparr>"

definition sample_entry :: "u8 \<Rightarrow> u8 \<Rightarrow> lamport \<Rightarrow> lamport \<Rightarrow> segment_entry" where
  "sample_entry lo hi a b = \<lparr>se_name = [], se_source = None, se_bytes = 0, se_record_count = 0, se_min_key = [lo], se_max_key = [hi],
     se_min_lamport = a, se_max_lamport = b\<rparr>"

theorem compaction_preserves_reads_witness:
  "reads [sample_record 1 5 (Some 10) (Inline [7]), sample_record 1 2 None (Inline [6])] [1] 20
   = reads [sample_record 1 4 None Tombstone, sample_record 1 5 (Some 10) (Inline [7]), sample_record 1 2 None (Inline [6])] [1] 20"
proof -
  have d: "list_all2 describes [sample_entry 1 1 2 2] [[sample_record 1 2 None (Inline [6])]]"
    by (simp add: describes_def may_hold_def sample_entry_def sample_record_def)
  have m: "merge_bounded [[sample_record 1 4 None Tombstone], [sample_record 1 5 (Some 10) (Inline [7])]] 15 [sample_entry 1 1 2 2]
      = Inr [sample_record 1 5 (Some 10) (Inline [7])]"
    by (simp add: merge_bounded_def winners_def group_records_def group_record_def group_winner_def sample_record_def sample_entry_def
        may_uncover_def may_hold_def record_expired_at_def Let_def)
  have one: "one_per_lamport (concat [[sample_record 1 4 None Tombstone], [sample_record 1 5 (Some 10) (Inline [7])]]
      @ concat [[sample_record 1 2 None (Inline [6])]])"
    by (simp add: one_per_lamport_def sample_record_def)
  show ?thesis
    using compaction_preserves_reads[OF d, THEN conjunct2, THEN conjunct2, THEN conjunct1, rule_format, OF m one, of 20 "[1]"]
    by simp
qed

text \<open>
  \<open>merge\<close>, the third entry point, is different: it drops an expired record whatever it hides, so that
  an older record of a retained segment comes back to readers. No caller in the workspace merges that way.
\<close>

theorem merge_uncovers_an_older_record:
  "merge [[sample_record 1 5 (Some 10) (Inline [7])]] 15 [sample_entry 1 1 2 2] = Inr []
   \<and> describes (sample_entry 1 1 2 2) [sample_record 1 2 None (Inline [6])]
   \<and> reads [sample_record 1 5 (Some 10) (Inline [7]), sample_record 1 2 None (Inline [6])] [1] 15 = None
   \<and> reads [sample_record 1 2 None (Inline [6])] [1] 15 = Some (sample_record 1 2 None (Inline [6]))"
  by (simp add: merge_def winners_def group_records_def group_record_def group_winner_def sample_record_def sample_entry_def
      describes_def may_hold_def record_expired_at_def Let_def reads_def newest_def is_visible_at_def is_tombstone_def)

end
