(* ===== verification/Storage_Base.thy ===== *)
theory Storage_Base
  imports Seg_Compact
begin

text \<open>
  The vocabulary of \<open>orbita-storage\<close>: the stored entry, write outcomes, the mutations a replica replays
  (\<open>mutation.rs\<close>) and the small functions of \<open>partition.rs\<close> that judge and weigh one entry.
\<close>

section \<open>Limits of the engine\<close>

definition tombstone_retention_millis :: u64 where "tombstone_retention_millis = 24 * 60 * 60 * 1000"
definition flush_trigger_bytes :: u64 where "flush_trigger_bytes = 8 * 1024 * 1024"
definition compaction_input_flushes :: nat where "compaction_input_flushes = 4"
definition compact_trigger_full_flushes :: nat where "compact_trigger_full_flushes = compaction_input_flushes"
definition compact_trigger_timer_flushes :: nat where "compact_trigger_timer_flushes = 120"
definition entry_overhead_bytes :: u64 where "entry_overhead_bytes = 64"
definition compaction_input_bytes :: u64 where "compaction_input_bytes = word_of_nat compaction_input_flushes * flush_trigger_bytes"
definition index_entry_overhead_bytes :: u64 where "index_entry_overhead_bytes = 64"
definition max_read_ahead_scan :: nat where "max_read_ahead_scan = 1024"

section \<open>Entries\<close>

record stored =
  st_version :: version
  st_expires_at_millis :: "u64 option"
  st_deleted :: bool
  st_value :: bytes

definition stored_expired_at :: "stored \<Rightarrow> u64 \<Rightarrow> bool" where
  "stored_expired_at s now_millis = (case st_expires_at_millis s of None \<Rightarrow> False | Some e \<Rightarrow> e \<le> now_millis)"

definition visible_at :: "stored \<Rightarrow> u64 \<Rightarrow> stored_record option" where
  "visible_at s now_millis =
     (if st_deleted s \<or> stored_expired_at s now_millis then None
      else Some \<lparr>rec_value = st_value s, rec_version = st_version s, rec_expires_at_millis = st_expires_at_millis s\<rparr>)"

definition version_at :: "lamport \<Rightarrow> version" where "version_at l = l"

datatype mutation_op = MutPut bytes "u64 option" | MutDelete u64

record mutation =
  mu_lamport :: lamport
  mu_key :: bytes
  mu_op :: mutation_op

definition mutation_version :: "mutation \<Rightarrow> version" where "mutation_version m = version_at (mu_lamport m)"

text \<open>The entry a mutation leaves, as \<open>Partition::apply\<close> builds it.\<close>

definition entry_of_mutation :: "mutation \<Rightarrow> stored" where
  "entry_of_mutation m =
     (case mu_op m of
        MutPut v e \<Rightarrow> \<lparr>st_version = mutation_version m, st_expires_at_millis = e, st_deleted = False, st_value = v\<rparr>
      | MutDelete e \<Rightarrow> \<lparr>st_version = mutation_version m, st_expires_at_millis = Some e, st_deleted = True, st_value = []\<rparr>)"

definition record_footprint :: "nat \<Rightarrow> nat \<Rightarrow> u64" where
  "record_footprint key_len value_len = word_of_nat key_len + word_of_nat value_len + entry_overhead_bytes"

definition entry_cost :: "bytes \<Rightarrow> stored \<Rightarrow> u64" where
  "entry_cost key entry = record_footprint (length key) (length (st_value entry))"

definition index_entry_cost :: "bytes \<Rightarrow> u64" where
  "index_entry_cost key = word_of_nat (length key) + index_entry_overhead_bytes"

definition segment_record_of :: "bytes \<Rightarrow> stored \<Rightarrow> segment_record" where
  "segment_record_of key entry =
     \<lparr>sr_key = key, sr_lamport = st_version entry, sr_expires_at_millis = st_expires_at_millis entry,
      sr_value = (if st_deleted entry then Tombstone else Inline (st_value entry))\<rparr>"

text \<open>\<open>Duration::as_millis\<close> is a 128-bit count; \<open>try_from\<close> saturates it.\<close>

definition absolute_expiry :: "u64 \<Rightarrow> nat \<Rightarrow> u64" where
  "absolute_expiry now_millis ttl_millis = saturating_add now_millis (if ttl_millis < 2 ^ 64 then word_of_nat ttl_millis else -1)"

section \<open>Outcomes\<close>

datatype write_outcome = Applied version | ConditionFailed write_condition "version option"

text \<open>What the errors of the engine say; \<open>Panicked\<close> stands for the end of the process at an \<open>expect\<close> or an index out of bounds.\<close>

datatype storage_message =
    FormatSays format_error
  | StoreSays object_error
  | OutsideRange
  | LamportNotAhead lamport lamport
  | DifferentRecord bytes
  | ExternalMismatch bytes
  | UnconditionalFailed
  | ScanLimit
  | CursorMalformed
  | CursorElsewhere
  | Panicked

type_synonym storage_error = "storage_message error"

definition into_result :: "write_outcome \<Rightarrow> storage_error + version" where
  "into_result r =
     (case r of
        Applied v \<Rightarrow> Inr v
      | ConditionFailed IfNotPresent _ \<Rightarrow> Inl AlreadyExists
      | ConditionFailed (IfVersion expected) found \<Rightarrow> Inl (VersionMismatch expected found)
      | ConditionFailed Unconditional _ \<Rightarrow> Inl (Internal UnconditionalFailed))"

definition evaluate :: "write_condition \<Rightarrow> stored option \<Rightarrow> u64 \<Rightarrow> write_outcome option" where
  "evaluate condition existing now_millis =
     (let visible = Option.bind existing (\<lambda>e. visible_at e now_millis);
          found = map_option rec_version visible;
          holds = (case condition of
             Unconditional \<Rightarrow> True
           | IfNotPresent \<Rightarrow> visible = None
           | IfVersion expected \<Rightarrow> found = Some expected)
      in if holds then None else Some (ConditionFailed condition found))"

lemma evaluate_None:
  "evaluate c existing now = None \<longleftrightarrow>
     (case c of
        Unconditional \<Rightarrow> True
      | IfNotPresent \<Rightarrow> Option.bind existing (\<lambda>e. visible_at e now) = None
      | IfVersion v \<Rightarrow> (\<exists>r. Option.bind existing (\<lambda>e. visible_at e now) = Some r \<and> rec_version r = v))"
  by (auto simp: evaluate_def Let_def split: write_condition.splits)

lemma visible_at_version: "visible_at s now = Some r \<Longrightarrow> rec_version r = st_version s \<and> rec_value r = st_value s"
  by (auto simp: visible_at_def split: if_splits)

lemma segment_record_of_visible:
  "is_visible_at (segment_record_of key s) now \<longleftrightarrow> visible_at s now \<noteq> None"
  by (simp add: is_visible_at_def segment_record_of_def visible_at_def is_tombstone_def record_expired_at_def stored_expired_at_def)

end
