(* ===== verification/Value_Cache.thy ===== *)
theory Value_Cache
  imports Storage_Base
begin

text \<open>
  \<open>orbita-storage/src/cache.rs\<close>: the least-recently-used cache of decoded records, keyed by object and offset. Its byte
  counts and its access counter are 64-bit counters in the code and natural numbers here; \<open>Cache_Lru\<close> shows that over fewer than
  \<open>2 ^ 64\<close> accesses with a budget below \<open>2 ^ 63\<close> none of them leaves the 64 bits and no subtraction goes below zero, so that the two
  agree. The hash map of objects is kept in the order of its keys, which nothing observes.
\<close>

section \<open>Operations\<close>

definition cache_overhead_bytes :: nat where "cache_overhead_bytes = 96"

record cache_entry =
  ce_stored :: stored
  ce_tick :: nat
  ce_cost :: nat

record value_cache =
  vc_entries :: "(bytes, (u64, cache_entry) btree) btree"
  vc_order :: "(nat, bytes \<times> u64) btree"
  vc_tick :: nat
  vc_bytes :: nat
  vc_capacity_bytes :: nat
  vc_hits :: nat
  vc_misses :: nat
  vc_evictions :: nat

definition cache_new :: "nat \<Rightarrow> value_cache" where
  "cache_new capacity_bytes =
     \<lparr>vc_entries = [], vc_order = [], vc_tick = 0, vc_bytes = 0, vc_capacity_bytes = capacity_bytes,
      vc_hits = 0, vc_misses = 0, vc_evictions = 0\<rparr>"

definition entry_at :: "value_cache \<Rightarrow> bytes \<Rightarrow> u64 \<Rightarrow> cache_entry option" where
  "entry_at c object offset = Option.bind (bt_get (vc_entries c) object) (\<lambda>by_offset. bt_get by_offset offset)"

definition set_entry :: "bytes \<Rightarrow> u64 \<Rightarrow> cache_entry \<Rightarrow> value_cache \<Rightarrow> value_cache" where
  "set_entry object offset e c =
     c\<lparr>vc_entries := bt_insert object
         (bt_insert offset e (case bt_get (vc_entries c) object of None \<Rightarrow> [] | Some m \<Rightarrow> m)) (vc_entries c)\<rparr>"

definition cache_get :: "bytes \<Rightarrow> u64 \<Rightarrow> value_cache \<Rightarrow> value_cache \<times> stored option" where
  "cache_get object offset c0 =
     (let c = c0\<lparr>vc_tick := vc_tick c0 + 1\<rparr>; tick = vc_tick c
      in case entry_at c object offset of
           None \<Rightarrow> (c\<lparr>vc_misses := vc_misses c + 1\<rparr>, None)
         | Some e \<Rightarrow>
             let c1 = set_entry object offset (e\<lparr>ce_tick := tick\<rparr>) c;
                 c2 = (case bt_get (vc_order c1) (ce_tick e) of
                         None \<Rightarrow> c1
                       | Some key \<Rightarrow> c1\<lparr>vc_order := bt_insert tick key (bt_remove (ce_tick e) (vc_order c1))\<rparr>)
             in (c2\<lparr>vc_hits := vc_hits c2 + 1\<rparr>, Some (ce_stored e)))"

text \<open>One turn of \<open>evict_to_budget\<close>, with the entry the order gave up first.\<close>

definition drop_entry :: "bytes \<Rightarrow> u64 \<Rightarrow> value_cache \<Rightarrow> value_cache" where
  "drop_entry object offset c =
     (case bt_get (vc_entries c) object of
        None \<Rightarrow> c
      | Some by_offset \<Rightarrow>
          let by_offset = bt_remove offset by_offset
          in c\<lparr>vc_entries := (if by_offset = [] then bt_remove object (vc_entries c) else bt_insert object by_offset (vc_entries c))\<rparr>)"

definition evict_one :: "nat \<Rightarrow> bytes \<Rightarrow> u64 \<Rightarrow> value_cache \<Rightarrow> value_cache" where
  "evict_one tick object offset c =
     (case entry_at c object offset of
        Some e \<Rightarrow>
          if ce_tick e = tick
          then drop_entry object offset (c\<lparr>vc_bytes := vc_bytes c - ce_cost e, vc_evictions := vc_evictions c + 1\<rparr>) else c
      | None \<Rightarrow> c)"

lemma evict_one_order [simp]: "vc_order (evict_one tick object offset c) = vc_order c"
  by (auto simp: evict_one_def drop_entry_def Let_def split: option.splits)

function evict_to_budget :: "value_cache \<Rightarrow> value_cache" where
  "evict_to_budget c =
     (if vc_bytes c \<le> vc_capacity_bytes c then c
      else case vc_order c of
             [] \<Rightarrow> c\<lparr>vc_bytes := 0\<rparr>
           | (tick, object, offset) # order \<Rightarrow> evict_to_budget (evict_one tick object offset (c\<lparr>vc_order := order\<rparr>)))"
  by pat_completeness auto

termination by (relation "measure (\<lambda>c. length (vc_order c))") auto

declare evict_to_budget.simps [simp del]

definition cache_insert :: "bytes \<Rightarrow> u64 \<Rightarrow> stored \<Rightarrow> value_cache \<Rightarrow> value_cache" where
  "cache_insert object offset s c0 =
     (let cost = cache_overhead_bytes + length (st_value s)
      in if vc_capacity_bytes c0 < cost then c0
         else
           let c = c0\<lparr>vc_tick := vc_tick c0 + 1\<rparr>; tick = vc_tick c;
               old = entry_at c object offset;
               c1 = set_entry object offset \<lparr>ce_stored = s, ce_tick = tick, ce_cost = cost\<rparr> c;
               c2 = (case old of
                       None \<Rightarrow> c1
                     | Some e \<Rightarrow> c1\<lparr>vc_bytes := vc_bytes c1 - ce_cost e, vc_order := bt_remove (ce_tick e) (vc_order c1)\<rparr>)
           in evict_to_budget (c2\<lparr>vc_bytes := vc_bytes c2 + cost, vc_order := bt_insert tick (object, offset) (vc_order c2)\<rparr>))"

section \<open>The invariant\<close>

definition held :: "value_cache \<Rightarrow> (bytes \<times> u64 \<times> cache_entry) set" where
  "held c = {(object, offset, e). entry_at c object offset = Some e}"

definition cost_of :: "(bytes \<times> u64 \<times> cache_entry) set \<Rightarrow> nat" where
  "cost_of h = (\<Sum>(object, offset, e)\<in>h. ce_cost e)"

text \<open>The order names exactly the entries, each under the tick of its last access.\<close>

definition cache_ok :: "value_cache \<Rightarrow> bool" where
  "cache_ok c \<longleftrightarrow> bt_ok (vc_order c) \<and> finite (held c) \<and> vc_bytes c = cost_of (held c)
     \<and> (\<forall>tick object offset. bt_get (vc_order c) tick = Some (object, offset) \<longleftrightarrow> (\<exists>e. entry_at c object offset = Some e \<and> ce_tick e = tick))
     \<and> (\<forall>object offset e. entry_at c object offset = Some e \<longrightarrow> ce_tick e \<le> vc_tick c)"

lemma cache_okI:
  assumes "bt_ok (vc_order c)" and "finite (held c)" and "vc_bytes c = cost_of (held c)"
    and "\<And>tick object offset. bt_get (vc_order c) tick = Some (object, offset) \<longleftrightarrow> (\<exists>e. entry_at c object offset = Some e \<and> ce_tick e = tick)"
    and "\<And>object offset e. entry_at c object offset = Some e \<Longrightarrow> ce_tick e \<le> vc_tick c"
  shows "cache_ok c"
  using assms unfolding cache_ok_def by blast

lemma cache_ok_tick: "cache_ok c \<Longrightarrow> entry_at c object offset = Some e \<Longrightarrow> ce_tick e \<le> vc_tick c"
  by (simp add: cache_ok_def)

lemma entry_at_simps [simp]:
  "entry_at (c\<lparr>vc_order := x\<rparr>) = entry_at c" "entry_at (c\<lparr>vc_tick := t\<rparr>) = entry_at c" "entry_at (c\<lparr>vc_bytes := b\<rparr>) = entry_at c"
  "entry_at (c\<lparr>vc_hits := b\<rparr>) = entry_at c" "entry_at (c\<lparr>vc_misses := b\<rparr>) = entry_at c" "entry_at (c\<lparr>vc_evictions := b\<rparr>) = entry_at c"
  by (simp_all add: entry_at_def fun_eq_iff)

lemma held_simps [simp]:
  "held (c\<lparr>vc_order := x\<rparr>) = held c" "held (c\<lparr>vc_tick := t\<rparr>) = held c" "held (c\<lparr>vc_bytes := b\<rparr>) = held c"
  "held (c\<lparr>vc_hits := b\<rparr>) = held c" "held (c\<lparr>vc_misses := b\<rparr>) = held c" "held (c\<lparr>vc_evictions := b\<rparr>) = held c"
  by (simp_all add: held_def)

lemma entry_at_set [simp]:
  "entry_at (set_entry object offset e c) object' offset' =
     (if object' = object \<and> offset' = offset then Some e else entry_at c object' offset')"
  by (auto simp: entry_at_def set_entry_def split: option.splits)

lemma entry_at_drop [simp]:
  "entry_at (drop_entry object offset c) object' offset' =
     (if object' = object \<and> offset' = offset then None else entry_at c object' offset')"
proof (cases "bt_get (vc_entries c) object")
  case (Some m)
  then have "bt_remove offset m = [] \<Longrightarrow> bt_get m offset' = None \<or> offset' = offset"
    by (metis bt_get_remove map_of.simps(1))
  then show ?thesis using Some by (auto simp: entry_at_def drop_entry_def Let_def)
qed (auto simp: entry_at_def drop_entry_def)

lemma set_entry_fields [simp]:
  "vc_order (set_entry object offset e c) = vc_order c" "vc_tick (set_entry object offset e c) = vc_tick c"
  "vc_bytes (set_entry object offset e c) = vc_bytes c" "vc_capacity_bytes (set_entry object offset e c) = vc_capacity_bytes c"
  by (simp_all add: set_entry_def)

lemma drop_entry_fields [simp]:
  "vc_order (drop_entry object offset c) = vc_order c" "vc_tick (drop_entry object offset c) = vc_tick c"
  "vc_bytes (drop_entry object offset c) = vc_bytes c" "vc_capacity_bytes (drop_entry object offset c) = vc_capacity_bytes c"
  by (simp_all add: drop_entry_def Let_def split: option.splits)

lemma held_iff: "(object, offset, e) \<in> held c \<longleftrightarrow> entry_at c object offset = Some e"
  by (simp add: held_def)

lemma held_set:
  "held (set_entry object offset e c) = insert (object, offset, e) {h \<in> held c. (fst h, fst (snd h)) \<noteq> (object, offset)}"
  by (auto simp: held_def split: if_splits)

lemma held_drop: "held (drop_entry object offset c) = {h \<in> held c. (fst h, fst (snd h)) \<noteq> (object, offset)}"
  by (auto simp: held_def split: if_splits)

lemma cost_without:
  assumes "finite (held c)"
  shows "cost_of {h \<in> held c. (fst h, fst (snd h)) \<noteq> (object, offset)}
    = cost_of (held c) - (case entry_at c object offset of None \<Rightarrow> 0 | Some e \<Rightarrow> ce_cost e)"
proof (cases "entry_at c object offset")
  case None
  then have "{h \<in> held c. (fst h, fst (snd h)) \<noteq> (object, offset)} = held c" by (auto simp: held_def)
  then show ?thesis using None by simp
next
  case (Some e)
  then have "{h \<in> held c. (fst h, fst (snd h)) \<noteq> (object, offset)} = held c - {(object, offset, e)}" by (auto simp: held_def)
  moreover have "(object, offset, e) \<in> held c" using Some by (simp add: held_iff)
  ultimately show ?thesis using Some assms by (simp add: cost_of_def sum_diff1_nat)
qed

lemma cost_le: "entry_at c object offset = Some e \<Longrightarrow> finite (held c) \<Longrightarrow> ce_cost e \<le> cost_of (held c)"
  using member_le_sum[of "(object, offset, e)" "held c" "\<lambda>(_, _, e). ce_cost e"] by (auto simp: cost_of_def held_iff)

lemma cost_with:
  assumes "finite (held c)"
  shows "cost_of (held (set_entry object offset e c))
    = ce_cost e + (cost_of (held c) - (case entry_at c object offset of None \<Rightarrow> 0 | Some e \<Rightarrow> ce_cost e))"
proof -
  have "(object, offset, e) \<notin> {h \<in> held c. (fst h, fst (snd h)) \<noteq> (object, offset)}" by simp
  moreover have "finite {h \<in> held c. (fst h, fst (snd h)) \<noteq> (object, offset)}" using assms by simp
  ultimately show ?thesis using cost_without[OF assms] by (simp add: held_set cost_of_def)
qed

section \<open>Eviction\<close>

lemma evict_one_ok:
  assumes ok: "cache_ok c" and order: "vc_order c = (tick, object, offset) # rest"
  obtains e where "entry_at c object offset = Some e" "ce_tick e = tick"
    and "cache_ok (evict_one tick object offset (c\<lparr>vc_order := rest\<rparr>))"
    and "evict_one tick object offset (c\<lparr>vc_order := rest\<rparr>)
      = drop_entry object offset (c\<lparr>vc_order := rest, vc_bytes := vc_bytes c - ce_cost e, vc_evictions := vc_evictions c + 1\<rparr>)"
proof -
  have "bt_get (vc_order c) tick = Some (object, offset)" using order by simp
  then obtain e where e: "entry_at c object offset = Some e" "ce_tick e = tick" using ok by (auto simp: cache_ok_def)
  define c' where "c' = drop_entry object offset (c\<lparr>vc_order := rest, vc_bytes := vc_bytes c - ce_cost e, vc_evictions := vc_evictions c + 1\<rparr>)"
  have step: "evict_one tick object offset (c\<lparr>vc_order := rest\<rparr>) = c'" using e by (simp add: evict_one_def c'_def)
  have head: "\<forall>x\<in>set rest. tick < fst x" "bt_ok rest" using ok order by (auto simp: cache_ok_def)
  then have get_rest: "bt_get rest t = (if t = tick then None else bt_get (vc_order c) t)" for t
    using order by (auto simp: map_of_eq_None_iff)
  have "bt_get rest t = Some (o', off') \<longleftrightarrow> (\<exists>x. entry_at c' o' off' = Some x \<and> ce_tick x = t)" for t o' off'
  proof -
    have iff: "bt_get (vc_order c) t = Some (o', off') \<longleftrightarrow> (\<exists>x. entry_at c o' off' = Some x \<and> ce_tick x = t)"
      using ok by (simp add: cache_ok_def)
    have "bt_get (vc_order c) (ce_tick e) = Some (object, offset)" using e order by simp
    then show ?thesis using e iff get_rest[of t] by (auto simp: c'_def)
  qed
  moreover have "held c' = {h \<in> held c. (fst h, fst (snd h)) \<noteq> (object, offset)}" by (simp add: c'_def held_drop)
  ultimately have "cache_ok c'"
    using ok head(2) cost_without[of c object offset] e by (auto simp: cache_ok_def c'_def)
  then show thesis using that e step by (simp add: c'_def)
qed

text \<open>What an eviction leaves: part of the cache, and nothing older than what it dropped.\<close>

definition evicted_to :: "value_cache \<Rightarrow> value_cache \<Rightarrow> bool" where
  "evicted_to c c' \<longleftrightarrow> cache_ok c' \<and> vc_capacity_bytes c' = vc_capacity_bytes c
     \<and> (\<forall>o' off e. entry_at c' o' off = Some e \<longrightarrow> entry_at c o' off = Some e)
     \<and> (\<forall>o' off e o2 off2 e2. entry_at c o' off = Some e \<longrightarrow> entry_at c' o' off = None
         \<longrightarrow> entry_at c' o2 off2 = Some e2 \<longrightarrow> ce_tick e < ce_tick e2)"

lemma evict_head:
  assumes ok: "cache_ok c" and order: "vc_order c = (tick, object, offset) # rest"
    and later: "evicted_to (evict_one tick object offset (c\<lparr>vc_order := rest\<rparr>)) c'"
  shows "evicted_to c c'"
proof -
  obtain e where e: "entry_at c object offset = Some e" "ce_tick e = tick"
    and step: "evict_one tick object offset (c\<lparr>vc_order := rest\<rparr>)
      = drop_entry object offset (c\<lparr>vc_order := rest, vc_bytes := vc_bytes c - ce_cost e, vc_evictions := vc_evictions c + 1\<rparr>)"
    using evict_one_ok[OF ok order] by metis
  have oldest: "tick < ce_tick e2" if "entry_at c o2 off2 = Some e2" "(o2, off2) \<noteq> (object, offset)" for o2 off2 e2
  proof -
    have "bt_get (vc_order c) (ce_tick e2) = Some (o2, off2)" using ok that(1) by (auto simp: cache_ok_def)
    then have "ce_tick e2 \<in> fst ` set rest" using order that(2) by (auto split: if_splits dest!: map_of_SomeD intro: rev_image_eqI)
    then show ?thesis using ok order by (auto simp: cache_ok_def)
  qed
  let ?c = "evict_one tick object offset (c\<lparr>vc_order := rest\<rparr>)"
  have at: "entry_at ?c o' off = (if (o', off) = (object, offset) then None else entry_at c o' off)" for o' off
    by (simp add: step)
  have kept: "entry_at c o' off = Some x \<and> (o', off) \<noteq> (object, offset)" if "entry_at c' o' off = Some x" for o' off x
    using later that at[of o' off] unfolding evicted_to_def by (metis option.distinct(1))
  have "ce_tick x < ce_tick x2" if x: "entry_at c o' off = Some x" "entry_at c' o' off = None" and x2: "entry_at c' o2 off2 = Some x2"
    for o' off x o2 off2 x2
  proof (cases "(o', off) = (object, offset)")
    case True
    then show ?thesis using oldest[of o2 off2 x2] kept[OF x2] e x by auto
  next
    case False
    then have "entry_at ?c o' off = Some x" using x at by simp
    then show ?thesis using later x(2) x2 unfolding evicted_to_def by blast
  qed
  moreover have "vc_capacity_bytes ?c = vc_capacity_bytes c" by (simp add: step)
  ultimately show ?thesis using later kept unfolding evicted_to_def by metis
qed

lemma evict_to_budget_ok: "cache_ok c \<Longrightarrow> evicted_to c (evict_to_budget c) \<and> vc_bytes (evict_to_budget c) \<le> vc_capacity_bytes c"
proof (induction "vc_order c" arbitrary: c)
  case Nil
  then have "entry_at c o' off = None" for o' off by (auto simp: cache_ok_def) (metis option.exhaust)
  then have "held c = {}" by (auto simp: held_def)
  then have "vc_bytes c = 0" using Nil.prems by (simp add: cache_ok_def cost_of_def)
  then show ?case using Nil.prems by (subst (1 2) evict_to_budget.simps) (simp add: evicted_to_def)
next
  case (Cons x rest)
  obtain tick object offset where x: "x = (tick, object, offset)" by (cases x)
  show ?case
  proof (cases "vc_bytes c \<le> vc_capacity_bytes c")
    case True
    then show ?thesis using Cons.prems by (subst (1 2) evict_to_budget.simps) (simp add: evicted_to_def)
  next
    case over: False
    let ?c = "evict_one tick object offset (c\<lparr>vc_order := rest\<rparr>)"
    have order: "vc_order c = (tick, object, offset) # rest" using Cons.hyps(2) x by simp
    obtain "cache_ok ?c" by (rule evict_one_ok[OF Cons.prems order])
    then have later: "evicted_to ?c (evict_to_budget ?c)" "vc_bytes (evict_to_budget ?c) \<le> vc_capacity_bytes ?c"
      using Cons.hyps(1)[of ?c] by simp_all
    have step: "evict_to_budget c = evict_to_budget ?c" using over order by (subst evict_to_budget.simps) simp
    have "vc_capacity_bytes ?c = vc_capacity_bytes c" by (simp add: evict_one_def split: option.splits)
    then show ?thesis unfolding step using later evict_head[OF Cons.prems order] by simp
  qed
qed

section \<open>Reading and inserting\<close>

lemma cache_get_ok:
  assumes ok: "cache_ok c"
  shows "cache_ok (fst (cache_get object offset c))"
    and "snd (cache_get object offset c) = map_option ce_stored (entry_at c object offset)"
    and "map_option ce_stored (entry_at (fst (cache_get object offset c)) o' off) = map_option ce_stored (entry_at c o' off)"
    and "vc_capacity_bytes (fst (cache_get object offset c)) = vc_capacity_bytes c"
proof -
  show "snd (cache_get object offset c) = map_option ce_stored (entry_at c object offset)"
    by (auto simp: cache_get_def Let_def split: option.splits)
  show "map_option ce_stored (entry_at (fst (cache_get object offset c)) o' off) = map_option ce_stored (entry_at c o' off)"
    "vc_capacity_bytes (fst (cache_get object offset c)) = vc_capacity_bytes c"
    by (auto simp: cache_get_def Let_def split: option.splits)
  show "cache_ok (fst (cache_get object offset c))"
  proof (cases "entry_at c object offset")
    case None
    then show ?thesis using ok by (auto simp: cache_get_def Let_def cache_ok_def) (meson le_SucI)+
  next
    case (Some e)
    let ?t = "Suc (vc_tick c)"
    have order: "bt_get (vc_order c) (ce_tick e) = Some (object, offset)" using ok Some by (auto simp: cache_ok_def)
    define c' where "c' = set_entry object offset (e\<lparr>ce_tick := ?t\<rparr>) (c\<lparr>vc_tick := ?t, vc_hits := vc_hits c + 1,
      vc_order := bt_insert ?t (object, offset) (bt_remove (ce_tick e) (vc_order c))\<rparr>)"
    have c': "fst (cache_get object offset c) = c'"
      using Some order by (simp add: cache_get_def Let_def c'_def set_entry_def)
    have "bt_get (vc_order c') t = Some (o', off') \<longleftrightarrow> (\<exists>x. entry_at c' o' off' = Some x \<and> ce_tick x = t)" for t o' off'
    proof -
      have iff: "bt_get (vc_order c) t = Some (o', off') \<longleftrightarrow> (\<exists>x. entry_at c o' off' = Some x \<and> ce_tick x = t)"
        and bound: "\<And>x. entry_at c o' off' = Some x \<Longrightarrow> ce_tick x \<le> vc_tick c"
        using ok by (auto simp: cache_ok_def)
      show ?thesis using iff bound Some order by (cases "t = ?t") (auto simp: c'_def)
    qed
    moreover have "vc_bytes c' = cost_of (held c')"
    proof -
      have "held c' = held (set_entry object offset (e\<lparr>ce_tick := ?t\<rparr>) c)" by (simp add: c'_def held_set)
      then show ?thesis using cost_with[of c object offset "e\<lparr>ce_tick := ?t\<rparr>"] ok Some cost_le[OF Some]
        by (simp add: c'_def cache_ok_def)
    qed
    moreover have "bt_ok (vc_order c')" "finite (held c')" using ok by (simp_all add: cache_ok_def c'_def held_set keeps_ok)
    moreover have "ce_tick x \<le> vc_tick c'" if "entry_at c' o' off' = Some x" for o' off' x
      using that cache_ok_tick[OF ok, of o' off' x] by (auto simp: c'_def split: if_splits)
    ultimately show ?thesis unfolding c' by (intro cache_okI)
  qed
qed

lemma cache_insert_big: "vc_capacity_bytes c < cache_overhead_bytes + length (st_value s) \<Longrightarrow> cache_insert object offset s c = c"
  by (simp add: cache_insert_def Let_def)

text \<open>The cache just before an insertion evicts.\<close>

definition order_without :: "bytes \<Rightarrow> u64 \<Rightarrow> value_cache \<Rightarrow> (nat, bytes \<times> u64) btree" where
  "order_without object offset c =
     (case entry_at c object offset of None \<Rightarrow> vc_order c | Some e \<Rightarrow> bt_remove (ce_tick e) (vc_order c))"

definition before_eviction :: "bytes \<Rightarrow> u64 \<Rightarrow> stored \<Rightarrow> value_cache \<Rightarrow> value_cache" where
  "before_eviction object offset s c =
     (let t = Suc (vc_tick c); cost = cache_overhead_bytes + length (st_value s)
      in (set_entry object offset \<lparr>ce_stored = s, ce_tick = t, ce_cost = cost\<rparr> (c\<lparr>vc_tick := t\<rparr>))
        \<lparr>vc_bytes := (vc_bytes c - (case entry_at c object offset of None \<Rightarrow> 0 | Some e \<Rightarrow> ce_cost e)) + cost,
         vc_order := bt_insert t (object, offset) (order_without object offset c)\<rparr>)"

lemma cache_insert_fits:
  assumes ok: "cache_ok c" and fits: "cache_overhead_bytes + length (st_value s) \<le> vc_capacity_bytes c"
    and c2_eq: "c2 = before_eviction object offset s c"
  shows "cache_insert object offset s c = evict_to_budget c2" and "cache_ok c2" and "vc_capacity_bytes c2 = vc_capacity_bytes c"
    and "entry_at c2 = (\<lambda>o' off. if o' = object \<and> off = offset
      then Some \<lparr>ce_stored = s, ce_tick = Suc (vc_tick c), ce_cost = cache_overhead_bytes + length (st_value s)\<rparr> else entry_at c o' off)"
proof -
  let ?t = "Suc (vc_tick c)" and ?order = "order_without object offset c"
  let ?e = "\<lparr>ce_stored = s, ce_tick = ?t, ce_cost = cache_overhead_bytes + length (st_value s)\<rparr>"
  note c2_def = c2_eq[unfolded before_eviction_def Let_def] and order_def = order_without_def[of object offset c]
  show "cache_insert object offset s c = evict_to_budget c2"
    using fits by (cases "entry_at c object offset") (simp_all add: cache_insert_def Let_def c2_def order_def)
  show at: "entry_at c2 = (\<lambda>o' off. if o' = object \<and> off = offset then Some ?e else entry_at c o' off)"
    by (simp add: c2_def fun_eq_iff)
  have "bt_get (vc_order c2) t = Some (o', off') \<longleftrightarrow> (\<exists>x. entry_at c2 o' off' = Some x \<and> ce_tick x = t)" for t o' off'
  proof -
    have iff: "\<And>u. bt_get (vc_order c) t = Some (o', off') \<longleftrightarrow> (\<exists>x. entry_at c o' off' = Some x \<and> ce_tick x = t)"
      and bound: "\<And>x. entry_at c o' off' = Some x \<Longrightarrow> ce_tick x \<le> vc_tick c"
      and mine: "\<And>e. entry_at c object offset = Some e \<Longrightarrow> bt_get (vc_order c) (ce_tick e) = Some (object, offset)"
      using ok by (auto simp: cache_ok_def)
    show ?thesis
    proof (cases "t = ?t")
      case True
      then show ?thesis using bound by (auto simp: at c2_def)
    next
      case False
      then show ?thesis using iff mine by (cases "entry_at c object offset") (auto simp: at c2_def order_def split: if_splits)
    qed
  qed
  moreover have "vc_bytes c2 = cost_of (held c2)"
  proof -
    have "held c2 = held (set_entry object offset ?e c)" by (simp add: c2_def held_set)
    then show ?thesis using cost_with[of c object offset ?e] ok by (simp add: c2_def cache_ok_def)
  qed
  moreover have "bt_ok ?order" using ok by (simp add: order_def cache_ok_def keeps_ok split: option.splits)
  then have "bt_ok (vc_order c2)" "finite (held c2)" using ok by (simp_all add: cache_ok_def c2_def held_set keeps_ok)
  moreover have "ce_tick x \<le> vc_tick c2" if "entry_at c2 o' off' = Some x" for o' off' x
    using that cache_ok_tick[OF ok, of o' off' x] by (auto simp: at c2_def split: if_splits)
  ultimately show "cache_ok c2" by (intro cache_okI)
  show "vc_capacity_bytes c2 = vc_capacity_bytes c" by (simp add: c2_def)
qed

text \<open>The newest entry is never evicted while it fits on its own.\<close>

lemma newest_survives:
  assumes ok: "cache_ok c" and e: "entry_at c object offset = Some e" and fits: "ce_cost e \<le> vc_capacity_bytes c"
    and newest: "\<And>o' off x. entry_at c o' off = Some x \<Longrightarrow> (o', off) \<noteq> (object, offset) \<Longrightarrow> ce_tick x < ce_tick e"
  shows "entry_at (evict_to_budget c) object offset = Some e"
  using assms
proof (induction "vc_order c" arbitrary: c)
  case Nil
  have "bt_get (vc_order c) (ce_tick e) = Some (object, offset)" using Nil.prems(1,2) unfolding cache_ok_def by blast
  then show ?case by (simp flip: Nil.hyps)
next
  case (Cons x rest)
  obtain tick o1 off1 where x: "x = (tick, o1, off1)" by (cases x)
  have order: "vc_order c = (tick, o1, off1) # rest" using Cons.hyps(2) x by simp
  show ?case
  proof (cases "vc_bytes c \<le> vc_capacity_bytes c")
    case True
    then show ?thesis using Cons.prems by (subst evict_to_budget.simps) simp
  next
    case over: False
    let ?c = "evict_one tick o1 off1 (c\<lparr>vc_order := rest\<rparr>)"
    obtain e1 where e1: "entry_at c o1 off1 = Some e1" "ce_tick e1 = tick" and ok': "cache_ok ?c"
      and step: "?c = drop_entry o1 off1 (c\<lparr>vc_order := rest, vc_bytes := vc_bytes c - ce_cost e1, vc_evictions := vc_evictions c + 1\<rparr>)"
      by (rule evict_one_ok[OF Cons.prems(1) order])
    have "(o1, off1) \<noteq> (object, offset)"
    proof
      assume same: "(o1, off1) = (object, offset)"
      have "h = (object, offset, e)" if "h \<in> held c" for h
      proof (rule ccontr)
        assume ne: "h \<noteq> (object, offset, e)"
        obtain o2 off2 e2 where h: "h = (o2, off2, e2)" by (cases h)
        have at2: "entry_at c o2 off2 = Some e2" using that h by (simp add: held_iff)
        then have "(o2, off2) \<noteq> (object, offset)" using ne h Cons.prems(2) by auto
        then have "ce_tick e2 < tick" using Cons.prems(4)[OF at2] same e1 Cons.prems(2) by simp
        moreover have "bt_get (vc_order c) (ce_tick e2) = Some (o2, off2)" using Cons.prems(1) at2 by (auto simp: cache_ok_def)
        then have "ce_tick e2 \<in> fst ` set ((tick, o1, off1) # rest)" using order by (metis domI dom_map_of_conv_image_fst)
        then have "tick \<le> ce_tick e2" using Cons.prems(1) order by (auto simp: cache_ok_def)
        ultimately show False by simp
      qed
      moreover have "(object, offset, e) \<in> held c" using Cons.prems(2) by (simp add: held_iff)
      ultimately have "held c = {(object, offset, e)}" by blast
      then show False using over Cons.prems(1,3) by (simp add: cache_ok_def cost_of_def)
    qed
    then have "entry_at ?c object offset = Some e" using Cons.prems(2) by (auto simp: step)
    moreover have "vc_capacity_bytes ?c = vc_capacity_bytes c" by (simp add: step)
    moreover have "ce_tick y < ce_tick e" if "entry_at ?c o' off = Some y" "(o', off) \<noteq> (object, offset)" for o' off y
      using that Cons.prems(4) by (auto simp: step split: if_splits)
    ultimately have "entry_at (evict_to_budget ?c) object offset = Some e"
      using Cons.hyps(1)[of ?c] ok' Cons.prems(3) by simp
    then show ?thesis using over order by (subst evict_to_budget.simps) simp
  qed
qed

definition cached :: "value_cache \<Rightarrow> bytes \<Rightarrow> u64 \<Rightarrow> stored option" where
  "cached c object offset = map_option ce_stored (entry_at c object offset)"

lemma cache_insert_ok:
  assumes ok: "cache_ok c" and within: "vc_bytes c \<le> vc_capacity_bytes c" and c': "c' = cache_insert object offset s c"
  shows "cache_ok c' \<and> vc_bytes c' \<le> vc_capacity_bytes c' \<and> vc_capacity_bytes c' = vc_capacity_bytes c
    \<and> (if cache_overhead_bytes + length (st_value s) \<le> vc_capacity_bytes c then cached c' object offset = Some s else c' = c)
    \<and> (\<forall>o' off e. entry_at c' o' off = Some e \<longrightarrow> (o', off) \<noteq> (object, offset) \<longrightarrow> entry_at c o' off = Some e)
    \<and> (\<forall>o' off e o2 off2 e2. (o', off) \<noteq> (object, offset) \<longrightarrow> entry_at c o' off = Some e \<longrightarrow> entry_at c' o' off = None
        \<longrightarrow> entry_at c' o2 off2 = Some e2 \<longrightarrow> ce_tick e < ce_tick e2)"
proof (cases "cache_overhead_bytes + length (st_value s) \<le> vc_capacity_bytes c")
  case False
  then show ?thesis using cache_insert_big[of c s] ok within c' by auto
next
  case True
  let ?e = "\<lparr>ce_stored = s, ce_tick = Suc (vc_tick c), ce_cost = cache_overhead_bytes + length (st_value s)\<rparr>"
  obtain c2 where c2: "c' = evict_to_budget c2" "cache_ok c2" "vc_capacity_bytes c2 = vc_capacity_bytes c"
    and at: "entry_at c2 = (\<lambda>o' off. if o' = object \<and> off = offset then Some ?e else entry_at c o' off)"
    using cache_insert_fits[OF ok True refl] c' by metis
  note ev = evict_to_budget_ok[OF c2(2), folded c2(1)]
  have "ce_tick x < Suc (vc_tick c)" if "entry_at c o' off = Some x" for o' off x using ok that by (auto simp: cache_ok_def less_Suc_eq_le)
  then have "entry_at c' object offset = Some ?e"
    unfolding c2(1) using True c2 by (intro newest_survives) (auto simp: at split: if_splits)
  moreover have "entry_at c o' off = Some x" if "entry_at c' o' off = Some x" "(o', off) \<noteq> (object, offset)" for o' off x
    using ev that at unfolding evicted_to_def by (metis (no_types, lifting) prod.inject)
  moreover have "ce_tick x < ce_tick x2"
    if "(o', off) \<noteq> (object, offset)" "entry_at c o' off = Some x" "entry_at c' o' off = None" "entry_at c' o2 off2 = Some x2" for o' off x o2 off2 x2
  proof -
    have "entry_at c2 o' off = Some x" using that at by auto
    then show ?thesis using ev that unfolding evicted_to_def by blast
  qed
  ultimately show ?thesis using True ev c2(3) by (auto simp: cached_def evicted_to_def)
qed

end
