(* ===== verification/Cache_Lru.thy ===== *)
theory Cache_Lru
  imports Value_Cache
begin

text \<open>
  The value cache against its specification: a list of records, the least recently used first. A lookup
  moves its record to the end, an insertion puts it there and drops records from the front until the rest
  fits the budget. Every run of the cache answers as the list does and holds what the list holds.
\<close>

section \<open>The specification\<close>

type_synonym lru = "((bytes \<times> u64) \<times> stored) list"

definition record_cost :: "stored \<Rightarrow> nat" where
  "record_cost s = cache_overhead_bytes + length (st_value s)"

definition lru_cost :: "lru \<Rightarrow> nat" where
  "lru_cost l = sum_list (map (record_cost \<circ> snd) l)"

definition lru_touch :: "bytes \<times> u64 \<Rightarrow> stored \<Rightarrow> lru \<Rightarrow> lru" where
  "lru_touch k s l = filter (\<lambda>x. fst x \<noteq> k) l @ [(k, s)]"

definition lru_get :: "bytes \<times> u64 \<Rightarrow> lru \<Rightarrow> lru \<times> stored option" where
  "lru_get k l = (case map_of l k of None \<Rightarrow> (l, None) | Some s \<Rightarrow> (lru_touch k s l, Some s))"

fun lru_fit :: "nat \<Rightarrow> lru \<Rightarrow> lru" where
  "lru_fit capacity [] = []"
| "lru_fit capacity (x # l) = (if lru_cost (x # l) \<le> capacity then x # l else lru_fit capacity l)"

definition lru_insert :: "nat \<Rightarrow> bytes \<times> u64 \<Rightarrow> stored \<Rightarrow> lru \<Rightarrow> lru" where
  "lru_insert capacity k s l = (if capacity < record_cost s then l else lru_fit capacity (lru_touch k s l))"

datatype cache_op = Lookup bytes u64 | Hold bytes u64 stored

fun lru_step :: "nat \<Rightarrow> cache_op \<Rightarrow> lru \<Rightarrow> lru \<times> stored option" where
  "lru_step capacity (Lookup object offset) l = lru_get (object, offset) l"
| "lru_step capacity (Hold object offset s) l = (lru_insert capacity (object, offset) s l, None)"

fun cache_step :: "cache_op \<Rightarrow> value_cache \<Rightarrow> value_cache \<times> stored option" where
  "cache_step (Lookup object offset) c = cache_get object offset c"
| "cache_step (Hold object offset s) c = (cache_insert object offset s c, None)"

fun run_steps :: "('a \<Rightarrow> 's \<Rightarrow> 's \<times> 'r) \<Rightarrow> 'a list \<Rightarrow> 's \<Rightarrow> 's \<times> 'r list" where
  "run_steps step [] s = (s, [])"
| "run_steps step (a # as) s =
     (let (t, r) = step a s; (u, rs) = run_steps step as t in (u, r # rs))"

section \<open>The abstraction\<close>

definition recency :: "value_cache \<Rightarrow> lru" where
  "recency c = map (\<lambda>(_, k). (k, the (cached c (fst k) (snd k)))) (vc_order c)"

definition costs_ok :: "value_cache \<Rightarrow> bool" where
  "costs_ok c \<longleftrightarrow> (\<forall>object offset e. entry_at c object offset = Some e \<longrightarrow> ce_cost e = record_cost (ce_stored e))"

lemma order_iff:
  assumes "cache_ok c"
  shows "(t, k) \<in> set (vc_order c) \<longleftrightarrow> (\<exists>e. entry_at c (fst k) (snd k) = Some e \<and> ce_tick e = t)"
proof -
  have "distinct (map fst (vc_order c))" using assms by (simp add: cache_ok_def bt_ok_distinct)
  then have "(t, k) \<in> set (vc_order c) \<longleftrightarrow> bt_get (vc_order c) t = Some (fst k, snd k)" by simp
  then show ?thesis using assms unfolding cache_ok_def by blast
qed

lemma order_keys_distinct:
  assumes "cache_ok c"
  shows "distinct (map snd (vc_order c))"
proof -
  have "distinct (vc_order c)" using assms bt_ok_distinct distinct_map unfolding cache_ok_def by blast
  moreover have "inj_on snd (set (vc_order c))"
    by (rule inj_onI) (auto simp: order_iff[OF assms])
  ultimately show ?thesis by (simp add: distinct_map)
qed

lemma recency_keys: "map fst (recency c) = map snd (vc_order c)"
  by (simp add: recency_def case_prod_unfold)

lemma recency_distinct: "cache_ok c \<Longrightarrow> distinct (map fst (recency c))"
  by (simp add: recency_keys order_keys_distinct)

lemma map_of_recency:
  assumes "cache_ok c"
  shows "map_of (recency c) (object, offset) = cached c object offset"
proof (cases "entry_at c object offset")
  case None
  then have "(object, offset) \<notin> snd ` set (vc_order c)" by (auto simp: order_iff[OF assms])
  then have "(object, offset) \<notin> set (map fst (recency c))" by (simp add: recency_keys)
  then show ?thesis using None by (simp add: cached_def map_of_eq_None_iff)
next
  case (Some e)
  then have "(ce_tick e, object, offset) \<in> set (vc_order c)" by (simp add: order_iff[OF assms])
  then have "((object, offset), ce_stored e) \<in> set (recency c)"
    using Some by (force simp: recency_def cached_def)
  then show ?thesis using recency_distinct[OF assms] Some by (simp add: cached_def)
qed

text \<open>The bytes the cache counts are the cost of the list.\<close>

lemma bytes_are_the_cost:
  assumes ok: "cache_ok c" and costs: "costs_ok c"
  shows "vc_bytes c = lru_cost (recency c)"
proof -
  let ?h = "\<lambda>k. (fst k, snd k, the (entry_at c (fst k) (snd k)))"
  let ?ks = "map snd (vc_order c)"
  have keys: "set ?ks = {k. entry_at c (fst k) (snd k) \<noteq> None}"
    using order_iff[OF ok] by (force simp: image_iff)
  have "held c = ?h ` set ?ks" unfolding keys by (force simp: held_def image_iff)
  moreover have "inj_on ?h (set ?ks)" by (auto intro!: inj_onI simp: prod_eq_iff)
  ultimately have "cost_of (held c) = (\<Sum>k\<in>set ?ks. ce_cost (the (entry_at c (fst k) (snd k))))"
    by (simp add: cost_of_def sum.reindex)
  also have "\<dots> = sum_list (map (\<lambda>k. ce_cost (the (entry_at c (fst k) (snd k)))) ?ks)"
    by (rule sum_list_distinct_conv_sum_set[OF order_keys_distinct[OF ok], symmetric])
  also have "\<dots> = lru_cost (recency c)"
  proof -
    have "ce_cost (the (entry_at c (fst k) (snd k))) = record_cost (the (cached c (fst k) (snd k)))"
      if "(t, k) \<in> set (vc_order c)" for t k
      using that costs by (auto simp: order_iff[OF ok] costs_ok_def cached_def)
    then show ?thesis unfolding lru_cost_def recency_def by (auto intro!: arg_cong[of _ _ sum_list])
  qed
  finally show ?thesis using ok by (simp add: cache_ok_def)
qed

section \<open>Touching an entry\<close>

text \<open>
  A lookup and an insertion both take a record out of the order, if it is there, and put it at the end
  under a tick above all others.
\<close>

lemma recency_touch:
  assumes ok: "cache_ok c"
    and at: "\<And>o' off. cached c' o' off = (if (o', off) = (object, offset) then Some s else cached c o' off)"
    and order: "vc_order c' = bt_insert t (object, offset) (order_without object offset c)"
    and new: "vc_tick c < t"
  shows "recency c' = lru_touch (object, offset) s (recency c)"
proof -
  let ?k = "(object, offset)" and ?rest = "filter (\<lambda>x. snd x \<noteq> (object, offset)) (vc_order c)"
  have gone: "order_without object offset c = ?rest"
  proof (cases "entry_at c object offset")
    case None
    then show ?thesis by (auto simp: order_without_def order_iff[OF ok] intro!: sym[OF filter_True])
  next
    case (Some e)
    have "(ce_tick e, ?k) \<in> set (vc_order c)" using Some by (simp add: order_iff[OF ok])
    moreover have "distinct (map fst (vc_order c))" using ok by (simp add: cache_ok_def bt_ok_distinct)
    ultimately have "fst x = ce_tick e \<longleftrightarrow> snd x = ?k" if "x \<in> set (vc_order c)" for x
      using that Some order_iff[OF ok, of "fst x" "snd x"]
      by (metis eq_key_imp_eq_value fst_conv option.inject prod.collapse snd_conv)
    then show ?thesis using Some by (auto simp: order_without_def bt_remove_def intro!: filter_cong)
  qed
  have "bt_ok ?rest" using ok by (simp add: cache_ok_def keeps_ok)
  moreover have "\<forall>q\<in>set (map fst ?rest). q < t"
    using new cache_ok_tick[OF ok] by (fastforce simp: order_iff[OF ok])
  ultimately have "vc_order c' = ?rest @ [(t, ?k)]" unfolding order gone by (rule bt_insert_new_last)
  then have "recency c' = map (\<lambda>(_, k). (k, the (cached c' (fst k) (snd k)))) ?rest @ [(?k, s)]"
    by (simp add: recency_def at)
  also have "map (\<lambda>(_, k). (k, the (cached c' (fst k) (snd k)))) ?rest = filter (\<lambda>x. fst x \<noteq> ?k) (recency c)"
    unfolding recency_def filter_map by (auto simp: at comp_def case_prod_unfold intro!: map_cong filter_cong)
  finally show ?thesis by (simp add: lru_touch_def)
qed

section \<open>Eviction\<close>

lemma evict_one_fields [simp]:
  "vc_capacity_bytes (evict_one tick object offset c) = vc_capacity_bytes c" "vc_tick (evict_one tick object offset c) = vc_tick c"
  by (auto simp: evict_one_def split: option.splits)

lemma evict_one_counters:
  "vc_hits (evict_one tick object offset c) = vc_hits c" "vc_misses (evict_one tick object offset c) = vc_misses c"
  "vc_evictions (evict_one tick object offset c) \<le> Suc (vc_evictions c)"
  by (auto simp: evict_one_def drop_entry_def Let_def split: option.splits)

lemma recency_evict_one:
  assumes ok: "cache_ok c" and order: "vc_order c = (tick, object, offset) # rest"
  shows "recency (evict_one tick object offset (c\<lparr>vc_order := rest\<rparr>)) = tl (recency c)"
proof -
  let ?c = "evict_one tick object offset (c\<lparr>vc_order := rest\<rparr>)"
  obtain e where "entry_at c object offset = Some e" "ce_tick e = tick" "cache_ok ?c"
    and "?c = drop_entry object offset (c\<lparr>vc_order := rest, vc_bytes := vc_bytes c - ce_cost e, vc_evictions := vc_evictions c + 1\<rparr>)"
    by (rule evict_one_ok[OF ok order])
  then have at: "cached ?c o' off = (if (o', off) = (object, offset) then None else cached c o' off)" for o' off
    by (simp add: cached_def)
  have "(object, offset) \<notin> snd ` set rest" using order_keys_distinct[OF ok] order by simp
  then have "map (\<lambda>(_, k). (k, the (cached ?c (fst k) (snd k)))) rest = map (\<lambda>(_, k). (k, the (cached c (fst k) (snd k)))) rest"
    by (auto simp: at) (metis image_eqI prod.collapse snd_conv)
  then show ?thesis by (simp add: recency_def order)
qed

lemma costs_ok_evict_one:
  assumes "costs_ok c"
  shows "costs_ok (evict_one tick object offset (c\<lparr>vc_order := rest\<rparr>))"
  using assms by (auto simp: costs_ok_def evict_one_def split: option.splits if_splits)

lemma evict_to_budget_recency:
  assumes "cache_ok c" and "costs_ok c"
  shows "recency (evict_to_budget c) = lru_fit (vc_capacity_bytes c) (recency c) \<and> costs_ok (evict_to_budget c)
    \<and> vc_tick (evict_to_budget c) = vc_tick c \<and> vc_hits (evict_to_budget c) = vc_hits c \<and> vc_misses (evict_to_budget c) = vc_misses c
    \<and> vc_evictions (evict_to_budget c) + length (vc_order (evict_to_budget c)) \<le> vc_evictions c + length (vc_order c)"
  using assms
proof (induction "vc_order c" arbitrary: c)
  case Nil
  then have "recency c = []" by (simp add: recency_def)
  moreover then have "vc_bytes c = 0" using bytes_are_the_cost[OF Nil.prems] by (simp add: lru_cost_def)
  ultimately show ?case using Nil.prems(2) by (simp add: evict_to_budget.simps[of c])
next
  case (Cons x rest)
  obtain tick object offset where x: "x = (tick, object, offset)" by (cases x)
  have order: "vc_order c = (tick, object, offset) # rest" using Cons.hyps(2) x by simp
  then obtain y l where l: "recency c = y # l" by (simp add: recency_def)
  have cost: "vc_bytes c = lru_cost (y # l)" using bytes_are_the_cost[OF Cons.prems] l by simp
  show ?case
  proof (cases "vc_bytes c \<le> vc_capacity_bytes c")
    case True
    then show ?thesis using Cons.prems cost l by (simp add: evict_to_budget.simps[of c])
  next
    case False
    let ?c = "evict_one tick object offset (c\<lparr>vc_order := rest\<rparr>)"
    have step: "evict_to_budget c = evict_to_budget ?c" using False order by (simp add: evict_to_budget.simps[of c])
    obtain "cache_ok ?c" by (rule evict_one_ok[OF Cons.prems(1) order])
    moreover have "recency ?c = l" using recency_evict_one[OF Cons.prems(1) order] l by simp
    ultimately show ?thesis
      using Cons.hyps(1)[of ?c] costs_ok_evict_one[OF Cons.prems(2), of tick object offset rest] False cost l order
        evict_one_counters[of tick object offset "c\<lparr>vc_order := rest\<rparr>"]
      unfolding step by simp
  qed
qed

section \<open>Every step refines the list\<close>

text \<open>
  What holds between accesses, for a cache of a given budget after at most \<open>n\<close> of them. The last three
  conditions are why 64-bit counters do not wrap.
\<close>

definition lru_refines :: "nat \<Rightarrow> nat \<Rightarrow> value_cache \<Rightarrow> lru \<Rightarrow> bool" where
  "lru_refines capacity n c l \<longleftrightarrow> cache_ok c \<and> costs_ok c \<and> vc_capacity_bytes c = capacity \<and> vc_bytes c \<le> capacity
     \<and> recency c = l \<and> vc_tick c \<le> n \<and> vc_hits c + vc_misses c \<le> n \<and> vc_evictions c + length (vc_order c) \<le> n"

lemma lru_refines_new: "lru_refines capacity 0 (cache_new capacity) []"
proof -
  have "held (cache_new capacity) = {}" by (auto simp: held_def cache_new_def entry_at_def)
  then have "cache_ok (cache_new capacity)" by (simp add: cache_ok_def) (simp add: cache_new_def entry_at_def cost_of_def)
  then show ?thesis by (simp add: lru_refines_def) (simp add: costs_ok_def cache_new_def entry_at_def recency_def)
qed

lemma length_bt_remove: "bt_get m k = Some v \<Longrightarrow> length (bt_remove k m) < length m"
  unfolding bt_remove_def by (rule length_filter_less[OF map_of_SomeD]) simp_all

lemma lru_get_refines:
  assumes ref: "lru_refines capacity n c l"
  shows "lru_refines capacity (Suc n) (fst (cache_get object offset c)) (fst (lru_get (object, offset) l))
    \<and> snd (cache_get object offset c) = snd (lru_get (object, offset) l)"
proof -
  have ok: "cache_ok c" and costs: "costs_ok c" and l: "l = recency c" using ref by (simp_all add: lru_refines_def)
  let ?c = "fst (cache_get object offset c)"
  have look: "map_of l (object, offset) = cached c object offset" using map_of_recency[OF ok] l by simp
  show ?thesis
  proof (cases "entry_at c object offset")
    case None
    then have get: "cache_get object offset c = (c\<lparr>vc_tick := Suc (vc_tick c), vc_misses := Suc (vc_misses c)\<rparr>, None)"
      by (simp add: cache_get_def)
    have "lru_get (object, offset) l = (l, None)" using look None by (simp add: lru_get_def cached_def)
    moreover have "recency ?c = recency c" by (simp add: get recency_def cached_def)
    ultimately show ?thesis
      using ref cache_get_ok(1)[OF ok, of object offset] by (simp add: get lru_refines_def costs_ok_def)
  next
    case (Some e)
    have order: "bt_get (vc_order c) (ce_tick e) = Some (object, offset)" using ok Some by (auto simp: cache_ok_def)
    let ?t = "Suc (vc_tick c)"
    have get: "cache_get object offset c = (set_entry object offset (e\<lparr>ce_tick := ?t\<rparr>) (c\<lparr>vc_tick := ?t, vc_hits := Suc (vc_hits c),
        vc_order := bt_insert ?t (object, offset) (bt_remove (ce_tick e) (vc_order c))\<rparr>), Some (ce_stored e))"
      using Some order by (simp add: cache_get_def Let_def set_entry_def)
    have "recency ?c = lru_touch (object, offset) (ce_stored e) (recency c)"
      by (rule recency_touch[OF ok]) (auto simp: get Some cached_def order_without_def)
    moreover have "lru_get (object, offset) l = (lru_touch (object, offset) (ce_stored e) l, Some (ce_stored e))"
      using look Some by (simp add: lru_get_def cached_def)
    moreover have "length (vc_order ?c) \<le> length (vc_order c)"
      using length_bt_insert[of ?t "(object, offset)" "bt_remove (ce_tick e) (vc_order c)"] length_bt_remove[OF order]
      by (simp add: get)
    moreover have "costs_ok ?c" using costs Some by (auto simp: get costs_ok_def)
    ultimately show ?thesis
      using ref cache_get_ok(1,4)[OF ok, of object offset] l by (simp add: get lru_refines_def) (simp add: set_entry_def)
  qed
qed

text \<open>The cache just before an insertion evicts holds the new record last.\<close>

lemma insert_before_eviction:
  assumes ref: "lru_refines capacity n c l" and fits: "record_cost s \<le> capacity"
  obtains c2 where "cache_insert object offset s c = evict_to_budget c2" "cache_ok c2" "costs_ok c2"
    "recency c2 = lru_touch (object, offset) s l" "vc_capacity_bytes c2 = capacity" "vc_tick c2 = Suc (vc_tick c)"
    "vc_hits c2 = vc_hits c" "vc_misses c2 = vc_misses c" "vc_evictions c2 = vc_evictions c"
    "length (vc_order c2) \<le> Suc (length (vc_order c))"
proof -
  have ok: "cache_ok c" and l: "l = recency c" using ref by (simp_all add: lru_refines_def)
  define c2 where "c2 = before_eviction object offset s c"
  note c2 = c2_def[unfolded before_eviction_def Let_def]
  have "cache_overhead_bytes + length (st_value s) \<le> vc_capacity_bytes c" using fits ref by (simp add: record_cost_def lru_refines_def)
  note ins = cache_insert_fits[OF ok this c2_def]
  have "recency c2 = lru_touch (object, offset) s l"
    unfolding l by (rule recency_touch[OF ok, where t = "Suc (vc_tick c)"]) (auto simp: ins(4) cached_def, simp_all add: c2)
  moreover have "costs_ok c2" using ref by (auto simp: lru_refines_def costs_ok_def ins(4) record_cost_def)
  moreover have "length (order_without object offset c) \<le> length (vc_order c)"
    by (auto simp: order_without_def bt_remove_def split: option.split)
  then have "length (vc_order c2) \<le> Suc (length (vc_order c))"
    using length_bt_insert[of "Suc (vc_tick c)" "(object, offset)" "order_without object offset c"] by (simp add: c2)
  ultimately show thesis using that[OF ins(1,2)] ref by (simp add: c2 lru_refines_def set_entry_def)
qed

lemma lru_insert_refines:
  assumes ref: "lru_refines capacity n c l"
  shows "lru_refines capacity (Suc n) (cache_insert object offset s c) (lru_insert capacity (object, offset) s l)"
proof (cases "record_cost s \<le> capacity")
  case False
  then have "cache_insert object offset s c = c" using ref by (intro cache_insert_big) (simp add: lru_refines_def record_cost_def)
  then show ?thesis using False ref by (auto simp: lru_insert_def lru_refines_def)
next
  case True
  obtain c2 where c2: "cache_insert object offset s c = evict_to_budget c2" "cache_ok c2" "costs_ok c2"
    "recency c2 = lru_touch (object, offset) s l" "vc_capacity_bytes c2 = capacity" "vc_tick c2 = Suc (vc_tick c)"
    "vc_hits c2 = vc_hits c" "vc_misses c2 = vc_misses c" "vc_evictions c2 = vc_evictions c"
    "length (vc_order c2) \<le> Suc (length (vc_order c))"
    by (rule insert_before_eviction[OF ref True])
  have "evicted_to c2 (evict_to_budget c2)" "vc_bytes (evict_to_budget c2) \<le> capacity"
    using evict_to_budget_ok[OF c2(2)] c2(5) by simp_all
  then show ?thesis
    using evict_to_budget_recency[OF c2(2,3)] c2 ref True by (simp add: lru_insert_def lru_refines_def evicted_to_def)
qed

lemma lru_step_refines:
  assumes "lru_refines capacity n c l"
  shows "lru_refines capacity (Suc n) (fst (cache_step op c)) (fst (lru_step capacity op l)) \<and> snd (cache_step op c) = snd (lru_step capacity op l)"
  using lru_get_refines[OF assms] lru_insert_refines[OF assms] by (cases op) simp_all

lemma lru_run_refines:
  "lru_refines capacity n c l \<Longrightarrow>
     lru_refines capacity (n + length ops) (fst (run_steps cache_step ops c)) (fst (run_steps (lru_step capacity) ops l))
     \<and> snd (run_steps cache_step ops c) = snd (run_steps (lru_step capacity) ops l)"
proof (induction ops arbitrary: n c l)
  case (Cons op ops)
  note step = lru_step_refines[OF Cons.prems, of op]
  show ?case using Cons.IH[OF conjunct1[OF step]] conjunct2[OF step] by (simp add: case_prod_unfold Let_def)
qed simp

text \<open>
  C40. The value cache is a least-recently-used cache, within its budget. Driven from a new cache by any sequence of
  lookups and insertions, it answers every lookup as the list of records in order of their last access does, in which
  a lookup moves its record to the end, an insertion puts it there, and records are dropped from the front until the
  rest fits the budget; a record larger than the whole budget is not held and changes nothing. It holds exactly the records of
  that list, in that order, its byte count is their cost and within the budget, and no loop runs on. Over fewer than \<open>2 ^ 64\<close> accesses with a
  budget below \<open>2 ^ 63\<close> no counter leaves 64 bits: not the access counter, not the statistics, not the bytes while
  a record is added, and no entry costs more than the bytes counted when it is taken out.
\<close>

theorem cache_is_lru:
  assumes "capacity < 2 ^ 63" and "length ops < 2 ^ 64"
    and "run_steps cache_step ops (cache_new capacity) = (c, replies)" and "run_steps (lru_step capacity) ops [] = (l, answers)"
  shows "replies = answers \<and> recency c = l \<and> (\<forall>object offset. cached c object offset = map_of l (object, offset))
    \<and> vc_bytes c = lru_cost l \<and> vc_bytes c \<le> capacity
    \<and> vc_tick c < 2 ^ 64 \<and> vc_hits c < 2 ^ 64 \<and> vc_misses c < 2 ^ 64 \<and> vc_evictions c < 2 ^ 64
    \<and> (\<forall>s. record_cost s \<le> capacity \<longrightarrow> vc_bytes c + record_cost s < 2 ^ 64)
    \<and> (\<forall>object offset e. entry_at c object offset = Some e \<longrightarrow> ce_cost e \<le> vc_bytes c)"
proof -
  have ref: "lru_refines capacity (length ops) c l" and same: "replies = answers"
    using lru_run_refines[OF lru_refines_new, of capacity ops] assms(3,4) by simp_all
  then have ok: "cache_ok c" "costs_ok c" and l: "recency c = l" by (simp_all add: lru_refines_def)
  have "cached c object offset = map_of l (object, offset)" for object offset using map_of_recency[OF ok(1)] l by simp
  moreover have "vc_bytes c = lru_cost l" using bytes_are_the_cost[OF ok] l by simp
  moreover have "ce_cost e \<le> vc_bytes c" if "entry_at c object offset = Some e" for object offset e
    using cost_le[OF that] ok(1) by (simp add: cache_ok_def)
  ultimately show ?thesis using ref same l assms(1,2) by (auto simp: lru_refines_def)
qed

definition sample_stored :: "bytes \<Rightarrow> stored" where
  "sample_stored v = \<lparr>st_version = 1, st_expires_at_millis = None, st_deleted = False, st_value = v\<rparr>"

text \<open>Room for two records: the one that was looked up stays, the other makes way for the third.\<close>

definition sample_accesses :: "cache_op list" where
  "sample_accesses = [Hold [1] 32 (sample_stored [7]), Hold [1] 64 (sample_stored [8]), Lookup [1] 32,
     Hold [2] 32 (sample_stored [9]), Lookup [1] 64, Lookup [1] 32]"

theorem cache_is_lru_witness:
  "snd (run_steps cache_step sample_accesses (cache_new 200))
     = [None, None, Some (sample_stored [7]), None, None, Some (sample_stored [7])]
   \<and> vc_bytes (fst (run_steps cache_step sample_accesses (cache_new 200))) = 194"
proof -
  obtain c replies where c: "run_steps cache_step sample_accesses (cache_new 200) = (c, replies)" by fastforce
  obtain l answers where l: "run_steps (lru_step 200) sample_accesses [] = (l, answers)" by fastforce
  have "answers = [None, None, Some (sample_stored [7]), None, None, Some (sample_stored [7])]" "lru_cost l = 194"
    using l by (auto simp: sample_accesses_def lru_get_def lru_insert_def lru_touch_def lru_cost_def record_cost_def
        cache_overhead_bytes_def sample_stored_def)
  moreover have "(200 :: nat) < 2 ^ 63" "length sample_accesses < 2 ^ 64" by (simp_all add: sample_accesses_def)
  ultimately show ?thesis using cache_is_lru[OF _ _ c l] c by simp
qed

end
