(* ===== verification/Storage.thy ===== *)
theory Storage
  imports Value_Cache Seg_Commit
begin

text \<open>
  \<open>orbita-storage/src/partition.rs\<close>: one partition of a keyspace as a mutable table over immutable segments. Every
  method holds the publication mutex or the state lock across its changes, so a method is one step; the
  exception, \<open>flush_snapshot\<close>, releases the state lock while it works on the store and is three steps: the capture of the table, the
  publication (upload of the segment and commit of the manifest, one step: a cancellation between the two awaits, which leaves
  an object no manifest names, is not an event of its own) and the installation of what was published. What other writers do to the
  store while a commit is between its read and its write is a parameter of the environment; the theorems about a whole node
  take the memory store, whose calls do not fail, and no such writer.
\<close>

section \<open>State\<close>

record ('s, 'tag) storage_env =
  en_ops :: "('s, 'tag) store_ops"
  en_codec :: manifest_codec
  en_crc :: "bytes \<Rightarrow> u32"
  en_race :: "nat \<Rightarrow> 's \<Rightarrow> 's"

text \<open>The object store of the node and the value cache its partitions share.\<close>

record 's node_io =
  io_store :: 's
  io_cache :: value_cache

record loc =
  lo_segment :: nat
  lo_offset :: u64
  lo_record_length :: u32

record partition =
  pa_path :: partition_path
  pa_range :: key_range
  pa_writer :: partition_writer
  pa_read_ahead_bytes :: u64
  pa_maintenance_frozen :: bool
  pa_compaction_input_bytes :: u64
  pa_memtable :: "(bytes, stored) btree"
  pa_memtable_bytes :: u64
  pa_committed :: lamport
  pa_flushed :: lamport
  pa_flushed_epoch :: epoch
  pa_segments :: "segment_entry list"
  pa_index :: "(bytes, loc) btree"
  pa_index_bytes :: u64
  pa_full_flushes_since_compaction :: nat
  pa_timer_flushes_since_compaction :: nat
  pa_compaction_sweep_pending :: "(partition_id option \<times> bytes) list"
  pa_compaction_sweep_timer_debt :: nat
  pa_reclaim_attempted_at_bytes :: u64

type_synonym ('s, 'a) storage_action = "(partition \<times> 's node_io, storage_error, 'a) action"

definition format_says :: "format_error + 'a \<Rightarrow> storage_error + 'a" where
  "format_says r = (case r of Inl e \<Rightarrow> Inl (Internal (FormatSays e)) | Inr x \<Rightarrow> Inr x)"

definition store_says :: "object_error + 'a \<Rightarrow> storage_error + 'a" where
  "store_says r = (case r of Inl e \<Rightarrow> Inl (Internal (StoreSays e)) | Inr x \<Rightarrow> Inr x)"

definition index_cost :: "(bytes, loc) btree \<Rightarrow> u64" where
  "index_cost index = sum_list (map (\<lambda>(key, _). index_entry_cost key) index)"

definition memtable_cost :: "(bytes, stored) btree \<Rightarrow> u64" where
  "memtable_cost table = sum_list (map (\<lambda>(key, entry). entry_cost key entry) table)"

section \<open>Reading one record\<close>

record read_window =
  rw_start :: u64
  rw_end :: u64
  rw_followers :: nat
  rw_scanned :: nat

text \<open>The walk of \<open>plan_read_ahead\<close> over the index entries after the key.\<close>

fun read_ahead_walk :: "loc \<Rightarrow> u64 \<Rightarrow> (bytes \<times> loc) list \<Rightarrow> read_window \<Rightarrow> read_window" where
  "read_ahead_walk l budget [] w = w"
| "read_ahead_walk l budget ((_, n) # rest) w =
     (if max_read_ahead_scan \<le> rw_scanned w then w
      else
        let w = w\<lparr>rw_scanned := rw_scanned w + 1\<rparr>
        in if lo_segment n \<noteq> lo_segment l \<or> lo_offset n < rw_end w then read_ahead_walk l budget rest w
           else
             let candidate = lo_offset n + ucast (lo_record_length n)
             in if budget < saturating_sub candidate (rw_start w) then w
                else read_ahead_walk l budget rest (w\<lparr>rw_end := candidate, rw_followers := rw_followers w + 1\<rparr>))"

definition plan_read_ahead :: "(bytes, loc) btree \<Rightarrow> loc \<Rightarrow> bytes \<Rightarrow> u64 \<Rightarrow> read_window" where
  "plan_read_ahead index l key budget =
     (let w = \<lparr>rw_start = lo_offset l, rw_end = lo_offset l + ucast (lo_record_length l), rw_followers = 0, rw_scanned = 0\<rparr>
      in if budget = 0 then w else read_ahead_walk l budget (filter (\<lambda>e. key < fst e) index) w)"

definition is_winning_record :: "(bytes, loc) btree \<Rightarrow> bytes \<Rightarrow> nat \<Rightarrow> u64 \<Rightarrow> bool" where
  "is_winning_record index key segment offset =
     (case bt_get index key of None \<Rightarrow> False | Some found \<Rightarrow> lo_segment found = segment \<and> lo_offset found = offset)"

definition stored_of :: "segment_record \<Rightarrow> bytes \<Rightarrow> stored" where
  "stored_of r v =
     \<lparr>st_version = sr_lamport r, st_expires_at_millis = sr_expires_at_millis r, st_deleted = is_tombstone r, st_value = v\<rparr>"

definition inline_value :: "segment_record \<Rightarrow> bytes option" where
  "inline_value r = (case sr_value r of Inline v \<Rightarrow> Some v | Tombstone \<Rightarrow> Some [] | External _ \<Rightarrow> None)"

text \<open>\<open>warm_followers\<close>: \<open>offset\<close> is \<open>start + offset_in_window\<close>.\<close>

function warm_followers ::
  "(bytes \<Rightarrow> u32) \<Rightarrow> (bytes, loc) btree \<Rightarrow> nat \<Rightarrow> bytes \<Rightarrow> u64 \<Rightarrow> bytes \<Rightarrow> value_cache \<Rightarrow> value_cache" where
  "warm_followers crc index segment object offset rest c =
     (if rest = [] then c
      else case record_decode crc rest of
             Inl _ \<Rightarrow> c
           | Inr (r, consumed) \<Rightarrow>
               if consumed = 0 then c
               else warm_followers crc index segment object (offset + word_of_nat consumed) (drop consumed rest)
                 (if is_winning_record index (sr_key r) segment offset
                  then case inline_value r of Some v \<Rightarrow> cache_insert object offset (stored_of r v) c | None \<Rightarrow> c
                  else c))"
  by pat_completeness auto

termination by (relation "measure (\<lambda>(_, _, _, _, _, rest, _). length rest)") auto

declare warm_followers.simps [simp del]

definition fetch_value ::
  "('s, 'tag) storage_env \<Rightarrow> partition \<Rightarrow> segment_entry \<Rightarrow> segment_record \<Rightarrow> 's \<Rightarrow> storage_error + bytes" where
  "fetch_value env p entry r s =
     (case sr_value r of
        Tombstone \<Rightarrow> Inr []
      | Inline v \<Rightarrow> Inr v
      | External x \<Rightarrow>
          (case (case se_source entry of
                   None \<Rightarrow> Some (object_key (pa_path p) (ev_name x))
                 | Some source \<Rightarrow> map_option (\<lambda>path. object_key path (ev_name x)) (for_partition source (pa_path p))) of
             None \<Rightarrow> Inl (Internal Panicked)
           | Some value_key \<Rightarrow>
               bind_res (store_says (so_get (en_ops env) s value_key)) (\<lambda>(b, _).
                 if word_of_nat (length b) \<noteq> ev_length x \<or> en_crc env b \<noteq> ev_crc32c x
                 then Inl (Internal (ExternalMismatch (ev_name x))) else Inr b)))"

definition fetch :: "('s, 'tag) storage_env \<Rightarrow> loc \<Rightarrow> bytes \<Rightarrow> ('s, stored) storage_action" where
  "fetch env l key ps =
     (let (p, io) = ps
      in if length (pa_segments p) \<le> lo_segment l then (ps, Inl (Internal Panicked))
         else
           let entry = pa_segments p ! lo_segment l
           in case resolve_segment (pa_path p) entry of
                None \<Rightarrow> (ps, Inl (Internal Panicked))
              | Some object \<Rightarrow>
                  (case cache_get object (lo_offset l) (io_cache io) of
                     (c, Some found) \<Rightarrow> ((p, io\<lparr>io_cache := c\<rparr>), Inr found)
                   | (c, None) \<Rightarrow>
                       let w = plan_read_ahead (pa_index p) l key (pa_read_ahead_bytes p);
                           io = io\<lparr>io_cache := c\<rparr>
                       in case store_says (so_get_range (en_ops env) (io_store io) object (unat (rw_start w), unat (rw_end w))) of
                            Inl e \<Rightarrow> ((p, io), Inl e)
                          | Inr raw \<Rightarrow>
                              (case format_says (record_decode (en_crc env) raw) of
                                 Inl e \<Rightarrow> ((p, io), Inl e)
                               | Inr (r, consumed) \<Rightarrow>
                                   if sr_key r \<noteq> key then ((p, io), Inl (Internal (DifferentRecord (se_name entry))))
                                   else if rw_followers w = 0 \<and> consumed \<noteq> length raw
                                   then ((p, io), Inl (Internal (DifferentRecord (se_name entry))))
                                   else
                                     let c = (if 0 < rw_followers w
                                              then warm_followers (en_crc env) (pa_index p) (lo_segment l) object
                                                     (rw_start w + word_of_nat consumed) (drop consumed raw) (io_cache io)
                                              else io_cache io)
                                     in case fetch_value env p entry r (io_store io) of
                                          Inl e \<Rightarrow> ((p, io\<lparr>io_cache := c\<rparr>), Inl e)
                                        | Inr v \<Rightarrow>
                                            let found = stored_of r v
                                            in ((p, io\<lparr>io_cache := cache_insert object (lo_offset l) found c\<rparr>), Inr found))))"

definition load :: "('s, 'tag) storage_env \<Rightarrow> bytes \<Rightarrow> ('s, stored option) storage_action" where
  "load env key ps =
     (case bt_get (pa_memtable (fst ps)) key of
        Some entry \<Rightarrow> (ps, Inr (Some entry))
      | None \<Rightarrow>
          (case bt_get (pa_index (fst ps)) key of
             None \<Rightarrow> (ps, Inr None)
           | Some l \<Rightarrow> act_bind (fetch env l key) (\<lambda>s. act_ret (Some s)) ps))"

section \<open>Publishing the mutable table\<close>

definition records_of :: "(bytes, stored) btree \<Rightarrow> segment_record list" where
  "records_of table = map (\<lambda>(key, entry). segment_record_of key entry) table"

text \<open>Writing a segment and committing a manifest through the partition's writer.\<close>

definition write_segment :: "('s, 'tag) storage_env \<Rightarrow> built_segment \<Rightarrow> ('s, segment_entry) storage_action" where
  "write_segment env built ps =
     (let (p, io) = ps; ((w, s), r) = put_segment (en_ops env) built (pa_writer p, io_store io)
      in ((p\<lparr>pa_writer := w\<rparr>, io\<lparr>io_store := s\<rparr>), format_says r))"

definition commit_manifest ::
  "('s, 'tag) storage_env \<Rightarrow> lamport \<Rightarrow> segment_entry list \<Rightarrow> ('s, manifest) storage_action" where
  "commit_manifest env committed segments ps =
     (let (p, io) = ps;
          (s, r) = commit (en_ops env) (en_codec env) (pa_writer p)
            (\<lambda>_. \<lparr>cp_committed_lamport = committed, cp_range = pa_range p, cp_segments = segments\<rparr>) (en_race env) (io_store io)
      in ((p, io\<lparr>io_store := s\<rparr>), format_says r))"

definition build_table ::
  "('s, 'tag) storage_env \<Rightarrow> partition \<Rightarrow> segment_record list \<Rightarrow> storage_error + built_segment" where
  "build_table env p rs =
     format_says (build_segment (en_crc env) (pp_keyspace_id (pa_path p)) (pp_partition_id (pa_path p)) (pw_epoch (pa_writer p)) rs)"

definition index_insert :: "nat \<Rightarrow> index_entry \<Rightarrow> partition \<Rightarrow> partition" where
  "index_insert position e p =
     p\<lparr>pa_index := bt_insert (ie_key e)
         \<lparr>lo_segment = position, lo_offset = ie_offset e, lo_record_length = ie_record_length e\<rparr> (pa_index p),
       pa_index_bytes := (if bt_get (pa_index p) (ie_key e) = None then pa_index_bytes p + index_entry_cost (ie_key e) else pa_index_bytes p)\<rparr>"

definition flush_locked :: "('s, 'tag) storage_env \<Rightarrow> bool \<Rightarrow> ('s, unit) storage_action" where
  "flush_locked env full_flush ps =
     (let p = fst ps
      in if pa_memtable p = [] then (ps, Inr ())
         else case build_table env p (records_of (pa_memtable p)) of
                Inl e \<Rightarrow> (ps, Inl e)
              | Inr built \<Rightarrow>
                  act_bind (write_segment env built) (\<lambda>published.
                  act_bind (commit_manifest env (pa_committed p) (pa_segments p @ [published])) (\<lambda>m.
                  act_modify (\<lambda>(p, io).
                    (let p = fold (index_insert (length (mf_segments m) - 1)) (bs_index built) p
                     in p\<lparr>pa_flushed_epoch := max (pa_flushed_epoch p) (mf_epoch m), pa_segments := mf_segments m,
                          pa_memtable := [], pa_memtable_bytes := 0, pa_flushed := pa_committed p,
                          pa_full_flushes_since_compaction := pa_full_flushes_since_compaction p + (if full_flush then 1 else 0)\<rparr>, io)))) ps)"

text \<open>
  \<open>flush_snapshot\<close> releases the state lock while it uploads, so it is three steps: it captures the table, publishes the
  capture, and installs what it published into the state of that moment. The publication mutex keeps \<open>put\<close>,
  \<open>delete\<close> and other flushes out in between; \<open>get\<close> and \<open>apply\<close> are not kept out.
\<close>

record flush_capture =
  fc_full :: bool
  fc_table :: "(bytes, stored) btree"
  fc_segments :: "segment_entry list"
  fc_committed :: lamport

record flush_result =
  fr_capture :: flush_capture
  fr_built :: built_segment
  fr_manifest :: manifest

definition flush_begin :: "bool \<Rightarrow> partition \<Rightarrow> partition \<times> flush_capture option" where
  "flush_begin full_flush p =
     (if pa_maintenance_frozen p then (p, None)
      else if full_flush \<and> pa_memtable_bytes p < flush_trigger_bytes then (p, None)
      else
        let p = (if \<not> full_flush \<and> pa_segments p \<noteq> [] then p\<lparr>pa_timer_flushes_since_compaction := pa_timer_flushes_since_compaction p + 1\<rparr> else p)
        in if pa_memtable p = [] then (p, None)
           else (p, Some \<lparr>fc_full = full_flush, fc_table = pa_memtable p, fc_segments = pa_segments p, fc_committed = pa_committed p\<rparr>))"

definition flush_publish :: "('s, 'tag) storage_env \<Rightarrow> flush_capture \<Rightarrow> ('s, flush_result) storage_action" where
  "flush_publish env cap ps =
     (case build_table env (fst ps) (records_of (fc_table cap)) of
        Inl e \<Rightarrow> (ps, Inl e)
      | Inr built \<Rightarrow>
          act_bind (write_segment env built) (\<lambda>published.
          act_bind (commit_manifest env (fc_committed cap) (fc_segments cap @ [published])) (\<lambda>m.
          act_ret \<lparr>fr_capture = cap, fr_built = built, fr_manifest = m\<rparr>)) ps)"

definition flush_install :: "flush_result \<Rightarrow> partition \<Rightarrow> partition" where
  "flush_install r p =
     (let m = fr_manifest r; committed = fc_committed (fr_capture r);
          p = fold (index_insert (length (mf_segments m) - 1)) (bs_index (fr_built r)) p;
          table = filter (\<lambda>(_, entry). committed < st_version entry) (pa_memtable p)
      in p\<lparr>pa_memtable := table, pa_memtable_bytes := memtable_cost table, pa_segments := mf_segments m,
           pa_flushed_epoch := max (pa_flushed_epoch p) (mf_epoch m), pa_flushed := committed,
           pa_full_flushes_since_compaction := pa_full_flushes_since_compaction p + (if fc_full (fr_capture r) then 1 else 0)\<rparr>)"

definition flush_snapshot :: "('s, 'tag) storage_env \<Rightarrow> bool \<Rightarrow> ('s, unit) storage_action" where
  "flush_snapshot env full_flush ps =
     (case flush_begin full_flush (fst ps) of
        (p, None) \<Rightarrow> ((p, snd ps), Inr ())
      | (p, Some cap) \<Rightarrow> act_bind (flush_publish env cap) (\<lambda>r. act_modify (\<lambda>(p, io). (flush_install r p, io))) (p, snd ps))"

text \<open>
  \<open>Partition::commit\<close>: the entry goes to the mutable table; a flush it trips may fail without failing it.
\<close>

definition commit_entry :: "('s, 'tag) storage_env \<Rightarrow> lamport \<Rightarrow> bytes \<Rightarrow> stored \<Rightarrow> bool \<Rightarrow> ('s, unit) storage_action" where
  "commit_entry env l key entry flush_on_trigger ps =
     (let (p, io) = ps;
          kept = (case bt_get (pa_memtable p) key of
                    Some replaced \<Rightarrow> saturating_sub (pa_memtable_bytes p) (entry_cost key replaced)
                  | None \<Rightarrow> pa_memtable_bytes p);
          p = p\<lparr>pa_memtable := bt_insert key entry (pa_memtable p), pa_memtable_bytes := kept + entry_cost key entry, pa_committed := l\<rparr>
      in if flush_on_trigger \<and> flush_trigger_bytes \<le> pa_memtable_bytes p
         then (fst (flush_locked env True (p, io)), Inr ())
         else ((p, io), Inr ()))"

section \<open>The interface\<close>

definition check_key :: "bytes \<Rightarrow> ('s, unit) storage_action" where
  "check_key key ps =
     (if max_key_bytes < length key then (ps, Inl (TooLarge ''key'' (length key) max_key_bytes))
      else if \<not> contains (pa_range (fst ps)) key then (ps, Inl (InvalidArgument OutsideRange))
      else (ps, Inr ()))"

definition check_lamport :: "lamport \<Rightarrow> ('s, unit) storage_action" where
  "check_lamport l ps =
     (if l \<le> pa_committed (fst ps) then (ps, Inl (InvalidArgument (LamportNotAhead l (pa_committed (fst ps))))) else (ps, Inr ()))"

definition partition_get :: "('s, 'tag) storage_env \<Rightarrow> u64 \<Rightarrow> bytes \<Rightarrow> ('s, stored_record option) storage_action" where
  "partition_get env now_millis key =
     act_then (check_key key) (act_bind (load env key) (\<lambda>found. act_ret (Option.bind found (\<lambda>s. visible_at s now_millis))))"

definition check_value :: "bytes \<Rightarrow> ('s, unit) storage_action" where
  "check_value v ps = (if max_value_bytes < length v then (ps, Inl (TooLarge ''value'' (length v) max_value_bytes)) else (ps, Inr ()))"

definition partition_put ::
  "('s, 'tag) storage_env \<Rightarrow> u64 \<Rightarrow> lamport \<Rightarrow> bytes \<Rightarrow> bytes \<Rightarrow> nat option \<Rightarrow> write_condition \<Rightarrow> ('s, write_outcome) storage_action" where
  "partition_put env now_millis l key v ttl condition =
     act_then (check_key key) (act_then (check_value v) (act_then (check_lamport l)
     (act_bind (load env key) (\<lambda>existing.
        case evaluate condition existing now_millis of
          Some failure \<Rightarrow> act_ret failure
        | None \<Rightarrow>
            act_then (commit_entry env l key
              \<lparr>st_version = version_at l, st_expires_at_millis = map_option (absolute_expiry now_millis) ttl, st_deleted = False, st_value = v\<rparr> True)
              (act_ret (Applied (version_at l)))))))"

definition partition_delete ::
  "('s, 'tag) storage_env \<Rightarrow> u64 \<Rightarrow> lamport \<Rightarrow> bytes \<Rightarrow> write_condition \<Rightarrow> ('s, write_outcome) storage_action" where
  "partition_delete env now_millis l key condition =
     act_then (check_key key) (act_then (check_lamport l)
     (act_bind (load env key) (\<lambda>existing.
        case evaluate condition existing now_millis of
          Some failure \<Rightarrow> act_ret failure
        | None \<Rightarrow>
            (case existing of
               Some entry \<Rightarrow>
                 if st_deleted entry \<and> \<not> stored_expired_at entry now_millis then act_ret (Applied (st_version entry))
                 else act_then (commit_entry env l key
                   \<lparr>st_version = version_at l, st_expires_at_millis = Some (saturating_add now_millis tombstone_retention_millis),
                    st_deleted = True, st_value = []\<rparr> True) (act_ret (Applied (version_at l)))
             | None \<Rightarrow>
                 act_then (commit_entry env l key
                   \<lparr>st_version = version_at l, st_expires_at_millis = Some (saturating_add now_millis tombstone_retention_millis),
                    st_deleted = True, st_value = []\<rparr> True) (act_ret (Applied (version_at l)))))))"

definition partition_apply :: "('s, 'tag) storage_env \<Rightarrow> mutation \<Rightarrow> ('s, unit) storage_action" where
  "partition_apply env m =
     act_then (check_key (mu_key m))
     (act_then (case mu_op m of MutPut v _ \<Rightarrow> check_value v | MutDelete _ \<Rightarrow> act_ret ())
     (\<lambda>ps. if mu_lamport m \<le> pa_committed (fst ps) then (ps, Inr ())
           else commit_entry env (mu_lamport m) (mu_key m) (entry_of_mutation m) False ps))"

end
