(* ===== verification/Storage_Inv.thy ===== *)
theory Storage_Inv
  imports Storage
begin

text \<open>
  The invariant of a partition: the index names, for every key, the newest record of all published segments, and the
  bytes at that place of that object are that record. The records of the segments are a ghost of the invariant,
  one list for each published segment. Under it a read returns the newest entry, whether from the table, from the
  cache or from the store, with any read-ahead window.
\<close>

section \<open>Records in objects\<close>

definition is_inline :: "segment_record \<Rightarrow> bool" where
  "is_inline r = (inline_value r \<noteq> None)"

definition entry_of_record :: "segment_record \<Rightarrow> stored" where
  "entry_of_record r = stored_of r (the (inline_value r))"

text \<open>The bytes of an object from an offset on begin with a record.\<close>

definition record_here :: "(bytes \<Rightarrow> u32) \<Rightarrow> bytes \<Rightarrow> u64 \<Rightarrow> segment_record \<Rightarrow> bool" where
  "record_here crc b offset r \<longleftrightarrow> record_framed r \<and> is_inline r \<and> (\<exists>rest. drop (unat offset) b = record_encode crc r @ rest)"

definition entry_matches :: "segment_entry \<Rightarrow> built_segment \<Rightarrow> bool" where
  "entry_matches e b \<longleftrightarrow> (\<exists>ep seq. se_name e = segment_name ep seq) \<and> se_bytes e = word_of_nat (length (bs_bytes b))
     \<and> se_record_count e = bs_record_count b \<and> se_min_lamport e = bs_min_lamport b \<and> se_max_lamport e = bs_max_lamport b"

definition segment_object ::
  "('s, 'tag) storage_env \<Rightarrow> 's \<Rightarrow> partition_path \<Rightarrow> segment_entry \<Rightarrow> segment_record list \<Rightarrow> bool" where
  "segment_object env s path e rs \<longleftrightarrow> records_ok (en_crc env) rs \<and> rs \<noteq> [] \<and> list_all is_inline rs
     \<and> (\<exists>object b t ks pid ep. resolve_segment path e = Some object \<and> object_at (en_ops env) s object = Some (bs_bytes b, t)
         \<and> build_segment (en_crc env) ks pid ep rs = Inr b \<and> length (bs_bytes b) < 2 ^ 64 \<and> entry_matches e b)"

text \<open>The place an index entry of a segment gives to its \<open>i\<close>-th record.\<close>

definition placed :: "(bytes \<Rightarrow> u32) \<Rightarrow> segment_record list \<Rightarrow> loc \<Rightarrow> segment_record \<Rightarrow> bool" where
  "placed crc rs l r \<longleftrightarrow> (\<exists>i<length rs. r = rs ! i \<and> lo_offset l = ie_offset (entries_at crc header_len rs ! i)
     \<and> lo_record_length l = ie_record_length (entries_at crc header_len rs ! i))"

definition index_ok :: "(bytes \<Rightarrow> u32) \<Rightarrow> segment_record list list \<Rightarrow> (bytes, loc) btree \<Rightarrow> bool" where
  "index_ok crc RS index \<longleftrightarrow> bt_ok index \<and>
     (\<forall>key. case bt_get index key of
        None \<Rightarrow> newest (concat RS) key = None
      | Some l \<Rightarrow> lo_segment l < length RS \<and> (\<exists>r. newest (concat RS) key = Some r \<and> placed crc (RS ! lo_segment l) l r))"

definition table_ok :: "partition \<Rightarrow> bool" where
  "table_ok p \<longleftrightarrow> bt_ok (pa_memtable p) \<and> pa_flushed p \<le> pa_committed p \<and>
     (\<forall>(key, e)\<in>set (pa_memtable p). pa_flushed p < st_version e \<and> st_version e \<le> pa_committed p \<and> contains (pa_range p) key
        \<and> length key \<le> max_key_bytes \<and> length (st_value e) \<le> max_value_bytes \<and> (st_deleted e \<longrightarrow> st_value e = []))"

definition cache_coherent :: "('s, 'tag) storage_env \<Rightarrow> 's node_io \<Rightarrow> bool" where
  "cache_coherent env io \<longleftrightarrow> cache_ok (io_cache io) \<and> vc_bytes (io_cache io) \<le> vc_capacity_bytes (io_cache io)
     \<and> (\<forall>object offset x. cached (io_cache io) object offset = Some x \<longrightarrow>
         (\<exists>b t r. object_at (en_ops env) (io_store io) object = Some (b, t) \<and> object \<noteq> [] \<and> last object = 103
            \<and> record_here (en_crc env) b offset r \<and> x = entry_of_record r))"

definition segments_ok where
  "segments_ok env s p RS \<longleftrightarrow> length RS = length (pa_segments p)
     \<and> (\<forall>i<length RS. segment_object env s (pa_path p) (pa_segments p ! i) (RS ! i))
     \<and> index_ok (en_crc env) RS (pa_index p) \<and> one_per_lamport (concat RS) \<and> (\<forall>r\<in>set (concat RS). sr_lamport r \<le> pa_flushed p)"

definition contents :: "segment_record list list \<Rightarrow> partition \<Rightarrow> bytes \<Rightarrow> stored option" where
  "contents RS p key =
     (case bt_get (pa_memtable p) key of
        Some e \<Rightarrow> Some e
      | None \<Rightarrow> map_option entry_of_record (newest (concat RS) key))"

lemma record_here_unique:
  assumes "record_here crc b offset r" and "record_here crc b offset r'"
  shows "r = r'"
proof -
  obtain rest rest' where "record_encode crc r @ rest = record_encode crc r' @ rest'" using assms by (metis record_here_def)
  then show ?thesis using assms record_roundtrip[of r crc rest] record_roundtrip[of r' crc rest'] by (simp add: record_here_def)
qed

lemma entries_at_bound:
  "i < length rs \<Longrightarrow> list_all (\<lambda>r. len32 (record_encode crc r)) rs \<Longrightarrow> off + length (data_of crc rs) < 2 ^ 64 \<Longrightarrow>
   unat (ie_offset (entries_at crc off rs ! i)) + unat (ie_record_length (entries_at crc off rs ! i)) \<le> off + length (data_of crc rs)
   \<and> unat (ie_record_length (entries_at crc off rs ! i)) = length (record_encode crc (rs ! i))"
proof (induction rs arbitrary: i off)
  case (Cons r rs)
  show ?case
  proof (cases i)
    case 0
    then show ?thesis using Cons.prems by (simp add: data_of_def unat_of_nat unat_len32)
  next
    case (Suc j)
    then show ?thesis using Cons.IH[of j "off + length (record_encode crc r)"] Cons.prems by (simp add: data_of_def)
  qed
qed simp

text \<open>Where the index of a built segment points, the object holds the record, all of it inside the object.\<close>

lemma placed_here:
  assumes ok: "records_ok crc rs" "rs \<noteq> []" "list_all is_inline rs"
    and b: "build_segment crc ks pid ep rs = Inr b" "length (bs_bytes b) < 2 ^ 64" and l: "placed crc rs l r"
  shows "record_here crc (bs_bytes b) (lo_offset l) r \<and> unat (lo_record_length l) = length (record_encode crc r)
    \<and> unat (lo_offset l) + unat (lo_record_length l) \<le> length (bs_bytes b)"
proof -
  obtain i where i: "i < length rs" "r = rs ! i" "lo_offset l = ie_offset (entries_at crc header_len rs ! i)"
    "lo_record_length l = ie_record_length (entries_at crc header_len rs ! i)"
    using l by (auto simp: placed_def)
  obtain b1 f h where b1: "build_segment crc ks pid ep rs = Inr b1"
    "bs_bytes b1 = header_encode h @ data_of crc rs @ concat (map index_entry_encode (entries_at crc header_len rs)) @ footer_encode crc f"
    "bs_index b1 = entries_at crc header_len rs"
    by (rule build_segment_ok[OF ok(1,2)])
  then have same: "b1 = b" using b(1) by simp
  have framed: "record_framed r" "len32 (record_encode crc r)" "is_inline r"
    using ok i by (auto simp: records_ok_def list_all_length)
  have len: "list_all (\<lambda>r. len32 (record_encode crc r)) rs" using ok(1) by (auto simp: records_ok_def list_all_iff)
  have "header_len + length (data_of crc rs) < 2 ^ 64" using b(2) b1(2) same by simp
  note bound = entries_at_bound[OF i(1) len this]
  have slice: "take (unat (lo_record_length l)) (drop (unat (lo_offset l)) (bs_bytes b)) = record_encode crc r"
    using entries_locate_built[OF ok(1,2) b i(1)] b1(3) same i by simp
  then have "drop (unat (lo_offset l)) (bs_bytes b) = record_encode crc r @ drop (unat (lo_record_length l)) (drop (unat (lo_offset l)) (bs_bytes b))"
    by (metis append_take_drop_id)
  then have "record_here crc (bs_bytes b) (lo_offset l) r" using framed unfolding record_here_def by blast
  moreover have "header_len + length (data_of crc rs) \<le> length (bs_bytes b)" using b1(2) same by simp
  ultimately show ?thesis using bound i by simp
qed

section \<open>The read-ahead window\<close>

text \<open>Every entry of the index lies inside its object, so every window does.\<close>

definition window_ok :: "nat \<Rightarrow> loc \<Rightarrow> read_window \<Rightarrow> bool" where
  "window_ok nbytes l w \<longleftrightarrow> rw_start w = lo_offset l \<and> unat (lo_offset l) + unat (lo_record_length l) \<le> unat (rw_end w) \<and> unat (rw_end w) \<le> nbytes
     \<and> (rw_followers w = 0 \<longrightarrow> unat (rw_end w) = unat (lo_offset l) + unat (lo_record_length l))"

lemma unat_place:
  fixes offset :: u64 and len :: u32
  assumes "unat offset + unat len \<le> nbytes" and "nbytes < 2 ^ 64"
  shows "unat (offset + ucast len) = unat offset + unat len"
proof -
  have len: "unat (ucast len :: u64) = unat len" using unsigned_less[of len, where 'a = nat]
    by (simp add: unsigned_ucast_eq take_bit_nat_eq_self)
  then have "unat offset + unat (ucast len :: u64) < 2 ^ 64" using assms by simp
  then show ?thesis by (simp add: unat_word_ariths len)
qed

lemma read_ahead_walk_ok:
  assumes "\<forall>(_, n)\<in>set es. lo_segment n = lo_segment l \<longrightarrow> unat (lo_offset n) + unat (lo_record_length n) \<le> nbytes" and "nbytes < 2 ^ 64"
  shows "window_ok nbytes l w \<Longrightarrow> window_ok nbytes l (read_ahead_walk l budget es w)"
  using assms(1)
proof (induction es arbitrary: w)
  case (Cons e es)
  obtain k n where e: "e = (k, n)" by (cases e)
  let ?w = "w\<lparr>rw_scanned := rw_scanned w + 1\<rparr>"
  have w: "window_ok nbytes l ?w" using Cons.prems(1) by (simp add: window_ok_def)
  show ?case
  proof (cases "lo_segment n \<noteq> lo_segment l \<or> lo_offset n < rw_end w")
    case True
    then show ?thesis using Cons.IH[OF w] Cons.prems e by (simp add: Let_def)
  next
    case False
    then have n: "unat (lo_offset n) + unat (lo_record_length n) \<le> nbytes" "unat (rw_end w) \<le> unat (lo_offset n)"
      using Cons.prems(2) e by (auto simp: word_less_nat_alt)
    then have "window_ok nbytes l (?w\<lparr>rw_end := lo_offset n + ucast (lo_record_length n), rw_followers := rw_followers w + 1\<rparr>)"
      using w unat_place[OF n(1) assms(2)] by (simp add: window_ok_def)
    from Cons.IH[OF this] show ?thesis using Cons.prems e w False by (simp add: Let_def)
  qed
qed simp

lemma plan_read_ahead_ok:
  assumes "\<forall>(_, n)\<in>set index. lo_segment n = lo_segment l \<longrightarrow> unat (lo_offset n) + unat (lo_record_length n) \<le> nbytes"
    and "nbytes < 2 ^ 64" and "unat (lo_offset l) + unat (lo_record_length l) \<le> nbytes"
  shows "window_ok nbytes l (plan_read_ahead index l key budget)"
proof -
  have "window_ok nbytes l \<lparr>rw_start = lo_offset l, rw_end = lo_offset l + ucast (lo_record_length l), rw_followers = 0, rw_scanned = 0\<rparr>"
    using unat_place[OF assms(3,2)] assms(3) by (simp add: window_ok_def)
  then show ?thesis using read_ahead_walk_ok[of "filter (\<lambda>e. key < fst e) index" l nbytes, OF _ assms(2)] assms(1)
    by (auto simp: plan_read_ahead_def Let_def)
qed

section \<open>Filling the cache\<close>

lemma record_here_prefix:
  assumes "record_decode crc rest = Inr (r, n)" and "is_inline r" and "drop (unat offset) b = rest @ more'"
  shows "record_here crc b offset r"
  using assms record_exact[OF assms(1)] by (auto simp: record_here_def)

lemma cache_coherent_insert:
  assumes "cache_coherent env io" and "object_at (en_ops env) (io_store io) object = Some (b, t)" and "object \<noteq> []" "last object = 103"
    and "record_here (en_crc env) b offset r" and "x = entry_of_record r"
  shows "cache_coherent env (io\<lparr>io_cache := cache_insert object offset x (io_cache io)\<rparr>)"
proof -
  let ?c = "cache_insert object offset x (io_cache io)"
  have ok: "cache_ok (io_cache io)" "vc_bytes (io_cache io) \<le> vc_capacity_bytes (io_cache io)" using assms(1) by (auto simp: cache_coherent_def)
  note ins = cache_insert_ok[OF ok refl, of object offset x]
  have old: "cached (io_cache io) o' off = Some y \<or> o' = object \<and> off = offset \<and> y = x" if "cached ?c o' off = Some y" for o' off y
  proof (cases "(o', off) = (object, offset)")
    case True
    then show ?thesis using that ins by (auto split: if_splits)
  next
    case False
    then show ?thesis using that ins by (auto simp: cached_def)
  qed
  have "\<exists>b t r. object_at (en_ops env) (io_store io) o' = Some (b, t) \<and> o' \<noteq> [] \<and> last o' = 103
      \<and> record_here (en_crc env) b off r \<and> y = entry_of_record r" if "cached ?c o' off = Some y" for o' off y
    using old[OF that] assms unfolding cache_coherent_def by blast
  then show ?thesis using ins by (simp add: cache_coherent_def)
qed

lemma cache_coherent_get:
  assumes "cache_coherent env io"
  shows "cache_coherent env (io\<lparr>io_cache := fst (cache_get object offset (io_cache io))\<rparr>)"
proof -
  have ok: "cache_ok (io_cache io)" using assms by (simp add: cache_coherent_def)
  have "cached (fst (cache_get object offset (io_cache io))) = cached (io_cache io)"
    using cache_get_ok(3)[OF ok] by (simp add: cached_def fun_eq_iff)
  moreover have "vc_bytes (fst (cache_get object offset (io_cache io))) = vc_bytes (io_cache io)"
    by (simp add: cache_get_def Let_def split: option.splits)
  ultimately show ?thesis using assms cache_get_ok(1,4)[OF ok] by (simp add: cache_coherent_def)
qed

lemma warm_followers_coherent:
  assumes "object_at (en_ops env) (io_store io) object = Some (b, t)" and "length b < 2 ^ 64" and "object \<noteq> []" "last object = 103"
  shows "cache_coherent env (io\<lparr>io_cache := c\<rparr>) \<Longrightarrow> drop (unat offset) b = rest @ more' \<Longrightarrow>
    cache_coherent env (io\<lparr>io_cache := warm_followers (en_crc env) index segment object offset rest c\<rparr>)"
proof (induction "length rest" arbitrary: rest offset c rule: less_induct)
  case less
  show ?case
  proof (cases "record_decode (en_crc env) rest")
    case (Inl e)
    then show ?thesis using less.prems by (subst warm_followers.simps) simp
  next
    case (Inr rn)
    obtain r n where rn: "rn = (r, n)" by (cases rn)
    show ?thesis
    proof (cases "rest = [] \<or> n = 0")
      case True
      then show ?thesis using less.prems Inr rn by (subst warm_followers.simps) auto
    next
      case False
      let ?c = "if is_winning_record index (sr_key r) segment offset
        then case inline_value r of Some v \<Rightarrow> cache_insert object offset (stored_of r v) c | None \<Rightarrow> c else c"
      obtain rest' where rest: "rest = record_encode (en_crc env) r @ rest'" "n = length (record_encode (en_crc env) r)"
        using record_exact[of "en_crc env" rest r n] Inr rn by auto
      have "length rest \<le> length b - unat offset" using less.prems(2) by (metis length_append length_drop le_add1)
      then have "n \<le> length b - unat offset" "0 < n" using rest False by simp_all
      then have "unat offset + n \<le> length b" by linarith
      then have off: "unat (offset + word_of_nat n) = unat offset + n"
        using assms(2) by (simp add: unat_word_ariths unat_of_nat)
      have "drop (unat (offset + word_of_nat n)) b = rest' @ more'"
        unfolding off using less.prems(2) rest by (metis append_eq_conv_conj append_assoc drop_drop add.commute)
      moreover have "cache_coherent env (io\<lparr>io_cache := ?c\<rparr>)"
      proof (cases "inline_value r")
        case (Some v)
        then have "record_here (en_crc env) b offset r"
          using record_here_prefix[of "en_crc env" rest r n offset b more'] Inr rn less.prems(2) by (simp add: is_inline_def)
        then show ?thesis using cache_coherent_insert[OF less.prems(1) _ assms(3,4), of b t offset r "stored_of r v"] assms(1) less.prems(1) Some
          by (auto simp: entry_of_record_def)
      qed (use less.prems(1) in simp)
      ultimately have "cache_coherent env (io\<lparr>io_cache := warm_followers (en_crc env) index segment object (offset + word_of_nat n) rest' ?c\<rparr>)"
        using less.hyps[of rest'] rest False by auto
      then show ?thesis using Inr rn False rest by (subst warm_followers.simps) simp
    qed
  qed
qed

section \<open>Reads\<close>

text \<open>The engine over a store that meets the contract, with nobody else committing to the partition meanwhile.\<close>

locale storage = object_store "en_ops env" used room
  for env :: "('s, 'tag) storage_env" and used :: "'s \<Rightarrow> 'tag \<Rightarrow> bool" and room :: "'s \<Rightarrow> nat \<Rightarrow> bool" +
  assumes quiet: "en_race env = (\<lambda>_ s. s)"

lemma segment_key_last: "resolve_segment path e = Some object \<Longrightarrow> se_name e = segment_name ep seq \<Longrightarrow> object \<noteq> [] \<and> last object = 103"
  by (auto simp: resolve_segment_def object_key_def segment_name_def segment_suffix_def bind_eq_Some_conv split: option.splits)

lemma index_ok_placed:
  assumes "index_ok crc RS index" and "bt_get index key = Some l"
  obtains r where "newest (concat RS) key = Some r" "lo_segment l < length RS" "placed crc (RS ! lo_segment l) l r"
proof -
  have "case bt_get index key of
      None \<Rightarrow> newest (concat RS) key = None
    | Some l \<Rightarrow> lo_segment l < length RS \<and> (\<exists>r. newest (concat RS) key = Some r \<and> placed crc (RS ! lo_segment l) l r)"
    using assms(1) unfolding index_ok_def by blast
  then show thesis using assms(2) that by auto
qed

lemma fetch_value_inline: "is_inline r \<Longrightarrow> fetch_value env p entry r s = Inr (the (inline_value r))"
  by (auto simp: fetch_value_def is_inline_def inline_value_def split: record_value.splits)

text \<open>What the read of a window finds at its front.\<close>

lemma window_decodes:
  assumes here: "record_here crc b (lo_offset l) r" and len: "unat (lo_record_length l) = length (record_encode crc r)"
    and w: "window_ok (length b) l w"
  shows "\<exists>rest. take (unat (rw_end w) - unat (rw_start w)) (drop (unat (rw_start w)) b) = record_encode crc r @ rest
    \<and> record_decode crc (record_encode crc r @ rest) = Inr (r, length (record_encode crc r))
    \<and> (rw_followers w = 0 \<longrightarrow> rest = []) \<and> unat (rw_start w) < length b \<and> unat (rw_start w) \<le> unat (rw_end w)
    \<and> (\<exists>more'. drop (unat (rw_start w)) b = record_encode crc r @ rest @ more')"
proof -
  have framed: "record_framed r" using here by (simp add: record_here_def)
  obtain rest0 where rest0: "drop (unat (lo_offset l)) b = record_encode crc r @ rest0" using here by (auto simp: record_here_def)
  have w': "rw_start w = lo_offset l" "unat (lo_offset l) + length (record_encode crc r) \<le> unat (rw_end w)"
    "rw_followers w = 0 \<Longrightarrow> unat (rw_end w) = unat (lo_offset l) + length (record_encode crc r)"
    using w len by (auto simp: window_ok_def)
  define k where "k = unat (rw_end w) - unat (lo_offset l) - length (record_encode crc r)"
  have "unat (rw_end w) - unat (lo_offset l) = length (record_encode crc r) + k" using w'(2) by (simp add: k_def)
  then have "take (unat (rw_end w) - unat (lo_offset l)) (record_encode crc r @ rest0) = record_encode crc r @ take k rest0" by simp
  moreover have "0 < length (record_encode crc r)" by (simp add: length_record_encode)
  then have "unat (lo_offset l) < length b" using rest0 by (metis append_is_Nil_conv drop_eq_Nil length_0_conv less_irrefl not_le_imp_less)
  moreover have "rw_followers w = 0 \<Longrightarrow> take k rest0 = []" using w'(3) by (simp add: k_def)
  moreover have "drop (unat (rw_start w)) b = record_encode crc r @ take k rest0 @ drop k rest0" using rest0 w'(1) by simp
  ultimately show ?thesis
    using record_roundtrip[OF framed, of crc "take k rest0"] rest0 w'(1,2) by (intro exI[of _ "take k rest0"] conjI exI[of _ "drop k rest0"]) simp_all
qed

text \<open>Where an index entry leads.\<close>

definition leads_to where
  "leads_to env io p l object b r \<longleftrightarrow> lo_segment l < length (pa_segments p) \<and> resolve_segment (pa_path p) (pa_segments p ! lo_segment l) = Some object
     \<and> object \<noteq> [] \<and> last object = 103 \<and> (\<exists>t. object_at (en_ops env) (io_store io) object = Some (b, t)) \<and> length b < 2 ^ 64
     \<and> record_here (en_crc env) b (lo_offset l) r \<and> unat (lo_record_length l) = length (record_encode (en_crc env) r)
     \<and> unat (lo_offset l) + unat (lo_record_length l) \<le> length b
     \<and> (\<forall>(_, n)\<in>set (pa_index p). lo_segment n = lo_segment l \<longrightarrow> unat (lo_offset n) + unat (lo_record_length n) \<le> length b)"

lemma index_leads_to:
  assumes segs: "segments_ok env (io_store io) p RS" and l: "bt_get (pa_index p) key = Some l"
  obtains object b r where "newest (concat RS) key = Some r" "leads_to env io p l object b r"
proof -
  let ?crc = "en_crc env" and ?rs = "RS ! lo_segment l"
  have index: "index_ok ?crc RS (pa_index p)" and len: "length RS = length (pa_segments p)"
    and objs: "\<And>i. i < length RS \<Longrightarrow> segment_object env (io_store io) (pa_path p) (pa_segments p ! i) (RS ! i)"
    using segs by (auto simp: segments_ok_def)
  obtain r where r: "newest (concat RS) key = Some r" "lo_segment l < length RS" "placed ?crc ?rs l r"
    by (rule index_ok_placed[OF index l])
  obtain object b t ks pid ep where obj: "records_ok ?crc ?rs" "?rs \<noteq> []" "list_all is_inline ?rs"
    "resolve_segment (pa_path p) (pa_segments p ! lo_segment l) = Some object" "object_at (en_ops env) (io_store io) object = Some (bs_bytes b, t)"
    "build_segment ?crc ks pid ep ?rs = Inr b" "length (bs_bytes b) < 2 ^ 64" "entry_matches (pa_segments p ! lo_segment l) b"
    using objs[OF r(2)] by (auto simp: segment_object_def)
  note place = placed_here[OF obj(1-3) obj(6,7)]
  have "unat (lo_offset n) + unat (lo_record_length n) \<le> length (bs_bytes b)"
    if "(k, n) \<in> set (pa_index p)" "lo_segment n = lo_segment l" for k n
  proof -
    have "bt_get (pa_index p) k = Some n" using that(1) index by (simp add: index_ok_def bt_get_iff)
    from index_ok_placed[OF index this] that(2) obtain r' where "placed ?crc ?rs n r'" by metis
    then show ?thesis using place by blast
  qed
  moreover have "object \<noteq> []" "last object = 103" using segment_key_last[OF obj(4)] obj(8) by (auto simp: entry_matches_def)
  ultimately have "leads_to env io p l object (bs_bytes b) r"
    using place[OF r(3)] obj(4,5,7) r(2) len by (auto simp: leads_to_def)
  then show thesis using that r(1) by blast
qed

context storage
begin

lemma fetch_hit:
  assumes at: "leads_to env io p l object b r" and coh: "cache_coherent env io" and hit: "cached (io_cache io) object (lo_offset l) = Some x"
  shows "fetch env l key (p, io) = ((p, io\<lparr>io_cache := fst (cache_get object (lo_offset l) (io_cache io))\<rparr>), Inr (entry_of_record r))"
proof -
  obtain b' t' r' where "object_at (en_ops env) (io_store io) object = Some (b', t')" "record_here (en_crc env) b' (lo_offset l) r'" "x = entry_of_record r'"
    using coh hit unfolding cache_coherent_def by blast
  then have x: "x = entry_of_record r" using at by (auto simp: leads_to_def dest: record_here_unique)
  have "cache_get object (lo_offset l) (io_cache io) = (fst (cache_get object (lo_offset l) (io_cache io)), Some x)"
    using cache_get_ok(2)[of "io_cache io"] coh hit by (simp add: cache_coherent_def cached_def prod_eq_iff)
  then show ?thesis using at x by (cases "cache_get object (lo_offset l) (io_cache io)") (simp add: fetch_def leads_to_def Let_def)
qed

lemma fetch_miss:
  assumes at: "leads_to env io p l object b r" and coh: "cache_coherent env io" and none: "cached (io_cache io) object (lo_offset l) = None"
    and key: "sr_key r = key"
  shows "\<exists>c. fetch env l key (p, io) = ((p, io\<lparr>io_cache := c\<rparr>), Inr (entry_of_record r)) \<and> cache_coherent env (io\<lparr>io_cache := c\<rparr>)"
proof -
  let ?crc = "en_crc env" and ?n = "length (record_encode (en_crc env) r)"
  define c where "c = fst (cache_get object (lo_offset l) (io_cache io))"
  have miss: "cache_get object (lo_offset l) (io_cache io) = (c, None)"
    using cache_get_ok(2)[of "io_cache io"] coh none by (simp add: cache_coherent_def cached_def c_def prod_eq_iff)
  have coh_c: "cache_coherent env (io\<lparr>io_cache := c\<rparr>)" using cache_coherent_get[OF coh] by (simp add: c_def)
  define w where "w = plan_read_ahead (pa_index p) l key (pa_read_ahead_bytes p)"
  have win: "window_ok (length b) l w" unfolding w_def using at by (intro plan_read_ahead_ok) (auto simp: leads_to_def)
  have here: "record_here ?crc b (lo_offset l) r" "unat (lo_record_length l) = ?n" using at by (auto simp: leads_to_def)
  obtain rest more' where raw: "take (unat (rw_end w) - unat (rw_start w)) (drop (unat (rw_start w)) b) = record_encode ?crc r @ rest"
    "record_decode ?crc (record_encode ?crc r @ rest) = Inr (r, ?n)" "rw_followers w = 0 \<longrightarrow> rest = []"
    "unat (rw_start w) < length b" "unat (rw_start w) \<le> unat (rw_end w)" "drop (unat (rw_start w)) b = record_encode ?crc r @ rest @ more'"
    using window_decodes[OF here win] by (elim exE conjE) (rule that; assumption)
  obtain t where obj: "object_at (en_ops env) (io_store io) object = Some (b, t)" "length b < 2 ^ 64" "object \<noteq> []" "last object = 103"
    using at by (auto simp: leads_to_def)
  have got: "so_get_range (en_ops env) (io_store io) object (unat (rw_start w), unat (rw_end w)) = Inr (record_encode ?crc r @ rest)"
    using get_range_law[OF obj(1), of "(unat (rw_start w), unat (rw_end w))"] raw(1,4,5) win by (simp add: window_ok_def)
  define c1 where "c1 = (if 0 < rw_followers w
    then warm_followers ?crc (pa_index p) (lo_segment l) object (rw_start w + word_of_nat ?n) rest c else c)"
  have "length (record_encode ?crc r @ rest @ more') = length b - unat (rw_start w)" by (simp only: raw(6)[symmetric] length_drop)
  then have "unat (rw_start w) + ?n < 2 ^ 64" using raw(4) obj(2) by simp
  then have "unat (rw_start w + word_of_nat ?n) = unat (rw_start w) + ?n" by (simp add: unat_word_ariths unat_of_nat)
  then have "drop (unat (rw_start w + word_of_nat ?n)) b = rest @ more'" using raw(6) by (metis append_eq_conv_conj drop_drop add.commute)
  then have coh1: "cache_coherent env (io\<lparr>io_cache := c1\<rparr>)"
    unfolding c1_def using warm_followers_coherent[OF obj coh_c] coh_c by simp
  have "fetch env l key (p, io) = ((p, io\<lparr>io_cache := cache_insert object (lo_offset l) (entry_of_record r) c1\<rparr>), Inr (entry_of_record r))"
    using at miss got raw(2,3) key fetch_value_inline[of r env p "pa_segments p ! lo_segment l" "io_store io"] here(1)
    by (cases "rw_followers w = 0")
      (simp_all add: fetch_def w_def[symmetric] store_says_def format_says_def c1_def Let_def entry_of_record_def record_here_def leads_to_def)
  moreover have "cache_coherent env (io\<lparr>io_cache := cache_insert object (lo_offset l) (entry_of_record r) c1\<rparr>)"
    using cache_coherent_insert[OF coh1, of object b t "lo_offset l" r] obj here by simp
  ultimately show ?thesis by blast
qed

lemma fetch_ok:
  assumes "segments_ok env (io_store io) p RS" and "cache_coherent env io" and "bt_get (pa_index p) key = Some l"
  obtains r c where "newest (concat RS) key = Some r" "fetch env l key (p, io) = ((p, io\<lparr>io_cache := c\<rparr>), Inr (entry_of_record r))"
    "cache_coherent env (io\<lparr>io_cache := c\<rparr>)"
proof -
  obtain object b r where r: "newest (concat RS) key = Some r" and at: "leads_to env io p l object b r" by (rule index_leads_to[OF assms(1,3)])
  show thesis
  proof (cases "cached (io_cache io) object (lo_offset l)")
    case None
    then show thesis using fetch_miss[OF at assms(2)] newest_Some[OF r] that[OF r] by blast
  next
    case (Some x)
    then show thesis using fetch_hit[OF at assms(2)] that[OF r] cache_coherent_get[OF assms(2)] by blast
  qed
qed

lemma load_ok:
  assumes "segments_ok env (io_store io) p RS" and "cache_coherent env io"
  obtains c where "load env key (p, io) = ((p, io\<lparr>io_cache := c\<rparr>), Inr (contents RS p key))" "cache_coherent env (io\<lparr>io_cache := c\<rparr>)"
proof (cases "bt_get (pa_memtable p) key")
  case (Some e)
  then show thesis using that[of "io_cache io"] assms(2) by (simp add: load_def contents_def)
next
  case tab: None
  show thesis
  proof (cases "bt_get (pa_index p) key")
    case None
    then have "newest (concat RS) key = None" using assms(1) by (fastforce simp: segments_ok_def index_ok_def dest: spec[of _ key])
    then show thesis using that[of "io_cache io"] None tab assms(2) by (simp add: load_def contents_def)
  next
    case (Some l)
    obtain r c where "newest (concat RS) key = Some r" "fetch env l key (p, io) = ((p, io\<lparr>io_cache := c\<rparr>), Inr (entry_of_record r))"
      "cache_coherent env (io\<lparr>io_cache := c\<rparr>)"
      by (rule fetch_ok[OF assms Some])
    then show thesis using that[of c] Some tab by (simp add: load_def contents_def act_defs)
  qed
qed

end

end
