(* ===== verification/Storage_Flush.thy ===== *)
theory Storage_Flush
  imports Storage_Inv
begin

text \<open>
  Publishing the mutable table: a flush changes where entries live and nothing a reader sees, whether it
  succeeds or fails, and the writer's next object never meets an existing one.
\<close>

section \<open>The whole invariant\<close>

definition writer_ok where
  "writer_ok env n p s \<longleftrightarrow> pw_path (pa_writer p) = pa_path p \<and> unat (pw_next_sequence (pa_writer p)) + n < 2 ^ 64
     \<and> (\<forall>seq key. data_key (pa_path p) (pw_epoch (pa_writer p)) seq key \<longrightarrow> object_at (en_ops env) s key \<noteq> None
          \<longrightarrow> seq < pw_next_sequence (pa_writer p))"

text \<open>\<open>n\<close> operations are still to come: sequences, tags and the size of the table last for them.\<close>

definition storage_ok where
  "storage_ok env room n p io RS \<longleftrightarrow> segments_ok env (io_store io) p RS \<and> table_ok p \<and> cache_coherent env io
     \<and> writer_ok env n p (io_store io) \<and> room (io_store io) (2 * n) \<and> length (pa_memtable p) + n < 2 ^ 32"

text \<open>Segment objects that are there stay as they are.\<close>

definition segments_kept where
  "segments_kept ops s s' \<longleftrightarrow> (\<forall>object. object \<noteq> [] \<longrightarrow> last object = 103 \<longrightarrow> object_at ops s object \<noteq> None
     \<longrightarrow> object_at ops s' object = object_at ops s object)"

lemma segment_object_frame:
  assumes "segments_kept (en_ops env) s s'" and "segment_object env s path e rs"
  shows "segment_object env s' path e rs"
proof -
  obtain object b t ks pid ep where obj: "resolve_segment path e = Some object" "object_at (en_ops env) s object = Some (bs_bytes b, t)"
    "build_segment (en_crc env) ks pid ep rs = Inr b" "length (bs_bytes b) < 2 ^ 64" "entry_matches e b"
    using assms(2) unfolding segment_object_def by blast
  have "object \<noteq> [] \<and> last object = 103" using segment_key_last[OF obj(1)] obj(5) by (auto simp: entry_matches_def)
  then have "object_at (en_ops env) s' object = Some (bs_bytes b, t)" using assms(1) obj(2) by (simp add: segments_kept_def)
  then show ?thesis using assms(2) obj unfolding segment_object_def by blast
qed

lemma segments_ok_frame: "segments_kept (en_ops env) s s' \<Longrightarrow> segments_ok env s p RS \<Longrightarrow> segments_ok env s' p RS"
  by (auto simp: segments_ok_def intro: segment_object_frame)

lemma cache_coherent_frame:
  assumes "segments_kept (en_ops env) (io_store io) s'" and "cache_coherent env io"
  shows "cache_coherent env (io\<lparr>io_store := s'\<rparr>)"
proof -
  have "\<exists>b t r. object_at (en_ops env) s' object = Some (b, t) \<and> object \<noteq> [] \<and> last object = 103
      \<and> record_here (en_crc env) b offset r \<and> x = entry_of_record r" if "cached (io_cache io) object offset = Some x" for object offset x
    using assms that unfolding cache_coherent_def segments_kept_def by (metis option.distinct(1))
  then show ?thesis using assms(2) by (simp add: cache_coherent_def)
qed

section \<open>The segment a table becomes\<close>

lemma records_of_keys [simp]: "map sr_key (records_of table) = map fst table"
  by (simp add: records_of_def segment_record_of_def case_prod_unfold comp_def)

lemma entry_of_record_of: "(st_deleted e \<longrightarrow> st_value e = []) \<Longrightarrow> entry_of_record (segment_record_of key e) = e"
  by (cases e) (auto simp: entry_of_record_def segment_record_of_def stored_of_def inline_value_def is_tombstone_def)

lemma inline_record_of [simp]: "is_inline (segment_record_of key e)"
  by (simp add: is_inline_def inline_value_def segment_record_of_def)

text \<open>Records within the limits of a key and a value are far below the format's 32-bit lengths.\<close>

lemma record_of_small:
  assumes "length key \<le> max_key_bytes" and "length (st_value e) \<le> max_value_bytes"
  shows "record_framed (segment_record_of key e) \<and> length (record_encode crc (segment_record_of key e)) < 2 ^ 19"
proof -
  have "length (put_value_part (sr_value (segment_record_of key e))) \<le> 4 + max_value_bytes"
    using assms(2) by (simp add: segment_record_of_def put_bytes_def)
  moreover have "length (put_expiry (sr_expires_at_millis (segment_record_of key e))) \<le> 8"
    by (simp add: put_expiry_def split: option.splits)
  ultimately have "length (encode_body (segment_record_of key e)) \<le> 33 + max_key_bytes + max_value_bytes"
    using assms(1) by (simp add: encode_body_put segment_record_of_def put_bytes_def put_u8_def)
  moreover have "record_ok (segment_record_of key e)"
    using assms by (simp add: record_ok_def segment_record_of_def max_key_bytes_def max_value_bytes_def)
  ultimately show ?thesis
    by (simp add: record_framed_def length_record_encode max_key_bytes_def max_value_bytes_def)
qed

lemma length_concat_bound: "(\<And>x. x \<in> set xs \<Longrightarrow> length (f x) \<le> k) \<Longrightarrow> length (concat (map f xs)) \<le> length xs * k"
  by (induction xs) (auto simp: add_mono)

lemma table_segment:
  assumes "table_ok p" and "pa_memtable p \<noteq> []" and "length (pa_memtable p) < 2 ^ 32"
  obtains b where "build_segment crc ks pid ep (records_of (pa_memtable p)) = Inr b" "length (bs_bytes b) < 2 ^ 64"
    "records_ok crc (records_of (pa_memtable p))" "bs_index b = entries_at crc header_len (records_of (pa_memtable p))"
proof -
  let ?rs = "records_of (pa_memtable p)"
  have small: "record_framed r \<and> length (record_encode crc r) < 2 ^ 19 \<and> length (sr_key r) \<le> max_key_bytes" if "r \<in> set ?rs" for r
    using that assms(1) record_of_small by (fastforce simp: records_of_def table_ok_def segment_record_of_def)
  moreover have "sorted_wrt (<) (map sr_key ?rs)" using assms(1) by (simp add: table_ok_def bt_ok_def)
  ultimately have ok: "records_ok crc ?rs" by (force simp: records_ok_def list_all_iff)
  have ne: "?rs \<noteq> []" using assms(2) by (simp add: records_of_def)
  obtain b f h where b: "build_segment crc ks pid ep ?rs = Inr b"
    "bs_bytes b = header_encode h @ data_of crc ?rs @ concat (map index_entry_encode (entries_at crc header_len ?rs)) @ footer_encode crc f"
    "bs_index b = entries_at crc header_len ?rs"
    by (rule build_segment_ok[OF ok ne])
  have "length (data_of crc ?rs) \<le> length ?rs * 2 ^ 19"
    unfolding data_of_def by (rule length_concat_bound) (use small in \<open>auto intro: less_imp_le\<close>)
  moreover have "length (concat (map index_entry_encode (entries_at crc header_len ?rs))) \<le> length (entries_at crc header_len ?rs) * 2 ^ 14"
  proof (rule length_concat_bound)
    fix e assume "e \<in> set (entries_at crc header_len ?rs)"
    then have "length (ie_key e) \<le> max_key_bytes" using entry_keys small by metis
    then show "length (index_entry_encode e) \<le> 2 ^ 14" by (simp add: index_entry_encode_def put_bytes_def max_key_bytes_def)
  qed
  moreover have "length ?rs < 2 ^ 32" using assms(3) by (simp add: records_of_def)
  ultimately have "length (bs_bytes b) < 2 ^ 64" using b(2) by (simp add: header_len_def footer_len_def)
  then show thesis using that b ok by blast
qed

section \<open>The index after a flush\<close>

lemma index_insert_get: "bt_get (pa_index (index_insert i e p)) k =
    (if k = ie_key e then Some \<lparr>lo_segment = i, lo_offset = ie_offset e, lo_record_length = ie_record_length e\<rparr> else bt_get (pa_index p) k)"
  by (simp add: index_insert_def)

lemma index_insert_fields [simp]:
  "pa_segments (index_insert i e p) = pa_segments p" "pa_memtable (index_insert i e p) = pa_memtable p" "pa_path (index_insert i e p) = pa_path p"
  "pa_committed (index_insert i e p) = pa_committed p" "pa_flushed (index_insert i e p) = pa_flushed p" "pa_range (index_insert i e p) = pa_range p"
  "pa_writer (index_insert i e p) = pa_writer p"
  by (simp_all add: index_insert_def)

lemma fold_index_fields [simp]:
  "pa_segments (fold (index_insert i) es p) = pa_segments p" "pa_memtable (fold (index_insert i) es p) = pa_memtable p"
  "pa_path (fold (index_insert i) es p) = pa_path p" "pa_committed (fold (index_insert i) es p) = pa_committed p"
  "pa_flushed (fold (index_insert i) es p) = pa_flushed p" "pa_range (fold (index_insert i) es p) = pa_range p"
  "pa_writer (fold (index_insert i) es p) = pa_writer p"
  by (induction es arbitrary: p) simp_all

lemma fold_index_ok: "bt_ok (pa_index p) \<Longrightarrow> bt_ok (pa_index (fold (index_insert i) es p))"
  by (induction es arbitrary: p) (simp_all add: index_insert_def keeps_ok)

lemma fold_index_get:
  "distinct (map ie_key es) \<Longrightarrow> bt_get (pa_index (fold (index_insert i) es p)) k =
     (case List.find (\<lambda>e. ie_key e = k) es of
        Some e \<Rightarrow> Some \<lparr>lo_segment = i, lo_offset = ie_offset e, lo_record_length = ie_record_length e\<rparr>
      | None \<Rightarrow> bt_get (pa_index p) k)"
proof (induction es arbitrary: p)
  case (Cons e es)
  have none: "List.find (\<lambda>e. ie_key e = k) es = None" if "ie_key e = k"
    unfolding find_None_iff using Cons.prems that by (metis distinct.simps(2) image_eqI list.set_map list.simps(9))
  have tail: "distinct (map ie_key es)" using Cons.prems by simp
  show ?case
  proof (cases "ie_key e = k")
    case True
    then show ?thesis using Cons.IH[OF tail] none by (simp add: index_insert_get)
  next
    case False
    then have "bt_get (pa_index (index_insert i e p)) k = bt_get (pa_index p) k" by (simp add: index_insert_get)
    then show ?thesis using Cons.IH[OF tail] False by (cases "List.find (\<lambda>e. ie_key e = k) es") simp_all
  qed
qed simp

lemma newest_sorted_records:
  "sorted_wrt (<) (map sr_key rs) \<Longrightarrow> newest rs k = List.find (\<lambda>r. sr_key r = k) rs"
proof (induction rs rule: rev_induct)
  case (snoc r rs)
  have same: "sr_key r = k \<Longrightarrow> List.find (\<lambda>r. sr_key r = k) rs = None" using snoc.prems by (auto simp: find_None_iff sorted_wrt_append)
  have app: "List.find P (xs @ [x]) = (case List.find P xs of Some y \<Rightarrow> Some y | None \<Rightarrow> if P x then Some x else None)"
    for P and xs :: "segment_record list" and x by (induction xs) auto
  show ?case using snoc same by (auto simp: newest_snoc app sorted_wrt_append split: option.splits)
qed simp

text \<open>The index of the new segment over the old index is the index of all segments.\<close>

lemma index_ok_extend:
  assumes index: "index_ok crc RS (pa_index p)" and rs: "sorted_wrt (<) (map sr_key rs)"
    and newer: "\<And>r r'. r \<in> set (concat RS) \<Longrightarrow> r' \<in> set rs \<Longrightarrow> sr_lamport r < sr_lamport r'"
  shows "index_ok crc (RS @ [rs]) (pa_index (fold (index_insert (length RS)) (entries_at crc header_len rs) p))"
proof -
  let ?es = "entries_at crc header_len rs" and ?p = "fold (index_insert (length RS)) (entries_at crc header_len rs) p"
  have dist: "distinct (map ie_key ?es)" using rs by (simp add: strict_sorted_iff)
  have "case bt_get (pa_index ?p) k of None \<Rightarrow> newest (concat (RS @ [rs])) k = None
     | Some l \<Rightarrow> lo_segment l < length (RS @ [rs]) \<and> (\<exists>r. newest (concat (RS @ [rs])) k = Some r \<and> placed crc ((RS @ [rs]) ! lo_segment l) l r)" for k
  proof (cases "newest rs k")
    case None
    have "\<not> (\<exists>r. r \<in> set rs \<and> sr_key r = k)" using None newest_None[of rs k] by blast
    then have "\<not> (\<exists>e. e \<in> set ?es \<and> ie_key e = k)" using entry_keys by metis
    then have "List.find (\<lambda>e. ie_key e = k) ?es = None" by (simp add: find_None_iff)
    then have "bt_get (pa_index ?p) k = bt_get (pa_index p) k" using fold_index_get[OF dist] by simp
    moreover have "newest (concat (RS @ [rs])) k = newest (concat RS) k" using None by (simp add: newest_append split: option.splits)
    moreover have "case bt_get (pa_index p) k of None \<Rightarrow> newest (concat RS) k = None
     | Some l \<Rightarrow> lo_segment l < length RS \<and> (\<exists>r. newest (concat RS) k = Some r \<and> placed crc (RS ! lo_segment l) l r)"
      using index unfolding index_ok_def by blast
    ultimately show ?thesis by (cases "bt_get (pa_index p) k") (simp_all add: nth_append)
  next
    case (Some r)
    then have "r \<in> set rs" "sr_key r = k" using newest_Some by auto
    then obtain i where i: "i < length rs" "rs ! i = r" by (metis in_set_conv_nth)
    have "List.find (\<lambda>e. ie_key e = k) ?es = Some (?es ! i)"
    proof -
      have "ie_key (?es ! i) = k" using nth_entries_key[OF i(1)] i(2) \<open>sr_key r = k\<close> by simp
      moreover have "ie_key (?es ! j) \<noteq> k" if "j < i" for j
        using dist that i(1) calculation by (metis distinct_conv_nth length_entries_at length_map less_imp_not_eq less_trans nth_map)
      ultimately show ?thesis using i(1) by (auto simp: find_Some_iff)
    qed
    then have "bt_get (pa_index ?p) k = Some \<lparr>lo_segment = length RS, lo_offset = ie_offset (?es ! i), lo_record_length = ie_record_length (?es ! i)\<rparr>"
      using fold_index_get[OF dist] by simp
    moreover have "newest (concat (RS @ [rs])) k = Some r"
      using Some newer \<open>r \<in> set rs\<close> newest_Some[of "concat RS" k] by (auto simp: newest_append split: option.splits)
    moreover have "placed crc rs \<lparr>lo_segment = length RS, lo_offset = ie_offset (?es ! i), lo_record_length = ie_record_length (?es ! i)\<rparr> r"
      using i by (auto simp: placed_def)
    ultimately show ?thesis by simp
  qed
  then show ?thesis using fold_index_ok index by (simp add: index_ok_def)
qed

section \<open>A flush in three steps\<close>

text \<open>
  What holds of a capture while its flush runs: the table may have moved on, but an entry not above the captured
  horizon is the captured one, and nothing captured has left.
\<close>

definition capture_ok :: "partition \<Rightarrow> flush_capture \<Rightarrow> bool" where
  "capture_ok p cap \<longleftrightarrow> fc_segments cap = pa_segments p \<and> fc_committed cap \<le> pa_committed p \<and> fc_table cap \<noteq> []
     \<and> length (fc_table cap) < 2 ^ 32 \<and> table_ok (p\<lparr>pa_memtable := fc_table cap, pa_committed := fc_committed cap\<rparr>)
     \<and> (\<forall>k. case bt_get (pa_memtable p) k of
          None \<Rightarrow> bt_get (fc_table cap) k = None
        | Some e \<Rightarrow> st_version e \<le> fc_committed cap \<longrightarrow> bt_get (fc_table cap) k = Some e)"

definition published_ok where
  "published_ok env s p r \<longleftrightarrow> capture_ok p (fr_capture r) \<and> bs_index (fr_built r) = entries_at (en_crc env) header_len (records_of (fc_table (fr_capture r)))
     \<and> (\<exists>entry. mf_segments (fr_manifest r) = pa_segments p @ [entry] \<and> segment_object env s (pa_path p) entry (records_of (fc_table (fr_capture r))))"

lemma capture_ok_table:
  assumes "capture_ok p cap"
  shows "fc_segments cap = pa_segments p" "fc_committed cap \<le> pa_committed p" "fc_table cap \<noteq> []" "length (fc_table cap) < 2 ^ 32"
    "table_ok (p\<lparr>pa_memtable := fc_table cap, pa_committed := fc_committed cap\<rparr>)"
    "bt_get (pa_memtable p) k = None \<Longrightarrow> bt_get (fc_table cap) k = None"
    "bt_get (pa_memtable p) k = Some e \<Longrightarrow> st_version e \<le> fc_committed cap \<Longrightarrow> bt_get (fc_table cap) k = Some e"
proof -
  have "case bt_get (pa_memtable p) k of None \<Rightarrow> bt_get (fc_table cap) k = None
      | Some e \<Rightarrow> st_version e \<le> fc_committed cap \<longrightarrow> bt_get (fc_table cap) k = Some e"
    using assms unfolding capture_ok_def by blast
  then show "bt_get (pa_memtable p) k = None \<Longrightarrow> bt_get (fc_table cap) k = None"
    "bt_get (pa_memtable p) k = Some e \<Longrightarrow> st_version e \<le> fc_committed cap \<Longrightarrow> bt_get (fc_table cap) k = Some e" by auto
qed (use assms in \<open>simp_all add: capture_ok_def\<close>)

lemma bt_get_filter: "bt_ok m \<Longrightarrow> bt_get (filter P m) k = (case bt_get m k of Some v \<Rightarrow> if P (k, v) then Some v else None | None \<Rightarrow> None)"
proof (induction m)
  case (Cons e m)
  show ?case
  proof (cases "fst e = k")
    case True
    then have "bt_get m k = None" using Cons.prems by (auto simp: bt_get_None_iff)
    then show ?thesis using Cons True by (cases e) auto
  next
    case False
    then show ?thesis using Cons by (cases e) auto
  qed
qed simp

lemma find_records: "List.find (\<lambda>r. sr_key r = k) (records_of table) = map_option (segment_record_of k) (bt_get table k)"
  by (induction table) (auto simp: records_of_def segment_record_of_def)

lemma newest_records: "bt_ok table \<Longrightarrow> newest (records_of table) k = map_option (segment_record_of k) (bt_get table k)"
  by (subst newest_sorted_records) (simp_all add: bt_ok_def find_records)

lemma records_of_lamport: "r \<in> set (records_of table) \<Longrightarrow> \<exists>e. (sr_key r, e) \<in> set table \<and> sr_lamport r = st_version e"
  by (auto simp: records_of_def segment_record_of_def)

lemma one_per_lamport_append:
  assumes "one_per_lamport as" and "sorted_wrt (<) (map sr_key bs)" and "\<And>a b. a \<in> set as \<Longrightarrow> b \<in> set bs \<Longrightarrow> sr_lamport a < sr_lamport b"
  shows "one_per_lamport (as @ bs)"
proof -
  have "distinct (map sr_key bs)" using assms(2) by (simp add: strict_sorted_iff)
  then have "one_per_lamport bs" by (auto simp: one_per_lamport_def distinct_map inj_on_def)
  then show ?thesis using assms(1,3) by (fastforce simp: one_per_lamport_def)
qed

lemma flush_install_fields [simp]:
  "pa_committed (flush_install r p) = pa_committed p" "pa_range (flush_install r p) = pa_range p" "pa_path (flush_install r p) = pa_path p"
  "pa_writer (flush_install r p) = pa_writer p" "pa_segments (flush_install r p) = mf_segments (fr_manifest r)"
  "pa_flushed (flush_install r p) = fc_committed (fr_capture r)"
  "pa_memtable (flush_install r p) = filter (\<lambda>(_, e). fc_committed (fr_capture r) < st_version e) (pa_memtable p)"
  "pa_index (flush_install r p) = pa_index (fold (index_insert (length (mf_segments (fr_manifest r)) - 1)) (bs_index (fr_built r)) p)"
  by (simp_all add: flush_install_def Let_def)

text \<open>Installing what was published changes where the entries are found, not what is found.\<close>

lemma flush_install_ok:
  assumes ok: "storage_ok env room n p io RS" and pub: "published_ok env (io_store io) p r"
  defines "rs \<equiv> records_of (fc_table (fr_capture r))"
  shows "storage_ok env room n (flush_install r p) io (RS @ [rs]) \<and> contents (RS @ [rs]) (flush_install r p) = contents RS p"
proof -
  let ?cap = "fr_capture r" and ?p = "flush_install r p"
  obtain entry where entry: "mf_segments (fr_manifest r) = pa_segments p @ [entry]" "segment_object env (io_store io) (pa_path p) entry rs"
    and cap: "capture_ok p ?cap" and index: "bs_index (fr_built r) = entries_at (en_crc env) header_len rs"
    using pub unfolding published_ok_def rs_def by blast
  have segs: "segments_ok env (io_store io) p RS" and tab: "table_ok p" using ok by (simp_all add: storage_ok_def)
  note c = capture_ok_table[OF cap]
  have ctab: "bt_ok (fc_table ?cap)" "\<And>k e. (k, e) \<in> set (fc_table ?cap) \<Longrightarrow>
      pa_flushed p < st_version e \<and> st_version e \<le> fc_committed ?cap \<and> (st_deleted e \<longrightarrow> st_value e = [])" "pa_flushed p \<le> fc_committed ?cap"
    using c(5) by (auto simp: table_ok_def)
  have sorted: "sorted_wrt (<) (map sr_key rs)" using ctab(1) by (simp add: rs_def bt_ok_def)
  have newer: "sr_lamport a < sr_lamport b" if "a \<in> set (concat RS)" "b \<in> set rs" for a b
  proof -
    have "sr_lamport a \<le> pa_flushed p" using segs that(1) unfolding segments_ok_def by blast
    moreover have "pa_flushed p < sr_lamport b" using records_of_lamport[of b] that(2) ctab(2) unfolding rs_def by metis
    ultimately show ?thesis by (rule le_less_trans)
  qed
  have len: "length RS = length (pa_segments p)" using segs by (simp add: segments_ok_def)
  have "segment_object env (io_store io) (pa_path p) (pa_segments ?p ! i) ((RS @ [rs]) ! i)" if "i < length (RS @ [rs])" for i
    using that segs entry len by (auto simp: segments_ok_def nth_append less_Suc_eq)
  moreover have "index_ok (en_crc env) (RS @ [rs]) (pa_index ?p)"
    using index_ok_extend[of "en_crc env" RS p rs] segs sorted newer entry(1) index len by (simp add: segments_ok_def)
  moreover have "one_per_lamport (concat (RS @ [rs]))"
    using one_per_lamport_append[of "concat RS" rs] segs sorted newer by (simp add: segments_ok_def)
  moreover have "sr_lamport a \<le> fc_committed ?cap" if "a \<in> set (concat (RS @ [rs]))" for a
  proof (cases "a \<in> set rs")
    case True
    then show ?thesis using records_of_lamport[of a] ctab(2) unfolding rs_def by metis
  next
    case False
    then have "sr_lamport a \<le> pa_flushed p" using that segs by (auto simp: segments_ok_def)
    then show ?thesis using ctab(3) by (rule order_trans)
  qed
  ultimately have "segments_ok env (io_store io) ?p (RS @ [rs])"
    using entry(1) len by (simp add: segments_ok_def)
  moreover have "table_ok ?p" using tab c(2) by (auto simp: table_ok_def keeps_ok)
  moreover have "length (pa_memtable ?p) \<le> length (pa_memtable p)" by simp
  then have "length (pa_memtable ?p) + n < 2 ^ 32" using ok unfolding storage_ok_def by linarith
  ultimately have st: "storage_ok env room n ?p io (RS @ [rs])" using ok by (simp add: storage_ok_def writer_ok_def)
  have tabok: "bt_ok (pa_memtable p)" using tab by (simp add: table_ok_def)
  have "contents (RS @ [rs]) ?p k = contents RS p k" for k
  proof (cases "bt_get (pa_memtable p) k")
    case None
    then have "newest rs k = None" using c(6) ctab(1) by (simp add: rs_def newest_records)
    then show ?thesis using None by (simp add: contents_def bt_get_filter[OF tabok] newest_append split: option.splits)
  next
    case (Some e)
    show ?thesis
    proof (cases "fc_committed ?cap < st_version e")
      case True
      then show ?thesis using Some by (simp add: contents_def bt_get_filter[OF tabok])
    next
      case False
      then have cap_e: "bt_get (fc_table ?cap) k = Some e" using c(7)[OF Some] by simp
      then have new: "newest rs k = Some (segment_record_of k e)" using ctab(1) by (simp add: rs_def newest_records)
      have "newest (concat (RS @ [rs])) k = Some (segment_record_of k e)"
      proof (cases "newest (concat RS) k")
        case (Some a)
        then have "sr_lamport a < sr_lamport (segment_record_of k e)" using newer newest_Some[OF Some] newest_Some[OF new] by blast
        then show ?thesis using Some new by (simp add: newest_append)
      qed (use new in \<open>simp add: newest_append\<close>)
      moreover have "entry_of_record (segment_record_of k e) = e" using ctab(2)[OF map_of_SomeD[OF cap_e]] by (simp add: entry_of_record_of)
      ultimately show ?thesis using Some False by (simp add: contents_def bt_get_filter[OF tabok])
    qed
  qed
  then show ?thesis using st by (simp add: fun_eq_iff)
qed

context storage
begin

lemma write_segment_ok:
  assumes w: "writer_ok env (Suc n) p (io_store io)" and room: "room (io_store io) (Suc k)"
  obtains s' w' where "write_segment env built (p, io) = ((p\<lparr>pa_writer := w'\<rparr>, io\<lparr>io_store := s'\<rparr>),
      Inr (entry_of (segment_name (pw_epoch (pa_writer p)) (pw_next_sequence (pa_writer p))) built))"
    "writer_ok env n (p\<lparr>pa_writer := w'\<rparr>) s'" "room s' k" "segments_kept (en_ops env) (io_store io) s'"
    "\<exists>t. object_at (en_ops env) s' (object_key (pa_path p) (segment_name (pw_epoch (pa_writer p)) (pw_next_sequence (pa_writer p)))) = Some (bs_bytes built, t)"
    "object_at (en_ops env) s' (manifest_key (pa_path p)) = object_at (en_ops env) (io_store io) (manifest_key (pa_path p))"
proof -
  let ?w = "pa_writer p" and ?s = "io_store io" and ?ops = "en_ops env"
  let ?key = "object_key (pa_path p) (segment_name (pw_epoch ?w) (pw_next_sequence ?w))" and ?w' = "fst (take_sequence (pa_writer p))"
  have path: "pw_path ?w = pa_path p" and last: "unat (pw_next_sequence ?w) + Suc n < 2 ^ 64"
    and seqs: "\<And>seq key. data_key (pa_path p) (pw_epoch ?w) seq key \<Longrightarrow> object_at ?ops ?s key \<noteq> None \<Longrightarrow> seq < pw_next_sequence ?w"
    using w unfolding writer_ok_def by blast+
  have mine: "data_key (pa_path p) (pw_epoch ?w) (pw_next_sequence ?w) ?key" by (rule data_keys)
  have free: "object_at ?ops ?s ?key = None" using seqs[OF mine] by blast
  obtain s' t where put: "so_put ?ops ?key (bs_bytes built) ?s = (s', Inr t)" and at: "object_at ?ops s' = (object_at ?ops ?s)(?key \<mapsto> (bs_bytes built, t))"
    and room': "room s' k"
    using put_law[OF room] by blast
  have unwrapped: "pw_next_sequence ?w \<noteq> -1" using last by auto
  have "seq < pw_next_sequence ?w + 1" if "data_key (pa_path p) (pw_epoch ?w) seq key" "object_at ?ops s' key \<noteq> None" for seq key
  proof (cases "key = ?key")
    case True
    then show ?thesis using that(1) mine data_key_unique unwrapped word_less_succ by metis
  next
    case False
    then have "seq < pw_next_sequence ?w" using that at seqs by simp
    then show ?thesis using word_less_succ[OF unwrapped] by (rule less_trans)
  qed
  then have "writer_ok env n (p\<lparr>pa_writer := ?w'\<rparr>) s'"
    using path last unfolding writer_ok_def by (simp add: take_sequence_def unat_succ[OF unwrapped])
  moreover have "segments_kept ?ops ?s s'" using at free by (simp add: segments_kept_def)
  moreover have "manifest_key (pa_path p) \<noteq> ?key" using mine manifest_key_apart by metis
  moreover have "write_segment env built (p, io) = ((p\<lparr>pa_writer := ?w'\<rparr>, io\<lparr>io_store := s'\<rparr>), Inr (entry_of (segment_name (pw_epoch ?w) (pw_next_sequence ?w)) built))"
    using put path by (simp add: write_segment_def put_segment_def put_object_def take_sequence_def format_says_def Let_def)
  ultimately show thesis using that at room' by simp
qed

lemma commit_manifest_ok:
  assumes path: "pw_path (pa_writer p) = pa_path p" and room: "room (io_store io) (Suc k)" and codec: "codec_reads_back (en_codec env)"
  obtains (refused) e where "commit_manifest env committed segs (p, io) = ((p, io), Inl e)"
  | (commits) s' m where "commit_manifest env committed segs (p, io) = ((p, io\<lparr>io_store := s'\<rparr>), Inr m)" "room s' k"
    "manifest_of (en_ops env) (en_codec env) (pa_path p) s' = Some m"
    "mf_segments m = segs" "mf_committed_lamport m = committed" "mf_range m = pa_range p" "mf_epoch m = pw_epoch (pa_writer p)"
    "mf_keyspace_id m = pp_keyspace_id (pa_path p)" "mf_partition_id m = pp_partition_id (pa_path p)"
    "\<And>key. key \<noteq> manifest_key (pa_path p) \<Longrightarrow> object_at (en_ops env) s' key = object_at (en_ops env) (io_store io) key"
proof -
  let ?plan = "\<lambda>_. \<lparr>cp_committed_lamport = committed, cp_range = pa_range p, cp_segments = segs\<rparr>"
  let ?read = "commit_read (en_ops env) (en_codec env) (pa_writer p) ?plan (io_store io)"
  show thesis
  proof (cases ?read)
    case (Inl e)
    then have "commit_manifest env committed segs (p, io) = ((p, io), Inl (Internal (FormatSays e)))"
      by (simp add: commit_manifest_def quiet commit_def max_commit_attempts_def numeral_eq_Suc format_says_def)
    then show thesis by (rule refused)
  next
    case (Inr mp)
    obtain m pre where mp: "mp = (m, pre)" by (cases mp)
    have m: "mf_segments m = segs" "mf_committed_lamport m = committed" "mf_range m = pa_range p" "mf_epoch m = pw_epoch (pa_writer p)"
      "mf_keyspace_id m = pp_keyspace_id (pa_path p)" "mf_partition_id m = pp_partition_id (pa_path p)"
      using Inr mp path by (auto simp: commit_read_iff[OF codec])
    obtain s' where s': "commit (en_ops env) (en_codec env) (pa_writer p) ?plan (\<lambda>_ s. s) (io_store io) = (s', Inr m)"
      "manifest_of (en_ops env) (en_codec env) (pa_path p) s' = Some m" "room s' k"
      "\<And>key. key \<noteq> manifest_key (pa_path p) \<Longrightarrow> object_at (en_ops env) s' key = object_at (en_ops env) (io_store io) key"
      using commit_alone[OF room codec, of "pa_writer p" ?plan m pre] Inr mp path by auto
    then have "commit_manifest env committed segs (p, io) = ((p, io\<lparr>io_store := s'\<rparr>), Inr m)"
      by (simp add: commit_manifest_def quiet format_says_def)
    then show thesis using commits s' m by blast
  qed
qed

end

lemma writer_update_simps [simp]:
  "capture_ok (p\<lparr>pa_writer := w\<rparr>) cap = capture_ok p cap" "segments_ok env s (p\<lparr>pa_writer := w\<rparr>) RS = segments_ok env s p RS"
  "table_ok (p\<lparr>pa_writer := w\<rparr>) = table_ok p" "contents RS (p\<lparr>pa_writer := w\<rparr>) = contents RS p"
  by (simp_all add: capture_ok_def segments_ok_def table_ok_def contents_def fun_eq_iff)

lemma segments_kept_trans:
  assumes "segments_kept ops s s'" and "segments_kept ops s' s''"
  shows "segments_kept ops s s''"
  using assms unfolding segments_kept_def by metis

lemma manifest_key_last: "last (manifest_key path) \<noteq> 103"
  by (simp add: manifest_key_def object_key_def manifest_name_def)

lemma storage_ok_store:
  assumes "storage_ok env room (Suc n) p io RS" and "segments_kept (en_ops env) (io_store io) s'" and "writer_ok env n (p\<lparr>pa_writer := w'\<rparr>) s'"
    and "room s' (2 * n)"
  shows "storage_ok env room n (p\<lparr>pa_writer := w'\<rparr>) (io\<lparr>io_store := s'\<rparr>) RS"
  using assms segments_ok_frame cache_coherent_frame by (fastforce simp: storage_ok_def)

context storage
begin

lemma storage_ok_less:
  assumes "storage_ok env room (Suc n) p io RS"
  shows "storage_ok env room n p io RS"
  using assms room_less[of "io_store io" "2 * Suc n" "2 * n"] by (auto simp: storage_ok_def writer_ok_def)

lemma published_segment_ok:
  assumes cap: "capture_ok p cap"
  obtains b where "build_table env p (records_of (fc_table cap)) = Inr b" "bs_index b = entries_at (en_crc env) header_len (records_of (fc_table cap))"
    "\<And>s t ep seq. object_at (en_ops env) s (object_key (pa_path p) (segment_name ep seq)) = Some (bs_bytes b, t)
      \<Longrightarrow> segment_object env s (pa_path p) (entry_of (segment_name ep seq) b) (records_of (fc_table cap))"
proof -
  let ?rs = "records_of (fc_table cap)"
  note c = capture_ok_table[OF cap]
  define q where "q = p\<lparr>pa_memtable := fc_table cap, pa_committed := fc_committed cap\<rparr>"
  have q: "table_ok q" "pa_memtable q = fc_table cap" using c(5) by (simp_all add: q_def)
  obtain b where b: "build_segment (en_crc env) (pp_keyspace_id (pa_path p)) (pp_partition_id (pa_path p)) (pw_epoch (pa_writer p)) ?rs = Inr b"
    "length (bs_bytes b) < 2 ^ 64" "records_ok (en_crc env) ?rs" "bs_index b = entries_at (en_crc env) header_len ?rs"
    by (rule table_segment[OF q(1), unfolded q(2), OF c(3,4)])
  have inl: "list_all is_inline ?rs" by (auto simp: records_of_def list_all_iff)
  have ne: "?rs \<noteq> []" using c(3) by (simp add: records_of_def)
  have "segment_object env s (pa_path p) (entry_of (segment_name ep seq) b) ?rs"
    if "object_at (en_ops env) s (object_key (pa_path p) (segment_name ep seq)) = Some (bs_bytes b, t)" for s t ep seq
  proof -
    have "resolve_segment (pa_path p) (entry_of (segment_name ep seq) b) = Some (object_key (pa_path p) (segment_name ep seq))"
      by (simp add: resolve_segment_def entry_of_def)
    moreover have "entry_matches (entry_of (segment_name ep seq) b) b" unfolding entry_matches_def by (simp add: entry_of_def) blast
    ultimately show ?thesis using that inl ne b unfolding segment_object_def by blast
  qed
  then show thesis using that b by (simp add: build_table_def format_says_def)
qed

end

text \<open>What a publication does to the store: all of it, or nothing a reader of the manifest sees.\<close>

definition publishes where
  "publishes env p s s' cap res \<longleftrightarrow> segments_kept (en_ops env) s s' \<and>
     (case res of
        Inl _ \<Rightarrow> object_at (en_ops env) s' (manifest_key (pa_path p)) = object_at (en_ops env) s (manifest_key (pa_path p))
      | Inr r \<Rightarrow> fr_capture r = cap \<and> published_ok env s' p r \<and> manifest_of (en_ops env) (en_codec env) (pa_path p) s' = Some (fr_manifest r)
          \<and> mf_committed_lamport (fr_manifest r) = fc_committed cap \<and> mf_range (fr_manifest r) = pa_range p
          \<and> mf_keyspace_id (fr_manifest r) = pp_keyspace_id (pa_path p) \<and> mf_partition_id (fr_manifest r) = pp_partition_id (pa_path p))"

lemma published_ok_writer [simp]: "published_ok env s (p\<lparr>pa_writer := w\<rparr>) r = published_ok env s p r"
  by (simp add: published_ok_def)

context storage
begin

lemma flush_publish_ok:
  assumes ok: "storage_ok env room (Suc n) p io RS" and cap: "capture_ok p cap" and codec: "codec_reads_back (en_codec env)"
  obtains w' s' res where "flush_publish env cap (p, io) = ((p\<lparr>pa_writer := w'\<rparr>, io\<lparr>io_store := s'\<rparr>), res)"
    "storage_ok env room n (p\<lparr>pa_writer := w'\<rparr>) (io\<lparr>io_store := s'\<rparr>) RS"
    "publishes env p (io_store io) s' cap res"
proof -
  let ?name = "segment_name (pw_epoch (pa_writer p)) (pw_next_sequence (pa_writer p))"
  obtain b where b: "build_table env p (records_of (fc_table cap)) = Inr b" "bs_index b = entries_at (en_crc env) header_len (records_of (fc_table cap))"
    "\<And>s t ep seq. object_at (en_ops env) s (object_key (pa_path p) (segment_name ep seq)) = Some (bs_bytes b, t)
      \<Longrightarrow> segment_object env s (pa_path p) (entry_of (segment_name ep seq) b) (records_of (fc_table cap))"
    by (rule published_segment_ok[OF cap]) blast
  have w: "writer_ok env (Suc n) p (io_store io)" and room: "room (io_store io) (Suc (Suc (2 * n)))" using ok by (simp_all add: storage_ok_def)
  obtain s1 w' where s1: "write_segment env b (p, io) = ((p\<lparr>pa_writer := w'\<rparr>, io\<lparr>io_store := s1\<rparr>), Inr (entry_of ?name b))"
    "writer_ok env n (p\<lparr>pa_writer := w'\<rparr>) s1" "room s1 (Suc (2 * n))" "segments_kept (en_ops env) (io_store io) s1"
    "\<exists>t. object_at (en_ops env) s1 (object_key (pa_path p) ?name) = Some (bs_bytes b, t)"
    "object_at (en_ops env) s1 (manifest_key (pa_path p)) = object_at (en_ops env) (io_store io) (manifest_key (pa_path p))"
    by (rule write_segment_ok[OF w room])
  have path: "pw_path (pa_writer (p\<lparr>pa_writer := w'\<rparr>)) = pa_path (p\<lparr>pa_writer := w'\<rparr>)" using s1(2) by (simp add: writer_ok_def)
  have room1: "room (io_store (io\<lparr>io_store := s1\<rparr>)) (Suc (2 * n))" using s1(3) by simp
  show thesis
  proof (rule commit_manifest_ok[OF path room1 codec, of "fc_committed cap" "fc_segments cap @ [entry_of ?name b]"])
    fix e
    assume e: "commit_manifest env (fc_committed cap) (fc_segments cap @ [entry_of ?name b]) (p\<lparr>pa_writer := w'\<rparr>, io\<lparr>io_store := s1\<rparr>)
      = ((p\<lparr>pa_writer := w'\<rparr>, io\<lparr>io_store := s1\<rparr>), Inl e)"
    have "flush_publish env cap (p, io) = ((p\<lparr>pa_writer := w'\<rparr>, io\<lparr>io_store := s1\<rparr>), Inl e)"
      using b(1) s1(1) e by (simp add: flush_publish_def act_defs)
    moreover have "room s1 (2 * n)" using room_less[OF s1(3)] by simp
    moreover have "publishes env p (io_store io) s1 cap (Inl e)" using s1(4,6) by (simp add: publishes_def)
    ultimately show thesis using that storage_ok_store[OF ok s1(4,2)] by blast
  next
    fix s2 m
    assume c: "commit_manifest env (fc_committed cap) (fc_segments cap @ [entry_of ?name b]) (p\<lparr>pa_writer := w'\<rparr>, io\<lparr>io_store := s1\<rparr>)
        = ((p\<lparr>pa_writer := w'\<rparr>, io\<lparr>io_store := s1, io_store := s2\<rparr>), Inr m)" "room s2 (2 * n)"
      "manifest_of (en_ops env) (en_codec env) (pa_path (p\<lparr>pa_writer := w'\<rparr>)) s2 = Some m"
      "mf_segments m = fc_segments cap @ [entry_of ?name b]" "mf_committed_lamport m = fc_committed cap" "mf_range m = pa_range (p\<lparr>pa_writer := w'\<rparr>)"
      "mf_keyspace_id m = pp_keyspace_id (pa_path (p\<lparr>pa_writer := w'\<rparr>))" "mf_partition_id m = pp_partition_id (pa_path (p\<lparr>pa_writer := w'\<rparr>))"
      "\<And>key. key \<noteq> manifest_key (pa_path (p\<lparr>pa_writer := w'\<rparr>)) \<Longrightarrow> object_at (en_ops env) s2 key = object_at (en_ops env) (io_store (io\<lparr>io_store := s1\<rparr>)) key"
    have same: "object_at (en_ops env) s2 key = object_at (en_ops env) s1 key" if "key \<noteq> manifest_key (pa_path p)" for key
      using c(9) that by simp
    define r where "r = \<lparr>fr_capture = cap, fr_built = b, fr_manifest = m\<rparr>"
    have run: "flush_publish env cap (p, io) = ((p\<lparr>pa_writer := w'\<rparr>, io\<lparr>io_store := s2\<rparr>), Inr r)"
      using b(1) s1(1) c(1) by (simp add: flush_publish_def act_defs r_def)
    have kept: "segments_kept (en_ops env) s1 s2" unfolding segments_kept_def using same manifest_key_last by metis
    have "writer_ok env n (p\<lparr>pa_writer := w'\<rparr>) s2"
      using s1(2) same manifest_key_apart unfolding writer_ok_def by (metis partition.select_convs(1) partition.surjective partition.update_convs(3))
    then have ok2: "storage_ok env room n (p\<lparr>pa_writer := w'\<rparr>) (io\<lparr>io_store := s2\<rparr>) RS"
      using storage_ok_store[OF ok segments_kept_trans[OF s1(4) kept]] c(2) by blast
    have "object_at (en_ops env) s2 (object_key (pa_path p) ?name) = object_at (en_ops env) s1 (object_key (pa_path p) ?name)"
      using same manifest_key_apart data_keys(1) by metis
    then have seg: "segment_object env s2 (pa_path p) (entry_of ?name b) (records_of (fc_table cap))" using b(3) s1(5) by metis
    have "published_ok env s2 p r"
      unfolding published_ok_def using cap c(4) b(2) seg capture_ok_table(1)[OF cap] by (simp add: r_def)
    then have "publishes env p (io_store io) s2 cap (Inr r)"
      using segments_kept_trans[OF s1(4) kept] c(3,5-8) by (simp add: publishes_def r_def)
    then show thesis by (rule that[OF run ok2])
  qed
qed

end

text \<open>The flush inside a write is the three steps with nothing between them.\<close>

definition capture_of :: "bool \<Rightarrow> partition \<Rightarrow> flush_capture" where
  "capture_of full_flush p = \<lparr>fc_full = full_flush, fc_table = pa_memtable p, fc_segments = pa_segments p, fc_committed = pa_committed p\<rparr>"

lemma capture_of_ok: "table_ok p \<Longrightarrow> pa_memtable p \<noteq> [] \<Longrightarrow> length (pa_memtable p) < 2 ^ 32 \<Longrightarrow> capture_ok p (capture_of full_flush p)"
  by (simp add: capture_ok_def capture_of_def table_ok_def split: option.split)

lemma write_segment_frame: "\<exists>w' s' r. write_segment env b (p, io) = ((p\<lparr>pa_writer := w'\<rparr>, io\<lparr>io_store := s'\<rparr>), r)"
  by (simp add: write_segment_def split: prod.splits) blast

lemma commit_manifest_frame: "\<exists>s' r. commit_manifest env c segs (p, io) = ((p, io\<lparr>io_store := s'\<rparr>), r)"
  by (simp add: commit_manifest_def split: prod.splits) blast

lemma flush_locked_steps:
  assumes "table_ok p" and "pa_memtable p \<noteq> []"
  shows "flush_locked env full_flush (p, io) =
    act_bind (flush_publish env (capture_of full_flush p)) (\<lambda>r. act_modify (\<lambda>(p, io). (flush_install r p, io))) (p, io)"
proof (cases "build_table env p (records_of (pa_memtable p))")
  case (Inl e)
  then show ?thesis using assms(2) by (simp add: flush_locked_def flush_publish_def capture_of_def act_defs)
next
  case (Inr b)
  have none: "filter (\<lambda>(_, e). pa_committed p < st_version e) (pa_memtable p) = []"
    using assms(1) by (auto simp: table_ok_def filter_empty_conv)
  obtain w' s' r where w: "write_segment env b (p, io) = ((p\<lparr>pa_writer := w'\<rparr>, io\<lparr>io_store := s'\<rparr>), r)"
    using write_segment_frame[of env b p io] by (elim exE) (rule that)
  show ?thesis
  proof (cases r)
    case (Inr entry)
    obtain s2 r2 where c: "commit_manifest env (pa_committed p) (pa_segments p @ [entry]) (p\<lparr>pa_writer := w'\<rparr>, io\<lparr>io_store := s'\<rparr>)
        = ((p\<lparr>pa_writer := w'\<rparr>, io\<lparr>io_store := s', io_store := s2\<rparr>), r2)"
      using commit_manifest_frame[of env "pa_committed p" "pa_segments p @ [entry]" "p\<lparr>pa_writer := w'\<rparr>" "io\<lparr>io_store := s'\<rparr>"]
      by (elim exE) (rule that)
    then show ?thesis using \<open>build_table env p (records_of (pa_memtable p)) = Inr b\<close> w Inr assms(2) none
      by (cases r2) (simp_all add: flush_locked_def flush_publish_def capture_of_def act_defs flush_install_def Let_def memtable_cost_def)
  qed (use \<open>build_table env p (records_of (pa_memtable p)) = Inr b\<close> w assms(2) in
      \<open>simp add: flush_locked_def flush_publish_def capture_of_def act_defs\<close>)
qed

context storage
begin

lemma flush_locked_ok:
  assumes ok: "storage_ok env room (Suc n) p io RS" and codec: "codec_reads_back (en_codec env)"
  obtains p' io' res RS' where "flush_locked env full_flush (p, io) = ((p', io'), res)" "storage_ok env room n p' io' RS'"
    "contents RS' p' = contents RS p" "pa_committed p' = pa_committed p" "pa_range p' = pa_range p"
proof (cases "pa_memtable p = []")
  case True
  then show thesis using that[OF _ storage_ok_less[OF ok]] by (simp add: flush_locked_def)
next
  case False
  have tab: "table_ok p" "length (pa_memtable p) < 2 ^ 32" using ok by (simp_all add: storage_ok_def)
  note cap = capture_of_ok[OF tab(1) False tab(2), of full_flush]
  obtain w' s' res where pub: "flush_publish env (capture_of full_flush p) (p, io) = ((p\<lparr>pa_writer := w'\<rparr>, io\<lparr>io_store := s'\<rparr>), res)"
    "storage_ok env room n (p\<lparr>pa_writer := w'\<rparr>) (io\<lparr>io_store := s'\<rparr>) RS"
    "publishes env p (io_store io) s' (capture_of full_flush p) res"
    by (rule flush_publish_ok[OF ok cap codec])
  show thesis
  proof (cases res)
    case (Inl e)
    then have "flush_locked env full_flush (p, io) = ((p\<lparr>pa_writer := w'\<rparr>, io\<lparr>io_store := s'\<rparr>), Inl e)"
      using flush_locked_steps[OF tab(1) False, of env full_flush io] pub(1) by (simp add: act_defs)
    then show thesis using that pub(2) by simp
  next
    case (Inr r)
    then have "flush_locked env full_flush (p, io) = ((flush_install r (p\<lparr>pa_writer := w'\<rparr>), io\<lparr>io_store := s'\<rparr>), Inr ())"
      using flush_locked_steps[OF tab(1) False, of env full_flush io] pub(1) by (simp add: act_defs)
    moreover have "published_ok env (io_store (io\<lparr>io_store := s'\<rparr>)) (p\<lparr>pa_writer := w'\<rparr>) r" using pub(3) Inr by (simp add: publishes_def)
    note inst = flush_install_ok[OF pub(2) this]
    ultimately show thesis using that[OF _ conjunct1[OF inst]] conjunct2[OF inst] by simp
  qed
qed

end

end
