(* ===== verification/Storage_Map.thy ===== *)
theory Storage_Map
  imports Storage_Flush
begin

text \<open>
  What a partition promises: it is a map from keys to versioned entries with a commit horizon. The machine below runs
  the operations of a partition, its flushes step by step, in any order the publication mutex admits; the
  theorem says that its replies are those of the map, whatever is in the table, in segments or in the cache, and
  whatever flushes succeed, fail or are cancelled.
\<close>

section \<open>The engine as a machine\<close>

datatype flush_phase = NotFlushing | Captured flush_capture | Published flush_result

record 's engine =
  eg_partition :: partition
  eg_io :: "'s node_io"
  eg_flush :: flush_phase

datatype storage_event =
    Get u64 bytes
  | Put u64 lamport bytes bytes "nat option" write_condition
  | Delete u64 lamport bytes write_condition
  | Apply mutation
  | FreezeMaintenance bool
  | FlushBegin bool
  | FlushPublish
  | FlushInstall
  | FlushCancel

datatype storage_reply =
    Found "storage_error + stored_record option"
  | Wrote "storage_error + write_outcome"
  | Replayed "storage_error + unit"
  | Maintained
  | Waiting

definition engine_do ::
  "('s, 'a) storage_action \<Rightarrow> (storage_error + 'a \<Rightarrow> storage_reply) \<Rightarrow> 's engine \<Rightarrow> 's engine \<times> storage_reply" where
  "engine_do act reply eg =
     (let ((p, io), r) = act (eg_partition eg, eg_io eg) in (eg\<lparr>eg_partition := p, eg_io := io\<rparr>, reply r))"

text \<open>\<open>put\<close>, \<open>delete\<close> and the start of a flush take the publication mutex, which a running flush holds.\<close>

definition when_free :: "('s engine \<Rightarrow> 's engine \<times> storage_reply) \<Rightarrow> 's engine \<Rightarrow> 's engine \<times> storage_reply" where
  "when_free f eg = (if eg_flush eg = NotFlushing then f eg else (eg, Waiting))"

fun storage_step :: "('s, 'tag) storage_env \<Rightarrow> storage_event \<Rightarrow> 's engine \<Rightarrow> 's engine \<times> storage_reply" where
  "storage_step env (Get now key) eg = engine_do (partition_get env now key) Found eg"
| "storage_step env (Put now l key v ttl cond) eg = when_free (engine_do (partition_put env now l key v ttl cond) Wrote) eg"
| "storage_step env (Delete now l key cond) eg = when_free (engine_do (partition_delete env now l key cond) Wrote) eg"
| "storage_step env (Apply m) eg = engine_do (partition_apply env m) Replayed eg"
| "storage_step env (FreezeMaintenance b) eg = (eg\<lparr>eg_partition := (eg_partition eg)\<lparr>pa_maintenance_frozen := b\<rparr>\<rparr>, Maintained)"
| "storage_step env (FlushBegin full_flush) eg =
     when_free (\<lambda>eg. case flush_begin full_flush (eg_partition eg) of
         (p, None) \<Rightarrow> (eg\<lparr>eg_partition := p\<rparr>, Maintained)
       | (p, Some cap) \<Rightarrow> (eg\<lparr>eg_partition := p, eg_flush := Captured cap\<rparr>, Maintained)) eg"
| "storage_step env FlushPublish eg =
     (case eg_flush eg of
        Captured cap \<Rightarrow>
          (case flush_publish env cap (eg_partition eg, eg_io eg) of
             ((p, io), Inl _) \<Rightarrow> (\<lparr>eg_partition = p, eg_io = io, eg_flush = NotFlushing\<rparr>, Maintained)
           | ((p, io), Inr r) \<Rightarrow> (\<lparr>eg_partition = p, eg_io = io, eg_flush = Published r\<rparr>, Maintained))
      | _ \<Rightarrow> (eg, Maintained))"
| "storage_step env FlushInstall eg =
     (case eg_flush eg of
        Published r \<Rightarrow> (eg\<lparr>eg_partition := flush_install r (eg_partition eg), eg_flush := NotFlushing\<rparr>, Maintained)
      | _ \<Rightarrow> (eg, Maintained))"
| "storage_step env FlushCancel eg = (eg\<lparr>eg_flush := NotFlushing\<rparr>, Maintained)"

fun storage_run :: "('s, 'tag) storage_env \<Rightarrow> storage_event list \<Rightarrow> 's engine \<Rightarrow> 's engine \<times> storage_reply list" where
  "storage_run env [] eg = (eg, [])"
| "storage_run env (ev # evs) eg =
     (let (eg', r) = storage_step env ev eg; (eg'', rs) = storage_run env evs eg' in (eg'', r # rs))"

section \<open>The map\<close>

record entry_map =
  em_range :: key_range
  em_entries :: "bytes \<Rightarrow> stored option"
  em_committed :: lamport

definition map_empty :: "key_range \<Rightarrow> entry_map" where
  "map_empty r = \<lparr>em_range = r, em_entries = (\<lambda>_. None), em_committed = 0\<rparr>"

definition map_key :: "entry_map \<Rightarrow> bytes \<Rightarrow> storage_error + unit" where
  "map_key M key =
     (if max_key_bytes < length key then Inl (TooLarge ''key'' (length key) max_key_bytes)
      else if contains (em_range M) key then Inr () else Inl (InvalidArgument OutsideRange))"

definition map_value :: "bytes \<Rightarrow> storage_error + unit" where
  "map_value v = (if max_value_bytes < length v then Inl (TooLarge ''value'' (length v) max_value_bytes) else Inr ())"

definition map_ahead :: "entry_map \<Rightarrow> lamport \<Rightarrow> storage_error + unit" where
  "map_ahead M l = (if em_committed M < l then Inr () else Inl (InvalidArgument (LamportNotAhead l (em_committed M))))"

definition map_visible :: "entry_map \<Rightarrow> u64 \<Rightarrow> bytes \<Rightarrow> stored_record option" where
  "map_visible M now key = Option.bind (em_entries M key) (\<lambda>s. visible_at s now)"

definition map_store :: "lamport \<Rightarrow> bytes \<Rightarrow> stored \<Rightarrow> entry_map \<Rightarrow> entry_map" where
  "map_store l key e M = M\<lparr>em_entries := (em_entries M)(key \<mapsto> e), em_committed := l\<rparr>"

text \<open>A conditional write: nothing but the condition on what is visible decides whether it is applied.\<close>

definition map_holds :: "write_condition \<Rightarrow> stored_record option \<Rightarrow> bool" where
  "map_holds cond visible =
     (case cond of Unconditional \<Rightarrow> True | IfNotPresent \<Rightarrow> visible = None | IfVersion v \<Rightarrow> map_option rec_version visible = Some v)"

definition map_write :: "u64 \<Rightarrow> lamport \<Rightarrow> bytes \<Rightarrow> write_condition \<Rightarrow> stored \<Rightarrow> entry_map \<Rightarrow> entry_map \<times> write_outcome" where
  "map_write now l key cond e M =
     (if map_holds cond (map_visible M now key) then (map_store l key e M, Applied l)
      else (M, ConditionFailed cond (map_option rec_version (map_visible M now key))))"

definition map_try :: "(storage_error + unit) list \<Rightarrow> (entry_map \<Rightarrow> entry_map \<times> write_outcome) \<Rightarrow> entry_map \<Rightarrow> entry_map \<times> storage_reply" where
  "map_try checks f M =
     (case check_each id checks of Inl e \<Rightarrow> (M, Wrote (Inl e)) | Inr _ \<Rightarrow> (let (M', r) = f M in (M', Wrote (Inr r))))"

fun map_step :: "storage_event \<Rightarrow> entry_map \<Rightarrow> entry_map \<times> storage_reply" where
  "map_step (Get now key) M = (M, Found (bind_res (map_key M key) (\<lambda>_. Inr (map_visible M now key))))"
| "map_step (Put now l key v ttl cond) M =
     map_try [map_key M key, map_value v, map_ahead M l]
       (map_write now l key cond
         \<lparr>st_version = l, st_expires_at_millis = map_option (absolute_expiry now) ttl, st_deleted = False, st_value = v\<rparr>) M"
| "map_step (Delete now l key cond) M =
     map_try [map_key M key, map_ahead M l]
       (case em_entries M key of
          Some e \<Rightarrow>
            (if st_deleted e \<and> \<not> stored_expired_at e now \<and> map_holds cond (map_visible M now key) then (\<lambda>M. (M, Applied (st_version e)))
             else map_write now l key cond
               \<lparr>st_version = l, st_expires_at_millis = Some (saturating_add now tombstone_retention_millis), st_deleted = True, st_value = []\<rparr>)
        | None \<Rightarrow> map_write now l key cond
            \<lparr>st_version = l, st_expires_at_millis = Some (saturating_add now tombstone_retention_millis), st_deleted = True, st_value = []\<rparr>) M"
| "map_step (Apply m) M =
     (case check_each id [map_key M (mu_key m), case mu_op m of MutPut v _ \<Rightarrow> map_value v | MutDelete _ \<Rightarrow> Inr ()] of
        Inl e \<Rightarrow> (M, Replayed (Inl e))
      | Inr _ \<Rightarrow>
          (if mu_lamport m \<le> em_committed M then M else map_store (mu_lamport m) (mu_key m) (entry_of_mutation m) M, Replayed (Inr ())))"
| "map_step _ M = (M, Maintained)"

fun map_run :: "storage_event list \<Rightarrow> entry_map \<Rightarrow> entry_map \<times> storage_reply list" where
  "map_run [] M = (M, [])"
| "map_run (ev # evs) M = (let (M', r) = map_step ev M; (M'', rs) = map_run evs M' in (M'', r # rs))"

text \<open>Events that found the mutex taken had no effect yet.\<close>

definition admitted :: "storage_event list \<Rightarrow> storage_reply list \<Rightarrow> storage_event list" where
  "admitted evs rs = map fst (filter (\<lambda>(_, r). r \<noteq> Waiting) (zip evs rs))"

section \<open>Writes to the table\<close>

definition map_of_partition :: "segment_record list list \<Rightarrow> partition \<Rightarrow> entry_map" where
  "map_of_partition RS p = \<lparr>em_range = pa_range p, em_entries = contents RS p, em_committed = pa_committed p\<rparr>"

definition entry_fits :: "partition \<Rightarrow> lamport \<Rightarrow> bytes \<Rightarrow> stored \<Rightarrow> bool" where
  "entry_fits p l key e \<longleftrightarrow> pa_committed p < l \<and> st_version e = l \<and> contains (pa_range p) key \<and> length key \<le> max_key_bytes
     \<and> length (st_value e) \<le> max_value_bytes \<and> (st_deleted e \<longrightarrow> st_value e = [])"

definition table_put :: "lamport \<Rightarrow> bytes \<Rightarrow> stored \<Rightarrow> u64 \<Rightarrow> partition \<Rightarrow> partition" where
  "table_put l key e b p = p\<lparr>pa_memtable := bt_insert key e (pa_memtable p), pa_memtable_bytes := b, pa_committed := l\<rparr>"

lemma table_put_fields [simp]:
  "pa_segments (table_put l key e b p) = pa_segments p" "pa_path (table_put l key e b p) = pa_path p" "pa_writer (table_put l key e b p) = pa_writer p"
  "pa_flushed (table_put l key e b p) = pa_flushed p" "pa_index (table_put l key e b p) = pa_index p" "pa_range (table_put l key e b p) = pa_range p"
  "pa_committed (table_put l key e b p) = l" "pa_memtable (table_put l key e b p) = bt_insert key e (pa_memtable p)"
  "pa_memtable_bytes (table_put l key e b p) = b"
  by (simp_all add: table_put_def)

lemma table_put_segments [simp]:
  "segments_ok env s (table_put l key e b p) RS = segments_ok env s p RS" "writer_ok env n (table_put l key e b p) s = writer_ok env n p s"
  by (simp_all add: segments_ok_def writer_ok_def)

lemma table_put_contents [simp]: "contents RS (table_put l key e b p) = (contents RS p)(key \<mapsto> e)"
  by (simp add: contents_def fun_eq_iff)

lemma table_put_table_ok:
  assumes "table_ok p" and "entry_fits p l key e"
  shows "table_ok (table_put l key e b p)"
proof -
  have "pa_flushed p < l" "pa_flushed p \<le> l" using assms by (auto simp: table_ok_def entry_fits_def)
  moreover have "st_version x \<le> l" if "(k, x) \<in> set (pa_memtable p)" for k x
    using that assms by (force simp: table_ok_def entry_fits_def)
  moreover have "bt_ok (pa_memtable p)" using assms(1) by (simp add: table_ok_def)
  ultimately show ?thesis using assms by (auto simp: table_ok_def entry_fits_def keeps_ok btree_simps)
qed

lemma table_put_capture:
  assumes cap: "capture_ok p cap" and fits: "entry_fits p l key e"
  shows "capture_ok (table_put l key e b p) cap"
proof -
  note c = capture_ok_table[OF cap]
  have above: "fc_committed cap < st_version e" "fc_committed cap \<le> l" using c(2) fits by (auto simp: entry_fits_def)
  have "case bt_get (pa_memtable (table_put l key e b p)) k of
      None \<Rightarrow> bt_get (fc_table cap) k = None
    | Some x \<Rightarrow> st_version x \<le> fc_committed cap \<longrightarrow> bt_get (fc_table cap) k = Some x" for k
    using c(6,7)[of k] above(1) by (cases "k = key") (auto split: option.split)
  moreover have "table_ok ((table_put l key e b p)\<lparr>pa_memtable := fc_table cap, pa_committed := fc_committed cap\<rparr>)"
    using c(5) by (simp add: table_ok_def)
  ultimately show ?thesis using c(1-4) above(2) by (simp add: capture_ok_def)
qed

lemma commit_entry_put:
  "\<exists>b. commit_entry env l key e flag (p, io) =
     (if flag \<and> flush_trigger_bytes \<le> b then (fst (flush_locked env True (table_put l key e b p, io)), Inr ())
      else ((table_put l key e b p, io), Inr ()))"
  unfolding commit_entry_def Let_def table_put_def by auto

context storage
begin

lemma table_put_ok:
  assumes "storage_ok env room (Suc n) p io RS" and "entry_fits p l key e"
  shows "storage_ok env room n (table_put l key e b p) io RS"
proof -
  have "length (bt_insert key e (pa_memtable p)) + n < 2 ^ 32"
    using assms(1) length_bt_insert[of key e "pa_memtable p"] unfolding storage_ok_def by linarith
  then show ?thesis using storage_ok_less[OF assms(1)] table_put_table_ok[OF _ assms(2)] by (simp add: storage_ok_def)
qed

lemma commit_entry_ok:
  assumes ok: "storage_ok env room (Suc (Suc n)) p io RS" and fits: "entry_fits p l key e" and codec: "codec_reads_back (en_codec env)"
  obtains p' io' RS' where "commit_entry env l key e flag (p, io) = ((p', io'), Inr ())" "storage_ok env room n p' io' RS'"
    "map_of_partition RS' p' = map_store l key e (map_of_partition RS p)"
    "\<not> flag \<Longrightarrow> io' = io \<and> (\<exists>b. p' = table_put l key e b p)"
proof -
  obtain b where run: "commit_entry env l key e flag (p, io) =
     (if flag \<and> flush_trigger_bytes \<le> b then (fst (flush_locked env True (table_put l key e b p, io)), Inr ())
      else ((table_put l key e b p, io), Inr ()))"
    using commit_entry_put[of env l key e flag p io] by (elim exE) (rule that)
  have ok1: "storage_ok env room (Suc n) (table_put l key e b p) io RS" by (rule table_put_ok[OF ok fits])
  have map1: "map_of_partition RS (table_put l key e b p) = map_store l key e (map_of_partition RS p)"
    by (simp add: map_of_partition_def map_store_def)
  show thesis
  proof (cases "flag \<and> flush_trigger_bytes \<le> b")
    case True
    obtain p' io' res RS' where f: "flush_locked env True (table_put l key e b p, io) = ((p', io'), res)" "storage_ok env room n p' io' RS'"
      "contents RS' p' = contents RS (table_put l key e b p)" "pa_committed p' = pa_committed (table_put l key e b p)"
      "pa_range p' = pa_range (table_put l key e b p)"
      by (rule flush_locked_ok[OF ok1 codec, of True]) blast
    have "map_of_partition RS' p' = map_store l key e (map_of_partition RS p)"
      unfolding map1[symmetric] using f(3-5) by (simp add: map_of_partition_def)
    then show thesis using that run True f(1,2) by auto
  next
    case False
    then have "commit_entry env l key e flag (p, io) = ((table_put l key e b p, io), Inr ())" using run by auto
    then show thesis using that storage_ok_less[OF ok1] map1 by blast
  qed
qed

end

section \<open>Each operation is the map's\<close>

lemma check_key_map: "check_key key (p, io) = ((p, io), map_key (map_of_partition RS p) key)"
  by (simp add: check_key_def map_key_def map_of_partition_def)

lemma check_value_map: "check_value v (p, io) = ((p, io), map_value v)"
  by (simp add: check_value_def map_value_def)

lemma check_lamport_map: "check_lamport l (p, io) = ((p, io), map_ahead (map_of_partition RS p) l)"
  by (auto simp: check_lamport_def map_ahead_def map_of_partition_def)

lemma act_checked: "m s = (s, Inr ()) \<Longrightarrow> act_then m n s = n s" "m s = (s, Inl e) \<Longrightarrow> act_then m n s = (s, Inl e)"
  by (simp_all add: act_defs)

lemma evaluate_map:
  "evaluate cond existing now =
     (let visible = Option.bind existing (\<lambda>s. visible_at s now)
      in if map_holds cond visible then None else Some (ConditionFailed cond (map_option rec_version visible)))"
  by (simp add: evaluate_def map_holds_def Let_def split: write_condition.split)

lemma entry_fits_put:
  "map_key (map_of_partition RS p) key = Inr () \<Longrightarrow> map_value v = Inr () \<Longrightarrow> map_ahead (map_of_partition RS p) l = Inr () \<Longrightarrow>
   entry_fits p l key \<lparr>st_version = l, st_expires_at_millis = x, st_deleted = False, st_value = v\<rparr>"
  by (simp add: map_key_def map_value_def map_ahead_def map_of_partition_def entry_fits_def split: if_splits)

lemma entry_fits_delete:
  "map_key (map_of_partition RS p) key = Inr () \<Longrightarrow> map_ahead (map_of_partition RS p) l = Inr () \<Longrightarrow>
   entry_fits p l key \<lparr>st_version = l, st_expires_at_millis = x, st_deleted = True, st_value = []\<rparr>"
  by (simp add: map_key_def map_ahead_def map_of_partition_def entry_fits_def split: if_splits)

lemma storage_ok_cache:
  "storage_ok env room n p io RS \<Longrightarrow> cache_coherent env (io\<lparr>io_cache := c\<rparr>) \<Longrightarrow> storage_ok env room n p (io\<lparr>io_cache := c\<rparr>) RS"
  by (simp add: storage_ok_def)

context storage
begin

lemma load_map:
  assumes "storage_ok env room n p io RS"
  obtains c where "load env key (p, io) = ((p, io\<lparr>io_cache := c\<rparr>), Inr (em_entries (map_of_partition RS p) key))"
    "storage_ok env room n p (io\<lparr>io_cache := c\<rparr>) RS"
proof -
  obtain c where c: "load env key (p, io) = ((p, io\<lparr>io_cache := c\<rparr>), Inr (contents RS p key))" "cache_coherent env (io\<lparr>io_cache := c\<rparr>)"
    using assms by (auto simp: storage_ok_def intro: load_ok)
  show thesis by (rule that[of c]) (use c storage_ok_cache[OF assms c(2)] in \<open>simp_all add: map_of_partition_def\<close>)
qed

lemma partition_get_map:
  assumes ok: "storage_ok env room n p io RS"
  obtains c r where "partition_get env now key (p, io) = ((p, io\<lparr>io_cache := c\<rparr>), r)" "storage_ok env room n p (io\<lparr>io_cache := c\<rparr>) RS"
    "map_step (Get now key) (map_of_partition RS p) = (map_of_partition RS p, Found r)"
proof (cases "map_key (map_of_partition RS p) key")
  case (Inl e)
  then have "partition_get env now key (p, io) = ((p, io\<lparr>io_cache := io_cache io\<rparr>), Inl e)"
    by (simp add: partition_get_def act_defs check_key_map[where RS = RS])
  then show thesis using that[of "io_cache io"] ok Inl by simp
next
  case (Inr u)
  obtain c where c: "load env key (p, io) = ((p, io\<lparr>io_cache := c\<rparr>), Inr (em_entries (map_of_partition RS p) key))"
    "storage_ok env room n p (io\<lparr>io_cache := c\<rparr>) RS"
    by (rule load_map[OF ok])
  have "partition_get env now key (p, io) = ((p, io\<lparr>io_cache := c\<rparr>), Inr (map_visible (map_of_partition RS p) now key))"
    using Inr c(1) by (simp add: partition_get_def act_defs check_key_map[where RS = RS] map_visible_def)
  then show thesis using that[of c] c(2) Inr by simp
qed

text \<open>A conditional write, once its checks passed: \<open>f\<close> is the write that a condition that holds leads to.\<close>

lemma conditional_write_map:
  assumes ok: "storage_ok env room (Suc (Suc n)) p io RS" and fits: "entry_fits p l key e" and codec: "codec_reads_back (en_codec env)"
  defines "M \<equiv> map_of_partition RS p"
  assumes body: "\<And>ps. f (em_entries M key) ps = act_then (commit_entry env l key e True) (act_ret (Applied l)) ps"
  obtains p' io' RS' M' r where "act_bind (load env key) (\<lambda>existing. case evaluate cond existing now of Some failure \<Rightarrow> act_ret failure | None \<Rightarrow> f existing) (p, io)
      = ((p', io'), Inr r)"
    "storage_ok env room n p' io' RS'" "map_write now l key cond e M = (map_of_partition RS' p', r)"
proof -
  obtain c where c: "load env key (p, io) = ((p, io\<lparr>io_cache := c\<rparr>), Inr (em_entries M key))"
    and ok1: "storage_ok env room (Suc (Suc n)) p (io\<lparr>io_cache := c\<rparr>) RS"
    unfolding M_def by (rule load_map[OF ok])
  show thesis
  proof (cases "map_holds cond (map_visible M now key)")
    case False
    then have "act_bind (load env key) (\<lambda>existing. case evaluate cond existing now of Some failure \<Rightarrow> act_ret failure | None \<Rightarrow> f existing) (p, io)
      = ((p, io\<lparr>io_cache := c\<rparr>), Inr (ConditionFailed cond (map_option rec_version (map_visible M now key))))"
      using c by (simp add: act_defs evaluate_map Let_def map_visible_def)
    then show thesis using that storage_ok_less[OF storage_ok_less[OF ok1]] False by (simp add: map_write_def M_def)
  next
    case True
    obtain p' io' RS' where w: "commit_entry env l key e True (p, io\<lparr>io_cache := c\<rparr>) = ((p', io'), Inr ())" "storage_ok env room n p' io' RS'"
      "map_of_partition RS' p' = map_store l key e (map_of_partition RS p)"
      by (rule commit_entry_ok[OF ok1 fits codec, of True]) blast
    have "act_bind (load env key) (\<lambda>existing. case evaluate cond existing now of Some failure \<Rightarrow> act_ret failure | None \<Rightarrow> f existing) (p, io)
      = ((p', io'), Inr (Applied l))"
      using c True w(1) body by (simp add: act_defs evaluate_map Let_def map_visible_def)
    then show thesis using that w(2,3) True by (simp add: map_write_def M_def)
  qed
qed

lemma partition_put_map:
  assumes ok: "storage_ok env room (Suc (Suc n)) p io RS" and codec: "codec_reads_back (en_codec env)"
  obtains p' io' RS' r where "partition_put env now l key v ttl cond (p, io) = ((p', io'), r)" "storage_ok env room n p' io' RS'"
    "map_step (Put now l key v ttl cond) (map_of_partition RS p) = (map_of_partition RS' p', Wrote r)"
proof -
  let ?M = "map_of_partition RS p"
  let ?e = "\<lparr>st_version = l, st_expires_at_millis = map_option (absolute_expiry now) ttl, st_deleted = False, st_value = v\<rparr>"
  note checks = check_key_map[where RS = RS] check_value_map check_lamport_map[where RS = RS]
  show thesis
  proof (cases "check_each id [map_key ?M key, map_value v, map_ahead ?M l]")
    case (Inl e)
    then have "partition_put env now l key v ttl cond (p, io) = ((p, io), Inl e)"
      by (cases "map_key ?M key"; cases "map_value v"; cases "map_ahead ?M l") (simp_all add: partition_put_def act_defs checks)
    then show thesis using that[OF _ storage_ok_less[OF storage_ok_less[OF ok]]] Inl by (simp add: map_try_def)
  next
    case (Inr u)
    then have c: "map_key ?M key = Inr ()" "map_value v = Inr ()" "map_ahead ?M l = Inr ()" by (auto simp: bind_res_eq_Inr)
    obtain p' io' RS' r where w: "act_bind (load env key) (\<lambda>existing. case evaluate cond existing now of Some failure \<Rightarrow> act_ret failure
        | None \<Rightarrow> act_then (commit_entry env l key ?e True) (act_ret (Applied l))) (p, io) = ((p', io'), Inr r)"
      "storage_ok env room n p' io' RS'" "map_write now l key cond ?e ?M = (map_of_partition RS' p', r)"
      by (rule conditional_write_map[OF ok entry_fits_put[OF c] codec, where f = "\<lambda>_. act_then (commit_entry env l key ?e True) (act_ret (Applied l))"]) blast+
    have "partition_put env now l key v ttl cond (p, io) = ((p', io'), Inr r)"
      unfolding partition_put_def version_at_def using w(1) c by (simp add: act_checked checks)
    then show thesis using that w(2,3) Inr by (simp add: map_try_def)
  qed
qed

lemma partition_delete_map:
  assumes ok: "storage_ok env room (Suc (Suc n)) p io RS" and codec: "codec_reads_back (en_codec env)"
  obtains p' io' RS' r where "partition_delete env now l key cond (p, io) = ((p', io'), r)" "storage_ok env room n p' io' RS'"
    "map_step (Delete now l key cond) (map_of_partition RS p) = (map_of_partition RS' p', Wrote r)"
proof -
  let ?M = "map_of_partition RS p" and ?now = "Some (saturating_add now tombstone_retention_millis)"
  let ?e = "\<lparr>st_version = l, st_expires_at_millis = ?now, st_deleted = True, st_value = []\<rparr>"
  let ?w = "act_then (commit_entry env l key ?e True) (act_ret (Applied l))"
  let ?f = "\<lambda>existing. case existing of
      Some entry \<Rightarrow> if st_deleted entry \<and> \<not> stored_expired_at entry now then act_ret (Applied (st_version entry)) else ?w
    | None \<Rightarrow> ?w"
  note checks = check_key_map[where RS = RS] check_lamport_map[where RS = RS]
  show thesis
  proof (cases "check_each id [map_key ?M key, map_ahead ?M l]")
    case (Inl e)
    then have "partition_delete env now l key cond (p, io) = ((p, io), Inl e)"
      by (cases "map_key ?M key"; cases "map_ahead ?M l") (simp_all add: partition_delete_def act_defs checks)
    then show thesis using that[OF _ storage_ok_less[OF storage_ok_less[OF ok]]] Inl by (simp add: map_try_def)
  next
    case (Inr u)
    then have c: "map_key ?M key = Inr ()" "map_ahead ?M l = Inr ()" by (auto simp: bind_res_eq_Inr)
    have run: "partition_delete env now l key cond (p, io) =
        act_bind (load env key) (\<lambda>existing. case evaluate cond existing now of Some failure \<Rightarrow> act_ret failure | None \<Rightarrow> ?f existing) (p, io)"
      unfolding partition_delete_def version_at_def using c by (simp add: act_checked checks)
    show thesis
    proof (cases "\<exists>x. em_entries ?M key = Some x \<and> st_deleted x \<and> \<not> stored_expired_at x now \<and> map_holds cond (map_visible ?M now key)")
      case True
      then obtain x where x: "em_entries ?M key = Some x" "st_deleted x" "\<not> stored_expired_at x now" "map_holds cond (map_visible ?M now key)" by blast
      obtain c where ld: "load env key (p, io) = ((p, io\<lparr>io_cache := c\<rparr>), Inr (em_entries ?M key))"
        and ok1: "storage_ok env room (Suc (Suc n)) p (io\<lparr>io_cache := c\<rparr>) RS" by (rule load_map[OF ok])
      have "partition_delete env now l key cond (p, io) = ((p, io\<lparr>io_cache := c\<rparr>), Inr (Applied (st_version x)))"
        unfolding run using ld x by (simp add: act_defs evaluate_map Let_def map_visible_def)
      then show thesis using that[OF _ storage_ok_less[OF storage_ok_less[OF ok1]]] x Inr by (simp add: map_try_def)
    next
      case False
      have "act_bind (load env key) (\<lambda>existing. case evaluate cond existing now of Some failure \<Rightarrow> act_ret failure | None \<Rightarrow> ?f existing) (p, io)
        = act_bind (load env key) (\<lambda>existing. case evaluate cond existing now of Some failure \<Rightarrow> act_ret failure | None \<Rightarrow> ?w) (p, io)"
      proof (rule load_map[OF ok, of key])
        fix c assume ld: "load env key (p, io) = ((p, io\<lparr>io_cache := c\<rparr>), Inr (em_entries ?M key))"
        show ?thesis using False ld by (auto simp: act_bind_def evaluate_map Let_def map_visible_def split: option.split)
      qed
      moreover obtain p' io' RS' r where w: "act_bind (load env key) (\<lambda>existing. case evaluate cond existing now of Some failure \<Rightarrow> act_ret failure
          | None \<Rightarrow> ?w) (p, io) = ((p', io'), Inr r)"
        "storage_ok env room n p' io' RS'" "map_write now l key cond ?e ?M = (map_of_partition RS' p', r)"
        by (rule conditional_write_map[OF ok entry_fits_delete[OF c] codec, where f = "\<lambda>_. ?w"]) blast+
      ultimately have "partition_delete env now l key cond (p, io) = ((p', io'), Inr r)" unfolding run by simp
      moreover have "map_step (Delete now l key cond) ?M = (map_of_partition RS' p', Wrote (Inr r))"
        using w(3) Inr False by (auto simp: map_try_def split: option.split)
      ultimately show thesis using that w(2) by blast
    qed
  qed
qed

lemma partition_apply_map:
  assumes ok: "storage_ok env room (Suc (Suc n)) p io RS" and codec: "codec_reads_back (en_codec env)"
  obtains p' r where "partition_apply env m (p, io) = ((p', io), r)" "storage_ok env room n p' io RS"
    "map_step (Apply m) (map_of_partition RS p) = (map_of_partition RS p', Replayed r)"
    "p' = p \<or> (\<exists>l key e b. entry_fits p l key e \<and> p' = table_put l key e b p)"
proof -
  let ?M = "map_of_partition RS p" and ?v = "case mu_op m of MutPut v _ \<Rightarrow> map_value v | MutDelete _ \<Rightarrow> Inr ()"
  have val: "(case mu_op m of MutPut v _ \<Rightarrow> check_value v | MutDelete _ \<Rightarrow> act_ret ()) (p, io) = ((p, io), ?v)"
    by (simp add: act_ret_def check_value_map split: mutation_op.split)
  note less = storage_ok_less[OF storage_ok_less[OF ok]]
  show thesis
  proof (cases "check_each id [map_key ?M (mu_key m), ?v]")
    case (Inl e)
    then have "partition_apply env m (p, io) = ((p, io), Inl e)"
      by (cases "map_key ?M (mu_key m)"; cases ?v) (simp_all add: partition_apply_def act_then_def act_bind_def check_key_map[where RS = RS] val)
    then show thesis using that[OF _ less] Inl by simp
  next
    case (Inr u)
    then have c: "map_key ?M (mu_key m) = Inr ()" "?v = Inr ()" by (auto simp: bind_res_eq_Inr)
    have run: "partition_apply env m (p, io) = (if mu_lamport m \<le> pa_committed p then ((p, io), Inr ())
        else commit_entry env (mu_lamport m) (mu_key m) (entry_of_mutation m) False (p, io))"
      using c val by (simp add: partition_apply_def act_checked check_key_map[where RS = RS])
    show thesis
    proof (cases "mu_lamport m \<le> pa_committed p")
      case True
      then show thesis using that[OF _ less] run Inr by (simp add: map_of_partition_def)
    next
      case False
      then have "map_ahead ?M (mu_lamport m) = Inr ()" by (auto simp: map_ahead_def map_of_partition_def)
      then have fits: "entry_fits p (mu_lamport m) (mu_key m) (entry_of_mutation m)"
        using c entry_fits_put[of RS p "mu_key m"] entry_fits_delete[of RS p "mu_key m"]
        by (auto simp: entry_of_mutation_def mutation_version_def version_at_def split: mutation_op.splits)
      obtain p' io' RS' where w: "commit_entry env (mu_lamport m) (mu_key m) (entry_of_mutation m) False (p, io) = ((p', io'), Inr ())"
        "map_of_partition RS' p' = map_store (mu_lamport m) (mu_key m) (entry_of_mutation m) ?M"
        "io' = io \<and> (\<exists>b. p' = table_put (mu_lamport m) (mu_key m) (entry_of_mutation m) b p)"
        by (rule commit_entry_ok[OF ok fits codec, of False]) blast
      then obtain b where b: "p' = table_put (mu_lamport m) (mu_key m) (entry_of_mutation m) b p" "io' = io" by blast
      have "storage_ok env room n p' io RS" unfolding b(1) using table_put_ok[OF ok fits] by (rule storage_ok_less)
      moreover have "map_of_partition RS p' = map_store (mu_lamport m) (mu_key m) (entry_of_mutation m) ?M"
        unfolding b(1) by (simp add: map_of_partition_def map_store_def)
      moreover have "em_committed ?M = pa_committed p" by (simp add: map_of_partition_def)
      ultimately show thesis using that[of p' "Inr ()"] run w(1) b False fits Inr by auto
    qed
  qed
qed

end

section \<open>The machine is the map\<close>

definition phase_ok where
  "phase_ok env eg \<longleftrightarrow>
     (case eg_flush eg of
        NotFlushing \<Rightarrow> True
      | Captured cap \<Rightarrow> capture_ok (eg_partition eg) cap
      | Published r \<Rightarrow> published_ok env (io_store (eg_io eg)) (eg_partition eg) r)"

definition engine_ok where
  "engine_ok env room n eg RS \<longleftrightarrow> storage_ok env room n (eg_partition eg) (eg_io eg) RS \<and> phase_ok env eg"

abbreviation map_of_engine where
  "map_of_engine RS eg \<equiv> map_of_partition RS (eg_partition eg)"

text \<open>A step answers as the map does and leaves what the map holds, or waits and changes nothing the map sees.\<close>

definition step_matches where
  "step_matches env room n ev eg RS out \<longleftrightarrow>
     (\<exists>RS'. engine_ok env room n (fst out) RS' \<and>
        (if snd out = Waiting then map_of_engine RS' (fst out) = map_of_engine RS eg
         else map_step ev (map_of_engine RS eg) = (map_of_engine RS' (fst out), snd out)))"

lemma phase_ok_put:
  assumes "phase_ok env eg" and "entry_fits (eg_partition eg) l key e"
  shows "phase_ok env (eg\<lparr>eg_partition := table_put l key e b (eg_partition eg)\<rparr>)"
  using assms table_put_capture[of "eg_partition eg"]
  by (auto simp: phase_ok_def published_ok_def split: flush_phase.splits)

lemma frozen_simps [simp]:
  "storage_ok env room n (p\<lparr>pa_maintenance_frozen := f\<rparr>) io RS = storage_ok env room n p io RS"
  "capture_ok (p\<lparr>pa_maintenance_frozen := f\<rparr>) cap = capture_ok p cap"
  "map_of_partition RS (p\<lparr>pa_maintenance_frozen := f\<rparr>) = map_of_partition RS p"
  "storage_ok env room n (p\<lparr>pa_timer_flushes_since_compaction := k\<rparr>) io RS = storage_ok env room n p io RS"
  "capture_ok (p\<lparr>pa_timer_flushes_since_compaction := k\<rparr>) cap = capture_ok p cap"
  "map_of_partition RS (p\<lparr>pa_timer_flushes_since_compaction := k\<rparr>) = map_of_partition RS p"
  by (simp_all add: storage_ok_def capture_ok_def segments_ok_def table_ok_def writer_ok_def map_of_partition_def contents_def fun_eq_iff)

lemma flush_begin_ok:
  assumes "storage_ok env room n p io RS" and "flush_begin full_flush p = (p', c)"
  shows "storage_ok env room n p' io RS \<and> map_of_partition RS p' = map_of_partition RS p \<and> (\<forall>cap. c = Some cap \<longrightarrow> capture_ok p' cap)"
proof -
  have tab: "table_ok p" "length (pa_memtable p) < 2 ^ 32" using assms(1) by (simp_all add: storage_ok_def)
  have "\<forall>cap. c = Some cap \<longrightarrow> capture_ok p' cap"
    using assms(2) capture_of_ok[OF tab(1) _ tab(2), of full_flush] by (auto simp: flush_begin_def capture_of_def Let_def split: if_splits)
  then show ?thesis using assms by (auto simp: flush_begin_def Let_def split: if_splits)
qed

context storage
begin

lemma engine_ok_less:
  assumes "engine_ok env room (Suc (Suc n)) eg RS"
  shows "engine_ok env room n eg RS"
  using assms storage_ok_less by (auto simp: engine_ok_def)

lemma get_step:
  assumes eg: "engine_ok env room (Suc (Suc n)) eg RS"
  shows "step_matches env room n (Get now key) eg RS (storage_step env (Get now key) eg)"
proof -
  have ok: "storage_ok env room n (eg_partition eg) (eg_io eg) RS" using engine_ok_less[OF eg] by (simp add: engine_ok_def)
  obtain c r where g: "partition_get env now key (eg_partition eg, eg_io eg) = ((eg_partition eg, (eg_io eg)\<lparr>io_cache := c\<rparr>), r)"
    "storage_ok env room n (eg_partition eg) ((eg_io eg)\<lparr>io_cache := c\<rparr>) RS"
    "map_step (Get now key) (map_of_engine RS eg) = (map_of_engine RS eg, Found r)"
    by (rule partition_get_map[OF ok])
  have "phase_ok env (eg\<lparr>eg_partition := eg_partition eg, eg_io := (eg_io eg)\<lparr>io_cache := c\<rparr>\<rparr>)"
    using eg by (simp add: engine_ok_def phase_ok_def split: flush_phase.splits)
  then show ?thesis using g by (auto simp: step_matches_def engine_do_def engine_ok_def)
qed

lemma apply_step:
  assumes eg: "engine_ok env room (Suc (Suc n)) eg RS" and codec: "codec_reads_back (en_codec env)"
  shows "step_matches env room n (Apply m) eg RS (storage_step env (Apply m) eg)"
proof -
  have ok: "storage_ok env room (Suc (Suc n)) (eg_partition eg) (eg_io eg) RS" and ph: "phase_ok env eg" using eg by (simp_all add: engine_ok_def)
  obtain p' r where a: "partition_apply env m (eg_partition eg, eg_io eg) = ((p', eg_io eg), r)" "storage_ok env room n p' (eg_io eg) RS"
    "map_step (Apply m) (map_of_engine RS eg) = (map_of_partition RS p', Replayed r)"
    "p' = eg_partition eg \<or> (\<exists>l key e b. entry_fits (eg_partition eg) l key e \<and> p' = table_put l key e b (eg_partition eg))"
    by (rule partition_apply_map[OF ok codec])
  have "phase_ok env (eg\<lparr>eg_partition := p'\<rparr>)" using a(4) ph phase_ok_put[OF ph] by auto
  then show ?thesis using a(1-3) by (auto simp: step_matches_def engine_do_def engine_ok_def simp del: map_step.simps)
qed

lemma write_step:
  assumes eg: "engine_ok env room (Suc (Suc n)) eg RS"
    and does: "eg_flush eg = NotFlushing \<Longrightarrow> \<exists>p' io' RS' r. act (eg_partition eg, eg_io eg) = ((p', io'), r) \<and> storage_ok env room n p' io' RS'
      \<and> map_step ev (map_of_engine RS eg) = (map_of_partition RS' p', Wrote r)"
  shows "step_matches env room n ev eg RS (when_free (engine_do act Wrote) eg)"
proof (cases "eg_flush eg = NotFlushing")
  case True
  obtain p' io' RS' r where "act (eg_partition eg, eg_io eg) = ((p', io'), r)" "storage_ok env room n p' io' RS'"
    "map_step ev (map_of_engine RS eg) = (map_of_partition RS' p', Wrote r)"
    using does[OF True] by blast
  then show ?thesis using True by (auto simp: step_matches_def when_free_def engine_do_def engine_ok_def phase_ok_def)
next
  case False
  then show ?thesis using engine_ok_less[OF eg] by (auto simp: step_matches_def when_free_def)
qed

lemma put_step:
  assumes eg: "engine_ok env room (Suc (Suc n)) eg RS" and codec: "codec_reads_back (en_codec env)"
  shows "step_matches env room n (Put now l key v ttl cond) eg RS (storage_step env (Put now l key v ttl cond) eg)"
proof -
  have ok: "storage_ok env room (Suc (Suc n)) (eg_partition eg) (eg_io eg) RS" using eg by (simp add: engine_ok_def)
  show ?thesis unfolding storage_step.simps
    by (rule write_step[OF eg]) (rule partition_put_map[OF ok codec, of now l key v ttl cond], blast)
qed

lemma delete_step:
  assumes eg: "engine_ok env room (Suc (Suc n)) eg RS" and codec: "codec_reads_back (en_codec env)"
  shows "step_matches env room n (Delete now l key cond) eg RS (storage_step env (Delete now l key cond) eg)"
proof -
  have ok: "storage_ok env room (Suc (Suc n)) (eg_partition eg) (eg_io eg) RS" using eg by (simp add: engine_ok_def)
  show ?thesis unfolding storage_step.simps
    by (rule write_step[OF eg]) (rule partition_delete_map[OF ok codec, of now l key cond], blast)
qed

lemma flush_begin_step:
  assumes eg: "engine_ok env room (Suc (Suc n)) eg RS"
  shows "step_matches env room n (FlushBegin full_flush) eg RS (storage_step env (FlushBegin full_flush) eg)"
proof (cases "eg_flush eg = NotFlushing")
  case True
  obtain p' c where f: "flush_begin full_flush (eg_partition eg) = (p', c)" by fastforce
  have ok: "storage_ok env room n (eg_partition eg) (eg_io eg) RS" using engine_ok_less[OF eg] by (simp add: engine_ok_def)
  show ?thesis using flush_begin_ok[OF ok f] f True
    by (cases c) (auto simp: step_matches_def when_free_def engine_ok_def phase_ok_def)
next
  case False
  then show ?thesis using engine_ok_less[OF eg] by (auto simp: step_matches_def when_free_def)
qed

lemma flush_publish_step:
  assumes eg: "engine_ok env room (Suc (Suc n)) eg RS" and codec: "codec_reads_back (en_codec env)"
  shows "step_matches env room n FlushPublish eg RS (storage_step env FlushPublish eg)"
proof (cases "eg_flush eg")
  case (Captured cap)
  have ok: "storage_ok env room (Suc (Suc n)) (eg_partition eg) (eg_io eg) RS" and cap: "capture_ok (eg_partition eg) cap"
    using eg Captured by (simp_all add: engine_ok_def phase_ok_def)
  obtain w' s' res where f: "flush_publish env cap (eg_partition eg, eg_io eg) = (((eg_partition eg)\<lparr>pa_writer := w'\<rparr>, (eg_io eg)\<lparr>io_store := s'\<rparr>), res)"
    "storage_ok env room (Suc n) ((eg_partition eg)\<lparr>pa_writer := w'\<rparr>) ((eg_io eg)\<lparr>io_store := s'\<rparr>) RS"
    "publishes env (eg_partition eg) (io_store (eg_io eg)) s' cap res"
    by (rule flush_publish_ok[OF ok cap codec])
  moreover have "map_of_partition RS ((eg_partition eg)\<lparr>pa_writer := w'\<rparr>) = map_of_engine RS eg" by (simp add: map_of_partition_def)
  ultimately show ?thesis using Captured storage_ok_less[OF f(2)]
    by (cases res) (auto simp: step_matches_def engine_ok_def phase_ok_def publishes_def)
qed (use engine_ok_less[OF eg] in \<open>auto simp: step_matches_def\<close>)

lemma flush_install_step:
  assumes eg: "engine_ok env room (Suc (Suc n)) eg RS"
  shows "step_matches env room n FlushInstall eg RS (storage_step env FlushInstall eg)"
proof (cases "eg_flush eg")
  case (Published r)
  have ok: "storage_ok env room n (eg_partition eg) (eg_io eg) RS" and pub: "published_ok env (io_store (eg_io eg)) (eg_partition eg) r"
    using engine_ok_less[OF eg] Published by (simp_all add: engine_ok_def phase_ok_def)
  note inst = flush_install_ok[OF ok pub]
  moreover have "map_of_partition (RS @ [records_of (fc_table (fr_capture r))]) (flush_install r (eg_partition eg)) = map_of_engine RS eg"
    using inst by (simp add: map_of_partition_def)
  ultimately show ?thesis using Published by (auto simp: step_matches_def engine_ok_def phase_ok_def)
qed (use engine_ok_less[OF eg] in \<open>auto simp: step_matches_def\<close>)

lemma storage_step_map:
  assumes eg: "engine_ok env room (Suc (Suc n)) eg RS" and codec: "codec_reads_back (en_codec env)"
  shows "step_matches env room n ev eg RS (storage_step env ev eg)"
proof (cases ev)
  case (FreezeMaintenance b)
  have "phase_ok env (eg\<lparr>eg_partition := (eg_partition eg)\<lparr>pa_maintenance_frozen := b\<rparr>\<rparr>)"
    using eg by (auto simp: engine_ok_def phase_ok_def published_ok_def split: flush_phase.splits)
  then show ?thesis using engine_ok_less[OF eg] FreezeMaintenance by (auto simp: step_matches_def engine_ok_def)
next
  case FlushCancel
  then show ?thesis using engine_ok_less[OF eg] by (auto simp: step_matches_def engine_ok_def phase_ok_def)
qed (use get_step[OF eg] put_step[OF eg codec] delete_step[OF eg codec] apply_step[OF eg codec] flush_begin_step[OF eg]
    flush_publish_step[OF eg codec] flush_install_step[OF eg] in \<open>simp_all only:\<close>)

lemma storage_run_map:
  assumes "engine_ok env room (2 * length evs + n) eg RS" and codec: "codec_reads_back (en_codec env)"
  shows "\<exists>RS'. engine_ok env room n (fst (storage_run env evs eg)) RS'
    \<and> map_run (admitted evs (snd (storage_run env evs eg))) (map_of_engine RS eg)
        = (map_of_engine RS' (fst (storage_run env evs eg)), filter (\<lambda>r. r \<noteq> Waiting) (snd (storage_run env evs eg)))"
  using assms(1)
proof (induction evs arbitrary: eg RS)
  case (Cons ev evs)
  obtain eg' r where step: "storage_step env ev eg = (eg', r)" by fastforce
  have "engine_ok env room (Suc (Suc (2 * length evs + n))) eg RS" using Cons.prems by simp
  note matched = storage_step_map[OF this codec, of ev, unfolded step step_matches_def fst_conv snd_conv]
  from matched obtain RS1 where m: "engine_ok env room (2 * length evs + n) eg' RS1"
    "if r = Waiting then map_of_engine RS1 eg' = map_of_engine RS eg else map_step ev (map_of_engine RS eg) = (map_of_engine RS1 eg', r)"
    by blast
  obtain eg'' rs where run: "storage_run env evs eg' = (eg'', rs)" by fastforce
  obtain RS' where "engine_ok env room n eg'' RS'"
    "map_run (admitted evs rs) (map_of_engine RS1 eg') = (map_of_engine RS' eg'', filter (\<lambda>r. r \<noteq> Waiting) rs)"
    using Cons.IH[OF m(1)] run by auto
  then show ?case using m(2) step run by (cases "r = Waiting") (auto simp: admitted_def simp del: map_step.simps)
qed (auto simp: admitted_def)

end

end
