(* ===== verification/Seg_Snapshot.thy ===== *)
theory Seg_Snapshot
  imports Storage_Flush
begin

text \<open>
  \<open>orbita-format/src/snapshot.rs\<close>: reconstructing a partition from its objects. The footers and key indexes are
  fetched concurrently and merged in manifest order; the model fetches in that order, so of several failing
  fetches it reports the first.
\<close>

section \<open>Operations\<close>

record location =
  ln_segment :: nat
  ln_offset :: u64
  ln_record_length :: u32
  ln_lamport :: "lamport option"

record snapshot =
  sn_path :: partition_path
  sn_manifest :: manifest
  sn_index :: "(bytes, location) btree"

definition store_failed :: "object_error + 'a \<Rightarrow> format_error + 'a" where
  "store_failed r = (case r of Inl e \<Rightarrow> Inl (StoreFailed e) | Inr x \<Rightarrow> Inr x)"

definition resolve_or_panic :: "partition_path \<Rightarrow> segment_entry \<Rightarrow> format_error + bytes" where
  "resolve_or_panic path e = (case resolve_segment path e of None \<Rightarrow> Inl FormatPanics | Some key \<Rightarrow> Inr key)"

definition fetch_index ::
  "('s, 'tag) store_ops \<Rightarrow> (bytes \<Rightarrow> u32) \<Rightarrow> 's \<Rightarrow> partition_path \<Rightarrow> segment_entry \<Rightarrow> format_error + index_entry list" where
  "fetch_index ops crc s path e =
     bind_res (resolve_or_panic path e) (\<lambda>key.
     bind_res (store_failed (so_get_range ops s key (footer_range e))) (\<lambda>tail.
     bind_res (footer_decode crc tail) (\<lambda>footer.
     if sf_record_count footer \<noteq> se_record_count e
     then Inl (Corrupt (ManifestRecordCount (se_name e) (sf_record_count footer) (se_record_count e)))
     else
       bind_res (index_range footer (unat (se_bytes e))) (\<lambda>range'.
       bind_res (store_failed (so_get_range ops s key range')) (\<lambda>raw. index_decode crc raw footer)))))"

definition lamport_at :: "('s, 'tag) store_ops \<Rightarrow> 's \<Rightarrow> partition_path \<Rightarrow> manifest \<Rightarrow> location \<Rightarrow> format_error + lamport" where
  "lamport_at ops s path m located =
     (case ln_lamport located of
        Some l \<Rightarrow> Inr l
      | None \<Rightarrow>
          bind_res (resolve_or_panic path (mf_segments m ! ln_segment located)) (\<lambda>key.
          bind_res (store_failed (so_get_range ops s key
            (unat (ln_offset located), unat (ln_offset located + word_of_nat lamport_offset + 8)))) peek_lamport))"

definition winner ::
  "('s, 'tag) store_ops \<Rightarrow> 's \<Rightarrow> partition_path \<Rightarrow> manifest \<Rightarrow> location \<Rightarrow> location \<Rightarrow> format_error + location" where
  "winner ops s path m existing candidate =
     (let a = mf_segments m ! ln_segment existing; b = mf_segments m ! ln_segment candidate
      in if se_max_lamport a < se_min_lamport b then Inr candidate
         else if se_max_lamport b < se_min_lamport a then Inr existing
         else
           bind_res (lamport_at ops s path m existing) (\<lambda>existing_lamport.
           bind_res (lamport_at ops s path m candidate) (\<lambda>candidate_lamport.
           if existing_lamport = candidate_lamport then Inl (Corrupt (TwoRecordsAt existing_lamport))
           else Inr (if existing_lamport < candidate_lamport then candidate\<lparr>ln_lamport := Some candidate_lamport\<rparr>
                     else existing\<lparr>ln_lamport := Some existing_lamport\<rparr>))))"

definition locate ::
  "('s, 'tag) store_ops \<Rightarrow> 's \<Rightarrow> partition_path \<Rightarrow> manifest \<Rightarrow> nat \<Rightarrow> index_entry \<Rightarrow> (bytes, location) btree
    \<Rightarrow> format_error + (bytes, location) btree" where
  "locate ops s path m position candidate index =
     (if \<not> contains (mf_range m) (ie_key candidate) then Inr index
      else
        let located = \<lparr>ln_segment = position, ln_offset = ie_offset candidate, ln_record_length = ie_record_length candidate, ln_lamport = None\<rparr>
        in bind_res (case bt_get index (ie_key candidate) of
                       Some existing \<Rightarrow> winner ops s path m existing located
                     | None \<Rightarrow> Inr located) (\<lambda>located. Inr (bt_insert (ie_key candidate) located index)))"

fun locate_all where
  "locate_all ops s path m position [] index = Inr index"
| "locate_all ops s path m position (e # es) index =
     bind_res (locate ops s path m position e index) (locate_all ops s path m position es)"

fun merge_indexes where
  "merge_indexes ops s path m position [] index = Inr index"
| "merge_indexes ops s path m position (es # rest) index =
     bind_res (locate_all ops s path m position es index) (merge_indexes ops s path m (Suc position) rest)"

fun fetch_indexes where
  "fetch_indexes ops crc s path [] = Inr []"
| "fetch_indexes ops crc s path (e # es) =
     bind_res (fetch_index ops crc s path e) (\<lambda>i. bind_res (fetch_indexes ops crc s path es) (\<lambda>is. Inr (i # is)))"

definition snapshot_of ::
  "('s, 'tag) store_ops \<Rightarrow> (bytes \<Rightarrow> u32) \<Rightarrow> 's \<Rightarrow> partition_path \<Rightarrow> manifest \<Rightarrow> format_error + snapshot" where
  "snapshot_of ops crc s path m =
     (if mf_keyspace_id m \<noteq> pp_keyspace_id path \<or> mf_partition_id m \<noteq> pp_partition_id path
      then Inl (Corrupt (WrongDirectory (mf_keyspace_id m) (mf_partition_id m)))
      else
        bind_res (fetch_indexes ops crc s path (mf_segments m)) (\<lambda>indexes.
        bind_res (merge_indexes ops s path m 0 indexes []) (\<lambda>index.
        Inr \<lparr>sn_path = path, sn_manifest = m, sn_index = index\<rparr>)))"

definition snapshot_open ::
  "('s, 'tag) store_ops \<Rightarrow> manifest_codec \<Rightarrow> (bytes \<Rightarrow> u32) \<Rightarrow> 's \<Rightarrow> partition_path \<Rightarrow> format_error + snapshot option" where
  "snapshot_open ops c crc s path =
     bind_res (load_manifest ops c s path) (\<lambda>found.
     case found of
       None \<Rightarrow> Inr None
     | Some (m, _) \<Rightarrow> bind_res (snapshot_of ops crc s path m) (\<lambda>sn. Inr (Some sn)))"

definition snapshot_record ::
  "('s, 'tag) store_ops \<Rightarrow> (bytes \<Rightarrow> u32) \<Rightarrow> 's \<Rightarrow> snapshot \<Rightarrow> bytes \<Rightarrow> format_error + segment_record option" where
  "snapshot_record ops crc s sn key =
     (case bt_get (sn_index sn) key of
        None \<Rightarrow> Inr None
      | Some located \<Rightarrow>
          let entry = mf_segments (sn_manifest sn) ! ln_segment located
          in bind_res (resolve_or_panic (sn_path sn) entry) (\<lambda>object.
             bind_res (store_failed (so_get_range ops s object
               (unat (ln_offset located), unat (ln_offset located + ucast (ln_record_length located))))) (\<lambda>raw.
             bind_res (record_decode crc raw) (\<lambda>(r, consumed).
             if consumed \<noteq> length raw then Inl (Corrupt (RecordLengthDiffers (se_name entry)))
             else if sr_key r \<noteq> key then Inl (Corrupt (RecordKeyDiffers (se_name entry)))
             else Inr (Some r)))))"

definition snapshot_value ::
  "('s, 'tag) store_ops \<Rightarrow> (bytes \<Rightarrow> u32) \<Rightarrow> 's \<Rightarrow> snapshot \<Rightarrow> segment_record \<Rightarrow> partition_id option \<Rightarrow> format_error + bytes" where
  "snapshot_value ops crc s sn r source =
     (case sr_value r of
        Tombstone \<Rightarrow> Inr []
      | Inline v \<Rightarrow> Inr v
      | External x \<Rightarrow>
          (case (case source of
                   None \<Rightarrow> Some (object_key (sn_path sn) (ev_name x))
                 | Some p \<Rightarrow> map_option (\<lambda>path. object_key path (ev_name x)) (for_partition p (sn_path sn))) of
             None \<Rightarrow> Inl FormatPanics
           | Some owner \<Rightarrow>
               bind_res (store_failed (so_get ops s owner)) (\<lambda>(b, _).
               if word_of_nat (length b) \<noteq> ev_length x then Inl (Corrupt (ValueLengthDiffers (ev_name x)))
               else let computed = crc b
                    in if computed \<noteq> ev_crc32c x then Inl (ChecksumMismatch ''external value'' (ev_crc32c x) computed) else Inr b)))"

definition snapshot_get ::
  "('s, 'tag) store_ops \<Rightarrow> (bytes \<Rightarrow> u32) \<Rightarrow> 's \<Rightarrow> snapshot \<Rightarrow> bytes \<Rightarrow> u64 \<Rightarrow> format_error + stored_record option" where
  "snapshot_get ops crc s sn key now_millis =
     bind_res (snapshot_record ops crc s sn key) (\<lambda>found.
     case found of
       None \<Rightarrow> Inr None
     | Some r \<Rightarrow>
         if \<not> is_visible_at r now_millis then Inr None
         else
           let segments = mf_segments (sn_manifest sn);
               source = Option.bind (bt_get (sn_index sn) key) (\<lambda>located.
                 if ln_segment located < length segments then se_source (segments ! ln_segment located) else None)
           in bind_res (snapshot_value ops crc s sn r source) (\<lambda>v. Inr (Some (to_record r v))))"

section \<open>What the index of a snapshot names\<close>

definition loc_of :: "location \<Rightarrow> loc" where
  "loc_of ln = \<lparr>lo_segment = ln_segment ln, lo_offset = ln_offset ln, lo_record_length = ln_record_length ln\<rparr>"

text \<open>A location that leads to a record; a Lamport it remembers is the record's.\<close>

definition locates :: "(bytes \<Rightarrow> u32) \<Rightarrow> segment_record list list \<Rightarrow> location \<Rightarrow> segment_record \<Rightarrow> bool" where
  "locates crc RS ln r \<longleftrightarrow> ln_segment ln < length RS \<and> placed crc (RS ! ln_segment ln) (loc_of ln) r
     \<and> (\<forall>l. ln_lamport ln = Some l \<longrightarrow> l = sr_lamport r)"

definition snap_ok :: "(bytes \<Rightarrow> u32) \<Rightarrow> segment_record list list \<Rightarrow> segment_record list \<Rightarrow> (bytes, location) btree \<Rightarrow> bool" where
  "snap_ok crc RS seen index \<longleftrightarrow> bt_ok index \<and>
     (\<forall>key. case bt_get index key of
        None \<Rightarrow> newest seen key = None
      | Some ln \<Rightarrow> (\<exists>r. newest seen key = Some r \<and> locates crc RS ln r))"

lemma snap_ok_get:
  assumes "snap_ok crc RS seen index"
  shows "bt_get index key = None \<Longrightarrow> newest seen key = None"
    and "bt_get index key = Some ln \<Longrightarrow> \<exists>r. newest seen key = Some r \<and> locates crc RS ln r"
proof -
  have "case bt_get index key of None \<Rightarrow> newest seen key = None | Some ln \<Rightarrow> (\<exists>r. newest seen key = Some r \<and> locates crc RS ln r)"
    using assms unfolding snap_ok_def by blast
  then show "bt_get index key = None \<Longrightarrow> newest seen key = None"
    "bt_get index key = Some ln \<Longrightarrow> \<exists>r. newest seen key = Some r \<and> locates crc RS ln r" by auto
qed

lemma segment_object_parts:
  assumes "segment_object env s path e rs"
  obtains object b t ks pid ep where "resolve_segment path e = Some object" "object_at (en_ops env) s object = Some (bs_bytes b, t)"
    "build_segment (en_crc env) ks pid ep rs = Inr b" "length (bs_bytes b) < 2 ^ 64" "entry_matches e b"
    "records_ok (en_crc env) rs" "rs \<noteq> []" "list_all is_inline rs"
  using assms unfolding segment_object_def by blast

lemma segment_span:
  assumes "segment_object env s path e rs" and "r \<in> set rs"
  shows "se_min_lamport e \<le> sr_lamport r \<and> sr_lamport r \<le> se_max_lamport e"
proof -
  obtain b ks pid ep where b: "build_segment (en_crc env) ks pid ep rs = Inr b" "length (bs_bytes b) < 2 ^ 64" "entry_matches e b"
    "records_ok (en_crc env) rs"
    by (rule segment_object_parts[OF assms(1)])
  have "\<forall>r\<in>set rs. bs_min_lamport b \<le> sr_lamport r \<and> sr_lamport r \<le> bs_max_lamport b" by (rule built_parts[OF b(4,1,2)])
  then show ?thesis using b(3) assms(2) by (simp add: entry_matches_def)
qed

lemma snapshot_value_inline: "is_inline r \<Longrightarrow> snapshot_value ops crc s sn r source = Inr (the (inline_value r))"
  by (auto simp: snapshot_value_def is_inline_def inline_value_def split: record_value.splits)

lemma one_per_lamport_apart:
  assumes "one_per_lamport (as @ b # cs)" and "a \<in> set as" "sr_key a = sr_key b"
  shows "sr_lamport a \<noteq> sr_lamport b"
proof
  assume "sr_lamport a = sr_lamport b"
  then have "(sr_key b, sr_lamport b) \<in> (\<lambda>r. (sr_key r, sr_lamport r)) ` set as" using assms(2,3) by (intro rev_image_eqI[of a]) simp_all
  then show False using assms(1) by (simp add: one_per_lamport_def)
qed

lemma one_per_lamport_prefix: "one_per_lamport (as @ bs) \<Longrightarrow> one_per_lamport as"
  by (simp add: one_per_lamport_def)

lemma placed_in: "placed crc rs l r \<Longrightarrow> r \<in> set rs"
  by (auto simp: placed_def)

context storage
begin

lemma fetch_index_ok:
  assumes "segment_object env s path e rs"
  shows "fetch_index (en_ops env) (en_crc env) s path e = Inr (entries_at (en_crc env) header_len rs)"
proof -
  let ?crc = "en_crc env" and ?data = "data_of (en_crc env) rs"
  let ?index = "concat (map index_entry_encode (entries_at (en_crc env) header_len rs))"
  obtain object b t ks pid ep where o: "resolve_segment path e = Some object" "object_at (en_ops env) s object = Some (bs_bytes b, t)"
    "build_segment ?crc ks pid ep rs = Inr b" "length (bs_bytes b) < 2 ^ 64" "entry_matches e b" "records_ok ?crc rs" "rs \<noteq> []"
    by (rule segment_object_parts[OF assms])
  obtain f h where parts: "bs_bytes b = header_encode h @ ?data @ ?index @ footer_encode ?crc f"
    "footer_decode ?crc (footer_encode ?crc f) = Inr f" "sf_record_count f = bs_record_count b"
    "index_range f (length (bs_bytes b)) = Inr (header_len + length ?data, header_len + length ?data + length ?index)"
    "index_decode ?crc ?index f = Inr (entries_at ?crc header_len rs)"
    by (rule built_parts[OF o(6,3,4)])
  have len: "length (bs_bytes b) = header_len + length ?data + length ?index + footer_len" using parts(1) by simp
  have bytes: "unat (se_bytes e) = length (bs_bytes b)" using o(4,5) by (simp add: entry_matches_def unat_of_nat64)
  have range: "footer_range e = (header_len + length ?data + length ?index, header_len + length ?data + length ?index + footer_len)"
    using bytes len by (simp add: footer_range_def unat_saturating_sub unat_of_nat64 footer_len_def)
  have "so_get_range (en_ops env) s object (footer_range e) = Inr (footer_encode ?crc f)"
    using get_range_law[OF o(2), of "footer_range e"] len parts(1) by (simp add: range footer_len_def)
  moreover have "so_get_range (en_ops env) s object (header_len + length ?data, header_len + length ?data + length ?index) = Inr ?index"
    using get_range_law[OF o(2), of "(header_len + length ?data, header_len + length ?data + length ?index)"] len parts(1)
    by (simp add: footer_len_def)
  ultimately show ?thesis using o(1,5) parts(2-5) bytes
    by (simp add: fetch_index_def resolve_or_panic_def store_failed_def entry_matches_def)
qed

lemma lamport_at_ok:
  assumes obj: "segment_object env s path (mf_segments m ! ln_segment ln) (RS ! ln_segment ln)" and ln: "locates (en_crc env) RS ln r"
  shows "lamport_at (en_ops env) s path m ln = Inr (sr_lamport r)"
proof (cases "ln_lamport ln")
  case None
  let ?crc = "en_crc env" and ?rs = "RS ! ln_segment ln"
  obtain object b t ks pid ep where o: "resolve_segment path (mf_segments m ! ln_segment ln) = Some object"
    "object_at (en_ops env) s object = Some (bs_bytes b, t)" "build_segment ?crc ks pid ep ?rs = Inr b" "length (bs_bytes b) < 2 ^ 64"
    "records_ok ?crc ?rs" "?rs \<noteq> []" "list_all is_inline ?rs"
    by (rule segment_object_parts[OF obj])
  have pl: "placed ?crc ?rs (loc_of ln) r" using ln by (simp add: locates_def)
  have here: "record_here ?crc (bs_bytes b) (ln_offset ln) r" using placed_here[OF o(5-7) o(3,4) pl] by (simp add: loc_of_def)
  then obtain rest where rest: "drop (unat (ln_offset ln)) (bs_bytes b) = record_encode ?crc r @ rest" by (auto simp: record_here_def)
  have "17 \<le> length (record_encode ?crc r)" by (simp add: length_record_encode encode_body_put put_u8_def)
  moreover have "length (record_encode ?crc r) \<le> length (bs_bytes b) - unat (ln_offset ln)" using rest by (metis length_append length_drop le_add1)
  ultimately have fits: "unat (ln_offset ln) + 17 \<le> length (bs_bytes b)" by linarith
  have "unat (ln_offset ln + 17) = unat (ln_offset ln) + 17" using fits o(4) by (simp add: unat_word_ariths)
  then have "so_get_range (en_ops env) s object (unat (ln_offset ln), unat (ln_offset ln + word_of_nat lamport_offset + 8))
      = Inr (take (lamport_offset + 8) (record_encode ?crc r @ rest))"
    using get_range_law[OF o(2), of "(unat (ln_offset ln), unat (ln_offset ln) + 17)"] fits rest
    by (simp add: lamport_offset_def add.assoc)
  then show ?thesis using None o(1) peek_lamport_encoded[of ?crc r rest]
    by (simp add: lamport_at_def resolve_or_panic_def store_failed_def)
qed (use ln in \<open>simp add: lamport_at_def locates_def\<close>)

text \<open>Of two locations the winner leads to the record with the higher Lamport, whether the manifest tells or the records do.\<close>

lemma winner_ok:
  assumes objs: "\<And>i. i < length RS \<Longrightarrow> segment_object env s path (mf_segments m ! i) (RS ! i)"
    and a: "locates (en_crc env) RS a r" and b: "locates (en_crc env) RS b r'" and ne: "sr_lamport r \<noteq> sr_lamport r'"
  shows "\<exists>ln. winner (en_ops env) s path m a b = Inr ln \<and> locates (en_crc env) RS ln (if sr_lamport r < sr_lamport r' then r' else r)"
proof -
  have in_a: "ln_segment a < length RS" "r \<in> set (RS ! ln_segment a)" using a by (auto simp: locates_def dest: placed_in)
  have in_b: "ln_segment b < length RS" "r' \<in> set (RS ! ln_segment b)" using b by (auto simp: locates_def dest: placed_in)
  have span_a: "se_min_lamport (mf_segments m ! ln_segment a) \<le> sr_lamport r" "sr_lamport r \<le> se_max_lamport (mf_segments m ! ln_segment a)"
    using segment_span[OF objs[OF in_a(1)] in_a(2)] by auto
  have span_b: "se_min_lamport (mf_segments m ! ln_segment b) \<le> sr_lamport r'" "sr_lamport r' \<le> se_max_lamport (mf_segments m ! ln_segment b)"
    using segment_span[OF objs[OF in_b(1)] in_b(2)] by auto
  have lam: "lamport_at (en_ops env) s path m a = Inr (sr_lamport r)" "lamport_at (en_ops env) s path m b = Inr (sr_lamport r')"
    using lamport_at_ok[OF objs[OF in_a(1)] a] lamport_at_ok[OF objs[OF in_b(1)] b] by simp_all
  have keep: "locates (en_crc env) RS (a\<lparr>ln_lamport := Some (sr_lamport r)\<rparr>) r" "locates (en_crc env) RS (b\<lparr>ln_lamport := Some (sr_lamport r')\<rparr>) r'"
    using a b by (simp_all add: locates_def loc_of_def)
  consider "se_max_lamport (mf_segments m ! ln_segment a) < se_min_lamport (mf_segments m ! ln_segment b)"
    | "\<not> se_max_lamport (mf_segments m ! ln_segment a) < se_min_lamport (mf_segments m ! ln_segment b)"
      "se_max_lamport (mf_segments m ! ln_segment b) < se_min_lamport (mf_segments m ! ln_segment a)"
    | "\<not> se_max_lamport (mf_segments m ! ln_segment a) < se_min_lamport (mf_segments m ! ln_segment b)"
      "\<not> se_max_lamport (mf_segments m ! ln_segment b) < se_min_lamport (mf_segments m ! ln_segment a)" by blast
  then show ?thesis
  proof cases
    case 1
    then have "sr_lamport r < sr_lamport r'" using span_a(2) span_b(1) by (meson le_less_trans less_le_trans)
    then show ?thesis using 1 b by (simp add: winner_def)
  next
    case 2
    then have "sr_lamport r' < sr_lamport r" using span_a(1) span_b(2) by (meson le_less_trans less_le_trans)
    then show ?thesis using 2 a by (auto simp: winner_def)
  next
    case 3
    then show ?thesis using lam keep ne by (simp add: winner_def Let_def)
  qed
qed

lemma snap_ok_insert:
  assumes ok: "snap_ok crc RS seen index" and new: "newest (seen @ [r]) (sr_key r) = Some x" and at: "locates crc RS ln x"
  shows "snap_ok crc RS (seen @ [r]) (bt_insert (sr_key r) ln index)"
proof -
  have "case bt_get (bt_insert (sr_key r) ln index) key of
      None \<Rightarrow> newest (seen @ [r]) key = None
    | Some ln' \<Rightarrow> (\<exists>r'. newest (seen @ [r]) key = Some r' \<and> locates crc RS ln' r')" for key
  proof (cases "key = sr_key r")
    case False
    then have "newest (seen @ [r]) key = newest seen key" by (simp add: newest_snoc)
    then show ?thesis using False snap_ok_get[OF ok, of key] by (simp split: option.split)
  qed (use new at in simp)
  then show ?thesis using ok by (simp add: snap_ok_def keeps_ok)
qed

lemma locate_ok:
  assumes objs: "\<And>i. i < length RS \<Longrightarrow> segment_object env s path (mf_segments m ! i) (RS ! i)"
    and ok: "snap_ok (en_crc env) RS seen index" and key: "ie_key e = sr_key r" and i: "i < length RS"
    and at: "placed (en_crc env) (RS ! i) \<lparr>lo_segment = i, lo_offset = ie_offset e, lo_record_length = ie_record_length e\<rparr> r"
    and one: "\<And>r'. r' \<in> set seen \<Longrightarrow> sr_key r' = sr_key r \<Longrightarrow> sr_lamport r' \<noteq> sr_lamport r"
  shows "\<exists>index'. locate (en_ops env) s path m i e index = Inr index'
    \<and> snap_ok (en_crc env) RS (seen @ filter (\<lambda>r. contains (mf_range m) (sr_key r)) [r]) index'"
proof (cases "contains (mf_range m) (sr_key r)")
  case True
  define ln where "ln = \<lparr>ln_segment = i, ln_offset = ie_offset e, ln_record_length = ie_record_length e, ln_lamport = None\<rparr>"
  have ln: "locates (en_crc env) RS ln r" using i at by (simp add: locates_def loc_of_def ln_def)
  show ?thesis
  proof (cases "bt_get index (sr_key r)")
    case None
    then have "newest (seen @ [r]) (sr_key r) = Some r" using snap_ok_get(1)[OF ok None] by (simp add: newest_snoc)
    from snap_ok_insert[OF ok this ln] show ?thesis using None True key by (simp add: locate_def ln_def Let_def)
  next
    case (Some old)
    then obtain r0 where r0: "newest seen (sr_key r) = Some r0" "locates (en_crc env) RS old r0" using snap_ok_get(2)[OF ok Some] by blast
    then have "sr_lamport r0 \<noteq> sr_lamport r" using one newest_Some[OF r0(1)] by blast
    from winner_ok[OF objs r0(2) ln this] obtain w where w: "winner (en_ops env) s path m old ln = Inr w"
      "locates (en_crc env) RS w (if sr_lamport r0 < sr_lamport r then r else r0)" by blast
    have "newest (seen @ [r]) (sr_key r) = Some (if sr_lamport r0 < sr_lamport r then r else r0)" using r0(1) by (simp add: newest_snoc)
    from snap_ok_insert[OF ok this w(2)] show ?thesis using Some True key w(1) by (simp add: locate_def ln_def Let_def)
  qed
next
  case False
  then show ?thesis using ok key by (simp add: locate_def)
qed

lemma locate_all_ok:
  assumes objs: "\<And>i. i < length RS \<Longrightarrow> segment_object env s path (mf_segments m ! i) (RS ! i)" and i: "i < length RS"
  shows "length es = length rs \<Longrightarrow> snap_ok (en_crc env) RS (filter (\<lambda>r. contains (mf_range m) (sr_key r)) seen) index
    \<Longrightarrow> (\<forall>(e, r)\<in>set (zip es rs). ie_key e = sr_key r
        \<and> placed (en_crc env) (RS ! i) \<lparr>lo_segment = i, lo_offset = ie_offset e, lo_record_length = ie_record_length e\<rparr> r)
    \<Longrightarrow> one_per_lamport (seen @ rs)
    \<Longrightarrow> \<exists>index'. locate_all (en_ops env) s path m i es index = Inr index'
      \<and> snap_ok (en_crc env) RS (filter (\<lambda>r. contains (mf_range m) (sr_key r)) (seen @ rs)) index'"
proof (induction es rs arbitrary: seen index rule: list_induct2)
  case (Cons e es r rs)
  let ?in = "\<lambda>r. contains (mf_range m) (sr_key r)"
  have one: "sr_lamport r' \<noteq> sr_lamport r" if "r' \<in> set (filter ?in seen)" "sr_key r' = sr_key r" for r'
    using one_per_lamport_apart[OF Cons.prems(3)] that by simp
  have step: "ie_key e = sr_key r"
      "placed (en_crc env) (RS ! i) \<lparr>lo_segment = i, lo_offset = ie_offset e, lo_record_length = ie_record_length e\<rparr> r"
    using Cons.prems(2) by auto
  obtain index' where index': "locate (en_ops env) s path m i e index = Inr index'" "snap_ok (en_crc env) RS (filter ?in (seen @ [r])) index'"
    using locate_ok[OF objs Cons.prems(1) step(1) i step(2) one] by auto
  have "\<exists>index''. locate_all (en_ops env) s path m i es index' = Inr index'' \<and> snap_ok (en_crc env) RS (filter ?in ((seen @ [r]) @ rs)) index''"
    by (rule Cons.IH[OF index'(2)]) (use Cons.prems(2,3) in auto)
  then show ?case using index'(1) by auto
qed simp

lemma entries_placed:
  "\<forall>(e, r)\<in>set (zip (entries_at crc header_len rs) rs). ie_key e = sr_key r
     \<and> placed crc rs \<lparr>lo_segment = i, lo_offset = ie_offset e, lo_record_length = ie_record_length e\<rparr> r"
proof
  fix x assume "x \<in> set (zip (entries_at crc header_len rs) rs)"
  then obtain j where j: "j < length rs" "x = (entries_at crc header_len rs ! j, rs ! j)" by (auto simp: in_set_zip prod_eq_iff)
  then show "case x of (e, r) \<Rightarrow> ie_key e = sr_key r \<and> placed crc rs \<lparr>lo_segment = i, lo_offset = ie_offset e, lo_record_length = ie_record_length e\<rparr> r"
    using nth_entries_key[OF j(1)] by (auto simp: placed_def)
qed

lemma merge_indexes_ok:
  assumes objs: "\<And>i. i < length RS \<Longrightarrow> segment_object env s path (mf_segments m ! i) (RS ! i)" and one: "one_per_lamport (concat RS)"
  shows "RS = before @ rest \<Longrightarrow> snap_ok (en_crc env) RS (filter (\<lambda>r. contains (mf_range m) (sr_key r)) (concat before)) index
    \<Longrightarrow> \<exists>index'. merge_indexes (en_ops env) s path m (length before) (map (entries_at (en_crc env) header_len) rest) index = Inr index'
      \<and> snap_ok (en_crc env) RS (filter (\<lambda>r. contains (mf_range m) (sr_key r)) (concat RS)) index'"
proof (induction rest arbitrary: before index)
  case (Cons rs rest)
  let ?in = "\<lambda>r. contains (mf_range m) (sr_key r)"
  have i: "length before < length RS" "RS ! length before = rs" using Cons.prems(1) by simp_all
  have "concat RS = (concat before @ rs) @ concat rest" using Cons.prems(1) by simp
  then have "one_per_lamport (concat before @ rs)" using one one_per_lamport_prefix by metis
  then obtain index' where index': "locate_all (en_ops env) s path m (length before) (entries_at (en_crc env) header_len rs) index = Inr index'"
    "snap_ok (en_crc env) RS (filter ?in (concat before @ rs)) index'"
    using locate_all_ok[OF objs i(1) _ Cons.prems(2), of "entries_at (en_crc env) header_len rs" rs] entries_placed[of "en_crc env" rs "length before"] i(2)
    by auto
  have "RS = (before @ [rs]) @ rest" using Cons.prems(1) by simp
  from Cons.IH[OF this] index' show ?case by auto
qed simp

lemma fetch_indexes_ok:
  "(\<And>i. i < length es \<Longrightarrow> segment_object env s path (es ! i) (RS ! i)) \<Longrightarrow> length RS = length es
    \<Longrightarrow> fetch_indexes (en_ops env) (en_crc env) s path es = Inr (map (entries_at (en_crc env) header_len) RS)"
proof (induction es arbitrary: RS)
  case (Cons e es)
  then obtain rs RS' where RS: "RS = rs # RS'" by (cases RS) auto
  have "segment_object env s path (es ! i) (RS' ! i)" if "i < length es" for i using Cons.prems(1)[of "Suc i"] that RS by simp
  then show ?case using Cons.IH[of RS'] Cons.prems RS fetch_index_ok[of s path e rs] Cons.prems(1)[of 0] by simp
qed simp

lemma snapshot_of_ok:
  assumes objs: "\<And>i. i < length RS \<Longrightarrow> segment_object env s path (mf_segments m ! i) (RS ! i)" and len: "length RS = length (mf_segments m)"
    and one: "one_per_lamport (concat RS)" and ids: "mf_keyspace_id m = pp_keyspace_id path" "mf_partition_id m = pp_partition_id path"
  obtains index where "snapshot_of (en_ops env) (en_crc env) s path m = Inr \<lparr>sn_path = path, sn_manifest = m, sn_index = index\<rparr>"
    "snap_ok (en_crc env) RS (filter (\<lambda>r. contains (mf_range m) (sr_key r)) (concat RS)) index"
proof -
  have "snap_ok (en_crc env) RS (filter (\<lambda>r. contains (mf_range m) (sr_key r)) (concat [])) []" by (simp add: snap_ok_def)
  from merge_indexes_ok[OF objs one, of "[]" RS, OF _ _ this] obtain index
    where "merge_indexes (en_ops env) s path m 0 (map (entries_at (en_crc env) header_len) RS) [] = Inr index"
      "snap_ok (en_crc env) RS (filter (\<lambda>r. contains (mf_range m) (sr_key r)) (concat RS)) index" by auto
  then show thesis using that fetch_indexes_ok[of "mf_segments m" s path RS] objs len ids by (simp add: snapshot_of_def)
qed

lemma snapshot_record_ok:
  assumes objs: "\<And>i. i < length RS \<Longrightarrow> segment_object env s path (mf_segments m ! i) (RS ! i)" and ok: "snap_ok (en_crc env) RS seen index"
  shows "snapshot_record (en_ops env) (en_crc env) s \<lparr>sn_path = path, sn_manifest = m, sn_index = index\<rparr> key = Inr (newest seen key)"
proof (cases "bt_get index key")
  case None
  then show ?thesis using snap_ok_get(1)[OF ok None] by (simp add: snapshot_record_def)
next
  case (Some ln)
  let ?crc = "en_crc env" and ?rs = "RS ! ln_segment ln"
  obtain r where r: "newest seen key = Some r" "locates ?crc RS ln r" using snap_ok_get(2)[OF ok Some] by blast
  have i: "ln_segment ln < length RS" and pl: "placed ?crc ?rs (loc_of ln) r" using r(2) by (auto simp: locates_def)
  obtain object b t ks pid ep where o: "resolve_segment path (mf_segments m ! ln_segment ln) = Some object"
    "object_at (en_ops env) s object = Some (bs_bytes b, t)" "build_segment ?crc ks pid ep ?rs = Inr b" "length (bs_bytes b) < 2 ^ 64"
    "records_ok ?crc ?rs" "?rs \<noteq> []" "list_all is_inline ?rs"
    by (rule segment_object_parts[OF objs[OF i]])
  have pl': "record_here ?crc (bs_bytes b) (ln_offset ln) r" "unat (ln_record_length ln) = length (record_encode ?crc r)"
    "unat (ln_offset ln) + unat (ln_record_length ln) \<le> length (bs_bytes b)"
    using placed_here[OF o(5-7) o(3,4) pl] by (simp_all add: loc_of_def)
  obtain rest where rest: "drop (unat (ln_offset ln)) (bs_bytes b) = record_encode ?crc r @ rest" "record_framed r"
    using pl'(1) by (auto simp: record_here_def)
  have "unat (ln_offset ln + ucast (ln_record_length ln)) = unat (ln_offset ln) + unat (ln_record_length ln)" by (rule unat_place[OF pl'(3) o(4)])
  moreover have "0 < length (record_encode ?crc r)" by (simp add: length_record_encode)
  then have "unat (ln_offset ln) < length (bs_bytes b)" using pl'(2,3) by linarith
  ultimately have "so_get_range (en_ops env) s object (unat (ln_offset ln), unat (ln_offset ln + ucast (ln_record_length ln))) = Inr (record_encode ?crc r)"
    using get_range_law[OF o(2), of "(unat (ln_offset ln), unat (ln_offset ln + ucast (ln_record_length ln)))"] pl'(2,3) rest(1) by simp
  then show ?thesis using Some o(1) r(1) newest_Some[OF r(1)] record_roundtrip[OF rest(2), of ?crc "[]"]
    by (simp add: snapshot_record_def Let_def resolve_or_panic_def store_failed_def)
qed

lemma snapshot_get_ok:
  assumes objs: "\<And>i. i < length RS \<Longrightarrow> segment_object env s path (mf_segments m ! i) (RS ! i)" and ok: "snap_ok (en_crc env) RS seen index"
    and inl: "list_all is_inline seen"
  shows "snapshot_get (en_ops env) (en_crc env) s \<lparr>sn_path = path, sn_manifest = m, sn_index = index\<rparr> key now
    = Inr (Option.bind (newest seen key) (\<lambda>r. visible_at (entry_of_record r) now))"
proof -
  have "is_inline r" if "newest seen key = Some r" for r using that inl newest_Some[OF that] by (simp add: list_all_iff)
  then show ?thesis using snapshot_record_ok[OF objs ok, of key]
    by (cases "newest seen key")
      (auto simp: snapshot_get_def Let_def to_record_def snapshot_value_inline visible_at_def is_visible_at_def entry_of_record_def stored_of_def
        record_expired_at_def stored_expired_at_def)
qed

end

end
