(* ===== verification/Storage_Open.thy ===== *)
theory Storage_Open
  imports Storage_Map Seg_Snapshot
begin

text \<open>
  Opening a partition from its bucket (\<open>Partition::open\<close>, \<open>adopt\<close>, \<open>hydrate\<close> and \<open>reclaim_published_if_needed\<close> of
  \<open>partition.rs\<close>), and that what is opened holds exactly what the published manifest covers.
\<close>

section \<open>Operations\<close>

record partition_horizon =
  hy_epoch :: epoch
  hy_through :: lamport

definition retain_above :: "lamport \<Rightarrow> (bytes, stored) btree \<Rightarrow> (bytes, stored) btree" where
  "retain_above horizon table = filter (\<lambda>(_, entry). horizon < st_version entry) table"

definition adopt :: "snapshot \<Rightarrow> partition \<Rightarrow> partition" where
  "adopt sn p =
     (let horizon = mf_committed_lamport (sn_manifest sn);
          index = map (\<lambda>(key, at). (key, loc_of at)) (sn_index sn);
          table = retain_above horizon (pa_memtable p)
      in p\<lparr>pa_flushed_epoch := max (pa_flushed_epoch p) (mf_epoch (sn_manifest sn)), pa_index := index, pa_index_bytes := index_cost index,
           pa_segments := mf_segments (sn_manifest sn), pa_compaction_sweep_pending := [], pa_compaction_sweep_timer_debt := 0,
           pa_flushed := horizon, pa_committed := max (pa_committed p) horizon, pa_memtable := table,
           pa_memtable_bytes := memtable_cost table, pa_reclaim_attempted_at_bytes := memtable_cost table\<rparr>)"

definition partition_empty :: "partition_path \<Rightarrow> key_range \<Rightarrow> partition_writer \<Rightarrow> partition" where
  "partition_empty path r w =
     \<lparr>pa_path = path, pa_range = r, pa_writer = w, pa_read_ahead_bytes = 0, pa_maintenance_frozen = False,
      pa_compaction_input_bytes = compaction_input_bytes, pa_memtable = [], pa_memtable_bytes = 0, pa_committed = 0, pa_flushed = 0,
      pa_flushed_epoch = 0, pa_segments = [], pa_index = [], pa_index_bytes = 0, pa_full_flushes_since_compaction = 0,
      pa_timer_flushes_since_compaction = 0, pa_compaction_sweep_pending = [], pa_compaction_sweep_timer_debt = 0,
      pa_reclaim_attempted_at_bytes = 0\<rparr>"

definition partition_open ::
  "('s, 'tag) storage_env \<Rightarrow> 's \<Rightarrow> partition_path \<Rightarrow> epoch \<Rightarrow> key_range \<Rightarrow> storage_error + partition" where
  "partition_open env s path e r =
     bind_res (format_says (writer_open (en_ops env) s path e)) (\<lambda>w.
     bind_res (format_says (snapshot_open (en_ops env) (en_codec env) (en_crc env) s path)) (\<lambda>found.
     Inr (case found of None \<Rightarrow> partition_empty path r w | Some sn \<Rightarrow> adopt sn (partition_empty path r w))))"

definition with_read_ahead :: "u64 \<Rightarrow> partition \<Rightarrow> partition" where
  "with_read_ahead bytes p = p\<lparr>pa_read_ahead_bytes := bytes\<rparr>"

definition partition_hydration :: "partition \<Rightarrow> partition_horizon" where
  "partition_hydration p = \<lparr>hy_epoch = pa_flushed_epoch p, hy_through = pa_flushed p\<rparr>"

text \<open>
  \<open>hydrate\<close> reads the bucket twice, the manifest at one moment and the whole snapshot at a later one, and it holds no lock on
  the table meanwhile: \<open>first\<close> is the store at the first read, \<open>second\<close> at the second, and \<open>meanwhile\<close> what \<open>apply\<close> did in between.
\<close>

definition partition_hydrate ::
  "('s, 'tag) storage_env \<Rightarrow> 's \<Rightarrow> 's \<Rightarrow> (partition \<Rightarrow> partition) \<Rightarrow> partition \<Rightarrow> partition \<times> (storage_error + partition_horizon)" where
  "partition_hydrate env first second meanwhile p =
     (case format_says (load_manifest (en_ops env) (en_codec env) first (pa_path p)) of
        Inl e \<Rightarrow> (p, Inl e)
      | Inr None \<Rightarrow> (p, Inr (partition_hydration p))
      | Inr (Some (m, _)) \<Rightarrow>
          if mf_committed_lamport m \<le> pa_flushed p
          then let p = p\<lparr>pa_flushed_epoch := max (pa_flushed_epoch p) (mf_epoch m)\<rparr> in (p, Inr (partition_hydration p))
          else
            let p = meanwhile p
            in case format_says (snapshot_open (en_ops env) (en_codec env) (en_crc env) second (pa_path p)) of
                 Inl e \<Rightarrow> (p, Inl e)
               | Inr None \<Rightarrow> (p, Inr (partition_hydration p))
               | Inr (Some sn) \<Rightarrow>
                   let p = (if mf_committed_lamport (sn_manifest sn) \<le> pa_flushed p
                            then p\<lparr>pa_flushed_epoch := max (pa_flushed_epoch p) (mf_epoch (sn_manifest sn))\<rparr>
                            else adopt sn p)
                   in (p, Inr (partition_hydration p)))"

definition reclaim_published_if_needed ::
  "('s, 'tag) storage_env \<Rightarrow> 's \<Rightarrow> (partition \<Rightarrow> partition) \<Rightarrow> partition \<Rightarrow> partition \<times> (storage_error + unit)" where
  "reclaim_published_if_needed env s meanwhile p =
     (let retry_at = saturating_add (pa_reclaim_attempted_at_bytes p) flush_trigger_bytes
      in if pa_memtable_bytes p < flush_trigger_bytes \<or> pa_memtable_bytes p < retry_at then (p, Inr ())
         else
           let p = meanwhile (p\<lparr>pa_reclaim_attempted_at_bytes := pa_memtable_bytes p\<rparr>)
           in case format_says (snapshot_open (en_ops env) (en_codec env) (en_crc env) s (pa_path p)) of
                Inl e \<Rightarrow> (p, Inl e)
              | Inr None \<Rightarrow> (p, Inr ())
              | Inr (Some sn) \<Rightarrow> if mf_committed_lamport (sn_manifest sn) \<le> pa_flushed p then (p, Inr ()) else (adopt sn p, Inr ()))"

section \<open>What a manifest covers\<close>

text \<open>The objects behind a manifest: every segment it names is there and holds \<open>RS\<close>.\<close>

definition backed where
  "backed env s path r m RS \<longleftrightarrow> mf_range m = r \<and> mf_keyspace_id m = pp_keyspace_id path \<and> mf_partition_id m = pp_partition_id path
     \<and> length RS = length (mf_segments m) \<and> (\<forall>i<length RS. segment_object env s path (mf_segments m ! i) (RS ! i))
     \<and> one_per_lamport (concat RS) \<and> (\<forall>x\<in>set (concat RS). sr_lamport x \<le> mf_committed_lamport m \<and> contains r (sr_key x))"

definition flushed_map :: "key_range \<Rightarrow> segment_record list list \<Rightarrow> lamport \<Rightarrow> entry_map" where
  "flushed_map r RS horizon = \<lparr>em_range = r, em_entries = (\<lambda>k. map_option entry_of_record (newest (concat RS) k)), em_committed = horizon\<rparr>"

lemma adopted_index:
  assumes "snap_ok crc RS (concat RS) index"
  shows "index_ok crc RS (map (\<lambda>(key, at). (key, loc_of at)) index)"
proof -
  let ?index = "map (\<lambda>(key, at). (key, loc_of at)) index"
  have get: "bt_get ?index k = map_option loc_of (bt_get index k)" for k by (simp add: map_of_map)
  have "case bt_get ?index k of
      None \<Rightarrow> newest (concat RS) k = None
    | Some l \<Rightarrow> lo_segment l < length RS \<and> (\<exists>r. newest (concat RS) k = Some r \<and> placed crc (RS ! lo_segment l) l r)" for k
  proof (cases "bt_get index k")
    case None
    then show ?thesis using snap_ok_get(1)[OF assms None] by (simp add: get)
  next
    case (Some ln)
    obtain r where r: "newest (concat RS) k = Some r" "locates crc RS ln r" using snap_ok_get(2)[OF assms Some] by blast
    then show ?thesis using Some by (simp add: get locates_def) (simp add: loc_of_def)
  qed
  moreover have "bt_ok ?index" using assms by (simp add: snap_ok_def bt_ok_def comp_def case_prod_unfold)
  ultimately show ?thesis by (simp add: index_ok_def)
qed

lemma adopt_fields [simp]:
  "pa_path (adopt sn p) = pa_path p" "pa_range (adopt sn p) = pa_range p" "pa_writer (adopt sn p) = pa_writer p"
  "pa_segments (adopt sn p) = mf_segments (sn_manifest sn)" "pa_flushed (adopt sn p) = mf_committed_lamport (sn_manifest sn)"
  "pa_committed (adopt sn p) = max (pa_committed p) (mf_committed_lamport (sn_manifest sn))"
  "pa_index (adopt sn p) = map (\<lambda>(key, at). (key, loc_of at)) (sn_index sn)"
  "pa_memtable (adopt sn p) = retain_above (mf_committed_lamport (sn_manifest sn)) (pa_memtable p)"
  by (simp_all add: adopt_def Let_def)

lemma partition_empty_fields [simp]:
  "pa_path (partition_empty path r w) = path" "pa_range (partition_empty path r w) = r" "pa_writer (partition_empty path r w) = w"
  "pa_segments (partition_empty path r w) = []" "pa_flushed (partition_empty path r w) = 0" "pa_committed (partition_empty path r w) = 0"
  "pa_index (partition_empty path r w) = []" "pa_memtable (partition_empty path r w) = []"
  by (simp_all add: partition_empty_def)

text \<open>Sequences of an epoch that last for \<open>n\<close> more objects.\<close>

definition epoch_lasts where
  "epoch_lasts ops s path e n \<longleftrightarrow> (\<forall>seq key. data_key path e seq key \<longrightarrow> object_at ops s key \<noteq> None \<longrightarrow> unat seq + n + 1 < 2 ^ 64)"

context storage
begin

lemma snapshot_open_ok:
  assumes "load_manifest (en_ops env) (en_codec env) s path = Inr (Some (m, t))" and bk: "backed env s path r m RS"
  obtains index where "snapshot_open (en_ops env) (en_codec env) (en_crc env) s path = Inr (Some \<lparr>sn_path = path, sn_manifest = m, sn_index = index\<rparr>)"
    "snap_ok (en_crc env) RS (concat RS) index"
proof -
  have b: "length RS = length (mf_segments m)" "one_per_lamport (concat RS)" "mf_keyspace_id m = pp_keyspace_id path"
    "mf_partition_id m = pp_partition_id path" "\<And>i. i < length RS \<Longrightarrow> segment_object env s path (mf_segments m ! i) (RS ! i)"
    using bk by (simp_all add: backed_def)
  obtain index where index: "snapshot_of (en_ops env) (en_crc env) s path m = Inr \<lparr>sn_path = path, sn_manifest = m, sn_index = index\<rparr>"
    "snap_ok (en_crc env) RS (filter (\<lambda>r. contains (mf_range m) (sr_key r)) (concat RS)) index"
    by (rule snapshot_of_ok[OF b(5,1-4)])
  have "filter (\<lambda>r. contains (mf_range m) (sr_key r)) (concat RS) = concat RS"
    using bk unfolding backed_def by (intro filter_True) blast
  then show thesis using that[of index] index assms(1) by (simp add: snapshot_open_def)
qed

lemma adopt_segments_ok:
  assumes bk: "backed env s (pa_path p) r m RS" and snap: "snap_ok (en_crc env) RS (concat RS) index"
  shows "segments_ok env s (adopt \<lparr>sn_path = pa_path p, sn_manifest = m, sn_index = index\<rparr> p) RS"
  using bk adopted_index[OF snap] unfolding segments_ok_def backed_def by simp

lemma partition_open_ok:
  assumes load: "load_manifest (en_ops env) (en_codec env) (io_store io) path = Inr found"
    and bk: "case found of None \<Rightarrow> RS = [] | Some (m, t) \<Rightarrow> backed env (io_store io) path r m RS"
    and room: "room (io_store io) (2 * n)" and n: "n < 2 ^ 32" and seqs: "epoch_lasts (en_ops env) (io_store io) path e n"
    and coh: "cache_coherent env io"
  obtains p where "partition_open env (io_store io) path e r = Inr p" "storage_ok env room n p io RS" "pa_path p = path"
    "map_of_partition RS p = flushed_map r RS (case found of None \<Rightarrow> 0 | Some (m, t) \<Rightarrow> mf_committed_lamport m)"
proof -
  have "room (io_store io) 0" using room_less[OF room] by simp
  moreover have "n < 2 ^ 64" using n by simp
  ultimately obtain w where w: "writer_open (en_ops env) (io_store io) path e = Inr w" "pw_path w = path" "pw_epoch w = e"
    "\<And>seq key. data_key path e seq key \<Longrightarrow> object_at (en_ops env) (io_store io) key \<noteq> None \<Longrightarrow> seq < pw_next_sequence w"
    "unat (pw_next_sequence w) + n < 2 ^ 64"
    using writer_open_ok[of "io_store io" n path e] seqs unfolding epoch_lasts_def by blast
  have wok: "writer_ok env n p (io_store io)" if "pa_path p = path" "pa_writer p = w" for p :: partition
    using that w(2-5) unfolding writer_ok_def by auto
  show thesis
  proof (cases found)
    case None
    have "partition_open env (io_store io) path e r = Inr (partition_empty path r w)"
      using w(1) load None by (simp add: partition_open_def snapshot_open_def format_says_def)
    moreover have "storage_ok env room n (partition_empty path r w) io RS"
      using bk None wok room n coh by (simp add: storage_ok_def segments_ok_def index_ok_def one_per_lamport_def table_ok_def)
    ultimately show thesis using that bk None by (simp add: map_of_partition_def flushed_map_def contents_def fun_eq_iff)
  next
    case (Some x)
    obtain m t where x: "x = (m, t)" by (cases x)
    have bk': "backed env (io_store io) path r m RS" using bk Some x by simp
    obtain index where index: "snapshot_open (en_ops env) (en_codec env) (en_crc env) (io_store io) path
        = Inr (Some \<lparr>sn_path = path, sn_manifest = m, sn_index = index\<rparr>)" "snap_ok (en_crc env) RS (concat RS) index"
      using snapshot_open_ok[OF load[unfolded Some x] bk'] by blast
    let ?p = "adopt \<lparr>sn_path = path, sn_manifest = m, sn_index = index\<rparr> (partition_empty path r w)"
    have "partition_open env (io_store io) path e r = Inr ?p"
      using w(1) index(1) by (simp add: partition_open_def format_says_def)
    moreover have "segments_ok env (io_store io) ?p RS"
      using adopt_segments_ok[of "io_store io" "partition_empty path r w" r m RS index] bk' index(2) by simp
    then have "storage_ok env room n ?p io RS" using wok room n coh by (simp add: storage_ok_def table_ok_def retain_above_def)
    ultimately show thesis using that Some x by (simp add: map_of_partition_def flushed_map_def contents_def retain_above_def fun_eq_iff)
  qed
qed

end

section \<open>The engine over the store in memory\<close>

definition memory_env :: "manifest_codec \<Rightarrow> (bytes \<Rightarrow> u32) \<Rightarrow> (memory_store, u64) storage_env" where
  "memory_env c crc = \<lparr>en_ops = memory_ops, en_codec = c, en_crc = crc, en_race = (\<lambda>_ s. s)\<rparr>"

lemma memory_env_simps [simp]:
  "en_ops (memory_env c crc) = memory_ops" "en_codec (memory_env c crc) = c" "en_crc (memory_env c crc) = crc" "en_race (memory_env c crc) = (\<lambda>_ s. s)"
  by (simp_all add: memory_env_def)

interpretation mem_storage: storage "memory_env c crc" ms_used ms_room for c crc
  by (intro_locales, simp add: mem.object_store_axioms) (unfold_locales, simp)

text \<open>A node that holds one partition just opened, with a read-ahead window and a cache of some budget.\<close>

definition node_of :: "'s \<Rightarrow> u64 \<Rightarrow> nat \<Rightarrow> partition \<Rightarrow> 's engine" where
  "node_of s window budget p =
     \<lparr>eg_partition = with_read_ahead window p, eg_io = \<lparr>io_store = s, io_cache = cache_new budget\<rparr>, eg_flush = NotFlushing\<rparr>"

lemma with_read_ahead_simps [simp]:
  "storage_ok env room n (with_read_ahead window p) io RS = storage_ok env room n p io RS"
  "map_of_partition RS (with_read_ahead window p) = map_of_partition RS p"
  by (simp_all add: with_read_ahead_def storage_ok_def segments_ok_def table_ok_def writer_ok_def map_of_partition_def contents_def fun_eq_iff)

lemma cache_new_ok: "cache_ok (cache_new budget)" "cached (cache_new budget) object offset = None"
proof -
  have "held (cache_new budget) = {}" by (auto simp: held_def cache_new_def entry_at_def)
  then show "cache_ok (cache_new budget)" by (simp add: cache_ok_def) (simp add: cache_new_def entry_at_def cost_of_def)
qed (simp add: cached_def cache_new_def entry_at_def)

lemma new_cache_coherent: "cache_coherent env \<lparr>io_store = s, io_cache = cache_new budget\<rparr>"
  by (simp add: cache_coherent_def cache_new_ok) (simp add: cache_new_def)

lemma node_of_ok: "storage_ok env room n p \<lparr>io_store = s, io_cache = cache_new budget\<rparr> RS \<Longrightarrow> engine_ok env room n (node_of s window budget p) RS"
  by (simp add: engine_ok_def phase_ok_def node_of_def)

lemma storage_run_length: "length (snd (storage_run env evs eg)) = length evs"
proof (induction evs arbitrary: eg)
  case (Cons ev evs)
  show ?case using Cons[of "fst (storage_step env ev eg)"] by (simp add: Let_def case_prod_unfold)
qed simp

lemma open_new_store:
  assumes "n < 2 ^ 32"
  obtains p where "partition_open (memory_env c crc) (ms_new clock) path e r = Inr p" "pa_path p = path"
    "engine_ok (memory_env c crc) ms_room n (node_of (ms_new clock) window budget p) []" "map_of_partition [] p = map_empty r"
proof -
  let ?io = "\<lparr>io_store = ms_new clock, io_cache = cache_new budget\<rparr>"
  have load: "load_manifest (en_ops (memory_env c crc)) (en_codec (memory_env c crc)) (io_store ?io) path = Inr None"
    by (simp add: load_manifest_def ms_get_def ms_new_def)
  have room: "ms_room (io_store ?io) (2 * n)" using assms by (simp add: ms_room_def ms_new_def)
  have seqs: "epoch_lasts (en_ops (memory_env c crc)) (io_store ?io) path e n"
    by (simp add: epoch_lasts_def ms_object_at ms_new_def)
  obtain p where p: "partition_open (memory_env c crc) (io_store ?io) path e r = Inr p" "storage_ok (memory_env c crc) ms_room n p ?io []"
    "pa_path p = path" "map_of_partition [] p = flushed_map r [] 0"
    using mem_storage.partition_open_ok[OF load _ room assms seqs new_cache_coherent, of "[]" r] by auto
  have "flushed_map r [] 0 = map_empty r" by (simp add: flushed_map_def map_empty_def fun_eq_iff)
  then show thesis using that[of p] p node_of_ok[OF p(2)] by simp
qed

text \<open>
  C5. A partition is a map. Opened on an empty store and driven by any sequence of reads, conditional writes and deletes,
  replayed mutations and flushes that begin, publish, install or are cancelled between these steps, a partition
  answers every call exactly as a map from keys to versioned entries would, whatever lies in the mutable table, in
  published segments or in the value cache, for every read-ahead window and cache budget; calls that met a running
  flush wait and change nothing. The bucket is the memory store: its calls do not fail and no other writer competes
  for the manifest. Fewer than \<open>2 ^ 31\<close> events keep record counts and sequences in their words.
\<close>

theorem partition_refines_map:
  assumes "codec_reads_back c" and "2 * length evs < 2 ^ 32"
  shows "\<exists>p eg replies RS. partition_open (memory_env c crc) (ms_new clock) path e r = Inr p
    \<and> storage_run (memory_env c crc) evs (node_of (ms_new clock) window budget p) = (eg, replies)
    \<and> length replies = length evs
    \<and> map_run (admitted evs replies) (map_empty r) = (map_of_engine RS eg, filter (\<lambda>x. x \<noteq> Waiting) replies)
    \<and> engine_ok (memory_env c crc) ms_room 0 eg RS"
proof -
  obtain p where p: "partition_open (memory_env c crc) (ms_new clock) path e r = Inr p"
    "engine_ok (memory_env c crc) ms_room (2 * length evs) (node_of (ms_new clock) window budget p) []" "map_of_partition [] p = map_empty r"
    by (rule open_new_store[OF assms(2)])
  obtain eg replies where run: "storage_run (memory_env c crc) evs (node_of (ms_new clock) window budget p) = (eg, replies)" by fastforce
  have "map_of_engine [] (node_of (ms_new clock) window budget p) = map_empty r" using p(3) by (simp add: node_of_def)
  then show ?thesis using mem_storage.storage_run_map[of c crc evs 0 "node_of (ms_new clock) window budget p" "[]"] p(1,2) assms(1) run
      storage_run_length[of "memory_env c crc" evs "node_of (ms_new clock) window budget p"] by auto
qed

definition sample_events :: "storage_event list" where
  "sample_events = [Put 5 1 [1] [2] None Unconditional, FlushBegin False, Apply \<lparr>mu_lamport = 2, mu_key = [1], mu_op = MutDelete 9\<rparr>,
     FlushPublish, FlushInstall, Get 6 [1]]"

theorem partition_refines_map_witness:
  "\<exists>p eg replies RS. partition_open (memory_env sample_codec (\<lambda>_. 0)) (ms_new None) sample_path 3 unbounded = Inr p
    \<and> storage_run (memory_env sample_codec (\<lambda>_. 0)) sample_events (node_of (ms_new None) 64 100 p) = (eg, replies)
    \<and> length replies = length sample_events
    \<and> map_run (admitted sample_events replies) (map_empty unbounded) = (map_of_engine RS eg, filter (\<lambda>x. x \<noteq> Waiting) replies)"
proof -
  have "2 * length sample_events < 2 ^ 32" by (simp add: sample_events_def)
  then show ?thesis using partition_refines_map[OF sample_codec_reads_back] by blast
qed

end
