(* ===== verification/Storage_Recover.thy ===== *)
theory Storage_Recover
  imports Storage_Open
begin

text \<open>
  Recovery of one partition. The log of a partition is the list of mutations its map took; the published manifest always
  covers a prefix of that log, whatever flush was under way, so opening the bucket and replaying the log gives
  back the map.
\<close>

section \<open>Replaying a log\<close>

definition replay :: "mutation list \<Rightarrow> entry_map \<Rightarrow> entry_map" where
  "replay L M = fold (\<lambda>m M. fst (map_step (Apply m) M)) L M"

definition upto_lamport :: "lamport \<Rightarrow> mutation list \<Rightarrow> mutation list" where
  "upto_lamport h L = filter (\<lambda>m. mu_lamport m \<le> h) L"

definition mutation_fits :: "key_range \<Rightarrow> mutation \<Rightarrow> bool" where
  "mutation_fits r m \<longleftrightarrow> contains r (mu_key m) \<and> length (mu_key m) \<le> max_key_bytes
     \<and> (case mu_op m of MutPut v _ \<Rightarrow> length v \<le> max_value_bytes | MutDelete _ \<Rightarrow> True)"

definition log_ok :: "key_range \<Rightarrow> mutation list \<Rightarrow> bool" where
  "log_ok r L \<longleftrightarrow> sorted_wrt (<) (map mu_lamport L) \<and> (\<forall>m\<in>set L. 0 < mu_lamport m \<and> mutation_fits r m)"

lemma map_empty_simps [simp]: "em_range (map_empty r) = r" "em_entries (map_empty r) k = None" "em_committed (map_empty r) = 0"
  by (simp_all add: map_empty_def)

lemma map_store_simps [simp]:
  "em_range (map_store l k e M) = em_range M" "em_committed (map_store l k e M) = l" "em_entries (map_store l k e M) = (em_entries M)(k \<mapsto> e)"
  by (simp_all add: map_store_def)

lemma apply_fits:
  assumes "mutation_fits (em_range M) m"
  shows "map_step (Apply m) M = (if mu_lamport m \<le> em_committed M then M else map_store (mu_lamport m) (mu_key m) (entry_of_mutation m) M, Replayed (Inr ()))"
  using assms by (auto simp: mutation_fits_def map_key_def map_value_def split: mutation_op.splits)

lemma apply_range: "em_range (fst (map_step (Apply m) M)) = em_range M"
  by (auto split: sum.split)

declare map_step.simps(4) [simp del]

lemma replay_simps [simp]:
  "replay [] M = M" "replay (m # L) M = replay L (fst (map_step (Apply m) M))" "replay (L @ L') M = replay L' (replay L M)"
  by (simp_all add: replay_def)

lemma log_ok_snoc: "log_ok r (L @ [m]) \<longleftrightarrow> log_ok r L \<and> (\<forall>x\<in>set L. mu_lamport x < mu_lamport m) \<and> 0 < mu_lamport m \<and> mutation_fits r m"
  by (auto simp: log_ok_def sorted_wrt_append)

lemma replay_range [simp]: "em_range (replay L M) = em_range M"
  by (induction L arbitrary: M) (simp_all add: apply_range)

text \<open>Replaying a log: the horizon is the last Lamport, and a key holds its last mutation.\<close>

lemma replay_snoc_committed:
  "log_ok r L \<Longrightarrow> (em_committed (replay L (map_empty r)) = 0 \<and> L = [] \<or> em_committed (replay L (map_empty r)) \<in> mu_lamport ` set L)
     \<and> (\<forall>m\<in>set L. mu_lamport m \<le> em_committed (replay L (map_empty r)))
     \<and> (\<forall>m. log_ok r (L @ [m]) \<longrightarrow> replay (L @ [m]) (map_empty r) = map_store (mu_lamport m) (mu_key m) (entry_of_mutation m) (replay L (map_empty r)))"
proof (induction L rule: rev_induct)
  case Nil
  have "replay [m] (map_empty r) = map_store (mu_lamport m) (mu_key m) (entry_of_mutation m) (map_empty r)" if "log_ok r [m]" for m
    using that apply_fits[of "map_empty r" m] by (auto simp: log_ok_def simp del: map_step.simps)
  then show ?case by simp
next
  case (snoc a L)
  let ?M = "replay (L @ [a]) (map_empty r)"
  have M: "?M = map_store (mu_lamport a) (mu_key a) (entry_of_mutation a) (replay L (map_empty r))" using snoc by (simp add: log_ok_snoc)
  have le: "\<forall>m\<in>set (L @ [a]). mu_lamport m \<le> mu_lamport a" using snoc.prems by (auto simp: log_ok_snoc less_imp_le)
  have "replay ((L @ [a]) @ [m]) (map_empty r) = map_store (mu_lamport m) (mu_key m) (entry_of_mutation m) ?M" if "log_ok r ((L @ [a]) @ [m])" for m
  proof -
    have "mu_lamport a < mu_lamport m" "mutation_fits r m" using that log_ok_snoc[of r "L @ [a]" m] by simp_all
    then have "map_step (Apply m) ?M = (map_store (mu_lamport m) (mu_key m) (entry_of_mutation m) ?M, Replayed (Inr ()))"
      unfolding M using apply_fits[of "map_store (mu_lamport a) (mu_key a) (entry_of_mutation a) (replay L (map_empty r))" m] by simp
    then show ?thesis by (simp only: replay_simps fst_conv)
  qed
  then show ?case using M le by simp
qed

lemmas replay_snoc = replay_snoc_committed[THEN conjunct2, THEN conjunct2, rule_format]
lemmas replay_committed_max = replay_snoc_committed[THEN conjunct2, THEN conjunct1, rule_format]
lemmas replay_committed_in = replay_snoc_committed[THEN conjunct1]

lemma replay_below: "(\<forall>m\<in>set L. mutation_fits (em_range M) m \<and> mu_lamport m \<le> em_committed M) \<Longrightarrow> replay L M = M"
  by (induction L) (auto simp: apply_fits simp del: map_step.simps)

lemma split_log: "sorted_wrt (<) (map mu_lamport L) \<Longrightarrow> L = upto_lamport h L @ filter (\<lambda>m. h < mu_lamport m) L"
proof (induction L)
  case (Cons m L)
  show ?case
  proof (cases "mu_lamport m \<le> h")
    case False
    then have "upto_lamport h L = []" using Cons.prems by (auto simp: upto_lamport_def filter_empty_conv)
    then show ?thesis using Cons False by (auto simp: upto_lamport_def)
  qed (use Cons in \<open>simp add: upto_lamport_def\<close>)
qed (simp add: upto_lamport_def)

lemma log_ok_upto: "log_ok r L \<Longrightarrow> log_ok r (upto_lamport h L)"
  by (auto simp: log_ok_def upto_lamport_def sorted_wrt_map sorted_wrt_filter)

text \<open>Replaying the whole log over the map of any prefix, including what the prefix already has, gives the map of the log.\<close>

lemma replay_resume:
  assumes "log_ok r L"
  shows "replay L (replay (upto_lamport h L) (map_empty r)) = replay L (map_empty r)"
proof -
  let ?M = "replay (upto_lamport h L) (map_empty r)"
  have "mutation_fits (em_range ?M) m \<and> mu_lamport m \<le> em_committed ?M" if "m \<in> set (upto_lamport h L)" for m
    using assms that replay_committed_max[OF log_ok_upto[OF assms] that] by (auto simp: log_ok_def upto_lamport_def)
  then have same: "replay (upto_lamport h L) ?M = ?M" by (intro replay_below) blast
  have L: "L = upto_lamport h L @ filter (\<lambda>m. h < mu_lamport m) L" using assms by (intro split_log) (simp add: log_ok_def)
  have "replay L ?M = replay (filter (\<lambda>m. h < mu_lamport m) L) (replay (upto_lamport h L) ?M)"
    by (subst L) (simp only: replay_simps)
  also have "\<dots> = replay L (map_empty r)" unfolding same by (subst (3) L) (simp only: replay_simps)
  finally show ?thesis .
qed

section \<open>The log of a run\<close>

text \<open>The mutation a step of the map commits, if it commits one.\<close>

definition event_log :: "storage_event \<Rightarrow> entry_map \<Rightarrow> mutation list" where
  "event_log ev M =
     (if em_committed (fst (map_step ev M)) = em_committed M then []
      else case ev of
          Put now l key v ttl _ \<Rightarrow> [\<lparr>mu_lamport = l, mu_key = key, mu_op = MutPut v (map_option (absolute_expiry now) ttl)\<rparr>]
        | Delete now l key _ \<Rightarrow> [\<lparr>mu_lamport = l, mu_key = key, mu_op = MutDelete (saturating_add now tombstone_retention_millis)\<rparr>]
        | Apply m \<Rightarrow> [m]
        | _ \<Rightarrow> [])"

fun run_log :: "storage_event list \<Rightarrow> entry_map \<Rightarrow> mutation list" where
  "run_log [] M = []"
| "run_log (ev # evs) M = event_log ev M @ run_log evs (fst (map_step ev M))"

lemma map_try_cases:
  "fst (map_try checks f M) = M \<or> (\<forall>c\<in>set checks. c = Inr ()) \<and> fst (map_try checks f M) = fst (f M)"
proof (cases "check_each id checks")
  case (Inr u)
  then have "\<forall>c\<in>set checks. c = Inr ()" by (simp add: check_each_ok)
  then show ?thesis using Inr by (simp add: map_try_def case_prod_unfold Let_def)
qed (simp add: map_try_def)

lemma map_write_cases: "fst (map_write now l key cond e M) = M \<or> fst (map_write now l key cond e M) = map_store l key e M"
  by (simp add: map_write_def)

lemma map_checks:
  "map_key M key = Inr () \<longleftrightarrow> length key \<le> max_key_bytes \<and> contains (em_range M) key" "map_value v = Inr () \<longleftrightarrow> length v \<le> max_value_bytes"
  "map_ahead M l = Inr () \<longleftrightarrow> em_committed M < l"
  by (auto simp: map_key_def map_value_def map_ahead_def)

text \<open>A step of the map is the replay of its log.\<close>

lemma event_step:
  "event_log ev M = [] \<and> fst (map_step ev M) = M
   \<or> (\<exists>m. event_log ev M = [m] \<and> em_committed M < mu_lamport m \<and> mutation_fits (em_range M) m
        \<and> fst (map_step ev M) = map_store (mu_lamport m) (mu_key m) (entry_of_mutation m) M)"
proof -
  show ?thesis
  proof (cases ev)
    case (Put now l key v ttl cond)
    let ?e = "\<lparr>st_version = l, st_expires_at_millis = map_option (absolute_expiry now) ttl, st_deleted = False, st_value = v\<rparr>"
    have "fst (map_step ev M) = M \<or> (map_key M key = Inr () \<and> map_value v = Inr () \<and> map_ahead M l = Inr () \<and> fst (map_step ev M) = map_store l key ?e M)"
      using map_try_cases[of "[map_key M key, map_value v, map_ahead M l]" "map_write now l key cond ?e" M] map_write_cases[of now l key cond ?e M]
      by (auto simp: Put)
    then show ?thesis by (auto simp: event_log_def Put map_checks mutation_fits_def entry_of_mutation_def mutation_version_def version_at_def)
  next
    case (Delete now l key cond)
    let ?e = "\<lparr>st_version = l, st_expires_at_millis = Some (saturating_add now tombstone_retention_millis), st_deleted = True, st_value = []\<rparr>"
    have "fst (map_step ev M) = M \<or> (map_key M key = Inr () \<and> map_ahead M l = Inr () \<and> fst (map_step ev M) = map_store l key ?e M)"
      using map_try_cases[of "[map_key M key, map_ahead M l]" _ M] map_write_cases[of now l key cond ?e M]
      by (fastforce simp: Delete split: option.split)
    then show ?thesis by (auto simp: event_log_def Delete map_checks mutation_fits_def entry_of_mutation_def mutation_version_def version_at_def)
  next
    case (Apply m)
    have "fst (map_step ev M) = M \<or> (em_committed M < mu_lamport m \<and> mutation_fits (em_range M) m
        \<and> fst (map_step ev M) = map_store (mu_lamport m) (mu_key m) (entry_of_mutation m) M)"
    proof (cases "check_each id [map_key M (mu_key m), case mu_op m of MutPut v _ \<Rightarrow> map_value v | MutDelete _ \<Rightarrow> Inr ()]")
      case (Inl e)
      then show ?thesis by (simp add: Apply map_step.simps(4))
    next
      case (Inr u)
      then have "map_key M (mu_key m) = Inr ()" "(case mu_op m of MutPut v _ \<Rightarrow> map_value v | MutDelete _ \<Rightarrow> Inr ()) = Inr ()"
        by (auto simp: bind_res_eq_Inr)
      then have fits: "mutation_fits (em_range M) m" by (auto simp: mutation_fits_def map_checks split: mutation_op.splits)
      show ?thesis using apply_fits[OF fits] fits by (auto simp: Apply)
    qed
    then show ?thesis by (auto simp: event_log_def Apply)
  qed (simp_all add: event_log_def)
qed

lemma event_log_ok:
  assumes L: "log_ok r L" and M: "M = replay L (map_empty r)"
  shows "log_ok r (L @ event_log ev M) \<and> fst (map_step ev M) = replay (L @ event_log ev M) (map_empty r)"
  using event_step[of ev M]
proof (elim disjE exE conjE)
  fix m
  assume m: "event_log ev M = [m]" "em_committed M < mu_lamport m" "mutation_fits (em_range M) m"
    "fst (map_step ev M) = map_store (mu_lamport m) (mu_key m) (entry_of_mutation m) M"
  have "mu_lamport x < mu_lamport m" if "x \<in> set L" for x using replay_committed_max[OF L that] m(2) M by (meson le_less_trans)
  moreover have "0 < mu_lamport m" using m(2) word_coorder.not_eq_extremum by fastforce
  ultimately have "log_ok r (L @ [m])" using L m(3) M by (simp add: log_ok_snoc)
  then show ?thesis using m M replay_snoc[OF L] by simp
qed (use assms in simp)

lemma run_log_ok: "log_ok r L \<Longrightarrow> M = replay L (map_empty r) \<Longrightarrow>
    log_ok r (L @ run_log evs M) \<and> fst (map_run evs M) = replay (L @ run_log evs M) (map_empty r)"
proof (induction evs arbitrary: L M)
  case (Cons ev evs)
  note e = event_log_ok[OF Cons.prems, of ev]
  from Cons.IH[OF conjunct1[OF e] conjunct2[OF e]] show ?case by (auto simp: Let_def split: prod.splits)
qed simp

section \<open>What the bucket covers\<close>

definition in_range :: "key_range \<Rightarrow> segment_record list list \<Rightarrow> bool" where
  "in_range r RS \<longleftrightarrow> (\<forall>x\<in>set (concat RS). contains r (sr_key x))"

text \<open>The published manifest, if there is one, shows the map after a prefix of the log.\<close>

definition covers where
  "covers env s path r L \<longleftrightarrow> (\<exists>found. load_manifest (en_ops env) (en_codec env) s path = Inr found \<and>
     (case found of
        None \<Rightarrow> True
      | Some (m, _) \<Rightarrow> (\<exists>RS. backed env s path r m RS
          \<and> flushed_map r RS (mf_committed_lamport m) = replay (upto_lamport (mf_committed_lamport m) L) (map_empty r))))"

definition captured_map :: "key_range \<Rightarrow> segment_record list list \<Rightarrow> flush_capture \<Rightarrow> entry_map" where
  "captured_map r RS cap =
     \<lparr>em_range = r, em_entries = (\<lambda>k. case bt_get (fc_table cap) k of Some e \<Rightarrow> Some e | None \<Rightarrow> map_option entry_of_record (newest (concat RS) k)),
      em_committed = fc_committed cap\<rparr>"

lemma upto_snoc: "h < mu_lamport m \<Longrightarrow> upto_lamport h (L @ [m]) = upto_lamport h L"
  by (simp add: upto_lamport_def)

lemma upto_all: "(\<forall>m\<in>set L. mu_lamport m \<le> h) \<Longrightarrow> upto_lamport h L = L"
  by (simp add: upto_lamport_def)

lemma prefix_below_next:
  assumes "log_ok r (L @ [m])" and "em_committed (replay (upto_lamport h L) (map_empty r)) = h"
  shows "h < mu_lamport m"
proof -
  have L: "log_ok r L" "\<forall>x\<in>set L. mu_lamport x < mu_lamport m" "0 < mu_lamport m" using assms(1) by (simp_all add: log_ok_snoc)
  have "h = 0 \<or> h \<in> mu_lamport ` set (upto_lamport h L)" using replay_committed_in[OF log_ok_upto[OF L(1), of h]] assms(2) by auto
  then show ?thesis using L(2,3) by (auto simp: upto_lamport_def)
qed

lemma covers_log:
  assumes "covers env s path r L" and log: "log_ok r (L @ [m])"
  shows "covers env s path r (L @ [m])"
proof -
  obtain found where found: "load_manifest (en_ops env) (en_codec env) s path = Inr found"
    "case found of None \<Rightarrow> True | Some (mf, _) \<Rightarrow> (\<exists>RS. backed env s path r mf RS
      \<and> flushed_map r RS (mf_committed_lamport mf) = replay (upto_lamport (mf_committed_lamport mf) L) (map_empty r))"
    using assms(1) unfolding covers_def by blast
  show ?thesis
  proof (cases found)
    case None
    then show ?thesis using found by (simp add: covers_def)
  next
    case (Some x)
    obtain mf t where x: "x = (mf, t)" by (cases x)
    obtain RS where RS: "backed env s path r mf RS"
      "flushed_map r RS (mf_committed_lamport mf) = replay (upto_lamport (mf_committed_lamport mf) L) (map_empty r)"
      using found(2) Some x by auto
    have "em_committed (replay (upto_lamport (mf_committed_lamport mf) L) (map_empty r)) = mf_committed_lamport mf"
      unfolding RS(2)[symmetric] by (simp add: flushed_map_def)
    from upto_snoc[OF prefix_below_next[OF log this]] show ?thesis
      unfolding covers_def using found(1) Some x RS by auto
  qed
qed

lemma backed_frame: "segments_kept (en_ops env) s s' \<Longrightarrow> backed env s path r m RS \<Longrightarrow> backed env s' path r m RS"
  by (auto simp: backed_def intro: segment_object_frame)

lemma segment_object_unique:
  assumes a: "segment_object env s path e rs" and b: "segment_object env s path e rs'"
  shows "rs = rs'"
proof -
  obtain object b t ks pid ep where o: "resolve_segment path e = Some object" "object_at (en_ops env) s object = Some (bs_bytes b, t)"
    "build_segment (en_crc env) ks pid ep rs = Inr b" "length (bs_bytes b) < 2 ^ 64" "records_ok (en_crc env) rs"
    by (rule segment_object_parts[OF a])
  obtain object' b' t' ks' pid' ep' where o': "resolve_segment path e = Some object'" "object_at (en_ops env) s object' = Some (bs_bytes b', t')"
    "build_segment (en_crc env) ks' pid' ep' rs' = Inr b'" "length (bs_bytes b') < 2 ^ 64" "records_ok (en_crc env) rs'"
    by (rule segment_object_parts[OF b])
  have "bs_bytes b = bs_bytes b'" using o(1,2) o'(1,2) by simp
  then show ?thesis using segment_roundtrip[OF o(5,3,4)] segment_roundtrip[OF o'(5,3,4)] by auto
qed

text \<open>The records of the segments are no choice: the objects hold them.\<close>

lemma segments_unique:
  assumes "segments_ok env s p RS" and "segments_ok env s p RS'"
  shows "RS = RS'"
proof (rule nth_equalityI)
  show "length RS = length RS'" using assms by (simp add: segments_ok_def)
  fix i assume "i < length RS"
  then have "segment_object env s (pa_path p) (pa_segments p ! i) (RS ! i)" "segment_object env s (pa_path p) (pa_segments p ! i) (RS' ! i)"
    using assms by (simp_all add: segments_ok_def)
  then show "RS ! i = RS' ! i" by (rule segment_object_unique)
qed

lemma newest_with_table:
  assumes "bt_ok table" and "\<And>a b. a \<in> set rs \<Longrightarrow> b \<in> set (records_of table) \<Longrightarrow> sr_lamport a < sr_lamport b"
    and "\<And>k e. (k, e) \<in> set table \<Longrightarrow> st_deleted e \<Longrightarrow> st_value e = []"
  shows "map_option entry_of_record (newest (rs @ records_of table) k)
    = (case bt_get table k of Some e \<Rightarrow> Some e | None \<Rightarrow> map_option entry_of_record (newest rs k))"
proof (cases "bt_get table k")
  case None
  then have "newest (records_of table) k = None" using newest_records[OF assms(1)] by simp
  then show ?thesis using None by (simp add: newest_append split: option.split)
next
  case (Some e)
  then have new: "newest (records_of table) k = Some (segment_record_of k e)" using newest_records[OF assms(1)] by simp
  have "newest (rs @ records_of table) k = Some (segment_record_of k e)"
  proof (cases "newest rs k")
    case (Some a)
    then have "sr_lamport a < sr_lamport (segment_record_of k e)" using assms(2) newest_Some[OF Some] newest_Some[OF new] by blast
    then show ?thesis using Some new by (simp add: newest_append)
  qed (use new in \<open>simp add: newest_append\<close>)
  then show ?thesis using Some assms(3)[OF map_of_SomeD[OF Some]] by (simp add: entry_of_record_of)
qed

context storage
begin

lemma load_manifest_same:
  assumes "object_at (en_ops env) s' (manifest_key path) = object_at (en_ops env) s (manifest_key path)"
  shows "load_manifest (en_ops env) c s' path = load_manifest (en_ops env) c s path"
proof (cases "so_get (en_ops env) s (manifest_key path)")
  case (Inl e)
  then have "object_at (en_ops env) s' (manifest_key path) = None" using assms by (simp add: object_at_def)
  then obtain e' where "so_get (en_ops env) s' (manifest_key path) = Inl e'" by (auto simp: object_at_def split: sum.splits)
  then show ?thesis using get_missing[OF Inl] get_missing[of s'] by (simp add: load_manifest_def Inl)
next
  case (Inr x)
  then have "so_get (en_ops env) s' (manifest_key path) = Inr x" using assms by (simp add: object_at_def split: sum.splits)
  then show ?thesis using Inr by (simp add: load_manifest_def)
qed

lemma covers_store:
  assumes "covers env s path r L" and kept: "segments_kept (en_ops env) s s'"
    and "object_at (en_ops env) s' (manifest_key path) = object_at (en_ops env) s (manifest_key path)"
  shows "covers env s' path r L"
proof -
  obtain found where found: "load_manifest (en_ops env) (en_codec env) s path = Inr found"
    "case found of None \<Rightarrow> True | Some (mf, _) \<Rightarrow> (\<exists>RS. backed env s path r mf RS
      \<and> flushed_map r RS (mf_committed_lamport mf) = replay (upto_lamport (mf_committed_lamport mf) L) (map_empty r))"
    using assms(1) unfolding covers_def by blast
  have "case found of None \<Rightarrow> True | Some (mf, _) \<Rightarrow> (\<exists>RS. backed env s' path r mf RS
      \<and> flushed_map r RS (mf_committed_lamport mf) = replay (upto_lamport (mf_committed_lamport mf) L) (map_empty r))"
    using found(2) backed_frame[OF kept] by (fastforce split: option.splits)
  then show ?thesis unfolding covers_def load_manifest_same[OF assms(3)] using found(1) by blast
qed

lemma publish_covers:
  fixes p :: partition and io :: "'s node_io" and x :: flush_result and cap :: flush_capture
  assumes ok: "storage_ok env room n p (io\<lparr>io_store := s'\<rparr>) RS" and inr: "in_range (pa_range p) RS"
    and pub: "publishes env p s s' cap (Inr x)"
    and cmap: "captured_map (pa_range p) RS cap = replay (upto_lamport (fc_committed cap) L) (map_empty (pa_range p))"
  shows "covers env s' (pa_path p) (pa_range p) L \<and> in_range (pa_range p) (RS @ [records_of (fc_table cap)])"
proof -
  let ?rs = "records_of (fc_table cap)" and ?m = "fr_manifest x"
  have x: "fr_capture x = cap" "published_ok env s' p x" "manifest_of (en_ops env) (en_codec env) (pa_path p) s' = Some ?m"
    "mf_committed_lamport ?m = fc_committed cap" "mf_range ?m = pa_range p"
    "mf_keyspace_id ?m = pp_keyspace_id (pa_path p)" "mf_partition_id ?m = pp_partition_id (pa_path p)"
    using pub by (auto simp: publishes_def)
  have "published_ok env (io_store (io\<lparr>io_store := s'\<rparr>)) p x" using x(2) by simp
  from flush_install_ok[of env room n p "io\<lparr>io_store := s'\<rparr>" RS x, OF ok this] have segs: "segments_ok env s' (flush_install x p) (RS @ [?rs])"
    by (simp add: storage_ok_def x(1))
  have cap: "capture_ok p cap" using x(1,2) by (simp add: published_ok_def)
  have tab: "bt_ok (fc_table cap)" "\<And>k e. (k, e) \<in> set (fc_table cap) \<Longrightarrow> pa_flushed p < st_version e \<and> contains (pa_range p) k
      \<and> (st_deleted e \<longrightarrow> st_value e = [])"
    using capture_ok_table(5)[OF cap] by (auto simp: table_ok_def)
  have inr': "in_range (pa_range p) (RS @ [?rs])"
    using inr tab(2) by (auto simp: in_range_def records_of_def segment_record_of_def)
  have "backed env s' (pa_path p) (pa_range p) ?m (RS @ [?rs])"
    using segs inr' x unfolding backed_def segments_ok_def in_range_def by simp
  moreover have "flushed_map (pa_range p) (RS @ [?rs]) (fc_committed cap) = captured_map (pa_range p) RS cap"
  proof -
    have newer: "sr_lamport a < sr_lamport b" if "a \<in> set (concat RS)" "b \<in> set ?rs" for a b
    proof -
      have "sr_lamport a \<le> pa_flushed p" using ok that(1) unfolding storage_ok_def segments_ok_def by blast
      moreover have "pa_flushed p < sr_lamport b" using records_of_lamport[OF that(2)] tab(2) by metis
      ultimately show ?thesis by (rule le_less_trans)
    qed
    have "map_option entry_of_record (newest (concat RS @ ?rs) k)
        = (case bt_get (fc_table cap) k of Some e \<Rightarrow> Some e | None \<Rightarrow> map_option entry_of_record (newest (concat RS) k))" for k
      by (rule newest_with_table[OF tab(1)]) (use newer tab(2) in blast)+
    then show ?thesis by (simp add: flushed_map_def captured_map_def fun_eq_iff)
  qed
  moreover obtain t where "load_manifest (en_ops env) (en_codec env) s' (pa_path p) = Inr (Some (?m, t))"
    using x(3) by (auto simp: manifest_of_iff load_manifest_some)
  ultimately show ?thesis using inr' cmap x(4) unfolding covers_def by auto
qed

lemma captured_now:
  assumes log: "log_ok (pa_range p) L" and now: "map_of_partition RS p = replay L (map_empty (pa_range p))"
  shows "captured_map (pa_range p) RS (capture_of full_flush p) = replay (upto_lamport (fc_committed (capture_of full_flush p)) L) (map_empty (pa_range p))"
proof -
  have "captured_map (pa_range p) RS (capture_of full_flush p) = map_of_partition RS p"
    by (simp add: captured_map_def capture_of_def map_of_partition_def contents_def fun_eq_iff)
  moreover have "pa_committed p = em_committed (replay L (map_empty (pa_range p)))" unfolding now[symmetric] by (simp add: map_of_partition_def)
  then have "upto_lamport (fc_committed (capture_of full_flush p)) L = L"
    using replay_committed_max[OF log] by (intro upto_all) (simp add: capture_of_def)
  ultimately show ?thesis using now by simp
qed

lemma flush_locked_covers:
  fixes p :: partition and io :: "'s node_io"
  assumes ok: "storage_ok env room (Suc n) p io RS" and codec: "codec_reads_back (en_codec env)" and inr: "in_range (pa_range p) RS"
    and log: "log_ok (pa_range p) L" and now: "map_of_partition RS p = replay L (map_empty (pa_range p))"
    and cov: "covers env (io_store io) (pa_path p) (pa_range p) L"
  obtains p' io' res RS' where "flush_locked env full_flush (p, io) = ((p', io'), res)" "segments_ok env (io_store io') p' RS'"
    "in_range (pa_range p) RS'" "covers env (io_store io') (pa_path p) (pa_range p) L" "pa_path p' = pa_path p" "pa_range p' = pa_range p"
proof (cases "pa_memtable p = []")
  case True
  then show thesis using that[of p io "Inr ()" RS] ok inr cov by (simp add: flush_locked_def storage_ok_def)
next
  case False
  have tab: "table_ok p" "length (pa_memtable p) < 2 ^ 32" using ok by (simp_all add: storage_ok_def)
  let ?cap = "capture_of full_flush p"
  note cap = capture_of_ok[OF tab(1) False tab(2), of full_flush]
  obtain w' s' res where pub: "flush_publish env ?cap (p, io) = ((p\<lparr>pa_writer := w'\<rparr>, io\<lparr>io_store := s'\<rparr>), res)"
    "storage_ok env room n (p\<lparr>pa_writer := w'\<rparr>) (io\<lparr>io_store := s'\<rparr>) RS" "publishes env p (io_store io) s' ?cap res"
    by (rule flush_publish_ok[OF ok cap codec])
  show thesis
  proof (cases res)
    case (Inl e)
    then have "flush_locked env full_flush (p, io) = ((p\<lparr>pa_writer := w'\<rparr>, io\<lparr>io_store := s'\<rparr>), Inl e)"
      using flush_locked_steps[OF tab(1) False, of env full_flush io] pub(1) by (simp add: act_defs)
    moreover have "covers env s' (pa_path p) (pa_range p) L" using covers_store[OF cov] pub(3) Inl by (simp add: publishes_def)
    ultimately show thesis using that[of "p\<lparr>pa_writer := w'\<rparr>" "io\<lparr>io_store := s'\<rparr>" "Inl e" RS] inr pub(2) by (simp add: storage_ok_def)
  next
    case (Inr x)
    let ?p = "p\<lparr>pa_writer := w'\<rparr>"
    have run: "flush_locked env full_flush (p, io) = ((flush_install x ?p, io\<lparr>io_store := s'\<rparr>), Inr ())"
      using flush_locked_steps[OF tab(1) False, of env full_flush io] pub(1) Inr by (simp add: act_defs)
    have "published_ok env (io_store (io\<lparr>io_store := s'\<rparr>)) ?p x" using pub(3) Inr by (simp add: publishes_def)
    from flush_install_ok[OF pub(2) this] have segs: "segments_ok env s' (flush_install x ?p) (RS @ [records_of (fc_table (fr_capture x))])"
      by (simp add: storage_ok_def)
    have "publishes env ?p (io_store io) s' ?cap (Inr x)" using pub(3) Inr by (simp add: publishes_def)
    from publish_covers[OF pub(2) _ this, of L] captured_now[OF log now, of full_flush] inr
    have "covers env s' (pa_path p) (pa_range p) L" "in_range (pa_range p) (RS @ [records_of (fc_table (fr_capture x))])"
      using pub(3) Inr by (simp_all add: publishes_def)
    then show thesis using that[OF run] segs by simp
  qed
qed

end

section \<open>Every step keeps the bucket and the log in step\<close>

definition bucket_keeps where
  "bucket_keeps env eg RS L \<longleftrightarrow> (let p = eg_partition eg; r = pa_range p; s = io_store (eg_io eg) in
     segments_ok env s p RS \<and> in_range r RS \<and> covers env s (pa_path p) r L
     \<and> (case eg_flush eg of Captured cap \<Rightarrow> captured_map r RS cap = replay (upto_lamport (fc_committed cap) L) (map_empty r) | _ \<Rightarrow> True))"

definition durable where
  "durable env eg RS L \<longleftrightarrow> log_ok (pa_range (eg_partition eg)) L \<and> map_of_engine RS eg = replay L (map_empty (pa_range (eg_partition eg)))
     \<and> bucket_keeps env eg RS L"

definition step_log :: "storage_event \<Rightarrow> entry_map \<Rightarrow> storage_reply \<Rightarrow> mutation list" where
  "step_log ev M reply = (if reply = Waiting then [] else event_log ev M)"

text \<open>The log may grow by the next mutation without anything in the bucket moving.\<close>

lemma bucket_keeps_log:
  assumes "bucket_keeps env eg RS L" and ph: "phase_ok env eg" and log: "log_ok (pa_range (eg_partition eg)) (L @ [m])"
    and above: "pa_committed (eg_partition eg) < mu_lamport m"
  shows "bucket_keeps env eg RS (L @ [m])"
proof -
  have "upto_lamport (fc_committed cap) (L @ [m]) = upto_lamport (fc_committed cap) L" if "eg_flush eg = Captured cap" for cap
  proof -
    have "fc_committed cap \<le> pa_committed (eg_partition eg)" using ph that by (auto simp: phase_ok_def capture_ok_def)
    then show ?thesis using above by (intro upto_snoc) (rule le_less_trans)
  qed
  then show ?thesis using assms(1) covers_log[OF _ log]
    by (auto simp: bucket_keeps_def Let_def split: flush_phase.splits)
qed

lemma step_log_keeps:
  assumes ok: "engine_ok env room n eg RS" and dur: "durable env eg RS L"
  defines "M \<equiv> map_of_engine RS eg"
  shows "bucket_keeps env eg RS (L @ step_log ev M reply) \<and> log_ok (pa_range (eg_partition eg)) (L @ step_log ev M reply)
    \<and> (reply \<noteq> Waiting \<longrightarrow> fst (map_step ev M) = replay (L @ step_log ev M reply) (map_empty (pa_range (eg_partition eg))))"
proof (cases "reply = Waiting")
  case False
  have keeps: "bucket_keeps env eg RS L" and L: "log_ok (pa_range (eg_partition eg)) L" and M: "M = replay L (map_empty (pa_range (eg_partition eg)))"
    using dur by (simp_all add: durable_def M_def)
  have ph: "phase_ok env eg" using ok by (simp add: engine_ok_def)
  note e = event_log_ok[OF L M, of ev]
  from event_step[of ev M] have "bucket_keeps env eg RS (L @ event_log ev M)"
  proof (elim disjE exE conjE)
    fix m assume m: "event_log ev M = [m]" "em_committed M < mu_lamport m"
    then have "pa_committed (eg_partition eg) < mu_lamport m" by (simp add: M_def map_of_partition_def)
    from bucket_keeps_log[OF keeps ph _ this] e m(1) show ?thesis by simp
  qed (use keeps in simp)
  then show ?thesis using e False by (simp add: step_log_def)
qed (use dur in \<open>simp add: step_log_def durable_def\<close>)

lemma keeps_table:
  assumes "bucket_keeps env eg RS L"
  shows "bucket_keeps env (eg\<lparr>eg_partition := table_put l key e b (eg_partition eg)\<rparr>) RS L"
  using assms by (cases "eg_flush eg") (simp_all add: bucket_keeps_def Let_def)

lemma keeps_cache:
  assumes "bucket_keeps env eg RS L" and "io_store io' = io_store (eg_io eg)"
  shows "bucket_keeps env (eg\<lparr>eg_io := io'\<rparr>) RS L"
  using assms by (simp add: bucket_keeps_def Let_def)

text \<open>What a conditional write does to the engine: nothing, or one commit.\<close>

definition one_commit where
  "one_commit env l key e ps out \<longleftrightarrow> fst (fst out) = fst ps \<and> io_store (snd (fst out)) = io_store (snd ps)
     \<or> (\<exists>c. entry_fits (fst ps) l key e \<and> cache_coherent env ((snd ps)\<lparr>io_cache := c\<rparr>) \<and> fst out = fst (commit_entry env l key e True (fst ps, (snd ps)\<lparr>io_cache := c\<rparr>)))"

context storage
begin

lemma conditional_one_commit:
  assumes ok: "storage_ok env room n p io RS" and fits: "entry_fits p l key e"
    and body: "\<And>x ps. f x ps = act_then (commit_entry env l key e True) (act_ret (Applied l)) ps \<or> (\<exists>y. f x ps = (ps, Inr y))"
  shows "one_commit env l key e (p, io)
    (act_bind (load env key) (\<lambda>existing. case evaluate cond existing now of Some failure \<Rightarrow> act_ret failure | None \<Rightarrow> f existing) (p, io))"
proof -
  obtain c where c: "load env key (p, io) = ((p, io\<lparr>io_cache := c\<rparr>), Inr (em_entries (map_of_partition RS p) key))"
    and "storage_ok env room n p (io\<lparr>io_cache := c\<rparr>) RS" by (rule load_map[OF ok])
  then have coh: "cache_coherent env (io\<lparr>io_cache := c\<rparr>)" by (simp add: storage_ok_def)
  show ?thesis
  proof (cases "evaluate cond (em_entries (map_of_partition RS p) key) now")
    case None
    have "fst (act_then (commit_entry env l key e True) (act_ret (Applied l)) (p, io\<lparr>io_cache := c\<rparr>)) = fst (commit_entry env l key e True (p, io\<lparr>io_cache := c\<rparr>))"
      by (auto simp: act_defs split: prod.split sum.split)
    then show ?thesis using body[of "em_entries (map_of_partition RS p) key" "(p, io\<lparr>io_cache := c\<rparr>)"] c None fits coh
      by (auto simp: one_commit_def act_bind_def)
  qed (use c in \<open>simp add: one_commit_def act_defs\<close>)
qed

lemma put_one_commit:
  assumes ok: "storage_ok env room n p io RS"
  shows "one_commit env l key \<lparr>st_version = l, st_expires_at_millis = map_option (absolute_expiry now) ttl, st_deleted = False, st_value = v\<rparr> (p, io)
    (partition_put env now l key v ttl cond (p, io))"
proof -
  let ?M = "map_of_partition RS p"
  note checks = check_key_map[where RS = RS] check_value_map check_lamport_map[where RS = RS]
  show ?thesis
  proof (cases "check_each id [map_key ?M key, map_value v, map_ahead ?M l]")
    case (Inl e)
    then have "partition_put env now l key v ttl cond (p, io) = ((p, io), Inl e)"
      by (cases "map_key ?M key"; cases "map_value v"; cases "map_ahead ?M l") (simp_all add: partition_put_def act_defs checks)
    then show ?thesis by (simp add: one_commit_def)
  next
    case (Inr u)
    then have c: "map_key ?M key = Inr ()" "map_value v = Inr ()" "map_ahead ?M l = Inr ()" by (auto simp: bind_res_eq_Inr)
    show ?thesis unfolding partition_put_def version_at_def
      using conditional_one_commit[OF ok entry_fits_put[OF c]] c by (simp add: act_checked checks)
  qed
qed

lemma delete_one_commit:
  assumes ok: "storage_ok env room n p io RS"
  shows "one_commit env l key \<lparr>st_version = l, st_expires_at_millis = Some (saturating_add now tombstone_retention_millis), st_deleted = True, st_value = []\<rparr> (p, io)
    (partition_delete env now l key cond (p, io))"
proof -
  let ?M = "map_of_partition RS p"
  note checks = check_key_map[where RS = RS] check_lamport_map[where RS = RS]
  show ?thesis
  proof (cases "check_each id [map_key ?M key, map_ahead ?M l]")
    case (Inl e)
    then have "partition_delete env now l key cond (p, io) = ((p, io), Inl e)"
      by (cases "map_key ?M key"; cases "map_ahead ?M l") (simp_all add: partition_delete_def act_defs checks)
    then show ?thesis by (simp add: one_commit_def)
  next
    case (Inr u)
    then have c: "map_key ?M key = Inr ()" "map_ahead ?M l = Inr ()" by (auto simp: bind_res_eq_Inr)
    have "partition_delete env now l key cond (p, io) = act_bind (load env key) (\<lambda>existing. case evaluate cond existing now of
        Some failure \<Rightarrow> act_ret failure
      | None \<Rightarrow> (case existing of
          Some entry \<Rightarrow> if st_deleted entry \<and> \<not> stored_expired_at entry now then act_ret (Applied (st_version entry))
            else act_then (commit_entry env l key \<lparr>st_version = l, st_expires_at_millis = Some (saturating_add now tombstone_retention_millis),
                   st_deleted = True, st_value = []\<rparr> True) (act_ret (Applied l))
        | None \<Rightarrow> act_then (commit_entry env l key \<lparr>st_version = l, st_expires_at_millis = Some (saturating_add now tombstone_retention_millis),
                   st_deleted = True, st_value = []\<rparr> True) (act_ret (Applied l)))) (p, io)"
      unfolding partition_delete_def version_at_def using c by (simp add: act_checked checks)
    also have "one_commit env l key \<lparr>st_version = l, st_expires_at_millis = Some (saturating_add now tombstone_retention_millis), st_deleted = True, st_value = []\<rparr> (p, io) \<dots>"
      by (rule conditional_one_commit[OF ok entry_fits_delete[OF c]]) (auto simp: act_ret_def split: option.split)
    finally show ?thesis .
  qed
qed

lemma commit_keeps:
  assumes ok: "storage_ok env room (Suc (Suc n)) p io RS" and fits: "entry_fits p l key e" and codec: "codec_reads_back (en_codec env)"
    and inr: "in_range (pa_range p) RS" and log: "log_ok (pa_range p) L"
    and now: "map_store l key e (map_of_partition RS p) = replay L (map_empty (pa_range p))"
    and cov: "covers env (io_store io) (pa_path p) (pa_range p) L"
  obtains p' io' RS' where "fst (commit_entry env l key e True (p, io)) = (p', io')" "segments_ok env (io_store io') p' RS'"
    "in_range (pa_range p) RS'" "covers env (io_store io') (pa_path p) (pa_range p) L" "pa_path p' = pa_path p" "pa_range p' = pa_range p"
proof -
  obtain b where run: "commit_entry env l key e True (p, io) =
     (if True \<and> flush_trigger_bytes \<le> b then (fst (flush_locked env True (table_put l key e b p, io)), Inr ())
      else ((table_put l key e b p, io), Inr ()))"
    using commit_entry_put[of env l key e True p io] by (elim exE) (rule that)
  let ?p = "table_put l key e b p"
  have ok1: "storage_ok env room (Suc n) ?p io RS" by (rule table_put_ok[OF ok fits])
  show thesis
  proof (cases "flush_trigger_bytes \<le> b")
    case True
    have "map_of_partition RS ?p = replay L (map_empty (pa_range ?p))"
      using now by (simp add: map_of_partition_def map_store_def)
    note now' = this
    have facts: "in_range (pa_range ?p) RS" "log_ok (pa_range ?p) L" "covers env (io_store io) (pa_path ?p) (pa_range ?p) L" using inr log cov by simp_all
    obtain p' io' res RS' where f: "flush_locked env True (?p, io) = ((p', io'), res)" "segments_ok env (io_store io') p' RS'"
      "in_range (pa_range ?p) RS'" "covers env (io_store io') (pa_path ?p) (pa_range ?p) L" "pa_path p' = pa_path ?p" "pa_range p' = pa_range ?p"
      by (rule flush_locked_covers[OF ok1 codec facts(1,2) now' facts(3), of True])
    then show thesis using that[of p' io' RS'] run True by simp
  next
    case False
    then show thesis using that[of ?p io RS] run ok1 inr cov by (simp add: storage_ok_def)
  qed
qed

lemma write_keeps:
  assumes ok: "engine_ok env room (Suc (Suc n)) eg RS" and dur: "durable env eg RS L" and codec: "codec_reads_back (en_codec env)"
    and free: "eg_flush eg = NotFlushing"
    and one: "one_commit env l key e (eg_partition eg, eg_io eg) ((p', io'), r)"
    and step: "map_step ev (map_of_engine RS eg) = (map_of_partition RS' p', reply)" "reply \<noteq> Waiting" and segs': "segments_ok env (io_store io') p' RS'"
  shows "bucket_keeps env (eg\<lparr>eg_partition := p', eg_io := io'\<rparr>) RS' (L @ step_log ev (map_of_engine RS eg) reply) \<and> pa_range p' = pa_range (eg_partition eg)"
proof -
  let ?p = "eg_partition eg" and ?io = "eg_io eg" and ?L = "L @ step_log ev (map_of_engine RS eg) reply"
  note k = step_log_keeps[OF ok dur, of ev reply]
  have keeps: "segments_ok env (io_store ?io) ?p RS" "in_range (pa_range ?p) RS" "covers env (io_store ?io) (pa_path ?p) (pa_range ?p) ?L"
    using k by (simp_all add: bucket_keeps_def Let_def)
  have sto: "storage_ok env room (Suc (Suc n)) ?p ?io RS" using ok by (simp add: engine_ok_def)
  consider "p' = ?p" "io_store io' = io_store ?io"
    | c where "entry_fits ?p l key e" "cache_coherent env (?io\<lparr>io_cache := c\<rparr>)" "(p', io') = fst (commit_entry env l key e True (?p, ?io\<lparr>io_cache := c\<rparr>))"
    using one by (auto simp: one_commit_def)
  then show ?thesis
  proof cases
    case 1
    then have "RS' = RS" using segments_unique[OF segs', of RS] keeps(1) by simp
    then show ?thesis using 1 keeps free by (simp add: bucket_keeps_def Let_def)
  next
    case 2
    have ok1: "storage_ok env room (Suc (Suc n)) ?p (?io\<lparr>io_cache := c\<rparr>) RS" by (rule storage_ok_cache[OF sto 2(2)])
    obtain p1 io1 RS1 where w: "commit_entry env l key e True (?p, ?io\<lparr>io_cache := c\<rparr>) = ((p1, io1), Inr ())" "storage_ok env room n p1 io1 RS1"
      "map_of_partition RS1 p1 = map_store l key e (map_of_partition RS ?p)"
      by (rule commit_entry_ok[OF ok1 2(1) codec, of True]) blast
    then have "p1 = p'" "io1 = io'" using 2(3) by simp_all
    moreover from this have "RS1 = RS'" using segments_unique[OF _ segs', of RS1] w(2) by (simp add: storage_ok_def)
    ultimately have now: "map_store l key e (map_of_partition RS ?p) = replay ?L (map_empty (pa_range ?p))" using w(3) k step by simp
    have facts: "log_ok (pa_range ?p) ?L" "covers env (io_store (?io\<lparr>io_cache := c\<rparr>)) (pa_path ?p) (pa_range ?p) ?L" using k keeps(3) by simp_all
    obtain p2 io2 RS2 where c2: "fst (commit_entry env l key e True (?p, ?io\<lparr>io_cache := c\<rparr>)) = (p2, io2)" "segments_ok env (io_store io2) p2 RS2"
      "in_range (pa_range ?p) RS2" "covers env (io_store io2) (pa_path ?p) (pa_range ?p) ?L" "pa_path p2 = pa_path ?p" "pa_range p2 = pa_range ?p"
      by (rule commit_keeps[OF ok1 2(1) codec keeps(2) facts(1) now facts(2)])
    have same: "p2 = p'" "io2 = io'" using c2(1) 2(3) by simp_all
    then have "RS2 = RS'" using segments_unique[OF _ segs', of RS2] c2(2) by simp
    then show ?thesis using c2(2-6) same free by (simp add: bucket_keeps_def Let_def)
  qed
qed

lemma flush_keeps:
  assumes ok: "engine_ok env room (Suc (Suc n)) eg RS" and dur: "durable env eg RS L" and codec: "codec_reads_back (en_codec env)"
    and ev: "ev = FlushBegin full_flush \<or> ev = FlushPublish \<or> ev = FlushInstall \<or> ev = FlushCancel \<or> ev = FreezeMaintenance frozen"
  shows "\<exists>RS'. bucket_keeps env (fst (storage_step env ev eg)) RS' L \<and> pa_range (eg_partition (fst (storage_step env ev eg))) = pa_range (eg_partition eg)"
proof -
  let ?p = "eg_partition eg" and ?io = "eg_io eg"
  have keeps: "bucket_keeps env eg RS L" and log: "log_ok (pa_range ?p) L" and now: "map_of_partition RS ?p = replay L (map_empty (pa_range ?p))"
    using dur by (simp_all add: durable_def)
  have k: "segments_ok env (io_store ?io) ?p RS" "in_range (pa_range ?p) RS" "covers env (io_store ?io) (pa_path ?p) (pa_range ?p) L"
    "\<And>cap. eg_flush eg = Captured cap \<Longrightarrow> captured_map (pa_range ?p) RS cap = replay (upto_lamport (fc_committed cap) L) (map_empty (pa_range ?p))"
    using keeps by (auto simp: bucket_keeps_def Let_def)
  have sto: "storage_ok env room (Suc (Suc n)) ?p ?io RS" and ph: "phase_ok env eg" using ok by (simp_all add: engine_ok_def)
  from ev consider (starts) "ev = FlushBegin full_flush" "eg_flush eg = NotFlushing" | (publish) cap where "ev = FlushPublish" "eg_flush eg = Captured cap"
    | (install) r where "ev = FlushInstall" "eg_flush eg = Published r" | (cancel) "ev = FlushCancel" | (freeze) "ev = FreezeMaintenance frozen"
    | (same) "fst (storage_step env ev eg) = eg"
    by (cases "eg_flush eg") (auto simp: when_free_def)
  then show ?thesis
  proof cases
    case starts
    have cap: "cap = capture_of full_flush ?p" if "flush_begin full_flush ?p = (p', Some cap)" for p' cap
      using that by (auto simp: flush_begin_def Let_def capture_of_def split: if_splits)
    have p': "pa_range p' = pa_range ?p \<and> pa_path p' = pa_path ?p \<and> segments_ok env (io_store ?io) p' RS" if "flush_begin full_flush ?p = (p', c)" for p' c
      using that k(1) by (auto simp: flush_begin_def Let_def segments_ok_def split: if_splits)
    obtain p1 c where f: "flush_begin full_flush ?p = (p1, c)" by fastforce
    show ?thesis using starts f p'[OF f] k(2,3) cap captured_now[OF log now, of full_flush]
      by (cases c) (auto simp: when_free_def bucket_keeps_def Let_def)
  next
    case publish
    have cap: "capture_ok ?p cap" using ph publish by (simp add: phase_ok_def)
    obtain w' s' res where f: "flush_publish env cap (?p, ?io) = ((?p\<lparr>pa_writer := w'\<rparr>, ?io\<lparr>io_store := s'\<rparr>), res)"
      "storage_ok env room (Suc n) (?p\<lparr>pa_writer := w'\<rparr>) (?io\<lparr>io_store := s'\<rparr>) RS" "publishes env ?p (io_store ?io) s' cap res"
      by (rule flush_publish_ok[OF sto cap codec])
    have segs: "segments_ok env s' ?p RS" using f(2) by (simp add: storage_ok_def)
    have "covers env s' (pa_path ?p) (pa_range ?p) L"
    proof (cases res)
      case (Inl e)
      then show ?thesis using covers_store[OF k(3)] f(3) by (simp add: publishes_def)
    next
      case (Inr x)
      have "publishes env (?p\<lparr>pa_writer := w'\<rparr>) (io_store ?io) s' cap (Inr x)" using f(3) Inr by (simp add: publishes_def)
      from publish_covers[OF f(2) _ this, of L] show ?thesis using k(2,4) publish by simp
    qed
    then show ?thesis using publish f(1) segs k(2) by (cases res) (auto simp: bucket_keeps_def Let_def)
  next
    case install
    have pub: "published_ok env (io_store ?io) ?p r" using ph install by (simp add: phase_ok_def)
    let ?RS = "RS @ [records_of (fc_table (fr_capture r))]"
    have "segments_ok env (io_store ?io) (flush_install r ?p) ?RS" using flush_install_ok[OF sto pub] by (simp add: storage_ok_def)
    moreover have "in_range (pa_range ?p) ?RS"
      using k(2) capture_ok_table(5)[of ?p "fr_capture r"] pub
      by (auto simp: published_ok_def in_range_def records_of_def segment_record_of_def table_ok_def)
    ultimately show ?thesis using install k(3) by (auto simp: bucket_keeps_def Let_def)
  next
    case cancel
    then show ?thesis using k by (auto simp: bucket_keeps_def Let_def)
  next
    case freeze
    have "segments_ok env (io_store ?io) (?p\<lparr>pa_maintenance_frozen := frozen\<rparr>) RS" using k(1) by (simp add: segments_ok_def)
    then show ?thesis using freeze k by (cases "eg_flush eg") (auto simp: bucket_keeps_def Let_def)
  next
    case same
    then show ?thesis using keeps by auto
  qed
qed

lemma step_keeps:
  assumes ok: "engine_ok env room (Suc (Suc n)) eg RS" and dur: "durable env eg RS L" and codec: "codec_reads_back (en_codec env)"
    and step: "storage_step env ev eg = (eg', reply)" and ok': "engine_ok env room n eg' RS'"
    and matched: "if reply = Waiting then map_of_engine RS' eg' = map_of_engine RS eg else map_step ev (map_of_engine RS eg) = (map_of_engine RS' eg', reply)"
  shows "\<exists>RS2. bucket_keeps env eg' RS2 (L @ step_log ev (map_of_engine RS eg) reply) \<and> pa_range (eg_partition eg') = pa_range (eg_partition eg)"
proof -
  let ?p = "eg_partition eg" and ?io = "eg_io eg" and ?M = "map_of_engine RS eg"
  have sto: "storage_ok env room (Suc (Suc n)) ?p ?io RS" using ok by (simp add: engine_ok_def)
  have segs': "segments_ok env (io_store (eg_io eg')) (eg_partition eg') RS'" using ok' by (simp add: engine_ok_def storage_ok_def)
  have keeps: "bucket_keeps env eg RS (L @ step_log ev ?M reply)" using step_log_keeps[OF ok dur] by blast
  have writes: "bucket_keeps env eg' RS' (L @ step_log ev ?M reply) \<and> pa_range (eg_partition eg') = pa_range ?p"
    if one: "one_commit env l key e (?p, ?io) (act (?p, ?io))" and run: "storage_step env ev eg = when_free (engine_do act Wrote) eg"
      and free: "eg_flush eg = NotFlushing" for l key e and act :: "('s, write_outcome) storage_action"
  proof -
    obtain p' io' r where act: "act (?p, ?io) = ((p', io'), r)" by (metis prod.exhaust)
    have eg': "eg' = eg\<lparr>eg_partition := p', eg_io := io'\<rparr>" "reply = Wrote r" using step run free act by (simp_all add: when_free_def engine_do_def)
    have "map_step ev ?M = (map_of_partition RS' p', reply)" "reply \<noteq> Waiting" "segments_ok env (io_store io') p' RS'"
      using matched segs' eg' by simp_all
    from write_keeps[OF ok dur codec free one[unfolded act] this] show ?thesis by (simp add: eg'(1))
  qed
  have waits: "bucket_keeps env eg' RS (L @ step_log ev ?M reply) \<and> pa_range (eg_partition eg') = pa_range ?p" if "eg' = eg" using keeps that by simp
  have flush: "\<exists>RS2. bucket_keeps env eg' RS2 (L @ step_log ev ?M reply) \<and> pa_range (eg_partition eg') = pa_range ?p"
    if "ev = FlushBegin full_flush \<or> ev = FlushPublish \<or> ev = FlushInstall \<or> ev = FlushCancel \<or> ev = FreezeMaintenance frozen" for full_flush frozen
  proof -
    have "step_log ev ?M reply = []" using that by (auto simp: step_log_def event_log_def)
    then show ?thesis using flush_keeps[OF ok dur codec that] step by simp
  qed
  show ?thesis
  proof (cases ev)
    case (Get now key)
    obtain c r where "partition_get env now key (?p, ?io) = ((?p, ?io\<lparr>io_cache := c\<rparr>), r)" by (rule partition_get_map[OF sto])
    then have "eg' = eg\<lparr>eg_io := ?io\<lparr>io_cache := c\<rparr>\<rparr>" using step Get by (simp add: engine_do_def)
    then show ?thesis using keeps_cache[OF keeps, of "?io\<lparr>io_cache := c\<rparr>"] by auto
  next
    case (Put now l key v ttl cond)
    show ?thesis
    proof (cases "eg_flush eg = NotFlushing")
      case True
      have "storage_step env ev eg = when_free (engine_do (partition_put env now l key v ttl cond) Wrote) eg" by (simp add: Put)
      from writes[OF put_one_commit[OF sto] this True] show ?thesis by blast
    next
      case False
      then show ?thesis using waits step Put by (auto simp: when_free_def)
    qed
  next
    case (Delete now l key cond)
    show ?thesis
    proof (cases "eg_flush eg = NotFlushing")
      case True
      have "storage_step env ev eg = when_free (engine_do (partition_delete env now l key cond) Wrote) eg" by (simp add: Delete)
      from writes[OF delete_one_commit[OF sto] this True] show ?thesis by blast
    next
      case False
      then show ?thesis using waits step Delete by (auto simp: when_free_def)
    qed
  next
    case (Apply m)
    obtain p' r where "partition_apply env m (?p, ?io) = ((p', ?io), r)" "p' = ?p \<or> (\<exists>l key e b. entry_fits ?p l key e \<and> p' = table_put l key e b ?p)"
      by (rule partition_apply_map[OF sto codec])
    moreover from this have "eg' = eg\<lparr>eg_partition := p'\<rparr>" using step Apply by (simp add: engine_do_def)
    ultimately have "bucket_keeps env eg' RS (L @ step_log ev ?M reply) \<and> pa_range (eg_partition eg') = pa_range ?p"
      using keeps keeps_table[OF keeps] by auto
    then show ?thesis by blast
  qed (use flush in blast)+
qed

lemma durable_step:
  assumes ok: "engine_ok env room (Suc (Suc n)) eg RS" and dur: "durable env eg RS L" and codec: "codec_reads_back (en_codec env)"
    and step: "storage_step env ev eg = (eg', reply)"
  shows "\<exists>RS'. engine_ok env room n eg' RS' \<and> durable env eg' RS' (L @ step_log ev (map_of_engine RS eg) reply)
    \<and> (if reply = Waiting then map_of_engine RS' eg' = map_of_engine RS eg else map_step ev (map_of_engine RS eg) = (map_of_engine RS' eg', reply))
    \<and> pa_range (eg_partition eg') = pa_range (eg_partition eg)"
proof -
  let ?L = "L @ step_log ev (map_of_engine RS eg) reply"
  obtain RS' where RS': "engine_ok env room n eg' RS'"
    "if reply = Waiting then map_of_engine RS' eg' = map_of_engine RS eg else map_step ev (map_of_engine RS eg) = (map_of_engine RS' eg', reply)"
    using storage_step_map[OF ok codec, of ev, unfolded step step_matches_def fst_conv snd_conv] by blast
  obtain RS2 where RS2: "bucket_keeps env eg' RS2 ?L" "pa_range (eg_partition eg') = pa_range (eg_partition eg)"
    using step_keeps[OF ok dur codec step RS'] by blast
  have "segments_ok env (io_store (eg_io eg')) (eg_partition eg') RS'" using RS'(1) by (simp add: engine_ok_def storage_ok_def)
  moreover have "segments_ok env (io_store (eg_io eg')) (eg_partition eg') RS2" using RS2(1) by (simp add: bucket_keeps_def Let_def)
  ultimately have "RS2 = RS'" by (rule segments_unique[symmetric])
  moreover have "log_ok (pa_range (eg_partition eg)) ?L" using step_log_keeps[OF ok dur] by blast
  moreover have "map_of_engine RS' eg' = replay ?L (map_empty (pa_range (eg_partition eg)))"
    using RS'(2) step_log_keeps[OF ok dur, of ev reply] dur by (cases "reply = Waiting") (auto simp: step_log_def durable_def)
  ultimately have "durable env eg' RS' ?L" using RS2 by (simp add: durable_def)
  then show ?thesis using RS' RS2(2) by blast
qed

text \<open>The log of a run is the log of the admitted events.\<close>

lemma durable_run:
  assumes "engine_ok env room (2 * length evs + n) eg RS" and codec: "codec_reads_back (en_codec env)" and "durable env eg RS L"
  shows "\<exists>RS'. engine_ok env room n (fst (storage_run env evs eg)) RS'
    \<and> durable env (fst (storage_run env evs eg)) RS' (L @ run_log (admitted evs (snd (storage_run env evs eg))) (map_of_engine RS eg))
    \<and> pa_range (eg_partition (fst (storage_run env evs eg))) = pa_range (eg_partition eg)"
  using assms(1,3)
proof (induction evs arbitrary: eg RS L)
  case (Cons ev evs)
  obtain eg' reply where step: "storage_step env ev eg = (eg', reply)" by fastforce
  have "engine_ok env room (Suc (Suc (2 * length evs + n))) eg RS" using Cons.prems(1) by simp
  from durable_step[OF this Cons.prems(2) codec step] obtain RS1 where RS1: "engine_ok env room (2 * length evs + n) eg' RS1"
    "durable env eg' RS1 (L @ step_log ev (map_of_engine RS eg) reply)"
    "if reply = Waiting then map_of_engine RS1 eg' = map_of_engine RS eg else map_step ev (map_of_engine RS eg) = (map_of_engine RS1 eg', reply)"
    "pa_range (eg_partition eg') = pa_range (eg_partition eg)" by blast
  obtain eg'' rs where run: "storage_run env evs eg' = (eg'', rs)" by fastforce
  have "step_log ev (map_of_engine RS eg) reply @ run_log (admitted evs rs) (map_of_engine RS1 eg') = run_log (admitted (ev # evs) (reply # rs)) (map_of_engine RS eg)"
    using RS1(3) by (cases "reply = Waiting") (simp_all add: admitted_def step_log_def)
  then show ?case using Cons.IH[OF RS1(1,2)] RS1(4) step run by simp
qed (auto simp: admitted_def)

end

section \<open>Where a partition lives\<close>

definition place :: "partition \<Rightarrow> partition_path \<times> epoch" where
  "place p = (pa_path p, pw_epoch (pa_writer p))"

definition stays :: "('s, 'a) storage_action \<Rightarrow> bool" where
  "stays act \<longleftrightarrow> (\<forall>ps. place (fst (fst (act ps))) = place (fst ps))"

lemma place_update [simp]:
  "place (p\<lparr>pa_memtable := a\<rparr>) = place p" "place (p\<lparr>pa_memtable_bytes := x\<rparr>) = place p" "place (p\<lparr>pa_committed := l\<rparr>) = place p"
  "place (p\<lparr>pa_flushed := l\<rparr>) = place p" "place (p\<lparr>pa_flushed_epoch := f\<rparr>) = place p" "place (p\<lparr>pa_segments := ss\<rparr>) = place p"
  "place (p\<lparr>pa_index := ix\<rparr>) = place p" "place (p\<lparr>pa_index_bytes := x\<rparr>) = place p" "place (p\<lparr>pa_full_flushes_since_compaction := k\<rparr>) = place p"
  "place (p\<lparr>pa_timer_flushes_since_compaction := k\<rparr>) = place p" "place (p\<lparr>pa_maintenance_frozen := b\<rparr>) = place p"
  by (simp_all add: place_def)

lemma stays_bind: "stays f \<Longrightarrow> (\<And>x. stays (g x)) \<Longrightarrow> stays (act_bind f g)"
  by (simp add: stays_def act_bind_def split: prod.splits sum.splits) (metis fst_conv)

lemma stays_then: "stays f \<Longrightarrow> stays g \<Longrightarrow> stays (act_then f g)"
  by (simp add: stays_def act_then_def act_bind_def split: prod.splits sum.splits) (metis fst_conv)

lemma stays_ret: "stays (act_ret x)"
  by (simp add: stays_def act_ret_def)

lemma stays_checks: "stays (check_key key)" "stays (check_value v)" "stays (check_lamport l)"
  by (simp_all add: stays_def check_key_def check_value_def check_lamport_def)

lemma stays_load: "stays (load env key)"
proof -
  have "stays (fetch env l key)" for l
    by (auto simp: stays_def fetch_def Let_def split: prod.splits option.splits sum.splits)
  then have "stays (act_bind (fetch env l key) (\<lambda>s. act_ret (Some s)))" for l by (intro stays_bind stays_ret)
  then show ?thesis by (auto simp: stays_def load_def split: option.split)
qed

lemma put_segment_epoch: "pw_epoch (fst (fst (put_segment ops b ws))) = pw_epoch (fst ws)"
  by (auto simp: put_segment_def take_sequence_def act_bind_def act_ret_def Let_def split: prod.splits sum.splits)

lemma stays_publish: "stays (write_segment env built)" "stays (commit_manifest env l ss)"
  by (simp_all add: stays_def write_segment_def commit_manifest_def place_def case_prod_unfold Let_def put_segment_epoch)

lemma place_index: "place (fold (index_insert n) es p) = place p"
  by (induction es arbitrary: p) (simp_all add: index_insert_def)

lemma stays_at: "stays f \<Longrightarrow> (\<And>x. stays (g x)) \<Longrightarrow> place (fst (fst (act_bind f g ps))) = place (fst ps)"
  using stays_bind[of f g] by (cases ps) (simp add: stays_def)

lemma stays_flush: "stays (flush_locked env full_flush)" "stays (flush_publish env cap)"
proof -
  show "stays (flush_locked env full_flush)"
    unfolding stays_def flush_locked_def
    by (auto simp: Let_def split: sum.splits intro!: stays_at[where ps = "(a, b)" for a b, unfolded fst_conv] stays_bind stays_publish)
       (auto simp: stays_def act_modify_def Let_def place_index)
  show "stays (flush_publish env cap)"
    unfolding stays_def flush_publish_def
    by (auto split: sum.splits intro!: stays_at[where ps = "(a, b)" for a b, unfolded fst_conv] stays_bind stays_publish stays_ret)
qed

lemma stays_commit: "stays (commit_entry env l key e b)"
  using stays_flush(1)[of env True] by (auto simp: stays_def commit_entry_def Let_def)

lemma stays_operations:
  "stays (partition_get env now key)" "stays (partition_put env now l key v ttl cond)" "stays (partition_delete env now l key cond)" "stays (partition_apply env m)"
proof -
  show "stays (partition_get env now key)"
    unfolding partition_get_def by (intro stays_then stays_bind stays_checks stays_load stays_ret)
  show "stays (partition_put env now l key v ttl cond)"
    unfolding partition_put_def
    by (intro stays_then stays_bind stays_checks stays_load) (auto split: option.split intro!: stays_then stays_commit stays_ret)
  show "stays (partition_delete env now l key cond)"
    unfolding partition_delete_def
    by (intro stays_then stays_bind stays_checks stays_load) (auto split: option.split intro!: stays_then stays_commit stays_ret)
  have "stays (\<lambda>ps. if mu_lamport m \<le> pa_committed (fst ps) then (ps, Inr ()) else commit_entry env (mu_lamport m) (mu_key m) (entry_of_mutation m) False ps)"
    using stays_commit[of env "mu_lamport m" "mu_key m" "entry_of_mutation m" False] by (simp add: stays_def)
  then show "stays (partition_apply env m)"
    unfolding partition_apply_def by (intro stays_then stays_checks) (auto split: mutation_op.split intro: stays_checks stays_ret)
qed

lemma place_do: "stays act \<Longrightarrow> place (eg_partition (fst (engine_do act f eg))) = place (eg_partition eg)"
  by (simp add: stays_def engine_do_def case_prod_unfold Let_def)

lemma place_step: "place (eg_partition (fst (storage_step env ev eg))) = place (eg_partition eg)"
proof (cases ev)
  case FlushPublish
  show ?thesis
  proof (cases "eg_flush eg")
    case (Captured cap)
    have "place (fst (fst (flush_publish env cap (eg_partition eg, eg_io eg)))) = place (eg_partition eg)"
      using stays_flush(2)[of env cap] by (simp add: stays_def)
    then show ?thesis using FlushPublish Captured by (auto split: prod.splits sum.splits)
  qed (simp_all add: FlushPublish)
qed (auto simp: when_free_def place_do stays_operations flush_begin_def flush_install_def Let_def place_index split: prod.splits option.splits if_splits flush_phase.splits)

lemma place_run: "place (eg_partition (fst (storage_run env evs eg))) = place (eg_partition eg)"
proof (induction evs arbitrary: eg)
  case (Cons ev evs)
  show ?case using Cons[of "fst (storage_step env ev eg)"] place_step[of env ev eg] by (simp add: Let_def case_prod_unfold)
qed simp

section \<open>Crash and recovery\<close>

lemma log_replays_itself:
  assumes "log_ok r L" and "em_range M = r"
  shows "map_run (map Apply L) M = (replay L M, map (\<lambda>_. Replayed (Inr ())) L)"
  using assms
proof (induction L arbitrary: M)
  case (Cons m L)
  have "log_ok r L" "mutation_fits (em_range M) m" using Cons.prems by (simp_all add: log_ok_def)
  then show ?case using Cons.IH[of "fst (map_step (Apply m) M)"] Cons.prems(2) apply_fits[of M m] by (simp add: Let_def apply_range)
qed simp

lemma apply_admitted:
  "Waiting \<notin> set (snd (storage_run env (map Apply L) eg))"
proof (induction L arbitrary: eg)
  case (Cons m L)
  then show ?case using Cons[of "fst (storage_step env (Apply m) eg)"] by (auto simp: Let_def case_prod_unfold engine_do_def)
qed simp

lemma none_waiting:
  assumes "Waiting \<notin> set replies" and "length replies = length evs"
  shows "admitted evs replies = evs" "filter (\<lambda>x. x \<noteq> Waiting) replies = replies"
proof -
  have "filter (\<lambda>(_, x). x \<noteq> Waiting) (zip evs replies) = zip evs replies" using assms(1) by (auto simp: filter_id_conv dest: set_zip_rightD)
  then show "admitted evs replies = evs" using assms(2) by (simp add: admitted_def)
  show "filter (\<lambda>x. x \<noteq> Waiting) replies = replies" using assms(1) by (auto simp: filter_id_conv)
qed

lemma event_log_length: "length (event_log ev M) \<le> 1"
  using event_step[of ev M] by auto

lemma run_log_length: "length (run_log evs M) \<le> length evs"
proof (induction evs arbitrary: M)
  case (Cons ev evs)
  show ?case using Cons[of "fst (map_step ev M)"] event_log_length[of ev M] by simp
qed simp

lemma admitted_length: "length (admitted evs replies) \<le> length evs"
  using length_filter_le[of "\<lambda>(_, r). r \<noteq> Waiting" "zip evs replies"] by (simp add: admitted_def)

lemma partition_open_place: "partition_open env s path e r = Inr p \<Longrightarrow> place p = (path, e)"
  by (auto simp: partition_open_def place_def writer_open_def bind_res_eq_Inr Let_def partition_empty_def adopt_def format_says_def
      split: sum.splits option.splits if_splits)

text \<open>The first epoch of a partition on an empty store leaves it durable with an empty log.\<close>

lemma new_store_durable:
  assumes "engine_ok (memory_env c crc) ms_room n (node_of (ms_new clock) window budget p) []"
    and "map_of_partition [] p = map_empty r" and "pa_path p = path"
  shows "durable (memory_env c crc) (node_of (ms_new clock) window budget p) [] []"
proof -
  let ?eg = "node_of (ms_new clock) window budget p"
  have r: "pa_range (eg_partition ?eg) = r" using arg_cong[OF assms(2), of em_range] by (simp add: map_of_partition_def node_of_def with_read_ahead_def)
  have "load_manifest memory_ops c (ms_new clock) (pa_path (eg_partition ?eg)) = Inr None" by (simp add: load_manifest_def ms_get_def ms_new_def)
  then have "covers (memory_env c crc) (ms_new clock) (pa_path (eg_partition ?eg)) r []" by (simp add: covers_def)
  moreover have "segments_ok (memory_env c crc) (ms_new clock) (eg_partition ?eg) []" using assms(1) by (simp add: engine_ok_def storage_ok_def node_of_def)
  ultimately show ?thesis using r assms(2) by (simp add: durable_def bucket_keeps_def Let_def in_range_def log_ok_def) (simp add: node_of_def)
qed

context storage
begin

lemma engine_ok_for_less:
  assumes "engine_ok env room n eg RS" and "m \<le> n"
  shows "engine_ok env room m eg RS"
  using assms room_less[of "io_store (eg_io eg)" "2 * n" "2 * m"] by (auto simp: engine_ok_def storage_ok_def writer_ok_def)

text \<open>Sequences left to the writer are left to a node that takes over at its epoch.\<close>

lemma writer_epoch_lasts:
  assumes "writer_ok env n p s" and "place p = (path, e)"
  shows "epoch_lasts (en_ops env) s path e n"
  unfolding epoch_lasts_def
proof (intro allI impI)
  fix seq key
  assume "data_key path e seq key" "object_at (en_ops env) s key \<noteq> None"
  then have "seq < pw_next_sequence (pa_writer p)" using assms by (auto simp: writer_ok_def place_def)
  then show "unat seq + n + 1 < 2 ^ 64" using assms(1) by (simp add: writer_ok_def word_less_nat_alt)
qed

lemma reopen_and_replay:
  assumes ok: "engine_ok env room (2 * length L) eg RS" and dur: "durable env eg RS L" and codec: "codec_reads_back (en_codec env)"
    and seqs: "epoch_lasts (en_ops env) (io_store (eg_io eg)) (pa_path (eg_partition eg)) e (2 * length L)"
  obtains q RS1 RS2 eg2 h where "partition_open env (io_store (eg_io eg)) (pa_path (eg_partition eg)) e (pa_range (eg_partition eg)) = Inr q"
    "engine_ok env room (2 * length L) (node_of (io_store (eg_io eg)) window budget q) RS1"
    "map_of_partition RS1 q = replay (upto_lamport h L) (map_empty (pa_range (eg_partition eg)))"
    "storage_run env (map Apply L) (node_of (io_store (eg_io eg)) window budget q) = (eg2, map (\<lambda>_. Replayed (Inr ())) L)"
    "map_of_engine RS2 eg2 = map_of_engine RS eg" "engine_ok env room 0 eg2 RS2"
proof -
  let ?s = "io_store (eg_io eg)" and ?path = "pa_path (eg_partition eg)" and ?r = "pa_range (eg_partition eg)"
  let ?io = "\<lparr>io_store = ?s, io_cache = cache_new budget\<rparr>"
  have log: "log_ok ?r L" and now: "map_of_engine RS eg = replay L (map_empty ?r)" and cov: "covers env ?s ?path ?r L"
    using dur by (simp_all add: durable_def bucket_keeps_def Let_def)
  have room: "room ?s (2 * (2 * length L))" "2 * length L < 2 ^ 32" using ok by (simp_all add: engine_ok_def storage_ok_def)
  obtain found where found: "load_manifest (en_ops env) (en_codec env) (io_store ?io) ?path = Inr found"
    "case found of None \<Rightarrow> True | Some (m, _) \<Rightarrow> \<exists>RS. backed env ?s ?path ?r m RS
      \<and> flushed_map ?r RS (mf_committed_lamport m) = replay (upto_lamport (mf_committed_lamport m) L) (map_empty ?r)"
    using cov unfolding covers_def by auto
  let ?h = "case found of None \<Rightarrow> 0 | Some (m, t) \<Rightarrow> mf_committed_lamport m"
  obtain RS1 where RS1: "case found of None \<Rightarrow> RS1 = [] | Some (m, t) \<Rightarrow> backed env (io_store ?io) ?path ?r m RS1"
    "flushed_map ?r RS1 ?h = replay (upto_lamport ?h L) (map_empty ?r)"
  proof (cases found)
    case None
    have "upto_lamport 0 L = []" using log by (force simp: upto_lamport_def log_ok_def filter_empty_conv)
    moreover have "flushed_map ?r [] 0 = map_empty ?r" by (simp add: flushed_map_def map_empty_def fun_eq_iff)
    ultimately show thesis using that[of "[]"] None by simp
  qed (use found(2) that in auto)
  have seqs': "epoch_lasts (en_ops env) (io_store ?io) ?path e (2 * length L)" using seqs by simp
  obtain q where q: "partition_open env (io_store ?io) ?path e ?r = Inr q" "storage_ok env room (2 * length L) q ?io RS1" "pa_path q = ?path"
    "map_of_partition RS1 q = flushed_map ?r RS1 ?h"
    by (rule partition_open_ok[OF found(1) RS1(1) _ room(2) seqs' new_cache_coherent]) (use room in simp_all)
  let ?eg = "node_of ?s window budget q"
  have open_ok: "engine_ok env room (2 * length L) ?eg RS1" using node_of_ok[OF q(2)] by simp
  then have "engine_ok env room (2 * length (map Apply L) + 0) ?eg RS1" by simp
  from storage_run_map[OF this codec] obtain RS2 where RS2: "engine_ok env room 0 (fst (storage_run env (map Apply L) ?eg)) RS2"
    "map_run (map Apply L) (map_of_engine RS1 ?eg) = (map_of_engine RS2 (fst (storage_run env (map Apply L) ?eg)), snd (storage_run env (map Apply L) ?eg))"
    using none_waiting[OF apply_admitted, of env L ?eg "map Apply L"] storage_run_length[of env "map Apply L" ?eg] by auto
  have "map_of_engine RS1 ?eg = replay (upto_lamport ?h L) (map_empty ?r)" using q(4) RS1(2) by (simp add: node_of_def)
  then have "map_run (map Apply L) (map_of_engine RS1 ?eg) = (map_of_engine RS eg, map (\<lambda>_. Replayed (Inr ())) L)"
    using log_replays_itself[OF log, of "map_of_engine RS1 ?eg"] replay_resume[OF log] now by simp
  then have "storage_run env (map Apply L) ?eg = (fst (storage_run env (map Apply L) ?eg), map (\<lambda>_. Replayed (Inr ())) L)"
    "map_of_engine RS2 (fst (storage_run env (map Apply L) ?eg)) = map_of_engine RS eg"
    using RS2(2) by (metis prod.collapse prod.inject)+
  then show thesis using that[OF q(1)[simplified] open_ok] q(4) RS1(2) RS2(1) by metis
qed

end

text \<open>
  C6. Nothing that was answered is lost. A partition is opened on an empty store and driven by any events, and the
  node disappears after any of them, between two steps of a flush too (captured, published, installed). The node that takes over
  opens the bucket, at the same epoch or another with sequences left, and finds there, in the segments of the published manifest
  (the records \<open>RS1\<close> that \<open>engine_ok\<close> ties to the objects of the store), exactly the map after the mutations of the log up to some
  Lamport; replaying the whole log over it, prefix included, accepts every mutation and gives the map the first node answered from.
  The bucket is the memory store: its calls do not fail and no other writer competes for the manifest.
\<close>

theorem crashed_partition_recovers:
  assumes "codec_reads_back c" and "4 * length evs < 2 ^ 32"
    and opened: "partition_open (memory_env c crc) (ms_new clock) path e r = Inr p"
    and run: "storage_run (memory_env c crc) evs (node_of (ms_new clock) window budget p) = (eg, replies)"
    and log: "L = run_log (admitted evs replies) (map_empty r)"
    and seqs: "e' = e \<or> epoch_lasts memory_ops (io_store (eg_io eg)) path e' (2 * length L)"
  shows "\<exists>q h RS1 RS2 eg2. partition_open (memory_env c crc) (io_store (eg_io eg)) path e' r = Inr q
    \<and> engine_ok (memory_env c crc) ms_room (2 * length L) (node_of (io_store (eg_io eg)) window' budget' q) RS1
    \<and> map_of_partition RS1 q = replay (upto_lamport h L) (map_empty r)
    \<and> storage_run (memory_env c crc) (map Apply L) (node_of (io_store (eg_io eg)) window' budget' q) = (eg2, map (\<lambda>_. Replayed (Inr ())) L)
    \<and> map_of_engine RS2 eg2 = fst (map_run (admitted evs replies) (map_empty r))
    \<and> engine_ok (memory_env c crc) ms_room 0 eg2 RS2"
proof -
  let ?env = "memory_env c crc" and ?n = "2 * length evs" and ?eg = "node_of (ms_new clock) window budget p"
  have "2 * length evs + ?n < 2 ^ 32" using assms(2) by simp
  then obtain p' where p': "partition_open ?env (ms_new clock) path e r = Inr p'" "pa_path p' = path"
    "engine_ok ?env ms_room (2 * length evs + ?n) (node_of (ms_new clock) window budget p') []" "map_of_partition [] p' = map_empty r"
    by (rule open_new_store)
  then have p: "pa_path p = path" "engine_ok ?env ms_room (2 * length evs + ?n) ?eg []" "map_of_partition [] p = map_empty r" using opened by simp_all
  have range: "pa_range (eg_partition ?eg) = r" using arg_cong[OF p(3), of em_range] by (simp add: map_of_partition_def node_of_def with_read_ahead_def)
  have start: "map_of_engine [] ?eg = map_empty r" using p(3) by (simp add: node_of_def)
  have codec: "codec_reads_back (en_codec ?env)" using assms(1) by simp
  from mem_storage.durable_run[OF p(2) codec new_store_durable[OF p(2,3,1)]] obtain RS where RS: "engine_ok ?env ms_room ?n eg RS"
    "durable ?env eg RS L" "pa_range (eg_partition eg) = r"
    unfolding run fst_conv snd_conv start using range log by auto
  have len: "length L \<le> length evs" using run_log_length[of "admitted evs replies"] admitted_length[of evs replies] log le_trans by blast
  have less: "engine_ok ?env ms_room (2 * length L) eg RS" by (rule mem_storage.engine_ok_for_less[OF RS(1)]) (use len in simp)
  have at: "place (eg_partition eg) = (path, e)"
    using place_run[of ?env evs ?eg] partition_open_place[OF opened] run by (simp add: node_of_def with_read_ahead_def place_def)
  then have path: "pa_path (eg_partition eg) = path" by (simp add: place_def)
  have "writer_ok ?env (2 * length L) (eg_partition eg) (io_store (eg_io eg))" using less by (simp add: engine_ok_def storage_ok_def)
  from mem_storage.writer_epoch_lasts[OF this at]
  have lasts: "epoch_lasts (en_ops ?env) (io_store (eg_io eg)) (pa_path (eg_partition eg)) e' (2 * length L)" using seqs path by auto
  have "map_of_engine RS eg = fst (map_run (admitted evs replies) (map_empty r))"
    using RS(2,3) run_log_ok[of r "[]" "map_empty r" "admitted evs replies"] log by (simp add: durable_def log_ok_def)
  moreover obtain q RS1 RS2 eg2 h where "partition_open ?env (io_store (eg_io eg)) path e' r = Inr q"
    "engine_ok ?env ms_room (2 * length L) (node_of (io_store (eg_io eg)) window' budget' q) RS1"
    "map_of_partition RS1 q = replay (upto_lamport h L) (map_empty r)"
    "storage_run ?env (map Apply L) (node_of (io_store (eg_io eg)) window' budget' q) = (eg2, map (\<lambda>_. Replayed (Inr ())) L)"
    "map_of_engine RS2 eg2 = map_of_engine RS eg" "engine_ok ?env ms_room 0 eg2 RS2"
    by (rule mem_storage.reopen_and_replay[OF less RS(2) codec lasts, unfolded RS(3) path, where window = window' and budget = budget'])
  ultimately show ?thesis by metis
qed

lemma opened_segments:
  "engine_ok env room n (node_of s window budget q) RS \<Longrightarrow> segments_ok env s q RS"
  by (simp add: engine_ok_def node_of_def) (simp add: storage_ok_def)

theorem crashed_partition_recovers_witness:
  "\<exists>p eg replies q h RS1 RS2 eg2. partition_open (memory_env sample_codec (\<lambda>_. 0)) (ms_new None) sample_path 3 unbounded = Inr p
    \<and> storage_run (memory_env sample_codec (\<lambda>_. 0)) (take 4 sample_events) (node_of (ms_new None) 64 100 p) = (eg, replies)
    \<and> partition_open (memory_env sample_codec (\<lambda>_. 0)) (io_store (eg_io eg)) sample_path 3 unbounded = Inr q
    \<and> segments_ok (memory_env sample_codec (\<lambda>_. 0)) (io_store (eg_io eg)) q RS1
    \<and> map_of_partition RS1 q = replay (upto_lamport h (run_log (admitted (take 4 sample_events) replies) (map_empty unbounded))) (map_empty unbounded)
    \<and> fst (storage_run (memory_env sample_codec (\<lambda>_. 0)) (map Apply (run_log (admitted (take 4 sample_events) replies) (map_empty unbounded)))
        (node_of (io_store (eg_io eg)) 0 0 q)) = eg2
    \<and> map_of_engine RS2 eg2 = fst (map_run (admitted (take 4 sample_events) replies) (map_empty unbounded))"
proof -
  let ?env = "memory_env sample_codec (\<lambda>_. 0)"
  obtain p where p: "partition_open ?env (ms_new None) sample_path 3 unbounded = Inr p" by (rule open_new_store[of 0]) simp_all
  obtain eg replies where run: "storage_run ?env (take 4 sample_events) (node_of (ms_new None) 64 100 p) = (eg, replies)" by fastforce
  have "4 * length (take 4 sample_events) < 2 ^ 32" by (simp add: sample_events_def)
  from crashed_partition_recovers[OF sample_codec_reads_back this p run refl, of 3 0 0] show ?thesis
    using p run opened_segments by (metis fst_conv)
qed

end
