(* ===== verification/Storage_Scan.thy ===== *)
theory Storage_Scan
  imports Storage_Open
begin

text \<open>
  Scans (\<open>Partition::scan\<close> of \<open>orbita-storage/src/partition.rs\<close> and the cursors of \<open>cursor.rs\<close>): one page of the keys
  with a prefix, merged from the mutable table and the index of the segments. A page holds the next visible
  entries of the map, and the pages of one scan hold each of them once.
\<close>

section \<open>Cursors\<close>

record scan_cursor =
  cr_after_key :: bytes
  cr_prefix_hash :: u64

definition hash_prefix :: "bytes \<Rightarrow> u64" where
  "hash_prefix prefix = fold (\<lambda>byte hash. semiring_bit_operations_class.xor hash (ucast byte) * 0x100000001b3) prefix 0xcbf29ce484222325"

definition cursor_new :: "bytes \<Rightarrow> bytes \<Rightarrow> scan_cursor" where
  "cursor_new after_key prefix = \<lparr>cr_after_key = after_key, cr_prefix_hash = hash_prefix prefix\<rparr>"

definition cursor_header_len :: nat where "cursor_header_len = 9"

definition cursor_encode :: "scan_cursor \<Rightarrow> bytes" where
  "cursor_encode c = 1 # rev (put_u64 (cr_prefix_hash c)) @ cr_after_key c"

definition cursor_decode :: "bytes \<Rightarrow> bytes \<Rightarrow> storage_error + scan_cursor" where
  "cursor_decode raw prefix =
     (if length raw < cursor_header_len \<or> hd raw \<noteq> 1 then Inl (InvalidArgument CursorMalformed)
      else
        let prefix_hash = word_of_nat (le_value (rev (take 8 (drop 1 raw))))
        in if prefix_hash \<noteq> hash_prefix prefix then Inl (InvalidArgument CursorElsewhere)
           else Inr \<lparr>cr_after_key = drop cursor_header_len raw, cr_prefix_hash = prefix_hash\<rparr>)"

lemma cursor_roundtrip: "cursor_decode (cursor_encode (cursor_new k prefix)) prefix = Inr (cursor_new k prefix)"
  by (simp add: cursor_decode_def cursor_encode_def cursor_new_def cursor_header_len_def Let_def u64_of_le)

section \<open>A page\<close>

record scan_budget =
  sb_max_entries :: u32
  sb_max_bytes :: u64
  sb_include_values :: bool

definition budget_of_entries :: "u32 \<Rightarrow> scan_budget" where
  "budget_of_entries n = \<lparr>sb_max_entries = n, sb_max_bytes = max_list_bytes, sb_include_values = True\<rparr>"

record scan_entry =
  sn_key :: bytes
  sn_record :: stored_record

record scan_page =
  pg_entries :: "scan_entry list"
  pg_cursor :: "bytes option"

definition scan_start :: "key_range \<Rightarrow> bytes \<Rightarrow> scan_cursor option \<Rightarrow> bytes option" where
  "scan_start r prefix cursor =
     (let start = max prefix (kr_start r);
          start = (case cursor of None \<Rightarrow> start | Some c \<Rightarrow> max start (cr_after_key c @ [0]))
      in if (case kr_end r of None \<Rightarrow> False | Some e \<Rightarrow> e \<le> start) then None else Some start)"

text \<open>The smaller of the two heads; the table shadows the index.\<close>

fun scan_head ::
  "(bytes \<times> stored) list \<Rightarrow> (bytes \<times> loc) list \<Rightarrow> ((bytes \<times> (stored + loc)) \<times> (bytes \<times> stored) list \<times> (bytes \<times> loc) list) option" where
  "scan_head [] [] = None"
| "scan_head ((k, e) # table) [] = Some ((k, Inl e), table, [])"
| "scan_head [] ((k, l) # flushed) = Some ((k, Inr l), [], flushed)"
| "scan_head ((k, e) # table) ((k', l) # flushed) =
     (if k \<le> k' then Some ((k, Inl e), table, if k' = k then flushed else (k', l) # flushed)
      else Some ((k', Inr l), (k, e) # table, flushed))"

lemma scan_head_smaller: "scan_head table flushed = Some (kp, t, f) \<Longrightarrow> length t + length f < length table + length flushed"
  by (induction table flushed rule: scan_head.induct) (auto split: if_splits)

definition entry_bytes :: "scan_budget \<Rightarrow> scan_entry \<Rightarrow> u64" where
  "entry_bytes b e =
     word_of_nat (length (sn_key e)) + (if sb_include_values b then word_of_nat (length (rec_value (sn_record e))) else 0)"

function scan_loop ::
  "('s, 'tag) storage_env \<Rightarrow> u64 \<Rightarrow> bytes \<Rightarrow> scan_budget \<Rightarrow> (bytes \<times> stored) list \<Rightarrow> (bytes \<times> loc) list \<Rightarrow> scan_entry list \<Rightarrow> u64 \<Rightarrow>
     ('s, scan_entry list \<times> bool) storage_action" where
  "scan_loop env now prefix b table flushed entries used ps =
     (case scan_head table flushed of
        None \<Rightarrow> (ps, Inr (entries, True))
      | Some ((key, spot), table', flushed') \<Rightarrow>
          (case (case spot of Inl e \<Rightarrow> (ps, Inr e) | Inr l \<Rightarrow> fetch env l key ps) of
             (ps1, Inl e) \<Rightarrow> (ps1, Inl e)
           | (ps1, Inr s) \<Rightarrow>
               if \<not> starts_with prefix key \<or> \<not> contains (pa_range (fst ps1)) key then (ps1, Inr (entries, True))
               else case visible_at s now of
                      None \<Rightarrow> scan_loop env now prefix b table' flushed' entries used ps1
                    | Some r \<Rightarrow>
                        let e = \<lparr>sn_key = key, sn_record = r\<rparr>
                        in if length entries = unat (sb_max_entries b) then (ps1, Inr (entries, False))
                           else if entries \<noteq> [] \<and> sb_max_bytes b < used + entry_bytes b e then (ps1, Inr (entries, False))
                           else scan_loop env now prefix b table' flushed' (entries @ [e]) (used + entry_bytes b e) ps1))"
  by pat_completeness auto

termination
  by (relation "measure (\<lambda>(_, _, _, _, table, flushed, _). length table + length flushed)") (auto dest: scan_head_smaller)

declare scan_loop.simps [simp del]

definition partition_scan ::
  "('s, 'tag) storage_env \<Rightarrow> u64 \<Rightarrow> bytes \<Rightarrow> bytes option \<Rightarrow> scan_budget \<Rightarrow> ('s, scan_page) storage_action" where
  "partition_scan env now prefix cursor b ps =
     (if sb_max_entries b = 0 \<or> max_list_limit < sb_max_entries b then (ps, Inl (InvalidArgument ScanLimit))
      else if max_key_bytes < length prefix then (ps, Inl (TooLarge ''prefix'' (length prefix) max_key_bytes))
      else case (case cursor of None \<Rightarrow> Inr None | Some raw \<Rightarrow> bind_res (cursor_decode raw prefix) (\<lambda>c. Inr (Some c))) of
             Inl e \<Rightarrow> (ps, Inl e)
           | Inr c \<Rightarrow>
               (case scan_start (pa_range (fst ps)) prefix c of
                  None \<Rightarrow> (ps, Inr \<lparr>pg_entries = [], pg_cursor = None\<rparr>)
                | Some start \<Rightarrow>
                    (case scan_loop env now prefix b (filter (\<lambda>e. start \<le> fst e) (pa_memtable (fst ps)))
                            (filter (\<lambda>e. start \<le> fst e) (pa_index (fst ps))) [] 0 ps of
                       (ps1, Inl e) \<Rightarrow> (ps1, Inl e)
                     | (ps1, Inr (entries, exhausted)) \<Rightarrow>
                         (ps1, Inr \<lparr>pg_entries = entries,
                           pg_cursor = (if exhausted then None
                             else map_option (\<lambda>e. cursor_encode (cursor_new (sn_key e) prefix)) (last_opt entries))\<rparr>))))"

section \<open>What a page holds\<close>

definition listing :: "entry_map \<Rightarrow> u64 \<Rightarrow> bytes \<Rightarrow> (bytes \<Rightarrow> bool) \<Rightarrow> scan_entry list" where
  "listing M now prefix U =
     map (\<lambda>k. \<lparr>sn_key = k, sn_record = the (map_visible M now k)\<rparr>)
       (sorted_list_of_set {k. map_visible M now k \<noteq> None \<and> starts_with prefix k \<and> contains (em_range M) k \<and> U k})"

fun fill_page :: "scan_budget \<Rightarrow> scan_entry list \<Rightarrow> scan_entry list \<Rightarrow> u64 \<Rightarrow> scan_entry list \<times> bool" where
  "fill_page b [] entries used = (entries, True)"
| "fill_page b (e # es) entries used =
     (if length entries = unat (sb_max_entries b) then (entries, False)
      else if entries \<noteq> [] \<and> sb_max_bytes b < used + entry_bytes b e then (entries, False)
      else fill_page b es (entries @ [e]) (used + entry_bytes b e))"

lemma listing_none: "(\<And>k. map_visible M now k \<noteq> None \<Longrightarrow> starts_with prefix k \<Longrightarrow> contains (em_range M) k \<Longrightarrow> \<not> U k) \<Longrightarrow> listing M now prefix U = []"
  unfolding listing_def by (subst Collect_empty_eq[THEN iffD2]) auto

lemma listing_cong:
  "(\<And>k. map_visible M now k \<noteq> None \<Longrightarrow> starts_with prefix k \<Longrightarrow> contains (em_range M) k \<Longrightarrow> U k = V k) \<Longrightarrow> listing M now prefix U = listing M now prefix V"
  unfolding listing_def by (rule arg_cong[where f = "\<lambda>S. map _ (sorted_list_of_set S)"]) auto

lemma sorted_list_of_set_least:
  "finite A \<Longrightarrow> (\<And>a. a \<in> A \<Longrightarrow> x < a) \<Longrightarrow> sorted_list_of_set (insert x A) = x # sorted_list_of_set (A :: 'a::linorder set)"
proof -
  assume A: "finite A" "\<And>a. a \<in> A \<Longrightarrow> x < a"
  then have "A - {x} = A" by auto
  then show ?thesis using A by (simp add: sorted_list_of_set_insert_remove insort_is_Cons less_imp_le)
qed

lemma listing_next:
  assumes "finite {k. em_entries M k \<noteq> None}" and "U key" and "map_visible M now key = Some r" and "starts_with prefix key" "contains (em_range M) key"
    and "\<And>k. U k \<Longrightarrow> map_visible M now k \<noteq> None \<Longrightarrow> key \<le> k"
  shows "listing M now prefix U = \<lparr>sn_key = key, sn_record = r\<rparr> # listing M now prefix (\<lambda>k. U k \<and> key < k)"
proof -
  let ?S = "\<lambda>U. {k. map_visible M now k \<noteq> None \<and> starts_with prefix k \<and> contains (em_range M) k \<and> U k}"
  let ?T = "?S (\<lambda>k. U k \<and> key < k)"
  have split: "?S U = insert key ?T" using assms(2-6) by (auto simp: less_le)
  have "finite ?T" by (rule finite_subset[OF _ assms(1)]) (auto simp: map_visible_def bind_eq_Some_conv)
  then have "sorted_list_of_set (insert key ?T) = key # sorted_list_of_set ?T" by (rule sorted_list_of_set_least) simp
  then have "sorted_list_of_set (?S U) = key # sorted_list_of_set ?T" by (simp only: split)
  then show ?thesis using assms(3) by (simp add: listing_def)
qed

section \<open>The merge\<close>

text \<open>What is left of a map after its entries below a bound: \<open>U\<close> is closed upwards.\<close>

definition upward :: "(bytes \<Rightarrow> bool) \<Rightarrow> bool" where
  "upward U \<longleftrightarrow> (\<forall>k k'. U k \<longrightarrow> k \<le> k' \<longrightarrow> U k')"

abbreviation rest_of :: "(bytes \<Rightarrow> bool) \<Rightarrow> (bytes, 'v) btree \<Rightarrow> (bytes, 'v) btree" where
  "rest_of U m \<equiv> filter (\<lambda>e. U (fst e)) m"

lemma rest_of_Nil: "rest_of U m = [] \<Longrightarrow> U k \<Longrightarrow> bt_get m k = None"
  by (auto simp: filter_empty_conv map_of_eq_None_iff)

lemma rest_of_Cons:
  assumes "bt_ok m" and "rest_of U m = (k, v) # t"
  shows "U k" "bt_get m k = Some v" "t = rest_of (\<lambda>x. U x \<and> k < x) m" "\<And>x. U x \<Longrightarrow> x < k \<Longrightarrow> bt_get m x = None"
proof -
  have mem: "(k, v) \<in> set (rest_of U m)" using assms(2) by simp
  then show "U k" "bt_get m k = Some v" using assms(1) by (simp_all add: bt_get_iff)
  have ok: "bt_ok ((k, v) # t)" using bt_ok_filter[OF assms(1), of "\<lambda>e. U (fst e)"] assms(2) by simp
  have "rest_of (\<lambda>x. U x \<and> k < x) m = filter (\<lambda>e. k < fst e) (rest_of U m)" by (simp add: conj_commute)
  also have "\<dots> = t" using ok assms(2) by (auto intro!: filter_True)
  finally show "t = rest_of (\<lambda>x. U x \<and> k < x) m" by simp
  fix x
  assume x: "U x" "x < k"
  have "(x, w) \<in> set (rest_of U m) \<Longrightarrow> False" for w using ok x(2) assms(2) by (auto dest!: bspec[of _ _ "(x, w)"])
  then show "bt_get m x = None" using x(1) by (auto simp: map_of_eq_None_iff)
qed

lemma rest_of_above:
  assumes "bt_ok m" and "rest_of U m = (k', v) # t" and "key < k'"
  shows "rest_of (\<lambda>x. U x \<and> key < x) m = rest_of U m"
proof -
  have "bt_ok ((k', v) # t)" using bt_ok_filter[OF assms(1), of "\<lambda>e. U (fst e)"] assms(2) by simp
  then have "filter (\<lambda>e. key < fst e) (rest_of U m) = rest_of U m" using assms(2,3) by (force intro!: filter_True)
  then show ?thesis by (simp add: conj_commute)
qed

lemma rest_of_nothing: "rest_of U m = [] \<Longrightarrow> rest_of (\<lambda>x. U x \<and> key < x) m = []"
  by (auto simp: filter_empty_conv)

lemma scan_head_Some:
  assumes ok: "bt_ok m" "bt_ok ix" and h: "scan_head (rest_of U m) (rest_of U ix) = Some ((key, spot), t, f)"
  shows "U key \<and> t = rest_of (\<lambda>x. U x \<and> key < x) m \<and> f = rest_of (\<lambda>x. U x \<and> key < x) ix
    \<and> (\<forall>x. U x \<longrightarrow> x < key \<longrightarrow> bt_get m x = None \<and> bt_get ix x = None)
    \<and> (case spot of Inl e \<Rightarrow> bt_get m key = Some e | Inr l \<Rightarrow> bt_get m key = None \<and> bt_get ix key = Some l)"
proof (cases "rest_of U m")
  case Nil
  show ?thesis
  proof (cases "rest_of U ix")
    case (Cons x xs)
    obtain k l where x: "x = (k, l)" by (cases x)
    note c = rest_of_Cons[OF ok(2) Cons[unfolded x]]
    show ?thesis using h Nil Cons x c rest_of_Nil[OF Nil] rest_of_nothing[OF Nil] by auto
  qed (use h Nil in simp)
next
  case (Cons y ys)
  obtain k e where y: "y = (k, e)" by (cases y)
  note a = rest_of_Cons[OF ok(1) Cons[unfolded y]]
  show ?thesis
  proof (cases "rest_of U ix")
    case Nil
    show ?thesis using h Nil Cons y a rest_of_Nil[OF Nil] rest_of_nothing[OF Nil] by auto
  next
    case ix: (Cons x xs)
    obtain k' l where x: "x = (k', l)" by (cases x)
    note c = rest_of_Cons[OF ok(2) ix[unfolded x]]
    consider "k < k'" | "k = k'" | "k' < k" by (metis linorder_neqE)
    then show ?thesis
    proof cases
      case 1
      then have "k \<le> k'" "k' \<noteq> k" by simp_all
      then show ?thesis using h Cons ix y x a c rest_of_above[OF ok(2) ix[unfolded x] 1] by auto
    next
      case 2
      then show ?thesis using h Cons ix y x a c by auto
    next
      case 3
      then have "\<not> k \<le> k'" by simp
      then show ?thesis using h Cons ix y x a c rest_of_above[OF ok(1) Cons[unfolded y] 3] by auto
    qed
  qed
qed

lemma scan_head_None: "scan_head table flushed = None \<longleftrightarrow> table = [] \<and> flushed = []"
  by (induction table flushed rule: scan_head.induct) (auto split: if_splits)

lemma contents_None:
  assumes "segments_ok env s p RS" and "bt_get (pa_memtable p) k = None" and "bt_get (pa_index p) k = None"
  shows "contents RS p k = None"
  using assms by (fastforce simp: segments_ok_def index_ok_def contents_def dest: spec[of _ k])

lemma finite_contents:
  assumes "segments_ok env s p RS"
  shows "finite {k. em_entries (map_of_partition RS p) k \<noteq> None}"
proof (rule finite_subset)
  show "{k. em_entries (map_of_partition RS p) k \<noteq> None} \<subseteq> fst ` set (pa_memtable p) \<union> fst ` set (pa_index p)"
    using contents_None[OF assms] unfolding map_of_partition_def by (simp add: subset_iff) (metis bt_get_None_iff option.distinct(1))
qed simp

text \<open>Once a key has left the prefix or the range, so have all that follow it.\<close>

lemma scan_leaves:
  assumes "prefix \<le> key" "kr_start r \<le> key" and "\<not> starts_with prefix key \<or> \<not> contains r key" and "key \<le> k"
  shows "\<not> (starts_with prefix k \<and> contains r k)"
proof (cases "k = key")
  case False
  then have "key < k" using assms(4) by simp
  then show ?thesis using starting_below[OF assms(1), of k] assms(2,3) by (auto simp: contains_def split: option.splits)
qed (use assms in blast)

definition page_matches where
  "page_matches env room n p io RS page out \<longleftrightarrow> (\<exists>c. out = ((p, io\<lparr>io_cache := c\<rparr>), Inr page) \<and> storage_ok env room n p (io\<lparr>io_cache := c\<rparr>) RS)"

context storage
begin

lemma scan_fetch:
  assumes ok: "storage_ok env room n p io RS"
    and at: "case spot of Inl e \<Rightarrow> bt_get (pa_memtable p) key = Some e | Inr l \<Rightarrow> bt_get (pa_memtable p) key = None \<and> bt_get (pa_index p) key = Some l"
  obtains c e where "(case spot of Inl e \<Rightarrow> ((p, io), Inr e) | Inr l \<Rightarrow> fetch env l key (p, io)) = ((p, io\<lparr>io_cache := c\<rparr>), Inr e)"
    "storage_ok env room n p (io\<lparr>io_cache := c\<rparr>) RS" "contents RS p key = Some e"
proof (cases spot)
  case (Inl e)
  then show thesis using that[of "io_cache io" e] ok at by (simp add: contents_def)
next
  case (Inr l)
  then have l: "bt_get (pa_memtable p) key = None" "bt_get (pa_index p) key = Some l" using at by simp_all
  obtain r c where r: "newest (concat RS) key = Some r" "fetch env l key (p, io) = ((p, io\<lparr>io_cache := c\<rparr>), Inr (entry_of_record r))"
    "cache_coherent env (io\<lparr>io_cache := c\<rparr>)"
    by (rule fetch_ok[OF _ _ l(2)]) (use ok in \<open>auto simp: storage_ok_def\<close>)
  then show thesis using that[of c "entry_of_record r"] Inr l storage_ok_cache[OF ok r(3)] by (simp add: contents_def)
qed

lemma scan_loop_fills:
  assumes "storage_ok env room n p io RS" and "upward U" and "\<And>k. U k \<Longrightarrow> prefix \<le> k \<and> kr_start (pa_range p) \<le> k"
  shows "page_matches env room n p io RS (fill_page b (listing (map_of_partition RS p) now prefix U) entries spent)
    (scan_loop env now prefix b (rest_of U (pa_memtable p)) (rest_of U (pa_index p)) entries spent (p, io))"
  using assms
proof (induction "length (rest_of U (pa_memtable p)) + length (rest_of U (pa_index p))" arbitrary: U io entries spent rule: less_induct)
  case less
  let ?M = "map_of_partition RS p"
  have seg: "segments_ok env (io_store io) p RS" and trees: "bt_ok (pa_memtable p)" "bt_ok (pa_index p)"
    using less.prems(1) by (auto simp: storage_ok_def table_ok_def segments_ok_def index_ok_def)
  have vis: "map_visible ?M now k = Option.bind (contents RS p k) (\<lambda>s. visible_at s now)" for k by (simp add: map_visible_def map_of_partition_def)
  have range: "em_range ?M = pa_range p" by (simp add: map_of_partition_def)
  show ?case
  proof (cases "scan_head (rest_of U (pa_memtable p)) (rest_of U (pa_index p))")
    case None
    then have "contents RS p k = None" if "U k" for k
      using contents_None[OF seg] that rest_of_Nil[of U "pa_memtable p"] rest_of_Nil[of U "pa_index p"] by (auto simp: scan_head_None)
    then have "listing ?M now prefix U = []" by (intro listing_none) (auto simp: vis bind_eq_Some_conv)
    then show ?thesis using less.prems(1) None
      by (subst scan_loop.simps) (auto simp: page_matches_def intro!: exI[of _ "io_cache io"])
  next
    case (Some h)
    obtain key spot t f where h: "h = ((key, spot), t, f)" by (cases h) auto
    note head = scan_head_Some[OF trees Some[unfolded h]]
    let ?U = "\<lambda>x. U x \<and> key < x"
    obtain c e where got: "(case spot of Inl e \<Rightarrow> ((p, io), Inr e) | Inr l \<Rightarrow> fetch env l key (p, io)) = ((p, io\<lparr>io_cache := c\<rparr>), Inr e)"
      "storage_ok env room n p (io\<lparr>io_cache := c\<rparr>) RS" "contents RS p key = Some e"
      using scan_fetch[OF less.prems(1), where spot = spot and key = key] head by blast
    have least: "key \<le> k" if "U k" "contents RS p k \<noteq> None" for k
    proof (rule ccontr)
      assume "\<not> key \<le> k"
      then have "bt_get (pa_memtable p) k = None" "bt_get (pa_index p) k = None" using head that(1) by simp_all
      then show False using contents_None[OF seg] that(2) by simp
    qed
    have smaller: "length (rest_of ?U (pa_memtable p)) + length (rest_of ?U (pa_index p)) < length (rest_of U (pa_memtable p)) + length (rest_of U (pa_index p))"
      using scan_head_smaller[OF Some[unfolded h]] head by simp
    have up: "upward ?U" using less.prems(2) by (auto simp: upward_def)
    have IH: "page_matches env room n p (io\<lparr>io_cache := c\<rparr>) RS (fill_page b (listing ?M now prefix ?U) entries' spent')
        (scan_loop env now prefix b (rest_of ?U (pa_memtable p)) (rest_of ?U (pa_index p)) entries' spent' (p, io\<lparr>io_cache := c\<rparr>))" for entries' spent'
      by (rule less.hyps[OF smaller got(2) up]) (use less.prems(3) in blast)
    have step: "scan_loop env now prefix b (rest_of U (pa_memtable p)) (rest_of U (pa_index p)) entries spent (p, io) =
      (if \<not> starts_with prefix key \<or> \<not> contains (pa_range p) key then ((p, io\<lparr>io_cache := c\<rparr>), Inr (entries, True))
       else case visible_at e now of
              None \<Rightarrow> scan_loop env now prefix b (rest_of ?U (pa_memtable p)) (rest_of ?U (pa_index p)) entries spent (p, io\<lparr>io_cache := c\<rparr>)
            | Some r \<Rightarrow>
                let e = \<lparr>sn_key = key, sn_record = r\<rparr>
                in if length entries = unat (sb_max_entries b) then ((p, io\<lparr>io_cache := c\<rparr>), Inr (entries, False))
                   else if entries \<noteq> [] \<and> sb_max_bytes b < spent + entry_bytes b e then ((p, io\<lparr>io_cache := c\<rparr>), Inr (entries, False))
                   else scan_loop env now prefix b (rest_of ?U (pa_memtable p)) (rest_of ?U (pa_index p)) (entries @ [e]) (spent + entry_bytes b e)
                     (p, io\<lparr>io_cache := c\<rparr>))"
      by (subst scan_loop.simps) (use Some h head got(1) in simp)
    show ?thesis
    proof (cases "starts_with prefix key \<and> contains (pa_range p) key")
      case False
      have "\<not> U k" if "map_visible ?M now k \<noteq> None" "starts_with prefix k" "contains (em_range ?M) k" for k
        using that scan_leaves[of prefix key "pa_range p" k] less.prems(3) head False least[of k] unfolding range by (auto simp: vis bind_eq_Some_conv)
      then have "listing ?M now prefix U = []" by (rule listing_none)
      then show ?thesis unfolding step using False got(2) by (auto simp: page_matches_def)
    next
      case True
      show ?thesis
      proof (cases "visible_at e now")
        case None
        have "listing ?M now prefix U = listing ?M now prefix ?U"
          using least None got(3) by (intro listing_cong) (auto simp: vis bind_eq_Some_conv less_le)
        then show ?thesis unfolding step using True None IH[of entries spent] by (simp add: page_matches_def)
      next
        case (Some r)
        have "listing ?M now prefix U = \<lparr>sn_key = key, sn_record = r\<rparr> # listing ?M now prefix ?U"
          by (rule listing_next[OF finite_contents[OF seg]]) (use head Some got(3) True least range in \<open>auto simp: vis bind_eq_Some_conv\<close>)
        then show ?thesis unfolding step using True Some got(2) IH by (auto simp: page_matches_def Let_def)
      qed
    qed
  qed
qed

end

section \<open>The budget\<close>

definition entry_size :: "scan_budget \<Rightarrow> scan_entry \<Rightarrow> nat" where
  "entry_size b e = length (sn_key e) + (if sb_include_values b then length (rec_value (sn_record e)) else 0)"

definition page_size :: "scan_budget \<Rightarrow> scan_entry list \<Rightarrow> nat" where
  "page_size b es = sum_list (map (entry_size b) es)"

definition within_budget :: "scan_budget \<Rightarrow> scan_entry list \<Rightarrow> bool" where
  "within_budget b es \<longleftrightarrow> length es \<le> unat (sb_max_entries b) \<and> (length es \<le> 1 \<or> page_size b es \<le> unat (sb_max_bytes b))"

lemma page_size_bound: "(\<And>e. e \<in> set es \<Longrightarrow> entry_size b e < 2 ^ 33) \<Longrightarrow> page_size b es \<le> length es * 2 ^ 33"
  by (induction es) (force simp: page_size_def)+

lemma entry_bytes_size: "entry_bytes b e = word_of_nat (entry_size b e)"
  by (simp add: entry_bytes_def entry_size_def)

text \<open>A page is a first part of what there is, not empty, within the budget.\<close>

lemma fill_page_takes:
  assumes "\<And>e. e \<in> set entries \<union> set xs \<Longrightarrow> entry_size b e < 2 ^ 33" and "unat (sb_max_entries b) \<le> 1000"
    and "within_budget b entries" and "spent = word_of_nat (page_size b entries)"
  shows "\<exists>n\<le>length xs. fill_page b xs entries spent = (entries @ take n xs, n = length xs) \<and> within_budget b (entries @ take n xs)
    \<and> (entries = [] \<longrightarrow> xs \<noteq> [] \<longrightarrow> sb_max_entries b \<noteq> 0 \<longrightarrow> 0 < n)"
  using assms
proof (induction xs arbitrary: entries spent)
  case (Cons e es)
  show ?case
  proof (cases "length entries = unat (sb_max_entries b) \<or> entries \<noteq> [] \<and> sb_max_bytes b < spent + entry_bytes b e")
    case True
    then have "fill_page b (e # es) entries spent = (entries, False)" by auto
    then show ?thesis using Cons.prems(3) True by (intro exI[of _ 0]) (auto simp: unat_eq_zero)
  next
    case False
    let ?entries = "entries @ [e]" and ?spent = "spent + entry_bytes b e"
    have len: "length ?entries \<le> unat (sb_max_entries b)" using False Cons.prems(3) by (auto simp: within_budget_def)
    have small: "x \<in> set ?entries \<Longrightarrow> entry_size b x < 2 ^ 33" for x using Cons.prems(1)[of x] by auto
    have "length ?entries \<le> 1000" using len Cons.prems(2) by linarith
    then have "length ?entries * 2 ^ 33 \<le> 1000 * 2 ^ 33" by (rule mult_right_mono) simp
    then have total: "page_size b ?entries < 2 ^ 64" using page_size_bound[of ?entries b, OF small] by simp
    have spent: "?spent = word_of_nat (page_size b ?entries)" using Cons.prems(4) by (simp add: entry_bytes_size page_size_def)
    then have "unat ?spent = page_size b ?entries" using total by (simp add: unat_of_nat)
    then have fits: "within_budget b ?entries" using len False by (auto simp: within_budget_def word_le_nat_alt not_less)
    have all: "x \<in> set ?entries \<union> set es \<Longrightarrow> entry_size b x < 2 ^ 33" for x using Cons.prems(1)[of x] by auto
    from Cons.IH[of ?entries ?spent, OF all Cons.prems(2) fits spent] obtain n where n: "n \<le> length es"
      "fill_page b es ?entries ?spent = (?entries @ take n es, n = length es)" "within_budget b (?entries @ take n es)" by blast
    then have "fill_page b (e # es) entries spent = (entries @ take (Suc n) (e # es), Suc n = length (e # es))" using False by auto
    then show ?thesis using n(1,3) by (intro exI[of _ "Suc n"]) simp
  qed
qed (simp add: within_budget_def)

lemma contents_small:
  assumes "storage_ok env room n p io RS" and "contents RS p k = Some e"
  shows "length k < 2 ^ 32 \<and> length (st_value e) < 2 ^ 32"
proof (cases "bt_get (pa_memtable p) k")
  case (Some x)
  then have "(k, e) \<in> set (pa_memtable p)" "table_ok p" using assms by (auto simp: contents_def storage_ok_def dest: map_of_SomeD)
  then show ?thesis by (force simp: table_ok_def max_key_bytes_def max_value_bytes_def)
next
  case None
  then obtain r where r: "newest (concat RS) k = Some r" "e = entry_of_record r" using assms(2) by (auto simp: contents_def)
  then obtain rs where rs: "rs \<in> set RS" "r \<in> set rs" "sr_key r = k" using newest_Some[OF r(1)] by auto
  then obtain i where "i < length RS" "rs = RS ! i" by (metis in_set_conv_nth)
  then have "record_framed r" "is_inline r"
    using assms(1) rs by (auto simp: storage_ok_def segments_ok_def segment_object_def records_ok_def list_all_iff)
  then show ?thesis using rs(3) r(2)
    by (cases "sr_value r") (auto simp: record_framed_def record_ok_def is_inline_def inline_value_def entry_of_record_def stored_of_def)
qed

section \<open>One page of a scan\<close>

definition beyond :: "bytes option \<Rightarrow> bytes \<Rightarrow> bool" where
  "beyond after k = (case after of None \<Rightarrow> True | Some a \<Rightarrow> a < k)"

definition cursor_after :: "bytes \<Rightarrow> bytes option \<Rightarrow> bytes option" where
  "cursor_after prefix after = map_option (\<lambda>k. cursor_encode (cursor_new k prefix)) after"

definition page_of :: "bytes \<Rightarrow> scan_entry list \<times> bool \<Rightarrow> scan_page" where
  "page_of prefix r = \<lparr>pg_entries = fst r, pg_cursor = (if snd r then None else cursor_after prefix (map_option sn_key (last_opt (fst r))))\<rparr>"

lemma after_le: "(a @ [0] \<le> k) = (a < (k :: bytes))"
proof (induction a arbitrary: k)
  case Nil
  then show ?case by (cases k) (auto simp: word_neq_0_conv[symmetric])
next
  case (Cons x xs)
  then show ?case by (cases k) auto
qed

lemma prefix_le: "starts_with prefix k \<Longrightarrow> prefix \<le> (k :: bytes)"
  using less_prefix_not_starting not_le by blast

lemma scan_start_listing:
  assumes "em_range M = r"
  shows "case scan_start r prefix (map_option (\<lambda>k. cursor_new k prefix) after) of
      None \<Rightarrow> listing M now prefix (beyond after) = []
    | Some start \<Rightarrow> listing M now prefix (\<lambda>k. start \<le> k) = listing M now prefix (beyond after) \<and> prefix \<le> start \<and> kr_start r \<le> start"
proof -
  define start where "start = (case after of None \<Rightarrow> max prefix (kr_start r) | Some a \<Rightarrow> max (max prefix (kr_start r)) (a @ [0]))"
  have eq: "scan_start r prefix (map_option (\<lambda>k. cursor_new k prefix) after) = (if (case kr_end r of None \<Rightarrow> False | Some e \<Rightarrow> e \<le> start) then None else Some start)"
    by (cases after) (simp_all add: scan_start_def start_def cursor_new_def Let_def split: option.split)
  have begins: "start \<le> k \<longleftrightarrow> prefix \<le> k \<and> kr_start r \<le> k \<and> beyond after k" for k
    by (cases after) (auto simp: start_def beyond_def after_le)
  have same: "listing M now prefix (\<lambda>k. start \<le> k) = listing M now prefix (beyond after)"
    by (rule listing_cong) (use assms in \<open>auto simp: begins prefix_le contains_def\<close>)
  show ?thesis
  proof (cases "case kr_end r of None \<Rightarrow> False | Some e \<Rightarrow> e \<le> start")
    case True
    then obtain e where e: "kr_end r = Some e" "e \<le> start" by (auto split: option.splits)
    have "listing M now prefix (\<lambda>k. start \<le> k) = []"
      by (rule listing_none) (use assms e in \<open>auto simp: contains_def\<close>)
    then show ?thesis using True eq same by simp
  next
    case False
    moreover have "prefix \<le> start" "kr_start r \<le> start" using begins[of start] by simp_all
    ultimately show ?thesis using eq same by simp
  qed
qed

definition scan_asks :: "scan_budget \<Rightarrow> bytes \<Rightarrow> bool" where
  "scan_asks b prefix \<longleftrightarrow> sb_max_entries b \<noteq> 0 \<and> sb_max_entries b \<le> max_list_limit \<and> length prefix \<le> max_key_bytes"

lemma scan_asks_limit: "scan_asks b prefix \<Longrightarrow> unat (sb_max_entries b) \<le> 1000"
  by (simp add: scan_asks_def max_list_limit_def word_le_nat_alt)

context storage
begin

lemma partition_scan_page:
  assumes ok: "storage_ok env room n p io RS" and asks: "scan_asks b prefix"
  shows "page_matches env room n p io RS (page_of prefix (fill_page b (listing (map_of_partition RS p) now prefix (beyond after)) [] 0))
    (partition_scan env now prefix (cursor_after prefix after) b (p, io))"
proof -
  let ?M = "map_of_partition RS p" and ?c = "map_option (\<lambda>k. cursor_new k prefix) after"
  have range: "em_range ?M = pa_range p" by (simp add: map_of_partition_def)
  have decoded: "(case cursor_after prefix after of None \<Rightarrow> Inr None | Some raw \<Rightarrow> bind_res (cursor_decode raw prefix) (\<lambda>c. Inr (Some c))) = Inr ?c"
    by (cases after) (simp_all add: cursor_after_def cursor_roundtrip)
  have checks: "\<not> (sb_max_entries b = 0 \<or> max_list_limit < sb_max_entries b)" "\<not> max_key_bytes < length prefix" using asks by (auto simp: scan_asks_def)
  note start = scan_start_listing[OF range, where prefix = prefix and after = after and now = now]
  have run: "partition_scan env now prefix (cursor_after prefix after) b (p, io) =
    (case scan_start (pa_range p) prefix ?c of
       None \<Rightarrow> ((p, io), Inr \<lparr>pg_entries = [], pg_cursor = None\<rparr>)
     | Some start \<Rightarrow>
         (case scan_loop env now prefix b (rest_of (\<lambda>k. start \<le> k) (pa_memtable p)) (rest_of (\<lambda>k. start \<le> k) (pa_index p)) [] 0 (p, io) of
            (ps1, Inl e) \<Rightarrow> (ps1, Inl e)
          | (ps1, Inr r) \<Rightarrow> (ps1, Inr (page_of prefix r))))"
    unfolding partition_scan_def if_not_P[OF checks(1)] if_not_P[OF checks(2)] decoded
    by (auto simp: page_of_def cursor_after_def option.map_comp comp_def split: option.splits prod.splits sum.splits)
  show ?thesis
  proof (cases "scan_start (pa_range p) prefix ?c")
    case None
    then show ?thesis using run start ok by (auto simp: page_matches_def page_of_def intro!: exI[of _ "io_cache io"])
  next
    case (Some s)
    then have s: "listing ?M now prefix (\<lambda>k. s \<le> k) = listing ?M now prefix (beyond after)" "prefix \<le> s" "kr_start (pa_range p) \<le> s"
      using start by simp_all
    have "upward (\<lambda>k. s \<le> k)" by (auto simp: upward_def)
    from scan_loop_fills[OF ok this, of prefix b now "[]" 0] have
      "page_matches env room n p io RS (fill_page b (listing ?M now prefix (beyond after)) [] 0)
        (scan_loop env now prefix b (rest_of (\<lambda>k. s \<le> k) (pa_memtable p)) (rest_of (\<lambda>k. s \<le> k) (pa_index p)) [] 0 (p, io))"
      using s by (metis (no_types, lifting) order_trans)
    then show ?thesis using run Some by (auto simp: page_matches_def)
  qed
qed

end

section \<open>A scan while the partition is written\<close>

text \<open>A caller reads page after page; before each page anything may happen to the partition.\<close>

fun scan_run ::
  "('s, 'tag) storage_env \<Rightarrow> bytes \<Rightarrow> scan_budget \<Rightarrow> bytes option \<Rightarrow> (storage_event list \<times> u64) list \<Rightarrow> 's engine \<Rightarrow>
     (storage_event list \<times> u64 \<times> (storage_error + scan_page)) list" where
  "scan_run env prefix b cursor [] eg = []"
| "scan_run env prefix b cursor ((evs, now) # rest) eg =
     (case storage_run env evs eg of
        (eg1, replies) \<Rightarrow>
          (case partition_scan env now prefix cursor b (eg_partition eg1, eg_io eg1) of
             ((p, io), r) \<Rightarrow>
               (admitted evs replies, now, r) #
               (case r of
                  Inl _ \<Rightarrow> []
                | Inr page \<Rightarrow>
                    (case pg_cursor page of
                       None \<Rightarrow> []
                     | Some c \<Rightarrow> scan_run env prefix b (Some c) rest (eg1\<lparr>eg_partition := p, eg_io := io\<rparr>)))))"

text \<open>What the partition held at each page.\<close>

fun map_history :: "storage_event list list \<Rightarrow> entry_map \<Rightarrow> entry_map list" where
  "map_history [] M = []"
| "map_history (evs # rest) M = fst (map_run evs M) # map_history rest (fst (map_run evs M))"

definition pages_of :: "(storage_event list \<times> u64 \<times> (storage_error + scan_page)) list \<Rightarrow> scan_page list" where
  "pages_of out = map (\<lambda>(_, _, r). projr r) out"

definition found_in :: "(storage_event list \<times> u64 \<times> (storage_error + scan_page)) list \<Rightarrow> scan_entry list" where
  "found_in out = concat (map pg_entries (pages_of out))"

definition in_scan :: "key_range \<Rightarrow> bytes \<Rightarrow> bytes \<Rightarrow> bool" where
  "in_scan r prefix k \<longleftrightarrow> starts_with prefix k \<and> contains r k"

definition page_ok :: "scan_budget \<Rightarrow> bytes \<Rightarrow> bytes option \<Rightarrow> storage_event list \<times> u64 \<times> (storage_error + scan_page) \<Rightarrow> entry_map \<Rightarrow> bool" where
  "page_ok b prefix after x M \<longleftrightarrow> (case x of (_, now, r) \<Rightarrow>
     (\<exists>page. r = Inr page \<and> within_budget b (pg_entries page) \<and> (pg_cursor page \<noteq> None \<longrightarrow> pg_entries page \<noteq> [])
        \<and> (\<forall>e\<in>set (pg_entries page). in_scan (em_range M) prefix (sn_key e) \<and> beyond after (sn_key e)
              \<and> map_visible M now (sn_key e) = Some (sn_record e))))"

lemma map_run_range [simp]: "em_range (fst (map_run evs M)) = em_range M"
proof (induction evs arbitrary: M)
  case (Cons ev evs)
  have "em_range (fst (map_step ev M)) = em_range M"
    by (cases ev) (auto simp: map_try_def map_write_def map_store_def Let_def split: sum.split option.split)
  then show ?case using Cons[of "fst (map_step ev M)"] by (simp add: Let_def case_prod_unfold)
qed simp

lemma listing_keys: "map sn_key (listing M now prefix U) = sorted_list_of_set {k. map_visible M now k \<noteq> None \<and> in_scan (em_range M) prefix k \<and> U k}"
  by (simp add: listing_def comp_def in_scan_def conj_assoc)

lemma listing_sorted: "sorted_wrt (<) (map sn_key (listing M now prefix U))"
  unfolding listing_keys by (rule sorted_list_of_set.strict_sorted_key_list_of_set)

lemma listing_set:
  assumes "finite {k. em_entries M k \<noteq> None}"
  shows "sn_key ` set (listing M now prefix U) = {k. map_visible M now k \<noteq> None \<and> in_scan (em_range M) prefix k \<and> U k}"
    and "e \<in> set (listing M now prefix U) \<Longrightarrow> map_visible M now (sn_key e) = Some (sn_record e)"
proof -
  have fin: "finite {k. map_visible M now k \<noteq> None \<and> in_scan (em_range M) prefix k \<and> U k}"
    by (rule finite_subset[OF _ assms]) (auto simp: map_visible_def bind_eq_Some_conv)
  have "sn_key ` set (listing M now prefix U) = set (map sn_key (listing M now prefix U))" by simp
  then show keys: "sn_key ` set (listing M now prefix U) = {k. map_visible M now k \<noteq> None \<and> in_scan (em_range M) prefix k \<and> U k}"
    unfolding listing_keys using fin by simp
  assume e: "e \<in> set (listing M now prefix U)"
  then have "map_visible M now (sn_key e) \<noteq> None" using keys by blast
  moreover have "sn_record e = the (map_visible M now (sn_key e))" using e by (auto simp: listing_def)
  ultimately show "map_visible M now (sn_key e) = Some (sn_record e)" by simp
qed

lemma sorted_le_last: "sorted_wrt (<) xs \<Longrightarrow> x \<in> set xs \<Longrightarrow> x \<le> last (xs :: 'a::linorder list)"
  by (induction xs) (auto simp: less_imp_le)

lemma sorted_take_below:
  assumes "sorted_wrt (<) xs" and "x \<in> set xs" and "0 < n" "n \<le> length xs" and "x \<le> last (take n xs)"
  shows "x \<in> set (take n (xs :: 'a::linorder list))"
proof -
  obtain i where i: "i < length xs" "x = xs ! i" using assms(2) by (metis in_set_conv_nth)
  have "last (take n xs) = xs ! (n - 1)" using assms(3,4) by (subst last_conv_nth) (auto simp: min_def)
  then have "\<not> n - 1 < i" using assms(1,5) i sorted_wrt_nth_less[OF assms(1), of "n - 1" i] by auto
  then show ?thesis using i assms(3,4) by (auto simp: in_set_conv_nth intro!: exI[of _ i])
qed

lemma engine_ok_scan:
  assumes "engine_ok env room n eg RS" and "page_matches env room n (eg_partition eg) (eg_io eg) RS page out"
  obtains c where "out = ((eg_partition eg, (eg_io eg)\<lparr>io_cache := c\<rparr>), Inr page)"
    "engine_ok env room n (eg\<lparr>eg_partition := eg_partition eg, eg_io := (eg_io eg)\<lparr>io_cache := c\<rparr>\<rparr>) RS"
  using assms by (auto simp: page_matches_def engine_ok_def phase_ok_def split: flush_phase.splits)

definition scan_lists where
  "scan_lists b r prefix after out Ms \<longleftrightarrow> list_all2 (page_ok b prefix after) out Ms
    \<and> sorted_wrt (<) (map sn_key (found_in out))
    \<and> (out \<noteq> [] \<and> pg_cursor (last (pages_of out)) = None \<longrightarrow>
        (\<forall>k. in_scan r prefix k \<and> beyond after k \<and> list_all2 (\<lambda>(_, now, _) M. map_visible M now k \<noteq> None) out Ms
             \<longrightarrow> k \<in> sn_key ` set (found_in out)))"

lemma found_in_Cons [simp]: "found_in ((evs, now, Inr page) # out) = pg_entries page @ found_in out" "found_in [] = []"
  by (simp_all add: found_in_def pages_of_def)

lemma pages_of_Cons [simp]: "pages_of ((evs, now, Inr page) # out) = page # pages_of out" "pages_of [] = []" "(pages_of out = []) = (out = [])"
  by (simp_all add: pages_of_def)

lemma found_in_page:
  assumes "list_all2 (page_ok b prefix after) out Ms" and "e \<in> set (found_in out)"
  shows "beyond after (sn_key e)"
  using assms by (induction out Ms rule: list_all2_induct) (auto simp: page_ok_def)

text \<open>A first page in front of the rest of a scan.\<close>

lemma scan_lists_Cons:
  assumes fin: "finite {k. em_entries M k \<noteq> None}" and range: "em_range M = r"
    and page: "page = page_of prefix (take n (listing M now prefix (beyond after)), n = length (listing M now prefix (beyond after)))"
    and n: "n \<le> length (listing M now prefix (beyond after))" "within_budget b (take n (listing M now prefix (beyond after)))"
      "listing M now prefix (beyond after) \<noteq> [] \<Longrightarrow> 0 < n"
    and rest: "n < length (listing M now prefix (beyond after)) \<Longrightarrow> scan_lists b r prefix (Some (sn_key (last (take n (listing M now prefix (beyond after)))))) out Ms"
      "n = length (listing M now prefix (beyond after)) \<Longrightarrow> out = [] \<and> Ms = []"
  shows "scan_lists b r prefix after ((evs, now, Inr page) # out) (M # Ms)"
proof -
  let ?xs = "listing M now prefix (beyond after)"
  have entries: "pg_entries page = take n ?xs" using page by (simp add: page_of_def)
  have keys: "sn_key ` set ?xs = {k. map_visible M now k \<noteq> None \<and> in_scan r prefix k \<and> beyond after k}"
    using listing_set(1)[OF fin] range by metis
  have in_xs: "e \<in> set ?xs \<Longrightarrow> in_scan r prefix (sn_key e) \<and> beyond after (sn_key e) \<and> map_visible M now (sn_key e) = Some (sn_record e)" for e
    using keys listing_set(2)[OF fin] by blast
  have ok: "page_ok b prefix after (evs, now, Inr page) M"
    using n in_xs range entries page by (auto simp: page_ok_def page_of_def cursor_after_def last_opt_def dest: in_set_takeD split: if_splits)
  have sorted: "sorted_wrt (<) (map sn_key ?xs)" by (rule listing_sorted)
  show ?thesis
  proof (cases "n = length ?xs")
    case True
    then have "out = []" "Ms = []" "pg_entries page = ?xs" using rest(2) entries by auto
    then show ?thesis using ok sorted keys by (auto simp: scan_lists_def)
  next
    case False
    let ?k = "sn_key (last (take n ?xs))"
    have lt: "n < length ?xs" "0 < n" using n False by (cases "?xs = []"; simp)+
    have ne: "take n ?xs \<noteq> []" using lt by auto
    have cur: "pg_cursor page \<noteq> None" using page lt ne by (simp add: page_of_def cursor_after_def last_opt_def)
    note r = rest(1)[OF lt(1), unfolded scan_lists_def]
    have last_in: "last (take n ?xs) \<in> set ?xs" using ne last_in_set in_set_takeD by metis
    then have after: "beyond after ?k" using in_xs by blast
    have mono: "beyond after k" if "beyond (Some ?k) k" for k using after that by (auto simp: beyond_def split: option.splits)
    have all2: "list_all2 (page_ok b prefix after) out Ms"
      using r mono by (auto simp: page_ok_def elim!: list_all2_mono)
    have first: "sorted_wrt (<) (map sn_key (take n ?xs))" using sorted sorted_wrt_take[of "(<)" "map sn_key ?xs" n] by (simp add: take_map)
    have below: "x \<le> ?k" if "x \<in> set (map sn_key (take n ?xs))" for x
      using sorted_le_last[OF first that] last_map[OF ne, of sn_key] by simp
    have sorted': "sorted_wrt (<) (map sn_key (take n ?xs) @ map sn_key (found_in out))"
    proof -
      have "x < y" if "x \<in> set (map sn_key (take n ?xs))" "y \<in> set (map sn_key (found_in out))" for x y
        using below[OF that(1)] found_in_page[of b prefix "Some ?k" out Ms] r that(2) by (fastforce simp: beyond_def)
      then show ?thesis using first r by (auto simp: sorted_wrt_append)
    qed
    have "k \<in> sn_key ` set (found_in ((evs, now, Inr page) # out))"
      if k: "in_scan r prefix k" "beyond after k" "map_visible M now k \<noteq> None" "list_all2 (\<lambda>(_, now, _) M. map_visible M now k \<noteq> None) out Ms"
        and "out \<noteq> []" "pg_cursor (last (pages_of out)) = None" for k
    proof (cases "?k < k")
      case True
      then show ?thesis using r k that(5,6) by (auto simp: beyond_def)
    next
      case False
      have "k \<in> set (map sn_key ?xs)" using k keys by auto
      moreover have "last (take n (map sn_key ?xs)) = ?k" using ne by (simp add: take_map last_map)
      ultimately have "k \<in> set (take n (map sn_key ?xs))" using sorted_take_below[OF sorted, of k n] False lt by simp
      then show ?thesis using entries by (auto simp: take_map)
    qed
    then show ?thesis unfolding scan_lists_def using ok all2 sorted' entries cur by auto
  qed
qed

context storage
begin

lemma scan_run_lists:
  assumes asks: "scan_asks b prefix" and codec: "codec_reads_back (en_codec env)"
  shows "engine_ok env room (2 * length (concat (map fst segs))) eg RS \<Longrightarrow>
    scan_lists b (em_range (map_of_engine RS eg)) prefix after (scan_run env prefix b (cursor_after prefix after) segs eg)
      (map_history (map fst (scan_run env prefix b (cursor_after prefix after) segs eg)) (map_of_engine RS eg))"
proof (induction segs arbitrary: eg RS after)
  case (Cons seg segs)
  obtain evs now where seg: "seg = (evs, now)" by (cases seg)
  obtain eg1 replies where run: "storage_run env evs eg = (eg1, replies)" by fastforce
  let ?m = "2 * length (concat (map fst segs))"
  have "engine_ok env room (2 * length evs + ?m) eg RS" using Cons.prems seg by simp
  from storage_run_map[OF this codec] run obtain RS1 where eg1: "engine_ok env room ?m eg1 RS1"
    "map_run (admitted evs replies) (map_of_engine RS eg) = (map_of_engine RS1 eg1, filter (\<lambda>r. r \<noteq> Waiting) replies)"
    by auto
  let ?M = "map_of_engine RS1 eg1"
  let ?xs = "listing ?M now prefix (beyond after)"
  have M: "fst (map_run (admitted evs replies) (map_of_engine RS eg)) = ?M" using eg1(2) by simp
  then have range: "em_range ?M = em_range (map_of_engine RS eg)" using map_run_range by metis
  have ok: "storage_ok env room ?m (eg_partition eg1) (eg_io eg1) RS1" using eg1(1) by (simp add: engine_ok_def)
  then have fin: "finite {k. em_entries ?M k \<noteq> None}" using finite_contents by (auto simp: storage_ok_def)
  have small: "entry_size b e < 2 ^ 33" if "e \<in> set ?xs" for e
  proof -
    have "map_visible ?M now (sn_key e) = Some (sn_record e)" by (rule listing_set(2)[OF fin that])
    then obtain x where x: "contents RS1 (eg_partition eg1) (sn_key e) = Some x" "visible_at x now = Some (sn_record e)"
      by (auto simp: map_visible_def map_of_partition_def bind_eq_Some_conv)
    show ?thesis using contents_small[OF ok x(1)] visible_at_version[OF x(2)] by (simp add: entry_size_def)
  qed
  have "\<exists>n\<le>length ?xs. fill_page b ?xs [] 0 = ([] @ take n ?xs, n = length ?xs) \<and> within_budget b ([] @ take n ?xs)
      \<and> ([] = ([] :: scan_entry list) \<longrightarrow> ?xs \<noteq> [] \<longrightarrow> sb_max_entries b \<noteq> 0 \<longrightarrow> 0 < n)"
    by (rule fill_page_takes) (use small scan_asks_limit[OF asks] in \<open>auto simp: within_budget_def page_size_def\<close>)
  then obtain n where n: "n \<le> length ?xs" "fill_page b ?xs [] 0 = (take n ?xs, n = length ?xs)" "within_budget b (take n ?xs)" "?xs \<noteq> [] \<Longrightarrow> 0 < n"
    using asks by (auto simp: scan_asks_def)
  let ?page = "page_of prefix (take n ?xs, n = length ?xs)"
  have "page_matches env room ?m (eg_partition eg1) (eg_io eg1) RS1 ?page
      (partition_scan env now prefix (cursor_after prefix after) b (eg_partition eg1, eg_io eg1))"
    using partition_scan_page[OF ok asks, where now = now and after = after] by (simp add: n(2))
  from engine_ok_scan[OF eg1(1) this] obtain c where c:
    "partition_scan env now prefix (cursor_after prefix after) b (eg_partition eg1, eg_io eg1) = ((eg_partition eg1, (eg_io eg1)\<lparr>io_cache := c\<rparr>), Inr ?page)"
    "engine_ok env room ?m (eg1\<lparr>eg_partition := eg_partition eg1, eg_io := (eg_io eg1)\<lparr>io_cache := c\<rparr>\<rparr>) RS1" .
  let ?eg = "eg1\<lparr>eg_partition := eg_partition eg1, eg_io := (eg_io eg1)\<lparr>io_cache := c\<rparr>\<rparr>"
  let ?out = "case pg_cursor ?page of None \<Rightarrow> [] | Some cur \<Rightarrow> scan_run env prefix b (Some cur) segs ?eg"
  have out: "scan_run env prefix b (cursor_after prefix after) (seg # segs) eg = (admitted evs replies, now, Inr ?page) # ?out"
    by (simp add: seg run c(1))
  have rest: "scan_lists b (em_range (map_of_engine RS eg)) prefix (Some (sn_key (last (take n ?xs)))) ?out (map_history (map fst ?out) ?M)" if "n < length ?xs"
  proof -
    have "take n ?xs \<noteq> []" using that n(4) by (cases "?xs = []") simp_all
    then have "pg_cursor ?page = cursor_after prefix (Some (sn_key (last (take n ?xs))))" using that by (simp add: page_of_def last_opt_def)
    moreover have "map_of_engine RS1 ?eg = ?M" by simp
    ultimately show ?thesis using Cons.IH[OF c(2), of "Some (sn_key (last (take n ?xs)))"] range by (simp add: cursor_after_def)
  qed
  have ends: "n = length ?xs \<Longrightarrow> ?out = [] \<and> map_history (map fst ?out) ?M = []" by (simp add: page_of_def)
  show ?case unfolding out list.map fst_conv map_history.simps M
    by (rule scan_lists_Cons[OF fin range refl n(1,3,4) rest ends])
qed (simp add: scan_lists_def)

end

lemma scan_run_stops:
  "list_all2 (page_ok b' prefix' after) (scan_run env prefix b cursor segs eg) Ms \<Longrightarrow> length (scan_run env prefix b cursor segs eg) < length segs \<Longrightarrow>
    scan_run env prefix b cursor segs eg \<noteq> [] \<and> pg_cursor (last (pages_of (scan_run env prefix b cursor segs eg))) = None"
proof (induction segs arbitrary: cursor eg Ms)
  case (Cons seg segs)
  obtain evs now where seg: "seg = (evs, now)" by (cases seg)
  obtain eg1 replies where run: "storage_run env evs eg = (eg1, replies)" by fastforce
  obtain p io r where scan: "partition_scan env now prefix cursor b (eg_partition eg1, eg_io eg1) = ((p, io), r)" by (metis surj_pair)
  let ?eg = "eg1\<lparr>eg_partition := p, eg_io := io\<rparr>"
  obtain page where page: "r = Inr page" using Cons.prems(1) seg run scan by (auto simp: page_ok_def list_all2_Cons1)
  show ?case
  proof (cases "pg_cursor page")
    case (Some cur)
    let ?out = "scan_run env prefix b (Some cur) segs ?eg"
    have out: "scan_run env prefix b cursor (seg # segs) eg = (admitted evs replies, now, Inr page) # ?out" using seg run scan page Some by simp
    then obtain Ms' where Ms': "list_all2 (page_ok b' prefix' after) ?out Ms'" using Cons.prems(1) by (auto simp: list_all2_Cons1)
    have "length ?out < length segs" using Cons.prems(2) out by simp
    from Cons.IH[OF Ms' this] show ?thesis unfolding out by simp
  qed (use seg run scan page in simp)
qed simp

text \<open>
  C7. A scan lists every key once. A caller reads the keys with a prefix page by page, following the cursors, while between
  the pages the partition is read, written, flushed and replayed to in any way. Every page is within its budget of entries
  and bytes (a single entry may exceed the bytes) and not empty unless it is the last, and holds records that are visible in the map at
  that moment; the keys of all pages ascend strictly, so none comes twice; and when the last page has no cursor, every key with the
  prefix that was visible at each of the pages has been returned. The scan is over only when a page has no cursor. The bucket is
  the memory store, which does not fail and has no other writer.
\<close>

theorem scan_lists_each_key_once:
  assumes "codec_reads_back c" and "2 * length (concat (map fst segs)) < 2 ^ 32" and "scan_asks b prefix"
  shows "\<exists>p out Ms. partition_open (memory_env c crc) (ms_new clock) path e r = Inr p
    \<and> out = scan_run (memory_env c crc) prefix b None segs (node_of (ms_new clock) window budget p)
    \<and> Ms = map_history (map fst out) (map_empty r)
    \<and> list_all2 (page_ok b prefix None) out Ms
    \<and> sorted_wrt (<) (map sn_key (found_in out))
    \<and> (length out < length segs \<longrightarrow> out \<noteq> [] \<and> pg_cursor (last (pages_of out)) = None)
    \<and> (out \<noteq> [] \<and> pg_cursor (last (pages_of out)) = None \<longrightarrow>
        (\<forall>k. in_scan r prefix k \<and> list_all2 (\<lambda>(_, now, _) M. map_visible M now k \<noteq> None) out Ms \<longrightarrow> k \<in> sn_key ` set (found_in out)))"
proof -
  obtain p where p: "partition_open (memory_env c crc) (ms_new clock) path e r = Inr p"
    "engine_ok (memory_env c crc) ms_room (2 * length (concat (map fst segs))) (node_of (ms_new clock) window budget p) []" "map_of_partition [] p = map_empty r"
    by (rule open_new_store[OF assms(2)])
  let ?eg = "node_of (ms_new clock) window budget p"
  let ?out = "scan_run (memory_env c crc) prefix b None segs ?eg"
  have M: "map_of_engine [] ?eg = map_empty r" using p(3) by (simp add: node_of_def)
  have "scan_lists b r prefix None ?out (map_history (map fst ?out) (map_empty r))"
    using mem_storage.scan_run_lists[OF assms(3) _ p(2), of None] assms(1) unfolding M by (simp add: cursor_after_def map_empty_def)
  note lists = this[unfolded scan_lists_def]
  then have "length ?out < length segs \<longrightarrow> ?out \<noteq> [] \<and> pg_cursor (last (pages_of ?out)) = None" using scan_run_stops by blast
  moreover have "beyond None k" for k by (simp add: beyond_def)
  ultimately show ?thesis using p(1) lists by (intro exI conjI) (rule refl | blast)+
qed

text \<open>Two keys, read one at a time, the first of them deleted before the second page.\<close>

definition sample_pages :: "(storage_event list \<times> u64) list" where
  "sample_pages = [([Put 5 1 [1] [2] None Unconditional, FlushBegin False, FlushPublish, FlushInstall, Put 5 2 [1, 7] [3] None Unconditional], 6),
     ([Delete 6 3 [1] Unconditional], 7)]"

theorem scan_lists_each_key_once_witness:
  "\<exists>p out Ms. partition_open (memory_env sample_codec (\<lambda>_. 0)) (ms_new None) sample_path 3 unbounded = Inr p
    \<and> out = scan_run (memory_env sample_codec (\<lambda>_. 0)) [1] (budget_of_entries 1) None sample_pages (node_of (ms_new None) 64 100 p)
    \<and> Ms = map_history (map fst out) (map_empty unbounded)
    \<and> list_all2 (page_ok (budget_of_entries 1) [1] None) out Ms
    \<and> sorted_wrt (<) (map sn_key (found_in out))"
proof -
  have "2 * length (concat (map fst sample_pages)) < 2 ^ 32" by (simp add: sample_pages_def)
  moreover have "scan_asks (budget_of_entries 1) [1]" by (simp add: scan_asks_def budget_of_entries_def max_list_limit_def max_key_bytes_def)
  ultimately show ?thesis using scan_lists_each_key_once[OF sample_codec_reads_back] by blast
qed

end
