(* ===== verification/Spec2Isabelle.thy ===== *)
theory Spec2Isabelle
  imports Cluster_Views Lease Wal_Commit Seg_Commit Seg_Compact Cache_Lru Storage_Recover Storage_Scan
begin

text \<open>
  Orbita is a replicated key-value store over object storage. A control plane, replicated by Raft, decides which keys form a partition
  and which node owns it at which epoch. The owner of a partition orders its writes by Lamports, keeps them in a write-ahead log,
  replicates the log to the partition's replicas, applies committed entries to a storage engine, and publishes the
  engine's contents as immutable segments and one mutable manifest in a bucket. Replicas serve reads under leases. This development models
  these parts as they are written in Rust and proves what they promise each other.

  \<^bold>\<open>The theories and what they model\<close> (all paths below \<open>src/crates/\<close>)

  \<^item> \<open>Prelude\<close>: machine integers as words, byte strings, \<open>Result\<close> as a sum, \<open>BTreeMap\<close> as a sorted association list, actions
    (a state, an error or a result), and the lemma collections that the components share.
  \<^item> \<open>Core\<close>, \<open>Key_Range\<close>, \<open>Partition_Map\<close> (\<open>orbita-core\<close>: \<open>ids.rs\<close>, \<open>record.rs\<close>, \<open>limits.rs\<close>, \<open>error.rs\<close>, \<open>range.rs\<close>, \<open>map.rs\<close>):
    the error type is a datatype with one constructor for each of the code's, messages as data. The coverage check of a map is shown to decide that
    every key has exactly one partition; ranges split and merge exactly. \<open>Key_Range\<close> states the algebra of ranges as a locale.
  \<^item> \<open>Codec\<close>, \<open>Version\<close>, \<open>Model\<close>, \<open>Membership\<close>, \<open>Command\<close> (\<open>orbita-control\<close>: \<open>codec.rs\<close>, \<open>version.rs\<close>, \<open>model.rs\<close>, \<open>membership.rs\<close>,
    \<open>command.rs\<close>): the bytes of the replicated log. The locale \<open>codec\<close> is the contract of a prefix-free encoder and its decoder, and it is
    interpreted for every encoder up to whole commands; \<open>lossy_codec\<close> does the same for the wire shapes of older releases.
  \<^item> \<open>Cluster_State\<close>, \<open>Cluster_Reshape\<close>, \<open>Cluster_Inv\<close>, \<open>Cluster_Run\<close>, \<open>Cluster_Safety\<close>, \<open>Cluster_Views\<close> (\<open>state.rs\<close>): the state machine, one
    definition for each command and \<open>apply_command\<close> over them; the invariant; runs as instances of the locale \<open>log_machine\<close>; the theorems on
    coverage, fencing, identity, refusals, splits, merges and transfers, and what the views return.
  \<^item> \<open>Wal_Format\<close>, \<open>Wal_Log\<close>, \<open>Wal_Recovery\<close>, \<open>Wal_Refine\<close>, \<open>Wal_Durability\<close> (\<open>orbita-wal\<close>: \<open>format.rs\<close>, \<open>log.rs\<close>, over the disk of
    \<open>orbita-runtime/src/disk.rs\<close>): a log directory on a disk whose files have a synced and an unsynced part and any call of which may
    fail. The log refines an abstract log of entries, and this survives a crash at any point; two theorems show what does not survive a
    checkpoint and a retried append.
  \<^item> \<open>Wal_Wire\<close>, \<open>Wal_Replica\<close>, \<open>Wal_Follow\<close> (\<open>wire.rs\<close>, \<open>replica.rs\<close>): the replication messages and the service that answers them; a
    replica's log stays a prefix of its owner's history, whether it catches up from messages or by adopting a manifest from the bucket, and a
    fence holds.
  \<^item> \<open>Wal_Owner\<close>, \<open>Wal_Quorum\<close>, \<open>Wal_Commit\<close> (\<open>owner.rs\<close>): the owner. \<open>Wal_Owner\<close> has one definition for each stretch of code between two
    awaits; \<open>Wal_Quorum\<close> interleaves them with the replicas and a network that delays, repeats and loses messages; \<open>Wal_Commit\<close> has the
    invariant and shows that what a client was told is committed is on a quorum.
  \<^item> \<open>Lease\<close> (\<open>orbita-server/src/lease.rs\<close>): read leases and invalidation.
  \<^item> \<open>Seg_Record\<close>, \<open>Seg_Segment\<close>, \<open>Seg_Paths\<close>, \<open>Seg_Manifest\<close>, \<open>Seg_Compact\<close> (\<open>orbita-format\<close>: \<open>record.rs\<close>, \<open>error.rs\<close>, \<open>segment.rs\<close>,
    \<open>paths.rs\<close>, \<open>manifest.rs\<close>, \<open>compact.rs\<close>): the objects of a partition, their names and bytes, validation, and merges that change no read.
  \<^item> \<open>Obj_Store\<close>, \<open>Seg_Commit\<close>, \<open>Seg_Snapshot\<close> (\<open>orbita-objectstore/src/lib.rs\<close>; \<open>testing.rs\<close>, \<open>commit.rs\<close>, \<open>snapshot.rs\<close> of \<open>orbita-format\<close>):
    the contract of the object store as the locale \<open>object_store\<close>, interpreted by the in-memory store; the commit protocol between racing
    writers over any store that meets it; and reading a partition back.
  \<^item> \<open>Storage_Base\<close>, \<open>Value_Cache\<close>, \<open>Cache_Lru\<close>, \<open>Storage\<close>, \<open>Storage_Inv\<close>, \<open>Storage_Flush\<close>, \<open>Storage_Map\<close>, \<open>Storage_Open\<close>, \<open>Storage_Recover\<close>, \<open>Storage_Scan\<close>
    (\<open>orbita-storage\<close>: \<open>partition.rs\<close>, \<open>mutation.rs\<close>, \<open>cache.rs\<close>, \<open>cursor.rs\<close>): the storage engine. The locale \<open>storage\<close> extends \<open>object_store\<close> by the
    engine's environment; in it a partition with a table, an index, a cache and segments refines a map, through flushes that
    are cancelled between their steps, a partition that disappears is recovered from the bucket and
    the log, and a paged scan lists every key once while the partition is written. These three are stated for the in-memory store: its calls
    do not fail and no other writer competes for the manifest. \<open>Cache_Lru\<close> shows that the value cache refines a list in the order of
    the last accesses.

  \<^bold>\<open>How the parts meet\<close>

  \<open>Command\<close> gives the control plane's log its bytes, and \<open>Cluster_Safety\<close> says that an epoch has one owner. \<open>Wal_Follow\<close> says that a
  replica which has heard of an epoch refuses every lower one, and \<open>Wal_Commit\<close> that what an owner of one epoch commits is on the disks of
  a quorum, or of replicas that have moved to a newer epoch. \<open>Wal_Durability\<close> says that what is on a disk is there after a crash, and
  \<open>Storage_Recover\<close> that the log from the manifest's horizon on gives back the partition.

  \<^bold>\<open>Integers, bounds and fuel\<close>

  Counters are 64-bit words and wrap as in a release build, which has no overflow checks. Theorems that need a counter not to wrap say so:
  \<open>no_wrap\<close> for the epochs and versions of the control plane, \<open>seq_room\<close> for segment numbers of a log, a bound on the
  length of a history for Lamports. The counters of the value cache are natural numbers; \<open>Cache_Lru\<close> shows that over fewer than \<open>2 ^ 64\<close> accesses with a budget
  below \<open>2 ^ 63\<close> none of them leaves 64 bits, so they agree with the code's. No definition uses fuel: every loop is structural or has a
  termination proof, and the retry loops of the code take what the other side answers as an argument.

  \<^bold>\<open>The convention on ids\<close>

  \<open>well_proposed\<close> asks of a command that the partition ids it allocates are distinct and at or above \<open>next_partition_id\<close>, and not the last id of the
  type. From protocol 0.2 on the state machine enforces freshness itself (\<open>ensure_unissued\<close>), so only the last id is left to ask; before that it is a convention of
  the proposers that nothing checks. Theorems about runs name it as the hypothesis \<open>lawful\<close> (with \<open>no_wrap\<close>: \<open>unwrapped\<close>), and
  \<open>Cluster_Safety\<close> exhibits accepted 0.1 runs that break it: one ends in an \<open>Internal\<close> error, one gives an id and an epoch two owners.
  \<open>ids_never_reused\<close> asks nothing of the ids that are proposed once 0.2 is active.

  \<^bold>\<open>Parameters\<close>

  The checksums, base64, and the JSON text of a manifest belong to packages; they are functions the definitions take, and where a theorem needs
  a law of one of them the law is a hypothesis that a witness meets. So are the bucket, the hydrator of a replica, the transport between nodes and the
  choice of the winner when two tasks race.

  \<^bold>\<open>Atomicity\<close>

  Handlers run under the mutex the code holds, so each is one step. Where the code lets go of a mutex the model has several steps: a
  flush is captured, published and installed (the upload of its segment and the commit of the manifest are one step, so a stop between the two, which
  leaves an object that no manifest names, is not an event); the owner's tasks stop at each await; a commit reads and then swaps. \<open>quiesce\<close> cuts the log and then updates
  its state; the model takes both in one step, since a quiesced owner accepts nothing in between. In the quorum machine the owner's disk does not
  fail (a failing disk makes the owner fatal, which \<open>flush_batch\<close> models), and \<open>promote\<close> and \<open>set_replicas\<close> are not events. An answer that
  does not decode counts as no answer, so \<open>replica_status\<close> reports it as unavailable where the code has an internal error.

  \<^bold>\<open>Where the code departs from its comments\<close>

  Theorems show a refused \<open>SetReplicas\<close> that drops a split, a split that completes on a former holder, reserved ids taken below protocol 0.2, a fence
  forgotten by a checkpoint, acknowledged entries lost behind a retried append, and a first append under a new epoch that keeps a divergent entry.

  \<^bold>\<open>Not modelled\<close>

  Raft and the controller loop around the state machine, authentication, the gRPC services, the leader-worker messages, preparing the children of
  a split and bounded compaction inside the storage engine, the sweep of orphaned objects, the S3 and file system stores,
  node hosting, routing, quotas, configuration, the command line, metrics and the simulator. Most are asynchronous glue, I/O or reporting; the
  controller, the preparation of children and the sweep have logic of their own.
\<close>

end
